(* ===== verification/Prelude.thy ===== *)
theory Prelude
  imports Complex_Main
begin

text \<open>
  Shared vocabulary of the development: the Python exceptions the modelled code can raise,
  the outcome type of a state-changing method, byte strings, Python's \<open>min\<close>/\<open>max\<close> with a key,
  list slices, and the four-byte encoding of token ids.
  A method that mutates its object and may raise is a function into
  \<open>(py_error + 'a) \<times> 's\<close>: the state survives the exception, as it does in Python.
\<close>

named_theorems frame_simps \<open>what an operation leaves unchanged\<close>

section \<open>Exceptions and outcomes\<close>

datatype py_error =
    ValueError
  | RuntimeError
  | AssertionError
  | KeyError
  | IndexError
  | AttributeError
  | OverflowError
  | ZeroDivisionError
  | TypeError
  | StopIteration
  | StructError \<comment> \<open>\<open>struct.error\<close>\<close>
  | Diverges \<comment> \<open>not an exception: the loop did not return within its fuel\<close>

type_synonym ('a, 's) outcome = "(py_error + 'a) \<times> 's"

definition returns :: "('a, 's) outcome \<Rightarrow> bool" where
  "returns r \<longleftrightarrow> (\<exists>a. fst r = Inr a)"

lemma returns_simps [simp]: "returns (Inr a, s)" "\<not> returns (Inl e, s)"
  by (auto simp: returns_def)

text \<open>Calling on with the result of a call that returned; an exception passes through.\<close>

definition obind :: "('a, 's) outcome \<Rightarrow> ('a \<Rightarrow> 's \<Rightarrow> ('b, 's) outcome) \<Rightarrow> ('b, 's) outcome" where
  "obind r k = (case r of (Inl e, s) \<Rightarrow> (Inl e, s) | (Inr a, s) \<Rightarrow> k a s)"

lemma obind_simps [simp]: "obind (Inl e, s) k = (Inl e, s)" "obind (Inr a, s) k = k a s"
  by (simp_all add: obind_def)

section \<open>Python's min and max with a key\<close>

text \<open>Python keeps the first extreme element.\<close>

fun min_by :: "('a \<Rightarrow> 'k::linorder) \<Rightarrow> 'a \<Rightarrow> 'a list \<Rightarrow> 'a" where
  "min_by f m [] = m"
| "min_by f m (x # xs) = min_by f (if f x < f m then x else m) xs"

fun max_by :: "('a \<Rightarrow> 'k::linorder) \<Rightarrow> 'a \<Rightarrow> 'a list \<Rightarrow> 'a" where
  "max_by f m [] = m"
| "max_by f m (x # xs) = max_by f (if f m < f x then x else m) xs"

lemma min_by_in: "min_by f m xs \<in> insert m (set xs)"
  by (induction xs arbitrary: m) (auto split: if_splits)

lemma min_by_le_start: "f (min_by f m xs) \<le> f m"
  by (induction xs arbitrary: m) (auto intro: order_trans order.strict_implies_order)

lemma min_by_le_set: "x \<in> set xs \<Longrightarrow> f (min_by f m xs) \<le> f x"
proof (induction xs arbitrary: m)
  case (Cons y ys)
  have "f (min_by f (if f y < f m then y else m) ys) \<le> f y"
    using min_by_le_start [of f y ys] min_by_le_start [of f m ys] by (auto intro: order_trans)
  with Cons show ?case by auto
qed simp

lemma min_by_le: "x \<in> insert m (set xs) \<Longrightarrow> f (min_by f m xs) \<le> f x"
  using min_by_le_start [of f m xs] min_by_le_set [of x xs f m] by auto

lemma max_by_in: "max_by f m xs \<in> insert m (set xs)"
  by (induction xs arbitrary: m) (auto split: if_splits)

lemma max_by_ge_start: "f m \<le> f (max_by f m xs)"
  by (induction xs arbitrary: m) (auto intro: order_trans order.strict_implies_order)

lemma max_by_ge_set: "x \<in> set xs \<Longrightarrow> f x \<le> f (max_by f m xs)"
proof (induction xs arbitrary: m)
  case (Cons y ys)
  have "f y \<le> f (max_by f (if f m < f y then y else m) ys)"
    using max_by_ge_start [of f y ys] max_by_ge_start [of f m ys] by (auto intro: order_trans)
  with Cons show ?case by auto
qed simp

lemma max_by_ge: "x \<in> insert m (set xs) \<Longrightarrow> f x \<le> f (max_by f m xs)"
  using max_by_ge_start [of f m xs] max_by_ge_set [of x xs f m] by auto

text \<open>The element before the winner in the list are strictly worse: the first one wins.\<close>

lemma min_by_first:
  "\<exists>ys zs. m # xs = ys @ min_by f m xs # zs \<and> (\<forall>y\<in>set ys. f (min_by f m xs) < f y)"
proof (induction xs arbitrary: m)
  case Nil
  then show ?case by force
next
  case (Cons x xs)
  show ?case
  proof (cases "f x < f m")
    case True
    from Cons.IH [of x] obtain ys zs where
      split: "x # xs = ys @ min_by f x xs # zs"
      and less: "\<forall>y\<in>set ys. f (min_by f x xs) < f y" by blast
    have "f (min_by f x xs) \<le> f x" by (rule min_by_le) simp
    with True have "f (min_by f x xs) < f m" by simp
    moreover have "min_by f m (x # xs) = min_by f x xs" using True by simp
    ultimately show ?thesis using split less
      by (metis append_Cons set_ConsD)
  next
    case False
    from Cons.IH [of m] obtain ys zs where
      split: "m # xs = ys @ min_by f m xs # zs"
      and less: "\<forall>y\<in>set ys. f (min_by f m xs) < f y" by blast
    show ?thesis
    proof (cases ys)
      case Nil
      with split have "min_by f m xs = m" by (metis append_Nil list.inject)
      with False have "m # x # xs = [] @ min_by f m (x # xs) # (x # xs)" by simp
      then show ?thesis by (metis empty_iff empty_set)
    next
      case (Cons y ys')
      with split have "y = m" by simp
      with Cons less have "f (min_by f m xs) < f m" by simp
      with False have "f (min_by f m xs) < f x" by simp
      moreover have "min_by f m (x # xs) = min_by f m xs" using False by simp
      moreover have "m # x # xs = (m # x # ys') @ min_by f m xs # zs"
        using split Cons \<open>y = m\<close> by simp
      moreover have "\<forall>y\<in>set (m # x # ys'). f (min_by f m xs) < f y"
        using less Cons \<open>y = m\<close> \<open>f (min_by f m xs) < f x\<close> by simp
      ultimately show ?thesis by metis
    qed
  qed
qed

section \<open>List slices\<close>

text \<open>\<open>xs[i:j]\<close> for \<open>0 \<le> i\<close>, as Python clips it.\<close>

definition slice :: "'a list \<Rightarrow> nat \<Rightarrow> nat \<Rightarrow> 'a list" where
  "slice xs i j = take (j - i) (drop i xs)"

text \<open>\<open>xs[:n]\<close> and \<open>xs[n:]\<close>: a negative \<open>n\<close> counts from the end.\<close>

definition py_take :: "int \<Rightarrow> 'a list \<Rightarrow> 'a list" where
  "py_take n xs = (if n < 0 then take (length xs - nat (- n)) xs else take (nat n) xs)"

definition py_drop :: "int \<Rightarrow> 'a list \<Rightarrow> 'a list" where
  "py_drop n xs = (if n < 0 then drop (length xs - nat (- n)) xs else drop (nat n) xs)"

lemma py_take_nonneg [simp]: "0 \<le> n \<Longrightarrow> py_take n xs = take (nat n) xs"
  by (simp add: py_take_def)

lemma py_drop_nonneg [simp]: "0 \<le> n \<Longrightarrow> py_drop n xs = drop (nat n) xs"
  by (simp add: py_drop_def)

lemma length_slice [simp]: "length (slice xs i j) = min (j - i) (length xs - i)"
  by (simp add: slice_def min.commute)

lemma slice_append: "i \<le> j \<Longrightarrow> j \<le> k \<Longrightarrow> slice xs i j @ slice xs j k = slice xs i k"
proof -
  assume "i \<le> j" "j \<le> k"
  then obtain a b where "j = i + a" "k = i + a + b" by (metis le_add_diff_inverse)
  then show ?thesis
    by (simp add: slice_def take_add add.commute [of i a])
qed

lemma take_slice: "i \<le> j \<Longrightarrow> take i xs @ slice xs i j = take j xs"
proof -
  assume "i \<le> j"
  then obtain a where "j = i + a" by (metis le_add_diff_inverse)
  then show ?thesis by (simp add: slice_def take_add)
qed

lemma slice_0 [simp]: "slice xs 0 n = take n xs"
  by (simp add: slice_def)

lemma slice_empty [simp]: "slice xs i i = []"
  by (simp add: slice_def)

text \<open>The length of the longest common prefix.\<close>

fun common_prefix :: "'c list \<Rightarrow> 'c list \<Rightarrow> nat" where
  "common_prefix (a # as) (b # bs) = (if a = b then Suc (common_prefix as bs) else 0)"
| "common_prefix _ _ = 0"

lemma common_prefix_le: "common_prefix xs ys \<le> min (length xs) (length ys)"
  by (induction xs ys rule: common_prefix.induct) auto

lemma take_common_prefix:
  "n \<le> min (length xs) (length ys) \<Longrightarrow> take n xs = take n ys \<longleftrightarrow> n \<le> common_prefix xs ys"
proof (induction xs ys arbitrary: n rule: common_prefix.induct)
  case (1 a as b bs)
  then show ?case by (cases n) auto
qed auto

section \<open>Byte strings\<close>

type_synonym bytes = "char list"

text \<open>\<open>n.to_bytes(4, "big")\<close>: OverflowError below 0 and from \<open>2 ^ 32\<close> on.\<close>

definition to_bytes4 :: "int \<Rightarrow> py_error + bytes" where
  "to_bytes4 n = (if n < 0 \<or> 2 ^ 32 \<le> n then Inl OverflowError
     else let m = nat n in Inr
       [char_of (m div 16777216), char_of (m div 65536 mod 256),
        char_of (m div 256 mod 256), char_of (m mod 256)])"

text \<open>The same over \<open>int\<close>, to evaluate with.\<close>

lemma to_bytes4_code [code]:
  "to_bytes4 n = (if n < 0 \<or> 4294967296 \<le> n then Inl OverflowError
     else Inr [char_of (nat (n div 16777216)), char_of (nat (n div 65536 mod 256)),
        char_of (nat (n div 256 mod 256)), char_of (nat (n mod 256))])"
proof (cases "0 \<le> n")
  case True
  then have "0 \<le> n div 65536" "0 \<le> n div 256" by (simp_all add: pos_imp_zdiv_nonneg_iff)
  then show ?thesis using True by (simp add: to_bytes4_def Let_def nat_div_distrib nat_mod_distrib)
qed (simp add: to_bytes4_def)

lemma to_bytes4_length: "to_bytes4 n = Inr bs \<Longrightarrow> length bs = 4"
  by (auto simp: to_bytes4_def Let_def split: if_splits)

lemma base_256: "m div 16777216 * 16777216 + m div 65536 mod 256 * 65536
    + m div 256 mod 256 * 256 + m mod 256 = (m::nat)"
proof -
  have "m = m div 256 * 256 + m mod 256" by simp
  moreover have "m div 256 = m div 65536 * 256 + m div 256 mod 256"
    using div_mult_mod_eq [of "m div 256" 256] by (simp add: div_mult2_eq [symmetric])
  moreover have "m div 65536 = m div 16777216 * 256 + m div 65536 mod 256"
    using div_mult_mod_eq [of "m div 65536" 256] by (simp add: div_mult2_eq [symmetric])
  ultimately show ?thesis by linarith
qed

lemma base_256_unique:
  fixes m n :: nat
  assumes "m div 16777216 = n div 16777216" and "m div 65536 mod 256 = n div 65536 mod 256"
    and "m div 256 mod 256 = n div 256 mod 256" and "m mod 256 = n mod 256"
  shows "m = n"
  using base_256 [of m] base_256 [of n] assms by (metis (no_types))

lemma of_char_of_small: "a < 256 \<Longrightarrow> of_char (char_of (a::nat)) = a"
  by simp

lemma to_bytes4_inj:
  assumes "to_bytes4 a = Inr bs" and "to_bytes4 b = Inr bs"
  shows "a = b"
proof -
  from assms have a: "0 \<le> a" "a < 2 ^ 32" and b: "0 \<le> b" "b < 2 ^ 32"
    by (auto simp: to_bytes4_def split: if_splits)
  from a b have hi: "nat a div 16777216 < 256" "nat b div 16777216 < 256" by simp_all
  have mods: "\<And>m. m mod 256 < (256::nat)" by simp
  from assms a b have chars:
    "char_of (nat a div 16777216) = (char_of (nat b div 16777216) :: char)"
    "char_of (nat a div 65536 mod 256) = (char_of (nat b div 65536 mod 256) :: char)"
    "char_of (nat a div 256 mod 256) = (char_of (nat b div 256 mod 256) :: char)"
    "char_of (nat a mod 256) = (char_of (nat b mod 256) :: char)"
    by (auto simp: to_bytes4_def Let_def)
  note eqs = chars [THEN arg_cong [where f = "of_char :: char \<Rightarrow> nat"]]
  from eqs hi have "nat a div 16777216 = nat b div 16777216"
    "nat a div 65536 mod 256 = nat b div 65536 mod 256"
    "nat a div 256 mod 256 = nat b div 256 mod 256"
    "nat a mod 256 = nat b mod 256"
    by (simp_all only: of_char_of_small mods)
  then have "nat a = nat b" by (rule base_256_unique)
  with a b show ?thesis by simp
qed

text \<open>\<open>b"".join(t.to_bytes(4, "big") for t in tokens)\<close>: stops at the first overflow.\<close>

fun token_bytes :: "int list \<Rightarrow> py_error + bytes" where
  "token_bytes [] = Inr []"
| "token_bytes (t # ts) = (case to_bytes4 t of Inl e \<Rightarrow> Inl e | Inr b \<Rightarrow>
     (case token_bytes ts of Inl e \<Rightarrow> Inl e | Inr bs \<Rightarrow> Inr (b @ bs)))"

lemma token_bytes_append:
  "token_bytes (xs @ ys) = (case token_bytes xs of Inl e \<Rightarrow> Inl e | Inr b \<Rightarrow>
     (case token_bytes ys of Inl e \<Rightarrow> Inl e | Inr c \<Rightarrow> Inr (b @ c)))"
  by (induction xs) (auto split: sum.splits)

lemma token_bytes_length: "token_bytes ts = Inr bs \<Longrightarrow> length bs = 4 * length ts"
  by (induction ts arbitrary: bs) (auto split: sum.splits dest: to_bytes4_length)

lemma token_bytes_inj:
  "token_bytes xs = Inr bs \<Longrightarrow> token_bytes ys = Inr bs \<Longrightarrow> xs = ys"
proof (induction xs arbitrary: ys bs)
  case Nil
  then show ?case using token_bytes_length [of ys bs] by simp
next
  case (Cons x xs)
  from Cons.prems(1) obtain b c where x: "to_bytes4 x = Inr b" "token_bytes xs = Inr c" "bs = b @ c"
    by (auto split: sum.splits)
  from Cons.prems token_bytes_length [of ys bs] x to_bytes4_length [of x b]
  obtain y ys' where ys: "ys = y # ys'" by (cases ys) auto
  from Cons.prems(2) ys obtain b' c' where
    y: "to_bytes4 y = Inr b'" "token_bytes ys' = Inr c'" "bs = b' @ c'"
    by (auto split: sum.splits)
  from x y to_bytes4_length [of x b] to_bytes4_length [of y b'] have "b = b'" "c = c'" by auto
  with Cons.IH [of c ys'] x y to_bytes4_inj [of x b y] ys show ?case by simp
qed

text \<open>Naming the result of a call whose value is known.\<close>

lemma fst_pair: "fst p = a \<Longrightarrow> p = (a, snd p)"
  by (cases p) simp

end
