(* ===== verification/FreeQueue.thy ===== *)
theory FreeQueue
  imports Prelude
begin

text \<open>
  \<^bold>\<open>rapid_mlx/paged_cache.py: CacheBlock and FreeKVCacheBlockQueue.\<close>
  The block objects live in a store \<open>heap\<close> from block ids to \<open>cache_block\<close> records; a Python
  reference to a block is its id. The store holds the two sentinels too, at ids \<open>-1\<close> and \<open>-2\<close>
  as the code numbers them. The free queue is the doubly linked list threaded through the
  \<open>prev_free_block\<close>/\<open>next_free_block\<close> fields, exactly as the code keeps it, and the queue's
  counter \<open>num_free_blocks\<close>. \<open>qinv s xs\<close> says that the pointers of \<open>s\<close> spell the list \<open>xs\<close>;
  the lemmas show that each pointer operation is the obvious operation on that list.
  A loop that walks the pointers takes fuel \<open>num_free_blocks + 1\<close>, and \<open>Diverges\<close> is what it
  gives on running out; under \<open>qinv\<close> that never happens.
  The field \<open>last_access\<close> (a wall-clock time no operation of the module reads) is left out.
\<close>

section \<open>Cache blocks\<close>

type_synonym bid = int
type_synonym digest = "char list"

record 't cache_block =
  block_id :: bid
  ref_count :: int
  block_hash :: "digest option"
  prev_free_block :: "bid option"
  next_free_block :: "bid option"
  is_null :: bool
  is_pinned :: bool
  cache_data :: "('t \<times> 't) list option"
  cache_class_name :: "string option"
  token_count :: int
  hash_value :: "string option"
  access_count :: int

definition new_block :: "bid \<Rightarrow> 't cache_block" where
  "new_block i = \<lparr>block_id = i, ref_count = 0, block_hash = None, prev_free_block = None,
     next_free_block = None, is_null = False, is_pinned = False, cache_data = None,
     cache_class_name = None, token_count = 0, hash_value = None, access_count = 0\<rparr>"

definition is_full :: "'t cache_block \<Rightarrow> int \<Rightarrow> bool" where
  "is_full b block_size \<longleftrightarrow> block_size \<le> token_count b"

definition is_shared :: "'t cache_block \<Rightarrow> bool" where
  "is_shared b \<longleftrightarrow> 1 < ref_count b"

definition reset_hash :: "'t cache_block \<Rightarrow> 't cache_block" where
  "reset_hash b = b\<lparr>block_hash := None, hash_value := None\<rparr>"

definition touch_block :: "'t cache_block \<Rightarrow> 't cache_block" where
  "touch_block b = b\<lparr>access_count := access_count b + 1\<rparr>"

section \<open>The store and the queue\<close>

record 't pool =
  heap :: "bid \<Rightarrow> 't cache_block"
  num_free_blocks :: int

definition fake_head :: bid where "fake_head = -1"
definition fake_tail :: bid where "fake_tail = -2"

definition upd_block :: "bid \<Rightarrow> ('t cache_block \<Rightarrow> 't cache_block) \<Rightarrow>
    ('t, 'z) pool_scheme \<Rightarrow> ('t, 'z) pool_scheme" where
  "upd_block i f s = s\<lparr>heap := (heap s)(i := f (heap s i))\<rparr>"

definition set_next :: "bid \<Rightarrow> bid option \<Rightarrow> ('t, 'z) pool_scheme \<Rightarrow> ('t, 'z) pool_scheme" where
  "set_next i v = upd_block i (\<lambda>b. b\<lparr>next_free_block := v\<rparr>)"

definition set_prev :: "bid \<Rightarrow> bid option \<Rightarrow> ('t, 'z) pool_scheme \<Rightarrow> ('t, 'z) pool_scheme" where
  "set_prev i v = upd_block i (\<lambda>b. b\<lparr>prev_free_block := v\<rparr>)"

abbreviation nxt :: "('t, 'z) pool_scheme \<Rightarrow> bid \<Rightarrow> bid option" where
  "nxt s i \<equiv> next_free_block (heap s i)"

abbreviation prv :: "('t, 'z) pool_scheme \<Rightarrow> bid \<Rightarrow> bid option" where
  "prv s i \<equiv> prev_free_block (heap s i)"

definition fuel_of :: "('t, 'z) pool_scheme \<Rightarrow> nat" where
  "fuel_of s = Suc (nat (num_free_blocks s))"

section \<open>Queue operations\<close>

text \<open>The constructor, over the blocks \<open>0 .. n-1\<close>: the linking loop, then the sentinels.\<close>

fun init_link :: "nat \<Rightarrow> nat list \<Rightarrow> ('t, 'z) pool_scheme \<Rightarrow> ('t, 'z) pool_scheme" where
  "init_link n [] s = s"
| "init_link n (i # is) s =
     (let s1 = (if 0 < i then set_prev (int i) (Some (int i - 1)) s else s);
          s2 = (if i < n - 1 then set_next (int i) (Some (int i + 1)) s1 else s1)
      in init_link n is s2)"

definition queue_init :: "nat \<Rightarrow> ('t, 'z) pool_scheme \<Rightarrow> ('t, 'z) pool_scheme" where
  "queue_init n s0 =
     (let s1 = init_link n [0..<n] (s0\<lparr>num_free_blocks := int n\<rparr>);
          s2 = upd_block fake_head (\<lambda>_. new_block fake_head) s1;
          s3 = upd_block fake_tail (\<lambda>_. new_block fake_tail) s2
      in if 0 < n then
           set_next (int n - 1) (Some fake_tail) (set_prev fake_tail (Some (int n - 1))
             (set_prev 0 (Some fake_head) (set_next fake_head (Some 0) s3)))
         else set_prev fake_tail (Some fake_head) (set_next fake_head (Some fake_tail) s3))"

text \<open>\<open>while block is not self.fake_tail and block.is_pinned: block = block.next_free_block\<close>\<close>

fun skip_pinned :: "nat \<Rightarrow> ('t, 'z) pool_scheme \<Rightarrow> bid option \<Rightarrow> py_error + bid" where
  "skip_pinned 0 s b = Inl Diverges"
| "skip_pinned (Suc n) s None = Inl AttributeError"
| "skip_pinned (Suc n) s (Some b) =
     (if b \<noteq> fake_tail \<and> is_pinned (heap s b) then skip_pinned n s (nxt s b) else Inr b)"

text \<open>The unlinking both \<open>popleft\<close> and \<open>popleft_n\<close> write out, with their truthiness guards.\<close>

definition unlink :: "bid \<Rightarrow> ('t, 'z) pool_scheme \<Rightarrow> ('t, 'z) pool_scheme" where
  "unlink b s =
     (let s1 = (case prv s b of Some p \<Rightarrow> set_next p (nxt s b) s | None \<Rightarrow> s);
          s2 = (case nxt s1 b of Some n \<Rightarrow> set_prev n (prv s1 b) s1 | None \<Rightarrow> s1)
      in set_next b None (set_prev b None s2))"

definition popleft :: "('t, 'z) pool_scheme \<Rightarrow> (bid, ('t, 'z) pool_scheme) outcome" where
  "popleft s =
     (if nxt s fake_head = Some fake_tail then (Inl ValueError, s)
      else case skip_pinned (fuel_of s) s (nxt s fake_head) of
        Inl e \<Rightarrow> (Inl e, s)
      | Inr b \<Rightarrow>
          if b = fake_tail then (Inl ValueError, s)
          else let s' = unlink b s in
            (Inr b, s'\<lparr>num_free_blocks := num_free_blocks s' - 1\<rparr>))"

definition queue_remove :: "bid \<Rightarrow> ('t, 'z) pool_scheme \<Rightarrow> (unit, ('t, 'z) pool_scheme) outcome" where
  "queue_remove b s =
     (case (prv s b, nxt s b) of
        (Some p, Some n) \<Rightarrow>
          let s1 = set_next p (nxt s b) s;
              s2 = set_prev n (prv s1 b) s1;
              s3 = set_next b None (set_prev b None s2)
          in (Inr (), s3\<lparr>num_free_blocks := num_free_blocks s3 - 1\<rparr>)
      | _ \<Rightarrow> (Inl RuntimeError, s))"

text \<open>The candidate loop of \<open>popleft_lfu\<close>: up to \<open>window\<close> non-pinned blocks in list order.\<close>

fun lfu_candidates :: "nat \<Rightarrow> nat \<Rightarrow> ('t, 'z) pool_scheme \<Rightarrow> bid option \<Rightarrow> py_error + bid list" where
  "lfu_candidates 0 w s b = Inl Diverges"
| "lfu_candidates (Suc n) w s b =
     (if b = Some fake_tail \<or> w = 0 then Inr []
      else case b of None \<Rightarrow> Inl AttributeError
        | Some i \<Rightarrow>
            if is_pinned (heap s i) then lfu_candidates n w s (nxt s i)
            else map_sum id ((#) i) (lfu_candidates n (w - 1) s (nxt s i)))"

definition popleft_lfu :: "nat \<Rightarrow> ('t, 'z) pool_scheme \<Rightarrow> (bid, ('t, 'z) pool_scheme) outcome" where
  "popleft_lfu window s =
     (case lfu_candidates (fuel_of s) window s (nxt s fake_head) of
        Inl e \<Rightarrow> (Inl e, s)
      | Inr [] \<Rightarrow> (Inl ValueError, s)
      | Inr (c # cs) \<Rightarrow>
          let victim = min_by (\<lambda>b. access_count (heap s b)) c cs in
          (case queue_remove victim s of (Inl e, s') \<Rightarrow> (Inl e, s') | (Inr _, s') \<Rightarrow> (Inr victim, s')))"

text \<open>
  The loop of \<open>popleft_n\<close>: blocks leave the list one by one, and the assertion in the loop can
  fail after some of them have left.
\<close>

fun popn_loop :: "nat \<Rightarrow> int \<Rightarrow> bid list \<Rightarrow> bid option \<Rightarrow> ('t, 'z) pool_scheme \<Rightarrow>
    (bid list, ('t, 'z) pool_scheme) outcome" where
  "popn_loop 0 n acc cur s = (Inl Diverges, s)"
| "popn_loop (Suc f) n acc cur s =
     (if n \<le> int (length acc) then (Inr acc, s)
      else case cur of None \<Rightarrow> (Inl AssertionError, s)
        | Some b \<Rightarrow>
            if b = fake_tail then (Inl AssertionError, s)
            else if is_pinned (heap s b) then popn_loop f n acc (nxt s b) s
            else popn_loop f n (acc @ [b]) (nxt s b) (unlink b s))"

definition popleft_n :: "int \<Rightarrow> ('t, 'z) pool_scheme \<Rightarrow> (bid list, ('t, 'z) pool_scheme) outcome" where
  "popleft_n n s =
     (if n = 0 then (Inr [], s)
      else if num_free_blocks s < n then (Inl AssertionError, s)
      else case popn_loop (fuel_of s) n [] (nxt s fake_head) s of
        (Inl e, s') \<Rightarrow> (Inl e, s')
      | (Inr bs, s') \<Rightarrow> (Inr bs, s'\<lparr>num_free_blocks := num_free_blocks s' - n\<rparr>))"

definition queue_append :: "bid \<Rightarrow> ('t, 'z) pool_scheme \<Rightarrow> (unit, ('t, 'z) pool_scheme) outcome" where
  "queue_append b s =
     (case prv s fake_tail of
        None \<Rightarrow> (Inl AssertionError, s)
      | Some l \<Rightarrow>
          let s1 = set_next l (Some b) s;
              s2 = set_prev b (Some l) s1;
              s3 = set_next b (Some fake_tail) s2;
              s4 = set_prev fake_tail (Some b) s3
          in (Inr (), s4\<lparr>num_free_blocks := num_free_blocks s4 + 1\<rparr>))"

fun append_loop :: "bid \<Rightarrow> bid list \<Rightarrow> ('t, 'z) pool_scheme \<Rightarrow> bid \<times> ('t, 'z) pool_scheme" where
  "append_loop l [] s = (l, s)"
| "append_loop l (b # bs) s = append_loop b bs (set_next l (Some b) (set_prev b (Some l) s))"

definition append_n :: "bid list \<Rightarrow> ('t, 'z) pool_scheme \<Rightarrow> (unit, ('t, 'z) pool_scheme) outcome" where
  "append_n bs s =
     (if bs = [] then (Inr (), s)
      else case prv s fake_tail of
        None \<Rightarrow> (Inl AssertionError, s)
      | Some l0 \<Rightarrow>
          (case append_loop l0 bs s of (l, s1) \<Rightarrow>
             let s2 = set_prev fake_tail (Some l) (set_next l (Some fake_tail) s1)
             in (Inr (), s2\<lparr>num_free_blocks := num_free_blocks s2 + int (length bs)\<rparr>)))"

fun collect_free :: "nat \<Rightarrow> ('t, 'z) pool_scheme \<Rightarrow> bid option \<Rightarrow> py_error + bid list" where
  "collect_free 0 s b = Inl Diverges"
| "collect_free (Suc n) s None = Inr []"
| "collect_free (Suc n) s (Some b) =
     (if b = fake_tail then Inr [] else map_sum id ((#) b) (collect_free n s (nxt s b)))"

definition get_all_free_blocks :: "('t, 'z) pool_scheme \<Rightarrow> py_error + bid list" where
  "get_all_free_blocks s = collect_free (fuel_of s) s (nxt s fake_head)"

end
