(* ===== verification/FreeQueueProofs.thy ===== *)
theory FreeQueueProofs
  imports FreeQueue
begin

text \<open>
  Correctness of the free queue: the pointer operations of \<open>FreeQueue\<close> implement the list
  operations. \<open>dseg h a xs b\<close> is the doubly linked segment from \<open>a\<close> over \<open>xs\<close> to \<open>b\<close>;
  \<open>qinv\<close> the queue's invariant; \<open>same_core\<close> what every queue operation leaves alone (all the
  fields of all blocks but the two links, and the rest of the state).
  The locale \<open>free_queue\<close> is the interface the cache manager uses; it is interpreted on
  the LRU and on the LRU-LFU pop of the code.
\<close>

section \<open>Field lemmas\<close>

lemma upd_block_heap [simp]:
  "heap (upd_block i f s) j = (if j = i then f (heap s i) else heap s j)"
  by (simp add: upd_block_def)

lemma upd_block_num [simp]: "num_free_blocks (upd_block i f s) = num_free_blocks s"
  by (simp add: upd_block_def)

lemma upd_block_more [simp]: "pool.more (upd_block i f s) = pool.more s"
  by (simp add: upd_block_def)

lemma heap_set_next [simp]:
  "heap (set_next i v s) j = (if j = i then (heap s i)\<lparr>next_free_block := v\<rparr> else heap s j)"
  by (simp add: set_next_def)

lemma heap_set_prev [simp]:
  "heap (set_prev i v s) j = (if j = i then (heap s i)\<lparr>prev_free_block := v\<rparr> else heap s j)"
  by (simp add: set_prev_def)

lemma set_link_num [simp]:
  "num_free_blocks (set_next i v s) = num_free_blocks s"
  "num_free_blocks (set_prev i v s) = num_free_blocks s"
  by (simp_all add: set_next_def set_prev_def)

lemma set_link_more [simp]:
  "pool.more (set_next i v s) = pool.more s"
  "pool.more (set_prev i v s) = pool.more s"
  by (simp_all add: set_next_def set_prev_def)

section \<open>What queue operations leave alone\<close>

definition core :: "'t cache_block \<Rightarrow> 't cache_block" where
  "core b = b\<lparr>prev_free_block := None, next_free_block := None\<rparr>"

definition same_core :: "('t, 'z) pool_scheme \<Rightarrow> ('t, 'z) pool_scheme \<Rightarrow> bool" where
  "same_core s s' \<longleftrightarrow> (\<forall>i. core (heap s' i) = core (heap s i)) \<and> pool.more s' = pool.more s"

lemma core_fields:
  assumes "core b = core c"
  shows "block_id b = block_id c" "ref_count b = ref_count c" "block_hash b = block_hash c"
    "is_null b = is_null c" "is_pinned b = is_pinned c" "cache_data b = cache_data c"
    "cache_class_name b = cache_class_name c" "token_count b = token_count c"
    "hash_value b = hash_value c" "access_count b = access_count c"
  using assms by (cases b, cases c, simp add: core_def)+

lemma same_core_refl [simp]: "same_core s s"
  by (simp add: same_core_def)

lemma same_core_trans: "same_core s t \<Longrightarrow> same_core t u \<Longrightarrow> same_core s u"
  by (simp add: same_core_def)

lemma same_core_more: "same_core s s' \<Longrightarrow> pool.more s' = pool.more s"
  by (simp add: same_core_def)

lemma same_core_fields:
  assumes "same_core s s'"
  shows "block_id (heap s' i) = block_id (heap s i)" "ref_count (heap s' i) = ref_count (heap s i)"
    "block_hash (heap s' i) = block_hash (heap s i)" "is_null (heap s' i) = is_null (heap s i)"
    "is_pinned (heap s' i) = is_pinned (heap s i)" "cache_data (heap s' i) = cache_data (heap s i)"
    "cache_class_name (heap s' i) = cache_class_name (heap s i)"
    "token_count (heap s' i) = token_count (heap s i)"
    "hash_value (heap s' i) = hash_value (heap s i)"
    "access_count (heap s' i) = access_count (heap s i)"
  using assms core_fields [of "heap s' i" "heap s i"] by (auto simp: same_core_def)

lemma same_core_set [simp]:
  "same_core s (set_next i v s') = same_core s s'"
  "same_core s (set_prev i v s') = same_core s s'"
  "same_core s (s'\<lparr>num_free_blocks := n\<rparr>) = same_core s s'"
  by (auto simp: same_core_def core_def)

section \<open>Doubly linked segments\<close>

fun dseg :: "(bid \<Rightarrow> 't cache_block) \<Rightarrow> bid \<Rightarrow> bid list \<Rightarrow> bid \<Rightarrow> bool" where
  "dseg h a [] b \<longleftrightarrow> next_free_block (h a) = Some b \<and> prev_free_block (h b) = Some a"
| "dseg h a (x # xs) b \<longleftrightarrow>
     next_free_block (h a) = Some x \<and> prev_free_block (h x) = Some a \<and> dseg h x xs b"

lemma dseg_append [simp]: "dseg h a (xs @ x # ys) b \<longleftrightarrow> dseg h a xs x \<and> dseg h x ys b"
  by (induction xs arbitrary: a) auto

lemma dseg_cong:
  "\<forall>i\<in>set (a # xs). next_free_block (h' i) = next_free_block (h i) \<Longrightarrow>
   \<forall>i\<in>set (xs @ [b]). prev_free_block (h' i) = prev_free_block (h i) \<Longrightarrow>
   dseg h' a xs b = dseg h a xs b"
  by (induction xs arbitrary: a) auto

lemma dseg_first: "dseg h a xs b \<Longrightarrow> next_free_block (h a) = Some (hd (xs @ [b]))"
  by (cases xs) auto

lemma dseg_last: "dseg h a xs b \<Longrightarrow> prev_free_block (h b) = Some (last (a # xs))"
  by (induction xs arbitrary: a) auto

lemma dseg_unlink:
  assumes seg: "dseg h a (xs @ x # ys) b"
    and dist: "distinct (a # xs @ x # ys @ [b])"
    and p: "p = last (a # xs)" and n: "n = hd (ys @ [b])"
    and nx: "\<forall>i\<in>set (a # xs @ ys). next_free_block (h' i) = (if i = p then Some n else next_free_block (h i))"
    and pv: "\<forall>i\<in>set (xs @ ys @ [b]). prev_free_block (h' i) = (if i = n then Some p else prev_free_block (h i))"
  shows "dseg h' a (xs @ ys) b"
proof (cases xs rule: rev_cases)
  case Nil
  then show ?thesis
  proof (cases ys)
    case Nil
    with \<open>xs = []\<close> p n nx pv show ?thesis by simp
  next
    case (Cons y ys')
    have "dseg h' y ys' b = dseg h y ys' b"
      by (rule dseg_cong) (use \<open>xs = []\<close> Cons p n nx pv dist in auto)
    with \<open>xs = []\<close> Cons p n nx pv seg show ?thesis by simp
  qed
next
  case (snoc xs' q)
  have n_in: "n \<in> set (ys @ [b])" unfolding n by (rule hd_in_set) simp
  have pq: "p = q" using p snoc by simp
  have "\<forall>i\<in>set (a # xs'). next_free_block (h' i) = next_free_block (h i)"
    using nx pq snoc dist by auto
  moreover have "\<forall>i\<in>set (xs' @ [q]). prev_free_block (h' i) = prev_free_block (h i)"
    using pv n_in snoc dist by auto
  ultimately have left: "dseg h' a xs' q = dseg h a xs' q" by (rule dseg_cong)
  show ?thesis
  proof (cases ys)
    case Nil
    with snoc p n nx pv seg left show ?thesis by simp
  next
    case (Cons y ys')
    have "dseg h' y ys' b = dseg h y ys' b"
      by (rule dseg_cong) (use snoc Cons p n nx pv dist in auto)
    with snoc Cons p n nx pv seg left show ?thesis by simp
  qed
qed

lemma dseg_mid: "dseg h a (ps @ zs) b \<Longrightarrow> next_free_block (h (last (a # ps))) = Some (hd (zs @ [b]))"
  by (induction ps arbitrary: a) (auto simp: dseg_first)

section \<open>The queue invariant\<close>

text \<open>\<open>qseg\<close>: the pointers spell \<open>xs\<close>; \<open>qinv\<close>: and the counter counts it.\<close>

definition qseg :: "('t, 'z) pool_scheme \<Rightarrow> bid list \<Rightarrow> bool" where
  "qseg s xs \<longleftrightarrow> dseg (heap s) fake_head xs fake_tail \<and> distinct xs \<and> (\<forall>x\<in>set xs. 0 \<le> x) \<and>
     (\<forall>i\<ge>0. i \<notin> set xs \<longrightarrow> nxt s i = None \<and> prv s i = None)"

definition qinv :: "('t, 'z) pool_scheme \<Rightarrow> bid list \<Rightarrow> bool" where
  "qinv s xs \<longleftrightarrow> qseg s xs \<and> num_free_blocks s = int (length xs)"

definition unpinned :: "('t, 'z) pool_scheme \<Rightarrow> bid list \<Rightarrow> bid list" where
  "unpinned s xs = filter (\<lambda>b. \<not> is_pinned (heap s b)) xs"

lemma qsegD:
  assumes "qseg s xs"
  shows "dseg (heap s) fake_head xs fake_tail" "distinct xs" "\<And>x. x \<in> set xs \<Longrightarrow> 0 \<le> x"
    "\<And>i. 0 \<le> i \<Longrightarrow> i \<notin> set xs \<Longrightarrow> nxt s i = None \<and> prv s i = None"
    "distinct (fake_head # xs @ [fake_tail])"
  using assms by (auto simp: qseg_def fake_head_def fake_tail_def)

lemma qseg_num [simp]: "qseg (s\<lparr>num_free_blocks := n\<rparr>) xs = qseg s xs"
  by (simp add: qseg_def)

lemma qinvD: "qinv s xs \<Longrightarrow> qseg s xs" "qinv s xs \<Longrightarrow> num_free_blocks s = int (length xs)"
  by (simp_all add: qinv_def)

lemma qinv_distinct: "qinv s xs \<Longrightarrow> distinct xs"
  by (simp add: qinv_def qseg_def)

lemma qinv_nonneg: "qinv s xs \<Longrightarrow> x \<in> set xs \<Longrightarrow> 0 \<le> x"
  by (simp add: qinv_def qseg_def)

lemma fuel_of_qinv: "qinv s xs \<Longrightarrow> fuel_of s = Suc (length xs)"
  by (simp add: fuel_of_def qinv_def)

lemma same_core_unpinned: "same_core s s' \<Longrightarrow> unpinned s' xs = unpinned s xs"
  by (simp add: unpinned_def same_core_fields)

lemma set_unpinned [simp]: "set (unpinned s xs) = {b \<in> set xs. \<not> is_pinned (heap s b)}"
  by (simp add: unpinned_def)

lemma unpinned_simps [simp]:
  "unpinned s [] = []"
  "unpinned s (x # xs) = (if is_pinned (heap s x) then unpinned s xs else x # unpinned s xs)"
  by (simp_all add: unpinned_def)

lemma qseg_neighbours:
  assumes "qseg s (xs @ x # ys)"
  shows "prv s x = Some (last (fake_head # xs))" "nxt s x = Some (hd (ys @ [fake_tail]))"
    "last (fake_head # xs) \<noteq> x" "hd (ys @ [fake_tail]) \<noteq> x"
    "last (fake_head # xs) \<in> set (fake_head # xs)" "hd (ys @ [fake_tail]) \<in> set (ys @ [fake_tail])"
proof -
  note d = qsegD [OF assms]
  from d(1) have parts: "dseg (heap s) fake_head xs x" "dseg (heap s) x ys fake_tail" by simp_all
  show "prv s x = Some (last (fake_head # xs))" using parts(1) by (rule dseg_last)
  show "nxt s x = Some (hd (ys @ [fake_tail]))" using parts(2) by (rule dseg_first)
  show "last (fake_head # xs) \<noteq> x" using d(5) by (cases xs rule: rev_cases) auto
  show "hd (ys @ [fake_tail]) \<noteq> x" using d(5) by (cases ys) auto
  show "last (fake_head # xs) \<in> set (fake_head # xs)" by (rule last_in_set) simp
  show "hd (ys @ [fake_tail]) \<in> set (ys @ [fake_tail])" by (rule hd_in_set) simp
qed

lemma unlink_split:
  assumes q: "qseg s (xs @ x # ys)"
  shows "qseg (unlink x s) (xs @ ys)" "same_core s (unlink x s)"
    "num_free_blocks (unlink x s) = num_free_blocks s"
proof -
  let ?p = "last (fake_head # xs)" and ?n = "hd (ys @ [fake_tail])"
  note d = qsegD [OF q] and nb = qseg_neighbours [OF q]
  have eq: "unlink x s = set_next x None (set_prev x None (set_prev ?n (Some ?p) (set_next ?p (Some ?n) s)))"
    using nb(1-4) by (simp add: unlink_def Let_def)
  show "same_core s (unlink x s)" "num_free_blocks (unlink x s) = num_free_blocks s"
    by (simp_all add: eq)
  have seg: "dseg (heap (unlink x s)) fake_head (xs @ ys) fake_tail"
    by (rule dseg_unlink [OF d(1) _ refl refl]) (use d(5) in \<open>auto simp: eq\<close>)
  have out: "nxt (unlink x s) i = None \<and> prv (unlink x s) i = None"
    if i: "0 \<le> i" "i \<notin> set (xs @ ys)" for i
  proof (cases "i = x")
    case False
    with i nb(5,6) have "i \<noteq> ?p" "i \<noteq> ?n" by (auto simp: fake_head_def fake_tail_def)
    with d(4) [of i] i False show ?thesis by (simp add: eq)
  qed (simp add: eq)
  show "qseg (unlink x s) (xs @ ys)"
    unfolding qseg_def using seg d(2,3) out by auto
qed

lemma unlink_qinv:
  assumes q: "qinv s xs" and x: "x \<in> set xs"
  shows "qinv ((unlink x s)\<lparr>num_free_blocks := num_free_blocks s - 1\<rparr>) (remove1 x xs)"
    and "same_core s (unlink x s)" and "num_free_blocks (unlink x s) = num_free_blocks s"
proof -
  from x obtain ys zs where xs: "xs = ys @ x # zs" by (meson split_list)
  from q have qs: "qseg s (ys @ x # zs)" and n: "num_free_blocks s = int (length xs)"
    by (simp_all add: qinv_def xs)
  have rem: "remove1 x xs = ys @ zs" using qinv_distinct [OF q] xs by (simp add: remove1_append)
  show "same_core s (unlink x s)" "num_free_blocks (unlink x s) = num_free_blocks s"
    using unlink_split [OF qs] by simp_all
  show "qinv ((unlink x s)\<lparr>num_free_blocks := num_free_blocks s - 1\<rparr>) (remove1 x xs)"
    unfolding rem qinv_def using unlink_split [OF qs] n xs by simp
qed

section \<open>The walks\<close>

lemma skip_pinned_walk:
  "dseg (heap s) a xs fake_tail \<Longrightarrow> fake_tail \<notin> set xs \<Longrightarrow> length xs < n \<Longrightarrow>
   skip_pinned n s (nxt s a) = Inr (hd (unpinned s xs @ [fake_tail]))"
proof (induction xs arbitrary: a n)
  case Nil
  then show ?case by (cases n) auto
next
  case (Cons x xs)
  then show ?case by (cases n) auto
qed

lemma lfu_candidates_walk:
  "dseg (heap s) a xs fake_tail \<Longrightarrow> fake_tail \<notin> set xs \<Longrightarrow> length xs < n \<Longrightarrow>
   lfu_candidates n w s (nxt s a) = Inr (take w (unpinned s xs))"
proof (induction xs arbitrary: a n w)
  case Nil
  then show ?case by (cases n) auto
next
  case (Cons x xs)
  then show ?case by (cases n; cases w) auto
qed

lemma collect_free_walk:
  "dseg (heap s) a xs fake_tail \<Longrightarrow> fake_tail \<notin> set xs \<Longrightarrow> length xs < n \<Longrightarrow>
   collect_free n s (nxt s a) = Inr xs"
proof (induction xs arbitrary: a n)
  case Nil
  then show ?case by (cases n) auto
next
  case (Cons x xs)
  then show ?case by (cases n) auto
qed

lemma qseg_no_tail: "qseg s xs \<Longrightarrow> fake_tail \<notin> set xs"
  using qsegD(3) [of s xs fake_tail] by (auto simp: fake_tail_def)

lemma get_all_free_blocks_list: "qinv s xs \<Longrightarrow> get_all_free_blocks s = Inr xs"
  using qsegD(1) [of s xs] qseg_no_tail [of s xs]
  by (simp add: get_all_free_blocks_def fuel_of_qinv collect_free_walk qinvD)

section \<open>The operations\<close>

lemma popleft_ok:
  assumes q: "qinv s xs" and u: "unpinned s xs = b # bs"
  shows "\<exists>s'. popleft s = (Inr b, s') \<and> qinv s' (remove1 b xs) \<and> same_core s s'"
proof -
  have b: "b \<in> set xs" using u set_unpinned [of s xs] by (metis (no_types, lifting) list.set_intros(1) mem_Collect_eq)
  then have bt: "b \<noteq> fake_tail" using qseg_no_tail qinvD(1) [OF q] by metis
  note d = qsegD [OF qinvD(1) [OF q]]
  have hd: "nxt s fake_head \<noteq> Some fake_tail"
    using dseg_first [OF d(1)] b qseg_no_tail [OF qinvD(1) [OF q]] by (cases xs) auto
  have sk: "skip_pinned (fuel_of s) s (nxt s fake_head) = Inr b"
    using skip_pinned_walk [OF d(1) qseg_no_tail [OF qinvD(1) [OF q]], of "fuel_of s"] u
    by (simp add: fuel_of_qinv [OF q])
  show ?thesis
    using hd sk bt unlink_qinv [OF q b] by (simp add: popleft_def Let_def)
qed

lemma popleft_empty:
  assumes q: "qinv s xs" and u: "unpinned s xs = []"
  shows "popleft s = (Inl ValueError, s)"
proof -
  note d = qsegD [OF qinvD(1) [OF q]]
  have "skip_pinned (fuel_of s) s (nxt s fake_head) = Inr fake_tail"
    using skip_pinned_walk [OF d(1) qseg_no_tail [OF qinvD(1) [OF q]], of "fuel_of s"] u
    by (simp add: fuel_of_qinv [OF q])
  then show ?thesis by (simp add: popleft_def)
qed

lemma queue_remove_ok:
  assumes q: "qinv s xs" and b: "b \<in> set xs"
  shows "\<exists>s'. queue_remove b s = (Inr (), s') \<and> qinv s' (remove1 b xs) \<and> same_core s s'"
proof -
  from b obtain ys zs where xs: "xs = ys @ b # zs" by (meson split_list)
  note nb = qseg_neighbours [OF qinvD(1) [OF q, unfolded xs]]
  have eq: "queue_remove b s = (Inr (), (unlink b s)\<lparr>num_free_blocks := num_free_blocks s - 1\<rparr>)"
    using nb by (simp add: queue_remove_def unlink_def Let_def)
  show ?thesis using eq unlink_qinv [OF q b] by simp
qed

lemma queue_remove_absent:
  "qinv s xs \<Longrightarrow> 0 \<le> b \<Longrightarrow> b \<notin> set xs \<Longrightarrow> queue_remove b s = (Inl RuntimeError, s)"
  using qsegD(4) [OF qinvD(1), of s xs b] by (simp add: queue_remove_def)

lemma popleft_lfu_ok:
  assumes q: "qinv s xs" and u: "take w (unpinned s xs) = c # cs"
  shows "\<exists>s'. popleft_lfu w s = (Inr (min_by (\<lambda>b. access_count (heap s b)) c cs), s') \<and>
     qinv s' (remove1 (min_by (\<lambda>b. access_count (heap s b)) c cs) xs) \<and> same_core s s'"
proof -
  let ?v = "min_by (\<lambda>b. access_count (heap s b)) c cs"
  note d = qsegD [OF qinvD(1) [OF q]]
  have "?v \<in> set (take w (unpinned s xs))"
    using min_by_in [of "\<lambda>b. access_count (heap s b)" c cs] u by simp
  then have v: "?v \<in> set xs" using set_take_subset [of w "unpinned s xs"] by auto
  from queue_remove_ok [OF q v] obtain s' where
    s': "queue_remove ?v s = (Inr (), s')" "qinv s' (remove1 ?v xs)" "same_core s s'" by blast
  have "lfu_candidates (fuel_of s) w s (nxt s fake_head) = Inr (c # cs)"
    using lfu_candidates_walk [OF d(1) qseg_no_tail [OF qinvD(1) [OF q]], of "fuel_of s" w] u
    by (simp add: fuel_of_qinv [OF q])
  with s' show ?thesis by (simp add: popleft_lfu_def Let_def)
qed

lemma popleft_lfu_empty:
  assumes q: "qinv s xs" and u: "take w (unpinned s xs) = []"
  shows "popleft_lfu w s = (Inl ValueError, s)"
proof -
  note d = qsegD [OF qinvD(1) [OF q]]
  have "lfu_candidates (fuel_of s) w s (nxt s fake_head) = Inr []"
    using lfu_candidates_walk [OF d(1) qseg_no_tail [OF qinvD(1) [OF q]], of "fuel_of s" w] u
    by (simp add: fuel_of_qinv [OF q])
  then show ?thesis by (simp add: popleft_lfu_def)
qed

text \<open>
  The loop of \<open>popleft_n\<close>, with the pinned blocks \<open>ps\<close> already skipped and \<open>zs\<close> still ahead:
  it takes the first non-pinned blocks of \<open>zs\<close>, all of them when there are too few.
\<close>

lemma popn_loop_spec:
  assumes "qseg s (ps @ zs)" and "length zs < f"
  shows "\<exists>s'. popn_loop f n acc (Some (hd (zs @ [fake_tail]))) s =
      (if nat (n - int (length acc)) \<le> length (unpinned s zs)
       then Inr (acc @ take (nat (n - int (length acc))) (unpinned s zs)) else Inl AssertionError, s') \<and>
     qseg s' (ps @ filter (\<lambda>z. z \<notin> set (take (nat (n - int (length acc))) (unpinned s zs))) zs) \<and>
     same_core s s' \<and> num_free_blocks s' = num_free_blocks s"
  using assms
proof (induction zs arbitrary: f ps acc s)
  case Nil
  then obtain f' where f: "f = Suc f'" by (cases f) auto
  show ?case using Nil by (auto simp: f)
next
  case (Cons z zs)
  then obtain f' where f: "f = Suc f'" by (cases f) auto
  have zt: "z \<noteq> fake_tail" using qseg_no_tail [OF Cons.prems(1)] by auto
  have nz: "nxt s z = Some (hd (zs @ [fake_tail]))" using qseg_neighbours(2) [OF Cons.prems(1)] .
  have zn: "z \<notin> set zs" using qsegD(2) [OF Cons.prems(1)] by simp
  consider "n \<le> int (length acc)" | "\<not> n \<le> int (length acc)" "is_pinned (heap s z)"
    | "\<not> n \<le> int (length acc)" "\<not> is_pinned (heap s z)" by blast
  then show ?case
  proof cases
    case 1
    then show ?thesis using Cons.prems by (auto simp: f)
  next
    case 2
    let ?t = "take (nat (n - int (length acc))) (unpinned s zs)"
    have "z \<notin> set ?t" using zn set_take_subset [of _ "unpinned s zs"] by auto
    then have filt: "filter (\<lambda>x. x \<notin> set ?t) (z # zs) = z # filter (\<lambda>x. x \<notin> set ?t) zs" by simp
    have step: "popn_loop f n acc (Some (hd ((z # zs) @ [fake_tail]))) s =
        popn_loop f' n acc (Some (hd (zs @ [fake_tail]))) s"
      using 2 zt nz by (simp add: f)
    have un: "unpinned s (z # zs) = unpinned s zs" using 2 by simp
    have prem: "qseg s ((ps @ [z]) @ zs)" "length zs < f'" using Cons.prems by (simp_all add: f)
    show ?thesis
      unfolding step un filt using Cons.IH [OF prem, of acc] by simp
  next
    case 3
    let ?s = "unlink z s"
    note u = unlink_split [OF Cons.prems(1)]
    have un: "unpinned ?s zs = unpinned s zs" by (rule same_core_unpinned [OF u(2)])
    have k: "nat (n - int (length acc)) = Suc (nat (n - int (length (acc @ [z]))))" using 3(1) by simp
    have lt: "length zs < f'" using Cons.prems(2) by (simp add: f)
    from Cons.IH [OF u(1) lt, of "acc @ [z]", unfolded un] obtain s' where
      s': "popn_loop f' n (acc @ [z]) (Some (hd (zs @ [fake_tail]))) ?s =
        (if nat (n - int (length (acc @ [z]))) \<le> length (unpinned s zs)
         then Inr ((acc @ [z]) @ take (nat (n - int (length (acc @ [z])))) (unpinned s zs))
         else Inl AssertionError, s')"
      "qseg s' (ps @ filter (\<lambda>x. x \<notin> set (take (nat (n - int (length (acc @ [z])))) (unpinned s zs))) zs)"
      "same_core ?s s'" "num_free_blocks s' = num_free_blocks ?s"
      by blast
    have filt: "filter (\<lambda>x. x \<notin> set (z # ys)) zs = filter (\<lambda>x. x \<notin> set ys) zs" for ys
      using zn by (intro filter_cong) auto
    have same: "same_core s s'" by (rule same_core_trans [OF u(2) s'(3)])
    have step: "popn_loop f n acc (Some (hd ((z # zs) @ [fake_tail]))) s =
        popn_loop f' n (acc @ [z]) (Some (hd (zs @ [fake_tail]))) ?s"
      using 3 zt nz by (simp add: f)
    show ?thesis
      unfolding step s'(1) using s'(2,4) same u(3) 3 filt by (auto simp: k simp del: nat_diff_distrib)
  qed
qed

lemma length_filter_notin_take:
  assumes "distinct xs"
  shows "length (filter (\<lambda>z. z \<notin> set (take k (filter P xs))) xs) = length xs - min k (length (filter P xs))"
proof -
  let ?t = "take k (filter P xs)"
  have sub: "set ?t \<subseteq> set xs" using set_take_subset [of k "filter P xs"] by auto
  have "set (filter (\<lambda>z. z \<notin> set ?t) xs) = set xs - set ?t" by auto
  moreover have "distinct (filter (\<lambda>z. z \<notin> set ?t) xs)" "distinct ?t" using assms by simp_all
  ultimately have "length (filter (\<lambda>z. z \<notin> set ?t) xs) = card (set xs - set ?t)"
    by (metis distinct_card)
  also have "\<dots> = card (set xs) - card (set ?t)" using sub by (simp add: card_Diff_subset)
  finally show ?thesis using assms by (simp add: distinct_card min.commute)
qed

text \<open>
  What \<open>popleft_n\<close> does on a well-formed queue: with enough non-pinned blocks it takes the first
  \<open>n\<close> of them; otherwise it raises, unchanged when the counter is too small, and with every
  non-pinned block gone (and the counter not adjusted) when only the pinned ones are missing.
\<close>

lemma popleft_n_ok:
  assumes q: "qinv s xs" and n: "0 \<le> n" "n \<le> int (length (unpinned s xs))"
  shows "\<exists>s'. popleft_n n s = (Inr (take (nat n) (unpinned s xs)), s') \<and>
     qinv s' (filter (\<lambda>z. z \<notin> set (take (nat n) (unpinned s xs))) xs) \<and> same_core s s'"
proof (cases "n = 0")
  case True
  then show ?thesis using q by (simp add: popleft_n_def)
next
  case False
  have len: "int (length (unpinned s xs)) \<le> int (length xs)" by (simp add: unpinned_def)
  with n have enough: "\<not> num_free_blocks s < n" using qinvD(2) [OF q] by simp
  from popn_loop_spec [of s "[]" xs "fuel_of s" n "[]"] qinvD(1) [OF q] n obtain s' where
    s': "popn_loop (fuel_of s) n [] (Some (hd (xs @ [fake_tail]))) s = (Inr (take (nat n) (unpinned s xs)), s')"
    "qseg s' (filter (\<lambda>z. z \<notin> set (take (nat n) (unpinned s xs))) xs)" "same_core s s'"
    "num_free_blocks s' = num_free_blocks s"
    by (auto simp: fuel_of_qinv [OF q])
  have "length (filter (\<lambda>z. z \<notin> set (take (nat n) (unpinned s xs))) xs) = length xs - nat n"
    using length_filter_notin_take [OF qinv_distinct [OF q]] n by (simp add: unpinned_def)
  with s' n len qinvD(2) [OF q] False enough show ?thesis
    by (simp add: popleft_n_def dseg_first [OF qsegD(1) [OF qinvD(1) [OF q]]] qinv_def)
qed

lemma popleft_n_too_many:
  assumes q: "qinv s xs" and n: "int (length xs) < n"
  shows "popleft_n n s = (Inl AssertionError, s)"
  using assms by (auto simp: popleft_n_def qinv_def)

lemma popleft_n_pinned_leak:
  assumes q: "qinv s xs" and n: "n \<le> int (length xs)" "int (length (unpinned s xs)) < n"
  shows "\<exists>s'. popleft_n n s = (Inl AssertionError, s') \<and>
     qseg s' (filter (\<lambda>z. is_pinned (heap s z)) xs) \<and> same_core s s' \<and>
     num_free_blocks s' = int (length xs)"
proof -
  from popn_loop_spec [of s "[]" xs "fuel_of s" n "[]"] qinvD(1) [OF q] n obtain s' where
    s': "popn_loop (fuel_of s) n [] (Some (hd (xs @ [fake_tail]))) s = (Inl AssertionError, s')"
    "qseg s' (filter (\<lambda>z. z \<notin> set (take (nat n) (unpinned s xs))) xs)" "same_core s s'"
    "num_free_blocks s' = num_free_blocks s"
    by (auto simp: fuel_of_qinv [OF q])
  have "take (nat n) (unpinned s xs) = unpinned s xs" using n by simp
  moreover have "filter (\<lambda>z. z \<notin> set (unpinned s xs)) xs = filter (\<lambda>z. is_pinned (heap s z)) xs"
    by (intro filter_cong) auto
  ultimately show ?thesis
    using s' n qinvD(2) [OF q]
    by (auto simp: popleft_n_def dseg_first [OF qsegD(1) [OF qinvD(1) [OF q]]])
qed

text \<open>Appending: the segment that ended in the tail is redirected to the new block.\<close>

lemma dseg_redirect:
  assumes seg: "dseg h a xs t" and b: "b \<notin> set xs"
    and nx: "\<forall>i\<in>set (a # xs). next_free_block (h' i) = (if i = last (a # xs) then Some b else next_free_block (h i))"
    and pv: "\<forall>i\<in>set (xs @ [b]). prev_free_block (h' i) = (if i = b then Some (last (a # xs)) else prev_free_block (h i))"
    and dist: "distinct (a # xs)"
  shows "dseg h' a xs b"
proof (cases xs rule: rev_cases)
  case Nil
  with nx pv show ?thesis by simp
next
  case (snoc ys l)
  have "dseg h' a ys l = dseg h a ys l"
    by (rule dseg_cong) (use snoc nx pv dist b in auto)
  with snoc seg nx pv show ?thesis by simp
qed

lemma queue_append_ok:
  assumes q: "qinv s xs" and b: "0 \<le> b" "b \<notin> set xs"
  shows "\<exists>s'. queue_append b s = (Inr (), s') \<and> qinv s' (xs @ [b]) \<and> same_core s s'"
proof -
  let ?l = "last (fake_head # xs)"
  note d = qsegD [OF qinvD(1) [OF q]]
  have l: "prv s fake_tail = Some ?l" using d(1) by (rule dseg_last)
  have ll: "?l \<in> set (fake_head # xs)" by (rule last_in_set) simp
  have bt: "b \<noteq> fake_tail" "b \<noteq> fake_head" using b by (auto simp: fake_head_def fake_tail_def)
  with ll b d(5) have lb: "?l \<noteq> b" "?l \<noteq> fake_tail" by auto
  let ?s = "set_prev fake_tail (Some b) (set_next b (Some fake_tail) (set_prev b (Some ?l) (set_next ?l (Some b) s)))"
  let ?s' = "?s\<lparr>num_free_blocks := num_free_blocks s + 1\<rparr>"
  have eq: "queue_append b s = (Inr (), ?s')" using l by (simp add: queue_append_def Let_def)
  have "dseg (heap ?s) fake_head xs b"
    by (rule dseg_redirect [OF d(1) b(2)]) (use d(5) bt lb b in auto)
  then have seg: "dseg (heap ?s) fake_head (xs @ [b]) fake_tail" using bt lb by simp
  have out: "nxt ?s i = None \<and> prv ?s i = None" if i: "0 \<le> i" "i \<notin> set (xs @ [b])" for i
  proof -
    from i ll have "i \<noteq> ?l" "i \<noteq> fake_tail" "i \<noteq> b" by (auto simp: fake_head_def fake_tail_def)
    with d(4) [of i] i show ?thesis by simp
  qed
  have qs: "qseg ?s' (xs @ [b])"
    unfolding qseg_num qseg_def using seg d(2,3) b out by auto
  then have "qinv ?s' (xs @ [b])" using qinvD(2) [OF q] by (simp add: qinv_def)
  moreover have "same_core s ?s'" by simp
  ultimately show ?thesis using eq by blast
qed

text \<open>\<open>append_n\<close>: an open segment (no link back to the tail yet) grows block by block.\<close>

fun lseg :: "(bid \<Rightarrow> 't cache_block) \<Rightarrow> bid \<Rightarrow> bid list \<Rightarrow> bool" where
  "lseg h a [] = True"
| "lseg h a (x # xs) \<longleftrightarrow>
     next_free_block (h a) = Some x \<and> prev_free_block (h x) = Some a \<and> lseg h x xs"

lemma lseg_snoc: "lseg h a (xs @ [x]) \<longleftrightarrow> lseg h a xs \<and>
    next_free_block (h (last (a # xs))) = Some x \<and> prev_free_block (h x) = Some (last (a # xs))"
  by (induction xs arbitrary: a) auto

lemma dseg_lseg: "dseg h a xs b = lseg h a (xs @ [b])"
  by (induction xs arbitrary: a) auto

lemma lseg_cong:
  "\<forall>i\<in>set (butlast (a # xs)). next_free_block (h' i) = next_free_block (h i) \<Longrightarrow>
   \<forall>i\<in>set xs. prev_free_block (h' i) = prev_free_block (h i) \<Longrightarrow> lseg h' a xs = lseg h a xs"
proof (induction xs arbitrary: a)
  case (Cons x xs)
  then show ?case by (cases xs) auto
qed simp

lemma last_notin_butlast: "distinct (a # xs) \<Longrightarrow> last (a # xs) \<notin> set (butlast (a # xs))"
  by (metis append_butlast_last_id distinct.simps(2) distinct_append list.discI list.set_intros(1) disjoint_iff)

lemma append_loop_spec:
  assumes "lseg (heap s) fake_head xs" and "distinct (fake_head # xs @ bs)"
    and "l = last (fake_head # xs)"
  shows "\<exists>s'. append_loop l bs s = (last (l # bs), s') \<and> lseg (heap s') fake_head (xs @ bs) \<and>
     same_core s s' \<and> num_free_blocks s' = num_free_blocks s \<and>
     (\<forall>i. i \<notin> set (fake_head # xs @ bs) \<longrightarrow> heap s' i = heap s i)"
  using assms
proof (induction bs arbitrary: xs l s)
  case Nil
  then show ?case by simp
next
  case (Cons b bs)
  let ?s = "set_next l (Some b) (set_prev b (Some l) s)"
  have lin: "l \<in> set (fake_head # xs)" using Cons.prems(3) by (metis last_in_set list.discI)
  with Cons.prems(2) have bl: "b \<noteq> l" by auto
  have lb: "l \<notin> set (butlast (fake_head # xs))"
    using last_notin_butlast [of fake_head xs] Cons.prems(2,3) by simp
  have bnx: "b \<notin> set (fake_head # xs)" using Cons.prems(2) by auto
  have "lseg (heap ?s) fake_head xs = lseg (heap s) fake_head xs"
    by (rule lseg_cong) (use lb bnx in \<open>auto dest: in_set_butlastD split: if_splits\<close>)
  with Cons.prems(1,3) bl have seg: "lseg (heap ?s) fake_head (xs @ [b])" by (simp add: lseg_snoc)
  from Cons.IH [OF seg, of b] Cons.prems(2) obtain s' where
    s': "append_loop b bs ?s = (last (b # bs), s')" "lseg (heap s') fake_head ((xs @ [b]) @ bs)"
    "same_core ?s s'" "num_free_blocks s' = num_free_blocks ?s"
    "\<forall>i. i \<notin> set (fake_head # (xs @ [b]) @ bs) \<longrightarrow> heap s' i = heap ?s i" by auto
  have "same_core s ?s" by simp
  then have "same_core s s'" by (rule same_core_trans) (rule s'(3))
  with s' lin show ?case by auto
qed

lemma append_n_ok:
  assumes q: "qinv s xs" and b: "\<forall>b\<in>set bs. 0 \<le> b \<and> b \<notin> set xs" "distinct bs"
  shows "\<exists>s'. append_n bs s = (Inr (), s') \<and> qinv s' (xs @ bs) \<and> same_core s s'"
proof (cases "bs = []")
  case True
  then show ?thesis using q by (simp add: append_n_def)
next
  case False
  note d = qsegD [OF qinvD(1) [OF q]]
  let ?l = "last (fake_head # xs)"
  have l: "prv s fake_tail = Some ?l" using d(1) by (rule dseg_last)
  have open_seg: "lseg (heap s) fake_head xs"
    using d(1) unfolding dseg_lseg lseg_snoc by simp
  have dist: "distinct (fake_head # xs @ bs @ [fake_tail])"
    using d(5) b by (auto simp: fake_head_def fake_tail_def)
  from append_loop_spec [OF open_seg _ refl, of bs] dist obtain s1 where
    s1: "append_loop ?l bs s = (last (?l # bs), s1)" "lseg (heap s1) fake_head (xs @ bs)"
    "same_core s s1" "num_free_blocks s1 = num_free_blocks s"
    "\<forall>i. i \<notin> set (fake_head # xs @ bs) \<longrightarrow> heap s1 i = heap s i" by auto
  let ?m = "last (fake_head # xs @ bs)"
  have m: "last (?l # bs) = ?m" using False by (simp add: last_append)
  have mb: "?m \<in> set bs" using False by (simp add: last_append)
  let ?s = "set_prev fake_tail (Some ?m) (set_next ?m (Some fake_tail) s1)"
  let ?s' = "?s\<lparr>num_free_blocks := num_free_blocks s1 + int (length bs)\<rparr>"
  have eq: "append_n bs s = (Inr (), ?s')"
    using l s1(1) m False by (simp add: append_n_def Let_def)
  have mbl: "?m \<notin> set (butlast (fake_head # xs @ bs))"
    by (rule last_notin_butlast) (use dist in simp)
  have "lseg (heap ?s) fake_head (xs @ bs) = lseg (heap s1) fake_head (xs @ bs)"
    by (rule lseg_cong) (use mbl dist in \<open>auto dest: in_set_butlastD split: if_splits\<close>)
  then have seg: "dseg (heap ?s) fake_head (xs @ bs) fake_tail"
    unfolding dseg_lseg lseg_snoc using s1(2) dist mb by auto
  have out: "nxt ?s i = None \<and> prv ?s i = None" if i: "0 \<le> i" "i \<notin> set (xs @ bs)" for i
  proof -
    from i mb have "i \<noteq> ?m" "i \<noteq> fake_tail" "i \<notin> set (fake_head # xs @ bs)"
      by (auto simp: fake_head_def fake_tail_def)
    with d(4) [of i] i s1(5) show ?thesis by simp
  qed
  have "qseg ?s' (xs @ bs)" unfolding qseg_num qseg_def using seg dist d(3) b out by auto
  then have "qinv ?s' (xs @ bs)" using qinvD(2) [OF q] s1(4) by (simp add: qinv_def)
  moreover have "same_core s ?s'" using s1(3) by simp
  ultimately show ?thesis using eq by blast
qed

section \<open>The constructor\<close>

lemma init_link_heap:
  "heap (init_link n is s) j =
     (if j \<in> int ` set is then (heap s j)
        \<lparr>prev_free_block := (if 0 < j then Some (j - 1) else prv s j),
         next_free_block := (if j < int n - 1 then Some (j + 1) else nxt s j)\<rparr>
      else heap s j)"
proof (induction "is" arbitrary: s)
  case (Cons i "is")
  show ?case by (auto simp: Cons.IH Let_def)
qed simp

lemma init_link_frame:
  "num_free_blocks (init_link n is s) = num_free_blocks s \<and>
   pool.more (init_link n is s) = pool.more s"
  by (induction "is" arbitrary: s) (auto simp: Let_def)

lemma dseg_upto:
  assumes "k < n" and "next_free_block (h a) = Some (int k)" and "prev_free_block (h (int k)) = Some a"
    and "\<forall>i. int k \<le> i \<and> i < int n - 1 \<longrightarrow>
      next_free_block (h i) = Some (i + 1) \<and> prev_free_block (h (i + 1)) = Some i"
    and "next_free_block (h (int n - 1)) = Some b" and "prev_free_block (h b) = Some (int n - 1)"
  shows "dseg h a (map int [k..<n]) b"
  using assms
proof (induction "n - k" arbitrary: k a)
  case (Suc d)
  show ?case
  proof (cases "Suc k = n")
    case True
    with Suc.prems show ?thesis by auto
  next
    case False
    with Suc.prems have "Suc k < n" by simp
    moreover have "next_free_block (h (int k)) = Some (int (Suc k))"
      "prev_free_block (h (int (Suc k))) = Some (int k)"
      using Suc.prems(4) \<open>Suc k < n\<close> by (auto simp: algebra_simps dest!: spec [of _ "int k"])
    ultimately have "dseg h (int k) (map int [Suc k..<n]) b"
      using Suc.hyps(1) [of "Suc k" "int k"] Suc.hyps(2) Suc.prems by auto
    with Suc.prems show ?thesis by (simp add: upt_conv_Cons)
  qed
qed simp

lemma queue_init_ok:
  assumes fresh: "\<forall>i. nxt s i = None \<and> prv s i = None"
  shows "qinv (queue_init n s) (map int [0..<n])"
    and "\<And>i. 0 \<le> i \<Longrightarrow> core (heap (queue_init n s) i) = core (heap s i)"
    and "pool.more (queue_init n s) = pool.more s"
proof -
  let ?q = "queue_init n s"
  have seg: "dseg (heap ?q) fake_head (map int [0..<n]) fake_tail"
  proof (cases "n = 0")
    case True
    then show ?thesis by (simp add: queue_init_def Let_def fake_head_def fake_tail_def)
  next
    case False
    then show ?thesis
      by (intro dseg_upto) (auto simp: queue_init_def Let_def init_link_heap fake_head_def
          fake_tail_def image_int_atLeastLessThan)
  qed
  have out: "nxt ?q i = None \<and> prv ?q i = None" if "0 \<le> i" "i \<notin> set (map int [0..<n])" for i
  proof -
    from that have "int n \<le> i" by (auto simp: image_int_atLeastLessThan)
    with fresh show ?thesis
      by (auto simp: queue_init_def Let_def init_link_heap fake_head_def fake_tail_def
          image_int_atLeastLessThan)
  qed
  have num: "num_free_blocks ?q = int n"
    by (simp add: queue_init_def Let_def init_link_frame)
  show "qinv ?q (map int [0..<n])"
    unfolding qinv_def qseg_def using seg out num by (auto simp: distinct_map)
  show "core (heap ?q i) = core (heap s i)" if "0 \<le> i" for i
    using that by (auto simp: queue_init_def Let_def init_link_heap fake_head_def fake_tail_def core_def)
  show "pool.more ?q = pool.more s" by (simp add: queue_init_def Let_def init_link_frame)
qed

section \<open>The interface the cache manager relies on\<close>

text \<open>
  \<open>rep s xs\<close>: the queue of \<open>s\<close> holds \<open>xs\<close>; \<open>frame s s'\<close>: nothing but the queue changed;
  \<open>evictable s b\<close>: \<open>pop\<close> may take \<open>b\<close>. The laws leave open which evictable block \<open>pop\<close> takes;
  \<open>lfu_queue\<close> adds the choice of the LRU-LFU hybrid.
\<close>

locale free_queue =
  fixes rep :: "'s \<Rightarrow> 'b list \<Rightarrow> bool"
    and frame :: "'s \<Rightarrow> 's \<Rightarrow> bool"
    and evictable :: "'s \<Rightarrow> 'b \<Rightarrow> bool"
    and legal :: "'b \<Rightarrow> bool"
    and pop :: "'s \<Rightarrow> ('b, 's) outcome"
    and give :: "'b \<Rightarrow> 's \<Rightarrow> (unit, 's) outcome"
  assumes pop_some: "rep s xs \<Longrightarrow> filter (evictable s) xs \<noteq> [] \<Longrightarrow>
      \<exists>b s'. pop s = (Inr b, s') \<and> b \<in> set xs \<and> evictable s b \<and> rep s' (remove1 b xs) \<and> frame s s'"
    and pop_none: "rep s xs \<Longrightarrow> filter (evictable s) xs = [] \<Longrightarrow> pop s = (Inl ValueError, s)"
    and give_law: "rep s xs \<Longrightarrow> legal b \<Longrightarrow> b \<notin> set xs \<Longrightarrow>
      \<exists>s'. give b s = (Inr (), s') \<and> rep s' (xs @ [b]) \<and> frame s s'"
    and rep_distinct: "rep s xs \<Longrightarrow> distinct xs"
    and rep_legal: "rep s xs \<Longrightarrow> b \<in> set xs \<Longrightarrow> legal b"
    and frame_trans: "frame s t \<Longrightarrow> frame t u \<Longrightarrow> frame s u"
    and frame_evictable: "frame s t \<Longrightarrow> evictable t b = evictable s b"
begin

lemma pop_cases:
  assumes "rep s xs"
  obtains (popped) b s' where "pop s = (Inr b, s')" "b \<in> set xs" "evictable s b"
      "rep s' (remove1 b xs)" "frame s s'"
    | (stuck) "pop s = (Inl ValueError, s)" "\<forall>b\<in>set xs. \<not> evictable s b"
proof (cases "filter (evictable s) xs = []")
  case True
  with pop_none [OF assms] show ?thesis using that(2) by (simp add: filter_empty_conv)
next
  case False
  with pop_some [OF assms] show ?thesis using that(1) by blast
qed

lemma pop_returnsD:
  "rep s xs \<Longrightarrow> pop s = (Inr b, s') \<Longrightarrow>
   b \<in> set xs \<and> evictable s b \<and> rep s' (remove1 b xs) \<and> frame s s'"
  by (erule pop_cases) auto

lemma pop_iff: "rep s xs \<Longrightarrow> returns (pop s) \<longleftrightarrow> (\<exists>b\<in>set xs. evictable s b)"
  by (erule pop_cases) auto

text \<open>Popping a block and giving it back moves it to the end and changes nothing else.\<close>

lemma rotate:
  assumes "rep s xs" and "pop s = (Inr b, s1)"
  shows "\<exists>s2. give b s1 = (Inr (), s2) \<and> rep s2 (remove1 b xs @ [b]) \<and> frame s s2"
proof -
  from pop_returnsD [OF assms] have p: "b \<in> set xs" "rep s1 (remove1 b xs)" "frame s s1" by auto
  have "b \<notin> set (remove1 b xs)" using rep_distinct [OF assms(1)] by simp
  from give_law [OF p(2) rep_legal [OF assms(1) p(1)] this] show ?thesis
    using frame_trans p(3) by blast
qed

end

locale lfu_queue = free_queue rep frame evictable legal pop give
  for rep :: "'s \<Rightarrow> 'b list \<Rightarrow> bool" and frame evictable legal pop give +
  fixes rank :: "'s \<Rightarrow> 'b \<Rightarrow> int" and window :: nat
  assumes pop_rank: "rep s xs \<Longrightarrow> pop s = (Inr b, s') \<Longrightarrow>
      \<exists>ys zs. take window (filter (evictable s) xs) = ys @ b # zs \<and>
        (\<forall>y\<in>set ys. rank s b < rank s y) \<and> (\<forall>z\<in>set zs. rank s b \<le> rank s z)"
begin

lemma pop_least: "rep s xs \<Longrightarrow> pop s = (Inr b, s') \<Longrightarrow>
    c \<in> set (take window (filter (evictable s) xs)) \<Longrightarrow> rank s b \<le> rank s c"
  by (drule (1) pop_rank) (fastforce simp: less_le)

end

abbreviation may_evict :: "('t, 'z) pool_scheme \<Rightarrow> bid \<Rightarrow> bool" where
  "may_evict s b \<equiv> \<not> is_pinned (heap s b)"

lemma same_core_may_evict: "same_core s t \<Longrightarrow> may_evict t b = may_evict s b"
  by (simp add: same_core_fields)

interpretation lru: free_queue qinv same_core may_evict "\<lambda>b. 0 \<le> b" popleft queue_append
proof unfold_locales
  fix s :: "('a, 'b) pool_scheme" and xs
  assume q: "qinv s xs" and ne: "filter (may_evict s) xs \<noteq> []"
  then obtain b bs where u: "unpinned s xs = b # bs" by (auto simp: unpinned_def neq_Nil_conv)
  then have "b \<in> set (unpinned s xs)" by simp
  then show "\<exists>b s'. popleft s = (Inr b, s') \<and> b \<in> set xs \<and> may_evict s b \<and>
      qinv s' (remove1 b xs) \<and> same_core s s'"
    using popleft_ok [OF q u] by auto
qed (auto simp: popleft_empty unpinned_def queue_append_ok qinv_distinct qinv_nonneg
      same_core_may_evict intro: same_core_trans)

interpretation lfu: lfu_queue qinv same_core may_evict "\<lambda>b. 0 \<le> b" "popleft_lfu 8" queue_append
  "\<lambda>s b. access_count (heap s b)" 8
proof unfold_locales
  fix s :: "('a, 'b) pool_scheme" and xs
  assume q: "qinv s xs" and ne: "filter (may_evict s) xs \<noteq> []"
  then obtain c cs where u: "take 8 (unpinned s xs) = c # cs"
    by (auto simp: unpinned_def neq_Nil_conv)
  let ?v = "min_by (\<lambda>b. access_count (heap s b)) c cs"
  have "?v \<in> set (take 8 (unpinned s xs))"
    using min_by_in [of "\<lambda>b. access_count (heap s b)" c cs] u by simp
  then have "?v \<in> set (unpinned s xs)" by (rule in_set_takeD)
  then show "\<exists>b s'. popleft_lfu 8 s = (Inr b, s') \<and> b \<in> set xs \<and> may_evict s b \<and>
      qinv s' (remove1 b xs) \<and> same_core s s'"
    using popleft_lfu_ok [OF q u] by auto
next
  fix s s' :: "('a, 'b) pool_scheme" and xs b
  assume q: "qinv s xs" and pop: "popleft_lfu 8 s = (Inr b, s')"
  show "\<exists>ys zs. take 8 (filter (may_evict s) xs) = ys @ b # zs \<and>
      (\<forall>y\<in>set ys. access_count (heap s b) < access_count (heap s y)) \<and>
      (\<forall>z\<in>set zs. access_count (heap s b) \<le> access_count (heap s z))"
  proof (cases "take 8 (unpinned s xs)")
    case Nil
    then show ?thesis using popleft_lfu_empty [OF q Nil] pop by simp
  next
    case (Cons c cs)
    let ?f = "\<lambda>b. access_count (heap s b)"
    have b: "b = min_by ?f c cs" using popleft_lfu_ok [OF q Cons] pop by auto
    obtain ys zs where sp: "c # cs = ys @ min_by ?f c cs # zs"
      and lt: "\<forall>y\<in>set ys. ?f (min_by ?f c cs) < ?f y"
      using min_by_first [of c cs ?f] by blast
    have "\<forall>z\<in>set zs. ?f (min_by ?f c cs) \<le> ?f z"
    proof
      fix z assume "z \<in> set zs"
      then have "z \<in> set (c # cs)" unfolding sp by simp
      then show "?f (min_by ?f c cs) \<le> ?f z" by (intro min_by_le) simp
    qed
    with sp lt show ?thesis unfolding b using Cons by (auto simp: unpinned_def)
  qed
qed (auto simp: popleft_lfu_empty unpinned_def queue_append_ok qinv_distinct qinv_nonneg
      same_core_may_evict intro: same_core_trans)

end
