(* ===== verification/BlockHash.thy ===== *)
theory BlockHash
  imports FreeQueue
begin

text \<open>
  \<^bold>\<open>rapid_mlx/paged_cache.py: block identities.\<close> The chain hash \<open>compute_block_hash\<close>, the
  legacy 16-digit hash and the incremental \<open>PrefixHasher\<close>. \<open>hashlib.sha256\<close> is the parameter
  \<open>sha\<close> from the fed bytes to the digest; a hasher object is the bytes it has been fed, since
  feeding pieces equals feeding their concatenation. \<open>hexdigest()[:16]\<close> and Python's
  \<open>str\<close> of a tuple of integers are written out.
\<close>

type_synonym hasher = bytes

section \<open>Rendering\<close>

definition digit :: "nat \<Rightarrow> char" where
  "digit d = char_of (if d < 10 then 48 + d else 87 + d)"

fun str_nat :: "nat \<Rightarrow> string" where
  "str_nat n = (if n < 10 then [digit n] else str_nat (n div 10) @ [digit (n mod 10)])"

declare str_nat.simps [simp del]

definition str_int :: "int \<Rightarrow> string" where
  "str_int i = (if i < 0 then CHR ''-'' # str_nat (nat (- i)) else str_nat (nat i))"

fun join :: "string \<Rightarrow> string list \<Rightarrow> string" where
  "join sep [] = []"
| "join sep [x] = x"
| "join sep (x # y # ys) = x @ sep @ join sep (y # ys)"

text \<open>\<open>str(tuple(xs))\<close>: \<open>()\<close>, \<open>(1,)\<close>, \<open>(1, 2)\<close>.\<close>

definition str_tuple :: "int list \<Rightarrow> string" where
  "str_tuple xs = (case xs of
      [x] \<Rightarrow> ''('' @ str_int x @ '',)''
    | _ \<Rightarrow> ''('' @ join '', '' (map str_int xs) @ '')'')"

definition hexdigest :: "bytes \<Rightarrow> string" where
  "hexdigest bs = concat (map (\<lambda>c. let n = of_char c :: nat in [digit (n div 16), digit (n mod 16)]) bs)"

text \<open>The same over \<open>int\<close>, to evaluate with.\<close>

lemma hexdigest_code [code]:
  "hexdigest bs = concat (map (\<lambda>c. let n = of_char c :: int in [digit (nat (n div 16)), digit (nat (n mod 16))]) bs)"
proof -
  have "nat (of_char c div 16) = of_char c div 16 \<and> nat (of_char c mod 16) = of_char c mod 16" for c
  proof -
    have c: "of_char c = int (of_char c)" by (simp only: of_nat_of_char)
    show ?thesis unfolding c by (simp add: nat_div_distrib nat_mod_distrib del: of_nat_of_char)
  qed
  then show ?thesis by (simp add: hexdigest_def Let_def)
qed

section \<open>Hashes\<close>

text \<open>
  \<open>compute_block_hash(parent_hash, token_ids, extra_keys)\<close>; \<open>extra_keys\<close> is given by the string
  Python renders a non-empty tuple of extra keys to.
\<close>

definition compute_block_hash :: "(bytes \<Rightarrow> digest) \<Rightarrow> digest option \<Rightarrow> int list \<Rightarrow> string option \<Rightarrow> digest" where
  "compute_block_hash sha parent_hash token_ids extra_keys =
     (let h0 = (case parent_hash of Some (c # cs) \<Rightarrow> c # cs | _ \<Rightarrow> ''rapid-mlx-root'');
          h1 = h0 @ str_tuple token_ids;
          h2 = (case extra_keys of None \<Rightarrow> h1 | Some e \<Rightarrow> h1 @ e)
      in sha h2)"

text \<open>\<open>PagedCacheManager.compute_block_hash(tokens)\<close>\<close>

definition legacy_block_hash :: "(bytes \<Rightarrow> digest) \<Rightarrow> int list \<Rightarrow> py_error + string" where
  "legacy_block_hash sha tokens =
     (case token_bytes tokens of Inl e \<Rightarrow> Inl e | Inr bs \<Rightarrow> Inr (take 16 (hexdigest (sha bs))))"

definition ph_update :: "hasher \<Rightarrow> int list \<Rightarrow> py_error + hasher" where
  "ph_update h tokens = (case token_bytes tokens of Inl e \<Rightarrow> Inl e | Inr bs \<Rightarrow> Inr (h @ bs))"

definition ph_new :: "int list \<Rightarrow> py_error + hasher" where
  "ph_new tokens = (if tokens = [] then Inr [] else ph_update [] tokens)"

definition ph_hexdigest :: "(bytes \<Rightarrow> digest) \<Rightarrow> hasher \<Rightarrow> string" where
  "ph_hexdigest sha h = take 16 (hexdigest (sha h))"

section \<open>The incremental hasher computes the legacy hash of everything it was fed\<close>

lemma ph_new_bytes: "ph_new tokens = token_bytes tokens"
  by (auto simp: ph_new_def ph_update_def split: sum.splits)

lemma ph_update_bytes:
  "token_bytes xs = Inr h \<Longrightarrow> ph_update h ys = token_bytes (xs @ ys)"
  by (simp add: ph_update_def token_bytes_append split: sum.splits)

lemma ph_hexdigest_legacy:
  "token_bytes xs = Inr h \<Longrightarrow> legacy_block_hash sha xs = Inr (ph_hexdigest sha h)"
  by (simp add: legacy_block_hash_def ph_hexdigest_def)

text \<open>The identity of a token prefix, where its tokens encode.\<close>

definition identity :: "(bytes \<Rightarrow> digest) \<Rightarrow> int list \<Rightarrow> string" where
  "identity sha xs = (case token_bytes xs of Inr h \<Rightarrow> ph_hexdigest sha h | Inl _ \<Rightarrow> [])"

lemma identity_legacy: "token_bytes xs = Inr h \<Longrightarrow> identity sha xs = ph_hexdigest sha h"
  by (simp add: identity_def)

end
