(* ===== verification/BlockHashMap.thy ===== *)
theory BlockHashMap
  imports FreeQueue
begin

text \<open>
  \<^bold>\<open>rapid_mlx/paged_cache.py: BlockHashToBlockMap.\<close> A hash maps to one block, or to a
  dictionary from block ids to blocks, modelled by its ids in insertion order. \<open>bh_members\<close> is
  the abstraction (the set of blocks under a hash), \<open>bh_wf\<close> the invariant of the inner
  dictionaries (no empty one, no repeated id). On an empty inner dictionary, which \<open>bh_wf\<close>
  excludes, the two lookups answer \<open>None\<close> where Python would raise.
\<close>

datatype hash_entry = One bid | Many "bid list"

type_synonym block_hash_map = "digest \<rightharpoonup> hash_entry"

definition get_block :: "block_hash_map \<Rightarrow> digest \<Rightarrow> bid option" where
  "get_block m h = (case m h of
      None \<Rightarrow> None
    | Some (One b) \<Rightarrow> Some b
    | Some (Many bs) \<Rightarrow> (case bs of [] \<Rightarrow> None | b # _ \<Rightarrow> Some b))"

definition get_best_block :: "(bid \<Rightarrow> 't cache_block) \<Rightarrow> block_hash_map \<Rightarrow> digest \<Rightarrow> bid option" where
  "get_best_block hp m h = (case m h of
      None \<Rightarrow> None
    | Some (One b) \<Rightarrow> Some b
    | Some (Many bs) \<Rightarrow>
        (case bs of [] \<Rightarrow> None | b # bs' \<Rightarrow> Some (max_by (\<lambda>i. access_count (hp i)) b bs')))"

definition bh_insert :: "digest \<Rightarrow> bid \<Rightarrow> block_hash_map \<Rightarrow> block_hash_map" where
  "bh_insert h b m = (case m h of
      None \<Rightarrow> m(h \<mapsto> One b)
    | Some (One a) \<Rightarrow> m(h \<mapsto> Many (if a = b then [a] else [a, b]))
    | Some (Many bs) \<Rightarrow> m(h \<mapsto> Many (if b \<in> set bs then bs else bs @ [b])))"

definition bh_pop :: "digest \<Rightarrow> bid \<Rightarrow> block_hash_map \<Rightarrow> bid option \<times> block_hash_map" where
  "bh_pop h i m = (case m h of
      None \<Rightarrow> (None, m)
    | Some (One b) \<Rightarrow> if b = i then (Some b, m(h := None)) else (None, m)
    | Some (Many bs) \<Rightarrow>
        let bs' = remove1 i bs in
        (if i \<in> set bs then Some i else None, m(h := (if bs' = [] then None else Some (Many bs')))))"

definition bh_clear :: "block_hash_map \<Rightarrow> block_hash_map" where
  "bh_clear m = Map.empty"

section \<open>Abstraction\<close>

definition bh_members :: "block_hash_map \<Rightarrow> digest \<Rightarrow> bid set" where
  "bh_members m h = (case m h of None \<Rightarrow> {} | Some (One b) \<Rightarrow> {b} | Some (Many bs) \<Rightarrow> set bs)"

definition bh_wf :: "block_hash_map \<Rightarrow> bool" where
  "bh_wf m \<longleftrightarrow> (\<forall>h bs. m h = Some (Many bs) \<longrightarrow> bs \<noteq> [] \<and> distinct bs)"

lemma bh_wf_empty [simp]: "bh_wf Map.empty"
  by (simp add: bh_wf_def)

lemma bh_members_empty [simp]: "bh_members Map.empty h = {}"
  by (simp add: bh_members_def)

lemma bh_insert_wf: "bh_wf m \<Longrightarrow> bh_wf (bh_insert h b m)"
  by (auto simp: bh_wf_def bh_insert_def split: option.splits hash_entry.splits if_splits)

lemma bh_insert_members:
  "bh_members (bh_insert h b m) k = (if k = h then insert b (bh_members m h) else bh_members m k)"
  by (auto simp: bh_members_def bh_insert_def split: option.splits hash_entry.splits)

lemma bh_pop_wf: "bh_wf m \<Longrightarrow> bh_wf (snd (bh_pop h i m))"
  by (auto simp: bh_wf_def bh_pop_def Let_def split: option.splits hash_entry.splits if_splits)

lemma remove1_emptyD: "distinct bs \<Longrightarrow> remove1 i bs = [] \<Longrightarrow> x \<in> set bs \<Longrightarrow> x = i"
  by (metis empty_iff empty_set insert_Diff_single insert_iff set_remove1_eq)

lemma bh_pop_members:
  "bh_wf m \<Longrightarrow> bh_members (snd (bh_pop h i m)) k =
     (if k = h then bh_members m h - {i} else bh_members m k)"
  by (auto simp: bh_wf_def bh_members_def bh_pop_def Let_def
      split: option.splits hash_entry.splits dest: set_remove1_subset [THEN subsetD] remove1_emptyD)

lemma bh_pop_result: "fst (bh_pop h i m) = (if i \<in> bh_members m h then Some i else None)"
  by (auto simp: bh_members_def bh_pop_def Let_def split: option.splits hash_entry.splits)

lemma get_block_member:
  "bh_wf m \<Longrightarrow> (case get_block m h of None \<Rightarrow> bh_members m h = {} | Some b \<Rightarrow> b \<in> bh_members m h)"
  by (auto simp: get_block_def bh_members_def bh_wf_def split: option.splits hash_entry.splits list.splits)

lemma get_best_block_member:
  assumes "bh_wf m"
  shows "get_best_block hp m h = None \<longleftrightarrow> bh_members m h = {}"
    and "get_best_block hp m h = Some b \<Longrightarrow> b \<in> bh_members m h"
    and "get_best_block hp m h = Some b \<Longrightarrow> c \<in> bh_members m h \<Longrightarrow>
      access_count (hp c) \<le> access_count (hp b)"
proof -
  show "get_best_block hp m h = None \<longleftrightarrow> bh_members m h = {}"
    using assms by (auto simp: get_best_block_def bh_members_def bh_wf_def
        split: option.splits hash_entry.splits list.splits)
  show "get_best_block hp m h = Some b \<Longrightarrow> b \<in> bh_members m h"
    using max_by_in [of "\<lambda>i. access_count (hp i)"]
    by (auto simp: get_best_block_def bh_members_def split: option.splits hash_entry.splits list.splits)
  show "get_best_block hp m h = Some b \<Longrightarrow> c \<in> bh_members m h \<Longrightarrow>
      access_count (hp c) \<le> access_count (hp b)"
    using max_by_ge [of c _ _ "\<lambda>i. access_count (hp i)"]
    by (auto simp: get_best_block_def bh_members_def split: option.splits hash_entry.splits list.splits)
qed

section \<open>The multimap interface\<close>

text \<open>
  What the manager relies on: inserting and popping act on the sets of blocks under the hashes.
  The derived facts say that an insertion is undone by popping the same block, and that a
  popped block is under no hash it was not under before.
\<close>

locale block_multimap =
  fixes members :: "'m \<Rightarrow> 'h \<Rightarrow> 'b set" and wf :: "'m \<Rightarrow> bool"
    and ins :: "'h \<Rightarrow> 'b \<Rightarrow> 'm \<Rightarrow> 'm" and del :: "'h \<Rightarrow> 'b \<Rightarrow> 'm \<Rightarrow> 'b option \<times> 'm"
    and empty :: 'm
  assumes wf_empty: "wf empty" and members_empty: "members empty h = {}"
    and wf_ins: "wf m \<Longrightarrow> wf (ins h b m)" and wf_del: "wf m \<Longrightarrow> wf (snd (del h b m))"
    and members_ins: "wf m \<Longrightarrow>
      members (ins h b m) k = (if k = h then insert b (members m h) else members m k)"
    and members_del: "wf m \<Longrightarrow>
      members (snd (del h b m)) k = (if k = h then members m h - {b} else members m k)"
    and del_result: "wf m \<Longrightarrow> fst (del h b m) = (if b \<in> members m h then Some b else None)"
begin

lemma del_ins: "wf m \<Longrightarrow> b \<notin> members m h \<Longrightarrow>
    fst (del h b (ins h b m)) = Some b \<and> members (snd (del h b (ins h b m))) = members m"
  by (auto simp: del_result wf_ins members_ins members_del fun_eq_iff)

lemma del_absent: "wf m \<Longrightarrow> b \<notin> members m h \<Longrightarrow>
    fst (del h b m) = None \<and> members (snd (del h b m)) = members m"
  by (auto simp: del_result members_del fun_eq_iff)

text \<open>
  The coherence the block cache keeps: a block is under exactly the hash it claims. Inserting
  a block that claimed nothing, and deleting a block from the hash it claims, preserve it.
\<close>

lemma coherent_ins:
  assumes "wf m" and "\<forall>h b. b \<in> members m h \<longleftrightarrow> claim b = Some h" and "claim b = None"
  shows "\<forall>k c. c \<in> members (ins h b m) k \<longleftrightarrow> (claim(b := Some h)) c = Some k"
  using assms by (auto simp: members_ins)

lemma coherent_del:
  assumes "wf m" and "\<forall>h b. b \<in> members m h \<longleftrightarrow> claim b = Some h" and "claim b = Some h"
  shows "\<forall>k c. c \<in> members (snd (del h b m)) k \<longleftrightarrow> (claim(b := None)) c = Some k"
  using assms by (auto simp: members_del)

end

interpretation bhm: block_multimap bh_members bh_wf bh_insert bh_pop Map.empty
  by unfold_locales
    (simp_all add: bh_insert_wf bh_pop_wf bh_insert_members bh_pop_members bh_pop_result)

end
