(* ===== verification/PagedCache.thy ===== *)
theory PagedCache
  imports FreeQueueProofs BlockHash BlockHashMap
begin

text \<open>
  \<^bold>\<open>rapid_mlx/paged_cache.py: BlockTable, CacheStats and PagedCacheManager.\<close> The manager extends
  the block store and its free queue (\<open>pool\<close>) with the code's other fields. A \<open>BlockTable\<close> object
  lives in \<open>table_store\<close> under its address and \<open>request_tables\<close> maps request ids to addresses,
  because the code shares table objects between holders and compares them with \<open>is\<close>.
  \<open>allocated_blocks\<close> is the set of keys of the code's dictionary, whose values are the blocks
  themselves. Every public method takes the manager's lock, so a method is one step; logging and
  \<open>mx.clear_cache()\<close> leave no trace in the state. Ratios that Python computes in floating
  point are exact rationals here.
\<close>

section \<open>State\<close>

record cache_stats =
  total_blocks :: int
  st_allocated_blocks :: int
  st_free_blocks :: int
  shared_blocks :: int
  total_tokens_cached :: int
  cache_hits :: int
  cache_misses :: int
  cow_copies :: int
  evictions :: int

record block_table =
  request_id :: string
  block_ids :: "bid list"
  num_tokens :: int

type_synonym taddr = nat

record 't manager = "'t pool" +
  block_size :: nat
  max_blocks :: nat
  enable_caching :: bool
  cached_map :: block_hash_map
  hash_to_block :: "string \<rightharpoonup> bid"
  table_store :: "taddr \<Rightarrow> block_table"
  next_table :: taddr
  request_tables :: "string \<rightharpoonup> taddr"
  allocated_blocks :: "bid set"
  null_block :: bid
  stats :: cache_stats

section \<open>Block tables\<close>

definition new_table :: "string \<Rightarrow> block_table" where
  "new_table rid = \<lparr>request_id = rid, block_ids = [], num_tokens = 0\<rparr>"

definition add_block :: "bid \<Rightarrow> int \<Rightarrow> block_table \<Rightarrow> block_table" where
  "add_block b n t = t\<lparr>block_ids := block_ids t @ [b], num_tokens := num_tokens t + n\<rparr>"

definition table_len :: "block_table \<Rightarrow> nat" where
  "table_len t = length (block_ids t)"

definition table_copy :: "string \<Rightarrow> block_table \<Rightarrow> block_table" where
  "table_copy rid t = \<lparr>request_id = rid, block_ids = block_ids t, num_tokens = num_tokens t\<rparr>"

section \<open>Construction\<close>

definition upd_stats :: "(cache_stats \<Rightarrow> cache_stats) \<Rightarrow> 't manager \<Rightarrow> 't manager" where
  "upd_stats f s = s\<lparr>stats := f (stats s)\<rparr>"

definition upd_table :: "taddr \<Rightarrow> (block_table \<Rightarrow> block_table) \<Rightarrow> 't manager \<Rightarrow> 't manager" where
  "upd_table a f s = s\<lparr>table_store := (table_store s)(a := f (table_store s a))\<rparr>"

definition fresh_stats :: "nat \<Rightarrow> cache_stats" where
  "fresh_stats n = \<lparr>total_blocks = int n, st_allocated_blocks = 1, st_free_blocks = int n - 1,
     shared_blocks = 0, total_tokens_cached = 0, cache_hits = 0, cache_misses = 0,
     cow_copies = 0, evictions = 0\<rparr>"

text \<open>Popping the null block, shared by the constructor and \<open>clear\<close>.\<close>

definition reserve_null :: "'t manager \<Rightarrow> (unit, 't manager) outcome" where
  "reserve_null s =
     (case popleft s of
        (Inl e, s') \<Rightarrow> (Inl e, s')
      | (Inr b, s') \<Rightarrow>
          let s1 = upd_block b (\<lambda>x. x\<lparr>is_null := True, ref_count := 1\<rparr>) s'
          in (Inr (), s1\<lparr>null_block := b, allocated_blocks := insert b (allocated_blocks s1)\<rparr>))"

definition manager_init :: "nat \<Rightarrow> nat \<Rightarrow> bool \<Rightarrow> py_error + 't manager" where
  "manager_init bs mb caching =
     (let s0 = queue_init mb \<lparr>heap = new_block, num_free_blocks = 0, block_size = bs,
            max_blocks = mb, enable_caching = caching, cached_map = Map.empty,
            hash_to_block = Map.empty, table_store = (\<lambda>_. new_table []), next_table = 0,
            request_tables = Map.empty, allocated_blocks = {}, null_block = 0,
            stats = fresh_stats mb\<rparr>
      in case reserve_null s0 of (Inl e, _) \<Rightarrow> Inl e | (Inr _, s1) \<Rightarrow> Inr s1)"

section \<open>Eviction and allocation\<close>

text \<open>\<open>del self.hash_to_block[h]\<close> where the entry still names the block \<open>b\<close>.\<close>

definition drop_legacy :: "string option \<Rightarrow> bid \<Rightarrow> 't manager \<Rightarrow> 't manager" where
  "drop_legacy hv b s = (case hv of
      None \<Rightarrow> s
    | Some h \<Rightarrow> if hash_to_block s h = Some b
        then s\<lparr>hash_to_block := (hash_to_block s)(h := None)\<rparr> else s)"

definition drop_data :: "'t cache_block \<Rightarrow> 't cache_block" where
  "drop_data b = b\<lparr>cache_data := None, cache_class_name := None\<rparr>"

definition truthy_str :: "string option \<Rightarrow> string option" where
  "truthy_str v = (case v of Some (c # cs) \<Rightarrow> Some (c # cs) | _ \<Rightarrow> None)"

definition maybe_evict_cached_block :: "bid \<Rightarrow> 't manager \<Rightarrow> bool \<times> 't manager" where
  "maybe_evict_cached_block b s =
     (let blk = heap s b in
      if is_pinned blk then (False, s)
      else case block_hash blk of
        None \<Rightarrow>
          (case hash_value blk of
             None \<Rightarrow> (False, s)
           | Some hv \<Rightarrow>
               (True, upd_block b (\<lambda>x. drop_data (x\<lparr>hash_value := None\<rparr>)) (drop_legacy (Some hv) b s)))
      | Some h \<Rightarrow>
          (case bh_pop h b (cached_map s) of
             (None, m) \<Rightarrow> (False, s\<lparr>cached_map := m\<rparr>)
           | (Some _, m) \<Rightarrow>
               let s1 = drop_legacy (truthy_str (hash_value blk)) b (s\<lparr>cached_map := m\<rparr>);
                   s2 = upd_block b (\<lambda>x. drop_data (reset_hash x)) s1
               in (True, upd_stats (\<lambda>st. st\<lparr>evictions := evictions st + 1\<rparr>) s2)))"

text \<open>What every allocation does to the block it took.\<close>

definition claim_block :: "bid \<Rightarrow> 't manager \<Rightarrow> 't manager" where
  "claim_block b s =
     (let s1 = (if enable_caching s then snd (maybe_evict_cached_block b s) else s);
          s2 = upd_block b (\<lambda>x. touch_block (x\<lparr>ref_count := 1\<rparr>)) s1
      in s2\<lparr>allocated_blocks := insert b (allocated_blocks s2)\<rparr>)"

definition count_alloc :: "int \<Rightarrow> 't manager \<Rightarrow> 't manager" where
  "count_alloc n = upd_stats (\<lambda>st. st\<lparr>st_allocated_blocks := st_allocated_blocks st + n,
      st_free_blocks := st_free_blocks st - n\<rparr>)"

definition allocate_block :: "'t manager \<Rightarrow> (bid option, 't manager) outcome" where
  "allocate_block s =
     (if num_free_blocks s = 0 then (Inr None, s)
      else case (if enable_caching s then popleft_lfu 8 s else popleft s) of
        (Inl e, s') \<Rightarrow> (Inl e, s')
      | (Inr b, s') \<Rightarrow> (Inr (Some b), count_alloc 1 (claim_block b s')))"

definition get_new_blocks :: "int \<Rightarrow> 't manager \<Rightarrow> (bid list, 't manager) outcome" where
  "get_new_blocks n s =
     (if num_free_blocks s < n then (Inl ValueError, s)
      else case popleft_n n s of
        (Inl e, s') \<Rightarrow> (Inl e, s')
      | (Inr bs, s') \<Rightarrow> (Inr bs, count_alloc n (fold claim_block bs s')))"

definition free_block :: "bid \<Rightarrow> 't manager \<Rightarrow> (bool, 't manager) outcome" where
  "free_block b s =
     (if b \<notin> allocated_blocks s then (Inr False, s)
      else if is_null (heap s b) then (Inr False, s)
      else let s1 = upd_block b (\<lambda>x. x\<lparr>ref_count := ref_count x - 1\<rparr>) s in
        if ref_count (heap s1 b) \<le> 0 then
          (case queue_append b (s1\<lparr>allocated_blocks := allocated_blocks s1 - {b}\<rparr>) of
             (Inl e, s2) \<Rightarrow> (Inl e, s2)
           | (Inr _, s2) \<Rightarrow>
               (Inr True, upd_stats (\<lambda>st. st\<lparr>total_tokens_cached :=
                  total_tokens_cached st - token_count (heap s2 b)\<rparr>) (count_alloc (- 1) s2)))
        else (Inr False, s1))"

section \<open>References\<close>

text \<open>\<open>touch\<close>: the RuntimeError of a block that is not in the queue is swallowed.\<close>

definition touch_one :: "bid \<Rightarrow> 't manager \<Rightarrow> 't manager" where
  "touch_one b s =
     (let s1 = (if ref_count (heap s b) = 0 \<and> \<not> is_null (heap s b) then
           (case queue_remove b s of
              (Inl e, s') \<Rightarrow> s'
            | (Inr _, s') \<Rightarrow>
                (count_alloc 1 s')\<lparr>allocated_blocks := insert b (allocated_blocks s')\<rparr>)
         else s)
      in upd_block b (\<lambda>x. touch_block (x\<lparr>ref_count := ref_count x + 1\<rparr>)) s1)"

definition touch :: "bid list \<Rightarrow> 't manager \<Rightarrow> 't manager" where
  "touch bs s = fold touch_one bs s"

definition increment_ref :: "bid \<Rightarrow> 't manager \<Rightarrow> bool \<times> 't manager" where
  "increment_ref b s =
     (if b \<notin> allocated_blocks s then (False, s)
      else let s1 = upd_block b (\<lambda>x. touch_block (x\<lparr>ref_count := ref_count x + 1\<rparr>)) s in
        (True, if ref_count (heap s1 b) = 2
           then upd_stats (\<lambda>st. st\<lparr>shared_blocks := shared_blocks st + 1\<rparr>) s1 else s1))"

definition decrement_ref :: "bid \<Rightarrow> 't manager \<Rightarrow> (bool, 't manager) outcome" where
  "decrement_ref b s = free_block b s"

section \<open>Prefix caching by chain hash\<close>

definition hit :: "'t manager \<Rightarrow> 't manager" where
  "hit = upd_stats (\<lambda>st. st\<lparr>cache_hits := cache_hits st + 1\<rparr>)"

definition miss :: "'t manager \<Rightarrow> 't manager" where
  "miss = upd_stats (\<lambda>st. st\<lparr>cache_misses := cache_misses st + 1\<rparr>)"

definition get_cached_block :: "digest \<Rightarrow> 't manager \<Rightarrow> bid option \<times> 't manager" where
  "get_cached_block h s =
     (if \<not> enable_caching s then (None, s)
      else case get_block (cached_map s) h of
        Some b \<Rightarrow> (Some b, hit s)
      | None \<Rightarrow> (None, miss s))"

fun cache_loop :: "(bytes \<Rightarrow> digest) \<Rightarrow> bid list \<Rightarrow> int list \<Rightarrow> nat list \<Rightarrow> digest option \<Rightarrow>
    't manager \<Rightarrow> (unit, 't manager) outcome" where
  "cache_loop sha blocks token_ids [] parent s = (Inr (), s)"
| "cache_loop sha blocks token_ids (i # is) parent s =
     (if length blocks \<le> i then (Inl IndexError, s)
      else let b = blocks ! i in
        case block_hash (heap s b) of
          Some h \<Rightarrow> cache_loop sha blocks token_ids is (Some h) s
        | None \<Rightarrow>
            let toks = slice token_ids (i * block_size s) (i * block_size s + block_size s);
                h = compute_block_hash sha parent toks None;
                s1 = upd_block b (\<lambda>x. x\<lparr>block_hash := Some h, token_count := int (length toks)\<rparr>) s;
                s2 = s1\<lparr>cached_map := bh_insert h b (cached_map s1)\<rparr>
            in case legacy_block_hash sha toks of
                Inl e \<Rightarrow> (Inl e, s2)
              | Inr lh \<Rightarrow>
                  let s3 = upd_block b (\<lambda>x. x\<lparr>hash_value := Some lh\<rparr>) s2;
                      s4 = s3\<lparr>hash_to_block := (hash_to_block s3)(lh \<mapsto> b)\<rparr>
                  in cache_loop sha blocks token_ids is (Some h) s4)"

definition cache_full_blocks :: "(bytes \<Rightarrow> digest) \<Rightarrow> bid list \<Rightarrow> int list \<Rightarrow> nat \<Rightarrow> nat \<Rightarrow>
    't manager \<Rightarrow> (unit, 't manager) outcome" where
  "cache_full_blocks sha blocks token_ids num_cached num_full s =
     (if \<not> enable_caching s \<or> num_full \<le> num_cached then (Inr (), s)
      else if num_cached = 0 then cache_loop sha blocks token_ids [num_cached..<num_full] None s
      else if length blocks \<le> num_cached - 1 then (Inl IndexError, s)
      else cache_loop sha blocks token_ids [num_cached..<num_full]
             (block_hash (heap s (blocks ! (num_cached - 1)))) s)"

fun computed_loop :: "(bytes \<Rightarrow> digest) \<Rightarrow> int list \<Rightarrow> nat list \<Rightarrow> digest option \<Rightarrow> bid list \<Rightarrow>
    't manager \<Rightarrow> bid list \<times> 't manager" where
  "computed_loop sha token_ids [] parent acc s = (acc, s)"
| "computed_loop sha token_ids (i # is) parent acc s =
     (let toks = slice token_ids (i * block_size s) (i * block_size s + block_size s);
          h = compute_block_hash sha parent toks None
      in case get_best_block (heap s) (cached_map s) h of
           None \<Rightarrow> (acc, miss s)
         | Some b \<Rightarrow> computed_loop sha token_ids is (Some h) (acc @ [b]) (hit s))"

definition get_computed_blocks :: "(bytes \<Rightarrow> digest) \<Rightarrow> int list \<Rightarrow> 't manager \<Rightarrow>
    (bid list \<times> nat, 't manager) outcome" where
  "get_computed_blocks sha token_ids s =
     (if \<not> enable_caching s then (Inr ([], 0), s)
      else if block_size s = 0 then (Inl ZeroDivisionError, s)
      else case computed_loop sha token_ids [0..<length token_ids div block_size s] None [] s of
        (bs, s') \<Rightarrow> (Inr (bs, length bs * block_size s), s'))"

section \<open>Prefix caching by identity hash\<close>

definition find_cached_block_by_hash :: "string \<Rightarrow> bool \<Rightarrow> 't manager \<Rightarrow> bid option \<times> 't manager" where
  "find_cached_block_by_hash h record_stats s =
     (let missed = (\<lambda>s. (None, if record_stats then miss s else s)) in
      case hash_to_block s h of
        None \<Rightarrow> missed s
      | Some b \<Rightarrow>
          if b \<in> allocated_blocks s then
            if hash_value (heap s b) = Some h then
              let s1 = upd_block b touch_block s in (Some b, if record_stats then hit s1 else s1)
            else missed (s\<lparr>hash_to_block := (hash_to_block s)(h := None)\<rparr>)
          else missed s)"

definition find_cached_block :: "(bytes \<Rightarrow> digest) \<Rightarrow> int list \<Rightarrow> bool \<Rightarrow> 't manager \<Rightarrow>
    (bid option, 't manager) outcome" where
  "find_cached_block sha tokens record_stats s =
     (case legacy_block_hash sha tokens of
        Inl e \<Rightarrow> (Inl e, s)
      | Inr h \<Rightarrow> (case find_cached_block_by_hash h record_stats s of (r, s') \<Rightarrow> (Inr r, s')))"

definition register_block_hash_value :: "bid \<Rightarrow> string \<Rightarrow> 't manager \<Rightarrow> 't manager" where
  "register_block_hash_value b h s =
     (let s1 = upd_block b (\<lambda>x. x\<lparr>hash_value := Some h\<rparr>) s
      in s1\<lparr>hash_to_block := (hash_to_block s1)(h \<mapsto> b)\<rparr>)"

definition register_block_hash :: "(bytes \<Rightarrow> digest) \<Rightarrow> bid \<Rightarrow> int list \<Rightarrow> 't manager \<Rightarrow>
    (unit, 't manager) outcome" where
  "register_block_hash sha b tokens s =
     (case legacy_block_hash sha tokens of
        Inl e \<Rightarrow> (Inl e, s) | Inr h \<Rightarrow> (Inr (), register_block_hash_value b h s))"

section \<open>Block tables of requests\<close>

fun free_all :: "bid list \<Rightarrow> 't manager \<Rightarrow> (unit, 't manager) outcome" where
  "free_all [] s = (Inr (), s)"
| "free_all (b # bs) s = (case free_block b s of
      (Inl e, s') \<Rightarrow> (Inl e, s') | (Inr _, s') \<Rightarrow> free_all bs s')"

definition delete_block_table :: "string \<Rightarrow> 't manager \<Rightarrow> (unit, 't manager) outcome" where
  "delete_block_table rid s =
     (case request_tables s rid of
        None \<Rightarrow> (Inr (), s)
      | Some a \<Rightarrow> free_all (block_ids (table_store s a))
          (s\<lparr>request_tables := (request_tables s)(rid := None)\<rparr>))"

text \<open>A new table object, registered under \<open>rid\<close>.\<close>

definition register_table :: "string \<Rightarrow> block_table \<Rightarrow> 't manager \<Rightarrow> taddr \<times> 't manager" where
  "register_table rid t s =
     (let a = next_table s in
      (a, s\<lparr>table_store := (table_store s)(a := t), next_table := Suc a,
            request_tables := (request_tables s)(rid \<mapsto> a)\<rparr>))"

definition create_block_table :: "string \<Rightarrow> 't manager \<Rightarrow> (taddr, 't manager) outcome" where
  "create_block_table rid s =
     (case (if request_tables s rid \<noteq> None then delete_block_table rid s else (Inr (), s)) of
        (Inl e, s') \<Rightarrow> (Inl e, s')
      | (Inr _, s') \<Rightarrow> (case register_table rid (new_table rid) s' of (a, s2) \<Rightarrow> (Inr a, s2)))"

definition get_block_table :: "string \<Rightarrow> 't manager \<Rightarrow> taddr option" where
  "get_block_table rid s = request_tables s rid"

definition get_or_create_block_table :: "string \<Rightarrow> 't manager \<Rightarrow> taddr \<times> 't manager" where
  "get_or_create_block_table rid s =
     (case request_tables s rid of
        Some a \<Rightarrow> (a, s) | None \<Rightarrow> register_table rid (new_table rid) s)"

definition add_block_to_table :: "taddr \<Rightarrow> bid \<Rightarrow> int \<Rightarrow> 't manager \<Rightarrow> 't manager" where
  "add_block_to_table a b n s =
     (let s1 = upd_table a (add_block b n) s;
          s2 = upd_block b (\<lambda>x. x\<lparr>token_count := n\<rparr>) s1
      in upd_stats (\<lambda>st. st\<lparr>total_tokens_cached := total_tokens_cached st + n\<rparr>) s2)"

section \<open>Prefix sharing and copy-on-write\<close>

fun shared_loop :: "(bytes \<Rightarrow> digest) \<Rightarrow> nat \<Rightarrow> bool \<Rightarrow> int list \<Rightarrow> hasher \<Rightarrow> bid list \<Rightarrow>
    't manager \<Rightarrow> (bid list \<times> int list, 't manager) outcome" where
  "shared_loop sha 0 rs toks hs acc s = (Inl Diverges, s)"
| "shared_loop sha (Suc f) rs toks hs acc s =
     (if length toks < block_size s then (Inr (acc, toks), s)
      else case ph_update hs (take (block_size s) toks) of
        Inl e \<Rightarrow> (Inl e, s)
      | Inr hs' \<Rightarrow>
          (case find_cached_block_by_hash (ph_hexdigest sha hs') rs s of
             (None, s') \<Rightarrow> (Inr (acc, toks), s')
           | (Some b, s') \<Rightarrow>
               if token_count (heap s' b) = int (block_size s)
               then shared_loop sha f rs (drop (block_size s) toks) hs' (acc @ [b]) s'
               else (Inr (acc, toks), s')))"

definition find_shared_prefix :: "(bytes \<Rightarrow> digest) \<Rightarrow> int list \<Rightarrow> bool \<Rightarrow> 't manager \<Rightarrow>
    (bid list \<times> int list, 't manager) outcome" where
  "find_shared_prefix sha tokens record_stats s =
     shared_loop sha (Suc (length tokens)) record_stats tokens [] [] s"

definition fork_block_table :: "taddr \<Rightarrow> string \<Rightarrow> 't manager \<Rightarrow> (taddr, 't manager) outcome" where
  "fork_block_table src new_rid s =
     (if request_tables s new_rid = Some src then (Inr src, s)
      else case (if request_tables s new_rid \<noteq> None then delete_block_table new_rid s else (Inr (), s)) of
        (Inl e, s1) \<Rightarrow> (Inl e, s1)
      | (Inr _, s1) \<Rightarrow>
          let t = table_copy new_rid (table_store s1 src);
              s2 = fold (\<lambda>b s. snd (increment_ref b s)) (block_ids t) s1
          in (case register_table new_rid t s2 of (a, s3) \<Rightarrow> (Inr a, s3)))"

definition cow_copy_block :: "bid \<Rightarrow> 't manager \<Rightarrow> (bid option, 't manager) outcome" where
  "cow_copy_block src s =
     (case allocate_block s of
        (Inl e, s') \<Rightarrow> (Inl e, s')
      | (Inr None, s') \<Rightarrow> (Inr None, s')
      | (Inr (Some nb), s') \<Rightarrow>
          let sb = heap s' src;
              s1 = upd_block nb (\<lambda>x. x\<lparr>token_count := token_count sb, cache_data := cache_data sb,
                     cache_class_name := cache_class_name sb\<rparr>) s';
              s2 = upd_block src (\<lambda>x. x\<lparr>ref_count := ref_count x - 1\<rparr>) s1;
              s3 = (if ref_count (heap s2 src) = 1
                    then upd_stats (\<lambda>st. st\<lparr>shared_blocks := shared_blocks st - 1\<rparr>) s2 else s2)
          in (Inr (Some nb), s3))"

fun generation_loop :: "taddr \<Rightarrow> nat list \<Rightarrow> bid list \<Rightarrow> bool \<Rightarrow> 't manager \<Rightarrow>
    (bid list \<times> bool, 't manager) outcome" where
  "generation_loop a [] acc copied s = (Inr (acc, copied), s)"
| "generation_loop a (i # is) acc copied s =
     (let b = block_ids (table_store s a) ! i in
      if b \<notin> allocated_blocks s then generation_loop a is acc copied s
      else if is_shared (heap s b) then
        (case cow_copy_block b s of
           (Inl e, s') \<Rightarrow> (Inl e, s')
         | (Inr (Some nb), s') \<Rightarrow>
             let s1 = upd_table a (\<lambda>t. t\<lparr>block_ids := (block_ids t)[i := nb]\<rparr>) s';
                 s2 = upd_stats (\<lambda>st. st\<lparr>cow_copies := cow_copies st + 1\<rparr>) s1
             in generation_loop a is (acc @ [nb]) True (upd_block b touch_block s2)
         | (Inr None, s') \<Rightarrow> generation_loop a is (acc @ [b]) copied (upd_block b touch_block s'))
      else generation_loop a is (acc @ [b]) copied (upd_block b touch_block s))"

definition get_blocks_for_generation :: "taddr \<Rightarrow> 't manager \<Rightarrow> (bid list \<times> bool, 't manager) outcome" where
  "get_blocks_for_generation a s =
     generation_loop a [0..<length (block_ids (table_store s a))] [] False s"

definition allocate_blocks_for_tokens :: "nat \<Rightarrow> 't manager \<Rightarrow> (bid list, 't manager) outcome" where
  "allocate_blocks_for_tokens n s =
     (if block_size s = 0 then (Inl ZeroDivisionError, s)
      else get_new_blocks (int ((n + block_size s - 1) div block_size s)) s)"

section \<open>Eviction under pressure\<close>

fun evict_loop :: "nat \<Rightarrow> nat \<Rightarrow> 't manager \<Rightarrow> (nat, 't manager) outcome" where
  "evict_loop 0 evicted s = (Inr evicted, s)"
| "evict_loop (Suc k) evicted s =
     (case (if enable_caching s then popleft_lfu 8 s else popleft s) of
        (Inl ValueError, s') \<Rightarrow> (Inr evicted, s')
      | (Inl e, s') \<Rightarrow> (Inl e, s')
      | (Inr b, s') \<Rightarrow>
          (case queue_append b (snd (maybe_evict_cached_block b s')) of
             (Inl e, s2) \<Rightarrow> (Inl e, s2)
           | (Inr _, s2) \<Rightarrow> evict_loop k (evicted + 1) s2))"

definition evict_lru_blocks :: "int \<Rightarrow> 't manager \<Rightarrow> (nat, 't manager) outcome" where
  "evict_lru_blocks n s = evict_loop (nat (min n (num_free_blocks s))) 0 s"

definition handle_memory_pressure :: "int \<Rightarrow> 't manager \<Rightarrow> (bool, 't manager) outcome" where
  "handle_memory_pressure requested s =
     (if requested \<le> num_free_blocks s then (Inr True, s)
      else case evict_lru_blocks (requested - num_free_blocks s) s of
        (Inl e, s') \<Rightarrow> (Inl e, s')
      | (Inr _, s') \<Rightarrow> (Inr (requested \<le> num_free_blocks s'), s'))"

definition release_one :: "bid \<Rightarrow> 't manager \<Rightarrow> 't manager" where
  "release_one b s =
     (let blk = heap s b;
          s1 = (case block_hash blk of None \<Rightarrow> s
                | Some h \<Rightarrow> s\<lparr>cached_map := snd (bh_pop h b (cached_map s))\<rparr>);
          s2 = drop_legacy (hash_value blk) b s1;
          s3 = upd_block b (\<lambda>x. drop_data (reset_hash x)) s2
      in upd_stats (\<lambda>st. st\<lparr>evictions := evictions st + 1\<rparr>) s3)"

fun release_loop :: "nat \<Rightarrow> nat \<Rightarrow> bid option \<Rightarrow> nat \<Rightarrow> 't manager \<Rightarrow> (nat, 't manager) outcome" where
  "release_loop 0 maxb cur released s = (Inl Diverges, s)"
| "release_loop (Suc f) maxb cur released s =
     (case cur of None \<Rightarrow> (Inl AttributeError, s)
      | Some b \<Rightarrow>
        if b = fake_tail then (Inr released, s)
        else if cache_data (heap s b) \<noteq> None \<and> \<not> is_pinned (heap s b) then
          let s1 = release_one b s in
          if maxb \<noteq> 0 \<and> maxb \<le> released + 1 then (Inr (released + 1), s1)
          else release_loop f maxb (nxt s b) (released + 1) s1
        else release_loop f maxb (nxt s b) released s)"

definition release_pressure_blocks :: "nat \<Rightarrow> 't manager \<Rightarrow> (nat, 't manager) outcome" where
  "release_pressure_blocks maxb s = release_loop (fuel_of s) maxb (nxt s fake_head) 0 s"

section \<open>Statistics\<close>

definition free_blocks :: "'t manager \<Rightarrow> int" where
  "free_blocks s = num_free_blocks s"

definition usage :: "'t manager \<Rightarrow> rat" where
  "usage s = (let total = int (max_blocks s) - 1 in
     if total = 0 then 0 else 1 - of_int (free_blocks s) / of_int total)"

definition get_stats :: "'t manager \<Rightarrow> cache_stats \<times> 't manager" where
  "get_stats s =
     (let s' = upd_stats (\<lambda>st. st\<lparr>shared_blocks := int (card (Set.filter (\<lambda>b. is_shared (heap s b)) (allocated_blocks s))),
            st_free_blocks := num_free_blocks s\<rparr>) s
      in (stats s', s'))"

record memory_usage =
  mu_block_size :: nat
  mu_max_blocks :: nat
  mu_allocated_blocks :: int
  mu_free_blocks :: int
  mu_shared_blocks :: int
  mu_total_tokens_cached :: int
  utilization :: rat
  cache_hit_rate :: rat

definition get_memory_usage :: "'t manager \<Rightarrow> (memory_usage, 't manager) outcome" where
  "get_memory_usage s =
     (case get_stats s of (st, s') \<Rightarrow>
        if max_blocks s = 0 then (Inl ZeroDivisionError, s')
        else (Inr \<lparr>mu_block_size = block_size s, mu_max_blocks = max_blocks s,
          mu_allocated_blocks = st_allocated_blocks st, mu_free_blocks = st_free_blocks st,
          mu_shared_blocks = shared_blocks st, mu_total_tokens_cached = total_tokens_cached st,
          utilization = of_int (st_allocated_blocks st) / of_nat (max_blocks s),
          cache_hit_rate = (if 0 < cache_hits st + cache_misses st
            then of_int (cache_hits st) / of_int (cache_hits st + cache_misses st) else 0)\<rparr>, s'))"

definition reset_stats :: "'t manager \<Rightarrow> 't manager" where
  "reset_stats = upd_stats (\<lambda>st. st\<lparr>cache_hits := 0, cache_misses := 0, cow_copies := 0, evictions := 0\<rparr>)"

section \<open>Pinning\<close>

fun pin_loop :: "bid list \<Rightarrow> nat \<Rightarrow> 't manager \<Rightarrow> nat \<times> 't manager" where
  "pin_loop [] pinned s = (pinned, s)"
| "pin_loop (b # bs) pinned s =
     (if b \<in> allocated_blocks s \<and> \<not> is_null (heap s b) \<and> \<not> is_pinned (heap s b)
      then pin_loop bs (pinned + 1) (upd_block b (\<lambda>x. x\<lparr>is_pinned := True\<rparr>) s)
      else pin_loop bs pinned s)"

definition pin_blocks :: "bid list \<Rightarrow> 't manager \<Rightarrow> nat \<times> 't manager" where
  "pin_blocks bs s = pin_loop bs 0 s"

text \<open>\<open>self.blocks[i]\<close> guarded by \<open>i < len(self.blocks)\<close> only: a negative \<open>i\<close> counts from the end.\<close>

definition block_at :: "bid \<Rightarrow> 't manager \<Rightarrow> py_error + bid option" where
  "block_at i s =
     (if int (max_blocks s) \<le> i then Inr None
      else if 0 \<le> i then Inr (Some i)
      else if - int (max_blocks s) \<le> i then Inr (Some (i + int (max_blocks s)))
      else Inl IndexError)"

fun unpin_loop :: "bid list \<Rightarrow> nat \<Rightarrow> 't manager \<Rightarrow> (nat, 't manager) outcome" where
  "unpin_loop [] count s = (Inr count, s)"
| "unpin_loop (i # is) count s =
     (case (if i \<in> allocated_blocks s then Inr (Some i) else block_at i s) of
        Inl e \<Rightarrow> (Inl e, s)
      | Inr None \<Rightarrow> unpin_loop is count s
      | Inr (Some b) \<Rightarrow>
          if is_pinned (heap s b)
          then unpin_loop is (count + 1) (upd_block b (\<lambda>x. x\<lparr>is_pinned := False\<rparr>) s)
          else unpin_loop is count s)"

definition unpin_blocks :: "bid list \<Rightarrow> 't manager \<Rightarrow> (nat, 't manager) outcome" where
  "unpin_blocks bs s = unpin_loop bs 0 s"

definition get_pinned_block_ids :: "'t manager \<Rightarrow> bid list" where
  "get_pinned_block_ids s = filter (\<lambda>b. is_pinned (heap s b)) (map int [0..<max_blocks s])"

section \<open>Reset\<close>

definition all_block_ids :: "'t manager \<Rightarrow> bid list" where
  "all_block_ids s = map int [0..<max_blocks s]"

definition reset_prefix_cache :: "'t manager \<Rightarrow> bool \<times> 't manager" where
  "reset_prefix_cache s =
     (if 1 < int (max_blocks s) - num_free_blocks s then (False, s)
      else let s1 = s\<lparr>cached_map := bh_clear (cached_map s), hash_to_block := Map.empty\<rparr>;
               s2 = fold (\<lambda>b. upd_block b (\<lambda>x. drop_data (reset_hash x))) (all_block_ids s) s1
           in (True, upd_stats (\<lambda>st. st\<lparr>evictions := 0, cache_hits := 0, cache_misses := 0\<rparr>) s2))"

definition clear :: "bool \<Rightarrow> 't manager \<Rightarrow> (unit, 't manager) outcome" where
  "clear reset s =
     (let previous = stats s;
          s1 = queue_init (max_blocks s) (s\<lparr>heap := new_block\<rparr>);
          s2 = s1\<lparr>cached_map := bh_clear (cached_map s1), hash_to_block := Map.empty,
                  request_tables := Map.empty, allocated_blocks := {}\<rparr>
      in case reserve_null s2 of
           (Inl e, s3) \<Rightarrow> (Inl e, s3)
         | (Inr _, s3) \<Rightarrow>
             (Inr (), s3\<lparr>stats := (fresh_stats (max_blocks s3))
                \<lparr>cache_hits := (if reset then 0 else cache_hits previous),
                 cache_misses := (if reset then 0 else cache_misses previous),
                 cow_copies := (if reset then 0 else cow_copies previous),
                 evictions := (if reset then 0 else evictions previous)\<rparr>\<rparr>))"

end
