(* ===== verification/PagedInv.thy ===== *)
theory PagedInv
  imports PagedCache
begin

text \<open>
  The invariant of \<open>PagedCacheManager\<close> and its preservation. \<open>pinvx s xs D k\<close>: the free queue
  holds \<open>xs\<close>, the blocks \<open>D\<close> are detached (taken from the queue, not yet allocated, or the
  reverse) and the counters of \<open>stats\<close> are \<open>k\<close> allocations behind. Between two calls nothing is
  detached: \<open>paged_inv s\<close>. Every block is then either allocated with a positive reference count
  or free with count 0, the null block is allocated and the only one of its kind, the counters
  agree with the sets, and a block is filed in the chain-hash map under exactly its own hash.
\<close>

section \<open>Invariant\<close>

definition all_blocks :: "'t manager \<Rightarrow> bid set" where
  "all_blocks s = {0..<int (max_blocks s)}"

text \<open>The chain hash a block claims.\<close>

definition claim :: "'t manager \<Rightarrow> bid \<Rightarrow> digest option" where
  "claim s b = (if b \<in> all_blocks s then block_hash (heap s b) else None)"

definition pinvx :: "'t manager \<Rightarrow> bid list \<Rightarrow> bid set \<Rightarrow> int \<Rightarrow> bool" where
  "pinvx s xs D k \<longleftrightarrow> qinv s xs \<and>
     allocated_blocks s \<inter> set xs = {} \<and> allocated_blocks s \<inter> D = {} \<and> set xs \<inter> D = {} \<and>
     allocated_blocks s \<union> set xs \<union> D = all_blocks s \<and>
     (\<forall>b\<in>allocated_blocks s. 0 < ref_count (heap s b)) \<and>
     (\<forall>b\<in>set xs \<union> D. ref_count (heap s b) = 0) \<and>
     null_block s \<in> allocated_blocks s \<and>
     (\<forall>b\<in>all_blocks s. is_null (heap s b) \<longleftrightarrow> b = null_block s) \<and>
     bh_wf (cached_map s) \<and> (\<forall>h b. b \<in> bh_members (cached_map s) h \<longleftrightarrow> claim s b = Some h) \<and>
     st_allocated_blocks (stats s) + k = int (card (allocated_blocks s)) \<and>
     st_free_blocks (stats s) - k = int (length xs) + int (card D)"

definition paged_inv :: "'t manager \<Rightarrow> bool" where
  "paged_inv s \<longleftrightarrow> (\<exists>xs. pinvx s xs {} 0)"

section \<open>What the invariant looks at\<close>

definition hard :: "'t cache_block \<Rightarrow> bid option \<times> bid option \<times> int \<times> bool \<times> digest option" where
  "hard b = (prev_free_block b, next_free_block b, ref_count b, is_null b, block_hash b)"

definition hard_eq :: "'t manager \<Rightarrow> 't manager \<Rightarrow> bool" where
  "hard_eq s s' \<longleftrightarrow> (\<forall>i. hard (heap s' i) = hard (heap s i)) \<and>
     num_free_blocks s' = num_free_blocks s \<and> max_blocks s' = max_blocks s \<and>
     allocated_blocks s' = allocated_blocks s \<and> null_block s' = null_block s \<and>
     cached_map s' = cached_map s \<and>
     st_allocated_blocks (stats s') = st_allocated_blocks (stats s) \<and>
     st_free_blocks (stats s') = st_free_blocks (stats s)"

lemma hard_eq_refl: "hard_eq s s"
  by (simp add: hard_eq_def)

lemma hard_eq_trans [trans]: "hard_eq s t \<Longrightarrow> hard_eq t u \<Longrightarrow> hard_eq s u"
  by (simp add: hard_eq_def)

lemma hard_eq_sym: "hard_eq s t \<Longrightarrow> hard_eq t s"
  by (simp add: hard_eq_def)

lemma dseg_hard: "\<forall>i. hard (h' i) = hard (h i) \<Longrightarrow> dseg h' a xs b = dseg h a xs b"
  by (rule dseg_cong) (simp_all add: hard_def)

lemma hard_eq_fields:
  assumes "hard_eq s s'"
  shows "prv s' i = prv s i" "nxt s' i = nxt s i" "ref_count (heap s' i) = ref_count (heap s i)"
    "is_null (heap s' i) = is_null (heap s i)" "block_hash (heap s' i) = block_hash (heap s i)"
    "num_free_blocks s' = num_free_blocks s" "max_blocks s' = max_blocks s"
    "allocated_blocks s' = allocated_blocks s" "null_block s' = null_block s"
    "cached_map s' = cached_map s"
    "st_allocated_blocks (stats s') = st_allocated_blocks (stats s)"
    "st_free_blocks (stats s') = st_free_blocks (stats s)"
  using assms by (auto simp: hard_eq_def hard_def)

lemma qinv_hard:
  assumes h: "hard_eq s s'"
  shows "qinv s' xs = qinv s xs"
proof -
  have "dseg (heap s') fake_head xs fake_tail = dseg (heap s) fake_head xs fake_tail"
    using h by (intro dseg_hard) (simp add: hard_eq_def)
  then show ?thesis by (simp add: qinv_def qseg_def hard_eq_fields [OF h])
qed

lemma claim_hard: "hard_eq s s' \<Longrightarrow> claim s' b = claim s b"
  by (simp add: claim_def all_blocks_def hard_eq_fields [of s s'])

lemma pinvx_hard: "hard_eq s s' \<Longrightarrow> pinvx s' xs D k = pinvx s xs D k"
  by (simp add: pinvx_def qinv_hard [of s s'] claim_hard [of s s'] all_blocks_def hard_eq_fields [of s s'])

lemma paged_inv_hard: "hard_eq s s' \<Longrightarrow> paged_inv s' = paged_inv s"
  by (simp add: paged_inv_def pinvx_hard [of s s'])

lemma hard_eq_paged_inv: "paged_inv s \<Longrightarrow> hard_eq s s' \<Longrightarrow> paged_inv s'"
  by (simp add: paged_inv_hard [of s s'])

section \<open>Manager fields under the block updates\<close>

lemma upd_block_fields [simp]:
  "block_size (upd_block i f s) = block_size s" "max_blocks (upd_block i f s) = max_blocks s"
  "enable_caching (upd_block i f s) = enable_caching s" "cached_map (upd_block i f s) = cached_map s"
  "hash_to_block (upd_block i f s) = hash_to_block s" "table_store (upd_block i f s) = table_store s"
  "next_table (upd_block i f s) = next_table s" "request_tables (upd_block i f s) = request_tables s"
  "allocated_blocks (upd_block i f s) = allocated_blocks s" "null_block (upd_block i f s) = null_block s"
  "stats (upd_block i f s) = stats s"
  by (simp_all add: upd_block_def)

lemma upd_stats_fields [simp]:
  "heap (upd_stats g s) = heap s" "num_free_blocks (upd_stats g s) = num_free_blocks s"
  "block_size (upd_stats g s) = block_size s" "max_blocks (upd_stats g s) = max_blocks s"
  "enable_caching (upd_stats g s) = enable_caching s" "cached_map (upd_stats g s) = cached_map s"
  "hash_to_block (upd_stats g s) = hash_to_block s" "table_store (upd_stats g s) = table_store s"
  "next_table (upd_stats g s) = next_table s" "request_tables (upd_stats g s) = request_tables s"
  "allocated_blocks (upd_stats g s) = allocated_blocks s" "null_block (upd_stats g s) = null_block s"
  "stats (upd_stats g s) = g (stats s)"
  by (simp_all add: upd_stats_def)

lemma upd_table_fields [simp]:
  "heap (upd_table a g s) = heap s" "num_free_blocks (upd_table a g s) = num_free_blocks s"
  "block_size (upd_table a g s) = block_size s" "max_blocks (upd_table a g s) = max_blocks s"
  "enable_caching (upd_table a g s) = enable_caching s" "cached_map (upd_table a g s) = cached_map s"
  "hash_to_block (upd_table a g s) = hash_to_block s"
  "table_store (upd_table a g s) = (table_store s)(a := g (table_store s a))"
  "next_table (upd_table a g s) = next_table s" "request_tables (upd_table a g s) = request_tables s"
  "allocated_blocks (upd_table a g s) = allocated_blocks s" "null_block (upd_table a g s) = null_block s"
  "stats (upd_table a g s) = stats s"
  by (simp_all add: upd_table_def)

lemma count_alloc_fields [simp]:
  "heap (count_alloc n s) = heap s" "num_free_blocks (count_alloc n s) = num_free_blocks s"
  "block_size (count_alloc n s) = block_size s" "max_blocks (count_alloc n s) = max_blocks s"
  "enable_caching (count_alloc n s) = enable_caching s" "cached_map (count_alloc n s) = cached_map s"
  "hash_to_block (count_alloc n s) = hash_to_block s" "table_store (count_alloc n s) = table_store s"
  "next_table (count_alloc n s) = next_table s" "request_tables (count_alloc n s) = request_tables s"
  "allocated_blocks (count_alloc n s) = allocated_blocks s" "null_block (count_alloc n s) = null_block s"
  by (simp_all add: count_alloc_def)

text \<open>The queue operations change nothing of the manager but the pool.\<close>

lemma same_core_manager:
  fixes s s' :: "'t manager"
  assumes "same_core s s'"
  shows "block_size s' = block_size s" "max_blocks s' = max_blocks s"
    "enable_caching s' = enable_caching s" "cached_map s' = cached_map s"
    "hash_to_block s' = hash_to_block s" "table_store s' = table_store s"
    "next_table s' = next_table s" "request_tables s' = request_tables s"
    "allocated_blocks s' = allocated_blocks s" "null_block s' = null_block s" "stats s' = stats s"
  using same_core_more [OF assms] by (cases s, cases s', simp)+

section \<open>Consequences\<close>

lemma pinvxD:
  assumes "pinvx s xs D k"
  shows "qinv s xs" "allocated_blocks s \<inter> set xs = {}" "allocated_blocks s \<inter> D = {}"
    "set xs \<inter> D = {}" "allocated_blocks s \<union> set xs \<union> D = all_blocks s"
    "\<And>b. b \<in> allocated_blocks s \<Longrightarrow> 0 < ref_count (heap s b)"
    "\<And>b. b \<in> set xs \<union> D \<Longrightarrow> ref_count (heap s b) = 0"
    "null_block s \<in> allocated_blocks s"
    "\<And>b. b \<in> all_blocks s \<Longrightarrow> is_null (heap s b) \<longleftrightarrow> b = null_block s"
    "bh_wf (cached_map s)" "\<forall>h b. b \<in> bh_members (cached_map s) h \<longleftrightarrow> claim s b = Some h"
    "st_allocated_blocks (stats s) + k = int (card (allocated_blocks s))"
    "st_free_blocks (stats s) - k = int (length xs) + int (card D)"
  using assms by (auto simp: pinvx_def)

lemma finite_all_blocks [simp]: "finite (all_blocks s)"
  by (simp add: all_blocks_def)

lemma pinvx_finite: "pinvx s xs D k \<Longrightarrow> finite (allocated_blocks s) \<and> finite D"
  using finite_all_blocks [of s] unfolding pinvx_def by (metis finite_Un)

lemma pinvx_ranges: "pinvx s xs D k \<Longrightarrow>
    allocated_blocks s \<subseteq> all_blocks s \<and> set xs \<subseteq> all_blocks s \<and> D \<subseteq> all_blocks s"
  unfolding pinvx_def by blast

section \<open>The elementary steps\<close>

text \<open>Moves between the queue and the detached set.\<close>

lemma pinvx_queue:
  assumes p: "pinvx s xs D k" and c: "same_core s s'" and q: "qinv s' ys"
    and dj: "set ys \<inter> E = {}" and un: "set ys \<union> E = set xs \<union> D"
  shows "pinvx s' ys E k"
proof -
  note d = pinvxD [OF p] and m = same_core_manager [OF c] and f = same_core_fields [OF c]
  have fin: "finite D" "finite E" using pinvx_finite [OF p] un by (simp, metis finite_Un finite_set)
  have "int (length ys) + int (card E) = int (card (set ys \<union> E))"
    using dj fin qinv_distinct [OF q] by (simp add: card_Un_disjoint distinct_card)
  also have "\<dots> = int (length xs) + int (card D)"
    using d(4) fin qinv_distinct [OF d(1)] un by (simp add: card_Un_disjoint distinct_card)
  finally have len: "int (length ys) + int (card E) = int (length xs) + int (card D)" .
  have all: "all_blocks s' = all_blocks s" by (simp add: all_blocks_def m)
  have cl: "claim s' b = claim s b" for b by (simp add: claim_def all f)
  have part: "allocated_blocks s \<inter> set ys = {}" "allocated_blocks s \<inter> E = {}"
    "allocated_blocks s \<union> set ys \<union> E = all_blocks s"
    using d(2,3,5) un by blast+
  have zero: "\<forall>b\<in>set ys \<union> E. ref_count (heap s b) = 0" unfolding un using d(7) by blast
  have st: "st_free_blocks (stats s) - k = int (length ys) + int (card E)" using len d(13) by simp
  have nn: "\<forall>b\<in>all_blocks s. is_null (heap s b) \<longleftrightarrow> b = null_block s"
    "\<forall>b\<in>allocated_blocks s. 0 < ref_count (heap s b)" using d(6,9) by simp_all
  show ?thesis
    unfolding pinvx_def m f all cl
    by (intro conjI q part dj zero st nn d(8) d(10) d(11) d(12))
qed

lemma pinvx_pop:
  assumes "pinvx s xs D k" and "same_core s s'" and "qinv s' (remove1 b xs)" and "b \<in> set xs"
  shows "pinvx s' (remove1 b xs) (insert b D) k"
proof (rule pinvx_queue [OF assms(1-3)])
  have "set (remove1 b xs) = set xs - {b}"
    using qinv_distinct [OF pinvxD(1) [OF assms(1)]] by (simp add: set_remove1_eq)
  then show "set (remove1 b xs) \<inter> insert b D = {}"
    "set (remove1 b xs) \<union> insert b D = set xs \<union> D"
    using assms(4) pinvxD(4) [OF assms(1)] by auto
qed

lemma pinvx_give:
  assumes "pinvx s xs D k" and "same_core s s'" and "qinv s' (xs @ [b])" and "b \<in> D"
  shows "pinvx s' (xs @ [b]) (D - {b}) k"
  by (rule pinvx_queue [OF assms(1-3)]) (use assms(4) pinvxD(4) [OF assms(1)] in auto)

lemma qinv_upd:
  assumes "\<And>x. prev_free_block (f x) = prev_free_block x" "\<And>x. next_free_block (f x) = next_free_block x"
  shows "qinv (upd_block b f s) xs = qinv s xs"
proof -
  have "dseg (heap (upd_block b f s)) fake_head xs fake_tail = dseg (heap s) fake_head xs fake_tail"
    by (rule dseg_cong) (simp_all add: assms)
  then show ?thesis by (auto simp: qinv_def qseg_def assms)
qed

lemma qinv_fields [simp]:
  "qinv (s\<lparr>allocated_blocks := A\<rparr>) xs = qinv s xs" "qinv (s\<lparr>cached_map := m\<rparr>) xs = qinv s xs"
  "qinv (s\<lparr>hash_to_block := g\<rparr>) xs = qinv s xs" "qinv (s\<lparr>request_tables := r\<rparr>) xs = qinv s xs"
  "qinv (upd_stats g' s) xs = qinv s xs" "qinv (count_alloc n s) xs = qinv s xs"
  by (simp_all add: qinv_def qseg_def upd_stats_def count_alloc_def)

text \<open>A detached block becomes allocated.\<close>

definition attach :: "bid \<Rightarrow> int \<Rightarrow> 't manager \<Rightarrow> 't manager" where
  "attach b r s = (upd_block b (\<lambda>x. x\<lparr>ref_count := r\<rparr>) s)
     \<lparr>allocated_blocks := insert b (allocated_blocks s)\<rparr>"

definition detach :: "bid \<Rightarrow> 't manager \<Rightarrow> 't manager" where
  "detach b s = (upd_block b (\<lambda>x. x\<lparr>ref_count := 0\<rparr>) s)
     \<lparr>allocated_blocks := allocated_blocks s - {b}\<rparr>"

definition set_ref :: "bid \<Rightarrow> int \<Rightarrow> 't manager \<Rightarrow> 't manager" where
  "set_ref b r s = upd_block b (\<lambda>x. x\<lparr>ref_count := r\<rparr>) s"

lemma pinvx_attach:
  assumes p: "pinvx s xs D k" and b: "b \<in> D" and r: "0 < r"
  shows "pinvx (attach b r s) xs (D - {b}) (k + 1)"
proof -
  note d = pinvxD [OF p] and fin = pinvx_finite [OF p]
  have na: "b \<notin> allocated_blocks s" using d(3) b by blast
  have all: "all_blocks (attach b r s) = all_blocks s" by (simp add: all_blocks_def attach_def)
  have cl: "claim (attach b r s) c = claim s c" for c by (simp add: claim_def all) (simp add: attach_def)
  have q: "qinv (attach b r s) xs" using d(1) by (simp add: attach_def qinv_upd)
  have c1: "card (insert b (allocated_blocks s)) = Suc (card (allocated_blocks s))"
    using na fin by simp
  have c2: "card (D - {b}) + 1 = card D" using b fin by (metis Suc_eq_plus1 card_Suc_Diff1)
  have part: "insert b (allocated_blocks s) \<inter> set xs = {}" "insert b (allocated_blocks s) \<inter> (D - {b}) = {}"
    "set xs \<inter> (D - {b}) = {}" "insert b (allocated_blocks s) \<union> set xs \<union> (D - {b}) = all_blocks s"
    using d(2-5) b by auto
  show ?thesis
    unfolding pinvx_def all cl using q part d r b c1 c2
    by (auto simp: attach_def)
qed

lemma pinvx_detach:
  assumes p: "pinvx s xs D k" and b: "b \<in> allocated_blocks s" "b \<noteq> null_block s"
  shows "pinvx (detach b s) xs (insert b D) (k - 1)"
proof -
  note d = pinvxD [OF p] and fin = pinvx_finite [OF p]
  have nd: "b \<notin> D" "b \<notin> set xs" using d(2,3) b by blast+
  have all: "all_blocks (detach b s) = all_blocks s" by (simp add: all_blocks_def detach_def)
  have cl: "claim (detach b s) c = claim s c" for c by (simp add: claim_def all) (simp add: detach_def)
  have q: "qinv (detach b s) xs" using d(1) by (simp add: detach_def qinv_upd)
  have c1: "card (allocated_blocks s - {b}) + 1 = card (allocated_blocks s)"
    using b fin by (metis Suc_eq_plus1 card_Suc_Diff1)
  have c2: "card (insert b D) = Suc (card D)" using nd fin by simp
  have part: "(allocated_blocks s - {b}) \<inter> set xs = {}" "(allocated_blocks s - {b}) \<inter> insert b D = {}"
    "set xs \<inter> insert b D = {}" "(allocated_blocks s - {b}) \<union> set xs \<union> insert b D = all_blocks s"
    using d(2-5) b nd by auto
  show ?thesis
    unfolding pinvx_def all cl using q part d b c1 c2
    by (auto simp: detach_def)
qed

lemma pinvx_set_ref:
  assumes p: "pinvx s xs D k" and b: "b \<in> allocated_blocks s" and r: "0 < r"
  shows "pinvx (set_ref b r s) xs D k"
proof -
  note d = pinvxD [OF p]
  have all: "all_blocks (set_ref b r s) = all_blocks s" by (simp add: all_blocks_def set_ref_def)
  have cl: "claim (set_ref b r s) c = claim s c" for c by (simp add: claim_def all) (simp add: set_ref_def)
  have q: "qinv (set_ref b r s) xs" using d(1) by (simp add: set_ref_def qinv_upd)
  show ?thesis
    unfolding pinvx_def all cl using q d r b by (auto simp: set_ref_def)
qed

lemma pinvx_count: "pinvx s xs D k \<Longrightarrow> pinvx (count_alloc n s) xs D (k - n)"
  unfolding pinvx_def
  by (simp add: all_blocks_def claim_def) (simp add: count_alloc_def)

text \<open>A block leaves, or enters, the chain-hash map.\<close>

definition unfile :: "bid \<Rightarrow> digest \<Rightarrow> 't manager \<Rightarrow> 't manager" where
  "unfile b h s = (upd_block b (\<lambda>x. x\<lparr>block_hash := None\<rparr>) s)
     \<lparr>cached_map := snd (bh_pop h b (cached_map s))\<rparr>"

definition file_block :: "bid \<Rightarrow> digest \<Rightarrow> 't manager \<Rightarrow> 't manager" where
  "file_block b h s = (upd_block b (\<lambda>x. x\<lparr>block_hash := Some h\<rparr>) s)
     \<lparr>cached_map := bh_insert h b (cached_map s)\<rparr>"

lemma pinvx_unfile:
  assumes p: "pinvx s xs D k" and c: "claim s b = Some h"
  shows "pinvx (unfile b h s) xs D k"
proof -
  note d = pinvxD [OF p]
  have b: "b \<in> all_blocks s" using c by (auto simp: claim_def split: if_splits)
  have all: "all_blocks (unfile b h s) = all_blocks s" by (simp add: all_blocks_def unfile_def)
  have cl: "claim (unfile b h s) = (claim s)(b := None)"
    by (rule ext) (simp add: claim_def all, simp add: unfile_def)
  have q: "qinv (unfile b h s) xs" using d(1) by (simp add: unfile_def qinv_upd)
  have cm: "cached_map (unfile b h s) = snd (bh_pop h b (cached_map s))" by (simp add: unfile_def)
  have co: "\<forall>k c. c \<in> bh_members (cached_map (unfile b h s)) k \<longleftrightarrow> claim (unfile b h s) c = Some k"
    unfolding cl cm by (rule bhm.coherent_del [OF d(10,11) c])
  show ?thesis
    unfolding pinvx_def all using q d bh_pop_wf [OF d(10)]
    by (intro conjI co) (auto simp: unfile_def)
qed

lemma pinvx_file:
  assumes p: "pinvx s xs D k" and b: "b \<in> all_blocks s" and n: "block_hash (heap s b) = None"
  shows "pinvx (file_block b h s) xs D k"
proof -
  note d = pinvxD [OF p]
  have c: "claim s b = None" using n by (simp add: claim_def)
  have all: "all_blocks (file_block b h s) = all_blocks s" by (simp add: all_blocks_def file_block_def)
  have cl: "claim (file_block b h s) = (claim s)(b := Some h)"
    by (rule ext) (use b in \<open>simp add: claim_def all, simp add: file_block_def\<close>)
  have q: "qinv (file_block b h s) xs" using d(1) by (simp add: file_block_def qinv_upd)
  have cm: "cached_map (file_block b h s) = bh_insert h b (cached_map s)" by (simp add: file_block_def)
  have co: "\<forall>k c. c \<in> bh_members (cached_map (file_block b h s)) k \<longleftrightarrow> claim (file_block b h s) c = Some k"
    unfolding cl cm by (rule bhm.coherent_ins [OF d(10,11) c])
  show ?thesis
    unfolding pinvx_def all using q d bh_insert_wf [OF d(10)]
    by (intro conjI co) (auto simp: file_block_def)
qed

section \<open>Eviction and allocation keep the invariant\<close>

lemma drop_legacy_fields [simp]:
  "heap (drop_legacy hv b s) = heap s" "num_free_blocks (drop_legacy hv b s) = num_free_blocks s"
  "block_size (drop_legacy hv b s) = block_size s" "max_blocks (drop_legacy hv b s) = max_blocks s"
  "enable_caching (drop_legacy hv b s) = enable_caching s"
  "cached_map (drop_legacy hv b s) = cached_map s"
  "table_store (drop_legacy hv b s) = table_store s" "next_table (drop_legacy hv b s) = next_table s"
  "request_tables (drop_legacy hv b s) = request_tables s"
  "allocated_blocks (drop_legacy hv b s) = allocated_blocks s"
  "null_block (drop_legacy hv b s) = null_block s" "stats (drop_legacy hv b s) = stats s"
  by (simp_all add: drop_legacy_def split: option.split)

lemma drop_fields [simp]:
  "prev_free_block (drop_data x) = prev_free_block x" "next_free_block (drop_data x) = next_free_block x"
  "ref_count (drop_data x) = ref_count x" "is_null (drop_data x) = is_null x"
  "block_hash (drop_data x) = block_hash x" "is_pinned (drop_data x) = is_pinned x"
  "hash_value (drop_data x) = hash_value x" "token_count (drop_data x) = token_count x"
  "access_count (drop_data x) = access_count x" "cache_data (drop_data x) = None"
  "cache_class_name (drop_data x) = None"
  "prev_free_block (reset_hash x) = prev_free_block x" "next_free_block (reset_hash x) = next_free_block x"
  "ref_count (reset_hash x) = ref_count x" "is_null (reset_hash x) = is_null x"
  "block_hash (reset_hash x) = None" "is_pinned (reset_hash x) = is_pinned x"
  "hash_value (reset_hash x) = None" "token_count (reset_hash x) = token_count x"
  "access_count (reset_hash x) = access_count x" "cache_data (reset_hash x) = cache_data x"
  "cache_class_name (reset_hash x) = cache_class_name x"
  by (simp_all add: drop_data_def reset_hash_def)

lemma touch_block_fields [simp]:
  "prev_free_block (touch_block x) = prev_free_block x" "next_free_block (touch_block x) = next_free_block x"
  "ref_count (touch_block x) = ref_count x" "is_null (touch_block x) = is_null x"
  "block_hash (touch_block x) = block_hash x" "is_pinned (touch_block x) = is_pinned x"
  "hash_value (touch_block x) = hash_value x" "token_count (touch_block x) = token_count x"
  "cache_data (touch_block x) = cache_data x" "cache_class_name (touch_block x) = cache_class_name x"
  by (simp_all add: touch_block_def)

lemma claim_popped:
  assumes "pinvx s xs D k" and "b \<in> all_blocks s" and "block_hash (heap s b) = Some h"
  shows "claim s b = Some h" and "fst (bh_pop h b (cached_map s)) = Some b"
proof -
  show c: "claim s b = Some h" using assms by (simp add: claim_def)
  with pinvxD(11) [OF assms(1)] have "b \<in> bh_members (cached_map s) h" by blast
  then show "fst (bh_pop h b (cached_map s)) = Some b" by (simp add: bh_pop_result)
qed

lemma maybe_evict_pinvx:
  assumes p: "pinvx s xs D k" and b: "b \<in> all_blocks s"
  shows "pinvx (snd (maybe_evict_cached_block b s)) xs D k"
proof (cases "is_pinned (heap s b)")
  case True
  then show ?thesis using p by (simp add: maybe_evict_cached_block_def)
next
  case False
  show ?thesis
  proof (cases "block_hash (heap s b)")
    case None
    then have "hard_eq s (snd (maybe_evict_cached_block b s))"
      using False by (auto simp: maybe_evict_cached_block_def hard_eq_def hard_def Let_def split: option.split)
    then show ?thesis using p by (simp add: pinvx_hard [of s])
  next
    case (Some h)
    obtain m where m: "bh_pop h b (cached_map s) = (Some b, m)"
      using claim_popped(2) [OF p b Some] by (cases "bh_pop h b (cached_map s)") simp
    have "hard_eq (unfile b h s) (snd (maybe_evict_cached_block b s))"
      using False Some m by (auto simp: maybe_evict_cached_block_def hard_eq_def hard_def unfile_def Let_def)
    then show ?thesis
      using pinvx_unfile [OF p claim_popped(1) [OF p b Some]] by (simp add: pinvx_hard [of "unfile b h s"])
  qed
qed

lemma maybe_evict_fields [simp]:
  "max_blocks (snd (maybe_evict_cached_block b s)) = max_blocks s"
  "block_size (snd (maybe_evict_cached_block b s)) = block_size s"
  "enable_caching (snd (maybe_evict_cached_block b s)) = enable_caching s"
  "allocated_blocks (snd (maybe_evict_cached_block b s)) = allocated_blocks s"
  "null_block (snd (maybe_evict_cached_block b s)) = null_block s"
  "num_free_blocks (snd (maybe_evict_cached_block b s)) = num_free_blocks s"
  "table_store (snd (maybe_evict_cached_block b s)) = table_store s"
  "next_table (snd (maybe_evict_cached_block b s)) = next_table s"
  "request_tables (snd (maybe_evict_cached_block b s)) = request_tables s"
  by (auto simp: maybe_evict_cached_block_def Let_def split: option.split prod.split)

lemma claim_block_pinvx:
  assumes p: "pinvx s xs D k" and b: "b \<in> D"
  shows "pinvx (claim_block b s) xs (D - {b}) (k + 1)"
proof -
  let ?s = "if enable_caching s then snd (maybe_evict_cached_block b s) else s"
  have "b \<in> all_blocks s" using pinvx_ranges [OF p] b by blast
  then have p1: "pinvx ?s xs D k" using p maybe_evict_pinvx [OF p] by simp
  have "hard_eq (attach b 1 ?s) (claim_block b s)"
    by (simp add: claim_block_def Let_def attach_def hard_eq_def hard_def)
  then show ?thesis using pinvx_attach [OF p1 b, of 1] by (simp add: pinvx_hard [of "attach b 1 ?s"])
qed

lemma fold_claim_pinvx:
  "pinvx s xs D k \<Longrightarrow> set bs \<subseteq> D \<Longrightarrow> distinct bs \<Longrightarrow>
   pinvx (fold claim_block bs s) xs (D - set bs) (k + int (length bs))"
proof (induction bs arbitrary: s D k)
  case (Cons b bs)
  from Cons.prems have p: "pinvx (claim_block b s) xs (D - {b}) (k + 1)"
    by (intro claim_block_pinvx) auto
  have "pinvx (fold claim_block bs (claim_block b s)) xs (D - {b} - set bs) (k + 1 + int (length bs))"
    by (rule Cons.IH [OF p]) (use Cons.prems in auto)
  moreover have "D - {b} - set bs = D - set (b # bs)" by auto
  ultimately show ?case by (simp add: algebra_simps)
qed simp

text \<open>What the pop of \<open>allocate_block\<close> and \<open>evict_lru_blocks\<close> gives, by either policy.\<close>

lemma pop_any:
  fixes s :: "'t manager"
  assumes q: "qinv s xs"
  obtains (popped) b s' where
      "(if enable_caching s then popleft_lfu 8 s else popleft s) = (Inr b, s')" "b \<in> set xs"
      "\<not> is_pinned (heap s b)" "qinv s' (remove1 b xs)" "same_core s s'"
    | (stuck) "(if enable_caching s then popleft_lfu 8 s else popleft s) = (Inl ValueError, s)"
      "\<forall>b\<in>set xs. is_pinned (heap s b)"
proof (cases "enable_caching s")
  case True
  then show ?thesis using that by (cases rule: lfu.pop_cases [OF q]) auto
next
  case False
  then show ?thesis using that by (cases rule: lru.pop_cases [OF q]) auto
qed

lemma allocate_block_pinvx:
  assumes p: "pinvx s xs {} 0" and a: "allocate_block s = (r, s')"
  shows "(r = Inr None \<and> s' = s \<and> xs = []) \<or>
    (r = Inl ValueError \<and> s' = s \<and> xs \<noteq> [] \<and> (\<forall>b\<in>set xs. is_pinned (heap s b))) \<or>
    (\<exists>b. r = Inr (Some b) \<and> b \<in> set xs \<and> pinvx s' (remove1 b xs) {} 0)"
proof (cases "num_free_blocks s = 0")
  case True
  then have "xs = []" using pinvxD(1) [OF p] by (simp add: qinv_def)
  with True a show ?thesis by (simp add: allocate_block_def)
next
  case False
  then have ne: "xs \<noteq> []" using pinvxD(1) [OF p] by (auto simp: qinv_def)
  from pinvxD(1) [OF p] show ?thesis
  proof (cases rule: pop_any)
    case (popped b s1)
    have "pinvx s1 (remove1 b xs) {b} 0" using pinvx_pop [OF p popped(5,4,2)] .
    then have "pinvx (claim_block b s1) (remove1 b xs) ({b} - {b}) 1"
      using claim_block_pinvx [of s1 _ "{b}" 0 b] by simp
    then have "pinvx (count_alloc 1 (claim_block b s1)) (remove1 b xs) {} 0"
      using pinvx_count [of _ _ "{}" 1 1] by simp
    with popped False a show ?thesis by (auto simp: allocate_block_def)
  next
    case stuck
    with False a ne show ?thesis by (auto simp: allocate_block_def)
  qed
qed

lemma allocate_block_inv: "paged_inv s \<Longrightarrow> paged_inv (snd (allocate_block s))"
  unfolding paged_inv_def using allocate_block_pinvx [of s _ "fst (allocate_block s)" "snd (allocate_block s)"]
  by (metis prod.collapse)

lemma get_new_blocks_inv:
  assumes i: "paged_inv s" and n: "0 \<le> n" and g: "get_new_blocks n s = (Inr bs, s')"
  shows "paged_inv s'"
proof -
  from i obtain xs where p: "pinvx s xs {} 0" by (auto simp: paged_inv_def)
  note q = pinvxD(1) [OF p]
  from g have le: "n \<le> num_free_blocks s" by (auto simp: get_new_blocks_def split: if_splits)
  show ?thesis
  proof (cases "n \<le> int (length (unpinned s xs))")
    case False
    then obtain s1 where "popleft_n n s = (Inl AssertionError, s1)"
      using popleft_n_pinned_leak [OF q, of n] le qinvD(2) [OF q] by auto
    with g show ?thesis by (simp add: get_new_blocks_def split: if_splits)
  next
    case True
    let ?t = "take (nat n) (unpinned s xs)" and ?ys = "filter (\<lambda>z. z \<notin> set (take (nat n) (unpinned s xs))) xs"
    from popleft_n_ok [OF q n True] obtain s1 where
      s1: "popleft_n n s = (Inr ?t, s1)" "qinv s1 ?ys" "same_core s s1" by blast
    have sub: "set ?t \<subseteq> set xs" using set_take_subset [of "nat n" "unpinned s xs"] by auto
    have p1: "pinvx s1 ?ys (set ?t) 0"
      by (rule pinvx_queue [OF p s1(3,2)]) (use sub in auto)
    have "distinct ?t" using qinv_distinct [OF q] by (simp add: unpinned_def)
    with fold_claim_pinvx [OF p1, of ?t] have
      "pinvx (fold claim_block ?t s1) ?ys {} (int (length ?t))" by simp
    moreover have "int (length ?t) = n" using n True by simp
    ultimately have "pinvx (count_alloc n (fold claim_block ?t s1)) ?ys {} 0"
      using pinvx_count [of _ _ "{}" n n] by simp
    with g s1 le show ?thesis by (auto simp: get_new_blocks_def paged_inv_def)
  qed
qed

section \<open>References keep the invariant\<close>

lemma free_block_pinvx:
  assumes p: "pinvx s xs {} 0" and f: "free_block b s = (r, s')"
  shows "(r = Inr False \<and> pinvx s' xs {} 0) \<or> (r = Inr True \<and> pinvx s' (xs @ [b]) {} 0)"
proof (cases "b \<in> allocated_blocks s \<and> \<not> is_null (heap s b)")
  case False
  with p f show ?thesis by (auto simp: free_block_def split: if_splits)
next
  case True
  note d = pinvxD [OF p]
  have b: "b \<in> all_blocks s" using True d(5) by blast
  have nn: "b \<noteq> null_block s" using True d(9) b by blast
  show ?thesis
  proof (cases "ref_count (heap s b) \<le> 1")
    case False
    have "hard_eq (set_ref b (ref_count (heap s b) - 1) s) (upd_block b (\<lambda>x. x\<lparr>ref_count := ref_count x - 1\<rparr>) s)"
      by (simp add: hard_eq_def hard_def set_ref_def)
    moreover have "pinvx (set_ref b (ref_count (heap s b) - 1) s) xs {} 0"
      using True False by (intro pinvx_set_ref [OF p]) auto
    ultimately have "pinvx (upd_block b (\<lambda>x. x\<lparr>ref_count := ref_count x - 1\<rparr>) s) xs {} 0"
      by (simp add: pinvx_hard)
    with True False f show ?thesis by (simp add: free_block_def Let_def split: if_splits)
  next
    case le: True
    with d(6) True have one: "ref_count (heap s b) = 1" by force
    let ?s = "(upd_block b (\<lambda>x. x\<lparr>ref_count := ref_count x - 1\<rparr>) s)\<lparr>allocated_blocks := allocated_blocks s - {b}\<rparr>"
    have "hard_eq (detach b s) ?s" using one by (simp add: hard_eq_def hard_def detach_def)
    then have p1: "pinvx ?s xs {b} (- 1)"
      using pinvx_detach [OF p _ nn] True by (simp add: pinvx_hard [of "detach b s"])
    have "0 \<le> b" using b by (simp add: all_blocks_def)
    moreover have "b \<notin> set xs" using True d(2) by blast
    ultimately obtain s1 where
      s1: "queue_append b ?s = (Inr (), s1)" "qinv s1 (xs @ [b])" "same_core ?s s1"
      using lru.give_law [OF pinvxD(1) [OF p1]] by blast
    have "pinvx s1 (xs @ [b]) {} (- 1)" using pinvx_give [OF p1 s1(3,2)] by simp
    then have "pinvx (count_alloc (- 1) s1) (xs @ [b]) {} 0"
      using pinvx_count [of s1 _ "{}" "- 1" "- 1"] by simp
    then have "pinvx (upd_stats (\<lambda>st. st\<lparr>total_tokens_cached :=
        total_tokens_cached st - token_count (heap s1 b)\<rparr>) (count_alloc (- 1) s1)) (xs @ [b]) {} 0"
      by (rule iffD1 [OF pinvx_hard, rotated]) (simp add: hard_eq_def hard_def)
    with True one f s1 show ?thesis by (simp add: free_block_def Let_def)
  qed
qed

lemma free_block_inv: "paged_inv s \<Longrightarrow> paged_inv (snd (free_block b s))"
  unfolding paged_inv_def using free_block_pinvx [of s _ b "fst (free_block b s)" "snd (free_block b s)"]
  by (metis prod.collapse)

lemma free_block_returns: "paged_inv s \<Longrightarrow> \<exists>v s'. free_block b s = (Inr v, s') \<and> paged_inv s'"
  unfolding paged_inv_def using free_block_pinvx [of s _ b "fst (free_block b s)" "snd (free_block b s)"]
  by (metis prod.collapse)

lemma free_all_returns: "paged_inv s \<Longrightarrow> \<exists>s'. free_all bs s = (Inr (), s') \<and> paged_inv s'"
proof (induction bs arbitrary: s)
  case (Cons b bs)
  from free_block_returns [OF Cons.prems, of b] obtain v s1 where
    "free_block b s = (Inr v, s1)" "paged_inv s1" by blast
  with Cons.IH show ?case by auto
qed simp

lemma touch_one_inv:
  assumes i: "paged_inv s" and b: "b \<in> all_blocks s"
  shows "paged_inv (touch_one b s)"
proof -
  from i obtain xs where p: "pinvx s xs {} 0" by (auto simp: paged_inv_def)
  note d = pinvxD [OF p]
  show ?thesis
  proof (cases "b \<in> allocated_blocks s")
    case True
    have "hard_eq (set_ref b (ref_count (heap s b) + 1) s) (touch_one b s)"
      using d(6) [OF True] by (simp add: touch_one_def hard_eq_def hard_def set_ref_def)
    moreover have "pinvx (set_ref b (ref_count (heap s b) + 1) s) xs {} 0"
      using d(6) [OF True] True by (intro pinvx_set_ref [OF p]) auto
    ultimately show ?thesis by (auto simp: paged_inv_def pinvx_hard [of "set_ref b _ s"])
  next
    case False
    then have bx: "b \<in> set xs" using b d(5) by auto
    then have z: "ref_count (heap s b) = 0" "\<not> is_null (heap s b)" using d(7-9) b False by auto
    from queue_remove_ok [OF d(1) bx] obtain s1 where
      s1: "queue_remove b s = (Inr (), s1)" "qinv s1 (remove1 b xs)" "same_core s s1" by blast
    have p1: "pinvx s1 (remove1 b xs) {b} 0" by (rule pinvx_pop [OF p s1(3,2) bx])
    have r1: "ref_count (heap s1 b) = 0" using z same_core_fields(2) [OF s1(3)] by simp
    have "hard_eq (count_alloc 1 (attach b 1 s1)) (touch_one b s)"
      using z s1(1) r1
      by (simp add: touch_one_def Let_def attach_def hard_eq_def hard_def count_alloc_def)
    moreover have "pinvx (count_alloc 1 (attach b 1 s1)) (remove1 b xs) {} 0"
      using pinvx_count [OF pinvx_attach [OF p1, of b 1], of 1] by simp
    ultimately show ?thesis
      by (auto simp: paged_inv_def pinvx_hard [of "count_alloc 1 (attach b 1 s1)"])
  qed
qed

lemma touch_one_max [simp]: "max_blocks (touch_one b s) = max_blocks s"
proof -
  have "max_blocks (snd (queue_remove b s)) = max_blocks s"
    by (auto simp: queue_remove_def Let_def set_next_def set_prev_def split: option.split)
  then show ?thesis by (auto simp: touch_one_def Let_def split: sum.split prod.split)
qed

lemma touch_inv: "paged_inv s \<Longrightarrow> set bs \<subseteq> all_blocks s \<Longrightarrow> paged_inv (touch bs s)"
  unfolding touch_def
proof (induction bs arbitrary: s)
  case (Cons b bs)
  then show ?case using touch_one_inv [of s b] by (simp add: all_blocks_def)
qed simp

lemma increment_ref_inv:
  assumes "paged_inv s"
  shows "paged_inv (snd (increment_ref b s))"
proof (cases "b \<in> allocated_blocks s")
  case True
  from assms obtain xs where p: "pinvx s xs {} 0" by (auto simp: paged_inv_def)
  have "pinvx (set_ref b (ref_count (heap s b) + 1) s) xs {} 0"
    using pinvxD(6) [OF p True] True by (intro pinvx_set_ref [OF p]) auto
  moreover have "hard_eq (set_ref b (ref_count (heap s b) + 1) s) (snd (increment_ref b s))"
    using True by (simp add: increment_ref_def Let_def hard_eq_def hard_def set_ref_def)
  ultimately show ?thesis by (auto simp: paged_inv_def pinvx_hard [of "set_ref b _ s"])
qed (use assms in \<open>simp add: increment_ref_def\<close>)

section \<open>Operations that do not touch the pool\<close>

text \<open>Most operations leave everything the invariant looks at unchanged.\<close>

lemma hard_eq_hit_miss: "hard_eq s (hit s)" "hard_eq s (miss s)"
  by (simp_all add: hit_def miss_def hard_eq_def)

lemma get_cached_block_hard: "hard_eq s (snd (get_cached_block h s))"
  by (auto simp: get_cached_block_def hard_eq_hit_miss hard_eq_refl split: option.split)

lemma find_cached_block_by_hash_hard: "hard_eq s (snd (find_cached_block_by_hash h rs s))"
  by (auto simp: find_cached_block_by_hash_def Let_def hit_def miss_def hard_eq_def hard_def split: option.split)

lemma find_by_hash_hard: "find_cached_block_by_hash h rs s = (r, s') \<Longrightarrow> hard_eq s s'"
  using find_cached_block_by_hash_hard [of s h rs] by simp

lemma find_cached_block_hard: "hard_eq s (snd (find_cached_block sha tokens rs s))"
  by (auto simp: find_cached_block_def hard_eq_refl split: sum.split prod.split dest: find_by_hash_hard)

lemma computed_loop_hard: "hard_eq s (snd (computed_loop sha toks is par acc s))"
proof (induction "is" arbitrary: par acc s)
  case Nil
  then show ?case by (simp add: hard_eq_refl)
next
  case (Cons i "is")
  then show ?case using hard_eq_hit_miss hard_eq_trans
    by (simp add: Let_def split: option.split) blast
qed

lemma get_computed_blocks_hard: "hard_eq s (snd (get_computed_blocks sha toks s))"
proof -
  have "hard_eq s s'" if "computed_loop sha toks is None [] s = (bs, s')" for "is" bs s'
    using computed_loop_hard [of s sha toks "is" None "[]"] that by simp
  then show ?thesis by (auto simp: get_computed_blocks_def hard_eq_refl split: prod.split)
qed

lemma register_block_hash_value_hard: "hard_eq s (register_block_hash_value b h s)"
  by (simp add: register_block_hash_value_def hard_eq_def hard_def)

lemma register_block_hash_hard: "hard_eq s (snd (register_block_hash sha b toks s))"
  by (auto simp: register_block_hash_def register_block_hash_value_hard hard_eq_refl split: sum.split)

lemma register_table_hard: "hard_eq s (snd (register_table rid t s))"
  by (simp add: register_table_def Let_def hard_eq_def)

lemma get_or_create_hard: "hard_eq s (snd (get_or_create_block_table rid s))"
  by (auto simp: get_or_create_block_table_def register_table_hard hard_eq_refl split: option.split)

lemma add_block_to_table_hard: "hard_eq s (add_block_to_table a b n s)"
  by (simp add: add_block_to_table_def Let_def hard_eq_def hard_def)

lemma shared_loop_hard: "hard_eq s (snd (shared_loop sha f rs toks hs acc s))"
proof (induction f arbitrary: toks hs acc s)
  case 0
  then show ?case by (simp add: hard_eq_refl)
next
  case (Suc f)
  show ?case
  proof (cases "ph_update hs (take (block_size s) toks)")
    case (Inl e)
    then show ?thesis by (simp add: hard_eq_refl)
  next
    case (Inr hs')
    obtain r s1 where fc: "find_cached_block_by_hash (ph_hexdigest sha hs') rs s = (r, s1)" by fastforce
    then have h1: "hard_eq s s1" using find_cached_block_by_hash_hard [of s "ph_hexdigest sha hs'" rs] by simp
    show ?thesis
      using Inr fc h1 hard_eq_trans [OF h1 Suc.IH] by (auto simp: hard_eq_refl split: option.split)
  qed
qed

lemma find_shared_prefix_hard: "hard_eq s (snd (find_shared_prefix sha toks rs s))"
  by (simp add: find_shared_prefix_def shared_loop_hard del: shared_loop.simps)

lemma get_stats_hard:
  assumes "paged_inv s"
  shows "hard_eq s (snd (get_stats s))"
proof -
  from assms obtain xs where p: "pinvx s xs {} 0" by (auto simp: paged_inv_def)
  from pinvxD(13) [OF p] qinvD(2) [OF pinvxD(1) [OF p]] have
    "st_free_blocks (stats s) = num_free_blocks s" by simp
  then show ?thesis by (simp add: get_stats_def Let_def hard_eq_def)
qed

lemma get_memory_usage_hard: "paged_inv s \<Longrightarrow> hard_eq s (snd (get_memory_usage s))"
  using get_stats_hard [of s] by (auto simp: get_memory_usage_def split: prod.split)

lemma reset_stats_hard: "hard_eq s (reset_stats s)"
  by (simp add: reset_stats_def hard_eq_def)

lemma pin_loop_hard: "hard_eq s (snd (pin_loop bs n s))"
proof (induction bs arbitrary: n s)
  case (Cons b bs)
  have "hard_eq s (upd_block b (\<lambda>x. x\<lparr>is_pinned := True\<rparr>) s)" by (simp add: hard_eq_def hard_def)
  then show ?case using Cons.IH hard_eq_trans by simp blast
qed (simp add: hard_eq_refl)

lemma unpin_loop_hard: "hard_eq s (snd (unpin_loop bs n s))"
proof (induction bs arbitrary: n s)
  case (Cons b bs)
  have "hard_eq s (upd_block c (\<lambda>x. x\<lparr>is_pinned := False\<rparr>) s)" for c by (simp add: hard_eq_def hard_def)
  then show ?case using Cons.IH hard_eq_trans
    by (simp add: hard_eq_refl split: sum.split option.split) blast
qed (simp add: hard_eq_refl)

section \<open>Chain-hash caching\<close>

lemma cache_loop_pinvx:
  "pinvx s xs {} 0 \<Longrightarrow> set blocks \<subseteq> all_blocks s \<Longrightarrow>
   pinvx (snd (cache_loop sha blocks toks is par s)) xs {} 0"
proof (induction "is" arbitrary: par s)
  case Nil
  then show ?case by simp
next
  case (Cons i "is")
  show ?case
  proof (cases "length blocks \<le> i")
    case True
    then show ?thesis using Cons.prems by simp
  next
    case False
    let ?b = "blocks ! i"
    have b: "?b \<in> all_blocks s" using False Cons.prems(2) by (meson nth_mem not_le subsetD)
    show ?thesis
    proof (cases "block_hash (heap s ?b)")
      case (Some h)
      then show ?thesis using False Cons.IH [OF Cons.prems] by (simp add: Let_def)
    next
      case None
      define t where "t = slice toks (i * block_size s) (i * block_size s + block_size s)"
      define h where "h = compute_block_hash sha par t None"
      define s1 where "s1 = upd_block ?b (\<lambda>x. x\<lparr>block_hash := Some h, token_count := int (length t)\<rparr>) s"
      define s2 where "s2 = s1\<lparr>cached_map := bh_insert h ?b (cached_map s1)\<rparr>"
      have "hard_eq (file_block ?b h s) s2"
        by (simp add: s2_def s1_def file_block_def hard_eq_def hard_def)
      then have p2: "pinvx s2 xs {} 0"
        using pinvx_file [OF Cons.prems(1) b None] by (simp add: pinvx_hard [of "file_block ?b h s"])
      show ?thesis
      proof (cases "legacy_block_hash sha t")
        case (Inl e)
        then show ?thesis using False None p2 by (simp add: Let_def t_def h_def s1_def s2_def)
      next
        case (Inr lh)
        define s4 where "s4 = (upd_block ?b (\<lambda>x. x\<lparr>hash_value := Some lh\<rparr>) s2)
            \<lparr>hash_to_block := (hash_to_block s2)(lh \<mapsto> ?b)\<rparr>"
        have "hard_eq s2 s4" by (simp add: s4_def hard_eq_def hard_def)
        then have p4: "pinvx s4 xs {} 0" using p2 by (simp add: pinvx_hard [of s2])
        have "all_blocks s4 = all_blocks s" by (simp add: s4_def s2_def s1_def all_blocks_def)
        with Cons.IH [OF p4, of "Some h"] Cons.prems(2) have
          "pinvx (snd (cache_loop sha blocks toks is (Some h) s4)) xs {} 0" by simp
        then show ?thesis using False None Inr
          by (simp add: Let_def t_def h_def s1_def s2_def s4_def)
      qed
    qed
  qed
qed

lemma cache_full_blocks_inv:
  assumes "paged_inv s" and "set blocks \<subseteq> all_blocks s"
  shows "paged_inv (snd (cache_full_blocks sha blocks toks nc nf s))"
proof -
  from assms(1) obtain xs where p: "pinvx s xs {} 0" by (auto simp: paged_inv_def)
  have "pinvx (snd (cache_full_blocks sha blocks toks nc nf s)) xs {} 0"
    using p cache_loop_pinvx [OF p assms(2)] by (simp add: cache_full_blocks_def)
  then show ?thesis by (auto simp: paged_inv_def)
qed

section \<open>Block tables\<close>

lemma hard_eq_tables:
  "hard_eq s (s\<lparr>request_tables := r\<rparr>)" "hard_eq s (upd_table a g s)"
  by (simp_all add: hard_eq_def)

lemma delete_block_table_returns:
  assumes "paged_inv s"
  shows "\<exists>s'. delete_block_table rid s = (Inr (), s') \<and> paged_inv s'"
proof (cases "request_tables s rid")
  case (Some a)
  have "paged_inv (s\<lparr>request_tables := (request_tables s)(rid := None)\<rparr>)"
    using assms hard_eq_tables(1) hard_eq_paged_inv by blast
  from free_all_returns [OF this] Some show ?thesis by (simp add: delete_block_table_def)
qed (use assms in \<open>simp add: delete_block_table_def\<close>)

lemma create_block_table_returns:
  assumes "paged_inv s"
  shows "\<exists>a s'. create_block_table rid s = (Inr a, s') \<and> paged_inv s'"
proof -
  obtain s1 where s1: "(if request_tables s rid \<noteq> None then delete_block_table rid s else (Inr (), s)) = (Inr (), s1)"
    "paged_inv s1" using delete_block_table_returns [OF assms, of rid] assms by (metis (full_types))
  have "paged_inv (snd (register_table rid (new_table rid) s1))"
    using s1(2) register_table_hard hard_eq_paged_inv by blast
  with s1 show ?thesis by (simp add: create_block_table_def split: prod.split) (metis surj_pair snd_conv)
qed

lemma fold_increment_inv: "paged_inv s \<Longrightarrow> paged_inv (fold (\<lambda>b s. snd (increment_ref b s)) bs s)"
  by (induction bs arbitrary: s) (simp_all add: increment_ref_inv)

lemma fork_block_table_returns:
  assumes "paged_inv s"
  shows "\<exists>a s'. fork_block_table src rid s = (Inr a, s') \<and> paged_inv s'"
proof (cases "request_tables s rid = Some src")
  case True
  then show ?thesis using assms by (simp add: fork_block_table_def)
next
  case False
  obtain s1 where s1: "(if request_tables s rid \<noteq> None then delete_block_table rid s else (Inr (), s)) = (Inr (), s1)"
    "paged_inv s1" using delete_block_table_returns [OF assms, of rid] assms by (metis (full_types))
  let ?s2 = "fold (\<lambda>b s. snd (increment_ref b s)) (block_ids (table_copy rid (table_store s1 src))) s1"
  have "paged_inv (snd (register_table rid (table_copy rid (table_store s1 src)) ?s2))"
    using fold_increment_inv [OF s1(2)] register_table_hard hard_eq_paged_inv by blast
  with s1 False show ?thesis
    by (simp add: fork_block_table_def Let_def split: prod.split) (metis surj_pair snd_conv)
qed

section \<open>What an allocation does\<close>

lemma maybe_evict_other:
  "i \<noteq> b \<Longrightarrow> heap (snd (maybe_evict_cached_block b s)) i = heap s i"
  by (auto simp: maybe_evict_cached_block_def Let_def split: option.split prod.split)

lemma maybe_evict_block:
  "ref_count (heap (snd (maybe_evict_cached_block b s)) i) = ref_count (heap s i)"
  "token_count (heap (snd (maybe_evict_cached_block b s)) i) = token_count (heap s i)"
  "is_pinned (heap (snd (maybe_evict_cached_block b s)) i) = is_pinned (heap s i)"
  "is_null (heap (snd (maybe_evict_cached_block b s)) i) = is_null (heap s i)"
  "access_count (heap (snd (maybe_evict_cached_block b s)) i) = access_count (heap s i)"
  "prv (snd (maybe_evict_cached_block b s)) i = prv s i"
  "nxt (snd (maybe_evict_cached_block b s)) i = nxt s i"
  by (auto simp: maybe_evict_cached_block_def Let_def split: option.split prod.split)

lemma drop_legacy_le: "hash_to_block (drop_legacy hv b s) \<subseteq>\<^sub>m hash_to_block s"
  by (auto simp: drop_legacy_def map_le_def split: option.split)

lemma maybe_evict_legacy: "hash_to_block (snd (maybe_evict_cached_block b s)) \<subseteq>\<^sub>m hash_to_block s"
  using drop_legacy_le [of _ b s] drop_legacy_le [of _ b "s\<lparr>cached_map := m\<rparr>" for m]
  by (auto simp: maybe_evict_cached_block_def Let_def split: option.split prod.split)

text \<open>The evicted block keeps no identity, and no data if it had an identity.\<close>

lemma maybe_evict_cleans:
  assumes p: "pinvx s xs D k" and b: "b \<in> all_blocks s" and u: "\<not> is_pinned (heap s b)"
  shows "hash_value (heap (snd (maybe_evict_cached_block b s)) b) = None"
    and "block_hash (heap (snd (maybe_evict_cached_block b s)) b) = None"
    and "hash_value (heap s b) \<noteq> None \<or> block_hash (heap s b) \<noteq> None \<Longrightarrow>
      cache_data (heap (snd (maybe_evict_cached_block b s)) b) = None"
  using claim_popped(2) [OF p b] u
  by (auto simp: maybe_evict_cached_block_def Let_def split: option.split prod.split)

definition tables_eq :: "'t manager \<Rightarrow> 't manager \<Rightarrow> bool" where
  "tables_eq s s' \<longleftrightarrow> table_store s' = table_store s \<and> next_table s' = next_table s \<and>
     request_tables s' = request_tables s \<and> max_blocks s' = max_blocks s \<and>
     block_size s' = block_size s \<and> enable_caching s' = enable_caching s \<and> null_block s' = null_block s"

lemma tables_eq_refl: "tables_eq s s"
  by (simp add: tables_eq_def)

lemma tables_eq_trans: "tables_eq s t \<Longrightarrow> tables_eq t u \<Longrightarrow> tables_eq s u"
  by (simp add: tables_eq_def)

text \<open>What changes in one block only.\<close>

definition only_block :: "bid \<Rightarrow> 't manager \<Rightarrow> 't manager \<Rightarrow> bool" where
  "only_block b s s' \<longleftrightarrow> (\<forall>i. i \<noteq> b \<longrightarrow> core (heap s' i) = core (heap s i))"

lemma allocate_block_spec:
  assumes p: "pinvx s xs {} 0" and a: "allocate_block s = (Inr (Some b), s')"
  shows "b \<in> set xs" "b \<notin> allocated_blocks s" "\<not> is_pinned (heap s b)"
    "pinvx s' (remove1 b xs) {} 0" "only_block b s s'" "tables_eq s s'"
    "allocated_blocks s' = insert b (allocated_blocks s)" "ref_count (heap s' b) = 1"
    "hash_to_block s' \<subseteq>\<^sub>m hash_to_block s" "is_null (heap s' b) = is_null (heap s b)"
    "\<not> is_pinned (heap s' b)" "access_count (heap s' b) = access_count (heap s b) + 1"
    "enable_caching s \<Longrightarrow> hash_value (heap s' b) = None \<and> block_hash (heap s' b) = None"
    "\<not> enable_caching s \<Longrightarrow> hash_value (heap s' b) = hash_value (heap s b)"
proof -
  from allocate_block_pinvx [OF p a] show b: "b \<in> set xs" and "pinvx s' (remove1 b xs) {} 0" by auto
  show "b \<notin> allocated_blocks s" using pinvxD(2) [OF p] b by blast
  have ne: "num_free_blocks s \<noteq> 0" using a by (auto simp: allocate_block_def)
  from pinvxD(1) [OF p] obtain s1 where
    s1: "(if enable_caching s then popleft_lfu 8 s else popleft s) = (Inr b, s1)"
      "\<not> is_pinned (heap s b)" "qinv s1 (remove1 b xs)" "same_core s s1"
      "s' = count_alloc 1 (claim_block b s1)"
    using a ne by (cases rule: pop_any) (auto simp: allocate_block_def)
  note m = same_core_manager [OF s1(4)] and f = same_core_fields [OF s1(4)]
  show u: "\<not> is_pinned (heap s b)" by (rule s1(2))
  have p1: "pinvx s1 (remove1 b xs) {b} 0" using pinvx_pop [OF p s1(4,3) b] .
  have ba: "b \<in> all_blocks s1" using pinvx_ranges [OF p1] by blast
  have u1: "\<not> is_pinned (heap s1 b)" using u f by simp
  let ?e = "if enable_caching s1 then snd (maybe_evict_cached_block b s1) else s1"
  have heap: "heap s' i = (if i = b then touch_block ((heap ?e b)\<lparr>ref_count := 1\<rparr>) else heap ?e i)" for i
    by (simp add: s1(5) claim_block_def Let_def)
  show "only_block b s s'"
    using s1(4) by (simp add: only_block_def heap maybe_evict_other same_core_def)
  show "tables_eq s s'"
    by (simp add: tables_eq_def s1(5) claim_block_def Let_def m)
  show "allocated_blocks s' = insert b (allocated_blocks s)"
    by (simp add: s1(5) claim_block_def Let_def m)
  show "ref_count (heap s' b) = 1" by (simp add: heap)
  show "is_null (heap s' b) = is_null (heap s b)" by (simp add: heap maybe_evict_block f)
  show "\<not> is_pinned (heap s' b)" using u1 by (simp add: heap maybe_evict_block)
  show "access_count (heap s' b) = access_count (heap s b) + 1"
    by (simp add: heap maybe_evict_block f touch_block_def)
  have "hash_to_block s' = hash_to_block ?e" by (simp add: s1(5) claim_block_def Let_def)
  then show "hash_to_block s' \<subseteq>\<^sub>m hash_to_block s"
    using maybe_evict_legacy [of b s1] m by (simp add: map_le_def)
  show "enable_caching s \<Longrightarrow> hash_value (heap s' b) = None \<and> block_hash (heap s' b) = None"
    using maybe_evict_cleans [OF p1 ba u1] m by (simp add: heap)
  show "\<not> enable_caching s \<Longrightarrow> hash_value (heap s' b) = hash_value (heap s b)"
    using m f by (simp add: heap)
qed

section \<open>Copy-on-write\<close>

lemma only_block_core: "only_block b s s' \<Longrightarrow> i \<noteq> b \<Longrightarrow> core (heap s' i) = core (heap s i)"
  by (simp add: only_block_def)

lemma cow_copy_block_inv:
  assumes i: "paged_inv s" and b: "b \<in> allocated_blocks s" and sh: "is_shared (heap s b)"
  shows "paged_inv (snd (cow_copy_block b s))"
proof -
  from i obtain xs where p: "pinvx s xs {} 0" by (auto simp: paged_inv_def)
  obtain r s1 where a: "allocate_block s = (r, s1)" by fastforce
  show ?thesis
  proof (cases "\<exists>nb. r = Inr (Some nb)")
    case False
    then have "snd (cow_copy_block b s) = s1"
      using a by (auto simp: cow_copy_block_def split: sum.split option.split)
    then show ?thesis using allocate_block_inv [OF i] a by simp
  next
    case True
    then obtain nb where r: "r = Inr (Some nb)" ..
    note sp = allocate_block_spec [OF p a [unfolded r]]
    have bn: "b \<noteq> nb" using sp(2) b by blast
    have ref: "ref_count (heap s1 b) = ref_count (heap s b)"
      using core_fields(2) [OF only_block_core [OF sp(5) bn]] .
    let ?s2 = "set_ref b (ref_count (heap s b) - 1) s1"
    have "pinvx ?s2 (remove1 nb xs) {} 0"
      by (rule pinvx_set_ref [OF sp(4)]) (use sp(7) b sh in \<open>simp_all add: is_shared_def\<close>)
    moreover have "hard_eq ?s2 (snd (cow_copy_block b s))"
      using a r bn ref by (simp add: cow_copy_block_def Let_def hard_eq_def hard_def set_ref_def)
    ultimately show ?thesis by (auto simp: paged_inv_def pinvx_hard [of ?s2])
  qed
qed

lemma generation_loop_inv: "paged_inv s \<Longrightarrow> paged_inv (snd (generation_loop a is acc c s))"
proof (induction "is" arbitrary: acc c s)
  case Nil
  then show ?case by simp
next
  case (Cons i "is")
  let ?b = "block_ids (table_store s a) ! i"
  have touch: "paged_inv t \<Longrightarrow> paged_inv (upd_block b touch_block t)" for b and t :: "'a manager"
    by (erule hard_eq_paged_inv) (simp add: hard_eq_def hard_def)
  show ?case
  proof (cases "?b \<in> allocated_blocks s \<and> is_shared (heap s ?b)")
    case False
    then show ?thesis using Cons touch by (auto simp: Let_def)
  next
    case True
    obtain r s1 where c1: "cow_copy_block ?b s = (r, s1)" by fastforce
    then have i1: "paged_inv s1" using cow_copy_block_inv [OF Cons.prems, of ?b] True by simp
    have "paged_inv (upd_stats (\<lambda>st. st\<lparr>cow_copies := cow_copies st + 1\<rparr>) (upd_table a g s1))" for g
      using i1 by (rule hard_eq_paged_inv) (simp add: hard_eq_def)
    then show ?thesis using True c1 i1 Cons.IH touch
      by (auto simp: Let_def split: sum.split option.split)
  qed
qed

lemma get_blocks_for_generation_inv: "paged_inv s \<Longrightarrow> paged_inv (snd (get_blocks_for_generation a s))"
  by (simp add: get_blocks_for_generation_def generation_loop_inv)

section \<open>Pressure\<close>

lemma evict_loop_pinvx:
  "pinvx s xs {} 0 \<Longrightarrow>
   \<exists>m s' ys. evict_loop k n s = (Inr m, s') \<and> pinvx s' ys {} 0 \<and> set ys = set xs \<and> n \<le> m \<and> m \<le> n + k"
proof (induction k arbitrary: n s xs)
  case 0
  then show ?case by auto
next
  case (Suc k)
  note p = Suc.prems
  from pinvxD(1) [OF p] show ?case
  proof (cases rule: pop_any)
    case (popped b s1)
    have p1: "pinvx s1 (remove1 b xs) {b} 0" using pinvx_pop [OF p popped(5,4,2)] .
    let ?s2 = "snd (maybe_evict_cached_block b s1)"
    have ba: "b \<in> all_blocks s1" using pinvx_ranges [OF p1] by blast
    have p2: "pinvx ?s2 (remove1 b xs) {b} 0" by (rule maybe_evict_pinvx [OF p1 ba])
    have "0 \<le> b" using ba by (simp add: all_blocks_def)
    moreover have bn: "b \<notin> set (remove1 b xs)" using pinvxD(4) [OF p1] by blast
    ultimately obtain s3 where
      s3: "queue_append b ?s2 = (Inr (), s3)" "qinv s3 (remove1 b xs @ [b])" "same_core ?s2 s3"
      using lru.give_law [OF pinvxD(1) [OF p2]] by blast
    have p3: "pinvx s3 (remove1 b xs @ [b]) {} 0" using pinvx_give [OF p2 s3(3,2)] by simp
    have "set (remove1 b xs @ [b]) = set xs"
      using popped(2) qinv_distinct [OF pinvxD(1) [OF p]] by (auto simp: set_remove1_eq)
    with Suc.IH [OF p3, of "n + 1"] popped(1) s3(1) show ?thesis by fastforce
  next
    case stuck
    then show ?thesis using p by (intro exI conjI) (auto split: if_splits)
  qed
qed

lemma evict_lru_blocks_returns:
  assumes "paged_inv s"
  shows "\<exists>m s'. evict_lru_blocks n s = (Inr m, s') \<and> paged_inv s' \<and> num_free_blocks s' = num_free_blocks s"
proof -
  from assms obtain xs where p: "pinvx s xs {} 0" by (auto simp: paged_inv_def)
  from evict_loop_pinvx [OF p, of "nat (min n (num_free_blocks s))" 0] obtain m s' ys where
    e: "evict_lru_blocks n s = (Inr m, s')" "pinvx s' ys {} 0" "set ys = set xs"
    by (auto simp: evict_lru_blocks_def)
  have "length ys = length xs"
    using e(3) qinv_distinct [OF pinvxD(1) [OF p]] qinv_distinct [OF pinvxD(1) [OF e(2)]]
    by (metis distinct_card)
  with e qinvD(2) [OF pinvxD(1) [OF p]] qinvD(2) [OF pinvxD(1) [OF e(2)]] show ?thesis
    by (auto simp: paged_inv_def)
qed

lemma handle_memory_pressure_returns:
  assumes "paged_inv s"
  shows "\<exists>s'. handle_memory_pressure n s = (Inr (n \<le> num_free_blocks s), s') \<and> paged_inv s'"
  using assms evict_lru_blocks_returns [OF assms, of "n - num_free_blocks s"]
  by (auto simp: handle_memory_pressure_def)

lemma release_one_pinvx:
  assumes p: "pinvx s xs D k" and b: "b \<in> all_blocks s"
  shows "pinvx (release_one b s) xs D k"
proof (cases "block_hash (heap s b)")
  case None
  then have "hard_eq s (release_one b s)"
    by (simp add: release_one_def Let_def hard_eq_def hard_def)
  then show ?thesis using p by (simp add: pinvx_hard [of s])
next
  case (Some h)
  have "hard_eq (unfile b h s) (release_one b s)"
    using Some by (simp add: release_one_def Let_def hard_eq_def hard_def unfile_def)
  then show ?thesis
    using pinvx_unfile [OF p claim_popped(1) [OF p b Some]] by (simp add: pinvx_hard [of "unfile b h s"])
qed

lemma release_one_links: "nxt (release_one b s) i = nxt s i"
  by (simp add: release_one_def Let_def split: option.split)

lemma release_loop_pinvx:
  "pinvx s (ps @ zs) {} 0 \<Longrightarrow> length zs < f \<Longrightarrow>
   \<exists>n s'. release_loop f m (Some (hd (zs @ [fake_tail]))) r s = (Inr n, s') \<and>
     pinvx s' (ps @ zs) {} 0 \<and> r \<le> n \<and> n \<le> r + length zs"
proof (induction zs arbitrary: ps f r s)
  case Nil
  then show ?case by (cases f) auto
next
  case (Cons z zs)
  then obtain f' where f: "f = Suc f'" by (cases f) auto
  note q = qinvD(1) [OF pinvxD(1) [OF Cons.prems(1)]]
  have zt: "z \<noteq> fake_tail" using qseg_no_tail [OF q] by auto
  have nz: "nxt s z = Some (hd (zs @ [fake_tail]))" using qseg_neighbours(2) [OF q] .
  have za: "z \<in> all_blocks s" using pinvx_ranges [OF Cons.prems(1)] by auto
  have p0: "pinvx s ((ps @ [z]) @ zs) {} 0" using Cons.prems(1) by simp
  have p1: "pinvx (release_one z s) ((ps @ [z]) @ zs) {} 0" using release_one_pinvx [OF p0 za] .
  have len: "length zs < f'" using Cons.prems(2) f by simp
  show ?case
  proof (cases "cache_data (heap s z) \<noteq> None \<and> \<not> is_pinned (heap s z)")
    case False
    from Cons.IH [OF p0 len, of r] False f zt nz show ?thesis by fastforce
  next
    case True
    from Cons.IH [OF p1 len, of "r + 1"] True f zt nz p1 show ?thesis by (fastforce simp: Let_def)
  qed
qed

lemma release_pressure_blocks_returns:
  assumes "paged_inv s"
  shows "\<exists>n s'. release_pressure_blocks m s = (Inr n, s') \<and> paged_inv s'"
proof -
  from assms obtain xs where p: "pinvx s xs {} 0" by (auto simp: paged_inv_def)
  note q = pinvxD(1) [OF p]
  from release_loop_pinvx [of s "[]" xs "fuel_of s" m 0] p obtain n s' where
    "release_loop (fuel_of s) m (Some (hd (xs @ [fake_tail]))) 0 s = (Inr n, s')" "pinvx s' xs {} 0"
    by (auto simp: fuel_of_qinv [OF q])
  then show ?thesis
    by (auto simp: release_pressure_blocks_def paged_inv_def dseg_first [OF qsegD(1) [OF qinvD(1) [OF q]]])
qed

section \<open>Construction and reset\<close>

text \<open>
  A pool of fresh blocks, all of them free: reserving the null block gives the invariant, with
  any statistics that count one allocation.
\<close>

definition pristine :: "'t manager \<Rightarrow> bool" where
  "pristine s \<longleftrightarrow> qinv s (map int [0..<max_blocks s]) \<and> allocated_blocks s = {} \<and>
     cached_map s = Map.empty \<and> (\<forall>i\<ge>0. core (heap s i) = core (new_block i))"

lemma pristine_init:
  fixes s :: "'t manager"
  assumes "heap s = new_block" and "allocated_blocks s = {}" and "cached_map s = Map.empty"
  shows "pristine (queue_init (max_blocks s) s)"
proof -
  let ?q = "queue_init (max_blocks s) s"
  have fresh: "\<forall>i. nxt s i = None \<and> prv s i = None" by (simp add: assms(1) new_block_def)
  note qi = queue_init_ok [OF fresh, where n = "max_blocks s"]
  have "max_blocks ?q = max_blocks s" "allocated_blocks ?q = allocated_blocks s"
    "cached_map ?q = cached_map s"
    using qi(3) by (cases s, cases ?q, simp)+
  moreover have "core (heap ?q i) = core (new_block i)" if "i \<ge> 0" for i
    using qi(2) that assms(1) by metis
  ultimately show ?thesis using qi(1) assms by (simp add: pristine_def)
qed

lemma reserve_null_ok:
  fixes s :: "'t manager"
  assumes p: "pristine s" and n: "0 < max_blocks s"
  shows "\<exists>s'. reserve_null s = (Inr (), s') \<and> tables_eq (s\<lparr>null_block := 0\<rparr>) s' \<and> stats s' = stats s \<and>
     (\<forall>i\<ge>0. cache_data (heap s' i) = None \<and> hash_value (heap s' i) = None \<and> \<not> is_pinned (heap s' i) \<and> block_hash (heap s' i) = None) \<and>
     hash_to_block s' = hash_to_block s \<and> allocated_blocks s' = {0} \<and>
     (\<forall>st. st_allocated_blocks st = 1 \<longrightarrow> st_free_blocks st = int (max_blocks s) - 1 \<longrightarrow>
        pinvx (s'\<lparr>stats := st\<rparr>) (map int [1..<max_blocks s]) {} 0)"
proof -
  have q: "qinv s (map int [0..<max_blocks s])" and al: "allocated_blocks s = {}"
    and cm: "cached_map s = Map.empty" and cr: "\<forall>i\<ge>0. core (heap s i) = core (new_block i)"
    using p by (simp_all add: pristine_def)
  have np: "\<not> is_pinned (heap s i)" if "0 \<le> i" for i
    using core_fields(5) [OF cr [rule_format, OF that]] by (simp add: new_block_def)
  have "filter (\<lambda>b. \<not> is_pinned (heap s b)) (map int [0..<max_blocks s]) = map int [0..<max_blocks s]"
    by (intro filter_True) (auto simp: np)
  then have u: "unpinned s (map int [0..<max_blocks s]) = 0 # map int [1..<max_blocks s]"
    using n by (simp add: unpinned_def upt_conv_Cons)
  from popleft_ok [OF q u] obtain s1 where
    s1: "popleft s = (Inr 0, s1)" "qinv s1 (remove1 0 (map int [0..<max_blocks s]))" "same_core s s1" by blast
  have rem: "remove1 0 (map int [0..<max_blocks s]) = map int [1..<max_blocks s]"
    using n by (simp add: upt_conv_Cons)
  note m = same_core_manager [OF s1(3)] and f = same_core_fields [OF s1(3)]
  let ?s2 = "upd_block 0 (\<lambda>x. x\<lparr>is_null := True, ref_count := 1\<rparr>) s1"
  let ?s' = "?s2\<lparr>null_block := 0, allocated_blocks := insert 0 (allocated_blocks ?s2)\<rparr>"
  have eq: "reserve_null s = (Inr (), ?s')" using s1(1) by (simp add: reserve_null_def Let_def)
  have fr: "ref_count (heap s i) = 0" "\<not> is_null (heap s i)" "block_hash (heap s i) = None"
    "cache_data (heap s i) = None" "hash_value (heap s i) = None" "\<not> is_pinned (heap s i)" if "0 \<le> i" for i
    using core_fields [OF cr [rule_format, OF that]] by (simp_all add: new_block_def)
  have q2: "qinv ?s2 (map int [1..<max_blocks s])"
    using s1(2) unfolding rem by (subst qinv_upd) simp_all
  have qn: "qinv (?s'\<lparr>stats := st\<rparr>) (map int [1..<max_blocks s])" for st
    using q2 unfolding qinv_def qseg_def by simp
  have img: "int ` {1..<max_blocks s} = {1..<int (max_blocks s)}"
    using image_int_atLeastLessThan [of 1 "max_blocks s"] by simp
  have img0: "x \<in> int ` {Suc 0..<max_blocks s} \<longleftrightarrow> 1 \<le> x \<and> x < int (max_blocks s)" for x
    using img by auto
  have "pinvx (?s'\<lparr>stats := st\<rparr>) (map int [1..<max_blocks s]) {} 0"
    if "st_allocated_blocks st = 1" "st_free_blocks st = int (max_blocks s) - 1" for st
    unfolding pinvx_def
    using qn [of st] that n by (auto simp: all_blocks_def claim_def al cm m f fr img0 simp del: image_iff)
  moreover have "tables_eq (s\<lparr>null_block := 0\<rparr>) ?s'" by (simp add: tables_eq_def m)
  ultimately show ?thesis using eq by (auto simp: m f fr al)
qed

lemma manager_init_ok:
  assumes "0 < mb"
  shows "\<exists>s :: 't manager. manager_init bs mb c = Inr s \<and> paged_inv s \<and> max_blocks s = mb \<and> block_size s = bs \<and>
     enable_caching s = c \<and> allocated_blocks s = {0} \<and> null_block s = 0 \<and>
     request_tables s = Map.empty \<and> hash_to_block s = Map.empty \<and>
     (\<forall>i\<ge>0. cache_data (heap s i) = None \<and> hash_value (heap s i) = None \<and> \<not> is_pinned (heap s i) \<and> block_hash (heap s i) = None)"
proof -
  define s0 :: "'t manager" where "s0 = \<lparr>heap = new_block, num_free_blocks = 0, block_size = bs,
            max_blocks = mb, enable_caching = c, cached_map = Map.empty,
            hash_to_block = Map.empty, table_store = (\<lambda>_. new_table []), next_table = 0,
            request_tables = Map.empty, allocated_blocks = {}, null_block = 0,
            stats = fresh_stats mb\<rparr>"
  let ?q = "queue_init mb s0"
  have fresh: "\<forall>i. nxt s0 i = None \<and> prv s0 i = None" by (simp add: s0_def new_block_def)
  note more = queue_init_ok(3) [OF fresh, of mb]
  have fld: "max_blocks ?q = mb" "block_size ?q = bs" "enable_caching ?q = c" "stats ?q = fresh_stats mb"
    "request_tables ?q = Map.empty" "hash_to_block ?q = Map.empty"
    using more by (cases ?q, simp add: s0_def)+
  have "pristine ?q" using pristine_init [of s0] by (simp add: s0_def)
  from reserve_null_ok [OF this] fld assms obtain s where
    s: "reserve_null ?q = (Inr (), s)" "tables_eq (?q\<lparr>null_block := 0\<rparr>) s" "stats s = fresh_stats mb"
      "hash_to_block s = Map.empty" "allocated_blocks s = {0}"
      "\<forall>i\<ge>0. cache_data (heap s i) = None \<and> hash_value (heap s i) = None \<and> \<not> is_pinned (heap s i) \<and> block_hash (heap s i) = None"
      "pinvx (s\<lparr>stats := fresh_stats mb\<rparr>) (map int [1..<mb]) {} 0"
    by (auto simp: fresh_stats_def)
  have "s\<lparr>stats := fresh_stats mb\<rparr> = s" using s(3) by (cases s) simp
  then have "paged_inv s" using s(7) by (auto simp: paged_inv_def)
  moreover have "manager_init bs mb c = Inr s" using s(1) by (simp add: manager_init_def s0_def Let_def)
  ultimately show ?thesis
    using s(2,4-6) fld by (intro exI [of _ s]) (simp add: tables_eq_def)
qed

lemma queue_init_zero: "nxt (queue_init 0 s) fake_head = Some fake_tail"
  for s :: "('t, 'z) pool_scheme"
  by (simp add: queue_init_def Let_def fake_head_def fake_tail_def)

lemma popleft_zero: "popleft (queue_init 0 s) = (Inl ValueError, queue_init 0 s)"
  for s :: "('t, 'z) pool_scheme"
  by (simp add: popleft_def queue_init_zero)

lemma manager_init_empty: "manager_init bs 0 c = Inl ValueError"
  by (simp add: manager_init_def Let_def reserve_null_def popleft_zero)

lemma paged_inv_max: "paged_inv s \<Longrightarrow> 0 < max_blocks s"
proof -
  assume "paged_inv s"
  then obtain xs where p: "pinvx s xs {} 0" by (auto simp: paged_inv_def)
  then have "null_block s \<in> all_blocks s" using pinvxD(8) pinvx_ranges by blast
  then show ?thesis by (auto simp: all_blocks_def)
qed

lemma clear_returns:
  fixes s :: "'t manager"
  assumes "paged_inv s"
  shows "\<exists>s'. clear r s = (Inr (), s') \<and> paged_inv s' \<and> allocated_blocks s' = {0} \<and>
     request_tables s' = Map.empty \<and> hash_to_block s' = Map.empty \<and> null_block s' = 0 \<and>
     tables_eq (s\<lparr>null_block := 0, request_tables := Map.empty\<rparr>) s' \<and>
     (\<forall>i\<ge>0. cache_data (heap s' i) = None \<and> hash_value (heap s' i) = None \<and> \<not> is_pinned (heap s' i) \<and> block_hash (heap s' i) = None)"
proof -
  let ?s1 = "queue_init (max_blocks s) (s\<lparr>heap := new_block\<rparr>)"
  let ?s2 = "?s1\<lparr>cached_map := bh_clear (cached_map ?s1), hash_to_block := Map.empty,
      request_tables := Map.empty, allocated_blocks := {}\<rparr>"
  have fresh: "\<forall>i. nxt (s\<lparr>heap := new_block\<rparr>) i = None \<and> prv (s\<lparr>heap := new_block\<rparr>) i = None"
    by (simp add: new_block_def)
  note qi = queue_init_ok [OF fresh, where n = "max_blocks s"]
  have fld: "max_blocks ?s1 = max_blocks s" "block_size ?s1 = block_size s"
    "enable_caching ?s1 = enable_caching s" "table_store ?s1 = table_store s" "next_table ?s1 = next_table s"
    using qi(3) by (cases s, cases ?s1, simp)+
  have cr: "\<forall>i\<ge>0. core (heap ?s1 i) = core (new_block i)" using qi(2) by simp
  have "pristine ?s2"
    unfolding pristine_def using qi(1) cr fld by (simp add: bh_clear_def qinv_def qseg_def)
  from reserve_null_ok [OF this] paged_inv_max [OF assms] fld obtain s3 where
    s3: "reserve_null ?s2 = (Inr (), s3)" "tables_eq (?s2\<lparr>null_block := 0\<rparr>) s3"
      "hash_to_block s3 = Map.empty" "allocated_blocks s3 = {0}"
      "\<forall>i\<ge>0. cache_data (heap s3 i) = None \<and> hash_value (heap s3 i) = None \<and> \<not> is_pinned (heap s3 i) \<and> block_hash (heap s3 i) = None"
      "\<forall>st. st_allocated_blocks st = 1 \<longrightarrow> st_free_blocks st = int (max_blocks s) - 1 \<longrightarrow>
        pinvx (s3\<lparr>stats := st\<rparr>) (map int [1..<max_blocks s]) {} 0"
    by auto
  have m3: "max_blocks s3 = max_blocks s" using s3(2) fld by (simp add: tables_eq_def)
  let ?st = "(fresh_stats (max_blocks s))\<lparr>cache_hits := (if r then 0 else cache_hits (stats s)),
    cache_misses := (if r then 0 else cache_misses (stats s)),
    cow_copies := (if r then 0 else cow_copies (stats s)),
    evictions := (if r then 0 else evictions (stats s))\<rparr>"
  let ?s4 = "s3\<lparr>stats := ?st\<rparr>"
  have "pinvx ?s4 (map int [1..<max_blocks s]) {} 0"
    using s3(6) by (simp add: fresh_stats_def)
  then have "paged_inv ?s4" unfolding paged_inv_def by (rule exI)
  moreover have "clear r s = (Inr (), ?s4)"
    unfolding clear_def Let_def s3(1) by (simp add: m3)
  ultimately show ?thesis
    using s3(2-5) fld by (intro exI [of _ ?s4]) (simp add: tables_eq_def)
qed

lemma fold_reset_heap:
  "heap (fold (\<lambda>b. upd_block b (\<lambda>x. drop_data (reset_hash x))) bs s) i =
     (if i \<in> set bs then drop_data (reset_hash (heap s i)) else heap s i)"
proof (induction bs arbitrary: s)
  case (Cons b bs)
  have "drop_data (reset_hash (drop_data (reset_hash x))) = drop_data (reset_hash x)" for x :: "'a cache_block"
    by (simp add: drop_data_def reset_hash_def)
  then show ?case by (auto simp: Cons.IH)
qed simp

lemma fold_reset_fields:
  fixes s :: "'t manager"
  shows "num_free_blocks (fold (\<lambda>b. upd_block b f) bs s) = num_free_blocks s \<and>
    pool.more (fold (\<lambda>b. upd_block b f) bs s) = pool.more s"
  by (induction bs arbitrary: s) simp_all

lemma reset_prefix_cache_inv:
  fixes s :: "'t manager"
  assumes i: "paged_inv s"
  shows "paged_inv (snd (reset_prefix_cache s))"
proof (cases "1 < int (max_blocks s) - num_free_blocks s")
  case True
  then show ?thesis using i by (simp add: reset_prefix_cache_def)
next
  case False
  from i obtain xs where p: "pinvx s xs {} 0" by (auto simp: paged_inv_def)
  note d = pinvxD [OF p]
  let ?s1 = "s\<lparr>cached_map := bh_clear (cached_map s), hash_to_block := Map.empty\<rparr>"
  let ?g = "\<lambda>x :: 't cache_block. drop_data (reset_hash x)"
  let ?s2 = "fold (\<lambda>b. upd_block b ?g) (all_block_ids s) ?s1"
  have set: "set (all_block_ids s) = all_blocks s"
    by (simp add: all_block_ids_def all_blocks_def image_int_atLeastLessThan)
  have heap: "heap ?s2 i = (if i \<in> all_blocks s then ?g (heap s i) else heap s i)" for i
    by (simp add: fold_reset_heap set)
  have "pool.more ?s2 = pool.more ?s1" "num_free_blocks ?s2 = num_free_blocks s"
    using fold_reset_fields [of ?g "all_block_ids s" ?s1] by simp_all
  then have fld: "max_blocks ?s2 = max_blocks s" "allocated_blocks ?s2 = allocated_blocks s"
    "null_block ?s2 = null_block s" "stats ?s2 = stats s" "cached_map ?s2 = Map.empty"
    "num_free_blocks ?s2 = num_free_blocks s"
    by (cases ?s2, cases s, simp add: bh_clear_def)+
  have "dseg (heap ?s2) fake_head xs fake_tail = dseg (heap s) fake_head xs fake_tail"
    by (rule dseg_cong) (simp_all add: heap)
  then have q: "qinv ?s2 xs" using d(1) by (simp add: qinv_def qseg_def heap fld)
  have "pinvx ?s2 xs {} 0"
    unfolding pinvx_def
    using q d by (auto simp: all_blocks_def fld heap claim_def)
  then have "pinvx (upd_stats (\<lambda>st. st\<lparr>evictions := 0, cache_hits := 0, cache_misses := 0\<rparr>) ?s2) xs {} 0"
    by (rule iffD1 [OF pinvx_hard, rotated]) (simp add: hard_eq_def)
  then show ?thesis using False by (auto simp: reset_prefix_cache_def Let_def paged_inv_def)
qed

end
