(* ===== verification/PagedRefs.thy ===== *)
theory PagedRefs
  imports PagedInv
begin

text \<open>
  Reference counting. \<open>ref s b\<close> is a block's count; releasing a block takes one from it, forking
  a table adds one per entry, and a list of releases takes as many as the block occurs in it.
  \<open>inert s s'\<close> says that nothing changed but counts, list pointers and access statistics.
\<close>

abbreviation ref :: "'t manager \<Rightarrow> bid \<Rightarrow> int" where
  "ref s b \<equiv> ref_count (heap s b)"

text \<open>The fields of a block that describe its content.\<close>

definition content :: "'t cache_block \<Rightarrow> digest option \<times> string option \<times> ('t \<times> 't) list option \<times>
    string option \<times> int \<times> bool \<times> bool" where
  "content b = (block_hash b, hash_value b, cache_data b, cache_class_name b, token_count b,
     is_null b, is_pinned b)"

definition inert :: "'t manager \<Rightarrow> 't manager \<Rightarrow> bool" where
  "inert s s' \<longleftrightarrow> (\<forall>i. content (heap s' i) = content (heap s i)) \<and>
     hash_to_block s' = hash_to_block s \<and> cached_map s' = cached_map s \<and>
     max_blocks s' = max_blocks s \<and> block_size s' = block_size s \<and>
     enable_caching s' = enable_caching s \<and> null_block s' = null_block s"

lemma inert_refl [simp]: "inert s s"
  by (simp add: inert_def)

lemma inert_trans: "inert s t \<Longrightarrow> inert t u \<Longrightarrow> inert s u"
  by (simp add: inert_def)

lemma inert_content:
  assumes "inert s s'"
  shows "block_hash (heap s' i) = block_hash (heap s i)" "hash_value (heap s' i) = hash_value (heap s i)"
    "cache_data (heap s' i) = cache_data (heap s i)" "token_count (heap s' i) = token_count (heap s i)"
    "cache_class_name (heap s' i) = cache_class_name (heap s i)"
    "is_pinned (heap s' i) = is_pinned (heap s i)" "is_null (heap s' i) = is_null (heap s i)"
  using assms by (auto simp: inert_def content_def)

lemma inert_fields:
  assumes "inert s s'"
  shows "hash_to_block s' = hash_to_block s" "cached_map s' = cached_map s"
    "max_blocks s' = max_blocks s" "block_size s' = block_size s" "null_block s' = null_block s"
    "enable_caching s' = enable_caching s"
  using assms by (simp_all add: inert_def)

lemma content_core: "core b = core c \<Longrightarrow> content b = content c"
  using core_fields [of b c] by (simp add: content_def)

section \<open>Releasing one reference\<close>

text \<open>The block a release acts on: allocated and not the null block.\<close>

definition held :: "'t manager \<Rightarrow> bid \<Rightarrow> bool" where
  "held s b \<longleftrightarrow> b \<in> allocated_blocks s \<and> b \<noteq> null_block s"

lemma held_null: "paged_inv s \<Longrightarrow> held s b \<longleftrightarrow> b \<in> allocated_blocks s \<and> \<not> is_null (heap s b)"
  by (auto simp: paged_inv_def pinvx_def held_def)

lemma free_block_absent:
  assumes "paged_inv s" and "\<not> held s b"
  shows "free_block b s = (Inr False, s)"
  using assms(2) by (auto simp: held_null [OF assms(1)] free_block_def)

lemma free_block_shared:
  assumes "paged_inv s" and "held s b" and "1 < ref s b"
  shows "free_block b s = (Inr False, upd_block b (\<lambda>x. x\<lparr>ref_count := ref_count x - 1\<rparr>) s)"
  using assms(2,3) by (auto simp: held_null [OF assms(1)] free_block_def Let_def)

lemma free_block_last:
  assumes p: "pinvx s xs {} 0" and h: "held s b" and one: "ref s b = 1"
  shows "\<exists>s'. free_block b s = (Inr True, s') \<and> pinvx s' (xs @ [b]) {} 0 \<and> inert s s' \<and>
     tables_eq s s' \<and> allocated_blocks s' = allocated_blocks s - {b} \<and>
     (\<forall>i. ref s' i = (if i = b then 0 else ref s i)) \<and>
     (\<forall>i. access_count (heap s' i) = access_count (heap s i))"
proof -
  from p have i: "paged_inv s" by (auto simp: paged_inv_def)
  note d = pinvxD [OF p]
  have b: "0 \<le> b" "b \<notin> set xs" using h d(2,5) by (auto simp: held_def all_blocks_def)
  let ?s = "(upd_block b (\<lambda>x. x\<lparr>ref_count := ref_count x - 1\<rparr>) s)\<lparr>allocated_blocks := allocated_blocks s - {b}\<rparr>"
  have "dseg (heap ?s) fake_head xs fake_tail = dseg (heap s) fake_head xs fake_tail"
    by (rule dseg_cong) simp_all
  then have "qinv ?s xs" using d(1) by (simp add: qinv_def qseg_def)
  then obtain s1 where s1: "queue_append b ?s = (Inr (), s1)" "same_core ?s s1"
    using lru.give_law [of ?s xs b] b by blast
  note m = same_core_manager [OF s1(2)] and f = same_core_fields [OF s1(2)]
  let ?s' = "upd_stats (\<lambda>st. st\<lparr>total_tokens_cached :=
        total_tokens_cached st - token_count (heap s1 b)\<rparr>) (count_alloc (- 1) s1)"
  have eq: "free_block b s = (Inr True, ?s')"
    using h one s1(1) by (simp add: held_null [OF i] free_block_def Let_def)
  have "content (heap s1 i) = content (heap s i)" for i by (simp add: content_def f)
  then have "inert s ?s'" by (simp add: inert_def m)
  moreover have "pinvx ?s' (xs @ [b]) {} 0" using free_block_pinvx [OF p eq] by simp
  ultimately show ?thesis using eq one by (simp add: tables_eq_def m f)
qed

lemma free_block_spec:
  assumes i: "paged_inv s"
  shows "\<exists>v s'. free_block b s = (Inr v, s') \<and> paged_inv s' \<and> inert s s' \<and> tables_eq s s' \<and>
     (\<forall>i. ref s' i = (if i = b \<and> held s b then ref s i - 1 else ref s i)) \<and>
     allocated_blocks s' = (if held s b \<and> ref s b = 1 then allocated_blocks s - {b} else allocated_blocks s) \<and>
     (v \<longleftrightarrow> held s b \<and> ref s b = 1)"
proof (cases "held s b")
  case False
  then show ?thesis using i free_block_absent [OF i False] by (auto simp: tables_eq_refl)
next
  case h: True
  from i obtain xs where p: "pinvx s xs {} 0" by (auto simp: paged_inv_def)
  have pos: "0 < ref s b" using pinvxD(6) [OF p] h by (simp add: held_def)
  show ?thesis
  proof (cases "ref s b = 1")
    case True
    from free_block_last [OF p h True] obtain s' where
      "free_block b s = (Inr True, s')" "paged_inv s'" "inert s s'" "tables_eq s s'"
      "allocated_blocks s' = allocated_blocks s - {b}" "\<forall>i. ref s' i = (if i = b then 0 else ref s i)"
      by (auto simp: paged_inv_def)
    with True h show ?thesis by (intro exI [of _ True] exI [of _ s']) simp
  next
    case False
    let ?s' = "upd_block b (\<lambda>x. x\<lparr>ref_count := ref_count x - 1\<rparr>) s"
    have eq: "free_block b s = (Inr False, ?s')" using free_block_shared [OF i h] pos False by simp
    moreover have "paged_inv ?s'" using free_block_inv [OF i, of b] eq by simp
    ultimately show ?thesis
      using h False by (intro exI [of _ False] exI [of _ ?s']) (simp add: inert_def content_def tables_eq_def)
  qed
qed

section \<open>Releasing and taking a list of references\<close>

lemma free_all_spec:
  assumes "paged_inv s" and "\<forall>i. held s i \<longrightarrow> int (count_list bs i) \<le> ref s i"
  shows "\<exists>s'. free_all bs s = (Inr (), s') \<and> paged_inv s' \<and> inert s s' \<and> tables_eq s s' \<and>
     (\<forall>i. ref s' i = (if held s i then ref s i - int (count_list bs i) else ref s i)) \<and>
     allocated_blocks s' = {i \<in> allocated_blocks s. held s i \<longrightarrow> int (count_list bs i) < ref s i}"
  using assms
proof (induction bs arbitrary: s)
  case Nil
  then have "\<forall>i\<in>allocated_blocks s. 0 < ref s i" by (auto simp: paged_inv_def pinvx_def)
  with Nil show ?case by (auto simp: tables_eq_refl)
next
  case (Cons b bs)
  obtain v s1 where f: "free_block b s = (Inr v, s1)" and i1: "paged_inv s1" and e: "inert s s1" "tables_eq s s1"
    and r: "\<forall>i. ref s1 i = (if i = b \<and> held s b then ref s i - 1 else ref s i)"
    and al: "allocated_blocks s1 = (if held s b \<and> ref s b = 1 then allocated_blocks s - {b} else allocated_blocks s)"
    using free_block_spec [OF Cons.prems(1)] by blast
  have h: "held s1 i \<longleftrightarrow> held s i \<and> \<not> (i = b \<and> ref s b = 1)" for i
    using al inert_fields(5) [OF e(1)] by (auto simp: held_def)
  have le: "\<forall>i. held s1 i \<longrightarrow> int (count_list bs i) \<le> ref s1 i"
  proof (intro allI impI)
    fix i assume "held s1 i"
    then show "int (count_list bs i) \<le> ref s1 i"
      using Cons.prems(2) [rule_format, of i] by (auto simp: h r split: if_splits)
  qed
  have z: "count_list bs b = 0" if "held s b" "ref s b = 1"
    using Cons.prems(2) that by (fastforce split: if_splits)
  obtain s2 where s2: "free_all bs s1 = (Inr (), s2)" "paged_inv s2" "inert s1 s2" "tables_eq s1 s2"
    and r2: "\<forall>i. ref s2 i = (if held s1 i then ref s1 i - int (count_list bs i) else ref s1 i)"
    and al2: "allocated_blocks s2 = {i \<in> allocated_blocks s1. held s1 i \<longrightarrow> int (count_list bs i) < ref s1 i}"
    using Cons.IH [OF i1 le] by blast
  have mem: "i \<in> allocated_blocks s1 \<longleftrightarrow> i \<in> allocated_blocks s \<and> \<not> (i = b \<and> held s b \<and> ref s b = 1)" for i
    using al by auto
  have "ref s2 i = (if held s i then ref s i - int (count_list (b # bs) i) else ref s i)" for i
    using z by (auto simp: r2 h r)
  moreover have "allocated_blocks s2 =
      {i \<in> allocated_blocks s. held s i \<longrightarrow> int (count_list (b # bs) i) < ref s i}"
    using z unfolding al2 by (auto simp: mem h r)
  ultimately show ?case
    using f s2 inert_trans [OF e(1) s2(3)] tables_eq_trans [OF e(2) s2(4)] by simp
qed

lemma increment_ref_spec:
  "\<exists>s'. increment_ref b s = (b \<in> allocated_blocks s, s') \<and> inert s s' \<and> tables_eq s s' \<and>
     allocated_blocks s' = allocated_blocks s \<and>
     (\<forall>i. ref s' i = (if i = b \<and> b \<in> allocated_blocks s then ref s i + 1 else ref s i))"
  by (auto simp: increment_ref_def Let_def inert_def content_def tables_eq_def)

lemma fold_increment_spec:
  "\<exists>s'. fold (\<lambda>b s. snd (increment_ref b s)) bs s = s' \<and> inert s s' \<and> tables_eq s s' \<and>
     allocated_blocks s' = allocated_blocks s \<and>
     (\<forall>i. ref s' i = (if i \<in> allocated_blocks s then ref s i + int (count_list bs i) else ref s i))"
proof (induction bs arbitrary: s)
  case (Cons b bs)
  obtain s1 where s1: "increment_ref b s = (b \<in> allocated_blocks s, s1)" "inert s s1" "tables_eq s s1"
    "allocated_blocks s1 = allocated_blocks s"
    "\<forall>i. ref s1 i = (if i = b \<and> b \<in> allocated_blocks s then ref s i + 1 else ref s i)"
    using increment_ref_spec [of b s] by blast
  from Cons.IH [of s1] s1 show ?case
    using inert_trans [OF s1(2)] tables_eq_trans [OF s1(3)] by (auto simp: algebra_simps)
qed (simp add: tables_eq_refl)

section \<open>Tables\<close>

lemma register_table_spec:
  assumes "register_table rid t s = (a, s')"
  shows "a = next_table s" "table_store s' = (table_store s)(a := t)"
    "request_tables s' = (request_tables s)(rid \<mapsto> a)" "next_table s' = Suc (next_table s)"
    "heap s' = heap s" "allocated_blocks s' = allocated_blocks s" "inert s s'" "held s' = held s"
  using assms by (auto simp: register_table_def Let_def inert_def held_def fun_eq_iff)

lemma delete_block_table_spec:
  assumes i: "paged_inv s" and t: "request_tables s rid = Some a"
    and c: "\<forall>i. held s i \<longrightarrow> int (count_list (block_ids (table_store s a)) i) \<le> ref s i"
  shows "\<exists>s'. delete_block_table rid s = (Inr (), s') \<and> paged_inv s' \<and> inert s s' \<and>
     table_store s' = table_store s \<and> next_table s' = next_table s \<and>
     request_tables s' = (request_tables s)(rid := None) \<and>
     (\<forall>i. ref s' i = (if held s i then ref s i - int (count_list (block_ids (table_store s a)) i) else ref s i)) \<and>
     allocated_blocks s' =
       {i \<in> allocated_blocks s. held s i \<longrightarrow> int (count_list (block_ids (table_store s a)) i) < ref s i}"
proof -
  let ?s = "s\<lparr>request_tables := (request_tables s)(rid := None)\<rparr>"
  have h: "held ?s = held s" by (simp add: held_def fun_eq_iff)
  have "paged_inv ?s" using hard_eq_paged_inv [OF i hard_eq_tables(1)] .
  from free_all_spec [OF this, of "block_ids (table_store s a)"] c
  obtain s' where s': "free_all (block_ids (table_store s a)) ?s = (Inr (), s')" "paged_inv s'"
    "inert ?s s'" "tables_eq ?s s'"
    "\<forall>i. ref s' i = (if held s i then ref s i - int (count_list (block_ids (table_store s a)) i) else ref s i)"
    "allocated_blocks s' =
      {i \<in> allocated_blocks s. held s i \<longrightarrow> int (count_list (block_ids (table_store s a)) i) < ref s i}"
    by (auto simp: h)
  have "inert s s'" using s'(3) by (simp add: inert_def)
  with s' t show ?thesis by (simp add: delete_block_table_def tables_eq_def)
qed

lemma fork_block_table_spec:
  assumes i: "paged_inv s" and n: "request_tables s rid = None"
  shows "\<exists>s'. fork_block_table a rid s = (Inr (next_table s), s') \<and> paged_inv s' \<and> inert s s' \<and>
     table_store s' = (table_store s)(next_table s := table_copy rid (table_store s a)) \<and>
     next_table s' = Suc (next_table s) \<and> request_tables s' = (request_tables s)(rid \<mapsto> next_table s) \<and>
     allocated_blocks s' = allocated_blocks s \<and>
     (\<forall>i. ref s' i = (if i \<in> allocated_blocks s
        then ref s i + int (count_list (block_ids (table_store s a)) i) else ref s i))"
proof -
  let ?t = "table_copy rid (table_store s a)"
  obtain s1 where s1: "fold (\<lambda>b s. snd (increment_ref b s)) (block_ids ?t) s = s1" "inert s s1"
    "tables_eq s s1" "allocated_blocks s1 = allocated_blocks s"
    "\<forall>i. ref s1 i = (if i \<in> allocated_blocks s then ref s i + int (count_list (block_ids ?t) i) else ref s i)"
    using fold_increment_spec by blast
  obtain b s2 where s2: "register_table rid ?t s1 = (b, s2)" by fastforce
  note r = register_table_spec [OF s2]
  have nf: "request_tables s rid \<noteq> Some a" using n by simp
  have "fork_block_table a rid s = (Inr b, s2)"
    using n s1(1) s2 by (simp add: fork_block_table_def Let_def)
  moreover from this have "paged_inv s2" using fork_block_table_returns [OF i, of a rid] by auto
  ultimately show ?thesis
    using s1 r inert_trans [OF s1(2) r(7)] by (simp add: tables_eq_def table_copy_def)
qed

end
