(* ===== verification/PagedCorrect.thy ===== *)
theory PagedCorrect
  imports PagedRefs
begin

text \<open>
  What \<open>PagedCacheManager\<close> promises. \<open>manager_step\<close> is one call of a public method,
  \<open>reachable_manager\<close> what a run from the constructor can get to: the invariant holds there, so every
  loop over the free queue ends and no branch of the pointer code that raises for a broken list
  is taken. Then come the contracts of the methods: allocation (which block, and that it is
  nobody's), releasing, forking and copy-on-write, the two prefix indexes, eviction and reset.
\<close>

section \<open>Runs\<close>

text \<open>
  Callers pass block objects, whose ids are in range, and ask for a non-negative number of
  blocks. Calls that raise are steps too, with the state they leave behind. The one exception is
  the \<open>AssertionError\<close> of a \<open>get_new_blocks\<close> that runs out of unpinned blocks half way: the state
  it leaves is broken, as \<open>get_new_blocks_leaks\<close> proves.
\<close>

inductive manager_step :: "(bytes \<Rightarrow> digest) \<Rightarrow> 't manager \<Rightarrow> 't manager \<Rightarrow> bool" for sha where
  step_allocate: "allocate_block s = (r, s') \<Longrightarrow> manager_step sha s s'"
| step_get_new: "0 \<le> n \<Longrightarrow> get_new_blocks n s = (r, s') \<Longrightarrow> r \<noteq> Inl AssertionError \<Longrightarrow>
    manager_step sha s s'"
| step_free: "free_block b s = (v, s') \<Longrightarrow> manager_step sha s s'"
| step_touch: "set bs \<subseteq> all_blocks s \<Longrightarrow> manager_step sha s (touch bs s)"
| step_increment: "increment_ref b s = (c, s') \<Longrightarrow> manager_step sha s s'"
| step_get_cached: "get_cached_block h s = (bo, s') \<Longrightarrow> manager_step sha s s'"
| step_cache_full: "set bs \<subseteq> all_blocks s \<Longrightarrow> cache_full_blocks sha bs toks k m s = (u, s') \<Longrightarrow>
    manager_step sha s s'"
| step_computed: "get_computed_blocks sha toks s = (res, s') \<Longrightarrow> manager_step sha s s'"
| step_find: "find_cached_block sha toks c s = (fo, s') \<Longrightarrow> manager_step sha s s'"
| step_find_hash: "find_cached_block_by_hash hv c s = (bo, s') \<Longrightarrow> manager_step sha s s'"
| step_register: "register_block_hash sha b toks s = (u, s') \<Longrightarrow> manager_step sha s s'"
| step_register_value: "manager_step sha s (register_block_hash_value b hv s)"
| step_create: "create_block_table rid s = (ta, s') \<Longrightarrow> manager_step sha s s'"
| step_get_or_create: "get_or_create_block_table rid s = (a, s') \<Longrightarrow> manager_step sha s s'"
| step_delete: "delete_block_table rid s = (u, s') \<Longrightarrow> manager_step sha s s'"
| step_add: "manager_step sha s (add_block_to_table a b j s)"
| step_shared: "find_shared_prefix sha toks c s = (sp, s') \<Longrightarrow> manager_step sha s s'"
| step_fork: "fork_block_table a rid s = (ta, s') \<Longrightarrow> manager_step sha s s'"
| step_generation: "get_blocks_for_generation a s = (g, s') \<Longrightarrow> manager_step sha s s'"
| step_for_tokens: "allocate_blocks_for_tokens k s = (r, s') \<Longrightarrow> r \<noteq> Inl AssertionError \<Longrightarrow>
    manager_step sha s s'"
| step_evict: "evict_lru_blocks n s = (e, s') \<Longrightarrow> manager_step sha s s'"
| step_pressure: "handle_memory_pressure n s = (v, s') \<Longrightarrow> manager_step sha s s'"
| step_release: "release_pressure_blocks m s = (e, s') \<Longrightarrow> manager_step sha s s'"
| step_stats: "get_stats s = (st, s') \<Longrightarrow> manager_step sha s s'"
| step_usage: "get_memory_usage s = (mu, s') \<Longrightarrow> manager_step sha s s'"
| step_reset_stats: "manager_step sha s (reset_stats s)"
| step_pin: "pin_blocks bs s = (k, s') \<Longrightarrow> manager_step sha s s'"
| step_unpin: "unpin_blocks bs s = (e, s') \<Longrightarrow> manager_step sha s s'"
| step_reset_cache: "reset_prefix_cache s = (c, s') \<Longrightarrow> manager_step sha s s'"
| step_clear: "clear c s = (u, s') \<Longrightarrow> manager_step sha s s'"

inductive reachable_manager :: "(bytes \<Rightarrow> digest) \<Rightarrow> 't manager \<Rightarrow> bool" for sha where
  reach_init: "manager_init bs mb c = Inr s \<Longrightarrow> reachable_manager sha s"
| reach_step: "reachable_manager sha s \<Longrightarrow> manager_step sha s s' \<Longrightarrow> reachable_manager sha s'"

lemma snd_inv: "f s = (r, s') \<Longrightarrow> P (snd (f s)) \<Longrightarrow> P s'"
  by simp

lemma returns_inv:
  "\<exists>v t. f = (Inr v, t) \<and> paged_inv t \<Longrightarrow> f = (r, s') \<Longrightarrow> paged_inv s'"
  by auto

lemma get_new_blocks_outcome_inv:
  assumes i: "paged_inv s" and n: "0 \<le> n" and g: "get_new_blocks n s = (r, s')"
    and r: "r \<noteq> Inl AssertionError"
  shows "paged_inv s'"
proof (cases r)
  case (Inr bs)
  then show ?thesis using get_new_blocks_inv [OF i n] g by simp
next
  case (Inl e)
  from i obtain xs where p: "pinvx s xs {} 0" by (auto simp: paged_inv_def)
  note q = pinvxD(1) [OF p]
  show ?thesis
  proof (cases "num_free_blocks s < n")
    case True
    then show ?thesis using g i by (simp add: get_new_blocks_def)
  next
    case False
    then have le: "n \<le> int (length xs)" using qinvD(2) [OF q] by simp
    have "popleft_n n s = (Inl e, s')"
      using g Inl False by (simp add: get_new_blocks_def split: prod.splits sum.splits)
    then show ?thesis
      using popleft_n_pinned_leak [OF q le] popleft_n_ok [OF q n] r Inl
      by (cases "n \<le> int (length (unpinned s xs))") auto
  qed
qed

lemma manager_step_inv: "manager_step sha s s' \<Longrightarrow> paged_inv s \<Longrightarrow> paged_inv s'"
proof (induction rule: manager_step.induct)
  case (step_allocate s r s')
  then show ?case using allocate_block_inv [of s] by simp
next
  case (step_get_new n s r s')
  then show ?case using get_new_blocks_outcome_inv by blast
next
  case (step_free b s v s')
  then show ?case using free_block_inv [of s b] by simp
next
  case (step_increment b s c s')
  then show ?case using increment_ref_inv [of s b] by simp
next
  case (step_cache_full bs s toks k m u s')
  then show ?case using cache_full_blocks_inv [of s bs sha toks k m] by simp
next
  case (step_for_tokens k s r s')
  then show ?case
    using get_new_blocks_outcome_inv [of s "int ((k + block_size s - 1) div block_size s)" r s']
    by (simp add: allocate_blocks_for_tokens_def split: if_splits)
next
  case (step_generation a s g s')
  then show ?case using get_blocks_for_generation_inv [of s a] by simp
next
  case (step_create rid s ta s')
  then show ?case using create_block_table_returns [of s rid] by auto
next
  case (step_delete rid s u s')
  then show ?case using delete_block_table_returns [of s rid] by auto
next
  case (step_fork a rid s ta s')
  then show ?case using fork_block_table_returns [of s a rid] by auto
next
  case (step_evict n s e s')
  then show ?case using evict_lru_blocks_returns [of s n] by auto
next
  case (step_pressure n s v s')
  then show ?case using handle_memory_pressure_returns [of s n] by auto
next
  case (step_release m s e s')
  then show ?case using release_pressure_blocks_returns [of s m] by auto
next
  case (step_clear c s u s')
  then show ?case using clear_returns [of s c] by auto
next
  case (step_reset_cache s c s')
  then show ?case using reset_prefix_cache_inv [of s] by simp
next
  case (step_stats s st s')
  then show ?case using hard_eq_paged_inv [OF _ get_stats_hard [of s]] by simp
next
  case (step_usage s mu s')
  then show ?case using hard_eq_paged_inv [OF _ get_memory_usage_hard [of s]] by simp
next
  case (step_get_cached h s bo s')
  then show ?case using hard_eq_paged_inv [OF _ get_cached_block_hard [of s h]] by simp
next
  case (step_computed toks s res s')
  then show ?case using hard_eq_paged_inv [OF _ get_computed_blocks_hard [of s sha toks]] by simp
next
  case (step_find toks c s fo s')
  then show ?case using hard_eq_paged_inv [OF _ find_cached_block_hard [of s sha toks c]] by simp
next
  case (step_find_hash hv c s bo s')
  then show ?case using hard_eq_paged_inv [OF _ find_cached_block_by_hash_hard [of s hv c]] by simp
next
  case (step_register b toks s u s')
  then show ?case using hard_eq_paged_inv [OF _ register_block_hash_hard [of s sha b toks]] by simp
next
  case (step_get_or_create rid s a s')
  then show ?case using hard_eq_paged_inv [OF _ get_or_create_hard [of s rid]] by simp
next
  case (step_shared toks c s sp s')
  then show ?case using hard_eq_paged_inv [OF _ find_shared_prefix_hard [of s sha toks c]] by simp
next
  case (step_pin bs s k s')
  then show ?case using hard_eq_paged_inv [OF _ pin_loop_hard [of s bs 0]] by (simp add: pin_blocks_def)
next
  case (step_unpin bs s e s')
  then show ?case using hard_eq_paged_inv [OF _ unpin_loop_hard [of s bs 0]] by (simp add: unpin_blocks_def)
qed (auto intro: touch_inv hard_eq_paged_inv register_block_hash_value_hard add_block_to_table_hard
    reset_stats_hard)

lemma manager_init_inv:
  fixes s :: "'t manager"
  assumes i: "manager_init bs mb c = Inr s"
  shows "paged_inv s"
proof (cases "mb = 0")
  case True
  then show ?thesis using i by (simp add: manager_init_empty)
next
  case False
  then obtain t :: "'t manager" where "manager_init bs mb c = Inr t" "paged_inv t"
    using manager_init_ok [of mb bs c] by blast
  then show ?thesis using i by simp
qed

lemma reachable_inv: "reachable_manager sha s \<Longrightarrow> paged_inv s"
  by (induction rule: reachable_manager.induct) (auto intro: manager_init_inv manager_step_inv)

section \<open>The manager the constructor returns\<close>

definition fresh_manager :: "nat \<Rightarrow> nat \<Rightarrow> bool \<Rightarrow> 't manager" where
  "fresh_manager bs mb c = (case manager_init bs mb c of Inr s \<Rightarrow> s)"

lemma fresh_manager_init: "0 < mb \<Longrightarrow> manager_init bs mb c = Inr (fresh_manager bs mb c :: 't manager)"
  using manager_init_ok [where 't = 't, of mb bs c] by (auto simp: fresh_manager_def)

lemma fresh_manager_inv: "0 < mb \<Longrightarrow> paged_inv (fresh_manager bs mb c)"
  using manager_init_inv fresh_manager_init by blast

lemma fresh_manager_reachable: "0 < mb \<Longrightarrow> reachable_manager sha (fresh_manager bs mb c)"
  using reach_init fresh_manager_init by blast

lemma reachable_allocate: "reachable_manager sha s \<Longrightarrow> reachable_manager sha (snd (allocate_block s))"
  using reach_step step_allocate by (metis prod.collapse)

section \<open>Allocation\<close>

lemma free_list:
  assumes "paged_inv s" and "get_all_free_blocks s = Inr xs"
  shows "pinvx s xs {} 0"
proof -
  from assms(1) obtain ys where p: "pinvx s ys {} 0" by (auto simp: paged_inv_def)
  then show ?thesis using get_all_free_blocks_list [OF pinvxD(1) [OF p]] assms(2) by simp
qed

lemma free_list_is: "pinvx s xs {} 0 \<Longrightarrow> get_all_free_blocks s = Inr xs"
  by (rule get_all_free_blocks_list [OF pinvxD(1)])

lemma count_claim_access:
  "i \<noteq> b \<Longrightarrow> access_count (heap (claim_block b s) i) = access_count (heap s i)"
  by (simp add: claim_block_def Let_def maybe_evict_block)

lemma allocate_block_pop:
  assumes "allocate_block s = (Inr (Some b), s')" and "enable_caching s"
  shows "\<exists>t. popleft_lfu 8 s = (Inr b, t)"
  using assms by (auto simp: allocate_block_def split: if_splits prod.splits sum.splits)

text \<open>
  C1. Reachability: after every sequence of calls, those that raise included, in which no
  \<open>get_new_blocks\<close> (or \<open>allocate_blocks_for_tokens\<close>) ran out of unpinned blocks half way, the
  manager's invariant holds: the doubly linked free list is well formed, blocks are allocated
  with a positive reference count or free with count zero, the counters agree with the sets, and
  the chain-hash map files a block under exactly the hash it carries. The excluded failure
  breaks it, see \<open>get_new_blocks_leaks\<close>.
\<close>

theorem reachable_manager_invariant:
  assumes "reachable_manager sha s"
  shows "paged_inv s"
  by (rule reachable_inv [OF assms])

lemma reachable_manager_invariant_witness:
  "paged_inv (snd (allocate_block (fresh_manager 2 4 True :: nat manager)))"
  by (rule reachable_manager_invariant [where sha = "\<lambda>x. x", OF reachable_allocate])
    (simp add: fresh_manager_reachable)

text \<open>
  C2. In a state that keeps the invariant, allocation with caching on takes, among the first eight unpinned blocks of the free list,
  the first one that was used least often. The block was nobody's and is unpinned, gets
  reference count 1 and loses both its identities (so no prefix lookup can reach the old
  content), leaves the free list, and no other block changes but for its list pointers.
\<close>

theorem allocate_takes_least_used:
  assumes i: "paged_inv s" and free: "get_all_free_blocks s = Inr xs" and c: "enable_caching s"
    and a: "allocate_block s = (Inr (Some b), s')"
  shows "(\<exists>ys zs. take 8 (filter (\<lambda>x. \<not> is_pinned (heap s x)) xs) = ys @ b # zs \<and>
        (\<forall>y\<in>set ys. access_count (heap s b) < access_count (heap s y)) \<and>
        (\<forall>z\<in>set zs. access_count (heap s b) \<le> access_count (heap s z))) \<and>
      b \<notin> allocated_blocks s \<and> allocated_blocks s' = insert b (allocated_blocks s) \<and>
      ref_count (heap s' b) = 1 \<and> hash_value (heap s' b) = None \<and> block_hash (heap s' b) = None \<and>
      get_all_free_blocks s' = Inr (remove1 b xs) \<and>
      (\<forall>x. x \<noteq> b \<longrightarrow> core (heap s' x) = core (heap s x))"
proof -
  note p = free_list [OF i free] and sp = allocate_block_spec [OF free_list [OF i free] a]
  obtain t where "popleft_lfu 8 s = (Inr b, t)" using allocate_block_pop [OF a c] by blast
  note lfu.pop_rank [OF pinvxD(1) [OF p] this]
  moreover note free_list_is [OF sp(4)]
  moreover note only_block_core [OF sp(5)]
  ultimately show ?thesis using sp c by simp
qed

lemma allocate_takes_least_used_witness:
  "get_all_free_blocks (snd (allocate_block (fresh_manager 2 4 True :: nat manager))) = Inr (remove1 1 [1, 2, 3])"
proof -
  let ?s = "fresh_manager 2 4 True :: nat manager"
  have "fst (allocate_block ?s) = Inr (Some 1)" by code_simp
  then have "allocate_block ?s = (Inr (Some 1), snd (allocate_block ?s))" by (metis prod.collapse)
  moreover have "paged_inv ?s" by (rule fresh_manager_inv) simp
  moreover have "get_all_free_blocks ?s = Inr [1, 2, 3]" by code_simp
  moreover have "enable_caching ?s" by code_simp
  ultimately show ?thesis using allocate_takes_least_used [of ?s "[1, 2, 3]" 1] by blast
qed

text \<open>
  C4. Forking a request's block table and deleting the fork again is a no-op on ownership: the
  fork lists the same blocks and holds one reference per entry, and after the delete every
  block but the null block has its old reference count and content, the same blocks are
  allocated and the same requests have tables.
\<close>

theorem fork_then_delete_restores:
  assumes i: "paged_inv s" and n: "request_tables s rid = None"
    and f: "fork_block_table a rid s = (Inr a', s1)"
  shows "block_ids (table_store s1 a') = block_ids (table_store s a) \<and> request_tables s1 rid = Some a' \<and>
    (\<forall>b\<in>allocated_blocks s. ref s1 b = ref s b + int (count_list (block_ids (table_store s a)) b)) \<and>
    (\<exists>s2. delete_block_table rid s1 = (Inr (), s2) \<and> paged_inv s2 \<and>
       (\<forall>b. b \<noteq> null_block s \<longrightarrow> ref s2 b = ref s b) \<and> inert s s2 \<and>
       allocated_blocks s2 = allocated_blocks s \<and> request_tables s2 = request_tables s)"
proof -
  from fork_block_table_spec [OF i n, of a] f have
    s1: "a' = next_table s" "paged_inv s1" "inert s s1"
      "table_store s1 = (table_store s)(next_table s := table_copy rid (table_store s a))"
      "request_tables s1 = (request_tables s)(rid \<mapsto> next_table s)"
      "allocated_blocks s1 = allocated_blocks s"
    and r1: "\<forall>i. ref s1 i = (if i \<in> allocated_blocks s
        then ref s i + int (count_list (block_ids (table_store s a)) i) else ref s i)" by auto
  have bi: "block_ids (table_store s1 a') = block_ids (table_store s a)"
    by (simp add: s1(1,4) table_copy_def)
  have h: "held s1 i \<longleftrightarrow> i \<in> allocated_blocks s \<and> i \<noteq> null_block s" for i
    using inert_fields(5) [OF s1(3)] by (simp add: held_def s1(6))
  have pos: "0 < ref s i" if "i \<in> allocated_blocks s" for i
    using i that by (auto simp: paged_inv_def pinvx_def)
  have t1: "request_tables s1 rid = Some a'" using s1(1,5) by simp
  have le: "\<forall>i. held s1 i \<longrightarrow> int (count_list (block_ids (table_store s1 a')) i) \<le> ref s1 i"
    using pos by (auto simp: h r1 bi less_imp_le)
  from delete_block_table_spec [OF s1(2) t1 le] obtain s2 where
    s2: "delete_block_table rid s1 = (Inr (), s2)" "paged_inv s2" "inert s1 s2"
      "request_tables s2 = (request_tables s1)(rid := None)"
      "\<forall>i. ref s2 i = (if held s1 i then ref s1 i - int (count_list (block_ids (table_store s a)) i) else ref s1 i)"
      "allocated_blocks s2 = {i \<in> allocated_blocks s1. held s1 i \<longrightarrow> int (count_list (block_ids (table_store s a)) i) < ref s1 i}"
    unfolding bi by blast
  have "allocated_blocks s2 = allocated_blocks s" using pos by (auto simp: s2(6) s1(6) r1)
  moreover have "request_tables s2 = request_tables s" using n by (simp add: s2(4) s1(5) fun_eq_iff)
  moreover have "\<forall>b. b \<noteq> null_block s \<longrightarrow> ref s2 b = ref s b" by (simp add: s2(5) r1 h)
  ultimately show ?thesis using s2(1,2) t1 bi r1 inert_trans [OF s1(3) s2(3)] by simp
qed

text \<open>A manager whose request has two blocks.\<close>

definition two_blocks :: "nat manager" where
  "two_blocks = snd (get_new_blocks 2 (fresh_manager 2 6 True))"

definition demo_manager :: "nat manager" where
  "demo_manager =
     add_block_to_table 0 2 2 (add_block_to_table 0 1 2 (snd (create_block_table ''r'' two_blocks)))"

lemma two_blocks_returned: "get_new_blocks 2 (fresh_manager 2 6 True) = (Inr [1, 2], two_blocks)"
  unfolding two_blocks_def by (rule fst_pair) code_simp

lemma two_blocks_inv: "paged_inv two_blocks"
  by (rule get_new_blocks_inv [OF _ _ two_blocks_returned]) (simp_all add: fresh_manager_inv)

lemma demo_manager_inv: "paged_inv demo_manager"
proof -
  have "paged_inv (snd (create_block_table ''r'' two_blocks))"
    using create_block_table_returns [OF two_blocks_inv, of "''r''"] by auto
  then show ?thesis
    unfolding demo_manager_def by (intro hard_eq_paged_inv [OF _ add_block_to_table_hard])
qed

lemma fork_then_delete_restores_witness:
  "request_tables (snd (delete_block_table ''q'' (snd (fork_block_table 0 ''q'' demo_manager)))) =
     request_tables demo_manager"
proof -
  let ?f = "fork_block_table 0 ''q'' demo_manager"
  have "request_tables demo_manager ''q'' = None" by code_simp
  moreover have "?f = (Inr 1, snd ?f)"
    by (rule fst_pair) code_simp
  ultimately show ?thesis
    using fork_then_delete_restores [OF demo_manager_inv, of "''q''" 0 1 "snd ?f"] by auto
qed

section \<open>Allocating several blocks\<close>

lemma claim_block_spec:
  "allocated_blocks (claim_block b s) = insert b (allocated_blocks s)"
  "ref (claim_block b s) i = (if i = b then 1 else ref s i)"
  "is_pinned (heap (claim_block b s) i) = is_pinned (heap s i)"
  by (simp_all add: claim_block_def Let_def maybe_evict_block)

lemma fold_claim_spec:
  "allocated_blocks (fold claim_block bs s) = allocated_blocks s \<union> set bs"
  "ref (fold claim_block bs s) i = (if i \<in> set bs then 1 else ref s i)"
  by (induction bs arbitrary: s) (auto simp: claim_block_spec)

text \<open>
  Allocating \<open>n\<close> blocks is all or nothing where enough free blocks are unpinned: the
  result is the first \<open>n\<close> unpinned blocks of the free list, all different, none in use
  before; each now has one reference, and the others stay free in their order.
\<close>

theorem get_new_blocks_takes_first_unpinned:
  assumes i: "paged_inv s" and free: "get_all_free_blocks s = Inr xs" and n: "0 \<le> n"
    and le: "n \<le> int (length (filter (\<lambda>b. \<not> is_pinned (heap s b)) xs))"
    and t: "t = take (nat n) (filter (\<lambda>b. \<not> is_pinned (heap s b)) xs)"
  shows "\<exists>s'. get_new_blocks n s = (Inr t, s') \<and> paged_inv s' \<and>
    int (length t) = n \<and> distinct t \<and> set t \<inter> allocated_blocks s = {} \<and>
    allocated_blocks s' = allocated_blocks s \<union> set t \<and> (\<forall>b\<in>set t. ref s' b = 1) \<and>
    (\<forall>b\<in>allocated_blocks s. ref s' b = ref s b) \<and>
    get_all_free_blocks s' = Inr (filter (\<lambda>b. b \<notin> set t) xs)"
proof -
  note p = free_list [OF i free]
  note q = pinvxD(1) [OF p]
  have u: "filter (\<lambda>b. \<not> is_pinned (heap s b)) xs = unpinned s xs" by (simp add: unpinned_def)
  from popleft_n_ok [OF q n le [unfolded u]] obtain s1 where
    s1: "popleft_n n s = (Inr t, s1)" "qinv s1 (filter (\<lambda>b. b \<notin> set t) xs)" "same_core s s1"
    unfolding t u by blast
  note m = same_core_manager [OF s1(3)] and f = same_core_fields [OF s1(3)]
  let ?s' = "count_alloc n (fold claim_block t s1)"
  have "n \<le> num_free_blocks s"
    using le qinvD(2) [OF q] length_filter_le [of "\<lambda>b. \<not> is_pinned (heap s b)" xs] by linarith
  then have eq: "get_new_blocks n s = (Inr t, ?s')" by (simp add: get_new_blocks_def s1(1))
  have sub: "set t \<subseteq> set xs"
    unfolding t using set_take_subset [of "nat n" "filter (\<lambda>b. \<not> is_pinned (heap s b)) xs"] by auto
  have len: "int (length t) = n" unfolding t using n le by simp
  have dt: "distinct t" unfolding t using qinv_distinct [OF q] by simp
  have "pinvx s1 (filter (\<lambda>b. b \<notin> set t) xs) (set t) 0"
    by (rule pinvx_queue [OF p s1(3,2)]) (use sub in auto)
  from fold_claim_pinvx [OF this, of t] dt len
  have "pinvx (fold claim_block t s1) (filter (\<lambda>b. b \<notin> set t) xs) {} n" by simp
  then have p': "pinvx ?s' (filter (\<lambda>b. b \<notin> set t) xs) {} 0"
    using pinvx_count [of "fold claim_block t s1" _ "{}" n n] by simp
  have dj: "set t \<inter> allocated_blocks s = {}" using sub pinvxD(2) [OF p] by blast
  then have "\<forall>b\<in>allocated_blocks s. ref ?s' b = ref s b" by (auto simp: fold_claim_spec f)
  then show ?thesis
    using eq p' free_list_is [OF p'] len dt dj by (auto simp: paged_inv_def fold_claim_spec m)
qed

lemma get_new_blocks_takes_first_unpinned_witness:
  "\<exists>s'. get_new_blocks 2 (fresh_manager 2 4 True :: nat manager) = (Inr [1, 2], s') \<and> distinct [1 :: int, 2]"
proof -
  let ?s = "fresh_manager 2 4 True :: nat manager"
  have "paged_inv ?s" by (rule fresh_manager_inv) simp
  moreover have "get_all_free_blocks ?s = Inr [1, 2, 3]" by code_simp
  moreover have f: "filter (\<lambda>b. \<not> is_pinned (heap ?s b)) [1, 2, 3] = [1, 2, 3]" by code_simp
  ultimately show ?thesis
    using get_new_blocks_takes_first_unpinned [of ?s "[1, 2, 3]" 2 "[1, 2]"] by auto
qed

text \<open>
  The failure path of \<open>get_new_blocks\<close> leaks: when the free list is long enough but too many
  of its blocks are pinned, the call raises \<open>AssertionError\<close> after it has taken every unpinned
  block out of the list. The list is left with the pinned blocks only while the counter still
  counts them all, and the blocks taken are neither free nor allocated.
\<close>

theorem get_new_blocks_leaks:
  assumes i: "paged_inv s" and free: "get_all_free_blocks s = Inr xs"
    and few: "int (length (filter (\<lambda>b. \<not> is_pinned (heap s b)) xs)) < n" and n: "n \<le> int (length xs)"
  shows "\<exists>s'. get_new_blocks n s = (Inl AssertionError, s') \<and>
    get_all_free_blocks s' = Inr (filter (\<lambda>b. is_pinned (heap s b)) xs) \<and>
    num_free_blocks s' = int (length xs) \<and> allocated_blocks s' = allocated_blocks s \<and>
    ((\<exists>b\<in>set xs. \<not> is_pinned (heap s b)) \<longrightarrow> \<not> paged_inv s')"
proof -
  note p = free_list [OF i free]
  note q = pinvxD(1) [OF p]
  from popleft_n_pinned_leak [OF q n] few obtain s' where
    s': "popleft_n n s = (Inl AssertionError, s')" "qseg s' (filter (\<lambda>b. is_pinned (heap s b)) xs)"
      "same_core s s'" "num_free_blocks s' = int (length xs)" by (auto simp: unpinned_def)
  have eq: "get_new_blocks n s = (Inl AssertionError, s')"
    using n qinvD(2) [OF q] s'(1) by (simp add: get_new_blocks_def)
  have "get_all_free_blocks s' = Inr (filter (\<lambda>b. is_pinned (heap s b)) xs)"
    unfolding get_all_free_blocks_def dseg_first [OF qsegD(1) [OF s'(2)], symmetric]
    by (rule collect_free_walk [OF qsegD(1) [OF s'(2)] qseg_no_tail [OF s'(2)]])
      (simp add: fuel_of_def s'(4) le_imp_less_Suc)
  moreover have "\<not> paged_inv s'" if b: "b \<in> set xs" "\<not> is_pinned (heap s b)" for b
  proof
    assume "paged_inv s'"
    then have "pinvx s' (filter (\<lambda>b. is_pinned (heap s b)) xs) {} 0" by (rule free_list) fact
    then have "int (length xs) = int (length (filter (\<lambda>b. is_pinned (heap s b)) xs))"
      using qinvD(2) [OF pinvxD(1)] s'(4) by metis
    then show False using b length_filter_less [of b xs "\<lambda>b. is_pinned (heap s b)"] by simp
  qed
  ultimately show ?thesis using eq s'(4) same_core_manager(9) [OF s'(3)] by auto
qed

text \<open>One free block of two is pinned.\<close>

definition pinned_manager :: "nat manager" where
  "pinned_manager =
     (let s = snd (get_new_blocks 1 (fresh_manager 2 3 True))
      in snd (free_block 1 (snd (pin_blocks [1] s))))"

lemma pinned_manager_inv: "paged_inv pinned_manager"
proof -
  have "get_new_blocks 1 (fresh_manager 2 3 True :: nat manager) =
      (Inr [1], snd (get_new_blocks 1 (fresh_manager 2 3 True)))"
    by (rule fst_pair) code_simp
  then have "paged_inv (snd (get_new_blocks 1 (fresh_manager 2 3 True)) :: nat manager)"
    by (rule get_new_blocks_inv [rotated 2]) (simp_all add: fresh_manager_inv)
  then show ?thesis
    using free_block_inv hard_eq_paged_inv [OF _ pin_loop_hard]
    unfolding pinned_manager_def pin_blocks_def Let_def by blast
qed

lemma get_new_blocks_leaks_witness:
  "get_all_free_blocks (snd (get_new_blocks 2 pinned_manager)) = Inr [1]"
proof -
  have "get_all_free_blocks pinned_manager = Inr [2, 1]" by code_simp
  moreover have "filter (\<lambda>b. \<not> is_pinned (heap pinned_manager b)) [2, 1] = [2]" by code_simp
  moreover have "filter (\<lambda>b. is_pinned (heap pinned_manager b)) [2, 1] = [1]" by code_simp
  ultimately show ?thesis
    using get_new_blocks_leaks [OF pinned_manager_inv, of "[2, 1]" 2] by auto
qed

end
