(* ===== verification/PagedPrefix.thy ===== *)
theory PagedPrefix
  imports PagedCorrect
begin

text \<open>
  The two prefix indexes of the manager. \<open>chain_hash\<close> is the specification of the chain-hash
  index (each block's hash covers all tokens before it), \<open>serves\<close> that of the identity index used
  by \<open>find_shared_prefix\<close>. Both lookups return the longest prefix their index covers, and caching
  a prompt's full blocks makes every prompt that extends it find them.
\<close>

section \<open>Chain hashes\<close>

fun chain_hash :: "(bytes \<Rightarrow> digest) \<Rightarrow> nat \<Rightarrow> int list \<Rightarrow> nat \<Rightarrow> digest option" where
  "chain_hash sha n toks 0 = None"
| "chain_hash sha n toks (Suc k) =
     Some (compute_block_hash sha (chain_hash sha n toks k) (slice toks (k * n) (k * n + n)) None)"

lemma chain_hash_cong:
  "take (k * n) toks = take (k * n) toks' \<Longrightarrow> chain_hash sha n toks k = chain_hash sha n toks' k"
proof (induction k)
  case (Suc k)
  have "take (k * n) toks = take (k * n) toks'"
    using arg_cong [OF Suc.prems, of "take (k * n)"] by (simp add: min_def split: if_splits)
  moreover have "slice toks (k * n) (k * n + n) = slice toks' (k * n) (k * n + n)"
    using arg_cong [OF Suc.prems, of "drop (k * n)"] by (simp add: slice_def drop_take)
  ultimately show ?case using Suc.IH by simp
qed simp

text \<open>The hit counters are all that a chain lookup changes.\<close>

definition counted :: "'t manager \<Rightarrow> 't manager \<Rightarrow> bool" where
  "counted s s' \<longleftrightarrow> heap s' = heap s \<and> cached_map s' = cached_map s \<and> block_size s' = block_size s \<and>
     max_blocks s' = max_blocks s"

lemma counted_refl [simp]: "counted s s" "counted s (hit s)" "counted s (miss s)"
  by (simp_all add: counted_def hit_def miss_def)

lemma counted_trans: "counted s t \<Longrightarrow> counted t u \<Longrightarrow> counted s u"
  by (simp add: counted_def)

definition filed :: "'t manager \<Rightarrow> digest option \<Rightarrow> bid set" where
  "filed s h = {b \<in> all_blocks s. h \<noteq> None \<and> block_hash (heap s b) = h}"

lemma filed_counted: "counted s s' \<Longrightarrow> filed s' h = filed s h"
  by (simp add: filed_def counted_def all_blocks_def)

lemma best_block_filed:
  assumes "paged_inv s"
  shows "get_best_block (heap s) (cached_map s) h = None \<longleftrightarrow> filed s (Some h) = {}"
    and "get_best_block (heap s) (cached_map s) h = Some b \<Longrightarrow> b \<in> filed s (Some h) \<and>
      (\<forall>c\<in>filed s (Some h). access_count (heap s c) \<le> access_count (heap s b))"
proof -
  from assms obtain xs where p: "pinvx s xs {} 0" by (auto simp: paged_inv_def)
  note d = pinvxD [OF p]
  have m: "bh_members (cached_map s) h = filed s (Some h)"
    using d(11) by (auto simp: filed_def claim_def split: if_splits)
  show "get_best_block (heap s) (cached_map s) h = None \<longleftrightarrow> filed s (Some h) = {}"
    using get_best_block_member(1) [OF d(10), of "heap s" h] m by simp
  show "get_best_block (heap s) (cached_map s) h = Some b \<Longrightarrow> b \<in> filed s (Some h) \<and>
      (\<forall>c\<in>filed s (Some h). access_count (heap s c) \<le> access_count (heap s b))"
    using get_best_block_member(2,3) [OF d(10), of "heap s" h] m by blast
qed

lemma computed_loop_spec:
  assumes "paged_inv s" and "k + length is = m" and "is = [k..<m]"
  shows "\<exists>bs s'. computed_loop sha toks is (chain_hash sha (block_size s) toks k) acc s = (acc @ bs, s') \<and>
     counted s s' \<and> k + length bs \<le> m \<and>
     (\<forall>j<length bs. bs ! j \<in> filed s (chain_hash sha (block_size s) toks (Suc (k + j))) \<and>
        (\<forall>c\<in>filed s (chain_hash sha (block_size s) toks (Suc (k + j))).
           access_count (heap s c) \<le> access_count (heap s (bs ! j)))) \<and>
     (k + length bs < m \<longrightarrow> filed s (chain_hash sha (block_size s) toks (Suc (k + length bs))) = {})"
  using assms
proof (induction "is" arbitrary: k acc s)
  case Nil
  then show ?case by (intro exI [of _ "[]"] exI [of _ s]) simp
next
  case (Cons i js)
  then have i: "i = k" and js: "js = [Suc k..<m]" and km: "k < m"
    by (auto simp: upt_rec [of k] split: if_splits)
  let ?h = "compute_block_hash sha (chain_hash sha (block_size s) toks k)
      (slice toks (k * block_size s) (k * block_size s + block_size s)) None"
  show ?case
  proof (cases "get_best_block (heap s) (cached_map s) ?h")
    case None
    then have "filed s (Some ?h) = {}" using best_block_filed(1) [OF Cons.prems(1)] by blast
    then show ?thesis
      using None km by (intro exI [of _ "[]"] exI [of _ "miss s"]) (simp add: i Let_def)
  next
    case (Some b)
    note bb = best_block_filed(2) [OF Cons.prems(1) Some]
    have c: "counted s (hit s)" by simp
    have inv: "paged_inv (hit s)" using Cons.prems(1) hard_eq_paged_inv hard_eq_hit_miss(1) by blast
    have bs: "block_size (hit s) = block_size s" "heap (hit s) = heap s" by (simp_all add: hit_def)
    obtain cs s' where l: "computed_loop sha toks js (chain_hash sha (block_size s) toks (Suc k))
          (acc @ [b]) (hit s) = ((acc @ [b]) @ cs, s')" "counted (hit s) s'" "Suc k + length cs \<le> m"
      and r: "\<forall>j<length cs. cs ! j \<in> filed s (chain_hash sha (block_size s) toks (Suc (Suc k + j))) \<and>
        (\<forall>c\<in>filed s (chain_hash sha (block_size s) toks (Suc (Suc k + j))).
           access_count (heap s c) \<le> access_count (heap s (cs ! j)))"
      and e: "Suc k + length cs < m \<longrightarrow>
        filed s (chain_hash sha (block_size s) toks (Suc (Suc k + length cs))) = {}"
      using Cons.IH [OF inv, of "Suc k" "acc @ [b]"] js km unfolding bs filed_counted [OF c] by auto
    have "computed_loop sha toks (i # js) (chain_hash sha (block_size s) toks k) acc s = (acc @ (b # cs), s')"
      using Some l(1) by (simp add: i Let_def)
    moreover have "counted s s'" using counted_trans [OF c l(2)] .
    moreover have "\<forall>j<length (b # cs). (b # cs) ! j \<in> filed s (chain_hash sha (block_size s) toks (Suc (k + j))) \<and>
        (\<forall>c\<in>filed s (chain_hash sha (block_size s) toks (Suc (k + j))).
           access_count (heap s c) \<le> access_count (heap s ((b # cs) ! j)))"
      using r bb by (auto simp: less_Suc_eq_0_disj simp del: One_nat_def)
    ultimately show ?thesis
      using l(3) e by (intro exI [of _ "b # cs"] exI [of _ s']) simp
  qed
qed

text \<open>
  \<open>get_computed_blocks\<close> returns the longest run of full blocks of the prompt that the cache
  holds: the \<open>k\<close>-th block returned carries the chain hash of the first \<open>k + 1\<close> blocks of tokens and
  is the most used one that does, the token count is the blocks times the block size, and
  either every full block was found or no block carries the next chain hash.
\<close>

theorem get_computed_blocks_longest:
  assumes "paged_inv s" and "enable_caching s" and "0 < block_size s"
  shows "\<exists>bs s'. get_computed_blocks sha toks s = (Inr (bs, length bs * block_size s), s') \<and>
    length bs * block_size s \<le> length toks \<and>
    (\<forall>k<length bs. bs ! k \<in> filed s (chain_hash sha (block_size s) toks (Suc k)) \<and>
       (\<forall>c\<in>filed s (chain_hash sha (block_size s) toks (Suc k)).
          access_count (heap s c) \<le> access_count (heap s (bs ! k)))) \<and>
    (length bs = length toks div block_size s \<or>
       filed s (chain_hash sha (block_size s) toks (Suc (length bs))) = {})"
proof -
  let ?m = "length toks div block_size s"
  from computed_loop_spec [OF assms(1), of 0 "[0..<?m]" ?m sha toks "[]"] obtain bs s' where
    l: "computed_loop sha toks [0..<?m] None [] s = (bs, s')" "length bs \<le> ?m"
      "\<forall>j<length bs. bs ! j \<in> filed s (chain_hash sha (block_size s) toks (Suc j)) \<and>
        (\<forall>c\<in>filed s (chain_hash sha (block_size s) toks (Suc j)).
           access_count (heap s c) \<le> access_count (heap s (bs ! j)))"
      "length bs < ?m \<longrightarrow> filed s (chain_hash sha (block_size s) toks (Suc (length bs))) = {}"
    by auto
  have "length bs * block_size s \<le> ?m * block_size s" using l(2) by simp
  also have "\<dots> \<le> length toks" by simp
  finally show ?thesis
    using l assms(2,3) by (intro exI [of _ bs] exI [of _ s']) (auto simp: get_computed_blocks_def)
qed

lemma get_computed_blocks_longest_witness:
  "\<exists>bs s'. get_computed_blocks (\<lambda>x. x) [7, 8] (fresh_manager 2 4 True :: nat manager) =
     (Inr (bs, length bs * 2), s')"
proof -
  let ?s = "fresh_manager 2 4 True :: nat manager"
  have "paged_inv ?s" by (rule fresh_manager_inv) simp
  moreover have "enable_caching ?s" "block_size ?s = 2" by code_simp+
  ultimately show ?thesis using get_computed_blocks_longest [of ?s "\<lambda>x. x" "[7, 8]"] by auto
qed

section \<open>Caching full blocks\<close>

lemma token_bytes_slice:
  assumes "token_bytes toks = Inr h"
  shows "\<exists>c. token_bytes (slice toks i j) = Inr c"
proof -
  have "toks = take i toks @ (slice toks i j @ drop (j - i) (drop i toks))"
    by (simp only: slice_def append_take_drop_id)
  then show ?thesis
    using assms token_bytes_append [of "take i toks" "slice toks i j @ drop (j - i) (drop i toks)"]
      token_bytes_append [of "slice toks i j" "drop (j - i) (drop i toks)"]
    by (auto split: sum.splits)
qed

lemma cache_loop_spec:
  assumes "m \<le> length blocks" and "distinct (take m blocks)" and "token_bytes toks = Inr tb"
    and "k + length is = m" and "is = [k..<m]"
    and "\<forall>j<m. k \<le> j \<longrightarrow> block_hash (heap s (blocks ! j)) \<in> {None, chain_hash sha (block_size s) toks (Suc j)}"
  shows "\<exists>s'. cache_loop sha blocks toks is (chain_hash sha (block_size s) toks k) s = (Inr (), s') \<and>
     block_size s' = block_size s \<and> max_blocks s' = max_blocks s \<and> enable_caching s' = enable_caching s \<and>
     (\<forall>j<m. k \<le> j \<longrightarrow> block_hash (heap s' (blocks ! j)) = chain_hash sha (block_size s) toks (Suc j)) \<and>
     (\<forall>b. b \<notin> set (drop k (take m blocks)) \<longrightarrow> heap s' b = heap s b)"
  using assms(4-6)
proof (induction "is" arbitrary: k s)
  case Nil
  then show ?case by (intro exI [of _ s]) simp
next
  case (Cons i js)
  then have i: "i = k" and js: "js = [Suc k..<m]" and km: "k < m"
    by (auto simp: upt_rec [of k] split: if_splits)
  let ?b = "blocks ! k" and ?n = "block_size s"
  let ?H = "chain_hash sha ?n toks (Suc k)"
  let ?toks = "slice toks (k * ?n) (k * ?n + ?n)"
  have kb: "k < length blocks" using km assms(1) by simp
  have other: "blocks ! j \<noteq> ?b" if "j < m" "j \<noteq> k" for j
    using that km assms(1,2) by (auto simp: distinct_conv_nth)
  have dr: "drop k (take m blocks) = ?b # drop (Suc k) (take m blocks)"
    using km assms(1) by (simp add: Cons_nth_drop_Suc [symmetric])
  obtain c where c: "token_bytes ?toks = Inr c" using token_bytes_slice [OF assms(3)] by blast
  show ?case
  proof (cases "block_hash (heap s ?b)")
    case (Some h)
    then have h: "?H = Some h" using Cons.prems(3) km by force
    have "\<exists>s'. cache_loop sha blocks toks js ?H s = (Inr (), s') \<and>
       block_size s' = ?n \<and> max_blocks s' = max_blocks s \<and> enable_caching s' = enable_caching s \<and>
       (\<forall>j<m. Suc k \<le> j \<longrightarrow> block_hash (heap s' (blocks ! j)) = chain_hash sha ?n toks (Suc j)) \<and>
       (\<forall>b. b \<notin> set (drop (Suc k) (take m blocks)) \<longrightarrow> heap s' b = heap s b)"
      using Cons.prems km js by (intro Cons.IH) auto
    then obtain s' where s': "cache_loop sha blocks toks js ?H s = (Inr (), s')"
       "block_size s' = ?n" "max_blocks s' = max_blocks s" "enable_caching s' = enable_caching s"
       "\<forall>j<m. Suc k \<le> j \<longrightarrow> block_hash (heap s' (blocks ! j)) = chain_hash sha ?n toks (Suc j)"
       "\<forall>b. b \<notin> set (drop (Suc k) (take m blocks)) \<longrightarrow> heap s' b = heap s b" by blast
    have "?b \<notin> set (drop (Suc k) (take m blocks))"
      using distinct_drop [OF assms(2), of k] unfolding dr by simp
    then have "block_hash (heap s' ?b) = ?H" using s'(6) Some h by simp
    then show ?thesis
      using s' Some h kb km
      by (intro exI [of _ s']) (auto simp: i dr le_Suc_eq not_less_eq_eq intro: le_antisym)
  next
    case None
    let ?h = "the ?H"
    let ?s1 = "upd_block ?b (\<lambda>x. x\<lparr>block_hash := Some ?h, token_count := int (length ?toks)\<rparr>) s"
    let ?s2 = "?s1\<lparr>cached_map := bh_insert ?h ?b (cached_map ?s1)\<rparr>"
    let ?lh = "take 16 (hexdigest (sha c))"
    let ?s3 = "upd_block ?b (\<lambda>x. x\<lparr>hash_value := Some ?lh\<rparr>) ?s2"
    let ?s4 = "?s3\<lparr>hash_to_block := (hash_to_block ?s3)(?lh \<mapsto> ?b)\<rparr>"
    have f4: "block_size ?s4 = ?n" "max_blocks ?s4 = max_blocks s" "enable_caching ?s4 = enable_caching s"
      "block_hash (heap ?s4 ?b) = ?H" "\<And>x. x \<noteq> ?b \<Longrightarrow> heap ?s4 x = heap s x" by simp_all
    have "\<exists>s'. cache_loop sha blocks toks js (chain_hash sha (block_size ?s4) toks (Suc k)) ?s4 = (Inr (), s') \<and>
       block_size s' = block_size ?s4 \<and> max_blocks s' = max_blocks ?s4 \<and> enable_caching s' = enable_caching ?s4 \<and>
       (\<forall>j<m. Suc k \<le> j \<longrightarrow> block_hash (heap s' (blocks ! j)) = chain_hash sha (block_size ?s4) toks (Suc j)) \<and>
       (\<forall>b. b \<notin> set (drop (Suc k) (take m blocks)) \<longrightarrow> heap s' b = heap ?s4 b)"
    proof (intro Cons.IH)
      show "Suc k + length js = m" "js = [Suc k..<m]" using Cons.prems(1) js by simp_all
      show "\<forall>j<m. Suc k \<le> j \<longrightarrow> block_hash (heap ?s4 (blocks ! j)) \<in>
          {None, chain_hash sha (block_size ?s4) toks (Suc j)}"
        using Cons.prems(3) other f4(5) by (simp del: chain_hash.simps)
    qed
    then obtain s' where s': "cache_loop sha blocks toks js ?H ?s4 = (Inr (), s')"
       "block_size s' = ?n" "max_blocks s' = max_blocks s" "enable_caching s' = enable_caching s"
       "\<forall>j<m. Suc k \<le> j \<longrightarrow> block_hash (heap s' (blocks ! j)) = chain_hash sha ?n toks (Suc j)"
       "\<forall>b. b \<notin> set (drop (Suc k) (take m blocks)) \<longrightarrow> heap s' b = heap ?s4 b"
      unfolding f4(1-3) by blast
    have eq: "cache_loop sha blocks toks (i # js) (chain_hash sha ?n toks k) s = (Inr (), s')"
      using s'(1) None kb c by (simp add: i Let_def legacy_block_hash_def)
    have "?b \<notin> set (drop (Suc k) (take m blocks))"
      using distinct_drop [OF assms(2), of k] unfolding dr by simp
    then have "block_hash (heap s' ?b) = ?H" using s'(6) f4(4) by simp
    then have "\<forall>j<m. k \<le> j \<longrightarrow> block_hash (heap s' (blocks ! j)) = chain_hash sha ?n toks (Suc j)"
      using s'(5) le_neq_implies_less Suc_leI by metis
    moreover have "\<forall>b. b \<notin> set (drop k (take m blocks)) \<longrightarrow> heap s' b = heap s b"
      using s'(6) f4(5) by (simp add: dr)
    ultimately show ?thesis using eq s'(2-4) by blast
  qed
qed

text \<open>
  What \<open>cache_full_blocks\<close> registers, \<open>get_computed_blocks\<close> finds: after the first \<open>m\<close> blocks of a
  prompt have been cached, looking up any prompt that starts with the same \<open>m\<close> blocks of tokens
  returns at least \<open>m\<close> blocks, and the \<open>k\<close>-th carries the hash the \<open>k\<close>-th cached block was given.
  A block already carrying its hash may be passed again; the call ends with no exception
  because the tokens encode in four bytes.
\<close>

theorem cache_then_compute:
  assumes i: "paged_inv s" and c: "enable_caching s" and n: "0 < block_size s"
    and bl: "set blocks \<subseteq> all_blocks s" "m \<le> length blocks" "distinct (take m blocks)" "0 < m"
    and tb: "token_bytes toks = Inr tb"
    and fresh: "\<forall>k<m. block_hash (heap s (blocks ! k)) \<in> {None, chain_hash sha (block_size s) toks (Suc k)}"
    and ext: "take (m * block_size s) toks' = take (m * block_size s) toks" "m * block_size s \<le> length toks'"
  shows "\<exists>s'. cache_full_blocks sha blocks toks 0 m s = (Inr (), s') \<and>
    (\<exists>bs s''. get_computed_blocks sha toks' s' = (Inr (bs, length bs * block_size s), s'') \<and>
       m \<le> length bs \<and> (\<forall>k<m. block_hash (heap s' (bs ! k)) = block_hash (heap s' (blocks ! k))))"
proof -
  let ?n = "block_size s"
  from cache_loop_spec [OF bl(2,3) tb, of 0 "[0..<m]" s sha] fresh obtain s' where
    l: "cache_loop sha blocks toks [0..<m] None s = (Inr (), s')" "block_size s' = ?n"
      "max_blocks s' = max_blocks s" "enable_caching s' = enable_caching s"
      "\<forall>j<m. block_hash (heap s' (blocks ! j)) = chain_hash sha ?n toks (Suc j)" by auto
  have eq: "cache_full_blocks sha blocks toks 0 m s = (Inr (), s')"
    using c bl(4) l(1) by (simp add: cache_full_blocks_def)
  have i': "paged_inv s'" using cache_full_blocks_inv [OF i bl(1), of sha toks 0 m] eq by simp
  have ch: "chain_hash sha ?n toks' (Suc j) = chain_hash sha ?n toks (Suc j)" if "j < m" for j
  proof (rule chain_hash_cong)
    have "Suc j * ?n \<le> m * ?n" using that by (intro mult_le_mono1) simp
    then show "take (Suc j * ?n) toks' = take (Suc j * ?n) toks"
      using arg_cong [OF ext(1), of "take (Suc j * ?n)"] by (simp add: min_absorb1)
  qed
  from get_computed_blocks_longest [OF i', of sha toks'] l(2,4) c n obtain bs s'' where
    g: "get_computed_blocks sha toks' s' = (Inr (bs, length bs * ?n), s'')"
      "\<forall>k<length bs. bs ! k \<in> filed s' (chain_hash sha ?n toks' (Suc k))"
      "length bs = length toks' div ?n \<or> filed s' (chain_hash sha ?n toks' (Suc (length bs))) = {}"
    by auto
  have "m \<le> length bs"
  proof (rule ccontr)
    assume "\<not> m \<le> length bs"
    then have lt: "length bs < m" by simp
    moreover have "m \<le> length toks' div ?n" using ext(2) n by (simp add: less_eq_div_iff_mult_less_eq)
    ultimately have e: "filed s' (chain_hash sha ?n toks (Suc (length bs))) = {}" using g(3) ch [OF lt] by simp
    have "blocks ! length bs \<in> set blocks" using lt bl(2) by (intro nth_mem) simp
    then have "blocks ! length bs \<in> all_blocks s'" using bl(1) l(3) by (auto simp: all_blocks_def)
    then have "blocks ! length bs \<in> filed s' (chain_hash sha ?n toks (Suc (length bs)))"
      using l(5) lt by (simp add: filed_def)
    with e show False by blast
  qed
  then show ?thesis
    using eq g(1,2) l(5) ch by (intro exI [of _ s'] conjI exI [of _ bs] exI [of _ s'']) (auto simp: filed_def simp del: chain_hash.simps)
qed

lemma cache_then_compute_witness:
  "\<exists>s'. cache_full_blocks (\<lambda>x. x) [1, 2] [7, 8, 9, 7] 0 2 two_blocks = (Inr (), s')"
proof -
  have "enable_caching two_blocks" "block_size two_blocks = 2" "max_blocks two_blocks = 6"
    "block_hash (heap two_blocks 1) = None" "block_hash (heap two_blocks 2) = None" by code_simp+
  moreover obtain tb where "token_bytes [7, 8, 9, 7] = Inr tb" by (simp add: to_bytes4_def Let_def)
  ultimately have "\<exists>s'. cache_full_blocks (\<lambda>x. x) [1, 2] [7, 8, 9, 7] 0 2 two_blocks = (Inr (), s') \<and>
    (\<exists>bs s''. get_computed_blocks (\<lambda>x. x) [7, 8, 9, 7, 5] s' = (Inr (bs, length bs * block_size two_blocks), s'') \<and>
       2 \<le> length bs \<and> (\<forall>k<2. block_hash (heap s' (bs ! k)) = block_hash (heap s' ([1, 2] ! k))))"
    by (intro cache_then_compute [OF two_blocks_inv])
      (simp_all add: all_blocks_def less_Suc_eq numeral_2_eq_2 del: token_bytes.simps)
  then show ?thesis by blast
qed

section \<open>The identity index\<close>

text \<open>Block \<open>b\<close> is registered, current and full for the first \<open>k + 1\<close> blocks of \<open>toks\<close>.\<close>

definition serves :: "(bytes \<Rightarrow> digest) \<Rightarrow> 't manager \<Rightarrow> int list \<Rightarrow> nat \<Rightarrow> bid \<Rightarrow> bool" where
  "serves sha s toks k b \<longleftrightarrow>
     (let h = identity sha (take (Suc k * block_size s) toks) in
      hash_to_block s h = Some b \<and> b \<in> allocated_blocks s \<and> hash_value (heap s b) = Some h \<and>
      token_count (heap s b) = int (block_size s))"

lemma serves_inert:
  assumes "inert s s'" and "allocated_blocks s' = allocated_blocks s"
  shows "serves sha s' = serves sha s"
  unfolding serves_def fun_eq_iff Let_def inert_fields [OF assms(1)] inert_content [OF assms(1)] assms(2) by simp

lemma find_by_hash_result:
  assumes "find_cached_block_by_hash h rs s = (r, s')"
  shows "r = Some b \<longleftrightarrow> hash_to_block s h = Some b \<and> b \<in> allocated_blocks s \<and> hash_value (heap s b) = Some h"
  using assms by (auto simp: find_cached_block_by_hash_def Let_def split: option.splits if_splits)

lemma find_by_hash_hit:
  assumes "find_cached_block_by_hash h rs s = (Some b, s')"
  shows "inert s s'" and "allocated_blocks s' = allocated_blocks s"
    and "table_store s' = table_store s" and "request_tables s' = request_tables s"
    and "next_table s' = next_table s" and "ref s' i = ref s i"
  using assms
  by (auto simp: find_cached_block_by_hash_def Let_def hit_def inert_def content_def
      split: option.splits if_splits)

lemma shared_loop_spec:
  assumes "0 < block_size s" and "token_bytes (pre @ toks) = Inr tb" and "token_bytes pre = Inr hs"
    and "length pre = k * block_size s" and "length toks < f"
  shows "\<exists>bs s'. shared_loop sha f rs toks hs acc s =
       (Inr (acc @ bs, drop (length bs * block_size s) toks), s') \<and>
     length bs * block_size s \<le> length toks \<and>
     (\<forall>j<length bs. serves sha s (pre @ toks) (k + j) (bs ! j)) \<and>
     (length toks - length bs * block_size s < block_size s \<or>
       (\<forall>b. \<not> serves sha s (pre @ toks) (k + length bs) b)) \<and> allocated_blocks s' = allocated_blocks s"
  using assms
proof (induction f arbitrary: pre toks hs k acc s)
  case (Suc f)
  let ?n = "block_size s"
  show ?case
  proof (cases "length toks < ?n")
    case True
    then show ?thesis by (intro exI [of _ "[]"] exI [of _ s]) simp
  next
    case False
    let ?blk = "take ?n toks" and ?pre = "pre @ take ?n toks"
    have split: "pre @ toks = ?pre @ drop ?n toks" by simp
    obtain hs' where hs': "token_bytes ?pre = Inr hs'"
      using Suc.prems(2) token_bytes_append [of ?pre "drop ?n toks"] by (auto split: sum.splits)
    have up: "ph_update hs ?blk = Inr hs'" using ph_update_bytes [OF Suc.prems(3)] hs' by simp
    have tk: "take (Suc k * ?n) (pre @ toks) = ?pre" using Suc.prems(4) False by simp
    have idh: "identity sha (take (Suc k * ?n) (pre @ toks)) = ph_hexdigest sha hs'"
      unfolding tk by (rule identity_legacy [OF hs'])
    obtain r s1 where fd: "find_cached_block_by_hash (ph_hexdigest sha hs') rs s = (r, s1)" by fastforce
    have sv_iff: "serves sha s (pre @ toks) k b \<longleftrightarrow> r = Some b \<and> token_count (heap s b) = int ?n" for b
      unfolding serves_def Let_def idh find_by_hash_result [OF fd, of b] by blast
    have al: "allocated_blocks s1 = allocated_blocks s"
      using find_by_hash_hard [OF fd] by (simp add: hard_eq_def)
    show ?thesis
    proof (cases r)
      case None
      then have "\<not> serves sha s (pre @ toks) k b" for b
        by (simp add: sv_iff)
      then show ?thesis
        using None False up fd al by (intro exI [of _ "[]"] exI [of _ s1]) simp
    next
      case (Some b)
      note ht = find_by_hash_hit [OF fd [unfolded Some]]
      have tc: "token_count (heap s1 b) = token_count (heap s b)" by (rule inert_content(4) [OF ht(1)])
      have bz: "block_size s1 = ?n" by (rule inert_fields(4) [OF ht(1)])
      show ?thesis
      proof (cases "token_count (heap s b) = int ?n")
        case False': False
        then have "\<not> serves sha s (pre @ toks) k c" for c
          using Some by (auto simp: sv_iff)
        then show ?thesis
          using Some False False' up fd al tc by (intro exI [of _ "[]"] exI [of _ s1]) simp
      next
        case True
        have sv: "serves sha s (pre @ toks) k b"
          using Some True by (simp add: sv_iff)
        have "\<exists>bs s'. shared_loop sha f rs (drop ?n toks) hs' (acc @ [b]) s1 =
             (Inr ((acc @ [b]) @ bs, drop (length bs * ?n) (drop ?n toks)), s') \<and>
           length bs * ?n \<le> length (drop ?n toks) \<and>
           (\<forall>j<length bs. serves sha s1 (?pre @ drop ?n toks) (Suc k + j) (bs ! j)) \<and>
           (length (drop ?n toks) - length bs * ?n < ?n \<or>
             (\<forall>b. \<not> serves sha s1 (?pre @ drop ?n toks) (Suc k + length bs) b)) \<and>
           allocated_blocks s' = allocated_blocks s1"
          using Suc.prems False
          unfolding bz [symmetric] by (intro Suc.IH) (auto simp: bz hs')
        then obtain bs s' where
          l: "shared_loop sha f rs (drop ?n toks) hs' (acc @ [b]) s1 =
             (Inr ((acc @ [b]) @ bs, drop (length bs * ?n) (drop ?n toks)), s')"
           "length bs * ?n \<le> length toks - ?n" "allocated_blocks s' = allocated_blocks s"
          and sv': "\<forall>j<length bs. serves sha s (pre @ toks) (Suc k + j) (bs ! j)"
          and e: "length toks - ?n - length bs * ?n < ?n \<or> (\<forall>b. \<not> serves sha s (pre @ toks) (Suc k + length bs) b)"
          unfolding serves_inert [OF ht(1,2)] split [symmetric] al by auto
        have "\<forall>j<length (b # bs). serves sha s (pre @ toks) (k + j) ((b # bs) ! j)"
          using sv sv' by (auto simp: less_Suc_eq_0_disj)
        moreover have "shared_loop sha (Suc f) rs toks hs acc s =
            (Inr (acc @ (b # bs), drop (length (b # bs) * ?n) toks), s')"
          using Some False True up fd tc l(1) by (simp add: add.commute)
        ultimately show ?thesis
          using l(2,3) e False
          by (intro exI [of _ "b # bs"] exI [of _ s']) (simp add: algebra_simps)
      qed
    qed
  qed
qed simp

text \<open>
  \<open>find_shared_prefix\<close> returns the longest run of leading blocks the identity index serves: the
  \<open>k\<close>-th block returned is allocated, full, and registered under - and still carrying - the
  identity of the prompt's first \<open>k + 1\<close> blocks; the remaining tokens are the prompt without
  them; and the run stops only at a partial block or where no block serves. It always returns.
\<close>

theorem find_shared_prefix_longest:
  assumes "0 < block_size s" and "token_bytes toks = Inr tb"
  shows "\<exists>bs s'. find_shared_prefix sha toks rs s = (Inr (bs, drop (length bs * block_size s) toks), s') \<and>
    length bs * block_size s \<le> length toks \<and>
    (\<forall>k<length bs. serves sha s toks k (bs ! k)) \<and>
    (length toks - length bs * block_size s < block_size s \<or> (\<forall>b. \<not> serves sha s toks (length bs) b))"
proof -
  have "token_bytes [] = Inr []" by simp
  from shared_loop_spec [OF assms(1) _ this, of toks tb 0 "Suc (length toks)" sha rs "[]"] assms(2)
  show ?thesis unfolding find_shared_prefix_def by auto
qed

lemma find_shared_prefix_longest_witness:
  "\<exists>bs s'. find_shared_prefix (\<lambda>x. x) [7, 8, 9] True two_blocks = (Inr (bs, drop (length bs * 2) [7, 8, 9]), s')"
proof -
  have "block_size two_blocks = 2" by code_simp
  moreover obtain tb where "token_bytes [7, 8, 9] = Inr tb" by (simp add: to_bytes4_def Let_def)
  ultimately show ?thesis using find_shared_prefix_longest [of two_blocks "[7, 8, 9]" tb "\<lambda>x. x" True] by auto
qed

end
