(* ===== verification/PagedEvict.thy ===== *)
theory PagedEvict
  imports PagedPrefix
begin

text \<open>
  Releasing, copy-on-write, eviction under memory pressure and reset of \<open>PagedCacheManager\<close>.
\<close>

section \<open>Releasing\<close>

text \<open>
  Releasing a block, on every branch: a block that is not allocated, or is the null block, is
  refused without effect; a shared block loses one reference; the last reference moves the
  block to the tail of the free list with its content and its two identities intact, so that a
  later prompt can still hit it. No other block is affected, and the call never raises.
\<close>

theorem free_block_branches:
  assumes i: "paged_inv s" and free: "get_all_free_blocks s = Inr xs"
  shows "if b \<notin> allocated_blocks s \<or> b = null_block s then free_block b s = (Inr False, s)
     else \<exists>s'. free_block b s = (Inr (ref s b = 1), s') \<and> inert s s' \<and>
       (\<forall>c. ref s' c = (if c = b then ref s b - 1 else ref s c)) \<and>
       (if ref s b = 1
        then allocated_blocks s' = allocated_blocks s - {b} \<and> get_all_free_blocks s' = Inr (xs @ [b])
        else allocated_blocks s' = allocated_blocks s \<and> get_all_free_blocks s' = Inr xs)"
proof -
  note p = free_list [OF i free]
  show ?thesis
  proof (cases "held s b")
    case False
    then have "b \<notin> allocated_blocks s \<or> b = null_block s" by (auto simp: held_def)
    then show ?thesis using free_block_absent [OF i False] by simp
  next
    case True
    then have n: "\<not> (b \<notin> allocated_blocks s \<or> b = null_block s)" by (simp add: held_def)
    obtain v s' where f: "free_block b s = (Inr v, s')" and e: "inert s s'"
      and r: "\<forall>c. ref s' c = (if c = b \<and> held s b then ref s c - 1 else ref s c)"
      and al: "allocated_blocks s' = (if held s b \<and> ref s b = 1 then allocated_blocks s - {b} else allocated_blocks s)"
      and v: "v \<longleftrightarrow> held s b \<and> ref s b = 1"
      using free_block_spec [OF i] by blast
    have "pinvx s' (if v then xs @ [b] else xs) {} 0" using free_block_pinvx [OF p f] by auto
    from free_list_is [OF this] show ?thesis
      unfolding if_not_P [OF n] using f e r al v True by (intro exI [of _ s']) auto
  qed
qed

lemma free_block_branches_witness:
  "\<exists>s'. free_block 1 two_blocks = (Inr True, s') \<and> get_all_free_blocks s' = Inr ([3, 4, 5] @ [1])"
proof -
  have "get_all_free_blocks two_blocks = Inr [3, 4, 5]" by code_simp
  moreover have "1 \<in> allocated_blocks two_blocks" "null_block two_blocks = 0" "ref two_blocks 1 = 1" by code_simp+
  ultimately show ?thesis using free_block_branches [OF two_blocks_inv, of "[3, 4, 5]" 1] by auto
qed

section \<open>Copy-on-write\<close>

definition spare :: "'t manager \<Rightarrow> bid list \<Rightarrow> nat" where
  "spare s xs = length (filter (\<lambda>b. \<not> is_pinned (heap s b)) xs)"

lemma allocate_block_some:
  assumes p: "pinvx s xs {} 0" and u: "0 < spare s xs"
  obtains b s' where "allocate_block s = (Inr (Some b), s')"
proof -
  obtain r s' where a: "allocate_block s = (r, s')" by fastforce
  have "\<exists>b\<in>set xs. \<not> is_pinned (heap s b)" "xs \<noteq> []"
    using u by (auto simp: spare_def length_greater_0_conv filter_empty_conv)
  with allocate_block_pinvx [OF p a] a that show ?thesis by auto
qed

lemma spare_remove1:
  assumes "distinct xs" and "b \<in> set xs" and "\<not> is_pinned (heap s b)"
    and "\<forall>i. i \<noteq> b \<longrightarrow> is_pinned (heap s' i) = is_pinned (heap s i)"
  shows "spare s' (remove1 b xs) = spare s xs - 1"
proof -
  have "filter (\<lambda>b. \<not> is_pinned (heap s' b)) (remove1 b xs) = filter (\<lambda>b. \<not> is_pinned (heap s b)) (remove1 b xs)"
    using assms(1,4) by (intro filter_cong) auto
  also have "\<dots> = remove1 b (filter (\<lambda>b. \<not> is_pinned (heap s b)) xs)"
    by (simp add: filter_remove1)
  finally show ?thesis using assms(2,3) by (simp add: spare_def length_remove1)
qed

lemma cow_copy_spec:
  assumes p: "pinvx s xs {} 0" and b: "b \<in> allocated_blocks s" "is_shared (heap s b)" and u: "0 < spare s xs"
  shows "\<exists>nb s'. cow_copy_block b s = (Inr (Some nb), s') \<and> nb \<in> set xs \<and> \<not> is_pinned (heap s nb) \<and>
     pinvx s' (remove1 nb xs) {} 0 \<and> spare s' (remove1 nb xs) = spare s xs - 1 \<and>
     ref s' = (ref s)(nb := 1, b := ref s b - 1) \<and>
     allocated_blocks s' = insert nb (allocated_blocks s) \<and> tables_eq s s' \<and>
     cache_data (heap s' nb) = cache_data (heap s b) \<and> token_count (heap s' nb) = token_count (heap s b) \<and>
     (\<forall>i. i \<noteq> nb \<longrightarrow> content (heap s' i) = content (heap s i))"
proof -
  obtain nb s1 where a: "allocate_block s = (Inr (Some nb), s1)" using allocate_block_some [OF p u] .
  note sp = allocate_block_spec [OF p a] and oc = only_block_core [OF allocate_block_spec(5) [OF p a]]
  have bn: "b \<noteq> nb" using sp(2) b by blast
  let ?f = "\<lambda>x. x\<lparr>token_count := token_count (heap s1 b), cache_data := cache_data (heap s1 b),
                     cache_class_name := cache_class_name (heap s1 b)\<rparr>"
  let ?s2 = "upd_block b (\<lambda>x. x\<lparr>ref_count := ref_count x - 1\<rparr>) (upd_block nb ?f s1)"
  let ?s3 = "(if ref_count (heap ?s2 b) = 1
              then upd_stats (\<lambda>st. st\<lparr>shared_blocks := shared_blocks st - 1\<rparr>) ?s2 else ?s2)"
  have eq: "cow_copy_block b s = (Inr (Some nb), ?s3)" by (simp add: cow_copy_block_def a Let_def)
  have r: "ref s1 i = (if i = nb then 1 else ref s i)" for i
    using core_fields(2) [OF oc] sp(8) by auto
  have c: "content (heap s1 i) = content (heap s i)" if "i \<noteq> nb" for i
    using content_core [OF oc [OF that]] .
  have "pinvx (set_ref b (ref_count (heap s b) - 1) s1) (remove1 nb xs) {} 0"
    by (rule pinvx_set_ref [OF sp(4)]) (use sp(7) b in \<open>simp_all add: is_shared_def\<close>)
  moreover have "hard_eq (set_ref b (ref_count (heap s b) - 1) s1) ?s3"
    using bn r by (simp add: hard_eq_def hard_def set_ref_def)
  ultimately have p3: "pinvx ?s3 (remove1 nb xs) {} 0"
    by (simp add: pinvx_hard [of "set_ref b (ref_count (heap s b) - 1) s1"])
  have pin: "is_pinned (heap ?s3 i) = is_pinned (heap s i)" if "i \<noteq> nb" for i
    using that core_fields(5) [OF oc [OF that]] by auto
  have "spare ?s3 (remove1 nb xs) = spare s xs - 1"
    by (rule spare_remove1 [OF qinv_distinct [OF pinvxD(1) [OF p]] sp(1,3)]) (use pin in simp)
  moreover have "ref ?s3 = (ref s)(nb := 1, b := ref s b - 1)" using bn by (auto simp: r fun_eq_iff)
  moreover have "tables_eq s ?s3" using sp(6) by (simp add: tables_eq_def)
  moreover have "\<forall>i. i \<noteq> nb \<longrightarrow> content (heap ?s3 i) = content (heap s i)"
    using c by (auto simp: content_def)
  moreover have "cache_data (heap s1 b) = cache_data (heap s b)" "token_count (heap s1 b) = token_count (heap s b)"
    using c [OF bn] by (simp_all add: content_def)
  ultimately show ?thesis using eq p3 sp(1,3,7) bn by (intro exI [of _ nb] exI [of _ ?s3]) simp
qed

text \<open>What copy-on-write does to the entry \<open>o\<close> of a table, replaced by \<open>n\<close>.\<close>

definition cow_entry :: "'t manager \<Rightarrow> 't manager \<Rightarrow> bid \<Rightarrow> bid \<Rightarrow> bool" where
  "cow_entry s s' e n \<longleftrightarrow>
     (if is_shared (heap s e)
      then n \<notin> allocated_blocks s \<and> ref s' e = ref s e - 1 \<and>
        cache_data (heap s' n) = cache_data (heap s e) \<and> token_count (heap s' n) = token_count (heap s e)
      else n = e) \<and> ref s' n = 1"

text \<open>Blocks outside \<open>E\<close> that were allocated keep count and content; within \<open>E\<close> only counts change.\<close>

definition cow_frame :: "'t manager \<Rightarrow> 't manager \<Rightarrow> bid set \<Rightarrow> bool" where
  "cow_frame s s' E \<longleftrightarrow> allocated_blocks s \<subseteq> allocated_blocks s' \<and>
     (\<forall>i\<in>allocated_blocks s. content (heap s' i) = content (heap s i) \<and> (i \<notin> E \<longrightarrow> ref s' i = ref s i))"

lemma cow_frame_trans:
  assumes "cow_frame s t E" and "cow_frame t u F"
  shows "cow_frame s u (E \<union> F)"
proof -
  have "allocated_blocks s \<subseteq> allocated_blocks u" using assms unfolding cow_frame_def by blast
  moreover have "content (heap u i) = content (heap s i) \<and> (i \<notin> E \<union> F \<longrightarrow> ref u i = ref s i)"
    if "i \<in> allocated_blocks s" for i
  proof -
    have "i \<in> allocated_blocks t" using assms(1) that by (auto simp: cow_frame_def)
    then show ?thesis using assms that by (simp add: cow_frame_def)
  qed
  ultimately show ?thesis by (simp add: cow_frame_def)
qed

lemma pinvx_pos: "pinvx s xs D k \<Longrightarrow> b \<in> allocated_blocks s \<Longrightarrow> \<not> is_shared (heap s b) \<Longrightarrow> ref s b = 1"
  using pinvxD(6) [of s xs D k b] by (force simp: is_shared_def)

lemma spare_cong: "(\<And>i. is_pinned (heap t i) = is_pinned (heap s i)) \<Longrightarrow> spare t xs = spare s xs"
  by (simp add: spare_def)

lemma generation_step:
  assumes p: "pinvx s xs {} 0" and e: "e \<in> allocated_blocks s" "block_ids (table_store s a) ! k = e"
    and u: "0 < spare s xs" and l: "length (block_ids (table_store s a)) = m" "k < m"
  shows "\<exists>n c t ys. pinvx t ys {} 0 \<and> spare s xs \<le> spare t ys + 1 \<and> cow_entry s t e n \<and> cow_frame s t {e} \<and>
     n \<in> allocated_blocks t \<and> (n = e \<or> n \<notin> allocated_blocks s) \<and>
     block_ids (table_store t a) = (block_ids (table_store s a))[k := n] \<and>
     (\<forall>js acc b. generation_loop a (k # js) acc b s = generation_loop a js (acc @ [n]) (b \<or> c) t)"
proof (cases "is_shared (heap s e)")
  case False
  let ?t = "upd_block e touch_block s"
  have "hard_eq s ?t" by (simp add: hard_eq_def hard_def)
  then have pt: "pinvx ?t xs {} 0" using p by (simp add: pinvx_hard [of s])
  have sp: "spare ?t xs = spare s xs" by (rule spare_cong) simp
  have "ref s e = 1" using pinvx_pos [OF p e(1) False] .
  then have "cow_entry s ?t e e" using False by (simp add: cow_entry_def)
  moreover have "cow_frame s ?t {e}" by (simp add: cow_frame_def content_def)
  moreover have "generation_loop a (k # js) acc b s = generation_loop a js (acc @ [e]) (b \<or> False) ?t" for js acc b
    using e False by (simp add: Let_def)
  moreover have "block_ids (table_store ?t a) = (block_ids (table_store s a))[k := e]"
    unfolding e(2) [symmetric] by simp
  ultimately show ?thesis
    using pt sp e(1) by (intro exI [of _ e] exI [of _ False] exI [of _ ?t] exI [of _ xs]) simp
next
  case True
  from cow_copy_spec [OF p e(1) True u] obtain n s1 where
    c: "cow_copy_block e s = (Inr (Some n), s1)" "n \<in> set xs" "pinvx s1 (remove1 n xs) {} 0"
      "spare s1 (remove1 n xs) = spare s xs - 1" "ref s1 = (ref s)(n := 1, e := ref s e - 1)"
      "allocated_blocks s1 = insert n (allocated_blocks s)" "tables_eq s s1"
      "cache_data (heap s1 n) = cache_data (heap s e)" "token_count (heap s1 n) = token_count (heap s e)"
      "\<forall>i. i \<noteq> n \<longrightarrow> content (heap s1 i) = content (heap s i)" by blast
  let ?t = "upd_block e touch_block (upd_stats (\<lambda>st. st\<lparr>cow_copies := cow_copies st + 1\<rparr>)
      (upd_table a (\<lambda>t. t\<lparr>block_ids := (block_ids t)[k := n]\<rparr>) s1))"
  have nal: "n \<notin> allocated_blocks s" using pinvxD(2) [OF p] c(2) by blast
  then have ne: "n \<noteq> e" using e(1) by blast
  have "hard_eq s1 ?t" by (simp add: hard_eq_def hard_def)
  then have pt: "pinvx ?t (remove1 n xs) {} 0" using c(3) by (simp add: pinvx_hard [of s1])
  have sp: "spare ?t (remove1 n xs) = spare s xs - 1"
    unfolding c(4) [symmetric] by (rule spare_cong) simp
  have rt: "ref ?t i = ref s1 i" for i by simp
  have ct: "content (heap ?t i) = content (heap s1 i)" for i by (simp add: content_def)
  have r1: "ref s1 i = (if i = e then ref s e - 1 else if i = n then 1 else ref s i)" for i
    using fun_cong [OF c(5), of i] by auto
  have "cow_entry s ?t e n" using True nal ne c(8,9) by (simp add: cow_entry_def r1)
  moreover have "cow_frame s ?t {e}"
    unfolding cow_frame_def rt ct using nal ne c(6,10) by (auto simp: r1)
  moreover have "generation_loop a (k # js) acc b s = generation_loop a js (acc @ [n]) (b \<or> True) ?t" for js acc b
    using e True c(1) by (simp add: Let_def)
  moreover have "block_ids (table_store ?t a) = (block_ids (table_store s a))[k := n]"
    using c(7) by (simp add: tables_eq_def)
  ultimately show ?thesis
    using pt sp c(6) nal by (intro exI [of _ n] exI [of _ True] exI [of _ ?t] exI [of _ "remove1 n xs"]) simp
qed

lemma generation_loop_spec:
  assumes "pinvx s xs {} 0" and "length (block_ids (table_store s a)) = m" and "k + length is = m"
    and "is = [k..<m]" and "set (drop k (block_ids (table_store s a))) \<subseteq> allocated_blocks s"
    and "distinct (drop k (block_ids (table_store s a)))" and "length is \<le> spare s xs"
  shows "\<exists>ns c t ys. (\<forall>acc b. generation_loop a is acc b s = (Inr (acc @ ns, b \<or> c), t)) \<and> pinvx t ys {} 0 \<and>
     length ns = length is \<and> block_ids (table_store t a) = take k (block_ids (table_store s a)) @ ns \<and>
     list_all2 (cow_entry s t) (drop k (block_ids (table_store s a))) ns \<and>
     cow_frame s t (set (drop k (block_ids (table_store s a)))) \<and> set ns \<subseteq> allocated_blocks t \<and>
     set ns \<inter> allocated_blocks s \<subseteq> set (drop k (block_ids (table_store s a))) \<and> distinct ns"
  using assms
proof (induction "is" arbitrary: k s xs)
  case Nil
  then show ?case
    by (intro exI [of _ "[]"] exI [of _ False] exI [of _ s] exI [of _ xs]) (simp add: cow_frame_def)
next
  case (Cons i js)
  let ?ids = "block_ids (table_store s a)"
  have i: "i = k" and js: "js = [Suc k..<m]" and km: "k < m"
    using Cons.prems(3,4) by (auto simp: upt_rec [of k] split: if_splits)
  have dk: "drop k ?ids = ?ids ! k # drop (Suc k) ?ids"
    using km Cons.prems(2) by (simp add: Cons_nth_drop_Suc)
  let ?e = "?ids ! k" and ?R = "drop (Suc k) ?ids"
  have e: "?e \<in> allocated_blocks s" "set ?R \<subseteq> allocated_blocks s" "?e \<notin> set ?R" "distinct ?R"
    using Cons.prems(5,6) by (simp_all add: dk)
  have u: "0 < spare s xs" using Cons.prems(7) by simp
  from generation_step [OF Cons.prems(1) e(1) refl u Cons.prems(2) km] obtain n c t ys where
    p: "pinvx t ys {} 0" and sp: "spare s xs \<le> spare t ys + 1" and ce: "cow_entry s t ?e n"
    and cf: "cow_frame s t {?e}" and na: "n \<in> allocated_blocks t" "n = ?e \<or> n \<notin> allocated_blocks s"
    and bi: "block_ids (table_store t a) = ?ids[k := n]"
    and gl: "\<forall>js acc b. generation_loop a (k # js) acc b s = generation_loop a js (acc @ [n]) (b \<or> c) t" by blast
  have R: "drop (Suc k) (block_ids (table_store t a)) = ?R" by (simp add: bi)
  have "\<exists>ns c t' zs. (\<forall>acc b. generation_loop a js acc b t = (Inr (acc @ ns, b \<or> c), t')) \<and> pinvx t' zs {} 0 \<and>
     length ns = length js \<and> block_ids (table_store t' a) = take (Suc k) (block_ids (table_store t a)) @ ns \<and>
     list_all2 (cow_entry t t') (drop (Suc k) (block_ids (table_store t a))) ns \<and>
     cow_frame t t' (set (drop (Suc k) (block_ids (table_store t a)))) \<and> set ns \<subseteq> allocated_blocks t' \<and>
     set ns \<inter> allocated_blocks t \<subseteq> set (drop (Suc k) (block_ids (table_store t a))) \<and> distinct ns"
  proof (rule Cons.IH [OF p])
    show "length (block_ids (table_store t a)) = m" "Suc k + length js = m" "js = [Suc k..<m]"
      using Cons.prems(2,3) js by (simp_all add: bi)
    show "set (drop (Suc k) (block_ids (table_store t a))) \<subseteq> allocated_blocks t"
      unfolding R using e(2) cf by (auto simp: cow_frame_def)
    show "distinct (drop (Suc k) (block_ids (table_store t a)))" unfolding R by (rule e(4))
    show "length js \<le> spare t ys" using Cons.prems(7) sp by simp
  qed
  then obtain ns c' t' zs where
    gl': "\<forall>acc b. generation_loop a js acc b t = (Inr (acc @ ns, b \<or> c'), t')" and p': "pinvx t' zs {} 0"
    and ln: "length ns = length js" and bi': "block_ids (table_store t' a) = take (Suc k) (?ids[k := n]) @ ns"
    and la: "list_all2 (cow_entry t t') ?R ns" and cf': "cow_frame t t' (set ?R)"
    and nt: "set ns \<subseteq> allocated_blocks t'" and ni: "set ns \<inter> allocated_blocks t \<subseteq> set ?R" and dn: "distinct ns"
    unfolding R unfolding bi by blast
  have fr: "cow_frame s t' (set (drop k ?ids))"
    using cow_frame_trans [OF cf cf'] by (simp add: dk)
  have st: "allocated_blocks s \<subseteq> allocated_blocks t" using cf by (simp add: cow_frame_def)
  have nR: "n \<notin> set ?R" using na(2) e(2,3) by blast
  then have nns: "n \<notin> set ns" using na(1) ni by blast
  have same: "content (heap t x) = content (heap s x) \<and> ref t x = ref s x" if "x \<in> set ?R" for x
  proof -
    have "x \<in> allocated_blocks s" "x \<noteq> ?e" using that e(2,3) by auto
    then show ?thesis using cf by (simp add: cow_frame_def)
  qed
  have "cow_entry s t' x y" if xy: "cow_entry t t' x y" "x \<in> set ?R" for x y
    using xy same [OF xy(2)] st unfolding cow_entry_def is_shared_def content_def by (auto split: if_splits)
  then have la': "list_all2 (cow_entry s t') ?R ns"
    using la by (auto elim!: list.rel_mono_strong)
  have "content (heap t' x) = content (heap t x) \<and> ref t' x = ref t x" if "x = n \<or> x = ?e" for x
  proof -
    have "x \<in> allocated_blocks t" "x \<notin> set ?R" using that na(1) nR e(1,3) st by auto
    then show ?thesis using cf' by (simp add: cow_frame_def)
  qed
  then have ce': "cow_entry s t' ?e n" using ce by (auto simp: cow_entry_def content_def)
  have tk: "take (Suc k) (?ids[k := n]) = take k ?ids @ [n]"
    using km Cons.prems(2) by (simp add: take_Suc_conv_app_nth)
  have nt': "n \<in> allocated_blocks t'" using na(1) cf' by (auto simp: cow_frame_def)
  show ?case
    using gl gl' p' ln bi' la' ce' fr nt nt' ni nns dn st na(2)
    by (intro exI [of _ "n # ns"] exI [of _ "c \<or> c'"] exI [of _ t'] exI [of _ zs])
      (auto simp: i dk tk disj_assoc)
qed

text \<open>
  C3. Copy-on-write gives a request exclusive blocks: when the table's entries are distinct
  allocated blocks and there are at least as many unpinned free blocks as entries,
  \<open>get_blocks_for_generation\<close> returns, and stores in the table, one block per entry, all different
  and each with exactly one reference - the entry itself where it was not shared, otherwise a
  block that was free before, carrying the entry's data and token count, with one reference taken
  from the entry. Every other allocated block keeps its count, and no allocated block's content changes.
\<close>

theorem generation_blocks_exclusive:
  assumes i: "paged_inv s" and free: "get_all_free_blocks s = Inr xs"
    and ids: "ids = block_ids (table_store s a)" "set ids \<subseteq> allocated_blocks s" "distinct ids"
    and spare: "length ids \<le> length (filter (\<lambda>b. \<not> is_pinned (heap s b)) xs)"
  shows "\<exists>ns c t. get_blocks_for_generation a s = (Inr (ns, c), t) \<and> paged_inv t \<and>
     block_ids (table_store t a) = ns \<and> length ns = length ids \<and> distinct ns \<and> set ns \<subseteq> allocated_blocks t \<and>
     (\<forall>k<length ids. cow_entry s t (ids ! k) (ns ! k)) \<and> cow_frame s t (set ids)"
proof -
  note p = free_list [OF i free]
  have "length [0..<length ids] \<le> spare s xs" using spare by (simp add: spare_def)
  with generation_loop_spec [OF p, of a "length ids" 0 "[0..<length ids]"] ids obtain ns c t ys where
    g: "generation_loop a [0..<length ids] [] False s = (Inr (ns, c), t)" "pinvx t ys {} 0" "length ns = length ids"
      "block_ids (table_store t a) = ns" "list_all2 (cow_entry s t) ids ns" "cow_frame s t (set ids)"
      "set ns \<subseteq> allocated_blocks t" "distinct ns" by auto
  then show ?thesis
    using ids(1) by (auto simp: get_blocks_for_generation_def paged_inv_def list_all2_conv_all_nth)
qed

text \<open>A fork of the two-block request: both blocks shared, three spare.\<close>

definition forked_manager :: "nat manager" where
  "forked_manager = snd (fork_block_table 0 ''q'' demo_manager)"

lemma forked_manager_facts:
  "paged_inv forked_manager" "block_ids (table_store forked_manager 0) = [1, 2]"
  "{1, 2} \<subseteq> allocated_blocks forked_manager" "is_shared (heap forked_manager 1)"
  "\<exists>xs. get_all_free_blocks forked_manager = Inr xs \<and>
     length (filter (\<lambda>b. \<not> is_pinned (heap forked_manager b)) xs) = 3"
proof -
  have d: "block_ids (table_store demo_manager 0) = [1, 2]" "request_tables demo_manager ''q'' = None"
    "next_table demo_manager = 1" "allocated_blocks demo_manager = {2, 1, 0}" "ref demo_manager 1 = 1"
    "max_blocks demo_manager = 6"
    by code_simp+
  from fork_block_table_spec [OF demo_manager_inv d(2), of 0] obtain t where
    t: "fork_block_table 0 ''q'' demo_manager = (Inr 1, t)" "paged_inv t" "inert demo_manager t"
    "table_store t = (table_store demo_manager)(1 := table_copy ''q'' (table_store demo_manager 0))"
    "allocated_blocks t = {2, 1, 0}" "\<forall>i\<in>{2, 1, 0}. ref t i = ref demo_manager i + int (count_list [1, 2] i)"
    unfolding d by auto
  then show i: "paged_inv forked_manager" and "block_ids (table_store forked_manager 0) = [1, 2]"
    "{1, 2} \<subseteq> allocated_blocks forked_manager" "is_shared (heap forked_manager 1)"
    by (simp_all add: forked_manager_def d is_shared_def)
  have f: "forked_manager = t" using t(1) by (simp add: forked_manager_def)
  obtain xs where p: "pinvx t xs {} 0" using t(2) by (auto simp: paged_inv_def)
  have al: "all_blocks t = {0..<6}" using inert_fields(3) [OF t(3)] d(6) by (simp add: all_blocks_def)
  have "set xs = all_blocks t - allocated_blocks t" using pinvxD(2,5) [OF p] by blast
  also have "\<dots> = {3, 4, 5}" unfolding al t(5) by auto
  finally have xs: "set xs = {3, 4, 5}" .
  have "\<not> is_pinned (heap demo_manager 3)" "\<not> is_pinned (heap demo_manager 4)"
    "\<not> is_pinned (heap demo_manager 5)" by code_simp+
  then have "filter (\<lambda>b. \<not> is_pinned (heap t b)) xs = xs"
    using xs inert_content(6) [OF t(3)] by (intro filter_True) auto
  moreover have "length xs = 3"
    using distinct_card [OF qinv_distinct [OF pinvxD(1) [OF p]]] xs by simp
  ultimately show "\<exists>xs. get_all_free_blocks forked_manager = Inr xs \<and>
     length (filter (\<lambda>b. \<not> is_pinned (heap forked_manager b)) xs) = 3"
    unfolding f using free_list_is [OF p] by (intro exI [of _ xs]) simp
qed

lemma generation_blocks_exclusive_witness:
  "\<exists>ns c t. get_blocks_for_generation 0 forked_manager = (Inr (ns, c), t) \<and> distinct ns \<and> length ns = 2"
proof -
  obtain xs where "get_all_free_blocks forked_manager = Inr xs"
    "length (filter (\<lambda>b. \<not> is_pinned (heap forked_manager b)) xs) = 3"
    using forked_manager_facts(5) by blast
  then show ?thesis
    using generation_blocks_exclusive [OF forked_manager_facts(1), of xs "[1, 2]" 0]
      forked_manager_facts(2,3) by auto
qed

end
