(* ===== verification/PagedPressure.thy ===== *)
theory PagedPressure
  imports PagedEvict
begin

text \<open>
  Eviction under memory pressure, and the two resets, of \<open>PagedCacheManager\<close>: \<open>evict_lru_blocks\<close>,
  \<open>handle_memory_pressure\<close>, \<open>release_pressure_blocks\<close>, \<open>reset_prefix_cache\<close> and \<open>clear\<close>.
\<close>

section \<open>Rotating the free list\<close>

text \<open>A block that must not be evicted: allocated, or pinned.\<close>

definition safe :: "'t manager \<Rightarrow> bid \<Rightarrow> bool" where
  "safe s b \<longleftrightarrow> b \<in> allocated_blocks s \<or> is_pinned (heap s b)"

lemma evict_loop_safe:
  "pinvx s xs {} 0 \<Longrightarrow> evict_loop k n s = (r, s') \<Longrightarrow>
   allocated_blocks s' = allocated_blocks s \<and> (\<forall>i. safe s i \<longrightarrow> core (heap s' i) = core (heap s i))"
proof (induction k arbitrary: n s xs)
  case 0
  then show ?case by auto
next
  case (Suc k)
  note p = Suc.prems(1)
  from pinvxD(1) [OF p] show ?case
  proof (cases rule: pop_any)
    case (popped b s1)
    have p1: "pinvx s1 (remove1 b xs) {b} 0" using pinvx_pop [OF p popped(5,4,2)] .
    note m = same_core_manager [OF popped(5)]
    let ?s2 = "snd (maybe_evict_cached_block b s1)"
    have ba: "b \<in> all_blocks s1" using pinvx_ranges [OF p1] by blast
    have p2: "pinvx ?s2 (remove1 b xs) {b} 0" by (rule maybe_evict_pinvx [OF p1 ba])
    have "0 \<le> b" "b \<notin> set (remove1 b xs)"
      using ba pinvxD(4) [OF p1] by (auto simp: all_blocks_def)
    then obtain s3 where
      s3: "queue_append b ?s2 = (Inr (), s3)" "qinv s3 (remove1 b xs @ [b])" "same_core ?s2 s3"
      using lru.give_law [OF pinvxD(1) [OF p2]] by blast
    have p3: "pinvx s3 (remove1 b xs @ [b]) {} 0" using pinvx_give [OF p2 s3(3,2)] by simp
    have e3: "evict_loop k (n + 1) s3 = (r, s')" using Suc.prems(2) popped(1) s3(1) by simp
    have al: "allocated_blocks s3 = allocated_blocks s"
      using same_core_manager(9) [OF s3(3)] m by simp
    have pin: "is_pinned (heap s3 i) = is_pinned (heap s i)" for i
      using same_core_fields(5) [OF s3(3)] same_core_fields(5) [OF popped(5)] by (simp add: maybe_evict_block)
    have cr: "core (heap s3 i) = core (heap s i)" if "i \<noteq> b" for i
      using s3(3) popped(5) that by (simp add: same_core_def maybe_evict_other)
    have nb: "\<not> safe s b" using popped(2,3) pinvxD(2) [OF p] by (auto simp: safe_def)
    have "safe s i \<Longrightarrow> safe s3 i \<and> i \<noteq> b" for i using nb by (auto simp: safe_def al pin)
    then show ?thesis using Suc.IH [OF p3 e3] al cr by metis
  next
    case stuck
    then show ?thesis using Suc.prems(2) by (auto split: if_splits)
  qed
qed

text \<open>
  Memory pressure never harms live data, and never helps either: \<open>evict_lru_blocks\<close> recycles
  blocks that are already free, so the number of free blocks is what it was, every allocated or
  pinned block keeps all its content and count, and \<open>handle_memory_pressure n\<close> answers exactly
  whether \<open>n\<close> blocks were free before the call, whatever it evicts.
\<close>

theorem memory_pressure_gains_nothing:
  assumes i: "paged_inv s"
  shows "\<exists>s'. handle_memory_pressure n s = (Inr (n \<le> num_free_blocks s), s') \<and> paged_inv s' \<and>
    num_free_blocks s' = num_free_blocks s \<and> allocated_blocks s' = allocated_blocks s \<and>
    (\<forall>b. safe s b \<longrightarrow> core (heap s' b) = core (heap s b))"
proof (cases "n \<le> num_free_blocks s")
  case True
  then show ?thesis using i by (simp add: handle_memory_pressure_def)
next
  case False
  let ?k = "n - num_free_blocks s"
  from evict_lru_blocks_returns [OF i, of ?k] obtain m s' where
    e: "evict_lru_blocks ?k s = (Inr m, s')" "paged_inv s'" "num_free_blocks s' = num_free_blocks s" by blast
  obtain xs where p: "pinvx s xs {} 0" using i by (auto simp: paged_inv_def)
  from evict_loop_safe [OF p e(1) [unfolded evict_lru_blocks_def]] e False show ?thesis
    by (simp add: handle_memory_pressure_def)
qed

lemma memory_pressure_gains_nothing_witness:
  "\<exists>s'. handle_memory_pressure 4 two_blocks = (Inr False, s') \<and> allocated_blocks s' = allocated_blocks two_blocks"
proof -
  have "num_free_blocks two_blocks = 3" by code_simp
  then show ?thesis using memory_pressure_gains_nothing [OF two_blocks_inv, of 4] by auto
qed

section \<open>Releasing cached data\<close>

definition releasable :: "'t manager \<Rightarrow> bid \<Rightarrow> bool" where
  "releasable s b \<longleftrightarrow> cache_data (heap s b) \<noteq> None \<and> \<not> is_pinned (heap s b)"

lemma release_one_heap:
  "heap (release_one b s) i = (if i = b then drop_data (reset_hash (heap s b)) else heap s i)"
  by (simp add: release_one_def Let_def drop_legacy_def split: option.splits)

lemma release_one_alloc: "allocated_blocks (release_one b s) = allocated_blocks s"
  by (simp add: release_one_def Let_def split: option.splits)

lemma release_loop_spec:
  assumes "pinvx s (ps @ zs) {} 0" and "length zs < f" and "m \<noteq> 0 \<Longrightarrow> r < m"
  shows "\<exists>v s'. release_loop f m (Some (hd (zs @ [fake_tail]))) r s = (Inr (r + length v), s') \<and>
     v = (if m = 0 then filter (releasable s) zs else take (m - r) (filter (releasable s) zs)) \<and>
     pinvx s' (ps @ zs) {} 0 \<and> allocated_blocks s' = allocated_blocks s \<and>
     (\<forall>i. heap s' i = (if i \<in> set v then drop_data (reset_hash (heap s i)) else heap s i))"
  using assms
proof (induction zs arbitrary: ps s f r)
  case Nil
  then show ?case by (cases f) (auto simp: fake_tail_def)
next
  case (Cons z zs)
  then obtain f' where f: "f = Suc f'" by (cases f) auto
  note q = qinvD(1) [OF pinvxD(1) [OF Cons.prems(1)]]
  have zt: "z \<noteq> fake_tail" using qseg_no_tail [OF q] by auto
  have nz: "nxt s z = Some (hd (zs @ [fake_tail]))" using qseg_neighbours(2) [OF q] .
  have za: "z \<in> all_blocks s" using pinvx_ranges [OF Cons.prems(1)] by auto
  have zz: "z \<notin> set zs" using qinv_distinct [OF pinvxD(1) [OF Cons.prems(1)]] by simp
  have p0: "pinvx s ((ps @ [z]) @ zs) {} 0" using Cons.prems(1) by simp
  have p1: "pinvx (release_one z s) ((ps @ [z]) @ zs) {} 0" using release_one_pinvx [OF p0 za] .
  have len: "length zs < f'" using Cons.prems(2) f by simp
  have same: "filter (releasable (release_one z s)) zs = filter (releasable s) zs"
    using zz by (intro filter_cong) (auto simp: releasable_def release_one_heap)
  show ?case
  proof (cases "releasable s z")
    case False
    from Cons.IH [OF p0 len Cons.prems(3)] False f zt nz show ?thesis by (auto simp: releasable_def)
  next
    case True
    show ?thesis
    proof (cases "m \<noteq> 0 \<and> m \<le> r + 1")
      case stop: True
      then have mr: "m - r = 1" "m \<noteq> 0" using Cons.prems(3) by auto
      have "release_loop f m (Some (hd ((z # zs) @ [fake_tail]))) r s = (Inr (r + 1), release_one z s)"
        using True f zt stop by (auto simp: releasable_def Let_def)
      then show ?thesis
        using True mr p1 by (intro exI [of _ "[z]"] exI [of _ "release_one z s"])
          (auto simp: release_one_heap release_one_alloc)
    next
      case go: False
      then have lt: "m \<noteq> 0 \<Longrightarrow> r + 1 < m" by auto
      from Cons.IH [OF p1 len lt] obtain v s' where
        l: "release_loop f' m (Some (hd (zs @ [fake_tail]))) (r + 1) (release_one z s) = (Inr (r + 1 + length v), s')"
          "v = (if m = 0 then filter (releasable s) zs else take (m - (r + 1)) (filter (releasable s) zs))"
          "pinvx s' (ps @ z # zs) {} 0" "allocated_blocks s' = allocated_blocks s"
          "\<forall>i. heap s' i = (if i \<in> set v then drop_data (reset_hash (heap (release_one z s) i))
             else heap (release_one z s) i)"
        unfolding same release_one_alloc by auto
      have "\<forall>i. heap s' i = (if i \<in> set (z # v) then drop_data (reset_hash (heap s i)) else heap s i)"
        using l(2,5) zz by (auto simp: release_one_heap dest: in_set_takeD split: if_splits)
      moreover have "release_loop f m (Some (hd ((z # zs) @ [fake_tail]))) r s = (Inr (r + length (z # v)), s')"
        using True f zt go l(1) nz by (auto simp: releasable_def Let_def)
      moreover have "z # v = (if m = 0 then filter (releasable s) (z # zs)
          else take (m - r) (filter (releasable s) (z # zs)))"
        using True l(2) go Cons.prems(3) by (cases "m = 0") (simp_all add: take_Cons')
      ultimately show ?thesis using l(3,4) by blast
    qed
  qed
qed

text \<open>
  \<open>release_pressure_blocks m\<close> drops the cached tensors and both identities of free, unpinned
  blocks that hold any, in free-list order: all of them for \<open>m = 0\<close>, else the first \<open>m\<close>. It returns
  their number; nothing else changes in any block, in particular in one that a request uses.
\<close>

theorem release_pressure_releases:
  assumes i: "paged_inv s" and free: "get_all_free_blocks s = Inr xs"
    and v: "v = (if m = 0 then filter (releasable s) xs else take m (filter (releasable s) xs))"
  shows "\<exists>s'. release_pressure_blocks m s = (Inr (length v), s') \<and> paged_inv s' \<and>
    get_all_free_blocks s' = Inr xs \<and> allocated_blocks s' = allocated_blocks s \<and> set v \<inter> allocated_blocks s = {} \<and>
    (\<forall>b. heap s' b = (if b \<in> set v then drop_data (reset_hash (heap s b)) else heap s b))"
proof -
  note p = free_list [OF i free]
  note q = pinvxD(1) [OF p]
  from release_loop_spec [of s "[]" xs "fuel_of s" m 0] p obtain s' where
    s': "release_loop (fuel_of s) m (Some (hd (xs @ [fake_tail]))) 0 s = (Inr (length v), s')"
      "pinvx s' xs {} 0" "allocated_blocks s' = allocated_blocks s"
      "\<forall>b. heap s' b = (if b \<in> set v then drop_data (reset_hash (heap s b)) else heap s b)"
    using v by (auto simp: fuel_of_qinv [OF q])
  have "set v \<subseteq> set xs" using v by (auto dest: in_set_takeD split: if_splits)
  then have "set v \<inter> allocated_blocks s = {}" using pinvxD(2) [OF p] by blast
  then show ?thesis
    using s' free_list_is [OF s'(2)]
    by (auto simp: release_pressure_blocks_def paged_inv_def dseg_first [OF qsegD(1) [OF qinvD(1) [OF q]]])
qed

lemma release_pressure_releases_witness:
  "\<exists>s'. release_pressure_blocks 1 two_blocks = (Inr 0, s') \<and> get_all_free_blocks s' = Inr [3, 4, 5]"
proof -
  have "get_all_free_blocks two_blocks = Inr [3, 4, 5]" by code_simp
  moreover have "filter (releasable two_blocks) [3, 4, 5] = []" by code_simp
  ultimately show ?thesis
    using release_pressure_releases [OF two_blocks_inv, of "[3, 4, 5]" "[]" 1] by auto
qed

section \<open>Reset\<close>

lemma reset_prefix_heap:
  assumes "reset_prefix_cache s = (True, s')"
  shows "heap s' b = (if b \<in> all_blocks s then drop_data (reset_hash (heap s b)) else heap s b)"
    and "hash_to_block s' = Map.empty" and "allocated_blocks s' = allocated_blocks s"
    and "max_blocks s' = max_blocks s"
proof -
  let ?g = "\<lambda>x :: 'a cache_block. drop_data (reset_hash x)"
  let ?s1 = "s\<lparr>cached_map := bh_clear (cached_map s), hash_to_block := Map.empty\<rparr>"
  let ?s2 = "fold (\<lambda>b. upd_block b ?g) (all_block_ids s) ?s1"
  have s': "s' = upd_stats (\<lambda>st. st\<lparr>evictions := 0, cache_hits := 0, cache_misses := 0\<rparr>) ?s2"
    using assms by (auto simp: reset_prefix_cache_def Let_def split: if_splits)
  have more: "pool.more ?s2 = pool.more ?s1" using fold_reset_fields [of ?g "all_block_ids s" ?s1] by simp
  have "set (all_block_ids s) = all_blocks s"
    by (simp add: all_block_ids_def all_blocks_def image_int_atLeastLessThan)
  then show "heap s' b = (if b \<in> all_blocks s then drop_data (reset_hash (heap s b)) else heap s b)"
    by (simp add: s' fold_reset_heap)
  show "hash_to_block s' = Map.empty" "allocated_blocks s' = allocated_blocks s" "max_blocks s' = max_blocks s"
    unfolding s' using more by (cases ?s2, cases s, simp)+
qed

text \<open>
  \<open>reset_prefix_cache\<close> is refused exactly while some block besides the null block is in use, and
  then changes nothing; when it succeeds no prefix index can serve any block any more: no block
  carries a hash of either kind or cached data, the identity index is empty, and the invariant
  still holds with the same blocks allocated.
\<close>

theorem reset_prefix_cache_forgets:
  assumes i: "paged_inv s"
  shows "(allocated_blocks s \<noteq> {null_block s} \<longrightarrow> reset_prefix_cache s = (False, s)) \<and>
    (allocated_blocks s = {null_block s} \<longrightarrow>
      (\<exists>s'. reset_prefix_cache s = (True, s') \<and> paged_inv s' \<and> allocated_blocks s' = allocated_blocks s \<and>
        hash_to_block s' = Map.empty \<and> (\<forall>h. filed s' h = {}) \<and>
        (\<forall>b\<in>all_blocks s. hash_value (heap s' b) = None \<and> cache_data (heap s' b) = None)))"
proof -
  obtain xs where p: "pinvx s xs {} 0" using i by (auto simp: paged_inv_def)
  note d = pinvxD [OF p]
  have "card (allocated_blocks s) + length xs = max_blocks s"
  proof -
    have "card (allocated_blocks s \<union> set xs) = card (allocated_blocks s) + card (set xs)"
      using d(2) pinvx_finite [OF p] by (intro card_Un_disjoint) auto
    then show ?thesis using d(5) distinct_card [OF qinv_distinct [OF d(1)]] by (simp add: all_blocks_def)
  qed
  moreover have "num_free_blocks s = int (length xs)" using qinvD(2) [OF d(1)] .
  moreover have "card (allocated_blocks s) \<le> 1 \<longleftrightarrow> allocated_blocks s = {null_block s}"
    using d(8) pinvx_finite [OF p] by (auto simp: card_le_Suc0_iff_eq)
  ultimately have used: "1 < int (max_blocks s) - num_free_blocks s \<longleftrightarrow> allocated_blocks s \<noteq> {null_block s}"
    by linarith
  show ?thesis
  proof (cases "allocated_blocks s = {null_block s}")
    case False
    then show ?thesis using used by (simp add: reset_prefix_cache_def)
  next
    case True
    then obtain s' where r: "reset_prefix_cache s = (True, s')"
      using used by (simp add: reset_prefix_cache_def Let_def)
    note h = reset_prefix_heap [OF r]
    have "paged_inv s'" using reset_prefix_cache_inv [OF i] r by simp
    moreover have "filed s' h = {}" for h
      by (auto simp: filed_def all_blocks_def h(1,4))
    ultimately show ?thesis using True r h by simp
  qed
qed

lemma reset_prefix_cache_forgets_witness:
  "\<exists>s'. reset_prefix_cache (fresh_manager 2 4 True :: nat manager) = (True, s') \<and> hash_to_block s' = Map.empty"
proof -
  let ?s = "fresh_manager 2 4 True :: nat manager"
  have "allocated_blocks ?s = {null_block ?s}" by code_simp
  then show ?thesis using reset_prefix_cache_forgets [OF fresh_manager_inv, of 4 2 True] by auto
qed

end
