(* ===== verification/RadixIndex.thy ===== *)
theory RadixIndex
  imports Prelude "HOL-Library.AList" "HOL-Library.Sublist"
begin

text \<open>
  \<^bold>\<open>rapid_mlx/runtime/radix_index.py: RadixPrefixIndex.\<close> A node's \<open>children\<close> dictionary is an
  association list in insertion order (\<open>AList.update\<close> keeps a key's place, a new key goes to the
  end). The loops that walk from the root along the tokens are recursions on the token list; the
  statistics they update on the way are threaded through. \<open>remove\<close> walks back up the path, which is the
  return of the recursion. Lookup latencies, the lock, and the file system around \<open>save\<close> and
  \<open>load\<close> are left out: \<open>save\<close> is the JSON value it writes, \<open>load\<close> takes the JSON value it read.
\<close>

section \<open>State\<close>

datatype radix_node = Node
  (children: "(int \<times> radix_node) list") (is_terminal: bool) (node_ref_count: int)

record radix_stats =
  rs_hits :: int
  rs_misses :: int
  rs_inserts :: int
  rs_removes :: int
  deduped_prefix_bytes_saved :: int
  node_count :: int
  entry_count :: int
  max_depth :: int

record radix_index =
  root :: radix_node
  rstats :: radix_stats

definition new_node :: radix_node where
  "new_node = Node [] False 0"

definition radix_init :: radix_index where
  "radix_init = \<lparr>root = new_node, rstats = \<lparr>rs_hits = 0, rs_misses = 0, rs_inserts = 0, rs_removes = 0,
     deduped_prefix_bytes_saved = 0, node_count = 0, entry_count = 0, max_depth = 0\<rparr>\<rparr>"

definition BYTES_PER_TOKEN_INT32 :: int where "BYTES_PER_TOKEN_INT32 = 4"

definition RADIX_INDEX_VERSION :: int where "RADIX_INDEX_VERSION = 1"

fun add_ref :: "int \<Rightarrow> radix_node \<Rightarrow> radix_node" where
  "add_ref k (Node ch tm rc) = Node ch tm (rc + k)"

section \<open>Mutation\<close>

fun insert_path :: "int list \<Rightarrow> int \<Rightarrow> int \<Rightarrow> bool \<Rightarrow> radix_node \<Rightarrow> radix_stats \<Rightarrow>
    radix_node \<times> int \<times> radix_stats" where
  "insert_path [] depth shared still (Node ch tm rc) st =
     (Node ch True rc, shared, if tm then st else st\<lparr>entry_count := entry_count st + 1\<rparr>)"
| "insert_path (tok # toks) depth shared still (Node ch tm rc) st =
     (let (child, ch1, st1, still1, shared1) = (case map_of ch tok of
          None \<Rightarrow> (new_node, AList.update tok new_node ch, st\<lparr>node_count := node_count st + 1\<rparr>, False, shared)
        | Some c \<Rightarrow> (c, ch, st, still, if still then shared + 1 else shared));
          st2 = (if max_depth st1 < depth + 1 then st1\<lparr>max_depth := depth + 1\<rparr> else st1);
          (child2, sh, st3) = insert_path toks (depth + 1) shared1 still1 (add_ref 1 child) st2
      in (Node (AList.update tok child2 ch1) tm rc, sh, st3))"

definition radix_insert :: "int list \<Rightarrow> radix_index \<Rightarrow> radix_index" where
  "radix_insert tokens idx =
     (if tokens = [] then idx
      else let (r, shared, st) = insert_path tokens 0 0 True (root idx) (rstats idx) in
        \<lparr>root = r, rstats = st\<lparr>rs_inserts := rs_inserts st + 1,
           deduped_prefix_bytes_saved := deduped_prefix_bytes_saved st + shared * BYTES_PER_TOKEN_INT32\<rparr>\<rparr>)"

text \<open>The removal along the path: the new subtree and the number of nodes pruned below its root.\<close>

fun remove_path :: "int list \<Rightarrow> radix_node \<Rightarrow> (radix_node \<times> int) option" where
  "remove_path [] (Node ch tm rc) = (if tm then Some (Node ch False rc, 0) else None)"
| "remove_path (tok # toks) (Node ch tm rc) =
     (case map_of ch tok of
        None \<Rightarrow> None
      | Some child \<Rightarrow>
          (case remove_path toks child of
             None \<Rightarrow> None
           | Some (child1, pruned) \<Rightarrow>
               let child2 = add_ref (- 1) child1 in
               if node_ref_count child2 \<le> 0 \<and> children child2 = []
               then Some (Node (AList.delete tok ch) tm rc, pruned + 1)
               else Some (Node (AList.update tok child2 ch) tm rc, pruned)))"

definition radix_remove :: "int list \<Rightarrow> radix_index \<Rightarrow> bool \<times> radix_index" where
  "radix_remove tokens idx =
     (if tokens = [] then (False, idx)
      else case remove_path tokens (root idx) of
        None \<Rightarrow> (False, idx)
      | Some (r, pruned) \<Rightarrow>
          let st = rstats idx in
          (True, \<lparr>root = r, rstats = st\<lparr>entry_count := entry_count st - 1,
             rs_removes := rs_removes st + 1, node_count := node_count st - pruned\<rparr>\<rparr>))"

definition radix_clear :: "radix_index \<Rightarrow> radix_index" where
  "radix_clear idx = \<lparr>root = new_node,
     rstats = (rstats idx)\<lparr>node_count := 0, entry_count := 0, max_depth := 0\<rparr>\<rparr>"

definition rebuild_from_keys :: "int list list \<Rightarrow> radix_index \<Rightarrow> radix_index" where
  "rebuild_from_keys keys idx = fold radix_insert keys (radix_clear idx)"

section \<open>Lookup\<close>

fun prefix_walk :: "int list \<Rightarrow> radix_node \<Rightarrow> int list \<Rightarrow> nat \<Rightarrow> int list \<times> nat" where
  "prefix_walk [] node matched last_terminal = (matched, last_terminal)"
| "prefix_walk (tok # toks) node matched last_terminal =
     (case map_of (children node) tok of
        None \<Rightarrow> (matched, last_terminal)
      | Some child \<Rightarrow>
          let matched1 = matched @ [tok] in
          prefix_walk toks child matched1 (if is_terminal child then length matched1 else last_terminal))"

definition longest_prefix :: "int list \<Rightarrow> radix_index \<Rightarrow> (int list \<times> int list option) \<times> radix_index" where
  "longest_prefix query idx =
     (case prefix_walk query (root idx) [] 0 of
        (matched, last_terminal) \<Rightarrow>
          let st = rstats idx in
          if 0 < last_terminal
          then ((take last_terminal matched, Some (take last_terminal matched)),
                idx\<lparr>rstats := st\<lparr>rs_hits := rs_hits st + 1\<rparr>\<rparr>)
          else ((matched, None), idx\<lparr>rstats := st\<lparr>rs_misses := rs_misses st + 1\<rparr>\<rparr>))"

fun node_contains :: "radix_node \<Rightarrow> int list \<Rightarrow> bool" where
  "node_contains node [] = is_terminal node"
| "node_contains node (tok # toks) =
     (case map_of (children node) tok of None \<Rightarrow> False | Some child \<Rightarrow> node_contains child toks)"

definition radix_contains :: "radix_index \<Rightarrow> int list \<Rightarrow> bool" where
  "radix_contains idx tokens = node_contains (root idx) tokens"

definition radix_len :: "radix_index \<Rightarrow> int" where
  "radix_len idx = entry_count (rstats idx)"

section \<open>Persistence\<close>

text \<open>The explicit stack, its top first; the children are pushed in order, so the last is on top.\<close>

function collect_keys :: "(radix_node \<times> int list) list \<Rightarrow> int list list" where
  "collect_keys [] = []"
| "collect_keys ((Node ch tm rc, path) # stack) =
     (if tm then [path] else []) @
     collect_keys (rev (map (\<lambda>(tok, child). (child, path @ [tok])) ch) @ stack)"
  by pat_completeness auto

termination
proof (relation "measure (\<lambda>st. sum_list (map (Suc \<circ> size \<circ> fst) st))")
  fix ch :: "(int \<times> radix_node) list" and tm rc and path :: "int list" and stack
  have "sum_list (map (Suc \<circ> size \<circ> fst) (map (\<lambda>(tok, child). (child, path @ [tok])) ch)) \<le>
      size_list (size_prod (\<lambda>_. 0) size) ch"
    by (induction ch) auto
  then show "(rev (map (\<lambda>(tok, child). (child, path @ [tok])) ch) @ stack, (Node ch tm rc, path) # stack)
      \<in> measure (\<lambda>st. sum_list (map (Suc \<circ> size \<circ> fst) st))"
    by (simp add: rev_map [symmetric] sum_list_rev)
qed simp

definition collect_terminal_keys :: "radix_index \<Rightarrow> int list list" where
  "collect_terminal_keys idx = collect_keys [(root idx, [])]"

datatype json = JNull | JBool bool | JInt int | JReal rat | JStr string
  | JList "json list" | JDict "(string \<times> json) list"

text \<open>What \<open>save\<close> writes; \<open>now\<close> is \<open>time.time()\<close>.\<close>

definition save_payload :: "rat \<Rightarrow> radix_index \<Rightarrow> json" where
  "save_payload now idx =
     (let keys = collect_terminal_keys idx in
      JDict [(''version'', JInt RADIX_INDEX_VERSION), (''saved_at'', JReal now),
        (''entry_count'', JInt (int (length keys))), (''node_count'', JInt (node_count (rstats idx))),
        (''deduped_prefix_bytes_saved'', JInt (deduped_prefix_bytes_saved (rstats idx))),
        (''keys'', JList (map (\<lambda>k. JList (map JInt k)) keys))])"

text \<open>\<open>isinstance(t, int)\<close>: Python's booleans are integers.\<close>

fun as_int :: "json \<Rightarrow> int option" where
  "as_int (JInt i) = Some i"
| "as_int (JBool b) = Some (if b then 1 else 0)"
| "as_int _ = None"

text \<open>\<open>payload.get("version") != 1\<close> is numeric: \<open>true\<close> and \<open>1.0\<close> compare equal to \<open>1\<close>.\<close>

fun version_ok :: "json option \<Rightarrow> bool" where
  "version_ok (Some (JInt i)) = (i = RADIX_INDEX_VERSION)"
| "version_ok (Some (JBool b)) = b"
| "version_ok (Some (JReal r)) = (r = of_int RADIX_INDEX_VERSION)"
| "version_ok _ = False"

fun parse_keys :: "json list \<Rightarrow> int list list" where
  "parse_keys [] = []"
| "parse_keys (JList raw # rest) =
     (case those (map as_int raw) of Some k \<Rightarrow> k # parse_keys rest | None \<Rightarrow> parse_keys rest)"
| "parse_keys (_ # rest) = parse_keys rest"

text \<open>\<open>None\<close> stands for a missing or unreadable file.\<close>

definition radix_load :: "json option \<Rightarrow> radix_index \<Rightarrow> bool \<times> radix_index" where
  "radix_load file idx =
     (case file of
        Some (JDict payload) \<Rightarrow>
          if \<not> version_ok (map_of payload ''version'') then (False, idx)
          else (case map_of payload ''keys'' of
              Some (JList raw) \<Rightarrow> (True, rebuild_from_keys (parse_keys raw) idx)
            | _ \<Rightarrow> (False, idx))
      | _ \<Rightarrow> (False, idx))"

end
