(* ===== verification/RadixCorrect.thy ===== *)
theory RadixCorrect
  imports RadixIndex
begin

text \<open>
  The radix index is a finite set of token sequences. \<open>find_node\<close> follows a path; \<open>count_if P\<close> counts the
  nodes with property \<open>P\<close> and is the size of the set of paths that reach one. \<open>over\<close>: no node
  counts fewer entries than run through it (what every history keeps); \<open>exact\<close>: every node counts
  exactly the entries through it, and at least one (what histories that never insert a present
  sequence keep).
\<close>

section \<open>Paths\<close>

fun find_node :: "radix_node \<Rightarrow> int list \<Rightarrow> radix_node option" where
  "find_node n [] = Some n"
| "find_node n (t # ts) = (case map_of (children n) t of None \<Rightarrow> None | Some c \<Rightarrow> find_node c ts)"

fun count_if :: "(radix_node \<Rightarrow> bool) \<Rightarrow> radix_node \<Rightarrow> int" where
  "count_if P (Node ch tm rc) =
     (if P (Node ch tm rc) then 1 else 0) + sum_list (map (\<lambda>(t, c). count_if P c) ch)"

fun wf_node :: "radix_node \<Rightarrow> bool" where
  "wf_node (Node ch tm rc) \<longleftrightarrow> distinct (map fst ch) \<and> list_all (\<lambda>(t, c). wf_node c) ch"

fun over :: "radix_node \<Rightarrow> bool" where
  "over (Node ch tm rc) \<longleftrightarrow>
     list_all (\<lambda>(t, c). over c \<and> count_if is_terminal c \<le> node_ref_count c) ch"

fun exact :: "radix_node \<Rightarrow> bool" where
  "exact (Node ch tm rc) \<longleftrightarrow> list_all (\<lambda>(t, c). exact c \<and>
     node_ref_count c = count_if is_terminal c \<and> 0 < node_ref_count c) ch"

lemma node_contains_find:
  "node_contains n p \<longleftrightarrow> (case find_node n p of None \<Rightarrow> False | Some m \<Rightarrow> is_terminal m)"
  by (induction n p rule: node_contains.induct) (auto split: option.splits)

lemma node_contains_iff: "node_contains n p \<longleftrightarrow> (\<exists>m. find_node n p = Some m \<and> is_terminal m)"
  by (auto simp: node_contains_find split: option.splits)

lemma count_if_nonneg: "0 \<le> count_if P n"
proof (induction P n rule: count_if.induct)
  case (1 P ch tm rc)
  then have "0 \<le> sum_list (map (\<lambda>(t, c). count_if P c) ch)" by (intro sum_list_nonneg) fastforce
  then show ?case by simp
qed

lemma sum_list_assoc_card:
  assumes "distinct (map fst ch)" and "\<forall>(t, c)\<in>set ch. finite (A c) \<and> f c = int (card (A c))"
  shows "finite (\<Union>(t, c)\<in>set ch. (#) t ` A c) \<and>
    sum_list (map (\<lambda>(t, c). f c) ch) = int (card (\<Union>(t, c)\<in>set ch. (#) t ` A c))"
  using assms
proof (induction ch)
  case (Cons x ch)
  obtain t c where x: "x = (t, c)" by fastforce
  have "((#) t ` A c) \<inter> (\<Union>(t, c)\<in>set ch. (#) t ` A c) = {}"
    using Cons.prems(1) x by (force simp: rev_image_eqI)
  moreover have "card ((#) t ` A c) = card (A c)" by (rule card_image) simp
  ultimately show ?case using Cons x by (auto simp: card_Un_disjoint)
qed simp

lemma count_if_card:
  "wf_node n \<Longrightarrow> finite {p. \<exists>m. find_node n p = Some m \<and> P m} \<and>
     count_if P n = int (card {p. \<exists>m. find_node n p = Some m \<and> P m})"
proof (induction n rule: wf_node.induct)
  case (1 ch tm rc)
  let ?A = "\<lambda>c. {p. \<exists>m. find_node c p = Some m \<and> P m}"
  let ?U = "\<Union>(t, c)\<in>set ch. (#) t ` ?A c"
  have d: "distinct (map fst ch)" using "1.prems" by simp
  have "\<forall>(t, c)\<in>set ch. finite (?A c) \<and> count_if P c = int (card (?A c))"
    using 1 by (fastforce simp: list_all_iff)
  note U = sum_list_assoc_card [OF d this]
  have "{p. \<exists>m. find_node (Node ch tm rc) p = Some m \<and> P m} = (if P (Node ch tm rc) then {[]} else {}) \<union> ?U"
    (is "?L = ?R")
  proof (rule set_eqI)
    fix p
    show "p \<in> ?L \<longleftrightarrow> p \<in> ?R"
      using d by (cases p) (auto split: option.splits simp: map_of_eq_Some_iff dest: eq_key_imp_eq_value)
  qed
  moreover have "[] \<notin> ?U" by auto
  ultimately show ?case using U by auto
qed

section \<open>Association lists\<close>

lemma update_update: "AList.update k v (AList.update k w al) = AList.update k v al"
  by (induction al) auto

lemma set_update: "set (AList.update k v al) \<subseteq> insert (k, v) (set al)"
  by (induction al) auto

lemma list_all_update: "list_all P al \<Longrightarrow> P (k, v) \<Longrightarrow> list_all P (AList.update k v al)"
  using set_update [of k v al] by (auto simp: list_all_iff)

lemma list_all_delete: "list_all P al \<Longrightarrow> list_all P (AList.delete k al)"
  by (auto simp: list_all_iff AList.delete_eq)

lemma sum_update: "sum_list (map (\<lambda>(t, c). f c) (AList.update t c' ch)) =
    sum_list (map (\<lambda>(t, c). f c) ch) + f c' - (case map_of ch t of None \<Rightarrow> 0 | Some c \<Rightarrow> f c)"
  for f :: "'b \<Rightarrow> int"
  by (induction ch) (auto split: option.splits)

lemma delete_absent: "k \<notin> fst ` set al \<Longrightarrow> AList.delete k al = al"
  by (induction al) auto

lemma sum_delete: "distinct (map fst ch) \<Longrightarrow> map_of ch t = Some c \<Longrightarrow>
    sum_list (map (\<lambda>(t, c). f c) (AList.delete t ch)) = sum_list (map (\<lambda>(t, c). f c) ch) - f c"
  for f :: "'b \<Rightarrow> int"
  by (induction ch) (auto simp: delete_absent split: if_splits)

lemma child_in: "map_of ch t = Some c \<Longrightarrow> list_all P ch \<Longrightarrow> P (t, c)"
  by (auto simp: list_all_iff dest: map_of_SomeD)

lemma add_ref_simps [simp]:
  "children (add_ref k n) = children n" "is_terminal (add_ref k n) = is_terminal n"
  "node_ref_count (add_ref k n) = node_ref_count n + k"
  by (cases n; simp)+

lemma add_ref_preds [simp]:
  "wf_node (add_ref k n) = wf_node n" "over (add_ref k n) = over n" "exact (add_ref k n) = exact n"
  "count_if is_terminal (add_ref k n) = count_if is_terminal n"
  "count_if (\<lambda>_. True) (add_ref k n) = count_if (\<lambda>_. True) n"
  "node_contains (add_ref k n) p = node_contains n p"
  by (cases n; cases p; simp)+

section \<open>Insertion\<close>

text \<open>The tree \<open>insert_path\<close> returns, without the statistics.\<close>

definition child_at :: "int \<Rightarrow> (int \<times> radix_node) list \<Rightarrow> radix_node" where
  "child_at t ch = (case map_of ch t of None \<Rightarrow> new_node | Some c \<Rightarrow> c)"

fun grown :: "int list \<Rightarrow> radix_node \<Rightarrow> radix_node" where
  "grown [] (Node ch tm rc) = Node ch True rc"
| "grown (t # ts) (Node ch tm rc) =
     Node (AList.update t (grown ts (add_ref 1 (child_at t ch))) ch) tm rc"

lemma child_at_cases:
  "map_of ch t = None \<Longrightarrow> child_at t ch = new_node" "map_of ch t = Some c \<Longrightarrow> child_at t ch = c"
  by (simp_all add: child_at_def)

lemma insert_path_tree: "fst (insert_path toks d sh still n st) = grown toks n"
proof (induction toks arbitrary: d sh still n st)
  case Nil
  then show ?case by (cases n) simp
next
  case (Cons t ts)
  obtain ch tm rc where n: "n = Node ch tm rc" by (cases n)
  show ?case
    by (cases "map_of ch t") (simp_all add: n child_at_cases Cons.IH update_update Let_def case_prod_beta)
qed

lemma grown_ref [simp]: "node_ref_count (grown toks n) = node_ref_count n"
  by (cases n; cases toks) simp_all

lemma new_node_simps [simp]:
  "wf_node new_node" "over new_node" "exact new_node" "count_if is_terminal new_node = 0"
  "children new_node = []" "node_ref_count new_node = 0" "node_contains new_node p = False"
  "count_if (\<lambda>_. True) new_node = 1"
  by (cases p; simp add: new_node_def)+

lemma child_at_preds:
  "list_all (\<lambda>(t, c). Q c) ch \<Longrightarrow> Q new_node \<Longrightarrow> Q (child_at t ch)"
  by (auto simp: child_at_def split: option.splits dest: child_in)

lemma grown_contains: "node_contains (grown toks n) q \<longleftrightarrow> q = toks \<or> node_contains n q"
proof (induction toks n arbitrary: q rule: grown.induct)
  case (1 ch tm rc)
  then show ?case by (cases q) auto
next
  case (2 t ts ch tm rc)
  then show ?case
    by (cases q) (auto simp: child_at_def update_conv' split: option.splits)
qed

lemma list_all_child:
  "list_all (\<lambda>(t, c). Q t c) ch \<Longrightarrow> Q t c' \<Longrightarrow> list_all (\<lambda>(t, c). Q t c) (AList.update t c' ch)"
  by (rule list_all_update) simp_all

lemma grown_wf: "wf_node n \<Longrightarrow> wf_node (grown toks n)"
proof (induction toks n rule: grown.induct)
  case (2 t ts ch tm rc)
  then have "wf_node (child_at t ch)" by - (rule child_at_preds, simp_all)
  then have "wf_node (grown ts (add_ref 1 (child_at t ch)))" using 2(1) by simp
  then show ?case using 2(2) by (simp add: list_all_child distinct_update)
qed simp

lemma count_grown:
  "count_if is_terminal (Node (AList.update t c ch) tm rc) =
     count_if is_terminal (Node ch tm rc) + count_if is_terminal c - count_if is_terminal (child_at t ch)"
  "count_if (\<lambda>_. True) (Node (AList.update t c ch) tm rc) =
     count_if (\<lambda>_. True) (Node ch tm rc) + count_if (\<lambda>_. True) c -
       (case map_of ch t of None \<Rightarrow> 0 | Some d \<Rightarrow> count_if (\<lambda>_. True) d)"
  by (simp_all add: sum_update child_at_def split: option.splits)

lemma child_at_contains: "node_contains (Node ch tm rc) (t # ts) \<longleftrightarrow> node_contains (child_at t ch) ts"
  by (simp add: child_at_def split: option.splits)

lemma grown_keys: "count_if is_terminal (grown toks n) =
    count_if is_terminal n + (if node_contains n toks then 0 else 1)"
proof (induction toks n rule: grown.induct)
  case (2 t ts ch tm rc)
  show ?case unfolding grown.simps count_grown 2 child_at_contains by simp
qed simp

lemma grown_over: "wf_node n \<Longrightarrow> over n \<Longrightarrow> over (grown toks n)"
proof (induction toks n rule: grown.induct)
  case (2 t ts ch tm rc)
  let ?c = "grown ts (add_ref 1 (child_at t ch))"
  have "list_all (\<lambda>(t, c). wf_node c \<and> over c \<and> count_if is_terminal c \<le> node_ref_count c) ch"
    using 2(2,3) by (auto simp: list_all_iff)
  then have c: "wf_node (child_at t ch) \<and> over (child_at t ch) \<and>
      count_if is_terminal (child_at t ch) \<le> node_ref_count (child_at t ch)"
    by (rule child_at_preds) simp
  then have "over ?c" using 2(1) by simp
  moreover have "count_if is_terminal ?c \<le> node_ref_count ?c" using c by (simp add: grown_keys)
  ultimately show ?case using 2(3) by (simp add: list_all_child)
qed simp

lemma grown_exact: "wf_node n \<Longrightarrow> exact n \<Longrightarrow> \<not> node_contains n toks \<Longrightarrow> exact (grown toks n)"
proof (induction toks n rule: grown.induct)
  case (2 t ts ch tm rc)
  let ?c = "grown ts (add_ref 1 (child_at t ch))"
  have "list_all (\<lambda>(t, c). wf_node c \<and> exact c \<and> node_ref_count c = count_if is_terminal c) ch"
    using 2(2,3) by (auto simp: list_all_iff)
  then have c: "wf_node (child_at t ch) \<and> exact (child_at t ch) \<and>
      node_ref_count (child_at t ch) = count_if is_terminal (child_at t ch)"
    by (rule child_at_preds) simp
  have nc: "\<not> node_contains (child_at t ch) ts" using 2(4) unfolding child_at_contains .
  have "exact ?c" using 2(1) c nc by simp
  moreover have "node_ref_count ?c = count_if is_terminal ?c" using c nc by (simp add: grown_keys)
  moreover have "0 < node_ref_count ?c" using c count_if_nonneg [of is_terminal "child_at t ch"] by simp
  ultimately show ?case using 2(3) by (simp add: list_all_child)
qed simp

text \<open>The statistics of the walk.\<close>

lemma insert_path_counts:
  assumes "insert_path toks d sh still n st = (n', sh', st')"
  shows "entry_count st' = entry_count st + (if node_contains n toks then 0 else 1) \<and>
    node_count st' = node_count st + count_if (\<lambda>_. True) (grown toks n) - count_if (\<lambda>_. True) n"
  using assms
proof (induction toks arbitrary: d sh still n st n')
  case Nil
  then show ?case by (cases n) auto
next
  case (Cons t ts)
  obtain ch tm rc where n: "n = Node ch tm rc" by (cases n)
  show ?case
  proof (cases "map_of ch t")
    case None
    let ?st = "st\<lparr>node_count := node_count st + 1\<rparr>"
    let ?st2 = "if max_depth ?st < d + 1 then ?st\<lparr>max_depth := d + 1\<rparr> else ?st"
    obtain c where "insert_path ts (d + 1) sh False (add_ref 1 new_node) ?st2 = (c, sh', st')"
      using Cons.prems None by (auto simp: n Let_def case_prod_beta prod_eq_iff)
    from Cons.IH [OF this] None show ?thesis
      by (simp only: n grown.simps count_grown child_at_cases) (simp add: child_at_cases)
  next
    case (Some c0)
    let ?st2 = "if max_depth st < d + 1 then st\<lparr>max_depth := d + 1\<rparr> else st"
    obtain c where "insert_path ts (d + 1) (if still then sh + 1 else sh) still (add_ref 1 c0) ?st2 = (c, sh', st')"
      using Cons.prems Some by (auto simp: n Let_def case_prod_beta prod_eq_iff)
    from Cons.IH [OF this] Some show ?thesis
      by (simp only: n grown.simps count_grown child_at_cases) (simp add: child_at_cases)
  qed
qed

section \<open>Removal\<close>

lemma remove_path_none: "remove_path toks n = None \<longleftrightarrow> \<not> node_contains n toks"
  by (induction toks n rule: remove_path.induct) (auto simp: Let_def split: option.splits)

lemma count_leaf:
  assumes "children c = []"
  shows "count_if is_terminal c = (if is_terminal c then 1 else 0)" "count_if (\<lambda>_. True) c = 1"
    "node_contains c q \<longleftrightarrow> q = [] \<and> is_terminal c"
  using assms by (cases c; cases q; simp)+

lemma count_delete:
  assumes "distinct (map fst ch)" and "map_of ch t = Some c"
  shows "count_if is_terminal (Node (AList.delete t ch) tm rc) =
      count_if is_terminal (Node ch tm rc) - count_if is_terminal c"
    and "count_if (\<lambda>_. True) (Node (AList.delete t ch) tm rc) =
      count_if (\<lambda>_. True) (Node ch tm rc) - count_if (\<lambda>_. True) c"
  using assms by (simp_all add: sum_delete)

lemma exact_child_pos: "exact n \<Longrightarrow> children n \<noteq> [] \<Longrightarrow> 0 < count_if is_terminal n"
proof (cases n)
  case (Node ch tm rc)
  assume "exact n" "children n \<noteq> []"
  then obtain t c ds where ch: "ch = (t, c) # ds" "0 < count_if is_terminal c"
    unfolding Node by (cases ch) auto
  have "0 \<le> sum_list (map (\<lambda>(t, c). count_if is_terminal c) ds)"
    by (intro sum_list_nonneg) (auto simp: count_if_nonneg)
  then show ?thesis using ch by (simp add: Node)
qed

lemma remove_path_spec:
  assumes "remove_path toks n = Some (n', k)" and "wf_node n" and "over n"
  shows "wf_node n' \<and> over n' \<and> node_ref_count n' = node_ref_count n \<and>
    (\<forall>q. node_contains n' q \<longleftrightarrow> node_contains n q \<and> q \<noteq> toks) \<and>
    count_if is_terminal n' = count_if is_terminal n - 1 \<and>
    count_if (\<lambda>_. True) n' = count_if (\<lambda>_. True) n - k \<and> (exact n \<longrightarrow> exact n')"
  using assms
proof (induction toks n arbitrary: n' k rule: remove_path.induct)
  case (1 ch tm rc)
  then have n': "n' = Node ch False rc" "k = 0" "tm" by (auto split: if_splits)
  have "node_contains (Node ch False rc) q \<longleftrightarrow> node_contains (Node ch tm rc) q \<and> q \<noteq> []" for q
    by (cases q) auto
  with 1 n' show ?case by simp
next
  case (2 t ts ch tm rc)
  obtain c where c: "map_of ch t = Some c" using "2.prems"(1) by (auto split: option.splits)
  obtain c1 p where c1: "remove_path ts c = Some (c1, p)"
    using "2.prems"(1) c by (auto split: option.splits)
  have d: "distinct (map fst ch)" using "2.prems"(2) by simp
  have wc: "wf_node c" using child_in [OF c, of "\<lambda>(t, c). wf_node c"] "2.prems"(2) by simp
  have oc: "over c" "count_if is_terminal c \<le> node_ref_count c"
    using child_in [OF c, of "\<lambda>(t, c). over c \<and> count_if is_terminal c \<le> node_ref_count c"] "2.prems"(3)
    by simp_all
  from "2.IH" [OF c c1 wc oc(1)] have ih: "wf_node c1" "over c1" "node_ref_count c1 = node_ref_count c"
    "\<And>q. node_contains c1 q \<longleftrightarrow> node_contains c q \<and> q \<noteq> ts"
    "count_if is_terminal c1 = count_if is_terminal c - 1"
    "count_if (\<lambda>_. True) c1 = count_if (\<lambda>_. True) c - p" "exact c \<Longrightarrow> exact c1" by auto
  have ec: "exact c \<and> node_ref_count c = count_if is_terminal c" if "exact (Node ch tm rc)"
    using child_in [OF c, of "\<lambda>(t, c). exact c \<and> node_ref_count c = count_if is_terminal c \<and> 0 < node_ref_count c"]
      that by simp
  let ?c2 = "add_ref (- 1) c1"
  have cnt: "node_contains (Node ch tm rc) q \<longleftrightarrow> (case q of [] \<Rightarrow> tm | x # xs \<Rightarrow>
      (case map_of ch x of None \<Rightarrow> False | Some c \<Rightarrow> node_contains c xs))" for q ch by (cases q) simp_all
  show ?case
  proof (cases "node_ref_count ?c2 \<le> 0 \<and> children ?c2 = []")
    case True
    then have n': "n' = Node (AList.delete t ch) tm rc" "k = p + 1"
      using "2.prems"(1) c c1 by (auto simp: Let_def)
    have leaf: "children c1 = []" using True by simp
    have nt: "\<not> is_terminal c1" using count_leaf(1) [OF leaf] True oc(2) ih(3,5) by (auto split: if_splits)
    have "node_contains n' q \<longleftrightarrow> node_contains (Node ch tm rc) q \<and> q \<noteq> t # ts" for q
      using ih(4) c count_leaf(3) [OF leaf] nt
      by (cases q) (auto simp: n' delete_conv' split: option.splits)
    moreover have "count_if is_terminal n' = count_if is_terminal (Node ch tm rc) - 1"
      using count_leaf(1) [OF leaf] nt ih(5) by (simp add: n' count_delete [OF d c] del: count_if.simps)
    moreover have "count_if (\<lambda>_. True) n' = count_if (\<lambda>_. True) (Node ch tm rc) - k"
      using count_leaf(2) [OF leaf] ih(6) by (simp add: n' count_delete [OF d c] del: count_if.simps)
    ultimately show ?thesis
      using "2.prems"(2,3) by (simp add: n' list_all_delete distinct_delete del: count_if.simps)
  next
    case False
    then have n': "n' = Node (AList.update t ?c2 ch) tm rc" "k = p"
      using "2.prems"(1) c c1 by (auto simp: Let_def)
    have "node_contains n' q \<longleftrightarrow> node_contains (Node ch tm rc) q \<and> q \<noteq> t # ts" for q
      using ih(4) c by (cases q) (auto simp: n' update_conv' split: option.splits)
    moreover have "count_if is_terminal n' = count_if is_terminal (Node ch tm rc) - 1"
      unfolding n' count_grown child_at_cases(2) [OF c] using ih(5) by simp
    moreover have "count_if (\<lambda>_. True) n' = count_if (\<lambda>_. True) (Node ch tm rc) - k"
      unfolding n' count_grown c using ih(6) by simp
    moreover have "exact n'" if e: "exact (Node ch tm rc)"
    proof -
      have "exact c1" "node_ref_count ?c2 = count_if is_terminal ?c2" using ec [OF e] ih(3,5,7) by simp_all
      moreover have "0 < node_ref_count ?c2"
        using False exact_child_pos [of c1] calculation by auto
      ultimately show ?thesis using e by (simp add: n' list_all_child)
    qed
    moreover have "over n'" using "2.prems"(3) ih(2,3,5) oc(2) by (simp add: n' list_all_child)
    moreover have "wf_node n'" using "2.prems"(2) ih(1) by (simp add: n' list_all_child distinct_update)
    ultimately show ?thesis by (simp add: n' del: count_if.simps)
  qed
qed

section \<open>The index\<close>

definition radix_inv :: "radix_index \<Rightarrow> bool" where
  "radix_inv idx \<longleftrightarrow> wf_node (root idx) \<and> over (root idx) \<and> \<not> is_terminal (root idx) \<and>
     entry_count (rstats idx) = count_if is_terminal (root idx) \<and>
     node_count (rstats idx) = count_if (\<lambda>_. True) (root idx) - 1"

definition radix_exact :: "radix_index \<Rightarrow> bool" where
  "radix_exact idx \<longleftrightarrow> radix_inv idx \<and> exact (root idx)"

lemma grown_terminal: "toks \<noteq> [] \<Longrightarrow> is_terminal (grown toks n) = is_terminal n"
  by (cases n; cases toks) simp_all

lemma radix_insert_root:
  "toks \<noteq> [] \<Longrightarrow> root (radix_insert toks idx) = grown toks (root idx) \<and>
     entry_count (rstats (radix_insert toks idx)) =
       entry_count (rstats idx) + (if node_contains (root idx) toks then 0 else 1) \<and>
     node_count (rstats (radix_insert toks idx)) =
       node_count (rstats idx) + count_if (\<lambda>_. True) (grown toks (root idx)) - count_if (\<lambda>_. True) (root idx)"
  using insert_path_tree [of toks 0 0 True "root idx" "rstats idx"]
    insert_path_counts [of toks 0 0 True "root idx" "rstats idx"]
  by (auto simp: radix_insert_def Let_def split: prod.splits)

lemma radix_insert_inv: "radix_inv idx \<Longrightarrow> radix_inv (radix_insert toks idx)"
proof (cases "toks = []")
  case False
  assume "radix_inv idx"
  with radix_insert_root [OF False, of idx] show ?thesis
    by (simp add: radix_inv_def grown_wf grown_over grown_keys grown_terminal [OF False])
qed (simp add: radix_insert_def)

lemma radix_insert_exact:
  "radix_exact idx \<Longrightarrow> \<not> radix_contains idx toks \<Longrightarrow> radix_exact (radix_insert toks idx)"
  using radix_insert_root [of toks idx] radix_insert_inv [of idx toks]
  by (cases "toks = []") (auto simp: radix_exact_def radix_inv_def radix_contains_def radix_insert_def grown_exact)

lemma radix_insert_contains:
  "toks \<noteq> [] \<Longrightarrow> radix_contains (radix_insert toks idx) q \<longleftrightarrow> q = toks \<or> radix_contains idx q"
  using radix_insert_root [of toks idx] by (simp add: radix_contains_def grown_contains)

lemma radix_contains_nonempty: "radix_inv idx \<Longrightarrow> radix_contains idx q \<Longrightarrow> q \<noteq> []"
  by (auto simp: radix_inv_def radix_contains_def)

lemma remove_path_terminal:
  "remove_path toks n = Some (n', k) \<Longrightarrow> toks \<noteq> [] \<Longrightarrow> is_terminal n' = is_terminal n"
  by (cases n; cases toks) (auto simp: Let_def split: option.splits if_splits)

lemma radix_remove_spec:
  assumes i: "radix_inv idx" and r: "radix_remove toks idx = (v, idx')"
  shows "(v \<longleftrightarrow> radix_contains idx toks) \<and> radix_inv idx' \<and> (radix_exact idx \<longrightarrow> radix_exact idx') \<and>
    (\<forall>q. radix_contains idx' q \<longleftrightarrow> radix_contains idx q \<and> q \<noteq> toks)"
proof (cases "radix_contains idx toks")
  case False
  then have "remove_path toks (root idx) = None" by (simp add: remove_path_none radix_contains_def)
  then show ?thesis using i r False by (auto simp: radix_remove_def split: if_splits)
next
  case True
  then have ne: "toks \<noteq> []" using radix_contains_nonempty [OF i] by blast
  obtain n' k where p: "remove_path toks (root idx) = Some (n', k)"
    using True remove_path_none [of toks "root idx"] by (auto simp: radix_contains_def)
  have "wf_node (root idx)" "over (root idx)" using i by (simp_all add: radix_inv_def)
  note s = remove_path_spec [OF p this] and t = remove_path_terminal [OF p ne]
  have idx': "v" "root idx' = n'" "entry_count (rstats idx') = entry_count (rstats idx) - 1"
    "node_count (rstats idx') = node_count (rstats idx) - k"
    using r ne p by (auto simp: radix_remove_def Let_def)
  then show ?thesis using i s t True by (auto simp: radix_inv_def radix_exact_def radix_contains_def)
qed

lemma radix_clear_exact: "radix_exact (radix_clear idx)"
  by (simp add: radix_exact_def radix_inv_def radix_clear_def new_node_def)

lemma radix_init_exact: "radix_exact radix_init"
  by (simp add: radix_exact_def radix_inv_def radix_init_def new_node_def)

lemma fold_insert_spec:
  "radix_inv idx \<Longrightarrow> radix_inv (fold radix_insert keys idx) \<and>
     (\<forall>q. radix_contains (fold radix_insert keys idx) q \<longleftrightarrow> (q \<in> set keys \<and> q \<noteq> []) \<or> radix_contains idx q)"
proof (induction keys arbitrary: idx)
  case (Cons k ks)
  have "radix_contains (radix_insert k idx) q \<longleftrightarrow> (q = k \<and> q \<noteq> []) \<or> radix_contains idx q" for q
    using radix_insert_contains [of k idx q] by (cases "k = []") (auto simp: radix_insert_def)
  with Cons.IH [OF radix_insert_inv [OF Cons.prems, of k]] show ?case by auto
qed simp

lemma rebuild_spec:
  "radix_inv (rebuild_from_keys keys idx) \<and>
   (\<forall>q. radix_contains (rebuild_from_keys keys idx) q \<longleftrightarrow> q \<in> set keys \<and> q \<noteq> [])"
proof -
  have "radix_inv (radix_clear idx)" using radix_clear_exact by (simp add: radix_exact_def)
  moreover have "\<not> radix_contains (radix_clear idx) q" for q
    by (simp add: radix_contains_def radix_clear_def)
  ultimately show ?thesis using fold_insert_spec [of "radix_clear idx" keys] by (simp add: rebuild_from_keys_def)
qed

section \<open>Lookup\<close>

lemma prefix_walk_spec:
  "\<exists>d T. prefix_walk q n m lt = (m @ take d q, T) \<and> d \<le> length q \<and>
     find_node n (take d q) \<noteq> None \<and> (d < length q \<longrightarrow> find_node n (take (Suc d) q) = None) \<and>
     ((T = lt \<and> (\<forall>l. 0 < l \<and> l \<le> length q \<longrightarrow> \<not> node_contains n (take l q))) \<or>
      (\<exists>l. 0 < l \<and> l \<le> d \<and> T = length m + l \<and> node_contains n (take l q) \<and>
         (\<forall>l'. l < l' \<and> l' \<le> length q \<longrightarrow> \<not> node_contains n (take l' q))))"
proof (induction q arbitrary: n m lt)
  case Nil
  then show ?case by auto
next
  case (Cons t ts)
  show ?case
  proof (cases "map_of (children n) t")
    case None
    have "\<not> node_contains n (take l (t # ts))" if "0 < l" for l
      using that None by (cases l) auto
    then show ?thesis using None by (intro exI [of _ 0] exI [of _ lt]) auto
  next
    case (Some c)
    let ?lt = "if is_terminal c then length (m @ [t]) else lt"
    obtain d T where w: "prefix_walk ts c (m @ [t]) ?lt = ((m @ [t]) @ take d ts, T)" "d \<le> length ts"
      "find_node c (take d ts) \<noteq> None" "d < length ts \<longrightarrow> find_node c (take (Suc d) ts) = None"
      and e: "(T = ?lt \<and> (\<forall>l. 0 < l \<and> l \<le> length ts \<longrightarrow> \<not> node_contains c (take l ts))) \<or>
      (\<exists>l. 0 < l \<and> l \<le> d \<and> T = length (m @ [t]) + l \<and> node_contains c (take l ts) \<and>
         (\<forall>l'. l < l' \<and> l' \<le> length ts \<longrightarrow> \<not> node_contains c (take l' ts)))"
      using Cons.IH [of c "m @ [t]" ?lt] by blast
    have nc: "node_contains n (take l (t # ts)) \<longleftrightarrow> node_contains c (take (l - 1) ts)" if "0 < l" for l
      using that Some by (cases l) auto
    have c0: "node_contains c (take 0 ts) = is_terminal c" by simp
    have "(T = lt \<and> (\<forall>l. 0 < l \<and> l \<le> length (t # ts) \<longrightarrow> \<not> node_contains n (take l (t # ts)))) \<or>
      (\<exists>l. 0 < l \<and> l \<le> Suc d \<and> T = length m + l \<and> node_contains n (take l (t # ts)) \<and>
         (\<forall>l'. l < l' \<and> l' \<le> length (t # ts) \<longrightarrow> \<not> node_contains n (take l' (t # ts))))"
      using e
    proof
      assume a: "T = ?lt \<and> (\<forall>l. 0 < l \<and> l \<le> length ts \<longrightarrow> \<not> node_contains c (take l ts))"
      have z: "\<not> node_contains n (take l (t # ts))" if "1 < l" "l \<le> length (t # ts)" for l
        using a that by (simp add: nc)
      show ?thesis
      proof (cases "is_terminal c")
        case True
        then show ?thesis using a z nc [of 1] c0 by (intro disjI2 exI [of _ 1]) auto
      next
        case False
        have "\<not> node_contains n (take l (t # ts))" if "0 < l" "l \<le> length (t # ts)" for l
          using z [of l] nc [of 1] c0 False that by (cases "l = 1") auto
        then show ?thesis using a False by auto
      qed
    next
      assume "\<exists>l. 0 < l \<and> l \<le> d \<and> T = length (m @ [t]) + l \<and> node_contains c (take l ts) \<and>
         (\<forall>l'. l < l' \<and> l' \<le> length ts \<longrightarrow> \<not> node_contains c (take l' ts))"
      then obtain l where l: "0 < l" "l \<le> d" "T = length (m @ [t]) + l" "node_contains c (take l ts)"
        "\<forall>l'. l < l' \<and> l' \<le> length ts \<longrightarrow> \<not> node_contains c (take l' ts)" by blast
      have "\<not> node_contains n (take l' (t # ts))" if "Suc l < l'" "l' \<le> length (t # ts)" for l'
        using that spec [OF l(5), of "l' - 1"] nc [of l'] by auto
      then show ?thesis using l nc [of "Suc l"] by (intro disjI2 exI [of _ "Suc l"]) auto
    qed
    moreover have "prefix_walk (t # ts) n m lt = (m @ take (Suc d) (t # ts), T)"
      using w(1) Some by (simp add: Let_def)
    moreover have "Suc d \<le> length (t # ts)" "find_node n (take (Suc d) (t # ts)) \<noteq> None"
      "Suc d < length (t # ts) \<longrightarrow> find_node n (take (Suc (Suc d)) (t # ts)) = None"
      using w(2-4) Some by simp_all
    ultimately show ?thesis by blast
  qed
qed

text \<open>The key \<open>longest_prefix\<close> returns.\<close>

definition best_key :: "radix_index \<Rightarrow> int list \<Rightarrow> int list option" where
  "best_key idx q = snd (fst (longest_prefix q idx))"

lemma prefix_take_iff: "prefix k q \<longleftrightarrow> (\<exists>l\<le>length q. k = take l q)"
  by (metis prefix_length_le take_is_prefix append_eq_conv_conj prefixE)

lemma longest_prefix_cases:
  assumes i: "radix_inv idx"
  obtains (hit) k where "fst (longest_prefix q idx) = (k, Some k)" "k \<noteq> []" "radix_contains idx k" "prefix k q"
      "\<forall>k'. radix_contains idx k' \<and> prefix k' q \<longrightarrow> length k' \<le> length k"
    | (none) d where "fst (longest_prefix q idx) = (take d q, None)"
      "\<forall>k'. radix_contains idx k' \<longrightarrow> \<not> prefix k' q" "find_node (root idx) (take d q) \<noteq> None" "d \<le> length q"
      "d < length q \<longrightarrow> find_node (root idx) (take (Suc d) q) = None"
proof -
  obtain d T where w: "prefix_walk q (root idx) [] 0 = (take d q, T)" "d \<le> length q"
      "find_node (root idx) (take d q) \<noteq> None" "d < length q \<longrightarrow> find_node (root idx) (take (Suc d) q) = None"
    and e: "(T = 0 \<and> (\<forall>l. 0 < l \<and> l \<le> length q \<longrightarrow> \<not> node_contains (root idx) (take l q))) \<or>
      (\<exists>l. 0 < l \<and> l \<le> d \<and> T = l \<and> node_contains (root idx) (take l q) \<and>
         (\<forall>l'. l < l' \<and> l' \<le> length q \<longrightarrow> \<not> node_contains (root idx) (take l' q)))"
    using prefix_walk_spec [of q "root idx" "[]" 0] by auto
  from e show ?thesis
  proof
    assume a: "T = 0 \<and> (\<forall>l. 0 < l \<and> l \<le> length q \<longrightarrow> \<not> node_contains (root idx) (take l q))"
    have "\<not> prefix k' q" if k: "radix_contains idx k'" for k'
    proof
      assume "prefix k' q"
      then obtain l where l: "k' = take l q" "l \<le> length q" by (auto simp: prefix_take_iff)
      then have "0 < l" using radix_contains_nonempty [OF i k] by (cases l) auto
      then show False using a l k by (simp add: radix_contains_def)
    qed
    then show ?thesis using a w none by (simp add: longest_prefix_def Let_def)
  next
    assume "\<exists>l. 0 < l \<and> l \<le> d \<and> T = l \<and> node_contains (root idx) (take l q) \<and>
         (\<forall>l'. l < l' \<and> l' \<le> length q \<longrightarrow> \<not> node_contains (root idx) (take l' q))"
    then have l: "0 < T" "T \<le> d" "radix_contains idx (take T q)"
      "\<forall>l'. T < l' \<and> l' \<le> length q \<longrightarrow> \<not> radix_contains idx (take l' q)" by (auto simp: radix_contains_def)
    have "length k' \<le> length (take T q)" if "radix_contains idx k'" "prefix k' q" for k'
      using that l(2,4) w(2) by (auto simp: prefix_take_iff not_less [symmetric])
    moreover have "fst (longest_prefix q idx) = (take T q, Some (take T q))"
      using l(1,2) w(1) by (simp add: longest_prefix_def Let_def min_absorb1)
    ultimately show ?thesis
      using hit [of "take T q"] l radix_contains_nonempty [OF i l(3)] take_is_prefix by blast
  qed
qed

lemma best_key_iff:
  assumes i: "radix_inv idx"
  shows "best_key idx q = Some k \<longleftrightarrow> radix_contains idx k \<and> prefix k q \<and>
    (\<forall>k'. radix_contains idx k' \<and> prefix k' q \<longrightarrow> length k' \<le> length k)"
  using i
proof (cases rule: longest_prefix_cases [where q = q])
  case (hit c)
  have eq: "k = c" if "radix_contains idx k \<and> prefix k q \<and>
      (\<forall>k'. radix_contains idx k' \<and> prefix k' q \<longrightarrow> length k' \<le> length k)"
  proof -
    have "length k = length c" using that hit(3-5) by (intro antisym) auto
    then show ?thesis
      using that hit(4) by (metis prefix_length_prefix prefix_order.antisym order_refl)
  qed
  have b: "best_key idx q = Some c" using hit(1) by (simp add: best_key_def)
  show ?thesis
  proof (cases "k = c")
    case True
    then show ?thesis using b hit(3-5) by simp
  next
    case False
    then show ?thesis using b eq by auto
  qed
next
  case (none d)
  then show ?thesis by (auto simp: best_key_def)
qed

section \<open>The interface of a prefix index\<close>

text \<open>
  What a cache relies on to find the entry to reuse: a set of non-empty sequences with insertion and
  deletion, and a lookup that returns the longest member that is a prefix of the query. The derived
  laws say how a lookup changes when an entry is added or another one evicted.
\<close>

locale prefix_index =
  fixes mem :: "'s \<Rightarrow> 'k list \<Rightarrow> bool" and inv :: "'s \<Rightarrow> bool"
    and ins :: "'k list \<Rightarrow> 's \<Rightarrow> 's" and del :: "'k list \<Rightarrow> 's \<Rightarrow> 's"
    and best :: "'s \<Rightarrow> 'k list \<Rightarrow> 'k list option"
  assumes inv_ins: "inv s \<Longrightarrow> k \<noteq> [] \<Longrightarrow> inv (ins k s)" and inv_del: "inv s \<Longrightarrow> inv (del k s)"
    and mem_ins: "inv s \<Longrightarrow> k \<noteq> [] \<Longrightarrow> mem (ins k s) q \<longleftrightarrow> q = k \<or> mem s q"
    and mem_del: "inv s \<Longrightarrow> mem (del k s) q \<longleftrightarrow> mem s q \<and> q \<noteq> k"
    and best_some: "inv s \<Longrightarrow> best s q = Some k \<longleftrightarrow> mem s k \<and> prefix k q \<and>
      (\<forall>k'. mem s k' \<and> prefix k' q \<longrightarrow> length k' \<le> length k)"
begin

lemma best_none: "inv s \<Longrightarrow> best s q = None \<longleftrightarrow> (\<forall>k. mem s k \<longrightarrow> \<not> prefix k q)"
proof
  assume i: "inv s" and n: "best s q = None"
  show "\<forall>k. mem s k \<longrightarrow> \<not> prefix k q"
  proof (rule ccontr)
    assume "\<not> (\<forall>k. mem s k \<longrightarrow> \<not> prefix k q)"
    then obtain k where k: "mem s k" "prefix k q" by blast
    have "\<exists>m. mem s m \<and> prefix m q \<and> (\<forall>k'. mem s k' \<and> prefix k' q \<longrightarrow> length k' \<le> length m)"
      using ex_has_greatest_nat [of "\<lambda>k. mem s k \<and> prefix k q" k length "Suc (length q)"] k
      by (auto simp: le_imp_less_Suc prefix_length_le)
    then show False using best_some [OF i] n by (metis option.distinct(1))
  qed
next
  assume i: "inv s" and n: "\<forall>k. mem s k \<longrightarrow> \<not> prefix k q"
  then show "best s q = None" using best_some [OF i, of q] by (cases "best s q") auto
qed

lemma best_ins_prefix: "inv s \<Longrightarrow> k \<noteq> [] \<Longrightarrow> prefix k q \<Longrightarrow>
    \<exists>b. best (ins k s) q = Some b \<and> length k \<le> length b"
  using best_none [OF inv_ins, of s k q] best_some [OF inv_ins, of s k q] mem_ins [of s k]
  by (cases "best (ins k s) q") auto

lemma best_exact: "inv s \<Longrightarrow> k \<noteq> [] \<Longrightarrow> best (ins k s) k = Some k"
  by (simp add: best_some [OF inv_ins] mem_ins prefix_length_le)

lemma best_del: "inv s \<Longrightarrow> best s q = Some b \<Longrightarrow> b \<noteq> k \<Longrightarrow> best (del k s) q = Some b"
  by (auto simp: best_some best_some [OF inv_del] mem_del)

lemma del_ins: "inv s \<Longrightarrow> k \<noteq> [] \<Longrightarrow> \<not> mem s k \<Longrightarrow> best (del k (ins k s)) q = best s q"
proof -
  assume a: "inv s" "k \<noteq> []" "\<not> mem s k"
  have i: "inv (del k (ins k s))" using a by (simp add: inv_ins inv_del)
  have "mem (del k (ins k s)) = mem s" using a by (auto simp: mem_del inv_ins mem_ins fun_eq_iff)
  then show ?thesis
    using best_some [OF i, of q] best_some [OF a(1), of q] by (cases "best s q") (metis not_None_eq)+
qed

end

definition drop_key :: "int list \<Rightarrow> radix_index \<Rightarrow> radix_index" where
  "drop_key toks idx = snd (radix_remove toks idx)"

interpretation radix: prefix_index radix_contains radix_inv radix_insert drop_key best_key
proof unfold_locales
  fix s :: radix_index and k q
  assume i: "radix_inv s"
  show "radix_inv (drop_key k s)" "radix_contains (drop_key k s) q \<longleftrightarrow> radix_contains s q \<and> q \<noteq> k"
    using radix_remove_spec [OF i, of k "fst (radix_remove k s)" "drop_key k s"] by (simp_all add: drop_key_def)
  show "best_key s q = Some k \<longleftrightarrow> radix_contains s k \<and> prefix k q \<and>
      (\<forall>k'. radix_contains s k' \<and> prefix k' q \<longrightarrow> length k' \<le> length k)"
    by (rule best_key_iff [OF i])
qed (simp_all add: radix_insert_inv radix_insert_contains)

section \<open>Persistence\<close>

lemma collect_keys_spec:
  "list_all (\<lambda>(n, p). wf_node n) stack \<Longrightarrow>
   set (collect_keys stack) = {p @ k |n p k. (n, p) \<in> set stack \<and> node_contains n k}"
proof (induction stack rule: collect_keys.induct)
  case (2 ch tm rc path stack)
  let ?cs = "map (\<lambda>(tok, child). (child, path @ [tok])) ch"
  have d: "distinct (map fst ch)" and w: "list_all (\<lambda>(t, c). wf_node c) ch" using "2.prems" by simp_all
  have "list_all (\<lambda>(n, p). wf_node n) (rev ?cs @ stack)"
    using w "2.prems" by (fastforce simp: list_all_iff)
  note ih = "2.IH" [OF this]
  have cs: "(\<exists>n p k. (n, p) \<in> set ?cs \<and> node_contains n k \<and> x = p @ k) \<longleftrightarrow>
      (\<exists>t ts. node_contains (Node ch tm rc) (t # ts) \<and> x = path @ t # ts)" for x
  proof -
    have "node_contains (Node ch tm rc) (t # ts) \<longleftrightarrow> (\<exists>c. (t, c) \<in> set ch \<and> node_contains c ts)" for t ts
      by (cases "map_of ch t") (simp_all add: map_of_eq_Some_iff [OF d, symmetric])
    then show ?thesis by force
  qed
  have nd: "(\<exists>k. node_contains (Node ch tm rc) k \<and> x = path @ k) \<longleftrightarrow>
      (tm \<and> x = path) \<or> (\<exists>t ts. node_contains (Node ch tm rc) (t # ts) \<and> x = path @ t # ts)" for x
  proof -
    have "(\<exists>k. node_contains (Node ch tm rc) k \<and> x = path @ k) \<longleftrightarrow>
        (node_contains (Node ch tm rc) [] \<and> x = path @ []) \<or>
        (\<exists>t ts. node_contains (Node ch tm rc) (t # ts) \<and> x = path @ t # ts)"
      by (metis neq_Nil_conv)
    then show ?thesis by simp
  qed
  show ?case
  proof (rule set_eqI)
    fix x
    have ihx: "x \<in> set (collect_keys (rev ?cs @ stack)) \<longleftrightarrow>
        (\<exists>n p k. (n, p) \<in> set ?cs \<and> node_contains n k \<and> x = p @ k) \<or>
        (\<exists>n p k. (n, p) \<in> set stack \<and> node_contains n k \<and> x = p @ k)"
      unfolding ih by (simp only: set_append set_rev) blast
    have "x \<in> set (collect_keys ((Node ch tm rc, path) # stack)) \<longleftrightarrow>
        (tm \<and> x = path) \<or> (\<exists>n p k. (n, p) \<in> set ?cs \<and> node_contains n k \<and> x = p @ k) \<or>
        (\<exists>n p k. (n, p) \<in> set stack \<and> node_contains n k \<and> x = p @ k)"
      unfolding collect_keys.simps set_append Un_iff ihx by (auto simp del: set_map)
    also have "\<dots> \<longleftrightarrow> (\<exists>k. node_contains (Node ch tm rc) k \<and> x = path @ k) \<or>
        (\<exists>n p k. (n, p) \<in> set stack \<and> node_contains n k \<and> x = p @ k)"
      unfolding cs nd by blast
    also have "\<dots> \<longleftrightarrow> x \<in> {p @ k |n p k. (n, p) \<in> set ((Node ch tm rc, path) # stack) \<and> node_contains n k}"
      by auto
    finally show "x \<in> set (collect_keys ((Node ch tm rc, path) # stack)) \<longleftrightarrow>
        x \<in> {p @ k |n p k. (n, p) \<in> set ((Node ch tm rc, path) # stack) \<and> node_contains n k}" .
  qed
qed simp

lemma collect_terminal_spec: "radix_inv idx \<Longrightarrow> set (collect_terminal_keys idx) = {k. radix_contains idx k}"
  using collect_keys_spec [of "[(root idx, [])]"]
  by (simp add: collect_terminal_keys_def radix_inv_def radix_contains_def)

lemma parse_saved_keys: "parse_keys (map (\<lambda>k. JList (map JInt k)) keys) = keys"
proof (induction keys)
  case (Cons k ks)
  have "those (map as_int (map JInt k)) = Some k" by (induction k) auto
  then show ?case using Cons by simp
qed simp

section \<open>Histories\<close>

inductive radix_reachable :: "radix_index \<Rightarrow> bool" where
  rr_init: "radix_reachable radix_init"
| rr_insert: "radix_reachable idx \<Longrightarrow> radix_reachable (radix_insert toks idx)"
| rr_remove: "radix_reachable idx \<Longrightarrow> radix_remove toks idx = (v, idx') \<Longrightarrow> radix_reachable idx'"
| rr_clear: "radix_reachable idx \<Longrightarrow> radix_reachable (radix_clear idx)"
| rr_rebuild: "radix_reachable idx \<Longrightarrow> radix_reachable (rebuild_from_keys keys idx)"
| rr_load: "radix_reachable idx \<Longrightarrow> radix_load file idx = (v, idx') \<Longrightarrow> radix_reachable idx'"
| rr_lookup: "radix_reachable idx \<Longrightarrow> longest_prefix q idx = (res, idx') \<Longrightarrow> radix_reachable idx'"

text \<open>Histories in which a sequence is inserted only while it is absent.\<close>

inductive radix_disciplined :: "radix_index \<Rightarrow> bool" where
  rd_init: "radix_disciplined radix_init"
| rd_insert: "radix_disciplined idx \<Longrightarrow> \<not> radix_contains idx toks \<Longrightarrow> radix_disciplined (radix_insert toks idx)"
| rd_remove: "radix_disciplined idx \<Longrightarrow> radix_remove toks idx = (v, idx') \<Longrightarrow> radix_disciplined idx'"
| rd_clear: "radix_disciplined idx \<Longrightarrow> radix_disciplined (radix_clear idx)"
| rd_lookup: "radix_disciplined idx \<Longrightarrow> longest_prefix q idx = (res, idx') \<Longrightarrow> radix_disciplined idx'"

lemma longest_prefix_state:
  "longest_prefix q idx = (res, idx') \<Longrightarrow> root idx' = root idx \<and>
     entry_count (rstats idx') = entry_count (rstats idx) \<and> node_count (rstats idx') = node_count (rstats idx)"
  by (auto simp: longest_prefix_def Let_def split: prod.splits if_splits)

lemma radix_load_inv: "radix_inv idx \<Longrightarrow> radix_load file idx = (v, idx') \<Longrightarrow> radix_inv idx'"
  using rebuild_spec by (auto simp: radix_load_def split: option.splits json.splits if_splits)

lemma radix_reachable_inv: "radix_reachable idx \<Longrightarrow> radix_inv idx"
proof (induction rule: radix_reachable.induct)
  case rr_init
  then show ?case using radix_init_exact by (simp add: radix_exact_def)
next
  case (rr_remove idx toks v idx')
  then show ?case using radix_remove_spec by blast
next
  case (rr_clear idx)
  then show ?case using radix_clear_exact by (simp add: radix_exact_def)
next
  case (rr_lookup idx q res idx')
  then show ?case using longest_prefix_state by (simp add: radix_inv_def)
qed (auto intro: radix_insert_inv radix_load_inv simp: rebuild_spec)

lemma radix_disciplined_exact: "radix_disciplined idx \<Longrightarrow> radix_exact idx"
proof (induction rule: radix_disciplined.induct)
  case (rd_remove idx toks v idx')
  then show ?case using radix_remove_spec [of idx toks v idx'] by (simp add: radix_exact_def)
next
  case (rd_lookup idx q res idx')
  then show ?case using longest_prefix_state by (simp add: radix_inv_def radix_exact_def)
qed (simp_all add: radix_init_exact radix_insert_exact radix_clear_exact)

section \<open>Sizes\<close>

lemma entries_card: "radix_inv idx \<Longrightarrow> finite {k. radix_contains idx k} \<and>
    entry_count (rstats idx) = int (card {k. radix_contains idx k})"
  using count_if_card [of "root idx" is_terminal]
  by (simp add: radix_inv_def radix_contains_def node_contains_iff)

lemma nodes_card:
  assumes "radix_inv idx"
  shows "finite {p. p \<noteq> [] \<and> find_node (root idx) p \<noteq> None} \<and>
    node_count (rstats idx) = int (card {p. p \<noteq> [] \<and> find_node (root idx) p \<noteq> None})"
proof -
  let ?N = "{p. \<exists>m. find_node (root idx) p = Some m \<and> True}"
  have c: "finite ?N" "count_if (\<lambda>_. True) (root idx) = int (card ?N)"
    using count_if_card [of "root idx" "\<lambda>_. True"] assms by (simp_all add: radix_inv_def)
  have "?N = insert [] {p. p \<noteq> [] \<and> find_node (root idx) p \<noteq> None}" by auto
  then have "card ?N = Suc (card {p. p \<noteq> [] \<and> find_node (root idx) p \<noteq> None})"
    "finite {p. p \<noteq> [] \<and> find_node (root idx) p \<noteq> None}" using c(1) by simp_all
  then show ?thesis using c(2) assms by (simp add: radix_inv_def)
qed

lemma find_node_append: "find_node n (p @ q) = (case find_node n p of None \<Rightarrow> None | Some m \<Rightarrow> find_node m q)"
  by (induction p arbitrary: n) (auto split: option.splits)

lemma contained_path: "node_contains n k \<Longrightarrow> prefix p k \<Longrightarrow> find_node n p \<noteq> None"
  by (auto simp: node_contains_find prefix_def find_node_append split: option.splits)

lemma exact_path_key:
  "wf_node n \<Longrightarrow> exact n \<Longrightarrow> find_node n p = Some m \<Longrightarrow> p \<noteq> [] \<Longrightarrow> \<exists>q. node_contains m q"
proof (induction n p rule: find_node.induct)
  case (2 n t ts)
  obtain ch tm rc where n: "n = Node ch tm rc" by (cases n)
  obtain c where c: "map_of ch t = Some c" "find_node c ts = Some m"
    using "2.prems"(3) by (auto simp: n split: option.splits)
  have w: "wf_node c" using child_in [OF c(1), of "\<lambda>(t, c). wf_node c"] "2.prems"(1) by (simp add: n)
  have e: "exact c \<and> node_ref_count c = count_if is_terminal c \<and> 0 < node_ref_count c"
    using child_in [OF c(1), of "\<lambda>(t, c). exact c \<and> node_ref_count c = count_if is_terminal c \<and> 0 < node_ref_count c"]
      "2.prems"(2) by (simp add: n)
  show ?case
  proof (cases "ts = []")
    case True
    then have m: "m = c" using c(2) by simp
    have "0 < card {p. \<exists>m. find_node c p = Some m \<and> is_terminal m}"
      using count_if_card [OF w, of is_terminal] e by simp
    then obtain q where "\<exists>m. find_node c q = Some m \<and> is_terminal m" by (auto simp: card_gt_0_iff)
    then show ?thesis unfolding m by (auto simp: node_contains_iff)
  next
    case False
    then show ?thesis using "2.IH" [of c] c w e by (simp add: n)
  qed
qed simp

text \<open>
  C25. After any history of inserts, removes, clears, rebuilds, loads and lookups, the gauges of
  the radix index are truthful: \<open>entry_count\<close> is the number of stored sequences, \<open>node_count\<close> is the
  number of non-root nodes of the tree, and every non-empty prefix of a stored sequence has its node.
\<close>

theorem radix_gauges_truthful:
  assumes "radix_reachable idx"
  shows "entry_count (rstats idx) = int (card {k. radix_contains idx k}) \<and> finite {k. radix_contains idx k} \<and>
    node_count (rstats idx) = int (card {p. p \<noteq> [] \<and> find_node (root idx) p \<noteq> None}) \<and>
    {p. p \<noteq> [] \<and> (\<exists>k. radix_contains idx k \<and> prefix p k)} \<subseteq> {p. p \<noteq> [] \<and> find_node (root idx) p \<noteq> None}"
  using entries_card [OF radix_reachable_inv [OF assms]] nodes_card [OF radix_reachable_inv [OF assms]]
    contained_path [of "root idx"]
  by (auto simp: radix_contains_def)

lemma radix_gauges_truthful_witness:
  "entry_count (rstats (radix_insert [1, 2] radix_init)) = int (card {k. radix_contains (radix_insert [1, 2] radix_init) k})"
  using radix_gauges_truthful [OF rr_insert [OF rr_init], of "[1, 2]"] by blast

text \<open>
  When a sequence is only inserted while absent, the tree is minimal: after any such history of
  inserts, removes, clears and lookups its nodes are exactly the non-empty prefixes of the stored
  sequences, so \<open>remove\<close> prunes everything it should and nothing else.
\<close>

theorem radix_minimal:
  assumes "radix_disciplined idx"
  shows "node_count (rstats idx) = int (card {p. p \<noteq> [] \<and> (\<exists>k. radix_contains idx k \<and> prefix p k)}) \<and>
    (\<forall>p. p \<noteq> [] \<longrightarrow> (find_node (root idx) p \<noteq> None \<longleftrightarrow> (\<exists>k. radix_contains idx k \<and> prefix p k)))"
proof -
  have e: "radix_inv idx" "exact (root idx)" "wf_node (root idx)"
    using radix_disciplined_exact [OF assms] by (auto simp: radix_exact_def radix_inv_def)
  have iff: "find_node (root idx) p \<noteq> None \<longleftrightarrow> (\<exists>k. radix_contains idx k \<and> prefix p k)" if "p \<noteq> []" for p
  proof
    assume "find_node (root idx) p \<noteq> None"
    then obtain m where m: "find_node (root idx) p = Some m" by blast
    from exact_path_key [OF e(3,2) m that] obtain q where "node_contains m q" ..
    then have "radix_contains idx (p @ q)"
      using m by (simp add: radix_contains_def node_contains_iff find_node_append)
    then show "\<exists>k. radix_contains idx k \<and> prefix p k" by (intro exI [of _ "p @ q"]) simp
  qed (auto simp: radix_contains_def dest: contained_path)
  then have "{p. p \<noteq> [] \<and> find_node (root idx) p \<noteq> None} = {p. p \<noteq> [] \<and> (\<exists>k. radix_contains idx k \<and> prefix p k)}"
    by blast
  then show ?thesis using nodes_card [OF e(1)] iff by simp
qed

lemma radix_minimal_witness:
  "find_node (root (radix_insert [1, 2] radix_init)) [1] \<noteq> None \<longleftrightarrow>
     (\<exists>k. radix_contains (radix_insert [1, 2] radix_init) k \<and> prefix [1] k)"
proof -
  have "\<not> radix_contains radix_init [1, 2]" by code_simp
  then show ?thesis using radix_minimal [OF rd_insert [OF rd_init], of "[1, 2]"] by blast
qed

text \<open>
  \<open>longest_prefix\<close> answers exactly: with a key, that key is stored, is a prefix of the query and no
  stored prefix of the query is longer; without one, no stored sequence is a prefix of the query,
  and the tokens returned are the longest path of the tree along the query. Exactly one of the hit
  and miss counters moves, and the stored set does not change.
\<close>

theorem radix_longest_prefix:
  assumes r: "radix_reachable idx" and l: "longest_prefix q idx = ((matched, key), idx')"
  shows "(case key of
      Some k \<Rightarrow> matched = k \<and> radix_contains idx k \<and> prefix k q \<and>
        (\<forall>k'. radix_contains idx k' \<and> prefix k' q \<longrightarrow> length k' \<le> length k) \<and>
        rs_hits (rstats idx') = rs_hits (rstats idx) + 1 \<and> rs_misses (rstats idx') = rs_misses (rstats idx)
    | None \<Rightarrow> (\<forall>k'. radix_contains idx k' \<longrightarrow> \<not> prefix k' q) \<and>
        (\<exists>d\<le>length q. matched = take d q \<and> find_node (root idx) matched \<noteq> None \<and>
           (d < length q \<longrightarrow> find_node (root idx) (take (Suc d) q) = None)) \<and>
        rs_misses (rstats idx') = rs_misses (rstats idx) + 1 \<and> rs_hits (rstats idx') = rs_hits (rstats idx)) \<and>
    radix_contains idx' = radix_contains idx"
proof -
  have cnt: "(key \<noteq> None \<longrightarrow> rs_hits (rstats idx') = rs_hits (rstats idx) + 1 \<and>
        rs_misses (rstats idx') = rs_misses (rstats idx)) \<and>
      (key = None \<longrightarrow> rs_misses (rstats idx') = rs_misses (rstats idx) + 1 \<and>
        rs_hits (rstats idx') = rs_hits (rstats idx))"
    using l by (auto simp: longest_prefix_def Let_def split: prod.splits if_splits)
  have same: "radix_contains idx' = radix_contains idx"
    using longest_prefix_state [OF l] by (simp add: radix_contains_def fun_eq_iff)
  have fst: "fst (longest_prefix q idx) = (matched, key)" using l by simp
  from radix_reachable_inv [OF r] show ?thesis
  proof (cases rule: longest_prefix_cases [where q = q])
    case (hit k)
    then show ?thesis using cnt same fst by simp
  next
    case (none d)
    then show ?thesis using cnt same fst by auto
  qed
qed

lemma radix_longest_prefix_witness:
  "fst (longest_prefix [1, 2, 9] (radix_insert [1, 2, 3] (radix_insert [1, 2] radix_init))) = ([1, 2], Some [1, 2]) \<and>
   radix_contains (radix_insert [1, 2, 3] (radix_insert [1, 2] radix_init)) [1, 2]"
proof -
  let ?i = "radix_insert [1, 2, 3] (radix_insert [1, 2] radix_init)"
  have "longest_prefix [1, 2, 9] ?i = (([1, 2], Some [1, 2]), snd (longest_prefix [1, 2, 9] ?i))"
    by (rule fst_pair) code_simp
  note l = this
  from radix_longest_prefix [OF rr_insert [OF rr_insert [OF rr_init]] this] have "radix_contains ?i [1, 2]" by simp
  with arg_cong [OF l, of fst] show ?thesis by simp
qed

text \<open>
  How lookups move: after a sequence is stored, every query that extends it is answered with a
  stored sequence at least as long and the sequence itself with itself; dropping some other
  sequence does not change an answer; and dropping a sequence that was absent before its
  insertion gives every query its old answer back.
\<close>

theorem radix_lookup_laws:
  assumes r: "radix_reachable idx" and k: "k \<noteq> []"
  shows "(prefix k q \<longrightarrow> (\<exists>b. best_key (radix_insert k idx) q = Some b \<and> length k \<le> length b)) \<and>
    best_key (radix_insert k idx) k = Some k \<and>
    (best_key idx q \<noteq> None \<and> best_key idx q \<noteq> Some k \<longrightarrow>
      best_key (snd (radix_remove k idx)) q = best_key idx q) \<and>
    (\<not> radix_contains idx k \<longrightarrow> best_key (snd (radix_remove k (radix_insert k idx))) q = best_key idx q)"
  using radix.best_ins_prefix [of idx k q] radix.best_exact [of idx k] radix.best_del [of idx q _ k]
    radix.del_ins [of idx k q] radix_reachable_inv [OF r] k
  by (auto simp: drop_key_def)

lemma radix_lookup_laws_witness: "best_key (radix_insert [4, 5] radix_init) [4, 5] = Some [4, 5]"
  using radix_lookup_laws [OF rr_init, of "[4, 5]"] by simp

lemma remove_grown:
  "wf_node n \<Longrightarrow> over n \<Longrightarrow> node_contains n toks \<Longrightarrow> \<exists>n'. remove_path toks (grown toks n) = Some (n', 0)"
proof (induction toks n rule: grown.induct)
  case (2 t ts ch tm rc)
  obtain c where c: "map_of ch t = Some c" and nc: "node_contains c ts"
    using "2.prems"(3) by (auto split: option.splits)
  have w: "wf_node c" "over c" "count_if is_terminal c \<le> node_ref_count c"
    using child_in [OF c, of "\<lambda>(t, c). wf_node c"]
      child_in [OF c, of "\<lambda>(t, c). over c \<and> count_if is_terminal c \<le> node_ref_count c"] "2.prems"(1,2)
    by simp_all
  let ?g = "grown ts (add_ref 1 c)"
  obtain n' where n': "remove_path ts ?g = Some (n', 0)"
    using "2.IH" w nc by (auto simp: child_at_cases(2) [OF c])
  have "0 < card {p. \<exists>m. find_node c p = Some m \<and> is_terminal m}"
    using nc count_if_card [OF w(1), of is_terminal] by (auto simp: card_gt_0_iff node_contains_iff)
  then have pos: "0 < node_ref_count c" using count_if_card [OF w(1), of is_terminal] w(3) by simp
  have "node_ref_count n' = node_ref_count ?g"
    using remove_path_spec [OF n'] w by (simp add: grown_wf grown_over)
  then show ?case using n' pos by (simp add: child_at_cases(2) [OF c] update_conv' Let_def)
qed (simp)

lemma grown_same_size:
  "node_contains n toks \<Longrightarrow> count_if (\<lambda>_. True) (grown toks n) = count_if (\<lambda>_. True) n"
proof (induction toks n rule: grown.induct)
  case (2 t ts ch tm rc)
  obtain c where c: "map_of ch t = Some c" and "node_contains c ts"
    using "2.prems" by (auto split: option.splits)
  then have "count_if (\<lambda>_. True) (grown ts (add_ref 1 c)) = count_if (\<lambda>_. True) c"
    using "2.IH" by (simp add: child_at_cases(2) [OF c])
  then show ?case unfolding grown.simps count_grown child_at_cases(2) [OF c] c by simp
qed simp

text \<open>
  Re-inserting a stored sequence corrupts its reference counts: the second \<open>insert\<close> counts the same
  entry again along its path, so a later \<open>remove\<close> of it (which does remove the entry) prunes no node,
  and the nodes of a sequence that is no longer stored stay in the tree and in \<open>node_count\<close>.
\<close>

theorem radix_reinsert_leaks:
  assumes r: "radix_reachable idx" and c: "radix_contains idx toks"
    and d: "radix_remove toks (radix_insert toks idx) = (v, idx')"
  shows "v \<and> (\<forall>q. radix_contains idx' q \<longleftrightarrow> radix_contains idx q \<and> q \<noteq> toks) \<and>
    entry_count (rstats idx') = entry_count (rstats idx) - 1 \<and>
    node_count (rstats idx') = node_count (rstats idx)"
proof -
  have i: "radix_inv idx" using radix_reachable_inv [OF r] .
  have ne: "toks \<noteq> []" using radix_contains_nonempty [OF i c] .
  note ins = radix_insert_root [OF ne, of idx]
  have c': "node_contains (root idx) toks" using c by (simp add: radix_contains_def)
  have w: "wf_node (root idx)" "over (root idx)" using i by (simp_all add: radix_inv_def)
  obtain n' where n': "remove_path toks (root (radix_insert toks idx)) = Some (n', 0)"
    using remove_grown [OF w c'] ins by auto
  have s: "v \<and> radix_inv idx' \<and> (\<forall>q. radix_contains idx' q \<longleftrightarrow> radix_contains (radix_insert toks idx) q \<and> q \<noteq> toks)"
    using radix_remove_spec [OF radix_insert_inv [OF i] d] radix_insert_contains [OF ne] by auto
  have e: "entry_count (rstats idx') = entry_count (rstats (radix_insert toks idx)) - 1"
    "node_count (rstats idx') = node_count (rstats (radix_insert toks idx))" "root idx' = n'"
    using d n' ne by (auto simp: radix_remove_def Let_def)
  have "count_if (\<lambda>_. True) (grown toks (root idx)) = count_if (\<lambda>_. True) (root idx)"
    by (rule grown_same_size [OF c'])
  then show ?thesis using s e ins c' radix_insert_contains [OF ne, of idx] by auto
qed

lemma radix_reinsert_leaks_witness:
  "node_count (rstats (snd (radix_remove [1, 2] (radix_insert [1, 2] (radix_insert [1, 2] radix_init))))) =
     node_count (rstats (radix_insert [1, 2] radix_init))"
proof -
  have "radix_contains (radix_insert [1, 2] radix_init) [1, 2]" by code_simp
  from radix_reinsert_leaks [OF rr_insert [OF rr_init] this prod.collapse [symmetric]] show ?thesis by simp
qed

text \<open>
  What \<open>save\<close> writes, \<open>load\<close> reads back: loading the saved value into any index succeeds and gives an
  index that stores exactly the saved sequences, with the same \<open>entry_count\<close>; a missing or
  unreadable file, a value that is not an object and a wrong version are refused without effect.
\<close>

theorem radix_save_load:
  assumes r: "radix_reachable idx"
  shows "(\<exists>idx'. radix_load (Some (save_payload now idx)) other = (True, idx') \<and>
      (\<forall>k. radix_contains idx' k \<longleftrightarrow> radix_contains idx k) \<and>
      entry_count (rstats idx') = entry_count (rstats idx)) \<and>
    radix_load None other = (False, other) \<and> radix_load (Some (JList ks)) other = (False, other) \<and>
    (v \<noteq> 1 \<longrightarrow> radix_load (Some (JDict [(''version'', JInt v), (''keys'', JList ks)])) other = (False, other))"
proof -
  let ?i = "rebuild_from_keys (collect_terminal_keys idx) other"
  have i: "radix_inv idx" using radix_reachable_inv [OF r] .
  have "radix_load (Some (save_payload now idx)) other = (True, ?i)"
    by (simp add: radix_load_def save_payload_def Let_def parse_saved_keys)
  moreover have c: "\<forall>k. radix_contains ?i k \<longleftrightarrow> radix_contains idx k"
    using rebuild_spec [of "collect_terminal_keys idx" other] collect_terminal_spec [OF i]
      radix_contains_nonempty [OF i] by auto
  moreover have "entry_count (rstats ?i) = entry_count (rstats idx)"
    using entries_card [OF i] entries_card [of ?i] rebuild_spec [of "collect_terminal_keys idx" other] c by simp
  ultimately show ?thesis by (simp add: radix_load_def RADIX_INDEX_VERSION_def)
qed

lemma radix_save_load_witness:
  "\<exists>idx'. radix_load (Some (save_payload 0 (radix_insert [1, 2] radix_init))) radix_init = (True, idx') \<and>
     entry_count (rstats idx') = entry_count (rstats (radix_insert [1, 2] radix_init))"
  using radix_save_load [OF rr_insert [OF rr_init], of 0 "[1, 2]" radix_init] by blast

end
