(* ===== verification/PrefixTrie.thy ===== *)
theory PrefixTrie
  imports Prelude "HOL-Library.AList" "HOL-Library.Sublist"
begin

text \<open>
  \<^bold>\<open>rapid_mlx/prefix_cache.py: PrefixCacheManager.\<close> The nested dictionaries under the manager's one
  model key are a tree whose nodes carry the \<open>"cache"\<close> entry and the children in insertion order;
  \<open>None\<close> for the whole tree is a \<open>_cache\<close> without the model key. The LRU \<open>OrderedDict\<close> is the list of its
  keys, oldest first. A layer object of a prompt cache is a value of type \<open>'l\<close>; what the code asks of it
  (class name, \<open>is_trimmable\<close>, \<open>trim\<close>) is the parameter \<open>layer_ops\<close>. \<open>copy.deepcopy\<close> is the identity on
  values.
\<close>

section \<open>State\<close>

record 'l layer_ops =
  class_name_of :: "'l \<Rightarrow> string"
  is_trimmable :: "'l \<Rightarrow> bool option"
  has_trim :: "'l \<Rightarrow> bool"
  trim_layer :: "int \<Rightarrow> 'l \<Rightarrow> 'l"

record 'l cache_entry =
  prompt_cache :: "'l list"
  entry_refs :: int

datatype 'l trie = TNode (kids: "(int \<times> 'l trie) list") (entry: "'l cache_entry option")

record prefix_stats =
  ps_hits :: int
  ps_misses :: int
  tokens_saved :: int
  total_queries :: int
  ps_evictions :: int

record 'l prefix_cache =
  pc_max_size :: nat
  pc_trie :: "'l trie option"
  lru :: "int list list"
  pinned_keys :: "int list set"
  pc_stats :: prefix_stats

definition TRIM_UNSAFE_CACHE_CLASSES :: "string list" where
  "TRIM_UNSAFE_CACHE_CLASSES = [''ChunkedKVCache'', ''ConcatenateKVCache'']"

definition fresh_prefix_stats :: prefix_stats where
  "fresh_prefix_stats = \<lparr>ps_hits = 0, ps_misses = 0, tokens_saved = 0, total_queries = 0, ps_evictions = 0\<rparr>"

definition hit_rate :: "prefix_stats \<Rightarrow> rat" where
  "hit_rate st = (if total_queries st = 0 then 0 else of_int (ps_hits st) / of_int (total_queries st))"

definition pcm_init :: "nat \<Rightarrow> 'l prefix_cache" where
  "pcm_init max_entries = \<lparr>pc_max_size = max_entries, pc_trie = None, lru = [], pinned_keys = {},
     pc_stats = fresh_prefix_stats\<rparr>"

definition pcm_upd_stats :: "(prefix_stats \<Rightarrow> prefix_stats) \<Rightarrow> 'l prefix_cache \<Rightarrow> 'l prefix_cache" where
  "pcm_upd_stats f s = s\<lparr>pc_stats := f (pc_stats s)\<rparr>"

section \<open>Search\<close>

text \<open>The descent: the node the whole token list leads to, or the last node and its path.\<close>

fun trie_walk :: "int list \<Rightarrow> 'l trie \<Rightarrow> int list \<Rightarrow> ('l trie \<times> int list) + 'l trie" where
  "trie_walk [] node path = Inr node"
| "trie_walk (tok # toks) node path =
     (case map_of (kids node) tok of
        None \<Rightarrow> Inl (node, path)
      | Some child \<Rightarrow> trie_walk toks child (path @ [tok]))"

text \<open>The stack of the search for a longer entry, its top first.\<close>

function longer_search :: "('l trie \<times> int list) list \<Rightarrow> int list option" where
  "longer_search [] = None"
| "longer_search ((TNode ch e, path) # stack) =
     (if e \<noteq> None then Some path
      else longer_search (rev (map (\<lambda>(tok, child). (child, path @ [tok])) ch) @ stack))"
  by pat_completeness auto

termination
proof (relation "measure (\<lambda>st. sum_list (map (Suc \<circ> size_trie (\<lambda>_. 0) \<circ> fst) st))")
  fix ch :: "(int \<times> 'l trie) list" and e :: "'l cache_entry option" and path :: "int list" and stack
  have "sum_list (map (Suc \<circ> size_trie (\<lambda>_. 0) \<circ> fst) (map (\<lambda>(tok, child). (child, path @ [tok])) ch)) \<le>
      size_list (size_prod (\<lambda>_. 0) (size_trie (\<lambda>_. 0))) ch"
    by (induction ch) auto
  then show "(rev (map (\<lambda>(tok, child). (child, path @ [tok])) ch) @ stack, (TNode ch e, path) # stack)
      \<in> measure (\<lambda>st. sum_list (map (Suc \<circ> size_trie (\<lambda>_. 0) \<circ> fst) st))"
    by (simp add: rev_map [symmetric] sum_list_rev)
qed simp

datatype search_result = Exact "int list" | Shorter "int list" | Longer "int list" nat | NoMatch

definition trie_search :: "int list \<Rightarrow> 'l prefix_cache \<Rightarrow> search_result" where
  "trie_search tokens s =
     (case pc_trie s of
        None \<Rightarrow> NoMatch
      | Some tree \<Rightarrow>
          (case trie_walk tokens tree [] of
             Inl (node, path) \<Rightarrow> if entry node \<noteq> None then Shorter path else NoMatch
           | Inr node \<Rightarrow>
               if entry node \<noteq> None then Exact tokens
               else (case longer_search [(node, tokens)] of
                   Some p \<Rightarrow> Longer p (length tokens) | None \<Rightarrow> NoMatch)))"

fun node_entry :: "'l trie \<Rightarrow> int list \<Rightarrow> 'l cache_entry option" where
  "node_entry node [] = entry node"
| "node_entry node (tok # toks) =
     (case map_of (kids node) tok of None \<Rightarrow> None | Some child \<Rightarrow> node_entry child toks)"

definition get_cache_entry :: "int list \<Rightarrow> 'l prefix_cache \<Rightarrow> 'l cache_entry option" where
  "get_cache_entry tokens s = (case pc_trie s of None \<Rightarrow> None | Some tree \<Rightarrow> node_entry tree tokens)"

section \<open>LRU order\<close>

definition touch_lru :: "int list \<Rightarrow> 'l prefix_cache \<Rightarrow> 'l prefix_cache" where
  "touch_lru key s =
     (if key \<in> pinned_keys s then s
      else if key \<in> set (lru s) then s\<lparr>lru := remove1 key (lru s) @ [key]\<rparr>
      else s\<lparr>lru := lru s @ [key]\<rparr>)"

text \<open>Deleting an entry and then, bottom-up, the nodes left empty.\<close>

fun delete_path :: "int list \<Rightarrow> 'l trie \<Rightarrow> 'l trie option" where
  "delete_path [] (TNode ch e) = Some (TNode ch None)"
| "delete_path (tok # toks) (TNode ch e) =
     (case map_of ch tok of
        None \<Rightarrow> None
      | Some child \<Rightarrow>
          (case delete_path toks child of
             None \<Rightarrow> None
           | Some child' \<Rightarrow>
               Some (TNode (if kids child' = [] \<and> entry child' = None then AList.delete tok ch
                            else AList.update tok child' ch) e)))"

definition delete_cache :: "int list \<Rightarrow> 'l prefix_cache \<Rightarrow> 'l prefix_cache" where
  "delete_cache tokens s =
     (case pc_trie s of
        None \<Rightarrow> s
      | Some tree \<Rightarrow>
          (case delete_path tokens tree of None \<Rightarrow> s | Some tree' \<Rightarrow> s\<lparr>pc_trie := Some tree'\<rparr>))"

definition evict_lru :: "'l prefix_cache \<Rightarrow> 'l prefix_cache" where
  "evict_lru s =
     (case lru s of
        [] \<Rightarrow> s
      | key # rest \<Rightarrow>
          pcm_upd_stats (\<lambda>st. st\<lparr>ps_evictions := ps_evictions st + 1\<rparr>) (delete_cache key (s\<lparr>lru := rest\<rparr>)))"

definition pcm_len :: "'l prefix_cache \<Rightarrow> nat" where
  "pcm_len s = length (lru s) + card (pinned_keys s)"

section \<open>Fetching\<close>

definition contains_sub :: "string \<Rightarrow> string \<Rightarrow> bool" where
  "contains_sub marker name \<longleftrightarrow> sublist marker name"

fun can_trim_cache :: "'l layer_ops \<Rightarrow> 'l list \<Rightarrow> bool" where
  "can_trim_cache ops [] = False"
| "can_trim_cache ops (c # cs) = list_all (\<lambda>l.
     \<not> list_ex (\<lambda>m. contains_sub m (class_name_of ops l)) TRIM_UNSAFE_CACHE_CLASSES \<and>
     (case is_trimmable ops l of Some b \<Rightarrow> b | None \<Rightarrow> has_trim ops l)) (c # cs)"

definition trim_cache :: "'l layer_ops \<Rightarrow> int \<Rightarrow> 'l list \<Rightarrow> 'l list" where
  "trim_cache ops n cs = map (\<lambda>l. if has_trim ops l then trim_layer ops n l else l) cs"

definition count_hit :: "nat \<Rightarrow> 'l prefix_cache \<Rightarrow> 'l prefix_cache" where
  "count_hit n = pcm_upd_stats (\<lambda>st. st\<lparr>ps_hits := ps_hits st + 1, tokens_saved := tokens_saved st + int n\<rparr>)"

definition count_miss :: "'l prefix_cache \<Rightarrow> 'l prefix_cache" where
  "count_miss = pcm_upd_stats (\<lambda>st. st\<lparr>ps_misses := ps_misses st + 1\<rparr>)"

definition pcm_fetch :: "'l layer_ops \<Rightarrow> int list \<Rightarrow> 'l prefix_cache \<Rightarrow>
    ('l list option \<times> int list) \<times> 'l prefix_cache" where
  "pcm_fetch ops tokens s0 =
     (let s = pcm_upd_stats (\<lambda>st. st\<lparr>total_queries := total_queries st + 1\<rparr>) s0;
          missed = ((None, tokens), count_miss s)
      in case trie_search tokens s of
        Exact p \<Rightarrow>
          if p = [] then missed
          else (case get_cache_entry p s of
              Some e \<Rightarrow> ((Some (prompt_cache e), []), touch_lru tokens (count_hit (length tokens) s))
            | None \<Rightarrow> missed)
      | Shorter p \<Rightarrow>
          if p = [] then missed
          else (case get_cache_entry p s of
              Some e \<Rightarrow> ((Some (prompt_cache e), drop (length p) tokens), touch_lru p (count_hit (length p) s))
            | None \<Rightarrow> missed)
      | Longer p n \<Rightarrow>
          if p = [] then missed
          else (case get_cache_entry p s of
              Some e \<Rightarrow>
                if can_trim_cache ops (prompt_cache e)
                then ((Some (trim_cache ops (int (length p) - int (length tokens)) (prompt_cache e)), []),
                      count_hit (length tokens) s)
                else missed
            | None \<Rightarrow> missed)
      | NoMatch \<Rightarrow> missed)"

section \<open>Storing\<close>

definition empty_trie :: "'l trie" where
  "empty_trie = TNode [] None"

fun store_path :: "int list \<Rightarrow> 'l list \<Rightarrow> 'l trie \<Rightarrow> 'l trie" where
  "store_path [] pc (TNode ch e) = TNode ch (case e of
       Some c \<Rightarrow> Some (c\<lparr>entry_refs := entry_refs c + 1\<rparr>)
     | None \<Rightarrow> Some \<lparr>prompt_cache = pc, entry_refs = 1\<rparr>)"
| "store_path (tok # toks) pc (TNode ch e) =
     (let child = (case map_of ch tok of None \<Rightarrow> empty_trie | Some c \<Rightarrow> c)
      in TNode (AList.update tok (store_path toks pc child) ch) e)"

lemma delete_cache_fields [simp]:
  "lru (delete_cache k s) = lru s" "pinned_keys (delete_cache k s) = pinned_keys s"
  "pc_max_size (delete_cache k s) = pc_max_size s" "pc_stats (delete_cache k s) = pc_stats s"
  by (auto simp: delete_cache_def split: option.splits)

lemma pcm_upd_stats_fields [simp]:
  "lru (pcm_upd_stats f s) = lru s" "pinned_keys (pcm_upd_stats f s) = pinned_keys s"
  "pc_max_size (pcm_upd_stats f s) = pc_max_size s" "pc_trie (pcm_upd_stats f s) = pc_trie s"
  "pc_stats (pcm_upd_stats f s) = f (pc_stats s)"
  by (simp_all add: pcm_upd_stats_def)

lemma evict_lru_lru [simp]: "lru (evict_lru s) = tl (lru s)"
  by (simp add: evict_lru_def split: list.splits)

text \<open>\<open>while len(lru) + len(pinned) > max_size and len(lru) > 0: evict\<close>\<close>

function evict_over :: "'l prefix_cache \<Rightarrow> 'l prefix_cache" where
  "evict_over s = (if pc_max_size s < pcm_len s \<and> lru s \<noteq> [] then evict_over (evict_lru s) else s)"
  by pat_completeness auto

termination
  by (relation "measure (\<lambda>s. length (lru s))") auto

declare evict_over.simps [simp del]

definition pcm_store :: "int list \<Rightarrow> 'l list \<Rightarrow> 'l prefix_cache \<Rightarrow> 'l prefix_cache" where
  "pcm_store tokens pc s =
     (if tokens = [] then s
      else let tree = (case pc_trie s of None \<Rightarrow> empty_trie | Some r \<Rightarrow> r)
           in evict_over (touch_lru tokens (s\<lparr>pc_trie := Some (store_path tokens pc tree)\<rparr>)))"

section \<open>Pinning and reset\<close>

definition pcm_pin :: "int list \<Rightarrow> 'l prefix_cache \<Rightarrow> bool \<times> 'l prefix_cache" where
  "pcm_pin tokens s =
     (case get_cache_entry tokens s of
        None \<Rightarrow> (False, s)
      | Some _ \<Rightarrow>
          if tokens \<notin> pinned_keys s \<and> pc_max_size s \<le> card (pinned_keys s) then (False, s)
          else (True, s\<lparr>lru := remove1 tokens (lru s), pinned_keys := insert tokens (pinned_keys s)\<rparr>))"

definition pcm_unpin :: "int list \<Rightarrow> 'l prefix_cache \<Rightarrow> bool \<times> 'l prefix_cache" where
  "pcm_unpin tokens s =
     (if tokens \<notin> pinned_keys s then (False, s)
      else let s1 = s\<lparr>pinned_keys := pinned_keys s - {tokens}\<rparr>
           in (True, if tokens \<in> set (lru s1) then s1 else s1\<lparr>lru := lru s1 @ [tokens]\<rparr>))"

definition pcm_reset_stats :: "'l prefix_cache \<Rightarrow> 'l prefix_cache" where
  "pcm_reset_stats s = s\<lparr>pc_stats := fresh_prefix_stats\<rparr>"

definition pcm_clear :: "bool \<Rightarrow> 'l prefix_cache \<Rightarrow> 'l prefix_cache" where
  "pcm_clear reset s =
     (let s1 = s\<lparr>pc_trie := None, lru := [], pinned_keys := {}\<rparr>
      in if reset then pcm_reset_stats s1 else s1)"

end
