(* ===== verification/LruOrder.thy ===== *)
theory LruOrder
  imports Prelude
begin

text \<open>
  The interface of a least-recently-used order, which \<open>PrefixCacheManager\<close>, \<open>ResponseCache\<close> and
  \<open>MemoryAwarePrefixCache\<close> keep in an \<open>OrderedDict\<close>, here an association list: using a key moves it to the end, evicting drops the first. The derived laws say
  what survives a run of evictions.
\<close>

section \<open>Python's \<open>OrderedDict\<close>\<close>

text \<open>\<open>move_to_end(k)\<close> of a present key.\<close>

definition move_to_end :: "'k \<Rightarrow> ('k \<times> 'v) list \<Rightarrow> ('k \<times> 'v) list" where
  "move_to_end k xs = (case map_of xs k of None \<Rightarrow> xs | Some v \<Rightarrow> filter (\<lambda>p. fst p \<noteq> k) xs @ [(k, v)])"

lemma move_to_end_keys:
  assumes "distinct (map fst xs)" and "k \<in> fst ` set xs"
  shows "map fst (move_to_end k xs) = remove1 k (map fst xs) @ [k]"
proof -
  obtain v where v: "map_of xs k = Some v" using assms(2) by (cases "map_of xs k") (auto simp: map_of_eq_None_iff)
  have "map fst (filter (\<lambda>p. fst p \<noteq> k) xs) = filter (\<lambda>j. j \<noteq> k) (map fst xs)" by (simp add: filter_map comp_def)
  also have "\<dots> = remove1 k (map fst xs)" using assms(1) by (simp add: distinct_remove1_removeAll removeAll_filter_not_eq)
      (metis (mono_tags, lifting))
  finally show ?thesis by (simp add: move_to_end_def v)
qed

lemma map_of_move_to_end: "map_of (move_to_end k xs) = map_of xs"
proof (cases "map_of xs k")
  case (Some v)
  have "map_of (filter (\<lambda>p. fst p \<noteq> k) xs) = (map_of xs)(k := None)" by (induction xs) (auto simp: fun_eq_iff)
  then show ?thesis using Some by (auto simp: move_to_end_def map_add_def fun_eq_iff split: option.split)
qed (simp add: move_to_end_def)

section \<open>The interface\<close>

locale lru_order =
  fixes order :: "'s \<Rightarrow> 'k list" and wf :: "'s \<Rightarrow> bool" and tracked :: "'s \<Rightarrow> 'k \<Rightarrow> bool"
    and use_key :: "'k \<Rightarrow> 's \<Rightarrow> 's" and evict :: "'s \<Rightarrow> 's"
  assumes wf_distinct: "wf s \<Longrightarrow> distinct (order s)"
    and wf_use: "wf s \<Longrightarrow> tracked s k \<Longrightarrow> wf (use_key k s)" and wf_evict: "wf s \<Longrightarrow> wf (evict s)"
    and order_use: "wf s \<Longrightarrow> tracked s k \<Longrightarrow> order (use_key k s) = remove1 k (order s) @ [k]"
    and order_evict: "wf s \<Longrightarrow> order (evict s) = tl (order s)"
begin

lemma wf_evicts: "wf s \<Longrightarrow> wf ((evict ^^ n) s)"
  by (induction n) (simp_all add: wf_evict)

lemma order_evicts: "wf s \<Longrightarrow> order ((evict ^^ n) s) = drop n (order s)"
proof (induction n)
  case (Suc n)
  then show ?case by (simp add: order_evict wf_evicts drop_Suc tl_drop)
qed simp

text \<open>The key used last survives all evictions but the one that empties the order.\<close>

lemma used_survives:
  assumes "wf s" and "tracked s k" and "n < length (order (use_key k s))"
  shows "k \<in> set (order ((evict ^^ n) (use_key k s)))"
proof -
  have "order ((evict ^^ n) (use_key k s)) = drop n (remove1 k (order s) @ [k])"
    using assms by (simp add: order_evicts wf_use order_use)
  then show ?thesis using assms by (simp add: order_use)
qed

text \<open>A key with at least \<open>n\<close> older ones survives \<open>n\<close> evictions, and nothing younger goes first.\<close>

lemma older_go_first:
  assumes "wf s" and "order s = xs @ k # ys" and "n \<le> length xs"
  shows "set (k # ys) \<subseteq> set (order ((evict ^^ n) s))"
  using assms by (auto simp: order_evicts)

lemma evicted: "wf s \<Longrightarrow> set (order s) - set (order ((evict ^^ n) s)) = set (take n (order s))"
proof -
  assume w: "wf s"
  have "set (take n (order s)) \<inter> set (drop n (order s)) = {}"
    using wf_distinct [OF w] by (simp add: set_take_disj_set_drop_if_distinct)
  moreover have "set (order s) = set (take n (order s)) \<union> set (drop n (order s))"
    by (metis append_take_drop_id set_append)
  ultimately show ?thesis using w by (auto simp: order_evicts)
qed

end

end
