(* ===== verification/PrefixTrieCorrect.thy ===== *)
theory PrefixTrieCorrect
  imports PrefixTrie LruOrder
begin

text \<open>
  What \<open>PrefixCacheManager\<close> promises: the entries of the tree are exactly the keys of the LRU order
  and of the pinned set, within capacity and with no dead branch; a fetch returns a cache that
  holds the tokens it claims; eviction follows the LRU order and spares pinned keys.
\<close>

section \<open>The tree as a finite map\<close>

fun wf_trie :: "'l trie \<Rightarrow> bool" where
  "wf_trie (TNode ch e) \<longleftrightarrow> distinct (map fst ch) \<and> list_all (\<lambda>(t, c). wf_trie c) ch"

definition occupied :: "'l trie \<Rightarrow> bool" where
  "occupied n \<longleftrightarrow> kids n \<noteq> [] \<or> entry n \<noteq> None"

text \<open>No dead branch: every node below the root leads to an entry.\<close>

fun live :: "'l trie \<Rightarrow> bool" where
  "live (TNode ch e) \<longleftrightarrow> list_all (\<lambda>(t, c). live c \<and> occupied c) ch"

lemma set_update_subset: "set (AList.update k v al) \<subseteq> insert (k, v) (set al)"
  by (induction al) auto

lemma all_update:
  "list_all (\<lambda>(t, c). Q t c) ch \<Longrightarrow> Q t c' \<Longrightarrow> list_all (\<lambda>(t, c). Q t c) (AList.update t c' ch)"
  using set_update_subset [of t c' ch] by (auto simp: list_all_iff)

lemma all_delete: "list_all P al \<Longrightarrow> list_all P (AList.delete k al)"
  by (auto simp: list_all_iff AList.delete_eq)

lemma all_child: "map_of ch t = Some c \<Longrightarrow> list_all (\<lambda>(t, c). Q t c) ch \<Longrightarrow> Q t c"
  by (auto simp: list_all_iff dest: map_of_SomeD)

lemma empty_trie_simps [simp]:
  "wf_trie empty_trie" "live empty_trie" "node_entry empty_trie q = None" "kids empty_trie = []"
  "entry empty_trie = None"
  by (cases q; simp add: empty_trie_def)+

definition kid :: "int \<Rightarrow> (int \<times> 'l trie) list \<Rightarrow> 'l trie" where
  "kid t ch = (case map_of ch t of None \<Rightarrow> empty_trie | Some c \<Rightarrow> c)"

lemma kid_preds: "list_all (\<lambda>(t, c). Q c) ch \<Longrightarrow> Q empty_trie \<Longrightarrow> Q (kid t ch)"
  by (auto simp: kid_def split: option.splits dest: all_child)

lemma store_path_step:
  "store_path (t # ts) pc (TNode ch e) = TNode (AList.update t (store_path ts pc (kid t ch)) ch) e"
  by (simp add: kid_def Let_def)

lemma node_entry_step: "node_entry (TNode ch e) (t # ts) = node_entry (kid t ch) ts"
  by (simp add: kid_def split: option.splits)

text \<open>The entry a store leaves at its key: the first cache stored there, counted once more.\<close>

definition merged :: "'l list \<Rightarrow> 'l cache_entry option \<Rightarrow> 'l cache_entry" where
  "merged pc e = (case e of Some c \<Rightarrow> c\<lparr>entry_refs := entry_refs c + 1\<rparr>
     | None \<Rightarrow> \<lparr>prompt_cache = pc, entry_refs = 1\<rparr>)"

lemma store_path_entry:
  "node_entry (store_path toks pc n) q =
     (if q = toks then Some (merged pc (node_entry n toks)) else node_entry n q)"
proof (induction toks arbitrary: n q)
  case Nil
  obtain ch e where "n = TNode ch e" by (cases n)
  then show ?case by (cases q; cases e) (auto simp: merged_def)
next
  case (Cons t ts)
  obtain ch e where n: "n = TNode ch e" by (cases n)
  show ?case
  proof (cases q)
    case Nil
    then show ?thesis by (simp add: n Let_def)
  next
    case (Cons u us)
    have "node_entry (store_path (t # ts) pc n) q =
        (if u = t then node_entry (store_path ts pc (kid t ch)) us else node_entry (kid u ch) us)"
      unfolding n Cons store_path_step by (simp add: kid_def update_conv' split: option.splits)
    then show ?thesis unfolding n Cons node_entry_step Cons.IH by simp
  qed
qed

lemma store_path_occupied: "occupied (store_path toks pc n)"
proof (cases n)
  case (TNode ch e)
  have "AList.update t c ch \<noteq> []" for t c by (cases ch) auto
  then show ?thesis
    by (cases toks) (auto simp: TNode occupied_def Let_def split: option.splits)
qed

lemma store_path_wf: "wf_trie n \<Longrightarrow> wf_trie (store_path toks pc n)"
proof (induction toks arbitrary: n)
  case Nil
  then show ?case by (cases n) simp
next
  case (Cons t ts)
  obtain ch e where n: "n = TNode ch e" by (cases n)
  have "wf_trie (kid t ch)" using Cons.prems by - (rule kid_preds, simp_all add: n)
  then have "wf_trie (store_path ts pc (kid t ch))" by (rule Cons.IH)
  then show ?case using Cons.prems unfolding n store_path_step by (simp add: all_update distinct_update)
qed

lemma store_path_live: "live n \<Longrightarrow> live (store_path toks pc n)"
proof (induction toks arbitrary: n)
  case Nil
  then show ?case by (cases n) simp
next
  case (Cons t ts)
  obtain ch e where n: "n = TNode ch e" by (cases n)
  have "list_all (\<lambda>(t, c). live c) ch" using Cons.prems by (auto simp: n list_all_iff)
  then have "live (kid t ch)" by (rule kid_preds) simp
  then have "live (store_path ts pc (kid t ch))" by (rule Cons.IH)
  then show ?case using Cons.prems unfolding n store_path_step by (simp add: all_update store_path_occupied)
qed

lemma delete_path_none: "delete_path toks n = None \<Longrightarrow> node_entry n toks = None"
  by (induction toks n rule: delete_path.induct) (auto split: option.splits)

lemma delete_path_spec:
  "delete_path toks n = Some n' \<Longrightarrow> wf_trie n \<Longrightarrow> live n \<Longrightarrow>
   wf_trie n' \<and> live n' \<and> (\<forall>q. node_entry n' q = (if q = toks then None else node_entry n q))"
proof (induction toks n arbitrary: n' rule: delete_path.induct)
  case (1 ch e)
  have "node_entry (TNode ch None) q = (if q = [] then None else node_entry (TNode ch e) q)" for q
    by (cases q) auto
  with 1 show ?case by auto
next
  case (2 t ts ch e)
  obtain c where c: "map_of ch t = Some c" using "2.prems"(1) by (auto split: option.splits)
  obtain c' where c': "delete_path ts c = Some c'" using "2.prems"(1) c by (auto split: option.splits)
  have wl: "wf_trie c" "live c"
    using all_child [OF c, of "\<lambda>t c. wf_trie c"] all_child [OF c, of "\<lambda>t c. live c \<and> occupied c"] "2.prems"(2,3)
    by simp_all
  from "2.IH" [OF c c' wl] have ih: "wf_trie c'" "live c'"
    "\<And>q. node_entry c' q = (if q = ts then None else node_entry c q)" by auto
  have n': "n' = TNode (if kids c' = [] \<and> entry c' = None then AList.delete t ch else AList.update t c' ch) e"
    using "2.prems"(1) c c' by simp
  show ?case
  proof (cases "kids c' = [] \<and> entry c' = None")
    case True
    then have emp: "node_entry c' q = None" for q by (cases q) auto
    have only: "node_entry c q = None" if "q \<noteq> ts" for q using ih(3) [of q] emp that by simp
    have "node_entry n' q = (if q = t # ts then None else node_entry (TNode ch e) q)" for q
      using True c only
      by (cases q) (auto simp: n' delete_conv' split: option.splits if_splits)
    then show ?thesis using True "2.prems"(2,3) by (simp add: n' all_delete distinct_delete)
  next
    case False
    have "node_entry n' q = (if q = t # ts then None else node_entry (TNode ch e) q)" for q
      using False c ih(3) by (cases q) (auto simp: n' update_conv' split: option.splits)
    moreover have "occupied c'" using False by (simp add: occupied_def)
    ultimately show ?thesis
      using False "2.prems"(2,3) ih(1,2) by (auto simp: n' all_update distinct_update)
  qed
qed

text \<open>An occupied live node has an entry at or below it.\<close>

lemma live_entry: "live n \<Longrightarrow> wf_trie n \<Longrightarrow> occupied n \<Longrightarrow> \<exists>q. node_entry n q \<noteq> None"
proof (induction n rule: live.induct)
  case (1 ch e)
  show ?case
  proof (cases "e = None")
    case False
    then show ?thesis by (intro exI [of _ "[]"]) simp
  next
    case True
    then obtain t c ds where ch: "ch = (t, c) # ds" using "1.prems"(3) by (cases ch) (auto simp: occupied_def)
    then have "\<exists>q. node_entry c q \<noteq> None" using "1.IH" [of "(t, c)" t c] "1.prems" by auto
    then obtain q where "node_entry c q \<noteq> None" ..
    then show ?thesis by (intro exI [of _ "t # q"]) (simp add: ch)
  qed
qed

section \<open>Searching\<close>

fun trie_at :: "'l trie \<Rightarrow> int list \<Rightarrow> 'l trie option" where
  "trie_at n [] = Some n"
| "trie_at n (t # ts) = (case map_of (kids n) t of None \<Rightarrow> None | Some c \<Rightarrow> trie_at c ts)"

lemma node_entry_at: "node_entry n q = (case trie_at n q of None \<Rightarrow> None | Some m \<Rightarrow> entry m)"
  by (induction n q rule: node_entry.induct) (auto split: option.splits)

lemma trie_at_append: "trie_at n (p @ q) = (case trie_at n p of None \<Rightarrow> None | Some m \<Rightarrow> trie_at m q)"
  by (induction p arbitrary: n) (auto split: option.splits)

lemma trie_walk_cases:
  obtains (whole) m where "trie_at n toks = Some m" "trie_walk toks n path = Inr m"
    | (leaves) p t rest m where "toks = p @ t # rest" "trie_at n p = Some m" "map_of (kids m) t = None"
        "trie_walk toks n path = Inl (m, path @ p)"
proof -
  have "(\<exists>m. trie_at n toks = Some m \<and> trie_walk toks n path = Inr m) \<or>
    (\<exists>p t rest m. toks = p @ t # rest \<and> trie_at n p = Some m \<and> map_of (kids m) t = None \<and>
       trie_walk toks n path = Inl (m, path @ p))"
  proof (induction toks arbitrary: n path)
    case (Cons u us)
    show ?case
    proof (cases "map_of (kids n) u")
      case None
      then show ?thesis by (intro disjI2 exI [of _ "[]"] exI [of _ u] exI [of _ us] exI [of _ n]) simp
    next
      case (Some c)
      from Cons.IH [of c "path @ [u]"] show ?thesis
      proof
        assume "\<exists>p t rest m. us = p @ t # rest \<and> trie_at c p = Some m \<and> map_of (kids m) t = None \<and>
          trie_walk us c (path @ [u]) = Inl (m, (path @ [u]) @ p)"
        then obtain p t rest m where "us = p @ t # rest" "trie_at c p = Some m" "map_of (kids m) t = None"
          "trie_walk us c (path @ [u]) = Inl (m, (path @ [u]) @ p)" by blast
        then show ?thesis
          using Some by (intro disjI2 exI [of _ "u # p"] exI [of _ t] exI [of _ rest] exI [of _ m]) simp
      qed (use Some in auto)
    qed
  qed simp
  then show ?thesis using whole leaves by blast
qed

lemma longer_search_some:
  "longer_search stack = Some p \<Longrightarrow> list_all (\<lambda>(n, path). wf_trie n) stack \<Longrightarrow>
   \<exists>n path q. (n, path) \<in> set stack \<and> p = path @ q \<and> node_entry n q \<noteq> None"
proof (induction stack rule: longer_search.induct)
  case (2 ch e path stack)
  show ?case
  proof (cases "e = None")
    case False
    then have "p = path @ []" using "2.prems"(1) by simp
    then show ?thesis using False by (intro exI [of _ "TNode ch e"] exI [of _ path] exI [of _ "[]"]) simp
  next
    case True
    let ?cs = "rev (map (\<lambda>(tok, child). (child, path @ [tok])) ch)"
    have d: "distinct (map fst ch)" using "2.prems"(2) by simp
    have "list_all (\<lambda>(n, path). wf_trie n) (?cs @ stack)" using "2.prems"(2) by (fastforce simp: list_all_iff)
    moreover have "longer_search (?cs @ stack) = Some p" using "2.prems"(1) True by simp
    ultimately obtain n pa q where h: "(n, pa) \<in> set (?cs @ stack)" "p = pa @ q" "node_entry n q \<noteq> None"
      using "2.IH" True by blast
    show ?thesis
    proof (cases "(n, pa) \<in> set stack")
      case False
      then obtain t where t: "(t, n) \<in> set ch" "pa = path @ [t]" using h(1) by auto
      then have "node_entry (TNode ch e) (t # q) \<noteq> None" using h(3) d by (simp add: map_of_eq_Some_iff [THEN iffD2])
      then show ?thesis
        using h(2) t(2) by (intro exI [of _ "TNode ch e"] exI [of _ path] exI [of _ "t # q"]) simp
    qed (use h in auto)
  qed
qed simp

lemma longer_search_none:
  "longer_search stack = None \<Longrightarrow> (n, path) \<in> set stack \<Longrightarrow> node_entry n q = None"
proof (induction stack arbitrary: n path q rule: longer_search.induct)
  case (2 ch e pa stack)
  let ?cs = "rev (map (\<lambda>(tok, child). (child, pa @ [tok])) ch)"
  have e: "e = None" and l: "longer_search (?cs @ stack) = None" using "2.prems"(1) by (auto split: if_splits)
  note ih = "2.IH" [OF _ l]
  show ?case
  proof (cases "(n, path) \<in> set stack")
    case True
    then show ?thesis using ih [of n path] e by simp
  next
    case False
    then have n: "n = TNode ch e" using "2.prems"(2) by simp
    have "node_entry c us = None" if "map_of ch t = Some c" for t c us
      using ih [of c "pa @ [t]" us] e map_of_SomeD [OF that] by force
    then show ?thesis using e by (cases q) (auto simp: n split: option.splits)
  qed
qed simp

section \<open>The manager\<close>

abbreviation cached :: "'l prefix_cache \<Rightarrow> int list \<Rightarrow> bool" where
  "cached s q \<equiv> get_cache_entry q s \<noteq> None"

definition tree_ok :: "'l prefix_cache \<Rightarrow> bool" where
  "tree_ok s \<longleftrightarrow> (case pc_trie s of None \<Rightarrow> True
     | Some tree \<Rightarrow> wf_trie tree \<and> live tree \<and> entry tree = None)"

text \<open>The invariant without the capacity bound, which a store restores by evicting.\<close>

definition pcm_coherent :: "'l prefix_cache \<Rightarrow> bool" where
  "pcm_coherent s \<longleftrightarrow> tree_ok s \<and> distinct (lru s) \<and> finite (pinned_keys s) \<and>
     set (lru s) \<inter> pinned_keys s = {} \<and> (\<forall>q. cached s q \<longleftrightarrow> q \<in> set (lru s) \<or> q \<in> pinned_keys s)"

definition pcm_inv :: "'l prefix_cache \<Rightarrow> bool" where
  "pcm_inv s \<longleftrightarrow> pcm_coherent s \<and> pcm_len s \<le> pc_max_size s"

lemma trie_search_cases:
  assumes "tree_ok s"
  obtains (exact) "trie_search toks s = Exact toks" "cached s toks"
    | (shorter) p t rest where "trie_search toks s = Shorter p" "toks = p @ t # rest" "cached s p"
        "\<forall>q. prefix (p @ [t]) q \<longrightarrow> \<not> cached s q"
    | (longer) p where "trie_search toks s = Longer p (length toks)" "strict_prefix toks p" "cached s p" "\<not> cached s toks"
    | (none) "trie_search toks s = NoMatch" "\<forall>q. prefix toks q \<longrightarrow> \<not> cached s q"
proof (cases "pc_trie s")
  case None
  then show ?thesis using none by (simp add: trie_search_def get_cache_entry_def)
next
  case (Some tree)
  then have tr: "wf_trie tree" "live tree" "entry tree = None" using assms by (simp_all add: tree_ok_def)
  have ce: "get_cache_entry q s = node_entry tree q" for q by (simp add: get_cache_entry_def Some)
  show ?thesis
  proof (cases rule: trie_walk_cases [of tree toks "[]"])
    case (whole m)
    have cm: "get_cache_entry (toks @ q) s = node_entry m q" for q
      using whole(1) by (simp add: ce node_entry_at trie_at_append)
    have wfm: "wf_trie m" using tr(1) whole(1)
      by (induction tree toks rule: trie_at.induct) (auto split: option.splits, metis trie.exhaust_sel wf_trie.simps all_child)
    show ?thesis
    proof (cases "entry m = None")
      case False
      then show ?thesis using exact whole cm [of "[]"] by (simp add: trie_search_def Some)
    next
      case True
      show ?thesis
      proof (cases "longer_search [(m, toks)]")
        case None
        then have "node_entry m q = None" for q using longer_search_none [of "[(m, toks)]" m toks q] by simp
        then show ?thesis
          using whole None True cm by (intro none) (auto simp: trie_search_def Some prefix_def)
      next
        case (Some p)
        then obtain q where q: "p = toks @ q" "node_entry m q \<noteq> None"
          using longer_search_some [of "[(m, toks)]" p] wfm by auto
        then have "q \<noteq> []" using True by auto
        then show ?thesis
          using longer [of p] whole True Some q cm [of q] cm [of "[]"]
          by (simp add: trie_search_def \<open>pc_trie s = Some tree\<close> strict_prefix_def)
      qed
    qed
  next
    case (leaves p t rest m)
    have cm: "get_cache_entry (p @ q) s = node_entry m q" for q
      using leaves(2) by (simp add: ce node_entry_at trie_at_append)
    have un: "\<not> cached s q" if pq: "prefix (p @ [t]) q" for q
    proof -
      obtain us where "q = p @ t # us" using pq by (auto simp: prefix_def)
      then show ?thesis using cm [of "t # us"] leaves(3) by simp
    qed
    show ?thesis
    proof (cases "entry m = None")
      case False
      then show ?thesis
        using shorter [of p t rest] leaves un cm [of "[]"] by (simp add: trie_search_def Some)
    next
      case True
      have "\<not> cached s q" if "prefix toks q" for q
        using that un leaves(1) by (auto simp: prefix_def)
      then show ?thesis using none leaves True by (simp add: trie_search_def Some)
    qed
  qed
qed

section \<open>Preservation\<close>

lemma get_entry_upd [simp]:
  "get_cache_entry q (pcm_upd_stats f s) = get_cache_entry q s" "get_cache_entry q (touch_lru k s) = get_cache_entry q s"
  "get_cache_entry q (s\<lparr>lru := l\<rparr>) = get_cache_entry q s"
  "get_cache_entry q (s\<lparr>pinned_keys := pk\<rparr>) = get_cache_entry q s"
  by (auto simp: get_cache_entry_def touch_lru_def)

lemma tree_ok_upd [simp]:
  "tree_ok (pcm_upd_stats f s) = tree_ok s" "tree_ok (touch_lru k s) = tree_ok s"
  "tree_ok (s\<lparr>lru := l\<rparr>) = tree_ok s" "tree_ok (s\<lparr>pinned_keys := pk\<rparr>) = tree_ok s"
  by (auto simp: tree_ok_def touch_lru_def)

lemma touch_lru_fields [simp]:
  "pinned_keys (touch_lru k s) = pinned_keys s" "pc_max_size (touch_lru k s) = pc_max_size s"
  "pc_stats (touch_lru k s) = pc_stats s"
  by (auto simp: touch_lru_def)

lemma touch_lru_order: "k \<notin> pinned_keys s \<Longrightarrow> lru (touch_lru k s) = remove1 k (lru s) @ [k]"
  by (auto simp: touch_lru_def remove1_idem)

lemma pcm_coherent_stats [simp]: "pcm_coherent (pcm_upd_stats f s) = pcm_coherent s"
  by (simp add: pcm_coherent_def)

lemma pcm_len_stats [simp]: "pcm_len (pcm_upd_stats f s) = pcm_len s"
  by (simp add: pcm_len_def)

lemma touch_coherent: "pcm_coherent s \<Longrightarrow> cached s k \<Longrightarrow> pcm_coherent (touch_lru k s)"
  by (auto simp: pcm_coherent_def touch_lru_def)

lemma touch_len: "pcm_coherent s \<Longrightarrow> cached s k \<Longrightarrow> pcm_len (touch_lru k s) = pcm_len s"
  using length_pos_if_in_set [of k "lru s"]
  by (auto simp: pcm_len_def touch_lru_def pcm_coherent_def length_remove1)

lemma delete_cache_entry:
  assumes "tree_ok s" and "k \<noteq> []"
  shows "tree_ok (delete_cache k s)"
    and "get_cache_entry q (delete_cache k s) = (if q = k then None else get_cache_entry q s)"
proof -
  have "tree_ok (delete_cache k s) \<and>
    get_cache_entry q (delete_cache k s) = (if q = k then None else get_cache_entry q s)"
  proof (cases "pc_trie s")
    case None
    then show ?thesis using assms by (simp add: delete_cache_def get_cache_entry_def)
  next
    case (Some tree)
    then have tr: "wf_trie tree" "live tree" "entry tree = None" using assms(1) by (simp_all add: tree_ok_def)
    show ?thesis
    proof (cases "delete_path k tree")
      case None
      then show ?thesis
        using assms Some delete_path_none [OF None] by (simp add: delete_cache_def get_cache_entry_def)
    next
      case (Some tree')
      from delete_path_spec [OF this tr(1,2)] have d: "wf_trie tree'" "live tree'"
        "\<And>q. node_entry tree' q = (if q = k then None else node_entry tree q)" by auto
      have "entry tree' = None" using d(3) [of "[]"] tr(3) by (simp split: if_splits)
      then show ?thesis
        using Some \<open>pc_trie s = Some tree\<close> d by (simp add: delete_cache_def get_cache_entry_def tree_ok_def)
    qed
  qed
  then show "tree_ok (delete_cache k s)"
    "get_cache_entry q (delete_cache k s) = (if q = k then None else get_cache_entry q s)" by simp_all
qed

lemma coherent_nonempty: "pcm_coherent s \<Longrightarrow> cached s q \<Longrightarrow> q \<noteq> []"
  by (cases "pc_trie s"; cases q) (simp_all add: pcm_coherent_def tree_ok_def get_cache_entry_def)

lemma evict_lru_spec:
  assumes c: "pcm_coherent s"
  shows "pcm_coherent (evict_lru s) \<and> pinned_keys (evict_lru s) = pinned_keys s \<and>
    pc_max_size (evict_lru s) = pc_max_size s \<and>
    (\<forall>q. get_cache_entry q (evict_lru s) = (if lru s \<noteq> [] \<and> q = hd (lru s) then None else get_cache_entry q s))"
proof (cases "lru s")
  case Nil
  then show ?thesis using c by (simp add: evict_lru_def)
next
  case (Cons k ks)
  have k: "cached s k" "k \<noteq> []"
    using c Cons coherent_nonempty [OF c, of k] by (auto simp: pcm_coherent_def)
  have t: "tree_ok (s\<lparr>lru := ks\<rparr>)" using c by (simp add: pcm_coherent_def)
  note d = delete_cache_entry [OF t k(2)]
  have "get_cache_entry q (evict_lru s) = (if q = k then None else get_cache_entry q s)" for q
    by (simp add: evict_lru_def Cons d)
  moreover from this have "pcm_coherent (evict_lru s)"
    using c Cons d(1) by (auto simp: pcm_coherent_def evict_lru_def)
  ultimately show ?thesis by (simp add: Cons) (simp add: evict_lru_def Cons)
qed

interpretation pcm_lru: lru_order lru pcm_coherent "\<lambda>s k. k \<notin> pinned_keys s \<and> cached s k" touch_lru evict_lru
  by unfold_locales
    (auto simp: touch_lru_order evict_lru_spec intro: touch_coherent, simp add: pcm_coherent_def)

lemma evict_over_iter: "evict_over s = (evict_lru ^^ (min (pcm_len s - pc_max_size s) (length (lru s)))) s"
  if "pcm_coherent s"
  using that
proof (induction s rule: evict_over.induct)
  case (1 s)
  show ?case
  proof (cases "pc_max_size s < pcm_len s \<and> lru s \<noteq> []")
    case True
    note e = evict_lru_spec [OF "1.prems"]
    have "evict_over s = evict_over (evict_lru s)" using True by (subst evict_over.simps) simp
    also have "\<dots> = (evict_lru ^^ (min (pcm_len (evict_lru s) - pc_max_size s) (length (lru (evict_lru s))))) (evict_lru s)"
      using "1.IH" [OF True] e by simp
    also have "\<dots> = (evict_lru ^^ Suc (min (pcm_len (evict_lru s) - pc_max_size s) (length (lru (evict_lru s))))) s"
      by (simp add: funpow_swap1)
    also have "Suc (min (pcm_len (evict_lru s) - pc_max_size s) (length (lru (evict_lru s)))) =
        min (pcm_len s - pc_max_size s) (length (lru s))"
      using True e by (cases "lru s") (auto simp: pcm_len_def min_def)
    finally show ?thesis .
  next
    case False
    then have "min (pcm_len s - pc_max_size s) (length (lru s)) = 0" by auto
    then show ?thesis using False by (simp only: evict_over.simps [of s] if_False funpow_0)
  qed
qed

lemma evicts_spec:
  assumes "pcm_coherent s" and "n \<le> length (lru s)"
  shows "pcm_coherent ((evict_lru ^^ n) s) \<and> lru ((evict_lru ^^ n) s) = drop n (lru s) \<and>
    pinned_keys ((evict_lru ^^ n) s) = pinned_keys s \<and> pc_max_size ((evict_lru ^^ n) s) = pc_max_size s \<and>
    (\<forall>q. get_cache_entry q ((evict_lru ^^ n) s) = (if q \<in> set (take n (lru s)) then None else get_cache_entry q s))"
  using assms(2)
proof (induction n)
  case (Suc n)
  let ?t = "(evict_lru ^^ n) s"
  have t: "pcm_coherent ?t" "lru ?t = drop n (lru s)" "pinned_keys ?t = pinned_keys s" "pc_max_size ?t = pc_max_size s"
    "\<And>q. get_cache_entry q ?t = (if q \<in> set (take n (lru s)) then None else get_cache_entry q s)"
    using Suc by auto
  have hd: "lru ?t \<noteq> []" "hd (lru ?t) = lru s ! n" using Suc.prems t(2) by (simp_all add: hd_drop_conv_nth)
  have tk: "set (take (Suc n) (lru s)) = insert (lru s ! n) (set (take n (lru s)))"
    using Suc.prems by (simp add: take_Suc_conv_app_nth)
  show ?case
    using evict_lru_spec [OF t(1)] t hd tk by (auto simp: drop_Suc tl_drop)
qed (use assms in simp)

lemma store_coherent:
  fixes pc :: "'l list"
  assumes c: "pcm_coherent s" and k: "toks \<noteq> []"
  defines "s1 \<equiv> touch_lru toks (s\<lparr>pc_trie := Some (store_path toks pc
      (case pc_trie s of None \<Rightarrow> empty_trie | Some r \<Rightarrow> r))\<rparr>)"
  shows "pcm_coherent s1 \<and> (\<forall>q. get_cache_entry q s1 =
      (if q = toks then Some (merged pc (get_cache_entry toks s)) else get_cache_entry q s)) \<and>
    pinned_keys s1 = pinned_keys s \<and> pc_max_size s1 = pc_max_size s \<and> pc_stats s1 = pc_stats s"
proof -
  let ?t = "case pc_trie s of None \<Rightarrow> empty_trie | Some r \<Rightarrow> r"
  have t: "wf_trie ?t" "live ?t" "entry ?t = None" "\<And>q. node_entry ?t q = get_cache_entry q s"
    using c by (auto simp: pcm_coherent_def tree_ok_def get_cache_entry_def split: option.splits)
  have ge: "get_cache_entry q s1 = (if q = toks then Some (merged pc (get_cache_entry toks s)) else get_cache_entry q s)" for q
  proof -
    have "get_cache_entry q s1 = node_entry (store_path toks pc ?t) q"
      unfolding s1_def get_entry_upd by (simp add: get_cache_entry_def)
    then show ?thesis by (simp only: store_path_entry t(4))
  qed
  have "entry (store_path toks pc ?t) = None" using store_path_entry [of toks pc ?t "[]"] k t(3) by simp
  then have tk: "tree_ok s1"
    using store_path_wf [OF t(1)] store_path_live [OF t(2)] by (simp add: s1_def) (simp add: tree_ok_def)
  have "set (lru s1) = (if toks \<in> pinned_keys s then set (lru s) else insert toks (set (lru s)))" "distinct (lru s1)"
    using c by (auto simp: s1_def touch_lru_def pcm_coherent_def)
  then have "pcm_coherent s1" using c tk ge by (auto simp: pcm_coherent_def s1_def)
  then show ?thesis using ge by (simp add: s1_def)
qed

section \<open>Histories\<close>

text \<open>
  \<open>holds c q\<close>: the cache \<open>c\<close> is the KV state of the tokens \<open>q\<close>. A history stores caches that hold what
  they are stored under.
\<close>

inductive pcm_run :: "('l list \<Rightarrow> int list \<Rightarrow> bool) \<Rightarrow> 'l layer_ops \<Rightarrow> 'l prefix_cache \<Rightarrow> bool"
  for holds ops where
  pr_init: "pcm_run holds ops (pcm_init n)"
| pr_fetch: "pcm_run holds ops s \<Longrightarrow> pcm_fetch ops toks s = (r, s') \<Longrightarrow> pcm_run holds ops s'"
| pr_store: "pcm_run holds ops s \<Longrightarrow> holds pc toks \<Longrightarrow> pcm_run holds ops (pcm_store toks pc s)"
| pr_pin: "pcm_run holds ops s \<Longrightarrow> pcm_pin toks s = (v, s') \<Longrightarrow> pcm_run holds ops s'"
| pr_unpin: "pcm_run holds ops s \<Longrightarrow> pcm_unpin toks s = (v, s') \<Longrightarrow> pcm_run holds ops s'"
| pr_reset: "pcm_run holds ops s \<Longrightarrow> pcm_run holds ops (pcm_reset_stats s)"
| pr_clear: "pcm_run holds ops s \<Longrightarrow> pcm_run holds ops (pcm_clear b s)"

definition sound :: "('l list \<Rightarrow> int list \<Rightarrow> bool) \<Rightarrow> 'l prefix_cache \<Rightarrow> bool" where
  "sound holds s \<longleftrightarrow> (\<forall>q e. get_cache_entry q s = Some e \<longrightarrow> holds (prompt_cache e) q)"

lemma pcm_store_spec:
  fixes pc :: "'l list"
  assumes i: "pcm_inv s" and k: "toks \<noteq> []"
  defines "ks \<equiv> (if toks \<in> pinned_keys s then lru s else remove1 toks (lru s) @ [toks])"
  defines "n \<equiv> length ks + card (pinned_keys s) - pc_max_size s"
  shows "pcm_inv (pcm_store toks pc s) \<and> lru (pcm_store toks pc s) = drop n ks \<and> n \<le> 1 \<and>
    pinned_keys (pcm_store toks pc s) = pinned_keys s \<and> pc_max_size (pcm_store toks pc s) = pc_max_size s \<and>
    (\<forall>q. get_cache_entry q (pcm_store toks pc s) = (if q \<in> set (take n ks) then None
       else if q = toks then Some (merged pc (get_cache_entry toks s)) else get_cache_entry q s))"
proof -
  define s1 where "s1 = touch_lru toks (s\<lparr>pc_trie := Some (store_path toks pc
      (case pc_trie s of None \<Rightarrow> empty_trie | Some r \<Rightarrow> r))\<rparr>)"
  have c: "pcm_coherent s" using i by (simp add: pcm_inv_def)
  have s1: "pcm_coherent s1" "pinned_keys s1 = pinned_keys s" "pc_max_size s1 = pc_max_size s"
    "\<And>q. get_cache_entry q s1 = (if q = toks then Some (merged pc (get_cache_entry toks s)) else get_cache_entry q s)"
    using store_coherent [OF c k, of pc] by (auto simp: s1_def)
  have ks: "lru s1 = ks" by (auto simp: s1_def ks_def touch_lru_def remove1_idem)
  have pl: "pcm_len s1 = length ks + card (pinned_keys s)" by (simp add: pcm_len_def ks s1(2))
  have le: "length (lru s) + card (pinned_keys s) \<le> pc_max_size s"
    using i by (simp add: pcm_inv_def pcm_len_def)
  have lk: "length ks \<le> Suc (length (lru s))" by (auto simp: ks_def length_remove1)
  have n1: "n \<le> 1" unfolding n_def using le lk by linarith
  have nl: "n \<le> length ks"
  proof (cases "toks \<in> pinned_keys s")
    case True
    then show ?thesis using le by (simp add: n_def ks_def)
  next
    case False
    then have "length ks = Suc (length (remove1 toks (lru s)))" by (simp add: ks_def)
    then show ?thesis using n1 by linarith
  qed
  have "pcm_store toks pc s = (evict_lru ^^ n) s1"
    using k evict_over_iter [OF s1(1)] nl
    by (simp add: pcm_store_def Let_def s1_def [symmetric] pl s1(3) ks n_def)
  note e = evicts_spec [OF s1(1), of n, unfolded ks, OF nl, folded this]
  have "pcm_len (pcm_store toks pc s) \<le> pc_max_size s"
    using e s1(2) nl le by (simp add: pcm_len_def) (simp add: n_def)
  then show ?thesis using e s1(2-4) n1 by (simp add: pcm_inv_def)
qed

lemma pcm_fetch_cases:
  assumes i: "pcm_inv s" and f: "pcm_fetch ops toks s = ((r, rem), s')"
  shows "pcm_inv s' \<and> get_cache_entry q s' = get_cache_entry q s \<and>
    ((\<exists>e. get_cache_entry toks s = Some e \<and> r = Some (prompt_cache e) \<and> rem = []) \<or>
     (\<exists>p t rest e. toks = p @ t # rest \<and> get_cache_entry p s = Some e \<and> r = Some (prompt_cache e) \<and> rem = t # rest) \<or>
     (\<exists>p e. strict_prefix toks p \<and> get_cache_entry p s = Some e \<and> can_trim_cache ops (prompt_cache e) \<and>
        r = Some (trim_cache ops (int (length p) - int (length toks)) (prompt_cache e)) \<and> rem = []) \<or>
     (r = None \<and> rem = toks \<and> ps_misses (pc_stats s') = ps_misses (pc_stats s) + 1))"
proof -
  let ?s = "pcm_upd_stats (\<lambda>st. st\<lparr>total_queries := total_queries st + 1\<rparr>) s"
  have c: "pcm_coherent s" and ln: "pcm_len s \<le> pc_max_size s" using i by (simp_all add: pcm_inv_def)
  have ok: "tree_ok ?s" using c by (simp add: pcm_coherent_def)
  have ne: "k \<noteq> []" if "cached s k" for k using coherent_nonempty [OF c that] .
  have th: "pcm_inv (touch_lru k (count_hit n ?s))" if "cached s k" for k n
    using that c ln touch_coherent [of "count_hit n ?s" k] touch_len [of "count_hit n ?s" k]
    by (simp add: pcm_inv_def count_hit_def)
  have mi: "pcm_inv (count_miss ?s)" "pcm_inv (count_hit n ?s)" for n
    using c ln by (simp_all add: pcm_inv_def count_miss_def count_hit_def)
  show ?thesis
    using ok
  proof (cases rule: trie_search_cases [where toks = toks])
    case exact
    then show ?thesis using f ne [of toks] th [of toks] by (auto simp: pcm_fetch_def Let_def count_hit_def)
  next
    case (shorter p t rest)
    then obtain e where e: "get_cache_entry p s = Some e" by auto
    have "r = Some (prompt_cache e) \<and> rem = t # rest \<and> s' = touch_lru p (count_hit (length p) ?s)"
      using f shorter ne [of p] e by (auto simp: pcm_fetch_def Let_def)
    then show ?thesis using shorter(2) e th [of p "length p"]
      by (simp add: count_hit_def) blast
  next
    case (longer p)
    then show ?thesis
      using f ne [of p] mi
      by (auto simp: pcm_fetch_def Let_def count_hit_def count_miss_def split: if_splits)
  next
    case none
    then show ?thesis using f mi by (auto simp: pcm_fetch_def Let_def count_miss_def)
  qed
qed

lemma pcm_pin_inv:
  assumes i: "pcm_inv s" and p: "pcm_pin k s = (v, s')"
  shows "pcm_inv s' \<and> get_cache_entry q s' = get_cache_entry q s \<and> (v \<longrightarrow> k \<in> pinned_keys s')"
proof (cases "get_cache_entry k s")
  case None
  then show ?thesis using i p by (simp add: pcm_pin_def)
next
  case (Some e)
  have c: "pcm_coherent s" and ln: "pcm_len s \<le> pc_max_size s" using i by (simp_all add: pcm_inv_def)
  show ?thesis
  proof (cases "v")
    case False
    then show ?thesis using i p Some by (auto simp: pcm_pin_def split: if_splits)
  next
    case True
    then have s': "s' = s\<lparr>lru := remove1 k (lru s), pinned_keys := insert k (pinned_keys s)\<rparr>"
      using p Some by (auto simp: pcm_pin_def split: if_splits)
    have kk: "k \<in> set (lru s) \<or> k \<in> pinned_keys s" using c Some by (auto simp: pcm_coherent_def)
    have "pcm_coherent s'" using c kk by (auto simp: pcm_coherent_def s')
    moreover have "pcm_len s' \<le> pc_max_size s'"
    proof (cases "k \<in> pinned_keys s")
      case True
      then have "k \<notin> set (lru s)" using c by (auto simp: pcm_coherent_def)
      then show ?thesis using True ln by (simp add: pcm_len_def s' insert_absorb remove1_idem)
    next
      case False
      then have "k \<in> set (lru s)" using kk by simp
      then have "Suc (length (remove1 k (lru s))) = length (lru s)"
        unfolding length_remove1 using length_pos_if_in_set [of k "lru s"] by simp
      then show ?thesis using c ln False by (simp add: pcm_len_def s' pcm_coherent_def)
    qed
    ultimately show ?thesis by (simp add: s' pcm_inv_def)
  qed
qed

lemma pcm_unpin_inv:
  assumes i: "pcm_inv s" and p: "pcm_unpin k s = (v, s')"
  shows "pcm_inv s' \<and> get_cache_entry q s' = get_cache_entry q s \<and> (v \<longrightarrow> k \<in> set (lru s'))"
proof (cases "k \<in> pinned_keys s")
  case False
  then show ?thesis using i p by (simp add: pcm_unpin_def)
next
  case True
  have c: "pcm_coherent s" and ln: "pcm_len s \<le> pc_max_size s" using i by (simp_all add: pcm_inv_def)
  have kl: "k \<notin> set (lru s)" using c True by (auto simp: pcm_coherent_def)
  then have s': "v" "s' = s\<lparr>pinned_keys := pinned_keys s - {k}, lru := lru s @ [k]\<rparr>"
    using p True by (auto simp: pcm_unpin_def Let_def)
  have "pcm_coherent s'" using c True kl by (auto simp: pcm_coherent_def s'(2))
  moreover have "Suc (card (pinned_keys s - {k})) = card (pinned_keys s)"
    using c by (intro card_Suc_Diff1 True) (simp add: pcm_coherent_def)
  then have "pcm_len s' \<le> pc_max_size s'" using ln by (simp add: pcm_len_def s'(2))
  ultimately show ?thesis using s' by (simp add: pcm_inv_def)
qed

lemma pcm_run_inv: "pcm_run holds ops s \<Longrightarrow> pcm_inv s \<and> sound holds s"
proof (induction rule: pcm_run.induct)
  case (pr_init n)
  then show ?case
    by (simp add: pcm_inv_def pcm_coherent_def tree_ok_def pcm_init_def get_cache_entry_def pcm_len_def sound_def)
next
  case (pr_fetch s toks r s')
  obtain a b where r: "r = (a, b)" by fastforce
  from pr_fetch have i: "pcm_inv s" and f: "pcm_fetch ops toks s = ((a, b), s')" by (simp_all add: r)
  from pcm_fetch_cases [OF i f] pr_fetch.IH show ?case by (simp add: sound_def)
next
  case (pr_store s pc toks)
  show ?case
  proof (cases "toks = []")
    case True
    then show ?thesis using pr_store.IH by (simp add: pcm_store_def)
  next
    case False
    have "holds (prompt_cache (merged pc (get_cache_entry toks s))) toks"
      using pr_store by (auto simp: merged_def sound_def split: option.splits)
    then show ?thesis
      using pcm_store_spec [OF conjunct1 [OF pr_store.IH] False, of pc] pr_store.IH
      by (auto simp: sound_def split: if_splits)
  qed
next
  case (pr_pin s toks v s')
  then show ?case using pcm_pin_inv [of s toks v s'] by (simp add: sound_def)
next
  case (pr_unpin s toks v s')
  then show ?case using pcm_unpin_inv [of s toks v s'] by (simp add: sound_def)
next
  case (pr_reset s)
  then show ?case
    by (simp add: pcm_reset_stats_def pcm_inv_def pcm_coherent_def tree_ok_def get_cache_entry_def pcm_len_def sound_def)
next
  case (pr_clear s b)
  then show ?case
    by (auto simp: pcm_clear_def pcm_reset_stats_def pcm_inv_def pcm_coherent_def tree_ok_def get_cache_entry_def
        pcm_len_def sound_def Let_def)
qed

section \<open>Properties\<close>

lemma live_at:
  "live n \<Longrightarrow> wf_trie n \<Longrightarrow> trie_at n p = Some m \<Longrightarrow> live m \<and> wf_trie m \<and> (p = [] \<or> occupied m)"
proof (induction n p rule: trie_at.induct)
  case (2 n t ts)
  obtain ch e where n: "n = TNode ch e" by (cases n)
  obtain c where c: "map_of ch t = Some c" "trie_at c ts = Some m"
    using "2.prems"(3) by (auto simp: n split: option.splits)
  have cs: "live c \<and> occupied c" "wf_trie c"
    using all_child [OF c(1), of "\<lambda>t c. live c \<and> occupied c"] all_child [OF c(1), of "\<lambda>t c. wf_trie c"] "2.prems"(1,2)
    by (simp_all add: n)
  have "live m \<and> wf_trie m \<and> (ts = [] \<or> occupied m)" using "2.IH" [of c] c cs by (simp add: n)
  then show ?case using cs c(2) by (cases ts) auto
qed simp

definition token_ops :: "int list layer_ops" where
  "token_ops = \<lparr>class_name_of = (\<lambda>_. ''KVCache''), is_trimmable = (\<lambda>_. Some True), has_trim = (\<lambda>_. True),
     trim_layer = (\<lambda>n l. take (length l - nat n) l)\<rparr>"

definition demo_prefix_cache :: "int list prefix_cache" where
  "demo_prefix_cache = pcm_store [1, 2, 3, 4] [[1, 2, 3, 4]] (pcm_store [1, 2] [[1, 2]] (pcm_init 2))"

lemma demo_prefix_run: "pcm_run (\<lambda>c q. c = [q]) token_ops demo_prefix_cache"
  unfolding demo_prefix_cache_def by (rule pr_store, rule pr_store, rule pr_init) simp_all

text \<open>C26. In every state of every history of fetches, stores, pins, unpins and resets, the cached keys are
  exactly those of the LRU order and of the pinned set, which are disjoint; together they never
  exceed the capacity; and every node of the tree below the root lies on the path of a cached key,
  so evicting never leaves a dead branch.\<close>

theorem prefix_cache_coherent:
  assumes "pcm_run holds ops s"
  shows "(\<forall>q. cached s q \<longleftrightarrow> q \<in> set (lru s) \<or> q \<in> pinned_keys s) \<and> set (lru s) \<inter> pinned_keys s = {} \<and>
    distinct (lru s) \<and> length (lru s) + card (pinned_keys s) \<le> pc_max_size s \<and>
    (\<forall>tree p m. pc_trie s = Some tree \<longrightarrow> p \<noteq> [] \<longrightarrow> trie_at tree p = Some m \<longrightarrow> (\<exists>q. cached s (p @ q)))"
proof -
  have i: "pcm_inv s" using pcm_run_inv [OF assms] ..
  have "\<exists>q. cached s (p @ q)" if t: "pc_trie s = Some tree" "p \<noteq> []" "trie_at tree p = Some m" for tree p m
  proof -
    have "live tree" "wf_trie tree" using i t(1) by (auto simp: pcm_inv_def pcm_coherent_def tree_ok_def)
    from live_at [OF this t(3)] have "\<exists>q. node_entry m q \<noteq> None" using t(2) by (intro live_entry) auto
    then show ?thesis by (simp add: get_cache_entry_def t(1,3) node_entry_at trie_at_append)
  qed
  then show ?thesis using i by (simp add: pcm_inv_def pcm_coherent_def pcm_len_def)
qed

theorem prefix_cache_coherent_witness:
  "length (lru demo_prefix_cache) + card (pinned_keys demo_prefix_cache) \<le> pc_max_size demo_prefix_cache \<and>
   lru demo_prefix_cache = [[1, 2], [1, 2, 3, 4]]"
  using prefix_cache_coherent [OF demo_prefix_run]
  by (simp add: demo_prefix_cache_def pcm_store_def pcm_init_def touch_lru_def pcm_len_def evict_over.simps Let_def)

text \<open>A fetch is sound: the cache it returns holds exactly the tokens it took off the request, whether the
  match is exact, shorter, or longer and trimmed (given that trimming a trimmable cache by \<open>n\<close> forgets
  the last \<open>n\<close> tokens); on a miss the whole request remains.\<close>

theorem prefix_fetch_sound:
  assumes "pcm_run holds ops s"
    and trim: "\<And>c q n. holds c q \<Longrightarrow> n \<le> length q \<Longrightarrow> can_trim_cache ops c \<Longrightarrow>
      holds (trim_cache ops (int n) c) (take (length q - n) q)"
    and f: "pcm_fetch ops toks s = ((r, rem), s')"
  shows "case r of Some c \<Rightarrow> \<exists>p. toks = p @ rem \<and> holds c p | None \<Rightarrow> rem = toks"
proof -
  have i: "pcm_inv s" and so: "sound holds s" using pcm_run_inv [OF assms(1)] by auto
  have h: "holds (prompt_cache e) q" if "get_cache_entry q s = Some e" for q e
    using so that by (simp add: sound_def)
  have tr: "holds (trim_cache ops (int (length p) - int (length toks)) (prompt_cache e)) toks"
    if "strict_prefix toks p" "get_cache_entry p s = Some e" "can_trim_cache ops (prompt_cache e)" for p e
  proof -
    have "prefix toks p" using that(1) by simp
    then obtain x where x: "p = toks @ x" unfolding prefix_def ..
    then show ?thesis using trim [OF h [OF that(2)] _ that(3), of "length x"] by simp
  qed
  note fc = conjunct2 [OF conjunct2 [OF pcm_fetch_cases [OF i f, of "[]"]]]
  from fc show ?thesis
  proof (elim disjE exE conjE)
    fix p e
    assume "strict_prefix toks p" "get_cache_entry p s = Some e" "can_trim_cache ops (prompt_cache e)"
      "r = Some (trim_cache ops (int (length p) - int (length toks)) (prompt_cache e))" "rem = []"
    then show ?thesis using tr by auto
  qed (auto dest: h)
qed

theorem prefix_fetch_sound_witness:
  "snd (fst (pcm_fetch token_ops [1, 2, 3] demo_prefix_cache)) = [] \<and>
   fst (fst (pcm_fetch token_ops [1, 2, 3] demo_prefix_cache)) = Some [[1, 2, 3]]"
proof -
  have "fst (pcm_fetch token_ops [1, 2, 3] demo_prefix_cache) = (Some [[1, 2, 3]], [])" by code_simp
  then obtain s' where f: "pcm_fetch token_ops [1, 2, 3] demo_prefix_cache = ((Some [[1, 2, 3]], []), s')"
    by (cases "pcm_fetch token_ops [1, 2, 3] demo_prefix_cache") simp
  from prefix_fetch_sound [OF demo_prefix_run _ f] have "\<exists>p. [1, 2, 3] = p @ [] \<and> [[1, 2, 3]] = [p]"
    by (simp add: trim_cache_def token_ops_def)
  with f show ?thesis by simp
qed

text \<open>Storing an unpinned key makes it the most recently used; at most the oldest unpinned key is evicted,
  and only when a new key meets a full cache; pinned keys and all others keep their entries. When
  the pinned keys leave room, a fetch of the stored key then returns its cache with nothing left
  to process: the cache first stored under that key, not the one stored now.\<close>

theorem prefix_store_evicts_oldest:
  assumes "pcm_run holds ops s" and "toks \<noteq> []" and "toks \<notin> pinned_keys s" and "card (pinned_keys s) < pc_max_size s"
  shows "lru (pcm_store toks pc s) = (if toks \<notin> set (lru s) \<and> pcm_len s = pc_max_size s then tl (lru s) @ [toks]
      else remove1 toks (lru s) @ [toks]) \<and>
    (\<forall>q. q \<noteq> toks \<longrightarrow> get_cache_entry q (pcm_store toks pc s) =
       (if toks \<notin> set (lru s) \<and> pcm_len s = pc_max_size s \<and> q = hd (lru s) then None else get_cache_entry q s)) \<and>
    fst (pcm_fetch ops toks (pcm_store toks pc s)) =
      (Some (case get_cache_entry toks s of None \<Rightarrow> pc | Some e \<Rightarrow> prompt_cache e), [])"
proof -
  let ?s = "pcm_store toks pc s" and ?full = "toks \<notin> set (lru s) \<and> pcm_len s = pc_max_size s"
  let ?ks = "remove1 toks (lru s) @ [toks]"
  have i: "pcm_inv s" using pcm_run_inv [OF assms(1)] ..
  then have le: "length (lru s) + card (pinned_keys s) \<le> pc_max_size s" by (simp add: pcm_inv_def pcm_len_def)
  have n: "length ?ks + card (pinned_keys s) - pc_max_size s = (if ?full then 1 else 0)"
    using le length_pos_if_in_set [of toks "lru s"]
    by (cases "toks \<in> set (lru s)") (simp add: length_remove1 pcm_len_def del: length_greater_0_conv,
        auto simp: length_remove1 pcm_len_def)
  have ne: "?full \<Longrightarrow> lru s \<noteq> []" using assms(4) by (auto simp: pcm_len_def)
  have hd: "?full \<Longrightarrow> hd (lru s) \<noteq> toks" using ne by (cases "lru s") auto
  note st = pcm_store_spec [OF i assms(2), of pc, simplified assms(3) if_False n]
  have e: "get_cache_entry q ?s = (if ?full \<and> q = hd (lru s) then None
      else if q = toks then Some (merged pc (get_cache_entry toks s)) else get_cache_entry q s)" for q
    using st ne by (cases "lru s") (auto simp: remove1_idem)
  have l: "lru ?s = (if ?full then tl (lru s) @ [toks] else ?ks)"
    using st ne by (cases "lru s") (auto simp: remove1_idem)
  have c: "cached ?s toks" using e [of toks] hd by auto
  have "tree_ok (pcm_upd_stats f ?s)" for f using st by (simp add: pcm_inv_def pcm_coherent_def)
  then have "trie_search toks (pcm_upd_stats f ?s) = Exact toks" for f
    by (cases rule: trie_search_cases [of _ toks]) (use c in auto)
  then have "fst (pcm_fetch ops toks ?s) = (Some (prompt_cache (the (get_cache_entry toks ?s))), [])"
    using c assms(2) by (auto simp: pcm_fetch_def Let_def)
  then show ?thesis using l e e [of toks] hd by (auto simp: merged_def split: option.splits)
qed

theorem prefix_store_evicts_oldest_witness:
  "lru (pcm_store [5] [[5]] demo_prefix_cache) = [[1, 2, 3, 4], [5]]"
proof -
  have "([5] :: int list) \<notin> pinned_keys demo_prefix_cache" "card (pinned_keys demo_prefix_cache) < pc_max_size demo_prefix_cache"
    "pcm_len demo_prefix_cache = pc_max_size demo_prefix_cache" "lru demo_prefix_cache = [[1, 2], [1, 2, 3, 4]]"
    by code_simp+
  with prefix_store_evicts_oldest [OF demo_prefix_run, of "[5]" "[[5]]"] show ?thesis by simp
qed

text \<open>The shorter match is only found at the node where the request leaves the tree: when a longer cached
  key carries the path of the request past the last cached prefix \<open>p\<close> of it, the fetch is a miss
  although \<open>p\<close> is cached and could have served it.\<close>

theorem prefix_fetch_misses_shorter:
  assumes "pcm_run holds ops s" and "cached s p" and "u \<noteq> []" and "cached s (p @ u @ v)" and "\<not> cached s (p @ u)"
    and out: "\<forall>q. prefix (p @ u @ [t]) q \<longrightarrow> \<not> cached s q"
  shows "fst (pcm_fetch ops (p @ u @ t # rest) s) = (None, p @ u @ t # rest)"
proof -
  let ?toks = "p @ u @ t # rest" and ?s = "pcm_upd_stats (\<lambda>st. st\<lparr>total_queries := total_queries st + 1\<rparr>) s"
  have "tree_ok ?s" using pcm_run_inv [OF assms(1)] by (simp add: pcm_inv_def pcm_coherent_def)
  then have "trie_search ?toks ?s = NoMatch"
  proof (cases rule: trie_search_cases [where toks = ?toks])
    case exact
    then show ?thesis using out by (auto simp: prefix_def)
  next
    case (longer q)
    then show ?thesis using out by (auto simp: strict_prefix_def prefix_def)
  next
    case (shorter p' t' rest')
    have pre: "prefix (p' @ [t']) ?toks" "prefix ((p @ u) @ [t]) ?toks" "prefix (p @ u) ?toks"
      by (auto simp: shorter(2) [symmetric]) (simp add: shorter(2))
    show ?thesis
    proof (cases "prefix (p' @ [t']) (p @ u)")
      case True
      then have "prefix (p' @ [t']) ((p @ u) @ v)" by (rule prefix_prefix)
      then have "prefix (p' @ [t']) (p @ u @ v)" by simp
      then show ?thesis using shorter(4) assms(4) by auto
    next
      case False
      then have "prefix (p @ u) (p' @ [t'])" using pre prefix_same_cases by blast
      then have "prefix (p @ u) p' \<or> p @ u = p' @ [t']" by auto
      then have "prefix (p @ u) p'" using False by auto
      then obtain zs where zs: "p' = p @ u @ zs" by (auto simp: prefix_def)
      then have "p' = p @ u \<or> prefix (p @ u @ [t]) p'" using shorter(2) by (cases zs) (auto simp: prefix_def)
      then show ?thesis using shorter(3) assms(5) out by auto
    qed
  qed
  then show ?thesis by (simp add: pcm_fetch_def Let_def)
qed

theorem prefix_fetch_misses_shorter_witness:
  "fst (pcm_fetch token_ops [1, 2, 3, 9] demo_prefix_cache) = (None, [1, 2, 3, 9])"
proof -
  have "cached demo_prefix_cache [1, 2]" "cached demo_prefix_cache [1, 2, 3, 4]" "\<not> cached demo_prefix_cache [1, 2, 3]"
    by code_simp+
  moreover have "lru demo_prefix_cache = [[1, 2], [1, 2, 3, 4]]" "pinned_keys demo_prefix_cache = {}" by code_simp+
  then have "\<forall>q. prefix [1, 2, 3, 9] q \<longrightarrow> \<not> cached demo_prefix_cache q"
    using pcm_run_inv [OF demo_prefix_run] by (auto simp: pcm_inv_def pcm_coherent_def)
  ultimately show ?thesis
    using prefix_fetch_misses_shorter [OF demo_prefix_run, of "[1, 2]" "[3]" "[4]" 9 "[]"] by simp
qed

end
