(* ===== verification/BlockOwners.thy ===== *)
theory BlockOwners
  imports PagedPressure
begin

text \<open>
  Ownership of blocks by the registered block tables. \<open>owners m b\<close> counts the entries of all registered
  tables that name block \<open>b\<close>; \<open>owned m\<close> says that every held block has exactly that many references and
  nothing else is named, so that a block is freed with its last table entry and none leaks.
\<close>

section \<open>Owners\<close>

abbreviation table_of :: "'t manager \<Rightarrow> string \<Rightarrow> block_table" where
  "table_of m rid \<equiv> table_store m (the (request_tables m rid))"

definition owners :: "'t manager \<Rightarrow> bid \<Rightarrow> nat" where
  "owners m b = (\<Sum>rid\<in>dom (request_tables m). count_list (block_ids (table_of m rid)) b)"

text \<open>The part that is not about counts: distinct, allocated table objects, finitely many.\<close>

definition tables_ok :: "'t manager \<Rightarrow> bool" where
  "tables_ok m \<longleftrightarrow> finite (dom (request_tables m)) \<and> (\<forall>r r' a. request_tables m r = Some a \<and> request_tables m r' = Some a \<longrightarrow> r = r') \<and>
     (\<forall>rid a. request_tables m rid = Some a \<longrightarrow> a < next_table m)"

definition owned :: "'t manager \<Rightarrow> bool" where
  "owned m \<longleftrightarrow> paged_inv m \<and> tables_ok m \<and>
     (\<forall>b. held m b \<longrightarrow> ref m b = int (owners m b)) \<and> (\<forall>b. \<not> held m b \<longrightarrow> owners m b = 0)"

lemma tables_ok_extend:
  assumes t: "tables_ok m" and r: "request_tables m' = (request_tables m)(rid \<mapsto> next_table m)"
    and n: "next_table m' = Suc (next_table m)"
  shows "tables_ok m'"
proof -
  have lt: "request_tables m x = Some a \<Longrightarrow> a < next_table m" for x a using t by (auto simp: tables_ok_def)
  have "dom (request_tables m') = insert rid (dom (request_tables m))" by (simp add: r)
  then have "finite (dom (request_tables m'))" using t by (simp add: tables_ok_def)
  moreover have "x = y" if "request_tables m' x = Some a" "request_tables m' y = Some a" for x y a
    using that t lt [of x a] lt [of y a] by (auto simp: r tables_ok_def split: if_splits)
  moreover have "a < next_table m'" if "request_tables m' x = Some a" for x a
    using that lt [of x a] by (auto simp: r n split: if_splits)
  ultimately show ?thesis unfolding tables_ok_def by blast
qed

lemma tables_ok_shrink:
  assumes t: "tables_ok m" and r: "request_tables m' = (request_tables m)(rid := None)"
    and n: "next_table m' = next_table m"
  shows "tables_ok m'"
proof -
  have "dom (request_tables m') \<subseteq> dom (request_tables m)" by (auto simp: r split: if_splits)
  then have "finite (dom (request_tables m'))" using t finite_subset by (auto simp: tables_ok_def)
  then show ?thesis using t by (auto simp: tables_ok_def r n split: if_splits)
qed

lemma ownedD:
  assumes "owned m"
  shows "paged_inv m" "tables_ok m" "held m b \<Longrightarrow> ref m b = int (owners m b)" "\<not> held m b \<Longrightarrow> owners m b = 0"
  using assms by (auto simp: owned_def)

text \<open>Only reference counts, allocation and tables matter.\<close>

lemma owners_cong:
  "table_store m' = table_store m \<Longrightarrow> request_tables m' = request_tables m \<Longrightarrow> owners m' b = owners m b"
  by (simp add: owners_def)

lemma owned_cong:
  assumes o: "owned m" and i: "paged_inv m'"
    and t: "table_store m' = table_store m" "request_tables m' = request_tables m" "next_table m' = next_table m"
    and h: "allocated_blocks m' = allocated_blocks m" "null_block m' = null_block m"
    and r: "\<And>b. b \<in> allocated_blocks m \<Longrightarrow> ref m' b = ref m b"
  shows "owned m'"
proof -
  have "held m' b = held m b" for b by (simp add: held_def h)
  then show ?thesis
    using o i r unfolding owned_def tables_ok_def owners_def t by (auto simp: held_def)
qed

lemma owned_hard:
  assumes "owned m" and "hard_eq m m'"
    and "table_store m' = table_store m" "request_tables m' = request_tables m" "next_table m' = next_table m"
  shows "owned m'"
  using assms hard_eq_fields [OF assms(2)] hard_eq_paged_inv [OF ownedD(1) [OF assms(1)] assms(2)]
  by (intro owned_cong [of m m']) auto

section \<open>Dropping and adding table entries\<close>

lemma owners_drop:
  assumes "finite (dom (request_tables m))" and "request_tables m rid = Some a"
    and "table_store m' = table_store m" and "request_tables m' = (request_tables m)(rid := None)"
  shows "owners m b = owners m' b + count_list (block_ids (table_store m a)) b"
proof -
  let ?f = "\<lambda>r. count_list (block_ids (table_of m r)) b"
  have d: "dom (request_tables m') = dom (request_tables m) - {rid}" using assms(4) by auto
  have "owners m' b = (\<Sum>r\<in>dom (request_tables m) - {rid}. ?f r)"
    unfolding owners_def d assms(3) by (rule sum.cong) (auto simp: assms(4))
  moreover have "owners m b = ?f rid + (\<Sum>r\<in>dom (request_tables m) - {rid}. ?f r)"
    unfolding owners_def using assms(1,2) by (intro sum.remove) auto
  ultimately show ?thesis using assms(2) by simp
qed

text \<open>Appending one block to one registered table.\<close>

lemma owners_add:
  assumes t: "tables_ok m" and r: "request_tables m rid = Some a"
  shows "owners (upd_table a (add_block b n) m) i = owners m i + (if i = b then 1 else 0)"
proof -
  let ?m = "upd_table a (add_block b n) m"
  let ?f = "\<lambda>m r. count_list (block_ids (table_of m r)) i"
  have eq: "?f ?m r = ?f m r" if "r \<in> dom (request_tables m) - {rid}" for r
  proof -
    have "request_tables m r \<noteq> request_tables m rid"
      using t r that by (auto simp: tables_ok_def)
    then show ?thesis using that r by (auto simp: upd_table_def)
  qed
  have "?f ?m rid = ?f m rid + (if i = b then 1 else 0)"
    using r by (simp add: upd_table_def add_block_def count_list_append)
  moreover have "owners m' i = ?f m' rid + (\<Sum>r\<in>dom (request_tables m) - {rid}. ?f m' r)"
    if "request_tables m' = request_tables m" for m' :: "'a manager"
    unfolding owners_def that using t r by (intro sum.remove) (auto simp: tables_ok_def)
  moreover have "(\<Sum>r\<in>dom (request_tables m) - {rid}. ?f ?m r) = (\<Sum>r\<in>dom (request_tables m) - {rid}. ?f m r)"
    by (rule sum.cong) (use eq in auto)
  ultimately show ?thesis by simp
qed

lemma owned_add:
  assumes t: "tables_ok m" and r: "request_tables m rid = Some a" and i: "paged_inv m" and h: "held m b"
    and c: "\<And>i. held m i \<Longrightarrow> ref m i = int (owners m i) + (if i = b then 1 else 0)"
    and z: "\<And>i. \<not> held m i \<Longrightarrow> owners m i = 0"
  shows "owned (upd_table a (add_block b n) m)"
proof -
  let ?m = "upd_table a (add_block b n) m"
  have hd: "held ?m i = held m i" for i by (simp add: held_def)
  have "paged_inv ?m" using hard_eq_paged_inv [OF i hard_eq_tables(2)] .
  moreover have "tables_ok ?m" using t by (simp add: tables_ok_def)
  ultimately show ?thesis
    using c z h by (auto simp: owned_def hd owners_add [OF t r])
qed

section \<open>The operations\<close>

lemma owned_take:
  assumes o: "owned m" and r: "request_tables m rid = Some a" and h: "held m b"
    and inc: "increment_ref b m = (v, m')"
  shows "v" "owned (upd_table a (add_block b n) m')" "inert m m'" "tables_eq m m'"
    "allocated_blocks m' = allocated_blocks m" "i \<noteq> b \<Longrightarrow> ref m' i = ref m i"
proof -
  have al: "b \<in> allocated_blocks m" using h by (simp add: held_def)
  have m': "v" "inert m m'" "tables_eq m m'" "allocated_blocks m' = allocated_blocks m"
    "\<And>i. ref m' i = (if i = b then ref m i + 1 else ref m i)"
    using increment_ref_spec [of b m] inc al by auto
  note te = m'(3) [unfolded tables_eq_def]
  have i': "paged_inv m'" using increment_ref_inv [OF ownedD(1) [OF o], of b] inc by simp
  have hd: "held m' i = held m i" for i using te by (simp add: held_def m'(4))
  have ow: "owners m' i = owners m i" for i using te by (intro owners_cong) auto
  show "owned (upd_table a (add_block b n) m')"
  proof (rule owned_add [OF _ _ i'])
    show "tables_ok m'" using ownedD(2) [OF o] te by (simp add: tables_ok_def)
    show "request_tables m' rid = Some a" using r te by simp
    show "held m' b" using h hd by simp
    show "ref m' i = int (owners m' i) + (if i = b then 1 else 0)" if "held m' i" for i
      using that ownedD(3) [OF o, of i] by (cases "i = b") (simp_all add: hd ow m'(5))
    show "owners m' i = 0" if "\<not> held m' i" for i
      using that ownedD(4) [OF o, of i] by (simp add: hd ow)
  qed
  show "v" "inert m m'" "tables_eq m m'" "allocated_blocks m' = allocated_blocks m" "i \<noteq> b \<Longrightarrow> ref m' i = ref m i"
    using m' by simp_all
qed

lemma owned_allocate:
  assumes o: "owned m" and r: "request_tables m rid = Some a" and al: "allocate_block m = (Inr (Some b), m')"
  shows "owned (upd_table a (add_block b n) m')" "held m' b" "\<not> held m b"
proof -
  obtain xs where p: "pinvx m xs {} 0" using ownedD(1) [OF o] by (auto simp: paged_inv_def)
  note sp = allocate_block_spec [OF p al]
  note te = sp(6) [unfolded tables_eq_def]
  have nb: "b \<noteq> null_block m" using sp(2) pinvxD(8) [OF p] by auto
  have hd: "held m' i \<longleftrightarrow> i = b \<or> held m i" for i using te nb by (auto simp: held_def sp(7))
  have ow: "owners m' i = owners m i" for i using te by (intro owners_cong) auto
  have i': "paged_inv m'" using sp(4) by (auto simp: paged_inv_def)
  show hm: "\<not> held m b" using sp(2) by (simp add: held_def)
  show "held m' b" by (simp add: hd)
  show "owned (upd_table a (add_block b n) m')"
  proof (rule owned_add [OF _ _ i'])
    show "tables_ok m'" using ownedD(2) [OF o] te by (simp add: tables_ok_def)
    show "request_tables m' rid = Some a" using r te by simp
    show "held m' b" by (simp add: hd)
    show "ref m' i = int (owners m' i) + (if i = b then 1 else 0)" if "held m' i" for i
    proof (cases "i = b")
      case True
      then show ?thesis using sp(8) ownedD(4) [OF o hm] by (simp add: ow)
    next
      case False
      then have "held m i" using that hd by simp
      moreover have "ref m' i = ref m i" using core_fields(2) [OF only_block_core [OF sp(5) False]] .
      ultimately show ?thesis using False ownedD(3) [OF o, of i] by (simp add: ow)
    qed
    show "owners m' i = 0" if "\<not> held m' i" for i
      using that ownedD(4) [OF o, of i] by (simp add: hd ow)
  qed
qed

lemma owned_register:
  assumes o: "owned m" and n: "request_tables m rid = None"
    and reg: "register_table rid t m = (a, m')" and e: "block_ids t = []"
  shows "owned m'" "request_tables m' rid = Some a" "inert m m'" "heap m' = heap m"
    "allocated_blocks m' = allocated_blocks m" "table_store m' a = t"
    "request_tables m' = (request_tables m)(rid \<mapsto> a)"
proof -
  note rs = register_table_spec [OF reg]
  have hd: "held m' i = held m i" for i by (simp add: rs(8))
  have i': "paged_inv m'" using hard_eq_paged_inv [OF ownedD(1) [OF o] register_table_hard [of m rid t]] reg by simp
  have ok: "tables_ok m'" by (rule tables_ok_extend [OF ownedD(2) [OF o]]) (simp_all add: rs(1,3,4))
  have fresh: "request_tables m r \<noteq> Some (next_table m)" for r
    using ownedD(2) [OF o] by (auto simp: tables_ok_def)
  have ow: "owners m' i = owners m i" for i
  proof -
    have d: "dom (request_tables m') = insert rid (dom (request_tables m))" by (simp add: rs(3))
    have "rid \<notin> dom (request_tables m)" using n by auto
    then have "owners m' i = count_list (block_ids (table_of m' rid)) i +
        (\<Sum>r\<in>dom (request_tables m). count_list (block_ids (table_of m' r)) i)"
      unfolding owners_def d using ownedD(2) [OF o] by (simp add: tables_ok_def)
    moreover have "table_of m' r = table_of m r" if "r \<in> dom (request_tables m)" for r
      using that fresh [of r] n by (auto simp: rs(1,2,3))
    ultimately show ?thesis using e by (simp add: owners_def rs(2,3))
  qed
  show "owned m'"
    using o i' ok by (simp add: owned_def hd ow rs(5))
  show "request_tables m' rid = Some a" "inert m m'" "heap m' = heap m" "allocated_blocks m' = allocated_blocks m"
    "table_store m' a = t" "request_tables m' = (request_tables m)(rid \<mapsto> a)"
    using rs by simp_all
qed

lemma owned_delete:
  assumes o: "owned m"
  obtains m' where "delete_block_table rid m = (Inr (), m')" "owned m'" "inert m m'"
    "table_store m' = table_store m" "next_table m' = next_table m"
    "request_tables m' = (request_tables m)(rid := None)"
    "\<And>i. held m i \<Longrightarrow> ref m' i = ref m i - int (case request_tables m rid of None \<Rightarrow> 0
      | Some a \<Rightarrow> count_list (block_ids (table_store m a)) i)"
    "\<And>i. \<not> held m i \<Longrightarrow> ref m' i = ref m i"
    "\<And>i. held m' i \<longleftrightarrow> held m i \<and> 0 < ref m' i"
proof (cases "request_tables m rid")
  case None
  have "ref m i > 0" if "held m i" for i using that ownedD(1) [OF o] by (auto simp: paged_inv_def pinvx_def held_def)
  then have "held m i \<longleftrightarrow> held m i \<and> 0 < ref m i" for i by blast
  then show ?thesis using o None by (intro that [of m]) (simp_all add: delete_block_table_def fun_upd_idem)
next
  case (Some a)
  let ?k = "count_list (block_ids (table_store m a))"
  have fin: "finite (dom (request_tables m))" using ownedD(2) [OF o] by (simp add: tables_ok_def)
  have dr: "owners m i = owners m' i + ?k i"
    if "table_store m' = table_store m" "request_tables m' = (request_tables m)(rid := None)" for m' :: "'a manager" and i
    by (rule owners_drop [OF fin Some that])
  have "int (?k i) \<le> ref m i" if "held m i" for i
    using ownedD(3) [OF o that] dr [of "m\<lparr>request_tables := (request_tables m)(rid := None)\<rparr>" i] by simp
  then obtain m' where m': "delete_block_table rid m = (Inr (), m')" "paged_inv m'" "inert m m'"
      "table_store m' = table_store m" "next_table m' = next_table m"
      "request_tables m' = (request_tables m)(rid := None)"
      "\<forall>i. ref m' i = (if held m i then ref m i - int (?k i) else ref m i)"
      "allocated_blocks m' = {i \<in> allocated_blocks m. held m i \<longrightarrow> int (?k i) < ref m i}"
    using delete_block_table_spec [OF ownedD(1) [OF o] Some] by blast
  have hd: "held m' i \<longleftrightarrow> held m i \<and> 0 < ref m' i" for i
    using inert_fields(5) [OF m'(3)] by (auto simp: held_def m'(7,8))
  have "tables_ok m'" by (rule tables_ok_shrink [OF ownedD(2) [OF o] m'(6,5)])
  moreover have "held m' i \<Longrightarrow> ref m' i = int (owners m' i)" for i
    using ownedD(3) [OF o, of i] dr [OF m'(4,6), of i] by (simp add: hd m'(7))
  moreover have "owners m' i = 0" if "\<not> held m' i" for i
  proof (cases "held m i")
    case True
    then show ?thesis using that ownedD(3) [OF o, of i] dr [OF m'(4,6), of i] by (simp add: hd m'(7))
  next
    case False
    then show ?thesis using ownedD(4) [OF o, of i] dr [OF m'(4,6), of i] by simp
  qed
  ultimately have "owned m'" using m'(2) by (simp add: owned_def)
  then show ?thesis using that [of m'] m' Some hd by simp
qed

lemma owned_create:
  assumes o: "owned m"
  obtains a m' where "create_block_table rid m = (Inr a, m')" "owned m'" "inert m m'"
    "request_tables m' = (request_tables m)(rid \<mapsto> a)" "table_store m' = (table_store m)(a := new_table rid)"
    "request_tables m rid = None \<Longrightarrow> heap m' = heap m \<and> allocated_blocks m' = allocated_blocks m"
proof -
  obtain m1 where m1: "delete_block_table rid m = (Inr (), m1)" "owned m1" "inert m m1"
    "request_tables m1 = (request_tables m)(rid := None)" "table_store m1 = table_store m"
    using owned_delete [OF o, of rid] by metis
  have same: "request_tables m rid = None \<Longrightarrow> m1 = m" using m1(1) by (simp add: delete_block_table_def)
  obtain a m' where reg: "register_table rid (new_table rid) m1 = (a, m')" by fastforce
  have n: "request_tables m1 rid = None" by (simp add: m1(4))
  have e: "block_ids (new_table rid) = []" by (simp add: new_table_def)
  note w = owned_register [OF m1(2) n reg e]
  have "create_block_table rid m = (Inr a, m')"
    using m1(1) reg same by (cases "request_tables m rid = None") (simp_all add: create_block_table_def)
  then show ?thesis
    using that [of a m'] w inert_trans [OF m1(3) w(3)] m1(4,5) same register_table_spec(2) [OF reg] by simp
qed

lemma owned_fork:
  assumes o: "owned m" and n: "request_tables m rid = None"
    and s: "request_tables m src = Some a"
  obtains a' m' where "fork_block_table a rid m = (Inr a', m')" "owned m'" "inert m m'"
    "request_tables m' = (request_tables m)(rid \<mapsto> a')" "table_store m' = (table_store m)(a' := table_copy rid (table_store m a))"
    "allocated_blocks m' = allocated_blocks m"
proof -
  let ?a = "next_table m" and ?k = "count_list (block_ids (table_store m a))"
  obtain m' where m': "fork_block_table a rid m = (Inr ?a, m')" "paged_inv m'" "inert m m'"
    "table_store m' = (table_store m)(?a := table_copy rid (table_store m a))"
    "next_table m' = Suc ?a" "request_tables m' = (request_tables m)(rid \<mapsto> ?a)"
    "allocated_blocks m' = allocated_blocks m"
    "\<And>i. ref m' i = (if i \<in> allocated_blocks m then ref m i + int (?k i) else ref m i)"
    using fork_block_table_spec [OF ownedD(1) [OF o] n, of a] by blast
  have lt: "request_tables m r = Some x \<Longrightarrow> x < ?a" for r x using ownedD(2) [OF o] by (auto simp: tables_ok_def)
  have fin: "finite (dom (request_tables m))" using ownedD(2) [OF o] by (simp add: tables_ok_def)
  have hd: "held m' i = held m i" for i using inert_fields(5) [OF m'(3)] by (simp add: held_def m'(7))
  have ow: "owners m' i = owners m i + ?k i" for i
  proof -
    have d: "dom (request_tables m') = insert rid (dom (request_tables m))" by (simp add: m'(6))
    have "rid \<notin> dom (request_tables m)" using n by auto
    then have "owners m' i = count_list (block_ids (table_of m' rid)) i +
        (\<Sum>r\<in>dom (request_tables m). count_list (block_ids (table_of m' r)) i)"
      unfolding owners_def d using fin by simp
    moreover have "table_of m' r = table_of m r" if "r \<in> dom (request_tables m)" for r
      using that lt [of r] n by (auto simp: m'(4,6))
    ultimately show ?thesis by (simp add: owners_def m'(4,6) table_copy_def)
  qed
  have k0: "?k i = 0" if "\<not> held m i" for i
  proof -
    have "?k i \<le> owners m i"
      using member_le_sum [of src "dom (request_tables m)" "\<lambda>r. count_list (block_ids (table_of m r)) i"] s fin
      by (auto simp: owners_def)
    then show ?thesis using ownedD(4) [OF o that] by simp
  qed
  have "tables_ok m'" by (rule tables_ok_extend [OF ownedD(2) [OF o] m'(6,5)])
  moreover have "ref m' i = int (owners m' i)" if "held m' i" for i
    using that ownedD(3) [OF o, of i] by (simp add: hd ow m'(8)) (simp add: held_def)
  moreover have "owners m' i = 0" if "\<not> held m' i" for i
    using that ownedD(4) [OF o, of i] k0 [of i] by (simp add: hd ow)
  ultimately have "owned m'" using m'(2) by (simp add: owned_def)
  then show ?thesis using that [of ?a m'] m' by (simp add: table_copy_def)
qed

text \<open>When no table is registered, every block but the null block is free.\<close>

lemma owned_empty:
  assumes "owned m" and "request_tables m = Map.empty"
  shows "allocated_blocks m = {null_block m}"
proof -
  have "\<not> held m b" for b
  proof
    assume h: "held m b"
    have "owners m b = 0" by (simp add: owners_def assms(2))
    then have "ref m b = 0" using ownedD(3) [OF assms(1) h] by simp
    moreover have "0 < ref m b" using ownedD(1) [OF assms(1)] h unfolding paged_inv_def pinvx_def held_def by blast
    ultimately show False by simp
  qed
  moreover have "null_block m \<in> allocated_blocks m" using ownedD(1) [OF assms(1)] unfolding paged_inv_def pinvx_def by blast
  ultimately show ?thesis unfolding held_def by blast
qed

end
