(* ===== verification/BlockCache.thy ===== *)
theory BlockCache
  imports PagedPrefix "HOL-Library.List_Lexorder" "HOL-Library.Char_ord"
begin

text \<open>
  \<^bold>\<open>rapid_mlx/prefix_cache.py: BlockAwarePrefixCache.\<close> The block-aware cache keeps the paged manager
  and three dictionaries: the prefix index (identity hash to tokens and block ids), the stored
  requests (request id to the address of its block table) and the caches rebuilt by a fetch and not
  yet collected. MLX is a parameter: \<open>tensor_ops\<close> holds the flag \<open>HAS_MLX\<close> and the tensor operations the
  code calls, slicing and concatenating along the sequence axis; whether \<open>mx.eval\<close> raises is an
  argument of \<open>store_cache\<close>. Timestamps, logging and the fallback class for a missing \<open>mlx_lm\<close> (same
  three fields as \<open>KVCache\<close>) are left out.
\<close>

section \<open>State\<close>

record 't tensor_ops =
  has_mlx :: bool
  shape :: "'t \<Rightarrow> nat list"
  seq_slice :: "int \<Rightarrow> int \<Rightarrow> 't \<Rightarrow> 't"
  concatenate :: "'t list \<Rightarrow> 't option"

record 't kv_cache =
  kv_keys :: 't
  kv_values :: 't
  offset :: nat

text \<open>
  An extracted layer: its \<open>class_name\<close>, and its \<open>state\<close> if it has one, either no sequence at all or a
  sequence whose elements are tensors (\<open>None\<close>: something without a shape).
\<close>

datatype 't kv_state = NoSequence | Sequence "'t option list"

record 't layer_state =
  class_name :: "string option"
  state :: "'t kv_state option"

text \<open>The argument \<open>cache_data\<close>: \<open>None\<close> if it is not a list; an element \<open>None\<close> is not a dict.\<close>

type_synonym 't cache_arg = "'t layer_state option list option"

record 't block_cache =
  paged :: "'t manager"
  prefix_index :: "string \<rightharpoonup> int list \<times> bid list"
  stored :: "string \<rightharpoonup> taddr"
  pending :: "string \<rightharpoonup> 't kv_cache list"
  bc_hits :: int
  bc_misses :: int
  bc_tokens_saved :: int

definition block_cache_init :: "'t manager \<Rightarrow> 't block_cache" where
  "block_cache_init m = \<lparr>paged = m, prefix_index = Map.empty, stored = Map.empty, pending = Map.empty,
     bc_hits = 0, bc_misses = 0, bc_tokens_saved = 0\<rparr>"

text \<open>A call of a method of the manager.\<close>

definition on_paged :: "('t manager \<Rightarrow> ('a, 't manager) outcome) \<Rightarrow> 't block_cache \<Rightarrow>
    ('a, 't block_cache) outcome" where
  "on_paged f c = (case f (paged c) of (r, m) \<Rightarrow> (r, c\<lparr>paged := m\<rparr>))"

definition SEQ_AXIS_KV_CLASSES :: "string list" where
  "SEQ_AXIS_KV_CLASSES = [''KVCache'']"

section \<open>Capability check\<close>

text \<open>A probed cache object is its class name and whether its class is exactly \<open>KVCache\<close>.\<close>

definition find_paged_incompatible_layers :: "(string \<times> bool) list \<Rightarrow> string list" where
  "find_paged_incompatible_layers caches = sort (remdups (map fst (filter (\<lambda>(n, plain). \<not> plain) caches)))"

datatype layout_error = TransformRequested | ProbeFailed | NotProbeable | IncompatibleLayers "string list"

text \<open>\<open>probe\<close>: an exception of the factory, a value that is not a list, or the list it returned.\<close>

definition validate_paged_cache_capability ::
    "(unit + (string \<times> bool) list option) \<Rightarrow> bool \<Rightarrow> layout_error + unit" where
  "validate_paged_cache_capability probe transform_requested =
     (if transform_requested then Inl TransformRequested
      else case probe of
        Inl _ \<Rightarrow> Inl ProbeFailed
      | Inr None \<Rightarrow> Inl NotProbeable
      | Inr (Some caches) \<Rightarrow>
          if caches = [] then Inl NotProbeable
          else let bad = find_paged_incompatible_layers caches
               in if bad \<noteq> [] then Inl (IncompatibleLayers bad) else Inr ())"

section \<open>Layout of the extracted states\<close>

text \<open>\<open>None\<close> as class name: the check on the class is skipped.\<close>

definition cache_state_seq_axis :: "'t tensor_ops \<Rightarrow> 't kv_state \<Rightarrow> string option \<Rightarrow> nat option" where
  "cache_state_seq_axis ops st cls =
     (case st of
        NoSequence \<Rightarrow> None
      | Sequence ts \<Rightarrow>
          if length ts \<noteq> 2 \<or> None \<in> set ts then None
          else if (case cls of Some k \<Rightarrow> k \<notin> set SEQ_AXIS_KV_CLASSES | None \<Rightarrow> False) then None
          else if list_all (\<lambda>t. length (shape ops (the t)) = 4) ts then Some 2 else None)"

text \<open>\<open>keys, values = state\<close> and the shorter of their sequence lengths, where the layout is supported.\<close>

definition kv_layer :: "'t tensor_ops \<Rightarrow> 't layer_state option \<Rightarrow> (string \<times> 't \<times> 't \<times> nat) option" where
  "kv_layer ops layer =
     (case layer of
        None \<Rightarrow> None
      | Some l \<Rightarrow>
          (case (state l, class_name l) of
             (Some st, Some name) \<Rightarrow>
               if name \<notin> set SEQ_AXIS_KV_CLASSES then None
               else (case (cache_state_seq_axis ops st (Some name), st) of
                   (Some ax, Sequence [Some k, Some v]) \<Rightarrow>
                     Some (name, k, v, min (shape ops k ! ax) (shape ops v ! ax))
                 | _ \<Rightarrow> None)
           | _ \<Rightarrow> None))"

definition validate_blockizable_layout :: "'t tensor_ops \<Rightarrow> 't cache_arg \<Rightarrow> (string \<times> nat) option" where
  "validate_blockizable_layout ops cd =
     (case cd of
        None \<Rightarrow> None
      | Some layers \<Rightarrow>
          if \<not> has_mlx ops \<or> layers = [] then None
          else (case those (map (kv_layer ops) layers) of
              None \<Rightarrow> None
            | Some ls \<Rightarrow> Some (fst (last ls), Min (set (map (\<lambda>(_, _, _, n). n) ls)))))"

definition extract_block_tensor_slice :: "'t tensor_ops \<Rightarrow> 't cache_arg \<Rightarrow> int \<Rightarrow> int \<Rightarrow>
    ('t \<times> 't) list option" where
  "extract_block_tensor_slice ops cd a b =
     (case cd of
        None \<Rightarrow> None
      | Some layers \<Rightarrow>
          if \<not> has_mlx ops \<or> layers = [] then None
          else those (map (\<lambda>layer. case kv_layer ops layer of
              None \<Rightarrow> None
            | Some (_, k, v, n) \<Rightarrow>
                if int n < b then None else Some (seq_slice ops a b k, seq_slice ops a b v)) layers))"

section \<open>Reconstruction\<close>

text \<open>The blocks' data, collected; \<open>None\<close> where the code refuses a block.\<close>

fun collect_block_data :: "'t manager \<Rightarrow> bid list \<Rightarrow> ('t \<times> 't) list list option" where
  "collect_block_data m [] = Some []"
| "collect_block_data m (b # bs) =
     (if b \<notin> allocated_blocks m then None
      else case cache_data (heap m b) of
        None \<Rightarrow> None
      | Some d \<Rightarrow>
          if (case cache_class_name (heap m b) of Some n \<Rightarrow> n \<notin> set SEQ_AXIS_KV_CLASSES | None \<Rightarrow> True) then None
          else map_option ((#) d) (collect_block_data m bs))"

text \<open>One layer: \<open>None\<close> fails the reconstruction, \<open>Some None\<close> is \<open>continue\<close>.\<close>

definition rebuild_layer :: "'t tensor_ops \<Rightarrow> ('t \<times> 't) list list \<Rightarrow> nat \<Rightarrow> 't kv_cache option option" where
  "rebuild_layer ops data i =
     (let parts = map (\<lambda>d. d ! i) (filter (\<lambda>d. i < length d) data) in
      if parts = [] then Some None
      else if cache_state_seq_axis ops (Sequence [Some (fst (hd parts)), Some (snd (hd parts))]) None \<noteq> Some 2
      then None
      else case (concatenate ops (map fst parts), concatenate ops (map snd parts)) of
        (Some k, Some v) \<Rightarrow> Some (Some \<lparr>kv_keys = k, kv_values = v, offset = shape ops k ! 2\<rparr>)
      | _ \<Rightarrow> None)"

definition rebuild_layers :: "'t tensor_ops \<Rightarrow> ('t \<times> 't) list list \<Rightarrow> 't kv_cache list option" where
  "rebuild_layers ops data =
     (if data = [] \<or> hd data = [] then None
      else case those (map (rebuild_layer ops data) [0..<length (hd data)]) of
        None \<Rightarrow> None
      | Some caches \<Rightarrow>
          let cs = List.map_filter (\<lambda>x. x) caches in if cs = [] then None else Some cs)"

definition reconstruct_from_table :: "'t tensor_ops \<Rightarrow> block_table \<Rightarrow> 't manager \<Rightarrow> 't kv_cache list option" where
  "reconstruct_from_table ops t m =
     (if block_ids t = [] \<or> \<not> has_mlx ops then None
      else case collect_block_data m (block_ids t) of None \<Rightarrow> None | Some data \<Rightarrow> rebuild_layers ops data)"

definition reconstruct_cache :: "'t tensor_ops \<Rightarrow> taddr \<Rightarrow> 't block_cache \<Rightarrow>
    't kv_cache list option \<times> 't block_cache" where
  "reconstruct_cache ops a c =
     (let t = table_store (paged c) a; rid = request_id t; again = reconstruct_from_table ops t (paged c) in
      if rid = [] then (again, c)
      else case pending c rid of
        Some caches \<Rightarrow> (Some caches, c\<lparr>pending := (pending c)(rid := None)\<rparr>)
      | None \<Rightarrow> (again, c))"

section \<open>The prefix index\<close>

text \<open>The ownership guard of a hit: every block is live, holds data and carries the identity expected.\<close>

fun guard_loop :: "(bytes \<Rightarrow> digest) \<Rightarrow> 't manager \<Rightarrow> int list \<Rightarrow> hasher \<Rightarrow> nat \<Rightarrow> bid list \<Rightarrow>
    py_error + bool" where
  "guard_loop sha m cached hs e [] = Inr (e = length cached)"
| "guard_loop sha m cached hs e (b # bs) =
     (if b \<notin> allocated_blocks m \<or> cache_data (heap m b) = None then Inr False
      else let span = token_count (heap m b) in
        if span \<le> 0 \<or> int (length cached) < int e + span then Inr False
        else case ph_update hs (slice cached e (e + nat span)) of
          Inl err \<Rightarrow> Inl err
        | Inr hs' \<Rightarrow>
            if hash_value (heap m b) \<noteq> Some (ph_hexdigest sha hs') then Inr False
            else guard_loop sha m cached hs' (e + nat span) bs)"

fun best_loop :: "(bytes \<Rightarrow> digest) \<Rightarrow> 't block_cache \<Rightarrow> int list \<Rightarrow> nat list \<Rightarrow> hasher \<Rightarrow>
    (int list \<times> bid list) option \<Rightarrow> nat \<Rightarrow> py_error + (int list \<times> bid list) option" where
  "best_loop sha c tokens [] hs best best_len = Inr best"
| "best_loop sha c tokens (n # ns) hs best best_len =
     (let bs = block_size (paged c); prefix_len = n * bs in
      case ph_update hs (slice tokens (prefix_len - bs) prefix_len) of
        Inl e \<Rightarrow> Inl e
      | Inr hs' \<Rightarrow>
          (case prefix_index c (ph_hexdigest sha hs') of
             None \<Rightarrow> best_loop sha c tokens ns hs' best best_len
           | Some (cached, ids) \<Rightarrow>
               if cached = take prefix_len tokens \<and> best_len < length cached then
                 (case guard_loop sha (paged c) cached [] 0 ids of
                    Inl e \<Rightarrow> Inl e
                  | Inr False \<Rightarrow> best_loop sha c tokens ns hs' best best_len
                  | Inr True \<Rightarrow> best_loop sha c tokens ns hs' (Some (cached, ids)) (length cached))
               else best_loop sha c tokens ns hs' best best_len))"

definition find_best_prefix_match :: "(bytes \<Rightarrow> digest) \<Rightarrow> int list \<Rightarrow> 't block_cache \<Rightarrow>
    py_error + (int list \<times> bid list) option" where
  "find_best_prefix_match sha tokens c =
     (if block_size (paged c) = 0 then Inl ZeroDivisionError
      else best_loop sha c tokens [1..<length tokens div block_size (paged c) + 1] [] None 0)"

fun index_loop :: "(bytes \<Rightarrow> digest) \<Rightarrow> int list \<Rightarrow> bid list \<Rightarrow> bid list \<Rightarrow> hasher \<Rightarrow> nat \<Rightarrow>
    't block_cache \<Rightarrow> (unit, 't block_cache) outcome" where
  "index_loop sha tokens done_ids [] hs e c = (Inr (), c)"
| "index_loop sha tokens done_ids (b # bs) hs e c =
     (let tc = token_count (heap (paged c) b) in
      if b \<notin> allocated_blocks (paged c) \<or> tc \<le> 0 \<or> int (length tokens) < int e + tc then (Inr (), c)
      else case ph_update hs (slice tokens e (e + nat tc)) of
        Inl err \<Rightarrow> (Inl err, c)
      | Inr hs' \<Rightarrow>
          index_loop sha tokens (done_ids @ [b]) bs hs' (e + nat tc)
            (c\<lparr>prefix_index := (prefix_index c)(ph_hexdigest sha hs' \<mapsto> (take (e + nat tc) tokens, done_ids @ [b]))\<rparr>))"

definition update_prefix_index :: "(bytes \<Rightarrow> digest) \<Rightarrow> int list \<Rightarrow> bid list \<Rightarrow> 't block_cache \<Rightarrow>
    (unit, 't block_cache) outcome" where
  "update_prefix_index sha tokens ids c = index_loop sha tokens [] ids [] 0 c"

fun stale_loop :: "(bytes \<Rightarrow> digest) \<Rightarrow> 't manager \<Rightarrow> int list \<Rightarrow> hasher \<Rightarrow> nat \<Rightarrow> bid list \<Rightarrow>
    py_error + bool" where
  "stale_loop sha m cached hs e [] = Inr False"
| "stale_loop sha m cached hs e (b # bs) =
     (if b \<notin> allocated_blocks m then Inr True
      else let tc = token_count (heap m b) in
        case hash_value (heap m b) of
          None \<Rightarrow>
            (let span0 = (if 0 < tc then tc else int (block_size m));
                 span = min span0 (int (length cached) - int e) in
             if span \<le> 0 then Inr False
             else case ph_update hs (slice cached e (e + nat span)) of
               Inl err \<Rightarrow> Inl err
             | Inr hs' \<Rightarrow> stale_loop sha m cached hs' (e + nat span) bs)
        | Some hv \<Rightarrow>
            if tc \<le> 0 \<or> int (length cached) < int e + tc then Inr True
            else case ph_update hs (slice cached e (e + nat tc)) of
              Inl err \<Rightarrow> Inl err
            | Inr hs' \<Rightarrow>
                if hv \<noteq> ph_hexdigest sha hs' then Inr True
                else stale_loop sha m cached hs' (e + nat tc) bs)"

definition index_entry_is_stale :: "(bytes \<Rightarrow> digest) \<Rightarrow> int list \<Rightarrow> bid list \<Rightarrow> 't block_cache \<Rightarrow>
    py_error + bool" where
  "index_entry_is_stale sha cached ids c = stale_loop sha (paged c) cached [] 0 ids"

section \<open>Releasing\<close>

definition release_cache :: "string \<Rightarrow> 't block_cache \<Rightarrow> (unit, 't block_cache) outcome" where
  "release_cache rid c =
     on_paged (delete_block_table rid)
       (c\<lparr>pending := (pending c)(rid := None), stored := (stored c)(rid := None)\<rparr>)"

section \<open>Fetching\<close>

fun acquire_loop :: "taddr \<Rightarrow> bid list \<Rightarrow> 't manager \<Rightarrow> (unit, 't manager) outcome" where
  "acquire_loop a [] m = (Inr (), m)"
| "acquire_loop a (b # bs) m =
     (case increment_ref b m of
        (False, m1) \<Rightarrow> (Inr (), m1)
      | (True, m1) \<Rightarrow>
          if b \<notin> allocated_blocks m1 then obind (decrement_ref b m1) (\<lambda>_ m2. (Inr (), m2))
          else acquire_loop a bs (upd_table a (add_block b (token_count (heap m1 b))) m1))"

definition acquire_candidate_blocks :: "(bytes \<Rightarrow> digest) \<Rightarrow> string \<Rightarrow> int list \<Rightarrow> 't block_cache \<Rightarrow>
    ((taddr \<times> int list) option, 't block_cache) outcome" where
  "acquire_candidate_blocks sha rid tokens c =
     obind (on_paged (find_shared_prefix sha tokens False) c) (\<lambda>(shared, _) c1.
       case (if shared \<noteq> [] then Inr (Some (tokens, shared)) else find_best_prefix_match sha tokens c1) of
         Inl e \<Rightarrow> (Inl e, c1)
       | Inr None \<Rightarrow> (Inr None, c1)
       | Inr (Some (_, matched)) \<Rightarrow>
           if matched = [] then (Inr None, c1)
           else obind (on_paged (create_block_table rid) c1) (\<lambda>a c2.
             obind (on_paged (acquire_loop a matched) c2) (\<lambda>_ c3.
               let t = table_store (paged c3) a in
               if block_ids t = []
               then obind (on_paged (delete_block_table rid) c3) (\<lambda>_ c4. (Inr None, c4))
               else (Inr (Some (a, py_drop (num_tokens t) tokens)), c3))))"

definition count_fetch_miss :: "'t block_cache \<Rightarrow> 't block_cache" where
  "count_fetch_miss c = c\<lparr>bc_misses := bc_misses c + 1, paged := miss (paged c)\<rparr>"

definition count_fetch_hit :: "block_table \<Rightarrow> 't block_cache \<Rightarrow> 't block_cache" where
  "count_fetch_hit t c = c\<lparr>bc_hits := bc_hits c + 1, bc_tokens_saved := bc_tokens_saved c + num_tokens t,
     paged := upd_stats (\<lambda>st. st\<lparr>cache_hits := cache_hits st + int (length (block_ids t))\<rparr>) (paged c)\<rparr>"

definition fetch_cache :: "(bytes \<Rightarrow> digest) \<Rightarrow> 't tensor_ops \<Rightarrow> string \<Rightarrow> int list \<Rightarrow> 't block_cache \<Rightarrow>
    (taddr option \<times> int list, 't block_cache) outcome" where
  "fetch_cache sha ops rid tokens c =
     (if tokens = [] then (Inr (None, tokens), c)
      else obind (if stored c rid \<noteq> None \<or> pending c rid \<noteq> None \<or> get_block_table rid (paged c) \<noteq> None
                  then release_cache rid c else (Inr (), c)) (\<lambda>_ c1.
        obind (acquire_candidate_blocks sha rid tokens c1) (\<lambda>candidate c2.
          case candidate of
            None \<Rightarrow> (Inr (None, tokens), count_fetch_miss c2)
          | Some (a, remaining) \<Rightarrow>
              let t = table_store (paged c2) a in
              (case reconstruct_from_table ops t (paged c2) of
                 None \<Rightarrow> obind (on_paged (delete_block_table rid) c2)
                   (\<lambda>_ c3. (Inr (None, tokens), count_fetch_miss c3))
               | Some caches \<Rightarrow>
                   let c3 = count_fetch_hit t c2
                   in (Inr (Some a, remaining), c3\<lparr>pending := (pending c3)(rid \<mapsto> caches)\<rparr>)))))"

section \<open>Storing\<close>

definition allocate_or_evict :: "'t manager \<Rightarrow> (bid option, 't manager) outcome" where
  "allocate_or_evict m =
     obind (allocate_block m) (\<lambda>r m1.
       if r \<noteq> None then (Inr r, m1)
       else obind (handle_memory_pressure 1 m1) (\<lambda>ok m2. if ok then allocate_block m2 else (Inr None, m2)))"

definition fill_block :: "taddr \<Rightarrow> string \<Rightarrow> ('t \<times> 't) list \<Rightarrow> nat \<Rightarrow> string \<Rightarrow> bid \<Rightarrow> 't manager \<Rightarrow> 't manager" where
  "fill_block a cls kv n h b m =
     (let m1 = upd_block b (\<lambda>x. x\<lparr>token_count := int n\<rparr>) m;
          m2 = upd_table a (add_block b (int n)) m1;
          m3 = upd_block b (\<lambda>x. x\<lparr>cache_data := Some kv, cache_class_name := Some cls\<rparr>) m2
      in if n = block_size m then register_block_hash_value b h m3
         else upd_block b (\<lambda>x. x\<lparr>hash_value := Some h\<rparr>) m3)"

fun store_loop :: "(bytes \<Rightarrow> digest) \<Rightarrow> taddr \<Rightarrow> string \<Rightarrow> int list \<Rightarrow> nat \<Rightarrow> hasher \<Rightarrow> ('t \<times> 't) list list \<Rightarrow>
    't manager \<Rightarrow> (unit, 't manager) outcome" where
  "store_loop sha a cls new_tokens i hs [] m = (Inr (), m)"
| "store_loop sha a cls new_tokens i hs (kv # rest) m =
     (let start_idx = i * block_size m; end_idx = min (start_idx + block_size m) (length new_tokens);
          block_tokens = slice new_tokens start_idx end_idx; n = length block_tokens
      in case ph_update hs block_tokens of
        Inl e \<Rightarrow> (Inl e, m)
      | Inr hs' \<Rightarrow>
          let h = ph_hexdigest sha hs' in
          (case (if n = block_size m then find_cached_block_by_hash h False m else (None, m)) of
             (Some b, m1) \<Rightarrow>
               store_loop sha a cls new_tokens (Suc i) hs' rest
                 (upd_table a (add_block b (int n)) (snd (increment_ref b m1)))
           | (None, m1) \<Rightarrow>
               (case allocate_or_evict m1 of
                  (Inl e, m2) \<Rightarrow> (Inl e, m2)
                | (Inr None, m2) \<Rightarrow> (Inr (), m2)
                | (Inr (Some b), m2) \<Rightarrow>
                    store_loop sha a cls new_tokens (Suc i) hs' rest (fill_block a cls kv n h b m2))))"

text \<open>The slices of the new blocks, up to the first that cannot be extracted.\<close>

fun slice_loop :: "'t tensor_ops \<Rightarrow> 't cache_arg \<Rightarrow> nat \<Rightarrow> int \<Rightarrow> nat \<Rightarrow> nat list \<Rightarrow> ('t \<times> 't) list list" where
  "slice_loop ops cd bs existing n_new [] = []"
| "slice_loop ops cd bs existing n_new (i # is) =
     (let global_start = existing + int (i * bs);
          global_end = min (global_start + int bs) (existing + int n_new)
      in case extract_block_tensor_slice ops cd global_start global_end of
        None \<Rightarrow> []
      | Some kv \<Rightarrow> kv # slice_loop ops cd bs existing n_new is)"

text \<open>The part of \<open>store_cache\<close> after \<open>mx.eval\<close>: \<open>existing\<close> is a table that is not empty.\<close>

definition commit_store :: "(bytes \<Rightarrow> digest) \<Rightarrow> string \<Rightarrow> int list \<Rightarrow> string \<Rightarrow> int list \<Rightarrow> ('t \<times> 't) list list \<Rightarrow>
    taddr option \<Rightarrow> int \<Rightarrow> 't block_cache \<Rightarrow> (taddr option, 't block_cache) outcome" where
  "commit_store sha rid tokens cls new_tokens slices existing existing_tokens c =
     obind (case existing of Some a \<Rightarrow> (Inr a, c) | None \<Rightarrow> on_paged (create_block_table rid) c) (\<lambda>a c1.
       case ph_new (py_take existing_tokens tokens) of
         Inl e \<Rightarrow> (Inl e, c1)
       | Inr hs \<Rightarrow>
           obind (on_paged (store_loop sha a cls new_tokens 0 hs slices) c1) (\<lambda>_ c2.
             let t = table_store (paged c2) a in
             obind (update_prefix_index sha (py_take (num_tokens t) tokens) (block_ids t) c2) (\<lambda>_ c3.
               (Inr (Some a), c3\<lparr>stored := (stored c3)(rid \<mapsto> a)\<rparr>))))"

definition store_cache :: "(bytes \<Rightarrow> digest) \<Rightarrow> 't tensor_ops \<Rightarrow> bool \<Rightarrow> string \<Rightarrow> int list \<Rightarrow> 't cache_arg \<Rightarrow>
    't block_cache \<Rightarrow> (taddr option, 't block_cache) outcome" where
  "store_cache sha ops eval_ok rid tokens cd c =
     (if tokens = [] then (Inr None, c)
      else case validate_blockizable_layout ops cd of
        None \<Rightarrow> (Inr None, c)
      | Some (cls, usable) \<Rightarrow>
          let storable = take (min (length tokens) usable) tokens;
              table = get_block_table rid (paged c);
              existing = (case table of None \<Rightarrow> None
                | Some a \<Rightarrow> if table_len (table_store (paged c) a) = 0 then None else Some a);
              existing_tokens = (case existing of None \<Rightarrow> 0 | Some a \<Rightarrow> num_tokens (table_store (paged c) a));
              new_tokens = py_drop existing_tokens storable;
              bs = block_size (paged c)
          in if new_tokens = [] \<and> table = None then (Inr None, c)
             else if bs = 0 then (Inl ZeroDivisionError, c)
             else let slices = slice_loop ops cd bs existing_tokens (length new_tokens)
                          [0..<(length new_tokens + bs - 1) div bs]
               in if slices \<noteq> [] \<and> has_mlx ops \<and> \<not> eval_ok then (Inr None, c)
                  else commit_store sha rid tokens cls new_tokens slices existing existing_tokens c)"

section \<open>Forking\<close>

definition fork_cache :: "string \<Rightarrow> string \<Rightarrow> 't block_cache \<Rightarrow> (taddr option, 't block_cache) outcome" where
  "fork_cache source_rid new_rid c =
     (case stored c source_rid of
        None \<Rightarrow> (Inr None, c)
      | Some a \<Rightarrow>
          if new_rid = source_rid then (Inr (Some a), c)
          else obind (if stored c new_rid \<noteq> None \<or> get_block_table new_rid (paged c) \<noteq> None
                      then release_cache new_rid c else (Inr (), c)) (\<lambda>_ c1.
            obind (on_paged (fork_block_table a new_rid) c1) (\<lambda>f c2.
              (Inr (Some f), c2\<lparr>stored := (stored c2)(new_rid \<mapsto> f)\<rparr>))))"

section \<open>Statistics, reset and pinning\<close>

record block_cache_stats =
  bcs_hits :: int
  bcs_misses :: int
  bcs_hit_rate :: rat
  bcs_tokens_saved :: int
  active_requests :: nat
  bcs_memory :: memory_usage

definition block_cache_get_stats :: "'t block_cache \<Rightarrow> (block_cache_stats, 't block_cache) outcome" where
  "block_cache_get_stats c =
     obind (on_paged get_memory_usage c) (\<lambda>mu c1.
       (Inr \<lparr>bcs_hits = bc_hits c1, bcs_misses = bc_misses c1,
          bcs_hit_rate = (if 0 < bc_hits c1 + bc_misses c1
            then of_int (bc_hits c1) / of_int (bc_hits c1 + bc_misses c1) else 0),
          bcs_tokens_saved = bc_tokens_saved c1, active_requests = card (dom (stored c1)), bcs_memory = mu\<rparr>, c1))"

definition block_cache_reset_stats :: "'t block_cache \<Rightarrow> 't block_cache" where
  "block_cache_reset_stats c = c\<lparr>bc_hits := 0, bc_misses := 0, bc_tokens_saved := 0, paged := reset_stats (paged c)\<rparr>"

definition block_cache_clear :: "bool \<Rightarrow> 't block_cache \<Rightarrow> (unit, 't block_cache) outcome" where
  "block_cache_clear reset c =
     obind (on_paged (PagedCache.clear reset)
         (c\<lparr>stored := Map.empty, prefix_index := Map.empty, pending := Map.empty\<rparr>))
       (\<lambda>_ c1. (Inr (), if reset then block_cache_reset_stats c1 else c1))"

definition pin_prefix :: "(bytes \<Rightarrow> digest) \<Rightarrow> int list \<Rightarrow> 't block_cache \<Rightarrow> (bool, 't block_cache) outcome" where
  "pin_prefix sha tokens c =
     obind (on_paged (find_shared_prefix sha tokens False) c) (\<lambda>(shared, _) c1.
       case (if shared = [] then (0, paged c1) else pin_blocks shared (paged c1)) of
         (n, m) \<Rightarrow>
           let c2 = c1\<lparr>paged := m\<rparr> in
           if 0 < n then (Inr True, c2)
           else (case find_best_prefix_match sha tokens c2 of
               Inl e \<Rightarrow> (Inl e, c2)
             | Inr None \<Rightarrow> (Inr False, c2)
             | Inr (Some (_, ids)) \<Rightarrow>
                 (case pin_blocks ids (paged c2) of (n', m') \<Rightarrow> (Inr (0 < n'), c2\<lparr>paged := m'\<rparr>))))"

definition unpin_prefix :: "(bytes \<Rightarrow> digest) \<Rightarrow> int list \<Rightarrow> 't block_cache \<Rightarrow> (bool, 't block_cache) outcome" where
  "unpin_prefix sha tokens c =
     obind (on_paged (find_shared_prefix sha tokens False) c) (\<lambda>(shared, _) c1.
       if shared \<noteq> [] then obind (on_paged (unpin_blocks shared) c1) (\<lambda>n c2. (Inr (0 < n), c2))
       else (case find_best_prefix_match sha tokens c1 of
           Inl e \<Rightarrow> (Inl e, c1)
         | Inr None \<Rightarrow> (Inr False, c1)
         | Inr (Some (_, ids)) \<Rightarrow> obind (on_paged (unpin_blocks ids) c1) (\<lambda>n c2. (Inr (0 < n), c2))))"

definition block_cache_len :: "'t block_cache \<Rightarrow> nat" where
  "block_cache_len c = card (dom (stored c))"

end
