(* ===== verification/BlockContent.thy ===== *)
theory BlockContent
  imports BlockOwners BlockCache
begin

text \<open>
  What the blocks hold. \<open>rows p n\<close> stands for the KV state of the last \<open>n\<close> tokens of \<open>p\<close>, given all of \<open>p\<close>:
  the tensors a correct model computes. \<open>kv_ok\<close> says that a block that carries the identity of \<open>p\<close> holds
  exactly the rows of \<open>p\<close> it counts, and that the identity index only names blocks that carry the
  identity and are full. The set \<open>U\<close> of token lists bounds the assumption that identities do not
  collide. \<open>calm\<close> is the frame of an allocation: allocated blocks keep content and index entries.
\<close>

section \<open>Invariant\<close>

definition universe :: "(bytes \<Rightarrow> digest) \<Rightarrow> int list set \<Rightarrow> bool" where
  "universe sha U \<longleftrightarrow> (\<forall>p\<in>U. \<exists>h. token_bytes p = Inr h) \<and> (\<forall>p\<in>U. \<forall>n. take n p \<in> U) \<and>
     inj_on (identity sha) U"

type_synonym 't kv_rows = "int list \<Rightarrow> nat \<Rightarrow> ('t \<times> 't) list"

definition describes :: "(bytes \<Rightarrow> digest) \<Rightarrow> int list set \<Rightarrow> 't kv_rows \<Rightarrow> 't cache_block \<Rightarrow> bool" where
  "describes sha U rows x \<longleftrightarrow> block_hash x = None \<and>
     (\<forall>h. hash_value x = Some h \<longrightarrow> (\<exists>p\<in>U. h = identity sha p \<and> 0 < token_count x \<and>
        token_count x \<le> int (length p) \<and> cache_data x = Some (rows p (nat (token_count x))) \<and>
        cache_class_name x = Some ''KVCache''))"

definition kv_ok :: "(bytes \<Rightarrow> digest) \<Rightarrow> int list set \<Rightarrow> 't kv_rows \<Rightarrow> 't manager \<Rightarrow> bool" where
  "kv_ok sha U rows m \<longleftrightarrow> enable_caching m \<and> 0 < block_size m \<and>
     (\<forall>b\<in>all_blocks m. describes sha U rows (heap m b)) \<and> hash_value (heap m (null_block m)) = None \<and>
     (\<forall>h b. hash_to_block m h = Some b \<longrightarrow> b \<in> all_blocks m \<and> hash_value (heap m b) = Some h \<and>
        token_count (heap m b) = int (block_size m))"

lemma kv_okD:
  assumes "kv_ok sha U rows m"
  shows "enable_caching m" "0 < block_size m" "b \<in> all_blocks m \<Longrightarrow> describes sha U rows (heap m b)"
    "hash_value (heap m (null_block m)) = None"
    "hash_to_block m h = Some b \<Longrightarrow> b \<in> all_blocks m \<and> hash_value (heap m b) = Some h \<and>
       token_count (heap m b) = int (block_size m)"
  using assms by (auto simp: kv_ok_def)

lemma describes_content:
  assumes "content x = content y"
  shows "describes sha U rows x = describes sha U rows y"
  using assms unfolding describes_def by (simp add: content_def)

text \<open>Same content and no new index entries.\<close>

lemma kv_ok_le:
  assumes k: "kv_ok sha U rows m" and c: "\<And>i. content (heap m' i) = content (heap m i)"
    and le: "hash_to_block m' \<subseteq>\<^sub>m hash_to_block m"
    and f: "max_blocks m' = max_blocks m" "block_size m' = block_size m" "enable_caching m' = enable_caching m"
      "null_block m' = null_block m"
  shows "kv_ok sha U rows m'"
proof -
  have "hash_value (heap m' i) = hash_value (heap m i)" "token_count (heap m' i) = token_count (heap m i)" for i
    using c [of i] by (simp_all add: content_def)
  moreover have "b \<in> all_blocks m \<and> hash_value (heap m b) = Some h \<and> token_count (heap m b) = int (block_size m)"
    if "hash_to_block m' h = Some b" for h b
    using kv_okD(5) [OF k, of h b] le that by (force simp: map_le_def dom_def)
  ultimately show ?thesis
    using kv_okD(1-4) [OF k] f by (simp add: kv_ok_def all_blocks_def describes_content [OF c])
qed

lemma kv_ok_inert: "kv_ok sha U rows m \<Longrightarrow> inert m m' \<Longrightarrow> kv_ok sha U rows m'"
  by (rule kv_ok_le [where m = m]) (simp_all add: inert_def)

section \<open>Losing an identity\<close>

definition clean :: "'t manager \<Rightarrow> bid \<Rightarrow> 't manager \<Rightarrow> bool" where
  "clean m b m' \<longleftrightarrow> (\<forall>i. i \<noteq> b \<longrightarrow> content (heap m' i) = content (heap m i)) \<and>
     (content (heap m' b) = content (heap m b) \<and> hash_to_block m' \<subseteq>\<^sub>m hash_to_block m \<or>
      hash_value (heap m' b) = None \<and> block_hash (heap m' b) = None \<and>
        (\<forall>h c. hash_to_block m' h = Some c \<longrightarrow> hash_to_block m h = Some c \<and> hash_value (heap m b) \<noteq> Some h \<or>
           hash_to_block m h = Some c \<and> c \<noteq> b)) \<and>
     (\<forall>h c. hash_to_block m h = Some c \<longrightarrow> c \<noteq> b \<longrightarrow> hash_to_block m' h = Some c) \<and>
     max_blocks m' = max_blocks m \<and> block_size m' = block_size m \<and> enable_caching m' = enable_caching m \<and>
     null_block m' = null_block m"

lemma kv_ok_clean:
  assumes k: "kv_ok sha U rows m" and c: "clean m b m'"
  shows "kv_ok sha U rows m'"
proof (cases "content (heap m' b) = content (heap m b) \<and> hash_to_block m' \<subseteq>\<^sub>m hash_to_block m")
  case True
  then have "content (heap m' i) = content (heap m i)" for i using c by (cases "i = b") (auto simp: clean_def)
  then show ?thesis using True c by (intro kv_ok_le [OF k]) (auto simp: clean_def)
next
  case False
  then have b: "hash_value (heap m' b) = None" "block_hash (heap m' b) = None"
    and h: "\<And>h c. hash_to_block m' h = Some c \<Longrightarrow> hash_to_block m h = Some c \<and> hash_value (heap m b) \<noteq> Some h \<or>
           hash_to_block m h = Some c \<and> c \<noteq> b"
    using c by (auto simp: clean_def)
  have o: "content (heap m' i) = content (heap m i)" if "i \<noteq> b" for i using c that by (simp add: clean_def)
  have f: "max_blocks m' = max_blocks m" "block_size m' = block_size m" "enable_caching m' = enable_caching m"
    "null_block m' = null_block m" using c by (simp_all add: clean_def)
  have "describes sha U rows (heap m' i)" if "i \<in> all_blocks m" for i
  proof (cases "i = b")
    case True
    then show ?thesis using b by (simp add: describes_def)
  next
    case False
    then show ?thesis using kv_okD(3) [OF k that] describes_content [OF o] by blast
  qed
  moreover have "hash_value (heap m' (null_block m)) = None"
    using kv_okD(4) [OF k] b o [of "null_block m"] by (cases "null_block m = b") (auto simp: content_def)
  moreover have "c \<in> all_blocks m \<and> hash_value (heap m' c) = Some hh \<and> token_count (heap m' c) = int (block_size m)"
    if "hash_to_block m' hh = Some c" for hh c
  proof -
    have "hash_to_block m hh = Some c" and "hash_value (heap m b) \<noteq> Some hh \<or> c \<noteq> b" using h [OF that] by auto
    then have "c \<noteq> b" and "hash_to_block m hh = Some c" using kv_okD(5) [OF k, of hh c] by auto
    then show ?thesis using kv_okD(5) [OF k, of hh c] o [of c] by (simp add: content_def)
  qed
  ultimately show ?thesis using kv_okD(1,2) [OF k] by (simp add: kv_ok_def f all_blocks_def)
qed

lemma drop_legacy_clean:
  "hash_to_block (drop_legacy hv b m) h = Some c \<longleftrightarrow> hash_to_block m h = Some c \<and> \<not> (hv = Some h \<and> c = b)"
  by (auto simp: drop_legacy_def split: option.splits)

lemma maybe_evict_clean:
  assumes "block_hash (heap m b) = None"
  shows "clean m b (snd (maybe_evict_cached_block b m))"
  using assms
  by (auto simp: clean_def maybe_evict_cached_block_def Let_def content_def drop_legacy_clean map_le_def
      split: option.splits)

lemma release_one_clean: "clean m b (release_one b m)"
  unfolding clean_def release_one_heap
  by (auto simp: release_one_def Let_def drop_legacy_clean split: option.splits)

section \<open>Allocation\<close>

definition calm :: "'t manager \<Rightarrow> 't manager \<Rightarrow> bool" where
  "calm m m' \<longleftrightarrow> allocated_blocks m \<subseteq> allocated_blocks m' \<and>
     (\<forall>b\<in>allocated_blocks m. content (heap m' b) = content (heap m b)) \<and>
     (\<forall>h b. hash_to_block m h = Some b \<longrightarrow> b \<in> allocated_blocks m \<longrightarrow> hash_to_block m' h = Some b) \<and>
     max_blocks m' = max_blocks m \<and> block_size m' = block_size m \<and> enable_caching m' = enable_caching m \<and>
     null_block m' = null_block m"

lemma calm_refl [simp]: "calm m m"
  by (simp add: calm_def)

lemma calm_trans: "calm m n \<Longrightarrow> calm n k \<Longrightarrow> calm m k"
  unfolding calm_def by (intro conjI) (blast, force, blast, auto)

lemma calm_serves:
  assumes "calm m m'" and "serves sha m toks k b"
  shows "serves sha m' toks k b"
proof -
  let ?h = "identity sha (take (Suc k * block_size m) toks)"
  have b: "hash_to_block m ?h = Some b" "b \<in> allocated_blocks m" "hash_value (heap m b) = Some ?h"
    "token_count (heap m b) = int (block_size m)" using assms(2) by (simp_all add: serves_def Let_def)
  have "content (heap m' b) = content (heap m b)" "hash_to_block m' ?h = Some b" "b \<in> allocated_blocks m'"
    "block_size m' = block_size m" using assms(1) b by (auto simp: calm_def)
  then show ?thesis using b by (simp add: serves_def content_def)
qed

lemma inert_calm: "inert m m' \<Longrightarrow> allocated_blocks m \<subseteq> allocated_blocks m' \<Longrightarrow> calm m m'"
  by (simp add: inert_def calm_def)

lemma allocate_kv:
  assumes i: "paged_inv m" and k: "kv_ok sha U rows m" and a: "allocate_block m = (Inr (Some b), m')"
  shows "kv_ok sha U rows m'" "calm m m'" "hash_value (heap m' b) = None" "block_hash (heap m' b) = None"
    "b \<in> all_blocks m" "b \<notin> allocated_blocks m" "tables_eq m m'" "is_null (heap m' b) = is_null (heap m b)"
proof -
  obtain xs where p: "pinvx m xs {} 0" using i by (auto simp: paged_inv_def)
  note sp = allocate_block_spec [OF p a]
  have en: "enable_caching m" by (rule kv_okD(1) [OF k])
  show "hash_value (heap m' b) = None" "block_hash (heap m' b) = None" using sp(13) [OF en] by simp_all
  show "b \<notin> allocated_blocks m" "tables_eq m m'" "is_null (heap m' b) = is_null (heap m b)" using sp by simp_all
  show ba: "b \<in> all_blocks m" using pinvx_ranges [OF p] sp(1) by blast
  have ne: "num_free_blocks m \<noteq> 0" using a by (auto simp: allocate_block_def)
  from pinvxD(1) [OF p] obtain s1 where
    s1: "same_core m s1" "m' = count_alloc 1 (claim_block b s1)"
    using a ne by (cases rule: pop_any) (auto simp: allocate_block_def)
  note mm = same_core_manager [OF s1(1)]
  have c1: "content (heap s1 i) = content (heap m i)" for i
    using s1(1) by (intro content_core) (simp add: same_core_def)
  have bh: "block_hash (heap s1 b) = None"
    using kv_okD(3) [OF k ba] c1 [of b] by (simp add: describes_def content_def)
  let ?e = "snd (maybe_evict_cached_block b s1)"
  have m': "m' = count_alloc 1 ((upd_block b (\<lambda>x. touch_block (x\<lparr>ref_count := 1\<rparr>)) ?e)
      \<lparr>allocated_blocks := insert b (allocated_blocks ?e)\<rparr>)"
    using en mm by (simp add: s1(2) claim_block_def Let_def)
  have ce: "content (heap m' i) = content (heap ?e i)" for i by (simp add: m' content_def)
  have fe: "hash_to_block m' = hash_to_block ?e" "max_blocks m' = max_blocks ?e" "block_size m' = block_size ?e"
    "enable_caching m' = enable_caching ?e" "null_block m' = null_block ?e" by (simp_all add: m')
  have hv: "hash_value (heap m' i) = hash_value (heap ?e i)" "block_hash (heap m' i) = block_hash (heap ?e i)"
      "hash_value (heap s1 i) = hash_value (heap m i)" for i
    using ce [of i] c1 [of i] by (simp_all add: content_def)
  have cl: "clean m b m'"
    using maybe_evict_clean [of s1 b, OF bh] unfolding clean_def ce fe hv c1 mm .
  show "kv_ok sha U rows m'" by (rule kv_ok_clean [OF k cl])
  show "calm m m'"
    using cl sp(2,7) unfolding calm_def clean_def by (intro conjI) (blast, metis, metis, simp_all)
qed

text \<open>\<open>store_cache\<close>'s retry under memory pressure cannot help: it is the plain allocation.\<close>

lemma allocate_or_evict_plain: "allocate_or_evict m = allocate_block m"
proof (cases "num_free_blocks m = 0")
  case True
  then show ?thesis
    by (simp add: allocate_or_evict_def allocate_block_def handle_memory_pressure_def evict_lru_blocks_def)
next
  case False
  then obtain r m' where a: "allocate_block m = (r, m')" "r \<noteq> Inr None"
    by (cases "allocate_block m") (auto simp: allocate_block_def split: prod.splits sum.splits if_splits)
  then show ?thesis by (cases r) (auto simp: allocate_or_evict_def)
qed

lemma allocate_none:
  assumes i: "paged_inv m" and a: "allocate_block m = (r, m')" and "\<forall>b. r \<noteq> Inr (Some b)"
  shows "m' = m" "r = Inr None \<or> r = Inl ValueError"
proof -
  obtain xs where "pinvx m xs {} 0" using i by (auto simp: paged_inv_def)
  from allocate_block_pinvx [OF this a] assms(3) show "m' = m" "r = Inr None \<or> r = Inl ValueError" by auto
qed

section \<open>Filling a block\<close>

lemma fill_block_kv:
  assumes k: "kv_ok sha U rows m" and b: "b \<in> all_blocks m" "b \<noteq> null_block m" and h: "hash_value (heap m b) = None"
    and bh: "block_hash (heap m b) = None"
    and p: "p \<in> U" "0 < n" "n \<le> length p"
  shows "kv_ok sha U rows (fill_block a ''KVCache'' (rows p n) n (identity sha p) b m)"
proof -
  let ?m = "fill_block a ''KVCache'' (rows p n) n (identity sha p) b m"
  have hp: "heap ?m i = (if i = b then (heap m b)\<lparr>token_count := int n, cache_data := Some (rows p n),
      cache_class_name := Some ''KVCache'', hash_value := Some (identity sha p)\<rparr> else heap m i)" for i
    by (simp add: fill_block_def Let_def register_block_hash_value_def)
  have f: "max_blocks ?m = max_blocks m" "block_size ?m = block_size m" "enable_caching ?m = enable_caching m"
    "null_block ?m = null_block m"
    by (simp_all add: fill_block_def Let_def register_block_hash_value_def)
  have ht: "hash_to_block ?m = (if n = block_size m then (hash_to_block m)(identity sha p \<mapsto> b) else hash_to_block m)"
    by (simp add: fill_block_def Let_def register_block_hash_value_def)
  have "describes sha U rows (heap ?m i)" if "i \<in> all_blocks m" for i
    using kv_okD(3) [OF k that] p bh unfolding hp by (auto simp: describes_def)
  moreover have "c \<noteq> b" if "hash_to_block m hh = Some c" for hh c
    using kv_okD(5) [OF k that] h by auto
  then have "c \<in> all_blocks m \<and> hash_value (heap ?m c) = Some hh \<and> token_count (heap ?m c) = int (block_size m)"
    if "hash_to_block ?m hh = Some c" for hh c
    using that kv_okD(5) [OF k, of hh c] b(1) unfolding hp ht by (auto split: if_splits)
  moreover have "hash_value (heap ?m (null_block m)) = None" using kv_okD(4) [OF k] b(2) by (simp add: hp)
  ultimately show ?thesis using kv_okD(1,2) [OF k] by (simp add: kv_ok_def f all_blocks_def)
qed

text \<open>Filling a block no index entry of an allocated block gives way to keeps the others.\<close>

lemma fill_block_calm:
  assumes b: "b \<notin> allocated_blocks m0" and c: "calm m0 m"
    and new: "n = block_size m \<Longrightarrow> \<forall>x. hash_to_block m0 h = Some x \<longrightarrow> x \<notin> allocated_blocks m0"
  shows "calm m0 (fill_block a cls kv n h b m)"
proof -
  let ?m = "fill_block a cls kv n h b m"
  have "heap ?m i = heap m i" if "i \<in> allocated_blocks m0" for i
    using that b by (auto simp: fill_block_def Let_def register_block_hash_value_def)
  moreover have "max_blocks ?m = max_blocks m" "block_size ?m = block_size m" "enable_caching ?m = enable_caching m"
    "null_block ?m = null_block m" "allocated_blocks ?m = allocated_blocks m"
    by (simp_all add: fill_block_def Let_def register_block_hash_value_def)
  moreover have "hash_to_block ?m = (if n = block_size m then (hash_to_block m)(h \<mapsto> b) else hash_to_block m)"
    by (simp add: fill_block_def Let_def register_block_hash_value_def)
  ultimately show ?thesis using c new unfolding calm_def by (cases "n = block_size m") auto
qed

section \<open>Pressure release\<close>

lemma release_loop_kv:
  "kv_ok sha U rows m \<Longrightarrow> kv_ok sha U rows (snd (release_loop f mx cur r m)) \<and>
   tables_eq m (snd (release_loop f mx cur r m)) \<and> allocated_blocks (snd (release_loop f mx cur r m)) = allocated_blocks m \<and>
   (\<forall>i. ref (snd (release_loop f mx cur r m)) i = ref m i)"
proof (induction f mx cur r m rule: release_loop.induct)
  case (2 f mx cur r m)
  show ?case
  proof (cases cur)
    case (Some b)
    have k: "kv_ok sha U rows (release_one b m)" by (rule kv_ok_clean [OF "2.prems" release_one_clean])
    have t: "tables_eq m (release_one b m)" "\<And>i. ref (release_one b m) i = ref m i"
      by (simp_all add: release_one_heap) (simp add: tables_eq_def release_one_def Let_def split: option.splits)
    show ?thesis
    proof (cases "cache_data (heap m b) \<noteq> None \<and> \<not> is_pinned (heap m b)")
      case True
      then show ?thesis
        using "2.IH"(1) [OF Some _ True refl _ k] "2.prems" Some k t release_one_alloc [of b m]
        by (auto simp: Let_def tables_eq_refl tables_eq_trans [OF t(1)])
    next
      case False
      then show ?thesis using "2.IH"(2) [OF Some _ False "2.prems"] "2.prems" Some by (auto simp: tables_eq_refl)
    qed
  qed (use "2.prems" in \<open>simp add: tables_eq_refl\<close>)
qed (simp add: tables_eq_refl)

lemma release_pressure_kv:
  assumes o: "owned m" and k: "kv_ok sha U rows m" and r: "release_pressure_blocks n m = (v, m')"
  shows "owned m' \<and> kv_ok sha U rows m' \<and> request_tables m' = request_tables m"
proof -
  have m': "m' = snd (release_loop (fuel_of m) n (nxt m fake_head) 0 m)"
    using r by (simp add: release_pressure_blocks_def)
  note l = release_loop_kv [OF k, of "fuel_of m" n "nxt m fake_head" 0, folded m']
  have "paged_inv m'" using release_pressure_blocks_returns [OF ownedD(1) [OF o], of n] r by auto
  then have "owned m'" using l by (intro owned_cong [OF o]) (auto simp: tables_eq_def)
  then show ?thesis using l by (simp add: tables_eq_def)
qed

end
