(* ===== verification/BlockCacheInv.thy ===== *)
theory BlockCacheInv
  imports BlockContent
begin

text \<open>
  The invariant of \<open>BlockAwarePrefixCache\<close> and its preservation by every operation: the paged manager is
  owned by its tables and its blocks hold what their identities say, the stored requests and the
  pending caches belong to registered tables. \<open>spells\<close> says that a list of blocks holds the rows of
  a prefix of the tokens, block after block.
\<close>

section \<open>Frames\<close>

text \<open>Every table but that of \<open>rid\<close> is as before.\<close>

definition others :: "string \<Rightarrow> 't manager \<Rightarrow> 't manager \<Rightarrow> bool" where
  "others rid m m' \<longleftrightarrow> (\<forall>r. r \<noteq> rid \<longrightarrow> request_tables m' r = request_tables m r \<and>
     (\<forall>a. request_tables m r = Some a \<longrightarrow> table_store m' a = table_store m a))"

lemma others_refl [simp]: "others rid m m"
  by (simp add: others_def)

lemma others_trans: "others rid m n \<Longrightarrow> others rid n k \<Longrightarrow> others rid m k"
  by (simp add: others_def)

lemma others_eq: "table_store m' = table_store m \<Longrightarrow> request_tables m' = (request_tables m)(rid := x) \<Longrightarrow> others rid m m'"
  by (simp add: others_def)

lemma tables_eq_others: "tables_eq m m' \<Longrightarrow> others rid m m'"
  by (simp add: others_def tables_eq_def)

text \<open>The table of \<open>rid\<close> is at an address of its own.\<close>

lemma others_upd:
  assumes "tables_ok m" and "request_tables m rid = Some a"
  shows "others rid m (upd_table a f m)"
  using assms by (auto simp: others_def upd_table_def tables_ok_def)

lemma others_create:
  assumes t: "tables_ok m'" and r: "request_tables m' = (request_tables m)(rid \<mapsto> a)"
    and s: "table_store m' = (table_store m)(a := t)"
  shows "others rid m m'"
proof -
  have "x \<noteq> a" if "r \<noteq> rid" "request_tables m r = Some x" for r x
  proof
    assume "x = a"
    then have "request_tables m' r = Some a" "request_tables m' rid = Some a" using that by (simp_all add: r)
    then have "r = rid" using t unfolding tables_ok_def by blast
    then show False using that(1) by simp
  qed
  then show ?thesis by (simp add: others_def r s)
qed

text \<open>Ownership determines the counts: the same tables mean the same references.\<close>

lemma owned_determined:
  fixes m m' :: "'t manager"
  assumes o: "owned m" "owned m'" and n: "null_block m' = null_block m"
    and r: "\<And>r. request_tables m' r = request_tables m r"
    and t: "\<And>r a. request_tables m r = Some a \<Longrightarrow> table_store m' a = table_store m a"
  shows "allocated_blocks m' = allocated_blocks m" "b \<noteq> null_block m \<Longrightarrow> b \<in> allocated_blocks m \<Longrightarrow> ref m' b = ref m b"
proof -
  have ow: "owners m' b = owners m b" for b
    unfolding owners_def r by (rule sum.cong) (use t r in auto)
  have pos: "held k b \<longleftrightarrow> 0 < owners k b" if k: "owned k" for k :: "'t manager" and b
  proof
    assume "held k b"
    then show "0 < owners k b"
      using ownedD(1) [OF k] ownedD(3) [OF k, of b] by (auto simp: paged_inv_def pinvx_def held_def)
  qed (use ownedD(4) [OF k, of b] in auto)
  have hd: "held m' b = held m b" for b using pos [OF o(1)] pos [OF o(2)] ow by simp
  have nb: "null_block m \<in> allocated_blocks m" "null_block m' \<in> allocated_blocks m'"
    using ownedD(1) [OF o(1)] ownedD(1) [OF o(2)] by (auto simp: paged_inv_def pinvx_def)
  show "allocated_blocks m' = allocated_blocks m"
  proof (rule set_eqI)
    show "b \<in> allocated_blocks m' \<longleftrightarrow> b \<in> allocated_blocks m" for b
      using hd [of b] nb n by (cases "b = null_block m") (auto simp: held_def)
  qed
  show "ref m' b = ref m b" if "b \<noteq> null_block m" "b \<in> allocated_blocks m"
    using that hd [of b] ow [of b] ownedD(3) [OF o(1), of b] ownedD(3) [OF o(2), of b] by (simp add: held_def)
qed

section \<open>Blocks that spell a prefix\<close>

abbreviation extent :: "'t manager \<Rightarrow> bid \<Rightarrow> nat" where
  "extent m b \<equiv> nat (token_count (heap m b))"

fun spells :: "'t kv_rows \<Rightarrow> 't manager \<Rightarrow> int list \<Rightarrow> nat \<Rightarrow> bid list \<Rightarrow> bool" where
  "spells rows m toks e [] = True"
| "spells rows m toks e (b # bs) \<longleftrightarrow> held m b \<and> 0 < token_count (heap m b) \<and> e + extent m b \<le> length toks \<and>
     cache_data (heap m b) = Some (rows (take (e + extent m b) toks) (extent m b)) \<and>
     cache_class_name (heap m b) = Some ''KVCache'' \<and> spells rows m toks (e + extent m b) bs"

fun span_rows :: "'t kv_rows \<Rightarrow> int list \<Rightarrow> nat \<Rightarrow> nat list \<Rightarrow> ('t \<times> 't) list list" where
  "span_rows rows toks e [] = []"
| "span_rows rows toks e (n # ns) = rows (take (e + n) toks) n # span_rows rows toks (e + n) ns"

lemma spells_held: "spells rows m toks e bs \<Longrightarrow> b \<in> set bs \<Longrightarrow> held m b"
  by (induction bs arbitrary: e) auto

lemma spells_cong:
  assumes "\<And>b. b \<in> set bs \<Longrightarrow> held m b \<Longrightarrow> held m' b \<and> content (heap m' b) = content (heap m b)"
    and "spells rows m toks e bs"
  shows "spells rows m' toks e bs"
  using assms
proof (induction bs arbitrary: e)
  case (Cons b bs)
  then have "held m' b" "content (heap m' b) = content (heap m b)" by auto
  then show ?case using Cons by (auto simp: content_def)
qed simp

lemma spells_bound: "spells rows m toks e bs \<Longrightarrow> e \<le> length toks \<Longrightarrow> e + sum_list (map (extent m) bs) \<le> length toks"
  by (induction bs arbitrary: e) (simp, fastforce simp: add.assoc)

lemma collect_spells:
  "spells rows m toks e bs \<Longrightarrow> collect_block_data m bs = Some (span_rows rows toks e (map (extent m) bs))"
  by (induction bs arbitrary: e) (auto simp: held_def SEQ_AXIS_KV_CLASSES_def)

lemma spells_take:
  "spells rows m (take n toks) e bs \<Longrightarrow> spells rows m toks e bs"
  by (induction bs arbitrary: e) (auto simp: min_def split: if_splits)

lemma describes_identity:
  assumes u: "universe sha U" and k: "kv_ok sha U rows m" and b: "b \<in> all_blocks m"
    and h: "hash_value (heap m b) = Some (identity sha p)" and p: "p \<in> U"
  shows "0 < token_count (heap m b)" "extent m b \<le> length p"
    "cache_data (heap m b) = Some (rows p (extent m b))" "cache_class_name (heap m b) = Some ''KVCache''" "b \<noteq> null_block m"
proof -
  obtain q where q: "q \<in> U" "identity sha p = identity sha q" "0 < token_count (heap m b)"
    "token_count (heap m b) \<le> int (length q)" "cache_data (heap m b) = Some (rows q (extent m b))"
    "cache_class_name (heap m b) = Some ''KVCache''"
    using kv_okD(3) [OF k b] h unfolding describes_def by blast
  have "p = q" using u p q(1,2) by (auto simp: universe_def inj_on_def)
  then show "0 < token_count (heap m b)" "extent m b \<le> length p"
    "cache_data (heap m b) = Some (rows p (extent m b))" "cache_class_name (heap m b) = Some ''KVCache''"
    using q by auto
  show "b \<noteq> null_block m" using kv_okD(4) [OF k] h by auto
qed

lemma serves_spells:
  assumes u: "universe sha U" and k: "kv_ok sha U rows m" and p: "toks \<in> U"
  shows "\<forall>i<length bs. serves sha m toks (j + i) (bs ! i) \<Longrightarrow> (j + length bs) * block_size m \<le> length toks \<Longrightarrow>
    spells rows m toks (j * block_size m) bs \<and> map (extent m) bs = replicate (length bs) (block_size m)"
proof (induction bs arbitrary: j)
  case (Cons b bs)
  let ?n = "block_size m" and ?p = "take (Suc j * block_size m) toks"
  have s: "serves sha m toks j b" using Cons.prems(1) by force
  then have b: "b \<in> allocated_blocks m" "hash_value (heap m b) = Some (identity sha ?p)"
    "token_count (heap m b) = int ?n" "hash_to_block m (identity sha ?p) = Some b" by (simp_all add: serves_def Let_def)
  have "?p \<in> U" using u p by (auto simp: universe_def)
  note d = describes_identity [OF u k _ b(2) this]
  have ba: "b \<in> all_blocks m" using kv_okD(5) [OF k b(4)] by simp
  have "spells rows m toks (Suc j * ?n) bs \<and> map (extent m) bs = replicate (length bs) ?n"
  proof (rule Cons.IH)
    show "\<forall>i<length bs. serves sha m toks (Suc j + i) (bs ! i)" using Cons.prems(1) by force
    show "(Suc j + length bs) * ?n \<le> length toks" using Cons.prems(2) by simp
  qed
  moreover have "j * ?n + ?n \<le> length toks" using Cons.prems(2) by (simp add: algebra_simps)
  ultimately show ?case
    using d [OF ba] b by (simp add: held_def add.commute)
qed simp

lemma guard_spells:
  assumes u: "universe sha U" and o: "paged_inv m" and k: "kv_ok sha U rows m" and p: "toks \<in> U"
  shows "guard_loop sha m toks hs e bs = Inr True \<Longrightarrow> token_bytes (take e toks) = Inr hs \<Longrightarrow> e \<le> length toks \<Longrightarrow>
    spells rows m toks e bs \<and> e + sum_list (map (extent m) bs) = length toks"
proof (induction bs arbitrary: e hs)
  case (Cons b bs)
  have c: "b \<in> allocated_blocks m" "0 < token_count (heap m b)" "int e + token_count (heap m b) \<le> int (length toks)"
    using Cons.prems(1) by (auto simp: Let_def split: if_splits)
  then have le: "e + extent m b \<le> length toks" by linarith
  let ?p = "take (e + extent m b) toks"
  have pU: "?p \<in> U" using u p by (auto simp: universe_def)
  then obtain hs' where hs': "token_bytes ?p = Inr hs'" using u by (auto simp: universe_def)
  have "take e toks @ slice toks e (e + extent m b) = ?p" by (simp add: take_slice)
  then have up: "ph_update hs (slice toks e (e + extent m b)) = Inr hs'"
    using ph_update_bytes [OF Cons.prems(2), of "slice toks e (e + extent m b)"] hs' by simp
  have h: "hash_value (heap m b) = Some (identity sha ?p)" and r: "guard_loop sha m toks hs' (e + extent m b) bs = Inr True"
    using Cons.prems(1) c up identity_legacy [OF hs', of sha] by (auto simp: Let_def split: if_splits)
  have ba: "b \<in> all_blocks m" using o c(1) unfolding paged_inv_def using pinvx_ranges by blast
  note d = describes_identity [OF u k ba h pU]
  from Cons.IH [OF r hs' le] show ?case using c(1) d le by (simp add: held_def)
qed simp

section \<open>Lookups leave the manager alone\<close>

definition same_but_stats :: "'t manager \<Rightarrow> 't manager \<Rightarrow> bool" where
  "same_but_stats m m' \<longleftrightarrow> inert m m' \<and> tables_eq m m' \<and> allocated_blocks m' = allocated_blocks m \<and>
     (\<forall>i. ref m' i = ref m i)"

lemma same_refl [simp]: "same_but_stats m m"
  by (simp add: same_but_stats_def tables_eq_refl)

lemma same_trans: "same_but_stats m n \<Longrightarrow> same_but_stats n k \<Longrightarrow> same_but_stats m k"
  unfolding same_but_stats_def using inert_trans tables_eq_trans by fastforce

lemma owned_same: "owned m \<Longrightarrow> same_but_stats m m' \<Longrightarrow> paged_inv m' \<Longrightarrow> owned m'"
  by (rule owned_cong) (auto simp: same_but_stats_def tables_eq_def)

lemma find_by_hash_same:
  assumes k: "kv_ok sha U rows m" and f: "find_cached_block_by_hash h False m = (r, m')"
  shows "same_but_stats m m'"
proof -
  have "hash_value (heap m b) = Some h" if "hash_to_block m h = Some b" for b
    using kv_okD(5) [OF k that] by simp
  then show ?thesis
    using f by (auto simp: find_cached_block_by_hash_def Let_def same_but_stats_def inert_def content_def
        tables_eq_def split: option.splits if_splits)
qed

lemma shared_loop_same:
  "kv_ok sha U rows m \<Longrightarrow> shared_loop sha f False toks hs acc m = (r, m') \<Longrightarrow> same_but_stats m m'"
proof (induction f arbitrary: toks hs acc m)
  case (Suc f)
  show ?case
  proof (cases "length toks < block_size m")
    case True
    then show ?thesis using Suc.prems(2) by auto
  next
    case False
    show ?thesis
    proof (cases "ph_update hs (take (block_size m) toks)")
      case (Inl e)
      then show ?thesis using Suc.prems(2) False by auto
    next
      case (Inr hs')
      obtain v m1 where fd: "find_cached_block_by_hash (ph_hexdigest sha hs') False m = (v, m1)" by fastforce
      note s1 = find_by_hash_same [OF Suc.prems(1) fd]
      have k1: "kv_ok sha U rows m1" using kv_ok_inert [OF Suc.prems(1)] s1 by (simp add: same_but_stats_def)
      show ?thesis
        using Suc.prems(2) False Inr fd s1 Suc.IH [OF k1] same_trans [OF s1] by (auto split: option.splits if_splits)
    qed
  qed
qed auto

lemma find_shared_same:
  "kv_ok sha U rows m \<Longrightarrow> find_shared_prefix sha toks False m = (r, m') \<Longrightarrow> same_but_stats m m'"
  unfolding find_shared_prefix_def by (rule shared_loop_same)

lemma same_serves: "same_but_stats m m' \<Longrightarrow> serves sha m' = serves sha m"
  by (simp add: same_but_stats_def serves_inert)

section \<open>The invariant\<close>

definition block_cache_inv :: "(bytes \<Rightarrow> digest) \<Rightarrow> int list set \<Rightarrow> 't kv_rows \<Rightarrow> 't block_cache \<Rightarrow> bool" where
  "block_cache_inv sha U rows c \<longleftrightarrow> owned (paged c) \<and> kv_ok sha U rows (paged c) \<and>
     (\<forall>rid a. stored c rid = Some a \<longrightarrow> request_tables (paged c) rid = Some a) \<and>
     (\<forall>rid. pending c rid \<noteq> None \<longrightarrow> request_tables (paged c) rid \<noteq> None) \<and>
     (\<forall>rid a. request_tables (paged c) rid = Some a \<longrightarrow> 0 \<le> num_tokens (table_store (paged c) a))"

lemma block_cache_invD:
  assumes "block_cache_inv sha U rows c"
  shows "owned (paged c)" "kv_ok sha U rows (paged c)" "paged_inv (paged c)"
    "stored c rid = Some a \<Longrightarrow> request_tables (paged c) rid = Some a"
    "pending c rid \<noteq> None \<Longrightarrow> request_tables (paged c) rid \<noteq> None"
    "request_tables (paged c) rid = Some a \<Longrightarrow> 0 \<le> num_tokens (table_store (paged c) a)"
  using assms ownedD(1) by (auto simp: block_cache_inv_def)

text \<open>One request's table changes, everything else stays.\<close>

lemma block_cache_inv_step:
  assumes i: "block_cache_inv sha U rows c" and o: "owned m'" and k: "kv_ok sha U rows m'"
    and t: "others rid (paged c) m'" and p: "paged c' = m'"
    and st: "\<And>r. r \<noteq> rid \<Longrightarrow> stored c' r = stored c r" "\<And>r. r \<noteq> rid \<Longrightarrow> pending c' r = pending c r"
    and sr: "\<And>a. stored c' rid = Some a \<Longrightarrow> request_tables m' rid = Some a"
    and pr: "pending c' rid \<noteq> None \<Longrightarrow> request_tables m' rid \<noteq> None"
    and nr: "\<And>a. request_tables m' rid = Some a \<Longrightarrow> 0 \<le> num_tokens (table_store m' a)"
  shows "block_cache_inv sha U rows c'"
proof -
  have rt: "request_tables m' r = request_tables (paged c) r" if "r \<noteq> rid" for r
    using t that by (simp add: others_def)
  have ts: "table_store m' a = table_store (paged c) a" if "r \<noteq> rid" "request_tables (paged c) r = Some a" for r a
    using t that by (simp add: others_def)
  note d = block_cache_invD [OF i]
  have "request_tables m' r = Some a" if "stored c' r = Some a" for r a
    using that sr st(1) [of r] rt [of r] d(4) [of r a] by (cases "r = rid") auto
  moreover have "request_tables m' r \<noteq> None" if "pending c' r \<noteq> None" for r
    using that pr st(2) [of r] rt [of r] d(5) [of r] by (cases "r = rid") auto
  moreover have "0 \<le> num_tokens (table_store m' a)" if "request_tables m' r = Some a" for r a
    using that nr rt [of r] ts [of r a] d(6) [of r a] by (cases "r = rid") auto
  ultimately show ?thesis using o k by (simp add: block_cache_inv_def p)
qed

section \<open>Releasing\<close>

lemma release_cache_spec:
  assumes i: "block_cache_inv sha U rows c"
  obtains c' where "release_cache rid c = (Inr (), c')" "block_cache_inv sha U rows c'"
    "request_tables (paged c') = (request_tables (paged c))(rid := None)"
    "table_store (paged c') = table_store (paged c)" "inert (paged c) (paged c')"
    "stored c' = (stored c)(rid := None)" "pending c' = (pending c)(rid := None)"
    "prefix_index c' = prefix_index c" "bc_hits c' = bc_hits c" "bc_misses c' = bc_misses c"
    "bc_tokens_saved c' = bc_tokens_saved c"
proof -
  note d = block_cache_invD [OF i]
  obtain m' where m': "delete_block_table rid (paged c) = (Inr (), m')" "owned m'" "inert (paged c) m'"
    "table_store m' = table_store (paged c)" "request_tables m' = (request_tables (paged c))(rid := None)"
    using owned_delete [OF d(1), of rid] by metis
  let ?c = "c\<lparr>pending := (pending c)(rid := None), stored := (stored c)(rid := None), paged := m'\<rparr>"
  have "block_cache_inv sha U rows ?c"
    by (rule block_cache_inv_step [OF i m'(2) kv_ok_inert [OF d(2) m'(3)] others_eq [OF m'(4,5)]])
      (simp_all add: m'(5))
  moreover have "release_cache rid c = (Inr (), ?c)" by (simp add: release_cache_def on_paged_def m'(1))
  ultimately show ?thesis using that m' by simp
qed

section \<open>Acquiring and fetching\<close>

lemma acquire_loop_spec:
  "owned m \<Longrightarrow> request_tables m rid = Some a \<Longrightarrow> \<forall>b\<in>set bs. held m b \<Longrightarrow>
   \<exists>m'. acquire_loop a bs m = (Inr (), m') \<and> owned m' \<and> inert m m' \<and> allocated_blocks m' = allocated_blocks m \<and>
     request_tables m' = request_tables m \<and> others rid m m' \<and>
     table_store m' a = (table_store m a)\<lparr>block_ids := block_ids (table_store m a) @ bs,
       num_tokens := num_tokens (table_store m a) + sum_list (map (\<lambda>b. token_count (heap m b)) bs)\<rparr>"
proof (induction bs arbitrary: m)
  case Nil
  then show ?case by (intro exI [of _ m]) simp
next
  case (Cons b bs)
  obtain v m1 where inc: "increment_ref b m = (v, m1)" by fastforce
  let ?n = "token_count (heap m1 b)"
  let ?m2 = "upd_table a (add_block b ?n) m1"
  have hb: "held m b" using Cons.prems(3) by simp
  note tk = owned_take [OF Cons.prems(1,2) hb inc]
  note te = tk(4) [unfolded tables_eq_def]
  have tc: "token_count (heap m1 i) = token_count (heap m i)" for i by (rule inert_content(4) [OF tk(3)])
  have h2: "held ?m2 i = held m i" for i using te by (simp add: held_def tk(5))
  have i2: "inert m ?m2" using tk(3) by (simp add: inert_def)
  have o1: "others rid m m1" using tables_eq_others [OF tk(4)] .
  have r2: "request_tables ?m2 rid = Some a" using Cons.prems(2) te by simp
  have ok1: "tables_ok m1" using ownedD(2) [OF Cons.prems(1)] te by (simp add: tables_ok_def)
  have o2: "others rid m ?m2" using others_trans [OF o1 others_upd [OF ok1]] r2 by simp
  obtain m' where m': "acquire_loop a bs ?m2 = (Inr (), m')" "owned m'" "inert ?m2 m'"
    "allocated_blocks m' = allocated_blocks ?m2" "request_tables m' = request_tables ?m2" "others rid ?m2 m'"
    "table_store m' a = (table_store ?m2 a)\<lparr>block_ids := block_ids (table_store ?m2 a) @ bs,
       num_tokens := num_tokens (table_store ?m2 a) + sum_list (map (\<lambda>b. token_count (heap ?m2 b)) bs)\<rparr>"
    using Cons.IH [OF tk(2) r2] Cons.prems(3) h2 by auto
  have "b \<in> allocated_blocks m1" using hb tk(5) by (simp add: held_def)
  then have "acquire_loop a (b # bs) m = (Inr (), m')" using inc tk(1) m'(1) by simp
  moreover have "table_store m' a = (table_store m a)\<lparr>block_ids := block_ids (table_store m a) @ (b # bs),
       num_tokens := num_tokens (table_store m a) + sum_list (map (\<lambda>b. token_count (heap m b)) (b # bs))\<rparr>"
    unfolding m'(7) using te by (simp add: tc upd_table_def add_block_def)
  ultimately show ?case
    using m' inert_trans [OF i2 m'(3)] others_trans [OF o2 m'(6)] te tk(5) by simp
qed

lemma best_loop_spec:
  assumes u: "universe sha U" and p: "toks \<in> U" and bz: "0 < block_size (paged c)"
  shows "token_bytes (take (j * block_size (paged c)) toks) = Inr hs \<Longrightarrow> ns = [Suc j..<N] \<Longrightarrow>
    (N - 1) * block_size (paged c) \<le> length toks \<Longrightarrow>
    (\<And>x ids. best = Some (x, ids) \<Longrightarrow> (\<exists>n. x = take n toks) \<and> x \<noteq> [] \<and> guard_loop sha (paged c) x [] 0 ids = Inr True) \<Longrightarrow>
    \<exists>r. best_loop sha c toks ns hs best l = Inr r \<and>
      (\<forall>x ids. r = Some (x, ids) \<longrightarrow> (\<exists>n. x = take n toks) \<and> x \<noteq> [] \<and> guard_loop sha (paged c) x [] 0 ids = Inr True)"
proof (induction ns arbitrary: j hs best l)
  case Nil
  then show ?case by auto
next
  case (Cons n ns)
  let ?b = "block_size (paged c)"
  have n: "n = Suc j" and ns: "ns = [Suc n..<N]" and le: "Suc j * ?b \<le> length toks"
    using Cons.prems(2,3) by (auto simp: upt_rec [of "Suc j"] split: if_splits)
      (metis Cons.prems(3) diff_Suc_1 le_trans less_Suc_eq_le mult_le_mono1 Suc_pred less_imp_Suc_add mult_Suc zero_less_Suc)
  have tU: "take k toks \<in> U" for k using u p by (auto simp: universe_def)
  then obtain hs' where hs': "token_bytes (take (n * ?b) toks) = Inr hs'" using u by (fastforce simp: universe_def)
  have "take (j * ?b) toks @ slice toks (n * ?b - ?b) (n * ?b) = take (n * ?b) toks"
    using take_slice [of "j * ?b" "n * ?b" toks] by (simp add: n)
  then have up: "ph_update hs (slice toks (n * ?b - ?b) (n * ?b)) = Inr hs'"
    using ph_update_bytes [OF Cons.prems(1), of "slice toks (n * ?b - ?b) (n * ?b)"] hs' by simp
  note go = Cons.IH [of n hs', OF hs' ns Cons.prems(3)]
  show ?case
  proof (cases "prefix_index c (ph_hexdigest sha hs')")
    case None
    then show ?thesis using go [of best l] Cons.prems(4) up by (simp add: Let_def)
  next
    case (Some e)
    obtain x ids where e: "e = (x, ids)" by fastforce
    have st: "best_loop sha c toks (n # ns) hs best l =
        (if x = take (n * ?b) toks \<and> l < length x then
           (case guard_loop sha (paged c) x [] 0 ids of Inl e \<Rightarrow> Inl e
            | Inr False \<Rightarrow> best_loop sha c toks ns hs' best l
            | Inr True \<Rightarrow> best_loop sha c toks ns hs' (Some (x, ids)) (length x))
         else best_loop sha c toks ns hs' best l)"
      using up Some e by (simp add: Let_def)
    show ?thesis
    proof (cases "x = take (n * ?b) toks \<and> l < length x")
      case False
      show ?thesis unfolding st if_not_P [OF False] by (rule go [of best l, OF Cons.prems(4)])
    next
      case True
      have "\<exists>v. guard_loop sha (paged c) x hs0 k ys = Inr v" if "token_bytes (take k x) = Inr hs0" for hs0 k ys
        using that
      proof (induction ys arbitrary: hs0 k)
        case (Cons y ys)
        let ?k = "k + extent (paged c) y"
        have "take ?k x \<in> U" using tU True by (simp add: take_take)
        then obtain h1 where h1: "token_bytes (take ?k x) = Inr h1" using u by (auto simp: universe_def)
        have "take k x @ slice x k ?k = take ?k x" by (simp add: take_slice)
        then have "ph_update hs0 (slice x k ?k) = Inr h1"
          using ph_update_bytes [OF Cons.prems, of "slice x k ?k"] h1 by simp
        then show ?case using Cons.IH [OF h1] by (auto simp: Let_def)
      qed simp
      then obtain v where v: "guard_loop sha (paged c) x [] 0 ids = Inr v" by fastforce
      show ?thesis
      proof (cases v)
        case False
        then show ?thesis unfolding st if_P [OF True] v using go [of best l, OF Cons.prems(4)] by simp
      next
        case gt: True
        have "x \<noteq> []" using True bz n by auto
        then have "\<exists>r. best_loop sha c toks ns hs' (Some (x, ids)) (length x) = Inr r \<and>
            (\<forall>x ids. r = Some (x, ids) \<longrightarrow> (\<exists>n. x = take n toks) \<and> x \<noteq> [] \<and> guard_loop sha (paged c) x [] 0 ids = Inr True)"
          using True v gt bz n by (intro go) auto
        then show ?thesis unfolding st if_P [OF True] v using gt by simp
      qed
    qed
  qed
qed

lemma find_best_spec:
  assumes "universe sha U" and "toks \<in> U" and "0 < block_size (paged c)"
  obtains r where "find_best_prefix_match sha toks c = Inr r"
    "\<And>x ids. r = Some (x, ids) \<Longrightarrow> (\<exists>n. x = take n toks) \<and> x \<noteq> [] \<and> guard_loop sha (paged c) x [] 0 ids = Inr True"
proof -
  let ?N = "length toks div block_size (paged c) + 1"
  have "\<exists>r. best_loop sha c toks [Suc 0..<?N] [] None 0 = Inr r \<and> (\<forall>x ids. r = Some (x, ids) \<longrightarrow>
      (\<exists>n. x = take n toks) \<and> x \<noteq> [] \<and> guard_loop sha (paged c) x [] 0 ids = Inr True)"
    by (rule best_loop_spec [OF assms, of 0 "[]" "[Suc 0..<?N]" ?N]) simp_all
  then show ?thesis using that assms(3) by (auto simp: find_best_prefix_match_def)
qed

lemma spells_tokens:
  "spells rows m toks e bs \<Longrightarrow> sum_list (map (\<lambda>b. token_count (heap m b)) bs) = int (sum_list (map (extent m) bs))"
  by (induction bs arbitrary: e) auto

lemma spells_extents: "spells rows m toks e bs \<Longrightarrow> 0 \<notin> set (map (extent m) bs)"
  by (induction bs arbitrary: e) auto

lemma spells_pos: "spells rows m toks e bs \<Longrightarrow> bs \<noteq> [] \<Longrightarrow> 0 < sum_list (map (extent m) bs)"
  by (cases bs) auto

text \<open>The blocks the two lookups propose spell a prefix of the request.\<close>

lemma candidate_spells:
  assumes u: "universe sha U" and p: "toks \<in> U" and i: "block_cache_inv sha U rows c"
  obtains bs m1 ids where
    "find_shared_prefix sha toks False (paged c) = (Inr (bs, drop (length bs * block_size (paged c)) toks), m1)"
    "same_but_stats (paged c) m1" "paged_inv m1"
    "(if bs \<noteq> [] then Inr (Some (toks, bs)) else find_best_prefix_match sha toks (c\<lparr>paged := m1\<rparr>)) = Inr ids"
    "\<And>x ys. ids = Some (x, ys) \<Longrightarrow> spells rows m1 toks 0 ys"
    "\<And>k. 0 < k \<Longrightarrow> k * block_size (paged c) \<le> length toks \<Longrightarrow> \<forall>j<k. \<exists>b. serves sha (paged c) toks j b \<Longrightarrow>
       \<exists>x ys. ids = Some (x, ys) \<and> k * block_size (paged c) \<le> sum_list (map (extent m1) ys)"
proof -
  note d = block_cache_invD [OF i]
  have bz: "0 < block_size (paged c)" by (rule kv_okD(2) [OF d(2)])
  obtain tb where tb: "token_bytes toks = Inr tb" using u p by (auto simp: universe_def)
  obtain bs m1 where f: "find_shared_prefix sha toks False (paged c) = (Inr (bs, drop (length bs * block_size (paged c)) toks), m1)"
    and le: "length bs * block_size (paged c) \<le> length toks"
    and sv: "\<forall>k<length bs. serves sha (paged c) toks k (bs ! k)"
    and mx: "length toks - length bs * block_size (paged c) < block_size (paged c) \<or> (\<forall>b. \<not> serves sha (paged c) toks (length bs) b)"
    using find_shared_prefix_longest [OF bz tb, of sha False] by blast
  have sm: "same_but_stats (paged c) m1" by (rule find_shared_same [OF d(2) f])
  have i1: "paged_inv m1" using find_shared_prefix_hard [of "paged c" sha toks False] hard_eq_paged_inv [OF d(3)] f by simp
  have k1: "kv_ok sha U rows m1" using kv_ok_inert [OF d(2)] sm by (simp add: same_but_stats_def)
  have bz1: "block_size m1 = block_size (paged c)" using sm by (simp add: same_but_stats_def inert_def)
  have sp: "spells rows m1 toks 0 bs \<and> map (extent m1) bs = replicate (length bs) (block_size m1)"
    using serves_spells [OF u k1 p, of bs 0] sv le by (simp add: same_serves [OF sm] bz1)
  have big: "k \<le> length bs"
    if k: "k * block_size (paged c) \<le> length toks" "\<forall>j<k. \<exists>b. serves sha (paged c) toks j b" for k
  proof (rule ccontr)
    assume "\<not> k \<le> length bs"
    then have l: "length bs < k" by simp
    then have "Suc (length bs) * block_size (paged c) \<le> k * block_size (paged c)" by (intro mult_le_mono1) simp
    then show False using l k mx by auto
  qed
  show ?thesis
  proof (cases "bs = []")
    case False
    show ?thesis
    proof (rule that [OF f sm i1, of "Some (toks, bs)"])
      fix k :: nat
      assume "0 < k" "k * block_size (paged c) \<le> length toks" "\<forall>j<k. \<exists>b. serves sha (paged c) toks j b"
      then have "k * block_size (paged c) \<le> length bs * block_size (paged c)" using big by simp
      moreover have "sum_list (map (extent m1) bs) = length bs * block_size (paged c)"
        using sp bz1 by (simp add: sum_list_replicate)
      ultimately show "\<exists>x ys. Some (toks, bs) = Some (x, ys) \<and> k * block_size (paged c) \<le> sum_list (map (extent m1) ys)"
        by auto
    qed (use False sp in auto)
  next
    case True
    have bz2: "0 < block_size (paged (c\<lparr>paged := m1\<rparr>))" using bz bz1 by simp
    obtain r where r: "find_best_prefix_match sha toks (c\<lparr>paged := m1\<rparr>) = Inr r"
      "\<And>x ids. r = Some (x, ids) \<Longrightarrow> (\<exists>n. x = take n toks) \<and> x \<noteq> [] \<and>
         guard_loop sha (paged (c\<lparr>paged := m1\<rparr>)) x [] 0 ids = Inr True"
      using find_best_spec [OF u p bz2] by metis
    show ?thesis
    proof (rule that [OF f sm i1, of r])
      fix x ys
      assume "r = Some (x, ys)"
      from r(2) [OF this] obtain n where n: "x = take n toks" "guard_loop sha m1 x [] 0 ys = Inr True" by auto
      have "x \<in> U" using u p n(1) by (auto simp: universe_def)
      from guard_spells [OF u i1 k1 this n(2)] have "spells rows m1 x 0 ys" by simp
      then show "spells rows m1 toks 0 ys" unfolding n(1) by (rule spells_take)
    next
      fix k :: nat
      assume "0 < k" "k * block_size (paged c) \<le> length toks" "\<forall>j<k. \<exists>b. serves sha (paged c) toks j b"
      then have False using big True by auto
      then show "\<exists>x ys. r = Some (x, ys) \<and> k * block_size (paged c) \<le> sum_list (map (extent m1) ys)" ..
    qed (use True r in auto)
  qed
qed

lemma acquire_candidate_spec:
  assumes u: "universe sha U" and p: "toks \<in> U" and i: "block_cache_inv sha U rows c"
    and n: "request_tables (paged c) rid = None"
  obtains r m where "acquire_candidate_blocks sha rid toks c = (Inr r, c\<lparr>paged := m\<rparr>)"
    "owned m" "inert (paged c) m" "others rid (paged c) m"
    "r = None \<Longrightarrow> request_tables m rid = None"
    "\<And>a rest. r = Some (a, rest) \<Longrightarrow> request_tables m rid = Some a \<and> request_id (table_store m a) = rid \<and>
       block_ids (table_store m a) \<noteq> [] \<and> spells rows m toks 0 (block_ids (table_store m a)) \<and>
       num_tokens (table_store m a) = int (sum_list (map (extent m) (block_ids (table_store m a)))) \<and>
       rest = drop (sum_list (map (extent m) (block_ids (table_store m a)))) toks"
    "\<And>k. 0 < k \<Longrightarrow> k * block_size (paged c) \<le> length toks \<Longrightarrow> \<forall>j<k. \<exists>b. serves sha (paged c) toks j b \<Longrightarrow>
       \<exists>a rest. r = Some (a, rest) \<and> k * block_size (paged c) \<le> sum_list (map (extent m) (block_ids (table_store m a)))"
proof -
  note d = block_cache_invD [OF i]
  obtain bs m1 ids where f:
    "find_shared_prefix sha toks False (paged c) = (Inr (bs, drop (length bs * block_size (paged c)) toks), m1)"
    "same_but_stats (paged c) m1" "paged_inv m1"
    "(if bs \<noteq> [] then Inr (Some (toks, bs)) else find_best_prefix_match sha toks (c\<lparr>paged := m1\<rparr>)) = Inr ids"
    and sp: "\<And>x ys. ids = Some (x, ys) \<Longrightarrow> spells rows m1 toks 0 ys"
    and lg: "\<And>k. 0 < k \<Longrightarrow> k * block_size (paged c) \<le> length toks \<Longrightarrow> \<forall>j<k. \<exists>b. serves sha (paged c) toks j b \<Longrightarrow>
       \<exists>x ys. ids = Some (x, ys) \<and> k * block_size (paged c) \<le> sum_list (map (extent m1) ys)"
    using candidate_spells [OF u p i] by blast
  have o1: "owned m1" by (rule owned_same [OF d(1) f(2,3)])
  have in1: "inert (paged c) m1" and te: "tables_eq (paged c) m1" using f(2) by (simp_all add: same_but_stats_def)
  have ot1: "others rid (paged c) m1" by (rule tables_eq_others [OF te])
  have n1: "request_tables m1 rid = None" using n te by (simp add: tables_eq_def)
  have on: "on_paged (find_shared_prefix sha toks False) c =
      (Inr (bs, drop (length bs * block_size (paged c)) toks), c\<lparr>paged := m1\<rparr>)" by (simp add: on_paged_def f(1))
  show ?thesis
  proof (cases "\<exists>x ys. ids = Some (x, ys) \<and> ys \<noteq> []")
    case False
    then have "acquire_candidate_blocks sha rid toks c = (Inr None, c\<lparr>paged := m1\<rparr>)"
      unfolding acquire_candidate_blocks_def on using f(4) by (cases ids) (auto split: if_splits)
    then show ?thesis
    proof (rule that [OF _ o1 in1 ot1])
      fix k :: nat
      assume k: "0 < k" "k * block_size (paged c) \<le> length toks" "\<forall>j<k. \<exists>b. serves sha (paged c) toks j b"
      obtain x ys where "ids = Some (x, ys)" "k * block_size (paged c) \<le> sum_list (map (extent m1) ys)" using lg [OF k] by blast
      moreover have "0 < k * block_size (paged c)" using k(1) kv_okD(2) [OF d(2)] by simp
      ultimately have "ys \<noteq> []" by auto
      then show "\<exists>a rest. None = Some (a, rest) \<and>
          k * block_size (paged c) \<le> sum_list (map (extent m1) (block_ids (table_store m1 a)))"
        using False \<open>ids = Some (x, ys)\<close> by blast
    qed (simp_all add: n1)
  next
    case True
    then obtain x ys where ids: "ids = Some (x, ys)" "ys \<noteq> []" by blast
    obtain a m2 where m2: "create_block_table rid m1 = (Inr a, m2)" "owned m2" "inert m1 m2"
      "request_tables m2 = (request_tables m1)(rid \<mapsto> a)" "table_store m2 = (table_store m1)(a := new_table rid)"
      "heap m2 = heap m1 \<and> allocated_blocks m2 = allocated_blocks m1"
      using owned_create [OF o1, of rid] n1 by metis
    have h2: "held m2 b = held m1 b" for b using m2(6) inert_fields(5) [OF m2(3)] by (simp add: held_def)
    have s1: "spells rows m1 toks 0 ys" using sp ids by simp
    have s2: "spells rows m2 toks 0 ys" by (rule spells_cong [OF _ s1]) (simp add: h2 m2(6))
    have ot2: "others rid m1 m2" by (rule others_create [OF ownedD(2) [OF m2(2)] m2(4,5)])
    have r2: "request_tables m2 rid = Some a" by (simp add: m2(4))
    obtain m3 where m3: "acquire_loop a ys m2 = (Inr (), m3)" "owned m3" "inert m2 m3"
      "allocated_blocks m3 = allocated_blocks m2" "request_tables m3 = request_tables m2" "others rid m2 m3"
      "table_store m3 a = (table_store m2 a)\<lparr>block_ids := block_ids (table_store m2 a) @ ys,
         num_tokens := num_tokens (table_store m2 a) + sum_list (map (\<lambda>b. token_count (heap m2 b)) ys)\<rparr>"
      using acquire_loop_spec [OF m2(2) r2, of ys] spells_held [OF s2] by blast
    have tc: "extent m3 = extent m1" "extent m2 = extent m3" using inert_content(4) [OF m3(3)] m2(6) by simp_all
    have h3: "held m3 b = held m2 b" for b using inert_fields(5) [OF m3(3)] by (simp add: held_def m3(4))
    have "content (heap m3 b) = content (heap m2 b)" for b using m3(3) by (simp add: inert_def)
    then have s3: "spells rows m3 toks 0 ys" by (intro spells_cong [OF _ s2]) (simp add: h3)
    have t3: "block_ids (table_store m3 a) = ys" "request_id (table_store m3 a) = rid"
      "num_tokens (table_store m3 a) = int (sum_list (map (extent m3) ys))"
      unfolding m3(7) spells_tokens [OF s2] tc(2) by (simp_all add: m2(5) new_table_def)
    have "acquire_candidate_blocks sha rid toks c =
        (Inr (Some (a, drop (sum_list (map (extent m3) ys)) toks)), c\<lparr>paged := m3\<rparr>)"
      unfolding acquire_candidate_blocks_def on using f(4) ids m2(1) m3(1) t3
      by (simp add: on_paged_def)
    then show ?thesis
    proof (rule that [OF _ m3(2)])
      show "inert (paged c) m3" using inert_trans [OF inert_trans [OF in1 m2(3)] m3(3)] .
      show "others rid (paged c) m3" using others_trans [OF others_trans [OF ot1 ot2] m3(6)] .
      fix k :: nat
      assume k: "0 < k" "k * block_size (paged c) \<le> length toks" "\<forall>j<k. \<exists>b. serves sha (paged c) toks j b"
      show "\<exists>aa rest. Some (a, drop (sum_list (map (extent m3) ys)) toks) = Some (aa, rest) \<and>
          k * block_size (paged c) \<le> sum_list (map (extent m3) (block_ids (table_store m3 aa)))"
        using lg [OF k] ids(1) unfolding tc(1) by (auto simp: t3(1))
    qed (use t3 s3 ids(2) r2 m3(5) in auto)
  qed
qed

lemma fresh_request:
  assumes i: "block_cache_inv sha U rows c"
  obtains c1 where "(if stored c rid \<noteq> None \<or> pending c rid \<noteq> None \<or> get_block_table rid (paged c) \<noteq> None
      then release_cache rid c else (Inr (), c)) = (Inr (), c1)" "block_cache_inv sha U rows c1"
    "request_tables (paged c1) = (request_tables (paged c))(rid := None)"
    "table_store (paged c1) = table_store (paged c)" "inert (paged c) (paged c1)"
    "stored c1 = (stored c)(rid := None)" "pending c1 = (pending c)(rid := None)"
    "prefix_index c1 = prefix_index c" "bc_hits c1 = bc_hits c" "bc_misses c1 = bc_misses c"
    "bc_tokens_saved c1 = bc_tokens_saved c"
    "request_tables (paged c) rid = None \<Longrightarrow> c1 = c"
proof (cases "request_tables (paged c) rid = None")
  case True
  then have "stored c rid = None" "pending c rid = None"
    using block_cache_invD(4,5) [OF i] by (metis option.exhaust)+
  then show ?thesis using that [of c] True i by (simp add: get_block_table_def fun_upd_idem)
next
  case False
  obtain c1 where "release_cache rid c = (Inr (), c1)" "block_cache_inv sha U rows c1"
    "request_tables (paged c1) = (request_tables (paged c))(rid := None)"
    "table_store (paged c1) = table_store (paged c)" "inert (paged c) (paged c1)"
    "stored c1 = (stored c)(rid := None)" "pending c1 = (pending c)(rid := None)"
    "prefix_index c1 = prefix_index c" "bc_hits c1 = bc_hits c" "bc_misses c1 = bc_misses c"
    "bc_tokens_saved c1 = bc_tokens_saved c" using release_cache_spec [OF i] by blast
  then show ?thesis using that [of c1] False by (simp add: get_block_table_def)
qed

lemma inert_count: "inert m (upd_stats f m)" "others rid m (upd_stats f m)" "inert m (miss m)" "others rid m (miss m)"
  by (simp_all add: inert_def others_def miss_def)

lemma owned_stats:
  assumes "owned m"
  shows "owned (upd_stats (\<lambda>st. st\<lparr>cache_hits := f st\<rparr>) m)" "owned (upd_stats (\<lambda>st. st\<lparr>cache_misses := f st\<rparr>) m)"
  by (rule owned_hard [OF assms], simp_all add: hard_eq_def)+

lemma spells_same: "heap m' = heap m \<Longrightarrow> (\<And>b. held m' b = held m b) \<Longrightarrow> spells rows m' toks e bs = spells rows m toks e bs"
  by (induction bs arbitrary: e) simp_all

lemma fetch_cache_spec:
  assumes u: "universe sha U" and p: "toks \<in> U" "toks \<noteq> []" and i: "block_cache_inv sha U rows c"
  obtains (missed) c' where "fetch_cache sha ops rid toks c = (Inr (None, toks), c')" "block_cache_inv sha U rows c'"
      "request_tables (paged c') = (request_tables (paged c))(rid := None)"
      "others rid (paged c) (paged c')" "inert (paged c) (paged c')" "stored c' = (stored c)(rid := None)"
      "pending c' = (pending c)(rid := None)" "prefix_index c' = prefix_index c" "bc_hits c' = bc_hits c"
      "bc_misses c' = bc_misses c + 1" "bc_tokens_saved c' = bc_tokens_saved c"
    | (found) a ns caches c' where "fetch_cache sha ops rid toks c = (Inr (Some a, drop (sum_list ns) toks), c')"
      "block_cache_inv sha U rows c'" "request_tables (paged c') = (request_tables (paged c))(rid \<mapsto> a)"
      "others rid (paged c) (paged c')" "inert (paged c) (paged c')" "request_id (table_store (paged c') a) = rid"
      "num_tokens (table_store (paged c') a) = int (sum_list ns)" "0 < sum_list ns" "sum_list ns \<le> length toks"
      "0 \<notin> set ns" "rebuild_layers ops (span_rows rows toks 0 ns) = Some caches" "has_mlx ops"
      "pending c' = (pending c)(rid \<mapsto> caches)" "stored c' = (stored c)(rid := None)" "prefix_index c' = prefix_index c"
      "bc_hits c' = bc_hits c + 1" "bc_misses c' = bc_misses c" "bc_tokens_saved c' = bc_tokens_saved c + int (sum_list ns)"
proof -
  obtain c1 where c1: "(if stored c rid \<noteq> None \<or> pending c rid \<noteq> None \<or> get_block_table rid (paged c) \<noteq> None
      then release_cache rid c else (Inr (), c)) = (Inr (), c1)" "block_cache_inv sha U rows c1"
    "request_tables (paged c1) = (request_tables (paged c))(rid := None)"
    "table_store (paged c1) = table_store (paged c)" "inert (paged c) (paged c1)"
    "stored c1 = (stored c)(rid := None)" "pending c1 = (pending c)(rid := None)"
    "prefix_index c1 = prefix_index c" "bc_hits c1 = bc_hits c" "bc_misses c1 = bc_misses c"
    "bc_tokens_saved c1 = bc_tokens_saved c" using fresh_request [OF i, of rid] by metis
  have n1: "request_tables (paged c1) rid = None" by (simp add: c1(3))
  have ot1: "others rid (paged c) (paged c1)" by (rule others_eq [OF c1(4,3)])
  note d1 = block_cache_invD [OF c1(2)]
  obtain r m where ac: "acquire_candidate_blocks sha rid toks c1 = (Inr r, c1\<lparr>paged := m\<rparr>)"
    and om: "owned m" and im: "inert (paged c1) m" and ot: "others rid (paged c1) m"
    and rn: "r = None \<Longrightarrow> request_tables m rid = None"
    and rs: "\<And>a rest. r = Some (a, rest) \<Longrightarrow> request_tables m rid = Some a \<and> request_id (table_store m a) = rid \<and>
       block_ids (table_store m a) \<noteq> [] \<and> spells rows m toks 0 (block_ids (table_store m a)) \<and>
       num_tokens (table_store m a) = int (sum_list (map (extent m) (block_ids (table_store m a)))) \<and>
       rest = drop (sum_list (map (extent m) (block_ids (table_store m a)))) toks"
    by (rule acquire_candidate_spec [OF u p(1) c1(2) n1]) blast
  have km: "kv_ok sha U rows m" using kv_ok_inert [OF d1(2) im] .
  have in0: "inert (paged c) m" using inert_trans [OF c1(5) im] .
  have ot0: "others rid (paged c) m" using others_trans [OF ot1 ot] .
  have miss: ?thesis
    if f: "fetch_cache sha ops rid toks c = (Inr (None, toks), count_fetch_miss (c1\<lparr>paged := k\<rparr>))"
      and k: "owned k" "inert m k" "others rid m k" "request_tables k rid = None" for k
  proof -
    let ?c = "count_fetch_miss (c1\<lparr>paged := k\<rparr>)"
    have pc: "paged ?c = miss k" by (simp add: count_fetch_miss_def)
    have o: "owned (miss k)" unfolding miss_def by (rule owned_stats(2) [OF k(1)])
    have ik: "inert m (miss k)" using inert_trans [OF k(2) inert_count(3)] .
    have otk: "others rid (paged c1) (miss k)" using others_trans [OF ot others_trans [OF k(3) inert_count(4)]] .
    have rk: "request_tables (miss k) rid = None" using k(4) by (simp add: miss_def)
    have inv: "block_cache_inv sha U rows ?c"
      by (rule block_cache_inv_step [OF c1(2) o kv_ok_inert [OF km ik] otk pc])
        (use rk in \<open>simp_all add: count_fetch_miss_def c1(6,7)\<close>)
    have "request_tables (miss k) r = ((request_tables (paged c))(rid := None)) r" for r
      using rk otk c1(3) by (cases "r = rid") (simp_all add: others_def)
    then have rt: "request_tables (paged ?c) = (request_tables (paged c))(rid := None)" unfolding pc by (rule ext)
    show ?thesis
    proof (rule missed [OF f inv rt])
      show "others rid (paged c) (paged ?c)" unfolding pc using others_trans [OF ot1 otk] .
      show "inert (paged c) (paged ?c)" unfolding pc using inert_trans [OF in0 ik] .
    qed (simp_all add: count_fetch_miss_def c1)
  qed
  have fe: "fetch_cache sha ops rid toks c = obind (acquire_candidate_blocks sha rid toks c1) (\<lambda>candidate c2.
          case candidate of
            None \<Rightarrow> (Inr (None, toks), count_fetch_miss c2)
          | Some (a, remaining) \<Rightarrow>
              let t = table_store (paged c2) a in
              (case reconstruct_from_table ops t (paged c2) of
                 None \<Rightarrow> obind (on_paged (delete_block_table rid) c2)
                   (\<lambda>_ c3. (Inr (None, toks), count_fetch_miss c3))
               | Some caches \<Rightarrow>
                   let c3 = count_fetch_hit t c2
                   in (Inr (Some a, remaining), c3\<lparr>pending := (pending c3)(rid \<mapsto> caches)\<rparr>)))"
    unfolding fetch_cache_def c1(1) using p(2) by simp
  show ?thesis
  proof (cases r)
    case None
    show ?thesis by (rule miss [of m]) (use None rn om in \<open>simp_all add: fe ac\<close>)
  next
    case (Some x)
    obtain a rest where r: "r = Some (a, rest)" using Some by (cases x) simp
    let ?t = "table_store m a"
    let ?ns = "map (extent m) (block_ids ?t)"
    have t: "request_tables m rid = Some a" "request_id ?t = rid" "block_ids ?t \<noteq> []" "spells rows m toks 0 (block_ids ?t)"
      "num_tokens ?t = int (sum_list ?ns)" "rest = drop (sum_list ?ns) toks" using rs [OF r] by simp_all
    show ?thesis
    proof (cases "reconstruct_from_table ops ?t m")
      case None
      obtain k where k: "delete_block_table rid m = (Inr (), k)" "owned k" "inert m k" "table_store k = table_store m"
        "request_tables k = (request_tables m)(rid := None)" using owned_delete [OF om, of rid] by metis
      show ?thesis
        by (rule miss [OF _ k(2,3) others_eq [OF k(4,5)]]) (simp_all add: fe ac r None on_paged_def k(1,5))
    next
      case (Some caches)
      let ?m = "upd_stats (\<lambda>st. st\<lparr>cache_hits := cache_hits st + int (length (block_ids ?t))\<rparr>) m"
      let ?c2 = "count_fetch_hit ?t (c1\<lparr>paged := m\<rparr>)"
      let ?c = "?c2\<lparr>pending := (pending ?c2)(rid \<mapsto> caches)\<rparr>"
      have f: "fetch_cache sha ops rid toks c = (Inr (Some a, drop (sum_list ?ns) toks), ?c)"
        by (simp add: fe ac r Some t(6) Let_def)
      have pc: "paged ?c = ?m" by (simp add: count_fetch_hit_def)
      have o: "owned ?m" by (rule owned_stats(1) [OF om])
      have i2: "inert m ?m" "others rid m ?m" by (rule inert_count)+
      have inv: "block_cache_inv sha U rows ?c"
        by (rule block_cache_inv_step [OF c1(2) o kv_ok_inert [OF km i2(1)] others_trans [OF ot i2(2)] pc])
          (use t in \<open>simp_all add: count_fetch_hit_def c1(6)\<close>)
      have "request_tables ?m r = ((request_tables (paged c))(rid \<mapsto> a)) r" for r
        using t(1) ot c1(3) by (cases "r = rid") (simp_all add: others_def)
      then have rt: "request_tables (paged ?c) = (request_tables (paged c))(rid \<mapsto> a)" unfolding pc by (rule ext)
      have rb: "has_mlx ops" "rebuild_layers ops (span_rows rows toks 0 ?ns) = Some caches"
        using Some t(3) collect_spells [OF t(4)] by (auto simp: reconstruct_from_table_def split: if_splits)
      have pos: "0 \<notin> set ?ns" by (rule spells_extents [OF t(4)])
      show ?thesis
      proof (rule found [OF f inv rt])
        show "others rid (paged c) (paged ?c)" unfolding pc using others_trans [OF ot0 i2(2)] .
        show "inert (paged c) (paged ?c)" unfolding pc using inert_trans [OF in0 i2(1)] .
        show "sum_list ?ns \<le> length toks" using spells_bound [OF t(4)] by simp
        show "0 < sum_list ?ns" by (rule spells_pos [OF t(4,3)])
      qed (use t rb pos in \<open>simp_all add: count_fetch_hit_def c1\<close>)
    qed
  qed
qed

end
