(* ===== verification/BlockStore.thy ===== *)
theory BlockStore
  imports BlockCacheInv
begin

text \<open>
  \<open>store_cache\<close>: the loop over the new blocks, which reuses a block of the same identity or fills a new
  one, keeps the invariant and leaves the identity index able to serve every full block it stored.
\<close>

section \<open>One block\<close>

text \<open>The block from token \<open>e\<close> up to \<open>e'\<close> of \<open>toks\<close> was added to the table.\<close>

definition added :: "(bytes \<Rightarrow> digest) \<Rightarrow> int list set \<Rightarrow> 't kv_rows \<Rightarrow> string \<Rightarrow> taddr \<Rightarrow> int list \<Rightarrow> nat \<Rightarrow> nat \<Rightarrow>
    't manager \<Rightarrow> bid \<Rightarrow> 't manager \<Rightarrow> bool" where
  "added sha U rows rid a toks e e' m b m' \<longleftrightarrow> owned m' \<and> kv_ok sha U rows m' \<and>
     request_tables m' = request_tables m \<and> others rid m m' \<and> calm m m' \<and>
     table_store m' a = add_block b (int (e' - e)) (table_store m a) \<and>
     (e' - e = block_size m \<longrightarrow> hash_to_block m' (identity sha (take e' toks)) = Some b \<and> b \<in> allocated_blocks m' \<and>
        hash_value (heap m' b) = Some (identity sha (take e' toks)) \<and> token_count (heap m' b) = int (block_size m))"

lemma tables_eqD:
  assumes "tables_eq m m'"
  shows "table_store m' = table_store m" "next_table m' = next_table m" "request_tables m' = request_tables m"
    "max_blocks m' = max_blocks m" "block_size m' = block_size m" "enable_caching m' = enable_caching m"
    "null_block m' = null_block m"
  using assms by (simp_all add: tables_eq_def)

lemma add_reused:
  assumes u: "universe sha U" and p: "take e' toks \<in> U" and o: "owned m" and k: "kv_ok sha U rows m"
    and r: "request_tables m rid = Some a"
    and f: "find_cached_block_by_hash (identity sha (take e' toks)) False m = (Some b, m1)"
  shows "added sha U rows rid a toks e e' m b (upd_table a (add_block b (int (e' - e))) (snd (increment_ref b m1)))"
proof -
  let ?h = "identity sha (take e' toks)"
  obtain v m2 where inc: "increment_ref b m1 = (v, m2)" by fastforce
  have s1: "same_but_stats m m1" by (rule find_by_hash_same [OF k f])
  have i1: "paged_inv m1" using hard_eq_paged_inv [OF ownedD(1) [OF o] find_by_hash_hard [OF f]] .
  have o1: "owned m1" by (rule owned_same [OF o s1 i1])
  note s = s1 [unfolded same_but_stats_def]
  have te1: "tables_eq m m1" and in1: "inert m m1" and al1: "allocated_blocks m1 = allocated_blocks m" using s by auto
  have b: "hash_to_block m ?h = Some b" "b \<in> allocated_blocks m" "hash_value (heap m b) = Some ?h"
    using find_by_hash_result [OF f, of b] by auto
  have ba: "b \<in> all_blocks m" "token_count (heap m b) = int (block_size m)" using kv_okD(5) [OF k b(1)] by auto
  have "b \<noteq> null_block m" by (rule describes_identity(5) [OF u k ba(1) b(3) p])
  then have hb: "held m1 b" using b(2) al1 tables_eqD(7) [OF te1] by (simp add: held_def)
  have r1: "request_tables m1 rid = Some a" using r tables_eqD(3) [OF te1] by simp
  note tk = owned_take [OF o1 r1 hb inc]
  have te: "tables_eq m m2" using tables_eq_trans [OF te1 tk(4)] .
  have inn: "inert m m2" using inert_trans [OF in1 tk(3)] .
  let ?m = "upd_table a (add_block b (int (e' - e))) m2"
  have iu: "inert m ?m" using inn by (simp add: inert_def)
  have al: "allocated_blocks ?m = allocated_blocks m" by (simp add: tk(5) al1)
  have "others rid m2 ?m"
    using r tables_eqD(3) [OF te] tables_ok_def ownedD(2) [OF o1] tables_eqD(2,3) [OF tk(4)]
    by (intro others_upd) (simp_all add: tables_ok_def tables_eqD(3) [OF te1])
  then have "others rid m ?m" using others_trans [OF tables_eq_others [OF te]] by blast
  moreover have "calm m ?m" using al by (intro inert_calm [OF iu]) simp
  ultimately show ?thesis
    using tk(2) kv_ok_inert [OF k iu] tables_eqD [OF te] b ba al inert_fields(1) [OF iu] inert_content(2,4) [OF iu, of b]
    by (simp add: added_def inc upd_table_def)
qed

lemma add_new:
  assumes u: "universe sha U" and p: "take e' toks \<in> U" "e < e'" "e' \<le> length toks" and o: "owned m"
    and k: "kv_ok sha U rows m" and r: "request_tables m rid = Some a"
    and f: "(if e' - e = block_size m then find_cached_block_by_hash (identity sha (take e' toks)) False m
        else (None, m)) = (None, m1)"
    and al: "allocate_block m1 = (Inr (Some b), m2)"
  shows "added sha U rows rid a toks e e' m b
     (fill_block a ''KVCache'' (rows (take e' toks) (e' - e)) (e' - e) (identity sha (take e' toks)) b m2)"
proof -
  let ?h = "identity sha (take e' toks)" and ?n = "e' - e"
  define M where "M = fill_block a ''KVCache'' (rows (take e' toks) ?n) ?n ?h b m2"
  have s1: "same_but_stats m m1" "paged_inv m1"
    using f find_by_hash_same [OF k, of ?h None m1] hard_eq_paged_inv [OF ownedD(1) [OF o] find_by_hash_hard, of ?h False None m1]
      ownedD(1) [OF o] by (auto split: if_splits)
  have o1: "owned m1" by (rule owned_same [OF o s1])
  note s = s1(1) [unfolded same_but_stats_def]
  have te1: "tables_eq m m1" and in1: "inert m m1" and al1: "allocated_blocks m1 = allocated_blocks m" using s by auto
  have k1: "kv_ok sha U rows m1" by (rule kv_ok_inert [OF k in1])
  note ak = allocate_kv [OF s1(2) k1 al]
  have r1: "request_tables m1 rid = Some a" using r tables_eqD(3) [OF te1] by simp
  note oa = owned_allocate(1) [OF o1 r1 al, of "int ?n"] owned_allocate(2) [OF o1 r1 al]
  have te: "tables_eq m m2" using tables_eq_trans [OF te1 ak(7)] .
  have bz: "block_size m2 = block_size m" "max_blocks m2 = max_blocks m" using tables_eqD [OF te] by simp_all
  have fl: "request_tables M = request_tables m2" "next_table M = next_table m2" "allocated_blocks M = allocated_blocks m2"
    "table_store M = (table_store m2)(a := add_block b (int ?n) (table_store m2 a))"
    by (simp_all add: M_def fill_block_def Let_def register_block_hash_value_def upd_table_def)
  have he: "hard_eq (upd_table a (add_block b (int ?n)) m2) M"
    by (simp add: hard_eq_def hard_def M_def fill_block_def Let_def register_block_hash_value_def)
  have own: "owned M"
    by (rule owned_hard [OF oa(1) he]) (simp_all add: fl(1,2,4) upd_table_def)
  have nb: "b \<noteq> null_block m2" using oa(2) by (simp add: held_def)
  have "b \<in> all_blocks m2" using ak(5) tables_eqD(4) [OF ak(7)] by (simp add: all_blocks_def)
  then have kv: "kv_ok sha U rows M"
    using fill_block_kv [OF ak(1) _ nb ak(3,4) p(1), of ?n a] p(2,3) by (simp add: M_def)
  have new: "?n = block_size m2 \<Longrightarrow> \<forall>x. hash_to_block m1 ?h = Some x \<longrightarrow> x \<notin> allocated_blocks m1"
  proof (intro allI impI notI)
    fix x
    assume n: "?n = block_size m2" and x: "hash_to_block m1 ?h = Some x" "x \<in> allocated_blocks m1"
    have f1: "find_cached_block_by_hash ?h False m = (None, m1)" using f n bz by simp
    have "hash_to_block m ?h = Some x" using x(1) inert_fields(1) [OF in1] by simp
    then show False
      using find_by_hash_result [OF f1, of x] x(2) al1 kv_okD(5) [OF k, of ?h x] by simp
  qed
  have c: "calm m M"
    using calm_trans [OF inert_calm [OF in1] fill_block_calm [OF ak(6,2) new]] al1 by (simp add: M_def)
  have "others rid m2 (upd_table a (add_block b (int ?n)) m2)"
    using r tables_eqD(2,3) [OF te] ownedD(2) [OF o] by (intro others_upd) (simp_all add: tables_ok_def)
  then have "others rid m2 M" by (simp add: others_def fl(1,4) upd_table_def)
  then have ot: "others rid m M" using others_trans [OF tables_eq_others [OF te]] by blast
  have "?n = block_size m \<Longrightarrow> hash_to_block M ?h = Some b"
    by (simp add: M_def fill_block_def Let_def register_block_hash_value_def bz)
  moreover have "hash_value (heap M b) = Some ?h" "token_count (heap M b) = int ?n"
    by (simp_all add: M_def fill_block_def Let_def register_block_hash_value_def)
  moreover have "b \<in> allocated_blocks M" using oa(2) by (simp add: held_def fl(3))
  ultimately show ?thesis
    using own kv ot c tables_eqD [OF te] unfolding M_def [symmetric] by (simp add: added_def fl(1,4))
qed

section \<open>The loop\<close>

lemma slice_drop_take: "base \<le> L \<Longrightarrow> slice (drop base (take L toks)) x (min y (L - base)) = slice toks (base + x) (min (base + y) L)"
proof -
  assume b: "base \<le> L"
  have "min (base + y) L = base + min y (L - base)" using b by linarith
  moreover have "take (min y (L - base) - x) (take (L - base - x) zs) = take (min y (L - base) - x) zs" for zs :: "'a list"
    by (simp add: min_absorb1)
  ultimately show ?thesis by (simp add: slice_def drop_take add.commute)
qed

text \<open>The end of the \<open>i\<close>-th new block, and the data its slice must hold.\<close>

abbreviation piece_end :: "nat \<Rightarrow> nat \<Rightarrow> nat \<Rightarrow> nat \<Rightarrow> nat" where
  "piece_end base n L i \<equiv> min (base + Suc i * n) L"

definition pieces :: "'t kv_rows \<Rightarrow> int list \<Rightarrow> nat \<Rightarrow> nat \<Rightarrow> nat \<Rightarrow> nat \<Rightarrow> ('t \<times> 't) list list \<Rightarrow> bool" where
  "pieces rows toks base n L i kvs \<longleftrightarrow> (\<forall>j<length kvs. base + (i + j) * n < L \<and>
     kvs ! j = rows (take (piece_end base n L (i + j)) toks) (piece_end base n L (i + j) - (base + (i + j) * n)))"

lemma pieces_Cons:
  assumes "pieces rows toks base n L i (kv # kvs)"
  shows "base + i * n < L" "kv = rows (take (piece_end base n L i) toks) (piece_end base n L i - (base + i * n))"
    "pieces rows toks base n L (Suc i) kvs"
proof -
  show "base + i * n < L" "kv = rows (take (piece_end base n L i) toks) (piece_end base n L i - (base + i * n))"
    using assms unfolding pieces_def by (metis add_0_right length_greater_0_conv list.simps(3) nth_Cons_0)+
  show "pieces rows toks base n L (Suc i) kvs"
    using assms unfolding pieces_def by (metis Suc_less_eq add_Suc_shift length_Cons nth_Cons_Suc)
qed

text \<open>What a run of the loop leaves behind.\<close>

definition loop_post :: "(bytes \<Rightarrow> digest) \<Rightarrow> int list set \<Rightarrow> 't kv_rows \<Rightarrow> string \<Rightarrow> taddr \<Rightarrow> int list \<Rightarrow> nat \<Rightarrow> nat \<Rightarrow>
    nat \<Rightarrow> 't manager \<Rightarrow> 't manager \<Rightarrow> bid list \<Rightarrow> bool" where
  "loop_post sha U rows rid a toks base L i m m' ids \<longleftrightarrow> owned m' \<and> kv_ok sha U rows m' \<and>
     request_tables m' = request_tables m \<and> others rid m m' \<and> calm m m' \<and>
     block_ids (table_store m' a) = block_ids (table_store m a) @ ids \<and>
     num_tokens (table_store m' a) = num_tokens (table_store m a) +
       int (min (base + (i + length ids) * block_size m) L - min (base + i * block_size m) L) \<and>
     (base = 0 \<longrightarrow> (\<forall>j<length ids. Suc (i + j) * block_size m \<le> L \<longrightarrow> serves sha m' toks (i + j) (ids ! j)))"

lemma loop_post_nil: "owned m \<Longrightarrow> kv_ok sha U rows m \<Longrightarrow> loop_post sha U rows rid a toks base L i m m []"
  by (simp add: loop_post_def)

lemma loop_post_Cons:
  assumes ad: "added sha U rows rid a toks (base + i * block_size m) (piece_end base (block_size m) L i) m b m1"
    and lt: "base + i * block_size m < L"
    and lp: "loop_post sha U rows rid a toks base L (Suc i) m1 m' ids"
  shows "loop_post sha U rows rid a toks base L i m m' (b # ids)"
proof -
  let ?n = "block_size m"
  note d = ad [unfolded added_def]
  have n: "block_size m1 = ?n" using d by (simp add: calm_def)
  note l = lp [unfolded loop_post_def n]
  have c1: "calm m1 m'" using l by blast
  have "serves sha m1 toks i b" if "base = 0" "Suc i * ?n \<le> L"
    using d that n by (simp add: serves_def Let_def)
  then have s0: "serves sha m' toks i b" if "base = 0" "Suc i * ?n \<le> L" using calm_serves [OF c1] that by blast
  have "\<forall>j<length (b # ids). Suc (i + j) * ?n \<le> L \<longrightarrow> serves sha m' toks (i + j) ((b # ids) ! j)" if "base = 0"
  proof (intro allI impI)
    fix j
    assume j: "j < length (b # ids)" "Suc (i + j) * ?n \<le> L"
    show "serves sha m' toks (i + j) ((b # ids) ! j)"
    proof (cases j)
      case 0
      then show ?thesis using s0 that j by simp
    next
      case (Suc k)
      then show ?thesis using l that j by simp
    qed
  qed
  moreover have "num_tokens (table_store m' a) = num_tokens (table_store m a) +
      int (min (base + (i + length (b # ids)) * ?n) L - min (base + i * ?n) L)"
  proof -
    let ?x = "min (base + i * ?n) L" and ?y = "piece_end base ?n L i"
    let ?z = "min (base + (Suc i + length ids) * ?n) L"
    have "base + i * ?n \<le> base + Suc i * ?n" "base + Suc i * ?n \<le> base + (Suc i + length ids) * ?n"
      by (simp_all add: algebra_simps)
    then have le: "?x \<le> ?y" "?y \<le> ?z" "?x = base + i * ?n" using lt by linarith+
    have "num_tokens (table_store m' a) = num_tokens (table_store m1 a) + int (?z - ?y)" using l by simp
    also have "num_tokens (table_store m1 a) = num_tokens (table_store m a) + int (?y - ?x)"
      using d le(3) by (simp add: add_block_def)
    finally show ?thesis using le by simp
  qed
  moreover have "block_ids (table_store m' a) = block_ids (table_store m a) @ b # ids"
    using l d by (simp add: add_block_def)
  moreover have "others rid m m'" "calm m m'"
    using l d others_trans calm_trans by blast+
  ultimately show ?thesis using l d by (simp add: loop_post_def)
qed

lemma store_loop_spec:
  assumes u: "universe sha U" and p: "toks \<in> U" and L: "L \<le> length toks" "base \<le> L"
  shows "owned m \<Longrightarrow> kv_ok sha U rows m \<Longrightarrow> request_tables m rid = Some a \<Longrightarrow>
    token_bytes (take (base + i * block_size m) toks) = Inr hs \<Longrightarrow> pieces rows toks base (block_size m) L i kvs \<Longrightarrow>
    store_loop sha a ''KVCache'' (drop base (take L toks)) i hs kvs m = (r, m') \<Longrightarrow>
    \<exists>ids. loop_post sha U rows rid a toks base L i m m' ids \<and> length ids \<le> length kvs \<and>
      (r = Inr () \<and> (num_free_blocks m' = 0 \<or> length ids = length kvs) \<or> r = Inl ValueError)"
proof (induction kvs arbitrary: i hs m)
  case Nil
  then show ?case using loop_post_nil [of m sha U rows rid a toks base L i] by auto
next
  case (Cons kv kvs)
  let ?n = "block_size m" and ?new = "drop base (take L toks)"
  let ?e = "base + i * ?n" and ?e' = "piece_end base ?n L i"
  note pc = pieces_Cons [OF Cons.prems(5)]
  have n0: "0 < ?n" by (rule kv_okD(2) [OF Cons.prems(2)])
  have lt: "?e < ?e'" using pc(1) n0 by simp
  have el: "?e' \<le> length toks" using L by linarith
  let ?toks = "slice ?new (i * ?n) (min (i * ?n + ?n) (length ?new))"
  have "length ?new = L - base" using L by simp
  then have sl: "?toks = slice toks ?e ?e'"
    using slice_drop_take [OF L(2), of toks "i * ?n" "i * ?n + ?n"] by (simp add: algebra_simps)
  have tU: "take ?e' toks \<in> U" using u p by (auto simp: universe_def)
  then obtain hs' where hs': "token_bytes (take ?e' toks) = Inr hs'" using u by (auto simp: universe_def)
  have "take ?e toks @ slice toks ?e ?e' = take ?e' toks" by (rule take_slice) (use lt in simp)
  then have up: "ph_update hs ?toks = Inr hs'"
    using ph_update_bytes [OF Cons.prems(4), of "slice toks ?e ?e'"] hs' by (simp only: sl)
  have h: "ph_hexdigest sha hs' = identity sha (take ?e' toks)" by (rule identity_legacy [OF hs', symmetric])
  have ln: "length ?toks = ?e' - ?e" using el unfolding sl by simp
  let ?find = "if ?e' - ?e = ?n then find_cached_block_by_hash (identity sha (take ?e' toks)) False m else (None, m)"
  obtain v m1 where f: "?find = (v, m1)" by fastforce
  have st: "store_loop sha a ''KVCache'' ?new i hs (kv # kvs) m =
      (case (v, m1) of
         (Some b, m1) \<Rightarrow> store_loop sha a ''KVCache'' ?new (Suc i) hs' kvs
             (upd_table a (add_block b (int (?e' - ?e))) (snd (increment_ref b m1)))
       | (None, m1) \<Rightarrow>
           (case allocate_or_evict m1 of
              (Inl e, m2) \<Rightarrow> (Inl e, m2)
            | (Inr None, m2) \<Rightarrow> (Inr (), m2)
            | (Inr (Some b), m2) \<Rightarrow>
                store_loop sha a ''KVCache'' ?new (Suc i) hs' kvs
                  (fill_block a ''KVCache'' kv (?e' - ?e) (identity sha (take ?e' toks)) b m2)))"
    unfolding store_loop.simps Let_def up sum.case h ln f by simp
  have step: ?case if ad: "added sha U rows rid a toks ?e ?e' m b k"
    and rest: "store_loop sha a ''KVCache'' ?new (Suc i) hs' kvs k = (r, m')" for b k
  proof -
    note d = ad [unfolded added_def]
    have n: "block_size k = ?n" using d by (simp add: calm_def)
    have hs1: "token_bytes (take (base + Suc i * block_size k) toks) = Inr hs'" if ne: "kvs \<noteq> []"
    proof -
      obtain x xs where "kvs = x # xs" using ne by (cases kvs) auto
      then have "base + Suc i * ?n < L" using pieces_Cons(1) pc(3) by blast
      then have "?e' = base + Suc i * ?n" by simp
      then show ?thesis using hs' by (simp add: n)
    qed
    have "\<exists>ids. loop_post sha U rows rid a toks base L (Suc i) k m' ids \<and> length ids \<le> length kvs \<and>
        (r = Inr () \<and> (num_free_blocks m' = 0 \<or> length ids = length kvs) \<or> r = Inl ValueError)"
    proof (cases "kvs = []")
      case True
      then show ?thesis using rest d loop_post_nil [of k sha U rows rid a toks base L "Suc i"] by auto
    next
      case False
      show ?thesis
        by (rule Cons.IH [OF _ _ _ hs1 [OF False] _ rest]) (use d n pc(3) Cons.prems(3) in simp_all)
    qed
    then show ?thesis using loop_post_Cons [OF ad pc(1)] by (metis Suc_le_mono length_Cons)
  qed
  show ?case
  proof (cases v)
    case (Some b)
    then have "find_cached_block_by_hash (identity sha (take ?e' toks)) False m = (Some b, m1)"
      using f by (simp split: if_splits)
    from add_reused [OF u tU Cons.prems(1-3) this, of ?e] show ?thesis
      by (rule step) (use Cons.prems(6) st Some in simp)
  next
    case None
    have s1: "same_but_stats m m1" "paged_inv m1"
      using f None find_by_hash_same [OF Cons.prems(2), of _ None m1] ownedD(1) [OF Cons.prems(1)]
        hard_eq_paged_inv [OF ownedD(1) [OF Cons.prems(1)] find_by_hash_hard, of _ False None m1] by (auto split: if_splits)
    obtain w m2 where al: "allocate_block m1 = (w, m2)" by fastforce
    show ?thesis
    proof (cases "\<exists>b. w = Inr (Some b)")
      case True
      then obtain b where w: "w = Inr (Some b)" ..
      note ad = add_new [OF u tU lt el Cons.prems(1-3) f [unfolded None] al [unfolded w], folded pc(2)]
      show ?thesis
        by (rule step [OF ad]) (use Cons.prems(6) st None al w in \<open>simp add: allocate_or_evict_plain\<close>)
    next
      case False
      note an = allocate_none [OF s1(2) al] False
      have m': "m' = m1" "r = Inr () \<and> w = Inr None \<or> r = Inl ValueError"
        using Cons.prems(6) st None al an by (auto simp: allocate_or_evict_plain)
      have "num_free_blocks m1 = 0" if "w = Inr None"
        using al that by (auto simp: allocate_block_def split: if_splits prod.splits sum.splits)
      moreover have "loop_post sha U rows rid a toks base L i m m1 []"
        using owned_same [OF Cons.prems(1) s1] kv_ok_inert [OF Cons.prems(2)] s1(1) tables_eq_others [of m m1]
          inert_calm [of m m1] unfolding loop_post_def same_but_stats_def by (simp add: tables_eq_def)
      ultimately show ?thesis using m' by (intro exI [of _ "[]"]) auto
    qed
  qed
qed

end
