(* ===== verification/BlockCommit.thy ===== *)
theory BlockCommit
  imports BlockStore
begin

text \<open>
  \<open>store_cache\<close> as a whole, and the operations that change no block: pinning, statistics, reading a
  fetched cache back, clearing and forking. Each keeps the invariant of the block-aware cache.
\<close>

section \<open>Slicing the caller's tensors\<close>

text \<open>
  The caller's tensors are the rows of its tokens: a slice from \<open>x\<close> to \<open>y\<close>, where the code extracts
  one, is what a block of the tokens up to \<open>y\<close> must hold.
\<close>

definition faithful :: "'t tensor_ops \<Rightarrow> 't kv_rows \<Rightarrow> int list \<Rightarrow> 't cache_arg \<Rightarrow> bool" where
  "faithful ops rows toks cd \<longleftrightarrow> (\<forall>x y d. x < y \<and> y \<le> length toks \<and>
     extract_block_tensor_slice ops cd (int x) (int y) = Some d \<longrightarrow> d = rows (take y toks) (y - x))"

lemma pieces_ConsI:
  assumes "base + i * n < L" and "kv = rows (take (piece_end base n L i) toks) (piece_end base n L i - (base + i * n))"
    and p: "pieces rows toks base n L (Suc i) kvs"
  shows "pieces rows toks base n L i (kv # kvs)"
  unfolding pieces_def
proof (intro allI impI)
  fix j
  assume j: "j < length (kv # kvs)"
  show "base + (i + j) * n < L \<and> (kv # kvs) ! j =
      rows (take (piece_end base n L (i + j)) toks) (piece_end base n L (i + j) - (base + (i + j) * n))"
  proof (cases j)
    case 0
    then show ?thesis using assms(1,2) by simp
  next
    case (Suc k)
    then have "k < length kvs" using j by simp
    then show ?thesis using p [unfolded pieces_def, rule_format, of k] by (simp add: Suc)
  qed
qed

lemma slice_loop_pieces:
  assumes f: "faithful ops rows toks cd" and L: "base \<le> L" "L \<le> length toks" and n: "0 < n"
    and k: "k = 0 \<or> base + (k - 1) * n < L"
  shows "pieces rows toks base n L i (slice_loop ops cd n (int base) (L - base) [i..<k])"
proof (induction "k - i" arbitrary: i)
  case 0
  then show ?case by (simp add: pieces_def)
next
  case (Suc d)
  then have ik: "i < k" and u: "[i..<k] = i # [Suc i..<k]" by (simp_all add: upt_conv_Cons)
  let ?x = "base + i * n" and ?y = "piece_end base n L i"
  have "i * n \<le> (k - 1) * n" using ik by (intro mult_le_mono1) simp
  then have lt: "?x < L" using k ik by linarith
  have ends: "int base + int (i * n) = int ?x" "min (int ?x + int n) (int base + int (L - base)) = int ?y"
    using L by (simp_all add: of_nat_min of_nat_diff algebra_simps)
  show ?case
  proof (cases "extract_block_tensor_slice ops cd (int ?x) (int ?y)")
    case None
    then have "slice_loop ops cd n (int base) (L - base) [i..<k] = []"
      unfolding u slice_loop.simps Let_def ends(1) ends(2) by simp
    then show ?thesis by (simp add: pieces_def)
  next
    case (Some d)
    have "?x < ?y" "?y \<le> length toks" using lt n L by auto
    then have d: "d = rows (take ?y toks) (?y - ?x)" using f Some unfolding faithful_def by blast
    have ih: "pieces rows toks base n L (Suc i) (slice_loop ops cd n (int base) (L - base) [Suc i..<k])"
      using Suc.hyps by simp
    have sl: "slice_loop ops cd n (int base) (L - base) [i..<k] = d # slice_loop ops cd n (int base) (L - base) [Suc i..<k]"
      unfolding u slice_loop.simps Let_def ends(1) ends(2) Some by simp
    show ?thesis unfolding sl by (rule pieces_ConsI [OF lt d ih])
  qed
qed

lemma block_count: "0 < (n::nat) \<Longrightarrow> base \<le> L \<Longrightarrow> (L - base + n - 1) div n = 0 \<or> base + ((L - base + n - 1) div n - 1) * n < L"
proof -
  assume n: "0 < n" and b: "base \<le> L"
  let ?q = "(L - base + n - 1) div n"
  have "?q * n \<le> L - base + n - 1" by simp
  moreover have "?q \<noteq> 0 \<Longrightarrow> ?q * n = (?q - 1) * n + n" by (cases ?q) simp_all
  ultimately show ?thesis using n b by linarith
qed

section \<open>The prefix index\<close>

lemma index_loop_returns:
  assumes u: "universe sha U" and p: "toks \<in> U"
  shows "token_bytes (take e toks) = Inr hs \<Longrightarrow>
    \<exists>ix. index_loop sha toks ds bs hs e c = (Inr (), c\<lparr>prefix_index := ix\<rparr>)"
proof (induction bs arbitrary: ds hs e c)
  case Nil
  then show ?case by (intro exI [of _ "prefix_index c"]) simp
next
  case (Cons b bs)
  let ?k = "e + extent (paged c) b"
  have "take ?k toks \<in> U" using u p by (auto simp: universe_def)
  then obtain hs' where hs': "token_bytes (take ?k toks) = Inr hs'" using u by (auto simp: universe_def)
  have "take e toks @ slice toks e ?k = take ?k toks" by (simp add: take_slice)
  then have up: "ph_update hs (slice toks e ?k) = Inr hs'"
    using ph_update_bytes [OF Cons.prems, of "slice toks e ?k"] hs' by simp
  show ?case
  proof (cases "b \<notin> allocated_blocks (paged c) \<or> token_count (heap (paged c) b) \<le> 0 \<or>
      int (length toks) < int e + token_count (heap (paged c) b)")
    case True
    then show ?thesis by (intro exI [of _ "prefix_index c"]) (simp add: Let_def)
  next
    case False
    let ?c = "c\<lparr>prefix_index := (prefix_index c)(ph_hexdigest sha hs' \<mapsto> (take ?k toks, ds @ [b]))\<rparr>"
    obtain ix where "index_loop sha toks (ds @ [b]) bs hs' ?k ?c = (Inr (), ?c\<lparr>prefix_index := ix\<rparr>)"
      using Cons.IH [OF hs', of "ds @ [b]" ?c] by blast
    then have "index_loop sha toks ds (b # bs) hs e c = (Inr (), c\<lparr>prefix_index := ix\<rparr>)"
      using False up by (simp add: Let_def)
    then show ?thesis by blast
  qed
qed

lemma update_index_returns:
  assumes "universe sha U" and "toks \<in> U"
  obtains ix where "update_prefix_index sha toks bs c = (Inr (), c\<lparr>prefix_index := ix\<rparr>)"
  using index_loop_returns [OF assms, of 0 "[]" "[]" bs c] by (auto simp: update_prefix_index_def)

section \<open>Committing\<close>

text \<open>The number of tokens \<open>store_cache\<close> can store.\<close>

definition storable_len :: "'t tensor_ops \<Rightarrow> int list \<Rightarrow> 't cache_arg \<Rightarrow> nat" where
  "storable_len ops toks cd = (case validate_blockizable_layout ops cd of None \<Rightarrow> 0 | Some (_, n) \<Rightarrow> min (length toks) n)"

lemma those_nth: "those xs = Some ys \<Longrightarrow> length ys = length xs \<and> (\<forall>i<length xs. xs ! i = Some (ys ! i))"
proof (induction xs arbitrary: ys)
  case (Cons x xs)
  then show ?case by (auto split: option.splits simp: nth_Cons split: nat.splits)
qed simp

lemma validated_class:
  assumes "validate_blockizable_layout ops cd = Some (cls, n)"
  shows "cls = ''KVCache''"
proof -
  obtain layers ls where l: "layers \<noteq> []" "those (map (kv_layer ops) layers) = Some ls" "cls = fst (last ls)"
    using assms by (auto simp: validate_blockizable_layout_def split: option.splits if_splits)
  note th = those_nth [OF l(2)]
  have "ls \<noteq> []" using th l(1) by auto
  moreover have "x \<in> set ls \<Longrightarrow> fst x = ''KVCache''" for x
  proof -
    assume "x \<in> set ls"
    then obtain i where "i < length layers" "kv_layer ops (layers ! i) = Some x" using th by (auto simp: in_set_conv_nth)
    then show ?thesis
      by (auto simp: kv_layer_def SEQ_AXIS_KV_CLASSES_def split: option.splits if_splits kv_state.splits list.splits)
  qed
  ultimately show ?thesis using l(3) by (simp add: last_in_set)
qed

text \<open>
  What a call that returns a table leaves behind. A call that raises leaves the invariant too, unless
  it replaced an empty table: the stored entry of the request then still names the table it dropped.
\<close>

definition stored_post :: "(bytes \<Rightarrow> digest) \<Rightarrow> int list \<Rightarrow> nat \<Rightarrow> nat \<Rightarrow> string \<Rightarrow> taddr \<Rightarrow> 't block_cache \<Rightarrow>
    't block_cache \<Rightarrow> bool" where
  "stored_post sha toks L k rid a c c' \<longleftrightarrow>
     (let ids = block_ids (table_store (paged c') a); n = block_size (paged c)
      in num_tokens (table_store (paged c') a) = int (min (length ids * n) L) \<and> length ids \<le> k \<and>
         (num_free_blocks (paged c') = 0 \<or> length ids = k) \<and>
         (\<forall>j<length ids. Suc j * n \<le> L \<longrightarrow> serves sha (paged c') toks j (ids ! j)))"

definition empty_table :: "string \<Rightarrow> 't manager \<Rightarrow> bool" where
  "empty_table rid m \<longleftrightarrow> (case request_tables m rid of None \<Rightarrow> False | Some a \<Rightarrow> block_ids (table_store m a) = [])"

lemma commit_store_spec:
  assumes u: "universe sha U" and p: "toks \<in> U" and i: "block_cache_inv sha U rows c" and L: "L \<le> length toks"
    and pc: "base \<le> L \<longrightarrow> pieces rows toks base (block_size (paged c)) L 0 kvs" "\<not> base \<le> L \<longrightarrow> kvs = []"
    and ex: "existing = (case request_tables (paged c) rid of None \<Rightarrow> None
      | Some a \<Rightarrow> if table_len (table_store (paged c) a) = 0 then None else Some a)"
    and bs: "int base = (case existing of None \<Rightarrow> 0 | Some a \<Rightarrow> num_tokens (table_store (paged c) a))"
  obtains v a m2 ix where
    "commit_store sha rid toks ''KVCache'' (drop base (take L toks)) kvs existing (int base) c =
       (case v of Inl e \<Rightarrow> (Inl e, c\<lparr>paged := m2\<rparr>)
        | Inr _ \<Rightarrow> (Inr (Some a), c\<lparr>paged := m2, prefix_index := ix, stored := (stored c)(rid \<mapsto> a)\<rparr>))"
    "v = Inr () \<or> v = Inl ValueError" "request_tables m2 rid = Some a" "0 \<le> num_tokens (table_store m2 a)"
    "owned m2" "kv_ok sha U rows m2" "others rid (paged c) m2"
    "\<not> empty_table rid (paged c) \<longrightarrow> request_tables (paged c) rid = None \<or> request_tables (paged c) rid = Some a"
    "request_tables (paged c) rid = None \<longrightarrow> calm (paged c) m2"
    "request_tables (paged c) rid = None \<longrightarrow> v = Inr () \<longrightarrow> stored_post sha toks L (length kvs) rid a c (c\<lparr>paged := m2\<rparr>)"
proof -
  note d = block_cache_invD [OF i]
  let ?n = "block_size (paged c)"
  obtain a m1 where m1: "(case existing of Some a \<Rightarrow> (Inr a, c) | None \<Rightarrow> on_paged (create_block_table rid) c) =
      (Inr a, c\<lparr>paged := m1\<rparr>)" "owned m1" "inert (paged c) m1" "request_tables m1 rid = Some a"
      "others rid (paged c) m1" "num_tokens (table_store m1 a) = int base"
      "existing = None \<longrightarrow> block_ids (table_store m1 a) = []" "\<forall>b. existing = Some b \<longrightarrow> b = a"
      "request_tables (paged c) rid = None \<longrightarrow> allocated_blocks m1 = allocated_blocks (paged c)"
  proof (cases existing)
    case None
    obtain a m' where m': "create_block_table rid (paged c) = (Inr a, m')" "owned m'" "inert (paged c) m'"
      "request_tables m' = (request_tables (paged c))(rid \<mapsto> a)" "table_store m' = (table_store (paged c))(a := new_table rid)"
      "request_tables (paged c) rid = None \<Longrightarrow> heap m' = heap (paged c) \<and> allocated_blocks m' = allocated_blocks (paged c)"
      using owned_create [OF d(1), of rid] by metis
    have ot: "others rid (paged c) m'" by (rule others_create [OF ownedD(2) [OF m'(2)] m'(4,5)])
    show ?thesis
      by (rule that [of a m', OF _ m'(2,3) _ ot]) (use None m' bs in \<open>simp_all add: on_paged_def new_table_def\<close>)
  next
    case (Some a)
    then have "request_tables (paged c) rid = Some a" using ex by (auto split: option.splits if_splits)
    then show ?thesis by (intro that [of a "paged c", OF _ d(1)]) (use Some bs in \<open>simp_all add: inert_def\<close>)
  qed
  have tU: "take k toks \<in> U" for k using u p by (auto simp: universe_def)
  obtain hs where hs: "token_bytes (take base toks) = Inr hs" using u tU [of base] by (auto simp: universe_def)
  have n1: "block_size m1 = ?n" using inert_fields [OF m1(3)] by simp
  have k1: "kv_ok sha U rows m1" by (rule kv_ok_inert [OF d(2) m1(3)])
  obtain v m2 where lp: "store_loop sha a ''KVCache'' (drop base (take L toks)) 0 hs kvs m1 = (v, m2)" by fastforce
  let ?L = "max base L"
  obtain ids where q: "owned m2" "kv_ok sha U rows m2" "request_tables m2 = request_tables m1" "others rid m1 m2"
      "calm m1 m2" "block_ids (table_store m2 a) = block_ids (table_store m1 a) @ ids"
      "num_tokens (table_store m2 a) = int base + int (min (base + length ids * ?n) ?L - base)"
      "base = 0 \<Longrightarrow> \<forall>j<length ids. Suc j * ?n \<le> L \<longrightarrow> serves sha m2 toks j (ids ! j)"
      "length ids \<le> length kvs" "v = Inr () \<and> (num_free_blocks m2 = 0 \<or> length ids = length kvs) \<or> v = Inl ValueError"
  proof (cases "base \<le> L")
    case True
    have "token_bytes (take (base + 0 * block_size m1) toks) = Inr hs" using hs by simp
    moreover have "pieces rows toks base (block_size m1) L 0 kvs" using pc True n1 by simp
    ultimately obtain ids where "loop_post sha U rows rid a toks base L 0 m1 m2 ids" "length ids \<le> length kvs"
      "v = Inr () \<and> (num_free_blocks m2 = 0 \<or> length ids = length kvs) \<or> v = Inl ValueError"
      using store_loop_spec [OF u p L True m1(2) k1 m1(4) _ _ lp] by blast
    then show ?thesis
      using True m1(6) n1 by (intro that [of ids]) (simp_all add: loop_post_def max_absorb2 min_absorb1)
  next
    case False
    then show ?thesis using pc(2) lp m1 k1 by (intro that [of "[]"]) simp_all
  qed
  have ot: "others rid (paged c) m2" using others_trans [OF m1(5) q(4)] .
  have r2: "request_tables m2 rid = Some a" using q(3) m1(4) by simp
  have nn: "0 \<le> num_tokens (table_store m2 a)" using q(7) by simp
  have ph: "ph_new (py_take (int base) toks) = Inr hs"
    using hs ph_update_bytes [of "[]" "[]" "take base toks"] by (cases "take base toks = []") (auto simp: ph_new_def)
  obtain ix where ix: "update_prefix_index sha (py_take (num_tokens (table_store m2 a)) toks) (block_ids (table_store m2 a))
      (c\<lparr>paged := m2\<rparr>) = (Inr (), c\<lparr>paged := m2, prefix_index := ix\<rparr>)"
    using update_index_returns [OF u tU, of "nat (num_tokens (table_store m2 a))" "block_ids (table_store m2 a)"
        "c\<lparr>paged := m2\<rparr>"] nn by auto
  have res: "commit_store sha rid toks ''KVCache'' (drop base (take L toks)) kvs existing (int base) c =
       (case v of Inl e \<Rightarrow> (Inl e, c\<lparr>paged := m2\<rparr>)
        | Inr _ \<Rightarrow> (Inr (Some a), c\<lparr>paged := m2, prefix_index := ix, stored := (stored c)(rid \<mapsto> a)\<rparr>))"
    unfolding commit_store_def m1(1) using ph lp ix by (cases v) (simp_all add: on_paged_def Let_def)
  have fr: "existing = None" "base = 0" if "request_tables (paged c) rid = None" using that ex bs by simp_all
  show ?thesis
  proof (rule that [OF res _ r2 nn q(1,2) ot])
    show "v = Inr () \<or> v = Inl ValueError" using q(10) by blast
    show "\<not> empty_table rid (paged c) \<longrightarrow> request_tables (paged c) rid = None \<or> request_tables (paged c) rid = Some a"
      using ex m1(8) by (auto simp: empty_table_def table_len_def split: option.splits)
    show "request_tables (paged c) rid = None \<longrightarrow> calm (paged c) m2"
      using calm_trans [OF inert_calm [OF m1(3)] q(5)] m1(9) by simp
    show "request_tables (paged c) rid = None \<longrightarrow> v = Inr () \<longrightarrow> stored_post sha toks L (length kvs) rid a c (c\<lparr>paged := m2\<rparr>)"
    proof (intro impI)
      assume n: "request_tables (paged c) rid = None" and v: "v = Inr ()"
      show "stored_post sha toks L (length kvs) rid a c (c\<lparr>paged := m2\<rparr>)"
        using q(6-10) m1(7) fr [OF n] v unfolding stored_post_def by (simp add: Let_def)
    qed
  qed
qed

section \<open>Storing\<close>

lemma store_cache_spec:
  assumes u: "universe sha U" and p: "toks \<in> U" and i: "block_cache_inv sha U rows c"
    and f: "faithful ops rows toks cd" and st: "store_cache sha ops ev rid toks cd c = (r, c')"
  shows "r = Inr None \<Longrightarrow> c' = c" "r = Inl e \<Longrightarrow> e = ValueError"
    "\<not> (empty_table rid (paged c) \<and> r = Inl ValueError) \<Longrightarrow> block_cache_inv sha U rows c'"
    "r = Inr (Some a) \<Longrightarrow> request_tables (paged c') rid = Some a \<and> stored c' = (stored c)(rid \<mapsto> a) \<and>
       pending c' = pending c \<and> others rid (paged c) (paged c')"
    "r = Inr (Some a) \<Longrightarrow> request_tables (paged c) rid = None \<Longrightarrow> calm (paged c) (paged c') \<and>
       (\<exists>k. stored_post sha toks (storable_len ops toks cd) k rid a c c')"
proof -
  note d = block_cache_invD [OF i]
  let ?n = "block_size (paged c)"
  have n0: "0 < ?n" by (rule kv_okD(2) [OF d(2)])
  define existing where "existing = (case request_tables (paged c) rid of None \<Rightarrow> None
      | Some a \<Rightarrow> if table_len (table_store (paged c) a) = 0 then None else Some a)"
  define base where "base = nat (case existing of None \<Rightarrow> 0 | Some a \<Rightarrow> num_tokens (table_store (paged c) a))"
  have base: "int base = (case existing of None \<Rightarrow> 0 | Some a \<Rightarrow> num_tokens (table_store (paged c) a))"
    using d(6) [of rid] by (auto simp: base_def existing_def split: option.splits)
  define L where "L = storable_len ops toks cd"
  have L: "L \<le> length toks" by (auto simp: L_def storable_len_def split: option.splits)
  define kvs where "kvs = slice_loop ops cd ?n (int base) (length (drop base (take L toks)))
      [0..<(length (drop base (take L toks)) + ?n - 1) div ?n]"
  have ln: "length (drop base (take L toks)) = L - base" using L by simp
  have pc1: "pieces rows toks base ?n L 0 kvs" if "base \<le> L"
    unfolding kvs_def ln by (rule slice_loop_pieces [OF f that L n0 block_count [OF n0 that]])
  have pc2: "kvs = []" if "\<not> base \<le> L" using that n0 unfolding kvs_def ln by simp
  have pc: "base \<le> L \<longrightarrow> pieces rows toks base ?n L 0 kvs" "\<not> base \<le> L \<longrightarrow> kvs = []"
    using pc1 pc2 by blast+
  obtain v b m2 ix where co: "commit_store sha rid toks ''KVCache'' (drop base (take L toks)) kvs existing (int base) c =
       (case v of Inl e \<Rightarrow> (Inl e, c\<lparr>paged := m2\<rparr>)
        | Inr _ \<Rightarrow> (Inr (Some b), c\<lparr>paged := m2, prefix_index := ix, stored := (stored c)(rid \<mapsto> b)\<rparr>))"
    and v: "v = Inr () \<or> v = Inl ValueError" and m2: "request_tables m2 rid = Some b" "0 \<le> num_tokens (table_store m2 b)"
    "owned m2" "kv_ok sha U rows m2" "others rid (paged c) m2"
    and em: "\<not> empty_table rid (paged c) \<longrightarrow> request_tables (paged c) rid = None \<or> request_tables (paged c) rid = Some b"
    and ca: "request_tables (paged c) rid = None \<longrightarrow> calm (paged c) m2"
    and po: "request_tables (paged c) rid = None \<longrightarrow> v = Inr () \<longrightarrow> stored_post sha toks L (length kvs) rid b c (c\<lparr>paged := m2\<rparr>)"
    by (rule commit_store_spec [OF u p i L pc existing_def base], rule that)
  have cases: "r = Inr None \<and> c' = c \<or> (r, c') = (case v of Inl e \<Rightarrow> (Inl e, c\<lparr>paged := m2\<rparr>)
        | Inr _ \<Rightarrow> (Inr (Some b), c\<lparr>paged := m2, prefix_index := ix, stored := (stored c)(rid \<mapsto> b)\<rparr>))"
  proof (cases "toks = [] \<or> validate_blockizable_layout ops cd = None")
    case True
    then have "store_cache sha ops ev rid toks cd c = (Inr None, c)"
      unfolding store_cache_def by (cases "toks = []") simp_all
    then show ?thesis using st by simp
  next
    case False
    then obtain cls us where va: "validate_blockizable_layout ops cd = Some (cls, us)" by auto
    have cls: "cls = ''KVCache''" by (rule validated_class [OF va])
    have Lm: "L = min (length toks) us" by (simp add: L_def storable_len_def va)
    have pd: "py_drop (int base) xs = drop base xs" for xs :: "int list" by simp
    have "store_cache sha ops ev rid toks cd c =
        (if drop base (take L toks) = [] \<and> request_tables (paged c) rid = None then (Inr None, c)
         else if kvs \<noteq> [] \<and> has_mlx ops \<and> \<not> ev then (Inr None, c)
         else commit_store sha rid toks ''KVCache'' (drop base (take L toks)) kvs existing (int base) c)"
      using False n0 unfolding store_cache_def va cls Let_def get_block_table_def option.case prod.case
      by (simp only: existing_def [symmetric] base [symmetric] Lm [symmetric] pd kvs_def [symmetric] if_False simp_thms neq0_conv
          less_irrefl refl not_None_eq) simp
    then show ?thesis using st co by (auto split: if_splits)
  qed
  show "r = Inr None \<Longrightarrow> c' = c" "r = Inl e \<Longrightarrow> e = ValueError" using cases v by auto
  have iv: "block_cache_inv sha U rows c2" if "paged c2 = m2" "pending c2 = pending c"
    "stored c2 = (stored c)(rid \<mapsto> b) \<or> stored c2 = stored c \<and> \<not> empty_table rid (paged c)" for c2
    using that d(4) [of rid] em m2
    by (intro block_cache_inv_step [OF i m2(3,4,5) that(1)]) auto
  show "\<not> (empty_table rid (paged c) \<and> r = Inl ValueError) \<Longrightarrow> block_cache_inv sha U rows c'"
    using cases v i iv by auto
  show "r = Inr (Some a) \<Longrightarrow> request_tables (paged c') rid = Some a \<and> stored c' = (stored c)(rid \<mapsto> a) \<and>
       pending c' = pending c \<and> others rid (paged c) (paged c')" using cases v m2 by auto
  show "r = Inr (Some a) \<Longrightarrow> request_tables (paged c) rid = None \<Longrightarrow> calm (paged c) (paged c') \<and>
       (\<exists>k. stored_post sha toks (storable_len ops toks cd) k rid a c c')"
    using cases v ca po by (auto simp: stored_post_def L_def)
qed

end
