(* ===== verification/BlockRun.thy ===== *)
theory BlockRun
  imports BlockCommit PagedCorrect
begin

text \<open>
  The rest of \<open>BlockAwarePrefixCache\<close>: forking, pinning, statistics, reading a fetched cache back and
  clearing keep the invariant; the run relation of the cache, with every operation a step, and the
  invariant over it.
\<close>

section \<open>Forking\<close>

lemma fork_cache_spec:
  assumes i: "block_cache_inv sha U rows c" and f: "fork_cache src new c = (r, c')"
  shows "block_cache_inv sha U rows c'" "r = Inr None \<Longrightarrow> c' = c \<and> stored c src = None" "r \<noteq> Inl e"
    "r = Inr (Some b) \<Longrightarrow> new \<noteq> src \<Longrightarrow> stored c' = (stored c)(new \<mapsto> b) \<and> request_tables (paged c') new = Some b \<and>
       others new (paged c) (paged c') \<and> inert (paged c) (paged c') \<and>
       (\<exists>a. stored c src = Some a \<and> table_store (paged c') b = table_copy new (table_store (paged c) a))"
    "r = Inr (Some b) \<Longrightarrow> new = src \<Longrightarrow> c' = c \<and> stored c src = Some b"
proof -
  note d = block_cache_invD [OF i]
  have main: "block_cache_inv sha U rows c' \<and> (\<exists>b. r = Inr (Some b) \<and> stored c' = (stored c)(new \<mapsto> b) \<and>
      request_tables (paged c') new = Some b \<and> others new (paged c) (paged c') \<and> inert (paged c) (paged c') \<and>
      table_store (paged c') b = table_copy new (table_store (paged c) a))"
    if s: "stored c src = Some a" and ne: "new \<noteq> src" for a
  proof -
    obtain c1 where c1: "release_cache new c = (Inr (), c1)" "block_cache_inv sha U rows c1"
      "request_tables (paged c1) = (request_tables (paged c))(new := None)"
      "table_store (paged c1) = table_store (paged c)" "inert (paged c) (paged c1)"
      "stored c1 = (stored c)(new := None)" "pending c1 = (pending c)(new := None)"
      using release_cache_spec [OF i, of new] by metis
    obtain c2 where c2: "(if stored c new \<noteq> None \<or> get_block_table new (paged c) \<noteq> None then release_cache new c
          else (Inr (), c)) = (Inr (), c2)" "block_cache_inv sha U rows c2"
      "request_tables (paged c2) = (request_tables (paged c))(new := None)"
      "table_store (paged c2) = table_store (paged c)" "inert (paged c) (paged c2)"
      "stored c2 = (stored c)(new := None)" "pending c2 = (pending c)(new := None)"
    proof (cases "stored c new \<noteq> None \<or> get_block_table new (paged c) \<noteq> None")
      case True
      then show ?thesis using that c1 by simp
    next
      case False
      then have "request_tables (paged c) new = None" "stored c new = None" by (simp_all add: get_block_table_def)
      moreover from this have "pending c new = None" using d(5) [of new] by blast
      ultimately show ?thesis using that [of c] False i by (simp add: fun_upd_idem)
    qed
    have n2: "request_tables (paged c2) new = None" and s2: "request_tables (paged c2) src = Some a"
      using d(4) [OF s] ne by (simp_all add: c2(3))
    obtain b m where m: "fork_block_table a new (paged c2) = (Inr b, m)" "owned m" "inert (paged c2) m"
      "request_tables m = (request_tables (paged c2))(new \<mapsto> b)"
      "table_store m = (table_store (paged c2))(b := table_copy new (table_store (paged c2) a))"
      using owned_fork [OF block_cache_invD(1) [OF c2(2)] n2 s2] by metis
    have ot2: "others new (paged c2) m" by (rule others_create [OF ownedD(2) [OF m(2)] m(4,5)])
    have ot: "others new (paged c) m" using others_trans [OF others_eq [OF c2(4,3)] ot2] .
    have inn: "inert (paged c) m" using inert_trans [OF c2(5) m(3)] .
    have res: "(r, c') = (Inr (Some b), c2\<lparr>paged := m, stored := (stored c2)(new \<mapsto> b)\<rparr>)"
      using f c2(1) m(1) s ne by (simp add: fork_cache_def on_paged_def)
    have "0 \<le> num_tokens (table_store m b)"
      using d(6) [OF d(4) [OF s]] by (simp add: m(5) table_copy_def c2(4))
    then have "block_cache_inv sha U rows c'"
      using res m(4) by (intro block_cache_inv_step [OF c2(2) m(2) kv_ok_inert [OF block_cache_invD(2) [OF c2(2)] m(3)] ot2])
        (simp_all add: c2(7))
    then show ?thesis using res ot inn m(4,5) by (simp add: c2(4,6))
  qed
  have triv: "stored c src = None \<Longrightarrow> r = Inr None \<and> c' = c" "stored c src = Some a \<Longrightarrow> new = src \<Longrightarrow> r = Inr (Some a) \<and> c' = c" for a
    using f by (simp_all add: fork_cache_def)
  show "block_cache_inv sha U rows c'" "r = Inr None \<Longrightarrow> c' = c \<and> stored c src = None" "r \<noteq> Inl e"
    "r = Inr (Some b) \<Longrightarrow> new \<noteq> src \<Longrightarrow> stored c' = (stored c)(new \<mapsto> b) \<and> request_tables (paged c') new = Some b \<and>
       others new (paged c) (paged c') \<and> inert (paged c) (paged c') \<and>
       (\<exists>a. stored c src = Some a \<and> table_store (paged c') b = table_copy new (table_store (paged c) a))"
    "r = Inr (Some b) \<Longrightarrow> new = src \<Longrightarrow> c' = c \<and> stored c src = Some b"
    using triv main i by (cases "stored c src"; cases "new = src"; force)+
qed

section \<open>Pinning\<close>

text \<open>Only pin flags and statistics may differ.\<close>

definition same_but_pins :: "'t manager \<Rightarrow> 't manager \<Rightarrow> bool" where
  "same_but_pins m m' \<longleftrightarrow> (\<forall>i. content ((heap m' i)\<lparr>is_pinned := is_pinned (heap m i)\<rparr>) = content (heap m i)) \<and>
     hash_to_block m' = hash_to_block m \<and> tables_eq m m' \<and> allocated_blocks m' = allocated_blocks m \<and>
     (\<forall>i. ref m' i = ref m i)"

lemma same_but_pins_refl [simp]: "same_but_pins m m"
  by (simp add: same_but_pins_def tables_eq_refl)

lemma same_but_pins_content:
  assumes "same_but_pins m m'"
  shows "hash_value (heap m' i) = hash_value (heap m i)" "block_hash (heap m' i) = block_hash (heap m i)"
    "cache_data (heap m' i) = cache_data (heap m i)" "cache_class_name (heap m' i) = cache_class_name (heap m i)"
    "token_count (heap m' i) = token_count (heap m i)" "is_null (heap m' i) = is_null (heap m i)"
  using assms by (simp_all add: same_but_pins_def content_def)

lemma same_but_pins_trans: "same_but_pins m n \<Longrightarrow> same_but_pins n k \<Longrightarrow> same_but_pins m k"
  unfolding same_but_pins_def content_def using tables_eq_trans [of m n k] by auto

lemma same_but_stats_pins: "same_but_stats m m' \<Longrightarrow> same_but_pins m m'"
  by (simp add: same_but_stats_def same_but_pins_def inert_def content_def)

lemma same_but_pins_pin: "same_but_pins m (upd_block b (\<lambda>x. x\<lparr>is_pinned := v\<rparr>) m)"
  by (simp add: same_but_pins_def tables_eq_def content_def)

lemma pin_loop_same: "same_but_pins m (snd (pin_loop bs n m))"
proof (induction bs arbitrary: n m)
  case (Cons b bs)
  then show ?case by (auto intro: same_but_pins_trans [OF same_but_pins_pin])
qed simp

lemma unpin_loop_same: "same_but_pins m (snd (unpin_loop bs n m))"
proof (induction bs arbitrary: n m)
  case (Cons b bs)
  then show ?case by (auto split: sum.split option.split intro: same_but_pins_trans [OF same_but_pins_pin])
qed simp

lemma kv_ok_pins:
  assumes k: "kv_ok sha U rows m" and s: "same_but_pins m m'"
  shows "kv_ok sha U rows m'"
proof -
  note c = same_but_pins_content [OF s]
  have "describes sha U rows (heap m' b) = describes sha U rows (heap m b)" for b
    unfolding describes_def c ..
  moreover have "hash_to_block m' = hash_to_block m" "tables_eq m m'" using s by (simp_all add: same_but_pins_def)
  ultimately show ?thesis using k by (simp add: kv_ok_def c tables_eq_def all_blocks_def)
qed

lemma block_cache_inv_pins:
  assumes i: "block_cache_inv sha U rows c" and s: "same_but_pins (paged c) m" and p: "paged_inv m"
  shows "block_cache_inv sha U rows (c\<lparr>paged := m\<rparr>)"
proof -
  note d = block_cache_invD [OF i]
  have t: "tables_eq (paged c) m" and r: "\<forall>i. ref m i = ref (paged c) i" "allocated_blocks m = allocated_blocks (paged c)"
    using s by (simp_all add: same_but_pins_def)
  have "owned m" using t r by (intro owned_cong [OF d(1) p]) (simp_all add: tables_eq_def)
  from block_cache_inv_step [OF i this kv_ok_pins [OF d(2) s] tables_eq_others [OF t], of "c\<lparr>paged := m\<rparr>" "''''"]
  show ?thesis using t d(4,5,6) by (simp add: tables_eq_def)
qed

lemma pin_blocks_spec:
  assumes "paged_inv m" and "pin_blocks bs m = (n, m')"
  shows "same_but_pins m m'" "paged_inv m'"
  using pin_loop_same [of m bs 0] hard_eq_paged_inv [OF assms(1) pin_loop_hard [of m bs 0]] assms(2)
  by (simp_all add: pin_blocks_def)

lemma unpin_blocks_spec:
  assumes "paged_inv m" and "unpin_blocks bs m = (r, m')"
  shows "same_but_pins m m'" "paged_inv m'"
  using unpin_loop_same [of m bs 0] hard_eq_paged_inv [OF assms(1) unpin_loop_hard [of m bs 0]] assms(2)
  by (simp_all add: unpin_blocks_def)

lemma unpin_loop_returns: "\<forall>b\<in>set bs. b \<in> allocated_blocks m \<Longrightarrow> \<exists>k m'. unpin_loop bs n m = (Inr k, m')"
  by (induction bs arbitrary: n m) auto

lemma pin_prefix_spec:
  assumes u: "universe sha U" and p: "toks \<in> U" and i: "block_cache_inv sha U rows c"
  obtains v m where "pin_prefix sha toks c = (Inr v, c\<lparr>paged := m\<rparr>)" "same_but_pins (paged c) m"
    "block_cache_inv sha U rows (c\<lparr>paged := m\<rparr>)"
proof -
  obtain bs m1 ids where f:
    "find_shared_prefix sha toks False (paged c) = (Inr (bs, drop (length bs * block_size (paged c)) toks), m1)"
    "same_but_stats (paged c) m1" "paged_inv m1"
    by (rule candidate_spells [OF u p i]) (rule that; assumption)
  obtain n2 m2 where m2: "(if bs = [] then (0, m1) else pin_blocks bs m1) = (n2, m2)" by fastforce
  have s1: "same_but_pins (paged c) m1" by (rule same_but_stats_pins [OF f(2)])
  have s2: "same_but_pins m1 m2" "paged_inv m2" using m2 pin_blocks_spec [OF f(3), of bs] f(3) by (auto split: if_splits)
  have s02: "same_but_pins (paged c) m2" using same_but_pins_trans [OF s1 s2(1)] .
  have i2: "block_cache_inv sha U rows (c\<lparr>paged := m2\<rparr>)" by (rule block_cache_inv_pins [OF i s02 s2(2)])
  have bz: "0 < block_size (paged (c\<lparr>paged := m2\<rparr>))" by (rule kv_okD(2) [OF block_cache_invD(2) [OF i2]])
  obtain r where r: "find_best_prefix_match sha toks (c\<lparr>paged := m2\<rparr>) = Inr r"
    using find_best_spec [OF u p bz] by metis
  have on: "on_paged (find_shared_prefix sha toks False) c =
      (Inr (bs, drop (length bs * block_size (paged c)) toks), c\<lparr>paged := m1\<rparr>)" by (simp add: on_paged_def f(1))
  have st: "pin_prefix sha toks c = (if 0 < n2 then (Inr True, c\<lparr>paged := m2\<rparr>) else
      case r of None \<Rightarrow> (Inr False, c\<lparr>paged := m2\<rparr>)
      | Some (_, ids) \<Rightarrow> (case pin_blocks ids m2 of (n', m') \<Rightarrow> (Inr (0 < n'), c\<lparr>paged := m'\<rparr>)))"
    unfolding pin_prefix_def on using m2 r by (cases "bs = []"; cases r) (simp_all add: Let_def case_prod_unfold)
  show ?thesis
  proof (cases "0 < n2 \<or> r = None")
    case True
    then have "\<exists>v. pin_prefix sha toks c = (Inr v, c\<lparr>paged := m2\<rparr>)" using st by auto
    then show ?thesis using that s02 i2 by blast
  next
    case False
    then obtain x ids where r': "r = Some (x, ids)" by auto
    obtain k m' where m': "pin_blocks ids m2 = (k, m')" by fastforce
    note s' = pin_blocks_spec [OF s2(2) m']
    have "pin_prefix sha toks c = (Inr (0 < k), c\<lparr>paged := m'\<rparr>)" using st False r' m' by simp
    moreover have "same_but_pins (paged c) m'" using same_but_pins_trans [OF s02 s'(1)] .
    ultimately show ?thesis using that block_cache_inv_pins [OF i _ s'(2)] by blast
  qed
qed

lemma unpin_prefix_spec:
  assumes u: "universe sha U" and p: "toks \<in> U" and i: "block_cache_inv sha U rows c"
  obtains v m where "unpin_prefix sha toks c = (Inr v, c\<lparr>paged := m\<rparr>)" "same_but_pins (paged c) m"
    "block_cache_inv sha U rows (c\<lparr>paged := m\<rparr>)"
proof -
  obtain bs m1 ids where f:
    "find_shared_prefix sha toks False (paged c) = (Inr (bs, drop (length bs * block_size (paged c)) toks), m1)"
    "same_but_stats (paged c) m1" "paged_inv m1"
    "(if bs \<noteq> [] then Inr (Some (toks, bs)) else find_best_prefix_match sha toks (c\<lparr>paged := m1\<rparr>)) = Inr ids"
    and sp: "\<And>x ys. ids = Some (x, ys) \<Longrightarrow> spells rows m1 toks 0 ys"
    by (rule candidate_spells [OF u p i]) (rule that; (assumption | blast))
  have s1: "same_but_pins (paged c) m1" by (rule same_but_stats_pins [OF f(2)])
  have on: "on_paged (find_shared_prefix sha toks False) c =
      (Inr (bs, drop (length bs * block_size (paged c)) toks), c\<lparr>paged := m1\<rparr>)" by (simp add: on_paged_def f(1))
  show ?thesis
  proof (cases ids)
    case None
    then have "unpin_prefix sha toks c = (Inr False, c\<lparr>paged := m1\<rparr>)"
      unfolding unpin_prefix_def on using f(4) by (auto split: if_splits)
    then show ?thesis using that s1 block_cache_inv_pins [OF i s1 f(3)] by blast
  next
    case (Some e)
    then obtain x ys where ids: "ids = Some (x, ys)" by (cases e) simp
    have "b \<in> allocated_blocks m1" if "b \<in> set ys" for b
      using spells_held [OF sp [OF ids] that] by (simp add: held_def)
    then obtain k m' where m': "unpin_blocks ys m1 = (Inr k, m')"
      using unpin_loop_returns [of ys m1 0] by (auto simp: unpin_blocks_def)
    note s' = unpin_blocks_spec [OF f(3) m']
    have "unpin_prefix sha toks c = (Inr (0 < k), c\<lparr>paged := m'\<rparr>)"
      unfolding unpin_prefix_def on using f(4) ids m' by (auto simp: on_paged_def split: if_splits)
    moreover have "same_but_pins (paged c) m'" using same_but_pins_trans [OF s1 s'(1)] .
    ultimately show ?thesis using that block_cache_inv_pins [OF i _ s'(2)] by blast
  qed
qed

section \<open>Empty caches\<close>

lemma block_cache_inv_empty:
  assumes i: "paged_inv m" and a: "allocated_blocks m = {null_block m}" and r: "request_tables m = Map.empty"
    and h: "hash_to_block m = Map.empty" and e: "enable_caching m" "0 < block_size m"
    and b: "\<forall>i\<ge>0. hash_value (heap m i) = None \<and> block_hash (heap m i) = None" and n: "0 \<le> null_block m"
    and c: "paged c = m" "stored c = Map.empty" "pending c = Map.empty"
  shows "block_cache_inv sha U rows c"
proof -
  have "\<not> held m b" for b using a by (simp add: held_def)
  then have "owned m" using i r by (simp add: owned_def tables_ok_def owners_def)
  moreover have "kv_ok sha U rows m"
    using b e h n by (auto simp: kv_ok_def describes_def all_blocks_def)
  ultimately show ?thesis by (simp add: block_cache_inv_def c r)
qed

lemma block_cache_init_inv:
  fixes m :: "'t manager"
  assumes "manager_init bs mb True = Inr m" and "0 < bs"
  shows "block_cache_inv sha U rows (block_cache_init m)"
proof -
  have "0 < mb" using assms(1) by (cases mb) (auto simp: manager_init_empty)
  then show ?thesis
    using manager_init_ok [where 't = 't, of mb bs True] assms
    by (intro block_cache_inv_empty [of m]) (auto simp: block_cache_init_def)
qed

lemma block_cache_clear_spec:
  fixes c :: "'t block_cache"
  assumes i: "block_cache_inv sha U rows c" and r: "block_cache_clear b c = (r, c')"
  shows "r = Inr ()" "block_cache_inv sha U rows c'" "allocated_blocks (paged c') = {null_block (paged c')}"
    "stored c' = Map.empty" "prefix_index c' = Map.empty" "pending c' = Map.empty"
proof -
  note d = block_cache_invD [OF i]
  obtain m where m: "PagedCache.clear b (paged c) = (Inr (), m)" "paged_inv m" "allocated_blocks m = {0}"
    "request_tables m = Map.empty" "hash_to_block m = Map.empty" "null_block m = 0"
    "tables_eq ((paged c)\<lparr>null_block := 0, request_tables := Map.empty\<rparr>) m"
    "\<forall>i\<ge>0. hash_value (heap m i) = None \<and> block_hash (heap m i) = None"
    using clear_returns [OF d(3), of b] by blast
  have e: "enable_caching m" "0 < block_size m" using m(7) kv_okD(1,2) [OF d(2)] by (simp_all add: tables_eq_def)
  let ?c = "c\<lparr>stored := Map.empty, prefix_index := Map.empty, pending := Map.empty, paged := m\<rparr>"
  have res: "(r, c') = (Inr (), if b then block_cache_reset_stats ?c else ?c)"
    using r m(1) by (simp add: block_cache_clear_def on_paged_def)
  have he: "hard_eq m (reset_stats m)" by (simp add: reset_stats_def hard_eq_def)
  have "block_cache_inv sha U rows c2" if "paged c2 = m \<or> paged c2 = reset_stats m"
    "stored c2 = Map.empty" "pending c2 = Map.empty" for c2
    using that m e hard_eq_paged_inv [OF m(2) he]
    by (intro block_cache_inv_empty [of "paged c2"]) (auto simp: reset_stats_def)
  then show "block_cache_inv sha U rows c'" using res by (auto simp: block_cache_reset_stats_def)
  show "r = Inr ()" "allocated_blocks (paged c') = {null_block (paged c')}" "stored c' = Map.empty"
    "prefix_index c' = Map.empty" "pending c' = Map.empty"
    using res m by (auto simp: block_cache_reset_stats_def reset_stats_def)
qed

text \<open>Statistics, reading a fetched cache back, and memory pressure on the manager.\<close>

lemma stats_owned:
  assumes "owned m"
  shows "owned (reset_stats m)" "inert m (reset_stats m)" "others rid m (reset_stats m)"
  by (rule owned_hard [OF assms]) (simp_all add: reset_stats_def hard_eq_def inert_def others_def)

lemma reset_stats_inv:
  assumes i: "block_cache_inv sha U rows c"
  shows "block_cache_inv sha U rows (block_cache_reset_stats c)"
proof -
  note d = block_cache_invD [OF i]
  note o = stats_owned [OF d(1)]
  show ?thesis
    using i o(1) kv_ok_inert [OF d(2) o(2)]
    by (simp add: block_cache_inv_def block_cache_reset_stats_def) (simp add: reset_stats_def)
qed

lemma reconstruct_inv:
  assumes i: "block_cache_inv sha U rows c" and r: "reconstruct_cache ops a c = (v, c')"
  shows "block_cache_inv sha U rows c'"
proof -
  note d = block_cache_invD [OF i]
  have "paged c' = paged c" "stored c' = stored c" "\<forall>rid. pending c' rid \<noteq> None \<longrightarrow> pending c rid \<noteq> None"
    using r by (auto simp: reconstruct_cache_def Let_def split: if_splits option.splits)
  then show ?thesis using i by (auto simp: block_cache_inv_def)
qed

lemma pressure_inv:
  assumes i: "block_cache_inv sha U rows c" and r: "release_pressure_blocks n (paged c) = (v, m)"
  shows "block_cache_inv sha U rows (c\<lparr>paged := m\<rparr>)"
proof -
  note d = block_cache_invD [OF i]
  have "owned m \<and> kv_ok sha U rows m \<and> tables_eq (paged c) m"
    using release_pressure_kv [OF d(1,2) r] release_loop_kv [OF d(2), of "fuel_of (paged c)" n "nxt (paged c) fake_head" 0] r
    by (auto simp: release_pressure_blocks_def)
  then show ?thesis using i by (auto simp: block_cache_inv_def tables_eq_def)
qed

end
