(* ===== verification/BlockTensors.thy ===== *)
theory BlockTensors
  imports BlockRun
begin

text \<open>
  The tensors the block cache handles: what the code relies on of MLX slicing and concatenation
  (\<open>kv_laws\<close>), the rows a block holds and the caches a request has under these laws, and the proof that
  rebuilding the blocks of a prefix gives the caches of the prefix.
\<close>

section \<open>The laws\<close>

text \<open>The consecutive slices of a tensor with the extents \<open>ns\<close>, from position \<open>e\<close>.\<close>

fun cuts :: "'t tensor_ops \<Rightarrow> 't \<Rightarrow> nat \<Rightarrow> nat list \<Rightarrow> 't list" where
  "cuts ops t e [] = []"
| "cuts ops t e (n # ns) = seq_slice ops (int e) (int (e + n)) t # cuts ops t (e + n) ns"

text \<open>
  \<open>K l p\<close> and \<open>V l p\<close> are the key and value tensors of layer \<open>l\<close> after the tokens \<open>p\<close>. They have four axes
  with the tokens along the third, slices too; the rows up to \<open>b\<close> depend on the tokens up to \<open>b\<close>
  only; and concatenating all consecutive slices gives the tensor back, if it does not raise.
\<close>

definition tensor_laws :: "'t tensor_ops \<Rightarrow> (int list \<Rightarrow> 't) \<Rightarrow> bool" where
  "tensor_laws ops T \<longleftrightarrow>
     (\<forall>p. length (shape ops (T p)) = 4 \<and> shape ops (T p) ! 2 = length p) \<and>
     (\<forall>p a b. a < b \<and> b \<le> length p \<longrightarrow> length (shape ops (seq_slice ops (int a) (int b) (T p))) = 4 \<and>
        seq_slice ops (int a) (int b) (T p) = seq_slice ops (int a) (int b) (T (take b p))) \<and>
     (\<forall>p ns. ns \<noteq> [] \<and> 0 \<notin> set ns \<and> sum_list ns = length p \<longrightarrow>
        concatenate ops (cuts ops (T p) 0 ns) \<in> {None, Some (T p)})"

definition kv_laws :: "'t tensor_ops \<Rightarrow> nat \<Rightarrow> (nat \<Rightarrow> int list \<Rightarrow> 't) \<Rightarrow> (nat \<Rightarrow> int list \<Rightarrow> 't) \<Rightarrow> bool" where
  "kv_laws ops nl K V \<longleftrightarrow> has_mlx ops \<and> 0 < nl \<and> (\<forall>l<nl. tensor_laws ops (K l) \<and> tensor_laws ops (V l))"

text \<open>The rows of the last \<open>n\<close> of the tokens \<open>p\<close>, the caches after \<open>p\<close>, and the argument a caller stores.\<close>

definition kv_rows_of :: "'t tensor_ops \<Rightarrow> nat \<Rightarrow> (nat \<Rightarrow> int list \<Rightarrow> 't) \<Rightarrow> (nat \<Rightarrow> int list \<Rightarrow> 't) \<Rightarrow> 't kv_rows" where
  "kv_rows_of ops nl K V p n =
     (let cut = seq_slice ops (int (length p - n)) (int (length p))
      in map (\<lambda>l. (cut (K l p), cut (V l p))) [0..<nl])"

definition kv_full :: "nat \<Rightarrow> (nat \<Rightarrow> int list \<Rightarrow> 't) \<Rightarrow> (nat \<Rightarrow> int list \<Rightarrow> 't) \<Rightarrow> int list \<Rightarrow> 't kv_cache list" where
  "kv_full nl K V p = map (\<lambda>l. \<lparr>kv_keys = K l p, kv_values = V l p, offset = length p\<rparr>) [0..<nl]"

definition kv_arg :: "nat \<Rightarrow> (nat \<Rightarrow> int list \<Rightarrow> 't) \<Rightarrow> (nat \<Rightarrow> int list \<Rightarrow> 't) \<Rightarrow> int list \<Rightarrow> 't cache_arg" where
  "kv_arg nl K V p = Some (map (\<lambda>l. Some \<lparr>class_name = Some ''KVCache'',
     state = Some (Sequence [Some (K l p), Some (V l p)])\<rparr>) [0..<nl])"

lemma tensor_lawsD:
  assumes "tensor_laws ops T"
  shows "length (shape ops (T p)) = 4" "shape ops (T p) ! 2 = length p"
    "a < b \<Longrightarrow> b \<le> length p \<Longrightarrow> length (shape ops (seq_slice ops (int a) (int b) (T p))) = 4"
    "a < b \<Longrightarrow> b \<le> length p \<Longrightarrow> seq_slice ops (int a) (int b) (T (take b p)) = seq_slice ops (int a) (int b) (T p)"
    "ns \<noteq> [] \<Longrightarrow> 0 \<notin> set ns \<Longrightarrow> sum_list ns = length p \<Longrightarrow> concatenate ops (cuts ops (T p) 0 ns) \<in> {None, Some (T p)}"
  using assms unfolding tensor_laws_def by metis+

lemma kv_lawsD:
  assumes "kv_laws ops nl K V"
  shows "has_mlx ops" "0 < nl" "l < nl \<Longrightarrow> tensor_laws ops (K l)" "l < nl \<Longrightarrow> tensor_laws ops (V l)"
  using assms by (simp_all add: kv_laws_def)

section \<open>Storing\<close>

lemma those_map: "(\<And>x. x \<in> set xs \<Longrightarrow> f x = Some (g x)) \<Longrightarrow> those (map f xs) = Some (map g xs)"
  by (induction xs) auto

lemma kv_layer_arg:
  assumes "kv_laws ops nl K V" and "l < nl"
  shows "kv_layer ops (Some \<lparr>class_name = Some ''KVCache'', state = Some (Sequence [Some (K l p), Some (V l p)])\<rparr>) =
    Some (''KVCache'', K l p, V l p, length p)"
  using tensor_lawsD(1,2) [OF kv_lawsD(3) [OF assms]] tensor_lawsD(1,2) [OF kv_lawsD(4) [OF assms]]
  by (simp add: kv_layer_def cache_state_seq_axis_def SEQ_AXIS_KV_CLASSES_def)

lemma kv_arg_validates:
  assumes k: "kv_laws ops nl K V"
  shows "validate_blockizable_layout ops (kv_arg nl K V p) = Some (''KVCache'', length p)"
proof -
  note n = kv_lawsD(1,2) [OF k]
  have "those (map (kv_layer ops) (map (\<lambda>l. Some \<lparr>class_name = Some ''KVCache'',
      state = Some (Sequence [Some (K l p), Some (V l p)])\<rparr>) [0..<nl])) =
      Some (map (\<lambda>l. (''KVCache'', K l p, V l p, length p)) [0..<nl])"
    unfolding map_map by (rule those_map) (simp add: kv_layer_arg [OF k])
  moreover have "Min ((\<lambda>l. length p) ` {0..<nl}) = length p" using n by (simp add: image_constant_conv)
  ultimately show ?thesis
    using n by (simp add: validate_blockizable_layout_def kv_arg_def last_map comp_def)
qed

lemma kv_arg_faithful:
  assumes k: "kv_laws ops nl K V" and p: "take (length toks) p = toks"
  shows "faithful ops (kv_rows_of ops nl K V) toks (kv_arg nl K V p)"
  unfolding faithful_def
proof (intro allI impI)
  fix x y d
  assume a: "x < y \<and> y \<le> length toks \<and> extract_block_tensor_slice ops (kv_arg nl K V p) (int x) (int y) = Some d"
  have le: "length toks \<le> length p" using p by (metis length_take min.cobounded1)
  have tk: "take y toks = take y p" using a p by (metis min.absorb1 take_take)
  have e: "seq_slice ops (int x) (int y) (T (take y toks)) = seq_slice ops (int x) (int y) (T p)"
    if "tensor_laws ops T" for T using tensor_lawsD(4) [OF that, of x y p] a le unfolding tk by simp
  have "those (map (\<lambda>layer. case kv_layer ops layer of None \<Rightarrow> None
            | Some (_, k, v, n) \<Rightarrow> if int n < int y then None
                else Some (seq_slice ops (int x) (int y) k, seq_slice ops (int x) (int y) v))
          (map (\<lambda>l. Some \<lparr>class_name = Some ''KVCache'', state = Some (Sequence [Some (K l p), Some (V l p)])\<rparr>) [0..<nl])) =
      Some (map (\<lambda>l. (seq_slice ops (int x) (int y) (K l (take y toks)), seq_slice ops (int x) (int y) (V l (take y toks)))) [0..<nl])"
    unfolding map_map
    by (rule those_map) (use a le in \<open>simp add: kv_layer_arg [OF k] e [OF kv_lawsD(3) [OF k]] e [OF kv_lawsD(4) [OF k]]\<close>)
  then have "d = map (\<lambda>l. (seq_slice ops (int x) (int y) (K l (take y toks)), seq_slice ops (int x) (int y) (V l (take y toks)))) [0..<nl]"
    using a kv_lawsD(1,2) [OF k] by (simp add: extract_block_tensor_slice_def kv_arg_def)
  then show "d = kv_rows_of ops nl K V (take y toks) (y - x)"
    using a by (simp add: kv_rows_of_def Let_def min_absorb2 of_nat_diff)
qed

section \<open>Rebuilding\<close>

lemma span_rows_layer:
  assumes k: "kv_laws ops nl K V" and l: "l < nl"
  shows "0 \<notin> set ns \<Longrightarrow> e + sum_list ns \<le> length p \<Longrightarrow>
    map (\<lambda>d. fst (d ! l)) (span_rows (kv_rows_of ops nl K V) p e ns) = cuts ops (K l p) e ns \<and>
    map (\<lambda>d. snd (d ! l)) (span_rows (kv_rows_of ops nl K V) p e ns) = cuts ops (V l p) e ns"
proof (induction ns arbitrary: e)
  case (Cons n ns)
  have "seq_slice ops (int e) (int (e + n)) (T (take (e + n) p)) = seq_slice ops (int e) (int (e + n)) (T p)"
    if "tensor_laws ops T" for T
    using tensor_lawsD(4) [OF that, of e "e + n" p] Cons.prems by simp
  from this [OF kv_lawsD(3) [OF k l]] this [OF kv_lawsD(4) [OF k l]] show ?case
    using Cons.IH [of "e + n"] Cons.prems l by (simp add: kv_rows_of_def Let_def min_absorb2 add.assoc)
qed simp

lemma span_rows_lengths: "d \<in> set (span_rows (kv_rows_of ops nl K V) p e ns) \<Longrightarrow> length d = nl"
  by (induction ns arbitrary: e) (auto simp: kv_rows_of_def Let_def)

lemma cuts_prefix:
  assumes "tensor_laws ops T"
  shows "0 \<notin> set ns \<Longrightarrow> e + sum_list ns \<le> L \<Longrightarrow> L \<le> length p \<Longrightarrow> cuts ops (T (take L p)) e ns = cuts ops (T p) e ns"
proof (induction ns arbitrary: e)
  case (Cons n ns)
  have "seq_slice ops (int e) (int (e + n)) (T (take (e + n) p)) = seq_slice ops (int e) (int (e + n)) (T p)"
    "seq_slice ops (int e) (int (e + n)) (T (take (e + n) (take L p))) = seq_slice ops (int e) (int (e + n)) (T (take L p))"
    using tensor_lawsD(4) [OF assms, of e "e + n" p] tensor_lawsD(4) [OF assms, of e "e + n" "take L p"] Cons.prems by simp_all
  moreover have "take (e + n) (take L p) = take (e + n) p" using Cons.prems by (simp add: min_absorb1)
  ultimately show ?case using Cons.IH [of "e + n"] Cons.prems by (simp add: add.assoc)
qed simp

lemma rebuild_span:
  assumes k: "kv_laws ops nl K V" and ns: "0 \<notin> set ns" "ns \<noteq> []" "sum_list ns \<le> length p"
  shows "rebuild_layers ops (span_rows (kv_rows_of ops nl K V) p 0 ns) \<in> {None, Some (kv_full nl K V (take (sum_list ns) p))}"
    "(\<And>ts. concatenate ops ts \<noteq> None) \<Longrightarrow> rebuild_layers ops (span_rows (kv_rows_of ops nl K V) p 0 ns) \<noteq> None"
proof -
  let ?data = "span_rows (kv_rows_of ops nl K V) p 0 ns" and ?P = "take (sum_list ns) p"
  let ?full = "\<lambda>l. \<lparr>kv_keys = K l ?P, kv_values = V l ?P, offset = length ?P\<rparr>"
  obtain n ms where n: "ns = n # ms" using ns(2) by (cases ns) auto
  have ne: "?data \<noteq> []" by (simp add: n)
  have hl: "length (hd ?data) = nl" by (rule span_rows_lengths [OF hd_in_set [OF ne]])
  have lay: "rebuild_layer ops ?data l \<in> {None, Some (Some (?full l))}"
    "(\<And>ts. concatenate ops ts \<noteq> None) \<Longrightarrow> rebuild_layer ops ?data l = Some (Some (?full l))" if l: "l < nl" for l
  proof -
    note tl = kv_lawsD(3) [OF k l] kv_lawsD(4) [OF k l]
    have fl: "filter (\<lambda>d. l < length d) ?data = ?data" by (rule filter_True) (use l span_rows_lengths in blast)
    have eq: "map (\<lambda>d. fst (d ! l)) ?data = cuts ops (K l ?P) 0 ns" "map (\<lambda>d. snd (d ! l)) ?data = cuts ops (V l ?P) 0 ns"
      using span_rows_layer [OF k l ns(1), of 0 p] ns cuts_prefix [OF tl(1) ns(1), of 0 "sum_list ns" p]
        cuts_prefix [OF tl(2) ns(1), of 0 "sum_list ns" p] by simp_all
    have hd: "fst (hd ?data ! l) = seq_slice ops (int 0) (int n) (K l (take n p))"
      "snd (hd ?data ! l) = seq_slice ops (int 0) (int n) (V l (take n p))"
      using l ns(3) by (simp_all add: n kv_rows_of_def Let_def min_absorb2)
    have sh: "length (shape ops (fst (hd ?data ! l))) = 4" "length (shape ops (snd (hd ?data ! l))) = 4"
      unfolding hd using tensor_lawsD(3) [OF tl(1), of 0 n "take n p"] tensor_lawsD(3) [OF tl(2), of 0 n "take n p"] ns n
      by simp_all
    have lp: "sum_list ns = length ?P" using ns(3) by simp
    note ck = tensor_lawsD(5) [OF tl(1) ns(2,1) lp] tensor_lawsD(5) [OF tl(2) ns(2,1) lp]
    have st: "rebuild_layer ops ?data l = (case (concatenate ops (cuts ops (K l ?P) 0 ns), concatenate ops (cuts ops (V l ?P) 0 ns)) of
        (Some k, Some v) \<Rightarrow> Some (Some \<lparr>kv_keys = k, kv_values = v, offset = shape ops k ! 2\<rparr>) | _ \<Rightarrow> None)"
      unfolding rebuild_layer_def fl Let_def map_map comp_def eq
      using ne sh by (simp add: hd_map cache_state_seq_axis_def)
    have K2: "shape ops (K l ?P) ! 2 = length ?P" by (rule tensor_lawsD(2) [OF tl(1)])
    show "rebuild_layer ops ?data l \<in> {None, Some (Some (?full l))}"
      unfolding st using ck K2 by auto
    show "rebuild_layer ops ?data l = Some (Some (?full l))" if "\<And>ts. concatenate ops ts \<noteq> None"
      unfolding st using ck K2 that by auto
  qed
  have mf: "List.map_filter (\<lambda>x. x) (map (\<lambda>l. Some (?full l)) [0..<nl]) = kv_full nl K V ?P"
    by (simp add: kv_full_def map_filter_def comp_def)
  have nf: "kv_full nl K V ?P \<noteq> []" using kv_lawsD(2) [OF k] by (simp add: kv_full_def)
  have st: "rebuild_layers ops ?data = (case those (map (rebuild_layer ops ?data) [0..<nl]) of None \<Rightarrow> None
      | Some caches \<Rightarrow> let cs = List.map_filter (\<lambda>x. x) caches in if cs = [] then None else Some cs)"
    using ne hl kv_lawsD(2) [OF k] by (auto simp: rebuild_layers_def)
  have al: "rebuild_layers ops ?data = Some (kv_full nl K V ?P)"
    if a: "\<forall>l<nl. rebuild_layer ops ?data l = Some (Some (?full l))"
  proof -
    have "those (map (rebuild_layer ops ?data) [0..<nl]) = Some (map (\<lambda>l. Some (?full l)) [0..<nl])"
      by (rule those_map) (use a in simp)
    then show ?thesis using nf unfolding st by (simp only: option.case Let_def mf if_False)
  qed
  have fail: "those (map f ls) = None" if "l \<in> set ls" "f l = None" for f :: "nat \<Rightarrow> 't kv_cache option option" and l ls
    using that by (induction ls) (auto split: option.splits)
  show "rebuild_layers ops ?data \<in> {None, Some (kv_full nl K V ?P)}"
  proof (cases "\<forall>l<nl. rebuild_layer ops ?data l = Some (Some (?full l))")
    case True
    then show ?thesis using al by simp
  next
    case False
    then obtain l where l: "l < nl" "rebuild_layer ops ?data l = None" using lay(1) by blast
    then have "l \<in> set [0..<nl]" by simp
    from fail [OF this, of "rebuild_layer ops ?data"] l(2)
    have "those (map (rebuild_layer ops ?data) [0..<nl]) = None" by simp
    then show ?thesis by (simp add: st)
  qed
  show "rebuild_layers ops ?data \<noteq> None" if "\<And>ts. concatenate ops ts \<noteq> None" using al lay(2) that by simp
qed

end
