(* ===== verification/BlockCacheCorrect.thy ===== *)
theory BlockCacheCorrect
  imports BlockTensors
begin

text \<open>
  \<^bold>\<open>What \<open>BlockAwarePrefixCache\<close> promises.\<close> A run starts from a fresh manager with caching on and
  takes any sequence of operations, over token lists of a universe \<open>U\<close> on which the truncated identity
  hash is collision free, with stored tensors that are the rows of their tokens. The claims: references
  are exactly the table entries, so nothing leaks; a fetch that hits returns the rows of the prefix it
  took off the request; a miss gives every reference back; what one request stored another one fetches;
  a fork shares and a fork onto itself does nothing.
\<close>

section \<open>Runs\<close>

text \<open>
  A store that raises after replacing an empty table is not a step: the stored entry of its request
  then names a table that is no longer registered.
\<close>

inductive block_cache_step :: "(bytes \<Rightarrow> digest) \<Rightarrow> 't tensor_ops \<Rightarrow> int list set \<Rightarrow> 't kv_rows \<Rightarrow> 't block_cache \<Rightarrow>
    't block_cache \<Rightarrow> bool" for sha ops U rows where
  bcs_fetch: "toks \<in> U \<Longrightarrow> fetch_cache sha ops rid toks c = (r, c') \<Longrightarrow> block_cache_step sha ops U rows c c'"
| bcs_store: "toks \<in> U \<Longrightarrow> faithful ops rows toks cd \<Longrightarrow> store_cache sha ops ev rid toks cd c = (r, c') \<Longrightarrow>
    \<not> (empty_table rid (paged c) \<and> r = Inl ValueError) \<Longrightarrow> block_cache_step sha ops U rows c c'"
| bcs_release: "release_cache rid c = (r, c') \<Longrightarrow> block_cache_step sha ops U rows c c'"
| bcs_fork: "fork_cache src new c = (r, c') \<Longrightarrow> block_cache_step sha ops U rows c c'"
| bcs_reconstruct: "reconstruct_cache ops a c = (r, c') \<Longrightarrow> block_cache_step sha ops U rows c c'"
| bcs_pin: "toks \<in> U \<Longrightarrow> pin_prefix sha toks c = (r, c') \<Longrightarrow> block_cache_step sha ops U rows c c'"
| bcs_unpin: "toks \<in> U \<Longrightarrow> unpin_prefix sha toks c = (r, c') \<Longrightarrow> block_cache_step sha ops U rows c c'"
| bcs_stats: "block_cache_get_stats c = (r, c') \<Longrightarrow> block_cache_step sha ops U rows c c'"
| bcs_reset: "block_cache_step sha ops U rows c (block_cache_reset_stats c)"
| bcs_clear: "block_cache_clear b c = (r, c') \<Longrightarrow> block_cache_step sha ops U rows c c'"
| bcs_pressure: "release_pressure_blocks n (paged c) = (r, m) \<Longrightarrow> block_cache_step sha ops U rows c (c\<lparr>paged := m\<rparr>)"

inductive block_cache_run :: "(bytes \<Rightarrow> digest) \<Rightarrow> 't tensor_ops \<Rightarrow> int list set \<Rightarrow> 't kv_rows \<Rightarrow> 't block_cache \<Rightarrow> bool"
  for sha ops U rows where
  bcr_init: "manager_init bs mb True = Inr m \<Longrightarrow> 0 < bs \<Longrightarrow> block_cache_run sha ops U rows (block_cache_init m)"
| bcr_step: "block_cache_run sha ops U rows c \<Longrightarrow> block_cache_step sha ops U rows c c' \<Longrightarrow> block_cache_run sha ops U rows c'"

lemma get_stats_inv:
  assumes i: "block_cache_inv sha U rows c" and g: "block_cache_get_stats c = (r, c')"
  shows "block_cache_inv sha U rows c'"
proof -
  note d = block_cache_invD [OF i]
  have "snd (get_memory_usage (paged c)) = snd (get_stats (paged c))"
    by (simp add: get_memory_usage_def split: prod.split)
  also obtain f where "snd (get_stats (paged c)) = upd_stats f (paged c)"
    by (rule that) (simp add: get_stats_def Let_def)
  finally have m: "snd (get_memory_usage (paged c)) = upd_stats f (paged c)" .
  have p: "paged c' = upd_stats f (paged c)" "stored c' = stored c" "pending c' = pending c"
    using g m by (auto simp: block_cache_get_stats_def on_paged_def obind_def split: prod.splits sum.splits)
  have "hard_eq (paged c) (upd_stats f (paged c))" using get_memory_usage_hard [OF d(3)] m by simp
  from owned_hard [OF d(1) this] have "owned (upd_stats f (paged c))" by simp
  moreover have "kv_ok sha U rows (upd_stats f (paged c))" by (rule kv_ok_inert [OF d(2) inert_count(1)])
  ultimately show ?thesis using i by (auto simp: block_cache_inv_def p)
qed

lemma fetch_inv:
  assumes u: "universe sha U" and p: "toks \<in> U" and i: "block_cache_inv sha U rows c"
    and f: "fetch_cache sha ops rid toks c = (r, c')"
  shows "block_cache_inv sha U rows c'"
proof (cases "toks = []")
  case True
  then show ?thesis using f i by (simp add: fetch_cache_def)
next
  case False
  show ?thesis by (rule fetch_cache_spec [OF u p False i, of ops rid]) (use f in simp_all)
qed

lemma block_cache_step_inv:
  assumes u: "universe sha U" and s: "block_cache_step sha ops U rows c c'" and i: "block_cache_inv sha U rows c"
  shows "block_cache_inv sha U rows c'"
  using s
proof cases
  case (bcs_fetch toks rid r)
  then show ?thesis using fetch_inv [OF u _ i] by blast
next
  case (bcs_store toks cd ev rid r)
  then show ?thesis using store_cache_spec(3) [OF u _ i] by blast
next
  case (bcs_release rid r)
  show ?thesis by (rule release_cache_spec [OF i, of rid]) (use bcs_release in simp)
next
  case (bcs_fork src new r)
  then show ?thesis using fork_cache_spec(1) [OF i] by blast
next
  case (bcs_reconstruct a r)
  then show ?thesis using reconstruct_inv [OF i] by blast
next
  case (bcs_pin toks r)
  show ?thesis by (rule pin_prefix_spec [OF u bcs_pin(1) i]) (use bcs_pin(2) in simp)
next
  case (bcs_unpin toks r)
  show ?thesis by (rule unpin_prefix_spec [OF u bcs_unpin(1) i]) (use bcs_unpin(2) in simp)
next
  case (bcs_stats r)
  then show ?thesis using get_stats_inv [OF i] by blast
next
  case bcs_reset
  then show ?thesis using reset_stats_inv [OF i] by simp
next
  case (bcs_clear b r)
  then show ?thesis using block_cache_clear_spec(2) [OF i] by blast
next
  case (bcs_pressure n r m)
  then show ?thesis using pressure_inv [OF i] by simp
qed

lemma block_cache_run_inv:
  "universe sha U \<Longrightarrow> block_cache_run sha ops U rows c \<Longrightarrow> block_cache_inv sha U rows c"
  by (rotate_tac, induction rule: block_cache_run.induct) (auto intro: block_cache_init_inv block_cache_step_inv)

section \<open>Prefixes of one request\<close>

text \<open>All prefixes of a token list, a universe when their identities differ.\<close>

definition prefixes_of :: "int list \<Rightarrow> int list list" where
  "prefixes_of xs = map (\<lambda>n. take n xs) [0..<Suc (length xs)]"

lemma prefixes_universe:
  assumes t: "token_bytes xs = Inr h" and d: "distinct (map (identity sha) (prefixes_of xs))"
  shows "universe sha (set (prefixes_of xs))"
proof -
  have mem: "take n xs \<in> set (prefixes_of xs)" for n
    unfolding prefixes_of_def set_map by (rule image_eqI [of _ _ "min n (length xs)"]) (auto simp: min_def)
  have tb: "\<exists>h. token_bytes (take n xs) = Inr h" for n
    using t token_bytes_append [of "take n xs" "drop n xs"] by (auto split: sum.splits)
  have el: "\<exists>n. p = take n xs" if "p \<in> set (prefixes_of xs)" for p
    using that by (auto simp: prefixes_of_def simp del: upt_Suc)
  show ?thesis
    unfolding universe_def
  proof (intro conjI ballI allI)
    fix p k
    assume "p \<in> set (prefixes_of xs)"
    then obtain n where "p = take n xs" using el by blast
    then show "\<exists>h. token_bytes p = Inr h" "take k p \<in> set (prefixes_of xs)" using tb mem by simp_all
  next
    show "inj_on (identity sha) (set (prefixes_of xs))" using d by (simp only: distinct_map)
  qed
qed

text \<open>
  A concrete instance, for the witnesses: the digest is the last byte of the input, tensors are lists of
  tokens, one layer whose keys and values after \<open>p\<close> are \<open>p\<close>.
\<close>

definition last_byte :: "bytes \<Rightarrow> digest" where
  "last_byte bs = take 1 (rev bs)"

definition list_ops :: "int list tensor_ops" where
  "list_ops = \<lparr>has_mlx = True, shape = (\<lambda>t. [1, 1, length t, 1]), seq_slice = (\<lambda>a b t. slice t (nat a) (nat b)),
     concatenate = (\<lambda>ts. Some (concat ts))\<rparr>"

abbreviation list_rows :: "int list kv_rows" where
  "list_rows \<equiv> kv_rows_of list_ops 1 (\<lambda>_ p. p) (\<lambda>_ p. p)"

abbreviation list_arg :: "int list \<Rightarrow> int list cache_arg" where
  "list_arg \<equiv> kv_arg 1 (\<lambda>_ p. p) (\<lambda>_ p. p)"

definition demo_tokens :: "int list" where
  "demo_tokens = [11, 12]"

definition demo_universe :: "int list set" where
  "demo_universe = set (prefixes_of demo_tokens)"

lemma demo_is_universe: "universe last_byte demo_universe"
proof -
  obtain h where "token_bytes demo_tokens = Inr h" by (simp add: demo_tokens_def to_bytes4_def Let_def)
  moreover have "distinct (map (identity last_byte) (prefixes_of demo_tokens))" by code_simp
  ultimately show ?thesis unfolding demo_universe_def by (rule prefixes_universe)
qed

lemma demo_in_universe: "take n demo_tokens \<in> demo_universe"
  unfolding demo_universe_def prefixes_of_def set_map
  by (rule image_eqI [of _ _ "min n (length demo_tokens)"]) (auto simp: min_def)

lemma demo_tokens_in: "demo_tokens \<in> demo_universe"
  using demo_in_universe [of "length demo_tokens"] by simp

lemma list_cuts: "concat (cuts list_ops t e ns) = slice t e (e + sum_list ns)"
proof (induction ns arbitrary: e)
  case (Cons n ns)
  then show ?case using slice_append [of e "e + n" "e + n + sum_list ns" t] by (simp add: list_ops_def add.assoc nat_add_distrib)
qed (simp add: slice_def)

lemma list_laws: "kv_laws list_ops 1 (\<lambda>_ p. p) (\<lambda>_ p. p)"
proof -
  have "concatenate list_ops (cuts list_ops p 0 ns) = Some p" if "sum_list ns = length p" for p ns
    using list_cuts [of p 0 ns] that by (simp add: list_ops_def slice_def)
  moreover have "slice (take b p) a b = slice p a b" for a b :: nat and p :: "int list"
    by (simp add: slice_def drop_take)
  ultimately show ?thesis by (simp add: kv_laws_def tensor_laws_def) (simp add: list_ops_def)
qed

definition empty_demo :: "int list block_cache" where
  "empty_demo = block_cache_init (fresh_manager 2 3 True)"

definition stored_demo :: "int list block_cache" where
  "stored_demo = snd (store_cache last_byte list_ops True ''r1'' demo_tokens (list_arg demo_tokens) empty_demo)"

lemma empty_demo_run: "block_cache_run last_byte list_ops demo_universe list_rows empty_demo"
  unfolding empty_demo_def by (rule bcr_init [OF fresh_manager_init]) simp_all

lemma demo_faithful: "faithful list_ops list_rows demo_tokens (list_arg demo_tokens)"
  by (rule kv_arg_faithful [OF list_laws]) simp

lemma stored_demo_result:
  "\<exists>a. store_cache last_byte list_ops True ''r1'' demo_tokens (list_arg demo_tokens) empty_demo = (Inr (Some a), stored_demo)"
proof -
  have "fst (store_cache last_byte list_ops True ''r1'' demo_tokens (list_arg demo_tokens) empty_demo) = Inr (Some 0)"
    by code_simp
  then show ?thesis by (metis prod.collapse stored_demo_def)
qed

lemma stored_demo_fields:
  "\<exists>a. stored stored_demo ''r1'' = Some a \<and> request_tables (paged stored_demo) ''r1'' = Some a"
proof -
  obtain a where st: "store_cache last_byte list_ops True ''r1'' demo_tokens (list_arg demo_tokens) empty_demo =
      (Inr (Some a), stored_demo)" using stored_demo_result by blast
  have i: "block_cache_inv last_byte demo_universe list_rows empty_demo"
    by (rule block_cache_run_inv [OF demo_is_universe empty_demo_run])
  from store_cache_spec(4) [OF demo_is_universe demo_tokens_in i demo_faithful st refl] show ?thesis by simp
qed

lemma stored_demo_run: "block_cache_run last_byte list_ops demo_universe list_rows stored_demo"
proof -
  obtain a where st: "store_cache last_byte list_ops True ''r1'' demo_tokens (list_arg demo_tokens) empty_demo =
      (Inr (Some a), stored_demo)" using stored_demo_result by blast
  from bcr_step [OF empty_demo_run bcs_store [OF demo_tokens_in demo_faithful st]] show ?thesis by simp
qed

lemma empty_demo_tables: "request_tables (paged empty_demo) = Map.empty"
proof -
  have "manager_init 2 3 True = Inr (fresh_manager 2 3 True :: int list manager)" by (rule fresh_manager_init) simp
  then show ?thesis
    using manager_init_ok [where 't = "int list", of 3 2 True] by (auto simp: empty_demo_def block_cache_init_def)
qed

lemma stored_demo_others: "request_tables (paged stored_demo) ''r2'' = None"
proof -
  obtain a where st: "store_cache last_byte list_ops True ''r1'' demo_tokens (list_arg demo_tokens) empty_demo =
      (Inr (Some a), stored_demo)" using stored_demo_result by blast
  have "others ''r1'' (paged empty_demo) (paged stored_demo)"
    using store_cache_spec(4) [OF demo_is_universe demo_tokens_in
        block_cache_run_inv [OF demo_is_universe empty_demo_run] demo_faithful st refl] by blast
  then show ?thesis by (simp add: others_def empty_demo_tables)
qed

section \<open>Ownership\<close>

lemma run_ownership:
  assumes u: "universe sha U" and r: "block_cache_run sha ops U rows c"
  shows "(b \<in> allocated_blocks (paged c) \<and> b \<noteq> null_block (paged c)) = (0 < owners (paged c) b)"
    and "b \<in> allocated_blocks (paged c) \<Longrightarrow> b \<noteq> null_block (paged c) \<Longrightarrow>
      ref (paged c) b = int (owners (paged c) b)"
    and "stored c rid = Some a \<Longrightarrow> request_tables (paged c) rid = Some a"
    and "request_tables (paged c) = Map.empty \<Longrightarrow> allocated_blocks (paged c) = {null_block (paged c)}"
proof -
  note d = block_cache_invD [OF block_cache_run_inv [OF u r]]
  note o = ownedD(3,4) [OF d(1)]
  have "0 < ref (paged c) b" if "held (paged c) b"
    using d(3) that by (auto simp: paged_inv_def pinvx_def held_def)
  then show "(b \<in> allocated_blocks (paged c) \<and> b \<noteq> null_block (paged c)) = (0 < owners (paged c) b)"
    using o(1) [of b] o(2) [of b] by (cases "held (paged c) b") (auto simp: held_def)
  show "ref (paged c) b = int (owners (paged c) b)"
    if "b \<in> allocated_blocks (paged c)" "b \<noteq> null_block (paged c)"
    using o(1) [of b] that by (simp add: held_def)
qed (use block_cache_invD(4) [OF block_cache_run_inv [OF u r]]
  owned_empty [OF block_cache_invD(1) [OF block_cache_run_inv [OF u r]]] in blast)+

text \<open>
  C27. In every reachable state of the block cache a block other than the null block is allocated
  exactly when some registered table lists it, its reference count is the number of times the
  registered tables list it, every stored request names a registered table, and with no table
  registered every block but the null block is free.
\<close>

theorem block_cache_no_leak:
  assumes "universe sha U" and "block_cache_run sha ops U rows c"
  shows "(b \<in> allocated_blocks (paged c) \<and> b \<noteq> null_block (paged c)) = (0 < owners (paged c) b) \<and>
    (b \<in> allocated_blocks (paged c) \<and> b \<noteq> null_block (paged c) \<longrightarrow> ref (paged c) b = int (owners (paged c) b)) \<and>
    (stored c rid = Some a \<longrightarrow> request_tables (paged c) rid = Some a) \<and>
    (request_tables (paged c) = Map.empty \<longrightarrow> allocated_blocks (paged c) = {null_block (paged c)})"
  using run_ownership [OF assms] by blast


lemma block_cache_no_leak_witness:
  "ref (paged stored_demo) 1 = int (owners (paged stored_demo) 1) \<and> 0 < owners (paged stored_demo) 1 \<and>
   request_tables (paged stored_demo) ''r1'' \<noteq> None \<and> allocated_blocks (paged empty_demo) = {null_block (paged empty_demo)}"
proof -
  note i = demo_is_universe stored_demo_run
  have b: "1 \<in> allocated_blocks (paged stored_demo) \<and> 1 \<noteq> null_block (paged stored_demo)" by code_simp
  obtain a where "stored stored_demo ''r1'' = Some a" using stored_demo_fields by blast
  moreover have "request_tables (paged empty_demo) = Map.empty" by (rule empty_demo_tables)
  ultimately show ?thesis
    using b block_cache_no_leak [OF i, of 1 "''r1''" a] block_cache_no_leak [OF demo_is_universe empty_demo_run] by simp
qed

section \<open>What a fetch returns\<close>

text \<open>
  C28. A fetch never raises. Where it misses, it returns no table and all of the request's tokens.
  Where it hits, it takes a non-empty prefix off the tokens, of the length its table records; the
  caches it keeps for the request, which the first reconstruction hands out, are exactly the key and
  value tensors of that prefix, whatever blocks it was put together from.
\<close>

theorem fetch_returns_prefix_kv:
  assumes "universe sha U" and "kv_laws ops nl K V" and "block_cache_run sha ops U (kv_rows_of ops nl K V) c"
    and "toks \<in> U" and "toks \<noteq> []" and "rid \<noteq> []" and "fetch_cache sha ops rid toks c = (r, c')"
  shows "r = Inr (None, toks) \<and> pending c' rid = None \<or>
    (\<exists>a n. r = Inr (Some a, drop n toks) \<and> 0 < n \<and> n \<le> length toks \<and> num_tokens (table_store (paged c') a) = int n \<and>
       bc_tokens_saved c' = bc_tokens_saved c + int n \<and>
       fst (reconstruct_cache ops a c') = Some (kv_full nl K V (take n toks)))"
proof (rule fetch_cache_spec [OF assms(1,4,5) block_cache_run_inv [OF assms(1,3)], of ops rid])
  fix c1
  assume "fetch_cache sha ops rid toks c = (Inr (None, toks), c1)" "pending c1 = (pending c)(rid := None)"
  then show ?thesis using assms(7) by simp
next
  fix a ns caches c1
  assume f: "fetch_cache sha ops rid toks c = (Inr (Some a, drop (sum_list ns) toks), c1)"
    and t: "request_id (table_store (paged c1) a) = rid" "num_tokens (table_store (paged c1) a) = int (sum_list ns)"
      "0 < sum_list ns" "sum_list ns \<le> length toks" "0 \<notin> set ns"
      "rebuild_layers ops (span_rows (kv_rows_of ops nl K V) toks 0 ns) = Some caches"
      "pending c1 = (pending c)(rid \<mapsto> caches)" "bc_tokens_saved c1 = bc_tokens_saved c + int (sum_list ns)"
  have "caches = kv_full nl K V (take (sum_list ns) toks)"
    using rebuild_span(1) [OF assms(2) t(5) _ t(4)] t(3,6) by fastforce
  moreover have "fst (reconstruct_cache ops a c1) = Some caches"
    using t(1,7) assms(6) by (simp add: reconstruct_cache_def Let_def)
  ultimately show ?thesis using f t assms(7) by auto
qed

lemma fetch_returns_prefix_kv_witness:
  "\<exists>r c'. fetch_cache last_byte list_ops ''r2'' demo_tokens stored_demo = (r, c') \<and>
    (r = Inr (None, demo_tokens) \<and> pending c' ''r2'' = None \<or>
     (\<exists>a n. r = Inr (Some a, drop n demo_tokens) \<and> 0 < n \<and>
       fst (reconstruct_cache list_ops a c') = Some (kv_full 1 (\<lambda>_ p. p) (\<lambda>_ p. p) (take n demo_tokens))))"
proof -
  obtain r c' where f: "fetch_cache last_byte list_ops ''r2'' demo_tokens stored_demo = (r, c')" by fastforce
  have "demo_tokens \<noteq> []" "''r2'' \<noteq> []" by (simp_all add: demo_tokens_def)
  from fetch_returns_prefix_kv [OF demo_is_universe list_laws stored_demo_run demo_tokens_in this f] f
  show ?thesis by blast
qed

lemma miss_restores:
  assumes u: "universe sha U" and c: "block_cache_run sha ops U rows c" and p: "toks \<in> U" "toks \<noteq> []"
    and n: "request_tables (paged c) rid = None" and f: "fetch_cache sha ops rid toks c = (Inr (None, toks), c')"
  shows "request_tables (paged c') = request_tables (paged c)"
    and "request_tables (paged c) r = Some a \<Longrightarrow> table_store (paged c') a = table_store (paged c) a"
    and "allocated_blocks (paged c') = allocated_blocks (paged c)"
    and "b \<in> allocated_blocks (paged c) \<Longrightarrow> b \<noteq> null_block (paged c) \<Longrightarrow> ref (paged c') b = ref (paged c) b"
    and "stored c' = stored c" and "prefix_index c' = prefix_index c" and "bc_hits c' = bc_hits c"
    and "bc_misses c' = bc_misses c + 1" and "bc_tokens_saved c' = bc_tokens_saved c"
proof -
  have i: "block_cache_inv sha U rows c" by (rule block_cache_run_inv [OF u c])
  note d = block_cache_invD [OF i]
  have "block_cache_inv sha U rows c' \<and> request_tables (paged c') = (request_tables (paged c))(rid := None) \<and>
      others rid (paged c) (paged c') \<and> inert (paged c) (paged c') \<and> stored c' = (stored c)(rid := None) \<and>
      prefix_index c' = prefix_index c \<and> bc_hits c' = bc_hits c \<and> bc_misses c' = bc_misses c + 1 \<and>
      bc_tokens_saved c' = bc_tokens_saved c"
    by (rule fetch_cache_spec [OF u p i, of ops rid]) (use f in simp_all)
  then have c': "block_cache_inv sha U rows c'" "request_tables (paged c') = (request_tables (paged c))(rid := None)"
    "others rid (paged c) (paged c')" "inert (paged c) (paged c')" "stored c' = (stored c)(rid := None)"
    "prefix_index c' = prefix_index c" "bc_hits c' = bc_hits c" "bc_misses c' = bc_misses c + 1"
    "bc_tokens_saved c' = bc_tokens_saved c" by simp_all
  show r: "request_tables (paged c') = request_tables (paged c)" using n by (simp add: c'(2) fun_upd_idem)
  have "stored c rid = None" using d(4) [of rid] n by (cases "stored c rid") auto
  then show "stored c' = stored c" by (simp add: c'(5) fun_upd_idem)
  have t: "table_store (paged c') a = table_store (paged c) a" if "request_tables (paged c) r = Some a" for r a
    using c'(3) that n unfolding others_def by (cases "r = rid") auto
  then show "request_tables (paged c) r = Some a \<Longrightarrow> table_store (paged c') a = table_store (paged c) a" .
  note o = owned_determined [OF d(1) block_cache_invD(1) [OF c'(1)] inert_fields(5) [OF c'(4)]]
  show "allocated_blocks (paged c') = allocated_blocks (paged c)" by (rule o(1)) (use r t in auto)
  show "b \<in> allocated_blocks (paged c) \<Longrightarrow> b \<noteq> null_block (paged c) \<Longrightarrow> ref (paged c') b = ref (paged c) b"
    by (rule o(2)) (use r t in auto)
  show "prefix_index c' = prefix_index c" "bc_hits c' = bc_hits c" "bc_misses c' = bc_misses c + 1"
    "bc_tokens_saved c' = bc_tokens_saved c" using c'(6-9) by simp_all
qed

text \<open>
  A fetch that misses gives everything back: for a request with no table of its own, every
  registered table, every allocated block, every reference count, the stored requests and the
  prefix index are what they were, and exactly one miss is counted.
\<close>

theorem fetch_miss_restores:
  assumes "universe sha U" and "block_cache_run sha ops U rows c" and "toks \<in> U" and "toks \<noteq> []"
    and "request_tables (paged c) rid = None" and "fetch_cache sha ops rid toks c = (Inr (None, toks), c')"
  shows "request_tables (paged c') = request_tables (paged c) \<and>
    (request_tables (paged c) r = Some a \<longrightarrow> table_store (paged c') a = table_store (paged c) a) \<and>
    allocated_blocks (paged c') = allocated_blocks (paged c) \<and>
    (b \<in> allocated_blocks (paged c) \<and> b \<noteq> null_block (paged c) \<longrightarrow> ref (paged c') b = ref (paged c) b) \<and>
    stored c' = stored c \<and> prefix_index c' = prefix_index c \<and> bc_hits c' = bc_hits c \<and>
    bc_misses c' = bc_misses c + 1 \<and> bc_tokens_saved c' = bc_tokens_saved c"
  using miss_restores [OF assms] by blast


text \<open>A candidate is found and its reconstruction fails: the concatenation raises.\<close>

definition failing_ops :: "int list tensor_ops" where
  "failing_ops = list_ops\<lparr>concatenate := (\<lambda>_. None)\<rparr>"

lemma failing_ops_simps [simp]:
  "has_mlx failing_ops = has_mlx list_ops" "shape failing_ops = shape list_ops"
  "seq_slice failing_ops = seq_slice list_ops" "concatenate failing_ops ts = None"
  by (simp_all add: failing_ops_def)

lemma failing_rebuild: "rebuild_layers failing_ops d = None"
proof -
  have "rebuild_layer failing_ops d i \<in> {None, Some None}" for i by (simp add: rebuild_layer_def Let_def)
  moreover have "\<forall>y\<in>set ys. y = None" if "those xs = Some ys" "\<forall>x\<in>set xs. x \<in> {None, Some None}"
    for xs :: "int list kv_cache option option list" and ys
    using that by (induction xs arbitrary: ys) (auto split: option.splits)
  ultimately have "\<forall>y\<in>set ys. y = None" if "those (map (rebuild_layer failing_ops d) is) = Some ys" for "is" ys
    using that by fastforce
  then show ?thesis by (auto simp: rebuild_layers_def Let_def map_filter_def split: option.split)
qed

lemma failing_same:
  "validate_blockizable_layout failing_ops = validate_blockizable_layout list_ops"
  "extract_block_tensor_slice failing_ops = extract_block_tensor_slice list_ops"
  unfolding fun_eq_iff validate_blockizable_layout_def extract_block_tensor_slice_def kv_layer_def
    cache_state_seq_axis_def failing_ops_simps by (rule allI refl)+

lemma failing_slices: "slice_loop failing_ops cd n e m is = slice_loop list_ops cd n e m is"
  by (induction "is") (simp_all add: Let_def failing_same split: option.split)

lemma failing_store: "store_cache sha failing_ops ev rid toks cd c = store_cache sha list_ops ev rid toks cd c"
  unfolding store_cache_def failing_same failing_slices failing_ops_simps ..

lemma fetch_miss_restores_witness:
  "\<exists>c'. fetch_cache last_byte failing_ops ''r2'' demo_tokens stored_demo = (Inr (None, demo_tokens), c') \<and>
     request_tables (paged c') = request_tables (paged stored_demo) \<and>
     ref (paged c') 1 = ref (paged stored_demo) 1 \<and> bc_misses c' = bc_misses stored_demo + 1"
proof -
  obtain a where st: "store_cache last_byte failing_ops True ''r1'' demo_tokens (list_arg demo_tokens) empty_demo =
      (Inr (Some a), stored_demo)" using stored_demo_result by (auto simp: failing_store)
  have "block_cache_run last_byte failing_ops demo_universe list_rows empty_demo"
    unfolding empty_demo_def by (rule bcr_init [OF fresh_manager_init]) simp_all
  moreover have "faithful failing_ops list_rows demo_tokens (list_arg demo_tokens)"
    using demo_faithful by (simp add: faithful_def failing_same)
  ultimately have run: "block_cache_run last_byte failing_ops demo_universe list_rows stored_demo"
    using bcr_step bcs_store [OF demo_tokens_in _ st] by blast
  have ne: "demo_tokens \<noteq> []" by (simp add: demo_tokens_def)
  note i = block_cache_run_inv [OF demo_is_universe run]
  obtain c' where f: "fetch_cache last_byte failing_ops ''r2'' demo_tokens stored_demo = (Inr (None, demo_tokens), c')"
    by (rule fetch_cache_spec [OF demo_is_universe demo_tokens_in ne i, of failing_ops "''r2''"])
      (use failing_rebuild in simp_all)
  have "1 \<in> allocated_blocks (paged stored_demo)" "1 \<noteq> null_block (paged stored_demo)" by code_simp+
  then show ?thesis
    using f fetch_miss_restores [OF demo_is_universe run demo_tokens_in ne stored_demo_others f, where b = 1] by blast
qed

section \<open>Storing, then fetching\<close>

lemma fetch_complete:
  assumes u: "universe sha U" and p: "toks \<in> U" and i: "block_cache_inv sha U rows c"
    and n: "request_tables (paged c) rid = None" and m: "has_mlx ops"
    and k: "0 < k" "k * block_size (paged c) \<le> length toks" "\<forall>j<k. \<exists>b. serves sha (paged c) toks j b"
    and rb: "\<And>ns. 0 \<notin> set ns \<Longrightarrow> ns \<noteq> [] \<Longrightarrow> sum_list ns \<le> length toks \<Longrightarrow>
      rebuild_layers ops (span_rows rows toks 0 ns) \<noteq> None"
  shows "\<exists>a n c'. fetch_cache sha ops rid toks c = (Inr (Some a, drop n toks), c') \<and> k * block_size (paged c) \<le> n \<and> n \<le> length toks"
proof -
  have ne: "toks \<noteq> []" using k(1,2) kv_okD(2) [OF block_cache_invD(2) [OF i]] by auto
  have fr: "(if stored c rid \<noteq> None \<or> pending c rid \<noteq> None \<or> get_block_table rid (paged c) \<noteq> None
      then release_cache rid c else (Inr (), c)) = (Inr (), c)"
    by (rule fresh_request [OF i, of rid]) (use n in simp)
  obtain r m' where ac: "acquire_candidate_blocks sha rid toks c = (Inr r, c\<lparr>paged := m'\<rparr>)"
    and rs: "\<And>a rest. r = Some (a, rest) \<Longrightarrow> request_tables m' rid = Some a \<and> request_id (table_store m' a) = rid \<and>
       block_ids (table_store m' a) \<noteq> [] \<and> spells rows m' toks 0 (block_ids (table_store m' a)) \<and>
       num_tokens (table_store m' a) = int (sum_list (map (extent m') (block_ids (table_store m' a)))) \<and>
       rest = drop (sum_list (map (extent m') (block_ids (table_store m' a)))) toks"
    and lg: "\<And>k. 0 < k \<Longrightarrow> k * block_size (paged c) \<le> length toks \<Longrightarrow> \<forall>j<k. \<exists>b. serves sha (paged c) toks j b \<Longrightarrow>
       \<exists>a rest. r = Some (a, rest) \<and> k * block_size (paged c) \<le> sum_list (map (extent m') (block_ids (table_store m' a)))"
    by (rule acquire_candidate_spec [OF u p i n]) (rule that; (assumption | blast))
  obtain a rest where r: "r = Some (a, rest)"
    and le: "k * block_size (paged c) \<le> sum_list (map (extent m') (block_ids (table_store m' a)))" using lg [OF k] by blast
  let ?t = "table_store m' a"
  let ?ns = "map (extent m') (block_ids ?t)"
  have t: "block_ids ?t \<noteq> []" "spells rows m' toks 0 (block_ids ?t)" "rest = drop (sum_list ?ns) toks" using rs [OF r] by simp_all
  have sm: "sum_list ?ns \<le> length toks" using spells_bound [OF t(2)] by simp
  have "rebuild_layers ops (span_rows rows toks 0 ?ns) \<noteq> None"
    by (rule rb [OF spells_extents [OF t(2)] _ sm]) (use t(1) in simp)
  then obtain caches where "reconstruct_from_table ops ?t m' = Some caches"
    using m t(1) collect_spells [OF t(2)] by (auto simp: reconstruct_from_table_def)
  then have "\<exists>c'. fetch_cache sha ops rid toks c = (Inr (Some a, drop (sum_list ?ns) toks), c')"
    unfolding fetch_cache_def fr using ne ac r t(3) by (simp add: Let_def)
  then show ?thesis using le sm by blast
qed

text \<open>
  C29. What one request stored, another one fetches. After a store of tokens under a request without
  a table that returned a table, a fetch under a new request whose tokens agree on the full blocks
  stored (at least one) hits, takes at least these blocks off its tokens, and the caches it gets are
  the key and value tensors of the prefix it took, provided concatenation does not raise.
\<close>

theorem store_then_fetch:
  assumes u: "universe sha U" and kv: "kv_laws ops nl K V" and cat: "\<And>ts. concatenate ops ts \<noteq> None"
    and c: "block_cache_run sha ops U (kv_rows_of ops nl K V) c"
    and p: "toks \<in> U" and n: "request_tables (paged c) rid = None" and arg: "take (length toks) p = toks"
    and st: "store_cache sha ops ev rid toks (kv_arg nl K V p) c = (Inr (Some a), c1)"
    and k: "k = nat (num_tokens (table_store (paged c1) a)) div block_size (paged c)" "0 < k"
    and q: "q \<in> U" "take (k * block_size (paged c)) q = take (k * block_size (paged c)) toks" "k * block_size (paged c) \<le> length q"
    and r: "rid2 \<noteq> rid" "rid2 \<noteq> []" "request_tables (paged c) rid2 = None"
  shows "\<exists>b m c2. fetch_cache sha ops rid2 q c1 = (Inr (Some b, drop m q), c2) \<and> k * block_size (paged c) \<le> m \<and> m \<le> length q \<and>
     fst (reconstruct_cache ops b c2) = Some (kv_full nl K V (take m q))"
proof -
  let ?n = "block_size (paged c)" and ?L = "storable_len ops toks (kv_arg nl K V p)"
  have i: "block_cache_inv sha U (kv_rows_of ops nl K V) c" by (rule block_cache_run_inv [OF u c])
  have fa: "faithful ops (kv_rows_of ops nl K V) toks (kv_arg nl K V p)" by (rule kv_arg_faithful [OF kv arg])
  note sp = store_cache_spec [OF u p i fa st]
  have run1: "block_cache_run sha ops U (kv_rows_of ops nl K V) c1"
    by (rule bcr_step [OF c bcs_store [OF p fa st]]) simp
  have i1: "block_cache_inv sha U (kv_rows_of ops nl K V) c1" by (rule block_cache_run_inv [OF u run1])
  have "request_tables (paged c1) rid2 = None" using sp(4) [OF refl] r by (simp add: others_def)
  note n2 = this
  obtain x where x: "stored_post sha toks ?L x rid a c c1" and ca: "calm (paged c) (paged c1)"
    using sp(5) [OF refl n] by blast
  have bz: "block_size (paged c1) = ?n" "0 < ?n" using ca kv_okD(2) [OF block_cache_invD(2) [OF i]] by (simp_all add: calm_def)
  let ?ids = "block_ids (table_store (paged c1) a)"
  note po = x [unfolded stored_post_def Let_def]
  let ?m = "min (length ?ids * ?n) ?L"
  have "nat (num_tokens (table_store (paged c1) a)) = ?m" using po by simp
  then have "k * ?n \<le> ?m" using div_times_less_eq_dividend [of ?m ?n] unfolding k(1) by (simp only:)
  then have kl: "k * ?n \<le> ?L" "k * ?n \<le> length ?ids * ?n" by linarith+
  have sv: "\<exists>b. serves sha (paged c1) q j b" if j: "j < k" for j
  proof -
    have "Suc j * ?n \<le> k * ?n" using j by (intro mult_le_mono1) simp
    then have le: "Suc j * ?n \<le> ?L" "Suc j * ?n \<le> length ?ids * ?n" using kl by linarith+
    have "Suc j \<le> length ?ids" using le(2) bz(2) mult_le_cancel2 [of "Suc j" ?n "length ?ids"] by blast
    then have "j < length ?ids" by simp
    then have "serves sha (paged c1) toks j (?ids ! j)" using po le by blast
    moreover have "take (Suc j * ?n) q = take (Suc j * ?n) toks"
      using q(2) \<open>Suc j * ?n \<le> k * ?n\<close> by (metis min.absorb1 take_take)
    ultimately show ?thesis by (auto simp: serves_def Let_def bz(1))
  qed
  have rb: "rebuild_layers ops (span_rows (kv_rows_of ops nl K V) q 0 ns) \<noteq> None"
    if "0 \<notin> set ns" "ns \<noteq> []" "sum_list ns \<le> length q" for ns
    by (rule rebuild_span(2) [OF kv that cat])
  obtain b m c2 where f: "fetch_cache sha ops rid2 q c1 = (Inr (Some b, drop m q), c2)" "k * ?n \<le> m" "m \<le> length q"
    using fetch_complete [OF u q(1) i1 n2 kv_lawsD(1) [OF kv] k(2) _ _ rb] q(3) sv bz(1) by auto
  have "q \<noteq> []" using q(3) k(2) bz(2) by auto
  then obtain ns caches where t: "request_id (table_store (paged c2) b) = rid2" "0 < sum_list ns" "sum_list ns \<le> length q"
    "0 \<notin> set ns" "rebuild_layers ops (span_rows (kv_rows_of ops nl K V) q 0 ns) = Some caches"
    "pending c2 rid2 = Some caches" "drop (sum_list ns) q = drop m q"
    by (rule fetch_cache_spec [OF u q(1) _ i1, of ops rid2]) (use f(1) in simp_all)
  have "length (drop (sum_list ns) q) = length (drop m q)" using t(7) by simp
  then have m: "sum_list ns = m" using t(3) f(3) by simp
  have "caches = kv_full nl K V (take m q)"
    using rebuild_span(1) [OF kv t(4) _ t(3)] t(2,5) m by fastforce
  then have "fst (reconstruct_cache ops b c2) = Some (kv_full nl K V (take m q))"
    using t(1,6) r(2) by (simp add: reconstruct_cache_def Let_def)
  then show ?thesis using f by blast
qed

lemma store_then_fetch_witness:
  "\<exists>b c2. fetch_cache last_byte list_ops ''r2'' demo_tokens stored_demo = (Inr (Some b, []), c2) \<and>
     fst (reconstruct_cache list_ops b c2) = Some [\<lparr>kv_keys = [11, 12], kv_values = [11, 12], offset = 2\<rparr>]"
proof -
  obtain a where st: "store_cache last_byte list_ops True ''r1'' demo_tokens (list_arg demo_tokens) empty_demo =
      (Inr (Some a), stored_demo)" using stored_demo_result by blast
  have a: "stored stored_demo ''r1'' = Some a"
    using store_cache_spec(4) [OF demo_is_universe demo_tokens_in block_cache_run_inv [OF demo_is_universe empty_demo_run]
        demo_faithful st refl] by simp
  have "num_tokens (table_store (paged stored_demo) (the (stored stored_demo ''r1''))) = 2" by code_simp
  then have nt: "num_tokens (table_store (paged stored_demo) a) = 2" by (simp add: a)
  have bz: "block_size (paged empty_demo) = 2" by code_simp
  have k: "1 = nat (num_tokens (table_store (paged stored_demo) a)) div block_size (paged empty_demo)" "(0::nat) < 1"
    by (simp_all add: nt bz)
  have len: "length demo_tokens = 2" by (simp add: demo_tokens_def)
  have cat: "concatenate list_ops ts \<noteq> None" for ts by (simp add: list_ops_def)
  have pr: "take (length demo_tokens) demo_tokens = demo_tokens" "take (1 * block_size (paged empty_demo)) demo_tokens = take (1 * block_size (paged empty_demo)) demo_tokens"
    "1 * block_size (paged empty_demo) \<le> length demo_tokens" "''r2'' \<noteq> ''r1''" "''r2'' \<noteq> []" by (simp_all add: bz len)
  have e: "request_tables (paged empty_demo) x = None" for x by (simp add: empty_demo_tables)
  obtain b m c2 where "fetch_cache last_byte list_ops ''r2'' demo_tokens stored_demo = (Inr (Some b, drop m demo_tokens), c2)"
    "2 \<le> m" "m \<le> 2" "fst (reconstruct_cache list_ops b c2) = Some (kv_full 1 (\<lambda>_ p. p) (\<lambda>_ p. p) (take m demo_tokens))"
    using store_then_fetch [OF demo_is_universe list_laws cat empty_demo_run demo_tokens_in e pr(1) st k demo_tokens_in
        pr(2,3,4,5) e] unfolding bz len by auto
  then show ?thesis by (auto simp: kv_full_def demo_tokens_def numeral_2_eq_2 le_antisym)
qed

section \<open>Forking\<close>

lemma fork_shares:
  assumes u: "universe sha U" and c: "block_cache_run sha ops U rows c" and s: "stored c src = Some a"
    and n: "request_tables (paged c) new = None"
  shows "fork_cache src src c = (Inr (Some a), c)"
    and "\<exists>b c'. fork_cache src new c = (Inr (Some b), c') \<and> b \<noteq> a \<and> stored c' = (stored c)(new \<mapsto> b) \<and>
      request_tables (paged c') new = Some b \<and> table_store (paged c') a = table_store (paged c) a \<and>
      table_store (paged c') b = table_copy new (table_store (paged c) a) \<and>
      allocated_blocks (paged c') = allocated_blocks (paged c) \<and> block_cache_run sha ops U rows c'"
proof -
  have i: "block_cache_inv sha U rows c" by (rule block_cache_run_inv [OF u c])
  note d = block_cache_invD [OF i]
  show "fork_cache src src c = (Inr (Some a), c)" by (simp add: fork_cache_def s)
  have sr: "request_tables (paged c) src = Some a" by (rule d(4) [OF s])
  then have ne: "new \<noteq> src" using n by auto
  have sn: "stored c new = None" using d(4) [of new] n by (cases "stored c new") auto
  obtain b m where m: "fork_block_table a new (paged c) = (Inr b, m)" "owned m" "inert (paged c) m"
    "request_tables m = (request_tables (paged c))(new \<mapsto> b)"
    "table_store m = (table_store (paged c))(b := table_copy new (table_store (paged c) a))"
    "allocated_blocks m = allocated_blocks (paged c)"
    using owned_fork [OF d(1) n sr] by metis
  have f: "fork_cache src new c = (Inr (Some b), c\<lparr>paged := m, stored := (stored c)(new \<mapsto> b)\<rparr>)"
    using s ne n sn m(1) by (simp add: fork_cache_def on_paged_def get_block_table_def)
  have "b \<noteq> a"
  proof
    assume "b = a"
    then have "request_tables m new = Some a" "request_tables m src = Some a" using sr ne by (simp_all add: m(4))
    then show False using ownedD(2) [OF m(2)] ne unfolding tables_ok_def by blast
  qed
  then show "\<exists>b c'. fork_cache src new c = (Inr (Some b), c') \<and> b \<noteq> a \<and> stored c' = (stored c)(new \<mapsto> b) \<and>
      request_tables (paged c') new = Some b \<and> table_store (paged c') a = table_store (paged c) a \<and>
      table_store (paged c') b = table_copy new (table_store (paged c) a) \<and>
      allocated_blocks (paged c') = allocated_blocks (paged c) \<and> block_cache_run sha ops U rows c'"
    using f bcr_step [OF c bcs_fork [OF f]]
    by (intro exI [of _ b] exI [of _ "c\<lparr>paged := m, stored := (stored c)(new \<mapsto> b)\<rparr>"]) (simp add: m(4-6))
qed

text \<open>
  Forking a stored request succeeds without copying a block: the new request gets a table of its
  own with the same blocks and tokens, the source keeps its table, and no block is allocated or
  freed where the new request had no table. Forking a request onto itself changes nothing.
\<close>

theorem fork_shares_blocks:
  assumes "universe sha U" and "block_cache_run sha ops U rows c" and "stored c src = Some a"
    and "request_tables (paged c) new = None"
  shows "fork_cache src src c = (Inr (Some a), c) \<and>
    (\<exists>b c'. fork_cache src new c = (Inr (Some b), c') \<and> b \<noteq> a \<and> stored c' = (stored c)(new \<mapsto> b) \<and>
      request_tables (paged c') new = Some b \<and> table_store (paged c') a = table_store (paged c) a \<and>
      table_store (paged c') b = table_copy new (table_store (paged c) a) \<and>
      allocated_blocks (paged c') = allocated_blocks (paged c) \<and> block_cache_run sha ops U rows c')"
  using fork_shares [OF assms] by blast


lemma fork_shares_blocks_witness:
  "\<exists>a b c'. stored stored_demo ''r1'' = Some a \<and> fork_cache ''r1'' ''r1'' stored_demo = (Inr (Some a), stored_demo) \<and>
     fork_cache ''r1'' ''r2'' stored_demo = (Inr (Some b), c') \<and>
     table_store (paged c') b = table_copy ''r2'' (table_store (paged stored_demo) a)"
proof -
  obtain a where s: "stored stored_demo ''r1'' = Some a" using stored_demo_fields by blast
  note n = stored_demo_others
  show ?thesis
    using s fork_shares_blocks [OF demo_is_universe stored_demo_run s n] by blast
qed

section \<open>Stale index entries\<close>

text \<open>
  The guard of a hit and the check for stale index entries agree: an entry the guard accepts is
  never reported stale, so what a fetch would use is not dropped from the index as dead.
\<close>

theorem guard_accepts_not_stale:
  assumes "guard_loop sha (paged c) cached [] 0 ids = Inr True"
  shows "index_entry_is_stale sha cached ids c = Inr False"
proof -
  have "stale_loop sha m cached hs e ids = Inr False" if "guard_loop sha m cached hs e ids = Inr True" for m hs e
    using that
  proof (induction ids arbitrary: hs e)
    case (Cons b bs)
    from Cons.prems have b: "b \<in> allocated_blocks m" "0 < token_count (heap m b)"
      "int e + token_count (heap m b) \<le> int (length cached)" by (auto simp: Let_def split: if_splits)
    obtain hs' where up: "ph_update hs (slice cached e (e + nat (token_count (heap m b)))) = Inr hs'"
      using Cons.prems by (auto simp: Let_def split: if_splits sum.splits)
    have h: "hash_value (heap m b) = Some (ph_hexdigest sha hs')"
      and g: "guard_loop sha m cached hs' (e + nat (token_count (heap m b))) bs = Inr True"
      using Cons.prems up by (auto simp: Let_def split: if_splits)
    show ?case using Cons.IH [OF g] b up h by (simp add: Let_def)
  qed simp
  then show ?thesis using assms by (simp add: index_entry_is_stale_def)
qed

lemma guard_accepts_not_stale_witness:
  "index_entry_is_stale last_byte demo_tokens [1] stored_demo = Inr False"
proof -
  have "guard_loop last_byte (paged stored_demo) demo_tokens [] 0 [1] = Inr True" by code_simp
  then show ?thesis by (rule guard_accepts_not_stale)
qed

section \<open>Capability\<close>

lemma capability:
  "validate_paged_cache_capability probe tr = Inr () \<longleftrightarrow>
     \<not> tr \<and> (\<exists>caches. probe = Inr (Some caches) \<and> caches \<noteq> [] \<and> list_all snd caches)"
  "validate_paged_cache_capability probe tr = Inl (IncompatibleLayers bad) \<Longrightarrow>
     bad \<noteq> [] \<and> sorted bad \<and> distinct bad \<and> (\<exists>caches. probe = Inr (Some caches) \<and> set bad = {n. (n, False) \<in> set caches})"
proof -
  have fi: "set (find_paged_incompatible_layers cs) = {n. (n, False) \<in> set cs}" for cs
    by (force simp: find_paged_incompatible_layers_def)
  have "find_paged_incompatible_layers cs = [] \<longleftrightarrow> list_all snd cs" for cs
  proof -
    have "find_paged_incompatible_layers cs = [] \<longleftrightarrow> {n. (n, False) \<in> set cs} = {}"
      unfolding fi [symmetric] by simp
    also have "\<dots> \<longleftrightarrow> list_all snd cs" unfolding list_all_iff by (auto, metis (full_types) eq_snd_iff prod.collapse)
    finally show ?thesis .
  qed
  then show "validate_paged_cache_capability probe tr = Inr () \<longleftrightarrow>
     \<not> tr \<and> (\<exists>caches. probe = Inr (Some caches) \<and> caches \<noteq> [] \<and> list_all snd caches)"
    by (auto simp: validate_paged_cache_capability_def Let_def split: sum.splits option.splits)
  show "bad \<noteq> [] \<and> sorted bad \<and> distinct bad \<and> (\<exists>caches. probe = Inr (Some caches) \<and> set bad = {n. (n, False) \<in> set caches})"
    if v: "validate_paged_cache_capability probe tr = Inl (IncompatibleLayers bad)"
  proof -
    obtain cs where cs: "probe = Inr (Some cs)" "bad = find_paged_incompatible_layers cs" "bad \<noteq> []"
      using v by (auto simp: validate_paged_cache_capability_def Let_def split: sum.splits option.splits if_splits)
    then show ?thesis using fi by (auto simp: find_paged_incompatible_layers_def)
  qed
qed

text \<open>
  C30. The startup check accepts a model exactly when no KV transform is requested and its cache
  factory returns a non-empty list of plain \<open>KVCache\<close> layers; a refusal of a factory that returned a
  list names the offending classes, each once, in order.
\<close>

theorem paged_capability_exact:
  "(validate_paged_cache_capability probe tr = Inr () \<longleftrightarrow>
     \<not> tr \<and> (\<exists>caches. probe = Inr (Some caches) \<and> caches \<noteq> [] \<and> list_all snd caches)) \<and>
   (validate_paged_cache_capability probe tr = Inl (IncompatibleLayers bad) \<longrightarrow>
     bad \<noteq> [] \<and> sorted bad \<and> distinct bad \<and> (\<exists>caches. probe = Inr (Some caches) \<and> set bad = {n. (n, False) \<in> set caches}))"
  using capability by blast


lemma paged_capability_exact_witness:
  "validate_paged_cache_capability (Inr (Some [(''KVCache'', True)])) False = Inr () \<and>
   sorted [''RotatingKVCache''] \<and> distinct [''RotatingKVCache'']"
proof -
  have "validate_paged_cache_capability (Inr (Some [(''KVCache'', True), (''RotatingKVCache'', False)])) False =
      Inl (IncompatibleLayers [''RotatingKVCache''])" by code_simp
  with paged_capability_exact [of "Inr (Some [(''KVCache'', True), (''RotatingKVCache'', False)])" False "[''RotatingKVCache'']"]
    paged_capability_exact [of "Inr (Some [(''KVCache'', True)])" False "[]"] show ?thesis by simp
qed

end
