(* ===== verification/ResponseCache.thy ===== *)
theory ResponseCache
  imports LruOrder
begin

text \<open>
  \<^bold>\<open>rapid_mlx/response_cache.py.\<close> The opt-in cache of whole responses: an \<open>OrderedDict\<close> (an association list
  in insertion order) bounded by a capacity, two counters and an epoch that every load of a model bumps.
  Every method holds the lock throughout, so a call is one step. \<open>make_cache_key\<close> takes the
  canonical JSON text of the payload (or nothing, where a component has none) from a parameter.
\<close>

section \<open>State\<close>

record 'v response_cache =
  capacity :: int
  store :: "(string \<times> 'v) list"
  rc_hits :: int
  rc_misses :: int
  epoch :: int

definition rc_init :: "int \<Rightarrow> py_error + 'v response_cache" where
  "rc_init cap = (if cap < 0 then Inl ValueError
     else Inr \<lparr>capacity = cap, store = [], rc_hits = 0, rc_misses = 0, epoch = 0\<rparr>)"

definition rc_enabled :: "'v response_cache \<Rightarrow> bool" where
  "rc_enabled s \<longleftrightarrow> 0 < capacity s"

definition current_epoch :: "'v response_cache \<Rightarrow> int" where
  "current_epoch s = epoch s"

section \<open>The ordered dictionary\<close>

text \<open>\<open>d[k] = v\<close>, and \<open>popitem(last=False)\<close> while it is too long.\<close>

fun assign_key :: "string \<Rightarrow> 'v \<Rightarrow> (string \<times> 'v) list \<Rightarrow> (string \<times> 'v) list" where
  "assign_key k v [] = [(k, v)]"
| "assign_key k v (p # xs) = (if fst p = k then (k, v) # xs else p # assign_key k v xs)"

fun pop_over :: "int \<Rightarrow> (string \<times> 'v) list \<Rightarrow> (string \<times> 'v) list" where
  "pop_over cap [] = []"
| "pop_over cap (p # xs) = (if cap < int (length (p # xs)) then pop_over cap xs else p # xs)"

section \<open>Operations\<close>

definition rc_configure :: "int \<Rightarrow> 'v response_cache \<Rightarrow> (unit, 'v response_cache) outcome" where
  "rc_configure cap s =
     (if cap < 0 then (Inl ValueError, s)
      else let s1 = s\<lparr>capacity := cap\<rparr>
        in if cap = 0 then (Inr (), s1\<lparr>store := []\<rparr>)
           else (Inr (), s1\<lparr>store := pop_over cap (store s1)\<rparr>))"

definition rc_reconfigure :: "int \<Rightarrow> 'v response_cache \<Rightarrow> (unit, 'v response_cache) outcome" where
  "rc_reconfigure cap s =
     (if cap < 0 then (Inl ValueError, s)
      else (Inr (), s\<lparr>capacity := cap, store := [], epoch := epoch s + 1\<rparr>))"

definition rc_get :: "string \<Rightarrow> int \<Rightarrow> 'v response_cache \<Rightarrow> 'v option \<times> 'v response_cache" where
  "rc_get k e s =
     (if capacity s = 0 \<or> e \<noteq> epoch s then (None, s)
      else case map_of (store s) k of
        Some v \<Rightarrow> (Some v, s\<lparr>store := move_to_end k (store s), rc_hits := rc_hits s + 1\<rparr>)
      | None \<Rightarrow> (None, s\<lparr>rc_misses := rc_misses s + 1\<rparr>))"

definition rc_put :: "string \<Rightarrow> 'v \<Rightarrow> int \<Rightarrow> 'v response_cache \<Rightarrow> 'v response_cache" where
  "rc_put k v e s =
     (if capacity s = 0 \<or> e \<noteq> epoch s then s
      else let s1 = (if map_of (store s) k \<noteq> None then s\<lparr>store := move_to_end k (store s)\<rparr> else s);
               s2 = s1\<lparr>store := assign_key k v (store s1)\<rparr>
        in s2\<lparr>store := pop_over (capacity s2) (store s2)\<rparr>)"

definition rc_clear :: "'v response_cache \<Rightarrow> 'v response_cache" where
  "rc_clear s = s\<lparr>store := []\<rparr>"

record rc_stats =
  snap_hits :: int
  snap_misses :: int
  snap_entries :: nat
  snap_capacity :: int

definition rc_snapshot :: "'v response_cache \<Rightarrow> rc_stats" where
  "rc_snapshot s = \<lparr>snap_hits = rc_hits s, snap_misses = rc_misses s, snap_entries = length (store s), snap_capacity = capacity s\<rparr>"

section \<open>Determinism gate and key\<close>

text \<open>The two sampling parameters the gate reads, \<open>None\<close> where the key is missing or the value is \<open>None\<close>.\<close>

definition is_deterministic :: "rat option \<Rightarrow> rat option \<Rightarrow> bool" where
  "is_deterministic temperature top_k \<longleftrightarrow>
     (if top_k = Some 1 then True
      else if temperature \<noteq> None \<and> temperature = Some 0 then True else False)"

text \<open>\<open>canonical\<close>: the sorted JSON text of the payload, none where \<open>_json_default\<close> raises.\<close>

datatype cache_key = Uncacheable | Key string

definition make_cache_key :: "('p \<Rightarrow> string option) \<Rightarrow> (string \<Rightarrow> string) \<Rightarrow> 'p \<Rightarrow> cache_key" where
  "make_cache_key canonical sha256_hex payload =
     (case canonical payload of None \<Rightarrow> Uncacheable | Some text \<Rightarrow> Key (sha256_hex text))"

section \<open>The process-wide instance\<close>

text \<open>The instances ever made, and the address of the one the module names; requests keep their own reference.\<close>

record 'v rc_module =
  instances :: "'v response_cache list"
  singleton :: nat

definition get_response_cache :: "'v rc_module \<Rightarrow> nat" where
  "get_response_cache m = singleton m"

definition configure_response_cache :: "int \<Rightarrow> 'v rc_module \<Rightarrow> (unit, 'v rc_module) outcome" where
  "configure_response_cache cap m =
     (case rc_reconfigure cap (instances m ! singleton m) of
        (r, s) \<Rightarrow> (r, m\<lparr>instances := (instances m)[singleton m := s]\<rparr>))"

definition force_disable_response_cache :: "'v rc_module \<Rightarrow> 'v rc_module" where
  "force_disable_response_cache m =
     (case rc_init 0 of Inl _ \<Rightarrow> m
      | Inr s \<Rightarrow> m\<lparr>instances := instances m @ [s], singleton := length (instances m)\<rparr>)"

section \<open>Well-formed caches\<close>

definition rc_keys :: "'v response_cache \<Rightarrow> string list" where
  "rc_keys s = map fst (store s)"

definition rc_ok :: "'v response_cache \<Rightarrow> bool" where
  "rc_ok s \<longleftrightarrow> distinct (rc_keys s) \<and> int (length (store s)) \<le> capacity s"

lemma assign_key_new: "k \<notin> fst ` set xs \<Longrightarrow> assign_key k v xs = xs @ [(k, v)]"
  by (induction xs) auto

lemma map_of_assign: "map_of (assign_key k v xs) = (map_of xs)(k \<mapsto> v)"
  by (induction xs) auto

lemma assign_key_keys: "k \<in> fst ` set xs \<Longrightarrow> map fst (assign_key k v xs) = map fst xs"
  by (induction xs) auto

lemma pop_over_drop: "0 \<le> cap \<Longrightarrow> pop_over cap xs = drop (length xs - nat cap) xs"
proof (induction xs)
  case (Cons p xs)
  show ?case
  proof (cases "cap < int (length (p # xs))")
    case True
    then have "length (p # xs) - nat cap = Suc (length xs - nat cap)" using Cons.prems by simp
    then show ?thesis using Cons True by simp
  next
    case False
    then have "length (p # xs) - nat cap = 0" using Cons.prems by simp
    then show ?thesis using False by simp
  qed
qed simp

text \<open>The store is a least-recently-used order.\<close>

definition rc_use :: "string \<Rightarrow> 'v response_cache \<Rightarrow> 'v response_cache" where
  "rc_use k s = s\<lparr>store := move_to_end k (store s)\<rparr>"

definition rc_evict :: "'v response_cache \<Rightarrow> 'v response_cache" where
  "rc_evict s = s\<lparr>store := tl (store s)\<rparr>"

interpretation rc_lru: lru_order rc_keys "\<lambda>s. distinct (rc_keys s)" "\<lambda>s k. k \<in> set (rc_keys s)" rc_use rc_evict
proof unfold_locales
  fix s :: "'v response_cache" and k
  assume d: "distinct (rc_keys s)" and t: "k \<in> set (rc_keys s)"
  show o: "rc_keys (rc_use k s) = remove1 k (rc_keys s) @ [k]"
    using move_to_end_keys [of "store s" k] d t by (simp add: rc_keys_def rc_use_def)
  show "distinct (rc_keys (rc_use k s))" unfolding o using d by (simp add: distinct_remove1)
next
  fix s :: "'v response_cache"
  assume d: "distinct (rc_keys s)"
  show "rc_keys (rc_evict s) = tl (rc_keys s)" by (simp add: rc_keys_def rc_evict_def map_tl)
  then show "distinct (rc_keys (rc_evict s))" using d by (simp add: distinct_tl)
qed simp

lemma rc_evicts: "(rc_evict ^^ n) s = s\<lparr>store := drop n (store s)\<rparr>"
  by (induction n) (simp_all add: rc_evict_def drop_Suc tl_drop)

section \<open>Runs\<close>

text \<open>
  A history of calls on one instance. A request passes the epoch it observed when it started to \<open>get\<close>
  and \<open>put\<close>; any epoch may arrive at any time.
\<close>

datatype 'v rc_call = Configure int | Reconfigure int | Get string int | Put string 'v int | Clear_store

fun rc_exec :: "'v rc_call \<Rightarrow> 'v response_cache \<Rightarrow> 'v response_cache" where
  "rc_exec (Configure cap) s = snd (rc_configure cap s)"
| "rc_exec (Reconfigure cap) s = snd (rc_reconfigure cap s)"
| "rc_exec (Get k e) s = snd (rc_get k e s)"
| "rc_exec (Put k v e) s = rc_put k v e s"
| "rc_exec Clear_store s = rc_clear s"

abbreviation rc_history :: "'v rc_call list \<Rightarrow> 'v response_cache \<Rightarrow> 'v response_cache" where
  "rc_history \<equiv> fold rc_exec"

text \<open>The loads of a model in a history; a negative capacity raises and loads nothing.\<close>

fun reload :: "'v rc_call \<Rightarrow> bool" where
  "reload (Reconfigure cap) \<longleftrightarrow> 0 \<le> cap"
| "reload c \<longleftrightarrow> False"

definition reloads :: "'v rc_call list \<Rightarrow> int" where
  "reloads cs = int (length (filter reload cs))"

lemma reloads_simps [simp]: "reloads [] = 0" "reloads (cs @ ds) = reloads cs + reloads ds"
    "reloads [c] = (if reload c then 1 else 0)"
  by (simp_all add: reloads_def)

lemma map_of_drop: "distinct (map fst xs) \<Longrightarrow> map_of (drop n xs) k = Some v \<Longrightarrow> map_of xs k = Some v"
  by (drule map_of_SomeD, drule in_set_dropD) (rule map_of_is_SomeI)

text \<open>A put in terms of the order: use or append the key, then evict while over capacity.\<close>

lemma put_store:
  assumes d: "distinct (rc_keys s)" and c: "0 < capacity s" "e = epoch s"
  shows "rc_keys (rc_put k v e s) = drop (length (remove1 k (rc_keys s)) + 1 - nat (capacity s)) (remove1 k (rc_keys s) @ [k])"
    "\<exists>xs. store (rc_put k v e s) = drop (length xs - nat (capacity s)) xs \<and> distinct (map fst xs) \<and>
      map fst xs = remove1 k (rc_keys s) @ [k] \<and> map_of xs = (map_of (store s))(k \<mapsto> v)"
    "capacity (rc_put k v e s) = capacity s" "epoch (rc_put k v e s) = epoch s"
proof -
  define ys where "ys = assign_key k v (if map_of (store s) k \<noteq> None then move_to_end k (store s) else store s)"
  have st: "rc_put k v e s = s\<lparr>store := drop (length ys - nat (capacity s)) ys\<rparr>"
    using c by (simp add: rc_put_def Let_def pop_over_drop ys_def)
  have ks: "map fst ys = remove1 k (rc_keys s) @ [k]"
  proof (cases "map_of (store s) k = None")
    case True
    then have n: "k \<notin> fst ` set (store s)" by (simp add: map_of_eq_None_iff)
    then have "k \<notin> set (rc_keys s)" by (simp add: rc_keys_def)
    then show ?thesis using True n by (simp add: ys_def assign_key_new remove1_idem) (simp add: rc_keys_def)
  next
    case False
    then have k: "k \<in> fst ` set (store s)" by (simp add: map_of_eq_None_iff)
    have mk: "map fst (move_to_end k (store s)) = remove1 k (rc_keys s) @ [k]"
      using move_to_end_keys [OF _ k] d by (simp add: rc_keys_def)
    then have "k \<in> fst ` set (move_to_end k (store s))" by (metis in_set_conv_decomp list.set_map)
    then show ?thesis using False mk by (simp add: ys_def assign_key_keys)
  qed
  have mo: "map_of ys = (map_of (store s))(k \<mapsto> v)" by (simp add: ys_def map_of_assign map_of_move_to_end)
  have di: "distinct (remove1 k (rc_keys s) @ [k])" using d by (simp add: distinct_remove1)
  have ln: "length ys = length (remove1 k (rc_keys s)) + 1" using arg_cong [OF ks, of length] by simp
  show "rc_keys (rc_put k v e s) = drop (length (remove1 k (rc_keys s)) + 1 - nat (capacity s)) (remove1 k (rc_keys s) @ [k])"
    unfolding st ln ks [symmetric] by (simp add: rc_keys_def drop_map)
  show "\<exists>xs. store (rc_put k v e s) = drop (length xs - nat (capacity s)) xs \<and> distinct (map fst xs) \<and>
      map fst xs = remove1 k (rc_keys s) @ [k] \<and> map_of xs = (map_of (store s))(k \<mapsto> v)"
    using ks mo di by (intro exI [of _ ys]) (simp add: st)
  show "capacity (rc_put k v e s) = capacity s" "epoch (rc_put k v e s) = epoch s" using st by simp_all
qed

text \<open>A call that leaves the value of a key from an earlier put alone, in the epoch \<open>e\<close>.\<close>

fun spares :: "string \<Rightarrow> int \<Rightarrow> 'v rc_call \<Rightarrow> bool" where
  "spares k e (Configure cap) \<longleftrightarrow> cap \<noteq> 0"
| "spares k e (Reconfigure cap) \<longleftrightarrow> cap < 0"
| "spares k e (Get j e') \<longleftrightarrow> True"
| "spares k e (Put j v e') \<longleftrightarrow> j \<noteq> k \<or> e' \<noteq> e"
| "spares k e Clear_store \<longleftrightarrow> False"

lemma reload_spares: "reload c \<Longrightarrow> \<not> spares k e c"
  by (cases c) simp_all

lemma get_effect:
  "snd (rc_get k e s) = s \<or> snd (rc_get k e s) = s\<lparr>rc_misses := rc_misses s + 1\<rparr> \<or>
   k \<in> set (rc_keys s) \<and> snd (rc_get k e s) = (rc_use k s)\<lparr>rc_hits := rc_hits s + 1\<rparr>"
  unfolding rc_get_def rc_use_def rc_keys_def
  by (cases "capacity s = 0 \<or> e \<noteq> epoch s"; cases "map_of (store s) k") (auto dest!: map_of_SomeD intro: rev_image_eqI)

lemma put_ignored: "capacity s = 0 \<or> e \<noteq> epoch s \<Longrightarrow> rc_put k v e s = s"
  by (simp add: rc_put_def)

lemma exec_ok:
  assumes ok: "rc_ok s"
  shows "rc_ok (rc_exec c s)"
proof -
  have d: "distinct (rc_keys s)" and len: "int (length (store s)) \<le> capacity s" using ok by (simp_all add: rc_ok_def)
  show ?thesis
  proof (cases c)
    case (Configure cap)
    have "distinct (map fst (drop n (store s)))" for n using d by (simp add: rc_keys_def drop_map [symmetric])
    then show ?thesis
      using ok Configure by (auto simp: rc_configure_def Let_def rc_ok_def rc_keys_def pop_over_drop split: if_splits)
  next
    case (Reconfigure cap)
    then show ?thesis using ok by (auto simp: rc_reconfigure_def rc_ok_def rc_keys_def split: if_splits)
  next
    case (Get k e)
    have "rc_ok (rc_use k s)" if k: "k \<in> set (rc_keys s)"
    proof -
      have "length (rc_keys (rc_use k s)) = length (rc_keys s)"
        unfolding rc_lru.order_use [OF d k] using k length_pos_if_in_set [OF k] by (simp add: length_remove1)
      then show ?thesis using rc_lru.wf_use [OF d k] len by (simp add: rc_ok_def rc_keys_def rc_use_def)
    qed
    moreover have "rc_ok (t\<lparr>rc_misses := n\<rparr>) = rc_ok t" "rc_ok (t\<lparr>rc_hits := n\<rparr>) = rc_ok t" for t :: "'a response_cache" and n
      by (simp_all add: rc_ok_def rc_keys_def)
    ultimately show ?thesis using get_effect [of k e s] ok Get by (elim disjE conjE) simp_all
  next
    case (Put k v e)
    show ?thesis
    proof (cases "0 < capacity s \<and> e = epoch s")
      case True
      note p = put_store [OF d conjunct1 [OF True] conjunct2 [OF True], of k v]
      obtain xs where xs: "store (rc_put k v e s) = drop (length xs - nat (capacity s)) xs" "distinct (map fst xs)"
        using p(2) by blast
      have "length xs - (length xs - nat (capacity s)) \<le> nat (capacity s)" by linarith
      then have "int (length (store (rc_put k v e s))) \<le> capacity s" using True unfolding xs(1) length_drop by linarith
      moreover have "distinct (rc_keys (rc_put k v e s))" using xs by (simp add: rc_keys_def drop_map [symmetric])
      ultimately show ?thesis using p(3) Put by (simp add: rc_ok_def)
    next
      case False
      moreover have "0 \<le> capacity s" using len by linarith
      ultimately show ?thesis using put_ignored [of s e k v] ok Put by auto
    qed
  next
    case Clear_store
    then show ?thesis using len by (simp add: rc_clear_def rc_ok_def rc_keys_def)
  qed
qed

lemma exec_epoch: "epoch (rc_exec c s) = epoch s + (if reload c then 1 else 0)"
proof (cases c)
  case (Get k e)
  then show ?thesis using get_effect [of k e s] by (auto simp: rc_use_def)
qed (auto simp: rc_configure_def rc_reconfigure_def rc_put_def rc_clear_def Let_def)

text \<open>What is stored after a call was stored by it, in the current epoch, or was there before and spared.\<close>

lemma exec_stored:
  assumes ok: "rc_ok s" and v: "map_of (store (rc_exec c s)) k = Some v"
  shows "c = Put k v (epoch s) \<or> map_of (store s) k = Some v \<and> spares k (epoch s) c"
proof -
  have d: "distinct (rc_keys s)" and len: "int (length (store s)) \<le> capacity s" using ok by (simp_all add: rc_ok_def)
  show ?thesis
  proof (cases c)
    case (Configure cap)
    then show ?thesis
      using v map_of_drop [of "store s"] d by (auto simp: rc_configure_def Let_def rc_keys_def pop_over_drop split: if_splits)
  next
    case (Reconfigure cap)
    then show ?thesis using v by (auto simp: rc_reconfigure_def split: if_splits)
  next
    case (Get j e)
    then show ?thesis using v get_effect [of j e s] by (auto simp: rc_use_def map_of_move_to_end)
  next
    case (Put j w e)
    show ?thesis
    proof (cases "0 < capacity s \<and> e = epoch s")
      case True
      obtain xs where xs: "store (rc_put j w e s) = drop (length xs - nat (capacity s)) xs" "distinct (map fst xs)"
        "map_of xs = (map_of (store s))(j \<mapsto> w)" using put_store(2) [OF d conjunct1 [OF True] conjunct2 [OF True], of j w] by blast
      have "map_of xs k = Some v" using map_of_drop [OF xs(2)] v by (simp add: Put xs(1))
      then show ?thesis using True Put by (auto simp: xs(3) split: if_splits)
    next
      case False
      moreover have "0 \<le> capacity s" using len by linarith
      ultimately have st: "map_of (store s) k = Some v" using v put_ignored [of s e j w] Put by auto
      then have "0 < int (length (store s))" by (cases "store s") simp_all
      then have "e \<noteq> epoch s" using False len by linarith
      then show ?thesis using st Put by simp
    qed
  next
    case Clear_store
    then show ?thesis using v by (simp add: rc_clear_def)
  qed
qed

lemma history_ok: "rc_ok s \<Longrightarrow> rc_ok (rc_history cs s)"
  by (induction cs arbitrary: s) (simp_all add: exec_ok)

lemma history_epoch: "epoch (rc_history cs s) = epoch s + reloads cs"
  by (induction cs rule: rev_induct) (simp_all add: exec_epoch)

lemma history_stored:
  assumes "rc_ok s" "store s = []" "map_of (store (rc_history cs s)) k = Some v"
  shows "\<exists>before later. cs = before @ Put k v (epoch (rc_history cs s)) # later \<and>
    epoch (rc_history before s) = epoch (rc_history cs s) \<and> list_all (spares k (epoch (rc_history cs s))) later"
  using assms(3)
proof (induction cs rule: rev_induct)
  case Nil
  then show ?case using assms(2) by simp
next
  case (snoc c cs)
  let ?s = "rc_history cs s"
  have "c = Put k v (epoch ?s) \<or> map_of (store ?s) k = Some v \<and> spares k (epoch ?s) c"
    using exec_stored [OF history_ok [OF assms(1)], of c cs k v] snoc.prems by simp
  then show ?case
  proof
    assume c: "c = Put k v (epoch ?s)"
    then have "epoch (rc_exec c ?s) = epoch ?s" by (simp add: exec_epoch del: rc_exec.simps)
    then show ?thesis using c by (intro exI [of _ cs] exI [of _ "[]"]) simp
  next
    assume s: "map_of (store ?s) k = Some v \<and> spares k (epoch ?s) c"
    then have "epoch (rc_exec c ?s) = epoch ?s" using reload_spares [of c k] by (auto simp: exec_epoch)
    moreover obtain before later where "cs = before @ Put k v (epoch ?s) # later" "epoch (rc_history before s) = epoch ?s"
      "list_all (spares k (epoch ?s)) later" using snoc.IH s by blast
    ultimately show ?thesis using s by (intro exI [of _ before] exI [of _ "later @ [c]"]) simp
  qed
qed

lemma rc_init_ok: "rc_init cap = Inr s \<Longrightarrow> rc_ok s \<and> store s = [] \<and> epoch s = 0"
  by (auto simp: rc_init_def rc_ok_def rc_keys_def split: if_splits)

text \<open>
  C31. No response crosses a reload or a key. After any history of calls, the epoch is the number of loads in it. A request
  of another epoch finds nothing and changes nothing, neither by a lookup nor by a put. What a lookup returns was put under
  that very key by a request of the current epoch, after as many loads as there are now, and since then the key was not put
  again in this epoch, no model was loaded, and the store was neither cleared nor switched off.
\<close>

theorem response_epoch_isolation:
  assumes "rc_init cap = Inr s0" and s: "s = rc_history cs s0"
  shows "epoch s = reloads cs \<and>
    (e \<noteq> epoch s \<longrightarrow> rc_get k e s = (None, s) \<and> rc_put k w e s = s) \<and>
    (fst (rc_get k e s) = Some v \<longrightarrow> e = epoch s \<and>
      (\<exists>before later. cs = before @ Put k v e # later \<and> reloads before = e \<and> list_all (spares k e) later))"
proof (intro conjI impI)
  note i = rc_init_ok [OF assms(1)]
  have ep: "epoch (rc_history ds s0) = reloads ds" for ds using history_epoch [of ds s0] i by simp
  show "epoch s = reloads cs" using ep s by simp
  show "rc_get k e s = (None, s)" "rc_put k w e s = s" if "e \<noteq> epoch s"
    using that by (simp_all add: rc_get_def rc_put_def)
  assume g: "fst (rc_get k e s) = Some v"
  then show e: "e = epoch s" by (auto simp: rc_get_def split: if_splits)
  have "map_of (store s) k = Some v" using g by (auto simp: rc_get_def split: if_splits option.splits)
  then show "\<exists>before later. cs = before @ Put k v e # later \<and> reloads before = e \<and> list_all (spares k e) later"
    using history_stored [of s0 cs k v] i ep unfolding s e by auto
qed

definition rc_demo :: "nat rc_call list" where
  "rc_demo = [Put ''k'' 3 0, Reconfigure 2, Put ''k'' 5 0, Put ''k'' 7 1]"

definition rc_empty :: "int \<Rightarrow> nat response_cache" where
  "rc_empty cap = \<lparr>capacity = cap, store = [], rc_hits = 0, rc_misses = 0, epoch = 0\<rparr>"

lemma rc_empty_init: "rc_init 2 = Inr (rc_empty 2)"
  by (simp add: rc_init_def rc_empty_def)

lemma response_epoch_isolation_witness:
  "epoch (rc_history rc_demo (rc_empty 2)) = 1 \<and>
   rc_get ''k'' 0 (rc_history rc_demo (rc_empty 2)) = (None, rc_history rc_demo (rc_empty 2)) \<and>
   (\<exists>before later. rc_demo = before @ Put ''k'' 7 1 # later \<and> reloads before = 1 \<and> list_all (spares ''k'' 1) later)"
proof -
  have g: "fst (rc_get ''k'' 1 (rc_history rc_demo (rc_empty 2))) = Some 7" by code_simp
  have e: "reloads rc_demo = 1" by code_simp
  show ?thesis
    using response_epoch_isolation [OF rc_empty_init refl, of rc_demo 1 "''k''" 0 7]
      response_epoch_isolation [OF rc_empty_init refl, of rc_demo 0 "''k''" 0 0] e g by auto
qed

text \<open>
  The store is a least-recently-used order within its capacity: in every reachable state its
  keys are distinct and at most as many as the capacity; a put in the current epoch makes its key
  the newest, drops exactly the oldest keys over the capacity, changes no other value, and the
  next lookup of the key returns the value.
\<close>

theorem response_cache_lru:
  assumes i: "rc_init cap = Inr s0" and s: "s = rc_history cs s0" and c: "0 < capacity s" and e: "e = epoch s"
  shows "distinct (rc_keys s) \<and> int (length (rc_keys s)) \<le> capacity s \<and>
    rc_keys (rc_put k v e s) = drop (length (remove1 k (rc_keys s)) + 1 - nat (capacity s)) (remove1 k (rc_keys s) @ [k]) \<and>
    fst (rc_get k e (rc_put k v e s)) = Some v \<and>
    (j \<noteq> k \<and> j \<in> set (rc_keys (rc_put k v e s)) \<longrightarrow>
       map_of (store (rc_put k v e s)) j = map_of (store s) j)"
proof -
  have ok: "rc_ok s" using history_ok [of s0 cs] rc_init_ok [OF i] s by blast
  then have d: "distinct (rc_keys s)" by (simp add: rc_ok_def)
  note p = put_store [OF d c e, of k v]
  obtain xs where xs: "store (rc_put k v e s) = drop (length xs - nat (capacity s)) xs" "distinct (map fst xs)"
    "map fst xs = remove1 k (rc_keys s) @ [k]" "map_of xs = (map_of (store s))(k \<mapsto> v)" using p(2) by blast
  have get: "map_of (store (rc_put k v e s)) j = map_of xs j" if j: "j \<in> set (rc_keys (rc_put k v e s))" for j
  proof -
    obtain w where "map_of (drop (length xs - nat (capacity s)) xs) j = Some w"
      using j by (cases "map_of (drop (length xs - nat (capacity s)) xs) j")
        (auto simp: rc_keys_def xs(1) map_of_eq_None_iff)
    then show ?thesis using map_of_drop [OF xs(2)] by (simp add: xs(1))
  qed
  have "k \<in> set (rc_keys (rc_put k v e s))"
    unfolding p(1) using c by (simp add: Suc_le_eq)
  then have "fst (rc_get k e (rc_put k v e s)) = Some v"
    using get [of k] c e p(3,4) xs(4) by (simp add: rc_get_def)
  then show ?thesis using ok p(1) get xs(4) by (simp add: rc_ok_def rc_keys_def)
qed

lemma response_cache_lru_witness:
  "rc_keys (rc_put ''b'' 1 1 (rc_history rc_demo (rc_empty 2))) = [''k'', ''b''] \<and>
   fst (rc_get ''b'' 1 (rc_put ''b'' 1 1 (rc_history rc_demo (rc_empty 2)))) = Some 1"
proof -
  let ?s = "rc_history rc_demo (rc_empty 2)"
  have "0 < capacity ?s" "1 = epoch ?s" "rc_keys ?s = [''k'']" "capacity ?s = 2" by code_simp+
  with response_cache_lru [OF rc_empty_init refl this(1,2), of "''b''" 1] show ?thesis by simp
qed

end
