(* ===== verification/OutputCollector.thy ===== *)
theory OutputCollector
  imports Prelude
begin

text \<open>
  \<^bold>\<open>rapid_mlx/output_collector.py.\<close> The per-request collector between the engine loop and the streaming
  consumers: one buffered output, merged while the producer is ahead, an event, and a counter of
  collectors with waiting consumers shared by all of them. A coroutine \<open>get\<close> is the code up to its
  first \<open>await\<close>, the loop body after each wake-up, and the \<open>finally\<close> block on cancellation.
\<close>

section \<open>Outputs\<close>

record 'l request_output =
  request_id :: string
  new_token_ids :: "int list"
  new_text :: string
  output_token_ids :: "int list"
  output_text :: string
  finished :: bool
  finish_reason :: "string option"
  prompt_tokens :: int
  completion_tokens :: int
  logprobs :: 'l
  out_error :: "string option"
  cached_tokens :: int
  matched_stop :: "string option"
  error_kind :: "string option"
  spec_decode_metrics :: "(string \<times> int list) list option"
  prompt_compression :: "(string \<times> int) list option"
  timing_metrics :: "(string \<times> rat) list option"

text \<open>\<open>a or b\<close> where a value is an optional string or dict: \<open>None\<close> and the empty one are false.\<close>

definition truthy :: "'a list option \<Rightarrow> bool" where
  "truthy x \<longleftrightarrow> (case x of None \<Rightarrow> False | Some xs \<Rightarrow> xs \<noteq> [])"

definition py_or :: "'a list option \<Rightarrow> 'a list option \<Rightarrow> 'a list option" where
  "py_or a b = (if truthy a then a else b)"

definition merge_outputs :: "'l request_output \<Rightarrow> 'l request_output \<Rightarrow> 'l request_output" where
  "merge_outputs existing new =
     (let (e, k) = (if truthy (out_error new) then (out_error new, error_kind new)
                    else (out_error existing, error_kind existing))
      in \<lparr>request_id = request_id new, new_token_ids = new_token_ids existing @ new_token_ids new,
          new_text = new_text existing @ new_text new, output_token_ids = output_token_ids new,
          output_text = output_text new, finished = finished new, finish_reason = finish_reason new,
          prompt_tokens = prompt_tokens new, completion_tokens = completion_tokens new, logprobs = logprobs new,
          out_error = e, cached_tokens = cached_tokens new, matched_stop = py_or (matched_stop new) (matched_stop existing),
          error_kind = k, spec_decode_metrics = py_or (spec_decode_metrics new) (spec_decode_metrics existing),
          prompt_compression = py_or (prompt_compression new) (prompt_compression existing),
          timing_metrics = py_or (timing_metrics new) (timing_metrics existing)\<rparr>)"

section \<open>One collector\<close>

record 'l collector =
  buffer :: "'l request_output option"
  ready :: bool
  aggregate :: bool
  is_waiting :: bool

definition collector_init :: "bool \<Rightarrow> 'l collector" where
  "collector_init agg = \<lparr>buffer = None, ready = False, aggregate = agg, is_waiting = False\<rparr>"

definition collector_put :: "'l request_output \<Rightarrow> 'l collector \<Rightarrow> 'l collector" where
  "collector_put out c =
     (let b = (case buffer c of None \<Rightarrow> out
         | Some old \<Rightarrow> if aggregate c then merge_outputs old out else out)
      in c\<lparr>buffer := Some b, ready := True\<rparr>)"

definition get_nowait :: "'l collector \<Rightarrow> 'l request_output option \<times> 'l collector" where
  "get_nowait c = (case buffer c of None \<Rightarrow> (None, c) | Some out \<Rightarrow> (Some out, c\<lparr>buffer := None, ready := False\<rparr>))"

section \<open>All collectors\<close>

text \<open>The collectors by address, the coroutines blocked in \<open>get\<close> by address, and the shared counter.\<close>

record 'l collectors =
  pool :: "'l collector list"
  blocked :: "nat list"
  waiting_consumers :: int

definition new_collector :: "bool \<Rightarrow> 'l collectors \<Rightarrow> 'l collectors" where
  "new_collector agg s = s\<lparr>pool := pool s @ [collector_init agg]\<rparr>"

definition put_at :: "nat \<Rightarrow> 'l request_output \<Rightarrow> 'l collectors \<Rightarrow> 'l collectors" where
  "put_at i out s = s\<lparr>pool := (pool s)[i := collector_put out (pool s ! i)]\<rparr>"

definition get_nowait_at :: "nat \<Rightarrow> 'l collectors \<Rightarrow> 'l request_output option \<times> 'l collectors" where
  "get_nowait_at i s = (case get_nowait (pool s ! i) of (out, c) \<Rightarrow> (out, s\<lparr>pool := (pool s)[i := c]\<rparr>))"

definition stop_waiting :: "nat \<Rightarrow> 'l collectors \<Rightarrow> 'l collectors" where
  "stop_waiting i s =
     (if is_waiting (pool s ! i)
      then s\<lparr>pool := (pool s)[i := (pool s ! i)\<lparr>is_waiting := False\<rparr>], waiting_consumers := waiting_consumers s - 1\<rparr>
      else s)"

text \<open>\<open>get\<close>: where the buffer is empty the coroutine blocks, otherwise it takes the output and runs \<open>finally\<close>.\<close>

definition finish_get :: "nat \<Rightarrow> 'l collectors \<Rightarrow> 'l request_output option \<times> 'l collectors" where
  "finish_get i s =
     (if buffer (pool s ! i) = None then (None, s\<lparr>blocked := i # blocked s\<rparr>)
      else case get_nowait_at i s of (out, s1) \<Rightarrow> (out, stop_waiting i s1))"

definition get_begin :: "nat \<Rightarrow> 'l collectors \<Rightarrow> 'l request_output option \<times> 'l collectors" where
  "get_begin i s =
     (let s1 = (if is_waiting (pool s ! i) then s
          else s\<lparr>pool := (pool s)[i := (pool s ! i)\<lparr>is_waiting := True\<rparr>],
                 waiting_consumers := waiting_consumers s + 1\<rparr>)
      in finish_get i s1)"

definition get_wake :: "nat \<Rightarrow> 'l collectors \<Rightarrow> 'l request_output option \<times> 'l collectors" where
  "get_wake i s = finish_get i (s\<lparr>blocked := remove1 i (blocked s)\<rparr>)"

definition get_cancel :: "nat \<Rightarrow> 'l collectors \<Rightarrow> 'l collectors" where
  "get_cancel i s = stop_waiting i (s\<lparr>blocked := remove1 i (blocked s)\<rparr>)"

definition clear_at :: "nat \<Rightarrow> 'l collectors \<Rightarrow> 'l collectors" where
  "clear_at i s = stop_waiting i (s\<lparr>pool := (pool s)[i := (pool s ! i)\<lparr>buffer := None, ready := False\<rparr>]\<rparr>)"

definition has_waiting_consumers :: "'l collectors \<Rightarrow> bool" where
  "has_waiting_consumers s \<longleftrightarrow> 0 < waiting_consumers s"

section \<open>Stream interval\<close>

record stream_state =
  stream_interval :: int
  sent_tokens :: int

definition should_send :: "int \<Rightarrow> bool \<Rightarrow> stream_state \<Rightarrow> bool" where
  "should_send total_tokens fin st \<longleftrightarrow>
     (if fin then True else if sent_tokens st = 0 then True
      else stream_interval st \<le> total_tokens - sent_tokens st)"

definition mark_sent :: "int \<Rightarrow> stream_state \<Rightarrow> stream_state" where
  "mark_sent total_tokens st = st\<lparr>sent_tokens := total_tokens\<rparr>"

section \<open>Runs\<close>

inductive collectors_run :: "'l collectors \<Rightarrow> bool" where
  cr_init: "collectors_run \<lparr>pool = [], blocked = [], waiting_consumers = 0\<rparr>"
| cr_new: "collectors_run s \<Longrightarrow> collectors_run (new_collector agg s)"
| cr_put: "collectors_run s \<Longrightarrow> i < length (pool s) \<Longrightarrow> collectors_run (put_at i out s)"
| cr_nowait: "collectors_run s \<Longrightarrow> i < length (pool s) \<Longrightarrow> get_nowait_at i s = (r, s') \<Longrightarrow> collectors_run s'"
| cr_begin: "collectors_run s \<Longrightarrow> i < length (pool s) \<Longrightarrow> get_begin i s = (r, s') \<Longrightarrow> collectors_run s'"
| cr_wake: "collectors_run s \<Longrightarrow> i \<in> set (blocked s) \<Longrightarrow> get_wake i s = (r, s') \<Longrightarrow> collectors_run s'"
| cr_cancel: "collectors_run s \<Longrightarrow> i \<in> set (blocked s) \<Longrightarrow> collectors_run (get_cancel i s)"
| cr_clear: "collectors_run s \<Longrightarrow> i < length (pool s) \<Longrightarrow> collectors_run (clear_at i s)"

definition waiting_count :: "'l collectors \<Rightarrow> nat" where
  "waiting_count s = length (filter is_waiting (pool s))"

lemma filter_update:
  "i < length xs \<Longrightarrow> int (length (filter P (xs[i := x]))) =
     int (length (filter P xs)) + (if P x then 1 else 0) - (if P (xs ! i) then 1 else 0)"
proof -
  assume i: "i < length xs"
  have "xs = take i xs @ xs ! i # drop (Suc i) xs" using i by (simp add: id_take_nth_drop)
  then have "length (filter P xs) = length (filter P (take i xs @ xs ! i # drop (Suc i) xs))" by simp
  then show ?thesis using i by (simp add: upd_conv_take_nth_drop)
qed

text \<open>What the steps must keep: the counter, and blocked coroutines at collectors that exist.\<close>

definition counted :: "'l collectors \<Rightarrow> bool" where
  "counted s \<longleftrightarrow> waiting_consumers s = int (waiting_count s) \<and> (\<forall>i\<in>set (blocked s). i < length (pool s))"

lemma counted_pool:
  assumes "counted s" and "i < length (pool s)" and "is_waiting c = is_waiting (pool s ! i)"
  shows "counted (s\<lparr>pool := (pool s)[i := c]\<rparr>)"
  using assms filter_update [of i "pool s" is_waiting c] by (simp add: counted_def waiting_count_def)

lemma counted_stop: "counted s \<Longrightarrow> i < length (pool s) \<Longrightarrow> counted (stop_waiting i s)"
  using filter_update [of i "pool s" is_waiting "(pool s ! i)\<lparr>is_waiting := False\<rparr>"]
  by (simp add: counted_def waiting_count_def stop_waiting_def)

lemma counted_unblock: "counted s \<Longrightarrow> counted (s\<lparr>blocked := remove1 i (blocked s)\<rparr>)"
  by (auto simp: counted_def waiting_count_def dest: notin_set_remove1 set_remove1_subset [THEN subsetD])

lemma counted_nowait:
  assumes "counted s" and "i < length (pool s)" and "get_nowait_at i s = (r, s')"
  shows "counted s'" "length (pool s') = length (pool s)"
  using assms counted_pool [OF assms(1,2)] by (auto simp: get_nowait_at_def get_nowait_def split: option.splits)

lemma counted_finish:
  assumes "counted s" and "i < length (pool s)" and "finish_get i s = (r, s')"
  shows "counted s'"
proof (cases "buffer (pool s ! i) = None")
  case True
  then show ?thesis using assms by (auto simp: finish_get_def counted_def waiting_count_def)
next
  case False
  obtain out s1 where s1: "get_nowait_at i s = (out, s1)" by fastforce
  note c = counted_nowait [OF assms(1,2) s1]
  have "s' = stop_waiting i s1" using assms(3) False s1 by (simp add: finish_get_def)
  then show ?thesis using counted_stop [OF c(1)] c(2) assms(2) by simp
qed

lemma collectors_counted: "collectors_run s \<Longrightarrow> counted s"
proof (induction rule: collectors_run.induct)
  case cr_init
  then show ?case by (simp add: counted_def waiting_count_def)
next
  case (cr_new s agg)
  then show ?case by (auto simp: new_collector_def counted_def waiting_count_def collector_init_def)
next
  case (cr_put s i out)
  then show ?case unfolding put_at_def by (intro counted_pool) (simp_all add: collector_put_def Let_def)
next
  case (cr_nowait s i r s')
  then show ?case using counted_nowait by blast
next
  case (cr_begin s i r s')
  let ?c = "(pool s ! i)\<lparr>is_waiting := True\<rparr>"
  have "counted (s\<lparr>pool := (pool s)[i := ?c], waiting_consumers := waiting_consumers s + 1\<rparr>)" if "\<not> is_waiting (pool s ! i)"
    using cr_begin.IH cr_begin.hyps(2) filter_update [of i "pool s" is_waiting ?c] that
    by (simp add: counted_def waiting_count_def)
  then show ?case
    using cr_begin counted_finish [of s i r s'] counted_finish [of "s\<lparr>pool := (pool s)[i := ?c], waiting_consumers := waiting_consumers s + 1\<rparr>" i r s']
    by (auto simp: get_begin_def Let_def split: if_splits)
next
  case (cr_wake s i r s')
  then have "i < length (pool s)" by (simp add: counted_def)
  then show ?case using cr_wake counted_finish [OF counted_unblock] by (simp add: get_wake_def)
next
  case (cr_cancel s i)
  then have "i < length (pool s)" by (simp add: counted_def)
  then show ?case using cr_cancel unfolding get_cancel_def by (intro counted_stop counted_unblock) simp_all
next
  case (cr_clear s i)
  then show ?case unfolding clear_at_def by (intro counted_stop counted_pool) simp_all
qed

text \<open>
  Under any interleaving of producers, consumers, cancellations and clears the shared counter is
  the number of collectors marked as waiting, so it is never negative and the engine's yield test
  holds exactly when some collector has a consumer waiting.
\<close>

theorem waiting_counter_exact:
  assumes "collectors_run s"
  shows "waiting_consumers s = int (length (filter is_waiting (pool s))) \<and>
    (has_waiting_consumers s \<longleftrightarrow> (\<exists>c\<in>set (pool s). is_waiting c))"
  using collectors_counted [OF assms] by (auto simp: counted_def waiting_count_def has_waiting_consumers_def filter_empty_conv)

lemma waiting_counter_exact_witness:
  "waiting_consumers (snd (get_begin 0 (new_collector True \<lparr>pool = [], blocked = [], waiting_consumers = 0\<rparr> :: unit collectors))) = 1"
proof -
  let ?s = "new_collector True \<lparr>pool = [], blocked = [], waiting_consumers = 0\<rparr> :: unit collectors"
  have run: "collectors_run (snd (get_begin 0 ?s))"
    by (rule cr_begin [OF cr_new [OF cr_init, of True], where r = None and i = 0])
      (simp_all add: new_collector_def get_begin_def finish_get_def collector_init_def Let_def)
  have "length (filter is_waiting (pool (snd (get_begin 0 ?s)))) = 1" by code_simp
  then show ?thesis using waiting_counter_exact [OF run] by simp
qed

section \<open>Nothing is lost\<close>

text \<open>A producer and a consumer of one collector: the outputs taken, in order, and the collector.\<close>

datatype 'l traffic = Put "'l request_output" | Take

fun traffic_run :: "'l traffic list \<Rightarrow> 'l collector \<Rightarrow> 'l request_output list \<times> 'l collector" where
  "traffic_run [] c = ([], c)"
| "traffic_run (Put out # ts) c = traffic_run ts (collector_put out c)"
| "traffic_run (Take # ts) c =
     (case get_nowait c of
        (None, c1) \<Rightarrow> traffic_run ts c1
      | (Some out, c1) \<Rightarrow> (case traffic_run ts c1 of (outs, c2) \<Rightarrow> (out # outs, c2)))"

fun puts :: "'l traffic list \<Rightarrow> 'l request_output list" where
  "puts [] = []"
| "puts (Put out # ts) = out # puts ts"
| "puts (Take # ts) = puts ts"

text \<open>The puts between two takes end up in one output; what was put since the last take is still buffered.\<close>

fun batches :: "'l request_output list \<Rightarrow> 'l traffic list \<Rightarrow> 'l request_output list list \<times> 'l request_output list" where
  "batches b [] = ([], b)"
| "batches b (Put out # ts) = batches (b @ [out]) ts"
| "batches b (Take # ts) = (case batches [] ts of (bs, l) \<Rightarrow> (if b = [] then bs else b # bs, l))"

text \<open>Error and error kind of an output, which belong together.\<close>

definition error_pair :: "'l request_output \<Rightarrow> string option \<times> string option" where
  "error_pair out = (out_error out, error_kind out)"

text \<open>The last value that is true, and the first one where none is.\<close>

definition last_true :: "('b \<Rightarrow> bool) \<Rightarrow> 'b list \<Rightarrow> 'b" where
  "last_true P xs = (case filter P xs of [] \<Rightarrow> hd xs | y # ys \<Rightarrow> last (y # ys))"

lemma last_true_simps [simp]:
  "last_true P [x] = x" "xs \<noteq> [] \<Longrightarrow> last_true P (xs @ [x]) = (if P x then x else last_true P xs)"
  by (auto simp: last_true_def split: list.split)

text \<open>The fields of which only the newest value counts.\<close>

definition newest :: "'l request_output \<Rightarrow> (string \<times> int list \<times> string \<times> bool \<times> string option) \<times> int \<times> int \<times> 'l \<times> int" where
  "newest out = ((request_id out, output_token_ids out, output_text out, finished out, finish_reason out),
     prompt_tokens out, completion_tokens out, logprobs out, cached_tokens out)"

text \<open>An output that carries a batch: nothing of it is missing and nothing else is in it.\<close>

definition carries :: "'l request_output list \<Rightarrow> 'l request_output \<Rightarrow> bool" where
  "carries b out \<longleftrightarrow> b \<noteq> [] \<and>
     new_token_ids out = concat (map new_token_ids b) \<and> new_text out = concat (map new_text b) \<and>
     newest out = newest (last b) \<and>
     error_pair out = last_true (\<lambda>p. truthy (fst p)) (map error_pair b) \<and>
     matched_stop out = last_true truthy (map matched_stop b) \<and>
     spec_decode_metrics out = last_true truthy (map spec_decode_metrics b) \<and>
     prompt_compression out = last_true truthy (map prompt_compression b) \<and>
     timing_metrics out = last_true truthy (map timing_metrics b)"

lemma carries_one: "carries [out] out"
  by (simp add: carries_def)

lemma merge_fields:
  "new_token_ids (merge_outputs a b) = new_token_ids a @ new_token_ids b"
  "new_text (merge_outputs a b) = new_text a @ new_text b" "newest (merge_outputs a b) = newest b"
  "error_pair (merge_outputs a b) = (if truthy (out_error b) then error_pair b else error_pair a)"
  "matched_stop (merge_outputs a b) = py_or (matched_stop b) (matched_stop a)"
  "spec_decode_metrics (merge_outputs a b) = py_or (spec_decode_metrics b) (spec_decode_metrics a)"
  "prompt_compression (merge_outputs a b) = py_or (prompt_compression b) (prompt_compression a)"
  "timing_metrics (merge_outputs a b) = py_or (timing_metrics b) (timing_metrics a)"
  by (simp_all add: merge_outputs_def newest_def error_pair_def)

lemma carries_merge: "carries b a \<Longrightarrow> carries (b @ [out]) (merge_outputs a out)"
proof -
  have "fst (error_pair out) = out_error out" by (simp add: error_pair_def)
  then show "carries b a \<Longrightarrow> carries (b @ [out]) (merge_outputs a out)" by (simp add: carries_def merge_fields py_or_def)
qed

definition holds_batch :: "'l collector \<Rightarrow> 'l request_output list \<Rightarrow> bool" where
  "holds_batch c b \<longleftrightarrow> (case buffer c of None \<Rightarrow> b = [] | Some out \<Rightarrow> carries b out)"

lemma put_holds: "aggregate c \<Longrightarrow> holds_batch c b \<Longrightarrow> holds_batch (collector_put out c) (b @ [out])"
  by (auto simp: holds_batch_def collector_put_def Let_def carries_one carries_merge split: option.splits)

lemma traffic_batches:
  "aggregate c \<Longrightarrow> holds_batch c b \<Longrightarrow> traffic_run ts c = (outs, c') \<Longrightarrow> batches b ts = (bs, l) \<Longrightarrow>
     list_all2 carries bs outs \<and> holds_batch c' l"
proof (induction ts arbitrary: c b outs c' bs l)
  case (Cons t ts)
  show ?case
  proof (cases t)
    case (Put out)
    then show ?thesis
      using Cons.IH [OF _ put_holds [OF Cons.prems(1,2), of out]] Cons.prems by (simp add: collector_put_def Let_def)
  next
    case Take
    obtain bs1 l1 where b1: "batches [] ts = (bs1, l1)" by force
    show ?thesis
    proof (cases "buffer c")
      case None
      then show ?thesis using Cons.IH [OF Cons.prems(1,2)] Cons.prems Take by (simp add: get_nowait_def holds_batch_def)
    next
      case (Some out)
      let ?c = "c\<lparr>buffer := None, ready := False\<rparr>"
      obtain outs1 c1 where r: "traffic_run ts ?c = (outs1, c1)" by force
      have "b \<noteq> []" "carries b out" using Cons.prems(2) Some by (simp_all add: holds_batch_def carries_def)
      moreover have "list_all2 carries bs1 outs1 \<and> holds_batch c1 l1"
        by (rule Cons.IH [OF _ _ r b1]) (use Cons.prems(1) in \<open>simp_all add: holds_batch_def\<close>)
      ultimately show ?thesis using Cons.prems(3,4) Take Some r b1 by (auto simp: get_nowait_def)
    qed
  qed
qed simp

lemma batches_puts: "batches b ts = (bs, l) \<Longrightarrow> concat bs @ l = b @ puts ts"
  by (induction b ts arbitrary: bs l rule: batches.induct) (auto split: prod.splits if_splits)

text \<open>
  C32. Aggregation loses nothing. However a producer's puts and a consumer's takes interleave, the outputs taken are one per
  batch of puts between two takes, and the buffer holds the batch since the last take. Every one of them carries the token
  ids and the texts of its batch in order, the last error in it together with the kind of that error, the last true
  \<open>matched_stop\<close> and metrics, and the newest of every other field.
\<close>

theorem collector_lossless:
  assumes "traffic_run ts (collector_init True) = (outs, c)" and "batches [] ts = (bs, l)"
  shows "concat bs @ l = puts ts \<and> list_all2 carries bs outs \<and>
    (case buffer c of None \<Rightarrow> l = [] | Some out \<Rightarrow> carries l out)"
  using traffic_batches [OF _ _ assms] batches_puts [OF assms(2)]
  by (simp add: collector_init_def holds_batch_def)

definition demo_output :: "int list \<Rightarrow> unit request_output" where
  "demo_output ids = \<lparr>request_id = ''r'', new_token_ids = ids, new_text = [], output_token_ids = ids, output_text = [],
     finished = False, finish_reason = None, prompt_tokens = 0, completion_tokens = 0, logprobs = (), out_error = None,
     cached_tokens = 0, matched_stop = None, error_kind = None, spec_decode_metrics = None, prompt_compression = None,
     timing_metrics = None\<rparr>"

definition demo_error :: "unit request_output" where
  "demo_error = (demo_output [])\<lparr>out_error := Some ''gone'', error_kind := Some ''timeout''\<rparr>"

lemma collector_lossless_witness:
  "\<exists>a b. fst (traffic_run [Put (demo_output [1]), Put demo_error, Put (demo_output [2]), Take, Take, Put (demo_output [3]), Take]
     (collector_init True)) = [a, b] \<and> new_token_ids a = [1, 2] \<and> error_pair a = (Some ''gone'', Some ''timeout'') \<and> new_token_ids b = [3]"
proof -
  let ?ts = "[Put (demo_output [1]), Put demo_error, Put (demo_output [2]), Take, Take, Put (demo_output [3]), Take]"
  have b: "batches [] ?ts = ([[demo_output [1], demo_error, demo_output [2]], [demo_output [3]]], [])" by simp
  obtain outs c where r: "traffic_run ?ts (collector_init True) = (outs, c)" by force
  show ?thesis
    using collector_lossless [OF r b] unfolding r
    by (auto simp: list_all2_Cons1 carries_def demo_output_def demo_error_def error_pair_def last_true_def truthy_def)
qed

end
