(* ===== verification/PromptTokenReuse.thy ===== *)
theory PromptTokenReuse
  imports Prelude
begin

text \<open>
  \<^bold>\<open>rapid_mlx/prompt_token_reuse.py.\<close> Tokenizing a prompt variant by re-encoding only what differs: the
  binary search for the common prefix, the search for the last added token before it, the check that no
  marker straddles the cut, and the splice. The tokenizer is a parameter; \<open>None\<close> is an exception.
\<close>

section \<open>Searching text\<close>

definition SEARCH_WINDOW_CHARS :: nat where
  "SEARCH_WINDOW_CHARS = 16384"

definition occurs_at :: "'c list \<Rightarrow> 'c list \<Rightarrow> nat \<Rightarrow> bool" where
  "occurs_at marker text i \<longleftrightarrow> i + length marker \<le> length text \<and> take (length marker) (drop i text) = marker"

text \<open>\<open>text.find(marker, start, end)\<close> and \<open>text.rfind\<close>: the first and the last occurrence inside the range.\<close>

definition ranged :: "'c list \<Rightarrow> 'c list \<Rightarrow> nat \<Rightarrow> nat \<Rightarrow> nat list" where
  "ranged text marker start stop =
     filter (\<lambda>i. i + length marker \<le> stop \<and> occurs_at marker text i) [start..<Suc (min stop (length text))]"

definition str_find :: "'c list \<Rightarrow> 'c list \<Rightarrow> nat \<Rightarrow> nat \<Rightarrow> int" where
  "str_find text marker start stop = (case ranged text marker start stop of [] \<Rightarrow> -1 | i # _ \<Rightarrow> int i)"

definition str_rfind :: "'c list \<Rightarrow> 'c list \<Rightarrow> nat \<Rightarrow> nat \<Rightarrow> int" where
  "str_rfind text marker start stop =
     (let is = ranged text marker start stop in if is = [] then -1 else int (last is))"

section \<open>The code\<close>

text \<open>The loop of the binary search, from \<open>low\<close> and \<open>high\<close>.\<close>

function prefix_search :: "'c list \<Rightarrow> 'c list \<Rightarrow> nat \<Rightarrow> nat \<Rightarrow> nat" where
  "prefix_search left right low high =
     (if 1 < high - low then
        let middle = (low + high) div 2
        in if take middle left = take middle right then prefix_search left right middle high
           else prefix_search left right low middle
      else low)"
  by pat_completeness auto
termination
  by (relation "measure (\<lambda>(_, _, low, high). high - low)") auto

declare prefix_search.simps [simp del]

definition common_prefix_length :: "'c list \<Rightarrow> 'c list \<Rightarrow> nat" where
  "common_prefix_length left right =
     (let high = min (length left) (length right)
      in if take high left = take high right then high else prefix_search left right 0 high)"

text \<open>The added vocabulary: \<open>None\<close> where it cannot be read; a key \<open>None\<close> is not a string.\<close>

definition added_token_markers :: "'c list option list option \<Rightarrow> 'c list list" where
  "added_token_markers vocab =
     (case vocab of None \<Rightarrow> []
      | Some ks \<Rightarrow> map the (filter (\<lambda>k. case k of None \<Rightarrow> False | Some m \<Rightarrow> m \<noteq> []) ks))"

definition last_marker_end :: "'c list \<Rightarrow> nat \<Rightarrow> 'c list list \<Rightarrow> nat" where
  "last_marker_end text limit markers =
     (let start = limit - SEARCH_WINDOW_CHARS
      in fold (\<lambda>marker best. let index = str_rfind text marker start limit
            in if 0 \<le> index then max best (nat index + length marker) else best) markers 0)"

definition marker_spans :: "'c list \<Rightarrow> nat \<Rightarrow> 'c list list \<Rightarrow> bool" where
  "marker_spans text edge markers =
     list_ex (\<lambda>marker. let width = length marker
        in 0 \<le> str_find text marker (edge + 1 - width) (edge + width - 1)) markers"

definition encode_sharing_head :: "'c list \<Rightarrow> int list \<Rightarrow> 'c list \<Rightarrow> ('c list \<Rightarrow> int list option) \<Rightarrow> 'c list list \<Rightarrow>
    int list option" where
  "encode_sharing_head real_text real_tokens variant_text encode_tail markers =
     (if markers = [] \<or> real_tokens = [] then None
      else let shared = common_prefix_length real_text variant_text in
        if shared < 2 then None
        else let edge = last_marker_end real_text (shared - 1) markers in
          if edge = 0 then None
          else if marker_spans real_text edge markers \<or> marker_spans variant_text edge markers then None
          else (case encode_tail (drop edge real_text) of None \<Rightarrow> None
            | Some real_tail \<Rightarrow>
                let head_length = int (length real_tokens) - int (length real_tail)
                in if head_length \<le> 0 then None
                   else if drop (nat head_length) real_tokens \<noteq> real_tail then None
                   else (case encode_tail (drop edge variant_text) of None \<Rightarrow> None
                     | Some variant_tail \<Rightarrow> Some (take (nat head_length) real_tokens @ variant_tail))))"

section \<open>The common prefix\<close>

text \<open>Reference: compare character by character.\<close>

lemma prefix_search_common:
  "low \<le> common_prefix xs ys \<Longrightarrow> common_prefix xs ys < high \<Longrightarrow> high \<le> min (length xs) (length ys) \<Longrightarrow>
    prefix_search xs ys low high = common_prefix xs ys"
proof (induction xs ys low high rule: prefix_search.induct)
  case (1 left right low high)
  show ?case
  proof (cases "1 < high - low")
    case True
    let ?m = "(low + high) div 2"
    have "?m \<le> min (length left) (length right)" using "1.prems"(3) True by linarith
    note tc = take_common_prefix [OF this]
    show ?thesis
    proof (cases "take ?m left = take ?m right")
      case True
      then show ?thesis using 1 tc \<open>1 < high - low\<close> by (subst prefix_search.simps) (simp add: Let_def)
    next
      case False
      then show ?thesis using 1 tc \<open>1 < high - low\<close> \<open>?m \<le> _\<close> by (subst prefix_search.simps) (simp add: Let_def)
    qed
  next
    case False
    then show ?thesis using "1.prems" by (subst prefix_search.simps) simp
  qed
qed

lemma prefix_length_facts:
  "common_prefix_length left right = common_prefix left right \<and>
   take (common_prefix_length left right) left = take (common_prefix_length left right) right \<and>
   (common_prefix_length left right < length left \<and> common_prefix_length left right < length right \<longrightarrow>
      left ! common_prefix_length left right \<noteq> right ! common_prefix_length left right)"
proof -
  let ?h = "min (length left) (length right)" and ?c = "common_prefix left right"
  have eq: "common_prefix_length left right = ?c"
  proof (cases "take ?h left = take ?h right")
    case True
    then have "?h = ?c" using take_common_prefix [of ?h left right] common_prefix_le [of left right] by simp
    then show ?thesis using True by (simp add: common_prefix_length_def Let_def)
  next
    case False
    then have "\<not> ?h \<le> ?c" using take_common_prefix [of ?h left right] by simp
    then have "?c < ?h" by linarith
    then show ?thesis
      using False prefix_search_common [of 0 left right ?h] by (simp add: common_prefix_length_def Let_def)
  qed
  have "take ?c left = take ?c right" using take_common_prefix [of ?c left right] common_prefix_le [of left right] by simp
  moreover have "left ! ?c \<noteq> right ! ?c" if "?c < length left" "?c < length right"
    using that take_common_prefix [of "Suc ?c" left right] \<open>take ?c left = take ?c right\<close>
    by (simp add: take_Suc_conv_app_nth)
  ultimately show ?thesis unfolding eq by blast
qed

text \<open>
  C33. The binary search terminates and returns exactly what comparing character by character gives:
  the length of the longest common prefix of the two texts.
\<close>

theorem common_prefix_length_exact:
  "common_prefix_length left right = common_prefix left right \<and>
   take (common_prefix_length left right) left = take (common_prefix_length left right) right \<and>
   (common_prefix_length left right < length left \<and> common_prefix_length left right < length right \<longrightarrow>
      left ! common_prefix_length left right \<noteq> right ! common_prefix_length left right)"
  by (rule prefix_length_facts)

lemma common_prefix_length_exact_witness: "common_prefix_length ''system: hi'' ''system: ho'' = 9"
  using common_prefix_length_exact [of "''system: hi''" "''system: ho''"] by simp

section \<open>The cut\<close>

lemma ranged_iff: "i \<in> set (ranged text marker start stop) \<longleftrightarrow>
    start \<le> i \<and> i + length marker \<le> stop \<and> occurs_at marker text i"
  by (auto simp: ranged_def occurs_at_def less_Suc_eq_le)

lemma str_find_iff: "0 \<le> str_find text marker start stop \<longleftrightarrow>
    (\<exists>i\<ge>start. i + length marker \<le> stop \<and> occurs_at marker text i)"
proof -
  have "0 \<le> str_find text marker start stop \<longleftrightarrow> ranged text marker start stop \<noteq> []"
    by (simp add: str_find_def split: list.split)
  also have "\<dots> \<longleftrightarrow> (\<exists>i. i \<in> set (ranged text marker start stop))" by (cases "ranged text marker start stop") auto
  finally show ?thesis by (auto simp: ranged_iff)
qed

lemma marker_spans_iff:
  "marker_spans text edge markers \<longleftrightarrow> (\<exists>marker\<in>set markers. \<exists>i. i < edge \<and> edge < i + length marker \<and> occurs_at marker text i)"
proof -
  have "edge + 1 - w \<le> i \<and> i + w \<le> edge + w - 1 \<longleftrightarrow> i < edge \<and> edge < i + w" for i w :: nat by presburger
  then have "(\<exists>i\<ge>edge + 1 - length marker. i + length marker \<le> edge + length marker - 1 \<and> occurs_at marker text i) \<longleftrightarrow>
      (\<exists>i. i < edge \<and> edge < i + length marker \<and> occurs_at marker text i)" for marker by blast
  then show ?thesis unfolding marker_spans_def list_ex_iff Let_def str_find_iff by simp
qed

lemma last_marker_end_occurs:
  assumes "0 < last_marker_end text limit markers"
  shows "last_marker_end text limit markers \<le> limit \<and>
    (\<exists>marker\<in>set markers. \<exists>i. occurs_at marker text i \<and> i + length marker = last_marker_end text limit markers)"
proof -
  let ?P = "\<lambda>e. e = 0 \<or> e \<le> limit \<and> (\<exists>marker\<in>set markers. \<exists>i. occurs_at marker text i \<and> i + length marker = e)"
  let ?f = "\<lambda>marker best. let index = str_rfind text marker (limit - SEARCH_WINDOW_CHARS) limit
            in if 0 \<le> index then max best (nat index + length marker) else best"
  have step: "?P (nat (str_rfind text m s limit) + length m)" if "m \<in> set markers" "0 \<le> str_rfind text m s limit" for m s
  proof -
    have ne: "ranged text m s limit \<noteq> []" using that(2) by (auto simp: str_rfind_def Let_def split: if_splits)
    have "last (ranged text m s limit) \<in> set (ranged text m s limit)" by (rule last_in_set [OF ne])
    then show ?thesis using that(1) ne by (auto simp: ranged_iff str_rfind_def Let_def)
  qed
  have "set ms \<subseteq> set markers \<Longrightarrow> ?P b \<Longrightarrow> ?P (fold ?f ms b)" for ms b
  proof (induction ms arbitrary: b)
    case (Cons m ms)
    have "?P (?f m b)" using step [of m] Cons.prems by (auto simp: Let_def max_def)
    then show ?case using Cons by simp
  qed simp
  from this [of markers 0] show ?thesis using assms by (simp add: last_marker_end_def Let_def)
qed

lemma last_marker_end_window: "last_marker_end input limit markers \<le> limit"
  using last_marker_end_occurs [of input limit markers] by (cases "last_marker_end input limit markers = 0") auto

section \<open>The splice\<close>

text \<open>
  What the code relies on of the tokenizer: it splits its input on added tokens before anything else,
  so where a marker ends and no marker straddles, the text before contributes tokens of its own and the
  text after is encoded as it would be alone.
\<close>

definition splits_at_markers :: "('c list \<Rightarrow> int list) \<Rightarrow> ('c list \<Rightarrow> int list option) \<Rightarrow> 'c list list \<Rightarrow> bool" where
  "splits_at_markers encode encode_tail markers \<longleftrightarrow>
     (\<forall>text edge. edge \<le> length text \<and> (\<exists>marker\<in>set markers. \<exists>i. occurs_at marker text i \<and> i + length marker = edge) \<and>
        (\<forall>marker\<in>set markers. \<forall>i. i < edge \<and> edge < i + length marker \<longrightarrow> \<not> occurs_at marker text i) \<longrightarrow>
        (\<forall>tail. encode_tail (drop edge text) = Some tail \<longrightarrow> (\<exists>head. encode text = head @ tail \<and>
           (\<forall>other tail'. take edge other = take edge text \<and>
              (\<forall>marker\<in>set markers. \<forall>i. i < edge \<and> edge < i + length marker \<longrightarrow> \<not> occurs_at marker other i) \<and>
              encode_tail (drop edge other) = Some tail' \<longrightarrow> encode other = head @ tail'))))"

text \<open>
  C34. Where the shortcut answers, the answer is the encoding of the variant in full, for every
  tokenizer that splits at its added tokens, given the real prompt's full tokens.
\<close>

theorem encode_sharing_head_exact:
  assumes t: "splits_at_markers encode encode_tail markers" and r: "real_tokens = encode real_text"
    and e: "encode_sharing_head real_text real_tokens variant_text encode_tail markers = Some tokens"
  shows "tokens = encode variant_text"
proof -
  define edge where "edge = last_marker_end real_text (common_prefix_length real_text variant_text - 1) markers"
  obtain real_tail variant_tail where tails: "encode_tail (drop edge real_text) = Some real_tail"
      "encode_tail (drop edge variant_text) = Some variant_tail"
    and edge: "0 < edge" "\<not> marker_spans real_text edge markers" "\<not> marker_spans variant_text edge markers"
    and hl: "length real_tail < length real_tokens" "drop (length real_tokens - length real_tail) real_tokens = real_tail"
      "tokens = take (length real_tokens - length real_tail) real_tokens @ variant_tail"
    using e unfolding encode_sharing_head_def Let_def edge_def [symmetric]
    by (auto split: if_splits option.splits simp: nat_diff_distrib)
  have occ: "\<exists>marker\<in>set markers. \<exists>i. occurs_at marker real_text i \<and> i + length marker = edge"
    using last_marker_end_occurs [of real_text _ markers] edge(1) unfolding edge_def by blast
  have le: "edge \<le> length real_text" using occ by (auto simp: occurs_at_def)
  have "edge \<le> common_prefix_length real_text variant_text"
    using last_marker_end_window [of real_text "common_prefix_length real_text variant_text - 1" markers]
    unfolding edge_def by simp
  then have pre: "take edge variant_text = take edge real_text"
    using prefix_length_facts [of real_text variant_text] by (metis min.absorb1 take_take)
  have ns: "\<forall>marker\<in>set markers. \<forall>i. i < edge \<and> edge < i + length marker \<longrightarrow> \<not> occurs_at marker input i"
    if "\<not> marker_spans input edge markers" for input using that unfolding marker_spans_iff by blast
  obtain head where h: "encode real_text = head @ real_tail"
    "\<forall>other tail'. take edge other = take edge real_text \<and>
       (\<forall>marker\<in>set markers. \<forall>i. i < edge \<and> edge < i + length marker \<longrightarrow> \<not> occurs_at marker other i) \<and>
       encode_tail (drop edge other) = Some tail' \<longrightarrow> encode other = head @ tail'"
    using t [unfolded splits_at_markers_def, rule_format, of edge real_text real_tail] occ ns [OF edge(2)]
      le tails(1) by blast
  have "encode variant_text = head @ variant_tail" using h(2) pre ns [OF edge(3)] tails(2) by blast
  moreover have "take (length real_tokens - length real_tail) real_tokens = head" using h(1) r by simp
  ultimately show ?thesis using hl(3) by simp
qed

text \<open>A tokenizer of single characters splits everywhere.\<close>

definition char_tokens :: "string \<Rightarrow> int list" where
  "char_tokens = map of_char"

lemma char_tokens_splits: "splits_at_markers char_tokens (Some \<circ> char_tokens) markers"
  unfolding splits_at_markers_def
proof (intro allI impI)
  fix input tail and edge :: nat
  assume "(Some \<circ> char_tokens) (drop edge input) = Some tail"
  then have "char_tokens input = char_tokens (take edge input) @ tail"
    by (simp add: char_tokens_def) (metis append_take_drop_id map_append)
  moreover have "char_tokens other = char_tokens (take edge input) @ tail'"
    if "take edge other = take edge input" "(Some \<circ> char_tokens) (drop edge other) = Some tail'" for other tail'
    using that by (simp add: char_tokens_def) (metis append_take_drop_id map_append)
  ultimately show "\<exists>head. char_tokens input = head @ tail \<and> (\<forall>other tail'. take edge other = take edge input \<and>
      (\<forall>marker\<in>set markers. \<forall>i. i < edge \<and> edge < i + length marker \<longrightarrow> \<not> occurs_at marker other i) \<and>
      (Some \<circ> char_tokens) (drop edge other) = Some tail' \<longrightarrow> char_tokens other = head @ tail')" by blast
qed

lemma encode_sharing_head_exact_witness:
  "encode_sharing_head ''<e>ab'' (char_tokens ''<e>ab'') ''<e>ac'' (Some \<circ> char_tokens) [''<e>''] = Some (char_tokens ''<e>ac'')"
proof -
  have "encode_sharing_head ''<e>ab'' (char_tokens ''<e>ab'') ''<e>ac'' (Some \<circ> char_tokens) [''<e>''] \<noteq> None" by code_simp
  then obtain tokens where t:
    "encode_sharing_head ''<e>ab'' (char_tokens ''<e>ab'') ''<e>ac'' (Some \<circ> char_tokens) [''<e>''] = Some tokens" by blast
  from encode_sharing_head_exact [OF char_tokens_splits refl this] show ?thesis using t by simp
qed

end
