(* ===== verification/RepetitionGuard.thy ===== *)
theory RepetitionGuard
  imports Prelude
begin

text \<open>
  \<^bold>\<open>rapid_mlx/repetition_guard.py.\<close> The detector of exact periodic suffixes, its preventative counterpart,
  and the logits processor that masks the predicted token. Parameters are natural numbers (a negative
  period or repeat count is refused like zero); \<open>ceil(a / b)\<close> of small integers is the integer ceiling. Logits
  are a batch of rows over the vocabulary, with the value of \<open>-inf\<close> as a parameter.
\<close>

section \<open>Detection\<close>

record guard_params =
  min_period :: nat
  max_period_tokens :: nat
  required_repeats :: nat
  min_repeated_tokens :: nat
  min_short_period_tokens :: nat
  max_window_tokens :: nat

definition default_guard :: guard_params where
  "default_guard = \<lparr>min_period = 1, max_period_tokens = 128, required_repeats = 3, min_repeated_tokens = 72,
     min_short_period_tokens = 256, max_window_tokens = 768\<rparr>"

record repetition_match =
  period_tokens :: nat
  repeats :: nat

record repetition_intervention = repetition_match +
  blocked_token_id :: int

definition ceil_div :: "nat \<Rightarrow> nat \<Rightarrow> nat" where
  "ceil_div a b = (a + b - 1) div b"

text \<open>The repeat count that stops a loop of the given period.\<close>

definition stop_repeats :: "guard_params \<Rightarrow> nat \<Rightarrow> nat" where
  "stop_repeats p period = max (required_repeats p)
     (ceil_div (if period < 6 then min_short_period_tokens p else min_repeated_tokens p) period)"

text \<open>The test of one period: the last \<open>period * n\<close> tokens are \<open>n\<close> copies of a pattern without smaller period.\<close>

definition reducible :: "int list \<Rightarrow> bool" where
  "reducible pattern = (let period = length pattern in
     list_ex (\<lambda>smaller. period mod smaller = 0 \<and>
       pattern = concat (replicate (period div smaller) (take smaller pattern))) [1..<period])"

definition periodic_suffix :: "int list \<Rightarrow> nat \<Rightarrow> nat \<Rightarrow> bool" where
  "periodic_suffix tokens period n =
     (let repeated_tokens = period * n in
      if length tokens < repeated_tokens then False
      else let suffix = drop (length tokens - repeated_tokens) tokens; pattern = take period suffix
        in if reducible pattern then False
           else list_all (\<lambda>offset. slice suffix offset (offset + period) = pattern) (map (\<lambda>i. period * i) [1..<n]))"

definition guard_window :: "guard_params \<Rightarrow> int list \<Rightarrow> int list" where
  "guard_window p token_ids = py_drop (- int (max_window_tokens p)) token_ids"

definition detect_repeated_token_suffix :: "guard_params \<Rightarrow> int list \<Rightarrow> py_error + repetition_match option" where
  "detect_repeated_token_suffix p token_ids =
     (if required_repeats p < 2 \<or> min_period p < 1 then Inl ValueError
      else let tokens = guard_window p token_ids;
               max_period = min (max_period_tokens p) (length tokens div required_repeats p)
        in Inr (map_option (\<lambda>period. \<lparr>period_tokens = period, repeats = stop_repeats p period\<rparr>)
             (List.find (\<lambda>period. periodic_suffix tokens period (stop_repeats p period)) [min_period p..<max_period + 1])))"

definition predict_repeated_token_suffix :: "guard_params \<Rightarrow> int list \<Rightarrow> py_error + repetition_intervention option" where
  "predict_repeated_token_suffix p token_ids =
     (if required_repeats p < 2 \<or> min_period p < 1 then Inl ValueError
      else let tokens = guard_window p token_ids;
               max_period = min (max_period_tokens p) (length tokens div (required_repeats p - 1))
        in Inr (map_option (\<lambda>period. let n = stop_repeats p period - 1
               in \<lparr>period_tokens = period, repeats = n,
                   blocked_token_id = hd (take period (drop (length tokens - period * n) tokens))\<rparr>)
             (List.find (\<lambda>period. periodic_suffix tokens period (stop_repeats p period - 1)) [min_period p..<max_period + 1])))"

section \<open>The processor\<close>

record logits_guard =
  guarded_output :: "int list"
  max_interventions :: int
  interventions :: int
  last_match :: "repetition_intervention option"
  last_intervention_length :: int

definition logits_guard_init :: "int list \<Rightarrow> int \<Rightarrow> logits_guard" where
  "logits_guard_init out m = \<lparr>guarded_output = out, max_interventions = m, interventions = 0, last_match = None,
     last_intervention_length = -1\<rparr>"

definition vocab_size :: "'v list list \<Rightarrow> nat" where
  "vocab_size logits = (case logits of [] \<Rightarrow> 0 | row # _ \<Rightarrow> length row)"

definition guard_apply :: "'v \<Rightarrow> int list \<Rightarrow> 'v list list \<Rightarrow> logits_guard \<Rightarrow> 'v list list \<times> logits_guard" where
  "guard_apply neg_inf history logits g =
     (if max_interventions g \<le> interventions g then (logits, g)
      else if int (length history) = last_intervention_length g then (logits, g)
      else case predict_repeated_token_suffix default_guard history of
        Inr (Some m) \<Rightarrow>
          (let token_id = blocked_token_id m in
           if token_id < 0 \<or> int (vocab_size logits) \<le> token_id then (logits, g)
           else (map (\<lambda>row. row[nat token_id := neg_inf]) logits,
                 g\<lparr>interventions := interventions g + 1, last_match := Some m,
                   last_intervention_length := int (length history)\<rparr>))
      | _ \<Rightarrow> (logits, g))"

definition guard_call :: "'v \<Rightarrow> 'v list list \<Rightarrow> logits_guard \<Rightarrow> 'v list list \<times> logits_guard" where
  "guard_call neg_inf logits g = guard_apply neg_inf (guarded_output g) logits g"

definition mtp_apply :: "'v \<Rightarrow> int list \<Rightarrow> 'v list list \<Rightarrow> logits_guard \<Rightarrow> 'v list list \<times> logits_guard" where
  "mtp_apply neg_inf tentative logits g =
     (if length (guarded_output g) + length tentative < 48 then (logits, g)
      else guard_apply neg_inf (guarded_output g @ tentative) logits g)"

definition mtp_snapshot_state :: "logits_guard \<Rightarrow> int \<times> repetition_intervention option \<times> int" where
  "mtp_snapshot_state g = (interventions g, last_match g, last_intervention_length g)"

definition mtp_restore_state :: "int \<times> repetition_intervention option \<times> int \<Rightarrow> logits_guard \<Rightarrow> logits_guard" where
  "mtp_restore_state st g = (case st of (i, m, l) \<Rightarrow> g\<lparr>interventions := i, last_match := m, last_intervention_length := l\<rparr>)"

section \<open>Powers of words\<close>

abbreviation pow :: "nat \<Rightarrow> 'a list \<Rightarrow> 'a list" where
  "pow n u \<equiv> concat (replicate n u)"

definition primitive :: "'a list \<Rightarrow> bool" where
  "primitive u \<longleftrightarrow> u \<noteq> [] \<and> (\<forall>v k. u = pow k v \<longrightarrow> k = 1)"

lemma length_pow: "length (pow n u) = n * length u"
  by (induction n) auto

lemma pow_add: "pow (m + n) u = pow m u @ pow n u"
  by (simp add: replicate_add)

lemma reducible_iff:
  assumes "u \<noteq> []"
  shows "reducible u \<longleftrightarrow> \<not> primitive u"
proof
  assume "reducible u"
  then obtain s where sr: "s \<in> set [1..<length u]" and s: "length u mod s = 0" "u = pow (length u div s) (take s u)"
    unfolding reducible_def list_ex_iff Let_def by (elim bexE conjE)
  then have s': "0 < s" "s < length u" by simp_all
  have "length u = length u div s * s" using div_mult_mod_eq [of "length u" s] s(1) by linarith
  then have "length u div s \<noteq> 1" using s'(2) by auto
  then show "\<not> primitive u" using s(2) unfolding primitive_def by blast
next
  assume "\<not> primitive u"
  then obtain v k where u: "u = pow k v" and k: "k \<noteq> 1" using assms by (auto simp: primitive_def)
  then have l: "length u = k * length v" by (simp only: length_pow)
  have v: "0 < length v" "2 \<le> k" using assms u k l by (cases v; cases k; auto)+
  have "take (length v) u = v" unfolding u using v(2) by (cases k) auto
  moreover have "length v < length u" using v l by simp
  moreover have "length u mod length v = 0" "length u div length v = k" using v l by simp_all
  ultimately show "reducible u" using u v(1) by (auto simp: reducible_def list_ex_iff Let_def Suc_le_eq intro!: bexI [of _ "length v"])
qed

text \<open>The offsets check is equality with a power.\<close>

lemma power_offsets:
  assumes "length xs = n * length u" and "0 < n"
  shows "xs = pow n u \<longleftrightarrow> take (length u) xs = u \<and> (\<forall>i\<in>{1..<n}. slice xs (length u * i) (length u * i + length u) = u)"
  using assms
proof (induction n arbitrary: xs)
  case (Suc n)
  let ?l = "length u"
  show ?case
  proof (cases "n = 0")
    case True
    then show ?thesis using Suc.prems by auto
  next
    case False
    have sp: "xs = take ?l xs @ drop ?l xs" by simp
    have ln: "length (drop ?l xs) = n * ?l" "length (take ?l xs) = ?l" using Suc.prems by simp_all
    have sh: "slice (drop ?l xs) (?l * i) (?l * i + ?l) = slice xs (?l * Suc i) (?l * Suc i + ?l)" for i
      by (simp add: slice_def add.commute)
    have "xs = pow (Suc n) u \<longleftrightarrow> take ?l xs = u \<and> drop ?l xs = pow n u"
      by (metis append_eq_conv_conj append_take_drop_id concat.simps(2) replicate_Suc)
    also have "drop ?l xs = pow n u \<longleftrightarrow> take ?l (drop ?l xs) = u \<and>
        (\<forall>i\<in>{1..<n}. slice xs (?l * Suc i) (?l * Suc i + ?l) = u)"
      using Suc.IH [OF ln(1)] False by (simp only: sh neq0_conv)
    also have "take ?l (drop ?l xs) = slice xs (?l * 1) (?l * 1 + ?l)" by (simp add: slice_def)
    also have "(slice xs (?l * 1) (?l * 1 + ?l) = u \<and> (\<forall>i\<in>{1..<n}. slice xs (?l * Suc i) (?l * Suc i + ?l) = u)) \<longleftrightarrow>
        (\<forall>i\<in>{1..<Suc n}. slice xs (?l * i) (?l * i + ?l) = u)"
    proof -
      have "i \<in> {1..<Suc n} \<longleftrightarrow> i = 1 \<or> (\<exists>j\<in>{1..<n}. i = Suc j)" for i
        using False by (cases i) auto
      then show ?thesis unfolding Ball_def by metis
    qed
    finally show ?thesis .
  qed
qed simp

lemma periodic_suffix_iff:
  assumes "0 < period" and "0 < n"
  shows "periodic_suffix tokens period n \<longleftrightarrow>
    (\<exists>pre u. tokens = pre @ pow n u \<and> length u = period \<and> primitive u)"
proof (cases "length tokens < period * n")
  case True
  have "length tokens = length pre + n * period" if "tokens = pre @ pow n u" "length u = period" for pre u
    using that by (simp add: length_pow)
  then show ?thesis using True by (auto simp: periodic_suffix_def Let_def mult.commute)
next
  case False
  define suffix where "suffix = drop (length tokens - period * n) tokens"
  define u where "u = take period suffix"
  have ls: "length suffix = n * period" using False by (simp add: suffix_def mult.commute)
  have "period \<le> n * period" using assms by (cases n) auto
  then have lu: "length u = period" by (simp add: u_def ls)
  then have une: "u \<noteq> []" using assms by auto
  have "periodic_suffix tokens period n \<longleftrightarrow> \<not> reducible u \<and> (\<forall>i\<in>{1..<n}. slice suffix (period * i) (period * i + period) = u)"
    using False by (simp add: periodic_suffix_def Let_def suffix_def [symmetric] u_def [symmetric] list_all_iff)
  also have "\<dots> \<longleftrightarrow> primitive u \<and> suffix = pow n u"
    using power_offsets [of suffix n u] ls lu assms reducible_iff [OF une] u_def by auto
  also have "\<dots> \<longleftrightarrow> (\<exists>pre u. tokens = pre @ pow n u \<and> length u = period \<and> primitive u)"
  proof
    assume "primitive u \<and> suffix = pow n u"
    then show "\<exists>pre u. tokens = pre @ pow n u \<and> length u = period \<and> primitive u"
      using lu by (intro exI [of _ "take (length tokens - period * n) tokens"] exI [of _ u])
        (metis append_take_drop_id suffix_def)
  next
    assume "\<exists>pre u. tokens = pre @ pow n u \<and> length u = period \<and> primitive u"
    then obtain pre w where w: "tokens = pre @ pow n w" "length w = period" "primitive w" by blast
    have "suffix = pow n w" using w by (simp add: suffix_def length_pow mult.commute)
    moreover from this have "u = w" unfolding u_def using w(2) assms by (cases n) auto
    ultimately show "primitive u \<and> suffix = pow n u" using w(3) by simp
  qed
  finally show ?thesis .
qed

section \<open>The searches\<close>

text \<open>
  \<open>loop_suffix w u n\<close>: the tokens \<open>w\<close> end in \<open>n\<close> copies of the primitive pattern \<open>u\<close>. The guard looks for a pattern
  of admissible length repeated often enough.
\<close>

definition loop_suffix :: "int list \<Rightarrow> int list \<Rightarrow> nat \<Rightarrow> bool" where
  "loop_suffix w u n \<longleftrightarrow> primitive u \<and> (\<exists>pre. w = pre @ pow n u)"

abbreviation admissible :: "guard_params \<Rightarrow> int list \<Rightarrow> bool" where
  "admissible p u \<equiv> min_period p \<le> length u \<and> length u \<le> max_period_tokens p"

lemma find_upt:
  "List.find P [a..<b] = Some x \<longleftrightarrow> a \<le> x \<and> x < b \<and> P x \<and> (\<forall>y. a \<le> y \<and> y < x \<longrightarrow> \<not> P y)"
  "List.find P [a..<b] = None \<longleftrightarrow> (\<forall>y. a \<le> y \<and> y < b \<longrightarrow> \<not> P y)"
proof -
  show "List.find P [a..<b] = None \<longleftrightarrow> (\<forall>y. a \<le> y \<and> y < b \<longrightarrow> \<not> P y)"
    by (auto simp: find_None_iff)
  have "List.find P [a..<b] = Some x \<longleftrightarrow> (\<exists>i<b - a. P (a + i) \<and> x = a + i \<and> (\<forall>j<i. \<not> P (a + j)))"
    by (auto simp: find_Some_iff)
  also have "\<dots> \<longleftrightarrow> a \<le> x \<and> x < b \<and> P x \<and> (\<forall>y. a \<le> y \<and> y < x \<longrightarrow> \<not> P y)"
  proof
    assume "\<exists>i<b - a. P (a + i) \<and> x = a + i \<and> (\<forall>j<i. \<not> P (a + j))"
    then obtain i where i: "i < b - a" "P (a + i)" "x = a + i" "\<forall>j<i. \<not> P (a + j)" by blast
    have "\<not> P y" if y: "a \<le> y" "y < x" for y
      using i(4)[rule_format, of "y - a"] y i(3) by simp
    then show "a \<le> x \<and> x < b \<and> P x \<and> (\<forall>y. a \<le> y \<and> y < x \<longrightarrow> \<not> P y)" using i by simp
  next
    assume "a \<le> x \<and> x < b \<and> P x \<and> (\<forall>y. a \<le> y \<and> y < x \<longrightarrow> \<not> P y)"
    then show "\<exists>i<b - a. P (a + i) \<and> x = a + i \<and> (\<forall>j<i. \<not> P (a + j))"
      by (intro exI [of _ "x - a"]) auto
  qed
  finally show "List.find P [a..<b] = Some x \<longleftrightarrow> a \<le> x \<and> x < b \<and> P x \<and> (\<forall>y. a \<le> y \<and> y < x \<longrightarrow> \<not> P y)" .
qed

text \<open>
  Both searches share one specification: the cap \<open>length w div k\<close> on the period loses nothing, as every admissible
  count is at least \<open>k\<close>.
\<close>

lemma search_spec:
  assumes k: "0 < k" and f: "\<And>x. k \<le> f x" and lo: "1 \<le> min_period p"
    and r: "r = List.find (\<lambda>x. periodic_suffix w x (f x)) [min_period p..<min (max_period_tokens p) (length w div k) + 1]"
  shows "r = None \<longleftrightarrow> \<not> (\<exists>u. admissible p u \<and> loop_suffix w u (f (length u)))"
    and "r = Some x \<Longrightarrow> \<exists>u. length u = x \<and> admissible p u \<and> loop_suffix w u (f x) \<and>
           (\<forall>v. admissible p v \<and> loop_suffix w v (f (length v)) \<longrightarrow> x \<le> length v)"
proof -
  have test: "periodic_suffix w x (f x) \<longleftrightarrow> (\<exists>u. length u = x \<and> loop_suffix w u (f x))" if "1 \<le> x" for x
    using periodic_suffix_iff [of x "f x" w] that k f [of x] by (auto simp: loop_suffix_def)
  have cap: "length u < min (max_period_tokens p) (length w div k) + 1"
    if u: "admissible p u" "loop_suffix w u (f (length u))" for u
  proof -
    have "f (length u) * length u \<le> length w" using u(2) by (auto simp: loop_suffix_def length_pow)
    then have "k * length u \<le> length w" using f [of "length u"] mult_le_mono1 order_trans by blast
    then have "length u \<le> length w div k" using k by (simp add: less_eq_div_iff_mult_less_eq mult.commute)
    then show ?thesis using u(1) by (auto simp: less_Suc_eq_le)
  qed
  show "r = None \<longleftrightarrow> \<not> (\<exists>u. admissible p u \<and> loop_suffix w u (f (length u)))"
  proof
    assume "r = None"
    then have "\<not> periodic_suffix w y (f y)" if "min_period p \<le> y" "y < min (max_period_tokens p) (length w div k) + 1" for y
      using that r find_upt(2) by metis
    then show "\<not> (\<exists>u. admissible p u \<and> loop_suffix w u (f (length u)))" using cap test lo by fastforce
  next
    assume n: "\<not> (\<exists>u. admissible p u \<and> loop_suffix w u (f (length u)))"
    have "\<not> periodic_suffix w y (f y)" if y: "min_period p \<le> y" "y < min (max_period_tokens p) (length w div k) + 1" for y
      using n test [of y] lo y by auto
    then show "r = None" using r find_upt(2) by metis
  qed
  assume "r = Some x"
  then have x: "min_period p \<le> x" "x < min (max_period_tokens p) (length w div k) + 1" "periodic_suffix w x (f x)"
    and least: "\<And>y. min_period p \<le> y \<Longrightarrow> y < x \<Longrightarrow> \<not> periodic_suffix w y (f y)"
    unfolding r find_upt(1) by blast+
  obtain u where u: "length u = x" "loop_suffix w u (f x)" using test [of x] x lo by auto
  moreover have "x \<le> length v" if v: "admissible p v" "loop_suffix w v (f (length v))" for v
  proof -
    have "1 \<le> length v" using v(1) lo by simp
    then have "periodic_suffix w (length v) (f (length v))" using test v(2) by blast
    then show ?thesis using least [of "length v"] v(1) by fastforce
  qed
  ultimately show "\<exists>u. length u = x \<and> admissible p u \<and> loop_suffix w u (f x) \<and>
      (\<forall>v. admissible p v \<and> loop_suffix w v (f (length v)) \<longrightarrow> x \<le> length v)"
    using x(1,2) by (intro exI [of _ u]) auto
qed

lemmas guard_defs = detect_repeated_token_suffix_def predict_repeated_token_suffix_def Let_def

lemma stop_repeats_ge: "required_repeats p \<le> stop_repeats p x"
  by (simp add: stop_repeats_def)

lemma detect_spec:
  assumes "2 \<le> required_repeats p" and "1 \<le> min_period p"
  shows "detect_repeated_token_suffix p ts = Inr None \<longleftrightarrow>
      \<not> (\<exists>u. admissible p u \<and> loop_suffix (guard_window p ts) u (stop_repeats p (length u)))"
    and "detect_repeated_token_suffix p ts = Inr (Some m) \<Longrightarrow> repeats m = stop_repeats p (period_tokens m) \<and>
      (\<exists>u. length u = period_tokens m \<and> admissible p u \<and> loop_suffix (guard_window p ts) u (repeats m) \<and>
           (\<forall>v. admissible p v \<and> loop_suffix (guard_window p ts) v (stop_repeats p (length v)) \<longrightarrow> length u \<le> length v))"
proof -
  define r where "r = List.find (\<lambda>x. periodic_suffix (guard_window p ts) x (stop_repeats p x))
    [min_period p..<min (max_period_tokens p) (length (guard_window p ts) div required_repeats p) + 1]"
  have d: "detect_repeated_token_suffix p ts = Inr (map_option (\<lambda>x. \<lparr>period_tokens = x, repeats = stop_repeats p x\<rparr>) r)"
    using assms by (simp add: guard_defs r_def)
  have k: "0 < required_repeats p" using assms(1) by simp
  note sp = search_spec [OF k stop_repeats_ge assms(2) r_def]
  show "detect_repeated_token_suffix p ts = Inr None \<longleftrightarrow>
      \<not> (\<exists>u. admissible p u \<and> loop_suffix (guard_window p ts) u (stop_repeats p (length u)))"
    using sp(1) by (simp add: d)
  assume "detect_repeated_token_suffix p ts = Inr (Some m)"
  then obtain x where x: "r = Some x" "m = \<lparr>period_tokens = x, repeats = stop_repeats p x\<rparr>" by (auto simp: d)
  show "repeats m = stop_repeats p (period_tokens m) \<and>
      (\<exists>u. length u = period_tokens m \<and> admissible p u \<and> loop_suffix (guard_window p ts) u (repeats m) \<and>
           (\<forall>v. admissible p v \<and> loop_suffix (guard_window p ts) v (stop_repeats p (length v)) \<longrightarrow> length u \<le> length v))"
    using sp(2) [OF x(1)] unfolding x(2) by auto
qed

lemma predict_spec:
  assumes "2 \<le> required_repeats p" and "1 \<le> min_period p"
  shows "predict_repeated_token_suffix p ts = Inr None \<longleftrightarrow>
      \<not> (\<exists>u. admissible p u \<and> loop_suffix (guard_window p ts) u (stop_repeats p (length u) - 1))"
    and "predict_repeated_token_suffix p ts = Inr (Some m) \<Longrightarrow> repeats m = stop_repeats p (period_tokens m) - 1 \<and>
      (\<exists>u. length u = period_tokens m \<and> admissible p u \<and> loop_suffix (guard_window p ts) u (repeats m) \<and>
           blocked_token_id m = hd u \<and>
           (\<forall>v. admissible p v \<and> loop_suffix (guard_window p ts) v (stop_repeats p (length v) - 1) \<longrightarrow> length u \<le> length v))"
proof -
  let ?W = "guard_window p ts"
  define r where "r = List.find (\<lambda>x. periodic_suffix ?W x (stop_repeats p x - 1))
    [min_period p..<min (max_period_tokens p) (length ?W div (required_repeats p - 1)) + 1]"
  have d: "predict_repeated_token_suffix p ts = Inr (map_option (\<lambda>x. \<lparr>period_tokens = x, repeats = stop_repeats p x - 1,
      blocked_token_id = hd (take x (drop (length ?W - x * (stop_repeats p x - 1)) ?W))\<rparr>) r)"
    using assms by (simp add: guard_defs r_def)
  have k: "0 < required_repeats p - 1" using assms(1) by simp
  have f: "required_repeats p - 1 \<le> stop_repeats p x - 1" for x using diff_le_mono [OF stop_repeats_ge] .
  note sp = search_spec [OF k f assms(2) r_def]
  show "predict_repeated_token_suffix p ts = Inr None \<longleftrightarrow>
      \<not> (\<exists>u. admissible p u \<and> loop_suffix ?W u (stop_repeats p (length u) - 1))"
    using sp(1) by (simp add: d)
  assume "predict_repeated_token_suffix p ts = Inr (Some m)"
  then obtain x where x: "r = Some x" "m = \<lparr>period_tokens = x, repeats = stop_repeats p x - 1,
      blocked_token_id = hd (take x (drop (length ?W - x * (stop_repeats p x - 1)) ?W))\<rparr>" by (auto simp: d)
  obtain u where u: "length u = x" "admissible p u" "loop_suffix ?W u (stop_repeats p x - 1)"
      "\<forall>v. admissible p v \<and> loop_suffix ?W v (stop_repeats p (length v) - 1) \<longrightarrow> x \<le> length v"
    using sp(2) [OF x(1)] by blast
  obtain pre where pre: "?W = pre @ pow (stop_repeats p x - 1) u" using u(3) by (auto simp: loop_suffix_def)
  have "0 < stop_repeats p x - 1" using k f [of x] by linarith
  then have "take x (drop (length ?W - x * (stop_repeats p x - 1)) ?W) = u"
    unfolding pre using u(1) by (cases "stop_repeats p x - 1") (simp_all add: length_pow algebra_simps)
  then show "repeats m = stop_repeats p (period_tokens m) - 1 \<and>
      (\<exists>u. length u = period_tokens m \<and> admissible p u \<and> loop_suffix ?W u (repeats m) \<and> blocked_token_id m = hd u \<and>
           (\<forall>v. admissible p v \<and> loop_suffix ?W v (stop_repeats p (length v) - 1) \<longrightarrow> length u \<le> length v))"
    using u by (auto simp: x(2))
qed

section \<open>Prediction and hard stop\<close>

text \<open>The window only bounds the length of the loop.\<close>

lemma loop_suffix_window:
  "loop_suffix (guard_window default_guard ts) u n \<longleftrightarrow> loop_suffix ts u n \<and> n * length u \<le> 768"
proof -
  have w: "guard_window default_guard ts = drop (length ts - 768) ts"
    by (simp add: guard_window_def default_guard_def py_drop_def)
  show ?thesis
  proof
    assume "loop_suffix (guard_window default_guard ts) u n"
    then obtain pre where pre: "primitive u" "drop (length ts - 768) ts = pre @ pow n u" by (auto simp: loop_suffix_def w)
    have "ts = (take (length ts - 768) ts @ pre) @ pow n u" using append_take_drop_id [of "length ts - 768" ts] pre(2) by simp
    then have "loop_suffix ts u n" using pre(1) unfolding loop_suffix_def by blast
    moreover have "n * length u \<le> 768" using arg_cong [OF pre(2), of length] by (simp add: length_pow)
    ultimately show "loop_suffix ts u n \<and> n * length u \<le> 768" ..
  next
    assume "loop_suffix ts u n \<and> n * length u \<le> 768"
    then obtain pre where pre: "primitive u" "ts = pre @ pow n u" "n * length u \<le> 768" by (auto simp: loop_suffix_def)
    then have "drop (length ts - 768) ts = drop (length ts - 768) pre @ pow n u" by (simp add: length_pow)
    then show "loop_suffix (guard_window default_guard ts) u n" using pre(1) by (auto simp: loop_suffix_def w)
  qed
qed

lemma ceil_div_mult: "0 < b \<Longrightarrow> ceil_div a b * b \<le> a + b"
  unfolding ceil_div_def by (rule order_trans [OF div_times_less_eq_dividend]) simp

lemma default_guard_fits:
  assumes "admissible default_guard u"
  shows "stop_repeats default_guard (length u) * length u \<le> 768" and "3 \<le> stop_repeats default_guard (length u)"
proof -
  have u: "1 \<le> length u" "length u \<le> 128" using assms by (simp_all add: default_guard_def)
  have "ceil_div a (length u) * length u \<le> 384" if "a \<le> 256" for a using ceil_div_mult [of "length u" a] u that by linarith
  then show "stop_repeats default_guard (length u) * length u \<le> 768" "3 \<le> stop_repeats default_guard (length u)"
    using u by (auto simp: stop_repeats_def default_guard_def max_def order_trans [of _ 384])
qed

lemma default_guard_ok: "2 \<le> required_repeats default_guard" "1 \<le> min_period default_guard"
  by (simp_all add: default_guard_def)

lemmas default_detect = detect_spec [OF default_guard_ok]
lemmas default_predict = predict_spec [OF default_guard_ok]

lemma loop_suffix_extend: "loop_suffix ts u n \<Longrightarrow> loop_suffix (ts @ u) u (Suc n)"
  using pow_add [of _ 1] by (fastforce simp: loop_suffix_def replicate_append_same [symmetric])

lemma loop_suffix_cut: "loop_suffix ts u (Suc n) \<Longrightarrow> loop_suffix (take (length ts - length u) ts) u n"
  by (auto simp: loop_suffix_def length_pow replicate_append_same [symmetric])

lemma detect_total: "\<exists>r. detect_repeated_token_suffix default_guard ts = Inr r"
  and predict_total: "\<exists>r. predict_repeated_token_suffix default_guard ts = Inr r"
  using default_guard_ok by (simp_all add: guard_defs)

section \<open>Claims\<close>

text \<open>
  C35. \<^bold>\<open>Exactness.\<close> The detector refuses fewer than two repeats or a zero period; otherwise it reports nothing exactly
  when no primitive pattern of admissible length ends the window in as many copies as its length demands, and a report
  is of the shortest such pattern, with its length and count. The cap on the searched periods loses no loop.
\<close>

theorem repetition_guard_exact:
  "(case detect_repeated_token_suffix p ts of
      Inl e \<Rightarrow> e = ValueError \<and> (required_repeats p < 2 \<or> min_period p < 1)
    | Inr None \<Rightarrow> 2 \<le> required_repeats p \<and> 1 \<le> min_period p \<and>
        \<not> (\<exists>u. admissible p u \<and> loop_suffix (guard_window p ts) u (stop_repeats p (length u)))
    | Inr (Some m) \<Rightarrow> repeats m = stop_repeats p (period_tokens m) \<and>
        (\<exists>u. length u = period_tokens m \<and> admissible p u \<and> loop_suffix (guard_window p ts) u (repeats m) \<and>
          (\<forall>v. admissible p v \<and> loop_suffix (guard_window p ts) v (stop_repeats p (length v)) \<longrightarrow> length u \<le> length v)))"
proof (cases "required_repeats p < 2 \<or> min_period p < 1")
  case True
  then show ?thesis by (simp add: detect_repeated_token_suffix_def)
next
  case False
  then have ok: "2 \<le> required_repeats p" "1 \<le> min_period p" by simp_all
  then obtain r where r: "detect_repeated_token_suffix p ts = Inr r" by (simp add: guard_defs)
  show ?thesis
  proof (cases r)
    case None
    then show ?thesis using detect_spec(1) [OF ok, of ts] ok r by simp
  next
    case (Some m)
    show ?thesis unfolding r Some sum.case option.case by (rule detect_spec(2) [OF ok, of ts m]) (simp add: r Some)
  qed
qed

text \<open>
  \<^bold>\<open>The prediction is one copy ahead of the stop.\<close> With the default thresholds, a predicted token is the first of a
  pattern whose next copy completes a detected loop; and a detected loop was predicted one copy earlier, at a period no
  longer than its own, so the hard stop is never the first to see it.
\<close>

theorem prediction_precedes_stop:
  "(\<forall>m. predict_repeated_token_suffix default_guard ts = Inr (Some m) \<longrightarrow>
      (\<exists>u r. length u = period_tokens m \<and> hd u = blocked_token_id m \<and>
        detect_repeated_token_suffix default_guard (ts @ u) = Inr (Some r))) \<and>
   (\<forall>r. detect_repeated_token_suffix default_guard ts = Inr (Some r) \<longrightarrow>
      (\<exists>m. predict_repeated_token_suffix default_guard (take (length ts - period_tokens r) ts) = Inr (Some m) \<and>
        period_tokens m \<le> period_tokens r))"
proof (intro conjI allI impI)
  fix m
  assume p: "predict_repeated_token_suffix default_guard ts = Inr (Some m)"
  let ?s = "stop_repeats default_guard"
  obtain u where u: "length u = period_tokens m" "admissible default_guard u" "hd u = blocked_token_id m"
      "loop_suffix ts u (?s (length u) - 1)"
    using default_predict(2) [OF p] by (auto simp: loop_suffix_window)
  have "loop_suffix (ts @ u) u (Suc (?s (length u) - 1))" by (rule loop_suffix_extend [OF u(4)])
  then have "loop_suffix (guard_window default_guard (ts @ u)) u (?s (length u))"
    using default_guard_fits [OF u(2)] by (simp add: loop_suffix_window)
  then have "detect_repeated_token_suffix default_guard (ts @ u) \<noteq> Inr None" using default_detect(1) u(2) by blast
  then show "\<exists>u r. length u = period_tokens m \<and> hd u = blocked_token_id m \<and>
      detect_repeated_token_suffix default_guard (ts @ u) = Inr (Some r)"
    using detect_total [of "ts @ u"] u(1,3) by (metis not_None_eq)
next
  fix r
  assume d: "detect_repeated_token_suffix default_guard ts = Inr (Some r)"
  let ?s = "stop_repeats default_guard" and ?ts = "take (length ts - period_tokens r) ts"
  obtain u where u: "length u = period_tokens r" "admissible default_guard u" "loop_suffix ts u (?s (length u))"
    using default_detect(2) [OF d] by (auto simp: loop_suffix_window)
  obtain n where n: "?s (length u) = Suc n" using default_guard_fits(2) [OF u(2)] by (cases "?s (length u)") auto
  have l: "loop_suffix (guard_window default_guard ?ts) u (?s (length u) - 1)"
    using loop_suffix_cut [OF u(3) [unfolded n]] default_guard_fits(1) [OF u(2)] u(1) n by (simp add: loop_suffix_window)
  then have "predict_repeated_token_suffix default_guard ?ts \<noteq> Inr None" using default_predict(1) u(2) by blast
  then obtain m where m: "predict_repeated_token_suffix default_guard ?ts = Inr (Some m)"
    using predict_total [of ?ts] by (metis not_None_eq)
  then show "\<exists>m. predict_repeated_token_suffix default_guard ?ts = Inr (Some m) \<and> period_tokens m \<le> period_tokens r"
    using default_predict(2) [OF m] l u(1,2) by metis
qed

definition loop_params :: guard_params where
  "loop_params = \<lparr>min_period = 1, max_period_tokens = 4, required_repeats = 2, min_repeated_tokens = 4,
     min_short_period_tokens = 6, max_window_tokens = 10\<rparr>"

theorem repetition_guard_exact_witness:
  "detect_repeated_token_suffix loop_params [5, 5, 1, 2, 1, 2, 1, 2] = Inr (Some \<lparr>period_tokens = 2, repeats = 3\<rparr>) \<and>
   (\<exists>u. length u = 2 \<and> loop_suffix (guard_window loop_params [5, 5, 1, 2, 1, 2, 1, 2]) u 3 \<and>
     (\<forall>v. admissible loop_params v \<and> loop_suffix (guard_window loop_params [5, 5, 1, 2, 1, 2, 1, 2]) v
        (stop_repeats loop_params (length v)) \<longrightarrow> length u \<le> length v))"
proof -
  have "detect_repeated_token_suffix loop_params [5, 5, 1, 2, 1, 2, 1, 2] = Inr (Some \<lparr>period_tokens = 2, repeats = 3\<rparr>)"
    by code_simp
  then show ?thesis using repetition_guard_exact [of loop_params "[5, 5, 1, 2, 1, 2, 1, 2]"] by auto
qed

theorem prediction_precedes_stop_witness:
  "\<exists>m u r. predict_repeated_token_suffix default_guard (replicate 255 7) = Inr (Some m) \<and>
     length u = period_tokens m \<and> hd u = blocked_token_id m \<and>
     detect_repeated_token_suffix default_guard (replicate 255 7 @ u) = Inr (Some r)"
proof -
  have "primitive [7::int]" unfolding primitive_def
  proof (intro conjI allI impI)
    fix v :: "int list" and k
    assume "[7] = pow k v"
    then have "k * length v = 1" using length_pow [of k v] by (metis length_Cons list.size(3) One_nat_def)
    then show "k = 1" by simp
  qed simp
  moreover have "stop_repeats default_guard 1 = 256" by code_simp
  moreover have "pow 255 [7::int] = replicate 255 7" by (simp add: concat_replicate_single)
  ultimately have "loop_suffix (guard_window default_guard (replicate 255 7)) [7] (stop_repeats default_guard (length [7::int]) - 1)"
    unfolding loop_suffix_window by (auto simp: loop_suffix_def intro: exI [of _ "[]"])
  moreover have "admissible default_guard [7]" by (simp add: default_guard_def)
  ultimately obtain m where "predict_repeated_token_suffix default_guard (replicate 255 7) = Inr (Some m)"
    using default_predict(1) predict_total [of "replicate 255 7"] by (metis not_None_eq)
  then show ?thesis using prediction_precedes_stop [of "replicate 255 7"] by blast
qed

section \<open>Interventions\<close>

text \<open>A decoding session: the processor applied to a history and its logits, step after step.\<close>

fun guard_run :: "'v \<Rightarrow> (int list \<times> 'v list list) list \<Rightarrow> logits_guard \<Rightarrow> 'v list list list \<times> logits_guard" where
  "guard_run neg_inf [] g = ([], g)"
| "guard_run neg_inf ((history, logits) # steps) g =
     (let (masked, g1) = guard_apply neg_inf history logits g; (rest, g2) = guard_run neg_inf steps g1
      in (masked # rest, g2))"

definition mask_column :: "'v \<Rightarrow> int \<Rightarrow> 'v list list \<Rightarrow> 'v list list" where
  "mask_column neg_inf t logits = map (\<lambda>row. row[nat t := neg_inf]) logits"

definition masks_prediction :: "'v \<Rightarrow> int list \<times> 'v list list \<Rightarrow> 'v list list \<Rightarrow> bool" where
  "masks_prediction neg_inf step out = (case step of (history, logits) \<Rightarrow> out = logits \<or>
     (\<exists>m. predict_repeated_token_suffix default_guard history = Inr (Some m) \<and> 0 \<le> blocked_token_id m \<and>
        out = mask_column neg_inf (blocked_token_id m) logits))"

lemma guard_apply_cases:
  obtains "guard_apply neg_inf h logits g = (logits, g)"
  | m where "predict_repeated_token_suffix default_guard h = Inr (Some m)" "0 \<le> blocked_token_id m"
      "interventions g < max_interventions g" "int (length h) \<noteq> last_intervention_length g"
      "guard_apply neg_inf h logits g = (mask_column neg_inf (blocked_token_id m) logits,
         g\<lparr>interventions := interventions g + 1, last_match := Some m, last_intervention_length := int (length h)\<rparr>)"
proof (cases "max_interventions g \<le> interventions g \<or> int (length h) = last_intervention_length g")
  case True
  then show ?thesis by (intro that(1)) (auto simp: guard_apply_def)
next
  case g: False
  show ?thesis
  proof (cases "\<exists>m. predict_repeated_token_suffix default_guard h = Inr (Some m) \<and> 0 \<le> blocked_token_id m \<and>
      blocked_token_id m < int (vocab_size logits)")
    case True
    then obtain m where "predict_repeated_token_suffix default_guard h = Inr (Some m)" "0 \<le> blocked_token_id m"
        "blocked_token_id m < int (vocab_size logits)" by blast
    then show ?thesis using g by (intro that(2) [of m]) (auto simp: guard_apply_def mask_column_def)
  next
    case False
    then show ?thesis
      using g by (intro that(1)) (auto simp: guard_apply_def Let_def not_less split: sum.split option.split)
  qed
qed

lemma guard_run_spec:
  assumes "guard_run neg_inf steps g = (outs, g')" and "interventions g \<le> max_interventions g"
  shows "list_all2 (masks_prediction neg_inf) steps outs \<and> max_interventions g' = max_interventions g \<and>
    interventions g' \<le> max_interventions g \<and>
    interventions g + int (length (filter (\<lambda>(step, out). out \<noteq> snd step) (zip steps outs))) \<le> interventions g'"
  using assms
proof (induction steps arbitrary: g outs)
  case (Cons step steps)
  obtain h logits where step: "step = (h, logits)" by (cases step)
  obtain masked g1 where a: "guard_apply neg_inf h logits g = (masked, g1)" by fastforce
  obtain rest g2 where r: "guard_run neg_inf steps g1 = (rest, g2)" by fastforce
  have o: "outs = masked # rest" "g' = g2" using Cons.prems(1) by (simp_all add: step a r)
  have one: "masks_prediction neg_inf step masked \<and> max_interventions g1 = max_interventions g \<and>
      interventions g1 \<le> max_interventions g \<and> interventions g + (if masked = logits then 0 else 1) \<le> interventions g1"
  proof (cases rule: guard_apply_cases [of neg_inf h logits g])
    case 1
    then show ?thesis using Cons.prems(2) a by (simp add: step masks_prediction_def)
  next
    case (2 m)
    then show ?thesis using a by (auto simp: step masks_prediction_def)
  qed
  then have "interventions g1 \<le> max_interventions g1" by simp
  note ih = Cons.IH [OF r [folded o(2)] this]
  show ?case using one ih unfolding o step by auto
qed simp

text \<open>
  \<^bold>\<open>Bounded, targeted interventions.\<close> Over any session the processor changes the logits of at most
  \<open>max_interventions\<close> steps, a changed step has exactly the column of the predicted token masked, and restoring a
  snapshot after a speculative session gives back the state before it.
\<close>

theorem guard_interventions_bounded:
  assumes "0 \<le> m" and "guard_run neg_inf steps (logits_guard_init out m) = (outs, g)"
  shows "list_all2 (masks_prediction neg_inf) steps outs \<and>
    length (filter (\<lambda>(step, out). out \<noteq> snd step) (zip steps outs)) \<le> nat m \<and> interventions g \<le> m \<and>
    (\<forall>specs specouts g'. guard_run neg_inf specs g = (specouts, g') \<longrightarrow> mtp_restore_state (mtp_snapshot_state g) g' = g)"
proof -
  have i: "interventions (logits_guard_init out m) \<le> max_interventions (logits_guard_init out m)"
    using assms(1) by (simp add: logits_guard_init_def)
  note sp = guard_run_spec [OF assms(2) i]
  have "guarded_output g' = guarded_output g \<and> max_interventions g' = max_interventions g"
    if "guard_run neg_inf specs g = (specouts, g')" for specs specouts g' and g :: logits_guard
    using that
  proof (induction specs arbitrary: g specouts)
    case (Cons st specs)
    obtain h logits where st: "st = (h, logits)" by (cases st)
    obtain masked g1 where a: "guard_apply neg_inf h logits g = (masked, g1)" by fastforce
    obtain rest where r: "guard_run neg_inf specs g1 = (rest, g')" using Cons.prems by (auto simp: st a split: prod.splits)
    have "guarded_output g1 = guarded_output g \<and> max_interventions g1 = max_interventions g"
      using a by (cases rule: guard_apply_cases [of neg_inf h logits g]) auto
    then show ?case using Cons.IH [OF r] by simp
  qed simp
  then have "mtp_restore_state (mtp_snapshot_state g) g' = g" if "guard_run neg_inf specs g = (specouts, g')" for specs specouts g'
    using that by (simp add: mtp_restore_state_def mtp_snapshot_state_def)
  then show ?thesis using sp assms(1) by (simp add: logits_guard_init_def) linarith
qed

theorem guard_interventions_bounded_witness:
  "\<exists>outs g. guard_run (-1) [([1, 2], [[3, 4], [5, 6]])] (logits_guard_init [] 3) = (outs, g) \<and> interventions g \<le> 3 \<and>
     length (filter (\<lambda>(step, out). out \<noteq> snd step) (zip [([1, 2::int], [[3, 4], [5, 6::int]])] outs)) \<le> nat 3"
proof -
  obtain outs g where g: "guard_run (-1) [([1, 2::int], [[3, 4], [5, 6::int]])] (logits_guard_init [] 3) = (outs, g)" by fastforce
  show ?thesis using guard_interventions_bounded [OF _ g] g by auto
qed

end
