(* ===== verification/SuffixDecoding.thy ===== *)
theory SuffixDecoding
  imports Prelude
begin

text \<open>
  \<^bold>\<open>rapid_mlx/speculative/suffix_decoding.py.\<close> The draft-model-free drafter: a sliding window of tokens, an index from
  each k-gram to the absolute positions where it ends, and the vote over continuations. The list of dicts
  \<open>_suffix_index\<close> is a function from the k-gram size to a map; a \<open>Counter\<close> is the list of its entries in insertion
  order (\<open>most_common(1)\<close> takes the first entry of greatest count). The \<open>float\<close> quotient of two counts is their
  quotient rounded to 53 significant bits, half to even, and \<open>min_confidence\<close> is the rational value of its float.
\<close>

section \<open>State\<close>

record draft_stats =
  total_drafts_proposed :: nat
  total_draft_tokens_proposed :: nat
  total_draft_tokens_accepted :: int
  sum_draft_length :: nat
  n_step_calls :: nat
  n_drafts_returned :: nat

type_synonym kgram_index = "nat \<Rightarrow> int list \<Rightarrow> nat list option"

record drafter =
  max_draft_tokens :: int
  max_suffix_len :: int
  min_confidence :: rat
  max_history :: "int option"
  history :: "int list"
  head_shift :: nat
  suffix_index :: kgram_index
  draft_statistics :: draft_stats

definition drafter_init :: "int \<Rightarrow> int \<Rightarrow> rat \<Rightarrow> int option \<Rightarrow> py_error + drafter" where
  "drafter_init draft_cap suffix_cap conf hist_cap =
     (if draft_cap < 1 then Inl ValueError
      else if suffix_cap < 1 then Inl ValueError
      else if \<not> (0 \<le> conf \<and> conf \<le> 1) then Inl ValueError
      else Inr \<lparr>max_draft_tokens = draft_cap, max_suffix_len = suffix_cap, min_confidence = conf, max_history = hist_cap,
        history = [], head_shift = 0, suffix_index = (\<lambda>_ _. None),
        draft_statistics = \<lparr>total_drafts_proposed = 0, total_draft_tokens_proposed = 0, total_draft_tokens_accepted = 0,
          sum_draft_length = 0, n_step_calls = 0, n_drafts_returned = 0\<rparr>\<rparr>)"

section \<open>The index\<close>

text \<open>\<open>range(1, self.max_suffix_len + 1)\<close>.\<close>

definition gram_sizes :: "drafter \<Rightarrow> nat list" where
  "gram_sizes d = [1..<nat (max_suffix_len d) + 1]"

definition index_gram :: "int list \<Rightarrow> nat \<Rightarrow> nat \<Rightarrow> kgram_index \<Rightarrow> kgram_index" where
  "index_gram tokens abs_pos k idx =
     (if length tokens < k then idx
      else let start_local = length tokens - k;
               kgram = slice tokens start_local (start_local + k);
               ends = (case idx k kgram of None \<Rightarrow> [] | Some ends \<Rightarrow> ends)
        in idx(k := (idx k)(kgram \<mapsto> ends @ [abs_pos])))"

definition drop_stale :: "nat \<Rightarrow> nat \<Rightarrow> kgram_index \<Rightarrow> kgram_index" where
  "drop_stale min_valid_end k idx =
     (let threshold = min_valid_end + k - 1
      in idx(k := (\<lambda>kgram. case idx k kgram of None \<Rightarrow> None
           | Some ends \<Rightarrow> (let fresh = filter (\<lambda>e. threshold \<le> e) ends in if fresh = [] then None else Some fresh))))"

definition add_one :: "int \<Rightarrow> drafter \<Rightarrow> drafter" where
  "add_one token d =
     (let tokens = history d @ [token];
          abs_pos = head_shift d + length tokens - 1;
          idx = fold (index_gram tokens abs_pos) (gram_sizes d) (suffix_index d);
          d1 = d\<lparr>history := tokens, suffix_index := idx\<rparr>
      in case max_history d of
           None \<Rightarrow> d1
         | Some cap \<Rightarrow>
             if cap < int (length tokens)
             then let dropped = nat (int (length tokens) - cap);
                      shifted = head_shift d + dropped
                  in d1\<lparr>history := drop dropped tokens, head_shift := shifted,
                        suffix_index := fold (drop_stale shifted) (gram_sizes d) idx\<rparr>
             else d1)"

definition add_prompt_tokens :: "int list \<Rightarrow> drafter \<Rightarrow> drafter" where
  "add_prompt_tokens tokens d = fold add_one tokens d"

definition add_generated_token :: "int \<Rightarrow> drafter \<Rightarrow> drafter" where
  "add_generated_token token d = add_one token d"

section \<open>Drafting\<close>

fun counter_add :: "'a \<Rightarrow> ('a \<times> nat) list \<Rightarrow> ('a \<times> nat) list" where
  "counter_add t [] = [(t, 1)]"
| "counter_add t ((u, n) # c) = (if u = t then (u, n + 1) # c else (u, n) # counter_add t c)"

definition counter_of :: "'a list \<Rightarrow> ('a \<times> nat) list" where
  "counter_of ts = fold counter_add ts []"

text \<open>The float \<open>a / b\<close> of two counts with \<open>0 < a\<close> and \<open>a \<le> b\<close>.\<close>

definition float_quotient :: "nat \<Rightarrow> nat \<Rightarrow> rat" where
  "float_quotient a b =
     (case List.find (\<lambda>k. 2 ^ 52 * b \<le> a * 2 ^ k) [52..<53 + b] of
        None \<Rightarrow> 0
      | Some k \<Rightarrow> (let n = a * 2 ^ k; q = n div b; r = n mod b;
                       m = (if 2 * r < b \<or> 2 * r = b \<and> even q then q else q + 1)
                   in of_nat m / 2 ^ k))"

definition continuation :: "drafter \<Rightarrow> nat \<Rightarrow> nat \<Rightarrow> int option" where
  "continuation d end_abs offset =
     (let cont_local = int (end_abs + 1 + offset) - int (head_shift d)
      in if 0 \<le> cont_local \<and> cont_local < int (length (history d)) then Some (history d ! nat cont_local) else None)"

fun build_draft :: "drafter \<Rightarrow> nat \<Rightarrow> nat list \<Rightarrow> nat list \<Rightarrow> int list" where
  "build_draft d current_end ends [] = []"
| "build_draft d current_end ends (offset # offsets) =
     (case counter_of (List.map_filter (\<lambda>e. if e = current_end then None else continuation d e offset) ends) of
        [] \<Rightarrow> []
      | c # cs \<Rightarrow>
          (let (top_tok, top_count) = max_by snd c cs;
               confidence = float_quotient top_count (sum_list (map snd (c # cs)))
           in if confidence < min_confidence d then []
              else let ends' = filter (\<lambda>e. e \<noteq> current_end \<and> continuation d e offset = Some top_tok) ends
                in top_tok # (if ends' = [] then [] else build_draft d current_end ends' offsets)))"

definition draft_for :: "drafter \<Rightarrow> nat \<Rightarrow> int list" where
  "draft_for d k =
     (let query = drop (length (history d) - k) (history d) in
      case suffix_index d k query of
        None \<Rightarrow> []
      | Some positions \<Rightarrow>
          (if positions = [] then []
           else build_draft d (head_shift d + length (history d) - 1) positions [0..<nat (max_draft_tokens d)]))"

fun first_draft :: "drafter \<Rightarrow> nat list \<Rightarrow> int list" where
  "first_draft d [] = []"
| "first_draft d (k # ks) = (let draft = draft_for d k in if draft \<noteq> [] then draft else first_draft d ks)"

definition get_draft :: "drafter \<Rightarrow> int list \<times> drafter" where
  "get_draft d =
     (let st = (draft_statistics d)\<lparr>n_step_calls := n_step_calls (draft_statistics d) + 1\<rparr>;
          sizes = rev [1..<min (nat (max_suffix_len d)) (length (history d)) + 1];
          draft = (if history d = [] then [] else first_draft d sizes)
      in if draft = [] then ([], d\<lparr>draft_statistics := st\<rparr>)
         else (draft, d\<lparr>draft_statistics := st\<lparr>total_drafts_proposed := total_drafts_proposed st + 1,
                 total_draft_tokens_proposed := total_draft_tokens_proposed st + length draft,
                 n_drafts_returned := n_drafts_returned st + 1,
                 sum_draft_length := sum_draft_length st + length draft\<rparr>\<rparr>))"

definition record_acceptance :: "int \<Rightarrow> drafter \<Rightarrow> drafter" where
  "record_acceptance n d = d\<lparr>draft_statistics := (draft_statistics d)
     \<lparr>total_draft_tokens_accepted := total_draft_tokens_accepted (draft_statistics d) + n\<rparr>\<rparr>"

section \<open>The index lists the occurrences of the window\<close>

definition ends_at :: "int list \<Rightarrow> int list \<Rightarrow> nat \<Rightarrow> bool" where
  "ends_at ts kg i \<longleftrightarrow> length kg \<le> i + 1 \<and> i < length ts \<and> slice ts (i + 1 - length kg) (i + 1) = kg"

definition window_occurrences :: "int list \<Rightarrow> nat \<Rightarrow> int list \<Rightarrow> nat list" where
  "window_occurrences ts s kg = filter (\<lambda>e. ends_at ts kg (e - s)) [s..<s + length ts]"

definition some_list :: "'a list \<Rightarrow> 'a list option" where
  "some_list xs = (if xs = [] then None else Some xs)"

definition index_exact :: "int list \<Rightarrow> nat \<Rightarrow> nat list \<Rightarrow> kgram_index \<Rightarrow> bool" where
  "index_exact ts s ks idx \<longleftrightarrow> (\<forall>k\<in>set ks. \<forall>kg. idx k kg = (if length kg = k then some_list (window_occurrences ts s kg) else None))"

lemma slice_append_left: "j \<le> length ts \<Longrightarrow> slice (ts @ xs) i j = slice ts i j"
  by (simp add: slice_def)

lemma occurrences_snoc:
  "window_occurrences (ts @ [t]) s kg = window_occurrences ts s kg @
     (if length kg \<le> length ts + 1 \<and> drop (length ts + 1 - length kg) (ts @ [t]) = kg then [s + length ts] else [])"
proof -
  have "ends_at (ts @ [t]) kg (e - s) = ends_at ts kg (e - s)" if "e \<in> set [s..<s + length ts]" for e
    using that by (auto simp: ends_at_def slice_append_left)
  then have "filter (\<lambda>e. ends_at (ts @ [t]) kg (e - s)) [s..<s + length ts] = window_occurrences ts s kg"
    unfolding window_occurrences_def by (rule filter_cong [OF refl])
  moreover have "ends_at (ts @ [t]) kg (length ts) \<longleftrightarrow>
      length kg \<le> length ts + 1 \<and> drop (length ts + 1 - length kg) (ts @ [t]) = kg"
    by (auto simp: ends_at_def slice_def)
  ultimately show ?thesis by (simp add: window_occurrences_def)
qed

lemma occurrences_drop:
  assumes "d \<le> length ts" and "kg \<noteq> []"
  shows "window_occurrences (drop d ts) (s + d) kg = filter (\<lambda>e. s + d + length kg - 1 \<le> e) (window_occurrences ts s kg)"
proof -
  have sp: "[s..<s + length ts] = [s..<s + d] @ [s + d..<s + length ts]"
    using assms(1) upt_add_eq_append [of s "s + d" "length ts - d"] by simp
  have k: "1 \<le> length kg" using assms(2) by (cases kg) auto
  have in_window: "ends_at (drop d ts) kg (e - (s + d)) \<longleftrightarrow> ends_at ts kg (e - s) \<and> s + d + length kg - 1 \<le> e"
    if e: "s + d \<le> e" "e < s + length ts" for e
  proof -
    have "slice (drop d ts) a b = slice ts (a + d) (b + d)" for a b by (simp add: slice_def add.commute)
    moreover have "length kg \<le> e - (s + d) + 1 \<Longrightarrow> e - (s + d) + 1 - length kg + d = e - s + 1 - length kg" using e by simp
    ultimately show ?thesis using e assms(1) k by (auto simp: ends_at_def)
  qed
  have "filter (\<lambda>e. s + d + length kg - 1 \<le> e \<and> ends_at ts kg (e - s)) [s..<s + d] = []" using k by (auto simp: filter_empty_conv)
  moreover have "filter (\<lambda>e. ends_at (drop d ts) kg (e - (s + d))) [s + d..<s + length ts] =
      filter (\<lambda>e. s + d + length kg - 1 \<le> e \<and> ends_at ts kg (e - s)) [s + d..<s + length ts]"
    using in_window by (intro filter_cong) auto
  ultimately show ?thesis using assms(1) by (simp add: window_occurrences_def sp conj_commute)
qed

lemma index_gram_other: "k' \<noteq> k \<Longrightarrow> index_gram ts p k idx k' = idx k'"
  by (auto simp: index_gram_def Let_def)

lemma drop_stale_other: "k' \<noteq> k \<Longrightarrow> drop_stale m k idx k' = idx k'"
  by (simp add: drop_stale_def Let_def)

text \<open>A fold that treats each bucket once acts on every bucket as its single step.\<close>

lemma fold_buckets:
  assumes "\<And>k k' idx. k' \<noteq> k \<Longrightarrow> f k idx k' = idx k'" and "\<And>k idx idx'. idx k = idx' k \<Longrightarrow> f k idx k = f k idx' k"
    and "distinct ks"
  shows "fold f ks idx k = (if k \<in> set ks then f k idx k else idx k)"
  using assms(3)
proof (induction ks arbitrary: idx)
  case (Cons a ks)
  show ?case
  proof (cases "k = a")
    case True
    then show ?thesis using Cons by auto
  next
    case False
    have "f k (f a idx) k = f k idx k" by (rule assms(2)) (rule assms(1) [OF False])
    then show ?thesis using Cons False assms(1) by auto
  qed
qed simp

lemma fold_index_gram:
  "distinct ks \<Longrightarrow> fold (index_gram ts p) ks idx k = (if k \<in> set ks then index_gram ts p k idx k else idx k)"
  by (rule fold_buckets) (simp_all add: index_gram_other, simp add: index_gram_def Let_def)

lemma fold_drop_stale:
  "distinct ks \<Longrightarrow> fold (drop_stale m) ks idx k = (if k \<in> set ks then drop_stale m k idx k else idx k)"
  by (rule fold_buckets) (simp_all add: drop_stale_other, simp add: drop_stale_def Let_def)

lemma index_add:
  assumes "index_exact ts s ks idx" and "distinct ks"
  shows "index_exact (ts @ [t]) s ks (fold (index_gram (ts @ [t]) (s + length ts)) ks idx)"
  unfolding index_exact_def
proof (intro ballI allI)
  fix k kg
  assume k: "k \<in> set ks"
  let ?g = "drop (length ts + 1 - k) (ts @ [t])"
  have old: "idx k kg' = (if length kg' = k then some_list (window_occurrences ts s kg') else None)" for kg'
    using assms(1) k by (simp add: index_exact_def)
  have new: "index_gram (ts @ [t]) (s + length ts) k idx k =
      (if length ts + 1 < k then idx k else (idx k)(?g \<mapsto> window_occurrences ts s ?g @ [s + length ts]))"
    by (auto simp: index_gram_def Let_def slice_def old some_list_def)
  have "fold (index_gram (ts @ [t]) (s + length ts)) ks idx k = index_gram (ts @ [t]) (s + length ts) k idx k"
    using fold_index_gram [OF assms(2)] k by simp
  then show "fold (index_gram (ts @ [t]) (s + length ts)) ks idx k kg =
      (if length kg = k then some_list (window_occurrences (ts @ [t]) s kg) else None)"
    unfolding new by (auto simp: old occurrences_snoc some_list_def)
qed

lemma index_trim:
  assumes "index_exact ts s ks idx" and "distinct ks" and "0 \<notin> set ks" and "d \<le> length ts"
  shows "index_exact (drop d ts) (s + d) ks (fold (drop_stale (s + d)) ks idx)"
  unfolding index_exact_def
proof (intro ballI allI)
  fix k kg
  assume k: "k \<in> set ks"
  then have "fold (drop_stale (s + d)) ks idx k = drop_stale (s + d) k idx k" using fold_drop_stale [OF assms(2)] by simp
  moreover have "idx k kg = (if length kg = k then some_list (window_occurrences ts s kg) else None)"
    using assms(1) k by (simp add: index_exact_def)
  moreover have "kg \<noteq> []" if "length kg = k" using that k assms(3) by auto
  ultimately show "fold (drop_stale (s + d)) ks idx k kg =
      (if length kg = k then some_list (window_occurrences (drop d ts) (s + d) kg) else None)"
    using occurrences_drop [OF assms(4)] by (auto simp: drop_stale_def some_list_def Let_def)
qed

section \<open>The window\<close>

text \<open>The state after a stream: the last \<open>max_history\<close> tokens, and the index of exactly their occurrences.\<close>

definition window_of :: "int option \<Rightarrow> int list \<Rightarrow> int list" where
  "window_of cap stream = (case cap of None \<Rightarrow> stream | Some h \<Rightarrow> drop (length stream - nat h) stream)"

definition indexes :: "drafter \<Rightarrow> int list \<Rightarrow> bool" where
  "indexes d stream \<longleftrightarrow> history d = window_of (max_history d) stream \<and>
     head_shift d + length (history d) = length stream \<and>
     index_exact (history d) (head_shift d) (gram_sizes d) (suffix_index d)"

lemma gram_sizes_facts: "distinct (gram_sizes d)" "0 \<notin> set (gram_sizes d)"
  by (auto simp: gram_sizes_def)

lemma add_one_indexes:
  assumes ix: "indexes d stream" and cap: "\<And>h. max_history d = Some h \<Longrightarrow> 0 \<le> h"
  shows "indexes (add_one t d) (stream @ [t]) \<and> max_history (add_one t d) = max_history d"
proof -
  define idx where "idx = fold (index_gram (history d @ [t]) (head_shift d + length (history d))) (gram_sizes d) (suffix_index d)"
  have e: "index_exact (history d @ [t]) (head_shift d) (gram_sizes d) idx"
    using ix index_add gram_sizes_facts(1) unfolding indexes_def idx_def by blast
  have w: "history d = window_of (max_history d) stream" "head_shift d + length (history d) = length stream"
    using ix unfolding indexes_def by blast+
  show ?thesis
  proof (cases "\<exists>h. max_history d = Some h \<and> h < int (length (history d) + 1)")
    case True
    then obtain h where h: "max_history d = Some h" "h < int (length (history d) + 1)" by blast
    define k where "k = nat (int (length (history d) + 1) - h)"
    have h0: "0 \<le> h" using cap [OF h(1)] .
    have k: "k \<le> length (history d @ [t])" using h0 by (simp add: k_def)
    have a: "add_one t d = d\<lparr>history := drop k (history d @ [t]), head_shift := head_shift d + k,
        suffix_index := fold (drop_stale (head_shift d + k)) (gram_sizes d) idx\<rparr>"
      using h by (simp add: add_one_def Let_def idx_def k_def)
    have "index_exact (drop k (history d @ [t])) (head_shift d + k) (gram_sizes d)
        (fold (drop_stale (head_shift d + k)) (gram_sizes d) idx)"
      by (rule index_trim [OF e gram_sizes_facts k])
    moreover have "drop k (history d @ [t]) = drop (length (stream @ [t]) - nat h) (stream @ [t])"
    proof -
      have hist: "history d = drop (length stream - nat h) stream" using w(1) h(1) by (simp add: window_of_def)
      then have "k + (length stream - nat h) = length (stream @ [t]) - nat h" "length stream - nat h \<le> length stream"
        using h(2) h0 by (auto simp: k_def)
      then show ?thesis unfolding hist by (metis drop_append drop_drop diff_is_0_eq drop0 append_Nil2 drop_Nil)
    qed
    moreover have "head_shift d + k + length (drop k (history d @ [t])) = length (stream @ [t])" using w(2) k by simp
    ultimately show ?thesis unfolding a indexes_def gram_sizes_def by (simp add: h(1) window_of_def del: length_drop drop_append)
  next
    case False
    then have a: "add_one t d = d\<lparr>history := history d @ [t], suffix_index := idx\<rparr>"
      by (auto simp: add_one_def Let_def idx_def split: option.split)
    have "history d @ [t] = window_of (max_history d) (stream @ [t])"
    proof (cases "max_history d")
      case None
      then show ?thesis using w(1) by (simp add: window_of_def)
    next
      case (Some h)
      then have "length (history d) < nat h" "history d = drop (length stream - nat h) stream"
        using False cap [OF Some] w(1) by (auto simp: window_of_def)
      then show ?thesis using Some by (auto simp: window_of_def)
    qed
    moreover from this have "head_shift d + length (window_of (max_history d) (stream @ [t])) = length stream + 1"
      using w(2) by (metis length_append_singleton add_Suc_right Suc_eq_plus1)
    ultimately show ?thesis using e by (simp add: a indexes_def gram_sizes_def)
  qed
qed

text \<open>A client's calls, and the tokens they index.\<close>

datatype drafter_call = Add_prompt_tokens "int list" | Add_generated_token int | Get_draft | Record_acceptance int

fun call_tokens :: "drafter_call \<Rightarrow> int list" where
  "call_tokens (Add_prompt_tokens ts) = ts"
| "call_tokens (Add_generated_token t) = [t]"
| "call_tokens _ = []"

fun drafter_step :: "drafter_call \<Rightarrow> drafter \<Rightarrow> drafter" where
  "drafter_step (Add_prompt_tokens ts) d = add_prompt_tokens ts d"
| "drafter_step (Add_generated_token t) d = add_generated_token t d"
| "drafter_step Get_draft d = snd (get_draft d)"
| "drafter_step (Record_acceptance n) d = record_acceptance n d"

definition drafter_config :: "drafter \<Rightarrow> int \<times> int \<times> rat \<times> int option" where
  "drafter_config d = (max_draft_tokens d, max_suffix_len d, min_confidence d, max_history d)"

lemma add_one_config: "drafter_config (add_one t d) = drafter_config d"
  by (simp add: drafter_config_def add_one_def Let_def split: option.split)

lemma fold_add_indexes:
  assumes "indexes d stream" and "\<And>h. max_history d = Some h \<Longrightarrow> 0 \<le> h"
  shows "indexes (fold add_one ts d) (stream @ ts) \<and> drafter_config (fold add_one ts d) = drafter_config d"
  using assms
proof (induction ts arbitrary: d stream)
  case (Cons t ts)
  have "indexes (add_one t d) (stream @ [t])" "max_history (add_one t d) = max_history d"
    using add_one_indexes [of d stream t] Cons.prems by simp_all
  then show ?case using Cons.IH [of "add_one t d" "stream @ [t]"] Cons.prems(2) add_one_config [of t d] by simp
qed simp

lemma indexes_max_draft: "indexes (d\<lparr>max_draft_tokens := n\<rparr>) stream \<longleftrightarrow> indexes d stream"
  unfolding indexes_def gram_sizes_def by simp

lemma indexes_statistics: "indexes (d\<lparr>draft_statistics := st\<rparr>) stream \<longleftrightarrow> indexes d stream"
  unfolding indexes_def gram_sizes_def by simp

lemma drafter_step_indexes:
  assumes "indexes d stream" and "\<And>h. max_history d = Some h \<Longrightarrow> 0 \<le> h"
  shows "indexes (drafter_step c d) (stream @ call_tokens c) \<and> drafter_config (drafter_step c d) = drafter_config d"
proof (cases c)
  case (Add_prompt_tokens ts)
  then show ?thesis using fold_add_indexes [of d stream ts] assms by (simp add: add_prompt_tokens_def)
next
  case (Add_generated_token t)
  then show ?thesis using fold_add_indexes [of d stream "[t]"] assms by (simp add: add_generated_token_def)
next
  case Get_draft
  then show ?thesis using assms(1) by (simp add: get_draft_def Let_def indexes_statistics drafter_config_def)
next
  case (Record_acceptance n)
  then show ?thesis using assms(1) by (simp add: record_acceptance_def indexes_statistics drafter_config_def)
qed

lemma drafter_run:
  assumes "drafter_init dc sc conf cap = Inr d" and "\<forall>h. cap = Some h \<longrightarrow> 0 \<le> h"
  shows "indexes (fold drafter_step calls d) (concat (map call_tokens calls)) \<and>
    drafter_config (fold drafter_step calls d) = (dc, sc, conf, cap)"
proof (induction calls rule: rev_induct)
  case Nil
  have "window_occurrences [] 0 kg = []" for kg by (simp add: window_occurrences_def)
  then show ?case using assms(1)
    by (auto simp: drafter_init_def indexes_def window_of_def index_exact_def some_list_def drafter_config_def
        split: if_splits option.split)
next
  case (snoc c calls)
  then have "max_history (fold drafter_step calls d) = cap" by (simp add: drafter_config_def)
  then show ?case using snoc drafter_step_indexes [of "fold drafter_step calls d" "concat (map call_tokens calls)" c] assms(2) by simp
qed

lemma float_quotient_self: "0 < a \<Longrightarrow> float_quotient a a = 1"
  by (simp add: float_quotient_def upt_conv_Cons)

section \<open>Counting votes\<close>

text \<open>A counter of a list: distinct keys, each with its number of occurrences.\<close>

definition counts :: "('a \<times> nat) list \<Rightarrow> 'a list \<Rightarrow> bool" where
  "counts c xs \<longleftrightarrow> distinct (map fst c) \<and> (\<forall>u. map_of c u = (if u \<in> set xs then Some (count_list xs u) else None)) \<and>
     sum_list (map snd c) = length xs"

lemma counter_add_keys: "fst ` set (counter_add t c) = insert t (fst ` set c)"
  by (induction t c rule: counter_add.induct) auto

lemma counter_add_distinct: "distinct (map fst c) \<Longrightarrow> distinct (map fst (counter_add t c))"
  by (induction t c rule: counter_add.induct) (auto simp: counter_add_keys)

lemma counter_add_sum: "sum_list (map snd (counter_add t c)) = sum_list (map snd c) + 1"
  by (induction t c rule: counter_add.induct) auto

lemma counter_add_map:
  "map_of (counter_add t c) u =
     (if u = t then Some (case map_of c t of None \<Rightarrow> 1 | Some m \<Rightarrow> m + 1) else map_of c u)"
  by (induction t c rule: counter_add.induct) auto

lemma counts_add: "counts c xs \<Longrightarrow> counts (counter_add t c) (xs @ [t])"
  by (auto simp: counts_def counter_add_distinct counter_add_sum counter_add_map count_notin)

lemma counts_of: "counts (counter_of xs) xs"
proof (induction xs rule: rev_induct)
  case Nil
  then show ?case by (simp add: counts_def counter_of_def)
next
  case (snoc x xs)
  then show ?case using counts_add by (simp add: counter_of_def)
qed

lemma counts_set: "counts c xs \<Longrightarrow> (u, n) \<in> set c \<longleftrightarrow> u \<in> set xs \<and> n = count_list xs u"
  unfolding counts_def by (metis map_of_eq_Some_iff option.distinct(1) option.inject)

text \<open>The winner of the vote is a token with the most votes.\<close>

definition wins :: "int list \<Rightarrow> int \<Rightarrow> bool" where
  "wins vs t \<longleftrightarrow> t \<in> set vs \<and> (\<forall>u. count_list vs u \<le> count_list vs t)"

lemma counter_winner:
  assumes "counter_of vs = c # cs" and "max_by snd c cs = (t, n)"
  shows "wins vs t \<and> n = count_list vs t \<and> sum_list (map snd (c # cs)) = length vs"
proof -
  have c: "counts (c # cs) vs" using counts_of [of vs] assms(1) by simp
  have "(t, n) \<in> set (c # cs)" using max_by_in [of snd c cs] assms(2) by simp
  then have t: "t \<in> set vs" "n = count_list vs t" using counts_set [OF c] by blast+
  have "count_list vs u \<le> n" for u
  proof (cases "u \<in> set vs")
    case True
    then have "(u, count_list vs u) \<in> set (c # cs)" using counts_set [OF c] by blast
    then show ?thesis using max_by_ge [of "(u, count_list vs u)" c cs snd] assms(2) by simp
  qed (simp add: count_notin)
  then show ?thesis using t c by (auto simp: wins_def counts_def)
qed

lemma counter_empty: "counter_of vs = [] \<longleftrightarrow> vs = []"
proof
  assume "counter_of vs = []"
  then have "counts [] vs" using counts_of [of vs] by simp
  then show "vs = []" by (simp add: counts_def)
qed (simp add: counter_of_def)

section \<open>The draft is the confident continuation\<close>

text \<open>
  The votes of round \<open>j\<close>: the token \<open>j + 1\<close> after each position of \<open>occ\<close> (local end positions of earlier occurrences)
  whose continuation starts with the \<open>j\<close> tokens drafted so far.
\<close>

definition agrees :: "int list \<Rightarrow> int list \<Rightarrow> nat \<Rightarrow> bool" where
  "agrees ts draft i \<longleftrightarrow> (\<exists>rest. drop (i + 1) ts = draft @ rest)"

definition votes :: "int list \<Rightarrow> nat list \<Rightarrow> int list \<Rightarrow> int list" where
  "votes ts occ draft = map (\<lambda>i. ts ! (i + 1 + length draft))
     (filter (\<lambda>i. agrees ts draft i \<and> i + 1 + length draft < length ts) occ)"

definition confident :: "rat \<Rightarrow> int list \<Rightarrow> int \<Rightarrow> bool" where
  "confident floor_conf vs t \<longleftrightarrow> wins vs t \<and> floor_conf \<le> float_quotient (count_list vs t) (length vs)"

text \<open>
  A draft continues from \<open>done\<close>: each token is elected with confidence by the positions that agree with the tokens
  before it, and the draft ends at the length cap or where no confident token is elected.
\<close>

fun elected :: "rat \<Rightarrow> int list \<Rightarrow> nat list \<Rightarrow> int list \<Rightarrow> nat \<Rightarrow> int list \<Rightarrow> bool" where
  "elected conf ts occ sofar 0 draft \<longleftrightarrow> draft = []"
| "elected conf ts occ sofar (Suc n) [] \<longleftrightarrow>
     votes ts occ sofar = [] \<or> (\<exists>t. wins (votes ts occ sofar) t \<and> \<not> confident conf (votes ts occ sofar) t)"
| "elected conf ts occ sofar (Suc n) (t # draft) \<longleftrightarrow>
     confident conf (votes ts occ sofar) t \<and> elected conf ts occ (sofar @ [t]) n draft"

lemma agrees_Nil [simp]: "agrees ts [] i"
  by (simp add: agrees_def)

lemma agrees_snoc:
  "agrees ts (draft @ [t]) i \<longleftrightarrow> agrees ts draft i \<and> i + 1 + length draft < length ts \<and> ts ! (i + 1 + length draft) = t"
proof
  assume "agrees ts (draft @ [t]) i"
  then obtain rest where r: "drop (i + 1) ts = draft @ t # rest" by (auto simp: agrees_def)
  have "length draft < length (drop (i + 1) ts)" unfolding r by simp
  moreover have "drop (i + 1) ts ! length draft = t" unfolding r by simp
  ultimately show "agrees ts draft i \<and> i + 1 + length draft < length ts \<and> ts ! (i + 1 + length draft) = t"
    using r by (auto simp: agrees_def)
next
  assume a: "agrees ts draft i \<and> i + 1 + length draft < length ts \<and> ts ! (i + 1 + length draft) = t"
  then obtain rest where r: "drop (i + 1) ts = draft @ rest" by (auto simp: agrees_def)
  have "length draft < length (drop (i + 1) ts)" "drop (i + 1) ts ! length draft = t" using a by auto
  then show "agrees ts (draft @ [t]) i" unfolding agrees_def r by (cases rest) auto
qed

text \<open>The positions kept by the loop are the shifted positions that agree so far; the current one votes for nothing.\<close>

lemma build_draft_elected:
  assumes "ends = map (\<lambda>i. head_shift d + i) (filter (agrees (history d) sofar) occ) @ tail"
    and "set tail \<subseteq> {cur}" and "cur = head_shift d + length (history d) - 1" and "\<forall>i\<in>set occ. i + 1 < length (history d)"
    and "offsets = [length sofar..<length sofar + n]"
  shows "elected (min_confidence d) (history d) occ sofar n (build_draft d cur ends offsets)"
  using assms
proof (induction n arbitrary: ends sofar tail offsets)
  case (Suc n)
  let ?ts = "history d" and ?j = "length sofar" and ?vs = "votes (history d) occ sofar"
  have off: "offsets = ?j # [length sofar + 1..<length sofar + 1 + n]" using Suc.prems(5) by (simp add: upt_conv_Cons)
  have cont: "continuation d (head_shift d + i) ?j = (if i + 1 + ?j < length ?ts then Some (?ts ! (i + 1 + ?j)) else None)" for i
    by (auto simp: continuation_def Let_def intro!: arg_cong [of _ _ "nth ?ts"])
  have notcur: "head_shift d + i \<noteq> cur" if "i \<in> set occ" for i using Suc.prems(3,4) that by fastforce
  have tl: "List.map_filter (\<lambda>e. if e = cur then None else continuation d e ?j) tail = []"
    using Suc.prems(2) by (auto simp: map_filter_def filter_empty_conv)
  have vs: "List.map_filter (\<lambda>e. if e = cur then None else continuation d e ?j) ends = ?vs"
  proof -
    have "List.map_filter (\<lambda>e. if e = cur then None else continuation d e ?j)
        (map (\<lambda>i. head_shift d + i) (filter (agrees ?ts sofar) os)) = votes ?ts os sofar" if "set os \<subseteq> set occ" for os
      using that by (induction os) (auto simp: map_filter_simps votes_def cont notcur)
    then show ?thesis using tl Suc.prems(1) by (simp add: map_filter_def)
  qed
  show ?case
  proof (cases "counter_of ?vs")
    case Nil
    then show ?thesis using counter_empty [of ?vs] by (simp add: off vs)
  next
    case (Cons c cs)
    obtain t m where tm: "max_by snd c cs = (t, m)" by fastforce
    note w = counter_winner [OF Cons tm]
    show ?thesis
    proof (cases "float_quotient m (length ?vs) < min_confidence d")
      case True
      then show ?thesis using w Cons tm by (auto simp: off vs confident_def)
    next
      case False
      define ends' where "ends' = filter (\<lambda>e. e \<noteq> cur \<and> continuation d e ?j = Some t) ends"
      have e': "ends' = map (\<lambda>i. head_shift d + i) (filter (agrees ?ts (sofar @ [t])) occ)"
      proof -
        have "filter (\<lambda>e. e \<noteq> cur \<and> continuation d e ?j = Some t) tail = []"
          using Suc.prems(2) by (auto simp: filter_empty_conv)
        moreover have "filter (\<lambda>e. e \<noteq> cur \<and> continuation d e ?j = Some t)
            (map (\<lambda>i. head_shift d + i) (filter (agrees ?ts sofar) os)) =
            map (\<lambda>i. head_shift d + i) (filter (agrees ?ts (sofar @ [t])) os)" if "set os \<subseteq> set occ" for os
          using that by (induction os) (auto simp: cont notcur agrees_snoc)
        ultimately show ?thesis using Suc.prems(1) by (simp add: ends'_def)
      qed
      have "ends' \<noteq> []"
      proof -
        obtain i where "i \<in> set occ" "agrees ?ts sofar i" "i + 1 + ?j < length ?ts" "?ts ! (i + 1 + ?j) = t"
          using w by (auto simp: wins_def votes_def)
        then show ?thesis unfolding e' by (fastforce simp: filter_empty_conv agrees_snoc)
      qed
      moreover have "elected (min_confidence d) ?ts occ (sofar @ [t]) n
          (build_draft d cur ends' [length sofar + 1..<length sofar + 1 + n])"
        by (rule Suc.IH [where tail = "[]"]) (use e' Suc.prems(3,4) in simp_all)
      ultimately show ?thesis using w False Cons tm by (simp add: off vs ends'_def [symmetric] confident_def)
    qed
  qed
qed simp

text \<open>The earlier end positions of the last \<open>k\<close> tokens.\<close>

definition earlier :: "int list \<Rightarrow> nat \<Rightarrow> nat list" where
  "earlier ts k = filter (ends_at ts (drop (length ts - k) ts)) [0..<length ts - 1]"

lemma window_occurrences_map: "window_occurrences ts s kg = map (\<lambda>i. s + i) (filter (ends_at ts kg) [0..<length ts])"
proof -
  have "[s..<s + length ts] = map (\<lambda>i. s + i) [0..<length ts]" by (simp add: map_add_upt add.commute)
  then show ?thesis by (simp add: window_occurrences_def filter_map o_def)
qed

lemma draft_for_elected:
  assumes ix: "indexes d stream" and k: "1 \<le> k" "k \<le> nat (max_suffix_len d)" "k \<le> length (history d)"
  shows "elected (min_confidence d) (history d) (earlier (history d) k) [] (nat (max_draft_tokens d)) (draft_for d k)"
proof -
  let ?ts = "history d"
  let ?q = "drop (length ?ts - k) ?ts"
  define occ where "occ = earlier ?ts k"
  have q: "length ?q = k" using k(3) by simp
  have cur: "ends_at ?ts ?q (length ?ts - 1)" using k q by (auto simp: ends_at_def slice_def)
  have l: "[0..<length ?ts] = [0..<length ?ts - 1] @ [length ?ts - 1]" using k(1,3) by (cases "length ?ts") auto
  have w: "window_occurrences ?ts (head_shift d) ?q = map (\<lambda>i. head_shift d + i) occ @ [head_shift d + length ?ts - 1]"
    using cur k(1,3) unfolding window_occurrences_map l by (simp add: occ_def earlier_def)
  have "k \<in> set (gram_sizes d)" using k by (auto simp: gram_sizes_def)
  then have "suffix_index d k ?q = Some (window_occurrences ?ts (head_shift d) ?q)"
    using ix q w by (simp add: indexes_def index_exact_def some_list_def)
  then have "draft_for d k = build_draft d (head_shift d + length ?ts - 1)
      (map (\<lambda>i. head_shift d + i) occ @ [head_shift d + length ?ts - 1]) [0..<nat (max_draft_tokens d)]"
    by (simp add: draft_for_def Let_def w)
  moreover have "\<forall>i\<in>set occ. i + 1 < length ?ts" by (auto simp: occ_def earlier_def)
  ultimately show ?thesis unfolding occ_def [symmetric]
    by (simp only:) (rule build_draft_elected [where tail = "[head_shift d + length ?ts - 1]"]; simp)
qed

lemma first_draft_cases:
  "(first_draft d ks = [] \<and> (\<forall>k\<in>set ks. draft_for d k = [])) \<or>
   (\<exists>before k after. ks = before @ k # after \<and> first_draft d ks = draft_for d k \<and> draft_for d k \<noteq> [] \<and>
      (\<forall>k'\<in>set before. draft_for d k' = []))"
proof (induction ks)
  case (Cons k ks)
  show ?case
  proof (cases "draft_for d k = []")
    case True
    from Cons.IH show ?thesis
    proof (elim disjE exE conjE)
      fix before j after
      assume "ks = before @ j # after" "first_draft d ks = draft_for d j" "draft_for d j \<noteq> []" "\<forall>k'\<in>set before. draft_for d k' = []"
      then show ?thesis using True by (intro disjI2 exI [of _ "k # before"] exI [of _ j] exI [of _ after]) simp
    qed (use True in simp)
  next
    case False
    then show ?thesis by (intro disjI2 exI [of _ "[]"] exI [of _ k] exI [of _ ks]) simp
  qed
qed simp

lemma elected_length: "elected conf ts occ sofar n draft \<Longrightarrow> length draft \<le> n"
  by (induction conf ts occ sofar n draft rule: elected.induct) auto

text \<open>An elected draft is a piece of the history.\<close>

lemma elected_agrees:
  "elected conf ts occ sofar n draft \<Longrightarrow> draft \<noteq> [] \<Longrightarrow> \<exists>i\<in>set occ. agrees ts (sofar @ draft) i"
proof (induction conf ts occ sofar n draft rule: elected.induct)
  case (3 conf ts occ sofar n t draft)
  show ?case
  proof (cases "draft = []")
    case True
    have "wins (votes ts occ sofar) t" using "3.prems"(1) by (simp add: confident_def)
    then have "t \<in> set (votes ts occ sofar)" by (simp add: wins_def)
    then show ?thesis using True by (auto simp: votes_def agrees_snoc)
  qed (use 3 in simp)
qed simp_all

text \<open>A constant history is continued by its token.\<close>

lemma constant_draft:
  assumes ix: "indexes d stream" and h: "history d = replicate n t" and n: "2 \<le> n" and k: "1 \<le> max_suffix_len d"
    and md: "1 \<le> max_draft_tokens d" and conf: "min_confidence d \<le> 1" and g: "get_draft d = (draft, d')"
  shows "draft \<noteq> [] \<and> set draft \<subseteq> {t}"
proof -
  define ks where "ks = rev [1..<min (nat (max_suffix_len d)) (length (history d)) + 1]"
  have dr: "draft = first_draft d ks" using g h n by (auto simp: get_draft_def Let_def ks_def split: if_splits)
  have one: "1 \<in> set ks" using h n k by (auto simp: ks_def)
  have el: "elected (min_confidence d) (replicate n t) (earlier (replicate n t) j) [] (nat (max_draft_tokens d)) (draft_for d j)"
    if "j \<in> set ks" for j
    using draft_for_elected [OF ix, of j] that h by (auto simp: ks_def)
  have ne: "draft_for d 1 \<noteq> []"
  proof
    assume e: "draft_for d 1 = []"
    define vs where "vs = votes (replicate n t) (earlier (replicate n t) 1) []"
    have "0 \<in> set (earlier (replicate n t) 1)" using n by (auto simp: earlier_def ends_at_def slice_def take_Cons' drop_Cons')
    then have v: "vs \<noteq> []" "set vs \<subseteq> {t}" using n by (auto simp: vs_def votes_def filter_empty_conv intro!: bexI [of _ 0])
    have c: "count_list vs t = length vs" using v(2) by (induction vs) auto
    obtain m where m: "nat (max_draft_tokens d) = Suc m" using md by (cases "nat (max_draft_tokens d)") auto
    have "vs = [] \<or> (\<exists>x. wins vs x \<and> \<not> confident (min_confidence d) vs x)" using el [OF one] e m by (simp add: vs_def)
    then obtain x where x: "wins vs x" "\<not> confident (min_confidence d) vs x" using v(1) by blast
    then have "x = t" using v(2) by (auto simp: wins_def)
    then show False using x c v(1) conf float_quotient_self [of "length vs"] by (simp add: confident_def)
  qed
  have "first_draft d ks \<noteq> [] \<and> (\<exists>j\<in>set ks. first_draft d ks = draft_for d j)"
    using first_draft_cases [of d ks] ne one by auto
  then obtain j where j: "j \<in> set ks" "draft = draft_for d j" "draft \<noteq> []" using dr by auto
  obtain i where i: "agrees (replicate n t) draft i" using elected_agrees [OF el [OF j(1)]] j by auto
  then have "set draft \<subseteq> set (replicate n t)" unfolding agrees_def by (metis Un_upper1 order_trans set_append set_drop_subset)
  then show ?thesis using j(3) by auto
qed

text \<open>One token has no earlier occurrence.\<close>

lemma single_no_draft:
  assumes ix: "indexes d stream" and h: "length (history d) = 1"
  shows "fst (get_draft d) = []"
proof -
  define ks where "ks = rev [1..<min (nat (max_suffix_len d)) (length (history d)) + 1]"
  have "draft_for d k = []" if k: "k \<in> set ks" for k
  proof (rule ccontr)
    assume ne: "draft_for d k \<noteq> []"
    have "elected (min_confidence d) (history d) (earlier (history d) k) [] (nat (max_draft_tokens d)) (draft_for d k)"
      using draft_for_elected [OF ix, of k] k by (auto simp: ks_def)
    then obtain i where "i \<in> set (earlier (history d) k)" using elected_agrees ne by blast
    then show False using h by (simp add: earlier_def)
  qed
  then have "first_draft d ks = []" using first_draft_cases [of d ks] by auto
  then show ?thesis by (simp add: get_draft_def Let_def ks_def)
qed

section \<open>Claims\<close>

text \<open>
  C36. \<^bold>\<open>The index is exactly the occurrences in the window.\<close> Whatever calls a client makes on a new drafter, its history
  is the last \<open>max_history\<close> tokens of the stream it was given, and the entry of every k-gram lists, in order and as
  absolute positions of the stream, exactly where it ends inside that window.
\<close>

theorem suffix_index_refines_window:
  assumes "drafter_init dc sc conf cap = Inr d0" and "\<forall>h. cap = Some h \<longrightarrow> 0 \<le> h"
    and "d = fold drafter_step calls d0" and "stream = concat (map call_tokens calls)"
    and "1 \<le> length kg" and "int (length kg) \<le> sc"
  shows "history d = window_of cap stream \<and> head_shift d + length (history d) = length stream \<and>
    suffix_index d (length kg) kg = some_list (filter (\<lambda>e. slice stream (e + 1 - length kg) (e + 1) = kg)
      [head_shift d + length kg - 1..<length stream])"
proof -
  have ix: "indexes d stream" and cfg: "drafter_config d = (dc, sc, conf, cap)"
    using drafter_run [OF assms(1,2), of calls] assms(3,4) by simp_all
  have h: "history d = window_of cap stream" and len: "head_shift d + length (history d) = length stream"
    using ix cfg by (auto simp: indexes_def drafter_config_def)
  have "history d = drop (head_shift d) stream"
  proof (cases cap)
    case None
    then show ?thesis using h len by (auto simp: window_of_def)
  next
    case (Some b)
    then have b: "history d = drop (length stream - nat b) stream" using h by (simp add: window_of_def)
    then have "head_shift d = length stream - nat b" using len by auto
    then show ?thesis using b by simp
  qed
  then have "window_occurrences (history d) (head_shift d) kg =
      filter (\<lambda>e. head_shift d + length kg - 1 \<le> e) (window_occurrences stream 0 kg)"
    using occurrences_drop [of "head_shift d" stream kg 0] assms(5) len by (cases kg) auto
  also have "\<dots> = filter (\<lambda>e. slice stream (e + 1 - length kg) (e + 1) = kg) [head_shift d + length kg - 1..<length stream]"
  proof -
    let ?a = "head_shift d + length kg - 1"
    have "[0..<length stream] = [0..<min ?a (length stream)] @ [min ?a (length stream)..<length stream]"
      using upt_add_eq_append [of 0 "min ?a (length stream)" "length stream - min ?a (length stream)"] by simp
    moreover have "[min ?a (length stream)..<length stream] = [?a..<length stream]" by (simp add: min_def)
    moreover have "filter (\<lambda>e. ?a \<le> e \<and> ends_at stream kg e) [0..<min ?a (length stream)] = []" by (auto simp: filter_empty_conv)
    moreover have "filter (\<lambda>e. ?a \<le> e \<and> ends_at stream kg e) [?a..<length stream] =
        filter (\<lambda>e. slice stream (e + 1 - length kg) (e + 1) = kg) [?a..<length stream]"
      using assms(5) by (intro filter_cong) (auto simp: ends_at_def)
    ultimately show ?thesis by (simp add: window_occurrences_def conj_commute)
  qed
  finally have "window_occurrences (history d) (head_shift d) kg = \<dots>" .
  moreover have "length kg \<in> set (gram_sizes d)" using assms(5,6) cfg by (auto simp: gram_sizes_def drafter_config_def)
  ultimately show ?thesis using ix h len by (simp add: indexes_def index_exact_def)
qed

text \<open>
  \<^bold>\<open>A draft is the confident continuation of the longest suffix that has one.\<close> In any state a client can reach,
  a non-empty draft has at most \<open>max_draft_tokens\<close> tokens, repeats a piece of the history that follows an earlier
  occurrence of the last \<open>k\<close> tokens, each of its tokens is a most frequent continuation of the occurrences that agree
  with the draft so far, by at least the confidence floor, and no longer suffix has a confident continuation; an empty
  draft means that no suffix has one. Drafting leaves the window as it is.
\<close>

theorem draft_is_confident_continuation:
  assumes "drafter_init dc sc conf cap = Inr d0" and "\<forall>h. cap = Some h \<longrightarrow> 0 \<le> h"
    and "d = fold drafter_step calls d0" and "ts = history d" and "get_draft d = (draft, d')"
    and "sizes = {1..min (nat sc) (length ts)}"
  shows "history d' = ts \<and> int (length draft) \<le> dc \<and>
    (if draft = [] then \<forall>k\<in>sizes. elected conf ts (earlier ts k) [] (nat dc) []
     else \<exists>k\<in>sizes. elected conf ts (earlier ts k) [] (nat dc) draft \<and> (\<exists>i\<in>set (earlier ts k). agrees ts draft i) \<and>
       (\<forall>k'\<in>sizes. k < k' \<longrightarrow> elected conf ts (earlier ts k') [] (nat dc) []))"
proof -
  have ix: "indexes d (concat (map call_tokens calls))" and cfg: "drafter_config d = (dc, sc, conf, cap)"
    using drafter_run [OF assms(1,2), of calls] assms(3) by simp_all
  define ks where "ks = rev [1..<min (nat sc) (length ts) + 1]"
  have c: "max_draft_tokens d = dc" "max_suffix_len d = sc" "min_confidence d = conf" using cfg by (simp_all add: drafter_config_def)
  have el: "elected conf ts (earlier ts k) [] (nat dc) (draft_for d k)" if "k \<in> sizes" for k
    using draft_for_elected [OF ix, of k] that c assms(4,6) by simp
  have g: "draft = (if ts = [] then [] else first_draft d ks)" "history d' = ts"
    using assms(4,5) c by (auto simp: get_draft_def Let_def ks_def split: if_splits)
  have ks: "set ks = sizes" by (auto simp: ks_def assms(6))
  consider "draft = []" "\<forall>k\<in>sizes. draft_for d k = []"
    | before k after where "ks = before @ k # after" "draft = draft_for d k" "draft \<noteq> []" "\<forall>k'\<in>set before. draft_for d k' = []"
  proof (cases "ts = []")
    case True
    then show ?thesis using that(1) g(1) assms(6) by simp
  next
    case False
    then have g': "draft = first_draft d ks" using g(1) by simp
    show ?thesis using first_draft_cases [of d ks] that unfolding g' ks [symmetric] by metis
  qed
  then show ?thesis
  proof cases
    case 1
    then show ?thesis using el g(2) assms(1) by (auto simp: drafter_init_def split: if_splits)
  next
    case 2
    have k: "k \<in> sizes" using 2(1) ks by auto
    have e: "elected conf ts (earlier ts k) [] (nat dc) draft" using el [OF k] 2(2) by simp
    have "k' \<in> set before" if k': "k' \<in> sizes" "k < k'" for k'
    proof -
      have "sorted (rev ks)" by (simp add: ks_def del: upt_Suc)
      then have "\<forall>x\<in>set after. x \<le> k" unfolding 2(1) by (auto simp: sorted_append)
      then show ?thesis using k' ks 2(1) by auto
    qed
    then have longer: "elected conf ts (earlier ts k') [] (nat dc) []" if "k' \<in> sizes" "k < k'" for k'
      using el [of k'] 2(4) that by fastforce
    have "int (length draft) \<le> dc" using elected_length [OF e] assms(1) by (auto simp: drafter_init_def split: if_splits)
    moreover have "\<exists>i\<in>set (earlier ts k). agrees ts draft i" using elected_agrees [OF e 2(3)] by simp
    ultimately show ?thesis using g(2) 2(3) k e longer by auto
  qed
qed

definition sample_calls :: "drafter_call list" where
  "sample_calls = [Add_prompt_tokens [1, 2, 3, 4, 1, 2, 3], Add_generated_token 1, Get_draft, Add_generated_token 2]"

definition sample_start :: drafter where
  "sample_start = (case drafter_init 3 2 (3 / 10) (Some 8) of Inr d \<Rightarrow> d)"

lemma sample_start: "drafter_init 3 2 (3 / 10) (Some 8) = Inr sample_start"
  by (simp add: sample_start_def drafter_init_def)

lemma sample_tokens: "concat (map call_tokens sample_calls) = [1, 2, 3, 4, 1, 2, 3, 1, 2]"
  by (simp add: sample_calls_def)

lemma sample_history: "history (fold drafter_step sample_calls sample_start) = [2, 3, 4, 1, 2, 3, 1, 2]"
proof -
  have "indexes (fold drafter_step sample_calls sample_start) (concat (map call_tokens sample_calls)) \<and>
      drafter_config (fold drafter_step sample_calls sample_start) = (3, 2, 3 / 10, Some 8)"
    by (rule drafter_run [OF sample_start]) simp
  then show ?thesis by (auto simp: indexes_def drafter_config_def window_of_def sample_tokens)
qed

theorem suffix_index_refines_window_witness:
  "suffix_index (fold drafter_step sample_calls sample_start) 2 [1, 2] = Some [5, 8]"
proof -
  have s: "history (fold drafter_step sample_calls sample_start) = window_of (Some 8) [1, 2, 3, 4, 1, 2, 3, 1, 2] \<and>
      head_shift (fold drafter_step sample_calls sample_start) + length (history (fold drafter_step sample_calls sample_start)) =
        length [1, 2, 3, 4, 1, 2, 3, 1, 2::int] \<and>
      suffix_index (fold drafter_step sample_calls sample_start) (length [1, 2::int]) [1, 2] =
        some_list (filter (\<lambda>e. slice [1, 2, 3, 4, 1, 2, 3, 1, 2] (e + 1 - length [1, 2::int]) (e + 1) = [1, 2::int])
          [head_shift (fold drafter_step sample_calls sample_start) + length [1, 2::int] - 1..<length [1, 2, 3, 4, 1, 2, 3, 1, 2::int]])"
    by (rule suffix_index_refines_window [OF sample_start]) (simp_all add: sample_tokens [symmetric])
  moreover from conjunct1 [OF conjunct2 [OF s]] have h: "head_shift (fold drafter_step sample_calls sample_start) = 1"
    unfolding sample_history by simp
  ultimately have "suffix_index (fold drafter_step sample_calls sample_start) (length [1, 2::int]) [1, 2] =
      some_list (filter (\<lambda>e. slice [1, 2, 3, 4, 1, 2, 3, 1, 2] (e + 1 - length [1, 2::int]) (e + 1) = [1, 2::int])
        [1 + length [1, 2::int] - 1..<length [1, 2, 3, 4, 1, 2, 3, 1, 2::int]])" by simp
  then show ?thesis by (simp add: upt_rec slice_def some_list_def numeral_2_eq_2)
qed

theorem draft_is_confident_continuation_witness:
  "\<exists>draft d'. get_draft (fold drafter_step sample_calls sample_start) = (draft, d') \<and> length draft \<le> 3 \<and>
     history d' = [2, 3, 4, 1, 2, 3, 1, 2]"
proof -
  let ?d = "fold drafter_step sample_calls sample_start"
  obtain draft d' where g: "get_draft ?d = (draft, d')" by fastforce
  have h: "history ?d = [2, 3, 4, 1, 2, 3, 1, 2]" by (rule sample_history)
  have "\<forall>h. Some (8::int) = Some h \<longrightarrow> 0 \<le> h" by simp
  from draft_is_confident_continuation [OF sample_start this refl refl g refl] show ?thesis using g h by auto
qed

end
