(* ===== verification/SuffixCounter.thy ===== *)
theory SuffixCounter
  imports Prelude
begin

text \<open>
  \<^bold>\<open>rapid_mlx/speculative/suffix_counter.py.\<close> The process-wide counters of the suffix-decoding verify loop. Each method
  runs under the counter's lock, so a call is one step.
\<close>

section \<open>State and methods\<close>

definition FT_REASONS :: "string list" where
  "FT_REASONS = [''batch_size'', ''uids_size'', ''non_greedy'', ''logits_processors'', ''no_draft'', ''cooldown'',
     ''non_trimmable_cache'', ''error'']"

record accept_counter =
  ac_verify_steps :: int
  ac_fallthrough_steps :: int
  ac_proposed :: int
  ac_accepted :: int
  ac_cooldown_trips :: int
  ac_errors :: int
  ac_ft :: "string \<rightharpoonup> int"
  ac_current_k :: int
  ac_backoff_level :: int

definition accept_counter_init :: accept_counter where
  "accept_counter_init = \<lparr>ac_verify_steps = 0, ac_fallthrough_steps = 0, ac_proposed = 0, ac_accepted = 0,
     ac_cooldown_trips = 0, ac_errors = 0, ac_ft = map_of (map (\<lambda>r. (r, 0)) FT_REASONS), ac_current_k = 0, ac_backoff_level = 0\<rparr>"

definition record_verify :: "int \<Rightarrow> int \<Rightarrow> accept_counter \<Rightarrow> accept_counter" where
  "record_verify proposed accepted c = c\<lparr>ac_verify_steps := ac_verify_steps c + 1,
     ac_proposed := ac_proposed c + proposed, ac_accepted := ac_accepted c + accepted\<rparr>"

definition record_fallthrough :: "string \<Rightarrow> accept_counter \<Rightarrow> accept_counter" where
  "record_fallthrough reason c =
     (let c1 = c\<lparr>ac_fallthrough_steps := ac_fallthrough_steps c + 1\<rparr>
      in case ac_ft c reason of None \<Rightarrow> c1 | Some n \<Rightarrow> c1\<lparr>ac_ft := (ac_ft c)(reason \<mapsto> n + 1)\<rparr>)"

text \<open>\<open>self._ft["error"] += 1\<close> of a dict that always has the key.\<close>

definition record_error :: "accept_counter \<Rightarrow> accept_counter" where
  "record_error c = c\<lparr>ac_errors := ac_errors c + 1, ac_fallthrough_steps := ac_fallthrough_steps c + 1,
     ac_ft := (ac_ft c)(''error'' \<mapsto> (case ac_ft c ''error'' of None \<Rightarrow> 0 | Some n \<Rightarrow> n) + 1)\<rparr>"

definition record_cooldown_trip :: "int \<Rightarrow> accept_counter \<Rightarrow> accept_counter" where
  "record_cooldown_trip lvl c = c\<lparr>ac_cooldown_trips := ac_cooldown_trips c + 1, ac_backoff_level := lvl\<rparr>"

definition set_state :: "int \<Rightarrow> int \<Rightarrow> accept_counter \<Rightarrow> accept_counter" where
  "set_state current_k lvl c = c\<lparr>ac_current_k := current_k, ac_backoff_level := lvl\<rparr>"

definition counter_reset :: "accept_counter \<Rightarrow> accept_counter" where
  "counter_reset c = accept_counter_init"

text \<open>The snapshot; \<open>accept_ratio\<close> is kept as the pair it is the quotient of.\<close>

record counter_snapshot =
  snap_verify_steps :: int
  snap_fallthrough_steps :: int
  snap_proposed :: int
  snap_accepted :: int
  snap_ratio :: "(int \<times> int) option"
  snap_cooldown_trips :: int
  snap_errors :: int
  snap_current_k :: int
  snap_backoff_level :: int
  snap_ft :: "string \<rightharpoonup> int"

definition counter_snapshot :: "accept_counter \<Rightarrow> counter_snapshot" where
  "counter_snapshot c = \<lparr>snap_verify_steps = ac_verify_steps c, snap_fallthrough_steps = ac_fallthrough_steps c,
     snap_proposed = ac_proposed c, snap_accepted = ac_accepted c,
     snap_ratio = (if ac_proposed c \<noteq> 0 then Some (ac_accepted c, ac_proposed c) else None),
     snap_cooldown_trips = ac_cooldown_trips c, snap_errors = ac_errors c, snap_current_k = ac_current_k c,
     snap_backoff_level = ac_backoff_level c, snap_ft = ac_ft c\<rparr>"

section \<open>The breakdown\<close>

text \<open>The keys never change, and the breakdown sums to the fallthrough steps as long as only known reasons are recorded.\<close>

definition breakdown :: "accept_counter \<Rightarrow> int" where
  "breakdown c = sum_list (map (\<lambda>r. case ac_ft c r of None \<Rightarrow> 0 | Some n \<Rightarrow> n) FT_REASONS)"

definition reconciled :: "accept_counter \<Rightarrow> bool" where
  "reconciled c \<longleftrightarrow> dom (ac_ft c) = set FT_REASONS \<and> breakdown c = ac_fallthrough_steps c"

lemma breakdown_upd:
  assumes "r \<in> set FT_REASONS" and "ac_ft c r = Some n" and "ac_ft c' = (ac_ft c)(r \<mapsto> n + 1)"
  shows "breakdown c' = breakdown c + 1"
proof -
  have d: "distinct FT_REASONS" by (simp add: FT_REASONS_def)
  have "sum_list (map (\<lambda>q. case ((ac_ft c)(r \<mapsto> n + 1)) q of None \<Rightarrow> 0 | Some m \<Rightarrow> m) rs) =
      sum_list (map (\<lambda>q. case ac_ft c q of None \<Rightarrow> 0 | Some m \<Rightarrow> m) rs) + (if r \<in> set rs then 1 else 0)" if "distinct rs" for rs
    using that assms(2) by (induction rs) auto
  then show ?thesis using d assms(1,3) by (simp add: breakdown_def)
qed

lemma reconciled_init: "reconciled accept_counter_init"
  by (auto simp: reconciled_def accept_counter_init_def breakdown_def FT_REASONS_def)

lemma reconciled_fallthrough:
  assumes "reconciled c" and "r \<in> set FT_REASONS"
  shows "reconciled (record_fallthrough r c)"
proof -
  obtain n where n: "ac_ft c r = Some n" using assms by (auto simp: reconciled_def)
  have "breakdown (record_fallthrough r c) = breakdown c + 1"
    by (rule breakdown_upd [OF assms(2) n]) (simp add: record_fallthrough_def n)
  then show ?thesis using assms n by (auto simp: reconciled_def record_fallthrough_def)
qed

lemma reconciled_error: "reconciled c \<Longrightarrow> reconciled (record_error c)"
proof -
  assume c: "reconciled c"
  have e: "''error'' \<in> set FT_REASONS" by (simp add: FT_REASONS_def)
  obtain n where n: "ac_ft c ''error'' = Some n" using c e by (auto simp: reconciled_def)
  have "breakdown (record_error c) = breakdown c + 1" by (rule breakdown_upd [OF e n]) (simp add: record_error_def n)
  then show ?thesis using c e n by (auto simp: reconciled_def record_error_def)
qed

lemma reconciled_others [simp]:
  "reconciled (record_verify p a c) = reconciled c" "reconciled (record_cooldown_trip l c) = reconciled c"
  "reconciled (set_state k l c) = reconciled c"
  by (simp_all add: reconciled_def breakdown_def record_verify_def record_cooldown_trip_def set_state_def)

end
