(* ===== verification/CacheRollback.thy ===== *)
theory CacheRollback
  imports Prelude
begin

text \<open>
  \<^bold>\<open>rapid_mlx/cache_rollback.py.\<close> The transactional trim of composite KV caches. Cache objects belong to other packages:
  a heap maps addresses to objects, cache objects as well as the arrays and further objects they refer to. The value of an
  object is what \<open>vars\<close> shows of it, with the elements of its own dicts, lists, sets and tuples, where another object or an
  array is an address. \<open>cache_api\<close> holds the methods the code looks up on an object, each as a function of its address and
  the heap that says whether it is there. A method the code only asks (\<open>can_trim\<close>, \<open>size\<close>, ...) is taken to answer without
  effect, and taking or restoring a checkpoint not to raise; \<open>trim\<close> may change the heap in any way and may raise.
\<close>

section \<open>Objects\<close>

text \<open>What \<open>int(value)\<close> sees: nothing, an integer, or something it refuses.\<close>

datatype py_value = PyNone | PyInt int | PyOther

datatype cache_ref = Leaf_cache nat | Composite_cache nat "cache_ref list"

record ('c, 'k) cache_api =
  trim_checkpoint_of :: "nat \<Rightarrow> (nat \<Rightarrow> 'c) \<Rightarrow> 'k option"
  restore_trim_checkpoint :: "'k \<Rightarrow> nat \<Rightarrow> (nat \<Rightarrow> 'c) \<Rightarrow> nat \<Rightarrow> 'c"
  size_of :: "nat \<Rightarrow> (nat \<Rightarrow> 'c) \<Rightarrow> py_value option"
  offset_of :: "nat \<Rightarrow> (nat \<Rightarrow> 'c) \<Rightarrow> py_value"
  can_trim_of :: "nat \<Rightarrow> (nat \<Rightarrow> 'c) \<Rightarrow> (int \<Rightarrow> bool) option"
  can_undo_of :: "nat \<Rightarrow> (nat \<Rightarrow> 'c) \<Rightarrow> (int \<Rightarrow> bool) option"
  is_trimmable_of :: "nat \<Rightarrow> (nat \<Rightarrow> 'c) \<Rightarrow> bool option"
  can_advance_of :: "nat \<Rightarrow> (nat \<Rightarrow> 'c) \<Rightarrow> (int \<Rightarrow> bool) option"
  max_size_of :: "nat \<Rightarrow> (nat \<Rightarrow> 'c) \<Rightarrow> py_value"
  trim_of :: "int \<Rightarrow> nat \<Rightarrow> (nat \<Rightarrow> 'c) \<Rightarrow> (py_error + int option) \<times> (nat \<Rightarrow> 'c)"

fun leaf_caches :: "cache_ref \<Rightarrow> nat list" where
  "leaf_caches (Leaf_cache a) = [a]"
| "leaf_caches (Composite_cache a children) = concat (map leaf_caches children)"

fun cache_address :: "cache_ref \<Rightarrow> nat" where
  "cache_address (Leaf_cache a) = a"
| "cache_address (Composite_cache a children) = a"

text \<open>
  A checkpoint is what the object's own method captured, or a shallow copy of its attributes: the copied containers are
  part of the object's value, the arrays and objects it refers to are not.
\<close>

datatype ('c, 'k) checkpoint = Custom 'k | Attributes 'c

definition take_checkpoint :: "('c, 'k) cache_api \<Rightarrow> nat \<Rightarrow> (nat \<Rightarrow> 'c) \<Rightarrow> ('c, 'k) checkpoint" where
  "take_checkpoint api a h = (case trim_checkpoint_of api a h of Some k \<Rightarrow> Custom k | None \<Rightarrow> Attributes (h a))"

definition restore_checkpoint :: "('c, 'k) cache_api \<Rightarrow> ('c, 'k) checkpoint \<Rightarrow> nat \<Rightarrow> (nat \<Rightarrow> 'c) \<Rightarrow> nat \<Rightarrow> 'c" where
  "restore_checkpoint api cp a h = (case cp of Custom k \<Rightarrow> restore_trim_checkpoint api k a h | Attributes state \<Rightarrow> h(a := state))"

definition logical_size :: "('c, 'k) cache_api \<Rightarrow> nat \<Rightarrow> (nat \<Rightarrow> 'c) \<Rightarrow> int option" where
  "logical_size api a h =
     (case (case size_of api a h of Some v \<Rightarrow> v | None \<Rightarrow> offset_of api a h) of
        PyNone \<Rightarrow> None | PyInt i \<Rightarrow> Some i | PyOther \<Rightarrow> None)"

section \<open>Admission\<close>

definition leaf_can_trim :: "('c, 'k) cache_api \<Rightarrow> int \<Rightarrow> nat \<Rightarrow> (nat \<Rightarrow> 'c) \<Rightarrow> bool" where
  "leaf_can_trim api n a h =
     (case can_trim_of api a h of
        Some check \<Rightarrow> check n
      | None \<Rightarrow>
          (if (case can_undo_of api a h of Some undo \<Rightarrow> undo n | None \<Rightarrow> False) then True
           else if \<not> (case is_trimmable_of api a h of Some b \<Rightarrow> b | None \<Rightarrow> False) then False
           else (case logical_size api a h of None \<Rightarrow> False | Some sz \<Rightarrow> n \<le> sz)))"

fun can_trim :: "('c, 'k) cache_api \<Rightarrow> (nat \<Rightarrow> 'c) \<Rightarrow> int \<Rightarrow> cache_ref \<Rightarrow> bool" where
  "can_trim api h n (Leaf_cache a) = (if n < 0 then False else leaf_can_trim api n a h)"
| "can_trim api h n (Composite_cache a children) =
     (if n < 0 then False else list_all (can_trim api h n) children)"

definition leaf_has_room :: "('c, 'k) cache_api \<Rightarrow> int \<Rightarrow> nat \<Rightarrow> (nat \<Rightarrow> 'c) \<Rightarrow> bool" where
  "leaf_has_room api n a h =
     (case (max_size_of api a h, size_of api a h) of
        (PyNone, _) \<Rightarrow> True
      | (_, None) \<Rightarrow> True
      | (PyInt cap, Some (PyInt sz)) \<Rightarrow> \<not> cap \<le> sz + n + 1
      | _ \<Rightarrow> False)"

definition can_advance :: "('c, 'k) cache_api \<Rightarrow> (nat \<Rightarrow> 'c) \<Rightarrow> int \<Rightarrow> cache_ref \<Rightarrow> bool" where
  "can_advance api h n cache =
     (case can_advance_of api (cache_address cache) h of
        Some check \<Rightarrow> check n
      | None \<Rightarrow> if \<not> can_trim api h n cache then False
          else list_all (\<lambda>a. leaf_has_room api n a h) (leaf_caches cache))"

section \<open>The transaction\<close>

text \<open>One leaf of the loop: whether it raised, and the heap.\<close>

definition trim_leaf :: "('c, 'k) cache_api \<Rightarrow> int \<Rightarrow> nat \<Rightarrow> (nat \<Rightarrow> 'c) \<Rightarrow> (py_error + unit) \<times> (nat \<Rightarrow> 'c)" where
  "trim_leaf api n a h =
     (let before = logical_size api a h; (r, h1) = trim_of api n a h
      in case r of
           Inl e \<Rightarrow> (Inl e, h1)
         | Inr None \<Rightarrow> (if before = None \<or> logical_size api a h1 \<noteq> map_option (\<lambda>b. b - n) before then (Inl RuntimeError, h1)
                         else (Inr (), h1))
         | Inr (Some result) \<Rightarrow> (if result \<noteq> n then (Inl RuntimeError, h1) else (Inr (), h1)))"

fun trim_leaves :: "('c, 'k) cache_api \<Rightarrow> int \<Rightarrow> nat list \<Rightarrow> (nat \<Rightarrow> 'c) \<Rightarrow> (py_error + unit) \<times> (nat \<Rightarrow> 'c)" where
  "trim_leaves api n [] h = (Inr (), h)"
| "trim_leaves api n (a # leaves) h =
     (case trim_leaf api n a h of (Inl e, h1) \<Rightarrow> (Inl e, h1) | (Inr _, h1) \<Rightarrow> trim_leaves api n leaves h1)"

text \<open>\<open>for cache, checkpoint in reversed(checkpoints): _restore(cache, checkpoint)\<close>.\<close>

fun restore_leaves :: "('c, 'k) cache_api \<Rightarrow> (nat \<times> ('c, 'k) checkpoint) list \<Rightarrow> (nat \<Rightarrow> 'c) \<Rightarrow> nat \<Rightarrow> 'c" where
  "restore_leaves api [] h = h"
| "restore_leaves api ((a, cp) # cps) h = restore_leaves api cps (restore_checkpoint api cp a h)"

definition trim_all :: "('c, 'k) cache_api \<Rightarrow> cache_ref list \<Rightarrow> int \<Rightarrow> (nat \<Rightarrow> 'c) \<Rightarrow> bool \<times> (nat \<Rightarrow> 'c)" where
  "trim_all api caches n h =
     (if n \<le> 0 then (n = 0, h)
      else let leaves = concat (map leaf_caches caches) in
        if \<not> list_all (\<lambda>a. can_trim api h n (Leaf_cache a)) leaves then (False, h)
        else let checkpoints = map (\<lambda>a. (a, take_checkpoint api a h)) leaves in
          case trim_leaves api n leaves h of
            (Inl _, h1) \<Rightarrow> (False, restore_leaves api (rev checkpoints) h1)
          | (Inr _, h1) \<Rightarrow> (True, h1))"

section \<open>The contract of the cache classes\<close>

text \<open>
  \<open>view a h\<close> is the state of the cache at \<open>a\<close> that its users can tell apart, with the arrays it refers to. In the heaps
  \<open>valid\<close>, which trimming and restoring keep, the leaves and the other objects of interest share no state: trimming or restoring
  one does not show in another. What a leaf answers and does is a matter of its own state. And the checkpoint taken of it,
  restored while it is as it was or as its \<open>trim\<close> left it, even by raising, gives back the state captured. It need not undo
  anything else.
\<close>

definition rollback_law :: "('c, 'k) cache_api \<Rightarrow> int \<Rightarrow> ((nat \<Rightarrow> 'c) \<Rightarrow> bool) \<Rightarrow> (nat \<Rightarrow> (nat \<Rightarrow> 'c) \<Rightarrow> 'v) \<Rightarrow> nat set \<Rightarrow> nat set \<Rightarrow> bool" where
  "rollback_law api n valid view leaves others \<longleftrightarrow> (\<forall>a\<in>leaves. \<forall>h g. valid h \<longrightarrow> valid g \<longrightarrow>
     valid (snd (trim_of api n a h)) \<and> valid (restore_checkpoint api (take_checkpoint api a h) a g) \<and>
     (\<forall>b\<in>leaves \<union> others. b \<noteq> a \<longrightarrow> view b (snd (trim_of api n a h)) = view b h \<and>
        view b (restore_checkpoint api (take_checkpoint api a h) a g) = view b g) \<and>
     (view a g = view a h \<longrightarrow> leaf_can_trim api n a g = leaf_can_trim api n a h \<and> logical_size api a g = logical_size api a h \<and>
        fst (trim_of api n a g) = fst (trim_of api n a h) \<and> view a (snd (trim_of api n a g)) = view a (snd (trim_of api n a h))) \<and>
     (view a g = view a h \<or> view a g = view a (snd (trim_of api n a h)) \<longrightarrow>
        view a (restore_checkpoint api (take_checkpoint api a h) a g) = view a h))"

text \<open>A leaf is trimmed by \<open>n\<close>: its \<open>trim\<close> returns \<open>n\<close>, or nothing with the cursor \<open>n\<close> lower.\<close>

definition trims :: "('c, 'k) cache_api \<Rightarrow> int \<Rightarrow> nat \<Rightarrow> (nat \<Rightarrow> 'c) \<Rightarrow> bool" where
  "trims api n a h \<longleftrightarrow> (case trim_of api n a h of
      (Inl e, _) \<Rightarrow> False
    | (Inr (Some i), _) \<Rightarrow> i = n
    | (Inr None, h1) \<Rightarrow> \<exists>s. logical_size api a h = Some s \<and> logical_size api a h1 = Some (s - n))"

lemma trim_leaf_outcome:
  "trim_leaf api n a h = (r, h1) \<Longrightarrow> h1 = snd (trim_of api n a h) \<and> (\<forall>u. r = Inr u \<longrightarrow> trims api n a h)"
  by (auto simp: trim_leaf_def trims_def Let_def split: sum.splits option.splits prod.splits if_splits)

lemma trims_leaf: "trims api n a h \<Longrightarrow> trim_leaf api n a h = (Inr (), snd (trim_of api n a h))"
  by (auto simp: trim_leaf_def trims_def Let_def split: sum.splits option.splits prod.splits)

text \<open>The default checkpoint fulfils its part for caches whose \<open>trim\<close> assigns to their own attributes only.\<close>

lemma attributes_rollback_law:
  assumes "\<And>a h. a \<in> leaves \<Longrightarrow> trim_checkpoint_of api a h = None"
    and "\<And>a h. a \<in> leaves \<Longrightarrow> \<exists>c. snd (trim_of api n a h) = h(a := c)"
    and "\<And>a h g. a \<in> leaves \<Longrightarrow> g a = h a \<Longrightarrow> leaf_can_trim api n a g = leaf_can_trim api n a h \<and>
      logical_size api a g = logical_size api a h \<and> fst (trim_of api n a g) = fst (trim_of api n a h) \<and>
      snd (trim_of api n a g) a = snd (trim_of api n a h) a"
  shows "rollback_law api n (\<lambda>h. True) (\<lambda>a h. h a) leaves others"
  unfolding rollback_law_def
proof (intro ballI allI impI)
  fix a h g
  assume a: "a \<in> leaves"
  have r: "restore_checkpoint api (take_checkpoint api a h) a g = g(a := h a)"
    using assms(1) [OF a] by (simp add: take_checkpoint_def restore_checkpoint_def)
  have "snd (trim_of api n a h) b = h b" if "b \<noteq> a" for b using assms(2) [OF a, of h] that by auto
  then have "\<forall>b\<in>leaves \<union> others. b \<noteq> a \<longrightarrow> snd (trim_of api n a h) b = h b \<and>
      restore_checkpoint api (take_checkpoint api a h) a g b = g b" unfolding r by simp
  moreover have "restore_checkpoint api (take_checkpoint api a h) a g a = h a" unfolding r by simp
  ultimately show "True \<and> True \<and> (\<forall>b\<in>leaves \<union> others. b \<noteq> a \<longrightarrow> snd (trim_of api n a h) b = h b \<and>
        restore_checkpoint api (take_checkpoint api a h) a g b = g b) \<and>
     (g a = h a \<longrightarrow> leaf_can_trim api n a g = leaf_can_trim api n a h \<and> logical_size api a g = logical_size api a h \<and>
        fst (trim_of api n a g) = fst (trim_of api n a h) \<and> snd (trim_of api n a g) a = snd (trim_of api n a h) a) \<and>
     (g a = h a \<or> g a = snd (trim_of api n a h) a \<longrightarrow> restore_checkpoint api (take_checkpoint api a h) a g a = h a)"
    using assms(3) [OF a] by blast
qed

section \<open>Rollback\<close>

lemma rollback_lawD:
  assumes "rollback_law api n valid view leaves others" and "a \<in> leaves" and "valid h" and "valid g"
  shows "valid (snd (trim_of api n a h))" "valid (restore_checkpoint api (take_checkpoint api a h) a g)"
    "b \<in> leaves \<union> others \<Longrightarrow> b \<noteq> a \<Longrightarrow> view b (snd (trim_of api n a h)) = view b h"
    "b \<in> leaves \<union> others \<Longrightarrow> b \<noteq> a \<Longrightarrow> view b (restore_checkpoint api (take_checkpoint api a h) a g) = view b g"
    "view a g = view a h \<Longrightarrow> leaf_can_trim api n a g = leaf_can_trim api n a h \<and> logical_size api a g = logical_size api a h"
    "view a g = view a h \<Longrightarrow> fst (trim_of api n a g) = fst (trim_of api n a h) \<and>
       view a (snd (trim_of api n a g)) = view a (snd (trim_of api n a h))"
    "view a g = view a h \<or> view a g = view a (snd (trim_of api n a h)) \<Longrightarrow>
       view a (restore_checkpoint api (take_checkpoint api a h) a g) = view a h"
  using assms unfolding rollback_law_def by blast+

lemma trims_own:
  assumes law: "rollback_law api n valid view leaves others" and a: "a \<in> leaves" and w: "valid h" "valid g" and v: "view a g = view a h"
  shows "trims api n a g = trims api n a h"
proof -
  note t = rollback_lawD(6) [OF law a w v]
  have "logical_size api a g = logical_size api a h" using rollback_lawD(5) [OF law a w v] by blast
  moreover have "logical_size api a (snd (trim_of api n a g)) = logical_size api a (snd (trim_of api n a h))"
    using rollback_lawD(5) [OF law a rollback_lawD(1) [OF law a w(1,1)] rollback_lawD(1) [OF law a w(2,2)]] t by blast
  ultimately show ?thesis using t by (auto simp: trims_def split: prod.splits sum.splits option.splits)
qed

lemma trim_leaves_views:
  assumes law: "rollback_law api n valid view leaves others" and w: "valid h"
  shows "set xs \<subseteq> leaves \<Longrightarrow> distinct xs \<Longrightarrow> \<forall>a\<in>set xs. view a g = view a h \<Longrightarrow> trim_leaves api n xs g = (r, h1) \<Longrightarrow> valid g \<Longrightarrow>
    valid h1 \<and> (\<forall>b\<in>leaves \<union> others. b \<notin> set xs \<longrightarrow> view b h1 = view b g) \<and>
    (\<forall>a\<in>set xs. view a h1 = view a h \<or> view a h1 = view a (snd (trim_of api n a h))) \<and>
    (\<forall>u. r = Inr u \<longrightarrow> (\<forall>a\<in>set xs. trims api n a h \<and> view a h1 = view a (snd (trim_of api n a h)))) \<and>
    ((\<forall>a\<in>set xs. trims api n a h) \<longrightarrow> (\<exists>u. r = Inr u))"
proof (induction xs arbitrary: g)
  case Nil
  then show ?case by auto
next
  case (Cons a xs)
  have a: "a \<in> leaves" "a \<notin> set xs" "view a g = view a h" using Cons.prems by simp_all
  note wg = Cons.prems(5)
  define g1 where "g1 = snd (trim_of api n a g)"
  have w1: "valid g1" using rollback_lawD(1) [OF law a(1) wg wg] by (simp add: g1_def)
  obtain q where q: "trim_leaf api n a g = (q, g1)" using trim_leaf_outcome by (metis g1_def prod.collapse)
  have va: "view a g1 = view a (snd (trim_of api n a h))" using rollback_lawD(6) [OF law a(1) w wg a(3)] by (simp add: g1_def)
  have vb: "view b g1 = view b g" if "b \<in> leaves \<union> others" "b \<noteq> a" for b
    using rollback_lawD(3) [OF law a(1) wg wg that] by (simp add: g1_def)
  have tr: "trims api n a g = trims api n a h" by (rule trims_own [OF law a(1) w wg a(3)])
  show ?case
  proof (cases q)
    case (Inl e)
    then have r: "r = Inl e" "h1 = g1" using Cons.prems(4) q by simp_all
    have "\<not> trims api n a h" using trims_leaf [of api n a g] q Inl tr by auto
    moreover have "view b g1 = view b h" if "b \<in> set xs" for b using vb [of b] that Cons.prems(1,3) a(2) by auto
    ultimately show ?thesis using r va vb w1 by auto
  next
    case (Inr u)
    then have rest: "trim_leaves api n xs g1 = (r, h1)" using Cons.prems(4) q by simp
    have t: "trims api n a h" using trim_leaf_outcome [OF q] Inr tr by simp
    have "\<forall>b\<in>set xs. view b g1 = view b h"
    proof
      fix b assume "b \<in> set xs"
      then show "view b g1 = view b h" using vb [of b] Cons.prems(1,3) a(2) by auto
    qed
    note ih = Cons.IH [OF _ _ this rest w1]
    have "view a h1 = view a g1" using ih Cons.prems(1,2) a by auto
    then show ?thesis using ih Cons.prems(1,2) a t va vb by auto
  qed
qed

lemma restore_leaves_views:
  assumes law: "rollback_law api n valid view leaves others" and w: "valid h"
  shows "set xs \<subseteq> leaves \<Longrightarrow> distinct xs \<Longrightarrow> valid g \<Longrightarrow>
    \<forall>a\<in>set xs. view a g = view a h \<or> view a g = view a (snd (trim_of api n a h)) \<Longrightarrow>
    (\<forall>a\<in>set xs. view a (restore_leaves api (map (\<lambda>a. (a, take_checkpoint api a h)) xs) g) = view a h) \<and>
    (\<forall>b\<in>leaves \<union> others. b \<notin> set xs \<longrightarrow> view b (restore_leaves api (map (\<lambda>a. (a, take_checkpoint api a h)) xs) g) = view b g)"
proof (induction xs arbitrary: g)
  case (Cons a xs)
  have a: "a \<in> leaves" "a \<notin> set xs" using Cons.prems by simp_all
  define g1 where "g1 = restore_checkpoint api (take_checkpoint api a h) a g"
  have w1: "valid g1" using rollback_lawD(2) [OF law a(1) w Cons.prems(3)] by (simp add: g1_def)
  have va: "view a g1 = view a h" using rollback_lawD(7) [OF law a(1) w Cons.prems(3)] Cons.prems(4) by (simp add: g1_def)
  have vb: "view b g1 = view b g" if "b \<in> leaves \<union> others" "b \<noteq> a" for b
    using rollback_lawD(4) [OF law a(1) w Cons.prems(3) that] by (simp add: g1_def)
  have "\<forall>b\<in>set xs. view b g1 = view b h \<or> view b g1 = view b (snd (trim_of api n b h))"
  proof
    fix b assume b: "b \<in> set xs"
    then have "b \<noteq> a" "b \<in> leaves \<union> others" using Cons.prems(1) a(2) by auto
    then show "view b g1 = view b h \<or> view b g1 = view b (snd (trim_of api n b h))" using vb [of b] Cons.prems(4) b by simp
  qed
  note ih = Cons.IH [OF _ _ w1 this]
  show ?case using ih Cons.prems(1,2) a va vb by (auto simp: g1_def [symmetric])
qed simp

text \<open>Leaves that are trimmed one after the other: every one of them does what it is asked.\<close>

fun trims_along :: "('c, 'k) cache_api \<Rightarrow> int \<Rightarrow> nat list \<Rightarrow> (nat \<Rightarrow> 'c) \<Rightarrow> bool" where
  "trims_along api n [] h \<longleftrightarrow> True"
| "trims_along api n (a # leaves) h \<longleftrightarrow> trims api n a h \<and> trims_along api n leaves (snd (trim_of api n a h))"

abbreviation trimmed_heap :: "('c, 'k) cache_api \<Rightarrow> int \<Rightarrow> nat list \<Rightarrow> (nat \<Rightarrow> 'c) \<Rightarrow> nat \<Rightarrow> 'c" where
  "trimmed_heap api n leaves h \<equiv> fold (\<lambda>a h. snd (trim_of api n a h)) leaves h"

lemma trim_leaves_along: "trims_along api n leaves h \<Longrightarrow> trim_leaves api n leaves h = (Inr (), trimmed_heap api n leaves h)"
  by (induction leaves arbitrary: h) (simp_all add: trims_leaf)

lemma trim_all_along:
  assumes "0 < n" and "leaves = concat (map leaf_caches caches)" and "\<forall>a\<in>set leaves. leaf_can_trim api n a h"
    and "trims_along api n leaves h"
  shows "trim_all api caches n h = (True, trimmed_heap api n leaves h)"
  using assms(1,3) trim_leaves_along [OF assms(4)] by (simp add: trim_all_def assms(2) [symmetric] list_all_iff)

section \<open>Claims\<close>

text \<open>
  C37. \<^bold>\<open>Trimming is atomic\<close> for caches that share no state, each listed once, whose checkpoints keep the contract:
  \<open>trim_all\<close> either refuses, and then the state of every leaf and of every other object is as it was, whatever the \<open>trim\<close>
  methods did before one failed, or succeeds, and then each leaf was admitted and is trimmed by exactly \<open>n\<close> and no other
  object changed. When the classes keep the promise of their admission tests, it succeeds exactly when all leaves are
  admitted.
\<close>

theorem trim_all_atomic:
  assumes law: "rollback_law api n valid view (set leaves) others" and w: "valid h" and "0 < n"
    and "leaves = concat (map leaf_caches caches)" and d: "distinct leaves" and t: "trim_all api caches n h = (ok, h')"
  shows "(if ok
     then (\<forall>a\<in>set leaves. leaf_can_trim api n a h \<and> trims api n a h \<and> view a h' = view a (snd (trim_of api n a h))) \<and>
       (\<forall>b\<in>others - set leaves. view b h' = view b h)
     else (\<forall>b\<in>set leaves \<union> others. view b h' = view b h)) \<and>
    ((\<forall>a\<in>set leaves. leaf_can_trim api n a h \<longrightarrow> trims api n a h) \<longrightarrow> ok = (\<forall>a\<in>set leaves. leaf_can_trim api n a h))"
proof (cases "\<forall>a\<in>set leaves. leaf_can_trim api n a h")
  case False
  then show ?thesis using assms by (auto simp: trim_all_def list_all_iff split: if_splits)
next
  case True
  obtain r h1 where tl: "trim_leaves api n leaves h = (r, h1)" by fastforce
  note v = trim_leaves_views [OF law w order_refl d _ tl w, simplified]
  define h2 where "h2 = restore_leaves api (map (\<lambda>a. (a, take_checkpoint api a h)) (rev leaves)) h1"
  have res: "(ok, h') = (case r of Inl _ \<Rightarrow> (False, h2) | Inr _ \<Rightarrow> (True, h1))"
    using t True assms(3) tl by (simp add: trim_all_def assms(4) [symmetric] list_all_iff h2_def rev_map split: sum.splits)
  have "\<forall>b\<in>set leaves \<union> others. view b h2 = view b h"
    using restore_leaves_views [OF law w, of "rev leaves" h1] v d unfolding h2_def by auto
  then show ?thesis using res v True by (cases r) auto
qed

text \<open>
  A concrete class with the default checkpoint: a cursor that is trimmed down to zero at most, and whose \<open>trim\<close> fails half
  way at 7.
\<close>

definition cursor_api :: "(int, int) cache_api" where
  "cursor_api = \<lparr>trim_checkpoint_of = (\<lambda>a h. None), restore_trim_checkpoint = (\<lambda>k a h. h), size_of = (\<lambda>a h. Some (PyInt (h a))),
     offset_of = (\<lambda>a h. PyNone), can_trim_of = (\<lambda>a h. None), can_undo_of = (\<lambda>a h. None), is_trimmable_of = (\<lambda>a h. Some True),
     can_advance_of = (\<lambda>a h. None), max_size_of = (\<lambda>a h. PyNone),
     trim_of = (\<lambda>n a h. if h a = 7 then (Inl RuntimeError, h(a := 0)) else (Inr (Some n), h(a := h a - n)))\<rparr>"

lemma cursor_law: "rollback_law cursor_api n (\<lambda>h. True) (\<lambda>a h. h a) leaves others"
  by (rule attributes_rollback_law) (auto simp: cursor_api_def leaf_can_trim_def logical_size_def)

theorem trim_all_atomic_witness:
  "\<not> fst (trim_all cursor_api [Composite_cache 9 [Leaf_cache 0, Leaf_cache 1]] 2 (\<lambda>a. if a = 1 then 7 else 5)) \<and>
   (\<forall>a. snd (trim_all cursor_api [Composite_cache 9 [Leaf_cache 0, Leaf_cache 1]] 2 (\<lambda>a. if a = 1 then 7 else 5)) a = (if a = 1 then 7 else 5)) \<and>
   fst (trim_all cursor_api [Composite_cache 9 [Leaf_cache 0, Leaf_cache 1]] 2 (\<lambda>a. 5)) \<and>
   snd (trim_all cursor_api [Composite_cache 9 [Leaf_cache 0, Leaf_cache 1]] 2 (\<lambda>a. 5)) 1 = 3"
proof -
  let ?cs = "[Composite_cache 9 [Leaf_cache 0, Leaf_cache 1]]" and ?h = "\<lambda>a::nat. if a = 1 then 7 else 5 :: int"
  have 1: "\<not> fst (trim_all cursor_api ?cs 2 ?h)" "fst (trim_all cursor_api ?cs 2 (\<lambda>a. 5))"
    by (simp_all add: trim_all_def cursor_api_def trim_leaf_def leaf_can_trim_def logical_size_def Let_def)
  have p: "trim_all cursor_api ?cs 2 g = (fst (trim_all cursor_api ?cs 2 g), snd (trim_all cursor_api ?cs 2 g))" for g by simp
  have d: "[0, 1] = concat (map leaf_caches ?cs)" "distinct [0, 1::nat]" "(0::int) < 2" by simp_all
  note a = trim_all_atomic [OF cursor_law [of 2 "set [0, 1]" UNIV] TrueI d(3,1,2) p]
  have "\<forall>a. snd (trim_all cursor_api ?cs 2 ?h) a = ?h a" using a [of ?h] 1(1) by auto
  moreover have "snd (trim_all cursor_api ?cs 2 (\<lambda>a. 5)) 1 = 3" using a [of "\<lambda>a. 5"] 1(2) by (simp add: cursor_api_def)
  ultimately show ?thesis using 1 by blast
qed

text \<open>
  \<^bold>\<open>An update in place survives the refusal.\<close> The default checkpoint keeps references to arrays and undoes assignments to
  attributes only. When the \<open>trim\<close> of one cache updates an array it refers to in place, as the vendored \<open>BatchKVCache\<close> does
  with \<open>self.offset -= n\<close>, and the \<open>trim\<close> of a later cache raises, \<open>trim_all\<close> refuses but the array keeps the update.
\<close>

theorem inplace_trim_survives_refusal:
  assumes "0 < n" and "a \<noteq> b" and "x \<notin> {a, b}"
    and "leaf_can_trim api n a h" "leaf_can_trim api n b h" "trim_checkpoint_of api a h = None" "trim_checkpoint_of api b h = None"
    and "trim_of api n a h = (Inr (Some n), h1)" and "h1 x \<noteq> h x" and "trim_of api n b h1 = (Inl e, h2)" and "h2 x = h1 x"
  shows "\<exists>h'. trim_all api [Leaf_cache a, Leaf_cache b] n h = (False, h') \<and> h' a = h a \<and> h' b = h b \<and> h' x \<noteq> h x"
  using assms by (simp add: trim_all_def trim_leaf_def take_checkpoint_def restore_checkpoint_def Let_def)

text \<open>Two caches of one row: their cursor, the address of their offset array, and whether the trim fails.\<close>

datatype batch_object = Batch_kv int nat bool | Offset_array int

definition batch_api :: "(batch_object, unit) cache_api" where
  "batch_api = \<lparr>trim_checkpoint_of = (\<lambda>a h. None), restore_trim_checkpoint = (\<lambda>k a h. h), size_of = (\<lambda>a h. None),
     offset_of = (\<lambda>a h. case h a of Batch_kv i x f \<Rightarrow> (case h x of Offset_array j \<Rightarrow> PyInt j | _ \<Rightarrow> PyOther) | _ \<Rightarrow> PyNone),
     can_trim_of = (\<lambda>a h. None), can_undo_of = (\<lambda>a h. None), is_trimmable_of = (\<lambda>a h. Some True),
     can_advance_of = (\<lambda>a h. None), max_size_of = (\<lambda>a h. PyNone),
     trim_of = (\<lambda>n a h. case h a of
         Batch_kv i x f \<Rightarrow>
           if f then (Inl RuntimeError, h)
           else (Inr (Some n), h(a := Batch_kv (i - n) x f, x := (case h x of Offset_array j \<Rightarrow> Offset_array (j - n) | y \<Rightarrow> y)))
       | _ \<Rightarrow> (Inl AttributeError, h))\<rparr>"

definition batch_heap :: "nat \<Rightarrow> batch_object" where
  "batch_heap a = (if a = 0 then Batch_kv 5 2 False else if a = 1 then Batch_kv 5 3 True else Offset_array 5)"

lemma inplace_trim_survives_refusal_witness:
  "\<exists>h'. trim_all batch_api [Leaf_cache 0, Leaf_cache 1] 2 batch_heap = (False, h') \<and> h' 0 = Batch_kv 5 2 False \<and> h' 2 \<noteq> Offset_array 5"
proof -
  have l: "leaf_can_trim batch_api 2 0 batch_heap" "leaf_can_trim batch_api 2 1 batch_heap"
    by (simp_all add: leaf_can_trim_def logical_size_def batch_api_def batch_heap_def)
  have c: "trim_checkpoint_of batch_api a h = None" for a h by (simp add: batch_api_def)
  have t: "trim_of batch_api 2 0 batch_heap = (Inr (Some 2), batch_heap(0 := Batch_kv 3 2 False, 2 := Offset_array 3))"
    by (simp add: batch_api_def batch_heap_def)
  have e: "trim_of batch_api 2 1 (batch_heap(0 := Batch_kv 3 2 False, 2 := Offset_array 3)) =
      (Inl RuntimeError, batch_heap(0 := Batch_kv 3 2 False, 2 := Offset_array 3))"
    by (simp add: batch_api_def batch_heap_def)
  have v: "batch_heap 0 = Batch_kv 5 2 False" "batch_heap 2 = Offset_array 5" by (simp_all add: batch_heap_def)
  have "\<exists>h'. trim_all batch_api [Leaf_cache 0, Leaf_cache 1] 2 batch_heap = (False, h') \<and>
      h' 0 = batch_heap 0 \<and> h' 1 = batch_heap 1 \<and> h' 2 \<noteq> batch_heap 2"
    by (rule inplace_trim_survives_refusal [OF _ _ _ l c c t _ e]) (simp_all add: v)
  then show ?thesis unfolding v by blast
qed

end
