(* ===== verification/SuffixVerify.thy ===== *)
theory SuffixVerify
  imports SuffixDecoding SuffixCounter CacheRollback "HOL-Library.AList"
begin

text \<open>
  \<^bold>\<open>rapid_mlx/scheduler.py, \<open>_install_suffix_decoding\<close>.\<close> The speculative step and the wrapped \<open>next\<close> and \<open>remove\<close> that
  the scheduler installs on mlx-lm's \<open>GenerationBatch\<close>: greedy verification of a draft from the suffix index, rollback
  of the rejected tokens, the draining of the accepted ones, the adaptive draft width and the backoff. mlx-lm is a
  parameter: the original step, next and remove, the model's forward with its argmax rows, the stop matcher, cache
  extraction and row filtering. Log probabilities, which are tensors carried along, are left out, and so are log lines.
  The unread arrays of the queue are the tokens they hold.
\<close>

section \<open>State\<close>

record ('c, 'm) gen_batch =
  next_tokens :: "int list option"
  uids :: "nat list"
  row_tokens :: "int list list"
  num_tokens :: "int list"
  max_tokens :: "int list"
  matcher_states :: "'m list"
  logits_processors :: "bool list option"
  prompt_cache :: "cache_ref list"
  cache_heap :: "nat \<Rightarrow> 'c"

record uid_state =
  cooldown :: int
  level :: int
  zeros :: int
  draft_width :: int
  queued :: "int list"

record suffix_stats =
  st_verify_steps :: int
  st_fallthrough_steps :: int
  st_proposed :: int
  st_accepted :: int
  st_errors :: int
  st_ft :: "string \<Rightarrow> int"
  st_cooldown_trips :: int
  st_cooldown_level :: int
  st_k_current :: int

record ('c, 'm) suffix_run =
  gb :: "('c, 'm) gen_batch"
  drafters :: "(nat \<times> drafter) list"
  pending_emits :: "(nat \<times> int list) list"
  uid_states :: "(nat \<times> uid_state) list"
  run_stats :: suffix_stats
  counter :: accept_counter

datatype finish = Finish_stop | Finish_length

record 'x response =
  resp_uid :: nat
  resp_token :: int
  resp_finish :: "finish option"
  resp_cache :: "'x option"
  resp_tokens :: "int list option"

text \<open>
  The configuration and the code that is not under src/. A request is its prompt and its temperature, where it has
  sampling parameters.
\<close>

record ('c, 'k, 'm, 'x) suffix_env =
  max_draft :: int
  suffix_len :: int
  confidence_floor :: rat
  min_draft_len :: int
  request_of :: "nat \<Rightarrow> (int list \<times> rat option option) option"
  api :: "('c, 'k) cache_api"
  orig_step :: "('c, 'm) gen_batch \<Rightarrow> (py_error + int list) \<times> ('c, 'm) gen_batch"
  model_forward :: "int list \<Rightarrow> cache_ref list \<Rightarrow> (nat \<Rightarrow> 'c) \<Rightarrow> (py_error + int list) \<times> (nat \<Rightarrow> 'c)"
  stop_match :: "'m \<Rightarrow> int \<Rightarrow> py_error + 'm \<times> bool \<times> bool"
  extract_cache :: "nat \<Rightarrow> ('c, 'm) gen_batch \<Rightarrow> 'x"
  filter_rows :: "nat list \<Rightarrow> ('c, 'm) gen_batch \<Rightarrow> ('c, 'm) gen_batch"

definition COOLDOWN_TRIGGER :: int where "COOLDOWN_TRIGGER = 3"
definition COOLDOWN_BASE :: int where "COOLDOWN_BASE = 10"
definition COOLDOWN_MAX :: int where "COOLDOWN_MAX = 320"
definition BACKOFF_DECAY_MIN_ACCEPT :: int where "BACKOFF_DECAY_MIN_ACCEPT = 2"

definition K_MIN :: "('c, 'k, 'm, 'x) suffix_env \<Rightarrow> int" where
  "K_MIN env = min (max 2 (min_draft_len env)) (max_draft env)"

section \<open>Per-request state\<close>

definition reset_state_gauges_if_idle :: "('c, 'k, 'm, 'x) suffix_env \<Rightarrow> ('c, 'm) suffix_run \<Rightarrow> ('c, 'm) suffix_run" where
  "reset_state_gauges_if_idle env s = (if uid_states s = [] then s\<lparr>counter := set_state (K_MIN env) 0 (counter s)\<rparr> else s)"

definition reap_uid :: "nat \<Rightarrow> ('c, 'm) suffix_run \<Rightarrow> ('c, 'm) suffix_run" where
  "reap_uid uid s = s\<lparr>pending_emits := AList.delete uid (pending_emits s), drafters := AList.delete uid (drafters s),
     uid_states := AList.delete uid (uid_states s)\<rparr>"

definition state_for :: "('c, 'k, 'm, 'x) suffix_env \<Rightarrow> nat \<Rightarrow> ('c, 'm) suffix_run \<Rightarrow> uid_state \<times> ('c, 'm) suffix_run" where
  "state_for env uid s =
     (case map_of (uid_states s) uid of
        Some st \<Rightarrow> (st, s)
      | None \<Rightarrow> (let st = \<lparr>cooldown = 0, level = 0, zeros = 0, draft_width = K_MIN env, queued = []\<rparr>
          in (st, s\<lparr>uid_states := AList.update uid st (uid_states s), counter := set_state (K_MIN env) 0 (counter s)\<rparr>)))"

definition set_uid_state :: "nat \<Rightarrow> uid_state \<Rightarrow> ('c, 'm) suffix_run \<Rightarrow> ('c, 'm) suffix_run" where
  "set_uid_state uid st s = s\<lparr>uid_states := AList.update uid st (uid_states s)\<rparr>"

definition is_greedy_for_uid :: "('c, 'k, 'm, 'x) suffix_env \<Rightarrow> nat \<Rightarrow> bool" where
  "is_greedy_for_uid env uid =
     (case request_of env uid of
        None \<Rightarrow> True
      | Some (_, None) \<Rightarrow> True
      | Some (_, Some temperature) \<Rightarrow> temperature = None \<or> temperature = Some 0)"

definition drafter_for :: "('c, 'k, 'm, 'x) suffix_env \<Rightarrow> nat \<Rightarrow> ('c, 'm) suffix_run \<Rightarrow>
    (py_error + drafter) \<times> ('c, 'm) suffix_run" where
  "drafter_for env uid s =
     (case map_of (drafters s) uid of
        Some d \<Rightarrow> (Inr d, s)
      | None \<Rightarrow>
          (let prompt_ids = (case request_of env uid of Some (prompt, _) \<Rightarrow> prompt | None \<Rightarrow> [])
           in case drafter_init (max_draft env) (suffix_len env) (confidence_floor env) (Some 32000) of
                Inl e \<Rightarrow> (Inl e, s)
              | Inr d \<Rightarrow>
                  (let seen = (case row_tokens (gb s) of [] \<Rightarrow> [] | row # _ \<Rightarrow> row);
                       d1 = fold add_generated_token seen (add_prompt_tokens prompt_ids d)
                   in (Inr d1, s\<lparr>drafters := AList.update uid d1 (drafters s)\<rparr>))))"

section \<open>Accounting\<close>

definition fallthrough :: "string \<Rightarrow> ('c, 'm) suffix_run \<Rightarrow> ('c, 'm) suffix_run" where
  "fallthrough reason s = s\<lparr>run_stats := (run_stats s)
       \<lparr>st_fallthrough_steps := st_fallthrough_steps (run_stats s) + 1,
        st_ft := (st_ft (run_stats s))(reason := st_ft (run_stats s) reason + 1)\<rparr>,
     counter := record_fallthrough reason (counter s)\<rparr>"

definition verify_failed :: "int \<Rightarrow> ('c, 'm) suffix_run \<Rightarrow> ('c, 'm) suffix_run" where
  "verify_failed k s = s\<lparr>run_stats := (run_stats s)
       \<lparr>st_errors := st_errors (run_stats s) + 1, st_fallthrough_steps := st_fallthrough_steps (run_stats s) + 1,
        st_ft := (st_ft (run_stats s))(''error'' := st_ft (run_stats s) ''error'' + 1)\<rparr>,
     counter := record_error (record_verify k 0 (counter s))\<rparr>"

definition run_orig_step :: "('c, 'k, 'm, 'x) suffix_env \<Rightarrow> ('c, 'm) suffix_run \<Rightarrow> (py_error + int list) \<times> ('c, 'm) suffix_run" where
  "run_orig_step env s = (case orig_step env (gb s) of (r, g) \<Rightarrow> (r, s\<lparr>gb := g\<rparr>))"

section \<open>Width and backoff\<close>

fun accepted_count :: "int list \<Rightarrow> int list \<Rightarrow> nat" where
  "accepted_count (p # preds) (d # draft) = (if p = d then Suc (accepted_count preds draft) else 0)"
| "accepted_count _ _ = 0"

definition next_width :: "('c, 'k, 'm, 'x) suffix_env \<Rightarrow> int \<Rightarrow> int \<Rightarrow> int \<Rightarrow> int" where
  "next_width env n_accepted k width =
     (if k \<le> n_accepted then min (width * 2) (max_draft env)
      else max (K_MIN env) (min (n_accepted + 1) (max_draft env)))"

text \<open>The backoff transition after a verify; the level of a trip, if one happened.\<close>

definition backoff_update :: "int \<Rightarrow> int \<Rightarrow> uid_state \<Rightarrow> uid_state \<times> int option" where
  "backoff_update n_accepted k st =
     (if n_accepted = 0
      then let st1 = st\<lparr>zeros := zeros st + 1\<rparr>;
               trigger = (if level st1 = 0 then COOLDOWN_TRIGGER else 1)
        in if trigger \<le> zeros st1
           then let lvl = level st1 + 1
             in (st1\<lparr>level := lvl, cooldown := min (COOLDOWN_BASE * 2 ^ nat (lvl - 1)) COOLDOWN_MAX, zeros := 0\<rparr>, Some lvl)
           else (st1, None)
      else let st1 = st\<lparr>zeros := 0\<rparr>; decay_floor = min BACKOFF_DECAY_MIN_ACCEPT k
        in if level st1 \<noteq> 0 \<and> decay_floor \<le> n_accepted
           then (if k \<le> n_accepted * 2 then st1\<lparr>level := 0\<rparr> else st1\<lparr>level := level st1 - 1\<rparr>, None)
           else (st1, None))"

section \<open>The speculative step\<close>

text \<open>What a verified draft commits, after the rollback of its rejected tail.\<close>

definition commit_verified :: "nat \<Rightarrow> int \<Rightarrow> int list \<Rightarrow> int list \<Rightarrow> ('c, 'm) suffix_run \<Rightarrow> ('c, 'm) suffix_run" where
  "commit_verified uid last_token draft preds s =
     (let n = accepted_count preds draft;
          bonus = preds ! n;
          extra_tokens = take n draft;
          ds = (case map_of (drafters s) uid of None \<Rightarrow> drafters s
                | Some d \<Rightarrow> AList.update uid (record_acceptance (int n) (fold add_generated_token extra_tokens d)) (drafters s));
          g = gb s
      in s\<lparr>drafters := ds,
           run_stats := (run_stats s)\<lparr>st_accepted := st_accepted (run_stats s) + int n\<rparr>,
           counter := record_verify (int (length draft)) (int n) (counter s),
           gb := g\<lparr>next_tokens := Some [bonus], row_tokens := (row_tokens g)[0 := row_tokens g ! 0 @ [last_token]]\<rparr>,
           pending_emits := AList.update uid extra_tokens (pending_emits s)\<rparr>)"

text \<open>The width, the backoff, the statistics and the gauges after a verify that accepted \<open>n\<close> of \<open>k\<close> tokens.\<close>

definition record_verdict :: "('c, 'k, 'm, 'x) suffix_env \<Rightarrow> nat \<Rightarrow> int \<Rightarrow> int \<Rightarrow> uid_state \<Rightarrow> ('c, 'm) suffix_run \<Rightarrow> ('c, 'm) suffix_run" where
  "record_verdict env uid n k st s =
     (let width = next_width env n k (draft_width st);
          (st1, trip) = backoff_update n k (st\<lparr>draft_width := width\<rparr>);
          s1 = set_uid_state uid st1 s
      in s1\<lparr>run_stats := (run_stats s1)\<lparr>st_k_current := width,
              st_cooldown_trips := st_cooldown_trips (run_stats s1) + (if trip = None then 0 else 1),
              st_cooldown_level := (if trip = None \<and> level st1 = level st then st_cooldown_level (run_stats s1)
                                    else level st1)\<rparr>,
            counter := set_state width (level st1)
              (case trip of None \<Rightarrow> counter s1 | Some lvl \<Rightarrow> record_cooldown_trip lvl (counter s1))\<rparr>)"

definition verify_draft :: "('c, 'k, 'm, 'x) suffix_env \<Rightarrow> nat \<Rightarrow> int \<Rightarrow> int list \<Rightarrow> uid_state \<Rightarrow> ('c, 'm) suffix_run \<Rightarrow>
    (py_error + int list) \<times> ('c, 'm) suffix_run" where
  "verify_draft env uid last_token draft st s =
     (let k = int (length draft);
          s1 = s\<lparr>run_stats := (run_stats s)\<lparr>st_verify_steps := st_verify_steps (run_stats s) + 1,
                                             st_proposed := st_proposed (run_stats s) + k\<rparr>\<rparr>;
          (r, h) = model_forward env (last_token # draft) (prompt_cache (gb s1)) (cache_heap (gb s1));
          s2 = s1\<lparr>gb := (gb s1)\<lparr>cache_heap := h\<rparr>\<rparr>
      in case r of
           Inl e \<Rightarrow> run_orig_step env (verify_failed k s2)
         | Inr preds \<Rightarrow>
             (let n = int (accepted_count preds draft);
                  s3 = record_verdict env uid n k st s2;
                  n_rejected = k - n
              in if 0 < n_rejected
                 then (case trim_all (api env) (prompt_cache (gb s3)) n_rejected (cache_heap (gb s3)) of
                         (ok, h1) \<Rightarrow>
                           (let s4 = s3\<lparr>gb := (gb s3)\<lparr>cache_heap := h1\<rparr>\<rparr>
                            in if \<not> ok then (Inl RuntimeError, s4)
                               else (Inr [last_token], commit_verified uid last_token draft preds s4)))
                 else (Inr [last_token], commit_verified uid last_token draft preds s3)))"

text \<open>
  The code calls \<open>get_draft\<close> under an \<open>except\<close> that counts an error and falls through; the drafter of \<open>SuffixDecoding\<close>
  returns on every state, so that branch does not occur here.
\<close>

definition draft_step :: "('c, 'k, 'm, 'x) suffix_env \<Rightarrow> nat \<Rightarrow> int \<Rightarrow> drafter \<Rightarrow> uid_state \<Rightarrow> ('c, 'm) suffix_run \<Rightarrow>
    (py_error + int list) \<times> ('c, 'm) suffix_run" where
  "draft_step env uid last_token d st s =
     (let d1 = add_generated_token last_token (fold add_generated_token (queued st) d);
          st1 = st\<lparr>queued := []\<rparr>;
          (draft, d2) = get_draft (d1\<lparr>max_draft_tokens := draft_width st1\<rparr>);
          s1 = (set_uid_state uid st1 s)\<lparr>drafters := AList.update uid d2 (drafters s)\<rparr>
      in if draft = [] \<or> int (length draft) < min_draft_len env
         then run_orig_step env (fallthrough ''no_draft'' s1)
         else if \<not> list_all (can_advance (api env) (cache_heap (gb s1)) (int (length draft))) (prompt_cache (gb s1))
         then run_orig_step env (fallthrough ''non_trimmable_cache'' s1)
         else verify_draft env uid last_token draft st1 s1)"

definition suffix_step :: "('c, 'k, 'm, 'x) suffix_env \<Rightarrow> ('c, 'm) suffix_run \<Rightarrow> (py_error + int list) \<times> ('c, 'm) suffix_run" where
  "suffix_step env s =
     (case next_tokens (gb s) of
        None \<Rightarrow> run_orig_step env (fallthrough ''batch_size'' s)
      | Some inputs \<Rightarrow>
          (if length inputs \<noteq> 1 then run_orig_step env (fallthrough ''batch_size'' s)
           else if length (uids (gb s)) \<noteq> 1 then run_orig_step env (fallthrough ''uids_size'' s)
           else let uid = hd (uids (gb s)); last_token = hd inputs in
             if \<not> is_greedy_for_uid env uid then run_orig_step env (fallthrough ''non_greedy'' s)
             else if (case logits_processors (gb s) of None \<Rightarrow> False | Some lp \<Rightarrow> list_ex id lp)
             then run_orig_step env (fallthrough ''logits_processors'' s)
             else case drafter_for env uid s of
                 (Inl e, s1) \<Rightarrow> (Inl e, s1)
               | (Inr d, s1) \<Rightarrow>
                   (let (st, s2) = state_for env uid s1 in
                    if 0 < cooldown st
                    then run_orig_step env (fallthrough ''cooldown''
                           (set_uid_state uid (st\<lparr>cooldown := cooldown st - 1, queued := queued st @ [last_token]\<rparr>) s2))
                    else draft_step env uid last_token d st s2)))"

section \<open>Draining\<close>

text \<open>The bookkeeping of one more token of a row: count it, run the stop matcher, compare with the token limit.\<close>

definition account_token :: "('c, 'k, 'm, 'x) suffix_env \<Rightarrow> nat \<Rightarrow> int \<Rightarrow> ('c, 'm) gen_batch \<Rightarrow>
    finish option \<times> ('c, 'm) gen_batch" where
  "account_token env row tok g =
     (let g1 = g\<lparr>num_tokens := (num_tokens g)[row := num_tokens g ! row + 1]\<rparr>;
          (stopped, g2) = (case stop_match env (matcher_states g1 ! row) tok of
              Inl e \<Rightarrow> (False, g1)
            | Inr (m, matched, state_is_none) \<Rightarrow>
                (matched \<and> state_is_none, g1\<lparr>matcher_states := (matcher_states g1)[row := m]\<rparr>))
      in if stopped then (Some Finish_stop, g2)
         else if max_tokens g2 ! row \<le> num_tokens g2 ! row then (Some Finish_length, g2)
         else (None, g2))"

definition finish_row :: "('c, 'k, 'm, 'x) suffix_env \<Rightarrow> nat \<Rightarrow> nat \<Rightarrow> ('c, 'm) suffix_run \<Rightarrow> ('c, 'm) suffix_run" where
  "finish_row env uid row s =
     (let keep = filter (\<lambda>i. i \<noteq> row) [0..<length (uids (gb s))]
      in reset_state_gauges_if_idle env (reap_uid uid (s\<lparr>gb := filter_rows env keep (gb s)\<rparr>)))"

fun drain_tokens :: "('c, 'k, 'm, 'x) suffix_env \<Rightarrow> nat \<Rightarrow> nat \<Rightarrow> int list \<Rightarrow> ('c, 'm) suffix_run \<Rightarrow>
    (py_error + 'x response list) \<times> ('c, 'm) suffix_run" where
  "drain_tokens env uid row [] s = (Inr [], s)"
| "drain_tokens env uid row (tok # rest) s =
     (let g = gb s;
          (fin, g1) = account_token env row tok (g\<lparr>row_tokens := (row_tokens g)[row := row_tokens g ! row @ [tok]]\<rparr>);
          s1 = s\<lparr>gb := g1\<rparr>
      in case fin of
           None \<Rightarrow> (case drain_tokens env uid row rest s1 of
               (Inl e, s2) \<Rightarrow> (Inl e, s2)
             | (Inr rs, s2) \<Rightarrow>
                 (Inr (\<lparr>resp_uid = uid, resp_token = tok, resp_finish = None, resp_cache = None, resp_tokens = None\<rparr> # rs), s2))
         | Some f \<Rightarrow>
             (let unused = int (length rest);
                  (ok, h) = (if 0 < unused then trim_all (api env) (prompt_cache g1) unused (cache_heap g1)
                             else (True, cache_heap g1));
                  s2 = s1\<lparr>gb := g1\<lparr>cache_heap := h\<rparr>\<rparr>
              in if \<not> ok then (Inl RuntimeError, s2)
                 else (Inr [\<lparr>resp_uid = uid, resp_token = tok, resp_finish = Some f,
                             resp_cache = Some (extract_cache env row (gb s2)), resp_tokens = Some (row_tokens (gb s2) ! row)\<rparr>],
                       finish_row env uid row s2)))"

text \<open>\<open>uids.index(uid)\<close>.\<close>

fun uid_row :: "nat \<Rightarrow> nat list \<Rightarrow> nat option" where
  "uid_row u [] = None"
| "uid_row u (v # vs) = (if v = u then Some 0 else map_option Suc (uid_row u vs))"

fun drain_responses :: "('c, 'k, 'm, 'x) suffix_env \<Rightarrow> 'x response list \<Rightarrow> ('c, 'm) suffix_run \<Rightarrow>
    (py_error + 'x response list) \<times> ('c, 'm) suffix_run" where
  "drain_responses env [] s = (Inr [], s)"
| "drain_responses env (r # rs) s =
     (if resp_finish r \<noteq> None then drain_responses env rs s
      else let uid = resp_uid r;
               pending = map_of (pending_emits s) uid;
               s1 = s\<lparr>pending_emits := AList.delete uid (pending_emits s)\<rparr>
        in if pending = None \<or> pending = Some [] then drain_responses env rs s1
           else case uid_row uid (uids (gb s1)) of
               None \<Rightarrow> drain_responses env rs s1
             | Some row \<Rightarrow>
                 (case drain_tokens env uid row (the pending) s1 of
                    (Inl e, s2) \<Rightarrow> (Inl e, s2)
                  | (Inr out, s2) \<Rightarrow>
                      (case drain_responses env rs s2 of (Inl e, s3) \<Rightarrow> (Inl e, s3) | (Inr out', s3) \<Rightarrow> (Inr (out @ out'), s3))))"

definition reap_finished :: "('c, 'k, 'm, 'x) suffix_env \<Rightarrow> 'x response list \<Rightarrow> ('c, 'm) suffix_run \<Rightarrow> ('c, 'm) suffix_run" where
  "reap_finished env responses s =
     (if responses = [] then s
      else reset_state_gauges_if_idle env
        (fold (\<lambda>r s. if resp_finish r \<noteq> None then reap_uid (resp_uid r) s else s) responses s))"

text \<open>The wrapped \<open>next\<close>; mlx-lm's own \<open>next\<close> calls the step it is given.\<close>

definition suffix_next :: "('c, 'k, 'm, 'x) suffix_env \<Rightarrow>
    ((('c, 'm) suffix_run \<Rightarrow> (py_error + int list) \<times> ('c, 'm) suffix_run) \<Rightarrow>
       ('c, 'm) suffix_run \<Rightarrow> (py_error + 'x response list) \<times> ('c, 'm) suffix_run) \<Rightarrow>
    ('c, 'm) suffix_run \<Rightarrow> (py_error + 'x response list) \<times> ('c, 'm) suffix_run" where
  "suffix_next env orig_next s =
     (case orig_next (suffix_step env) s of
        (Inl e, s1) \<Rightarrow> (Inl e, s1)
      | (Inr responses, s1) \<Rightarrow>
          (let s2 = reap_finished env responses s1 in
           if pending_emits s2 = [] \<or> responses = [] then (Inr responses, s2)
           else case drain_responses env responses s2 of
               (Inl e, s3) \<Rightarrow> (Inl e, s3)
             | (Inr extra, s3) \<Rightarrow> (Inr (responses @ extra), s3)))"

section \<open>Removal\<close>

text \<open>The wrapped \<open>remove\<close>: \<open>find_uids\<close> is mlx-lm's membership test, absent or raising as \<open>None\<close>.\<close>

definition departed :: "(nat list \<Rightarrow> nat list option) \<Rightarrow> nat list \<Rightarrow> nat list" where
  "departed find_uids uid_list = (case find_uids uid_list of None \<Rightarrow> []
     | Some present \<Rightarrow> filter (\<lambda>u. u \<notin> set present) uid_list)"

definition suffix_remove :: "('c, 'k, 'm, 'x) suffix_env \<Rightarrow>
    (nat list \<Rightarrow> ('c, 'm) gen_batch \<Rightarrow> (py_error + 'r) \<times> ('c, 'm) gen_batch) \<Rightarrow>
    (('c, 'm) gen_batch \<Rightarrow> nat list \<Rightarrow> nat list option) \<Rightarrow> nat list \<Rightarrow> ('c, 'm) suffix_run \<Rightarrow> (py_error + 'r) \<times> ('c, 'm) suffix_run" where
  "suffix_remove env orig_remove find_uids uid_list s =
     (case orig_remove uid_list (gb s) of
        (Inl e, g) \<Rightarrow> (Inl e, reset_state_gauges_if_idle env (fold reap_uid (departed (find_uids g) uid_list) (s\<lparr>gb := g\<rparr>)))
      | (Inr r, g) \<Rightarrow> (Inr r, reset_state_gauges_if_idle env (fold reap_uid uid_list (s\<lparr>gb := g\<rparr>))))"

definition suffix_teardown :: "('c, 'k, 'm, 'x) suffix_env \<Rightarrow> ('c, 'm) suffix_run \<Rightarrow> ('c, 'm) suffix_run" where
  "suffix_teardown env s = reset_state_gauges_if_idle env (s\<lparr>pending_emits := [], drafters := [], uid_states := []\<rparr>)"

end
