(* ===== verification/SuffixVerifyCorrect.thy ===== *)
theory SuffixVerifyCorrect
  imports SuffixVerify
begin

text \<open>
  The speculative step against plain greedy decoding. \<open>holds cs h ts m\<close> is what a client of the caches may know: they hold
  the tokens \<open>ts\<close>, and the last \<open>m\<close> of them can be trimmed. The laws of the code that is not under src/ are stated with it.
\<close>

section \<open>Greedy decoding\<close>

fun greedy_path :: "(int list \<Rightarrow> int) \<Rightarrow> int list \<Rightarrow> int list \<Rightarrow> bool" where
  "greedy_path greedy ts [] \<longleftrightarrow> True"
| "greedy_path greedy ts (x # xs) \<longleftrightarrow> x = greedy ts \<and> greedy_path greedy (ts @ [x]) xs"

lemma greedy_path_append: "greedy_path g ts (xs @ ys) \<longleftrightarrow> greedy_path g ts xs \<and> greedy_path g (ts @ xs) ys"
  by (induction xs arbitrary: ts) auto

definition predictions :: "(int list \<Rightarrow> int) \<Rightarrow> int list \<Rightarrow> int list \<Rightarrow> int list" where
  "predictions greedy ts ws = map (\<lambda>i. greedy (ts @ take (i + 1) ws)) [0..<length ws]"

lemma predictions_Cons: "predictions g ts (w # ws) = g (ts @ [w]) # predictions g (ts @ [w]) ws"
  by (simp add: predictions_def map_upt_Suc del: upt_Suc)

lemma predictions_Nil [simp]: "predictions g ts [] = []"
  by (simp add: predictions_def)

text \<open>The accepted prefix of a draft is the greedy path, and the prediction after it is the next greedy token.\<close>

lemma accepted_greedy:
  assumes "n = accepted_count (predictions g ts (w # draft)) draft"
  shows "n \<le> length draft \<and> greedy_path g (ts @ [w]) (take n draft) \<and>
    predictions g ts (w # draft) ! n = g (ts @ w # take n draft)"
  using assms
proof (induction draft arbitrary: ts w n)
  case Nil
  then show ?case by (simp add: predictions_Cons)
next
  case (Cons d draft)
  show ?case
  proof (cases "g (ts @ [w]) = d")
    case True
    define k where "k = accepted_count (predictions g (ts @ [w]) (d # draft)) draft"
    have n: "n = Suc k" using Cons.prems True by (simp add: predictions_Cons [of g ts] k_def)
    show ?thesis using Cons.IH [OF k_def] True by (simp add: n predictions_Cons [of g ts])
  next
    case False
    then have "n = 0" using Cons.prems by (simp add: predictions_Cons)
    then show ?thesis by (simp add: predictions_Cons)
  qed
qed

section \<open>The laws of the environment\<close>

type_synonym 'c holding = "cache_ref list \<Rightarrow> (nat \<Rightarrow> 'c) \<Rightarrow> int list \<Rightarrow> nat \<Rightarrow> bool"

text \<open>A forward over admitted caches consumes its input and predicts greedily, or raises before it consumed anything.\<close>

definition forward_law :: "('c, 'k, 'm, 'x) suffix_env \<Rightarrow> 'c holding \<Rightarrow> (int list \<Rightarrow> int) \<Rightarrow> bool" where
  "forward_law env holds greedy \<longleftrightarrow> (\<forall>cs h ts m w draft. holds cs h ts m \<longrightarrow>
     list_all (can_advance (api env) h (int (length draft))) cs \<longrightarrow>
     (case model_forward env (w # draft) cs h of
        (Inl e, h') \<Rightarrow> \<exists>m'. holds cs h' ts m'
      | (Inr preds, h') \<Rightarrow> preds = predictions greedy ts (w # draft) \<and> holds cs h' (ts @ w # draft) (length draft)))"

text \<open>
  The leaves admit the trim of up to \<open>m\<close> tokens, each does what it is asked when they are trimmed one after the other, and
  then they hold that much less.
\<close>

definition trim_law :: "('c, 'k, 'm, 'x) suffix_env \<Rightarrow> 'c holding \<Rightarrow> bool" where
  "trim_law env holds \<longleftrightarrow> (\<forall>cs h ts ws m. holds cs h (ts @ ws) m \<longrightarrow> ws \<noteq> [] \<longrightarrow> length ws \<le> m \<longrightarrow>
     (let n = int (length ws); leaves = concat (map leaf_caches cs)
      in (\<forall>a\<in>set leaves. leaf_can_trim (api env) n a h) \<and> trims_along (api env) n leaves h \<and>
         holds cs (trimmed_heap (api env) n leaves h) ts (m - length ws)))"

lemma trim_lawD:
  assumes "trim_law env holds" and "holds cs h (ts @ ws) m" and "ws \<noteq> []" and "length ws \<le> m"
  shows "\<exists>h'. trim_all (api env) cs (int (length ws)) h = (True, h') \<and> holds cs h' ts (m - length ws)"
proof -
  let ?n = "int (length ws)" and ?leaves = "concat (map leaf_caches cs)"
  have l: "\<forall>a\<in>set ?leaves. leaf_can_trim (api env) ?n a h" "trims_along (api env) ?n ?leaves h"
    "holds cs (trimmed_heap (api env) ?n ?leaves h) ts (m - length ws)"
    using assms(1) [unfolded trim_law_def Let_def, rule_format, OF assms(2-4)] by blast+
  have "0 < ?n" using assms(3) by simp
  from trim_all_along [OF this refl l(1,2)] l(3) show ?thesis by blast
qed

definition unprocessed :: "('c, 'm) gen_batch \<Rightarrow> bool" where
  "unprocessed g \<longleftrightarrow> (case logits_processors g of None \<Rightarrow> True | Some lp \<Rightarrow> \<not> list_ex id lp)"

text \<open>A batch of one greedy row whose caches hold the tokens so far, about to feed the greedy token.\<close>

definition committed :: "'c holding \<Rightarrow> (int list \<Rightarrow> int) \<Rightarrow> nat \<Rightarrow> int list \<Rightarrow> int list \<Rightarrow> nat \<Rightarrow> ('c, 'm) gen_batch \<Rightarrow> bool" where
  "committed holds greedy u ts row m g \<longleftrightarrow> next_tokens g = Some [greedy ts] \<and> uids g = [u] \<and> row_tokens g = [row] \<and>
     unprocessed g \<and> holds (prompt_cache g) (cache_heap g) ts m"

text \<open>mlx-lm's own step on such a batch: it feeds the token, appends it to the row and samples the next one.\<close>

definition step_law :: "('c, 'k, 'm, 'x) suffix_env \<Rightarrow> 'c holding \<Rightarrow> (int list \<Rightarrow> int) \<Rightarrow> bool" where
  "step_law env holds greedy \<longleftrightarrow> (\<forall>u ts row m g. committed holds greedy u ts row m g \<longrightarrow> is_greedy_for_uid env u \<longrightarrow>
     (\<exists>h m'. orig_step env g = (Inr [greedy ts], g\<lparr>next_tokens := Some [greedy (ts @ [greedy ts])],
          row_tokens := [row @ [greedy ts]], cache_heap := h\<rparr>) \<and> holds (prompt_cache g) h (ts @ [greedy ts]) m'))"

definition config_ok :: "('c, 'k, 'm, 'x) suffix_env \<Rightarrow> bool" where
  "config_ok env \<longleftrightarrow> 1 \<le> max_draft env \<and> 1 \<le> suffix_len env \<and> 0 \<le> confidence_floor env \<and> confidence_floor env \<le> 1"

definition env_laws :: "('c, 'k, 'm, 'x) suffix_env \<Rightarrow> 'c holding \<Rightarrow> (int list \<Rightarrow> int) \<Rightarrow> bool" where
  "env_laws env holds greedy \<longleftrightarrow> config_ok env \<and> forward_law env holds greedy \<and> trim_law env holds \<and> step_law env holds greedy"

text \<open>What the step leaves alone.\<close>

definition same_rows :: "('c, 'm) gen_batch \<Rightarrow> ('c, 'm) gen_batch \<Rightarrow> bool" where
  "same_rows g g' \<longleftrightarrow> uids g' = uids g \<and> num_tokens g' = num_tokens g \<and> max_tokens g' = max_tokens g \<and>
     matcher_states g' = matcher_states g \<and> prompt_cache g' = prompt_cache g \<and> logits_processors g' = logits_processors g"

lemma gb_frame [frame_simps]:
  "gb (fallthrough r s) = gb s" "gb (set_uid_state u st s) = gb s" "gb (verify_failed k s) = gb s"
  "pending_emits (fallthrough r s) = pending_emits s" "pending_emits (set_uid_state u st s) = pending_emits s"
  "pending_emits (verify_failed k s) = pending_emits s"
  by (simp_all add: fallthrough_def set_uid_state_def verify_failed_def)

lemma state_for_frame: "state_for env u s = (st, s') \<Longrightarrow> gb s' = gb s \<and> pending_emits s' = pending_emits s"
  by (auto simp: state_for_def Let_def split: option.splits)

lemma drafter_for_frame:
  assumes "config_ok env"
  shows "\<exists>d s'. drafter_for env u s = (Inr d, s') \<and> gb s' = gb s \<and> pending_emits s' = pending_emits s"
proof (cases "map_of (drafters s) u")
  case None
  obtain d0 where "drafter_init (max_draft env) (suffix_len env) (confidence_floor env) (Some 32000) = Inr d0"
    using assms by (auto simp: drafter_init_def config_ok_def)
  then show ?thesis using None by (simp add: drafter_for_def Let_def)
qed (simp add: drafter_for_def)

section \<open>One step\<close>

text \<open>The outcome of a step from a committed state: one greedy token surfaces, \<open>xs\<close> more are queued.\<close>

definition step_result :: "'c holding \<Rightarrow> (int list \<Rightarrow> int) \<Rightarrow> nat \<Rightarrow> int list \<Rightarrow> int list \<Rightarrow> ('c, 'm) suffix_run \<Rightarrow>
    (py_error + int list) \<times> ('c, 'm) suffix_run \<Rightarrow> bool" where
  "step_result holds greedy u ts row s res \<longleftrightarrow> (\<exists>xs s' m. res = (Inr [greedy ts], s') \<and>
     greedy_path greedy (ts @ [greedy ts]) xs \<and> length xs \<le> m \<and>
     committed holds greedy u (ts @ greedy ts # xs) (row @ [greedy ts]) m (gb s') \<and> same_rows (gb s) (gb s') \<and>
     (pending_emits s' = pending_emits s \<and> xs = [] \<or> pending_emits s' = AList.update u xs (pending_emits s)))"

lemma run_orig_result:
  assumes "step_law env holds greedy" and "is_greedy_for_uid env u" and "committed holds greedy u ts row m (gb s1)"
    and "same_rows (gb s) (gb s1)" and "pending_emits s1 = pending_emits s"
  shows "step_result holds greedy u ts row s (run_orig_step env s1)"
proof -
  obtain h m' where o: "orig_step env (gb s1) = (Inr [greedy ts], (gb s1)\<lparr>next_tokens := Some [greedy (ts @ [greedy ts])],
        row_tokens := [row @ [greedy ts]], cache_heap := h\<rparr>)" "holds (prompt_cache (gb s1)) h (ts @ [greedy ts]) m'"
    using assms(1-3) unfolding step_law_def by blast
  show ?thesis unfolding step_result_def
    by (intro exI [of _ "[]"] exI [of _ "s1\<lparr>gb := (gb s1)\<lparr>next_tokens := Some [greedy (ts @ [greedy ts])],
        row_tokens := [row @ [greedy ts]], cache_heap := h\<rparr>\<rparr>"] exI [of _ m'])
      (use o assms(3-5) in \<open>auto simp: run_orig_step_def committed_def same_rows_def unprocessed_def\<close>)
qed

lemma commit_result:
  assumes "committed holds greedy u ts row m0 (gb s)" and "n = accepted_count preds draft"
    and "preds = predictions greedy ts (greedy ts # draft)"
    and "holds (prompt_cache (gb s)) h (ts @ greedy ts # take n draft) n"
    and "gb s1 = (gb s)\<lparr>cache_heap := h\<rparr>" and "pending_emits s1 = pending_emits s"
  shows "step_result holds greedy u ts row s (Inr [greedy ts], commit_verified u (greedy ts) draft preds s1)"
proof -
  have n: "n \<le> length draft" "greedy_path greedy (ts @ [greedy ts]) (take n draft)" "preds ! n = greedy (ts @ greedy ts # take n draft)"
    using accepted_greedy [of n greedy ts "greedy ts" draft] assms(2,3) by blast+
  have g: "gb (commit_verified u (greedy ts) draft preds s1) = (gb s)\<lparr>next_tokens := Some [preds ! n],
      row_tokens := [row @ [greedy ts]], cache_heap := h\<rparr>"
    using assms(1,2,5) by (simp add: commit_verified_def Let_def committed_def)
  have p: "pending_emits (commit_verified u (greedy ts) draft preds s1) = AList.update u (take n draft) (pending_emits s)"
    using assms(2,6) by (simp add: commit_verified_def Let_def)
  show ?thesis unfolding step_result_def
    by (intro exI [of _ "take n draft"] exI [of _ "commit_verified u (greedy ts) draft preds s1"] exI [of _ n])
      (use n g p assms(1,4) in \<open>auto simp: committed_def same_rows_def unprocessed_def\<close>)
qed

lemma record_verdict_frame [frame_simps]:
  "gb (record_verdict env u n k st s) = gb s" "pending_emits (record_verdict env u n k st s) = pending_emits s"
  by (simp_all add: record_verdict_def Let_def case_prod_beta frame_simps)

lemma verify_result:
  assumes laws: "env_laws env holds greedy" and gr: "is_greedy_for_uid env u" and c: "committed holds greedy u ts row m (gb s)"
    and s1: "gb s1 = gb s" "pending_emits s1 = pending_emits s"
    and adm: "list_all (can_advance (api env) (cache_heap (gb s)) (int (length draft))) (prompt_cache (gb s))"
  shows "step_result holds greedy u ts row s (verify_draft env u (greedy ts) draft st s1)"
proof -
  let ?w = "greedy ts" and ?cs = "prompt_cache (gb s)" and ?k = "int (length draft)"
  have h0: "holds ?cs (cache_heap (gb s)) ts m" using c by (simp add: committed_def)
  have fl: "forward_law env holds greedy" using laws by (simp add: env_laws_def)
  obtain r h where f: "model_forward env (?w # draft) ?cs (cache_heap (gb s)) = (r, h)" by fastforce
  define s2 where "s2 = s1\<lparr>run_stats := (run_stats s1)\<lparr>st_verify_steps := st_verify_steps (run_stats s1) + 1,
      st_proposed := st_proposed (run_stats s1) + ?k\<rparr>, gb := (gb s)\<lparr>cache_heap := h\<rparr>\<rparr>"
  have g2: "gb s2 = (gb s)\<lparr>cache_heap := h\<rparr>" "pending_emits s2 = pending_emits s" by (simp_all add: s2_def s1)
  have "case model_forward env (?w # draft) ?cs (cache_heap (gb s)) of (Inl e, h') \<Rightarrow> \<exists>m'. holds ?cs h' ts m'
      | (Inr preds, h') \<Rightarrow> preds = predictions greedy ts (?w # draft) \<and> holds ?cs h' (ts @ ?w # draft) (length draft)"
    using fl [unfolded forward_law_def, rule_format, OF h0 adm, of ?w] .
  then have law: "case r of Inl e \<Rightarrow> \<exists>m'. holds ?cs h ts m'
      | Inr preds \<Rightarrow> preds = predictions greedy ts (?w # draft) \<and> holds ?cs h (ts @ ?w # draft) (length draft)"
    by (simp add: f)
  show ?thesis
  proof (cases r)
    case (Inl e)
    then obtain m' where "holds ?cs h ts m'" using law by auto
    then have "committed holds greedy u ts row m' (gb s2)" using c by (simp add: g2 committed_def unprocessed_def)
    moreover have "same_rows (gb s) (gb s2)" by (simp add: g2 same_rows_def)
    ultimately have "step_result holds greedy u ts row s (run_orig_step env (verify_failed ?k s2))"
      using laws gr g2(2) by (intro run_orig_result) (simp_all add: env_laws_def frame_simps)
    then show ?thesis using Inl by (simp add: verify_draft_def Let_def s1 f s2_def)
  next
    case (Inr preds)
    then have p: "preds = predictions greedy ts (?w # draft)" "holds ?cs h (ts @ ?w # draft) (length draft)" using law by auto
    define n where "n = accepted_count preds draft"
    have n: "n \<le> length draft" using accepted_greedy [of n greedy ts ?w draft] by (simp add: n_def p(1))
    define s3 where "s3 = record_verdict env u (int n) ?k st s2"
    have g3: "gb s3 = (gb s)\<lparr>cache_heap := h\<rparr>" "pending_emits s3 = pending_emits s" by (simp_all add: s3_def frame_simps g2)
    have v: "verify_draft env u ?w draft st s1 =
        (if 0 < ?k - int n
         then (case trim_all (api env) ?cs (?k - int n) h of (ok, h1) \<Rightarrow>
            (let s4 = s3\<lparr>gb := (gb s3)\<lparr>cache_heap := h1\<rparr>\<rparr>
             in if \<not> ok then (Inl RuntimeError, s4) else (Inr [?w], commit_verified u ?w draft preds s4)))
         else (Inr [?w], commit_verified u ?w draft preds s3))"
      by (simp add: verify_draft_def Let_def s1 f Inr s2_def [symmetric] n_def [symmetric] s3_def [symmetric] g3)
    show ?thesis
    proof (cases "n = length draft")
      case True
      then have "holds ?cs h (ts @ ?w # take n draft) n" using p(2) by simp
      then show ?thesis using commit_result [OF c n_def p(1) _ g3] True by (simp add: v)
    next
      case False
      have "drop n draft \<noteq> []" "length (drop n draft) \<le> length draft" using False n by simp_all
      moreover have "holds ?cs h ((ts @ ?w # take n draft) @ drop n draft) (length draft)" using p(2) by simp
      ultimately obtain h1 where h1: "trim_all (api env) ?cs (int (length (drop n draft))) h = (True, h1)"
          "holds ?cs h1 (ts @ ?w # take n draft) (length draft - length (drop n draft))"
        using trim_lawD [of env holds] laws unfolding env_laws_def by blast
      have rej: "int (length (drop n draft)) = ?k - int n" "length draft - length (drop n draft) = n" using n by simp_all
      define s4 where "s4 = s3\<lparr>gb := (gb s3)\<lparr>cache_heap := h1\<rparr>\<rparr>"
      have g4: "gb s4 = (gb s)\<lparr>cache_heap := h1\<rparr>" "pending_emits s4 = pending_emits s" by (simp_all add: s4_def g3)
      have "0 < ?k - int n" using n False by simp
      moreover have t: "trim_all (api env) ?cs (?k - int n) h = (True, h1)" using h1(1) rej(1) by simp
      ultimately have "verify_draft env u ?w draft st s1 = (Inr [?w], commit_verified u ?w draft preds s4)"
        unfolding v s4_def by (simp del: of_nat_diff)
      then show ?thesis using commit_result [OF c n_def p(1) _ g4] h1(2) rej(2) by simp
    qed
  qed
qed

text \<open>Every path of the step ends there: the guards, the cooldown, the missing draft, the refused caches, the verify.\<close>

lemma step_committed:
  assumes laws: "env_laws env holds greedy" and gr: "is_greedy_for_uid env u" and c: "committed holds greedy u ts row m (gb s)"
  shows "step_result holds greedy u ts row s (suffix_step env s)"
proof -
  have fall: "step_result holds greedy u ts row s (run_orig_step env s1)" if "gb s1 = gb s" "pending_emits s1 = pending_emits s" for s1
    using laws gr c that by (intro run_orig_result) (simp_all add: env_laws_def same_rows_def)
  have g: "next_tokens (gb s) = Some [greedy ts]" "uids (gb s) = [u]" "unprocessed (gb s)" using c by (simp_all add: committed_def)
  have cf: "config_ok env" using laws by (simp add: env_laws_def)
  obtain d s1 where d: "drafter_for env u s = (Inr d, s1)" "gb s1 = gb s" "pending_emits s1 = pending_emits s"
    using drafter_for_frame [OF cf] by blast
  obtain st s2 where st: "state_for env u s1 = (st, s2)" by fastforce
  have s2: "gb s2 = gb s" "pending_emits s2 = pending_emits s" using state_for_frame [OF st] d by simp_all
  have lp: "\<not> (case logits_processors (gb s) of None \<Rightarrow> False | Some lp \<Rightarrow> list_ex id lp)"
    using g(3) by (auto simp: unprocessed_def split: option.splits)
  have step: "suffix_step env s = (if 0 < cooldown st
      then run_orig_step env (fallthrough ''cooldown''
             (set_uid_state u (st\<lparr>cooldown := cooldown st - 1, queued := queued st @ [greedy ts]\<rparr>) s2))
      else draft_step env u (greedy ts) d st s2)"
    using g gr lp d st by (simp add: suffix_step_def)
  show ?thesis
  proof (cases "0 < cooldown st")
    case True
    then show ?thesis unfolding step by (simp add: fall frame_simps s2)
  next
    case False
    define st1 where "st1 = st\<lparr>queued := []\<rparr>"
    obtain draft d2 where dr: "get_draft ((add_generated_token (greedy ts) (fold add_generated_token (queued st) d))
        \<lparr>max_draft_tokens := draft_width st1\<rparr>) = (draft, d2)" by fastforce
    define s3 where "s3 = (set_uid_state u st1 s2)\<lparr>drafters := AList.update u d2 (drafters s2)\<rparr>"
    have s3: "gb s3 = gb s" "pending_emits s3 = pending_emits s" by (simp_all add: s3_def frame_simps s2)
    have "draft_step env u (greedy ts) d st s2 =
        (if draft = [] \<or> int (length draft) < min_draft_len env then run_orig_step env (fallthrough ''no_draft'' s3)
         else if \<not> list_all (can_advance (api env) (cache_heap (gb s)) (int (length draft))) (prompt_cache (gb s))
         then run_orig_step env (fallthrough ''non_trimmable_cache'' s3)
         else verify_draft env u (greedy ts) draft st1 s3)"
      using dr by (simp add: draft_step_def Let_def st1_def [symmetric] s3_def [symmetric] s3)
    then show ?thesis using False verify_result [OF laws gr c s3] unfolding step by (simp add: fall frame_simps s3)
  qed
qed

end
