(* ===== verification/SuffixLossless.thy ===== *)
theory SuffixLossless
  imports SuffixVerifyCorrect
begin

text \<open>
  The wrapped \<open>next\<close> against plain decoding: whatever is drafted, accepted or refused, the responses are those of the
  greedy loop that feeds one token at a time, with the same stop decisions, and what a finished response publishes.
\<close>

section \<open>Plain decoding\<close>

text \<open>The part of a row the stop decision depends on, and the decision for one more token.\<close>

type_synonym 'm tally_state = "int list \<times> int list \<times> 'm list"

definition tally_of :: "('c, 'm) gen_batch \<Rightarrow> 'm tally_state" where
  "tally_of g = (num_tokens g, max_tokens g, matcher_states g)"

definition tally :: "('c, 'k, 'm, 'x) suffix_env \<Rightarrow> int \<Rightarrow> 'm tally_state \<Rightarrow> finish option \<times> 'm tally_state" where
  "tally env tok a = (case a of (nums, maxs, ms) \<Rightarrow>
     (let nums' = nums[0 := nums ! 0 + 1];
          (stopped, ms') = (case stop_match env (ms ! 0) tok of Inl e \<Rightarrow> (False, ms)
             | Inr (m, matched, state_is_none) \<Rightarrow> (matched \<and> state_is_none, ms[0 := m]))
      in (if stopped then Some Finish_stop else if maxs ! 0 \<le> nums' ! 0 then Some Finish_length else None, (nums', maxs, ms'))))"



lemma account_tally:
  "account_token env 0 tok g = (case tally env tok (tally_of g) of
     (f, (nums, maxs, ms)) \<Rightarrow> (f, g\<lparr>num_tokens := nums, matcher_states := ms\<rparr>))"
  by (auto simp: account_token_def tally_def tally_of_def Let_def split: sum.split prod.split)

lemma tally_max: "tally env tok (nums, maxs, ms) = (f, nums', maxs', ms') \<Longrightarrow> maxs' = maxs"
  by (auto simp: tally_def Let_def split: sum.splits prod.splits if_splits)

lemma account_frame:
  assumes "account_token env 0 tok g = (f, g1)" and "tally env tok (tally_of g) = (f', a)"
  shows "f = f' \<and> tally_of g1 = a \<and> next_tokens g1 = next_tokens g \<and> uids g1 = uids g \<and> row_tokens g1 = row_tokens g \<and>
    prompt_cache g1 = prompt_cache g \<and> cache_heap g1 = cache_heap g \<and> logits_processors g1 = logits_processors g"
proof -
  obtain nums maxs ms where a: "a = (nums, maxs, ms)" by (cases a)
  have "maxs = max_tokens g" using tally_max assms(2) unfolding a tally_of_def by metis
  then show ?thesis using assms unfolding account_tally a by (auto simp: tally_of_def)
qed


section \<open>Draining\<close>

definition extract_law :: "('c, 'k, 'm, 'x) suffix_env \<Rightarrow> 'c holding \<Rightarrow> ('x \<Rightarrow> int list) \<Rightarrow> bool" where
  "extract_law env holds held \<longleftrightarrow> (\<forall>g u ts m. uids g = [u] \<longrightarrow> holds (prompt_cache g) (cache_heap g) ts m \<longrightarrow>
     held (extract_cache env 0 g) = ts)"

lemma extract_lawD: "extract_law env holds held \<Longrightarrow> uids g = [u] \<Longrightarrow> holds (prompt_cache g) (cache_heap g) ts m \<Longrightarrow>
    held (extract_cache env 0 g) = ts"
  unfolding extract_law_def by blast


section \<open>One round\<close>

text \<open>
  mlx-lm's \<open>next\<close> on a batch of one row: it runs the step, counts the token, runs the stop matcher, whose exceptions it does
  not catch, and finishes the row where the token does. The law speaks of tokens on which the matcher returns.
\<close>

definition next_law :: "('c, 'k, 'm, 'x) suffix_env \<Rightarrow>
    ((('c, 'm) suffix_run \<Rightarrow> (py_error + int list) \<times> ('c, 'm) suffix_run) \<Rightarrow>
       ('c, 'm) suffix_run \<Rightarrow> (py_error + 'x response list) \<times> ('c, 'm) suffix_run) \<Rightarrow> bool" where
  "next_law env orig_next \<longleftrightarrow> (\<forall>step s t s1 u. step s = (Inr [t], s1) \<longrightarrow> uids (gb s1) = [u] \<longrightarrow>
     (\<exists>x. stop_match env (matcher_states (gb s1) ! 0) t = Inr x) \<longrightarrow> orig_next step s =
     (case account_token env 0 t (gb s1) of
        (None, g) \<Rightarrow> (Inr [\<lparr>resp_uid = u, resp_token = t, resp_finish = None, resp_cache = None, resp_tokens = None\<rparr>], s1\<lparr>gb := g\<rparr>)
      | (Some f, g) \<Rightarrow> (Inr [\<lparr>resp_uid = u, resp_token = t, resp_finish = Some f, resp_cache = Some (extract_cache env 0 g),
                            resp_tokens = Some (row_tokens g ! 0)\<rparr>], s1\<lparr>gb := filter_rows env [] g\<rparr>)))"

text \<open>The stop matcher returns. (One that raises is ignored on drained tokens and ends the call on the others.)\<close>

definition matcher_law :: "('c, 'k, 'm, 'x) suffix_env \<Rightarrow> bool" where
  "matcher_law env \<longleftrightarrow> (\<forall>m t. \<exists>x. stop_match env m t = Inr x)"

lemma next_lawD:
  assumes "next_law env orig_next" and "matcher_law env" and "step s = (Inr [t], s1)" and "uids (gb s1) = [u]"
  shows "orig_next step s =
     (case account_token env 0 t (gb s1) of
        (None, g) \<Rightarrow> (Inr [\<lparr>resp_uid = u, resp_token = t, resp_finish = None, resp_cache = None, resp_tokens = None\<rparr>], s1\<lparr>gb := g\<rparr>)
      | (Some f, g) \<Rightarrow> (Inr [\<lparr>resp_uid = u, resp_token = t, resp_finish = Some f, resp_cache = Some (extract_cache env 0 g),
                            resp_tokens = Some (row_tokens g ! 0)\<rparr>], s1\<lparr>gb := filter_rows env [] g\<rparr>))"
proof -
  have "\<exists>x. stop_match env (matcher_states (gb s1) ! 0) t = Inr x" using assms(2) by (simp add: matcher_law_def)
  then show ?thesis 
    by (rule assms(1) [unfolded next_law_def, rule_format, where step = step and s = s, OF assms(3,4)])
qed

lemma idle_frame [simp]: "gb (reset_state_gauges_if_idle env s) = gb s"
  "pending_emits (reset_state_gauges_if_idle env s) = pending_emits s"
  by (simp_all add: reset_state_gauges_if_idle_def)



section \<open>Sessions\<close>



section \<open>A batch over token lists\<close>

text \<open>
  The laws are met by caches that are token lists: trimming drops the last tokens, the forward appends its input and
  predicts with \<open>greedy\<close>, and mlx-lm's step and next do what the laws say.
\<close>

definition list_api :: "(int list, int list) cache_api" where
  "list_api = \<lparr>trim_checkpoint_of = (\<lambda>a h. None), restore_trim_checkpoint = (\<lambda>k a h. h),
     size_of = (\<lambda>a h. Some (PyInt (int (length (h a))))), offset_of = (\<lambda>a h. PyNone),
     can_trim_of = (\<lambda>a h. Some (\<lambda>n. n \<le> int (length (h a)))), can_undo_of = (\<lambda>a h. None), is_trimmable_of = (\<lambda>a h. None),
     can_advance_of = (\<lambda>a h. Some (\<lambda>n. True)), max_size_of = (\<lambda>a h. PyNone),
     trim_of = (\<lambda>n a h. (Inr (Some n), h(a := take (length (h a) - nat n) (h a))))\<rparr>"

definition list_env :: "(int list \<Rightarrow> int) \<Rightarrow> (int list, int list, nat, int list) suffix_env" where
  "list_env greedy = \<lparr>max_draft = 4, suffix_len = 2, confidence_floor = 1 / 4, min_draft_len = 1,
     request_of = (\<lambda>u. Some ([], None)), api = list_api,
     orig_step = (\<lambda>g. let t = hd (the (next_tokens g)); h = (cache_heap g)(0 := cache_heap g 0 @ [t])
        in (Inr [t], g\<lparr>next_tokens := Some [greedy (h 0)], row_tokens := [hd (row_tokens g) @ [t]], cache_heap := h\<rparr>)),
     model_forward = (\<lambda>ws cs h. (Inr (predictions greedy (h 0) ws), h(0 := h 0 @ ws))),
     stop_match = (\<lambda>m t. Inr (m, t = 99, True)), extract_cache = (\<lambda>row g. cache_heap g 0),
     filter_rows = (\<lambda>keep g. g\<lparr>uids := map ((!) (uids g)) keep\<rparr>)\<rparr>"

definition list_holds :: "int list holding" where
  "list_holds cs h ts m \<longleftrightarrow> cs = [Leaf_cache 0] \<and> h 0 = ts \<and> m \<le> length ts"

definition list_next :: "(int list, int list, nat, int list) suffix_env \<Rightarrow>
    ((int list, nat) suffix_run \<Rightarrow> (py_error + int list) \<times> (int list, nat) suffix_run) \<Rightarrow>
    (int list, nat) suffix_run \<Rightarrow> (py_error + int list response list) \<times> (int list, nat) suffix_run" where
  "list_next env step s = (case step s of
     (Inl e, s1) \<Rightarrow> (Inl e, s1)
   | (Inr toks, s1) \<Rightarrow> (let t = hd toks; u = hd (uids (gb s1)) in
      case account_token env 0 t (gb s1) of
        (None, g) \<Rightarrow> (Inr [\<lparr>resp_uid = u, resp_token = t, resp_finish = None, resp_cache = None, resp_tokens = None\<rparr>], s1\<lparr>gb := g\<rparr>)
      | (Some f, g) \<Rightarrow> (Inr [\<lparr>resp_uid = u, resp_token = t, resp_finish = Some f, resp_cache = Some (extract_cache env 0 g),
                            resp_tokens = Some (row_tokens g ! 0)\<rparr>], s1\<lparr>gb := filter_rows env [] g\<rparr>)))"

lemma list_env_laws: "env_laws (list_env greedy) list_holds greedy"
  unfolding env_laws_def
proof (intro conjI)
  show "config_ok (list_env greedy)" by (simp add: config_ok_def list_env_def)
  show "forward_law (list_env greedy) list_holds greedy" by (auto simp: forward_law_def list_env_def list_holds_def)
  show "trim_law (list_env greedy) list_holds" unfolding trim_law_def
  proof (intro allI impI)
    fix cs h ts ws m
    assume "list_holds cs h (ts @ ws) m" "ws \<noteq> []" "length ws \<le> m"
    then have c: "cs = [Leaf_cache 0]" "h 0 = ts @ ws" "m \<le> length ts + length ws" by (simp_all add: list_holds_def)
    have "api (list_env greedy) = list_api" by (simp add: list_env_def)
    then show "let n = int (length ws); leaves = concat (map leaf_caches cs)
      in (\<forall>a\<in>set leaves. leaf_can_trim (api (list_env greedy)) n a h) \<and> trims_along (api (list_env greedy)) n leaves h \<and>
         list_holds cs (trimmed_heap (api (list_env greedy)) n leaves h) ts (m - length ws)"
      using c by (simp add: list_holds_def list_api_def leaf_can_trim_def trims_def Let_def)
  qed
  show "step_law (list_env greedy) list_holds greedy" unfolding step_law_def
    by (intro allI impI exI [of _ 0] exI) (auto simp: list_env_def committed_def list_holds_def Let_def)
qed

lemma list_extract_law: "extract_law (list_env greedy) list_holds (\<lambda>x. x)"
  by (simp add: extract_law_def list_env_def list_holds_def)

lemma list_matcher_law: "matcher_law (list_env greedy)"
  by (simp add: matcher_law_def list_env_def) blast

lemma list_next_law: "next_law env (list_next env)"
  by (auto simp: next_law_def list_next_def Let_def split: option.split prod.split)

definition list_start :: "(int list \<Rightarrow> int) \<Rightarrow> int list \<Rightarrow> int \<Rightarrow> (int list, nat) suffix_run" where
  "list_start greedy prompt limit = \<lparr>gb = \<lparr>next_tokens = Some [greedy prompt], uids = [5], row_tokens = [prompt], num_tokens = [0],
       max_tokens = [limit], matcher_states = [0], logits_processors = None, prompt_cache = [Leaf_cache 0], cache_heap = (\<lambda>a. prompt)\<rparr>,
     drafters = [], pending_emits = [], uid_states = [],
     run_stats = \<lparr>st_verify_steps = 0, st_fallthrough_steps = 0, st_proposed = 0, st_accepted = 0, st_errors = 0,
       st_ft = (\<lambda>r. 0), st_cooldown_trips = 0, st_cooldown_level = 0, st_k_current = 0\<rparr>,
     counter = accept_counter_init\<rparr>"

lemma list_start_committed:
  "committed list_holds greedy 5 prompt prompt 0 (gb (list_start greedy prompt limit))" "pending_emits (list_start greedy prompt limit) = []"
  by (simp_all add: committed_def list_start_def unprocessed_def list_holds_def)

lemma list_env_greedy: "is_greedy_for_uid (list_env greedy) u"
  by (simp add: is_greedy_for_uid_def list_env_def)

section \<open>Claims\<close>



text \<open>
  \<^bold>\<open>A failed verify is not rolled back.\<close> When the forward raises after the caches consumed tokens, as when the evaluation of
  the lazily built arrays fails, the ordinary step runs on the caches as they are and feeds its token once more.
\<close>

theorem failed_verify_not_rolled_back:
  assumes "model_forward env (t # draft) (prompt_cache (gb s)) (cache_heap (gb s)) = (Inl e, h)"
  shows "\<exists>g. orig_step env g = (fst (verify_draft env u t draft st s), gb (snd (verify_draft env u t draft st s))) \<and>
    next_tokens g = next_tokens (gb s) \<and> prompt_cache g = prompt_cache (gb s) \<and> cache_heap g = h"
  using assms
  by (intro exI [of _ "(gb s)\<lparr>cache_heap := h\<rparr>"])
    (simp add: verify_draft_def Let_def run_orig_step_def frame_simps split: prod.split)

text \<open>
  \<^bold>\<open>Finishing on the first token of a burst publishes lookahead.\<close> When a verify accepted draft tokens and the token the
  step returns already finishes the response, by a stop match or the token limit, the published cache holds the
  accepted tokens too: they were never delivered, the response's token list does not have them, and nothing rolls them
  back, unlike on the drained tokens.
\<close>

theorem primary_finish_publishes_lookahead:
  assumes "env_laws env holds greedy" and "extract_law env holds held" and "next_law env orig_next" and "matcher_law env"
    and "is_greedy_for_uid env u" and "committed holds greedy u ts row m (gb s)" and "pending_emits s = []"
    and "suffix_step env s = (Inr [t], s1)" and "pending_emits s1 = [(u, xs)]" and "xs \<noteq> []"
    and "account_token env 0 t (gb s1) = (Some f, g)"
  shows "\<exists>r s' x. suffix_next env orig_next s = (Inr [r], s') \<and> resp_finish r = Some f \<and>
    resp_tokens r = Some (row @ [resp_token r]) \<and> resp_cache r = Some x \<and>
    held x = ts @ [resp_token r] @ xs \<and> held x \<noteq> ts @ [resp_token r]"
proof -
  obtain m1 where t: "t = greedy ts" and c: "committed holds greedy u (ts @ t # xs) (row @ [t]) m1 (gb s1)"
    using step_committed [OF assms(1,5,6)] assms(7-10) by (auto simp: step_result_def)
  have c1: "uids (gb s1) = [u]" "row_tokens (gb s1) = [row @ [t]]" "holds (prompt_cache (gb s1)) (cache_heap (gb s1)) (ts @ t # xs) m1"
    using c by (simp_all add: committed_def)
  obtain f' a where ta: "tally env t (tally_of (gb s1)) = (f', a)" by (cases "tally env t (tally_of (gb s1))")
  note fr = account_frame [OF assms(11) ta]
  define r where "r = \<lparr>resp_uid = u, resp_token = t, resp_finish = Some f, resp_cache = Some (extract_cache env 0 g),
      resp_tokens = Some (row_tokens g ! 0)\<rparr>"
  have o: "orig_next (suffix_step env) s = (Inr [r], s1\<lparr>gb := filter_rows env [] g\<rparr>)"
    using next_lawD [where step = "suffix_step env", OF assms(3,4,8) c1(1)] assms(11) unfolding r_def by simp
  define s2 where "s2 = reap_finished env [r] (s1\<lparr>gb := filter_rows env [] g\<rparr>)"
  have "pending_emits s2 = []" using assms(9) by (simp add: s2_def reap_finished_def r_def reap_uid_def)
  then have "suffix_next env orig_next s = (Inr [r], s2)" by (simp add: suffix_next_def o s2_def [symmetric] Let_def)
  moreover have "held (extract_cache env 0 g) = ts @ t # xs"
    by (rule extract_lawD [OF assms(2), where u = u and m = m1]) (use fr c1 in simp_all)
  ultimately show ?thesis using fr c1(2) assms(10) by (intro exI [of _ r] exI [of _ s2]) (simp add: r_def)
qed

lemma constant_accepted: "set draft \<subseteq> {7} \<Longrightarrow> accepted_count (predictions (\<lambda>ts. 7) ts (w # draft)) draft = length draft"
proof (induction draft arbitrary: ts w)
  case (Cons d draft)
  then show ?case by (simp add: predictions_Cons [of _ ts])
qed simp

lemma list_start_burst:
  "\<exists>s1 xs. suffix_step (list_env (\<lambda>ts. 7)) (list_start (\<lambda>ts. 7) [7, 7] 1) = (Inr [7], s1) \<and> pending_emits s1 = [(5, xs)] \<and> xs \<noteq> [] \<and>
     tally_of (gb s1) = ([0], [1], [0])"
proof -
  let ?env = "list_env (\<lambda>ts. 7)" and ?s = "list_start (\<lambda>ts. 7) [7, 7] 1"
  obtain d0 where d0: "drafter_init 4 2 (1 / 4) (Some 32000) = Inr d0" by (simp add: drafter_init_def)
  define d where "d = fold add_one [7, 7] d0"
  have "indexes (fold drafter_step [Add_prompt_tokens [7, 7, 7]] d0) (concat (map call_tokens [Add_prompt_tokens [7, 7, 7]])) \<and>
      drafter_config (fold drafter_step [Add_prompt_tokens [7, 7, 7]] d0) = (4, 2, 1 / 4, Some 32000)"
    by (rule drafter_run [OF d0]) simp
  then have ix: "indexes (add_one 7 d) [7, 7, 7]" "drafter_config (add_one 7 d) = (4, 2, 1 / 4, Some 32000)"
    by (simp_all add: d_def add_prompt_tokens_def)
  have df: "drafter_for ?env 5 ?s = (Inr d, ?s\<lparr>drafters := AList.update 5 d (drafters ?s)\<rparr>)"
    by (simp add: drafter_for_def list_env_def list_start_def d0 d_def add_prompt_tokens_def add_generated_token_def Let_def)
  have km: "K_MIN ?env = 2" by (simp add: K_MIN_def list_env_def)
  define d1 where "d1 = (add_one 7 d)\<lparr>max_draft_tokens := 2\<rparr>"
  obtain draft d2 where g: "get_draft d1 = (draft, d2)" by fastforce
  have dr: "draft \<noteq> [] \<and> set draft \<subseteq> {7}"
  proof (rule constant_draft [OF _ _ _ _ _ _ g])
    show "indexes d1 [7, 7, 7]" using ix(1) by (simp add: d1_def indexes_max_draft)
    show "history d1 = replicate 3 7" using ix by (simp add: d1_def indexes_def window_of_def drafter_config_def numeral_3_eq_3)
  qed (use ix(2) in \<open>simp_all add: d1_def drafter_config_def\<close>)
  obtain s3 where s3: "suffix_step ?env ?s = verify_draft ?env 5 7 draft
        \<lparr>cooldown = 0, level = 0, zeros = 0, draft_width = 2, queued = []\<rparr> s3" "gb s3 = gb ?s" "pending_emits s3 = []"
  proof -
    let ?st = "\<lparr>cooldown = 0, level = 0, zeros = 0, draft_width = 2, queued = []\<rparr> :: uid_state"
    let ?s1 = "?s\<lparr>drafters := AList.update 5 d (drafters ?s)\<rparr>"
    define s2 where "s2 = snd (state_for ?env 5 ?s1)"
    have gs: "next_tokens (gb ?s) = Some [7]" "uids (gb ?s) = [5]" "logits_processors (gb ?s) = None" "uid_states ?s = []"
        "prompt_cache (gb ?s) = [Leaf_cache 0]" "pending_emits ?s = []"
      by (simp_all add: list_start_def)
    have sf: "state_for ?env 5 ?s1 = (?st, s2)" by (simp add: state_for_def s2_def gs km Let_def)
    have s2: "gb s2 = gb ?s" "pending_emits s2 = []" using state_for_frame [OF sf] gs by simp_all
    have step: "suffix_step ?env ?s = draft_step ?env 5 7 d ?st s2"
      using df sf by (simp add: suffix_step_def gs list_env_greedy)
    define s3 where "s3 = (set_uid_state 5 ?st s2)\<lparr>drafters := AList.update 5 d2 (drafters s2)\<rparr>"
    have s3: "gb s3 = gb ?s" "pending_emits s3 = []" by (simp_all add: s3_def frame_simps s2)
    have ok: "min_draft_len ?env = 1" "can_advance (api ?env) h n (Leaf_cache 0)" for h n
      by (simp_all add: list_env_def can_advance_def list_api_def)
    have "1 \<le> int (length draft)" using dr by (cases draft) auto
    then have "draft_step ?env 5 7 d ?st s2 = verify_draft ?env 5 7 draft ?st s3"
      using g dr ok by (simp add: draft_step_def Let_def add_generated_token_def d1_def [symmetric] s3_def [symmetric] frame_simps s2(1) gs)
    then show ?thesis using that step s3 by simp
  qed
  have "accepted_count (predictions (\<lambda>ts. 7) [7, 7] (7 # draft)) draft = length draft" using dr constant_accepted by blast
  then have "\<exists>s4. verify_draft ?env 5 7 draft \<lparr>cooldown = 0, level = 0, zeros = 0, draft_width = 2, queued = []\<rparr> s3 =
      (Inr [7], commit_verified 5 7 draft (predictions (\<lambda>ts. 7) [7, 7] (7 # draft)) s4) \<and>
      pending_emits s4 = [] \<and> tally_of (gb s4) = ([0], [1], [0])"
    using s3(2,3) by (simp add: verify_draft_def Let_def list_env_def list_start_def frame_simps tally_of_def)
      (rule exI, rule conjI, rule refl, simp add: frame_simps)
  then obtain s4 where "verify_draft ?env 5 7 draft \<lparr>cooldown = 0, level = 0, zeros = 0, draft_width = 2, queued = []\<rparr> s3 =
      (Inr [7], commit_verified 5 7 draft (predictions (\<lambda>ts. 7) [7, 7] (7 # draft)) s4)"
      "pending_emits s4 = []" "tally_of (gb s4) = ([0], [1], [0])" by blast
  then show ?thesis using dr constant_accepted [of draft "[7, 7]" 7]
    unfolding s3(1) by (simp add: commit_verified_def Let_def tally_of_def)
qed

theorem primary_finish_publishes_lookahead_witness:
  "\<exists>r s' x xs. suffix_next (list_env (\<lambda>ts. 7)) (list_next (list_env (\<lambda>ts. 7))) (list_start (\<lambda>ts. 7) [7, 7] 1) = (Inr [r], s') \<and>
     resp_finish r = Some Finish_length \<and> resp_tokens r = Some [7, 7, resp_token r] \<and> resp_cache r = Some x \<and>
     x = [7, 7, resp_token r] @ xs \<and> xs \<noteq> []"
proof -
  let ?env = "list_env (\<lambda>ts. 7)" and ?s = "list_start (\<lambda>ts. 7) [7, 7] 1"
  obtain s1 xs where b: "suffix_step ?env ?s = (Inr [7], s1)" "pending_emits s1 = [(5, xs)]" "xs \<noteq> []" "tally_of (gb s1) = ([0], [1], [0])"
    using list_start_burst by blast
  obtain g where g: "account_token ?env 0 7 (gb s1) = (Some Finish_length, g)"
    unfolding account_tally b(4) by (simp add: tally_def list_env_def)
  obtain r s' x where "suffix_next ?env (list_next ?env) ?s = (Inr [r], s') \<and> resp_finish r = Some Finish_length \<and>
      resp_tokens r = Some ([7, 7] @ [resp_token r]) \<and> resp_cache r = Some x \<and> x = [7, 7] @ [resp_token r] @ xs \<and> x \<noteq> [7, 7] @ [resp_token r]"
    using primary_finish_publishes_lookahead [OF list_env_laws list_extract_law list_next_law list_matcher_law list_env_greedy list_start_committed b(1-3) g]
    by blast
  then show ?thesis using b(3) by auto
qed

end
