(* ===== verification/SuffixBackoff.thy ===== *)
theory SuffixBackoff
  imports SuffixLossless
begin

text \<open>
  Invariants of the verify loop over every sequence of its transitions, whatever mlx-lm does in between: the bounds of
  the backoff state and the draft width, the books, and the life time of per-request state.
\<close>

section \<open>Transitions\<close>

text \<open>
  mlx-lm changes the batch between the calls as it likes. A step that raised is taken too; \<open>n\<close> counts the steps that ended
  in \<open>RuntimeError\<close>, as one does whose rollback violates its preflight.
\<close>

inductive suffix_reach :: "('c, 'k, 'm, 'x) suffix_env \<Rightarrow> accept_counter \<Rightarrow> nat \<Rightarrow> ('c, 'm) suffix_run \<Rightarrow> bool"
  for env :: "('c, 'k, 'm, 'x) suffix_env" and c0 :: accept_counter where
  install: "suffix_reach env c0 0 \<lparr>gb = g, drafters = [], pending_emits = [], uid_states = [],
     run_stats = \<lparr>st_verify_steps = 0, st_fallthrough_steps = 0, st_proposed = 0, st_accepted = 0, st_errors = 0,
       st_ft = (\<lambda>r. 0), st_cooldown_trips = 0, st_cooldown_level = 0, st_k_current = 0\<rparr>, counter = c0\<rparr>"
| batch: "suffix_reach env c0 n s \<Longrightarrow> suffix_reach env c0 n (s\<lparr>gb := g\<rparr>)"
| step: "suffix_reach env c0 n s \<Longrightarrow> suffix_step env s = (r, s') \<Longrightarrow> r \<noteq> Inl RuntimeError \<Longrightarrow> suffix_reach env c0 n s'"
| step_violated: "suffix_reach env c0 n s \<Longrightarrow> suffix_step env s = (Inl RuntimeError, s') \<Longrightarrow> suffix_reach env c0 (Suc n) s'"
| drain: "suffix_reach env c0 n s \<Longrightarrow> drain_responses env rs s = (r, s') \<Longrightarrow> suffix_reach env c0 n s'"
| reap: "suffix_reach env c0 n s \<Longrightarrow> suffix_reach env c0 n (reap_finished env rs s)"
| removed: "suffix_reach env c0 n s \<Longrightarrow> suffix_reach env c0 n (reset_state_gauges_if_idle env (fold reap_uid us s))"
| teardown: "suffix_reach env c0 n s \<Longrightarrow> suffix_reach env c0 n (suffix_teardown env s)"

section \<open>The invariant\<close>

definition uid_state_ok :: "('c, 'k, 'm, 'x) suffix_env \<Rightarrow> uid_state \<Rightarrow> bool" where
  "uid_state_ok env st \<longleftrightarrow> 0 \<le> cooldown st \<and> cooldown st \<le> 320 \<and> 0 \<le> level st \<and> 0 \<le> zeros st \<and> zeros st < 3 \<and>
     (level st \<noteq> 0 \<longrightarrow> zeros st = 0) \<and> K_MIN env \<le> draft_width st \<and> draft_width st \<le> max_draft env"

text \<open>
  The statistics of this installation are what the process-wide counter gained since, but for the verifies \<open>lost\<close>, given by
  the lengths of their drafts: they are in the statistics and were never recorded in the counter.
\<close>

definition books_agree :: "accept_counter \<Rightarrow> int list \<Rightarrow> suffix_stats \<Rightarrow> accept_counter \<Rightarrow> bool" where
  "books_agree c0 lost st c \<longleftrightarrow> ac_verify_steps c + int (length lost) = ac_verify_steps c0 + st_verify_steps st \<and>
     ac_fallthrough_steps c = ac_fallthrough_steps c0 + st_fallthrough_steps st \<and>
     ac_proposed c + sum_list lost = ac_proposed c0 + st_proposed st \<and> ac_accepted c = ac_accepted c0 + st_accepted st \<and>
     ac_errors c = ac_errors c0 + st_errors st \<and> ac_cooldown_trips c = ac_cooldown_trips c0 + st_cooldown_trips st \<and>
     (\<forall>r n. ac_ft c0 r = Some n \<longrightarrow> ac_ft c r = Some (n + st_ft st r))"

definition suffix_inv :: "('c, 'k, 'm, 'x) suffix_env \<Rightarrow> accept_counter \<Rightarrow> int list \<Rightarrow> ('c, 'm) suffix_run \<Rightarrow> bool" where
  "suffix_inv env c0 lost s \<longleftrightarrow> (\<forall>u st. map_of (uid_states s) u = Some st \<longrightarrow> uid_state_ok env st) \<and>
     dom (map_of (uid_states s)) \<subseteq> dom (map_of (drafters s)) \<and> reconciled (counter s) \<and> books_agree c0 lost (run_stats s) (counter s)"

text \<open>Installation checks the width: at least one token is drafted.\<close>

definition width_ok :: "('c, 'k, 'm, 'x) suffix_env \<Rightarrow> bool" where
  "width_ok env \<longleftrightarrow> 1 \<le> max_draft env"

lemma K_MIN_bounds: "width_ok env \<Longrightarrow> 1 \<le> K_MIN env \<and> K_MIN env \<le> max_draft env"
  by (auto simp: width_ok_def K_MIN_def)

lemma next_width_ok:
  assumes "width_ok env" and "K_MIN env \<le> w" and "w \<le> max_draft env"
  shows "K_MIN env \<le> next_width env n k w \<and> next_width env n k w \<le> max_draft env"
  using K_MIN_bounds [OF assms(1)] assms(2,3) by (auto simp: next_width_def)

lemma backoff_update_ok:
  assumes "uid_state_ok env st" and "backoff_update n k st = (st', trip)"
  shows "uid_state_ok env st' \<and> draft_width st' = draft_width st"
proof -
  have p: "0 \<le> min (10 * (2::int) ^ m) 320" for m by simp
  show ?thesis using assms p
    by (auto simp: backoff_update_def uid_state_ok_def Let_def COOLDOWN_TRIGGER_def COOLDOWN_BASE_def COOLDOWN_MAX_def
        split: if_splits)
qed

lemma delete_keys: "map_of (AList.delete k xs) u = (if u = k then None else map_of xs u)"
  by (simp add: delete_conv')

lemma update_keys: "map_of (AList.update k v xs) u = (if u = k then Some v else map_of xs u)"
  by (simp add: update_conv')

lemmas suffix_maps = delete_keys update_keys

text \<open>The invariant depends only on four fields; the changes the transitions are made of keep it.\<close>

lemma suffix_inv_cong:
  assumes "suffix_inv env c0 lost s" and "uid_states s' = uid_states s" and "drafters s' = drafters s"
    and "run_stats s' = run_stats s" and "counter s' = counter s"
  shows "suffix_inv env c0 lost s'"
  using assms by (simp add: suffix_inv_def)

lemma books_set_state: "books_agree c0 lost st (set_state k l c) = books_agree c0 lost st c"
  by (simp add: books_agree_def set_state_def)

lemma inv_idle: "suffix_inv env c0 lost s \<Longrightarrow> suffix_inv env c0 lost (reset_state_gauges_if_idle env s)"
  by (simp add: reset_state_gauges_if_idle_def suffix_inv_def books_set_state)

lemma inv_reap: "suffix_inv env c0 lost s \<Longrightarrow> suffix_inv env c0 lost (reap_uid u s)"
  by (auto simp: suffix_inv_def reap_uid_def suffix_maps dom_def split: if_splits)

lemma inv_reaps: "suffix_inv env c0 lost s \<Longrightarrow> suffix_inv env c0 lost (fold reap_uid us s)"
  by (induction us arbitrary: s) (simp_all add: inv_reap)

lemma inv_reap_finished: "suffix_inv env c0 lost s \<Longrightarrow> suffix_inv env c0 lost (reap_finished env rs s)"
proof -
  assume i: "suffix_inv env c0 lost s"
  have f: "suffix_inv env c0 lost (fold (\<lambda>r s. if resp_finish r \<noteq> None then reap_uid (resp_uid r) s else s) qs s)" for qs
    using i by (induction qs arbitrary: s) (simp_all add: inv_reap)
  show ?thesis using i inv_idle [OF f [of rs]] by (simp add: reap_finished_def)
qed

lemma inv_fallthrough:
  assumes "suffix_inv env c0 lost s" and "dom (ac_ft c0) = set FT_REASONS" and "r \<in> set FT_REASONS"
  shows "suffix_inv env c0 lost (fallthrough r s)"
proof -
  obtain n where n: "ac_ft c0 r = Some n" using assms(2,3) unfolding dom_def by auto
  have "books_agree c0 lost (run_stats s) (counter s)" using assms(1) by (simp add: suffix_inv_def)
  then have "books_agree c0 lost (run_stats (fallthrough r s)) (counter (fallthrough r s))"
    using n by (auto simp: books_agree_def fallthrough_def record_fallthrough_def)
  then show ?thesis using assms reconciled_fallthrough by (simp add: suffix_inv_def fallthrough_def)
qed

lemma inv_set_uid:
  assumes "suffix_inv env c0 lost s" and "uid_state_ok env st" and "u \<in> dom (map_of (drafters s))"
  shows "suffix_inv env c0 lost (set_uid_state u st s)"
  using assms by (auto simp: suffix_inv_def set_uid_state_def suffix_maps dom_def split: if_splits)

lemma inv_set_drafter: "suffix_inv env c0 lost s \<Longrightarrow> suffix_inv env c0 lost (s\<lparr>drafters := AList.update u d (drafters s)\<rparr>)"
  by (auto simp: suffix_inv_def suffix_maps dom_def)

lemma inv_drafter_for:
  "suffix_inv env c0 lost s \<Longrightarrow> drafter_for env u s = (r, s') \<Longrightarrow> suffix_inv env c0 lost s' \<and> (\<forall>d. r = Inr d \<longrightarrow> u \<in> dom (map_of (drafters s')))"
  by (auto simp: drafter_for_def Let_def inv_set_drafter suffix_maps split: option.splits sum.splits)

lemma inv_state_for:
  assumes "suffix_inv env c0 lost s" and "state_for env u s = (st, s')" and "width_ok env" and "u \<in> dom (map_of (drafters s))"
  shows "suffix_inv env c0 lost s' \<and> uid_state_ok env st \<and> drafters s' = drafters s"
proof (cases "map_of (uid_states s) u")
  case None
  have ok: "uid_state_ok env \<lparr>cooldown = 0, level = 0, zeros = 0, draft_width = K_MIN env, queued = []\<rparr>" (is "uid_state_ok env ?st")
    using K_MIN_bounds [OF assms(3)] by (simp add: uid_state_ok_def)
  have "suffix_inv env c0 lost ((set_uid_state u ?st s)\<lparr>counter := set_state (K_MIN env) 0 (counter s)\<rparr>)"
    using inv_set_uid [OF assms(1) ok assms(4)] by (simp add: suffix_inv_def set_uid_state_def books_set_state)
  then show ?thesis using assms(2) None ok by (auto simp: state_for_def Let_def set_uid_state_def)
next
  case (Some st')
  then show ?thesis using assms by (auto simp: state_for_def suffix_inv_def)
qed

lemma inv_run_orig: "suffix_inv env c0 lost s \<Longrightarrow> suffix_inv env c0 lost (snd (run_orig_step env s))"
  by (auto simp: run_orig_step_def suffix_inv_def split: prod.split)

lemma inv_drain_tokens: "suffix_inv env c0 lost s \<Longrightarrow> suffix_inv env c0 lost (snd (drain_tokens env u row xs s))"
proof (induction xs arbitrary: s)
  case (Cons t xs)
  obtain f g1 where a: "account_token env row t ((gb s)\<lparr>row_tokens := (row_tokens (gb s))[row := row_tokens (gb s) ! row @ [t]]\<rparr>) = (f, g1)"
    by fastforce
  have i: "suffix_inv env c0 lost (s\<lparr>gb := g\<rparr>)" for g by (rule suffix_inv_cong [OF Cons.prems]) simp_all
  show ?case
  proof (cases f)
    case None
    obtain q s2 where q: "drain_tokens env u row xs (s\<lparr>gb := g1\<rparr>) = (q, s2)" by fastforce
    then show ?thesis using a None Cons.IH [OF i [of g1]] by (cases q) (simp_all add: Let_def)
  next
    case (Some fin)
    have "suffix_inv env c0 lost (finish_row env u row (s\<lparr>gb := g\<rparr>))" for g
      unfolding finish_row_def Let_def by (intro inv_idle inv_reap suffix_inv_cong [OF Cons.prems]) simp_all
    then show ?thesis using a Some i by (simp add: Let_def split: prod.split)
  qed
qed simp

lemma inv_drain: "suffix_inv env c0 lost s \<Longrightarrow> suffix_inv env c0 lost (snd (drain_responses env rs s))"
proof (induction rs arbitrary: s)
  case (Cons r rs)
  define s1 where "s1 = s\<lparr>pending_emits := AList.delete (resp_uid r) (pending_emits s)\<rparr>"
  have i: "suffix_inv env c0 lost s1" by (rule suffix_inv_cong [OF Cons.prems]) (simp_all add: s1_def)
  have d: "suffix_inv env c0 lost (snd (drain_tokens env (resp_uid r) row xs s1))" for row xs by (rule inv_drain_tokens [OF i])
  show ?case
  proof (cases "resp_finish r \<noteq> None \<or> map_of (pending_emits s) (resp_uid r) = None \<or> map_of (pending_emits s) (resp_uid r) = Some [] \<or>
      uid_row (resp_uid r) (uids (gb s)) = None")
    case True
    then show ?thesis using Cons.IH [OF Cons.prems] Cons.IH [OF i] by (auto simp: Let_def s1_def split: option.split)
  next
    case False
    then obtain row xs where rx: "uid_row (resp_uid r) (uids (gb s)) = Some row" "map_of (pending_emits s) (resp_uid r) = Some xs"
        "xs \<noteq> []" "resp_finish r = None" by auto
    obtain q s2 where q: "drain_tokens env (resp_uid r) row xs s1 = (q, s2)" by fastforce
    have i2: "suffix_inv env c0 lost s2" using d [of row xs] by (simp add: q)
    obtain q' s3 where q': "drain_responses env rs s2 = (q', s3)" by fastforce
    then have "suffix_inv env c0 lost s3" using Cons.IH [OF i2] by simp
    then show ?thesis using rx q q' i2 by (cases q; cases q') (simp_all add: Let_def s1_def)
  qed
qed simp

lemma inv_teardown: "suffix_inv env c0 lost s \<Longrightarrow> suffix_inv env c0 lost (suffix_teardown env s)"
  unfolding suffix_teardown_def by (rule inv_idle) (simp add: suffix_inv_def)

section \<open>The step\<close>

lemma inv_record_verdict:
  assumes i: "suffix_inv env c0 lost s" and ok: "uid_state_ok env st" and w: "width_ok env" and u: "u \<in> dom (map_of (drafters s))"
  shows "suffix_inv env c0 lost (record_verdict env u n k st s) \<and> drafters (record_verdict env u n k st s) = drafters s"
proof -
  define width where "width = next_width env n k (draft_width st)"
  obtain st1 trip where b: "backoff_update n k (st\<lparr>draft_width := width\<rparr>) = (st1, trip)" by fastforce
  have "uid_state_ok env (st\<lparr>draft_width := width\<rparr>)"
    using ok next_width_ok [OF w, of "draft_width st" n k] by (simp add: uid_state_ok_def width_def)
  then have "uid_state_ok env st1" using backoff_update_ok [OF _ b] by blast
  then have i1: "suffix_inv env c0 lost (set_uid_state u st1 s)" using inv_set_uid [OF i _ u] by blast
  then show ?thesis
    by (cases trip) (simp_all add: record_verdict_def width_def [symmetric] b Let_def suffix_inv_def books_agree_def
        set_state_def record_cooldown_trip_def reconciled_def breakdown_def set_uid_state_def)
qed

lemma inv_commit:
  assumes i: "suffix_inv env c0 lost (s\<lparr>run_stats := st0\<rparr>)" and st: "run_stats s = st0\<lparr>st_verify_steps := st_verify_steps st0 + 1,
      st_proposed := st_proposed st0 + int (length draft)\<rparr>"
  shows "suffix_inv env c0 lost (commit_verified u w draft preds s)"
  using i by (auto simp: suffix_inv_def commit_verified_def Let_def st books_agree_def record_verify_def reconciled_def breakdown_def
      suffix_maps dom_def split: option.split)


text \<open>A failed forward, and a verified draft whose rollback was accepted.\<close>

lemma inv_verify_failed:
  assumes i: "suffix_inv env c0 lost s" and d: "dom (ac_ft c0) = set FT_REASONS"
  shows "suffix_inv env c0 lost (verify_failed k (s\<lparr>run_stats := (run_stats s)\<lparr>st_verify_steps := st_verify_steps (run_stats s) + 1,
      st_proposed := st_proposed (run_stats s) + k\<rparr>, gb := g\<rparr>))"
proof -
  have b: "books_agree c0 lost (run_stats s) (counter s)" "reconciled (counter s)" using i by (simp_all add: suffix_inv_def)
  have "reconciled (record_error (record_verify k 0 (counter s)))" using b(2) by (intro reconciled_error) simp
  moreover have "\<forall>r n. ac_ft c0 r = Some n \<longrightarrow> ac_ft (record_error (record_verify k 0 (counter s))) r =
      Some (n + ((st_ft (run_stats s))(''error'' := st_ft (run_stats s) ''error'' + 1)) r)"
    using b(1) by (simp add: books_agree_def record_error_def record_verify_def)
  ultimately show ?thesis using i b(1)
    by (simp add: suffix_inv_def verify_failed_def books_agree_def) (simp add: record_error_def record_verify_def)
qed

lemma inv_verify_draft:
  assumes i: "suffix_inv env c0 lost s" and ok: "uid_state_ok env st" and w: "width_ok env" and u: "u \<in> dom (map_of (drafters s))"
    and d: "dom (ac_ft c0) = set FT_REASONS" and v: "verify_draft env u t draft st s = (r, s')"
  shows "suffix_inv env c0 lost s' \<or> r = Inl RuntimeError \<and> suffix_inv env c0 (int (length draft) # lost) s'"
proof -
  let ?k = "int (length draft)"
  let ?bump = "\<lambda>q. q\<lparr>st_verify_steps := st_verify_steps q + 1, st_proposed := st_proposed q + ?k\<rparr>"
  obtain f h where f: "model_forward env (t # draft) (prompt_cache (gb s)) (cache_heap (gb s)) = (f, h)" by fastforce
  define s2 where "s2 = s\<lparr>run_stats := ?bump (run_stats s), gb := (gb s)\<lparr>cache_heap := h\<rparr>\<rparr>"
  show ?thesis
  proof (cases f)
    case (Inl e)
    have "suffix_inv env c0 lost (verify_failed ?k s2)" unfolding s2_def by (rule inv_verify_failed [OF i d])
    then have "suffix_inv env c0 lost (snd (run_orig_step env (verify_failed ?k s2)))" by (rule inv_run_orig)
    then show ?thesis using v f Inl by (simp add: verify_draft_def Let_def s2_def)
  next
    case (Inr preds)
    define n where "n = int (accepted_count preds draft)"
    define s3 where "s3 = record_verdict env u n ?k st s2"
    have i0: "suffix_inv env c0 lost (s\<lparr>gb := g\<rparr>)" for g by (rule suffix_inv_cong [OF i]) simp_all
    define s3' where "s3' = record_verdict env u n ?k st (s\<lparr>gb := (gb s)\<lparr>cache_heap := h\<rparr>\<rparr>)"
    have i3: "suffix_inv env c0 lost s3'" unfolding s3'_def by (rule inv_record_verdict [OF i0 ok w, THEN conjunct1]) (simp add: u)
    have e3: "s3 = s3'\<lparr>run_stats := ?bump (run_stats s3')\<rparr>"
    proof -
      obtain st1 trip where "backoff_update n ?k (st\<lparr>draft_width := next_width env n ?k (draft_width st)\<rparr>) = (st1, trip)" by fastforce
      then show ?thesis by (cases trip) (simp_all add: s3_def s3'_def s2_def record_verdict_def set_uid_state_def Let_def)
    qed
    have c: "suffix_inv env c0 lost (commit_verified u t draft preds (s3\<lparr>gb := g\<rparr>))" for g
    proof (rule inv_commit [where ?st0.0 = "run_stats s3'"])
      show "suffix_inv env c0 lost ((s3\<lparr>gb := g\<rparr>)\<lparr>run_stats := run_stats s3'\<rparr>)"
        by (rule suffix_inv_cong [OF i3]) (simp_all add: e3)
    qed (simp add: e3)
    have l: "suffix_inv env c0 (?k # lost) (s3\<lparr>gb := g\<rparr>)" for g
      using i3 by (simp add: e3 suffix_inv_def books_agree_def)
    have "s3\<lparr>gb := gb s3\<rparr> = s3" by simp
    then have c3: "suffix_inv env c0 lost (commit_verified u t draft preds s3)" using c [of "gb s3"] by simp
    have "verify_draft env u t draft st s =
        (if 0 < ?k - n
         then (case trim_all (api env) (prompt_cache (gb s3)) (?k - n) (cache_heap (gb s3)) of (ok, h1) \<Rightarrow>
            (let s4 = s3\<lparr>gb := (gb s3)\<lparr>cache_heap := h1\<rparr>\<rparr>
             in if \<not> ok then (Inl RuntimeError, s4) else (Inr [t], commit_verified u t draft preds s4)))
         else (Inr [t], commit_verified u t draft preds s3))"
      by (simp add: verify_draft_def Let_def f Inr s2_def [symmetric] n_def [symmetric] s3_def [symmetric])
    then show ?thesis using v l c c3 by (auto simp: Let_def split: if_splits prod.splits)
  qed
qed

lemma inv_step:
  assumes i: "suffix_inv env c0 lost s" and w: "width_ok env" and d: "dom (ac_ft c0) = set FT_REASONS"
    and v: "suffix_step env s = (r, s')"
  shows "suffix_inv env c0 lost s' \<or> r = Inl RuntimeError \<and> (\<exists>k\<ge>1. suffix_inv env c0 (k # lost) s')"
proof -
  have fall: "suffix_inv env c0 lost x" if "run_orig_step env (fallthrough q a) = (r, x)" "suffix_inv env c0 lost a" "q \<in> set FT_REASONS" for q a x
    using inv_run_orig [OF inv_fallthrough [OF that(2) d that(3)]] that(1) by (metis snd_conv)
  have q: "''batch_size'' \<in> set FT_REASONS" "''uids_size'' \<in> set FT_REASONS" "''non_greedy'' \<in> set FT_REASONS"
    "''logits_processors'' \<in> set FT_REASONS" "''no_draft'' \<in> set FT_REASONS" "''cooldown'' \<in> set FT_REASONS"
    "''non_trimmable_cache'' \<in> set FT_REASONS" by (simp_all add: FT_REASONS_def)
  define u where "u = hd (uids (gb s))"
  obtain e s1 where df: "drafter_for env u s = (e, s1)" by fastforce
  note i1 = inv_drafter_for [OF i df]
  obtain st s2 where sf: "state_for env u s1 = (st, s2)" by fastforce
  have main: "suffix_inv env c0 lost x \<or> r = Inl RuntimeError \<and> (\<exists>k\<ge>1. suffix_inv env c0 (k # lost) x)" if e: "e = Inr dr" and x: "(if 0 < cooldown st
        then run_orig_step env (fallthrough ''cooldown'' (set_uid_state u (st\<lparr>cooldown := cooldown st - 1, queued := queued st @ [t]\<rparr>) s2))
        else draft_step env u t dr st s2) = (r, x)" for dr t x
  proof -
    have u1: "u \<in> dom (map_of (drafters s1))" using i1 e by blast
    have i2: "suffix_inv env c0 lost s2" "uid_state_ok env st" "drafters s2 = drafters s1" using inv_state_for [OF _ sf w u1] i1 by blast+
    have u2: "u \<in> dom (map_of (drafters s2))" using u1 i2(3) by simp
    show ?thesis
    proof (cases "0 < cooldown st")
      case True
      have "uid_state_ok env (st\<lparr>cooldown := cooldown st - 1, queued := queued st @ [t]\<rparr>)" using i2(2) True by (simp add: uid_state_ok_def)
      then have "suffix_inv env c0 lost (set_uid_state u (st\<lparr>cooldown := cooldown st - 1, queued := queued st @ [t]\<rparr>) s2)"
        using inv_set_uid [OF i2(1) _ u2] by blast
      then show ?thesis using x True fall q(6) by simp
    next
      case False
      define st1 where "st1 = st\<lparr>queued := []\<rparr>"
      have ok1: "uid_state_ok env st1" using i2(2) by (simp add: st1_def uid_state_ok_def)
      obtain draft d2 where g: "get_draft ((add_generated_token t (fold add_generated_token (queued st) dr))\<lparr>max_draft_tokens := draft_width st1\<rparr>) = (draft, d2)"
        by fastforce
      define s3 where "s3 = (set_uid_state u st1 s2)\<lparr>drafters := AList.update u d2 (drafters s2)\<rparr>"
      have "drafters (set_uid_state u st1 s2) = drafters s2" by (simp add: set_uid_state_def)
      then have i3: "suffix_inv env c0 lost s3" using inv_set_drafter [OF inv_set_uid [OF i2(1) ok1 u2], of u d2] by (simp add: s3_def)
      have u3: "u \<in> dom (map_of (drafters s3))" by (simp add: s3_def suffix_maps dom_def)
      have "draft_step env u t dr st s2 = (if draft = [] \<or> int (length draft) < min_draft_len env then run_orig_step env (fallthrough ''no_draft'' s3)
          else if \<not> list_all (can_advance (api env) (cache_heap (gb s3)) (int (length draft))) (prompt_cache (gb s3))
          then run_orig_step env (fallthrough ''non_trimmable_cache'' s3) else verify_draft env u t draft st1 s3)"
        using g by (simp add: draft_step_def Let_def st1_def [symmetric] s3_def [symmetric])
      moreover have "suffix_inv env c0 lost x \<or> r = Inl RuntimeError \<and> (\<exists>k\<ge>1. suffix_inv env c0 (k # lost) x)"
        if "verify_draft env u t draft st1 s3 = (r, x)" "draft \<noteq> []"
      proof -
        have "1 \<le> int (length draft)" using that(2) by (cases draft) simp_all
        then show ?thesis using inv_verify_draft [OF i3 ok1 w u3 d that(1)] by blast
      qed
      ultimately show ?thesis using x False fall [OF _ i3] q by (simp split: if_splits)
    qed
  qed
  consider t where "next_tokens (gb s) = Some [t]" "length (uids (gb s)) = 1" "is_greedy_for_uid env u"
      "\<not> (case logits_processors (gb s) of None \<Rightarrow> False | Some lp \<Rightarrow> list_ex id lp)"
    | q where "q \<in> set FT_REASONS" "run_orig_step env (fallthrough q s) = (r, s')"
    using v q(1-4) unfolding suffix_step_def Let_def u_def
    by (auto split: option.splits if_splits simp: length_Suc_conv)
  then show ?thesis
  proof cases
    case 1
    have "suffix_step env s = (case e of Inl x \<Rightarrow> (Inl x, s1) | Inr dr \<Rightarrow>
        (if 0 < cooldown st
         then run_orig_step env (fallthrough ''cooldown'' (set_uid_state u (st\<lparr>cooldown := cooldown st - 1, queued := queued st @ [t]\<rparr>) s2))
         else draft_step env u t dr st s2))"
      using 1 df sf unfolding u_def by (cases e) (simp_all add: suffix_step_def Let_def)
    then show ?thesis using v i1 main by (cases e) auto
  next
    case 2
    then show ?thesis using fall i by blast
  qed
qed


lemma reach_inv:
  assumes "suffix_reach env c0 n s" and "width_ok env" and "reconciled c0"
  shows "\<exists>lost. length lost \<le> n \<and> (\<forall>k\<in>set lost. 1 \<le> k) \<and> suffix_inv env c0 lost s"
  using assms(1)
proof (induction rule: suffix_reach.induct)
  case (install g)
  then show ?case using assms(3) by (simp add: suffix_inv_def books_agree_def)
next
  case (batch n s g)
  have "suffix_inv env c0 lost (s\<lparr>gb := g\<rparr>)" if "suffix_inv env c0 lost s" for lost by (rule suffix_inv_cong [OF that]) simp_all
  then show ?case using batch.IH by blast
next
  case (step n s r s')
  then show ?case using inv_step [OF _ assms(2) _ step.hyps(2)] assms(3) unfolding reconciled_def by blast
next
  case (step_violated n s s')
  then obtain lost where l: "length lost \<le> n" "\<forall>k\<in>set lost. 1 \<le> k" "suffix_inv env c0 lost s" by blast
  have "suffix_inv env c0 lost s' \<or> (\<exists>k\<ge>1. suffix_inv env c0 (k # lost) s')"
    using inv_step [OF l(3) assms(2) _ step_violated.hyps(2)] assms(3) unfolding reconciled_def by blast
  then show ?case
  proof (elim disjE exE conjE)
    assume "suffix_inv env c0 lost s'"
    then show ?thesis using l by (intro exI [of _ lost]) simp
  next
    fix k :: int
    assume "1 \<le> k" "suffix_inv env c0 (k # lost) s'"
    then show ?thesis using l by (intro exI [of _ "k # lost"]) simp
  qed
next
  case (drain n s rs r s')
  then show ?case using inv_drain [of env c0 _ s rs] by auto
next
  case (reap n s rs)
  then show ?case using inv_reap_finished by blast
next
  case (removed n s us)
  then show ?case using inv_idle inv_reaps by blast
next
  case (teardown n s)
  then show ?case using inv_teardown by blast
qed

section \<open>The schedule\<close>

text \<open>The state after \<open>i\<close> verifies in a row that accepted nothing.\<close>

primrec after_misses :: "int \<Rightarrow> nat \<Rightarrow> uid_state \<Rightarrow> uid_state" where
  "after_misses k 0 st = st"
| "after_misses k (Suc i) st = fst (backoff_update 0 k (after_misses k i st))"

lemma after_misses_eager:
  assumes "level st = 0" and "zeros st = 0"
  shows "after_misses k 1 st = st\<lparr>zeros := 1\<rparr>" and "after_misses k 2 st = st\<lparr>zeros := 2\<rparr>"
    and "after_misses k (3 + i) st = st\<lparr>level := int i + 1, cooldown := min (10 * 2 ^ i) 320, zeros := 0\<rparr>"
proof -
  show 1: "after_misses k 1 st = st\<lparr>zeros := 1\<rparr>"
    using assms by (simp add: backoff_update_def Let_def COOLDOWN_TRIGGER_def)
  show 2: "after_misses k 2 st = st\<lparr>zeros := 2\<rparr>"
    using 1 assms by (simp add: numeral_2_eq_2 backoff_update_def Let_def COOLDOWN_TRIGGER_def)
  show "after_misses k (3 + i) st = st\<lparr>level := int i + 1, cooldown := min (10 * 2 ^ i) 320, zeros := 0\<rparr>"
  proof (induction i)
    case 0
    have "after_misses k 3 st = fst (backoff_update 0 k (after_misses k 2 st))" by (simp add: numeral_3_eq_3 numeral_2_eq_2)
    then show ?case using 2 assms
      by (simp add: backoff_update_def Let_def COOLDOWN_TRIGGER_def COOLDOWN_BASE_def COOLDOWN_MAX_def)
  next
    case (Suc i)
    have "after_misses k (Suc (3 + i)) st = fst (backoff_update 0 k (after_misses k (3 + i) st))" by (rule after_misses.simps(2))
    then have "after_misses k (3 + Suc i) st = fst (backoff_update 0 k (after_misses k (3 + i) st))"
      by (simp only: add_Suc_right)
    then show ?case using Suc.IH
      by (simp add: backoff_update_def Let_def COOLDOWN_BASE_def COOLDOWN_MAX_def nat_add_distrib)
  qed
qed

text \<open>A first step, on a prompt without repetition: no draft, one fallthrough, and the request's fresh state.\<close>

lemma first_step:
  "\<exists>s'. suffix_step (list_env (\<lambda>ts. 7)) (list_start (\<lambda>ts. 7) [] 3) = (Inr [7], s') \<and>
     uid_states s' = [(5, \<lparr>cooldown = 0, level = 0, zeros = 0, draft_width = 2, queued = []\<rparr>)] \<and>
     run_stats s' = (run_stats (list_start (\<lambda>ts. 7) [] 3))\<lparr>st_fallthrough_steps := 1, st_ft := (\<lambda>r. if r = ''no_draft'' then 1 else 0)\<rparr>"
proof -
  let ?env = "list_env (\<lambda>ts. 7)" and ?s = "list_start (\<lambda>ts. 7) [] 3"
    and ?st = "\<lparr>cooldown = 0, level = 0, zeros = 0, draft_width = 2, queued = []\<rparr> :: uid_state"
  obtain d0 where d0: "drafter_init 4 2 (1 / 4) (Some 32000) = Inr d0" by (simp add: drafter_init_def)
  have "indexes (fold drafter_step [Add_generated_token 7] d0) (concat (map call_tokens [Add_generated_token 7])) \<and>
      drafter_config (fold drafter_step [Add_generated_token 7] d0) = (4, 2, 1 / 4, Some 32000)"
    by (rule drafter_run [OF d0]) simp
  then have ix: "indexes (add_one 7 d0) [7]" "drafter_config (add_one 7 d0) = (4, 2, 1 / 4, Some 32000)"
    by (simp_all add: add_generated_token_def)
  define d1 where "d1 = (add_one 7 d0)\<lparr>max_draft_tokens := 2\<rparr>"
  have "indexes d1 [7]" using ix(1) by (simp add: d1_def indexes_max_draft)
  moreover have "length (history d1) = 1" using ix by (auto simp: d1_def indexes_def window_of_def drafter_config_def)
  ultimately obtain d2 where g: "get_draft d1 = ([], d2)" using single_no_draft [of d1 "[7]"] by (metis prod.collapse)
  have df: "drafter_for ?env 5 ?s = (Inr d0, ?s\<lparr>drafters := [(5, d0)]\<rparr>)"
    by (simp add: drafter_for_def list_env_def list_start_def d0 add_prompt_tokens_def)
  have km: "K_MIN ?env = 2" by (simp add: K_MIN_def list_env_def)
  have gs: "next_tokens (gb ?s) = Some [7]" "uids (gb ?s) = [5]" "logits_processors (gb ?s) = None" "uid_states ?s = []"
    by (simp_all add: list_start_def)
  have sf: "state_for ?env 5 (?s\<lparr>drafters := [(5, d0)]\<rparr>) =
      (?st, ?s\<lparr>drafters := [(5, d0)], uid_states := [(5, ?st)], counter := set_state 2 0 (counter ?s)\<rparr>)"
    by (simp add: state_for_def gs km Let_def)
  have "suffix_step ?env ?s = draft_step ?env 5 7 d0 ?st (?s\<lparr>drafters := [(5, d0)], uid_states := [(5, ?st)], counter := set_state 2 0 (counter ?s)\<rparr>)"
    using df sf by (simp add: suffix_step_def gs list_env_greedy)
  then show ?thesis using g
    by (simp add: draft_step_def Let_def add_generated_token_def d1_def [symmetric] run_orig_step_def fallthrough_def set_uid_state_def)
      (simp add: list_env_def list_start_def Let_def fun_eq_iff)
qed

lemma first_step_reach:
  "\<exists>s'. suffix_reach (list_env (\<lambda>ts. 7)) accept_counter_init 0 s' \<and>
     uid_states s' = [(5, \<lparr>cooldown = 0, level = 0, zeros = 0, draft_width = 2, queued = []\<rparr>)] \<and> st_fallthrough_steps (run_stats s') = 1"
proof -
  obtain s' where s': "suffix_step (list_env (\<lambda>ts. 7)) (list_start (\<lambda>ts. 7) [] 3) = (Inr [7], s')"
     "uid_states s' = [(5, \<lparr>cooldown = 0, level = 0, zeros = 0, draft_width = 2, queued = []\<rparr>)]"
     "run_stats s' = (run_stats (list_start (\<lambda>ts. 7) [] 3))\<lparr>st_fallthrough_steps := 1, st_ft := (\<lambda>r. if r = ''no_draft'' then 1 else 0)\<rparr>"
    using first_step by blast
  have "suffix_reach (list_env (\<lambda>ts. 7)) accept_counter_init 0 (list_start (\<lambda>ts. 7) [] 3)"
    unfolding list_start_def by (rule suffix_reach.install)
  then have "suffix_reach (list_env (\<lambda>ts. 7)) accept_counter_init 0 s'" using s'(1) by (rule suffix_reach.step) simp
  then show ?thesis using s'(2,3) by auto
qed

lemma list_width: "width_ok (list_env greedy)"
  by (simp add: width_ok_def list_env_def)

section \<open>Claims\<close>

text \<open>
  C39. \<^bold>\<open>Bounded backoff.\<close> In every reachable state each request's skip window is between 0 and 320 steps, its draft width
  between the floor and the configured maximum, and it has a drafter; three misses in a row from the eager state open a
  window of 10 steps, each further miss doubles it up to 320, and a verify that lands at least half of a draft of two or
  more tokens returns to eager drafting at once.
\<close>

theorem backoff_bounded:
  assumes "suffix_reach env c0 n s" and "width_ok env" and "reconciled c0" and "map_of (uid_states s) u = Some st"
  shows "0 \<le> cooldown st \<and> cooldown st \<le> 320 \<and> K_MIN env \<le> draft_width st \<and> draft_width st \<le> max_draft env \<and>
    (\<exists>d. map_of (drafters s) u = Some d) \<and>
    (\<forall>k i. level st = 0 \<and> zeros st = 0 \<longrightarrow>
       after_misses k (3 + i) st = st\<lparr>level := int i + 1, cooldown := min (10 * 2 ^ i) 320, zeros := 0\<rparr>) \<and>
    (\<forall>n k. 2 \<le> n \<and> k \<le> 2 * n \<longrightarrow> level (fst (backoff_update n k st)) = 0)"
proof -
  obtain lost where i: "suffix_inv env c0 lost s" using reach_inv [OF assms(1-3)] by blast
  then have "uid_state_ok env st" "u \<in> dom (map_of (drafters s))" using assms(4) by (auto simp: suffix_inv_def)
  then show ?thesis using after_misses_eager(3)
    by (auto simp: uid_state_ok_def backoff_update_def Let_def BACKOFF_DECAY_MIN_ACCEPT_def min_def)
qed

theorem backoff_bounded_witness:
  "\<exists>s st. suffix_reach (list_env (\<lambda>ts. 7)) accept_counter_init 0 s \<and> map_of (uid_states s) 5 = Some st \<and> cooldown st = 0 \<and>
     draft_width st = 2 \<and> cooldown (after_misses 4 5 st) = 40 \<and> (\<exists>d. map_of (drafters s) 5 = Some d)"
proof -
  obtain s where s: "suffix_reach (list_env (\<lambda>ts. 7)) accept_counter_init 0 s"
      "uid_states s = [(5, \<lparr>cooldown = 0, level = 0, zeros = 0, draft_width = 2, queued = []\<rparr>)]"
    using first_step_reach by blast
  let ?st = "\<lparr>cooldown = 0, level = 0, zeros = 0, draft_width = 2, queued = []\<rparr> :: uid_state"
  have m: "map_of (uid_states s) 5 = Some ?st" using s(2) by simp
  note b = backoff_bounded [OF s(1) list_width reconciled_init m]
  have "\<forall>k i. after_misses k (3 + i) ?st = ?st\<lparr>level := int i + 1, cooldown := min (10 * 2 ^ i) 320, zeros := 0\<rparr>" using b by simp
  then have "after_misses 4 (3 + 2) ?st = ?st\<lparr>level := int 2 + 1, cooldown := min (10 * 2 ^ 2) 320, zeros := 0\<rparr>" by blast
  then have "cooldown (after_misses 4 5 ?st) = 40" by simp
  then show ?thesis using s(1) m b by auto
qed

text \<open>
  C40. \<^bold>\<open>The books reconcile.\<close> In every state that an installation reaches while no other one writes the process-wide
  counter, its statistics are what the counter gained since, key by key, except for at most as many verifies as steps ended
  in \<open>RuntimeError\<close>: such a verify, whose rollback violated its preflight, is in the statistics with its draft and not in the
  counter. Without such a step they agree exactly. The counter's breakdown of the fallthrough reasons sums to its
  fallthrough steps, and so does that of the statistics.
\<close>

theorem suffix_books_reconcile:
  assumes "suffix_reach env c0 n s" and "width_ok env" and "reconciled c0"
  shows "(\<exists>lost. length lost \<le> n \<and> (\<forall>k\<in>set lost. 1 \<le> k) \<and> books_agree c0 lost (run_stats s) (counter s)) \<and>
    breakdown (counter s) = ac_fallthrough_steps (counter s) \<and>
    sum_list (map (st_ft (run_stats s)) FT_REASONS) = st_fallthrough_steps (run_stats s)"
proof -
  obtain lost where l: "length lost \<le> n" "\<forall>k\<in>set lost. 1 \<le> k" and i: "suffix_inv env c0 lost s"
    using reach_inv [OF assms] by blast
  then have b: "books_agree c0 lost (run_stats s) (counter s)" "reconciled (counter s)" by (simp_all add: suffix_inv_def)
  have dm: "dom (ac_ft c0) = set FT_REASONS" using assms(3) by (simp add: reconciled_def)
  have each: "(case ac_ft (counter s) r of None \<Rightarrow> 0 | Some n \<Rightarrow> n) = (case ac_ft c0 r of None \<Rightarrow> 0 | Some n \<Rightarrow> n) + st_ft (run_stats s) r"
    if r: "r \<in> set FT_REASONS" for r
  proof -
    obtain n where "ac_ft c0 r = Some n" using dm r unfolding dom_def by auto
    then show ?thesis using b(1) by (simp add: books_agree_def)
  qed
  have "breakdown (counter s) = breakdown c0 + sum_list (map (st_ft (run_stats s)) FT_REASONS)"
    unfolding breakdown_def using each by (simp add: sum_list_addf [symmetric] cong: map_cong)
  then have "sum_list (map (st_ft (run_stats s)) FT_REASONS) = st_fallthrough_steps (run_stats s)"
    using b assms(3) by (simp add: reconciled_def books_agree_def)
  then show ?thesis using b l by (auto simp: reconciled_def)
qed

theorem suffix_books_reconcile_witness:
  "\<exists>s. suffix_reach (list_env (\<lambda>ts. 7)) accept_counter_init 0 s \<and> ac_fallthrough_steps (counter s) = 1 \<and> breakdown (counter s) = 1 \<and>
     sum_list (map (st_ft (run_stats s)) FT_REASONS) = 1"
proof -
  obtain s where s: "suffix_reach (list_env (\<lambda>ts. 7)) accept_counter_init 0 s" "st_fallthrough_steps (run_stats s) = 1"
    using first_step_reach by blast
  have "(\<exists>lost. length lost \<le> 0 \<and> (\<forall>k\<in>set lost. 1 \<le> k) \<and> books_agree accept_counter_init lost (run_stats s) (counter s)) \<and> breakdown (counter s) = ac_fallthrough_steps (counter s) \<and>
      sum_list (map (st_ft (run_stats s)) FT_REASONS) = st_fallthrough_steps (run_stats s)"
    by (rule suffix_books_reconcile [OF s(1) list_width reconciled_init])
  then show ?thesis using s by (auto simp: books_agree_def accept_counter_init_def)
qed

text \<open>
  \<^bold>\<open>A violated rollback is counted on one side only.\<close> When the rollback of a verified draft fails, the step raises after the
  statistics counted the verify and its draft, and before the process-wide counter did.
\<close>

theorem violated_rollback_uncounted:
  assumes "model_forward env (t # draft) (prompt_cache (gb s)) (cache_heap (gb s)) = (Inr preds, h)"
    and "accepted_count preds draft < length draft"
    and "trim_all (api env) (prompt_cache (gb s)) (int (length draft) - int (accepted_count preds draft)) h = (False, h')"
  shows "\<exists>s'. verify_draft env u t draft st s = (Inl RuntimeError, s') \<and>
    st_verify_steps (run_stats s') = st_verify_steps (run_stats s) + 1 \<and>
    st_proposed (run_stats s') = st_proposed (run_stats s) + int (length draft) \<and>
    ac_verify_steps (counter s') = ac_verify_steps (counter s) \<and> ac_proposed (counter s') = ac_proposed (counter s)"
proof -
  obtain st1 trip where b: "backoff_update (int (accepted_count preds draft)) (int (length draft)) (st\<lparr>draft_width :=
      next_width env (int (accepted_count preds draft)) (int (length draft)) (draft_width st)\<rparr>) = (st1, trip)" by fastforce
  show ?thesis using assms
    by (cases trip) (simp_all add: verify_draft_def Let_def record_verdict_def b set_uid_state_def set_state_def record_cooldown_trip_def)
qed

end
