(* ===== verification/HybridCheckpoints.thy ===== *)
theory HybridCheckpoints
  imports Prelude
begin

text \<open>
  \<^bold>\<open>rapid_mlx/hybrid_state_checkpoints.py.\<close> Snapshots of recurrent layers at prefill positions. An array is its identity
  (arrays are immutable and held by reference), its size is a parameter. \<open>StateCheckpoints\<close> is a record, each of its
  methods a function. A layer of a prompt cache is what the code can observe of it: nothing, an extracted dictionary,
  a wrapper with \<open>caches\<close>, or a leaf object with its class, its attributes and, on a recurrent layer, its holder; the
  attributes that only mlx-lm's own methods read are the type variable \<open>'a\<close>. The environment variables with the
  defaults of the bound and the stride, and the evaluation of lazy arrays, are arguments.
\<close>

section \<open>Holders\<close>

type_synonym arr = nat

record checkpoints =
  items :: "(int \<times> arr list) list"
  anchor_position :: "int option"

definition make_checkpoints :: "(int \<times> arr list) list \<Rightarrow> int option \<Rightarrow> checkpoints" where
  "make_checkpoints its anchor =
     (let sorted_items = sort_key fst its
      in \<lparr>items = sorted_items,
          anchor_position = (case anchor of None \<Rightarrow> None
            | Some a \<Rightarrow> if a \<in> fst ` set sorted_items then Some a else None)\<rparr>)"

definition positions :: "checkpoints \<Rightarrow> int list" where
  "positions h = map fst (items h)"

definition holder_arrays :: "checkpoints \<Rightarrow> arr list" where
  "holder_arrays h = concat (map snd (items h))"

definition holder_nbytes :: "(arr \<Rightarrow> int) \<Rightarrow> checkpoints \<Rightarrow> int" where
  "holder_nbytes nbytes h = sum_list (map nbytes (holder_arrays h))"

definition arrays_at :: "int \<Rightarrow> checkpoints \<Rightarrow> arr list option" where
  "arrays_at position h = map_of (items h) position"

definition newest_at_or_below :: "int \<Rightarrow> checkpoints \<Rightarrow> int" where
  "newest_at_or_below position h =
     fold (\<lambda>(p, _) best. if p \<le> position \<and> best < p then p else best) (items h) 0"

definition truncated :: "int \<Rightarrow> checkpoints \<Rightarrow> checkpoints" where
  "truncated position h = make_checkpoints (filter (\<lambda>it. fst it \<le> position) (items h)) (anchor_position h)"

definition gap_before :: "(int \<times> arr list) list \<Rightarrow> nat \<Rightarrow> int" where
  "gap_before its i = (if i = 0 then fst (its ! 0) else fst (its ! i) - fst (its ! (i - 1)))"

definition del_at :: "nat \<Rightarrow> 'b list \<Rightarrow> 'b list" where
  "del_at i xs = take i xs @ drop (Suc i) xs"

lemma victim_bound:
  assumes "filter P [0..<length its - 1] = c # cs"
  shows "min_by (gap_before its) c cs < length its - 1" "P (min_by (gap_before its) c cs)"
proof -
  have "min_by (gap_before its) c cs \<in> set (filter P [0..<length its - 1])"
    unfolding assms using min_by_in [of "gap_before its" c cs] by simp
  then show "min_by (gap_before its) c cs < length its - 1" "P (min_by (gap_before its) c cs)"
    by (simp_all only: set_filter mem_Collect_eq set_upt atLeastLessThan_iff)
qed

text \<open>Thinning drops the checkpoint with the smallest gap to its predecessor, never the newest and never the anchor.\<close>

function thin :: "int \<Rightarrow> int option \<Rightarrow> (int \<times> arr list) list \<Rightarrow> (int \<times> arr list) list" where
  "thin max_count anchor its =
     (if int (length its) \<le> max_count then its
      else case filter (\<lambda>i. Some (fst (its ! i)) \<noteq> anchor) [0..<length its - 1] of
          [] \<Rightarrow> butlast its
        | c # cs \<Rightarrow> thin max_count anchor (del_at (min_by (gap_before its) c cs) its))"
  by pat_completeness auto

termination
proof (relation "measure (\<lambda>(_, _, its). length its)")
  fix max_count anchor and its :: "(int \<times> arr list) list" and c cs
  assume "filter (\<lambda>i. Some (fst (its ! i)) \<noteq> anchor) [0..<length its - 1] = c # cs"
  from victim_bound(1) [OF this]
  show "((max_count, anchor, del_at (min_by (gap_before its) c cs) its), (max_count, anchor, its))
      \<in> measure (\<lambda>(_, _, its). length its)"
    by (simp add: del_at_def)
qed simp

declare thin.simps [simp del]

definition with_checkpoint :: "int \<Rightarrow> int \<Rightarrow> bool \<Rightarrow> bool \<Rightarrow> int \<Rightarrow> arr list \<Rightarrow> checkpoints \<Rightarrow> checkpoints" where
  "with_checkpoint max_count stride force anchor position arrays h =
     (if max_count \<le> 0 then h
      else if items h \<noteq> [] \<and>
          (position < fst (last (items h)) \<or> (position - fst (last (items h)) < stride \<and> \<not> force)) then h
      else if items h \<noteq> [] \<and> position = fst (last (items h))
      then (if \<not> anchor \<or> anchor_position h \<noteq> None then h else make_checkpoints (items h) (Some position))
      else let anchored = (if anchor \<and> anchor_position h = None then Some position else anchor_position h)
        in make_checkpoints (thin max_count anchored (items h @ [(position, arrays)])) anchored)"

section \<open>Layers\<close>

record leaf_class =
  type_name :: string
  type_module :: string
  isa_kv :: bool          \<comment> \<open>\<open>isinstance(layer, KVCache)\<close>, and so on\<close>
  isa_rotating :: bool
  isa_quantized :: bool
  isa_turbo :: bool       \<comment> \<open>it has \<open>values_compressed\<close>\<close>
  isa_arrays :: bool      \<comment> \<open>one of the recurrent classes, its \<open>cache\<close> a list\<close>

datatype keys_attr = No_keys | Keys_none | Key_array arr | Key_tuple "arr list"

record 'a leaf =
  leaf_class :: leaf_class
  offset :: "int option"
  keys_of :: keys_attr
  values_of :: "arr list"
  cells :: "arr option list"    \<comment> \<open>the \<open>cache\<close> of a recurrent layer\<close>
  holder :: "checkpoints option"
  attrs :: 'a

datatype 'a layer =
    Absent
  | Extracted "string option" "(arr list) option"   \<comment> \<open>a dictionary: its \<open>class_name\<close> and \<open>state\<close>\<close>
  | Wrapper string string "'a layer list"           \<comment> \<open>type name, module and \<open>caches\<close>\<close>
  | Leaf "'a leaf"

fun is_recurrent_layer :: "'a layer \<Rightarrow> bool" where
  "is_recurrent_layer (Leaf l) = isa_arrays (leaf_class l)"
| "is_recurrent_layer _ = False"

fun layer_checkpoints :: "'a layer \<Rightarrow> checkpoints option" where
  "layer_checkpoints (Leaf l) = holder l"
| "layer_checkpoints _ = None"

definition collect_checkpoints :: "'a layer list \<Rightarrow> checkpoints option list" where
  "collect_checkpoints cache = map (\<lambda>layer. if is_recurrent_layer layer then layer_checkpoints layer else None) cache"

definition checkpoint_bytes :: "(arr \<Rightarrow> int) \<Rightarrow> 'a layer list \<Rightarrow> int" where
  "checkpoint_bytes nbytes cache =
     sum_list (map (\<lambda>h. case h of None \<Rightarrow> 0 | Some h \<Rightarrow> holder_nbytes nbytes h) (collect_checkpoints cache))"

fun with_holder :: "checkpoints option \<Rightarrow> 'a layer \<Rightarrow> 'a layer" where
  "with_holder h (Leaf l) = Leaf (l\<lparr>holder := h\<rparr>)"
| "with_holder h layer = layer"

definition attach_checkpoints :: "int option \<Rightarrow> checkpoints option list \<Rightarrow> 'a layer list \<Rightarrow> 'a layer list" where
  "attach_checkpoints max_position holders cache =
     (if length holders \<noteq> length cache then cache
      else map2 (\<lambda>layer h.
        if \<not> is_recurrent_layer layer then layer
        else let h1 = (case (h, max_position) of (Some h, Some m) \<Rightarrow> Some (truncated m h) | _ \<Rightarrow> h)
          in with_holder (case h1 of Some h \<Rightarrow> if items h = [] then None else Some h | None \<Rightarrow> None) layer) cache holders)"

fun leaf_cells :: "'a layer \<Rightarrow> arr option list" where
  "leaf_cells (Leaf l) = cells l"
| "leaf_cells _ = []"

text \<open>The base a layer records on: a missing or empty holder counts as a fresh one.\<close>

definition base_holder :: "checkpoints option \<Rightarrow> checkpoints" where
  "base_holder h = (case h of Some h \<Rightarrow> if items h = [] then make_checkpoints [] None else h | None \<Rightarrow> make_checkpoints [] None)"

text \<open>\<open>materialise\<close> tells whether the arrays of the states could be evaluated.\<close>

definition record_checkpoints :: "((nat \<times> arr list) list \<Rightarrow> bool) \<Rightarrow> int \<Rightarrow> int \<Rightarrow> bool \<Rightarrow> bool \<Rightarrow> int \<Rightarrow> 'a layer list \<Rightarrow>
    checkpoints option list \<Rightarrow> bool \<times> checkpoints option list" where
  "record_checkpoints materialise max_count stride force anchor position cache holders =
     (if max_count \<le> 0 \<or> position \<le> 0 \<or> length holders \<noteq> length cache then (False, holders)
      else case filter (\<lambda>i. is_recurrent_layer (cache ! i)) [0..<length cache] of
          [] \<Rightarrow> (False, holders)
        | first # others \<Rightarrow>
            (let recurrent = first # others
             in if \<exists>i\<in>set recurrent. None \<in> set (leaf_cells (cache ! i)) then (False, holders)
                else let states = map (\<lambda>i. (i, map the (leaf_cells (cache ! i)))) recurrent;
                         newest = (case holders ! first of None \<Rightarrow> None
                           | Some h \<Rightarrow> if positions h = [] then None else Some (last (positions h)))
                  in if (case newest of None \<Rightarrow> False
                         | Some n \<Rightarrow> position < n \<or> (position - n < stride \<and> \<not> force)) then (False, holders)
                     else if \<not> materialise states then (False, holders)
                     else (True, fold (\<lambda>(i, arrays) hs.
                        hs[i := Some (with_checkpoint max_count stride force anchor position arrays (base_holder (hs ! i)))])
                      states holders)))"

text \<open>The positions a layer can resume at, their intersection with those so far, and the early return of 0.\<close>

definition layer_positions :: "int \<Rightarrow> 'a layer \<Rightarrow> int list" where
  "layer_positions target layer =
     (case layer_checkpoints layer of None \<Rightarrow> [] | Some h \<Rightarrow> filter (\<lambda>p. p \<le> target) (positions h))"

definition narrow :: "int list option \<Rightarrow> int list \<Rightarrow> int list" where
  "narrow common ps = (case common of None \<Rightarrow> ps | Some c \<Rightarrow> filter (\<lambda>p. p \<in> set ps) c)"

fun common_positions :: "int \<Rightarrow> int list option \<Rightarrow> 'a layer list \<Rightarrow> int" where
  "common_positions target common [] = (case common of None \<Rightarrow> target | Some ps \<Rightarrow> Max (set ps))"
| "common_positions target common (layer # layers) =
     (if \<not> is_recurrent_layer layer then common_positions target common layers
      else let c = narrow common (layer_positions target layer)
        in if c = [] then 0 else common_positions target (Some c) layers)"

definition achievable_position :: "'a layer list \<Rightarrow> int \<Rightarrow> int" where
  "achievable_position cache target = common_positions target None cache"

text \<open>\<open>clear_rows\<close> sets \<open>left_padding\<close> and \<open>lengths\<close> to \<open>None\<close> where the object has them.\<close>

definition restore_recurrent_layer :: "('a \<Rightarrow> 'a) \<Rightarrow> 'a layer \<Rightarrow> int \<Rightarrow> 'a layer option" where
  "restore_recurrent_layer clear_rows layer position =
     (case layer of
        Leaf l \<Rightarrow>
          (case holder l of None \<Rightarrow> None
           | Some h \<Rightarrow> (case arrays_at position h of None \<Rightarrow> None
              | Some arrays \<Rightarrow> Some (Leaf (l\<lparr>cells := map Some arrays, attrs := clear_rows (attrs l),
                  holder := Some (truncated position h)\<rparr>))))
      | _ \<Rightarrow> None)"

section \<open>Holders stay well formed\<close>

text \<open>Strictly increasing positive positions; the anchor is one of them.\<close>

definition holder_ok :: "checkpoints \<Rightarrow> bool" where
  "holder_ok h \<longleftrightarrow> sorted_wrt (<) (positions h) \<and> (\<forall>p\<in>set (positions h). 0 < p) \<and>
     (\<forall>a. anchor_position h = Some a \<longrightarrow> a \<in> set (positions h))"

lemma sort_key_id: "sorted_wrt (<) (map f xs) \<Longrightarrow> sort_key f xs = (xs :: 'b list)" for f :: "'b \<Rightarrow> 'k::linorder"
  by (rule sort_key_id_if_sorted) (auto simp: sorted_wrt_map elim!: sorted_wrt_mono_rel [rotated])

lemma make_items: "sorted_wrt (<) (map fst its) \<Longrightarrow> items (make_checkpoints its a) = its"
  by (simp add: make_checkpoints_def Let_def sort_key_id)

lemma make_ok:
  assumes "sorted_wrt (<) (map fst its)" and "\<forall>p\<in>set (map fst its). 0 < p"
  shows "holder_ok (make_checkpoints its a)"
  using assms by (auto simp: holder_ok_def positions_def make_checkpoints_def Let_def sort_key_id split: option.splits if_splits)

lemma del_at_split: "i < length xs \<Longrightarrow> xs = take i xs @ xs ! i # drop (Suc i) xs"
  by (rule id_take_nth_drop)

lemma del_at_sorted: "i < length xs \<Longrightarrow> sorted_wrt (<) (map fst xs) \<Longrightarrow> sorted_wrt (<) (map fst (del_at i xs))"
  for xs :: "(int \<times> arr list) list"
proof -
  assume i: "i < length xs" and s: "sorted_wrt (<) (map fst xs)"
  have "sorted_wrt (<) (map fst (take i xs @ xs ! i # drop (Suc i) xs))" using s del_at_split [OF i] by simp
  then show ?thesis unfolding del_at_def by (simp add: sorted_wrt_append)
qed

lemma del_at_set: "i < length xs \<Longrightarrow> set (del_at i xs) \<subseteq> set xs \<and> set xs \<subseteq> insert (xs ! i) (set (del_at i xs))"
proof -
  assume i: "i < length xs"
  have "set xs = set (take i xs @ xs ! i # drop (Suc i) xs)" using del_at_split [OF i] by simp
  then show ?thesis by (auto simp: del_at_def)
qed

lemma del_at_last: "i < length xs - 1 \<Longrightarrow> last (del_at i xs) = last xs \<and> del_at i xs \<noteq> []"
  by (auto simp: del_at_def)

lemma del_at_butlast: "i < length xs - 1 \<Longrightarrow> set (butlast (del_at i xs)) \<subseteq> set (butlast xs)"
proof -
  assume i: "i < length xs - 1"
  then have n: "\<not> length xs \<le> Suc i" by arith
  with i have "butlast (del_at i xs) = take i (butlast xs) @ drop (Suc i) (butlast xs)"
    by (simp add: del_at_def butlast_append take_butlast drop_butlast)
  then show ?thesis by (auto dest: in_set_takeD in_set_dropD)
qed

lemma thin_spec:
  assumes "sorted_wrt (<) (map fst its)" and "1 \<le> max_count"
  shows "sorted_wrt (<) (map fst (thin max_count a its)) \<and> set (thin max_count a its) \<subseteq> set its \<and>
    int (length (thin max_count a its)) \<le> max_count \<and>
    (\<forall>x. a = Some x \<and> x \<in> fst ` set its \<longrightarrow> x \<in> fst ` set (thin max_count a its)) \<and>
    (its \<noteq> [] \<longrightarrow> thin max_count a its \<noteq> [] \<and>
      (last (thin max_count a its) = last its \<or> max_count = 1 \<and> (\<exists>x\<in>set (butlast its). a = Some (fst x))))"
  using assms
proof (induction max_count a its rule: thin.induct)
  case (1 mc a its)
  note s = \<open>sorted_wrt (<) (map fst its)\<close> and m = \<open>1 \<le> mc\<close>
  show ?case
  proof (cases "int (length its) \<le> mc")
    case True
    then have e: "thin mc a its = its" by (simp add: thin.simps [of mc a its])
    show ?thesis unfolding e using s True by simp
  next
    case big: False
    then have l: "2 \<le> length its" using m by simp
    show ?thesis
    proof (cases "filter (\<lambda>i. Some (fst (its ! i)) \<noteq> a) [0..<length its - 1]")
      case Nil
      then have all: "\<forall>i<length its - 1. a = Some (fst (its ! i))" by (auto simp: filter_empty_conv)
      have "length its = 2"
      proof (rule ccontr)
        assume "length its \<noteq> 2"
        then have "0 < length its - 1" "1 < length its - 1" using l by simp_all
        then have "a = Some (fst (its ! 0))" "a = Some (fst (its ! 1))" using all by blast+
        then have "fst (its ! 0) = fst (its ! 1)" by simp
        moreover have "map fst its ! 0 < map fst its ! 1" by (rule sorted_wrt_nth_less [OF s]) (use l in simp_all)
        moreover have "map fst its ! 0 = fst (its ! 0)" "map fst its ! 1 = fst (its ! 1)" by (rule nth_map, use l in linarith)+
        ultimately show False by simp
      qed
      then obtain x y where its: "its = [x, y]" by (cases its; cases "tl its") auto
      then have ax: "a = Some (fst x)" "mc = 1" using all big m by simp_all
      have "thin mc a its = butlast its" by (simp only: thin.simps [of mc a its] big Nil if_False list.case)
      then have e: "thin mc a its = [x]" using its by simp
      have "fst x < fst y" using s its by simp
      then show ?thesis unfolding e using its ax by auto
    next
      case (Cons c cs)
      define v where "v = min_by (gap_before its) c cs"
      have v: "v < length its - 1" "Some (fst (its ! v)) \<noteq> a" using victim_bound [OF Cons] by (simp_all add: v_def)
      then have vl: "v < length its" by simp
      have step: "thin mc a its = thin mc a (del_at v its)" using big Cons by (simp add: thin.simps [of mc a its] v_def)
      note ih = "1.IH" [OF big Cons, folded v_def, OF del_at_sorted [OF vl s] m]
      note ds = del_at_set [OF vl] and dl = del_at_last [OF v(1)]
      have anch: "x \<in> fst ` set (del_at v its)" if "a = Some x" "x \<in> fst ` set its" for x using ds v(2) that by auto
      have "\<forall>x. a = Some x \<and> x \<in> fst ` set its \<longrightarrow> x \<in> fst ` set (thin mc a (del_at v its))" using ih anch by blast
      moreover have "thin mc a (del_at v its) \<noteq> [] \<and>
          (last (thin mc a (del_at v its)) = last its \<or> mc = 1 \<and> (\<exists>x\<in>set (butlast its). a = Some (fst x)))"
        using ih dl del_at_butlast [OF v(1)] by (metis (no_types, lifting) subsetD)
      ultimately show ?thesis unfolding step using ih ds by blast
    qed
  qed
qed

lemma make_anchor: "sorted_wrt (<) (map fst its) \<Longrightarrow>
    anchor_position (make_checkpoints its a) = (case a of None \<Rightarrow> None | Some x \<Rightarrow> if x \<in> fst ` set its then Some x else None)"
  by (simp add: make_checkpoints_def Let_def sort_key_id)

lemma thinned_holder:
  fixes arrays :: "arr list"
  assumes "holder_ok h" and "1 \<le> m" and "0 < position" and "items h \<noteq> [] \<longrightarrow> fst (last (items h)) < position"
    and "a = anchor_position h \<or> (anchor_position h = None \<and> a = Some position)"
  defines "r \<equiv> make_checkpoints (thin m a (items h @ [(position, arrays)])) a"
  shows "holder_ok r \<and> int (length (items r)) \<le> m \<and> set (items r) \<subseteq> insert (position, arrays) (set (items h)) \<and>
    (anchor_position h \<noteq> None \<longrightarrow> anchor_position r = anchor_position h) \<and>
    items r \<noteq> [] \<and> (last (items r) = (position, arrays) \<or> m = 1 \<and> anchor_position h \<noteq> None)"
proof -
  let ?its = "items h @ [(position, arrays)]"
  have ok: "sorted_wrt (<) (map fst (items h))" "\<forall>p\<in>set (map fst (items h)). 0 < p"
      "\<And>x. anchor_position h = Some x \<Longrightarrow> x \<in> fst ` set (items h)"
    using assms(1) by (auto simp: holder_ok_def positions_def)
  have below: "\<forall>p\<in>set (map fst (items h)). p < position"
  proof
    fix p assume "p \<in> set (map fst (items h))"
    then obtain i where i: "i < length (items h)" "p = fst (items h ! i)" by (auto simp: in_set_conv_nth)
    have ne: "items h \<noteq> []" using i(1) by auto
    have "fst (items h ! i) \<le> fst (last (items h))"
      using i(1) sorted_wrt_nth_less [OF ok(1), of i "length (items h) - 1"]
      by (cases "i = length (items h) - 1") (auto simp: last_conv_nth [OF ne] less_imp_le)
    then show "p < position" using assms(4) i by fastforce
  qed
  then have s: "sorted_wrt (<) (map fst ?its)" using ok(1) by (simp add: sorted_wrt_append)
  note t = thin_spec [OF s assms(2), of a]
  have it: "items r = thin m a ?its" unfolding r_def by (rule make_items) (use t in blast)
  have st: "sorted_wrt (<) (map fst (thin m a ?its))" and sub: "set (thin m a ?its) \<subseteq> set ?its" using t by blast+
  have "holder_ok r" unfolding r_def
    by (rule make_ok [OF st]) (use sub ok(2) assms(3) in auto)
  moreover have "anchor_position h \<noteq> None \<longrightarrow> anchor_position r = anchor_position h"
  proof
    assume "anchor_position h \<noteq> None"
    then obtain x where x: "anchor_position h = Some x" "a = Some x" using assms(5) by auto
    then have "x \<in> fst ` set (thin m a ?its)" using t ok(3) [OF x(1)] by auto
    then show "anchor_position r = anchor_position h" unfolding r_def make_anchor [OF st] using x by simp
  qed
  moreover have "last (items r) = (position, arrays) \<or> m = 1 \<and> anchor_position h \<noteq> None"
  proof (rule disjCI)
    assume n: "\<not> (m = 1 \<and> anchor_position h \<noteq> None)"
    have "\<not> (m = 1 \<and> (\<exists>x\<in>set (items h). a = Some (fst x)))"
    proof
      assume e: "m = 1 \<and> (\<exists>x\<in>set (items h). a = Some (fst x))"
      then have "a = Some position" using n assms(5) by auto
      then show False using e below by auto
    qed
    moreover have "last (thin m a ?its) = last ?its \<or> m = 1 \<and> (\<exists>x\<in>set (butlast ?its). a = Some (fst x))" using t by blast
    ultimately show "last (items r) = (position, arrays)" unfolding it by auto
  qed
  ultimately show ?thesis using t sub unfolding it by auto
qed

section \<open>What a common checkpoint is\<close>

definition has_position :: "int \<Rightarrow> 'a layer \<Rightarrow> bool" where
  "has_position p layer \<longleftrightarrow> (\<exists>h. layer_checkpoints layer = Some h \<and> p \<in> set (positions h))"

lemma layer_positions_iff: "q \<in> set (layer_positions target layer) \<longleftrightarrow> q \<le> target \<and> has_position q layer"
  by (cases "layer_checkpoints layer") (auto simp: layer_positions_def has_position_def)

lemma narrow_iff: "q \<in> set (narrow common ps) \<longleftrightarrow> q \<in> set ps \<and> (\<forall>c. common = Some c \<longrightarrow> q \<in> set c)"
  by (cases common) (auto simp: narrow_def)

lemma common_positions_spec:
  assumes "p = common_positions target common layers" and "common \<noteq> Some []"
    and "\<forall>ps. common = Some ps \<longrightarrow> (\<forall>q\<in>set ps. q \<le> target)" and "p \<noteq> 0"
    and "common \<noteq> None \<or> list_ex is_recurrent_layer layers"
  shows "p \<le> target \<and> (\<forall>ps. common = Some ps \<longrightarrow> p \<in> set ps) \<and>
    (\<forall>layer\<in>set layers. is_recurrent_layer layer \<longrightarrow> has_position p layer)"
  using assms
proof (induction target common layers rule: common_positions.induct)
  case (1 target common)
  then obtain ps where "common = Some ps" "ps \<noteq> []" by auto
  then show ?case using 1 by simp
next
  case (2 target common layer layers)
  show ?case
  proof (cases "is_recurrent_layer layer")
    case False
    then show ?thesis using 2 by simp
  next
    case True
    define c where "c = narrow common (layer_positions target layer)"
    have p: "p = (if c = [] then 0 else common_positions target (Some c) layers)"
      using "2.prems"(1) True by (simp add: c_def Let_def)
    then have c: "c \<noteq> []" "p = common_positions target (Some c) layers" using "2.prems"(4) by (auto split: if_splits)
    have cp: "q \<in> set c \<Longrightarrow> q \<le> target \<and> has_position q layer \<and> (\<forall>ps. common = Some ps \<longrightarrow> q \<in> set ps)" for q
      by (simp add: c_def narrow_iff layer_positions_iff)
    have "p \<le> target \<and> (\<forall>ps. Some c = Some ps \<longrightarrow> p \<in> set ps) \<and>
        (\<forall>layer\<in>set layers. is_recurrent_layer layer \<longrightarrow> has_position p layer)"
      using "2.IH"(2) [OF _ c_def c(1) c(2)] True c(1) cp "2.prems"(4) by simp
    then show ?thesis using cp by simp
  qed
qed

lemma common_positions_max:
  "q \<le> target \<Longrightarrow> (\<forall>ps. common = Some ps \<longrightarrow> q \<in> set ps) \<Longrightarrow>
   \<forall>layer\<in>set layers. is_recurrent_layer layer \<longrightarrow> has_position q layer \<Longrightarrow> q \<le> common_positions target common layers"
proof (induction target common layers rule: common_positions.induct)
  case (1 target common)
  then show ?case by (cases common) (auto intro: Max_ge)
next
  case (2 target common layer layers)
  show ?case
  proof (cases "is_recurrent_layer layer")
    case False
    then show ?thesis using 2 by simp
  next
    case True
    define c where "c = narrow common (layer_positions target layer)"
    have q: "q \<in> set c" using "2.prems" True by (simp add: c_def narrow_iff layer_positions_iff)
    then have "c \<noteq> []" by auto
    then have "common_positions target common (layer # layers) = common_positions target (Some c) layers"
      using True by (simp add: c_def Let_def)
    then show ?thesis using "2.IH"(2) [OF _ c_def \<open>c \<noteq> []\<close>] True q "2.prems" by simp
  qed
qed

lemma achievable_largest:
  "q \<le> target \<Longrightarrow> \<forall>layer\<in>set cache. is_recurrent_layer layer \<longrightarrow> has_position q layer \<Longrightarrow> q \<le> achievable_position cache target"
  using common_positions_max [of q target None cache] by (simp add: achievable_position_def)

lemma achievable_spec:
  assumes "0 < achievable_position cache target" and "list_ex is_recurrent_layer cache"
  shows "achievable_position cache target \<le> target \<and>
    (\<forall>layer\<in>set cache. is_recurrent_layer layer \<longrightarrow> has_position (achievable_position cache target) layer)"
  using common_positions_spec [of "achievable_position cache target" target None cache] assms
  by (simp add: achievable_position_def)

lemma achievable_dense: "\<not> list_ex is_recurrent_layer cache \<Longrightarrow> achievable_position cache target = target"
  unfolding achievable_position_def by (induction cache) auto

lemma restore_some:
  assumes "has_position p layer"
  shows "\<exists>l h arrays. layer = Leaf l \<and> holder l = Some h \<and> arrays_at p h = Some arrays \<and>
    restore_recurrent_layer clear layer p = Some (Leaf (l\<lparr>cells := map Some arrays, attrs := clear (attrs l), holder := Some (truncated p h)\<rparr>))"
proof -
  obtain h where h: "layer_checkpoints layer = Some h" "p \<in> set (positions h)" using assms by (auto simp: has_position_def)
  then obtain l where l: "layer = Leaf l" "holder l = Some h" by (cases layer) auto
  have "p \<in> dom (map_of (items h))" using h(2) by (simp add: positions_def dom_map_of_conv_image_fst)
  then show ?thesis using l by (auto simp: restore_recurrent_layer_def arrays_at_def)
qed

section \<open>All layers share one position set\<close>

lemma min_by_cong: "(\<And>x. x \<in> insert m (set xs) \<Longrightarrow> f x = g x) \<Longrightarrow> min_by f m xs = min_by g m xs"
proof (induction xs arbitrary: m)
  case (Cons a xs)
  have "f a = g a" "f m = g m" using Cons.prems by auto
  then show ?case by (auto intro!: Cons.IH Cons.prems)
qed simp

lemma gap_before_cong: "map fst its = map fst its' \<Longrightarrow> i < length its \<Longrightarrow> gap_before its i = gap_before its' i"
proof -
  assume e: "map fst its = map fst its'" and i: "i < length its"
  have l: "length its = length its'" using e by (metis length_map)
  have n: "fst (its ! j) = fst (its' ! j)" if "j < length its" for j
    using that l arg_cong [OF e, of "\<lambda>xs. xs ! j"] by simp
  show ?thesis using n [OF i] n [of "i - 1"] i by (cases "i = 0") (simp_all add: gap_before_def)
qed

lemma thin_positions:
  "map fst its = map fst its' \<Longrightarrow> map fst (thin m a its) = map fst (thin m a its')"
proof (induction m a its arbitrary: its' rule: thin.induct)
  case (1 m a its)
  have l: "length its = length its'" using "1.prems" by (metis length_map)
  have n: "fst (its ! j) = fst (its' ! j)" if "j < length its" for j
    using that l arg_cong [OF "1.prems", of "\<lambda>xs. xs ! j"] by simp
  have f: "filter (\<lambda>i. Some (fst (its' ! i)) \<noteq> a) [0..<length its' - 1] = filter (\<lambda>i. Some (fst (its ! i)) \<noteq> a) [0..<length its - 1]"
    using n l by (auto intro!: filter_cong)
  then have f1: "filter (\<lambda>i. Some (fst (its' ! i)) \<noteq> a) [0..<length its - 1] = filter (\<lambda>i. Some (fst (its ! i)) \<noteq> a) [0..<length its - 1]"
    by (simp only: l)
  show ?case
  proof (cases "int (length its) \<le> m")
    case True
    then show ?thesis using "1.prems" l by (simp add: thin.simps [of m a its] thin.simps [of m a its'])
  next
    case big: False
    show ?thesis
    proof (cases "filter (\<lambda>i. Some (fst (its ! i)) \<noteq> a) [0..<length its - 1]")
      case Nil
      have "thin m a its = butlast its" "thin m a its' = butlast its'"
        by (simp_all only: thin.simps [of m a its] thin.simps [of m a its'] l [symmetric] f1 big Nil if_False list.case)
      then show ?thesis using "1.prems" by (simp add: map_butlast)
    next
      case (Cons c cs)
      define v where "v = min_by (gap_before its) c cs"
      have v: "v < length its - 1" using victim_bound [OF Cons] by (simp add: v_def)
      have "set (c # cs) \<subseteq> {..<length its}" unfolding Cons [symmetric] by auto
      then have "min_by (gap_before its') c cs = v"
        unfolding v_def using gap_before_cong [OF "1.prems"] by (intro min_by_cong) auto
      then have st: "thin m a its = thin m a (del_at v its)" "thin m a its' = thin m a (del_at v its')"
        using big Cons f l by (simp_all add: thin.simps [of m a its] thin.simps [of m a its'] v_def)
      have "map fst (del_at v its) = map fst (del_at v its')"
        using "1.prems" unfolding del_at_def by (simp add: take_map [symmetric] drop_map [symmetric])
      then show ?thesis unfolding st using "1.IH" [OF big Cons, folded v_def] by blast
    qed
  qed
qed

text \<open>The history of a layer: its positions and its anchor.\<close>

definition history_of :: "checkpoints \<Rightarrow> int list \<times> int option" where
  "history_of h = (positions h, anchor_position h)"

lemma map_insort_fst: "map fst (insort_key fst x xs) = insort (fst x) (map fst xs)" for xs :: "(int \<times> arr list) list"
  by (induction xs) auto

lemma map_sort_fst: "map fst (sort_key fst its) = sort (map fst its)" for its :: "(int \<times> arr list) list"
  by (induction its) (simp_all add: map_insort_fst)

lemma make_history: "map fst its = map fst its' \<Longrightarrow> history_of (make_checkpoints its a) = history_of (make_checkpoints its' a)"
proof -
  assume e: "map fst its = map fst its'"
  have p: "map fst (sort_key fst its) = map fst (sort_key fst its')" by (simp add: map_sort_fst e)
  have "fst ` set its = fst ` set its'" using arg_cong [OF e, of set] by simp
  then show ?thesis using p by (cases a) (simp_all add: history_of_def positions_def make_checkpoints_def Let_def)
qed

lemma with_checkpoint_history:
  assumes "history_of h = history_of h'"
  shows "history_of (with_checkpoint m st force anchor p arrs h) = history_of (with_checkpoint m st force anchor p arrs' h')"
proof -
  have e: "map fst (items h) = map fst (items h')" "anchor_position h = anchor_position h'"
    using assms by (simp_all add: history_of_def positions_def)
  have n: "items h = [] \<longleftrightarrow> items h' = []" using e(1) by (metis Nil_is_map_conv)
  have l: "items h \<noteq> [] \<Longrightarrow> fst (last (items h)) = fst (last (items h'))" using e(1) n by (metis last_map)
  have "map fst (thin m a (items h @ [(p, arrs)])) = map fst (thin m a (items h' @ [(p, arrs')]))" for a
    by (rule thin_positions) (simp add: e)
  then have t: "history_of (make_checkpoints (thin m a (items h @ [(p, arrs)])) a) =
      history_of (make_checkpoints (thin m a (items h' @ [(p, arrs')])) a)" for a by (rule make_history)
  show ?thesis using assms n l e t make_history [OF e(1)] by (auto simp: with_checkpoint_def Let_def)
qed

lemma record_fold:
  "distinct (map fst states) \<Longrightarrow> (\<forall>i\<in>fst ` set states. i < length hs) \<Longrightarrow>
   length (fold (\<lambda>(i, arrays) hs. hs[i := Some (f arrays (base_holder (hs ! i)))]) states hs) = length hs \<and>
   (\<forall>j < length hs. fold (\<lambda>(i, arrays) hs. hs[i := Some (f arrays (base_holder (hs ! i)))]) states hs ! j =
     (case map_of states j of None \<Rightarrow> hs ! j | Some arrays \<Rightarrow> Some (f arrays (base_holder (hs ! j)))))"
proof (induction states arbitrary: hs)
  case (Cons st states)
  obtain i arrays where st: "st = (i, arrays)" by (cases st)
  have "map_of states i = None" using Cons.prems(1) st by (simp add: map_of_eq_None_iff)
  then show ?case using Cons.IH [of "hs[i := Some (f arrays (base_holder (hs ! i)))]"] Cons.prems st
    by (auto simp: nth_list_update split: option.splits)
qed simp

definition shared_history :: "'a layer list \<Rightarrow> checkpoints option list \<Rightarrow> bool" where
  "shared_history cache holders \<longleftrightarrow> (\<forall>i < length cache. \<forall>j < length cache.
     is_recurrent_layer (cache ! i) \<longrightarrow> is_recurrent_layer (cache ! j) \<longrightarrow>
     history_of (base_holder (holders ! i)) = history_of (base_holder (holders ! j)))"

lemma base_history: "history_of (base_holder (Some h)) = (if positions h = [] then ([], None) else history_of h)"
  by (simp add: base_holder_def positions_def history_of_def make_checkpoints_def)

section \<open>Claims\<close>

text \<open>
  \<^bold>\<open>Checkpoints are thinned soundly.\<close> Recording at a position keeps a holder's positions strictly increasing and positive
  and at most the bound in number, adds nothing but the new checkpoint, never gives up the session's anchor, and never
  drops the newest checkpoint, unless the bound is one and an anchor holds it.
\<close>

theorem checkpoints_thinned:
  assumes "holder_ok h" and "int (length (items h)) \<le> m" and "1 \<le> m" and "0 < position"
  shows "holder_ok (with_checkpoint m st force anchor position arrays h) \<and>
    int (length (items (with_checkpoint m st force anchor position arrays h))) \<le> m \<and>
    set (items (with_checkpoint m st force anchor position arrays h)) \<subseteq> insert (position, arrays) (set (items h)) \<and>
    (anchor_position h \<noteq> None \<longrightarrow>
       anchor_position (with_checkpoint m st force anchor position arrays h) = anchor_position h) \<and>
    (items (with_checkpoint m st force anchor position arrays h) = items h \<or>
     last (items (with_checkpoint m st force anchor position arrays h)) = (position, arrays) \<or>
     m = 1 \<and> anchor_position h \<noteq> None)"
proof -
  let ?r = "with_checkpoint m st force anchor position arrays h"
  have s: "sorted_wrt (<) (map fst (items h))" "\<forall>p\<in>set (map fst (items h)). 0 < p"
    using assms(1) by (simp_all add: holder_ok_def positions_def)
  let ?skip = "items h \<noteq> [] \<and> (position < fst (last (items h)) \<or> (position - fst (last (items h)) < st \<and> \<not> force))"
    and ?same = "items h \<noteq> [] \<and> position = fst (last (items h))"
    and ?a = "if anchor \<and> anchor_position h = None then Some position else anchor_position h"
  have r: "?r = (if ?skip then h else if ?same then (if \<not> anchor \<or> anchor_position h \<noteq> None then h else make_checkpoints (items h) (Some position))
      else make_checkpoints (thin m ?a (items h @ [(position, arrays)])) ?a)"
    using assms(3) by (simp add: with_checkpoint_def Let_def)
  show ?thesis
  proof (cases "?skip \<or> ?same")
    case True
    then have "?r = h \<or> ?r = make_checkpoints (items h) (Some position) \<and> anchor_position h = None" unfolding r by auto
    then show ?thesis using assms make_ok [OF s] make_items [OF s(1)] by auto
  next
    case False
    then have n: "\<not> ?skip" "\<not> ?same" by blast+
    have e: "?r = make_checkpoints (thin m ?a (items h @ [(position, arrays)])) ?a"
      by (rule trans [OF r]) (simp only: if_not_P [OF n(1)] if_not_P [OF n(2)])
    have "items h \<noteq> [] \<longrightarrow> fst (last (items h)) < position" using False by auto
    from thinned_holder [OF assms(1,3,4) this, of ?a arrays]
    show ?thesis unfolding e by auto
  qed
qed

theorem checkpoints_thinned_witness:
  "items (with_checkpoint 2 4 False False 24 [3] (make_checkpoints [(8, [1]), (12, [2])] (Some 8))) = [(8, [1]), (24, [3])] \<and>
   holder_ok (with_checkpoint 2 4 False False 24 [3] (make_checkpoints [(8, [1]), (12, [2])] (Some 8)))"
proof -
  have "holder_ok (make_checkpoints [(8, [1]), (12, [2])] (Some 8))" by (rule make_ok) simp_all
  note c = checkpoints_thinned [OF this, of 2 24 4 False False "[3]"]
  have "items (with_checkpoint 2 4 False False 24 [3] (make_checkpoints [(8, [1]), (12, [2])] (Some 8))) = [(8, [1]), (24, [3])]"
    by code_simp
  then show ?thesis using c by (simp add: make_checkpoints_def)
qed

text \<open>
  \<^bold>\<open>All recurrent layers share one position set.\<close> A successful recording leaves the recurrent layers of a request with
  equal positions and anchors if they had equal ones, whatever was skipped or thinned, and touches no other layer's
  holder; so a position found on one layer can be restored on all.
\<close>

theorem recorded_positions_shared:
  assumes "record_checkpoints materialise m st force anchor position cache holders = (True, holders')"
    and "shared_history cache holders"
  shows "length holders' = length cache \<and> shared_history cache holders' \<and>
    (\<forall>i < length cache. \<not> is_recurrent_layer (cache ! i) \<longrightarrow> holders' ! i = holders ! i)"
proof -
  let ?rec = "filter (\<lambda>i. is_recurrent_layer (cache ! i)) [0..<length cache]"
  define states where "states = map (\<lambda>i. (i, map the (leaf_cells (cache ! i)))) ?rec"
  let ?f = "\<lambda>arrays h. with_checkpoint m st force anchor position arrays h"
  have l: "length holders = length cache" and h': "holders' = fold (\<lambda>(i, arrays) hs. hs[i := Some (?f arrays (base_holder (hs ! i)))]) states holders"
    using assms(1) by (auto simp: record_checkpoints_def states_def Let_def split: if_splits list.splits)
  have "distinct (map fst states)" "\<forall>i\<in>fst ` set states. i < length holders" by (auto simp: states_def l o_def)
  note fr = record_fold [OF this, of ?f]
  have at: "holders' ! i = (if is_recurrent_layer (cache ! i) then Some (?f (map the (leaf_cells (cache ! i))) (base_holder (holders ! i)))
      else holders ! i)" if i: "i < length cache" for i
  proof -
    have "map_of states i = (if is_recurrent_layer (cache ! i) then Some (map the (leaf_cells (cache ! i))) else None)"
      using i by (auto simp: states_def map_of_map_restrict restrict_map_def)
    then show ?thesis using fr i l unfolding h' by auto
  qed
  have "shared_history cache holders'"
    unfolding shared_history_def
  proof (intro allI impI)
    fix i j assume ij: "i < length cache" "j < length cache" "is_recurrent_layer (cache ! i)" "is_recurrent_layer (cache ! j)"
    then have "history_of (base_holder (holders ! i)) = history_of (base_holder (holders ! j))"
      using assms(2) unfolding shared_history_def by blast
    from with_checkpoint_history [OF this]
    have e: "history_of (?f a (base_holder (holders ! i))) = history_of (?f a' (base_holder (holders ! j)))" for a a' .
    define hi where "hi = ?f (map the (leaf_cells (cache ! i))) (base_holder (holders ! i))"
    define hj where "hj = ?f (map the (leaf_cells (cache ! j))) (base_holder (holders ! j))"
    have at2: "holders' ! i = Some hi" "holders' ! j = Some hj" using at ij by (simp_all add: hi_def hj_def)
    have "history_of hi = history_of hj" unfolding hi_def hj_def by (rule e)
    moreover from this have "positions hi = positions hj" by (simp add: history_of_def)
    ultimately show "history_of (base_holder (holders' ! i)) = history_of (base_holder (holders' ! j))"
      unfolding at2 base_history by simp
  qed
  then show ?thesis using at fr l unfolding h' by simp
qed

text \<open>Two recurrent layers and a KV layer between them.\<close>

definition two_recurrent :: "unit layer list" where
  "two_recurrent = (let kv = \<lparr>type_name = ''KVCache'', type_module = ''mlx_lm.models.cache'', isa_kv = True,
         isa_rotating = False, isa_quantized = False, isa_turbo = False, isa_arrays = False\<rparr>;
       ar = kv\<lparr>type_name := ''ArraysCache'', isa_kv := False, isa_arrays := True\<rparr>;
       leaf = (\<lambda>c cs. Leaf \<lparr>leaf_class = c, offset = None, keys_of = No_keys, values_of = [], cells = cs, holder = None, attrs = ()\<rparr>)
     in [leaf ar [Some 1, Some 2], leaf kv [], leaf ar [Some 3]])"

theorem recorded_positions_shared_witness:
  "case record_checkpoints (\<lambda>_. True) 4 2048 False False 2048 two_recurrent [None, None, None] of (ok, hs) \<Rightarrow>
     ok \<and> shared_history two_recurrent hs \<and> map (map_option positions) hs = [Some [2048], None, Some [2048]]"
proof -
  have s: "shared_history two_recurrent [None, None, None]"
    by (simp add: shared_history_def two_recurrent_def Let_def less_Suc_eq numeral_3_eq_3)
  have "fst (record_checkpoints (\<lambda>_. True) 4 2048 False False 2048 two_recurrent [None, None, None])"
    "map (map_option positions) (snd (record_checkpoints (\<lambda>_. True) 4 2048 False False 2048 two_recurrent [None, None, None])) =
      [Some [2048], None, Some [2048]]"
    by code_simp+
  then show ?thesis using recorded_positions_shared [OF _ s, of "\<lambda>_. True" 4 2048 False False 2048]
    by (cases "record_checkpoints (\<lambda>_. True) 4 2048 False False 2048 two_recurrent [None, None, None]") simp
qed

end
