(* ===== verification/MemLayers.thy ===== *)
theory MemLayers
  imports HybridCheckpoints "HOL-Library.Sublist"
begin

text \<open>
  \<^bold>\<open>rapid_mlx/memory_cache.py: what the memory-aware cache does with layers.\<close> Whether a layer may be trimmed, whether
  a rewind is feasible, the rewind itself, the snap to a checkpoint, and the accounting of bytes. The methods and
  properties of the cache classes, which belong to mlx-lm or the model code, are the record \<open>layer_api\<close>; a method
  that mutates its object is called on a copy, so it returns the new object.
\<close>

record 'a layer_api =
  is_trimmable :: "'a layer \<Rightarrow> bool option"          \<comment> \<open>\<open>None\<close>: no such method\<close>
  has_trim :: "'a layer \<Rightarrow> bool"
  trim_method :: "'a leaf \<Rightarrow> int \<Rightarrow> (int option \<times> 'a leaf) option"   \<comment> \<open>what it returns, and the object after\<close>
  can_trim_method :: "'a leaf \<Rightarrow> int \<Rightarrow> bool option"
  bare_kv :: leaf_class                               \<comment> \<open>the class \<open>KVCache\<close>, and its fresh attributes\<close>
  bare_attrs :: 'a
  bare_quantized :: leaf_class
  quant_attrs :: "'a \<Rightarrow> 'a"                           \<comment> \<open>\<open>group_size\<close> and \<open>bits\<close> alone\<close>
  clear_rows :: "'a \<Rightarrow> 'a"
  key_slots :: "'a leaf \<Rightarrow> int option"                \<comment> \<open>\<open>keys.shape[2]\<close> of an array of at least three axes\<close>
  slice_arrays :: "'a leaf \<Rightarrow> 'a leaf"                \<comment> \<open>\<open>keys[:, :, :offset, :]\<close> and the values alike\<close>
  array_memory :: "arr \<Rightarrow> int"
  state_of :: "'a layer \<Rightarrow> arr list option"           \<comment> \<open>the \<open>state\<close> property flattened, \<open>None\<close> when absent\<close>
  turbo_memory :: "'a leaf \<Rightarrow> int"

section \<open>Classification\<close>

fun contains_text :: "string \<Rightarrow> string \<Rightarrow> bool" where
  "contains_text pat [] = (pat = [])"
| "contains_text pat (c # cs) = (prefix pat (c # cs) \<or> contains_text pat cs)"

definition RECURRENT_STATE_CACHE_CLASSES :: "string list" where
  "RECURRENT_STATE_CACHE_CLASSES = [''ArraysCache'', ''MambaCache'']"

definition MEMORY_TRIM_UNSAFE_CACHE_CLASSES :: "string list" where
  "MEMORY_TRIM_UNSAFE_CACHE_CLASSES = [''ChunkedKVCache'', ''ConcatenateKVCache'']"

definition class_name_is_recurrent :: "string \<Rightarrow> bool" where
  "class_name_is_recurrent n =
     (n \<in> set RECURRENT_STATE_CACHE_CLASSES \<or> list_ex (\<lambda>marker. contains_text marker n) RECURRENT_STATE_CACHE_CLASSES)"

definition class_name_lies_about_trim :: "string \<Rightarrow> bool" where
  "class_name_lies_about_trim n =
     (n \<in> set MEMORY_TRIM_UNSAFE_CACHE_CLASSES \<or> list_ex (\<lambda>marker. contains_text marker n) MEMORY_TRIM_UNSAFE_CACHE_CLASSES)"

fun layer_is_trim_liar :: "'a layer \<Rightarrow> bool" where
  "layer_is_trim_liar Absent = False"
| "layer_is_trim_liar (Extracted cn _) =
     (case cn of None \<Rightarrow> False | Some n \<Rightarrow> n \<noteq> [] \<and> class_name_lies_about_trim n)"
| "layer_is_trim_liar (Wrapper n _ _) = class_name_lies_about_trim n"
| "layer_is_trim_liar (Leaf l) = class_name_lies_about_trim (type_name (leaf_class l))"

text \<open>Neither \<open>None\<close> nor a dictionary has the two methods.\<close>

definition layer_forbids_trim :: "'a layer_api \<Rightarrow> 'a layer \<Rightarrow> bool" where
  "layer_forbids_trim api layer =
     (layer_is_trim_liar layer \<or>
      (case layer of Absent \<Rightarrow> True | Extracted _ _ \<Rightarrow> True
       | _ \<Rightarrow> (case is_trimmable api layer of Some b \<Rightarrow> \<not> b | None \<Rightarrow> \<not> has_trim api layer)))"

fun layer_is_non_trimmable :: "'a layer_api \<Rightarrow> 'a layer \<Rightarrow> bool" where
  "layer_is_non_trimmable api Absent = False"
| "layer_is_non_trimmable api (Extracted cn st) =
     (layer_is_trim_liar (Extracted cn st :: 'a layer) \<or>
      (case cn of None \<Rightarrow> False | Some n \<Rightarrow> n \<noteq> [] \<and> class_name_is_recurrent n))"
| "layer_is_non_trimmable api layer =
     (layer_is_trim_liar layer \<or> (case is_trimmable api layer of Some b \<Rightarrow> \<not> b | None \<Rightarrow> False))"

definition cache_has_non_trimmable :: "'a layer_api \<Rightarrow> 'a layer list \<Rightarrow> bool" where
  "cache_has_non_trimmable api cache = list_ex (layer_is_non_trimmable api) cache"

definition pooling_name :: "string \<Rightarrow> string \<Rightarrow> bool option" where
  "pooling_name modname n =
     (if modname = ''rapid_mlx.models.qwen4_exp_cache'' then Some (n = ''QSAIndexCache'')
      else if modname = ''rapid_mlx.models.deepseek_v4_cache''
      then Some (n \<in> {''PoolingCache'', ''BatchPoolingCache'', ''DeepseekV4PoolingCache'', ''BatchDeepseekV4PoolingCache''})
      else None)"

fun has_deepseek_pooling :: "'a layer \<Rightarrow> bool" where
  "has_deepseek_pooling Absent = False"
| "has_deepseek_pooling (Extracted _ _) = False"
| "has_deepseek_pooling (Leaf l) = (pooling_name (type_module (leaf_class l)) (type_name (leaf_class l)) = Some True)"
| "has_deepseek_pooling (Wrapper n modname children) =
     (case pooling_name modname n of Some b \<Rightarrow> b | None \<Rightarrow> list_ex has_deepseek_pooling children)"

section \<open>Feasibility of a rewind\<close>

text \<open>\<open>isinstance(offset, int)\<close> and \<open>trim_by <= max(0, offset)\<close>.\<close>

definition offset_covers :: "'a leaf \<Rightarrow> int \<Rightarrow> bool" where
  "offset_covers l n = (case offset l of None \<Rightarrow> False | Some off \<Rightarrow> n \<le> max 0 off)"

text \<open>\<open>hasattr(layer, "keys") and not isinstance(layer.keys, (list, tuple))\<close>.\<close>

definition plain_keys :: "'a leaf \<Rightarrow> bool" where
  "plain_keys l = (case keys_of l of Keys_none \<Rightarrow> True | Key_array _ \<Rightarrow> True | _ \<Rightarrow> False)"

definition leaf_rewind_feasible :: "'a layer_api \<Rightarrow> bool \<Rightarrow> int \<Rightarrow> 'a leaf \<Rightarrow> bool" where
  "leaf_rewind_feasible api inside_wrapper n l =
     (if has_deepseek_pooling (Leaf l) then can_trim_method api l n = Some True
      else if is_trimmable api (Leaf l) = Some False then False
      else if isa_quantized (leaf_class l) then offset_covers l n
      else if isa_turbo (leaf_class l) then \<not> inside_wrapper \<and> offset_covers l n
      else if offset l \<noteq> None \<and> plain_keys l
      then offset_covers l n \<and> (inside_wrapper \<longrightarrow> isa_kv (leaf_class l) \<or> isa_rotating (leaf_class l))
      else n = 0)"

fun layer_rewind_feasible :: "'a layer_api \<Rightarrow> bool \<Rightarrow> int \<Rightarrow> 'a layer \<Rightarrow> bool" where
  "layer_rewind_feasible api inside n Absent = True"
| "layer_rewind_feasible api inside n (Wrapper name modname children) =
     (has_deepseek_pooling (Wrapper name modname children) \<and> list_all (layer_rewind_feasible api True n) children)"
| "layer_rewind_feasible api inside n (Extracted cn st) = (n = 0)"
| "layer_rewind_feasible api inside n (Leaf l) = leaf_rewind_feasible api inside n l"

definition rewind_feasible :: "'a layer_api \<Rightarrow> 'a layer list \<Rightarrow> int \<Rightarrow> bool" where
  "rewind_feasible api cache trim_by = (0 \<le> trim_by \<and> list_all (layer_rewind_feasible api False trim_by) cache)"

section \<open>The rewind\<close>

fun map_option_list :: "('b \<Rightarrow> 'c option) \<Rightarrow> 'b list \<Rightarrow> 'c list option" where
  "map_option_list f [] = Some []"
| "map_option_list f (x # xs) =
     (case f x of None \<Rightarrow> None | Some y \<Rightarrow> map_option (Cons y) (map_option_list f xs))"

lemma map_option_list_cong [fundef_cong]:
  "xs = ys \<Longrightarrow> (\<And>x. x \<in> set ys \<Longrightarrow> f x = g x) \<Longrightarrow> map_option_list f xs = map_option_list g ys"
  by (induction xs arbitrary: ys) (auto split: option.splits)

definition trim_method_exact :: "'a layer_api \<Rightarrow> int \<Rightarrow> 'a leaf \<Rightarrow> 'a layer option" where
  "trim_method_exact api n l =
     (case trim_method api l n of None \<Rightarrow> None | Some (r, l') \<Rightarrow> if r = Some n then Some (Leaf l') else None)"

text \<open>Neither \<open>None\<close> nor a dictionary has a callable \<open>trim\<close>.\<close>

function trim_wrapper_exact :: "'a layer_api \<Rightarrow> int \<Rightarrow> 'a layer \<Rightarrow> 'a layer option" where
  "trim_wrapper_exact api n (Wrapper name modname children) =
     map_option (Wrapper name modname) (map_option_list (trim_wrapper_exact api n) children)"
| "trim_wrapper_exact api n (Leaf l) = trim_method_exact api n l"
| "trim_wrapper_exact api n Absent = None"
| "trim_wrapper_exact api n (Extracted cn st) = None"
  by pat_completeness auto

termination
  by (relation "measure (\<lambda>(_, _, layer). size layer)") (auto simp: size_list_estimation' less_Suc_eq_le)

definition trim_rotating :: "'a layer_api \<Rightarrow> int \<Rightarrow> 'a leaf \<Rightarrow> 'a layer option" where
  "trim_rotating api n l = (if is_trimmable api (Leaf l) \<noteq> Some True then None else trim_method_exact api n l)"

text \<open>\<open>QuantizedKVCache\<close> always has an integer \<open>offset\<close>.\<close>

definition leaf_offset :: "'a leaf \<Rightarrow> int" where
  "leaf_offset l = (case offset l of None \<Rightarrow> 0 | Some off \<Rightarrow> off)"

definition rebuild_quantized :: "'a layer_api \<Rightarrow> int \<Rightarrow> 'a leaf \<Rightarrow> 'a leaf" where
  "rebuild_quantized api n l = \<lparr>leaf_class = bare_quantized api, offset = Some (max (leaf_offset l - n) 0),
     keys_of = keys_of l, values_of = values_of l, cells = [], holder = None, attrs = quant_attrs api (attrs l)\<rparr>"

definition rebuild_kv :: "'a layer_api \<Rightarrow> int \<Rightarrow> 'a leaf \<Rightarrow> 'a leaf" where
  "rebuild_kv api n l = \<lparr>leaf_class = bare_kv api, offset = Some (max (leaf_offset l - n) 0),
     keys_of = keys_of l, values_of = values_of l, cells = [], holder = None, attrs = bare_attrs api\<rparr>"

definition trim_leaf_offset :: "'a layer_api \<Rightarrow> int \<Rightarrow> 'a leaf \<Rightarrow> 'a layer option" where
  "trim_leaf_offset api n l =
     (if isa_quantized (leaf_class l) then Some (Leaf (rebuild_quantized api n l))
      else if isa_turbo (leaf_class l)
      then Some (Leaf (case trim_method api l n of None \<Rightarrow> l | Some (_, l') \<Rightarrow> l'))
      else if offset l \<noteq> None \<and> plain_keys l
      then (if isa_rotating (leaf_class l) then trim_rotating api n l else Some (Leaf (rebuild_kv api n l)))
      else if has_deepseek_pooling (Leaf l) then trim_wrapper_exact api n (Leaf l)
      else Some (Leaf l))"

fun trim_layer_offset :: "'a layer_api \<Rightarrow> int \<Rightarrow> 'a layer \<Rightarrow> 'a layer option" where
  "trim_layer_offset api n Absent = Some Absent"
| "trim_layer_offset api n (Extracted cn st) = Some (Extracted cn st)"
| "trim_layer_offset api n (Leaf l) = trim_leaf_offset api n l"
| "trim_layer_offset api n (Wrapper name modname children) =
     (if has_deepseek_pooling (Wrapper name modname children)
      then trim_wrapper_exact api n (Wrapper name modname children)
      else Some (Wrapper name modname children))"

definition trim_cache_offset :: "'a layer_api \<Rightarrow> 'a layer list \<Rightarrow> int \<Rightarrow> 'a layer list option" where
  "trim_cache_offset api cache trim_by = map_option_list (trim_layer_offset api trim_by) cache"

section \<open>The snap to a checkpoint\<close>

definition kv_only :: "'a layer list \<Rightarrow> 'a layer list" where
  "kv_only cache = map (\<lambda>layer. if is_recurrent_layer layer then Absent else layer) cache"

definition snap_refused :: "'a layer_api \<Rightarrow> 'a layer list \<Rightarrow> bool" where
  "snap_refused api cache =
     list_ex (\<lambda>layer. layer \<noteq> Absent \<and> layer_forbids_trim api layer \<and> \<not> is_recurrent_layer layer) cache"

definition snap_position :: "'a layer_api \<Rightarrow> 'a layer list \<Rightarrow> int \<Rightarrow> int \<Rightarrow> int" where
  "snap_position api cache entry_len target_len =
     (if target_len \<le> 0 \<or> entry_len \<le> 0 then 0
      else if snap_refused api cache then 0
      else let position = achievable_position cache (min target_len entry_len)
        in if position \<le> 0 then 0
           else if 0 < entry_len - position \<and> \<not> rewind_feasible api (kv_only cache) (entry_len - position) then 0
           else position)"

text \<open>The restored recurrent layers take the places the trimmed list left empty.\<close>

fun put_restored :: "'a layer_api \<Rightarrow> int \<Rightarrow> 'a layer list \<Rightarrow> 'a layer list \<Rightarrow> 'a layer list option" where
  "put_restored api position (layer # cache) (t # trimmed) =
     (if \<not> is_recurrent_layer layer then map_option (Cons t) (put_restored api position cache trimmed)
      else case restore_recurrent_layer (clear_rows api) layer position of None \<Rightarrow> None
        | Some restored \<Rightarrow> map_option (Cons restored) (put_restored api position cache trimmed))"
| "put_restored api position _ trimmed = Some trimmed"

definition snap_hybrid_trim :: "'a layer_api \<Rightarrow> 'a layer list \<Rightarrow> int \<Rightarrow> int \<Rightarrow> ('a layer list \<times> int) option" where
  "snap_hybrid_trim api cache entry_len target_len =
     (if target_len \<le> 0 \<or> entry_len \<le> 0 then None
      else if snap_refused api cache then None
      else let position = achievable_position cache (min target_len entry_len)
        in if position \<le> 0 then None
           else let trim_by = entry_len - position
             in case (if 0 < trim_by then trim_cache_offset api (kv_only cache) trim_by else Some (kv_only cache)) of
                  None \<Rightarrow> None
                | Some trimmed \<Rightarrow> map_option (\<lambda>c. (c, position)) (put_restored api position cache trimmed))"

section \<open>Accounting and storage\<close>

text \<open>The state of an extracted dictionary is the pair of its keys and values.\<close>

definition layer_memory :: "'a layer_api \<Rightarrow> 'a layer \<Rightarrow> int" where
  "layer_memory api layer =
     (case layer of
        Absent \<Rightarrow> 0
      | Extracted _ st \<Rightarrow> (case st of None \<Rightarrow> 0 | Some arrs \<Rightarrow> sum_list (map (array_memory api) arrs))
      | Wrapper _ _ _ \<Rightarrow> (case state_of api layer of None \<Rightarrow> 0 | Some arrs \<Rightarrow> sum_list (map (array_memory api) arrs))
      | Leaf l \<Rightarrow>
          (if isa_turbo (leaf_class l) then turbo_memory api l
           else case keys_of l of
               Key_tuple ks \<Rightarrow> sum_list (map (array_memory api) ks) + sum_list (map (array_memory api) (values_of l))
             | keys \<Rightarrow>
                 (case state_of api layer of
                    Some arrs \<Rightarrow> sum_list (map (array_memory api) arrs)
                  | None \<Rightarrow> (case keys of Key_array k \<Rightarrow> array_memory api k | _ \<Rightarrow> 0) +
                      (if keys = No_keys then 0 else sum_list (map (array_memory api) (values_of l))))))"

definition estimate_kv_cache_memory :: "'a layer_api \<Rightarrow> 'a layer list \<Rightarrow> int" where
  "estimate_kv_cache_memory api cache =
     (if cache = [] then 0 else checkpoint_bytes (array_memory api) cache + sum_list (map (layer_memory api) cache))"

text \<open>Every array a recurrent layer holds, its state first and then its checkpoints.\<close>

definition recurrent_arrays :: "'a layer_api \<Rightarrow> 'a layer \<Rightarrow> arr list" where
  "recurrent_arrays api layer =
     (if \<not> is_recurrent_layer layer then []
      else (case state_of api layer of None \<Rightarrow> [] | Some arrs \<Rightarrow> arrs) @
           (case layer_checkpoints layer of None \<Rightarrow> [] | Some h \<Rightarrow> holder_arrays h))"

fun first_uses :: "'b list \<Rightarrow> 'b list \<Rightarrow> 'b list" where
  "first_uses seen [] = []"
| "first_uses seen (x # xs) = (if x \<in> set seen then first_uses seen xs else x # first_uses (x # seen) xs)"

definition shared_state_arrays :: "'a layer_api \<Rightarrow> 'a layer list \<Rightarrow> (arr \<times> int) list \<times> int" where
  "shared_state_arrays api cache =
     (let arrays = concat (map (recurrent_arrays api) cache)
      in (map (\<lambda>a. (a, array_memory api a)) (first_uses [] arrays), sum_list (map (array_memory api) arrays)))"

fun needs_kv_trim :: "'a layer_api \<Rightarrow> 'a layer \<Rightarrow> bool" where
  "needs_kv_trim api (Leaf l) =
     (case (keys_of l, offset l, key_slots api l) of
        (Key_array _, Some off, Some slots) \<Rightarrow> 0 < off \<and> off < slots
      | _ \<Rightarrow> False)"
| "needs_kv_trim api _ = False"

fun slice_layer :: "'a layer_api \<Rightarrow> 'a layer \<Rightarrow> 'a layer" where
  "slice_layer api (Leaf l) =
     (if isa_kv (leaf_class l) \<and> needs_kv_trim api (Leaf l) then Leaf (slice_arrays api l) else Leaf l)"
| "slice_layer api layer = layer"

definition trim_to_offset :: "'a layer_api \<Rightarrow> 'a layer list \<Rightarrow> 'a layer list" where
  "trim_to_offset api cache = (if \<not> list_ex (needs_kv_trim api) cache then cache else map (slice_layer api) cache)"

end
