(* ===== verification/MemCache.thy ===== *)
theory MemCache
  imports MemLayers LruOrder RadixIndex "HOL-Library.List_Lexorder"
begin

text \<open>
  \<^bold>\<open>rapid_mlx/memory_cache.py: MemoryAwarePrefixCache.\<close> The cache in memory: an ordered dictionary of entries, oldest
  first, a sorted list of their keys for \<open>bisect\<close> (tuples compare lexicographically), optionally a radix index over the
  same keys, the ledger of bytes with the arrays that entries share, and the statistics. The lock makes each locked
  section one step; \<open>store\<close> has two, \<open>store_lookup\<close> and \<open>store_commit\<close>, with pure work between them. Compression of
  layers is the record \<open>codec\<close>. The limit is an argument of the initial state: reading the machine's memory, the disk
  persistence and the conversions to megabytes are left out.
\<close>

section \<open>State\<close>

record mem_config =
  max_entries :: int
  hybrid_reuse_max_entries :: int
  kv_quantize :: bool
  kv_turboquant :: bool
  kv_min_quantize_tokens :: int
  max_memory_percent :: rat
  min_memory_bytes :: int

text \<open>The checks of \<open>__post_init__\<close>.\<close>

definition check_config :: "mem_config \<Rightarrow> py_error + mem_config" where
  "check_config cf =
     (if \<not> (0 < max_memory_percent cf \<and> max_memory_percent cf \<le> 1) then Inl ValueError
      else if max_entries cf < 1 then Inl ValueError
      else if min_memory_bytes cf < 0 then Inl ValueError
      else if hybrid_reuse_max_entries cf < 0 then Inl ValueError
      else if kv_min_quantize_tokens cf < 0 then Inl ValueError
      else Inr cf)"

record 'a codec =
  turboquant_compress :: "'a layer list \<Rightarrow> 'a layer list"
  turboquant_decompress :: "'a layer list \<Rightarrow> 'a layer list"
  quantize_cache :: "'a layer list \<Rightarrow> 'a layer list"
  dequantize_cache :: "'a layer list \<Rightarrow> 'a layer list"

record 'a mem_entry =
  e_tokens :: "int list"
  e_cache :: "'a layer list"
  memory_bytes :: int
  non_trimmable :: bool
  protected :: bool
  message_boundary :: bool
  message_boundary_sequence :: int
  shared_arrays :: "(arr \<times> int) list"
  shared_bytes :: int

record mem_stats =
  ms_hits :: int
  ms_misses :: int
  ms_evictions :: int
  ms_tokens_saved :: int
  ms_current_memory_bytes :: int
  ms_max_memory_bytes :: int
  ms_entry_count :: int
  ms_load_skipped :: int
  ms_save_drift_drops :: int
  ms_non_trimmable_skips :: int

record 'a mem_cache =
  mem_config :: mem_config
  entries :: "(int list \<times> 'a mem_entry) list"
  boundary_sequence :: int
  sorted_keys :: "int list list"
  mem_radix :: "radix_index option"
  max_memory :: int
  current_memory :: int
  shared_refs :: "arr \<Rightarrow> (int \<times> int) option"   \<comment> \<open>holders and bytes of an array\<close>
  mem_stats :: mem_stats
  last_match_type :: "string option"

definition fresh_mem_stats :: "int \<Rightarrow> mem_stats" where
  "fresh_mem_stats limit = \<lparr>ms_hits = 0, ms_misses = 0, ms_evictions = 0, ms_tokens_saved = 0, ms_current_memory_bytes = 0,
     ms_max_memory_bytes = limit, ms_entry_count = 0, ms_load_skipped = 0, ms_save_drift_drops = 0, ms_non_trimmable_skips = 0\<rparr>"

definition mem_init :: "mem_config \<Rightarrow> int \<Rightarrow> radix_index option \<Rightarrow> 'a mem_cache" where
  "mem_init cf limit rdx = \<lparr>mem_config = cf, entries = [], boundary_sequence = 0, sorted_keys = [], mem_radix = rdx,
     max_memory = limit, current_memory = 0, shared_refs = (\<lambda>_. None), mem_stats = fresh_mem_stats limit, last_match_type = None\<rparr>"

section \<open>Python's bisect\<close>

text \<open>On a sorted list.\<close>

definition bisect_left :: "'k::linorder list \<Rightarrow> 'k \<Rightarrow> nat" where
  "bisect_left keys k = length (takeWhile (\<lambda>x. x < k) keys)"

definition insort :: "'k::linorder list \<Rightarrow> 'k \<Rightarrow> 'k list" where
  "insort keys k = takeWhile (\<lambda>x. x \<le> k) keys @ k # dropWhile (\<lambda>x. x \<le> k) keys"

section \<open>Lookup\<close>

definition entry_at :: "int list \<Rightarrow> 'a mem_cache \<Rightarrow> 'a mem_entry option" where
  "entry_at k c = map_of (entries c) k"

text \<open>The backward scan for the longest stored strict prefix, from the key before the insertion point.\<close>

fun scan_prefix :: "int list \<Rightarrow> int list list \<Rightarrow> int list option" where
  "scan_prefix t [] = None"
| "scan_prefix t (k # ks) =
     (if length t \<le> length k then scan_prefix t ks
      else if take (length k) t = k then (if 0 < length k then Some k else None)
      else if hd k \<noteq> hd t then None
      else scan_prefix t ks)"

text \<open>The forward scan for the longest stored extension.\<close>

fun scan_super :: "bool \<Rightarrow> int list \<Rightarrow> int list option \<Rightarrow> int list list \<Rightarrow> int list option" where
  "scan_super unusable t best [] = best"
| "scan_super unusable t best (k # ks) =
     (if unusable \<and> k = t then scan_super unusable t best ks
      else if length k < length t then scan_super unusable t best ks
      else if take (length t) k = t
      then scan_super unusable t
             (case best of None \<Rightarrow> Some k | Some b \<Rightarrow> if length b < length k then Some k else Some b) ks
      else best)"

definition radix_candidate :: "int list \<Rightarrow> bool \<Rightarrow> 'a mem_cache \<Rightarrow> int list option \<times> 'a mem_cache" where
  "radix_candidate t unusable c =
     (case mem_radix c of
        None \<Rightarrow> (None, c)
      | Some idx \<Rightarrow>
          (case longest_prefix (if unusable then butlast t else t) idx of
             ((_, matched_key), idx') \<Rightarrow>
               ((case matched_key of None \<Rightarrow> None
                 | Some k \<Rightarrow> if entry_at k c \<noteq> None \<and> \<not> (unusable \<and> k = t) then Some k else None),
                c\<lparr>mem_radix := Some idx'\<rparr>)))"

definition match_candidates :: "int list \<Rightarrow> bool \<Rightarrow> 'a mem_cache \<Rightarrow> (int list option \<times> int list option) \<times> 'a mem_cache" where
  "match_candidates t unusable c =
     (let (from_radix, c1) = radix_candidate t unusable c;
          idx = bisect_left (sorted_keys c) t;
          best_match = (if from_radix = None then scan_prefix t (rev (take idx (sorted_keys c))) else from_radix);
          best_super = scan_super unusable t None (drop idx (sorted_keys c))
      in ((best_match, best_super), c1))"

definition lcp_step :: "int list \<Rightarrow> int list \<Rightarrow> int list option \<times> nat \<Rightarrow> int list option \<times> nat" where
  "lcp_step t k best =
     (if k = t then best
      else if min (length k) (length t) \<le> snd best then best
      else if snd best < common_prefix k t then (Some k, common_prefix k t) else best)"

definition neighbours :: "int list list \<Rightarrow> int list \<Rightarrow> int list list" where
  "neighbours keys t = (let idx = bisect_left keys t
     in (if 0 < idx then [keys ! (idx - 1)] else []) @ (if idx < length keys then [keys ! idx] else []))"

definition lcp_candidate :: "int list \<Rightarrow> 'a mem_cache \<Rightarrow> int list option \<times> nat" where
  "lcp_candidate t c = fold (lcp_step t) (neighbours (sorted_keys c) t) (None, 0)"

text \<open>The binary search on slice equality.\<close>

function slice_search :: "int list \<Rightarrow> int list \<Rightarrow> nat \<Rightarrow> nat \<Rightarrow> nat" where
  "slice_search key other low high =
     (if low < high
      then let mid = (low + high + 1) div 2
        in if slice key low mid = slice other low mid then slice_search key other mid high
           else slice_search key other low (mid - 1)
      else low)"
  by pat_completeness auto
termination by (relation "measure (\<lambda>(_, _, low, high). high - low)") auto

declare slice_search.simps [simp del]

definition shared_prefix_length :: "int list \<Rightarrow> 'a mem_cache \<Rightarrow> nat" where
  "shared_prefix_length key c =
     (let idx = bisect_left (sorted_keys c) key
      in fold (\<lambda>nb best. max best (slice_search key nb 0 (min (length key) (length nb))))
           (slice (sorted_keys c) (idx - 1) (idx + 1)) 0)"

section \<open>Fetch\<close>

definition decompress_cache :: "'a codec \<Rightarrow> 'a mem_cache \<Rightarrow> 'a layer list \<Rightarrow> 'a layer list" where
  "decompress_cache cd c cache =
     (if kv_turboquant (mem_config c) then turboquant_decompress cd cache
      else if kv_quantize (mem_config c) then dequantize_cache cd cache else cache)"

definition record_hit :: "int list \<Rightarrow> int \<Rightarrow> string \<Rightarrow> 'a mem_cache \<Rightarrow> 'a mem_cache" where
  "record_hit k saved mt c = c\<lparr>entries := move_to_end k (entries c),
     mem_stats := (mem_stats c)\<lparr>ms_hits := ms_hits (mem_stats c) + 1, ms_tokens_saved := ms_tokens_saved (mem_stats c) + saved\<rparr>,
     last_match_type := Some mt\<rparr>"

definition record_miss :: "'a mem_cache \<Rightarrow> 'a mem_cache" where
  "record_miss c = c\<lparr>mem_stats := (mem_stats c)\<lparr>ms_misses := ms_misses (mem_stats c) + 1\<rparr>, last_match_type := Some ''miss''\<rparr>"

text \<open>A subscript \<open>self._entries[k]\<close>: a key of the index that is not stored raises.\<close>

definition with_entry :: "int list \<Rightarrow> 'a mem_cache \<Rightarrow> ('a mem_entry \<Rightarrow> (py_error + 'r) \<times> 'a mem_cache) \<Rightarrow>
    (py_error + 'r) \<times> 'a mem_cache" where
  "with_entry k c f = (case entry_at k c of None \<Rightarrow> (Inl KeyError, c) | Some e \<Rightarrow> f e)"

definition match_length :: "int list option \<Rightarrow> int" where
  "match_length best_match = (case best_match of None \<Rightarrow> 0 | Some k \<Rightarrow> int (length k))"

definition entry_length :: "'a mem_entry \<Rightarrow> int" where
  "entry_length e = int (length (e_tokens e))"

type_synonym 'a fetched = "'a layer list option \<times> int list"

definition prefix_stage :: "'a codec \<Rightarrow> int list \<Rightarrow> int list option \<Rightarrow> 'a mem_cache \<Rightarrow> (py_error + 'a fetched) \<times> 'a mem_cache" where
  "prefix_stage cd t best_match c =
     (case best_match of
        Some k \<Rightarrow> with_entry k c (\<lambda>e. (Inr (Some (decompress_cache cd c (e_cache e)), drop (length k) t),
                                        record_hit (e_tokens e) (int (length k)) ''prefix'' c))
      | None \<Rightarrow> (Inr (None, t), record_miss c))"

text \<open>Where a rewind of an entry to \<open>n\<close> tokens would resume, from its metadata; 0 when it would not.\<close>

definition resume_position :: "'a layer_api \<Rightarrow> 'a mem_entry \<Rightarrow> int \<Rightarrow> int" where
  "resume_position api e n =
     (if list_ex (layer_forbids_trim api) (e_cache e) then snap_position api (e_cache e) (entry_length e) n
      else if rewind_feasible api (e_cache e) (entry_length e - n) then n else 0)"

definition lcp_stage :: "'a layer_api \<Rightarrow> 'a codec \<Rightarrow> int list \<Rightarrow> int list option \<Rightarrow> 'a mem_cache \<Rightarrow>
    (py_error + 'a fetched) \<times> 'a mem_cache" where
  "lcp_stage api cd t best_match c =
     (case lcp_candidate t c of
        (None, _) \<Rightarrow> prefix_stage cd t best_match c
      | (Some k, shared) \<Rightarrow> with_entry k c (\<lambda>e.
          if best_match \<noteq> None \<and>
             (if match_length best_match < int shared then resume_position api e (int shared) else 0) \<le> match_length best_match
          then prefix_stage cd t best_match c
          else if list_ex (layer_forbids_trim api) (e_cache e)
          then (case snap_hybrid_trim api (e_cache e) (entry_length e) (int shared) of
              Some (cache, position) \<Rightarrow> (Inr (Some (decompress_cache cd c cache), py_drop position t),
                                          record_hit (e_tokens e) position ''lcp'' c)
            | None \<Rightarrow> prefix_stage cd t best_match c)
          else (case trim_cache_offset api (e_cache e) (entry_length e - int shared) of
              Some cache \<Rightarrow> (Inr (Some (decompress_cache cd c cache), drop shared t),
                              record_hit (e_tokens e) (int shared) ''lcp'' c)
            | None \<Rightarrow> prefix_stage cd t best_match c)))"

definition super_stage :: "'a layer_api \<Rightarrow> 'a codec \<Rightarrow> int list \<Rightarrow> int list option \<Rightarrow> int list \<Rightarrow> 'a mem_cache \<Rightarrow>
    (py_error + 'a fetched) \<times> 'a mem_cache" where
  "super_stage api cd t best_match k c = with_entry k c (\<lambda>e.
     let n_requested = int (length t); excess = entry_length e - n_requested
     in if 0 < excess \<and> list_ex (layer_forbids_trim api) (e_cache e)
        then (case snap_hybrid_trim api (e_cache e) (entry_length e) n_requested of
            Some (cache, position) \<Rightarrow>
              (if match_length best_match < position
               then (Inr (Some (decompress_cache cd c cache), py_drop position t),
                     record_hit (e_tokens e) position ''supersequence'' c)
               else lcp_stage api cd t best_match c)
          | None \<Rightarrow> lcp_stage api cd t best_match c)
        else if 0 < excess
        then (case trim_cache_offset api (e_cache e) excess of
            None \<Rightarrow> lcp_stage api cd t best_match c
          | Some cache \<Rightarrow> (Inr (Some (decompress_cache cd c cache), []),
                            record_hit (e_tokens e) n_requested ''supersequence'' c))
        else (Inr (Some (decompress_cache cd c (e_cache e)), []),
              record_hit (e_tokens e) n_requested ''supersequence'' c))"

definition unusable_exact :: "int list \<Rightarrow> 'a mem_cache \<Rightarrow> bool" where
  "unusable_exact t c = (case entry_at t c of None \<Rightarrow> False | Some e \<Rightarrow> non_trimmable e)"

definition fetch_locked :: "'a layer_api \<Rightarrow> 'a codec \<Rightarrow> int list \<Rightarrow> 'a mem_cache \<Rightarrow> (py_error + 'a fetched) \<times> 'a mem_cache" where
  "fetch_locked api cd t c =
     (case entry_at t c of
        Some e \<Rightarrow>
          (if \<not> non_trimmable e
           then (Inr (Some (decompress_cache cd c (e_cache e)), []), record_hit t (int (length t)) ''exact'' c)
           else case match_candidates t True c of ((best_match, best_super), c1) \<Rightarrow>
             (case best_super of None \<Rightarrow> lcp_stage api cd t best_match c1
              | Some k \<Rightarrow> super_stage api cd t best_match k c1))
      | None \<Rightarrow>
          (case match_candidates t False c of ((best_match, best_super), c1) \<Rightarrow>
             (case best_super of None \<Rightarrow> lcp_stage api cd t best_match c1
              | Some k \<Rightarrow> super_stage api cd t best_match k c1)))"

definition mem_fetch :: "'a layer_api \<Rightarrow> 'a codec \<Rightarrow> int list \<Rightarrow> 'a mem_cache \<Rightarrow> (py_error + 'a fetched) \<times> 'a mem_cache" where
  "mem_fetch api cd tokens c =
     (if tokens = [] then (Inr (None, tokens), record_miss c) else fetch_locked api cd tokens c)"

section \<open>Probe\<close>

definition probe_prefix :: "int list option \<Rightarrow> int \<times> string" where
  "probe_prefix best_match = (case best_match of Some k \<Rightarrow> (int (length k), ''prefix'') | None \<Rightarrow> (0, ''miss''))"

definition probe_lcp :: "'a layer_api \<Rightarrow> int list \<Rightarrow> int list option \<Rightarrow> 'a mem_cache \<Rightarrow> py_error + int \<times> string" where
  "probe_lcp api t best_match c =
     (case lcp_candidate t c of
        (None, _) \<Rightarrow> Inr (probe_prefix best_match)
      | (Some k, shared) \<Rightarrow>
          (if \<not> match_length best_match < int shared then Inr (probe_prefix best_match)
           else case entry_at k c of None \<Rightarrow> Inl KeyError
           | Some e \<Rightarrow>
               (if \<not> list_ex (layer_forbids_trim api) (e_cache e)
                then (if rewind_feasible api (e_cache e) (entry_length e - int shared)
                      then Inr (int shared, ''lcp'') else Inr (probe_prefix best_match))
                else let position = snap_position api (e_cache e) (entry_length e) (int shared)
                  in if match_length best_match < position then Inr (position, ''lcp'') else Inr (probe_prefix best_match))))"

definition probe_super :: "'a layer_api \<Rightarrow> int list \<Rightarrow> int list option \<Rightarrow> int list \<Rightarrow> 'a mem_cache \<Rightarrow> py_error + int \<times> string" where
  "probe_super api t best_match k c =
     (case entry_at k c of None \<Rightarrow> Inl KeyError
      | Some e \<Rightarrow>
          let n_requested = int (length t); excess = entry_length e - n_requested
          in if 0 < excess \<and> list_ex (layer_forbids_trim api) (e_cache e)
             then let position = snap_position api (e_cache e) (entry_length e) n_requested
               in if match_length best_match < position then Inr (position, ''supersequence'') else probe_lcp api t best_match c
             else if 0 < excess
             then (if rewind_feasible api (e_cache e) excess then Inr (n_requested, ''supersequence'') else probe_lcp api t best_match c)
             else Inr (n_requested, ''supersequence''))"

definition probe_locked :: "'a layer_api \<Rightarrow> int list \<Rightarrow> 'a mem_cache \<Rightarrow> (py_error + int \<times> string) \<times> 'a mem_cache" where
  "probe_locked api t c =
     (if entry_at t c \<noteq> None \<and> \<not> unusable_exact t c then (Inr (int (length t), ''exact''), c)
      else case match_candidates t (unusable_exact t c) c of ((best_match, best_super), c1) \<Rightarrow>
        (case best_super of None \<Rightarrow> probe_lcp api t best_match c1 | Some k \<Rightarrow> probe_super api t best_match k c1, c1))"

definition mem_probe :: "'a layer_api \<Rightarrow> int list \<Rightarrow> 'a mem_cache \<Rightarrow> (py_error + int \<times> string) \<times> 'a mem_cache" where
  "mem_probe api tokens c = (if tokens = [] then (Inr (0, ''miss''), c) else probe_locked api tokens c)"

section \<open>The ledger\<close>

definition ledger_cost :: "'a mem_entry \<Rightarrow> 'a mem_cache \<Rightarrow> int" where
  "ledger_cost e c = memory_bytes e - shared_bytes e +
     sum_list (map snd (filter (\<lambda>(arr, nb). shared_refs c arr = None) (shared_arrays e)))"

definition hold_array :: "arr \<times> int \<Rightarrow> (arr \<Rightarrow> (int \<times> int) option) \<Rightarrow> arr \<Rightarrow> (int \<times> int) option" where
  "hold_array p refs = (case p of (arr, nb) \<Rightarrow>
     (case refs arr of None \<Rightarrow> refs(arr \<mapsto> (1, nb)) | Some (n, sz) \<Rightarrow> refs(arr \<mapsto> (n + 1, sz))))"

definition ledger_add :: "'a mem_entry \<Rightarrow> 'a mem_cache \<Rightarrow> 'a mem_cache" where
  "ledger_add e c = c\<lparr>current_memory := current_memory c + ledger_cost e c,
     shared_refs := fold hold_array (shared_arrays e) (shared_refs c)\<rparr>"

definition drop_array :: "arr \<times> int \<Rightarrow> (arr \<Rightarrow> (int \<times> int) option) \<times> int \<Rightarrow> (arr \<Rightarrow> (int \<times> int) option) \<times> int" where
  "drop_array p st = (case p of (arr, nb) \<Rightarrow> (case st of (refs, freed) \<Rightarrow>
     (case refs arr of
        None \<Rightarrow> (refs, freed)
      | Some (n, sz) \<Rightarrow> (if n - 1 \<le> 0 then (refs(arr := None), freed + nb) else (refs(arr \<mapsto> (n - 1, sz)), freed)))))"

definition ledger_remove :: "'a mem_entry \<Rightarrow> 'a mem_cache \<Rightarrow> 'a mem_cache" where
  "ledger_remove e c =
     (case fold drop_array (shared_arrays e) (shared_refs c, memory_bytes e - shared_bytes e) of
        (refs, freed) \<Rightarrow> c\<lparr>current_memory := current_memory c - freed, shared_refs := refs\<rparr>)"

section \<open>Removal and eviction\<close>

definition remove_from_sorted :: "int list \<Rightarrow> int list list \<Rightarrow> int list list" where
  "remove_from_sorted k keys =
     (let idx = bisect_left keys k
      in if idx < length keys \<and> keys ! idx = k then take idx keys @ drop (Suc idx) keys else keys)"

definition gauges :: "'a mem_cache \<Rightarrow> 'a mem_cache" where
  "gauges c = c\<lparr>mem_stats := (mem_stats c)\<lparr>ms_entry_count := int (length (entries c)), ms_current_memory_bytes := current_memory c\<rparr>\<rparr>"

text \<open>What every removal of a stored key does to the indexes, the entries and the ledger.\<close>

definition drop_entry :: "int list \<Rightarrow> 'a mem_cache \<Rightarrow> 'a mem_cache" where
  "drop_entry k c =
     (let c1 = c\<lparr>sorted_keys := remove_from_sorted k (sorted_keys c),
                 mem_radix := map_option (\<lambda>idx. snd (radix_remove k idx)) (mem_radix c)\<rparr>
      in case entry_at k c1 of None \<Rightarrow> c1
         | Some e \<Rightarrow> ledger_remove e (c1\<lparr>entries := filter (\<lambda>p. fst p \<noteq> k) (entries c1)\<rparr>))"

definition count_eviction :: "'a mem_cache \<Rightarrow> 'a mem_cache" where
  "count_eviction c = c\<lparr>mem_stats := (mem_stats c)\<lparr>ms_evictions := ms_evictions (mem_stats c) + 1\<rparr>\<rparr>"

definition evict_entry :: "int list \<Rightarrow> 'a mem_cache \<Rightarrow> 'a mem_cache" where
  "evict_entry k c = gauges (count_eviction (drop_entry k c))"

definition mem_evict_lru :: "'a mem_cache \<Rightarrow> 'a mem_cache" where
  "mem_evict_lru c = (case entries c of [] \<Rightarrow> c | (k, e) # es \<Rightarrow> evict_entry k c)"

definition over_limit :: "'a mem_entry \<Rightarrow> 'a mem_cache \<Rightarrow> bool" where
  "over_limit e c \<longleftrightarrow> max_memory c < current_memory c + ledger_cost e c \<or> max_entries (mem_config c) \<le> int (length (entries c))"

lemma entries_ledger_remove [simp]: "entries (ledger_remove e c) = entries c"
  by (simp add: ledger_remove_def split: prod.split)

lemma entries_evict_lru: "entries c = (k, e) # es \<Longrightarrow> entries (mem_evict_lru c) = filter (\<lambda>p. fst p \<noteq> k) es"
  by (simp add: mem_evict_lru_def evict_entry_def gauges_def count_eviction_def drop_entry_def entry_at_def Let_def)

function make_room :: "'a mem_entry \<Rightarrow> 'a mem_cache \<Rightarrow> 'a mem_cache" where
  "make_room e c = (if over_limit e c \<and> entries c \<noteq> [] then make_room e (mem_evict_lru c) else c)"
  by pat_completeness auto

termination
proof (relation "measure (\<lambda>(_, c). length (entries c))")
  fix e and c :: "'a mem_cache"
  assume "over_limit e c \<and> entries c \<noteq> []"
  then obtain k e' es where "entries c = (k, e') # es" by (cases "entries c") auto
  from entries_evict_lru [OF this]
  show "((e, mem_evict_lru c), (e, c)) \<in> measure (\<lambda>(_, c). length (entries c))"
    using \<open>entries c = _\<close> by (simp add: less_Suc_eq_le)
qed simp

declare make_room.simps [simp del]

definition hybrid_victims :: "'a mem_cache \<Rightarrow> int list list" where
  "hybrid_victims c =
     (let evictable = map fst (filter (\<lambda>(k, e). non_trimmable e \<and> \<not> protected e) (entries c));
          keep = max (hybrid_reuse_max_entries (mem_config c)) 0
      in take (nat (max 0 (int (length evictable) - keep))) evictable)"

definition enforce_hybrid_bound :: "'a mem_cache \<Rightarrow> int list list \<times> 'a mem_cache" where
  "enforce_hybrid_bound c = (let victims = hybrid_victims c in (victims, fold evict_entry victims c))"

section \<open>Store\<close>

text \<open>The backward scan for the stored strict prefixes of the new key.\<close>

fun scan_all_prefixes :: "int list \<Rightarrow> int list list \<Rightarrow> int list list" where
  "scan_all_prefixes t [] = []"
| "scan_all_prefixes t (k # ks) =
     (if length t \<le> length k then scan_all_prefixes t ks
      else if take (length k) t = k then k # scan_all_prefixes t ks
      else if hd k \<noteq> hd t then []
      else scan_all_prefixes t ks)"

definition evict_prefixes :: "int list \<Rightarrow> 'a mem_cache \<Rightarrow> 'a mem_cache" where
  "evict_prefixes t c =
     (let idx = bisect_left (sorted_keys c) t;
          to_remove = scan_all_prefixes t (rev (take idx (sorted_keys c)));
          c1 = fold (\<lambda>k c. count_eviction (drop_entry k c)) to_remove c
      in if to_remove = [] then c1 else gauges c1)"

text \<open>The entry is stored already: it becomes the most recent one, and a message boundary if the caller says so.\<close>

definition bump_existing :: "int list \<Rightarrow> bool \<Rightarrow> 'a mem_cache \<Rightarrow> 'a mem_cache" where
  "bump_existing k boundary c =
     (let c1 = (if boundary
          then c\<lparr>boundary_sequence := boundary_sequence c + 1,
                 entries := map (\<lambda>(k', e). (k', if k' = k then e\<lparr>message_boundary := True,
                   message_boundary_sequence := boundary_sequence c + 1\<rparr> else e)) (entries c)\<rparr>
          else c)
      in c1\<lparr>entries := move_to_end k (entries c1)\<rparr>)"

definition store_lookup :: "'a layer_api \<Rightarrow> int list \<Rightarrow> 'a layer list \<Rightarrow> bool \<Rightarrow> 'a mem_cache \<Rightarrow> bool option \<times> 'a mem_cache" where
  "store_lookup api tokens cache boundary c =
     (if tokens = [] \<or> cache = [] then (Some False, c)
      else if cache_has_non_trimmable api cache \<and> hybrid_reuse_max_entries (mem_config c) \<le> 0
      then (Some False, c\<lparr>mem_stats := (mem_stats c)\<lparr>ms_non_trimmable_skips := ms_non_trimmable_skips (mem_stats c) + 1\<rparr>\<rparr>)
      else if entry_at tokens c \<noteq> None then (Some True, bump_existing tokens boundary c)
      else (None, c))"

definition make_entry :: "'a layer_api \<Rightarrow> int list \<Rightarrow> 'a layer list \<Rightarrow> bool \<Rightarrow> 'a mem_entry" where
  "make_entry api tokens cache boundary =
     (let memory = estimate_kv_cache_memory api cache; (shared, charged) = shared_state_arrays api cache
      in \<lparr>e_tokens = tokens, e_cache = cache, memory_bytes = memory, non_trimmable = cache_has_non_trimmable api cache,
          protected = False, message_boundary = boundary, message_boundary_sequence = 0,
          shared_arrays = shared, shared_bytes = min charged memory\<rparr>)"

definition compress_for_storage :: "'a layer_api \<Rightarrow> 'a codec \<Rightarrow> mem_config \<Rightarrow> int list \<Rightarrow> 'a layer list \<Rightarrow> 'a layer list" where
  "compress_for_storage api cd cf tokens cache =
     (let trimmed = trim_to_offset api cache
      in if kv_turboquant cf \<and> kv_min_quantize_tokens cf \<le> int (length tokens) then turboquant_compress cd trimmed
         else if kv_quantize cf \<and> kv_min_quantize_tokens cf \<le> int (length tokens) then quantize_cache cd trimmed
         else trimmed)"

definition insert_entry :: "bool \<Rightarrow> 'a mem_entry \<Rightarrow> 'a mem_cache \<Rightarrow> 'a mem_cache" where
  "insert_entry boundary e c =
     (let t = e_tokens e;
          seq = boundary_sequence c + (if boundary then 1 else 0);
          e1 = (if boundary then e\<lparr>message_boundary_sequence := seq\<rparr> else e);
          c1 = ledger_add e1 (c\<lparr>boundary_sequence := seq, entries := entries c @ [(t, e1)]\<rparr>)
      in (gauges (c1\<lparr>sorted_keys := insort (sorted_keys c1) t\<rparr>))\<lparr>mem_radix := map_option (radix_insert t) (mem_radix c1)\<rparr>)"

definition store_commit :: "bool \<Rightarrow> bool \<Rightarrow> 'a mem_entry \<Rightarrow> 'a mem_cache \<Rightarrow> bool \<times> 'a mem_cache" where
  "store_commit evict boundary e c =
     (let t = e_tokens e
      in if entry_at t c \<noteq> None then (True, bump_existing t boundary c)
         else let c1 = (if evict \<and> sorted_keys c \<noteq> [] then evict_prefixes t c else c);
                  c2 = insert_entry boundary e (make_room e c1)
           in (True, if non_trimmable e then snd (enforce_hybrid_bound c2) else c2))"

definition mem_store :: "'a layer_api \<Rightarrow> 'a codec \<Rightarrow> int list \<Rightarrow> 'a layer list \<Rightarrow> bool \<Rightarrow> bool \<Rightarrow> 'a mem_cache \<Rightarrow> bool \<times> 'a mem_cache" where
  "mem_store api cd tokens cache evict boundary c =
     (case store_lookup api tokens cache boundary c of
        (Some r, c1) \<Rightarrow> (r, c1)
      | (None, c1) \<Rightarrow>
          (let e = make_entry api tokens (compress_for_storage api cd (mem_config c1) tokens cache) boundary
           in if max_memory c1 < memory_bytes e then (False, c1) else store_commit evict boundary e c1))"

section \<open>The other operations\<close>

definition mem_remove :: "int list \<Rightarrow> 'a mem_cache \<Rightarrow> bool \<times> 'a mem_cache" where
  "mem_remove tokens c = (if entry_at tokens c = None then (False, c) else (True, gauges (drop_entry tokens c)))"

definition mem_clear :: "bool \<Rightarrow> 'a mem_cache \<Rightarrow> 'a mem_cache" where
  "mem_clear reset_stats c =
     (let previous = mem_stats c;
          kept = (fresh_mem_stats (max_memory c))\<lparr>ms_load_skipped := ms_load_skipped previous,
            ms_save_drift_drops := ms_save_drift_drops previous, ms_non_trimmable_skips := ms_non_trimmable_skips previous\<rparr>
      in c\<lparr>entries := [], sorted_keys := [], mem_radix := map_option radix_clear (mem_radix c), current_memory := 0,
           shared_refs := (\<lambda>_. None),
           mem_stats := (if reset_stats then kept
             else kept\<lparr>ms_hits := ms_hits previous, ms_misses := ms_misses previous, ms_evictions := ms_evictions previous,
                       ms_tokens_saved := ms_tokens_saved previous\<rparr>)\<rparr>)"

definition mem_reset_stats :: "'a mem_cache \<Rightarrow> 'a mem_cache" where
  "mem_reset_stats c = c\<lparr>mem_stats := (fresh_mem_stats (max_memory c))\<lparr>ms_current_memory_bytes := current_memory c,
     ms_entry_count := int (length (entries c)), ms_load_skipped := ms_load_skipped (mem_stats c),
     ms_save_drift_drops := ms_save_drift_drops (mem_stats c), ms_non_trimmable_skips := ms_non_trimmable_skips (mem_stats c)\<rparr>\<rparr>"

text \<open>\<open>get_stats\<close>: the statistics, the number of hybrid entries, and the radix index's own statistics.\<close>

definition mem_get_stats :: "'a mem_cache \<Rightarrow> mem_stats \<times> int \<times> radix_stats option" where
  "mem_get_stats c = (mem_stats c, int (length (filter (\<lambda>(k, e). non_trimmable e) (entries c))), map_option rstats (mem_radix c))"

definition mem_len :: "'a mem_cache \<Rightarrow> int" where
  "mem_len c = int (length (entries c))"

definition mem_contains :: "int list \<Rightarrow> 'a mem_cache \<Rightarrow> bool" where
  "mem_contains tokens c \<longleftrightarrow> entry_at tokens c \<noteq> None"

end
