(* ===== verification/MemCacheInv.thy ===== *)
theory MemCacheInv
  imports MemCache RadixCorrect
begin

text \<open>
  The invariant of the memory-aware cache: the sorted list and the radix index hold exactly the stored keys, the ledger
  charges every array once however many entries hold it. Dropping a stored entry and inserting a new one preserve it.
\<close>

section \<open>The ledger\<close>

definition held :: "'a mem_entry \<Rightarrow> arr set" where
  "held e = fst ` set (shared_arrays e)"

definition holders :: "'a mem_entry list \<Rightarrow> arr \<Rightarrow> int" where
  "holders es a = int (length (filter (\<lambda>e. a \<in> held e) es))"

definition own_bytes :: "'a mem_entry \<Rightarrow> int" where
  "own_bytes e = memory_bytes e - shared_bytes e"

definition ledger_total :: "(arr \<Rightarrow> int) \<Rightarrow> 'a mem_entry list \<Rightarrow> int" where
  "ledger_total nb es = sum_list (map own_bytes es) + (\<Sum>a\<in>(\<Union>e\<in>set es. held e). nb a)"

definition entry_ok :: "(arr \<Rightarrow> int) \<Rightarrow> 'a mem_entry \<Rightarrow> bool" where
  "entry_ok nb e \<longleftrightarrow> e_tokens e \<noteq> [] \<and> distinct (map fst (shared_arrays e)) \<and> (\<forall>(a, sz)\<in>set (shared_arrays e). sz = nb a) \<and>
     sum_list (map snd (shared_arrays e)) \<le> shared_bytes e \<and> shared_bytes e \<le> memory_bytes e"

definition ledger_ok :: "(arr \<Rightarrow> int) \<Rightarrow> 'a mem_cache \<Rightarrow> bool" where
  "ledger_ok nb c \<longleftrightarrow> (let es = map snd (entries c) in
     (\<forall>a. shared_refs c a = (if holders es a = 0 then None else Some (holders es a, nb a))) \<and>
     current_memory c = ledger_total nb es)"

lemma holders_zero: "holders es a = 0 \<longleftrightarrow> a \<notin> (\<Union>e\<in>set es. held e)"
  by (auto simp: holders_def filter_empty_conv)

lemma holders_nonneg: "0 \<le> holders es a"
  by (simp add: holders_def)

lemma holders_simps [simp]:
  "holders (e # es) a = (if a \<in> held e then 1 else 0) + holders es a"
  "holders (xs @ ys) a = holders xs a + holders ys a" "holders [] a = 0"
  by (simp_all add: holders_def)

lemma finite_held [simp]: "finite (held e)" "finite (\<Union>e\<in>set es. held e)"
  by (simp_all add: held_def)

lemma sum_sizes:
  assumes "distinct (map fst ps)" and "\<forall>(a, sz)\<in>set ps. sz = nb a"
  shows "sum_list (map snd (filter (\<lambda>(a, sz). P a) ps)) = (\<Sum>a\<in>{a \<in> fst ` set ps. P a}. nb a)"
  using assms
proof (induction ps)
  case (Cons p ps)
  obtain a sz where p: "p = (a, sz)" by (cases p)
  have "{b \<in> fst ` set (p # ps). P b} = (if P a then insert a {b \<in> fst ` set ps. P b} else {b \<in> fst ` set ps. P b})"
    using p by auto
  moreover have "a \<notin> {b \<in> fst ` set ps. P b}" using Cons.prems p by auto
  ultimately show ?case using Cons p by simp
qed simp

lemma ledger_total_cons:
  "ledger_total nb (e # es) = ledger_total nb es + own_bytes e + (\<Sum>a\<in>held e - (\<Union>e\<in>set es. held e). nb a)"
proof -
  have "(\<Union>e\<in>set (e # es). held e) = (\<Union>e\<in>set es. held e) \<union> (held e - (\<Union>e\<in>set es. held e))" by auto
  then have "(\<Sum>a\<in>(\<Union>e\<in>set (e # es). held e). nb a) = (\<Sum>a\<in>(\<Union>e\<in>set es. held e). nb a) + (\<Sum>a\<in>held e - (\<Union>e\<in>set es. held e). nb a)"
    by (simp only:) (rule sum.union_disjoint, auto)
  then show ?thesis by (simp add: ledger_total_def)
qed

lemma ledger_total_move: "ledger_total nb (xs @ e # ys) = ledger_total nb (e # xs @ ys)"
  by (simp add: ledger_total_def Un_left_commute)

lemma fold_hold:
  "distinct (map fst ps) \<Longrightarrow> \<forall>(a, sz)\<in>set ps. sz = nb a \<Longrightarrow>
   fold hold_array ps refs a = (if a \<in> fst ` set ps
     then (case refs a of None \<Rightarrow> Some (1, nb a) | Some (n, sz) \<Rightarrow> Some (n + 1, sz)) else refs a)"
proof (induction ps arbitrary: refs)
  case (Cons p ps)
  obtain b sz where p: "p = (b, sz)" by (cases p)
  have ih: "fold hold_array ps (hold_array p refs) a = (if a \<in> fst ` set ps
     then (case hold_array p refs a of None \<Rightarrow> Some (1, nb a) | Some (n, sz) \<Rightarrow> Some (n + 1, sz)) else hold_array p refs a)"
    by (rule Cons.IH) (use Cons.prems in auto)
  have h: "hold_array p refs a = (if a = b then (case refs a of None \<Rightarrow> Some (1, nb a) | Some (n, sz) \<Rightarrow> Some (n + 1, sz)) else refs a)"
    using Cons.prems p by (auto simp: hold_array_def split: option.splits)
  show ?case using ih h Cons.prems p by auto
qed simp

lemma fold_drop:
  "distinct (map fst ps) \<Longrightarrow> fold drop_array ps (refs, f) = (refs', f') \<Longrightarrow>
   (\<forall>a. refs' a = (if a \<in> fst ` set ps
     then (case refs a of None \<Rightarrow> None | Some (n, sz) \<Rightarrow> if n - 1 \<le> 0 then None else Some (n - 1, sz)) else refs a)) \<and>
   f' = f + sum_list (map snd (filter (\<lambda>(a, sz). case refs a of None \<Rightarrow> False | Some (n, sz') \<Rightarrow> n - 1 \<le> 0) ps))"
proof (induction ps arbitrary: refs f)
  case (Cons p ps)
  obtain b sz where p: "p = (b, sz)" by (cases p)
  obtain r1 f1 where s: "drop_array p (refs, f) = (r1, f1)" by (cases "drop_array p (refs, f)")
  have r1: "r1 a = (if a = b then (case refs a of None \<Rightarrow> None | Some (n, sz) \<Rightarrow> if n - 1 \<le> 0 then None else Some (n - 1, sz)) else refs a)"
    "f1 = f + (if (case refs b of None \<Rightarrow> False | Some (n, sz') \<Rightarrow> n - 1 \<le> 0) then sz else 0)" for a
    using s p by (auto simp: drop_array_def split: option.splits if_splits)
  have nb: "b \<notin> fst ` set ps" using Cons.prems p by auto
  have ih: "(\<forall>a. refs' a = (if a \<in> fst ` set ps
     then (case r1 a of None \<Rightarrow> None | Some (n, sz) \<Rightarrow> if n - 1 \<le> 0 then None else Some (n - 1, sz)) else r1 a)) \<and>
   f' = f1 + sum_list (map snd (filter (\<lambda>(a, sz). case r1 a of None \<Rightarrow> False | Some (n, sz') \<Rightarrow> n - 1 \<le> 0) ps))"
    by (rule Cons.IH) (use Cons.prems s in auto)
  have "filter (\<lambda>(a, sz). case r1 a of None \<Rightarrow> False | Some (n, sz') \<Rightarrow> n - 1 \<le> 0) ps =
      filter (\<lambda>(a, sz). case refs a of None \<Rightarrow> False | Some (n, sz') \<Rightarrow> n - 1 \<le> 0) ps"
    using nb r1(1) by (intro filter_cong) (auto simp: image_iff split: prod.splits)
  then show ?case using ih r1 nb p by auto
qed simp

lemma entry_cost:
  assumes "ledger_ok nb c" and "entry_ok nb e"
  shows "ledger_cost e c = ledger_total nb (e # map snd (entries c)) - ledger_total nb (map snd (entries c))"
proof -
  let ?es = "map snd (entries c)"
  have r: "shared_refs c a = None \<longleftrightarrow> a \<notin> (\<Union>e\<in>set ?es. held e)" for a
    using assms(1) holders_zero [of ?es a] by (simp add: ledger_ok_def Let_def)
  have "{a \<in> fst ` set (shared_arrays e). shared_refs c a = None} = held e - (\<Union>e\<in>set ?es. held e)"
    using r by (auto simp: held_def)
  then have "sum_list (map snd (filter (\<lambda>(a, sz). shared_refs c a = None) (shared_arrays e))) = (\<Sum>a\<in>held e - (\<Union>e\<in>set ?es. held e). nb a)"
    using sum_sizes [of "shared_arrays e" nb "\<lambda>a. shared_refs c a = None"] assms(2) by (simp add: entry_ok_def)
  then show ?thesis unfolding ledger_total_cons by (simp add: ledger_cost_def own_bytes_def)
qed

lemma add_ledger_ok:
  assumes "ledger_ok nb c" and "entry_ok nb e" and "map snd (entries c') = map snd (entries c) @ [e]"
    and "shared_refs c' = shared_refs (ledger_add e c)" and "current_memory c' = current_memory (ledger_add e c)"
  shows "ledger_ok nb c'"
proof -
  let ?es = "map snd (entries c)"
  have l: "\<And>a. shared_refs c a = (if holders ?es a = 0 then None else Some (holders ?es a, nb a))" "current_memory c = ledger_total nb ?es"
    using assms(1) by (simp_all add: ledger_ok_def Let_def)
  have e: "distinct (map fst (shared_arrays e))" "\<forall>(a, sz)\<in>set (shared_arrays e). sz = nb a"
    using assms(2) by (simp_all add: entry_ok_def)
  have "shared_refs c' a = (if holders (?es @ [e]) a = 0 then None else Some (holders (?es @ [e]) a, nb a))" for a
    using fold_hold [OF e, of "shared_refs c" a] l(1) [of a] holders_nonneg [of ?es a]
    by (auto simp: assms(4) ledger_add_def held_def)
  moreover have "current_memory c' = ledger_total nb (?es @ [e])"
    using entry_cost [OF assms(1,2)] l(2) ledger_total_move [of nb ?es e "[]"] by (simp add: assms(5) ledger_add_def)
  ultimately show ?thesis by (simp add: ledger_ok_def assms(3) Let_def)
qed

lemma remove_ledger_ok:
  assumes "\<And>a. shared_refs c a = (if holders (xs @ e # ys) a = 0 then None else Some (holders (xs @ e # ys) a, nb a))"
    and "current_memory c = ledger_total nb (xs @ e # ys)" and "entry_ok nb e" and "map snd (entries c) = xs @ ys"
  shows "ledger_ok nb (ledger_remove e c)"
proof -
  have e: "distinct (map fst (shared_arrays e))" "\<forall>(a, sz)\<in>set (shared_arrays e). sz = nb a"
    using assms(3) by (simp_all add: entry_ok_def)
  obtain refs f where f: "fold drop_array (shared_arrays e) (shared_refs c, memory_bytes e - shared_bytes e) = (refs, f)"
    by (cases "fold drop_array (shared_arrays e) (shared_refs c, memory_bytes e - shared_bytes e)")
  note fd = fold_drop [OF e(1) f]
  have hd: "(case shared_refs c a of None \<Rightarrow> False | Some (n, sz') \<Rightarrow> n - 1 \<le> 0) \<longleftrightarrow> holders (xs @ ys) a = 0" if "a \<in> held e" for a
    using that assms(1) [of a] holders_nonneg [of xs a] holders_nonneg [of ys a] by auto
  have "refs a = (if holders (xs @ ys) a = 0 then None else Some (holders (xs @ ys) a, nb a))" for a
    using fd assms(1) [of a] holders_nonneg [of xs a] holders_nonneg [of ys a]
    by (auto simp: held_def)
  moreover have "f = own_bytes e + (\<Sum>a\<in>held e - (\<Union>e\<in>set (xs @ ys). held e). nb a)"
  proof -
    have "filter (\<lambda>(a, sz). case shared_refs c a of None \<Rightarrow> False | Some (n, sz') \<Rightarrow> n - 1 \<le> 0) (shared_arrays e) =
        filter (\<lambda>(a, sz). holders (xs @ ys) a = 0) (shared_arrays e)"
    proof (rule filter_cong [OF refl])
      fix p assume p: "p \<in> set (shared_arrays e)"
      obtain a sz where a: "p = (a, sz)" by (cases p)
      have "a \<in> held e" using p a by (force simp: held_def)
      from hd [OF this] show "(case p of (a, sz) \<Rightarrow> case shared_refs c a of None \<Rightarrow> False | Some (n, sz') \<Rightarrow> n - 1 \<le> 0) =
          (case p of (a, sz) \<Rightarrow> holders (xs @ ys) a = 0)" unfolding a by simp
    qed
    moreover have "{a \<in> fst ` set (shared_arrays e). holders (xs @ ys) a = 0} = held e - (\<Union>e\<in>set (xs @ ys). held e)"
      unfolding holders_zero by (auto simp: held_def)
    ultimately show ?thesis using fd sum_sizes [OF e, of "\<lambda>a. holders (xs @ ys) a = 0"] by (simp add: own_bytes_def)
  qed
  ultimately show ?thesis
    using assms(2,4) f ledger_total_move [of nb xs e ys] ledger_total_cons [of nb e "xs @ ys"]
    by (simp add: ledger_ok_def ledger_remove_def Let_def)
qed

lemma ledger_total_mono:
  assumes "\<And>a. 0 \<le> nb a" and "entry_ok nb e"
  shows "ledger_total nb (xs @ ys) \<le> ledger_total nb (xs @ e # ys)"
proof -
  have "0 \<le> (\<Sum>a\<in>held e - (\<Union>e\<in>set (xs @ ys). held e). nb a)" by (rule sum_nonneg) (simp add: assms)
  moreover have "0 \<le> own_bytes e" using assms(2) by (simp add: entry_ok_def own_bytes_def)
  ultimately show ?thesis unfolding ledger_total_move ledger_total_cons by simp
qed

section \<open>The sorted list\<close>

lemma sorted_split:
  "sorted_wrt (<) keys \<Longrightarrow> takeWhile (\<lambda>x. x < k) keys = filter (\<lambda>x. x < k) keys \<and> dropWhile (\<lambda>x. x < k) keys = filter (\<lambda>x. k \<le> x) keys"
  for keys :: "'k::linorder list"
proof (induction keys)
  case (Cons x xs)
  show ?case
  proof (cases "x < k")
    case True
    then show ?thesis using Cons by auto
  next
    case False
    have "\<forall>y\<in>set (x # xs). k \<le> y" using Cons.prems False by fastforce
    then have "filter (\<lambda>y. y < k) (x # xs) = []" "filter (\<lambda>y. k \<le> y) (x # xs) = x # xs"
      by (simp_all add: filter_empty_conv filter_id_conv not_less)
    then show ?thesis using False by simp
  qed
qed simp

lemma take_bisect: "sorted_wrt (<) keys \<Longrightarrow> take (bisect_left keys k) keys = filter (\<lambda>x. x < k) keys"
  and drop_bisect: "sorted_wrt (<) keys \<Longrightarrow> drop (bisect_left keys k) keys = filter (\<lambda>x. k \<le> x) keys"
  using sorted_split [of keys k] takeWhile_eq_take [of "\<lambda>x. x < k" keys] dropWhile_eq_drop [of "\<lambda>x. x < k" keys]
  unfolding bisect_left_def by metis+

lemma filter_least:
  "sorted_wrt (<) keys \<Longrightarrow> k \<in> set keys \<Longrightarrow> filter (\<lambda>x. k \<le> x) keys = k # filter (\<lambda>x. k < x) keys" for keys :: "'k::linorder list"
proof (induction keys)
  case (Cons x xs)
  show ?case
  proof (cases "x = k")
    case True
    have "filter (\<lambda>x. k \<le> x) xs = xs" "filter (\<lambda>x. k < x) xs = xs"
      using Cons.prems(1) True by (auto simp: filter_id_conv intro: less_imp_le)
    then show ?thesis using True by simp
  next
    case False
    then have "x < k" using Cons.prems by auto
    then show ?thesis using Cons False by auto
  qed
qed simp

lemma remove_from_sorted_eq:
  assumes "sorted_wrt (<) keys"
  shows "remove_from_sorted k keys = filter (\<lambda>x. x \<noteq> k) keys"
proof -
  let ?i = "bisect_left keys k"
  have keys: "keys = filter (\<lambda>x. x < k) keys @ filter (\<lambda>x. k \<le> x) keys"
    using take_bisect [OF assms, of k] drop_bisect [OF assms, of k] append_take_drop_id [of ?i keys] by simp
  have d: "drop ?i keys = filter (\<lambda>x. k \<le> x) keys" by (rule drop_bisect [OF assms])
  show ?thesis
  proof (cases "k \<in> set keys")
    case True
    note l = filter_least [OF assms True]
    then have i: "?i < length keys" "keys ! ?i = k" using d by (metis drop_all leI list.discI) (metis d l nth_via_drop)
    have "drop (Suc ?i) keys = filter (\<lambda>x. k < x) keys" using d l by (metis drop_Suc list.sel(3) tl_drop)
    then have "remove_from_sorted k keys = filter (\<lambda>x. x < k) keys @ filter (\<lambda>x. k < x) keys"
      using i take_bisect [OF assms, of k] by (simp add: remove_from_sorted_def Let_def)
    moreover have "filter (\<lambda>x. x \<noteq> k) keys = filter (\<lambda>x. x \<noteq> k) (filter (\<lambda>x. x < k) keys) @ filter (\<lambda>x. x \<noteq> k) (k # filter (\<lambda>x. k < x) keys)"
      using keys l by (metis filter_append)
    moreover have "filter (\<lambda>x. x \<noteq> k) (filter (\<lambda>x. x < k) keys) = filter (\<lambda>x. x < k) keys"
      "filter (\<lambda>x. x \<noteq> k) (filter (\<lambda>x. k < x) keys) = filter (\<lambda>x. k < x) keys" by ((rule filter_True; auto)+)
    ultimately show ?thesis by simp
  next
    case False
    then have "\<not> (?i < length keys \<and> keys ! ?i = k)" by (metis nth_mem)
    then show ?thesis using False by (auto simp: remove_from_sorted_def Let_def filter_id_conv intro: sym)
  qed
qed

lemma insort_sorted:
  assumes "sorted_wrt (<) keys" and "k \<notin> set keys"
  shows "sorted_wrt (<) (insort keys k) \<and> set (insort keys k) = insert k (set keys)"
proof -
  have e: "takeWhile (\<lambda>x. x \<le> k) keys = takeWhile (\<lambda>x. x < k) keys" "dropWhile (\<lambda>x. x \<le> k) keys = dropWhile (\<lambda>x. x < k) keys"
    using assms(2) by (auto intro!: takeWhile_cong dropWhile_cong simp: less_le)
  have i: "insort keys k = filter (\<lambda>x. x < k) keys @ k # filter (\<lambda>x. k \<le> x) keys"
    unfolding insort_def e using sorted_split [OF assms(1), of k] by simp
  have "sorted_wrt (<) (filter (\<lambda>x. x < k) keys)" "sorted_wrt (<) (filter (\<lambda>x. k \<le> x) keys)"
    using assms(1) by (simp_all add: sorted_wrt_filter)
  then have "sorted_wrt (<) (insort keys k)"
    unfolding i using assms(2) by (auto simp: sorted_wrt_append less_le intro: order.strict_trans2)
  then show ?thesis unfolding i by auto
qed

section \<open>The core invariant\<close>

definition entry_keys :: "'a mem_cache \<Rightarrow> int list list" where
  "entry_keys c = map fst (entries c)"

definition index_ok :: "'a mem_cache \<Rightarrow> bool" where
  "index_ok c \<longleftrightarrow> sorted_wrt (<) (sorted_keys c) \<and> set (sorted_keys c) = set (entry_keys c)"

definition radix_ok :: "'a mem_cache \<Rightarrow> bool" where
  "radix_ok c \<longleftrightarrow> (\<forall>idx. mem_radix c = Some idx \<longrightarrow> radix_exact idx \<and> (\<forall>k. radix_contains idx k \<longleftrightarrow> k \<in> set (entry_keys c)))"

definition entries_ok :: "(arr \<Rightarrow> int) \<Rightarrow> 'a mem_cache \<Rightarrow> bool" where
  "entries_ok nb c \<longleftrightarrow> distinct (entry_keys c) \<and> (\<forall>(k, e)\<in>set (entries c). e_tokens e = k \<and> entry_ok nb e)"

definition core_ok :: "(arr \<Rightarrow> int) \<Rightarrow> 'a mem_cache \<Rightarrow> bool" where
  "core_ok nb c \<longleftrightarrow> entries_ok nb c \<and> index_ok c \<and> radix_ok c \<and> ledger_ok nb c"

lemma entry_at_iff: "entries_ok nb c \<Longrightarrow> entry_at k c = Some e \<longleftrightarrow> (k, e) \<in> set (entries c)"
  by (auto simp: entries_ok_def entry_keys_def entry_at_def)

lemma entry_at_keys: "entry_at k c \<noteq> None \<longleftrightarrow> k \<in> set (entry_keys c)"
  by (auto simp: entry_at_def entry_keys_def map_of_eq_None_iff)

lemma filter_absent: "k \<notin> fst ` set xs \<Longrightarrow> filter (\<lambda>p. fst p \<noteq> k) xs = xs"
  by (induction xs) auto

text \<open>What an operation changes of the core, for those that only change the rest.\<close>

lemma core_cong:
  assumes "core_ok nb c" and "entries c' = entries c" and "sorted_keys c' = sorted_keys c" and "mem_radix c' = mem_radix c"
    and "shared_refs c' = shared_refs c" and "current_memory c' = current_memory c"
  shows "core_ok nb c'"
  using assms by (simp add: core_ok_def entries_ok_def index_ok_def radix_ok_def ledger_ok_def entry_keys_def)

lemma drop_entry_simps:
  "mem_config (drop_entry k c) = mem_config c" "max_memory (drop_entry k c) = max_memory c"
  "entries (drop_entry k c) = filter (\<lambda>p. fst p \<noteq> k) (entries c)"
  "sorted_keys (drop_entry k c) = remove_from_sorted k (sorted_keys c)"
  "mem_radix (drop_entry k c) = map_option (\<lambda>idx. snd (radix_remove k idx)) (mem_radix c)"
  "mem_stats (drop_entry k c) = mem_stats c" "boundary_sequence (drop_entry k c) = boundary_sequence c"
  by (auto simp: drop_entry_def Let_def ledger_remove_def entry_at_def map_of_eq_None_iff filter_id_conv
      split: option.splits prod.splits intro!: sym [OF filter_True])

lemma drop_entry_core:
  assumes "core_ok nb c" and "entry_at k c \<noteq> None"
  shows "core_ok nb (drop_entry k c)"
proof -
  have eo: "entries_ok nb c" and ix: "index_ok c" and rx: "radix_ok c" and lg: "ledger_ok nb c"
    using assms(1) by (simp_all add: core_ok_def)
  obtain e where e: "entry_at k c = Some e" using assms(2) by auto
  then have m: "(k, e) \<in> set (entries c)" using entry_at_iff [OF eo] by blast
  then obtain xs ys where xy: "entries c = xs @ (k, e) # ys" by (auto dest: split_list)
  have d: "distinct (map fst (xs @ (k, e) # ys))" using eo xy by (simp add: entries_ok_def entry_keys_def)
  then have fl: "filter (\<lambda>p. fst p \<noteq> k) (entries c) = xs @ ys" by (simp add: xy filter_absent)
  have de: "entries (drop_entry k c) = xs @ ys" unfolding drop_entry_simps by (rule fl)
  have keys: "set (entry_keys (drop_entry k c)) = set (entry_keys c) - {k}"
    using d by (auto simp: entry_keys_def de xy)
  have "entries_ok nb (drop_entry k c)" using eo d by (auto simp: entries_ok_def entry_keys_def de xy)
  moreover have "index_ok (drop_entry k c)"
    using ix remove_from_sorted_eq [of "sorted_keys c" k] unfolding index_ok_def keys
    by (auto simp: drop_entry_simps sorted_wrt_filter)
  moreover have "radix_ok (drop_entry k c)"
    unfolding radix_ok_def keys
  proof (intro allI impI)
    fix idx' assume "mem_radix (drop_entry k c) = Some idx'"
    then obtain idx where i: "mem_radix c = Some idx" "idx' = snd (radix_remove k idx)" by (auto simp: drop_entry_simps)
    then have x: "radix_exact idx" "\<And>q. radix_contains idx q \<longleftrightarrow> q \<in> set (entry_keys c)" using rx by (auto simp: radix_ok_def)
    show "radix_exact idx' \<and> (\<forall>q. radix_contains idx' q \<longleftrightarrow> q \<in> set (entry_keys c) - {k})"
      using radix_remove_spec [of idx k "fst (radix_remove k idx)" idx'] x i(2) by (auto simp: radix_exact_def)
  qed
  moreover have "ledger_ok nb (drop_entry k c)"
  proof -
    define c1 where "c1 = c\<lparr>sorted_keys := remove_from_sorted k (sorted_keys c),
      mem_radix := map_option (\<lambda>idx. snd (radix_remove k idx)) (mem_radix c), entries := filter (\<lambda>p. fst p \<noteq> k) (entries c)\<rparr>"
    have dr: "drop_entry k c = ledger_remove e c1" using e by (simp add: drop_entry_def c1_def entry_at_def Let_def)
    have l: "\<And>a. shared_refs c a = (if holders (map snd xs @ e # map snd ys) a = 0 then None
        else Some (holders (map snd xs @ e # map snd ys) a, nb a))" "current_memory c = ledger_total nb (map snd xs @ e # map snd ys)"
      using lg by (simp_all add: ledger_ok_def Let_def xy)
    have ee: "entry_ok nb e" using eo m by (auto simp: entries_ok_def)
    show ?thesis unfolding dr
      by (rule remove_ledger_ok [where xs = "map snd xs" and ys = "map snd ys"]) (use l ee fl in \<open>simp_all add: c1_def\<close>)
  qed
  ultimately show ?thesis by (simp add: core_ok_def)
qed

lemma drop_entry_memory:
  assumes "core_ok nb c" and "entry_at k c \<noteq> None" and "\<And>a. 0 \<le> nb a"
  shows "current_memory (drop_entry k c) \<le> current_memory c"
proof -
  have eo: "entries_ok nb c" using assms(1) by (simp add: core_ok_def)
  obtain e where e: "(k, e) \<in> set (entries c)" using assms(2) entry_at_iff [OF eo] by auto
  then obtain xs ys where xy: "entries c = xs @ (k, e) # ys" by (auto dest: split_list)
  have "distinct (map fst (xs @ (k, e) # ys))" using eo xy by (simp add: entries_ok_def entry_keys_def)
  then have fl: "filter (\<lambda>p. fst p \<noteq> k) (entries c) = xs @ ys" by (simp add: xy filter_absent)
  have de: "entries (drop_entry k c) = xs @ ys" unfolding drop_entry_simps by (rule fl)
  have "entry_ok nb e" using eo e by (auto simp: entries_ok_def)
  from ledger_total_mono [OF assms(3) this, of "map snd xs" "map snd ys"] show ?thesis
    using assms(1) drop_entry_core [OF assms(1,2)] by (simp add: core_ok_def ledger_ok_def Let_def de xy)
qed

lemma insert_entry_core:
  assumes "core_ok nb c" and "entry_ok nb e" and "entry_at (e_tokens e) c = None"
  shows "core_ok nb (insert_entry boundary e c)"
proof -
  let ?c = "insert_entry boundary e c"
  define seq where "seq = boundary_sequence c + (if boundary then 1 else 0)"
  define e1 where "e1 = (if boundary then e\<lparr>message_boundary_sequence := seq\<rparr> else e)"
  have e1: "e_tokens e1 = e_tokens e" "entry_ok nb e1" "shared_arrays e1 = shared_arrays e" "own_bytes e1 = own_bytes e"
    using assms(2) by (simp_all add: e1_def entry_ok_def own_bytes_def)
  have es: "entries ?c = entries c @ [(e_tokens e, e1)]" and sk: "sorted_keys ?c = insort (sorted_keys c) (e_tokens e)"
    and rx: "mem_radix ?c = map_option (radix_insert (e_tokens e)) (mem_radix c)"
    and lg: "shared_refs ?c = shared_refs (ledger_add e1 c)" "current_memory ?c = current_memory (ledger_add e1 c)"
    by (simp_all add: insert_entry_def Let_def gauges_def ledger_add_def ledger_cost_def e1_def seq_def)
  have n: "e_tokens e \<notin> set (entry_keys c)" using assms(3) entry_at_keys [of "e_tokens e" c] by simp
  have ne: "e_tokens e \<noteq> []" using assms(2) by (simp add: entry_ok_def)
  have keys: "set (entry_keys ?c) = insert (e_tokens e) (set (entry_keys c))" by (simp add: entry_keys_def es)
  have "entries_ok nb ?c" using assms(1) n e1 by (auto simp: core_ok_def entries_ok_def entry_keys_def es)
  moreover have "index_ok ?c"
    using assms(1) insort_sorted [of "sorted_keys c" "e_tokens e"] n unfolding index_ok_def keys by (simp add: core_ok_def index_ok_def sk)
  moreover have "radix_ok ?c"
    using assms(1) n ne radix_insert_exact radix_insert_contains [OF ne] unfolding radix_ok_def keys
    by (auto simp: core_ok_def radix_ok_def rx)
  moreover have "ledger_ok nb ?c"
    by (rule add_ledger_ok [OF _ e1(2)]) (use assms(1) lg es in \<open>simp_all add: core_ok_def\<close>)
  ultimately show ?thesis by (simp add: core_ok_def)
qed

end
