(* ===== verification/MemEvict.thy ===== *)
theory MemEvict
  imports MemCacheInv
begin

text \<open>
  The invariant of the memory-aware cache and what keeps it: statistics, removals and runs of them, the least recently
  used order. The cache provides the interface \<open>lru_order\<close>.
\<close>

section \<open>The invariant\<close>

definition hybrid_entries :: "'a mem_cache \<Rightarrow> (int list \<times> 'a mem_entry) list" where
  "hybrid_entries c = filter (\<lambda>(k, e). non_trimmable e \<and> \<not> protected e) (entries c)"

definition limits_ok :: "'a mem_cache \<Rightarrow> bool" where
  "limits_ok c \<longleftrightarrow> current_memory c \<le> max_memory c \<and> int (length (entries c)) \<le> max_entries (mem_config c) \<and>
     int (length (hybrid_entries c)) \<le> max (hybrid_reuse_max_entries (mem_config c)) 0 \<and> 1 \<le> max_entries (mem_config c)"

definition gauges_ok :: "'a mem_cache \<Rightarrow> bool" where
  "gauges_ok c \<longleftrightarrow> ms_entry_count (mem_stats c) = int (length (entries c)) \<and>
     ms_current_memory_bytes (mem_stats c) = current_memory c \<and> ms_max_memory_bytes (mem_stats c) = max_memory c"

definition mem_ok :: "(arr \<Rightarrow> int) \<Rightarrow> 'a mem_cache \<Rightarrow> bool" where
  "mem_ok nb c \<longleftrightarrow> core_ok nb c \<and> limits_ok c \<and> gauges_ok c"

text \<open>States that differ in statistics only.\<close>

definition same_core :: "'a mem_cache \<Rightarrow> 'a mem_cache \<Rightarrow> bool" where
  "same_core c c' \<longleftrightarrow> entries c' = entries c \<and> sorted_keys c' = sorted_keys c \<and> mem_radix c' = mem_radix c \<and>
     shared_refs c' = shared_refs c \<and> current_memory c' = current_memory c \<and> mem_config c' = mem_config c \<and>
     max_memory c' = max_memory c \<and> ms_max_memory_bytes (mem_stats c') = ms_max_memory_bytes (mem_stats c)"

lemma same_core_ok: "same_core c c' \<Longrightarrow> core_ok nb c \<Longrightarrow> core_ok nb c'"
  using core_cong by (auto simp: same_core_def)

lemma same_core_gauges: "same_core c (gauges c)" "same_core c (count_eviction c)" "same_core c (gauges (count_eviction c))"
  by (simp_all add: same_core_def gauges_def count_eviction_def)

lemma same_core_limits: "same_core c c' \<Longrightarrow> limits_ok c' = limits_ok c"
  by (simp add: same_core_def limits_ok_def hybrid_entries_def)

lemma gauges_ok: "ms_max_memory_bytes (mem_stats c) = max_memory c \<Longrightarrow> gauges_ok (gauges c)"
  by (simp add: gauges_ok_def gauges_def)

section \<open>Runs of removals\<close>

text \<open>What a removal keeps, and that it only takes away.\<close>

definition shrinks :: "'a mem_cache \<Rightarrow> 'a mem_cache \<Rightarrow> bool" where
  "shrinks c c' \<longleftrightarrow> current_memory c' \<le> current_memory c \<and> mem_config c' = mem_config c \<and> max_memory c' = max_memory c \<and>
     ms_max_memory_bytes (mem_stats c') = ms_max_memory_bytes (mem_stats c) \<and> set (entries c') \<subseteq> set (entries c) \<and>
     length (entries c') \<le> length (entries c) \<and> length (hybrid_entries c') \<le> length (hybrid_entries c)"

lemma shrinks_refl: "shrinks c c"
  by (simp add: shrinks_def)

lemma shrinks_trans: "shrinks c c' \<Longrightarrow> shrinks c' c'' \<Longrightarrow> shrinks c c''"
  unfolding shrinks_def by (auto intro: order_trans)

lemma shrinks_limits: "shrinks c c' \<Longrightarrow> limits_ok c \<Longrightarrow> limits_ok c'"
  by (auto simp: shrinks_def limits_ok_def)

lemma filter_length_le: "length (filter P (filter Q xs)) \<le> length (filter P xs)"
  by (induction xs) auto

lemma drop_entry_shrinks:
  assumes "core_ok nb c" and "entry_at k c \<noteq> None" and "\<And>a. 0 \<le> nb a"
  shows "shrinks c (drop_entry k c)"
  using drop_entry_memory [OF assms] filter_length_le [of "\<lambda>(k, e). non_trimmable e \<and> \<not> protected e" "\<lambda>p. fst p \<noteq> k" "entries c"]
  by (simp add: shrinks_def drop_entry_simps hybrid_entries_def)

lemma drops:
  assumes g: "\<And>k c. same_core (drop_entry k c) (g k c)" and nb: "\<And>a. 0 \<le> nb a"
  shows "core_ok nb c \<Longrightarrow> distinct ks \<Longrightarrow> set ks \<subseteq> set (entry_keys c) \<Longrightarrow>
    core_ok nb (fold g ks c) \<and> shrinks c (fold g ks c) \<and> entries (fold g ks c) = filter (\<lambda>p. fst p \<notin> set ks) (entries c)"
proof (induction ks arbitrary: c)
  case Nil
  then show ?case by (simp add: shrinks_refl)
next
  case (Cons k ks)
  have k: "entry_at k c \<noteq> None" using Cons.prems entry_at_keys [of k c] by simp
  have s: "same_core (drop_entry k c) (g k c)" by (rule g)
  have e: "entries (g k c) = filter (\<lambda>p. fst p \<noteq> k) (entries c)" using s by (simp add: same_core_def drop_entry_simps)
  have c1: "core_ok nb (g k c)" by (rule same_core_ok [OF s drop_entry_core [OF Cons.prems(1) k]])
  have sh: "shrinks c (g k c)" using drop_entry_shrinks [OF Cons.prems(1) k nb] s by (simp add: same_core_def shrinks_def hybrid_entries_def)
  have "set (entry_keys (g k c)) = set (entry_keys c) - {k}" by (auto simp: entry_keys_def e)
  then have "set ks \<subseteq> set (entry_keys (g k c))" using Cons.prems(2,3) by auto
  then have ih: "core_ok nb (fold g ks (g k c)) \<and> shrinks (g k c) (fold g ks (g k c)) \<and>
      entries (fold g ks (g k c)) = filter (\<lambda>p. fst p \<notin> set ks) (entries (g k c))"
    using Cons.IH [OF c1] Cons.prems(2) by simp
  then show ?case using shrinks_trans [OF sh] e by (simp add: conj_commute)
qed

lemma evict_same: "same_core (drop_entry k c) (evict_entry k c)" "same_core (drop_entry k c) (count_eviction (drop_entry k c))"
  unfolding evict_entry_def by (rule same_core_gauges)+

section \<open>The least recently used order\<close>

definition mem_use :: "int list \<Rightarrow> 'a mem_cache \<Rightarrow> 'a mem_cache" where
  "mem_use k c = c\<lparr>entries := move_to_end k (entries c)\<rparr>"

lemma move_cases:
  assumes "distinct (map fst xs)"
  shows "move_to_end k xs = xs \<or> (\<exists>ys p zs. xs = ys @ p # zs \<and> move_to_end k xs = ys @ zs @ [p])"
proof (cases "map_of xs k")
  case (Some v)
  obtain ys zs where xs: "xs = ys @ (k, v) # zs" using split_list [OF map_of_SomeD [OF Some]] by blast
  have "k \<notin> fst ` set ys" "k \<notin> fst ` set zs" using assms by (auto simp: xs)
  then have "move_to_end k xs = ys @ zs @ [(k, v)]" using Some by (simp add: move_to_end_def xs filter_absent)
  then show ?thesis using xs by blast
qed (simp add: move_to_end_def)

lemma move_facts:
  assumes "distinct (map fst xs)"
  shows "set (move_to_end k xs) = set xs" "distinct (map fst (move_to_end k xs))"
    "length (filter P (move_to_end k xs)) = length (filter P xs)" "length (move_to_end k xs) = length xs"
    "sum_list (map f (move_to_end k xs)) = (sum_list (map f xs) :: int)"
  using move_cases [OF assms, of k] assms by auto

lemma reorder_core:
  assumes "core_ok nb c" and "distinct (map fst xs)" and "set xs = set (entries c)"
    and "sum_list (map (own_bytes \<circ> snd) xs) = sum_list (map (own_bytes \<circ> snd) (entries c))"
    and "\<And>P. length (filter P xs) = length (filter P (entries c))"
  shows "core_ok nb (c\<lparr>entries := xs\<rparr>)"
proof -
  have keys: "set (entry_keys (c\<lparr>entries := xs\<rparr>)) = set (entry_keys c)" using assms(3) by (simp add: entry_keys_def)
  have "holders (map snd xs) a = holders (map snd (entries c)) a" for a
    using assms(5) [of "\<lambda>p. a \<in> held (snd p)"] by (simp add: holders_def filter_map o_def)
  moreover have "ledger_total nb (map snd xs) = ledger_total nb (map snd (entries c))"
    using assms(3,4) by (simp add: ledger_total_def)
  ultimately have "ledger_ok nb (c\<lparr>entries := xs\<rparr>)" using assms(1) by (simp add: core_ok_def ledger_ok_def Let_def)
  then show ?thesis
    using assms(1-3) keys unfolding core_ok_def index_ok_def radix_ok_def entries_ok_def by (simp add: entry_keys_def)
qed

lemma use_core: "core_ok nb c \<Longrightarrow> core_ok nb (mem_use k c)"
proof -
  assume c: "core_ok nb c"
  then have d: "distinct (map fst (entries c))" by (simp add: core_ok_def entries_ok_def entry_keys_def)
  show ?thesis unfolding mem_use_def
    by (rule reorder_core [OF c move_facts(2) [OF d] move_facts(1) [OF d] move_facts(5) [OF d] move_facts(3) [OF d]])
qed

lemma use_limits: "core_ok nb c \<Longrightarrow> limits_ok c \<Longrightarrow> limits_ok (mem_use k c)"
proof -
  assume "core_ok nb c"
  then have d: "distinct (map fst (entries c))" by (simp add: core_ok_def entries_ok_def entry_keys_def)
  show "limits_ok c \<Longrightarrow> limits_ok (mem_use k c)"
    using move_facts(3) [OF d, of "\<lambda>(k, e). non_trimmable e \<and> \<not> protected e" k] move_facts(4) [OF d, of k]
    by (simp add: limits_ok_def mem_use_def hybrid_entries_def)
qed

lemma evict_lru_entries: "core_ok nb c \<Longrightarrow> entries (mem_evict_lru c) = tl (entries c)"
proof (cases "entries c")
  case (Cons p es)
  obtain k e where p: "p = (k, e)" by (cases p)
  assume "core_ok nb c"
  then have "k \<notin> fst ` set es" using Cons p by (simp add: core_ok_def entries_ok_def entry_keys_def)
  then show ?thesis using entries_evict_lru [of c k e es] Cons p by (simp add: filter_absent)
qed (simp add: mem_evict_lru_def)

lemma evict_lru_core:
  assumes "core_ok nb c" and "\<And>a. 0 \<le> nb a"
  shows "core_ok nb (mem_evict_lru c)" "shrinks c (mem_evict_lru c)"
proof -
  have "core_ok nb (mem_evict_lru c) \<and> shrinks c (mem_evict_lru c)"
  proof (cases "entries c")
    case Nil
    then show ?thesis using assms(1) by (simp add: mem_evict_lru_def shrinks_refl)
  next
    case (Cons p es)
    obtain k e where p: "p = (k, e)" by (cases p)
    have "core_ok nb (fold evict_entry [k] c) \<and> shrinks c (fold evict_entry [k] c) \<and>
        entries (fold evict_entry [k] c) = filter (\<lambda>p. fst p \<notin> set [k]) (entries c)"
      by (rule drops [OF evict_same(1) assms(2) assms(1)]) (simp_all add: entry_keys_def Cons p)
    then show ?thesis using Cons p by (simp add: mem_evict_lru_def)
  qed
  then show "core_ok nb (mem_evict_lru c)" "shrinks c (mem_evict_lru c)" by simp_all
qed

lemma use_order:
  assumes "core_ok nb c" and "k \<in> set (entry_keys c)"
  shows "entry_keys (mem_use k c) = remove1 k (entry_keys c) @ [k]"
  using move_to_end_keys [of "entries c" k] assms by (simp add: core_ok_def entries_ok_def entry_keys_def mem_use_def)

interpretation mem_lru: lru_order entry_keys "core_ok (\<lambda>a. int (nb a))" "\<lambda>c k. k \<in> set (entry_keys c)" mem_use mem_evict_lru
  for nb :: "arr \<Rightarrow> nat"
proof unfold_locales
  fix c :: "'a mem_cache"
  assume c: "core_ok (\<lambda>a. int (nb a)) c"
  show "distinct (entry_keys c)" using c by (simp add: core_ok_def entries_ok_def)
  show "core_ok (\<lambda>a. int (nb a)) (mem_evict_lru c)" by (rule evict_lru_core(1) [OF c]) simp
  show "entry_keys (mem_evict_lru c) = tl (entry_keys c)" using evict_lru_entries [OF c] by (simp add: entry_keys_def map_tl)
qed (simp_all add: use_core use_order)

end
