(* ===== verification/LexPrefix.thy ===== *)
theory LexPrefix
  imports Prelude "HOL-Library.List_Lexorder" "HOL-Library.Sublist"
begin

text \<open>
  Prefixes in a lexicographically sorted list: the prefixes of a sequence lie before it, longer ones later; its extensions
  follow it without a gap; and among the sequences on one side of it the nearest shares the longest prefix.
\<close>

lemma prefix_le: "prefix k t \<Longrightarrow> k \<le> t" for k t :: "'k::linorder list"
proof (induction k arbitrary: t)
  case (Cons a k)
  then show ?case by (cases t) auto
qed simp

lemma strict_prefix_less: "prefix k t \<Longrightarrow> k \<noteq> t \<Longrightarrow> k < t" for k t :: "'k::linorder list"
  using prefix_le by (simp add: less_le)

lemma hd_mono: "k \<le> t \<Longrightarrow> k \<noteq> [] \<Longrightarrow> hd k \<le> hd t" for k t :: "'k::linorder list"
  by (cases k; cases t) auto

lemma prefix_hd: "prefix k t \<Longrightarrow> k \<noteq> [] \<Longrightarrow> hd k = hd t"
  by (auto simp: prefix_def)

lemma prefixes_ordered: "prefix k t \<Longrightarrow> prefix k' t \<Longrightarrow> k < k' \<longleftrightarrow> length k < length k'" for k t :: "'k::linorder list"
proof -
  assume p: "prefix k t" "prefix k' t"
  then consider "prefix k k'" | "prefix k' k" by (meson prefix_same_cases)
  then show ?thesis
  proof cases
    case 1
    then show ?thesis using strict_prefix_less [OF 1] prefix_length_le [OF 1] by (metis less_irrefl not_equal_is_parallel prefix_length_prefix prefix_order.eq_iff nat_less_le)
  next
    case 2
    then show ?thesis using prefix_le [OF 2] prefix_length_le [OF 2] by auto
  qed
qed

text \<open>What is after \<open>t\<close> without extending it is after every extension.\<close>

lemma beyond_extensions: "t \<le> k \<Longrightarrow> \<not> prefix t k \<Longrightarrow> prefix t k' \<Longrightarrow> k' < k" for t k k' :: "'k::linorder list"
proof (induction t arbitrary: k k')
  case (Cons x t)
  then show ?case by (cases k; cases k') auto
qed simp

lemma common_prefix_mono: "a \<le> b \<Longrightarrow> b \<le> c \<Longrightarrow> common_prefix a c \<le> common_prefix b c" for a b c :: "'k::linorder list"
proof (induction a c arbitrary: b rule: common_prefix.induct)
  case (1 x as z bs)
  then show ?case by (cases b) auto
qed auto

lemma common_prefix_mono2: "a \<le> b \<Longrightarrow> b \<le> c \<Longrightarrow> common_prefix a c \<le> common_prefix a b" for a b c :: "'k::linorder list"
proof (induction a c arbitrary: b rule: common_prefix.induct)
  case (1 x as z bs)
  then show ?case by (cases b) auto
qed auto

lemma common_prefix_commute: "common_prefix a b = common_prefix b a"
  by (induction a b rule: common_prefix.induct) auto

lemma common_prefix_self: "common_prefix a a = length a"
  by (induction a) auto

lemma prefix_common: "prefix k t \<Longrightarrow> common_prefix k t = length k"
  by (induction k t rule: common_prefix.induct) auto

lemma common_prefix_take: "take (common_prefix a b) a = take (common_prefix a b) b"
  by (induction a b rule: common_prefix.induct) auto

end
