(* ===== verification/MemLookup.thy ===== *)
theory MemLookup
  imports MemCacheInv LexPrefix
begin

text \<open>
  What the scans over the sorted list find: the longest stored strict prefix, the longest stored extension, and the
  longest prefix shared with any stored key. The radix index finds the same prefix.
\<close>

section \<open>The backward scans\<close>

lemma proper_prefix_iff: "length k < length t \<and> take (length k) t = k \<longleftrightarrow> prefix k t \<and> k \<noteq> t"
proof
  assume "length k < length t \<and> take (length k) t = k"
  then show "prefix k t \<and> k \<noteq> t" by (metis nat_neq_iff take_is_prefix)
next
  assume a: "prefix k t \<and> k \<noteq> t"
  then obtain z where "t = k @ z" "z \<noteq> []" by (auto simp: prefix_def)
  then show "length k < length t \<and> take (length k) t = k" by simp
qed

lemma scan_stops:
  assumes "sorted_wrt (>) (k # ks)" and "k < t" and "k \<noteq> []" and "hd k \<noteq> hd t" and "k' \<in> set (k # ks)" and "k' \<noteq> []"
  shows "\<not> prefix k' (t :: int list)"
proof
  assume p: "prefix k' t"
  have "k' \<le> k" using assms(1,5) by auto
  then have "hd k' \<le> hd k" by (rule hd_mono) (rule assms(6))
  moreover have "hd k \<le> hd t" using hd_mono [of k t] assms(2,3) by simp
  ultimately show False using prefix_hd [OF p assms(6)] assms(4) by simp
qed

lemma scan_all_prefixes_eq:
  "sorted_wrt (>) ks \<Longrightarrow> \<forall>k\<in>set ks. k < t \<and> k \<noteq> [] \<Longrightarrow> scan_all_prefixes t ks = filter (\<lambda>k. prefix k t) ks"
proof (induction ks)
  case (Cons k ks)
  have k: "k < t" "k \<noteq> []" using Cons.prems by simp_all
  have ih: "scan_all_prefixes t ks = filter (\<lambda>k. prefix k t) ks" using Cons by simp
  consider "length t \<le> length k" | "length k < length t" "take (length k) t = k"
    | "length k < length t" "take (length k) t \<noteq> k" "hd k \<noteq> hd t" | "length k < length t" "take (length k) t \<noteq> k" "hd k = hd t"
    by fastforce
  then show ?case
  proof cases
    case 1
    then have "\<not> prefix k t" using proper_prefix_iff [of k t] k by auto
    then show ?thesis using 1 ih by simp
  next
    case 2
    then have "prefix k t" using proper_prefix_iff [of k t] by blast
    then show ?thesis using 2 ih by simp
  next
    case 3
    have "\<forall>k'\<in>set (k # ks). \<not> prefix k' t"
      using scan_stops [OF Cons.prems(1) k 3(3)] Cons.prems(2) by blast
    then show ?thesis using 3 by (simp add: filter_empty_conv)
  next
    case 4
    then have "\<not> prefix k t" using proper_prefix_iff [of k t] k by auto
    then show ?thesis using 4 ih by simp
  qed
qed simp

lemma scan_prefix_first: "\<forall>k\<in>set ks. k \<noteq> [] \<Longrightarrow> scan_prefix t ks = (case scan_all_prefixes t ks of [] \<Rightarrow> None | k # _ \<Rightarrow> Some k)"
  by (induction ks) auto

lemma below_keys:
  assumes "sorted_wrt (<) keys" and "\<forall>k\<in>set keys. k \<noteq> []"
  shows "scan_all_prefixes t (rev (take (bisect_left keys t) keys)) = rev (filter (\<lambda>k. prefix k t \<and> k \<noteq> t) keys)"
proof -
  have ks: "rev (take (bisect_left keys t) keys) = rev (filter (\<lambda>k. k < t) keys)" using take_bisect [OF assms(1), of t] by simp
  have "sorted_wrt (>) (rev (filter (\<lambda>k. k < t) keys))"
    using sorted_wrt_filter [OF assms(1), of "\<lambda>k. k < t"] by (simp add: sorted_wrt_rev)
  then have "scan_all_prefixes t (rev (filter (\<lambda>k. k < t) keys)) = filter (\<lambda>k. prefix k t) (rev (filter (\<lambda>k. k < t) keys))"
    by (rule scan_all_prefixes_eq) (use assms(2) in auto)
  also have "\<dots> = rev (filter (\<lambda>k. k < t \<and> prefix k t) keys)" by (simp add: rev_filter conj_commute)
  also have "(\<lambda>k. k < t \<and> prefix k t) = (\<lambda>k. prefix k t \<and> k \<noteq> t)"
    using strict_prefix_less [of _ t] by (auto simp: fun_eq_iff)
  finally show ?thesis unfolding ks .
qed

text \<open>The longest of the stored sequences with a property, if there is one.\<close>

definition longest :: "(int list \<Rightarrow> bool) \<Rightarrow> int list list \<Rightarrow> int list option \<Rightarrow> bool" where
  "longest P keys r \<longleftrightarrow> (case r of
     None \<Rightarrow> \<forall>k\<in>set keys. \<not> P k
   | Some k \<Rightarrow> k \<in> set keys \<and> P k \<and> (\<forall>k'\<in>set keys. P k' \<longrightarrow> length k' \<le> length k))"

lemma longest_cong: "set keys = set keys' \<Longrightarrow> longest P keys r = longest P keys' r"
  by (cases r) (simp_all add: longest_def)

lemma longest_prefix_unique:
  assumes "longest (\<lambda>k. prefix k t \<and> k \<noteq> t) keys r" and "longest (\<lambda>k. prefix k t \<and> k \<noteq> t) keys r'"
  shows "r = r'"
proof (cases r)
  case None
  then show ?thesis using assms by (cases r') (auto simp: longest_def)
next
  case (Some k)
  then obtain k' where k': "r' = Some k'" using assms by (cases r') (auto simp: longest_def)
  then have "prefix k t" "prefix k' t" "length k = length k'" using assms Some by (auto simp: longest_def intro: le_antisym)
  then show ?thesis using Some k' by (metis append_eq_append_conv prefixE)
qed

lemma scan_prefix_longest:
  assumes "sorted_wrt (<) keys" and "\<forall>k\<in>set keys. k \<noteq> []"
  shows "longest (\<lambda>k. prefix k t \<and> k \<noteq> t) keys (scan_prefix t (rev (take (bisect_left keys t) keys)))"
proof -
  let ?P = "\<lambda>k. prefix k t \<and> k \<noteq> t"
  have s: "scan_prefix t (rev (take (bisect_left keys t) keys)) = (case rev (filter ?P keys) of [] \<Rightarrow> None | k # _ \<Rightarrow> Some k)"
    using scan_prefix_first [of "rev (take (bisect_left keys t) keys)" t] below_keys [OF assms, of t] assms(2)
    by (auto dest: in_set_takeD)
  show ?thesis
  proof (cases "rev (filter ?P keys)")
    case Nil
    then show ?thesis unfolding s by (auto simp: longest_def filter_empty_conv)
  next
    case (Cons k ks)
    have so: "sorted_wrt (>) (k # ks)" unfolding Cons [symmetric] using sorted_wrt_filter [OF assms(1), of ?P] by (simp add: sorted_wrt_rev)
    have st: "set (filter ?P keys) = set (k # ks)" using arg_cong [OF Cons, of set] by simp
    then have k: "k \<in> set keys" "?P k" by auto
    have "length k' \<le> length k" if "k' \<in> set keys" "?P k'" for k'
    proof -
      have "k' \<in> set (k # ks)" using that st by auto
      then have "k' \<le> k" using so by auto
      then show ?thesis using prefixes_ordered [of k t k'] k(2) that(2) by (metis leI not_less)
    qed
    then show ?thesis unfolding s Cons using k by (simp add: longest_def)
  qed
qed

section \<open>The forward scan\<close>

lemma scan_super_longest:
  "sorted_wrt (<) ks \<Longrightarrow> \<forall>k\<in>set ks. t \<le> k \<Longrightarrow> (\<forall>b. best = Some b \<longrightarrow> prefix t b) \<Longrightarrow>
   (case scan_super unusable t best ks of
      None \<Rightarrow> best = None \<and> (\<forall>k\<in>set ks. \<not> (prefix t k \<and> \<not> (unusable \<and> k = t)))
    | Some r \<Rightarrow> (r \<in> set ks \<or> best = Some r) \<and> prefix t r \<and> (best \<noteq> Some r \<longrightarrow> \<not> (unusable \<and> r = t)) \<and>
        (\<forall>b. best = Some b \<longrightarrow> length b \<le> length r) \<and>
        (\<forall>k\<in>set ks. prefix t k \<and> \<not> (unusable \<and> k = t) \<longrightarrow> length k \<le> length r))"
proof (induction ks arbitrary: best)
  case Nil
  then show ?case by (cases best) auto
next
  case (Cons k ks)
  have t: "t \<le> k" using Cons.prems by simp
  have pre: "take (length t) k = t \<longleftrightarrow> prefix t k" by (metis append_eq_conv_conj prefixE take_is_prefix)
  consider (skip) "unusable \<and> k = t" | (short) "\<not> (unusable \<and> k = t)" "length k < length t"
    | (ext) "\<not> (unusable \<and> k = t)" "\<not> length k < length t" "prefix t k"
    | (stop) "\<not> (unusable \<and> k = t)" "\<not> length k < length t" "\<not> prefix t k" by blast
  then show ?case
  proof cases
    case skip
    then show ?thesis using Cons.IH [of best] Cons.prems by (auto split: option.splits)
  next
    case short
    then have "\<not> prefix t k" using prefix_length_le by fastforce
    then show ?thesis using short Cons.IH [of best] Cons.prems by (auto split: option.splits)
  next
    case ext
    let ?b = "case best of None \<Rightarrow> Some k | Some b \<Rightarrow> if length b < length k then Some k else Some b"
    have "\<forall>b. ?b = Some b \<longrightarrow> prefix t b" using Cons.prems(3) ext by (auto split: option.splits if_splits)
    from Cons.IH [OF _ _ this] Cons.prems(1,2) show ?thesis using ext pre by (auto split: option.splits if_splits)
  next
    case stop
    have "\<not> prefix t k'" if "k' \<in> set ks" for k'
      using beyond_extensions [OF t stop(3), of k'] Cons.prems(1) that by fastforce
    then show ?thesis using stop pre Cons.prems(3) by (auto split: option.splits)
  qed
qed

lemma scan_super_best:
  assumes "sorted_wrt (<) keys"
  shows "longest (\<lambda>k. prefix t k \<and> \<not> (unusable \<and> k = t)) keys (scan_super unusable t None (drop (bisect_left keys t) keys))"
proof -
  have d: "drop (bisect_left keys t) keys = filter (\<lambda>k. t \<le> k) keys" by (rule drop_bisect [OF assms])
  have "sorted_wrt (<) (filter (\<lambda>k. t \<le> k) keys)" by (rule sorted_wrt_filter [OF assms])
  from scan_super_longest [OF this, of t None unusable] show ?thesis
    unfolding d using prefix_le [of t] by (auto simp: longest_def split: option.splits)
qed

section \<open>The nearest keys\<close>

lemma fold_max:
  "b \<le> fold (\<lambda>x best. max best (f x)) xs b \<and> (\<forall>x\<in>set xs. f x \<le> fold (\<lambda>x best. max best (f x)) xs b) \<and>
   (fold (\<lambda>x best. max best (f x)) xs b = b \<or> (\<exists>x\<in>set xs. fold (\<lambda>x best. max best (f x)) xs b = f x))" for b :: nat
proof (induction xs arbitrary: b)
  case (Cons x xs)
  define m where "m = max b (f x)"
  have m: "b \<le> m" "f x \<le> m" "m = b \<or> m = f x" by (auto simp: m_def)
  have e: "fold (\<lambda>x best. max best (f x)) (x # xs) b = fold (\<lambda>x best. max best (f x)) xs m" by (simp add: m_def)
  show ?case unfolding e using Cons.IH [of m] m by (auto intro: order_trans)
qed simp

lemma slice_neighbours: "slice keys (bisect_left keys t - 1) (bisect_left keys t + 1) = neighbours keys t"
proof -
  let ?i = "bisect_left keys t"
  have le: "?i \<le> length keys" by (simp add: bisect_left_def length_takeWhile_le)
  show ?thesis
  proof (cases "?i = 0")
    case True
    then show ?thesis by (cases keys) (simp_all add: neighbours_def slice_def)
  next
    case False
    then obtain j where j: "?i = Suc j" "j < length keys" using le by (cases ?i) auto
    have "slice keys j (Suc (Suc j)) = take 2 (keys ! j # drop (Suc j) keys)"
      using Cons_nth_drop_Suc [OF j(2)] by (simp add: slice_def)
    also have "\<dots> = keys ! j # (if Suc j < length keys then [keys ! Suc j] else [])"
      using Cons_nth_drop_Suc [of "Suc j" keys] by (cases "Suc j < length keys") (auto simp: numeral_2_eq_2 dest: sym)
    finally show ?thesis using j by (simp add: neighbours_def)
  qed
qed

lemma neighbours_in: "n \<in> set (neighbours keys t) \<Longrightarrow> n \<in> set keys"
proof -
  have "bisect_left keys t \<le> length keys" by (simp add: bisect_left_def length_takeWhile_le)
  then show "n \<in> set (neighbours keys t) \<Longrightarrow> n \<in> set keys" by (auto simp: neighbours_def Let_def split: if_splits)
qed

text \<open>On each side the nearest key shares the most.\<close>

lemma nearest_below:
  assumes "sorted_wrt (<) keys" and "k \<in> set keys" and "k < (t :: int list)"
  shows "\<exists>n\<in>set (neighbours keys t). n < t \<and> common_prefix k t \<le> common_prefix n t"
proof -
  let ?i = "bisect_left keys t"
  have tk: "take ?i keys = filter (\<lambda>x. x < t) keys" by (rule take_bisect [OF assms(1)])
  have k: "k \<in> set (take ?i keys)" using assms(2,3) tk by simp
  then have i: "0 < ?i" by (cases ?i) auto
  have le: "?i \<le> length keys" by (simp add: bisect_left_def length_takeWhile_le)
  have n: "keys ! (?i - 1) < t"
  proof -
    have "take ?i keys ! (?i - 1) \<in> set (take ?i keys)" by (rule nth_mem) (use i le in simp)
    then have "keys ! (?i - 1) \<in> set (take ?i keys)" using i by simp
    then show ?thesis unfolding tk by simp
  qed
  obtain j where j: "j < ?i" "k = keys ! j" using k le by (auto simp: in_set_conv_nth)
  have "k \<le> keys ! (?i - 1)"
    using j sorted_wrt_nth_less [OF assms(1), of j "?i - 1"] i le by (cases "j = ?i - 1") (auto simp: less_imp_le)
  then have "common_prefix k t \<le> common_prefix (keys ! (?i - 1)) t" using n by (intro common_prefix_mono) simp_all
  moreover have "keys ! (?i - 1) \<in> set (neighbours keys t)" using i by (simp add: neighbours_def Let_def)
  ultimately show ?thesis using n by blast
qed

lemma nearest_above:
  assumes "sorted_wrt (<) keys" and "k \<in> set keys" and "(t :: int list) \<le> k"
  shows "\<exists>n\<in>set (neighbours keys t). t \<le> n \<and> common_prefix k t \<le> common_prefix n t \<and> (t \<notin> set keys \<longrightarrow> n \<noteq> t)"
proof -
  let ?i = "bisect_left keys t"
  have d: "drop ?i keys = filter (\<lambda>x. t \<le> x) keys" by (rule drop_bisect [OF assms(1)])
  have k: "k \<in> set (drop ?i keys)" using assms(2,3) d by simp
  then have i: "?i < length keys" by (metis drop_all empty_iff empty_set leI)
  have n: "t \<le> keys ! ?i"
  proof -
    have "keys ! ?i \<in> set (drop ?i keys)" using i Cons_nth_drop_Suc [OF i] by (metis list.set_intros(1))
    then show ?thesis unfolding d by simp
  qed
  obtain m where m: "m < length (drop ?i keys)" "drop ?i keys ! m = k" using k unfolding in_set_conv_nth by blast
  define j where "j = ?i + m"
  have j: "?i \<le> j" "j < length keys" "k = keys ! j" using m i by (simp_all add: j_def)
  have "keys ! ?i \<le> k"
    using j sorted_wrt_nth_less [OF assms(1), of ?i j] by (cases "j = ?i") (auto simp: less_imp_le)
  then have "common_prefix t k \<le> common_prefix t (keys ! ?i)" using n by (intro common_prefix_mono2)
  then have "common_prefix k t \<le> common_prefix (keys ! ?i) t" by (simp only: common_prefix_commute)
  moreover have "keys ! ?i \<in> set (neighbours keys t)" using i by (simp add: neighbours_def Let_def)
  moreover have "t \<notin> set keys \<longrightarrow> keys ! ?i \<noteq> t" using i by (metis nth_mem)
  ultimately show ?thesis using n by blast
qed

lemma lcp_fold:
  "fold (lcp_step t) xs (b, n) = (b', n') \<Longrightarrow> n \<le> n' \<and> (\<forall>k\<in>set xs. k \<noteq> t \<longrightarrow> common_prefix k t \<le> n') \<and>
   ((b', n') = (b, n) \<or> (\<exists>k\<in>set xs. k \<noteq> t \<and> b' = Some k \<and> n' = common_prefix k t \<and> n < n'))"
proof (induction xs arbitrary: b n)
  case (Cons k xs)
  obtain b1 n1 where s: "lcp_step t k (b, n) = (b1, n1)" by (cases "lcp_step t k (b, n)")
  have ih: "n1 \<le> n' \<and> (\<forall>k\<in>set xs. k \<noteq> t \<longrightarrow> common_prefix k t \<le> n') \<and>
   ((b', n') = (b1, n1) \<or> (\<exists>k\<in>set xs. k \<noteq> t \<and> b' = Some k \<and> n' = common_prefix k t \<and> n1 < n'))"
    using Cons.IH [of b1 n1] Cons.prems s by simp
  have "(k \<noteq> t \<longrightarrow> common_prefix k t \<le> n1) \<and> n \<le> n1 \<and> ((b1, n1) = (b, n) \<or> k \<noteq> t \<and> b1 = Some k \<and> n1 = common_prefix k t \<and> n < n1)"
    using s common_prefix_le [of k t] by (auto simp: lcp_step_def split: if_splits)
  then show ?case using ih by fastforce
qed simp

lemma lcp_candidate_sound:
  "lcp_candidate t c = (r, n) \<Longrightarrow> (r = None \<longrightarrow> n = 0) \<and>
     (\<forall>k. r = Some k \<longrightarrow> k \<in> set (sorted_keys c) \<and> k \<noteq> t \<and> n = common_prefix k t \<and> 0 < n)"
  using lcp_fold [of t "neighbours (sorted_keys c) t" None 0 r n] neighbours_in by (auto simp: lcp_candidate_def)

lemma lcp_candidate_best:
  assumes "sorted_wrt (<) (sorted_keys c)" and "t \<notin> set (sorted_keys c)" and "lcp_candidate t c = (r, n)"
  shows "\<forall>k\<in>set (sorted_keys c). common_prefix k t \<le> n"
proof
  fix k assume k: "k \<in> set (sorted_keys c)"
  have "\<exists>m\<in>set (neighbours (sorted_keys c) t). m \<noteq> t \<and> common_prefix k t \<le> common_prefix m t"
    using nearest_below [OF assms(1) k, of t] nearest_above [OF assms(1) k, of t] assms(2) by (cases "k < t") fastforce+
  then show "common_prefix k t \<le> n"
    using lcp_fold [of t "neighbours (sorted_keys c) t" None 0 r n] assms(3) by (fastforce simp: lcp_candidate_def)
qed

lemma slice_search_common:
  "low \<le> common_prefix key other \<Longrightarrow> common_prefix key other \<le> high \<Longrightarrow> high \<le> min (length key) (length other) \<Longrightarrow>
   slice_search key other low high = common_prefix key other"
proof (induction key other low high rule: slice_search.induct)
  case (1 key other low high)
  show ?case
  proof (cases "low < high")
    case True
    let ?m = "(low + high + 1) div 2"
    have m: "low \<le> ?m" "?m \<le> high" "low < ?m" using True by linarith+
    have eq: "slice key low ?m = slice other low ?m \<longleftrightarrow> ?m \<le> common_prefix key other"
    proof -
      have l: "take low key = take low other" using take_common_prefix [of low key other] 1(3,5) True by simp
      have "slice key low ?m = slice other low ?m \<longleftrightarrow> take ?m key = take ?m other"
        using l take_slice [OF m(1), of key] take_slice [OF m(1), of other] by (metis same_append_eq)
      also have "\<dots> \<longleftrightarrow> ?m \<le> common_prefix key other" by (rule take_common_prefix) (use m 1(5) in simp)
      finally show ?thesis .
    qed
    show ?thesis
    proof (cases "?m \<le> common_prefix key other")
      case le: True
      then have "slice_search key other low high = slice_search key other ?m high"
        using True eq by (subst slice_search.simps) (simp add: Let_def)
      then show ?thesis using 1(1) [OF True refl] eq le 1(4,5) by simp
    next
      case gt: False
      then have "slice_search key other low high = slice_search key other low (?m - 1)"
        using True eq by (subst slice_search.simps) (simp add: Let_def)
      moreover have "common_prefix key other \<le> ?m - 1" "?m - 1 \<le> min (length key) (length other)" using gt m 1(5) by linarith+
      moreover have "slice key low ?m \<noteq> slice other low ?m" using gt eq by blast
      ultimately show ?thesis using 1(2) [OF True refl _ 1(3)] by simp
    qed
  next
    case False
    then show ?thesis using 1(3,4) by (subst slice_search.simps) simp
  qed
qed

lemma shared_prefix_length_best:
  assumes "sorted_wrt (<) (sorted_keys c)"
  shows "(\<forall>k\<in>set (sorted_keys c). common_prefix k t \<le> shared_prefix_length t c) \<and>
    (shared_prefix_length t c = 0 \<or> (\<exists>k\<in>set (sorted_keys c). shared_prefix_length t c = common_prefix k t))"
proof -
  have s: "slice_search t nb 0 (min (length t) (length nb)) = common_prefix nb t" for nb
    using slice_search_common [of 0 t nb "min (length t) (length nb)"] common_prefix_le [of t nb] by (simp add: common_prefix_commute)
  have e: "shared_prefix_length t c = fold (\<lambda>nb best. max best (common_prefix nb t)) (neighbours (sorted_keys c) t) 0"
    unfolding shared_prefix_length_def Let_def s slice_neighbours ..
  note f = fold_max [of 0 "\<lambda>nb. common_prefix nb t" "neighbours (sorted_keys c) t", folded e]
  have "common_prefix k t \<le> shared_prefix_length t c" if k: "k \<in> set (sorted_keys c)" for k
    using nearest_below [OF assms k, of t] nearest_above [OF assms k, of t] f by (cases "k < t") fastforce+
  then show ?thesis using f neighbours_in by blast
qed

end
