(* ===== verification/MemRewind.thy ===== *)
theory MemRewind
  imports MemLayers
begin

text \<open>
  What a rewind does. \<open>hold layer ts\<close> says that a layer holds the state of the tokens \<open>ts\<close>; the laws are what the code
  relies on of the cache classes. A feasible rewind succeeds; a rewind of layers the code knows how to rewind takes off
  exactly the tokens asked for; any other layer is passed through as it was.
\<close>

section \<open>Laws of the cache classes\<close>

text \<open>A \<open>trim\<close> that reports \<open>n\<close> took off \<open>n\<close>, and the two rebuilt classes are governed by their offset.\<close>

definition trim_laws :: "'a layer_api \<Rightarrow> ('a layer \<Rightarrow> int list \<Rightarrow> bool) \<Rightarrow> bool" where
  "trim_laws api hold \<longleftrightarrow>
     (\<forall>ts. hold Absent ts) \<and>
     (\<forall>n m cs ts. hold (Wrapper n m cs) ts \<longleftrightarrow> (\<forall>c\<in>set cs. hold c ts)) \<and>
     (\<forall>l l' n ts. hold (Leaf l) ts \<longrightarrow> 0 \<le> n \<longrightarrow> n \<le> int (length ts) \<longrightarrow> trim_method api l n = Some (Some n, l') \<longrightarrow>
        hold (Leaf l') (take (length ts - nat n) ts)) \<and>
     (\<forall>l r l' n ts. hold (Leaf l) ts \<longrightarrow> 0 \<le> n \<longrightarrow> n \<le> int (length ts) \<longrightarrow> isa_turbo (leaf_class l) \<longrightarrow>
        trim_method api l n = Some (r, l') \<longrightarrow> hold (Leaf l') (take (length ts - nat n) ts)) \<and>
     (\<forall>l n ts. hold (Leaf l) ts \<longrightarrow> 0 \<le> n \<longrightarrow> n \<le> int (length ts) \<longrightarrow> isa_quantized (leaf_class l) \<longrightarrow>
        hold (Leaf (rebuild_quantized api n l)) (take (length ts - nat n) ts)) \<and>
     (\<forall>l n ts. hold (Leaf l) ts \<longrightarrow> 0 \<le> n \<longrightarrow> n \<le> int (length ts) \<longrightarrow> offset l \<noteq> None \<longrightarrow> plain_keys l \<longrightarrow>
        \<not> isa_rotating (leaf_class l) \<longrightarrow> \<not> layer_forbids_trim api (Leaf l) \<longrightarrow>
        hold (Leaf (rebuild_kv api n l)) (take (length ts - nat n) ts))"

text \<open>A recurrent layer's checkpoints are its states at prefixes of its own tokens.\<close>

definition restore_law :: "'a layer_api \<Rightarrow> ('a layer \<Rightarrow> int list \<Rightarrow> bool) \<Rightarrow> bool" where
  "restore_law api hold \<longleftrightarrow>
     (\<forall>layer p ts layer'. is_recurrent_layer layer \<longrightarrow> hold layer ts \<longrightarrow> 0 < p \<longrightarrow> p \<le> int (length ts) \<longrightarrow>
        restore_recurrent_layer (clear_rows api) layer p = Some layer' \<longrightarrow> hold layer' (take (nat p) ts))"

text \<open>When the metadata say a trim is possible, it succeeds.\<close>

definition can_trim_laws :: "'a layer_api \<Rightarrow> bool" where
  "can_trim_laws api \<longleftrightarrow>
     (\<forall>l n. has_deepseek_pooling (Leaf l) \<longrightarrow> can_trim_method api l n = Some True \<longrightarrow> (\<exists>l'. trim_method api l n = Some (Some n, l'))) \<and>
     (\<forall>l n. isa_kv (leaf_class l) \<or> isa_rotating (leaf_class l) \<or> isa_quantized (leaf_class l) \<longrightarrow>
        is_trimmable api (Leaf l) \<noteq> Some False \<longrightarrow> 0 \<le> n \<longrightarrow> offset_covers l n \<longrightarrow> (\<exists>l'. trim_method api l n = Some (Some n, l'))) \<and>
     (\<forall>l. isa_rotating (leaf_class l) \<longrightarrow> is_trimmable api (Leaf l) \<noteq> None) \<and>
     (\<forall>l n. isa_turbo (leaf_class l) \<longrightarrow> trim_method api l n \<noteq> None)"

section \<open>Lists of layers\<close>

lemma map_option_list_some:
  "map_option_list f xs = Some ys \<longleftrightarrow> list_all2 (\<lambda>x y. f x = Some y) xs ys"
proof (induction xs arbitrary: ys)
  case (Cons x xs)
  then show ?case by (cases ys) (auto split: option.splits)
qed auto

lemma map_option_list_total: "(\<And>x. x \<in> set xs \<Longrightarrow> \<exists>y. f x = Some y) \<Longrightarrow> \<exists>ys. map_option_list f xs = Some ys"
proof (induction xs)
  case (Cons x xs)
  then obtain ys where ys: "map_option_list f xs = Some ys" by auto
  obtain y where "f x = Some y" using Cons.prems [of x] by auto
  then show ?case using ys by simp
qed simp

lemma map_option_list_id: "(\<And>x. x \<in> set xs \<Longrightarrow> f x = Some x) \<Longrightarrow> map_option_list f xs = Some xs"
  by (induction xs) auto

section \<open>What is really rewound\<close>

text \<open>The layers for which the dispatch does something: all others are passed through.\<close>

fun rewinds :: "'a layer \<Rightarrow> bool" where
  "rewinds Absent = True"
| "rewinds (Extracted _ _) = False"
| "rewinds (Wrapper n m cs) = has_deepseek_pooling (Wrapper n m cs)"
| "rewinds (Leaf l) = (isa_quantized (leaf_class l) \<or> isa_turbo (leaf_class l) \<or> (offset l \<noteq> None \<and> plain_keys l) \<or>
     has_deepseek_pooling (Leaf l))"

lemma trim_untouched: "\<not> rewinds layer \<Longrightarrow> trim_layer_offset api n layer = Some layer"
  by (cases layer) (auto simp: trim_leaf_offset_def)

lemma trim_method_at:
  assumes "trim_laws api hold" and "hold (Leaf l) ts" and "0 \<le> n" and "n \<le> int (length ts)" and "trim_method_exact api n l = Some layer'"
  shows "hold layer' (take (length ts - nat n) ts)"
proof -
  obtain l' where "trim_method api l n = Some (Some n, l')" "layer' = Leaf l'"
    using assms(5) by (auto simp: trim_method_exact_def split: option.splits if_splits)
  then show ?thesis using assms(1-4) unfolding trim_laws_def by blast
qed

lemma trim_exact_at:
  assumes "trim_laws api hold" and "0 \<le> n" and "n \<le> int (length ts)"
  shows "hold layer ts \<Longrightarrow> trim_wrapper_exact api n layer = Some layer' \<Longrightarrow> hold layer' (take (length ts - nat n) ts)"
proof (induction layer arbitrary: layer')
  case (Wrapper name modname children)
  have w: "\<And>cs us. hold (Wrapper name modname cs) us \<longleftrightarrow> (\<forall>c\<in>set cs. hold c us)" using assms(1) by (simp add: trim_laws_def)
  obtain cs where cs: "list_all2 (\<lambda>c c'. trim_wrapper_exact api n c = Some c') children cs" "layer' = Wrapper name modname cs"
    using Wrapper.prems(2) by (auto simp: map_option_list_some)
  have "hold c' (take (length ts - nat n) ts)" if m: "c' \<in> set cs" for c'
  proof -
    obtain i where i: "i < length cs" "c' = cs ! i" using m by (auto simp: in_set_conv_nth)
    then have c: "children ! i \<in> set children" "trim_wrapper_exact api n (children ! i) = Some c'"
      using cs(1) by (auto simp: list_all2_conv_all_nth)
    then show ?thesis using Wrapper.IH [OF c(1) _ c(2)] Wrapper.prems(1) w by blast
  qed
  then show ?case unfolding cs(2) w by blast
next
  case (Leaf l)
  then show ?case using trim_method_at [OF assms(1) Leaf.prems(1) assms(2,3)] by simp
qed auto

lemma trim_layer_at:
  assumes "trim_laws api hold" and "0 \<le> n" and "n \<le> int (length ts)" and "hold layer ts"
    and "rewinds layer" and "layer = Absent \<or> \<not> layer_forbids_trim api layer"
    and "\<And>l. layer = Leaf l \<Longrightarrow> isa_turbo (leaf_class l) \<Longrightarrow> trim_method api l n \<noteq> None"
    and "trim_layer_offset api n layer = Some layer'"
  shows "hold layer' (take (length ts - nat n) ts)"
proof (cases layer)
  case Absent
  then show ?thesis using assms(1,8) unfolding trim_laws_def by auto
next
  case (Wrapper name modname children)
  then show ?thesis using trim_exact_at [OF assms(1-4)] assms(5,8) by simp
next
  case (Leaf l)
  then have h: "hold (Leaf l) ts" and f: "\<not> layer_forbids_trim api (Leaf l)" using assms(4,6) by auto
  have t: "trim_leaf_offset api n l = Some layer'" using assms(8) Leaf by simp
  consider "isa_quantized (leaf_class l)" | "\<not> isa_quantized (leaf_class l)" "isa_turbo (leaf_class l)"
    | "\<not> isa_quantized (leaf_class l)" "\<not> isa_turbo (leaf_class l)" "offset l \<noteq> None \<and> plain_keys l" "isa_rotating (leaf_class l)"
    | "\<not> isa_quantized (leaf_class l)" "\<not> isa_turbo (leaf_class l)" "offset l \<noteq> None \<and> plain_keys l" "\<not> isa_rotating (leaf_class l)"
    | "\<not> isa_quantized (leaf_class l)" "\<not> isa_turbo (leaf_class l)" "\<not> (offset l \<noteq> None \<and> plain_keys l)" "has_deepseek_pooling (Leaf l)"
    using assms(5) unfolding Leaf rewinds.simps by blast
  then show ?thesis
  proof cases
    case 1
    then show ?thesis using t h assms(1-3) unfolding trim_laws_def by (simp add: trim_leaf_offset_def) blast
  next
    case 2
    then obtain r l' where m: "trim_method api l n = Some (r, l')" using assms(7) [OF Leaf] by (cases "trim_method api l n") auto
    then have "layer' = Leaf l'" using t 2 by (simp add: trim_leaf_offset_def)
    then show ?thesis using m 2 h assms(1-3) unfolding trim_laws_def by blast
  next
    case 3
    then have "trim_method_exact api n l = Some layer'" using t by (auto simp: trim_leaf_offset_def trim_rotating_def split: if_splits)
    then show ?thesis by (rule trim_method_at [OF assms(1) h assms(2,3)])
  next
    case 4
    then have "layer' = Leaf (rebuild_kv api n l)" using t by (simp add: trim_leaf_offset_def)
    then show ?thesis using 4 f h assms(1-3) unfolding trim_laws_def by blast
  next
    case 5
    then have "trim_wrapper_exact api n (Leaf l) = Some layer'"
      using t unfolding trim_leaf_offset_def if_not_P [OF 5(1)] if_not_P [OF 5(2)] if_not_P [OF 5(3)] by simp
    then show ?thesis by (rule trim_exact_at [OF assms(1-3) h])
  qed
qed (use assms(5) in simp)

definition holds_all :: "('a layer \<Rightarrow> int list \<Rightarrow> bool) \<Rightarrow> 'a layer list \<Rightarrow> int list \<Rightarrow> bool" where
  "holds_all hold cache ts \<longleftrightarrow> (\<forall>layer\<in>set cache. hold layer ts)"

definition rewindable :: "'a layer_api \<Rightarrow> 'a layer \<Rightarrow> bool" where
  "rewindable api layer \<longleftrightarrow> rewinds layer \<and>
     (\<forall>l n. layer = Leaf l \<longrightarrow> isa_turbo (leaf_class l) \<longrightarrow> trim_method api l n \<noteq> None)"

lemma trim_cache_at:
  assumes "trim_laws api hold" and "0 \<le> n" and "n \<le> int (length ts)" and "holds_all hold cache ts"
    and "\<forall>layer\<in>set cache. rewindable api layer" and "\<forall>layer\<in>set cache. layer = Absent \<or> \<not> layer_forbids_trim api layer"
    and "trim_cache_offset api cache n = Some cache'"
  shows "holds_all hold cache' (take (length ts - nat n) ts)"
  unfolding holds_all_def
proof
  fix layer' assume "layer' \<in> set cache'"
  then obtain i where i: "i < length cache'" "layer' = cache' ! i" by (auto simp: in_set_conv_nth)
  then have l: "cache ! i \<in> set cache" "trim_layer_offset api n (cache ! i) = Some layer'"
    using assms(7) by (auto simp: trim_cache_offset_def map_option_list_some list_all2_conv_all_nth)
  show "hold layer' (take (length ts - nat n) ts)"
    by (rule trim_layer_at [OF assms(1-3) _ _ _ _ l(2)])
      (use l(1) assms(4-6) in \<open>auto simp: holds_all_def rewindable_def\<close>)
qed

text \<open>Layers outside the dispatch come back as they went in.\<close>

lemma trim_cache_untouched:
  "\<forall>layer\<in>set cache. \<not> rewinds layer \<Longrightarrow> trim_cache_offset api cache n = Some cache"
  unfolding trim_cache_offset_def by (rule map_option_list_id) (simp add: trim_untouched)

section \<open>A feasible rewind succeeds\<close>

text \<open>No wrapper with a missing child, and no pooling cache among the rotating ones.\<close>

fun regular :: "'a layer \<Rightarrow> bool" where
  "regular (Wrapper _ _ cs) = list_all (\<lambda>c. c \<noteq> Absent \<and> regular c) cs"
| "regular (Leaf l) = (has_deepseek_pooling (Leaf l) \<longrightarrow> \<not> isa_rotating (leaf_class l))"
| "regular _ = True"

lemma pooling_recursion: "has_deepseek_pooling (Leaf l) \<longleftrightarrow> pooling_name (type_module (leaf_class l)) (type_name (leaf_class l)) = Some True"
  by simp

lemma feasible_leaf_trims:
  assumes "can_trim_laws api" and "leaf_rewind_feasible api True n l" and "0 < n"
  shows "\<exists>l'. trim_method api l n = Some (Some n, l')"
proof (cases "has_deepseek_pooling (Leaf l)")
  case True
  then have "can_trim_method api l n = Some True" using assms(2) unfolding leaf_rewind_feasible_def if_P [OF True] by simp
  then show ?thesis using assms(1) True unfolding can_trim_laws_def by blast
next
  case False
  then have "is_trimmable api (Leaf l) \<noteq> Some False" "offset_covers l n"
      "isa_kv (leaf_class l) \<or> isa_rotating (leaf_class l) \<or> isa_quantized (leaf_class l)"
    using assms(2,3) unfolding leaf_rewind_feasible_def if_not_P [OF False] by (auto split: if_splits)
  moreover have "\<And>l n. isa_kv (leaf_class l) \<or> isa_rotating (leaf_class l) \<or> isa_quantized (leaf_class l) \<Longrightarrow>
      is_trimmable api (Leaf l) \<noteq> Some False \<Longrightarrow> 0 \<le> n \<Longrightarrow> offset_covers l n \<Longrightarrow> \<exists>l'. trim_method api l n = Some (Some n, l')"
    using assms(1) unfolding can_trim_laws_def by blast
  ultimately show ?thesis using assms(3) by simp
qed

lemma feasible_wrapper_trims:
  assumes "can_trim_laws api" and "0 < n"
  shows "layer_rewind_feasible api True n layer \<Longrightarrow> regular layer \<Longrightarrow> layer \<noteq> Absent \<Longrightarrow> \<exists>layer'. trim_wrapper_exact api n layer = Some layer'"
proof (induction layer)
  case (Wrapper name modname children)
  have "\<exists>cs. map_option_list (trim_wrapper_exact api n) children = Some cs"
    by (rule map_option_list_total) (use Wrapper in \<open>auto simp: list_all_iff\<close>)
  then show ?case by auto
next
  case (Leaf l)
  then show ?case using feasible_leaf_trims [OF assms(1) _ assms(2), of l] by (auto simp: trim_method_exact_def)
qed (use assms(2) in auto)

lemma feasible_layer_trims:
  assumes "can_trim_laws api" and "0 < n" and "layer_rewind_feasible api False n layer" and "regular layer"
  shows "(\<exists>layer'. trim_layer_offset api n layer = Some layer') \<and> rewindable api layer"
proof (cases layer)
  case (Wrapper name modname children)
  then have "layer_rewind_feasible api True n layer" and p: "has_deepseek_pooling layer" using assms(3) by simp_all
  then have "\<exists>layer'. trim_wrapper_exact api n layer = Some layer'"
    using feasible_wrapper_trims [OF assms(1,2)] assms(4) Wrapper by blast
  then show ?thesis using p Wrapper by (simp add: rewindable_def)
next
  case (Leaf l)
  then have f: "leaf_rewind_feasible api False n l" using assms(3) by simp
  have turbo: "isa_turbo (leaf_class l) \<Longrightarrow> trim_method api l m \<noteq> None" for m
    using assms(1) unfolding can_trim_laws_def by blast
  consider (quantized) "isa_quantized (leaf_class l)" | (turbo) "isa_turbo (leaf_class l)"
    | (pooling) "has_deepseek_pooling (Leaf l)"
    | (plain) "offset l \<noteq> None \<and> plain_keys l" "\<not> has_deepseek_pooling (Leaf l)" "\<not> isa_quantized (leaf_class l)"
        "\<not> isa_turbo (leaf_class l)"
    using f assms(2) unfolding leaf_rewind_feasible_def by (metis less_irrefl)
  then show ?thesis
  proof cases
    case quantized
    then show ?thesis using Leaf turbo by (simp add: trim_leaf_offset_def rewindable_def)
  next
    case t: turbo
    then show ?thesis using Leaf turbo by (simp add: trim_leaf_offset_def rewindable_def)
  next
    case pooling
    then have "can_trim_method api l n = Some True" using f unfolding leaf_rewind_feasible_def if_P [OF pooling] by simp
    then obtain l' where "trim_method api l n = Some (Some n, l')" using assms(1) pooling unfolding can_trim_laws_def by blast
    moreover have "\<not> isa_rotating (leaf_class l)" using assms(4) pooling unfolding Leaf regular.simps by blast
    ultimately show ?thesis using Leaf turbo pooling by (auto simp: trim_leaf_offset_def rewindable_def trim_method_exact_def)
  next
    case plain
    then have c: "is_trimmable api (Leaf l) \<noteq> Some False" "offset_covers l n"
      using f unfolding leaf_rewind_feasible_def if_not_P [OF plain(2)] if_not_P [OF plain(3)] if_not_P [OF plain(4)]
      by (auto split: if_splits)
    have "\<exists>layer'. trim_rotating api n l = Some layer'" if r: "isa_rotating (leaf_class l)"
    proof -
      have "is_trimmable api (Leaf l) \<noteq> None" using assms(1) r unfolding can_trim_laws_def by blast
      moreover have "\<exists>l'. trim_method api l n = Some (Some n, l')"
        using assms(1,2) r c unfolding can_trim_laws_def by (meson less_imp_le)
      ultimately show ?thesis using c(1) by (auto simp: trim_rotating_def trim_method_exact_def)
    qed
    then show ?thesis using plain Leaf by (simp add: trim_leaf_offset_def rewindable_def)
  qed
qed (use assms(2,3) in \<open>auto simp: rewindable_def\<close>)

lemma feasible_cache_trims:
  assumes "can_trim_laws api" and "0 < n" and "rewind_feasible api cache n" and "\<forall>layer\<in>set cache. regular layer"
  shows "(\<exists>cache'. trim_cache_offset api cache n = Some cache') \<and> (\<forall>layer\<in>set cache. rewindable api layer)"
proof -
  have l: "(\<exists>layer'. trim_layer_offset api n layer = Some layer') \<and> rewindable api layer" if m: "layer \<in> set cache" for layer
  proof -
    have "layer_rewind_feasible api False n layer" using assms(3) m by (simp add: rewind_feasible_def list_all_iff)
    then show ?thesis using feasible_layer_trims [OF assms(1,2)] assms(4) m by blast
  qed
  have "\<exists>cache'. map_option_list (trim_layer_offset api n) cache = Some cache'" by (rule map_option_list_total) (use l in blast)
  then show ?thesis using l by (simp add: trim_cache_offset_def)
qed

section \<open>Snapping to a checkpoint\<close>

lemma put_restored_nth:
  "length trimmed = length cache \<Longrightarrow> put_restored api p cache trimmed = Some cache' \<Longrightarrow>
   length cache' = length cache \<and> (\<forall>i < length cache. if is_recurrent_layer (cache ! i)
     then restore_recurrent_layer (clear_rows api) (cache ! i) p = Some (cache' ! i) else cache' ! i = trimmed ! i)"
proof (induction api p cache trimmed arbitrary: cache' rule: put_restored.induct)
  case (1 api p layer cache t trimmed)
  then show ?case by (auto simp: nth_Cons split: if_splits option.splits nat.splits)
qed auto

lemma put_restored_total:
  "length trimmed = length cache \<Longrightarrow> \<forall>layer\<in>set cache. is_recurrent_layer layer \<longrightarrow> has_position p layer \<Longrightarrow>
   \<exists>cache'. put_restored api p cache trimmed = Some cache'"
proof (induction api p cache trimmed rule: put_restored.induct)
  case (1 api p layer cache t trimmed)
  have l: "length trimmed = length cache" and h: "\<forall>layer\<in>set cache. is_recurrent_layer layer \<longrightarrow> has_position p layer"
    using "1.prems" by simp_all
  show ?case
  proof (cases "is_recurrent_layer layer")
    case False
    then show ?thesis using "1.IH"(1) [OF _ l h] by auto
  next
    case True
    then obtain l' where r: "restore_recurrent_layer (clear_rows api) layer p = Some l'"
      using restore_some [of p layer "clear_rows api"] "1.prems"(2) by auto
    then show ?thesis using "1.IH"(2) [OF _ r l h] True by auto
  qed
qed auto

lemma trim_cache_length: "trim_cache_offset api cache n = Some cache' \<Longrightarrow> length cache' = length cache"
  by (auto simp: trim_cache_offset_def map_option_list_some dest: list_all2_lengthD)

lemma kv_only_nth: "i < length cache \<Longrightarrow> kv_only cache ! i = (if is_recurrent_layer (cache ! i) then Absent else cache ! i)"
  by (simp add: kv_only_def)

lemma snap_some_iff:
  "snap_hybrid_trim api cache entry_len target_len = Some (cache', p) \<longleftrightarrow>
     0 < target_len \<and> 0 < entry_len \<and> \<not> snap_refused api cache \<and> p = achievable_position cache (min target_len entry_len) \<and> 0 < p \<and>
     (\<exists>trimmed. (if 0 < entry_len - p then trim_cache_offset api (kv_only cache) (entry_len - p) else Some (kv_only cache)) = Some trimmed \<and>
        put_restored api p cache trimmed = Some cache')"
  by (cases "if 0 < entry_len - achievable_position cache (min target_len entry_len)
      then trim_cache_offset api (kv_only cache) (entry_len - achievable_position cache (min target_len entry_len)) else Some (kv_only cache)")
    (auto simp: snap_hybrid_trim_def Let_def)

lemma achievable_le: "0 < target \<Longrightarrow> achievable_position cache target \<le> target"
proof (cases "list_ex is_recurrent_layer cache")
  case True
  then show "0 < target \<Longrightarrow> ?thesis" using achievable_spec [of cache target] by (cases "0 < achievable_position cache target") auto
qed (simp add: achievable_dense)

lemma snap_at:
  assumes "trim_laws api hold" and "restore_law api hold" and "holds_all hold cache ts" and "entry_len = int (length ts)"
    and "\<forall>layer\<in>set cache. is_recurrent_layer layer \<or> rewindable api layer"
    and "snap_hybrid_trim api cache entry_len target_len = Some (cache', p)"
  shows "holds_all hold cache' (take (nat p) ts) \<and> 0 < p \<and> p \<le> target_len \<and> p \<le> entry_len"
proof -
  obtain trimmed where p: "0 < p" "p = achievable_position cache (min target_len entry_len)" "0 < target_len" "0 < entry_len"
      "\<not> snap_refused api cache"
    and t: "(if 0 < entry_len - p then trim_cache_offset api (kv_only cache) (entry_len - p) else Some (kv_only cache)) = Some trimmed"
    and r: "put_restored api p cache trimmed = Some cache'"
    using assms(6) unfolding snap_some_iff by blast
  have le: "p \<le> target_len" "p \<le> entry_len" using achievable_le [of "min target_len entry_len" cache] p by simp_all
  have kv: "holds_all hold (kv_only cache) ts"
    using assms(1,3) unfolding holds_all_def kv_only_def trim_laws_def by auto
  have rw: "\<forall>layer\<in>set (kv_only cache). rewindable api layer"
    using assms(5) by (auto simp: kv_only_def rewindable_def)
  have nf: "\<forall>layer\<in>set (kv_only cache). layer = Absent \<or> \<not> layer_forbids_trim api layer"
    using p(5) by (auto simp: kv_only_def snap_refused_def list_ex_iff)
  have "holds_all hold trimmed (take (nat p) ts) \<and> length trimmed = length cache"
  proof (cases "0 < entry_len - p")
    case True
    then have tr: "trim_cache_offset api (kv_only cache) (entry_len - p) = Some trimmed" using t by simp
    have b: "0 \<le> entry_len - p" "entry_len - p \<le> int (length ts)" using True p assms(4) by simp_all
    have "length ts - nat (entry_len - p) = nat p" using b assms(4) p(1) by simp
    then show ?thesis using trim_cache_at [OF assms(1) b kv rw nf tr] trim_cache_length [OF tr] by (simp add: kv_only_def)
  next
    case False
    then have "nat p = length ts" "trimmed = kv_only cache" using le t assms(4) by simp_all
    then show ?thesis using kv by (simp add: kv_only_def)
  qed
  then have tr: "holds_all hold trimmed (take (nat p) ts)" "length trimmed = length cache" by simp_all
  note n = put_restored_nth [OF tr(2) r]
  have "hold (cache' ! i) (take (nat p) ts)" if i: "i < length cache" for i
  proof (cases "is_recurrent_layer (cache ! i)")
    case True
    then have "restore_recurrent_layer (clear_rows api) (cache ! i) p = Some (cache' ! i)" using n i by auto
    moreover have "hold (cache ! i) ts" using assms(3) i by (simp add: holds_all_def)
    ultimately show ?thesis using assms(2,4) True p(1) le(2) unfolding restore_law_def by blast
  next
    case False
    then have "cache' ! i = trimmed ! i" using n i by auto
    then show ?thesis using tr i by (simp add: holds_all_def)
  qed
  then have "holds_all hold cache' (take (nat p) ts)" using n by (metis holds_all_def in_set_conv_nth)
  then show ?thesis using p(1) le by blast
qed

text \<open>What the metadata promise is what the snap delivers.\<close>

lemma snap_position_cases:
  "snap_position api cache entry_len target_len \<noteq> 0 \<Longrightarrow>
     0 < target_len \<and> 0 < entry_len \<and> \<not> snap_refused api cache \<and>
     snap_position api cache entry_len target_len = achievable_position cache (min target_len entry_len) \<and>
     0 < achievable_position cache (min target_len entry_len) \<and>
     (0 < entry_len - achievable_position cache (min target_len entry_len) \<longrightarrow>
        rewind_feasible api (kv_only cache) (entry_len - achievable_position cache (min target_len entry_len)))"
  by (auto simp: snap_position_def Let_def split: if_splits)

lemma snap_delivers:
  assumes "can_trim_laws api" and "\<forall>layer\<in>set cache. regular layer" and "snap_position api cache entry_len target_len \<noteq> 0"
  shows "\<exists>cache'. snap_hybrid_trim api cache entry_len target_len = Some (cache', snap_position api cache entry_len target_len)"
proof -
  let ?p = "achievable_position cache (min target_len entry_len)"
  note c = snap_position_cases [OF assms(3)]
  have g: "\<forall>layer\<in>set (kv_only cache). regular layer" using assms(2) by (auto simp: kv_only_def)
  have "\<exists>trimmed. (if 0 < entry_len - ?p then trim_cache_offset api (kv_only cache) (entry_len - ?p) else Some (kv_only cache)) = Some trimmed \<and>
      length trimmed = length cache"
  proof (cases "0 < entry_len - ?p")
    case True
    then obtain cache' where "trim_cache_offset api (kv_only cache) (entry_len - ?p) = Some cache'"
      using feasible_cache_trims [OF assms(1) True _ g] c by blast
    then show ?thesis using True trim_cache_length by (fastforce simp: kv_only_def)
  qed (simp add: kv_only_def)
  then obtain trimmed where t: "(if 0 < entry_len - ?p then trim_cache_offset api (kv_only cache) (entry_len - ?p) else Some (kv_only cache)) = Some trimmed"
      "length trimmed = length cache" by blast
  have "\<forall>layer\<in>set cache. is_recurrent_layer layer \<longrightarrow> has_position ?p layer"
    using achievable_spec [of cache "min target_len entry_len"] c by (auto simp: list_ex_iff)
  then obtain cache' where "put_restored api ?p cache trimmed = Some cache'" using put_restored_total [OF t(2)] by blast
  then show ?thesis unfolding snap_some_iff using c t(1) by auto
qed

lemma snap_position_upper:
  "snap_hybrid_trim api cache entry_len target_len = Some (cache', p) \<Longrightarrow> snap_position api cache entry_len target_len = p \<or>
     snap_position api cache entry_len target_len = 0"
  unfolding snap_some_iff by (auto simp: snap_position_def Let_def)

end
