(* ===== verification/MemFetch.thy ===== *)
theory MemFetch
  imports MemEvict MemLookup MemRewind
begin

text \<open>
  What \<open>fetch\<close> and \<open>probe\<close> do: the candidates are the longest stored strict prefix and the longest stored extension; a
  lookup ends in a miss or in a hit on a stored entry (\<open>outcome\<close>), never in a missing key.
\<close>

section \<open>What a lookup does to the state\<close>

text \<open>The candidates are the longest stored strict prefix and the longest stored strict extension, with the radix index or without.\<close>

definition looked_up :: "(arr \<Rightarrow> int) \<Rightarrow> 'a mem_cache \<Rightarrow> 'a mem_cache \<Rightarrow> bool" where
  "looked_up nb c c1 \<longleftrightarrow> core_ok nb c1 \<and> (\<exists>r. c1 = c\<lparr>mem_radix := r\<rparr>)"

definition proper_prefix :: "int list \<Rightarrow> int list \<Rightarrow> bool" where
  "proper_prefix t k \<longleftrightarrow> prefix k t \<and> k \<noteq> t"

lemma prefix_butlast:
  assumes "t \<noteq> []"
  shows "prefix k (butlast t) \<longleftrightarrow> prefix k t \<and> k \<noteq> t"
proof -
  obtain ys y where t: "t = ys @ [y]" using assms by (metis append_butlast_last_id)
  have "\<not> prefix (ys @ [y]) ys" using prefix_length_le [of "ys @ [y]" ys] by auto
  then show ?thesis unfolding t prefix_snoc butlast_snoc by blast
qed

lemma radix_core:
  assumes "core_ok nb c" and "mem_radix c = Some idx" and "longest_prefix q idx = (res, idx')"
  shows "core_ok nb (c\<lparr>mem_radix := Some idx'\<rparr>)"
proof -
  note st = longest_prefix_state [OF assms(3)]
  have r: "radix_exact idx" "\<forall>k. radix_contains idx k \<longleftrightarrow> k \<in> set (entry_keys c)"
    using assms(1,2) by (simp_all add: core_ok_def radix_ok_def)
  have "radix_exact idx'" using r(1) st by (simp add: radix_exact_def radix_inv_def)
  moreover have "radix_contains idx' = radix_contains idx" using st by (simp add: radix_contains_def fun_eq_iff)
  ultimately have "radix_ok (c\<lparr>mem_radix := Some idx'\<rparr>)" using r(2) by (simp add: radix_ok_def entry_keys_def)
  then show ?thesis using assms(1) by (simp add: core_ok_def entries_ok_def index_ok_def ledger_ok_def entry_keys_def)
qed

lemma candidates_spec:
  assumes c: "core_ok nb c" and t: "t \<noteq> []" and u: "u \<or> entry_at t c = None" and m: "match_candidates t u c = ((m, s), c1)"
  shows "looked_up nb c c1 \<and> longest (proper_prefix t) (entry_keys c) m \<and>
    longest (\<lambda>k. prefix t k \<and> k \<noteq> t) (entry_keys c) s"
proof -
  have ix: "sorted_wrt (<) (sorted_keys c)" "set (sorted_keys c) = set (entry_keys c)" and eo: "entries_ok nb c"
    and rx: "radix_ok c" using c by (simp_all add: core_ok_def index_ok_def)
  have ne: "\<forall>k\<in>set (entry_keys c). k \<noteq> []" using eo by (auto simp: entries_ok_def entry_keys_def entry_ok_def)
  obtain f where f: "radix_candidate t u c = (f, c1)" using m by (auto simp: match_candidates_def Let_def split: prod.splits)
  have ms: "m = (if f = None then scan_prefix t (rev (take (bisect_left (sorted_keys c) t) (sorted_keys c))) else f)"
    "s = scan_super u t None (drop (bisect_left (sorted_keys c) t) (sorted_keys c))"
    using m f by (auto simp: match_candidates_def Let_def)
  have nt: "\<not> u \<Longrightarrow> t \<notin> set (entry_keys c)" using u entry_at_keys [of t c] by simp
  have "longest (proper_prefix t) (entry_keys c) (scan_prefix t (rev (take (bisect_left (sorted_keys c) t) (sorted_keys c))))"
    using scan_prefix_longest [OF ix(1), of t] ne ix(2) longest_cong [OF ix(2)] unfolding proper_prefix_def by simp
  moreover have "looked_up nb c c1 \<and> (f = None \<or> longest (proper_prefix t) (entry_keys c) f)"
  proof (cases "mem_radix c")
    case None
    then have "f = None" "c1 = c\<lparr>mem_radix := None\<rparr>" "c1 = c" using f by (simp_all add: radix_candidate_def)
    then show ?thesis using c unfolding looked_up_def by metis
  next
    case (Some idx)
    let ?q = "if u then butlast t else t"
    obtain x mk idx' where l: "longest_prefix ?q idx = ((x, mk), idx')" by (cases "longest_prefix ?q idx") auto
    have c1: "c1 = c\<lparr>mem_radix := Some idx'\<rparr>" and fk: "\<And>k. f = Some k \<Longrightarrow> mk = Some k"
      using f Some l by (auto simp: radix_candidate_def split: option.splits if_splits)
    have lk: "looked_up nb c c1" unfolding looked_up_def using radix_core [OF c Some l] c1 by blast
    have inv: "radix_inv idx" and mem: "\<And>k. radix_contains idx k \<longleftrightarrow> k \<in> set (entry_keys c)"
      using rx Some by (auto simp: radix_ok_def radix_exact_def)
    have q: "prefix k ?q \<longleftrightarrow> proper_prefix t k" if "k \<in> set (entry_keys c)" for k
      using that prefix_butlast [OF t, of k] nt by (auto simp: proper_prefix_def)
    have "longest (proper_prefix t) (entry_keys c) f" if k: "f = Some k" for k
    proof -
      have "best_key idx ?q = Some k" using l fk [OF k] by (simp add: best_key_def)
      then show ?thesis unfolding best_key_iff [OF inv] using k q mem by (auto simp: longest_def)
    qed
    then show ?thesis using lk by (cases f) auto
  qed
  moreover have "longest (\<lambda>k. prefix t k \<and> k \<noteq> t) (entry_keys c) s"
  proof -
    have "longest (\<lambda>k. prefix t k \<and> \<not> (u \<and> k = t)) (entry_keys c) s"
      using scan_super_best [OF ix(1), of t u] longest_cong [OF ix(2)] ms(2) by simp
    then show ?thesis using nt by (cases u) (auto simp: longest_def split: option.splits)
  qed
  ultimately show ?thesis using ms(1) by auto
qed

text \<open>A hit takes the first \<open>p\<close> tokens of the query from an entry that begins with them: as stored, rewound, or snapped.\<close>

definition reuses :: "'a layer_api \<Rightarrow> 'a mem_entry \<Rightarrow> int \<Rightarrow> int list \<Rightarrow> 'a layer list \<Rightarrow> bool" where
  "reuses api e p t cs \<longleftrightarrow> 0 < p \<and> p \<le> int (length t) \<and> p \<le> entry_length e \<and> take (nat p) t = take (nat p) (e_tokens e) \<and>
     (cs = e_cache e \<and> p = entry_length e \<or>
      \<not> list_ex (layer_forbids_trim api) (e_cache e) \<and> trim_cache_offset api (e_cache e) (entry_length e - p) = Some cs \<or>
      (\<exists>target. snap_hybrid_trim api (e_cache e) (entry_length e) target = Some (cs, p)))"

definition covers :: "int list \<Rightarrow> 'a mem_cache \<Rightarrow> int \<Rightarrow> bool" where
  "covers t c p \<longleftrightarrow> (\<forall>k\<in>set (entry_keys c). proper_prefix t k \<longrightarrow> int (length k) \<le> p)"

definition outcome :: "'a layer_api \<Rightarrow> 'a codec \<Rightarrow> int list \<Rightarrow> 'a mem_cache \<Rightarrow> (py_error + 'a fetched) \<times> 'a mem_cache \<Rightarrow> bool" where
  "outcome api cd t c r \<longleftrightarrow>
     fst r = Inr (None, t) \<and> snd r = record_miss c \<and> covers t c 0 \<or>
     (\<exists>k e cs p mt. entry_at k c = Some e \<and> reuses api e p t cs \<and> covers t c p \<and>
        fst r = Inr (Some (decompress_cache cd c cs), drop (nat p) t) \<and> snd r = record_hit k p mt c)"

lemma hitI:
  assumes "core_ok nb c" and "entry_at k c = Some e" and "reuses api e p t cs" and "covers t c p"
  shows "outcome api cd t c (Inr (Some (decompress_cache cd c cs), drop (nat p) t), record_hit (e_tokens e) p mt c)"
proof -
  have "e_tokens e = k" using assms(1,2) entry_at_iff [of nb c k e] by (auto simp: core_ok_def entries_ok_def)
  then show ?thesis unfolding outcome_def using assms(2-4) by fastforce
qed

lemma longest_covers:
  assumes "longest (proper_prefix t) (entry_keys c) m"
  shows "covers t c p \<longleftrightarrow> m = None \<or> match_length m \<le> p"
  using assms by (cases m) (auto simp: longest_def covers_def match_length_def intro: order_trans dest: of_nat_mono)

lemma py_drop_nat: "0 \<le> p \<Longrightarrow> py_drop p t = drop (nat p) t"
  by (simp add: py_drop_def)

lemma stored:
  assumes "core_ok nb c" and "k \<in> set (entry_keys c)"
  obtains e where "entry_at k c = Some e" "e_tokens e = k" "k \<noteq> []"
proof -
  obtain e where e: "entry_at k c = Some e" using assms(2) entry_at_keys [of k c] by auto
  then have "e_tokens e = k" "entry_ok nb e" using assms(1) entry_at_iff [of nb c k e] by (auto simp: core_ok_def entries_ok_def)
  then show ?thesis using that e by (auto simp: entry_ok_def)
qed

lemma prefix_stage_outcome:
  assumes "core_ok nb c" and "longest (proper_prefix t) (entry_keys c) m"
  shows "outcome api cd t c (prefix_stage cd t m c)"
proof (cases m)
  case None
  then show ?thesis using longest_covers [OF assms(2)] by (simp add: prefix_stage_def outcome_def)
next
  case (Some k)
  then have k: "k \<in> set (entry_keys c)" "proper_prefix t k" using assms(2) by (auto simp: longest_def)
  obtain e where e: "entry_at k c = Some e" "e_tokens e = k" "k \<noteq> []" by (rule stored [OF assms(1) k(1)])
  have "take (length k) t = k" "length k \<le> length t"
    using k(2) by (auto simp: proper_prefix_def prefix_def)
  then have "reuses api e (int (length k)) t (e_cache e)" using e by (simp add: reuses_def entry_length_def)
  moreover have "covers t c (int (length k))" using longest_covers [OF assms(2)] Some by (simp add: match_length_def)
  ultimately show ?thesis using hitI [OF assms(1) e(1), of api "int (length k)" t "e_cache e" cd "''prefix''"] Some e
    by (simp add: prefix_stage_def with_entry_def)
qed

lemma snap_bounds:
  "snap_hybrid_trim api cache entry_len target_len = Some (cs, p) \<Longrightarrow> 0 < p \<and> p \<le> entry_len \<and> p \<le> target_len"
proof -
  assume "snap_hybrid_trim api cache entry_len target_len = Some (cs, p)"
  then have "0 < target_len" "0 < entry_len" "p = achievable_position cache (min target_len entry_len)" "0 < p" by (auto simp: snap_some_iff)
  then show ?thesis using achievable_le [of "min target_len entry_len" cache] by simp
qed

lemma snap_reuses:
  assumes "snap_hybrid_trim api (e_cache e) (entry_length e) (int n) = Some (cs, p)" and "n \<le> length t" and "take n t = take n (e_tokens e)"
  shows "reuses api e p t cs"
proof -
  note b = snap_bounds [OF assms(1)]
  have "take (nat p) (take n t) = take (nat p) (take n (e_tokens e))" by (simp only: assms(3))
  moreover have "min (nat p) n = nat p" using b by linarith
  ultimately have "take (nat p) t = take (nat p) (e_tokens e)" by simp
  then show ?thesis using b assms(1,2) unfolding reuses_def by fastforce
qed

lemma trim_reuses:
  assumes "\<not> list_ex (layer_forbids_trim api) (e_cache e)" and "trim_cache_offset api (e_cache e) (entry_length e - int n) = Some cs"
    and "0 < n" and "n \<le> length t" and "n \<le> length (e_tokens e)" and "take n t = take n (e_tokens e)"
  shows "reuses api e (int n) t cs"
  using assms by (simp add: reuses_def entry_length_def)

lemma lcp_stage_outcome:
  assumes c: "core_ok nb c" and m: "longest (proper_prefix t) (entry_keys c) m"
  shows "outcome api cd t c (lcp_stage api cd t m c)"
proof (cases "lcp_candidate t c")
  case (Pair r shared)
  note fallback = prefix_stage_outcome [OF c m, of api cd]
  show ?thesis
  proof (cases r)
    case None
    then show ?thesis using Pair fallback by (simp add: lcp_stage_def)
  next
    case (Some k)
    have "set (sorted_keys c) = set (entry_keys c)" using c by (simp add: core_ok_def index_ok_def)
    then have k: "k \<in> set (entry_keys c)" "shared = common_prefix k t" "0 < shared"
      using lcp_candidate_sound [of t c r shared] Pair Some by simp_all
    obtain e where e: "entry_at k c = Some e" "e_tokens e = k" "k \<noteq> []" by (rule stored [OF c k(1)])
    have sh: "shared \<le> length t" "shared \<le> length (e_tokens e)" "take shared t = take shared (e_tokens e)"
      using common_prefix_le [of k t] take_common_prefix [of shared k t] k(2) e(2) by simp_all
    let ?pos = "if match_length m < int shared then resume_position api e (int shared) else 0"
    let ?forbids = "list_ex (layer_forbids_trim api) (e_cache e)"
    have stage: "lcp_stage api cd t m c = (if m \<noteq> None \<and> ?pos \<le> match_length m then prefix_stage cd t m c
        else if ?forbids
        then (case snap_hybrid_trim api (e_cache e) (entry_length e) (int shared) of
            Some (cache, position) \<Rightarrow> (Inr (Some (decompress_cache cd c cache), py_drop position t), record_hit (e_tokens e) position ''lcp'' c)
          | None \<Rightarrow> prefix_stage cd t m c)
        else (case trim_cache_offset api (e_cache e) (entry_length e - int shared) of
            Some cache \<Rightarrow> (Inr (Some (decompress_cache cd c cache), drop shared t), record_hit (e_tokens e) (int shared) ''lcp'' c)
          | None \<Rightarrow> prefix_stage cd t m c))"
      by (simp add: lcp_stage_def Pair Some with_entry_def e(1))
    have m0: "0 \<le> match_length m" by (cases m) (simp_all add: match_length_def)
    show ?thesis
    proof (cases "m \<noteq> None \<and> ?pos \<le> match_length m")
      case True
      then show ?thesis using fallback unfolding stage if_P [OF True] by simp
    next
      case far: False
      show ?thesis
      proof (cases ?forbids)
        case f: True
        show ?thesis
        proof (cases "snap_hybrid_trim api (e_cache e) (entry_length e) (int shared)")
          case None
          then show ?thesis using fallback unfolding stage if_not_P [OF far] if_P [OF f] by simp
        next
          case (Some r)
          obtain cs p where r: "r = (cs, p)" by (cases r)
          note snap = Some [unfolded r]
          have "covers t c p"
          proof (cases m)
            case (Some k')
            then have "match_length m < ?pos" using far by simp
            then have "match_length m < snap_position api (e_cache e) (entry_length e) (int shared)"
              using f m0 by (simp add: resume_position_def split: if_splits)
            then show ?thesis using snap_position_upper [OF snap] m0 longest_covers [OF m] by auto
          qed (use longest_covers [OF m] in simp)
          from hitI [OF c e(1) snap_reuses [OF snap sh(1,3)] this] show ?thesis
            unfolding stage if_not_P [OF far] if_P [OF f] using snap snap_bounds [OF snap] by (simp add: py_drop_nat)
        qed
      next
        case f: False
        show ?thesis
        proof (cases "trim_cache_offset api (e_cache e) (entry_length e - int shared)")
          case None
          then show ?thesis using fallback unfolding stage if_not_P [OF far] if_not_P [OF f] by simp
        next
          case trim: (Some cs)
          have "covers t c (int shared)"
          proof (cases m)
            case (Some k')
            then have "match_length m < ?pos" using far by simp
            then show ?thesis using m0 longest_covers [OF m] by (simp split: if_splits)
          qed (use longest_covers [OF m] in simp)
          from hitI [OF c e(1) trim_reuses [OF f trim k(3) sh] this] show ?thesis
            unfolding stage if_not_P [OF far] if_not_P [OF f] using trim by simp
        qed
      qed
    qed
  qed
qed

lemma super_stage_outcome:
  assumes c: "core_ok nb c" and m: "longest (proper_prefix t) (entry_keys c) m" and t: "t \<noteq> []"
    and k: "k \<in> set (entry_keys c)" "prefix t k"
  shows "outcome api cd t c (super_stage api cd t m k c)"
proof -
  note fallback = lcp_stage_outcome [OF c m, of api cd]
  obtain e where e: "entry_at k c = Some e" "e_tokens e = k" "k \<noteq> []" by (rule stored [OF c k(1)])
  have t': "take (length t) (e_tokens e) = t" "length t \<le> length (e_tokens e)"
    using k(2) e(2) by (auto simp: prefix_def)
  have tt: "take (length t) t = take (length t) (e_tokens e)" using t'(1) by simp
  have cv: "covers t c (int (length t))" by (auto simp: covers_def proper_prefix_def dest: prefix_length_le)
  let ?excess = "entry_length e - int (length t)" and ?forbids = "list_ex (layer_forbids_trim api) (e_cache e)"
  have stage: "super_stage api cd t m k c = (if 0 < ?excess \<and> ?forbids
        then (case snap_hybrid_trim api (e_cache e) (entry_length e) (int (length t)) of
            Some (cache, position) \<Rightarrow>
              (if match_length m < position
               then (Inr (Some (decompress_cache cd c cache), py_drop position t), record_hit (e_tokens e) position ''supersequence'' c)
               else lcp_stage api cd t m c)
          | None \<Rightarrow> lcp_stage api cd t m c)
        else if 0 < ?excess
        then (case trim_cache_offset api (e_cache e) ?excess of
            None \<Rightarrow> lcp_stage api cd t m c
          | Some cache \<Rightarrow> (Inr (Some (decompress_cache cd c cache), []), record_hit (e_tokens e) (int (length t)) ''supersequence'' c))
        else (Inr (Some (decompress_cache cd c (e_cache e)), []), record_hit (e_tokens e) (int (length t)) ''supersequence'' c))"
    by (simp add: super_stage_def with_entry_def e(1) Let_def)
  consider (hybrid) "0 < ?excess \<and> ?forbids" | (dense) "\<not> (0 < ?excess \<and> ?forbids)" "0 < ?excess" | (whole) "\<not> 0 < ?excess" by blast
  then show ?thesis
  proof cases
    case hybrid
    show ?thesis
    proof (cases "snap_hybrid_trim api (e_cache e) (entry_length e) (int (length t))")
      case None
      then show ?thesis using fallback unfolding stage if_P [OF hybrid] by simp
    next
      case (Some r)
      obtain cs p where r: "r = (cs, p)" by (cases r)
      note snap = Some [unfolded r]
      show ?thesis
      proof (cases "match_length m < p")
        case True
        then have "covers t c p" using longest_covers [OF m] by simp
        from hitI [OF c e(1) snap_reuses [OF snap le_refl tt] this] show ?thesis
          unfolding stage if_P [OF hybrid] using snap True snap_bounds [OF snap] by (simp add: py_drop_nat)
      next
        case False
        then show ?thesis using fallback snap unfolding stage if_P [OF hybrid] by simp
      qed
    qed
  next
    case dense
    then have f: "\<not> ?forbids" by blast
    show ?thesis
    proof (cases "trim_cache_offset api (e_cache e) ?excess")
      case None
      then show ?thesis using fallback unfolding stage if_not_P [OF dense(1)] if_P [OF dense(2)] by simp
    next
      case trim: (Some cs)
      have "0 < length t" using t by simp
      from hitI [OF c e(1) trim_reuses [OF f trim this le_refl t'(2) tt] cv] show ?thesis
        unfolding stage if_not_P [OF dense(1)] if_P [OF dense(2)] using trim by simp
    qed
  next
    case whole
    then have l: "entry_length e = int (length t)" using t'(2) by (simp add: entry_length_def)
    have "reuses api e (int (length t)) t (e_cache e)" using l tt t by (simp add: reuses_def)
    from hitI [OF c e(1) this cv] show ?thesis unfolding stage using whole by simp
  qed
qed

text \<open>Every lookup ends in a miss or in a hit on a stored entry; no key of the indexes is missing from the entries.\<close>

lemma looked_up_refl: "core_ok nb c \<Longrightarrow> looked_up nb c c"
  unfolding looked_up_def by (auto intro: exI [of _ "mem_radix c"])

lemma candidates_outcome:
  assumes c: "core_ok nb c" and t: "t \<noteq> []" and u: "u \<or> entry_at t c = None" and m: "match_candidates t u c = ((m, s), c1)"
  shows "looked_up nb c c1 \<and> outcome api cd t c1 (case s of None \<Rightarrow> lcp_stage api cd t m c1 | Some k \<Rightarrow> super_stage api cd t m k c1)"
proof -
  note sp = candidates_spec [OF c t u m]
  then have c1: "core_ok nb c1" and k1: "entry_keys c1 = entry_keys c" by (auto simp: looked_up_def entry_keys_def)
  then have lm: "longest (proper_prefix t) (entry_keys c1) m" using sp by simp
  show ?thesis
  proof (cases s)
    case None
    then show ?thesis using lcp_stage_outcome [OF c1 lm] sp by simp
  next
    case (Some k)
    then have "k \<in> set (entry_keys c1)" "prefix t k" using sp k1 by (auto simp: longest_def)
    then show ?thesis using super_stage_outcome [OF c1 lm t] sp Some by simp
  qed
qed

lemma fetch_outcome:
  assumes c: "core_ok nb c"
  shows "\<exists>c1. looked_up nb c c1 \<and> outcome api cd t c1 (mem_fetch api cd t c)"
proof (cases "t = []")
  case True
  have "outcome api cd t c (mem_fetch api cd t c)" unfolding outcome_def using True by (auto simp: mem_fetch_def covers_def proper_prefix_def)
  then show ?thesis using looked_up_refl [OF c] by blast
next
  case t: False
  show ?thesis
  proof (cases "\<exists>e. entry_at t c = Some e \<and> \<not> non_trimmable e")
    case True
    then obtain e where e: "entry_at t c = Some e" "\<not> non_trimmable e" by blast
    then have et: "e_tokens e = t" using stored [OF c, of t] entry_at_keys [of t c] by (metis option.inject option.distinct(1))
    have "reuses api e (int (length t)) t (e_cache e)" using et t by (simp add: reuses_def entry_length_def)
    moreover have "covers t c (int (length t))" by (auto simp: covers_def proper_prefix_def dest: prefix_length_le)
    ultimately have "outcome api cd t c (mem_fetch api cd t c)"
      using hitI [OF c e(1), of api "int (length t)" t "e_cache e" cd "''exact''"] t e et by (simp add: mem_fetch_def fetch_locked_def)
    then show ?thesis using looked_up_refl [OF c] by blast
  next
    case False
    define u where "u = (entry_at t c \<noteq> None)"
    obtain m s c1 where m: "match_candidates t u c = ((m, s), c1)" by (metis prod.exhaust)
    have "u \<or> entry_at t c = None" unfolding u_def by blast
    note o = candidates_outcome [OF c t this m, of api cd]
    have "mem_fetch api cd t c = (case s of None \<Rightarrow> lcp_stage api cd t m c1 | Some k \<Rightarrow> super_stage api cd t m k c1)"
      using t False m by (cases "entry_at t c") (simp_all add: mem_fetch_def fetch_locked_def u_def)
    then show ?thesis using o by auto
  qed
qed

lemma outcome_ok:
  assumes "mem_ok nb c" and "looked_up nb c c1" and "outcome api cd t c1 r"
  shows "mem_ok nb (snd r) \<and> set (entries (snd r)) = set (entries c)"
proof -
  obtain x where c1: "core_ok nb c1" "c1 = c\<lparr>mem_radix := x\<rparr>" using assms(2) by (auto simp: looked_up_def)
  have l: "limits_ok c1" "gauges_ok c1" using assms(1) c1(2) by (simp_all add: mem_ok_def limits_ok_def gauges_ok_def hybrid_entries_def)
  have d: "distinct (map fst (entries c1))" using c1(1) by (simp add: core_ok_def entries_ok_def entry_keys_def)
  consider "snd r = record_miss c1" | k p mt where "snd r = record_hit k p mt c1" using assms(3) by (auto simp: outcome_def)
  then show ?thesis
  proof cases
    case 1
    have "same_core c1 (snd r)" unfolding 1 by (simp add: same_core_def record_miss_def)
    moreover have "gauges_ok (snd r)" using l(2) unfolding 1 by (simp add: gauges_ok_def record_miss_def)
    moreover have "entries (snd r) = entries c" unfolding 1 by (simp add: record_miss_def c1(2))
    ultimately show ?thesis using same_core_ok [OF _ c1(1)] same_core_limits [of c1 "snd r"] l(1) by (simp add: mem_ok_def)
  next
    case 2
    have sc: "same_core (mem_use k c1) (snd r)" unfolding 2 by (simp add: same_core_def record_hit_def mem_use_def)
    moreover have "gauges_ok (snd r)" using l(2) move_facts(4) [OF d, of k] unfolding 2 by (simp add: gauges_ok_def record_hit_def)
    moreover have "set (entries (snd r)) = set (entries c)" using move_facts(1) [OF d, of k] c1(2) unfolding 2 by (simp add: record_hit_def)
    ultimately show ?thesis using same_core_ok [OF sc use_core [OF c1(1)]] same_core_limits [OF sc] use_limits [OF c1(1) l(1)]
      by (simp add: mem_ok_def)
  qed
qed

lemma fetch_ok: "mem_ok nb c \<Longrightarrow> mem_ok nb (snd (mem_fetch api cd t c)) \<and> set (entries (snd (mem_fetch api cd t c))) = set (entries c)"
proof -
  assume c: "mem_ok nb c"
  then have "core_ok nb c" by (simp add: mem_ok_def)
  from fetch_outcome [OF this] obtain c1 where "looked_up nb c c1" "outcome api cd t c1 (mem_fetch api cd t c)" by blast
  from outcome_ok [OF c this] show ?thesis .
qed

lemma probe_state:
  assumes c: "core_ok nb c"
  shows "looked_up nb c (snd (mem_probe api t c))"
proof (cases "t = [] \<or> (entry_at t c \<noteq> None \<and> \<not> unusable_exact t c)")
  case True
  then show ?thesis using looked_up_refl [OF c] by (auto simp: mem_probe_def probe_locked_def Let_def)
next
  case False
  obtain m s c1 where m: "match_candidates t (unusable_exact t c) c = ((m, s), c1)" by (metis prod.exhaust)
  have "unusable_exact t c \<or> entry_at t c = None" using False by auto
  then have "looked_up nb c c1" using candidates_spec [OF c _ _ m] False by blast
  moreover have "snd (mem_probe api t c) = c1"
    using False m unfolding mem_probe_def probe_locked_def by auto
  ultimately show ?thesis by simp
qed

lemma probe_ok: "mem_ok nb c \<Longrightarrow> mem_ok nb (snd (mem_probe api t c)) \<and> entries (snd (mem_probe api t c)) = entries c"
  using probe_state [of nb c api t] by (auto simp: looked_up_def mem_ok_def limits_ok_def gauges_ok_def hybrid_entries_def)

end
