(* ===== verification/MemStore.thy ===== *)
theory MemStore
  imports MemFetch
begin

text \<open>
  What \<open>store\<close> does: the strict prefixes of the new key go first, then the oldest entries and no more than needed, then
  the hybrid entries over their bound.
\<close>

section \<open>Store\<close>

text \<open>Over the limits: the entries and the new one together would cost too much, or be too many.\<close>

definition too_much :: "(arr \<Rightarrow> int) \<Rightarrow> 'a mem_cache \<Rightarrow> 'a mem_entry \<Rightarrow> (int list \<times> 'a mem_entry) list \<Rightarrow> bool" where
  "too_much nb c e es \<longleftrightarrow> max_memory c < ledger_total nb (e # map snd es) \<or> max_entries (mem_config c) \<le> int (length es)"

lemma over_limit_iff:
  assumes "core_ok nb c" and "entry_ok nb e"
  shows "over_limit e c \<longleftrightarrow> too_much nb c e (entries c)"
proof -
  have l: "ledger_ok nb c" using assms(1) by (simp add: core_ok_def)
  then have "current_memory c = ledger_total nb (map snd (entries c))" by (simp add: ledger_ok_def Let_def)
  then show ?thesis using entry_cost [OF l assms(2)] by (simp add: over_limit_def too_much_def)
qed

lemma entry_alone: "entry_ok nb e \<Longrightarrow> ledger_total nb [e] \<le> memory_bytes e"
proof -
  assume e: "entry_ok nb e"
  then have "sum_list (map snd (filter (\<lambda>(a, sz). True) (shared_arrays e))) = (\<Sum>a\<in>{a \<in> fst ` set (shared_arrays e). True}. nb a)"
    by (intro sum_sizes) (simp_all add: entry_ok_def)
  then have "sum_list (map snd (shared_arrays e)) = (\<Sum>a\<in>held e. nb a)" by (simp add: held_def split_def)
  then show ?thesis using e by (simp add: ledger_total_def own_bytes_def entry_ok_def)
qed

lemma make_room_spec:
  assumes "core_ok nb c" and "entry_ok nb e" and "\<And>a. 0 \<le> nb a" and "memory_bytes e \<le> max_memory c" and "1 \<le> max_entries (mem_config c)"
  shows "core_ok nb (make_room e c) \<and> shrinks c (make_room e c) \<and> \<not> over_limit e (make_room e c) \<and>
    (\<exists>n\<le>length (entries c). entries (make_room e c) = drop n (entries c) \<and> (\<forall>m<n. too_much nb c e (drop m (entries c))))"
  using assms(1,2,4,5)
proof (induction e c rule: make_room.induct)
  case (1 e c)
  note c = "1.prems"(1) and e = "1.prems"(2)
  have ol: "over_limit e c \<longleftrightarrow> too_much nb c e (entries c)" by (rule over_limit_iff [OF c e])
  show ?case
  proof (cases "over_limit e c \<and> entries c \<noteq> []")
    case False
    have "\<not> over_limit e c"
    proof
      assume o: "over_limit e c"
      then have "entries c = []" using False by blast
      then show False using o ol entry_alone [OF e] "1.prems"(3,4) by (simp add: too_much_def)
    qed
    moreover have "make_room e c = c" by (subst make_room.simps) (simp only: False if_False)
    ultimately show ?thesis using c shrinks_refl by fastforce
  next
    case True
    let ?c = "mem_evict_lru c"
    have mr: "make_room e c = make_room e ?c" by (subst make_room.simps) (use True in simp)
    have c': "core_ok nb ?c" and sh: "shrinks c ?c" by (rule evict_lru_core [OF c assms(3)])+
    have cf: "mem_config ?c = mem_config c" "max_memory ?c = max_memory c" using sh by (simp_all add: shrinks_def)
    have tm: "too_much nb ?c e = too_much nb c e" by (simp add: too_much_def fun_eq_iff cf)
    have es: "entries ?c = tl (entries c)" by (rule evict_lru_entries [OF c])
    have "core_ok nb (make_room e ?c) \<and> shrinks ?c (make_room e ?c) \<and> \<not> over_limit e (make_room e ?c) \<and>
      (\<exists>n\<le>length (entries ?c). entries (make_room e ?c) = drop n (entries ?c) \<and> (\<forall>m<n. too_much nb ?c e (drop m (entries ?c))))"
      by (rule "1.IH" [OF True c' e]) (use "1.prems"(3,4) cf in simp_all)
    then obtain n where n: "n \<le> length (tl (entries c))" "entries (make_room e ?c) = drop n (tl (entries c))"
        "\<forall>m<n. too_much nb c e (drop m (tl (entries c)))" and rest: "core_ok nb (make_room e ?c)" "shrinks ?c (make_room e ?c)"
        "\<not> over_limit e (make_room e ?c)"
      unfolding es tm by blast
    have "too_much nb c e (drop m (entries c))" if "m < Suc n" for m
      using that n(3) True ol by (cases m) (auto simp: drop_Suc)
    moreover have "Suc n \<le> length (entries c)" using n(1) True by (cases "entries c") auto
    ultimately show ?thesis unfolding mr using n(2) rest shrinks_trans [OF sh rest(2)] by (fastforce simp: drop_Suc)
  qed
qed

text \<open>The strict prefixes of the new key go first.\<close>

lemma evict_prefixes_spec:
  assumes c: "core_ok nb c" and nb: "\<And>a. 0 \<le> nb a"
  shows "core_ok nb (evict_prefixes t c) \<and> shrinks c (evict_prefixes t c) \<and>
    entries (evict_prefixes t c) = filter (\<lambda>p. \<not> proper_prefix t (fst p)) (entries c)"
proof -
  have ix: "sorted_wrt (<) (sorted_keys c)" "set (sorted_keys c) = set (entry_keys c)" and eo: "entries_ok nb c"
    using c by (simp_all add: core_ok_def index_ok_def)
  have ne: "\<forall>k\<in>set (sorted_keys c). k \<noteq> []" using eo ix(2) by (auto simp: entries_ok_def entry_keys_def entry_ok_def)
  define ks where "ks = scan_all_prefixes t (rev (take (bisect_left (sorted_keys c) t) (sorted_keys c)))"
  have ks: "ks = rev (filter (proper_prefix t) (sorted_keys c))"
    unfolding ks_def using below_keys [OF ix(1) ne, of t] by (simp add: proper_prefix_def [abs_def])
  have "distinct (sorted_keys c)" using ix(1) by (simp add: strict_sorted_iff)
  then have d: "distinct ks" "set ks \<subseteq> set (entry_keys c)" using ix(2) by (auto simp: ks)
  define c1 where "c1 = fold (\<lambda>k c. count_eviction (drop_entry k c)) ks c"
  have g: "same_core (drop_entry k c) (count_eviction (drop_entry k c))" for k and c :: "'a mem_cache" by (rule evict_same(2))
  have "core_ok nb c1 \<and> shrinks c c1 \<and> entries c1 = filter (\<lambda>p. fst p \<notin> set ks) (entries c)"
    unfolding c1_def by (rule drops [OF g nb c d])
  moreover have "filter (\<lambda>p. fst p \<notin> set ks) (entries c) = filter (\<lambda>p. \<not> proper_prefix t (fst p)) (entries c)"
    using ix(2) by (intro filter_cong) (auto simp: ks entry_keys_def)
  moreover have "evict_prefixes t c = c1 \<or> evict_prefixes t c = gauges c1"
    by (simp add: evict_prefixes_def Let_def c1_def ks_def)
  moreover have "core_ok nb (gauges c1) = core_ok nb c1" "shrinks c (gauges c1) = shrinks c c1" "entries (gauges c1) = entries c1"
    by (simp_all add: gauges_def core_ok_def entries_ok_def index_ok_def radix_ok_def ledger_ok_def entry_keys_def shrinks_def hybrid_entries_def)
  ultimately show ?thesis by auto
qed

text \<open>The bound on hybrid entries.\<close>

lemma hybrid_victims_eq:
  "hybrid_victims c = map fst (take (length (hybrid_entries c) - nat (hybrid_reuse_max_entries (mem_config c))) (hybrid_entries c))"
proof -
  have "nat (max 0 (int (length (hybrid_entries c)) - max (hybrid_reuse_max_entries (mem_config c)) 0)) =
      length (hybrid_entries c) - nat (hybrid_reuse_max_entries (mem_config c))" by linarith
  then show ?thesis by (simp add: hybrid_victims_def hybrid_entries_def take_map Let_def)
qed

lemma filter_keys:
  assumes "distinct (map fst (xs @ ys))"
  shows "filter (\<lambda>p. fst p \<notin> fst ` set xs) (xs @ ys) = ys"
  using assms by (auto simp: filter_empty_conv filter_id_conv)

lemma enforce_spec:
  assumes c: "core_ok nb c" and nb: "\<And>a. 0 \<le> nb a" and c': "enforce_hybrid_bound c = (vs, c')"
  shows "core_ok nb c' \<and> shrinks c c' \<and> entries c' = filter (\<lambda>p. fst p \<notin> set (hybrid_victims c)) (entries c) \<and>
    hybrid_entries c' = drop (length (hybrid_entries c) - nat (hybrid_reuse_max_entries (mem_config c))) (hybrid_entries c) \<and>
    (gauges_ok c \<longrightarrow> gauges_ok c')"
proof -
  let ?h = "\<lambda>(k, e). non_trimmable e \<and> \<not> protected e"
  let ?n = "length (hybrid_entries c) - nat (hybrid_reuse_max_entries (mem_config c))"
  have e: "vs = hybrid_victims c" "c' = fold evict_entry (hybrid_victims c) c" using c' by (auto simp: enforce_hybrid_bound_def Let_def)
  have dk: "distinct (map fst (entries c))" using c by (simp add: core_ok_def entries_ok_def entry_keys_def)
  then have dh: "distinct (map fst (hybrid_entries c))" by (simp add: hybrid_entries_def distinct_map_filter)
  have v: "distinct (hybrid_victims c)" unfolding hybrid_victims_eq take_map [symmetric] using dh by (rule distinct_take)
  have "set (hybrid_victims c) \<subseteq> set (map fst (hybrid_entries c))" unfolding hybrid_victims_eq take_map [symmetric] by (rule set_take_subset)
  then have s: "set (hybrid_victims c) \<subseteq> set (entry_keys c)" by (auto simp: hybrid_entries_def entry_keys_def)
  have main: "core_ok nb c' \<and> shrinks c c' \<and> entries c' = filter (\<lambda>p. fst p \<notin> set (hybrid_victims c)) (entries c)"
    unfolding e(2) by (rule drops [OF evict_same(1) nb c v s])
  then have "hybrid_entries c' = filter (\<lambda>p. fst p \<notin> set (hybrid_victims c)) (hybrid_entries c)"
    by (simp add: hybrid_entries_def conj_commute)
  also have "\<dots> = filter (\<lambda>p. fst p \<notin> fst ` set (take ?n (hybrid_entries c))) (take ?n (hybrid_entries c) @ drop ?n (hybrid_entries c))"
    by (simp add: hybrid_victims_eq)
  also have "\<dots> = drop ?n (hybrid_entries c)" by (rule filter_keys) (use dh in simp)
  moreover have "gauges_ok c \<Longrightarrow> gauges_ok (fold evict_entry ks c)" for ks and c :: "'a mem_cache"
  proof (induction ks arbitrary: c)
    case (Cons k ks)
    have "gauges_ok (evict_entry k c)" unfolding evict_entry_def
      by (rule gauges_ok) (use Cons.prems in \<open>simp add: count_eviction_def drop_entry_simps gauges_ok_def\<close>)
    then show ?case using Cons.IH by simp
  qed simp
  ultimately show ?thesis using main e(2) by simp
qed

text \<open>The insertion of a new entry into a cache with room for it.\<close>

lemma insert_entry_simps:
  "entries (insert_entry b e c) = entries c @ [(e_tokens e, if b then e\<lparr>message_boundary_sequence := boundary_sequence c + 1\<rparr> else e)]"
  "mem_config (insert_entry b e c) = mem_config c" "max_memory (insert_entry b e c) = max_memory c"
  "ms_max_memory_bytes (mem_stats (insert_entry b e c)) = ms_max_memory_bytes (mem_stats c)"
  "current_memory (insert_entry b e c) = current_memory c + ledger_cost e c"
  "ms_entry_count (mem_stats (insert_entry b e c)) = int (length (entries (insert_entry b e c)))"
  "ms_current_memory_bytes (mem_stats (insert_entry b e c)) = current_memory (insert_entry b e c)"
  by (simp_all add: insert_entry_def Let_def gauges_def ledger_add_def ledger_cost_def)

text \<open>A change of the boundary marks alone.\<close>

definition same_marks :: "(int list \<times> 'a mem_entry \<Rightarrow> int list \<times> 'a mem_entry) \<Rightarrow> bool" where
  "same_marks f \<longleftrightarrow> (\<forall>k e. \<exists>b s. f (k, e) = (k, e\<lparr>message_boundary := b, message_boundary_sequence := s\<rparr>))"

lemma same_marks:
  assumes "same_marks f"
  shows "fst (f p) = fst p" "e_tokens (snd (f p)) = e_tokens (snd p)" "own_bytes (snd (f p)) = own_bytes (snd p)"
    "held (snd (f p)) = held (snd p)" "entry_ok nb (snd (f p)) = entry_ok nb (snd p)" "e_cache (snd (f p)) = e_cache (snd p)"
    "non_trimmable (snd (f p)) = non_trimmable (snd p)" "protected (snd (f p)) = protected (snd p)"
proof -
  obtain k e where p: "p = (k, e)" by (cases p)
  obtain b s where f: "f (k, e) = (k, e\<lparr>message_boundary := b, message_boundary_sequence := s\<rparr>)"
    using assms unfolding same_marks_def by blast
  show "fst (f p) = fst p" "e_tokens (snd (f p)) = e_tokens (snd p)" "own_bytes (snd (f p)) = own_bytes (snd p)"
    "held (snd (f p)) = held (snd p)" "entry_ok nb (snd (f p)) = entry_ok nb (snd p)" "e_cache (snd (f p)) = e_cache (snd p)"
    "non_trimmable (snd (f p)) = non_trimmable (snd p)" "protected (snd (f p)) = protected (snd p)"
    unfolding p f by (simp_all add: own_bytes_def held_def entry_ok_def)
qed

lemma marks_core:
  assumes c: "core_ok nb c" and f: "same_marks f"
  shows "core_ok nb (c\<lparr>boundary_sequence := s, entries := map f (entries c)\<rparr>)"
proof -
  let ?c = "c\<lparr>boundary_sequence := s, entries := map f (entries c)\<rparr>"
  note m = same_marks [OF f]
  have keys: "entry_keys ?c = entry_keys c" by (simp add: entry_keys_def m(1))
  have h: "holders (map snd (map f es)) a = holders (map snd es) a" for es a by (induction es) (simp_all add: m)
  have s: "sum_list (map own_bytes (map snd (map f es))) = sum_list (map own_bytes (map snd es))" for es by (induction es) (simp_all add: m)
  have u: "(\<Union>e\<in>set (map snd (map f es)). held e) = (\<Union>e\<in>set (map snd es). held e)" for es by (simp add: m)
  have "entries_ok nb ?c" using c unfolding core_ok_def entries_ok_def keys split_def by (simp add: m)
  moreover have "index_ok ?c" "radix_ok ?c" using c keys by (simp_all add: core_ok_def index_ok_def radix_ok_def)
  moreover have "ledger_ok nb ?c" using c h [of "entries c"] s [of "entries c"] u [of "entries c"]
    unfolding core_ok_def ledger_ok_def ledger_total_def Let_def by simp
  ultimately show ?thesis by (simp add: core_ok_def)
qed

definition stored_caches :: "'a mem_cache \<Rightarrow> (int list \<times> 'a layer list) set" where
  "stored_caches c = (\<lambda>p. (fst p, e_cache (snd p))) ` set (entries c)"

lemma bump_ok:
  assumes "mem_ok nb c"
  shows "mem_ok nb (bump_existing k b c) \<and> stored_caches (bump_existing k b c) = stored_caches c"
proof -
  define f where "f = (\<lambda>(k', e). (k', if b \<and> k' = k then e\<lparr>message_boundary := True,
      message_boundary_sequence := boundary_sequence c + 1\<rparr> else e :: 'a mem_entry))"
  define c1 where "c1 = c\<lparr>boundary_sequence := boundary_sequence c + (if b then 1 else 0), entries := map f (entries c)\<rparr>"
  have bump: "bump_existing k b c = mem_use k c1"
  proof (cases b)
    case False
    then have "f = (\<lambda>p. p)" by (auto simp: f_def fun_eq_iff)
    then show ?thesis using False by (simp add: bump_existing_def mem_use_def c1_def)
  qed (simp add: bump_existing_def mem_use_def c1_def f_def Let_def)
  have f: "same_marks f" unfolding same_marks_def
  proof (intro allI)
    fix k' and e :: "'a mem_entry"
    show "\<exists>b s. f (k', e) = (k', e\<lparr>message_boundary := b, message_boundary_sequence := s\<rparr>)"
      by (rule exI [of _ "if b \<and> k' = k then True else message_boundary e"],
          rule exI [of _ "if b \<and> k' = k then boundary_sequence c + 1 else message_boundary_sequence e"]) (simp add: f_def)
  qed
  note m = same_marks [OF f]
  have c: "core_ok nb c" "limits_ok c" "gauges_ok c" using assms by (simp_all add: mem_ok_def)
  have c1: "core_ok nb c1" unfolding c1_def by (rule marks_core [OF c(1) f])
  have "length (hybrid_entries c1) = length (hybrid_entries c)"
    unfolding hybrid_entries_def c1_def by (simp add: split_def filter_map comp_def m)
  then have "limits_ok c1" using c(2) by (simp add: limits_ok_def c1_def)
  moreover have d: "distinct (map fst (entries c1))" using c1 by (simp add: core_ok_def entries_ok_def entry_keys_def)
  moreover have "gauges_ok (mem_use k c1)" using c(3) move_facts(4) [OF d, of k] by (simp add: gauges_ok_def mem_use_def c1_def)
  moreover have "stored_caches (mem_use k c1) = stored_caches c"
    using move_facts(1) [OF d, of k] by (simp add: stored_caches_def mem_use_def c1_def image_image m)
  ultimately show ?thesis unfolding bump mem_ok_def using use_core [OF c1] use_limits [OF c1] by simp
qed

text \<open>Without the \<open>n\<close> oldest hybrid entries.\<close>

definition is_hybrid :: "int list \<times> 'a mem_entry \<Rightarrow> bool" where
  "is_hybrid = (\<lambda>(k, e). non_trimmable e \<and> \<not> protected e)"

fun skip_hybrids :: "nat \<Rightarrow> (int list \<times> 'a mem_entry) list \<Rightarrow> (int list \<times> 'a mem_entry) list" where
  "skip_hybrids n [] = []"
| "skip_hybrids n (p # ps) =
     (if n = 0 then p # ps else if is_hybrid p then skip_hybrids (n - 1) ps else p # skip_hybrids n ps)"

lemma skip_hybrids_eq:
  "distinct (map fst xs) \<Longrightarrow> filter (\<lambda>p. fst p \<notin> fst ` set (take n (filter is_hybrid xs))) xs = skip_hybrids n xs"
proof (induction xs arbitrary: n)
  case (Cons p ps)
  have d: "fst p \<notin> fst ` set ps" "distinct (map fst ps)" using Cons.prems by simp_all
  show ?case
  proof (cases "n = 0")
    case True
    then show ?thesis by simp
  next
    case n: False
    show ?thesis
    proof (cases "is_hybrid p")
      case True
      have t: "take n (filter is_hybrid (p # ps)) = p # take (n - 1) (filter is_hybrid ps)" using True n by (cases n) simp_all
      have "filter (\<lambda>q. fst q \<notin> fst ` set (p # take (n - 1) (filter is_hybrid ps))) ps =
          filter (\<lambda>q. fst q \<notin> fst ` set (take (n - 1) (filter is_hybrid ps))) ps"
        using d(1) by (intro filter_cong) (auto simp: image_iff)
      then show ?thesis unfolding t using True n Cons.IH [OF d(2)] by simp
    next
      case False
      have "set (take n (filter is_hybrid ps)) \<subseteq> set ps" using set_take_subset [of n "filter is_hybrid ps"] by auto
      then have "fst p \<notin> fst ` set (take n (filter is_hybrid ps))" using d(1) by blast
      then show ?thesis using False n Cons.IH [OF d(2), of n] by simp
    qed
  qed
qed simp

lemma skip_hybrids_set: "set (skip_hybrids n xs) \<subseteq> set xs"
  by (induction n xs rule: skip_hybrids.induct) auto

text \<open>What is left of the old entries when the new one goes in.\<close>

definition survivors :: "bool \<Rightarrow> int list \<Rightarrow> 'a mem_cache \<Rightarrow> (int list \<times> 'a mem_entry) list" where
  "survivors evict t c = (if evict then filter (\<lambda>p. \<not> proper_prefix t (fst p)) (entries c) else entries c)"

definition stored_entry :: "bool \<Rightarrow> 'a mem_entry \<Rightarrow> 'a mem_cache \<Rightarrow> 'a mem_entry" where
  "stored_entry boundary e c = (if boundary then e\<lparr>message_boundary_sequence := boundary_sequence c + 1\<rparr> else e)"

lemma fold_boundary: "(\<And>k c. boundary_sequence (g k c) = boundary_sequence c) \<Longrightarrow> boundary_sequence (fold g ks c) = boundary_sequence c"
  by (induction ks arbitrary: c) simp_all

lemma boundary_kept:
  "boundary_sequence (evict_entry k c) = boundary_sequence c" "boundary_sequence (mem_evict_lru c) = boundary_sequence c"
  "boundary_sequence (evict_prefixes t c) = boundary_sequence c"
  by (simp_all add: evict_entry_def mem_evict_lru_def evict_prefixes_def gauges_def count_eviction_def drop_entry_simps Let_def
      fold_boundary split: list.split)

lemma make_room_boundary: "boundary_sequence (make_room e c) = boundary_sequence c"
proof (induction e c rule: make_room.induct)
  case (1 e c)
  show ?case by (subst make_room.simps) (use 1 boundary_kept(2) [of c] in simp)
qed

lemma commit_room:
  fixes evict :: bool
  assumes c: "mem_ok nb c" and e: "entry_ok nb e" and nb: "\<And>a. 0 \<le> nb a" and mb: "memory_bytes e \<le> max_memory c"
  defines "c1 \<equiv> make_room e (if evict \<and> sorted_keys c \<noteq> [] then evict_prefixes (e_tokens e) c else c)"
  shows "core_ok nb c1 \<and> shrinks c c1 \<and> \<not> over_limit e c1 \<and> boundary_sequence c1 = boundary_sequence c \<and>
    (\<exists>n\<le>length (survivors evict (e_tokens e) c). entries c1 = drop n (survivors evict (e_tokens e) c) \<and>
      (\<forall>m<n. too_much nb c e (drop m (survivors evict (e_tokens e) c))) \<and>
      \<not> too_much nb c e (drop n (survivors evict (e_tokens e) c)))"
proof -
  define c0 where "c0 = (if evict \<and> sorted_keys c \<noteq> [] then evict_prefixes (e_tokens e) c else c)"
  have co: "core_ok nb c" and li: "limits_ok c" using c by (simp_all add: mem_ok_def)
  have none: "sorted_keys c = [] \<Longrightarrow> entries c = []" using co by (auto simp: core_ok_def index_ok_def entry_keys_def)
  have c0: "core_ok nb c0 \<and> shrinks c c0 \<and> entries c0 = survivors evict (e_tokens e) c"
    using evict_prefixes_spec [OF co nb, of "e_tokens e"] co none by (auto simp: c0_def survivors_def shrinks_refl)
  then have cf: "mem_config c0 = mem_config c" "max_memory c0 = max_memory c" by (simp_all add: shrinks_def)
  have tm: "too_much nb c0 e = too_much nb c e" by (simp add: too_much_def fun_eq_iff cf)
  have "memory_bytes e \<le> max_memory c0" "1 \<le> max_entries (mem_config c0)" using mb li cf by (simp_all add: limits_ok_def)
  from make_room_spec [OF _ e nb this] c0 have r: "core_ok nb c1 \<and> shrinks c0 c1 \<and> \<not> over_limit e c1 \<and>
    (\<exists>n\<le>length (survivors evict (e_tokens e) c). entries c1 = drop n (survivors evict (e_tokens e) c) \<and>
      (\<forall>m<n. too_much nb c e (drop m (survivors evict (e_tokens e) c))))"
    by (simp add: c1_def c0_def [symmetric] tm)
  moreover have "shrinks c c1" using c0 r shrinks_trans by blast
  moreover have "boundary_sequence c1 = boundary_sequence c"
    by (simp add: c1_def make_room_boundary boundary_kept(3))
  moreover have "\<not> too_much nb c e (entries c1)"
    using over_limit_iff [of nb c1 e] r c0 e by (simp add: too_much_def shrinks_def)
  ultimately show ?thesis by metis
qed

lemma commit_spec:
  assumes c: "mem_ok nb c" and e: "entry_ok nb e" and nb: "\<And>a. 0 \<le> nb a" and mb: "memory_bytes e \<le> max_memory c"
    and p: "\<not> protected e" and new: "entry_at (e_tokens e) c = None" and r: "store_commit evict boundary e c = (r, c')"
  shows "r \<and> mem_ok nb c' \<and> (\<exists>n\<le>length (survivors evict (e_tokens e) c).
    (\<forall>m<n. too_much nb c e (drop m (survivors evict (e_tokens e) c))) \<and>
    \<not> too_much nb c e (drop n (survivors evict (e_tokens e) c)) \<and>
    (let es = drop n (survivors evict (e_tokens e) c) @ [(e_tokens e, stored_entry boundary e c)]
     in entries c' = (if non_trimmable e
          then skip_hybrids (length (filter is_hybrid es) - nat (hybrid_reuse_max_entries (mem_config c))) es else es)))"
proof -
  define c1 where "c1 = make_room e (if evict \<and> sorted_keys c \<noteq> [] then evict_prefixes (e_tokens e) c else c)"
  define c2 where "c2 = insert_entry boundary e c1"
  have co: "core_ok nb c" and li: "limits_ok c" and ga: "gauges_ok c" using c by (simp_all add: mem_ok_def)
  obtain n where n: "n \<le> length (survivors evict (e_tokens e) c)" "entries c1 = drop n (survivors evict (e_tokens e) c)"
      "\<forall>m<n. too_much nb c e (drop m (survivors evict (e_tokens e) c))"
      "\<not> too_much nb c e (drop n (survivors evict (e_tokens e) c))"
    and c1: "core_ok nb c1" "shrinks c c1" "\<not> over_limit e c1" "boundary_sequence c1 = boundary_sequence c"
    using commit_room [OF c e nb mb, of evict] unfolding c1_def by blast
  have cf: "mem_config c2 = mem_config c" "max_memory c2 = max_memory c" "ms_max_memory_bytes (mem_stats c2) = ms_max_memory_bytes (mem_stats c)"
    using c1(2) by (simp_all add: c2_def insert_entry_simps shrinks_def)
  have new1: "entry_at (e_tokens e) c1 = None"
  proof -
    have "set (entry_keys c1) \<subseteq> set (entry_keys c)" using c1(2) by (auto simp: shrinks_def entry_keys_def)
    then show ?thesis using new entry_at_keys [of "e_tokens e"] by blast
  qed
  have k2: "core_ok nb c2" unfolding c2_def by (rule insert_entry_core [OF c1(1) e new1])
  have es: "entries c2 = drop n (survivors evict (e_tokens e) c) @ [(e_tokens e, stored_entry boundary e c)]"
    by (simp add: c2_def insert_entry_simps n(2) stored_entry_def c1(4))
  have st: "non_trimmable (stored_entry boundary e c) = non_trimmable e" "protected (stored_entry boundary e c) = protected e"
    by (simp_all add: stored_entry_def)
  have g2: "gauges_ok c2" using ga cf by (simp add: gauges_ok_def c2_def insert_entry_simps)
  have "max_memory c1 = max_memory c" "mem_config c1 = mem_config c" using c1(2) by (simp_all add: shrinks_def)
  then have l2: "current_memory c2 \<le> max_memory c" "int (length (entries c2)) \<le> max_entries (mem_config c)" "1 \<le> max_entries (mem_config c)"
    using c1(3) li by (simp_all add: c2_def insert_entry_simps over_limit_def limits_ok_def)
  have hy: "hybrid_entries c2 = filter is_hybrid (entries c2)" by (simp add: hybrid_entries_def is_hybrid_def)
  have r2: "(r, c') = (True, if non_trimmable e then snd (enforce_hybrid_bound c2) else c2)"
    using r new unfolding store_commit_def Let_def c1_def [symmetric] c2_def [symmetric] by simp
  show ?thesis
  proof (cases "non_trimmable e")
    case False
    have "int (length (hybrid_entries c1)) \<le> max (hybrid_reuse_max_entries (mem_config c)) 0"
      using c1(2) li by (simp add: shrinks_def limits_ok_def)
    moreover have "hybrid_entries c2 = hybrid_entries c1"
      using False n(2) st by (simp add: hybrid_entries_def es)
    ultimately have "limits_ok c2" using l2 cf by (simp add: limits_ok_def)
    then show ?thesis using r2 False k2 g2 n(1,3,4) es by (auto simp: mem_ok_def Let_def)
  next
    case True
    obtain vs c3 where c3: "enforce_hybrid_bound c2 = (vs, c3)" by (cases "enforce_hybrid_bound c2")
    note sp = enforce_spec [OF k2 nb c3]
    have "limits_ok c3" unfolding limits_ok_def
    proof (intro conjI)
      have sh: "shrinks c2 c3" using sp by blast
      then show "current_memory c3 \<le> max_memory c3" "int (length (entries c3)) \<le> max_entries (mem_config c3)"
        "1 \<le> max_entries (mem_config c3)" using l2 cf by (simp_all add: shrinks_def)
      have "length (hybrid_entries c3) \<le> nat (hybrid_reuse_max_entries (mem_config c2))" using sp by simp
      then show "int (length (hybrid_entries c3)) \<le> max (hybrid_reuse_max_entries (mem_config c3)) 0"
        using sh by (simp add: shrinks_def)
    qed
    then have "mem_ok nb c3" using sp g2 by (simp add: mem_ok_def)
    moreover have "entries c3 = skip_hybrids (length (filter is_hybrid (entries c2)) - nat (hybrid_reuse_max_entries (mem_config c))) (entries c2)"
    proof -
      have "distinct (map fst (entries c2))" using k2 by (simp add: core_ok_def entries_ok_def entry_keys_def)
      from skip_hybrids_eq [OF this] show ?thesis using sp unfolding hybrid_victims_eq hy cf by simp
    qed
    ultimately show ?thesis using r2 True c3 n(1,3,4) es by (auto simp: Let_def)
  qed
qed

end
