(* ===== verification/MemReach.thy ===== *)
theory MemReach
  imports MemStore
begin

text \<open>
  The reachable states of the memory-aware cache and what holds in all of them. \<open>mem_reach\<close> interleaves its operations
  freely; the two locked sections of \<open>store\<close> are separate steps, and the entry the second one receives was made from any
  cache the caller may store.
\<close>

section \<open>The cost of a new entry\<close>

definition accounting_laws :: "'a layer_api \<Rightarrow> bool" where
  "accounting_laws api \<longleftrightarrow> (\<forall>a. 0 \<le> array_memory api a) \<and> (\<forall>l. 0 \<le> turbo_memory api l)"

text \<open>A recurrent layer has no keys of its own.\<close>

definition plain_recurrent :: "'a layer list \<Rightarrow> bool" where
  "plain_recurrent cache \<longleftrightarrow> (\<forall>l. Leaf l \<in> set cache \<longrightarrow> isa_arrays (leaf_class l) \<longrightarrow> \<not> isa_turbo (leaf_class l) \<and> keys_of l = No_keys)"

lemma first_uses_set: "distinct (first_uses seen xs) \<and> set (first_uses seen xs) = set xs - set seen"
  by (induction seen xs rule: first_uses.induct) auto

lemma first_uses_sum: "(\<And>x. 0 \<le> f x) \<Longrightarrow> sum_list (map f (first_uses seen xs)) \<le> sum_list (map f xs)" for f :: "'b \<Rightarrow> int"
  by (induction seen xs rule: first_uses.induct) (auto simp: add_increasing)

lemma sizes_nonneg: "accounting_laws api \<Longrightarrow> 0 \<le> sum_list (map (array_memory api) xs)"
  by (rule sum_list_nonneg) (auto simp: accounting_laws_def)

lemma layer_memory_nonneg: "accounting_laws api \<Longrightarrow> 0 \<le> layer_memory api layer"
proof -
  assume a: "accounting_laws api"
  then have "0 \<le> array_memory api x" "0 \<le> turbo_memory api l" for x l by (simp_all add: accounting_laws_def)
  then show ?thesis using sizes_nonneg [OF a]
    by (auto simp: layer_memory_def Let_def intro!: add_nonneg_nonneg split: layer.split option.split keys_attr.split)
qed

definition layer_checkpoint_bytes :: "(arr \<Rightarrow> int) \<Rightarrow> 'a layer \<Rightarrow> int" where
  "layer_checkpoint_bytes nb layer =
     (if is_recurrent_layer layer then case layer_checkpoints layer of None \<Rightarrow> 0 | Some h \<Rightarrow> holder_nbytes nb h else 0)"

lemma checkpoint_bytes_layers: "checkpoint_bytes nb cache = sum_list (map (layer_checkpoint_bytes nb) cache)"
  by (induction cache) (auto simp: checkpoint_bytes_def collect_checkpoints_def layer_checkpoint_bytes_def)

lemma layer_charge:
  assumes "accounting_laws api" and "plain_recurrent cache" and "layer \<in> set cache"
  shows "sum_list (map (array_memory api) (recurrent_arrays api layer)) \<le> layer_checkpoint_bytes (array_memory api) layer + layer_memory api layer"
proof (cases "is_recurrent_layer layer")
  case False
  then show ?thesis using layer_memory_nonneg [OF assms(1), of layer] by (simp add: recurrent_arrays_def layer_checkpoint_bytes_def)
next
  case True
  then obtain l where l: "layer = Leaf l" "isa_arrays (leaf_class l)" by (cases layer) auto
  then have "\<not> isa_turbo (leaf_class l)" "keys_of l = No_keys" using assms(2,3) by (auto simp: plain_recurrent_def)
  then show ?thesis using l
    by (auto simp: recurrent_arrays_def layer_checkpoint_bytes_def layer_memory_def holder_nbytes_def split: option.split)
qed

lemma cache_charge:
  assumes "accounting_laws api" and "plain_recurrent cache"
  shows "sum_list (map (array_memory api) (concat (map (recurrent_arrays api) cache))) \<le> estimate_kv_cache_memory api cache"
proof -
  have "sum_list (map (array_memory api) (concat (map (recurrent_arrays api) cs)))
      \<le> sum_list (map (layer_checkpoint_bytes (array_memory api)) cs) + sum_list (map (layer_memory api) cs)"
    if "set cs \<subseteq> set cache" for cs
    using that by (induction cs) (auto dest: layer_charge [OF assms])
  from this [OF subset_refl] show ?thesis by (simp add: estimate_kv_cache_memory_def checkpoint_bytes_layers)
qed

lemma make_entry_ok:
  assumes "accounting_laws api" and "plain_recurrent cache" and "t \<noteq> []"
  shows "entry_ok (array_memory api) (make_entry api t cache b) \<and> \<not> protected (make_entry api t cache b) \<and>
    e_tokens (make_entry api t cache b) = t \<and> e_cache (make_entry api t cache b) = cache"
proof -
  let ?arrs = "concat (map (recurrent_arrays api) cache)"
  have "sum_list (map (array_memory api) (first_uses [] ?arrs)) \<le> sum_list (map (array_memory api) ?arrs)"
    by (rule first_uses_sum) (use assms(1) in \<open>simp add: accounting_laws_def\<close>)
  then show ?thesis using cache_charge [OF assms(1,2)] first_uses_set [of "[]" ?arrs] assms(3)
    by (auto simp: entry_ok_def make_entry_def shared_state_arrays_def Let_def comp_def)
qed

section \<open>Reachable states\<close>

inductive mem_reach :: "'a layer_api \<Rightarrow> (int list \<Rightarrow> 'a layer list \<Rightarrow> bool) \<Rightarrow> 'a mem_cache \<Rightarrow> bool" for api P where
  mr_init: "check_config cf = Inr cf \<Longrightarrow> 0 \<le> limit \<Longrightarrow> rdx = None \<or> rdx = Some radix_init \<Longrightarrow> mem_reach api P (mem_init cf limit rdx)"
| mr_fetch: "mem_reach api P c \<Longrightarrow> mem_reach api P (snd (mem_fetch api cd t c))"
| mr_probe: "mem_reach api P c \<Longrightarrow> mem_reach api P (snd (mem_probe api t c))"
| mr_lookup: "mem_reach api P c \<Longrightarrow> mem_reach api P (snd (store_lookup api t cs b c))"
| mr_commit: "mem_reach api P c \<Longrightarrow> t \<noteq> [] \<Longrightarrow> P t cs \<Longrightarrow> memory_bytes (make_entry api t cs b) \<le> max_memory c \<Longrightarrow>
    mem_reach api P (snd (store_commit evict b (make_entry api t cs b) c))"
| mr_remove: "mem_reach api P c \<Longrightarrow> mem_reach api P (snd (mem_remove t c))"
| mr_clear: "mem_reach api P c \<Longrightarrow> mem_reach api P (mem_clear r c)"
| mr_reset: "mem_reach api P c \<Longrightarrow> mem_reach api P (mem_reset_stats c)"

lemma init_ok: "check_config cf = Inr cf \<Longrightarrow> 0 \<le> limit \<Longrightarrow> rdx = None \<or> rdx = Some radix_init \<Longrightarrow>
    mem_ok nb (mem_init cf limit rdx) \<and> stored_caches (mem_init cf limit rdx) = {}"
proof -
  assume a: "check_config cf = Inr cf" "0 \<le> limit" "rdx = None \<or> rdx = Some radix_init"
  have "1 \<le> max_entries cf" using a(1) by (auto simp: check_config_def split: if_splits)
  moreover have "radix_exact radix_init" "\<not> radix_contains radix_init k" for k
    using radix_init_exact by (auto simp: radix_contains_def radix_init_def)
  ultimately show ?thesis using a(2,3)
    by (auto simp: mem_ok_def core_ok_def entries_ok_def index_ok_def radix_ok_def ledger_ok_def ledger_total_def
        limits_ok_def gauges_ok_def hybrid_entries_def mem_init_def fresh_mem_stats_def entry_keys_def stored_caches_def)
qed

lemma memory_nonneg: "core_ok nb c \<Longrightarrow> (\<And>a. 0 \<le> nb a) \<Longrightarrow> 0 \<le> current_memory c"
proof -
  assume c: "core_ok nb c" and nb: "\<And>a. 0 \<le> nb a"
  have "\<forall>p\<in>set (entries c). 0 \<le> own_bytes (snd p)"
    using c by (fastforce simp: core_ok_def entries_ok_def entry_ok_def own_bytes_def)
  then have "0 \<le> sum_list (map own_bytes (map snd (entries c)))" by (intro sum_list_nonneg) auto
  moreover have "0 \<le> (\<Sum>a\<in>(\<Union>e\<in>set (map snd (entries c)). held e). nb a)" by (rule sum_nonneg) (rule nb)
  ultimately show ?thesis using c by (simp add: core_ok_def ledger_ok_def ledger_total_def Let_def)
qed

lemma clear_ok:
  assumes c: "mem_ok nb c" and nb: "\<And>a. 0 \<le> nb a"
  shows "mem_ok nb (mem_clear r c) \<and> stored_caches (mem_clear r c) = {}"
proof -
  have "0 \<le> max_memory c" "1 \<le> max_entries (mem_config c)"
    using memory_nonneg [of nb c] c nb by (auto simp: mem_ok_def limits_ok_def)
  moreover have "radix_exact (radix_clear idx)" "\<not> radix_contains (radix_clear idx) k" for idx k
    using radix_clear_exact by (auto simp: radix_contains_def radix_clear_def)
  ultimately show ?thesis
    by (auto simp: mem_ok_def core_ok_def entries_ok_def index_ok_def radix_ok_def ledger_ok_def ledger_total_def
        limits_ok_def gauges_ok_def hybrid_entries_def mem_clear_def fresh_mem_stats_def entry_keys_def stored_caches_def Let_def)
qed

lemma stats_only: "core_ok nb c' = core_ok nb (c'\<lparr>mem_stats := s\<rparr>)"
  by (auto intro: core_cong)

lemma lookup_ok: "mem_ok nb c \<Longrightarrow> mem_ok nb (snd (store_lookup api t cs b c)) \<and> stored_caches (snd (store_lookup api t cs b c)) = stored_caches c"
proof -
  assume c: "mem_ok nb c"
  have "mem_ok nb (c\<lparr>mem_stats := (mem_stats c)\<lparr>ms_non_trimmable_skips := n\<rparr>\<rparr>)" for n
    using c stats_only [of nb c] by (simp add: mem_ok_def limits_ok_def gauges_ok_def hybrid_entries_def)
  then show ?thesis using c bump_ok [OF c, of t b] by (auto simp: store_lookup_def stored_caches_def)
qed

lemma reset_ok: "mem_ok nb c \<Longrightarrow> mem_ok nb (mem_reset_stats c) \<and> stored_caches (mem_reset_stats c) = stored_caches c"
  using stats_only [of nb c]
  by (simp add: mem_reset_stats_def mem_ok_def limits_ok_def gauges_ok_def hybrid_entries_def fresh_mem_stats_def stored_caches_def)

lemma remove_ok:
  assumes c: "mem_ok nb c" and nb: "\<And>a. 0 \<le> nb a"
  shows "mem_ok nb (snd (mem_remove t c)) \<and> stored_caches (snd (mem_remove t c)) \<subseteq> stored_caches c"
proof (cases "entry_at t c = None")
  case True
  then show ?thesis using c by (simp add: mem_remove_def)
next
  case False
  have c': "core_ok nb c" "limits_ok c" "gauges_ok c" using c by (simp_all add: mem_ok_def)
  have d: "core_ok nb (drop_entry t c)" "shrinks c (drop_entry t c)"
    using drop_entry_core [OF c'(1) False] drop_entry_shrinks [OF c'(1) False nb] by simp_all
  have "core_ok nb (gauges (drop_entry t c))" by (rule same_core_ok [OF same_core_gauges(1) d(1)])
  moreover have "limits_ok (gauges (drop_entry t c))"
    using same_core_limits [OF same_core_gauges(1)] shrinks_limits [OF d(2) c'(2)] by blast
  moreover have "gauges_ok (gauges (drop_entry t c))"
    by (rule gauges_ok) (use c'(3) in \<open>simp add: drop_entry_simps gauges_ok_def\<close>)
  moreover have "stored_caches (gauges (drop_entry t c)) \<subseteq> stored_caches c"
    by (auto simp: stored_caches_def gauges_def drop_entry_simps)
  ultimately show ?thesis unfolding mem_remove_def if_not_P [OF False] by (simp add: mem_ok_def)
qed

lemma commit_ok:
  assumes c: "mem_ok nb c" and e: "entry_ok nb e" and nb: "\<And>a. 0 \<le> nb a" and mb: "memory_bytes e \<le> max_memory c" and p: "\<not> protected e"
  shows "mem_ok nb (snd (store_commit evict b e c)) \<and>
    stored_caches (snd (store_commit evict b e c)) \<subseteq> insert (e_tokens e, e_cache e) (stored_caches c)"
proof (cases "entry_at (e_tokens e) c = None")
  case False
  then show ?thesis using bump_ok [OF c, of "e_tokens e" b] by (auto simp: store_commit_def)
next
  case True
  obtain r c' where r: "store_commit evict b e c = (r, c')" by (cases "store_commit evict b e c")
  from commit_spec [OF c e nb mb p True r] obtain n where ok: "mem_ok nb c'"
    and es: "set (entries c') \<subseteq> set (drop n (survivors evict (e_tokens e) c)) \<union> {(e_tokens e, stored_entry b e c)}"
    using skip_hybrids_set by (fastforce simp: Let_def split: if_splits)
  have "set (drop n (survivors evict (e_tokens e) c)) \<subseteq> set (entries c)"
    using set_drop_subset [of n "survivors evict (e_tokens e) c"] by (auto simp: survivors_def split: if_splits)
  then have "stored_caches c' \<subseteq> insert (e_tokens e, e_cache e) (stored_caches c)"
  proof -
    have "e_cache (stored_entry b e c) = e_cache e" by (simp add: stored_entry_def)
    moreover have "set (entries c') \<subseteq> insert (e_tokens e, stored_entry b e c) (set (entries c))"
      using es \<open>set (drop n (survivors evict (e_tokens e) c)) \<subseteq> set (entries c)\<close> by blast
    ultimately show ?thesis unfolding stored_caches_def by fastforce
  qed
  then show ?thesis using ok r by simp
qed

lemma reach_ok:
  assumes "mem_reach api P c" and a: "accounting_laws api" and P: "\<And>t cs. P t cs \<Longrightarrow> plain_recurrent cs"
  shows "mem_ok (array_memory api) c \<and> (\<forall>(t, cs)\<in>stored_caches c. P t cs)"
  using assms(1)
proof (induction rule: mem_reach.induct)
  case (mr_init cf limit rdx)
  then show ?case using init_ok by fastforce
next
  case (mr_fetch c cd t)
  then show ?case using fetch_ok [of "array_memory api" c api cd t] by (simp add: stored_caches_def)
next
  case (mr_probe c t)
  then show ?case using probe_ok [of "array_memory api" c api t] by (simp add: stored_caches_def)
next
  case (mr_lookup c t cs b)
  then show ?case using lookup_ok [of "array_memory api" c api t cs b] by simp
next
  case (mr_commit c t cs b evict)
  have nb: "\<And>x. 0 \<le> array_memory api x" using a by (simp add: accounting_laws_def)
  note e = make_entry_ok [OF a P [OF mr_commit(3)] mr_commit(2), of b]
  show ?case using commit_ok [where nb = "array_memory api" and c = c and evict = evict and b = b, OF _ _ nb mr_commit(4)] e mr_commit(3) mr_commit.IH by fastforce
next
  case (mr_remove c t)
  have nb: "\<And>x. 0 \<le> array_memory api x" using a by (simp add: accounting_laws_def)
  show ?case using remove_ok [of "array_memory api" c t, OF _ nb] mr_remove.IH by blast
next
  case (mr_clear c r)
  have nb: "\<And>x. 0 \<le> array_memory api x" using a by (simp add: accounting_laws_def)
  show ?case using clear_ok [of "array_memory api" c r, OF _ nb] mr_clear.IH by simp
next
  case (mr_reset c)
  then show ?case using reset_ok [of "array_memory api" c] by simp
qed

end
