(* ===== verification/MemCorrect.thy ===== *)
theory MemCorrect
  imports MemReach
begin

text \<open>
  The properties of the memory-aware cache, over its reachable states.
\<close>

section \<open>The invariant\<close>

text \<open>The caches a caller may store: every layer holds the state of the key's tokens and can be rewound or restored.\<close>

definition storable :: "'a layer_api \<Rightarrow> ('a layer \<Rightarrow> int list \<Rightarrow> bool) \<Rightarrow> int list \<Rightarrow> 'a layer list \<Rightarrow> bool" where
  "storable api hold t cs \<longleftrightarrow> holds_all hold cs t \<and> plain_recurrent cs \<and>
     (\<forall>layer\<in>set cs. regular layer \<and> (rewindable api layer \<or> is_recurrent_layer layer \<and> layer_forbids_trim api layer))"

definition codec_law :: "'a codec \<Rightarrow> ('a layer \<Rightarrow> int list \<Rightarrow> bool) \<Rightarrow> bool" where
  "codec_law cd hold \<longleftrightarrow> (\<forall>cs ts. holds_all hold cs ts \<longrightarrow>
     holds_all hold (turboquant_decompress cd cs) ts \<and> holds_all hold (dequantize_cache cd cs) ts)"

subsection \<open>A cache of identical tokens\<close>

text \<open>For the examples: every token is 7, so a layer's offset tells what it holds.\<close>

definition unary_class :: leaf_class where
  "unary_class = \<lparr>type_name = ''KVCache'', type_module = ''mlx_lm.models.cache'', isa_kv = True, isa_rotating = False,
     isa_quantized = False, isa_turbo = False, isa_arrays = False\<rparr>"

definition unary_api :: "unit layer_api" where
  "unary_api = \<lparr>is_trimmable = (\<lambda>layer. Some (\<not> is_recurrent_layer layer)), has_trim = (\<lambda>_. True),
     trim_method = (\<lambda>l n. Some (if isa_arrays (leaf_class l) then None else Some n, l\<lparr>offset := map_option (\<lambda>k. k - n) (offset l)\<rparr>)),
     can_trim_method = (\<lambda>l n. Some (\<not> isa_arrays (leaf_class l))), bare_kv = unary_class, bare_attrs = (), bare_quantized = unary_class,
     quant_attrs = id, clear_rows = id, key_slots = (\<lambda>_. None), slice_arrays = id, array_memory = (\<lambda>_. 8),
     state_of = (\<lambda>layer. case layer of Leaf l \<Rightarrow> (case keys_of l of Key_array a \<Rightarrow> Some [a, a] | _ \<Rightarrow> Some (map the (cells l))) | _ \<Rightarrow> None),
     turbo_memory = (\<lambda>_. 0)\<rparr>"

definition same_codec :: "'a codec" where
  "same_codec = \<lparr>turboquant_compress = id, turboquant_decompress = id, quantize_cache = id, dequantize_cache = id\<rparr>"

definition sevens :: "int list \<Rightarrow> bool" where
  "sevens ts = list_all (\<lambda>x. x = 7) ts"

fun unary_hold :: "unit layer \<Rightarrow> int list \<Rightarrow> bool" where
  "unary_hold Absent ts = True"
| "unary_hold (Extracted cn st) ts = False"
| "unary_hold (Wrapper n m cs) ts = list_all (\<lambda>c. unary_hold c ts) cs"
| "unary_hold (Leaf l) ts = (sevens ts \<and> \<not> isa_turbo (leaf_class l) \<and> \<not> isa_quantized (leaf_class l) \<and>
     (if isa_arrays (leaf_class l)
      then offset l = None \<and> cells l = [Some (length ts)] \<and>
        (case holder l of None \<Rightarrow> True | Some h \<Rightarrow> \<forall>it\<in>set (items h). snd it = [nat (fst it)])
      else offset l = Some (int (length ts))))"

lemma sevens_take: "sevens ts \<Longrightarrow> sevens (take n ts)"
  by (auto simp: sevens_def list_all_iff dest: in_set_takeD)

lemma unary_trim: "trim_laws unary_api unary_hold"
  unfolding trim_laws_def
  by (auto simp: unary_api_def rebuild_kv_def leaf_offset_def unary_class_def list_all_iff sevens_take split: if_splits)

lemma unary_restore: "restore_law unary_api unary_hold"
  unfolding restore_law_def
proof (intro allI impI)
  fix layer layer' :: "unit layer" and p :: int and ts :: "int list"
  assume r: "is_recurrent_layer layer" and h: "unary_hold layer ts" and p: "0 < p" "p \<le> int (length ts)"
    and e: "restore_recurrent_layer (clear_rows unary_api) layer p = Some layer'"
  obtain l where l: "layer = Leaf l" "isa_arrays (leaf_class l)" using r by (cases layer) auto
  obtain hd arrs where hd: "holder l = Some hd" "arrays_at p hd = Some arrs"
    "layer' = Leaf (l\<lparr>cells := map Some arrs, attrs := clear_rows unary_api (attrs l), holder := Some (truncated p hd)\<rparr>)"
    using e l by (auto simp: restore_recurrent_layer_def split: option.splits)
  have "(p, arrs) \<in> set (items hd)" using hd(2) by (auto simp: arrays_at_def dest: map_of_SomeD)
  then have "arrs = [nat p]" using h l hd(1) by fastforce
  moreover have "set (items (truncated p hd)) \<subseteq> set (items hd)" by (auto simp: truncated_def make_checkpoints_def Let_def)
  ultimately show "unary_hold layer' (take (nat p) ts)" using h l hd p by (auto simp: sevens_take)
qed

lemma unary_can_trim: "can_trim_laws unary_api"
  by (auto simp: can_trim_laws_def unary_api_def split: if_splits)

lemma unary_accounting: "accounting_laws unary_api"
  by (simp add: accounting_laws_def unary_api_def)

definition unary_layer :: "int \<Rightarrow> unit layer" where
  "unary_layer n = Leaf \<lparr>leaf_class = unary_class, offset = Some n, keys_of = Key_array 0, values_of = [1], cells = [], holder = None, attrs = ()\<rparr>"

lemma unary_storable: "t \<noteq> [] \<Longrightarrow> sevens t \<Longrightarrow> storable unary_api unary_hold t [unary_layer (int (length t))]"
  by (simp add: storable_def holds_all_def plain_recurrent_def unary_layer_def unary_class_def rewindable_def plain_keys_def
      pooling_name_def)

definition unary_config :: mem_config where
  "unary_config = \<lparr>max_entries = 2, hybrid_reuse_max_entries = 1, kv_quantize = False, kv_turboquant = False,
     kv_min_quantize_tokens = 0, max_memory_percent = 1, min_memory_bytes = 0\<rparr>"

text \<open>A cache that holds three tokens, with the radix index and without.\<close>

definition unary_cache :: "radix_index option \<Rightarrow> unit mem_cache" where
  "unary_cache rdx = snd (store_commit True False (make_entry unary_api [7, 7, 7] [unary_layer 3] False) (mem_init unary_config 100 rdx))"

lemma unary_reach: "rdx = None \<or> rdx = Some radix_init \<Longrightarrow> mem_reach unary_api (storable unary_api unary_hold) (unary_cache rdx)"
proof -
  assume r: "rdx = None \<or> rdx = Some radix_init"
  have "mem_reach unary_api (storable unary_api unary_hold) (mem_init unary_config 100 rdx)"
    by (rule mr_init) (use r in \<open>simp_all add: check_config_def unary_config_def\<close>)
  then show ?thesis unfolding unary_cache_def
    by (rule mr_commit) (use unary_storable [of "[7, 7, 7]"] in \<open>simp_all add: sevens_def mem_init_def make_entry_def
      shared_state_arrays_def estimate_kv_cache_memory_def checkpoint_bytes_def collect_checkpoints_def unary_layer_def
      unary_class_def layer_memory_def unary_api_def Let_def\<close>)
qed

text \<open>
  C5. In every reachable state of the memory-aware cache, however its operations and the two sections of \<open>store\<close>
  interleave: the sorted list and the radix index hold exactly the stored keys; the ledger is the sum of what the entries
  own plus every shared array once, and within the limit; the bounds on entries and on hybrid entries hold; the gauges of
  the statistics are true; and every stored cache is one that a caller may store under its key.
\<close>

theorem memory_cache_invariant:
  assumes "mem_reach api P c" and "accounting_laws api" and "\<forall>t cs. P t cs \<longrightarrow> plain_recurrent cs"
  shows "sorted_wrt (<) (sorted_keys c) \<and> set (sorted_keys c) = set (entry_keys c) \<and> distinct (entry_keys c) \<and>
    (\<forall>idx. mem_radix c = Some idx \<longrightarrow> (\<forall>k. radix_contains idx k \<longleftrightarrow> k \<in> set (entry_keys c))) \<and>
    current_memory c = sum_list (map own_bytes (map snd (entries c))) +
      (\<Sum>a\<in>(\<Union>e\<in>set (map snd (entries c)). held e). array_memory api a) \<and>
    current_memory c \<le> max_memory c \<and> int (length (entries c)) \<le> max_entries (mem_config c) \<and>
    int (length (hybrid_entries c)) \<le> max (hybrid_reuse_max_entries (mem_config c)) 0 \<and>
    ms_entry_count (mem_stats c) = int (length (entries c)) \<and> ms_current_memory_bytes (mem_stats c) = current_memory c \<and>
    (\<forall>(t, cs)\<in>stored_caches c. P t cs)"
proof -
  have "mem_ok (array_memory api) c" "\<forall>(t, cs)\<in>stored_caches c. P t cs"
    using reach_ok [OF assms(1,2)] assms(3) by blast+
  then show ?thesis
    by (simp add: mem_ok_def core_ok_def index_ok_def entries_ok_def radix_ok_def ledger_ok_def ledger_total_def Let_def
        limits_ok_def gauges_ok_def)
qed

lemma memory_cache_invariant_witness:
  "current_memory (unary_cache (Some radix_init)) \<le> max_memory (unary_cache (Some radix_init)) \<and>
   set (sorted_keys (unary_cache (Some radix_init))) = set (entry_keys (unary_cache (Some radix_init)))"
  using memory_cache_invariant [OF unary_reach [of "Some radix_init"] unary_accounting]
  by (simp add: storable_def)

section \<open>Lookups\<close>

lemma reuses_holds:
  assumes laws: "trim_laws api hold" "restore_law api hold" and s: "storable api hold (e_tokens e) (e_cache e)"
    and r: "reuses api e p t cs"
  shows "holds_all hold cs (take (nat p) t)"
proof -
  have p: "0 < p" "p \<le> entry_length e" and tk: "take (nat p) t = take (nat p) (e_tokens e)" using r by (simp_all add: reuses_def)
  have h: "holds_all hold (e_cache e) (e_tokens e)"
    and l: "\<forall>layer\<in>set (e_cache e). rewindable api layer \<or> is_recurrent_layer layer \<and> layer_forbids_trim api layer"
    using s by (auto simp: storable_def)
  consider (whole) "cs = e_cache e" "p = entry_length e"
    | (trim) "\<not> list_ex (layer_forbids_trim api) (e_cache e)" "trim_cache_offset api (e_cache e) (entry_length e - p) = Some cs"
    | (snap) target where "snap_hybrid_trim api (e_cache e) (entry_length e) target = Some (cs, p)"
    using r by (auto simp: reuses_def)
  then show ?thesis unfolding tk
  proof cases
    case whole
    then show "holds_all hold cs (take (nat p) (e_tokens e))" using h by (simp add: entry_length_def)
  next
    case trim
    have b: "0 \<le> entry_length e - p" "entry_length e - p \<le> int (length (e_tokens e))" using p by (simp_all add: entry_length_def)
    have "\<forall>layer\<in>set (e_cache e). rewindable api layer" "\<forall>layer\<in>set (e_cache e). layer = Absent \<or> \<not> layer_forbids_trim api layer"
      using l trim(1) by (auto simp: list_ex_iff)
    moreover have "length (e_tokens e) - nat (entry_length e - p) = nat p" using p by (simp add: entry_length_def)
    ultimately show "holds_all hold cs (take (nat p) (e_tokens e))" using trim_cache_at [OF laws(1) b h _ _ trim(2)] by simp
  next
    case snap
    show "holds_all hold cs (take (nat p) (e_tokens e))"
      using snap_at [OF laws h entry_length_def _ snap] l by blast
  qed
qed

text \<open>
  C6. In a state reached by storing caches made of storable layers, where the trim, restore and codec operations of
  the cache classes obey their laws, a lookup returns normally, no key of an index being missing from the entries. (A
  wrapper outside the class dispatch is not storable: see \<open>passed_through_reused_whole\<close>.) On a hit the
  cache returned holds exactly the first \<open>p\<close> tokens of the query and the tokens left are the rest, whether the entry was
  used as stored, rewound, or snapped to a checkpoint; \<open>p\<close> is positive and at least the length of the longest stored
  strict prefix. On a miss no stored key is a strict prefix of the query and all tokens are left.
\<close>

theorem fetch_reuses_stored_prefix:
  assumes r: "mem_reach api (storable api hold) c" and a: "accounting_laws api"
    and laws: "trim_laws api hold" "restore_law api hold" "codec_law cd hold"
    and f: "mem_fetch api cd t c = (res, c')"
  shows "case res of Inl _ \<Rightarrow> False
    | Inr (None, rest) \<Rightarrow> rest = t \<and> (\<forall>k\<in>set (entry_keys c). \<not> (prefix k t \<and> k \<noteq> t))
    | Inr (Some cs, rest) \<Rightarrow> (\<exists>p>0. p \<le> length t \<and> rest = drop p t \<and> holds_all hold cs (take p t) \<and>
        (\<forall>k\<in>set (entry_keys c). prefix k t \<and> k \<noteq> t \<longrightarrow> length k \<le> p))"
proof -
  have ok: "mem_ok (array_memory api) c" and st: "\<forall>(t, cs)\<in>stored_caches c. storable api hold t cs"
    using reach_ok [OF r a] by (auto simp: storable_def)
  have co: "core_ok (array_memory api) c" using ok by (simp add: mem_ok_def)
  from fetch_outcome [OF this, of api cd t] obtain c1 where c1: "looked_up (array_memory api) c c1" "outcome api cd t c1 (res, c')"
    unfolding f by blast
  then have e1: "entries c1 = entries c" "entry_keys c1 = entry_keys c" by (auto simp: looked_up_def entry_keys_def)
  have ne: "k \<in> set (entry_keys c) \<Longrightarrow> k \<noteq> []" for k using stored [OF co, of k] by blast
  show ?thesis
  proof (cases "res = Inr (None, t)")
    case True
    then have "covers t c1 0" using c1(2) by (auto simp: outcome_def)
    then show ?thesis using True ne e1 by (fastforce simp: covers_def proper_prefix_def)
  next
    case False
    then obtain k e cs p mt where h: "entry_at k c1 = Some e" "reuses api e p t cs" "covers t c1 p"
        "res = Inr (Some (decompress_cache cd c1 cs), drop (nat p) t)"
      using c1(2) by (auto simp: outcome_def)
    have "(k, e) \<in> set (entries c)" using h(1) e1(1) map_of_SomeD by (simp add: entry_at_def)
    moreover from this have "e_tokens e = k" using co by (auto simp: core_ok_def entries_ok_def)
    ultimately have "storable api hold (e_tokens e) (e_cache e)" using st by (fastforce simp: stored_caches_def)
    from reuses_holds [OF laws(1,2) this h(2)] have "holds_all hold cs (take (nat p) t)" .
    then have "holds_all hold (decompress_cache cd c1 cs) (take (nat p) t)"
      using laws(3) by (simp add: decompress_cache_def codec_law_def)
    moreover have "0 < p" "p \<le> int (length t)" using h(2) by (simp_all add: reuses_def)
    then have pp: "0 < nat p" "nat p \<le> length t" by simp_all
    moreover have "\<forall>k\<in>set (entry_keys c). prefix k t \<and> k \<noteq> t \<longrightarrow> length k \<le> nat p"
      using h(3) e1(2) by (auto simp: covers_def proper_prefix_def)
    ultimately have "\<exists>q>0. q \<le> length t \<and> drop (nat p) t = drop q t \<and> holds_all hold (decompress_cache cd c1 cs) (take q t) \<and>
        (\<forall>k\<in>set (entry_keys c). prefix k t \<and> k \<noteq> t \<longrightarrow> length k \<le> q)"
      using pp by (intro exI [of _ "nat p"]) blast
    then show ?thesis using h(4) by simp
  qed
qed

lemma fetch_reuses_stored_prefix_witness:
  "case fst (mem_fetch unary_api same_codec [7, 7] (unary_cache None)) of
     Inr (Some cs, rest) \<Rightarrow> holds_all unary_hold cs [7, 7] \<and> rest = [] | _ \<Rightarrow> False"
proof -
  obtain res c' where f: "mem_fetch unary_api same_codec [7, 7] (unary_cache None) = (res, c')" by (cases "mem_fetch unary_api same_codec [7, 7] (unary_cache None)")
  have "fst (mem_fetch unary_api same_codec [7, 7] (unary_cache None)) = Inr (Some [unary_layer 2], [])" by code_simp
  then have res: "res = Inr (Some [unary_layer 2], [])" using f by simp
  have "codec_law same_codec unary_hold" by (simp add: codec_law_def same_codec_def)
  from fetch_reuses_stored_prefix [OF unary_reach unary_accounting unary_trim unary_restore this f] show ?thesis
    unfolding f by (auto simp: res)
qed

text \<open>The radix index only makes a lookup faster.\<close>

definition set_radix :: "radix_index option \<Rightarrow> 'a mem_cache \<Rightarrow> 'a mem_cache" where
  "set_radix r c = c\<lparr>mem_radix := r\<rparr>"

lemma set_radix_simps:
  "entry_at k (set_radix r c) = entry_at k c" "decompress_cache cd (set_radix r c) = decompress_cache cd c"
  "record_hit k n mt (set_radix r c) = set_radix r (record_hit k n mt c)" "record_miss (set_radix r c) = set_radix r (record_miss c)"
  "sorted_keys (set_radix r c) = sorted_keys c" "lcp_candidate t (set_radix r c) = lcp_candidate t c"
  by (simp_all add: set_radix_def entry_at_def decompress_cache_def fun_eq_iff record_hit_def record_miss_def lcp_candidate_def)

lemma set_radix_core: "core_ok nb c \<Longrightarrow> core_ok nb (set_radix None c)"
  by (simp add: core_ok_def entries_ok_def index_ok_def radix_ok_def ledger_ok_def entry_keys_def set_radix_def)

lemma with_entry_radix:
  assumes "\<And>e. f' e = apsnd (set_radix r) (f e)"
  shows "with_entry k (set_radix r c) f' = apsnd (set_radix r) (with_entry k c f)"
  by (simp add: with_entry_def set_radix_simps assms split: option.split)

lemma radix_twice: "apsnd (set_radix r) (apsnd (set_radix x) y) = apsnd (set_radix r) y"
  by (cases y) (simp add: set_radix_def)

lemma prefix_stage_radix: "prefix_stage cd t m (set_radix r c) = apsnd (set_radix r) (prefix_stage cd t m c)"
  by (cases m) (simp_all add: prefix_stage_def set_radix_simps with_entry_radix)

lemma lcp_stage_radix: "lcp_stage api cd t m (set_radix r c) = apsnd (set_radix r) (lcp_stage api cd t m c)"
proof (cases "lcp_candidate t c")
  case (Pair a n)
  show ?thesis unfolding lcp_stage_def set_radix_simps Pair
    by (cases a) (auto simp: prefix_stage_radix set_radix_simps intro!: with_entry_radix split: option.split prod.split)
qed

lemma super_stage_radix: "super_stage api cd t m k (set_radix r c) = apsnd (set_radix r) (super_stage api cd t m k c)"
  unfolding super_stage_def
  by (rule with_entry_radix) (auto simp: lcp_stage_radix set_radix_simps Let_def split: option.split prod.split)

lemma candidates_radix:
  assumes c: "core_ok nb c" and t: "t \<noteq> []" and u: "u \<or> entry_at t c = None" and m: "match_candidates t u c = (r, c1)"
  shows "\<exists>x. c1 = set_radix x c \<and> match_candidates t u (set_radix None c) = (r, set_radix None c)"
proof -
  obtain bm bs where r: "r = (bm, bs)" by (cases r)
  obtain bm' bs' c2 where m': "match_candidates t u (set_radix None c) = ((bm', bs'), c2)" by (metis prod.exhaust)
  note s = candidates_spec [OF c t u m [unfolded r]]
  have u': "u \<or> entry_at t (set_radix None c) = None" using u by (simp add: set_radix_simps)
  note s' = candidates_spec [OF set_radix_core [OF c] t u' m']
  have "bm = bm'"
    by (rule longest_prefix_unique [of t "entry_keys c"]) (use s s' in \<open>simp_all add: proper_prefix_def [abs_def] entry_keys_def set_radix_def\<close>)
  moreover have "bs = bs'" using m m' r by (auto simp: match_candidates_def Let_def set_radix_simps split: prod.splits)
  moreover have "c2 = set_radix None c" using m' by (auto simp: match_candidates_def radix_candidate_def Let_def set_radix_def)
  moreover have "\<exists>x. c1 = set_radix x c" using s by (auto simp: looked_up_def set_radix_def)
  ultimately show ?thesis using m' r by simp
qed

lemma fetch_radix:
  assumes c: "core_ok nb c"
  shows "mem_fetch api cd t (set_radix None c) = apsnd (set_radix None) (mem_fetch api cd t c)"
proof (cases "t = [] \<or> (\<exists>e. entry_at t c = Some e \<and> \<not> non_trimmable e)")
  case True
  then show ?thesis by (auto simp: mem_fetch_def fetch_locked_def set_radix_simps)
next
  case False
  define u where "u = (entry_at t c \<noteq> None)"
  have "u \<or> entry_at t c = None" by (auto simp: u_def)
  obtain m s c1 where m: "match_candidates t u c = ((m, s), c1)" by (metis prod.exhaust)
  have t: "t \<noteq> []" using False by blast
  obtain x where x: "c1 = set_radix x c" "match_candidates t u (set_radix None c) = ((m, s), set_radix None c)"
    using candidates_radix [OF c t _ m] by (auto simp: u_def)
  let ?stage = "\<lambda>c. case s of None \<Rightarrow> lcp_stage api cd t m c | Some k \<Rightarrow> super_stage api cd t m k c"
  have f: "mem_fetch api cd t c' = ?stage c''" if "match_candidates t u c' = ((m, s), c'')" "entry_at t c' = entry_at t c" for c' c''
    using that t False by (cases "entry_at t c") (simp_all add: mem_fetch_def fetch_locked_def u_def)
  have st: "?stage (set_radix r c) = apsnd (set_radix r) (?stage c)" for r
    by (cases s) (simp_all add: lcp_stage_radix super_stage_radix)
  have "mem_fetch api cd t (set_radix None c) = ?stage (set_radix None c)" by (rule f [OF x(2) set_radix_simps(1)])
  also have "\<dots> = apsnd (set_radix None) (?stage c)" by (rule st)
  also have "\<dots> = apsnd (set_radix None) (?stage c1)" unfolding x(1) st radix_twice ..
  also have "?stage c1 = mem_fetch api cd t c" by (rule f [OF m refl, symmetric])
  finally show ?thesis .
qed


text \<open>
  C8. With the radix index a lookup returns what it returns without, and leaves the same state but for the index's own
  counters.
\<close>

theorem fetch_radix_equivalent:
  assumes "mem_reach api P c" and "accounting_laws api" and "\<forall>t cs. P t cs \<longrightarrow> plain_recurrent cs"
  shows "mem_fetch api cd t (set_radix None c) = apsnd (set_radix None) (mem_fetch api cd t c)"
proof -
  have "core_ok (array_memory api) c" using reach_ok [OF assms(1,2)] assms(3) unfolding mem_ok_def by blast
  then show ?thesis by (rule fetch_radix)
qed

lemma fetch_radix_equivalent_witness:
  "mem_fetch unary_api same_codec [7, 7, 7, 5] (set_radix None (unary_cache (Some radix_init))) =
     apsnd (set_radix None) (mem_fetch unary_api same_codec [7, 7, 7, 5] (unary_cache (Some radix_init)))"
  by (rule fetch_radix_equivalent [OF unary_reach unary_accounting]) (simp_all add: storable_def)

section \<open>Probes\<close>

definition reused :: "int list \<Rightarrow> (py_error + 'a fetched) \<times> 'a mem_cache \<Rightarrow> int" where
  "reused t r = (case fst r of Inl _ \<Rightarrow> - 1 | Inr (_, rest) \<Rightarrow> int (length t) - int (length rest))"

lemma reused_hit [simp]: "p \<le> length t \<Longrightarrow> reused t (Inr (cs, drop p t), c) = int p"
  by (simp add: reused_def)

text \<open>A snap that succeeds was shown possible by the metadata: every layer that the rewind touches tells so.\<close>

definition foreseen :: "'a layer_api \<Rightarrow> 'a mem_cache \<Rightarrow> bool" where
  "foreseen api c \<longleftrightarrow> (\<forall>k e target cs p. entry_at k c = Some e \<longrightarrow>
     snap_hybrid_trim api (e_cache e) (entry_length e) target = Some (cs, p) \<longrightarrow> snap_position api (e_cache e) (entry_length e) target \<noteq> 0)"

definition all_regular :: "'a mem_cache \<Rightarrow> bool" where
  "all_regular c \<longleftrightarrow> (\<forall>k e. entry_at k c = Some e \<longrightarrow> (\<forall>layer\<in>set (e_cache e). regular layer))"

lemma probe_prefix_reused:
  assumes "longest (proper_prefix t) (entry_keys c) m" and "outcome api cd t c r"
  shows "fst (probe_prefix m) \<le> reused t r"
proof -
  consider (miss) "fst r = Inr (None, t)" "covers t c 0"
    | (hit) p cs where "fst r = Inr (cs, drop (nat p) t)" "covers t c p" "0 < p" "p \<le> int (length t)"
    using assms(2) by (auto simp: outcome_def reuses_def)
  then show ?thesis
  proof cases
    case miss
    then show ?thesis using longest_covers [OF assms(1), of 0] by (cases m) (simp_all add: reused_def probe_prefix_def match_length_def)
  next
    case hit
    then have "reused t r = p" by (simp add: reused_def nat_le_iff)
    then show ?thesis using hit(2,3) longest_covers [OF assms(1), of p] by (cases m) (simp_all add: probe_prefix_def match_length_def)
  qed
qed

lemma probe_prefix_upper: "longest (proper_prefix t) ks m \<Longrightarrow> fst (probe_prefix m) \<le> int (length t)"
  by (cases m) (auto simp: probe_prefix_def longest_def proper_prefix_def dest: prefix_length_le)

lemma probe_lcp_reused:
  assumes c: "core_ok nb c" and m: "longest (proper_prefix t) (entry_keys c) m" and laws: "can_trim_laws api" and reg: "all_regular c"
  shows "\<exists>n mt. probe_lcp api t m c = Inr (n, mt) \<and> n \<le> reused t (lcp_stage api cd t m c) \<and> n \<le> int (length t)"
proof -
  note fallback = probe_prefix_reused [OF m lcp_stage_outcome [OF c m, of api cd]] probe_prefix_upper [OF m]
  have pre: ?thesis if "probe_lcp api t m c = Inr (probe_prefix m)" using that fallback by (metis prod.collapse)
  obtain r shared where l: "lcp_candidate t c = (r, shared)" by (cases "lcp_candidate t c")
  show ?thesis
  proof (cases "\<exists>k. r = Some k \<and> match_length m < int shared")
    case False
    then have "probe_lcp api t m c = Inr (probe_prefix m)" using l by (cases r) (simp_all add: probe_lcp_def)
    then show ?thesis by (rule pre)
  next
    case True
    then obtain k where k: "r = Some k" and far: "match_length m < int shared" by blast
    have "set (sorted_keys c) = set (entry_keys c)" using c by (simp add: core_ok_def index_ok_def)
    then have kk: "k \<in> set (entry_keys c)" "shared = common_prefix k t" "0 < shared" "k \<noteq> t"
      using lcp_candidate_sound [of t c r shared] l k by simp_all
    obtain e where e: "entry_at k c = Some e" "e_tokens e = k" "k \<noteq> []" by (rule stored [OF c kk(1)])
    have sh: "shared \<le> length t" "shared \<le> length k" using common_prefix_le [of k t] kk(2) by simp_all
    have m0: "0 \<le> match_length m" by (cases m) (simp_all add: match_length_def)
    have gap: "shared < length k"
    proof (rule ccontr)
      assume "\<not> shared < length k"
      then have "take (length k) k = take (length k) t" using take_common_prefix [of "length k" k t] sh kk(2) by simp
      then have "prefix k t" by (metis order_refl take_all take_is_prefix)
      then have "match_length m \<ge> int (length k)"
        using m kk(1,4) by (cases m) (auto simp: longest_def proper_prefix_def match_length_def)
      then show False using far sh(2) by linarith
    qed
    have reg': "\<forall>layer\<in>set (e_cache e). regular layer" using reg e(1) by (auto simp: all_regular_def)
    show ?thesis
    proof (cases "list_ex (layer_forbids_trim api) (e_cache e)")
      case f: False
      show ?thesis
      proof (cases "rewind_feasible api (e_cache e) (entry_length e - int shared)")
        case False
        then have "probe_lcp api t m c = Inr (probe_prefix m)" using l k e far f by (simp add: probe_lcp_def)
        then show ?thesis by (rule pre)
      next
        case feas: True
        have "0 < entry_length e - int shared" using gap e(2) by (simp add: entry_length_def)
        from feasible_cache_trims [OF laws this feas reg'] obtain cs where
          cs: "trim_cache_offset api (e_cache e) (entry_length e - int shared) = Some cs" by blast
        have "lcp_stage api cd t m c = (Inr (Some (decompress_cache cd c cs), drop shared t), record_hit (e_tokens e) (int shared) ''lcp'' c)"
          using l k e far f feas cs by (simp add: lcp_stage_def with_entry_def resume_position_def)
        moreover have "probe_lcp api t m c = Inr (int shared, ''lcp'')" using l k e far f feas by (simp add: probe_lcp_def)
        ultimately show ?thesis using sh(1) by simp
      qed
    next
      case f: True
      define p where "p = snap_position api (e_cache e) (entry_length e) (int shared)"
      show ?thesis
      proof (cases "match_length m < p")
        case False
        then have "probe_lcp api t m c = Inr (probe_prefix m)" using l k e far f by (simp add: probe_lcp_def p_def)
        then show ?thesis by (rule pre)
      next
        case pos: True
        then have "snap_position api (e_cache e) (entry_length e) (int shared) \<noteq> 0" using m0 by (simp add: p_def)
        from snap_delivers [OF laws reg' this] obtain cs where
          cs: "snap_hybrid_trim api (e_cache e) (entry_length e) (int shared) = Some (cs, p)" unfolding p_def by blast
        note b = snap_bounds [OF cs]
        have "lcp_stage api cd t m c = (Inr (Some (decompress_cache cd c cs), drop (nat p) t), record_hit (e_tokens e) p ''lcp'' c)"
          using l k e far f pos cs b by (simp add: lcp_stage_def with_entry_def resume_position_def p_def [symmetric] py_drop_nat)
        moreover have "probe_lcp api t m c = Inr (p, ''lcp'')" using l k e far f pos by (simp add: probe_lcp_def p_def Let_def)
        moreover have "nat p \<le> length t" "int (nat p) = p" "p \<le> int (length t)" using b sh(1) by linarith+
        ultimately show ?thesis by simp
      qed
    qed
  qed
qed

lemma probe_super_reused:
  assumes c: "core_ok nb c" and m: "longest (proper_prefix t) (entry_keys c) m" and t: "t \<noteq> []"
    and k: "k \<in> set (entry_keys c)" "prefix t k"
    and laws: "can_trim_laws api" and reg: "all_regular c" and fs: "foreseen api c"
  shows "\<exists>n mt. probe_super api t m k c = Inr (n, mt) \<and> n \<le> reused t (super_stage api cd t m k c) \<and> n \<le> int (length t)"
proof -
  note lcp = probe_lcp_reused [OF c m laws reg, of cd]
  obtain e where e: "entry_at k c = Some e" "e_tokens e = k" "k \<noteq> []" by (rule stored [OF c k(1)])
  have reg': "\<forall>layer\<in>set (e_cache e). regular layer" using reg e(1) by (auto simp: all_regular_def)
  have m0: "0 \<le> match_length m" by (cases m) (simp_all add: match_length_def)
  define x where "x = entry_length e - int (length t)"
  consider (hybrid) "0 < x" "list_ex (layer_forbids_trim api) (e_cache e)" | (dense) "0 < x" "\<not> list_ex (layer_forbids_trim api) (e_cache e)"
    | (whole) "\<not> 0 < x" by blast
  then show ?thesis
  proof cases
    case whole
    then have "probe_super api t m k c = Inr (int (length t), ''supersequence'')" "reused t (super_stage api cd t m k c) = int (length t)"
      using e by (simp_all add: probe_super_def super_stage_def with_entry_def x_def reused_def Let_def)
    then show ?thesis by simp
  next
    case dense
    show ?thesis
    proof (cases "trim_cache_offset api (e_cache e) x")
      case None
      then have "\<not> rewind_feasible api (e_cache e) x" using feasible_cache_trims [OF laws dense(1) _ reg'] by force
      then have "probe_super api t m k c = probe_lcp api t m c" "super_stage api cd t m k c = lcp_stage api cd t m c"
        using None dense [unfolded x_def] e by (simp_all add: probe_super_def super_stage_def with_entry_def x_def Let_def)
      then show ?thesis using lcp by simp
    next
      case (Some cs)
      then have "reused t (super_stage api cd t m k c) = int (length t)"
        using dense e by (simp add: super_stage_def with_entry_def x_def Let_def reused_def)
      moreover have "probe_super api t m k c = Inr (int (length t), ''supersequence'') \<or> probe_super api t m k c = probe_lcp api t m c"
        using dense e by (simp add: probe_super_def x_def Let_def)
      ultimately show ?thesis using lcp by auto
    qed
  next
    case hybrid
    define p where "p = snap_position api (e_cache e) (entry_length e) (int (length t))"
    have ps: "probe_super api t m k c = (if match_length m < p then Inr (p, ''supersequence'') else probe_lcp api t m c)"
      using hybrid e by (simp add: probe_super_def x_def Let_def p_def)
    have stage: "super_stage api cd t m k c = (case snap_hybrid_trim api (e_cache e) (entry_length e) (int (length t)) of
        Some (cs, q) \<Rightarrow> (if match_length m < q then (Inr (Some (decompress_cache cd c cs), py_drop q t), record_hit (e_tokens e) q ''supersequence'' c)
          else lcp_stage api cd t m c) | None \<Rightarrow> lcp_stage api cd t m c)"
      using hybrid e by (simp add: super_stage_def with_entry_def x_def Let_def)
    show ?thesis
    proof (cases "match_length m < p")
      case True
      then have "snap_position api (e_cache e) (entry_length e) (int (length t)) \<noteq> 0" using m0 by (simp add: p_def)
      from snap_delivers [OF laws reg' this] obtain cs where
        cs: "snap_hybrid_trim api (e_cache e) (entry_length e) (int (length t)) = Some (cs, p)" unfolding p_def by blast
      note b = snap_bounds [OF cs]
      have "super_stage api cd t m k c = (Inr (Some (decompress_cache cd c cs), drop (nat p) t), record_hit (e_tokens e) p ''supersequence'' c)"
        unfolding stage using cs True b by (simp add: py_drop_nat)
      moreover have n: "nat p \<le> length t" "int (nat p) = p" using b by linarith+
      ultimately have "reused t (super_stage api cd t m k c) = p" by (simp only: reused_hit)
      then show ?thesis using ps True b by simp
    next
      case False
      have "super_stage api cd t m k c = lcp_stage api cd t m c"
      proof (cases "snap_hybrid_trim api (e_cache e) (entry_length e) (int (length t))")
        case None
        then show ?thesis by (simp add: stage)
      next
        case (Some r)
        obtain cs q where s: "snap_hybrid_trim api (e_cache e) (entry_length e) (int (length t)) = Some (cs, q)" using Some by (cases r) simp
        then have "p \<noteq> 0" unfolding p_def using fs e(1) unfolding foreseen_def by blast
        then have "p = q" using snap_position_upper [OF s] by (simp add: p_def)
        then show ?thesis using s False by (simp add: stage)
      qed
      then show ?thesis using ps False lcp by simp
    qed
  qed
qed

lemma radix_irrelevant:
  "all_regular (set_radix r c) = all_regular c" "foreseen api (set_radix r c) = foreseen api c"
  by (simp_all add: all_regular_def foreseen_def set_radix_simps)

text \<open>
  \<open>probe\<close> returns normally, and a \<open>fetch\<close> in the same state reuses at least as many tokens as it reported, provided
  a rewind that the metadata of the layers declare possible succeeds, and a snap that succeeds was declared possible.
\<close>

theorem probe_underestimates:
  assumes r: "mem_reach api (storable api hold) c" and a: "accounting_laws api" and laws: "can_trim_laws api" and fs: "foreseen api c"
  shows "\<exists>n mt. fst (mem_probe api t c) = Inr (n, mt) \<and> n \<le> reused t (mem_fetch api cd t c)"
proof (cases "t = [] \<or> (\<exists>e. entry_at t c = Some e \<and> \<not> non_trimmable e)")
  case True
  then show ?thesis
    by (auto simp: mem_probe_def mem_fetch_def probe_locked_def fetch_locked_def unusable_exact_def reused_def)
next
  case False
  have ok: "mem_ok (array_memory api) c" and st: "\<forall>(t, cs)\<in>stored_caches c. storable api hold t cs"
    using reach_ok [OF r a] by (auto simp: storable_def)
  have co: "core_ok (array_memory api) c" using ok by (simp add: mem_ok_def)
  have reg: "all_regular c" unfolding all_regular_def
  proof (intro allI impI)
    fix k e assume "entry_at k c = Some e"
    then have "(k, e_cache e) \<in> stored_caches c" using map_of_SomeD [of "entries c" k e] by (force simp: stored_caches_def entry_at_def)
    then show "\<forall>layer\<in>set (e_cache e). regular layer" using st by (auto simp: storable_def)
  qed
  define u where "u = (entry_at t c \<noteq> None)"
  have u: "u \<or> entry_at t c = None" "unusable_exact t c = u" using False by (auto simp: u_def unusable_exact_def split: option.splits)
  obtain m s c1 where m: "match_candidates t u c = ((m, s), c1)" by (metis prod.exhaust)
  have t: "t \<noteq> []" using False by blast
  note sp = candidates_spec [OF co t u(1) m]
  obtain x where c1: "core_ok (array_memory api) c1" "c1 = set_radix x c" using sp by (auto simp: looked_up_def set_radix_def)
  have k1: "entry_keys c1 = entry_keys c" by (simp add: c1(2) entry_keys_def set_radix_def)
  have l1: "longest (proper_prefix t) (entry_keys c1) m" using sp k1 by simp
  have reg1: "all_regular c1" "foreseen api c1" using reg fs by (simp_all add: c1(2) radix_irrelevant)
  have f: "mem_fetch api cd t c = (case s of None \<Rightarrow> lcp_stage api cd t m c1 | Some k \<Rightarrow> super_stage api cd t m k c1)"
    using t False m by (cases "entry_at t c") (simp_all add: mem_fetch_def fetch_locked_def u_def)
  have p: "mem_probe api t c = (case s of None \<Rightarrow> probe_lcp api t m c1 | Some k \<Rightarrow> probe_super api t m k c1, c1)"
    using t False m u by (auto simp: mem_probe_def probe_locked_def)
  show ?thesis
  proof (cases s)
    case None
    then show ?thesis using probe_lcp_reused [OF c1(1) l1 laws reg1(1), of cd] unfolding f p by auto
  next
    case (Some k)
    then have "k \<in> set (entry_keys c1)" "prefix t k" using sp k1 by (auto simp: longest_def)
    then show ?thesis using probe_super_reused [OF c1(1) l1 t _ _ laws reg1, of k cd] Some unfolding f p by auto
  qed
qed

lemma unary_foreseen: "foreseen unary_api (unary_cache None)"
  unfolding foreseen_def
proof (intro allI impI)
  fix k e target cs p
  assume "entry_at k (unary_cache None) = Some e"
  then have "(k, e) \<in> set (entries (unary_cache None))" unfolding entry_at_def by (rule map_of_SomeD)
  then have "(e_cache e, entry_length e) \<in> (\<lambda>(k, e). (e_cache e, entry_length e)) ` set (entries (unary_cache None))" by force
  moreover have "map (\<lambda>(k, e). (e_cache e, entry_length e)) (entries (unary_cache None)) = [([unary_layer 3], 3)]" by code_simp
  ultimately have e: "e_cache e = [unary_layer 3]" "entry_length e = 3" by (simp_all flip: set_map)
  assume "snap_hybrid_trim unary_api (e_cache e) (entry_length e) target = Some (cs, p)"
  then have s: "0 < target" "\<not> snap_refused unary_api [unary_layer 3]" by (auto simp: snap_some_iff e)
  have "\<not> list_ex is_recurrent_layer [unary_layer 3]" by (simp add: unary_layer_def unary_class_def)
  from achievable_dense [OF this] have ac: "achievable_position [unary_layer 3] n = n" for n .
  have "rewind_feasible unary_api (kv_only [unary_layer 3]) n" if "0 \<le> n" "n \<le> 3" for n
    using that by (simp add: rewind_feasible_def kv_only_def unary_layer_def unary_class_def leaf_rewind_feasible_def pooling_name_def
        offset_covers_def plain_keys_def unary_api_def)
  then show "snap_position unary_api (e_cache e) (entry_length e) target \<noteq> 0"
    unfolding e snap_position_def Let_def ac using s by auto
qed

lemma probe_underestimates_witness:
  "\<exists>n mt. fst (mem_probe unary_api [7, 7] (unary_cache None)) = Inr (n, mt) \<and>
     n \<le> reused [7, 7] (mem_fetch unary_api same_codec [7, 7] (unary_cache None))"
  by (rule probe_underestimates [OF unary_reach unary_accounting unary_can_trim unary_foreseen]) simp

section \<open>Layers that are passed through\<close>

text \<open>
  A \<open>CacheList\<close> of ordinary layers, like any layer outside the dispatch of \<open>_trim_cache_offset\<close>, comes back from
  a shortened reuse as it was stored: when the query diverges from the nearest key after \<open>shared\<close> tokens, \<open>fetch\<close>
  reports that only the rest of the query is left, and hands out the state of the whole longer key.
\<close>

theorem passed_through_reused_whole:
  assumes r: "mem_reach api P c" and a: "accounting_laws api" and P: "\<forall>t cs. P t cs \<longrightarrow> plain_recurrent cs"
    and t: "t \<noteq> []" and apart: "\<forall>k\<in>set (entry_keys c). \<not> prefix k t \<and> \<not> prefix t k"
    and l: "lcp_candidate t c = (Some k, shared)" and e: "entry_at k c = Some e"
    and layers: "\<forall>layer\<in>set (e_cache e). \<not> rewinds layer \<and> \<not> layer_forbids_trim api layer"
  shows "fst (mem_fetch api cd t c) = Inr (Some (decompress_cache cd c (e_cache e)), drop shared t) \<and> shared < length k"
proof -
  have co: "core_ok (array_memory api) c" using reach_ok [OF r a] P unfolding mem_ok_def by blast
  have n: "entry_at t c = None" using apart entry_at_keys [of t c] by auto
  obtain m s c1 where m: "match_candidates t False c = ((m, s), c1)" by (metis prod.exhaust)
  note sp = candidates_spec [OF co t _ m]
  have ms: "m = None" "s = None" using sp n apart by (cases m; cases s; auto simp: longest_def proper_prefix_def)+
  have "looked_up (array_memory api) c c1" using sp n by blast
  then obtain x where c1: "c1 = set_radix x c" by (auto simp: looked_up_def set_radix_def)
  have f: "mem_fetch api cd t c = lcp_stage api cd t None c1"
    using t n m ms by (simp add: mem_fetch_def fetch_locked_def)
  have nf: "\<not> list_ex (layer_forbids_trim api) (e_cache e)" using layers by (auto simp: list_ex_iff)
  have tr: "trim_cache_offset api (e_cache e) j = Some (e_cache e)" for j by (rule trim_cache_untouched) (use layers in blast)
  have "fst (lcp_stage api cd t None c) = Inr (Some (decompress_cache cd c (e_cache e)), drop shared t)"
    using l e nf tr by (simp add: lcp_stage_def with_entry_def)
  moreover have "shared < length k"
  proof -
    have "set (sorted_keys c) = set (entry_keys c)" using co by (simp add: core_ok_def index_ok_def)
    then have k: "k \<in> set (entry_keys c)" "shared = common_prefix k t" using lcp_candidate_sound [OF l] by simp_all
    have "common_prefix k t \<noteq> length k"
    proof
      assume "common_prefix k t = length k"
      then have "take (length k) k = take (length k) t" using take_common_prefix [of "length k" k t] common_prefix_le [of k t] by simp
      then have "prefix k t" by (metis order_refl take_all take_is_prefix)
      then show False using apart k(1) by blast
    qed
    then show ?thesis using k(2) common_prefix_le [of k t] by simp
  qed
  ultimately show ?thesis unfolding f c1 lcp_stage_radix by simp
qed

definition unary_wrapper :: "int \<Rightarrow> unit layer" where
  "unary_wrapper n = Wrapper ''CacheList'' ''mlx_lm.models.cache'' [unary_layer n, unary_layer n]"

definition wrapped_cache :: "unit mem_cache" where
  "wrapped_cache = snd (store_commit True False (make_entry unary_api [7, 7, 7] [unary_wrapper 3] False) (mem_init unary_config 100 None))"

lemma wrapped_reach: "mem_reach unary_api (\<lambda>_. plain_recurrent) wrapped_cache"
proof -
  have "mem_reach unary_api (\<lambda>_. plain_recurrent) (mem_init unary_config 100 None)"
    by (rule mr_init) (simp_all add: check_config_def unary_config_def)
  then show ?thesis unfolding wrapped_cache_def
    by (rule mr_commit) (simp_all add: plain_recurrent_def mem_init_def make_entry_def
      shared_state_arrays_def estimate_kv_cache_memory_def checkpoint_bytes_def collect_checkpoints_def unary_wrapper_def
      layer_memory_def unary_api_def Let_def)
qed

lemma passed_through_reused_whole_witness:
  "fst (mem_fetch unary_api same_codec [7, 7, 5] wrapped_cache) = Inr (Some [unary_wrapper 3], [5])"
proof -
  have e: "entries wrapped_cache = [([7, 7, 7], make_entry unary_api [7, 7, 7] [unary_wrapper 3] False)]" by code_simp
  then have keys: "\<forall>k\<in>set (entry_keys wrapped_cache). \<not> prefix k [7, 7, 5] \<and> \<not> prefix [7, 7, 5] k" by (simp add: entry_keys_def)
  have l: "lcp_candidate [7, 7, 5] wrapped_cache = (Some [7, 7, 7], 2)" by code_simp
  have at: "entry_at [7, 7, 7] wrapped_cache = Some (make_entry unary_api [7, 7, 7] [unary_wrapper 3] False)"
    by (simp add: entry_at_def e)
  have c: "e_cache (make_entry unary_api [7, 7, 7] [unary_wrapper 3] False) = [unary_wrapper 3]" by (simp add: make_entry_def Let_def split_def)
  have "\<forall>layer\<in>set (e_cache (make_entry unary_api [7, 7, 7] [unary_wrapper 3] False)). \<not> rewinds layer \<and> \<not> layer_forbids_trim unary_api layer"
    unfolding c by code_simp
  from passed_through_reused_whole [OF wrapped_reach unary_accounting _ _ keys l at this, of same_codec] show ?thesis
    unfolding c by (simp add: decompress_cache_def same_codec_def)
qed

section \<open>Store\<close>

text \<open>
  C7. Storing a new key whose entry fits the limit always succeeds. With \<open>evict_prefixes\<close> the entries whose keys
  are strict prefixes of it go; then the oldest entries go one after the other for as long as the rest and the new
  entry exceed the memory limit or the bound on entries, until they exceed neither and no further; the new entry comes last; and if it is a hybrid one, the
  oldest hybrid entries over their own bound go too. No other entry changes, and the order stays.
\<close>

theorem store_evicts_least:
  assumes r: "mem_reach api P c" and a: "accounting_laws api" and P: "\<forall>t cs. P t cs \<longrightarrow> plain_recurrent cs"
    and t: "t \<noteq> []" and cs: "plain_recurrent cs" and new: "entry_at t c = None"
    and e: "e = make_entry api t cs b" and fits: "memory_bytes e \<le> max_memory c"
    and s: "store_commit evict b e c = (res, c')"
  shows "res \<and> (\<exists>n\<le>length (survivors evict t c). (\<forall>m<n. too_much (array_memory api) c e (drop m (survivors evict t c))) \<and>
    \<not> too_much (array_memory api) c e (drop n (survivors evict t c)) \<and>
    (let es = drop n (survivors evict t c) @ [(t, stored_entry b e c)]
     in entries c' = (if non_trimmable e
          then skip_hybrids (length (filter is_hybrid es) - nat (hybrid_reuse_max_entries (mem_config c))) es else es)))"
proof -
  have c: "mem_ok (array_memory api) c" using reach_ok [OF r a] P by blast
  have nb: "0 \<le> array_memory api x" for x using a by (simp add: accounting_laws_def)
  have eo: "entry_ok (array_memory api) e" "\<not> protected e" "e_tokens e = t" using make_entry_ok [OF a cs t, of b] e by simp_all
  show ?thesis using commit_spec [OF c eo(1) nb fits eo(2) _ s] new unfolding eo(3) by blast
qed

lemma unary_fits: "memory_bytes (make_entry unary_api t [unary_layer n] b) = 16"
  by (simp add: make_entry_def estimate_kv_cache_memory_def checkpoint_bytes_def collect_checkpoints_def unary_layer_def
      unary_class_def layer_memory_def unary_api_def Let_def split_def)

lemma unary_plain: "plain_recurrent [unary_layer n]"
  by (simp add: plain_recurrent_def unary_layer_def unary_class_def)

lemma unary_limits: "entry_keys (unary_cache None) = [[7, 7, 7]] \<and> max_memory (unary_cache None) = 100"
  by code_simp

lemma unary_new: "t \<noteq> [7, 7, 7] \<Longrightarrow> entry_at t (unary_cache None) = None"
  using entry_at_keys [of t "unary_cache None"] unary_limits by (cases "entry_at t (unary_cache None)") auto

lemma store_evicts_least_witness:
  "fst (store_commit True False (make_entry unary_api [7, 7, 7, 7] [unary_layer 4] False) (unary_cache None)) \<and>
   entry_keys (snd (store_commit True False (make_entry unary_api [7, 7, 7, 7] [unary_layer 4] False) (unary_cache None))) = [[7, 7, 7, 7]]"
proof
  have "entry_at [7, 7, 7, 7] (unary_cache None) = None" by (rule unary_new) simp
  from store_evicts_least [OF unary_reach unary_accounting _ _ unary_plain this refl _ prod.collapse [symmetric], of 4 False]
  show "fst (store_commit True False (make_entry unary_api [7, 7, 7, 7] [unary_layer 4] False) (unary_cache None))"
    using unary_limits by (simp add: storable_def unary_fits)
  show "entry_keys (snd (store_commit True False (make_entry unary_api [7, 7, 7, 7] [unary_layer 4] False) (unary_cache None))) = [[7, 7, 7, 7]]"
    by code_simp
qed

text \<open>
  What was stored is found: a cache that can be trimmed and fits the limit is returned for its own key as it was
  compressed for storage and decompressed again, with no token left.
\<close>

theorem stored_cache_is_found:
  assumes r: "mem_reach api P c" and a: "accounting_laws api" and P: "\<forall>t cs. P t cs \<longrightarrow> plain_recurrent cs"
    and t: "t \<noteq> []" and cs: "cs \<noteq> []" and new: "entry_at t c = None"
    and kept: "kept = compress_for_storage api cd (mem_config c) t cs" and plain: "plain_recurrent kept"
    and trims: "\<not> cache_has_non_trimmable api cs" "\<not> cache_has_non_trimmable api kept"
    and fits: "estimate_kv_cache_memory api kept \<le> max_memory c"
  shows "case mem_store api cd t cs evict b c of (res, c') \<Rightarrow>
    res \<and> fst (mem_fetch api cd t c') = Inr (Some (decompress_cache cd c kept), [])"
proof -
  define e where "e = make_entry api t kept b"
  obtain res c' where s: "store_commit evict b e c = (res, c')" by (cases "store_commit evict b e c")
  have c: "mem_ok (array_memory api) c" using reach_ok [OF r a] P by blast
  have nb: "0 \<le> array_memory api x" for x using a by (simp add: accounting_laws_def)
  have eo: "entry_ok (array_memory api) e" "\<not> protected e" "e_tokens e = t" "e_cache e = kept"
    using make_entry_ok [OF a plain t, of b] by (simp_all add: e_def)
  have en: "\<not> non_trimmable e" "memory_bytes e = estimate_kv_cache_memory api kept"
    using trims(2) by (simp_all add: e_def make_entry_def Let_def split_def)
  have st: "mem_store api cd t cs evict b c = (res, c')"
    using t cs new trims(1) fits s en(2) by (simp add: mem_store_def store_lookup_def kept [symmetric] e_def [symmetric] not_less)
  note sp = commit_spec [OF c eo(1) nb _ eo(2) _ s, unfolded eo(3) en(2), OF fits new]
  then obtain n where es: "entries c' = drop n (survivors evict t c) @ [(t, stored_entry b e c)]" using en(1) by (auto simp: Let_def)
  have ok: "res" "core_ok (array_memory api) c'" using sp by (simp_all add: mem_ok_def)
  have "entry_at t c' = Some (stored_entry b e c)"
    using entry_at_iff [of "array_memory api" c' t "stored_entry b e c"] ok(2) by (simp add: core_ok_def es)
  moreover have "mem_config c' = mem_config c"
  proof -
    define c1 where "c1 = make_room e (if evict \<and> sorted_keys c \<noteq> [] then evict_prefixes (e_tokens e) c else c)"
    have "shrinks c c1" using commit_room [OF c eo(1) nb, of evict] fits en(2) by (simp add: c1_def)
    moreover have "c' = insert_entry b e c1" using s new en(1) by (auto simp: store_commit_def eo(3) c1_def)
    ultimately show ?thesis by (simp add: insert_entry_simps shrinks_def)
  qed
  moreover have "\<not> non_trimmable (stored_entry b e c)" "e_cache (stored_entry b e c) = kept"
    using en(1) eo(4) by (simp_all add: stored_entry_def)
  ultimately show ?thesis using t ok(1) by (simp add: st mem_fetch_def fetch_locked_def decompress_cache_def)
qed

lemma stored_cache_is_found_witness:
  "fst (mem_fetch unary_api same_codec [7, 7] (snd (mem_store unary_api same_codec [7, 7] [unary_layer 2] True False (unary_cache None)))) =
     Inr (Some [unary_layer 2], [])"
proof -
  have new: "entry_at [7, 7] (unary_cache None) = None" by (rule unary_new) simp
  have kept: "[unary_layer 2] = compress_for_storage unary_api same_codec (mem_config (unary_cache None)) [7, 7] [unary_layer 2]" by code_simp
  have trims: "\<not> cache_has_non_trimmable unary_api [unary_layer 2]" by code_simp
  have fits: "estimate_kv_cache_memory unary_api [unary_layer 2] \<le> max_memory (unary_cache None)" by code_simp
  have d: "decompress_cache same_codec (unary_cache None) [unary_layer 2] = [unary_layer 2]" by (simp add: decompress_cache_def same_codec_def)
  from stored_cache_is_found [OF unary_reach unary_accounting _ _ _ new kept unary_plain trims trims fits, of True False] show ?thesis
    unfolding d by (auto simp: storable_def)
qed

text \<open>
  \<open>shared_prefix_length\<close>, which bisects on slices against two neighbours only, is the longest prefix that the query
  shares with any stored key.
\<close>

theorem shared_prefix_is_longest:
  assumes r: "mem_reach api P c" and a: "accounting_laws api" and P: "\<forall>t cs. P t cs \<longrightarrow> plain_recurrent cs"
  shows "shared_prefix_length t c = Max (insert 0 ((\<lambda>k. common_prefix k t) ` set (entry_keys c)))"
proof -
  have co: "core_ok (array_memory api) c" using reach_ok [OF r a] P unfolding mem_ok_def by blast
  then have ix: "sorted_wrt (<) (sorted_keys c)" "set (sorted_keys c) = set (entry_keys c)" by (simp_all add: core_ok_def index_ok_def)
  note b = shared_prefix_length_best [OF ix(1), of t, unfolded ix(2)]
  have "shared_prefix_length t c \<in> insert 0 ((\<lambda>k. common_prefix k t) ` set (entry_keys c))" using b by auto
  moreover have "\<And>n. n \<in> insert 0 ((\<lambda>k. common_prefix k t) ` set (entry_keys c)) \<Longrightarrow> n \<le> shared_prefix_length t c" using b by auto
  ultimately show ?thesis by (intro Max_eqI [symmetric]) simp_all
qed

lemma shared_prefix_is_longest_witness: "shared_prefix_length [7, 7, 5] (unary_cache None) = 2"
proof -
  have "shared_prefix_length [7, 7, 5] (unary_cache None) =
      Max (insert 0 ((\<lambda>k. common_prefix k [7, 7, 5]) ` set (entry_keys (unary_cache None))))"
    by (rule shared_prefix_is_longest [OF unary_reach unary_accounting]) (simp_all add: storable_def)
  also have "\<dots> = 2" using unary_limits by simp
  finally show ?thesis .
qed

end
