(* ===== verification/TokensBin.thy ===== *)
theory TokensBin
  imports Prelude "HOL-Library.Word"
begin

text \<open>
  \<^bold>\<open>tokens.bin, rapid_mlx/memory_cache.py.\<close> The file next to a persisted cache entry that holds its tokens: magic, token
  count, length of the save's uuid, the uuid, and the tokens as 32-bit little-endian integers. A file's contents are bytes;
  a \<open>read(n)\<close> at an offset takes what is there, up to \<open>n\<close>. The refusals are values, one per message of the code.
\<close>

section \<open>Integers on disk\<close>

definition le4 :: "nat \<Rightarrow> bytes" where
  "le4 n = [char_of (n mod 256), char_of (n div 256 mod 256), char_of (n div 65536 mod 256),
            char_of (n div 16777216 mod 256)]"

fun from_le4 :: "bytes \<Rightarrow> nat" where
  "from_le4 [a, b, c, d] = of_char a + 256 * of_char b + 65536 * of_char c + 16777216 * of_char d"
| "from_le4 _ = 0"

text \<open>\<open>struct.pack("<I", n)\<close> and \<open>"<i"\<close>; unpacking a signed integer reads the word's sign bit.\<close>

definition pack_u32 :: "int \<Rightarrow> py_error + bytes" where
  "pack_u32 n = (if n < 0 \<or> 2 ^ 32 \<le> n then Inl StructError else Inr (le4 (nat n)))"

definition pack_i32 :: "int \<Rightarrow> py_error + bytes" where
  "pack_i32 t = (if t < - (2 ^ 31) \<or> 2 ^ 31 \<le> t then Inl StructError else Inr (le4 (unat (word_of_int t :: 32 word))))"

definition unpack_i32 :: "bytes \<Rightarrow> int" where
  "unpack_i32 bs = sint (word_of_nat (from_le4 bs) :: 32 word)"

fun pack_tokens :: "int list \<Rightarrow> py_error + bytes" where
  "pack_tokens [] = Inr []"
| "pack_tokens (t # ts) = (case pack_i32 t of Inl e \<Rightarrow> Inl e
     | Inr b \<Rightarrow> (case pack_tokens ts of Inl e \<Rightarrow> Inl e | Inr bs \<Rightarrow> Inr (b @ bs)))"

primrec unpack_tokens :: "nat \<Rightarrow> bytes \<Rightarrow> int list" where
  "unpack_tokens 0 bs = []"
| "unpack_tokens (Suc n) bs = unpack_i32 (take 4 bs) # unpack_tokens n (drop 4 bs)"

section \<open>Writing\<close>

definition TOKENS_MAGIC :: bytes where
  "TOKENS_MAGIC = ''RMTKBIN1''"

definition TOKENS_HEADER_FIXED_LEN :: nat where
  "TOKENS_HEADER_FIXED_LEN = 16"

definition is_ascii :: "string \<Rightarrow> bool" where
  "is_ascii s \<longleftrightarrow> list_all (\<lambda>c. (of_char c :: nat) < 128) s"

definition write_tokens_bin_v3 :: "int list \<Rightarrow> string \<Rightarrow> py_error + bytes" where
  "write_tokens_bin_v3 tokens save_uuid =
     (if \<not> is_ascii save_uuid then Inl ValueError
      else if 64 < length save_uuid then Inl ValueError
      else case pack_u32 (int (length tokens)) of Inl e \<Rightarrow> Inl e
        | Inr count \<Rightarrow> (case pack_u32 (int (length save_uuid)) of Inl e \<Rightarrow> Inl e
          | Inr ulen \<Rightarrow> (case pack_tokens tokens of Inl e \<Rightarrow> Inl e
            | Inr payload \<Rightarrow> Inr (TOKENS_MAGIC @ count @ ulen @ save_uuid @ payload))))"

section \<open>Reading\<close>

datatype tokens_reject =
    Open_failed
  | Shorter_than_magic
  | Truncated_prefix
  | Missing_magic
  | Legacy_size_mismatch
  | Uuid_too_long
  | Count_mismatch
  | Uuid_short_read
  | Uuid_mismatch
  | Payload_short_read
  | Trailing_bytes

text \<open>\<open>bytes.decode("ascii", errors="replace")\<close>: a byte from 128 on becomes U+FFFD.\<close>

definition ascii_replace :: "bytes \<Rightarrow> string" where
  "ascii_replace bs = concat (map (\<lambda>c. if (of_char c :: nat) < 128 then [c] else [CHR 0xEF, CHR 0xBF, CHR 0xBD]) bs)"

definition peek_tokens_bin_header :: "bytes option \<Rightarrow> tokens_reject + (nat \<times> string)" where
  "peek_tokens_bin_header file =
     (case file of None \<Rightarrow> Inl Open_failed
      | Some bs \<Rightarrow>
          let head = take 16 bs
          in if length head < TOKENS_HEADER_FIXED_LEN then Inl Truncated_prefix
             else if take 8 head \<noteq> TOKENS_MAGIC then Inl Missing_magic
             else let count = from_le4 (Prelude.slice head 8 12); ulen = from_le4 (Prelude.slice head 12 16)
               in if 64 < ulen then Inl Uuid_too_long
                  else let uuid = take ulen (drop 16 bs)
                    in if length uuid \<noteq> ulen then Inl Uuid_short_read
                       else Inr (count, ascii_replace uuid))"

text \<open>The layout without magic: nothing but the tokens.\<close>

definition read_legacy :: "bytes \<Rightarrow> nat \<Rightarrow> tokens_reject + int list" where
  "read_legacy bs n = (if length bs \<noteq> n * 4 then Inl Legacy_size_mismatch else Inr (unpack_tokens n bs))"

definition read_tokens_bin :: "bytes \<Rightarrow> nat \<Rightarrow> string option \<Rightarrow> tokens_reject + int list" where
  "read_tokens_bin bs expected_num expected_uuid =
     (let head = take 16 bs
      in if length head < length TOKENS_MAGIC then Inl Shorter_than_magic
         else if take 8 head \<noteq> TOKENS_MAGIC
         then (if expected_uuid \<noteq> None then Inl Missing_magic else read_legacy bs expected_num)
         else if length head < TOKENS_HEADER_FIXED_LEN then Inl Truncated_prefix
         else let count = from_le4 (Prelude.slice head 8 12); ulen = from_le4 (Prelude.slice head 12 16)
           in if 64 < ulen then Inl Uuid_too_long
              else if count \<noteq> expected_num then Inl Count_mismatch
              else let uuid = take ulen (drop 16 bs)
                in if length uuid \<noteq> ulen then Inl Uuid_short_read
                   else if expected_uuid \<noteq> None \<and> expected_uuid \<noteq> Some (ascii_replace uuid) then Inl Uuid_mismatch
                   else let payload = take (count * 4) (drop (16 + ulen) bs)
                     in if length payload \<noteq> count * 4 then Inl Payload_short_read
                        else if drop (16 + ulen + count * 4) bs \<noteq> [] then Inl Trailing_bytes
                        else Inr (unpack_tokens count payload))"

section \<open>The encodings are inverse\<close>

lemma le4_length [simp]: "length (le4 n) = 4"
  by (simp add: le4_def)

lemma from_le4_le4: "n < 2 ^ 32 \<Longrightarrow> from_le4 (le4 n) = n"
proof -
  assume n: "n < 2 ^ 32"
  then have "n div 16777216 mod 256 = n div 16777216" by (simp add: less_mult_imp_div_less)
  then show ?thesis using base_256 [of n] by (simp add: le4_def algebra_simps)
qed

lemma le4_from_le4:
  assumes "length bs = 4"
  shows "le4 (from_le4 bs) = bs" "from_le4 bs < 2 ^ 32"
proof -
  obtain a b c d where bs: "bs = [a, b, c, d]"
    using assms by (auto simp: eval_nat_numeral length_Suc_conv)
  define x y z w where v: "x = (of_char a :: nat)" "y = (of_char b :: nat)" "z = (of_char c :: nat)" "w = (of_char d :: nat)"
  have lt: "x < 256" "y < 256" "z < 256" "w < 256" unfolding v by simp_all
  let ?n = "x + 256 * y + 65536 * z + 16777216 * w"
  have n: "?n = x + 256 * (y + 256 * (z + 256 * w))" by simp
  have m: "?n mod 256 = x" "?n div 256 = y + 256 * (z + 256 * w)"
    unfolding n using lt by (simp_all only: mod_mult_self2 mod_less div_mult_self2)
  have m2: "?n div 65536 = z + 256 * w"
  proof -
    have "?n div 65536 = ?n div 256 div 256" by (simp add: div_mult2_eq [symmetric])
    then show ?thesis using lt by (simp add: m)
  qed
  have m3: "?n div 16777216 = w"
  proof -
    have "?n div 16777216 = ?n div 65536 div 256" by (simp add: div_mult2_eq [symmetric])
    then show ?thesis using lt by (simp add: m2)
  qed
  have m4: "(y + 256 * (z + 256 * w)) mod 256 = y" "(z + 256 * w) mod 256 = z" "w mod 256 = w"
    using lt by (simp_all only: mod_mult_self2 mod_less)
  have "le4 ?n = [char_of x, char_of y, char_of z, char_of w]"
    by (simp only: le4_def m m2 m3 m4)
  then show "le4 (from_le4 bs) = bs" by (simp add: bs v)
  show "from_le4 bs < 2 ^ 32" using lt by (simp add: bs flip: v)
qed

lemma unpack_pack:
  assumes "pack_i32 t = Inr bs"
  shows "length bs = 4" "unpack_i32 bs = t"
proof -
  have t: "- (2 ^ 31) \<le> t" "t < 2 ^ 31" and bs: "bs = le4 (unat (word_of_int t :: 32 word))"
    using assms by (auto simp: pack_i32_def split: if_splits)
  show "length bs = 4" by (simp add: bs)
  have "unat (word_of_int t :: 32 word) < 2 ^ 32" using unsigned_less [of "word_of_int t :: 32 word"] by simp
  then have "unpack_i32 bs = sint (word_of_int t :: 32 word)" by (simp add: unpack_i32_def bs from_le4_le4)
  also have "\<dots> = t" using t by (simp add: signed_of_int signed_take_bit_int_eq_self)
  finally show "unpack_i32 bs = t" .
qed

lemma pack_unpack:
  assumes "length bs = 4"
  shows "pack_i32 (unpack_i32 bs) = Inr bs"
proof -
  let ?w = "word_of_nat (from_le4 bs) :: 32 word"
  have "- (2 ^ 31) \<le> sint ?w" "sint ?w < 2 ^ 31" using sint_range_size [of ?w] by (simp_all add: word_size)
  moreover have "unat ?w = from_le4 bs"
    using le4_from_le4(2) [OF assms] by (simp add: unat_of_nat)
  ultimately show ?thesis using le4_from_le4(1) [OF assms] by (simp add: pack_i32_def unpack_i32_def)
qed

lemma unpack_pack_tokens:
  "pack_tokens ts = Inr bs \<Longrightarrow> length bs = 4 * length ts \<and> unpack_tokens (length ts) bs = ts"
proof (induction ts arbitrary: bs)
  case (Cons t ts)
  then show ?case using unpack_pack [of t] by (fastforce split: sum.splits)
qed simp

lemma pack_unpack_tokens:
  "length bs = n * 4 \<Longrightarrow> pack_tokens (unpack_tokens n bs) = Inr bs \<and> length (unpack_tokens n bs) = n"
proof (induction n arbitrary: bs)
  case (Suc n)
  then have "pack_tokens (unpack_tokens n (drop 4 bs)) = Inr (drop 4 bs)" "length (take 4 bs) = 4"
    "length (unpack_tokens n (drop 4 bs)) = n"
    by (auto intro!: Suc.IH [THEN conjunct1] Suc.IH [THEN conjunct2])
  then show ?case using pack_unpack [of "take 4 bs"] by simp
qed simp

lemma ascii_replace_ascii: "is_ascii s \<Longrightarrow> ascii_replace s = s"
  by (induction s) (auto simp: is_ascii_def ascii_replace_def)

lemma ascii_replace_inv:
  assumes "is_ascii (ascii_replace bs)"
  shows "is_ascii bs"
  using assms by (induction bs) (auto simp: is_ascii_def ascii_replace_def split: if_splits)

section \<open>The reader accepts exactly what the writer writes\<close>

lemma written_parts:
  assumes "write_tokens_bin_v3 ts u = Inr bs"
  obtains payload where "bs = TOKENS_MAGIC @ le4 (length ts) @ le4 (length u) @ u @ payload" "pack_tokens ts = Inr payload"
    "length ts < 2 ^ 32" "length u \<le> 64" "is_ascii u"
  using assms by (auto simp: write_tokens_bin_v3_def pack_u32_def split: if_splits sum.splits)

lemma magic_length [simp]: "length TOKENS_MAGIC = 8"
  by (simp add: TOKENS_MAGIC_def)

lemma header_parts:
  assumes "bs = TOKENS_MAGIC @ le4 c @ le4 l @ rest"
  shows "take 8 bs = TOKENS_MAGIC" "Prelude.slice (take 16 bs) 8 12 = le4 c" "Prelude.slice (take 16 bs) 12 16 = le4 l"
    "drop 16 bs = rest" "16 \<le> length bs"
  using assms by (simp_all add: Prelude.slice_def take_drop)

lemma split_header:
  assumes "16 \<le> length bs" "take 8 bs = TOKENS_MAGIC"
  shows "bs = TOKENS_MAGIC @ Prelude.slice (take 16 bs) 8 12 @ Prelude.slice (take 16 bs) 12 16 @ drop 16 bs"
    "length (Prelude.slice (take 16 bs) 8 12) = 4" "length (Prelude.slice (take 16 bs) 12 16) = 4"
proof -
  have "take 16 bs = take 8 bs @ take 4 (drop 8 bs) @ take 4 (drop 12 bs)"
    using take_add [of 8 4 bs] take_add [of "12" 4 bs] by simp
  moreover have "Prelude.slice (take 16 bs) 8 12 = take 4 (drop 8 bs)" "Prelude.slice (take 16 bs) 12 16 = take 4 (drop 12 bs)"
    by (simp_all add: Prelude.slice_def drop_take)
  ultimately show "bs = TOKENS_MAGIC @ Prelude.slice (take 16 bs) 8 12 @ Prelude.slice (take 16 bs) 12 16 @ drop 16 bs"
    using assms(2) append_take_drop_id [of 16 bs] by simp
  show "length (Prelude.slice (take 16 bs) 8 12) = 4" "length (Prelude.slice (take 16 bs) 12 16) = 4"
    using assms(1) by simp_all
qed

lemma read_written:
  assumes "write_tokens_bin_v3 ts u = Inr bs"
  shows "read_tokens_bin bs (length ts) (Some u) = Inr ts" "peek_tokens_bin_header (Some bs) = Inr (length ts, u)"
proof -
  obtain payload where p: "bs = TOKENS_MAGIC @ le4 (length ts) @ le4 (length u) @ u @ payload"
    "pack_tokens ts = Inr payload" "length ts < 2 ^ 32" "length u \<le> 64" "is_ascii u"
    by (rule written_parts [OF assms])
  note h = header_parts [OF p(1)]
  have l: "length payload = 4 * length ts" "unpack_tokens (length ts) payload = ts"
    using unpack_pack_tokens [OF p(2)] by simp_all
  have "length u < 2 ^ 32" using p(4) by simp
  then have e: "from_le4 (le4 (length ts)) = length ts" "from_le4 (le4 (length u)) = length u"
    using p(3) by (simp_all add: from_le4_le4)
  have d: "drop (16 + length u) bs = payload" "drop (16 + length u + length ts * 4) bs = []"
    using l(1) by (simp_all add: p(1))
  show "read_tokens_bin bs (length ts) (Some u) = Inr ts"
    using h d l e p(4,5) by (simp add: read_tokens_bin_def TOKENS_HEADER_FIXED_LEN_def TOKENS_MAGIC_def min_absorb2
        ascii_replace_ascii Let_def)
  show "peek_tokens_bin_header (Some bs) = Inr (length ts, u)"
    using h e p(4,5) by (simp add: peek_tokens_bin_header_def TOKENS_HEADER_FIXED_LEN_def TOKENS_MAGIC_def min_absorb2
        ascii_replace_ascii Let_def)
qed

lemma else_Inr: "(if c then Inl e else x) = Inr y \<longleftrightarrow> \<not> c \<and> x = Inr y"
  by simp

lemma accepted_parts:
  assumes "read_tokens_bin bs n (Some u) = Inr ts"
  defines "count \<equiv> from_le4 (Prelude.slice (take 16 bs) 8 12)" and "ulen \<equiv> from_le4 (Prelude.slice (take 16 bs) 12 16)"
  shows "16 \<le> length bs" "take 8 bs = TOKENS_MAGIC" "ulen \<le> 64" "count = n" "length (take ulen (drop 16 bs)) = ulen"
    "u = ascii_replace (take ulen (drop 16 bs))" "length (take (n * 4) (drop (16 + ulen) bs)) = n * 4"
    "drop (16 + ulen + n * 4) bs = []" "ts = unpack_tokens n (take (n * 4) (drop (16 + ulen) bs))"
proof -
  have "\<not> length (take 16 bs) < 16 \<and> take 8 (take 16 bs) = TOKENS_MAGIC \<and> \<not> 64 < ulen \<and> count = n
    \<and> length (take ulen (drop 16 bs)) = ulen \<and> Some u = Some (ascii_replace (take ulen (drop 16 bs)))
    \<and> length (take (count * 4) (drop (16 + ulen) bs)) = count * 4 \<and> drop (16 + ulen + count * 4) bs = []
    \<and> unpack_tokens count (take (count * 4) (drop (16 + ulen) bs)) = ts"
    using assms(1) unfolding read_tokens_bin_def Let_def TOKENS_HEADER_FIXED_LEN_def count_def [symmetric] ulen_def [symmetric]
    by (simp only: else_Inr option.distinct not_False_eq_True if_True simp_thms sum.inject split: if_split_asm) blast?
  then have c: "\<not> length (take 16 bs) < 16" "take 8 (take 16 bs) = TOKENS_MAGIC" "\<not> 64 < ulen" "count = n"
    "length (take ulen (drop 16 bs)) = ulen" "Some u = Some (ascii_replace (take ulen (drop 16 bs)))"
    "length (take (n * 4) (drop (16 + ulen) bs)) = n * 4" "drop (16 + ulen + n * 4) bs = []"
    "unpack_tokens n (take (n * 4) (drop (16 + ulen) bs)) = ts" by blast+
  then show "16 \<le> length bs" "take 8 bs = TOKENS_MAGIC" "ulen \<le> 64" "count = n" "length (take ulen (drop 16 bs)) = ulen"
    "u = ascii_replace (take ulen (drop 16 bs))" "length (take (n * 4) (drop (16 + ulen) bs)) = n * 4"
    "drop (16 + ulen + n * 4) bs = []" "ts = unpack_tokens n (take (n * 4) (drop (16 + ulen) bs))"
    by (simp_all only: option.inject) simp_all
qed

lemma accepted_written:
  assumes acc: "read_tokens_bin bs n (Some u) = Inr ts" and u: "is_ascii u"
  shows "write_tokens_bin_v3 ts u = Inr bs" "n = length ts"
proof -
  let ?c = "Prelude.slice (take 16 bs) 8 12" and ?l = "Prelude.slice (take 16 bs) 12 16"
  let ?uuid = "take (from_le4 ?l) (drop 16 bs)"
  let ?payload = "take (n * 4) (drop (16 + from_le4 ?l) bs)"
  note a = accepted_parts [OF acc]
  note h = split_header [OF a(1,2)]
  have c: "le4 n = ?c" using le4_from_le4(1) [OF h(2)] unfolding a(4) .
  have n: "n < 2 ^ 32" using le4_from_le4(2) [OF h(2)] unfolding a(4) .
  have "is_ascii ?uuid" using u unfolding a(6) by (rule ascii_replace_inv)
  then have uu: "?uuid = u" unfolding a(6) by (simp only: ascii_replace_ascii)
  have ul: "length u = from_le4 ?l" using a(5) uu by simp
  have "drop (16 + from_le4 ?l) bs = ?payload"
    using a(8) append_take_drop_id [of "n * 4" "drop (16 + from_le4 ?l) bs"] by (simp add: add.commute)
  then have rest: "drop 16 bs = u @ ?payload"
    using append_take_drop_id [of "from_le4 ?l" "drop 16 bs"] uu by (simp add: add.commute)
  have p: "pack_tokens ts = Inr ?payload" "length ts = n"
    using pack_unpack_tokens [OF a(7)] a(9) by simp_all
  show "n = length ts" using p(2) by simp
  have bs: "bs = TOKENS_MAGIC @ le4 n @ le4 (length u) @ u @ ?payload"
    unfolding c ul le4_from_le4(1) [OF h(3)] rest [symmetric] by (rule h(1))
  have "length u \<le> 64" using ul a(3) by simp
  then show "write_tokens_bin_v3 ts u = Inr bs"
    using u p n by (subst bs) (simp add: write_tokens_bin_v3_def pack_u32_def)
qed

text \<open>
  C24. The reader of a v3 tokens.bin accepts a file for a given count and uuid if and only if the writer would write
  exactly these bytes for the tokens it returns: truncated, extended, re-counted, foreign and re-encoded files are all
  refused, and what was written is read back.
\<close>
theorem tokens_bin_exact:
  assumes "is_ascii u"
  shows "read_tokens_bin bs n (Some u) = Inr ts \<longleftrightarrow> write_tokens_bin_v3 ts u = Inr bs \<and> n = length ts"
  using read_written(1) accepted_written [OF _ assms] by blast

theorem tokens_bin_exact_witness:
  "read_tokens_bin (TOKENS_MAGIC @ le4 2 @ le4 2 @ ''ab'' @ le4 7 @ le4 4294967295) 2 (Some ''ab'') = Inr [7, -1]"
proof -
  have "is_ascii ''ab''" by (simp add: is_ascii_def)
  moreover have "write_tokens_bin_v3 [7, -1] ''ab'' = Inr (TOKENS_MAGIC @ le4 2 @ le4 2 @ ''ab'' @ le4 7 @ le4 4294967295)"
    by (simp add: write_tokens_bin_v3_def pack_u32_def pack_i32_def is_ascii_def unsigned_minus_1_eq_mask mask_eq_exp_minus_1)
  ultimately show ?thesis by (simp add: tokens_bin_exact)
qed

text \<open>
  A legacy file, the bare tokens, is read back unless it has fewer than two tokens: the check for the magic comes
  first and refuses every file of less than eight bytes, the well-formed one of a single token too.
\<close>
theorem legacy_single_token_refused:
  assumes "pack_tokens ts = Inr bs" "take 8 bs \<noteq> TOKENS_MAGIC"
  shows "read_tokens_bin bs (length ts) None = (if length ts < 2 then Inl Shorter_than_magic else Inr ts)"
proof -
  have "length bs = 4 * length ts" "unpack_tokens (length ts) bs = ts"
    using unpack_pack_tokens [OF assms(1)] by simp_all
  then show ?thesis using assms(2)
    by (auto simp: read_tokens_bin_def read_legacy_def TOKENS_MAGIC_def min_def Let_def)
qed

theorem legacy_single_token_refused_witness:
  "read_tokens_bin (le4 7) 1 None = Inl Shorter_than_magic"
proof -
  have "pack_tokens [7] = Inr (le4 7)" by (simp add: pack_i32_def)
  moreover have "take 8 (le4 7) \<noteq> TOKENS_MAGIC" by (simp add: le4_def TOKENS_MAGIC_def)
  ultimately show ?thesis using legacy_single_token_refused [of "[7]" "le4 7"] by simp
qed

end
