(* ===== verification/OutputRouter.thy ===== *)
theory OutputRouter
  imports Prelude
begin

text \<open>
  \<^bold>\<open>rapid_mlx/output_router.py.\<close> The token-level router that splits a model's output into content, reasoning and
  tool calls. A token map holds the ids of a model family's special tokens, \<open>None\<close> where the vocabulary lacks one; the
  router is a record of its state, and \<open>feed\<close>, \<open>finalize\<close> and \<open>feed_sequence\<close> return the routed events with the next
  router. Text is a list of characters of any type \<open>'c\<close>; decoding token ids and \<open>str.isspace\<close> on one character belong
  to the tokenizer argument. Vocabulary entries are the UTF-8 bytes of their strings.
\<close>

section \<open>Data\<close>

datatype channel = Content | Reasoning | Tool_Call | Control

record 'c event =
  ev_channel :: channel
  ev_token :: int
  ev_text :: "'c list"
  ev_tool_call :: "('c list \<times> 'c list) option"   \<comment> \<open>its name and arguments\<close>

record token_map =
  format_tag :: string
  channel_start :: "int option"
  channel_end :: "int option"
  thought_word :: "int option"
  content_word :: "int option"
  final_word :: "int option"
  turn_start :: "int option"
  turn_end :: "int option"
  tool_call_start :: "int option"
  tool_call_end :: "int option"
  tool_quote :: "int option"
  tool_start :: "int option"
  tool_end :: "int option"
  tool_response_start :: "int option"
  tool_response_end :: "int option"
  think_start :: "int option"
  think_end :: "int option"
  harmony_channel :: "int option"
  harmony_message :: "int option"
  harmony_start :: "int option"
  harmony_end :: "int option"
  harmony_return :: "int option"
  harmony_call :: "int option"
  harmony_constrain :: "int option"
  harmony_analysis_word :: "int option"
  harmony_final_word :: "int option"
  bos :: "int option"
  eos :: "int option"
  pad :: "int option"

definition no_tokens :: token_map where
  "no_tokens = \<lparr>format_tag = [], channel_start = None, channel_end = None, thought_word = None, content_word = None,
     final_word = None, turn_start = None, turn_end = None, tool_call_start = None, tool_call_end = None,
     tool_quote = None, tool_start = None, tool_end = None, tool_response_start = None, tool_response_end = None,
     think_start = None, think_end = None, harmony_channel = None, harmony_message = None, harmony_start = None,
     harmony_end = None, harmony_return = None, harmony_call = None, harmony_constrain = None,
     harmony_analysis_word = None, harmony_final_word = None, bos = None, eos = None, pad = None\<rparr>"

datatype router_state =
    INIT | THINKING | IN_CONTENT | IN_TOOL_CALL | AWAITING_CHANNEL_TYPE | AWAITING_MESSAGE | AFTER_START

record 'c text_codec =
  decode :: "int list \<Rightarrow> 'c list"
  is_space :: "'c \<Rightarrow> bool"

record router =
  rmap :: token_map
  rstate :: router_state
  tool_tokens :: "int list"
  pending_channel_style :: "string option"
  pending_message_channel :: "channel option"
  pending_control_tokens :: "int list"
  pending_init_word :: "(int \<times> router_state) option"
  redo_queue :: "int list"

definition new_router :: "token_map \<Rightarrow> router" where
  "new_router m = \<lparr>rmap = m, rstate = INIT, tool_tokens = [], pending_channel_style = None,
     pending_message_channel = None, pending_control_tokens = [], pending_init_word = None, redo_queue = []\<rparr>"

definition router_reset :: "router \<Rightarrow> router" where
  "router_reset r = r\<lparr>rstate := INIT, tool_tokens := [], pending_channel_style := None,
     pending_message_channel := None, pending_control_tokens := [], pending_init_word := None, redo_queue := []\<rparr>"

abbreviation event_of :: "'c text_codec \<Rightarrow> channel \<Rightarrow> int \<Rightarrow> int list \<Rightarrow> 'c event" where
  "event_of tk ch t ts \<equiv> \<lparr>ev_channel = ch, ev_token = t, ev_text = decode tk ts, ev_tool_call = None\<rparr>"

section \<open>Feeding one token\<close>

text \<open>\<open>text == "" or text.isspace()\<close>\<close>

definition blank :: "'c text_codec \<Rightarrow> 'c list \<Rightarrow> bool" where
  "blank tk s \<longleftrightarrow> list_all (is_space tk) s"

definition drain_pending_init_word :: "'c text_codec \<Rightarrow> int \<Rightarrow> router \<Rightarrow> 'c event option \<times> router" where
  "drain_pending_init_word tk current r =
     (case pending_init_word r of None \<Rightarrow> (None, r)
      | Some (word, target) \<Rightarrow>
          let r = r\<lparr>pending_init_word := None\<rparr>
          in if blank tk (decode tk [current]) then (None, r\<lparr>rstate := target\<rparr>)
             else (Some (event_of tk Content word [word]),
                   r\<lparr>rstate := IN_CONTENT, redo_queue := redo_queue r @ [current]\<rparr>))"

definition forget_pending :: "router \<Rightarrow> router" where
  "forget_pending r =
     r\<lparr>pending_channel_style := None, pending_message_channel := None, pending_control_tokens := []\<rparr>"

text \<open>The word after a channel marker, and the words that are channel markers of their own at the start.\<close>

definition route_channel_word :: "'c text_codec \<Rightarrow> int \<Rightarrow> router \<Rightarrow> 'c event option \<times> router" where
  "route_channel_word tk t r =
     (let m = rmap r in
      if pending_channel_style r = Some ''harmony'' then
        (if Some t = harmony_analysis_word m
         then (None, r\<lparr>pending_message_channel := Some Reasoning, rstate := AWAITING_MESSAGE\<rparr>)
         else if Some t = harmony_final_word m
         then (None, r\<lparr>pending_message_channel := Some Content, rstate := AWAITING_MESSAGE\<rparr>)
         else (Some (event_of tk Content t [t]),
               r\<lparr>rstate := IN_CONTENT, pending_channel_style := None, pending_control_tokens := []\<rparr>))
      else if Some t = thought_word m then (None, r\<lparr>rstate := THINKING\<rparr>)
      else if Some t = content_word m \<or> Some t = final_word m then (None, r\<lparr>rstate := IN_CONTENT\<rparr>)
      else (Some (event_of tk Content t [t]), r\<lparr>rstate := IN_CONTENT, pending_control_tokens := []\<rparr>))"

definition route_message :: "int \<Rightarrow> router \<Rightarrow> router" where
  "route_message t r =
     (if Some t = harmony_message (rmap r)
      then forget_pending
             (r\<lparr>rstate := (if pending_message_channel r = Some Reasoning then THINKING else IN_CONTENT)\<rparr>)
      else r\<lparr>pending_control_tokens := pending_control_tokens r @ [t]\<rparr>)"

definition route_tool_body :: "'c text_codec \<Rightarrow> int \<Rightarrow> router \<Rightarrow> 'c event option \<times> router" where
  "route_tool_body tk t r =
     (if Some t = tool_call_end (rmap r)
      then (Some (event_of tk Tool_Call t (tool_tokens r @ [t])), r\<lparr>rstate := IN_CONTENT, tool_tokens := []\<rparr>)
      else (None, r\<lparr>tool_tokens := tool_tokens r @ [t]\<rparr>))"

definition bare_word :: "token_map \<Rightarrow> int \<Rightarrow> router_state option" where
  "bare_word m t =
     (if Some t = thought_word m then Some THINKING
      else if Some t = content_word m \<or> Some t = final_word m then Some IN_CONTENT
      else None)"

text \<open>\<open>feed\<close> after the lookahead and the redo queue: the cascade of the markers and states.\<close>

definition route_token :: "'c text_codec \<Rightarrow> int \<Rightarrow> router \<Rightarrow> 'c event option \<times> router" where
  "route_token tk t r =
     (let m = rmap r in
      if Some t \<in> {bos m, eos m, pad m} then (None, r)
      else if Some t = turn_start m \<or> Some t = turn_end m then (None, r)
      else if Some t = harmony_channel m
      then (None, (forget_pending r)\<lparr>rstate := AWAITING_CHANNEL_TYPE, pending_channel_style := Some ''harmony''\<rparr>)
      else if Some t = harmony_end m \<or> Some t = harmony_return m then (None, (forget_pending r)\<lparr>rstate := IN_CONTENT\<rparr>)
      else if Some t = harmony_start m then (None, (forget_pending r)\<lparr>rstate := AFTER_START\<rparr>)
      else if Some t \<in> {harmony_call m, harmony_constrain m} then (None, r)
      else if rstate r = AFTER_START
      then (None, if Some t = harmony_message m then r\<lparr>rstate := IN_CONTENT\<rparr> else r)
      else if Some t \<in> {tool_response_start m, tool_response_end m, tool_start m, tool_end m} then (None, r)
      else if Some t = channel_start m
      then (None, r\<lparr>rstate := AWAITING_CHANNEL_TYPE, pending_control_tokens := []\<rparr>)
      else if rstate r = AWAITING_CHANNEL_TYPE then route_channel_word tk t r
      else if rstate r = AWAITING_MESSAGE then (None, route_message t r)
      else if Some t = harmony_message m then (None, r)
      else if Some t = channel_end m
      then (None, if rstate r = THINKING then r\<lparr>rstate := IN_CONTENT\<rparr> else r)
      else if Some t = tool_call_end m \<and> rstate r \<noteq> IN_TOOL_CALL then (None, r)
      else if Some t = tool_call_start m then (None, r\<lparr>rstate := IN_TOOL_CALL, tool_tokens := [t]\<rparr>)
      else if rstate r = IN_TOOL_CALL then route_tool_body tk t r
      else if Some t = think_start m then (None, r\<lparr>rstate := THINKING\<rparr>)
      else if Some t = think_end m then (None, r\<lparr>rstate := IN_CONTENT\<rparr>)
      else case if rstate r = INIT then bare_word m t else None of
          Some target \<Rightarrow> (None, r\<lparr>pending_init_word := Some (t, target)\<rparr>)
        | None \<Rightarrow> (Some (event_of tk (if rstate r = THINKING then Reasoning else Content) t [t]), r))"

definition feed :: "'c text_codec \<Rightarrow> int \<Rightarrow> router \<Rightarrow> 'c event option \<times> router" where
  "feed tk t r =
     (case drain_pending_init_word tk t r of
        (Some e, r) \<Rightarrow> (Some e, r)
      | (None, r) \<Rightarrow>
          (case redo_queue r of
             [] \<Rightarrow> route_token tk t r
           | deferred # rest \<Rightarrow> route_token tk deferred (r\<lparr>redo_queue := rest @ [t]\<rparr>)))"

section \<open>The end of the stream\<close>

definition drain_pending_init_word_at_finalize :: "'c text_codec \<Rightarrow> router \<Rightarrow> 'c event option \<times> router" where
  "drain_pending_init_word_at_finalize tk r =
     (case pending_init_word r of None \<Rightarrow> (None, r)
      | Some (word, _) \<Rightarrow>
          (if decode tk [word] = [] then None else Some (event_of tk Content word [word]),
           r\<lparr>pending_init_word := None\<rparr>))"

definition flush_buffers :: "'c text_codec \<Rightarrow> router \<Rightarrow> 'c event option \<times> router" where
  "flush_buffers tk r =
     (if rstate r = IN_TOOL_CALL \<and> tool_tokens r \<noteq> []
      then (Some (event_of tk Tool_Call (last (tool_tokens r)) (tool_tokens r)),
            r\<lparr>rstate := IN_CONTENT, tool_tokens := []\<rparr>)
      else if rstate r \<in> {AWAITING_CHANNEL_TYPE, AWAITING_MESSAGE} then
        (if pending_control_tokens r \<noteq> []
         then let ts = pending_control_tokens r;
                  ch = (case pending_message_channel r of Some c \<Rightarrow> c | None \<Rightarrow> Content)
              in (if list_all (is_space tk) (decode tk ts) then None else Some (event_of tk ch (last ts) ts),
                  (forget_pending r)\<lparr>rstate := IN_CONTENT\<rparr>)
         else (None, r\<lparr>rstate := IN_CONTENT, pending_channel_style := None, pending_message_channel := None\<rparr>))
      else (None, r))"

definition finalize :: "'c text_codec \<Rightarrow> router \<Rightarrow> 'c event option \<times> router" where
  "finalize tk r =
     (case drain_pending_init_word_at_finalize tk r of
        (Some e, r) \<Rightarrow> (Some e, r)
      | (None, r) \<Rightarrow>
          (case redo_queue r of
             [] \<Rightarrow> flush_buffers tk r
           | deferred # rest \<Rightarrow>
               (case feed tk deferred (r\<lparr>redo_queue := rest\<rparr>) of
                  (Some e, r) \<Rightarrow> (Some e, r)
                | (None, r) \<Rightarrow>
                    (case drain_pending_init_word_at_finalize tk r of
                       (Some e, r) \<Rightarrow> (Some e, r)
                     | (None, r) \<Rightarrow> flush_buffers tk r))))"

section \<open>A whole sequence\<close>

text \<open>What \<open>finalize\<close> can still emit; every event it returns takes one of these off.\<close>

definition buffered :: "router \<Rightarrow> nat" where
  "buffered r = of_bool (pending_init_word r \<noteq> None) + length (redo_queue r)
     + of_bool (rstate r = IN_TOOL_CALL \<and> tool_tokens r \<noteq> [])
     + of_bool (rstate r \<in> {AWAITING_CHANNEL_TYPE, AWAITING_MESSAGE} \<and> pending_control_tokens r \<noteq> [])"

text \<open>The effects of a token, one per branch of the cascade.\<close>

lemma route_token_cases:
  assumes "P (None, r)"
    and "P (None, (forget_pending r)\<lparr>rstate := AWAITING_CHANNEL_TYPE, pending_channel_style := Some ''harmony''\<rparr>)"
    and "P (None, (forget_pending r)\<lparr>rstate := IN_CONTENT\<rparr>)"
    and "P (None, (forget_pending r)\<lparr>rstate := AFTER_START\<rparr>)"
    and "P (None, r\<lparr>rstate := IN_CONTENT\<rparr>)"
    and "P (None, r\<lparr>rstate := AWAITING_CHANNEL_TYPE, pending_control_tokens := []\<rparr>)"
    and "rstate r = AWAITING_CHANNEL_TYPE \<Longrightarrow> P (route_channel_word tk t r)"
    and "rstate r = AWAITING_MESSAGE \<Longrightarrow> P (None, route_message t r)"
    and "P (None, r\<lparr>rstate := IN_TOOL_CALL, tool_tokens := [t]\<rparr>)"
    and "rstate r = IN_TOOL_CALL \<Longrightarrow> P (route_tool_body tk t r)"
    and "P (None, r\<lparr>rstate := THINKING\<rparr>)"
    and "\<And>target. rstate r = INIT \<Longrightarrow> bare_word (rmap r) t = Some target \<Longrightarrow>
           P (None, r\<lparr>pending_init_word := Some (t, target)\<rparr>)"
    and "rstate r \<in> {INIT, THINKING, IN_CONTENT} \<Longrightarrow>
           P (Some (event_of tk (if rstate r = THINKING then Reasoning else Content) t [t]), r)"
  shows "P (route_token tk t r)"
proof -
  have branch: "(c \<Longrightarrow> P x) \<Longrightarrow> (\<not> c \<Longrightarrow> P y) \<Longrightarrow> P (if c then x else y)" for c x y
    by simp
  have inner: "(c \<Longrightarrow> P (None, x)) \<Longrightarrow> (\<not> c \<Longrightarrow> P (None, y)) \<Longrightarrow> P (None, if c then x else y)" for c x y
    by simp
  have lookahead: "(\<And>a. c \<Longrightarrow> x = Some a \<Longrightarrow> P (f a)) \<Longrightarrow> P y \<Longrightarrow>
      P (case if c then x else None of None \<Rightarrow> y | Some a \<Rightarrow> f a)" for c and x :: "router_state option" and f y
    by (cases x) simp_all
  show ?thesis unfolding route_token_def Let_def
    by (intro branch inner lookahead; (rule assms; assumption | rule assms(13); cases "rstate r"; simp))
qed

lemma route_token_events:
  "case route_token tk t r of (eo, r') \<Rightarrow> redo_queue r' = redo_queue r \<and> rmap r' = rmap r \<and>
     (eo \<noteq> None \<longrightarrow> buffered r' \<le> buffered r \<and> rstate r' \<in> {INIT, THINKING, IN_CONTENT}) \<and>
     (rstate r \<noteq> INIT \<longrightarrow> rstate r' \<noteq> INIT) \<and>
     (pending_init_word r' = pending_init_word r \<or>
        eo = None \<and> rstate r = INIT \<and> rstate r' = INIT \<and>
        (\<exists>target. pending_init_word r' = Some (t, target) \<and> target \<in> {THINKING, IN_CONTENT}))"
  by (rule route_token_cases)
    (auto simp: route_channel_word_def route_message_def route_tool_body_def forget_pending_def bare_word_def
       buffered_def Let_def split: if_splits)

lemma route_token_some:
  assumes "route_token tk t r = (Some e, r')"
  shows "buffered r' \<le> buffered r" "redo_queue r' = redo_queue r" "pending_init_word r' = pending_init_word r"
  using route_token_events [where tk = tk and t = t and r = r] assms by auto

lemma route_token_none:
  assumes "route_token tk t r = (None, r')"
  shows "redo_queue r' = redo_queue r"
    "pending_init_word r' = pending_init_word r \<or> rstate r = INIT \<and> rstate r' = INIT \<and>
       (\<exists>target. pending_init_word r' = Some (t, target) \<and> target \<in> {THINKING, IN_CONTENT})"
  using route_token_events [where tk = tk and t = t and r = r] assms by auto

lemma flush_buffers_some:
  assumes "flush_buffers tk r = (Some e, r')"
  shows "buffered r' < buffered r" "redo_queue r' = redo_queue r" "pending_init_word r' = pending_init_word r"
    "rstate r' = IN_CONTENT"
  using assms by (auto simp: flush_buffers_def forget_pending_def buffered_def Let_def split: if_splits)

lemma init_word_at_finalize:
  "drain_pending_init_word_at_finalize tk r = (eo, r') \<Longrightarrow> r' = r\<lparr>pending_init_word := None\<rparr> \<and>
     (eo \<noteq> None \<longrightarrow> pending_init_word r \<noteq> None) \<and> (pending_init_word r = None \<longrightarrow> eo = None)"
  by (cases r) (auto simp: drain_pending_init_word_at_finalize_def split: option.splits prod.splits)

lemma feed_not_pending:
  "pending_init_word r = None \<Longrightarrow> feed tk t r =
     (case redo_queue r of [] \<Rightarrow> route_token tk t r
      | deferred # rest \<Rightarrow> route_token tk deferred (r\<lparr>redo_queue := rest @ [t]\<rparr>))"
  by (simp add: feed_def drain_pending_init_word_def)

lemma feed_deferred:
  assumes "pending_init_word r = None"
  obtains d rest where "feed tk t r = route_token tk d (r\<lparr>redo_queue := rest\<rparr>)" "length rest = length (redo_queue r)"
proof (cases "redo_queue r")
  case Nil
  then have "r\<lparr>redo_queue := []\<rparr> = r" by (cases r) simp
  with Nil assms that [of t "[]"] show ?thesis by (simp add: feed_not_pending)
next
  case (Cons d rest)
  with assms that [of d "rest @ [t]"] show ?thesis by (simp add: feed_not_pending)
qed

lemma finalize_decreases:
  assumes fin: "finalize tk r = (Some e, r')"
  shows "buffered r' < buffered r"
proof -
  obtain eo r1 where d: "drain_pending_init_word_at_finalize tk r = (eo, r1)" by force
  have r1: "r1 = r\<lparr>pending_init_word := None\<rparr>" and eo: "eo \<noteq> None \<Longrightarrow> pending_init_word r \<noteq> None"
    using init_word_at_finalize [OF d] by auto
  have le: "buffered r1 \<le> buffered r" by (simp add: r1 buffered_def)
  show ?thesis
  proof (cases eo)
    case (Some e')
    then have "r' = r1" using fin d by (simp add: finalize_def)
    then show ?thesis using eo Some by (simp add: r1 buffered_def)
  next
    case None
    show ?thesis
    proof (cases "redo_queue r1")
      case Nil
      then have "flush_buffers tk r1 = (Some e, r')" using fin d None by (simp add: finalize_def)
      then show ?thesis using flush_buffers_some(1) le by fastforce
    next
      case (Cons t rest)
      obtain u rest' where f: "feed tk t (r1\<lparr>redo_queue := rest\<rparr>) = route_token tk u (r1\<lparr>redo_queue := rest'\<rparr>)"
        and len: "length rest' = length rest"
        by (rule feed_deferred [of "r1\<lparr>redo_queue := rest\<rparr>" tk t]) (auto simp: r1)
      obtain eo2 r2 where rt: "route_token tk u (r1\<lparr>redo_queue := rest'\<rparr>) = (eo2, r2)" by force
      show ?thesis
      proof (cases eo2)
        case (Some e')
        then have "r' = r2" using fin d None Cons f rt by (simp add: finalize_def)
        moreover have "buffered r2 \<le> buffered (r1\<lparr>redo_queue := rest'\<rparr>)"
          using route_token_some(1) rt Some by blast
        ultimately show ?thesis using le len Cons by (simp add: buffered_def)
      next
        case None': None
        have rq: "redo_queue r2 = rest'" using route_token_none(1) [OF rt [unfolded None']] by simp
        have r2p: "pending_init_word r2 \<noteq> None \<Longrightarrow> rstate r2 = INIT"
          using route_token_none(2) [OF rt [unfolded None']] by (auto simp: r1)
        obtain eo3 r3 where d3: "drain_pending_init_word_at_finalize tk r2 = (eo3, r3)" by force
        have r3: "r3 = r2\<lparr>pending_init_word := None\<rparr>" and eo3: "eo3 \<noteq> None \<Longrightarrow> pending_init_word r2 \<noteq> None"
          using init_word_at_finalize [OF d3] by auto
        show ?thesis
        proof (cases eo3)
          case (Some e')
          then have "r' = r3" using fin d None Cons f rt None' d3 by (simp add: finalize_def)
          then have "buffered r' = length rest'" using r2p eo3 Some rq by (simp add: r3 buffered_def)
          then show ?thesis using le len Cons by (simp add: buffered_def)
        next
          case None'': None
          then have fl: "flush_buffers tk r3 = (Some e, r')"
            using fin d None Cons f rt None' d3 by (simp add: finalize_def)
          have "buffered r' = length rest'"
            using flush_buffers_some(2-4) [OF fl] rq by (simp add: r3 buffered_def)
          then show ?thesis using le len Cons by (simp add: buffered_def)
        qed
      qed
    qed
  qed
qed

text \<open>The loop over \<open>finalize\<close> of \<open>feed_sequence\<close>.\<close>

function drain_all :: "'c text_codec \<Rightarrow> router \<Rightarrow> 'c event list \<times> router" where
  "drain_all tk r =
     (case finalize tk r of
        (None, r') \<Rightarrow> ([], r')
      | (Some e, r') \<Rightarrow> (case drain_all tk r' of (es, r'') \<Rightarrow> (e # es, r'')))"
  by pat_completeness auto
termination
  by (relation "measure (\<lambda>(tk, r). buffered r)") (auto intro: finalize_decreases [OF sym])

declare drain_all.simps [simp del]

fun feed_all :: "'c text_codec \<Rightarrow> int list \<Rightarrow> router \<Rightarrow> 'c event list \<times> router" where
  "feed_all tk [] r = ([], r)"
| "feed_all tk (t # ts) r =
     (case feed tk t r of (eo, r') \<Rightarrow>
        (case feed_all tk ts r' of (es, r'') \<Rightarrow> (case_option [] (\<lambda>e. [e]) eo @ es, r'')))"

definition strip :: "'c text_codec \<Rightarrow> 'c list \<Rightarrow> 'c list" where
  "strip tk s = rev (dropWhile (is_space tk) (rev (dropWhile (is_space tk) s)))"

definition or_none :: "'a list \<Rightarrow> 'a list option" where
  "or_none xs = (if xs = [] then None else Some xs)"

definition channel_text :: "channel \<Rightarrow> 'c event list \<Rightarrow> 'c list" where
  "channel_text ch es = concat (map ev_text (filter (\<lambda>e. ev_channel e = ch) es))"

definition tool_texts :: "'c event list \<Rightarrow> 'c list list" where
  "tool_texts es = map ev_text (filter (\<lambda>e. ev_channel e = Tool_Call) es)"

record 'c routed =
  ro_content :: "'c list option"
  ro_reasoning :: "'c list option"
  ro_tool_calls :: "'c list list option"

definition feed_sequence :: "'c text_codec \<Rightarrow> int list \<Rightarrow> router \<Rightarrow> 'c routed \<times> router" where
  "feed_sequence tk ts r =
     (case feed_all tk ts r of (es, r1) \<Rightarrow>
        (case drain_all tk r1 of (fs, r2) \<Rightarrow>
           (\<lparr>ro_content = or_none (strip tk (channel_text Content (es @ fs))),
             ro_reasoning = or_none (strip tk (channel_text Reasoning (es @ fs))),
             ro_tool_calls = or_none (tool_texts (es @ fs))\<rparr>, r2)))"

section \<open>The formats of the tokenizers\<close>

text \<open>Python's \<open>a or b\<close> on optional ids: the id 0 is falsy.\<close>

definition py_or :: "int option \<Rightarrow> int option \<Rightarrow> int option" where
  "py_or a b = (if a = None \<or> a = Some 0 then b else a)"

definition fullwidth_bar :: string where
  "fullwidth_bar = [CHR 0xEF, CHR 0xBD, CHR 0x9C]"

definition low_block :: string where
  "low_block = [CHR 0xE2, CHR 0x96, CHR 0x81]"

definition deepseek_marker :: "string \<Rightarrow> string" where
  "deepseek_marker edge = ''<'' @ fullwidth_bar @ edge @ low_block @ ''of'' @ low_block @ ''sentence''
     @ fullwidth_bar @ ''>''"

definition gemma4_map :: "(string \<Rightarrow> int option) \<Rightarrow> token_map" where
  "gemma4_map vocab = no_tokens\<lparr>format_tag := ''gemma4'',
     channel_start := vocab ''<|channel>'', channel_end := vocab ''<channel|>'',
     thought_word := vocab ''thought'', content_word := vocab ''content'', final_word := vocab ''final'',
     turn_start := vocab ''<|turn>'', turn_end := vocab ''<turn|>'',
     tool_call_start := vocab ''<|tool_call>'', tool_call_end := vocab ''<tool_call|>'',
     tool_quote := vocab (''<|'' @ [CHR 0x22] @ ''|>''),
     tool_start := vocab ''<|tool>'', tool_end := vocab ''<tool|>'',
     tool_response_start := vocab ''<|tool_response>'', tool_response_end := vocab ''<tool_response|>'',
     bos := vocab ''<bos>'', eos := vocab ''<eos>'', pad := vocab ''<pad>''\<rparr>"

definition harmony_map :: "(string \<Rightarrow> int option) \<Rightarrow> token_map" where
  "harmony_map vocab = no_tokens\<lparr>format_tag := ''harmony'',
     harmony_channel := vocab ''<|channel|>'', harmony_message := vocab ''<|message|>'',
     harmony_start := vocab ''<|start|>'', harmony_end := vocab ''<|end|>'', harmony_return := vocab ''<|return|>'',
     harmony_call := vocab ''<|call|>'', harmony_constrain := vocab ''<|constrain|>'',
     harmony_analysis_word := vocab ''analysis'', harmony_final_word := vocab ''final'',
     bos := vocab ''<|endoftext|>'', eos := vocab ''<|endoftext|>'', pad := vocab ''<|endoftext|>''\<rparr>"

definition think_map :: "(string \<Rightarrow> int option) \<Rightarrow> token_map" where
  "think_map vocab = no_tokens\<lparr>format_tag := ''think'',
     think_start := vocab ''<think>'', think_end := vocab ''</think>'',
     bos := py_or (vocab (deepseek_marker ''begin'')) (vocab ''<bos>''),
     eos := py_or (vocab (deepseek_marker ''end'')) (vocab ''<eos>''),
     pad := vocab ''<pad>''\<rparr>"

definition from_tokenizer :: "(string \<Rightarrow> int option) \<Rightarrow> router option" where
  "from_tokenizer vocab =
     (if vocab ''<|channel>'' \<noteq> None \<and> vocab ''<|tool_call>'' \<noteq> None then Some (new_router (gemma4_map vocab))
      else if vocab ''<|channel|>'' \<noteq> None \<and> vocab ''<|message|>'' \<noteq> None then Some (new_router (harmony_map vocab))
      else if vocab ''<think>'' \<noteq> None \<and> vocab ''</think>'' \<noteq> None then Some (new_router (think_map vocab))
      else None)"

end
