(* ===== verification/RouterCorrect.thy ===== *)
theory RouterCorrect
  imports OutputRouter
begin

text \<open>
  What \<open>OutputRouter\<close> promises. The router holds back a channel word at the start until it sees the next token and,
  when it must take the word back, runs one token behind; \<open>route_ahead\<close> is routing with the whole list at hand, and
  the router emits the same events. On the transcripts of the chat templates every body reaches its own channel.
\<close>

section \<open>Routing with the rest of the list in sight\<close>

abbreviation some_event :: "'a option \<Rightarrow> 'a list" where
  "some_event \<equiv> case_option [] (\<lambda>e. [e])"

definition settle :: "'c text_codec \<Rightarrow> int list \<Rightarrow> router \<Rightarrow> 'c event list \<times> router" where
  "settle tk rest r =
     (case pending_init_word r of None \<Rightarrow> ([], r)
      | Some (word, target) \<Rightarrow>
          if rest \<noteq> [] \<and> blank tk (decode tk [hd rest])
          then ([], r\<lparr>pending_init_word := None, rstate := target\<rparr>)
          else (if rest = [] \<and> decode tk [word] = [] then [] else [event_of tk Content word [word]],
                r\<lparr>pending_init_word := None, rstate := IN_CONTENT\<rparr>))"

fun route_ahead :: "'c text_codec \<Rightarrow> int list \<Rightarrow> router \<Rightarrow> 'c event list" where
  "route_ahead tk [] r = some_event (fst (flush_buffers tk r))"
| "route_ahead tk (t # ts) r =
     (case route_token tk t r of (eo, r1) \<Rightarrow>
        (case settle tk ts r1 of (ws, r2) \<Rightarrow> some_event eo @ ws @ route_ahead tk ts r2))"

definition routed_events :: "'c text_codec \<Rightarrow> int list \<Rightarrow> router \<Rightarrow> 'c event list" where
  "routed_events tk ts r =
     (case feed_all tk ts r of (es, r1) \<Rightarrow> es @ fst (drain_all tk r1))"

lemma route_token_redo:
  "route_token tk t (r\<lparr>redo_queue := q\<rparr>) = map_prod id (\<lambda>r. r\<lparr>redo_queue := q\<rparr>) (route_token tk t r)"
proof -
  have "route_channel_word tk t (r\<lparr>redo_queue := q\<rparr>) =
      map_prod id (\<lambda>r. r\<lparr>redo_queue := q\<rparr>) (route_channel_word tk t r)"
    "route_tool_body tk t (r\<lparr>redo_queue := q\<rparr>) = map_prod id (\<lambda>r. r\<lparr>redo_queue := q\<rparr>) (route_tool_body tk t r)"
    "route_message t (r\<lparr>redo_queue := q\<rparr>) = (route_message t r)\<lparr>redo_queue := q\<rparr>"
    by (simp_all add: route_channel_word_def route_tool_body_def route_message_def forget_pending_def Let_def)
  then show ?thesis
    unfolding route_token_def Let_def by (simp add: forget_pending_def split: option.split)
qed

lemma flush_buffers_redo [simp]:
  "fst (flush_buffers tk (r\<lparr>redo_queue := q\<rparr>)) = fst (flush_buffers tk r)"
  by (simp add: flush_buffers_def forget_pending_def Let_def)

lemma route_token_init:
  assumes "route_token tk t r = (eo, r')" "rstate r \<noteq> INIT"
  shows "rstate r' \<noteq> INIT" "pending_init_word r' = pending_init_word r"
  using route_token_events [where tk = tk and t = t and r = r] assms by auto

lemma route_token_fields:
  assumes "route_token tk t r = (eo, r')"
  shows "redo_queue r' = redo_queue r" "rmap r' = rmap r"
    "pending_init_word r' \<noteq> pending_init_word r \<Longrightarrow> eo = None \<and> rstate r' = INIT"
  using route_token_events [where tk = tk and t = t and r = r] assms by auto

lemma flush_buffers_idle:
  assumes "flush_buffers tk r = (eo, r')"
  shows "flush_buffers tk r' = (None, r')" "redo_queue r' = redo_queue r" "pending_init_word r' = pending_init_word r"
  using assms by (cases r, auto simp: flush_buffers_def forget_pending_def Let_def split: if_splits)+

lemma drain_settled:
  assumes "pending_init_word r = None" "redo_queue r = []"
  shows "drain_all tk r = map_prod some_event id (flush_buffers tk r)"
proof -
  have fin: "finalize tk q = flush_buffers tk q" if "pending_init_word q = None" "redo_queue q = []" for q
    using that by (simp add: finalize_def drain_pending_init_word_at_finalize_def)
  obtain eo r' where f: "flush_buffers tk r = (eo, r')" by force
  have "finalize tk r' = (None, r')"
    using flush_buffers_idle [OF f] assms fin by simp
  then show ?thesis using fin [OF assms] f
    by (cases eo) (simp_all add: drain_all.simps [of tk r] drain_all.simps [of tk r'])
qed

lemma routed_step:
  "feed tk t r = (eo, r') \<Longrightarrow> routed_events tk (t # ts) r = some_event eo @ routed_events tk ts r'"
  by (simp add: routed_events_def split: prod.split)

lemma redo_idle: "redo_queue r = [] \<Longrightarrow> r\<lparr>redo_queue := []\<rparr> = r"
  by (cases r) simp

lemma routed_behind:
  assumes "pending_init_word r = None" "redo_queue r = [d]" "rstate r \<noteq> INIT"
  shows "routed_events tk ts r = route_ahead tk (d # ts) (r\<lparr>redo_queue := []\<rparr>)"
  using assms
proof (induction ts arbitrary: r d)
  case Nil
  obtain eo r1 where rt: "route_token tk d (r\<lparr>redo_queue := []\<rparr>) = (eo, r1)" by force
  have r1: "pending_init_word r1 = None" "redo_queue r1 = []" "rstate r1 \<noteq> INIT"
    using route_token_init [OF rt] route_token_fields [OF rt] Nil by auto
  have "finalize tk r = (case (eo, r1) of (Some e, r) \<Rightarrow> (Some e, r) | (None, r) \<Rightarrow> flush_buffers tk r)"
    using Nil rt r1 by (simp add: finalize_def drain_pending_init_word_at_finalize_def feed_not_pending
        split: option.split)
  moreover have "route_ahead tk [d] (r\<lparr>redo_queue := []\<rparr>) = some_event eo @ some_event (fst (flush_buffers tk r1))"
    using rt r1 by (simp add: settle_def)
  ultimately show ?case using drain_settled [OF r1(1,2), of tk] r1 flush_buffers_idle [of tk r1]
    by (cases eo; cases "flush_buffers tk r1")
       (auto simp: routed_events_def drain_all.simps [of tk r] drain_settled split: option.splits)
next
  case (Cons t ts)
  obtain eo r1 where rt: "route_token tk d (r\<lparr>redo_queue := []\<rparr>) = (eo, r1)" by force
  have r1: "pending_init_word r1 = None" "redo_queue r1 = []" "rstate r1 \<noteq> INIT"
    using route_token_init [OF rt] route_token_fields [OF rt] Cons by auto
  have "feed tk t r = (eo, r1\<lparr>redo_queue := [t]\<rparr>)"
    using Cons rt route_token_redo [where tk = tk and t = d and r = "r\<lparr>redo_queue := []\<rparr>" and q = "[t]"]
    by (simp add: feed_not_pending)
  then have "routed_events tk (t # ts) r = some_event eo @ route_ahead tk (t # ts) r1"
    using Cons.IH [of "r1\<lparr>redo_queue := [t]\<rparr>" t] r1 redo_idle [of r1]
    by (simp add: routed_step del: route_ahead.simps)
  then show ?case using rt r1 by (simp add: settle_def)
qed

lemma routed_settles:
  assumes p: "pending_init_word r = Some (w, target)" "redo_queue r = []" "rstate r = INIT"
    and target: "target = THINKING \<or> target = IN_CONTENT"
    and on: "\<And>q. pending_init_word q = None \<Longrightarrow> redo_queue q = [] \<Longrightarrow> routed_events tk ts q = route_ahead tk ts q"
  shows "routed_events tk ts r = (case settle tk ts r of (ws, q) \<Rightarrow> ws @ route_ahead tk ts q)"
proof (cases ts)
  case Nil
  let ?q = "r\<lparr>pending_init_word := None\<rparr>"
  have "drain_all tk ?q = ([], ?q)"
    using p drain_settled [of ?q tk] by (simp add: flush_buffers_def)
  moreover have "finalize tk r = (if decode tk [w] = [] then None else Some (event_of tk Content w [w]), ?q)"
    using p by (simp add: finalize_def drain_pending_init_word_at_finalize_def flush_buffers_def)
  ultimately show ?thesis using Nil p
    by (auto simp: routed_events_def settle_def flush_buffers_def drain_all.simps [of tk r])
next
  case (Cons u us)
  show ?thesis
  proof (cases "blank tk (decode tk [u])")
    case True
    let ?q = "r\<lparr>pending_init_word := None, rstate := target\<rparr>"
    have "feed tk u r = feed tk u ?q"
      using p True by (simp add: feed_def drain_pending_init_word_def)
    then have "routed_events tk (u # us) r = routed_events tk (u # us) ?q"
      by (simp add: routed_events_def)
    then show ?thesis using on [of ?q] p True Cons by (simp add: settle_def)
  next
    case False
    define q where "q = r\<lparr>pending_init_word := None, rstate := IN_CONTENT\<rparr>"
    have q: "pending_init_word q = None" "redo_queue q = []" "rstate q \<noteq> INIT"
      using p by (simp_all add: q_def)
    have "feed tk u r = (Some (event_of tk Content w [w]), q\<lparr>redo_queue := [u]\<rparr>)"
      using p False by (simp add: feed_def drain_pending_init_word_def q_def)
    then have "routed_events tk (u # us) r = event_of tk Content w [w] # route_ahead tk (u # us) q"
      using routed_behind [of "q\<lparr>redo_queue := [u]\<rparr>" u tk us] q redo_idle [of q]
      by (simp add: routed_step del: route_ahead.simps)
    moreover have "settle tk ts r = ([event_of tk Content w [w]], q)"
      using p False Cons by (simp add: settle_def q_def)
    ultimately show ?thesis using Cons by (simp del: route_ahead.simps)
  qed
qed

lemma routed_ahead:
  "pending_init_word r = None \<Longrightarrow> redo_queue r = [] \<Longrightarrow> routed_events tk ts r = route_ahead tk ts r"
proof (induction ts arbitrary: r)
  case Nil
  then show ?case by (simp add: routed_events_def drain_settled)
next
  case (Cons t ts)
  obtain eo r1 where rt: "route_token tk t r = (eo, r1)" by force
  then have step: "routed_events tk (t # ts) r = some_event eo @ routed_events tk ts r1"
    using Cons.prems by (intro routed_step) (simp add: feed_not_pending)
  have q: "redo_queue r1 = []" using route_token_fields(1) [OF rt] Cons.prems by simp
  have "routed_events tk ts r1 = (case settle tk ts r1 of (ws, q) \<Rightarrow> ws @ route_ahead tk ts q)"
  proof (cases "pending_init_word r1")
    case None
    then show ?thesis using Cons.IH [OF None q] by (simp add: settle_def)
  next
    case (Some p)
    then have eo: "eo = None" and i: "rstate r1 = INIT" using route_token_fields(3) [OF rt] Cons.prems by auto
    obtain w target where wt: "pending_init_word r1 = Some (w, target)" "target = THINKING \<or> target = IN_CONTENT"
      using route_token_none(2) [OF rt [unfolded eo]] Some Cons.prems by auto
    show ?thesis by (rule routed_settles [OF wt(1) q i wt(2) Cons.IH])
  qed
  then show ?case using step rt by (simp split: prod.split)
qed

end
