(* ===== verification/RouterFormats.thy ===== *)
theory RouterFormats
  imports RouterCorrect
begin

text \<open>
  Transcripts in the layouts of the chat templates and what the router makes of them: Gemma 4's channel and tool-call
  markers, Harmony's headed messages.
\<close>

section \<open>Gemma 4\<close>

datatype segment = Thinking "int list" | Saying "int list" | Calling "int list" | Plain "int list"

definition suppressed_markers :: "token_map \<Rightarrow> int option list" where
  "suppressed_markers m = [bos m, eos m, pad m, turn_start m, turn_end m, harmony_channel m, harmony_end m,
     harmony_return m, harmony_start m, harmony_call m, harmony_constrain m, harmony_message m,
     tool_response_start m, tool_response_end m, tool_start m, tool_end m, think_start m, think_end m]"

definition channel_markers :: "token_map \<Rightarrow> int option list" where
  "channel_markers m = [channel_start m, channel_end m, tool_call_start m, tool_call_end m]"

definition ordinary :: "token_map \<Rightarrow> int \<Rightarrow> bool" where
  "ordinary m t \<longleftrightarrow> Some t \<notin> set (suppressed_markers m) \<and> Some t \<notin> set (channel_markers m)"

definition chat_format :: "token_map \<Rightarrow> bool" where
  "chat_format m \<longleftrightarrow> distinct (channel_markers m @ [thought_word m, content_word m]) \<and>
     (\<forall>x\<in>set (channel_markers m @ [thought_word m, content_word m]). x \<noteq> None \<and> x \<notin> set (suppressed_markers m))"

fun render :: "token_map \<Rightarrow> segment \<Rightarrow> int list" where
  "render m (Thinking ts) = [the (channel_start m), the (thought_word m)] @ ts @ [the (channel_end m)]"
| "render m (Saying ts) = [the (channel_start m), the (content_word m)] @ ts @ [the (channel_end m)]"
| "render m (Calling ts) = [the (tool_call_start m)] @ ts @ [the (tool_call_end m)]"
| "render m (Plain ts) = ts"

fun well_formed :: "token_map \<Rightarrow> segment \<Rightarrow> bool" where
  "well_formed m (Plain ts) = list_all (\<lambda>t. ordinary m t \<and> bare_word m t = None) ts"
| "well_formed m (Thinking ts) = list_all (ordinary m) ts"
| "well_formed m (Saying ts) = list_all (ordinary m) ts"
| "well_formed m (Calling ts) = list_all (ordinary m) ts"

definition token_events :: "'c text_codec \<Rightarrow> channel \<Rightarrow> int list \<Rightarrow> 'c event list" where
  "token_events tk ch ts = map (\<lambda>t. event_of tk ch t [t]) ts"

fun segment_events :: "'c text_codec \<Rightarrow> token_map \<Rightarrow> segment \<Rightarrow> 'c event list" where
  "segment_events tk m (Thinking ts) = token_events tk Reasoning ts"
| "segment_events tk m (Saying ts) = token_events tk Content ts"
| "segment_events tk m (Plain ts) = token_events tk Content ts"
| "segment_events tk m (Calling ts) = [event_of tk Tool_Call (the (tool_call_end m)) (render m (Calling ts))]"

lemmas marker_defs = suppressed_markers_def channel_markers_def

lemma token_events_simps [simp]:
  "token_events tk ch [] = []" "token_events tk ch (t # ts) = event_of tk ch t [t] # token_events tk ch ts"
  by (simp_all add: token_events_def)

lemma chat_formatE:
  assumes "chat_format m"
  obtains cs ce ts te tw cw where "channel_start m = Some cs" "channel_end m = Some ce" "tool_call_start m = Some ts"
    "tool_call_end m = Some te" "thought_word m = Some tw" "content_word m = Some cw" "distinct [cs, ce, ts, te, tw, cw]"
    "\<forall>t\<in>set [cs, ce, ts, te, tw, cw]. Some t \<notin> set (suppressed_markers m)"
  using assms by (auto simp: chat_format_def channel_markers_def)

text \<open>What is left of the cascade for a token that is not suppressed.\<close>

lemma route_unsuppressed:
  assumes "Some t \<notin> set (suppressed_markers (rmap r))" "rstate r \<notin> {AFTER_START, AWAITING_MESSAGE}"
  shows "route_token tk t r =
     (if Some t = channel_start (rmap r)
      then (None, r\<lparr>rstate := AWAITING_CHANNEL_TYPE, pending_control_tokens := []\<rparr>)
      else if rstate r = AWAITING_CHANNEL_TYPE then route_channel_word tk t r
      else if Some t = channel_end (rmap r)
      then (None, if rstate r = THINKING then r\<lparr>rstate := IN_CONTENT\<rparr> else r)
      else if Some t = tool_call_end (rmap r) \<and> rstate r \<noteq> IN_TOOL_CALL then (None, r)
      else if Some t = tool_call_start (rmap r) then (None, r\<lparr>rstate := IN_TOOL_CALL, tool_tokens := [t]\<rparr>)
      else if rstate r = IN_TOOL_CALL then route_tool_body tk t r
      else case if rstate r = INIT then bare_word (rmap r) t else None of
          Some target \<Rightarrow> (None, r\<lparr>pending_init_word := Some (t, target)\<rparr>)
        | None \<Rightarrow> (Some (event_of tk (if rstate r = THINKING then Reasoning else Content) t [t]), r))"
  using assms by (simp add: route_token_def suppressed_markers_def Let_def)

lemma run_body:
  assumes "list_all (ordinary (rmap r)) ts" "rstate r = THINKING \<or> rstate r = IN_CONTENT" "pending_init_word r = None"
  shows "route_ahead tk (ts @ rest) r =
    token_events tk (if rstate r = THINKING then Reasoning else Content) ts @ route_ahead tk rest r"
  using assms(1)
proof (induction ts)
  case (Cons t ts)
  then have "route_token tk t r = (Some (event_of tk (if rstate r = THINKING then Reasoning else Content) t [t]), r)"
    using assms(2) by (auto simp: route_unsuppressed ordinary_def channel_markers_def)
  then show ?case using Cons assms(3) by (simp add: settle_def)
qed simp

lemma run_plain:
  assumes "list_all (\<lambda>t. ordinary (rmap r) t \<and> bare_word (rmap r) t = None) ts" "rstate r \<in> {INIT, IN_CONTENT}"
    "pending_init_word r = None"
  shows "route_ahead tk (ts @ rest) r = token_events tk Content ts @ route_ahead tk rest r"
  using assms(1)
proof (induction ts)
  case (Cons t ts)
  then have "route_token tk t r = (Some (event_of tk Content t [t]), r)"
    using assms(2) by (auto simp: route_unsuppressed ordinary_def channel_markers_def)
  then show ?case using Cons assms(3) by (simp add: settle_def)
qed simp

lemma run_tool_body:
  assumes "list_all (ordinary (rmap r)) ts" "rstate r = IN_TOOL_CALL" "pending_init_word r = None"
  shows "route_ahead tk (ts @ rest) r = route_ahead tk rest (r\<lparr>tool_tokens := tool_tokens r @ ts\<rparr>)"
  using assms
proof (induction ts arbitrary: r)
  case (Cons t ts)
  then have "route_token tk t r = (None, r\<lparr>tool_tokens := tool_tokens r @ [t]\<rparr>)"
    by (auto simp: route_unsuppressed route_tool_body_def ordinary_def channel_markers_def)
  then show ?case using Cons.IH [of "r\<lparr>tool_tokens := tool_tokens r @ [t]\<rparr>"] Cons.prems by (simp add: settle_def)
qed simp

definition at_rest :: "router \<Rightarrow> bool" where
  "at_rest r \<longleftrightarrow> rstate r \<in> {INIT, IN_CONTENT} \<and> pending_channel_style r = None \<and> pending_init_word r = None"

lemma run_channel:
  assumes m: "chat_format (rmap r)" and r: "at_rest r"
    and w: "w = the (if thinking then thought_word (rmap r) else content_word (rmap r))"
    and ts: "list_all (ordinary (rmap r)) ts"
  shows "\<exists>r'. at_rest r' \<and> rmap r' = rmap r \<and> (\<forall>rest.
    route_ahead tk ([the (channel_start (rmap r)), w] @ ts @ the (channel_end (rmap r)) # rest) r =
      token_events tk (if thinking then Reasoning else Content) ts @ route_ahead tk rest r')"
proof -
  obtain cs ce tcs tce tw cw where f: "channel_start (rmap r) = Some cs" "channel_end (rmap r) = Some ce"
    "thought_word (rmap r) = Some tw" "content_word (rmap r) = Some cw" "distinct [cs, ce, tcs, tce, tw, cw]"
    "\<forall>t\<in>set [cs, ce, tcs, tce, tw, cw]. Some t \<notin> set (suppressed_markers (rmap r))"
    "tool_call_start (rmap r) = Some tcs" "tool_call_end (rmap r) = Some tce"
    by (rule chat_formatE [OF m])
  define a where "a = r\<lparr>rstate := AWAITING_CHANNEL_TYPE, pending_control_tokens := []\<rparr>"
  define q where "q = a\<lparr>rstate := if thinking then THINKING else IN_CONTENT\<rparr>"
  have a: "route_token tk cs r = (None, a)"
    using f r by (auto simp: route_unsuppressed at_rest_def a_def)
  have "w = (if thinking then tw else cw)" using w f by simp
  then have b: "route_token tk w a = (None, q)"
    using f r by (cases thinking) (auto simp: route_unsuppressed at_rest_def a_def q_def route_channel_word_def Let_def)
  have c: "route_token tk ce q = (None, q\<lparr>rstate := IN_CONTENT\<rparr>)"
    using f r by (cases thinking) (auto simp: route_unsuppressed at_rest_def a_def q_def)
  have "route_ahead tk (ts @ ce # rest) q =
      token_events tk (if thinking then Reasoning else Content) ts @ route_ahead tk (ce # rest) q" for rest
    using run_body [of q ts tk] r ts by (simp add: at_rest_def q_def a_def)
  moreover have "pending_init_word a = None" "pending_init_word q = None" "at_rest (q\<lparr>rstate := IN_CONTENT\<rparr>)"
    "rmap (q\<lparr>rstate := IN_CONTENT\<rparr>) = rmap r"
    using r by (simp_all add: a_def q_def at_rest_def)
  ultimately show ?thesis using a b c f(1,2)
    by (intro exI [of _ "q\<lparr>rstate := IN_CONTENT\<rparr>"]) (simp add: settle_def)
qed

lemma run_call:
  assumes m: "chat_format (rmap r)" and r: "at_rest r" and ts: "list_all (ordinary (rmap r)) ts"
  shows "route_ahead tk (render (rmap r) (Calling ts) @ rest) r =
    segment_events tk (rmap r) (Calling ts) @ route_ahead tk rest (r\<lparr>rstate := IN_CONTENT, tool_tokens := []\<rparr>)"
proof -
  obtain cs ce tcs tce tw cw where f: "tool_call_start (rmap r) = Some tcs" "tool_call_end (rmap r) = Some tce"
    "channel_start (rmap r) = Some cs" "channel_end (rmap r) = Some ce" "distinct [cs, ce, tcs, tce, tw, cw]"
    "\<forall>t\<in>set [cs, ce, tcs, tce, tw, cw]. Some t \<notin> set (suppressed_markers (rmap r))"
    by (rule chat_formatE [OF m])
  define a where "a = r\<lparr>rstate := IN_TOOL_CALL, tool_tokens := [tcs]\<rparr>"
  define q where "q = r\<lparr>rstate := IN_CONTENT, tool_tokens := []\<rparr>"
  have a: "route_token tk tcs r = (None, a)"
    using f r by (auto simp: route_unsuppressed at_rest_def a_def)
  have c: "route_token tk tce (a\<lparr>tool_tokens := tcs # ts\<rparr>) =
      (Some (event_of tk Tool_Call tce (tcs # ts @ [tce])), q)"
    using f r by (auto simp: route_unsuppressed route_tool_body_def at_rest_def a_def q_def)
  have "route_ahead tk (ts @ tce # rest) a = route_ahead tk (tce # rest) (a\<lparr>tool_tokens := tcs # ts\<rparr>)"
    using run_tool_body [of a ts tk] r ts by (simp add: at_rest_def a_def)
  moreover have "pending_init_word a = None" "pending_init_word q = None"
    using r by (simp_all add: a_def q_def at_rest_def)
  ultimately show ?thesis using a c f(1,2) unfolding q_def [symmetric] by (simp add: settle_def)
qed

lemma run_segment:
  assumes "chat_format (rmap r)" "at_rest r" "well_formed (rmap r) seg"
  shows "\<exists>r'. at_rest r' \<and> rmap r' = rmap r \<and>
    (\<forall>rest. route_ahead tk (render (rmap r) seg @ rest) r = segment_events tk (rmap r) seg @ route_ahead tk rest r')"
proof (cases seg)
  case (Thinking ts)
  with run_channel [of r _ True ts tk, OF _ _ refl] assms show ?thesis by simp
next
  case (Saying ts)
  with run_channel [of r _ False ts tk, OF _ _ refl] assms show ?thesis by simp
next
  case (Calling ts)
  with run_call [of r ts tk] assms show ?thesis
    by (intro exI [of _ "r\<lparr>rstate := IN_CONTENT, tool_tokens := []\<rparr>"]) (auto simp: at_rest_def)
next
  case (Plain ts)
  with run_plain [of r ts tk] assms show ?thesis by (intro exI [of _ r]) (auto simp: at_rest_def)
qed

lemma run_segments:
  assumes "chat_format (rmap r)" "at_rest r" "list_all (well_formed (rmap r)) segs"
  shows "route_ahead tk (concat (map (render (rmap r)) segs)) r = concat (map (segment_events tk (rmap r)) segs)"
  using assms
proof (induction segs arbitrary: r)
  case Nil
  then show ?case by (auto simp: at_rest_def flush_buffers_def)
next
  case (Cons seg segs)
  then obtain r' where r': "at_rest r'" "rmap r' = rmap r"
    "route_ahead tk (render (rmap r) seg @ rest) r = segment_events tk (rmap r) seg @ route_ahead tk rest r'" for rest
    using run_segment [of r seg tk] by auto
  then show ?case using Cons.IH [of r'] Cons.prems by simp
qed

section \<open>Harmony\<close>

text \<open>A message: the header of its turn after \<open><|start|>\<close>, absent on the first one, and the tokens of its body.\<close>

datatype harmony_turn = Analysis "int list option" "int list" | Final "int list option" "int list"

definition harmony_markers :: "token_map \<Rightarrow> int option list" where
  "harmony_markers m = [harmony_channel m, harmony_message m, harmony_start m, harmony_end m, harmony_return m,
     harmony_analysis_word m, harmony_final_word m]"

definition other_markers :: "token_map \<Rightarrow> int option list" where
  "other_markers m = [bos m, eos m, pad m, turn_start m, turn_end m, harmony_call m, harmony_constrain m,
     tool_response_start m, tool_response_end m, tool_start m, tool_end m, think_start m, think_end m] @ channel_markers m"

definition harmony_format :: "token_map \<Rightarrow> bool" where
  "harmony_format m \<longleftrightarrow> distinct (harmony_markers m) \<and>
     (\<forall>x\<in>set (harmony_markers m). x \<noteq> None \<and> x \<notin> set (other_markers m))"

fun harmony_header :: "token_map \<Rightarrow> int list option \<Rightarrow> int list" where
  "harmony_header m None = []"
| "harmony_header m (Some hs) = the (harmony_start m) # hs"

fun render_turn :: "token_map \<Rightarrow> harmony_turn \<Rightarrow> int list" where
  "render_turn m (Analysis h ts) = harmony_header m h @
     [the (harmony_channel m), the (harmony_analysis_word m), the (harmony_message m)] @ ts @ [the (harmony_end m)]"
| "render_turn m (Final h ts) = harmony_header m h @
     [the (harmony_channel m), the (harmony_final_word m), the (harmony_message m)] @ ts @ [the (harmony_return m)]"

fun well_formed_turn :: "token_map \<Rightarrow> harmony_turn \<Rightarrow> bool" where
  "well_formed_turn m (Analysis h ts) = (pred_option (list_all (ordinary m)) h \<and> list_all (ordinary m) ts)"
| "well_formed_turn m (Final h ts) = (pred_option (list_all (ordinary m)) h \<and> list_all (ordinary m) ts)"

fun turn_events :: "'c text_codec \<Rightarrow> harmony_turn \<Rightarrow> 'c event list" where
  "turn_events tk (Analysis h ts) = token_events tk Reasoning ts"
| "turn_events tk (Final h ts) = token_events tk Content ts"

lemma harmony_formatE:
  assumes "harmony_format m"
  obtains c g s e rt a f where "harmony_channel m = Some c" "harmony_message m = Some g" "harmony_start m = Some s"
    "harmony_end m = Some e" "harmony_return m = Some rt" "harmony_analysis_word m = Some a"
    "harmony_final_word m = Some f" "distinct [c, g, s, e, rt, a, f]"
    "\<forall>t\<in>set [c, g, s, e, rt, a, f]. Some t \<notin> set (other_markers m)"
  using assms by (auto simp: harmony_format_def harmony_markers_def)

lemma run_header:
  assumes "list_all (ordinary (rmap r)) hs" "rstate r = AFTER_START" "pending_init_word r = None"
  shows "route_ahead tk (hs @ rest) r = route_ahead tk rest r"
  using assms(1)
proof (induction hs)
  case (Cons t ts)
  then have "route_token tk t r = (None, r)"
    using assms(2) by (simp add: route_token_def ordinary_def suppressed_markers_def)
  then show ?case using Cons assms(3) by (simp add: settle_def)
qed simp

lemma forget_pending_fields [simp]:
  "rmap (forget_pending r) = rmap r" "rstate (forget_pending r) = rstate r"
  "pending_init_word (forget_pending r) = pending_init_word r" "redo_queue (forget_pending r) = redo_queue r"
  "tool_tokens (forget_pending r) = tool_tokens r"
  by (simp_all add: forget_pending_def)

text \<open>The part of a message after its header.\<close>

lemma run_payload:
  assumes m: "harmony_format (rmap r)" and r: "pending_init_word r = None"
    and w: "w = the (if thinking then harmony_analysis_word (rmap r) else harmony_final_word (rmap r))"
    and e: "e = the (harmony_end (rmap r)) \<or> e = the (harmony_return (rmap r))"
    and ts: "list_all (ordinary (rmap r)) ts"
  shows "\<exists>r'. rstate r' = IN_CONTENT \<and> pending_init_word r' = None \<and> rmap r' = rmap r \<and> (\<forall>rest.
    route_ahead tk ([the (harmony_channel (rmap r)), w, the (harmony_message (rmap r))] @ ts @ e # rest) r =
      token_events tk (if thinking then Reasoning else Content) ts @ route_ahead tk rest r')"
proof -
  obtain c g s e1 rt an f where h: "harmony_channel (rmap r) = Some c" "harmony_message (rmap r) = Some g"
    "harmony_start (rmap r) = Some s" "harmony_end (rmap r) = Some e1" "harmony_return (rmap r) = Some rt"
    "harmony_analysis_word (rmap r) = Some an" "harmony_final_word (rmap r) = Some f"
    "distinct [c, g, s, e1, rt, an, f]" "\<forall>t\<in>set [c, g, s, e1, rt, an, f]. Some t \<notin> set (other_markers (rmap r))"
    by (rule harmony_formatE [OF m])
  note defs = route_token_def other_markers_def channel_markers_def Let_def
  define p where "p = (forget_pending r)\<lparr>rstate := AWAITING_CHANNEL_TYPE, pending_channel_style := Some ''harmony''\<rparr>"
  define q where "q = p\<lparr>pending_message_channel := Some (if thinking then Reasoning else Content), rstate := AWAITING_MESSAGE\<rparr>"
  define b where "b = forget_pending (q\<lparr>rstate := if thinking then THINKING else IN_CONTENT\<rparr>)"
  define z where "z = (forget_pending b)\<lparr>rstate := IN_CONTENT\<rparr>"
  have pm: "rmap p = rmap r" "rmap q = rmap r" "rmap b = rmap r"
    by (simp_all add: p_def q_def b_def)
  have st: "rstate p = AWAITING_CHANNEL_TYPE" "pending_channel_style p = Some ''harmony''" "rstate q = AWAITING_MESSAGE"
    "pending_message_channel q = Some (if thinking then Reasoning else Content)"
    by (simp_all add: p_def q_def)
  have 1: "route_token tk c r = (None, p)"
    using h unfolding defs p_def by simp
  have "w = (if thinking then an else f)" using w h by simp
  then have 2: "route_token tk w p = (None, q)"
    using h pm st unfolding defs q_def by (cases thinking) (auto simp: route_channel_word_def)
  have 3: "route_token tk g q = (None, b)"
    using h pm st unfolding defs b_def by (cases thinking) (auto simp: route_message_def)
  have "e = e1 \<or> e = rt" using e h by simp
  then have 4: "route_token tk e b = (None, z)"
    using h pm unfolding defs z_def by auto
  have "route_ahead tk (ts @ e # rest) b =
      token_events tk (if thinking then Reasoning else Content) ts @ route_ahead tk (e # rest) b" for rest
    using run_body [of b ts tk] ts r pm by (simp add: b_def q_def p_def)
  moreover have "pending_init_word p = None" "pending_init_word q = None" "pending_init_word b = None"
    "pending_init_word z = None" "rmap z = rmap r" "rstate z = IN_CONTENT"
    using r by (simp_all add: p_def q_def b_def z_def)
  ultimately show ?thesis using 1 2 3 4 h(1,2) by (intro exI [of _ z]) (simp add: settle_def)
qed

lemma run_header_of_turn:
  assumes m: "harmony_format (rmap r)" and r: "pending_init_word r = None" "pred_option (list_all (ordinary (rmap r))) h"
  shows "\<exists>r'. pending_init_word r' = None \<and> rmap r' = rmap r \<and>
    (\<forall>rest. route_ahead tk (harmony_header (rmap r) h @ rest) r = route_ahead tk rest r')"
proof (cases h)
  case None
  then show ?thesis using r by (intro exI [of _ r]) simp
next
  case (Some hs)
  define a where "a = (forget_pending r)\<lparr>rstate := AFTER_START\<rparr>"
  have "route_token tk (the (harmony_start (rmap r))) r = (None, a)"
    using m by (auto simp: harmony_format_def harmony_markers_def other_markers_def route_token_def a_def Let_def)
  moreover have "pending_init_word a = None" "rmap a = rmap r" "rstate a = AFTER_START"
    using r by (simp_all add: a_def)
  ultimately show ?thesis using run_header [of a hs tk] r Some
    by (intro exI [of _ a]) (simp add: settle_def)
qed

lemma run_turn:
  assumes m: "harmony_format (rmap r)" and r: "pending_init_word r = None" and wf: "well_formed_turn (rmap r) turn"
  shows "\<exists>r'. rstate r' = IN_CONTENT \<and> pending_init_word r' = None \<and> rmap r' = rmap r \<and> (\<forall>rest.
    route_ahead tk (render_turn (rmap r) turn @ rest) r = turn_events tk turn @ route_ahead tk rest r')"
proof -
  obtain h ts thinking where turn: "turn = (if thinking then Analysis h ts else Final h ts)"
    by (cases turn) (metis (full_types))+
  then have wf': "pred_option (list_all (ordinary (rmap r))) h" "list_all (ordinary (rmap r)) ts"
    using wf by (auto split: if_splits)
  obtain a where a: "pending_init_word a = None" "rmap a = rmap r"
    "\<And>rest. route_ahead tk (harmony_header (rmap r) h @ rest) r = route_ahead tk rest a"
    using run_header_of_turn [OF m r wf'(1), of tk] by auto
  define w e where we: "w = the (if thinking then harmony_analysis_word (rmap a) else harmony_final_word (rmap a))"
    "e = the (if thinking then harmony_end (rmap a) else harmony_return (rmap a))"
  have e: "e = the (harmony_end (rmap a)) \<or> e = the (harmony_return (rmap a))"
    unfolding we by (cases thinking) simp_all
  have "harmony_format (rmap a)" "list_all (ordinary (rmap a)) ts" using m a(2) wf'(2) by simp_all
  from run_payload [OF this(1) a(1) we(1) e this(2), of tk]
  obtain z where z: "rstate z = IN_CONTENT" "pending_init_word z = None" "rmap z = rmap a"
    "\<And>rest. route_ahead tk ([the (harmony_channel (rmap a)), w, the (harmony_message (rmap a))] @ ts @ e # rest) a =
      token_events tk (if thinking then Reasoning else Content) ts @ route_ahead tk rest z"
    by blast
  have "route_ahead tk (render_turn (rmap r) turn @ rest) r = turn_events tk turn @ route_ahead tk rest z" for rest
  proof -
    have "render_turn (rmap r) turn @ rest = harmony_header (rmap r) h @
        [the (harmony_channel (rmap a)), w, the (harmony_message (rmap a))] @ ts @ e # rest"
      using a(2) turn we by (cases thinking) simp_all
    moreover have "turn_events tk turn = token_events tk (if thinking then Reasoning else Content) ts"
      using turn by (cases thinking) simp_all
    ultimately show ?thesis by (simp only: a(3) z(4))
  qed
  then show ?thesis using z a(2) by auto
qed

lemma run_turns:
  assumes "harmony_format (rmap r)" "pending_init_word r = None" "list_all (well_formed_turn (rmap r)) turns"
    "rstate r = INIT \<or> rstate r = IN_CONTENT"
  shows "route_ahead tk (concat (map (render_turn (rmap r)) turns)) r = concat (map (turn_events tk) turns)"
  using assms
proof (induction turns arbitrary: r)
  case Nil
  then show ?case by (auto simp: flush_buffers_def)
next
  case (Cons turn turns)
  then obtain r' where r': "rstate r' = IN_CONTENT" "pending_init_word r' = None" "rmap r' = rmap r"
    "route_ahead tk (render_turn (rmap r) turn @ rest) r = turn_events tk turn @ route_ahead tk rest r'" for rest
    using run_turn [of r turn tk] by auto
  then show ?case using Cons.IH [of r'] Cons.prems by simp
qed

end
