(* ===== verification/RouterStream.thy ===== *)
theory RouterStream
  imports RouterFormats
begin

text \<open>
  \<^bold>\<open>The routing of streamed outputs, engine/batched.py.\<close> \<open>_stream_with_output_router\<close> turns the engine's outputs into
  one output per routed token; \<open>_route_tokens_for_channels\<close> routes a finished token list. Both work with either router,
  so the router is an interface record: \<open>feed\<close>, \<open>finalize\<close> and \<open>feed_sequence\<close>, any of which may raise. The model of
  the asynchronous generator is a function from the engine's outputs to what it yields and the exception that ends it,
  if one does.
\<close>

section \<open>Outputs\<close>

datatype 'l logprobs = No_logprobs | Per_step "'l list" | One_step 'l

record ('c, 'l, 'm) gen_output =
  go_text :: "'c list"
  go_tokens :: "int list"
  go_prompt_tokens :: int
  go_completion_tokens :: int
  go_finish_reason :: "string option"
  go_new_text :: "'c list"
  go_finished :: bool
  go_logprobs :: "'l logprobs"
  go_channel :: "string option"
  go_raw_text :: "'c list"
  go_reasoning_text :: "'c list"
  go_tool_calls :: "('c list \<times> 'c list) list option"
  go_cached_tokens :: int
  go_matched_stop :: "'c list option"
  go_spec_decode_metrics :: "'m option"
  go_prompt_compression :: "'m option"
  go_timing_metrics :: "'m option"
  go_prompt_parse_context :: "'m option"

fun channel_name :: "channel \<Rightarrow> py_error + string" where
  "channel_name Content = Inr ''content''"
| "channel_name Reasoning = Inr ''reasoning''"
| "channel_name Tool_Call = Inr ''tool_call''"
| "channel_name Control = Inl KeyError"

definition make_routed_output ::
    "('c, 'l, 'm) gen_output \<Rightarrow> 'c event \<Rightarrow> 'c list option \<Rightarrow> bool \<Rightarrow> string option \<Rightarrow> 'l logprobs
     \<Rightarrow> py_error + ('c, 'l, 'm) gen_output" where
  "make_routed_output source e new_text finished finish_reason lps =
     (case channel_name (ev_channel e) of Inl err \<Rightarrow> Inl err
      | Inr name \<Rightarrow> Inr \<lparr>go_text = go_text source, go_tokens = [ev_token e],
          go_prompt_tokens = go_prompt_tokens source, go_completion_tokens = go_completion_tokens source,
          go_finish_reason = finish_reason,
          go_new_text = (case new_text of None \<Rightarrow> ev_text e | Some s \<Rightarrow> s),
          go_finished = finished, go_logprobs = lps, go_channel = Some name,
          go_raw_text = [], go_reasoning_text = [],
          go_tool_calls = map_option (\<lambda>tc. [tc]) (ev_tool_call e),
          go_cached_tokens = go_cached_tokens source, go_matched_stop = go_matched_stop source,
          go_spec_decode_metrics = go_spec_decode_metrics source,
          go_prompt_compression = go_prompt_compression source,
          go_timing_metrics = (if finished then go_timing_metrics source else None),
          go_prompt_parse_context = None\<rparr>)"

definition routed_finish_sentinel :: "('c, 'l, 'm) gen_output \<Rightarrow> ('c, 'l, 'm) gen_output" where
  "routed_finish_sentinel source =
     \<lparr>go_text = go_text source, go_tokens = [], go_prompt_tokens = go_prompt_tokens source,
      go_completion_tokens = go_completion_tokens source, go_finish_reason = go_finish_reason source,
      go_new_text = [], go_finished = True, go_logprobs = go_logprobs source, go_channel = None,
      go_raw_text = [], go_reasoning_text = [], go_tool_calls = None,
      go_cached_tokens = go_cached_tokens source, go_matched_stop = go_matched_stop source,
      go_spec_decode_metrics = go_spec_decode_metrics source, go_prompt_compression = go_prompt_compression source,
      go_timing_metrics = go_timing_metrics source, go_prompt_parse_context = None\<rparr>"

section \<open>Routers as an interface\<close>

datatype 'c call = Wire "'c list" | Structured "'c list \<times> 'c list"

record 'c channels =
  ch_content :: "'c list option"
  ch_reasoning :: "'c list option"
  ch_calls :: "'c call list option"

record ('r, 'c) router_api =
  api_feed :: "int \<Rightarrow> 'r \<Rightarrow> ('c event option, 'r) outcome"
  api_finalize :: "'r \<Rightarrow> ('c event option, 'r) outcome"
  api_reset :: "'r \<Rightarrow> 'r"
  api_sequence :: "int list \<Rightarrow> 'r \<Rightarrow> ('c channels, 'r) outcome"

text \<open>\<open>OutputRouter\<close> behind the interface: its calls are wire text.\<close>

definition legacy_api :: "'c text_codec \<Rightarrow> (router, 'c) router_api" where
  "legacy_api tk = \<lparr>api_feed = (\<lambda>t r. map_prod Inr id (feed tk t r)), api_finalize = (\<lambda>r. map_prod Inr id (finalize tk r)),
     api_reset = router_reset,
     api_sequence = (\<lambda>ts r. map_prod (\<lambda>ro. Inr \<lparr>ch_content = ro_content ro, ch_reasoning = ro_reasoning ro,
       ch_calls = map_option (map Wire) (ro_tool_calls ro)\<rparr>) id (feed_sequence tk ts r))\<rparr>"

section \<open>The stream\<close>

fun lps_per_step :: "'l logprobs \<Rightarrow> 'l list option" where
  "lps_per_step No_logprobs = None"
| "lps_per_step (Per_step ls) = Some ls"
| "lps_per_step (One_step l) = Some [l]"

definition step_logprob :: "'l list option \<Rightarrow> nat \<Rightarrow> 'l logprobs" where
  "step_logprob lps i = (case lps of None \<Rightarrow> No_logprobs | Some ls \<Rightarrow> if i < length ls then One_step (ls ! i) else No_logprobs)"

text \<open>The loop over the tokens of one output, inside its \<open>try\<close>.\<close>

fun route_chunk ::
    "('r, 'c) router_api \<Rightarrow> ('c, 'l, 'm) gen_output \<Rightarrow> nat \<Rightarrow> int list \<Rightarrow> 'r \<Rightarrow> (('c, 'l, 'm) gen_output list, 'r) outcome"
where
  "route_chunk api source i [] r = (Inr [], r)"
| "route_chunk api source i (t # ts) r =
     obind (api_feed api t r) (\<lambda>eo r.
       case eo of None \<Rightarrow> route_chunk api source (Suc i) ts r
       | Some e \<Rightarrow>
           (case make_routed_output source e
                   (Some (if ev_channel e = Tool_Call then ev_text e
                          else if length (go_tokens source) = 1 then go_new_text source else ev_text e))
                   False None
                   (if ev_channel e = Tool_Call then No_logprobs
                    else step_logprob (lps_per_step (go_logprobs source)) i) of
              Inl err \<Rightarrow> (Inl err, r)
            | Inr ro \<Rightarrow> obind (route_chunk api source (Suc i) ts r) (\<lambda>ros r. (Inr (ro # ros), r))))"

definition finalize_output_router ::
    "('r, 'c) router_api \<Rightarrow> ('c, 'l, 'm) gen_output \<Rightarrow> 'r \<Rightarrow> (('c, 'l, 'm) gen_output option, 'r) outcome" where
  "finalize_output_router api source r =
     (case api_finalize api r of
        (Inr (Some e), r) \<Rightarrow>
          (case make_routed_output source e None True (go_finish_reason source) No_logprobs of
             Inl err \<Rightarrow> (Inl err, r) | Inr ro \<Rightarrow> (Inr (Some ro), r))
      | (_, r) \<Rightarrow> (Inr None, r))"

definition mark_finished ::
    "('c, 'l, 'm) gen_output \<Rightarrow> ('c, 'l, 'm) gen_output list \<Rightarrow> ('c, 'l, 'm) gen_output list" where
  "mark_finished source ros = butlast ros @
     [(last ros)\<lparr>go_finished := True, go_finish_reason := go_finish_reason source,
       go_timing_metrics := go_timing_metrics source\<rparr>]"

text \<open>One round of the generator: what it yields for an output, and the router it goes on with.\<close>

definition stream_round ::
    "('r, 'c) router_api \<Rightarrow> ('c, 'l, 'm) gen_output \<Rightarrow> 'r option \<Rightarrow> (('c, 'l, 'm) gen_output list, 'r option) outcome"
where
  "stream_round api source ro =
     (case ro of None \<Rightarrow> (Inr [source], None)
      | Some r \<Rightarrow>
          if go_tokens source = [] then (Inr [source], Some r)
          else case route_chunk api source 0 (go_tokens source) r of
              (Inl err, r) \<Rightarrow> (Inr [source], None)
            | (Inr ros, r) \<Rightarrow>
                if \<not> go_finished source then (Inr ros, Some r)
                else (case finalize_output_router api source r of
                    (Inl err, r) \<Rightarrow> (Inl err, Some r)
                  | (Inr None, r) \<Rightarrow>
                      (Inr (if ros = [] then [routed_finish_sentinel source] else mark_finished source ros), Some r)
                  | (Inr (Some f), r) \<Rightarrow> (Inr (ros @ [f]), Some r)))"

fun stream_with_output_router ::
    "('r, 'c) router_api \<Rightarrow> ('c, 'l, 'm) gen_output list \<Rightarrow> 'r option \<Rightarrow> (unit, ('c, 'l, 'm) gen_output list) outcome"
where
  "stream_with_output_router api [] ro = (Inr (), [])"
| "stream_with_output_router api (source # sources) ro =
     (case stream_round api source ro of
        (Inl err, _) \<Rightarrow> (Inl err, [])
      | (Inr ys, ro) \<Rightarrow> map_prod id (\<lambda>zs. ys @ zs) (stream_with_output_router api sources ro))"

section \<open>A finished token list\<close>

fun feed_seed :: "('r, 'c) router_api \<Rightarrow> int list \<Rightarrow> 'r \<Rightarrow> (unit, 'r) outcome" where
  "feed_seed api [] r = (Inr (), r)"
| "feed_seed api (t # ts) r = obind (api_feed api t r) (\<lambda>_ r. feed_seed api ts r)"

fun call_payload :: "'c call \<Rightarrow> ('c list \<times> 'c list) option" where
  "call_payload (Structured p) = Some p"
| "call_payload (Wire s) = None"

definition route_tokens_for_channels ::
    "('r, 'c) router_api \<Rightarrow> 'r option \<Rightarrow> int list option \<Rightarrow> 'c list \<Rightarrow> int list option
     \<Rightarrow> 'c list \<times> 'c list \<times> ('c list \<times> 'c list) list option" where
  "route_tokens_for_channels api ro token_ids fallback seed =
     (case (token_ids, ro) of
        (Some (t # ts), Some r) \<Rightarrow>
          (case obind (feed_seed api (case seed of None \<Rightarrow> [] | Some s \<Rightarrow> s) (api_reset api r))
                  (\<lambda>_ r. api_sequence api (t # ts) r) of
             (Inl _, _) \<Rightarrow> ([], fallback, None)
           | (Inr ch, _) \<Rightarrow>
               let reasoning = (case ch_reasoning ch of None \<Rightarrow> [] | Some s \<Rightarrow> s);
                   calls = (case ch_calls ch of None \<Rightarrow> [] | Some cs \<Rightarrow> cs)
               in if calls \<noteq> [] \<and> list_all (\<lambda>c. call_payload c \<noteq> None) calls
                  then (reasoning, case ch_content ch of None \<Rightarrow> [] | Some s \<Rightarrow> s, Some (List.map_filter call_payload calls))
                  else if ch_content ch = None \<and> reasoning \<noteq> [] then (reasoning, [], None)
                  else (reasoning, fallback, None))
      | _ \<Rightarrow> ([], fallback, None))"

end
