(* ===== verification/RouterStreamCorrect.thy ===== *)
theory RouterStreamCorrect
  imports RouterStream
begin

text \<open>
  What the stream promises, for every router that does not raise: \<open>token_router\<close> is that contract, and the stream
  yields exactly the router's events, one output each, the last one finished.
\<close>

section \<open>The events behind a stream\<close>

fun api_events :: "('r, 'c) router_api \<Rightarrow> int list \<Rightarrow> 'r \<Rightarrow> 'c event list \<times> 'r" where
  "api_events api [] r = ([], r)"
| "api_events api (t # ts) r =
     (case api_feed api t r of
        (Inl _, r') \<Rightarrow> ([], r')
      | (Inr eo, r') \<Rightarrow> (case api_events api ts r' of (es, r'') \<Rightarrow> (some_event eo @ es, r'')))"

definition final_event :: "('r, 'c) router_api \<Rightarrow> 'r \<Rightarrow> 'c event list" where
  "final_event api r = (case api_finalize api r of (Inr eo, _) \<Rightarrow> some_event eo | (Inl _, _) \<Rightarrow> [])"

text \<open>A single-token output keeps the engine's own text; this says that it is the text of the router's event.\<close>

fun texts_agree :: "('r, 'c) router_api \<Rightarrow> ('c, 'l, 'm) gen_output list \<Rightarrow> 'r \<Rightarrow> bool" where
  "texts_agree api [] r = True"
| "texts_agree api (source # sources) r =
     ((length (go_tokens source) = 1 \<longrightarrow>
        list_all (\<lambda>e. ev_channel e = Tool_Call \<or> ev_text e = go_new_text source) (fst (api_events api (go_tokens source) r)))
      \<and> texts_agree api sources (snd (api_events api (go_tokens source) r)))"

fun channel_str :: "channel \<Rightarrow> string" where
  "channel_str Content = ''content''"
| "channel_str Reasoning = ''reasoning''"
| "channel_str Tool_Call = ''tool_call''"
| "channel_str Control = []"

lemma channel_name_str: "ch \<noteq> Control \<Longrightarrow> channel_name ch = Inr (channel_str ch)"
  by (cases ch) simp_all

abbreviation shown :: "('c, 'l, 'm) gen_output \<Rightarrow> string option \<times> 'c list" where
  "shown y \<equiv> (go_channel y, go_new_text y)"

abbreviation event_shown :: "'c event \<Rightarrow> string option \<times> 'c list" where
  "event_shown e \<equiv> (Some (channel_str (ev_channel e)), ev_text e)"

text \<open>Outputs that are routed, in order, with their channel and text.\<close>

definition routed_texts :: "('c, 'l, 'm) gen_output list \<Rightarrow> (string option \<times> 'c list) list" where
  "routed_texts ys = map shown (filter (\<lambda>y. go_channel y \<noteq> None) ys)"

definition ends_once :: "('c, 'l, 'm) gen_output list \<Rightarrow> string option \<Rightarrow> bool" where
  "ends_once ys reason \<longleftrightarrow> ys \<noteq> [] \<and> list_all (\<lambda>y. \<not> go_finished y) (butlast ys) \<and> go_finished (last ys) \<and>
     go_finish_reason (last ys) = reason"

lemma routed_texts_simps [simp]:
  "routed_texts [] = []" "routed_texts (xs @ ys) = routed_texts xs @ routed_texts ys"
  "routed_texts (y # ys) = (if go_channel y = None then [] else [shown y]) @ routed_texts ys"
  by (simp_all add: routed_texts_def)

lemma mark_finished_texts: "ros \<noteq> [] \<Longrightarrow> routed_texts (mark_finished source ros) = routed_texts ros"
proof -
  assume "ros \<noteq> []"
  then have "routed_texts ros = routed_texts (butlast ros @ [last ros])" by simp
  then show ?thesis by (simp add: mark_finished_def del: append_butlast_last_id)
qed

lemma make_routed_output_returns:
  assumes "ev_channel e \<noteq> Control"
  obtains ro where "make_routed_output source e nt finished reason lps = Inr ro"
    "shown ro = (Some (channel_str (ev_channel e)), case nt of None \<Rightarrow> ev_text e | Some s \<Rightarrow> s)"
    "go_finished ro = finished" "go_finish_reason ro = reason"
  using assms by (auto simp: make_routed_output_def channel_name_str)

section \<open>The contract of a router\<close>

locale token_router =
  fixes api :: "('r, 'c) router_api" and good :: "'r \<Rightarrow> bool"
  assumes feed_returns: "good r \<Longrightarrow> \<exists>eo r'. api_feed api t r = (Inr eo, r') \<and> good r' \<and>
      (\<forall>e. eo = Some e \<longrightarrow> ev_channel e \<noteq> Control)"
    and finalize_returns: "good r \<Longrightarrow> \<exists>eo r'. api_finalize api r = (Inr eo, r') \<and> good r' \<and>
      (\<forall>e. eo = Some e \<longrightarrow> ev_channel e \<noteq> Control)"
begin

lemma events_good: "good r \<Longrightarrow> good (snd (api_events api ts r))"
proof (induction ts arbitrary: r)
  case (Cons t ts)
  then show ?case using feed_returns [of r t] by (auto simp: split_beta)
qed simp

lemma chunk_events:
  assumes "good r"
    and "length (go_tokens source) = 1 \<longrightarrow>
      list_all (\<lambda>e. ev_channel e = Tool_Call \<or> ev_text e = go_new_text source) (fst (api_events api ts r))"
  shows "\<exists>ros. route_chunk api source i ts r = (Inr ros, snd (api_events api ts r)) \<and>
    map shown ros = map event_shown (fst (api_events api ts r)) \<and>
    list_all (\<lambda>y. \<not> go_finished y \<and> go_channel y \<noteq> None) ros"
  using assms
proof (induction ts arbitrary: r i)
  case (Cons t ts)
  obtain eo r1 where f: "api_feed api t r = (Inr eo, r1)" "good r1" "\<And>e. eo = Some e \<Longrightarrow> ev_channel e \<noteq> Control"
    using feed_returns [OF Cons.prems(1), of t] by auto
  have agree: "length (go_tokens source) = 1 \<longrightarrow>
      list_all (\<lambda>e. ev_channel e = Tool_Call \<or> ev_text e = go_new_text source) (fst (api_events api ts r1))"
    using Cons.prems(2) f(1) by (auto split: prod.splits)
  obtain ros where ros: "route_chunk api source (Suc i) ts r1 = (Inr ros, snd (api_events api ts r1))"
    "map shown ros = map event_shown (fst (api_events api ts r1))"
    "list_all (\<lambda>y. \<not> go_finished y \<and> go_channel y \<noteq> None) ros"
    using Cons.IH [OF f(2) agree, of "Suc i"] by auto
  show ?case
  proof (cases eo)
    case None
    then show ?thesis using f(1) ros by (simp add: split_beta)
  next
    case (Some e)
    let ?nt = "if ev_channel e = Tool_Call then ev_text e
      else if length (go_tokens source) = 1 then go_new_text source else ev_text e"
    let ?lp = "if ev_channel e = Tool_Call then No_logprobs else step_logprob (lps_per_step (go_logprobs source)) i"
    have same_text: "?nt = ev_text e"
      using Cons.prems(2) f(1) Some by (auto split: prod.splits)
    obtain ro where mk: "make_routed_output source e (Some ?nt) False None ?lp = Inr ro"
      "shown ro = (Some (channel_str (ev_channel e)), ?nt)" "\<not> go_finished ro"
      by (rule make_routed_output_returns [OF f(3) [OF Some], of source "Some ?nt" False None ?lp]) auto
    have rc: "route_chunk api source i (t # ts) r = (Inr (ro # ros), snd (api_events api ts r1))"
      using f(1) Some mk(1) ros(1) by simp
    have evs: "api_events api (t # ts) r = (e # fst (api_events api ts r1), snd (api_events api ts r1))"
      using f(1) Some by (simp add: split_beta)
    show ?thesis unfolding rc evs using mk(2,3) ros(2,3) same_text by (intro exI [of _ "ro # ros"]) auto
  qed
qed simp

lemma round_yields:
  assumes "good r" "go_tokens source \<noteq> []" "\<not> go_finished source" "texts_agree api (source # sources) r"
  shows "\<exists>ys. stream_round api source (Some r) = (Inr ys, Some (snd (api_events api (go_tokens source) r))) \<and>
    routed_texts ys = map event_shown (fst (api_events api (go_tokens source) r)) \<and> list_all (\<lambda>y. \<not> go_finished y) ys"
proof -
  obtain ros where "route_chunk api source 0 (go_tokens source) r = (Inr ros, snd (api_events api (go_tokens source) r))"
    "map shown ros = map event_shown (fst (api_events api (go_tokens source) r))"
    "list_all (\<lambda>y. \<not> go_finished y \<and> go_channel y \<noteq> None) ros"
    using chunk_events [OF assms(1), of source "go_tokens source" 0] assms(4) by auto
  moreover from this(3) have "filter (\<lambda>y. go_channel y \<noteq> None) ros = ros" by (simp add: list.pred_set)
  ultimately show ?thesis using assms(2,3)
    by (auto simp: stream_round_def routed_texts_def list.pred_set)
qed

lemma last_round_yields:
  assumes "good r" "go_tokens source \<noteq> []" "go_finished source" "texts_agree api [source] r"
  shows "\<exists>ys r'. stream_round api source (Some r) = (Inr ys, r') \<and>
    routed_texts ys = map event_shown (fst (api_events api (go_tokens source) r) @
      final_event api (snd (api_events api (go_tokens source) r))) \<and>
    ends_once ys (go_finish_reason source)"
proof -
  let ?r = "snd (api_events api (go_tokens source) r)"
  obtain ros where ros: "route_chunk api source 0 (go_tokens source) r = (Inr ros, ?r)"
    "map shown ros = map event_shown (fst (api_events api (go_tokens source) r))"
    "list_all (\<lambda>y. \<not> go_finished y \<and> go_channel y \<noteq> None) ros"
    using chunk_events [OF assms(1), of source "go_tokens source" 0] assms(4) by auto
  from ros(3) have texts: "routed_texts ros = map shown ros" and open': "list_all (\<lambda>y. \<not> go_finished y) ros"
    by (auto simp: routed_texts_def list.pred_set intro!: arg_cong [of _ _ "map shown"])
  obtain eo r2 where fin: "api_finalize api ?r = (Inr eo, r2)" "\<And>e. eo = Some e \<Longrightarrow> ev_channel e \<noteq> Control"
    using finalize_returns [OF events_good [OF assms(1)], of "go_tokens source"] by auto
  show ?thesis
  proof (cases eo)
    case None
    have "finalize_output_router api source ?r = (Inr None, r2)"
      using fin None by (simp add: finalize_output_router_def)
    then have round: "stream_round api source (Some r) =
        (Inr (if ros = [] then [routed_finish_sentinel source] else mark_finished source ros), Some r2)"
      using ros(1) assms(2,3) by (simp add: stream_round_def)
    have "routed_texts (if ros = [] then [routed_finish_sentinel source] else mark_finished source ros) =
        map event_shown (fst (api_events api (go_tokens source) r))"
      using texts ros(2) by (auto simp: mark_finished_texts routed_finish_sentinel_def)
    moreover have "ends_once (if ros = [] then [routed_finish_sentinel source] else mark_finished source ros)
        (go_finish_reason source)"
      using open' by (auto simp: ends_once_def mark_finished_def routed_finish_sentinel_def list.pred_set dest: in_set_butlastD)
    ultimately show ?thesis using round fin None by (simp add: final_event_def)
  next
    case (Some e)
    obtain f where f: "make_routed_output source e None True (go_finish_reason source) No_logprobs = Inr f"
      "shown f = event_shown e" "go_finished f" "go_finish_reason f = go_finish_reason source"
      by (rule make_routed_output_returns [OF fin(2) [OF Some], of source None True "go_finish_reason source" No_logprobs])
        auto
    have "stream_round api source (Some r) = (Inr (ros @ [f]), Some r2)"
      using ros(1) assms(2,3) fin Some f(1) by (simp add: stream_round_def finalize_output_router_def)
    then show ?thesis using texts ros(2) f open' fin Some by (auto simp: final_event_def ends_once_def)
  qed
qed

theorem stream_yields_events:
  assumes "good r" "list_all (\<lambda>s. go_tokens s \<noteq> [] \<and> \<not> go_finished s) sources"
    "go_tokens source \<noteq> []" "go_finished source" "texts_agree api (sources @ [source]) r"
    and ev: "api_events api (concat (map go_tokens (sources @ [source]))) r = (es, r')"
  shows "\<exists>ys. stream_with_output_router api (sources @ [source]) (Some r) = (Inr (), ys) \<and>
    routed_texts ys = map event_shown (es @ final_event api r') \<and> ends_once ys (go_finish_reason source)"
proof -
  have split: "api_events api (ts @ us) r = (fst (api_events api ts r) @ fst (api_events api us (snd (api_events api ts r))),
      snd (api_events api us (snd (api_events api ts r))))" if "good r" for ts us r
    using that
  proof (induction ts arbitrary: r)
    case (Cons t ts)
    then show ?case using feed_returns [of r t] by (auto simp: split_beta)
  qed simp
  show ?thesis
    using assms
  proof (induction sources arbitrary: r es)
    case Nil
    then show ?case using last_round_yields [of r source] by auto
  next
    case (Cons s sources)
    let ?r = "snd (api_events api (go_tokens s) r)"
    obtain ys where ys: "stream_round api s (Some r) = (Inr ys, Some ?r)"
      "routed_texts ys = map event_shown (fst (api_events api (go_tokens s) r))" "list_all (\<lambda>y. \<not> go_finished y) ys"
      using round_yields [of r s "sources @ [source]"] Cons.prems by auto
    obtain es2 where ev2: "api_events api (concat (map go_tokens (sources @ [source]))) ?r = (es2, r')"
      "es = fst (api_events api (go_tokens s) r) @ es2"
      using Cons.prems(1,6) split [of r "go_tokens s"] by (auto simp: prod_eq_iff)
    obtain zs where "stream_with_output_router api (sources @ [source]) (Some ?r) = (Inr (), zs)"
      "routed_texts zs = map event_shown (es2 @ final_event api r')" "ends_once zs (go_finish_reason source)"
      using Cons.IH [OF events_good [OF Cons.prems(1)] _ Cons.prems(3,4) _ ev2(1)] Cons.prems by auto
    then show ?case using ys ev2(2) by (auto simp: ends_once_def butlast_append)
  qed
qed

end

end
