(* ===== verification/RouterClaims.thy ===== *)
theory RouterClaims
  imports RouterStreamCorrect
begin

text \<open>
  \<open>OutputRouter\<close> fulfils the contract of a router; the properties of routing and of the routed stream.
\<close>

section \<open>OutputRouter as a token router\<close>

definition no_control :: "router \<Rightarrow> bool" where
  "no_control r \<longleftrightarrow> pending_message_channel r \<noteq> Some Control"

lemma route_token_control:
  assumes "no_control r"
  shows "case route_token tk t r of (eo, r') \<Rightarrow> no_control r' \<and> (\<forall>e. eo = Some e \<longrightarrow> ev_channel e \<noteq> Control)"
  by (rule route_token_cases)
    (use assms in \<open>auto simp: no_control_def route_channel_word_def route_message_def route_tool_body_def forget_pending_def Let_def\<close>)

lemma feed_control:
  assumes "no_control r"
  shows "case feed tk t r of (eo, r') \<Rightarrow> no_control r' \<and> (\<forall>e. eo = Some e \<longrightarrow> ev_channel e \<noteq> Control)"
proof -
  obtain eo r1 where d: "drain_pending_init_word tk t r = (eo, r1)" by force
  then have r1: "no_control r1" "\<And>e. eo = Some e \<Longrightarrow> ev_channel e = Content"
    using assms by (auto simp: drain_pending_init_word_def no_control_def Let_def split: option.splits if_splits)
  then have "no_control (r1\<lparr>redo_queue := q\<rparr>)" for q by (simp add: no_control_def)
  then show ?thesis using d r1 route_token_control [of r1 tk t]
      route_token_control [of "r1\<lparr>redo_queue := tl (redo_queue r1) @ [t]\<rparr>" tk "hd (redo_queue r1)"]
    by (auto simp: feed_def split: option.splits list.splits)
qed

lemma finalize_control:
  assumes "no_control r"
  shows "case finalize tk r of (eo, r') \<Rightarrow> no_control r' \<and> (\<forall>e. eo = Some e \<longrightarrow> ev_channel e \<noteq> Control)"
proof -
  have init: "case drain_pending_init_word_at_finalize tk r of (eo, r') \<Rightarrow>
      no_control r' \<and> (\<forall>e. eo = Some e \<longrightarrow> ev_channel e \<noteq> Control)" if "no_control r" for r
    using that by (auto simp: drain_pending_init_word_at_finalize_def no_control_def split: option.splits)
  have flush: "case flush_buffers tk r of (eo, r') \<Rightarrow>
      no_control r' \<and> (\<forall>e. eo = Some e \<longrightarrow> ev_channel e \<noteq> Control)" if "no_control r" for r
    using that by (auto simp: flush_buffers_def forget_pending_def no_control_def Let_def split: option.splits)
  obtain eo r1 where d: "drain_pending_init_word_at_finalize tk r = (eo, r1)" by force
  have r1: "no_control r1" "\<And>e. eo = Some e \<Longrightarrow> ev_channel e \<noteq> Control" using init [OF assms] d by auto
  obtain fo r2 where f: "feed tk (hd (redo_queue r1)) (r1\<lparr>redo_queue := tl (redo_queue r1)\<rparr>) = (fo, r2)" by force
  have "no_control (r1\<lparr>redo_queue := tl (redo_queue r1)\<rparr>)" using r1(1) by (simp add: no_control_def)
  from feed_control [OF this, of tk "hd (redo_queue r1)"]
  have r2: "no_control r2" "\<And>e. fo = Some e \<Longrightarrow> ev_channel e \<noteq> Control" using f by auto
  obtain go r3 where g: "drain_pending_init_word_at_finalize tk r2 = (go, r3)" by force
  have r3: "no_control r3" "\<And>e. go = Some e \<Longrightarrow> ev_channel e \<noteq> Control" using init [OF r2(1)] g by auto
  show ?thesis using d r1 f r2 g r3 flush [OF r1(1)] flush [OF r3(1)]
    by (cases eo; cases "redo_queue r1"; cases fo; cases go) (auto simp: finalize_def)
qed

interpretation legacy: token_router "legacy_api tk" no_control for tk :: "'c text_codec"
proof
  fix r t assume "no_control r"
  then show "\<exists>eo r'. api_feed (legacy_api tk) t r = (Inr eo, r') \<and> no_control r' \<and>
      (\<forall>e. eo = Some e \<longrightarrow> ev_channel e \<noteq> Control)"
    using feed_control [of r tk t] by (auto simp: legacy_api_def split: prod.splits)
  from \<open>no_control r\<close> show "\<exists>eo r'. api_finalize (legacy_api tk) r = (Inr eo, r') \<and> no_control r' \<and>
      (\<forall>e. eo = Some e \<longrightarrow> ev_channel e \<noteq> Control)"
    using finalize_control [of r tk] by (auto simp: legacy_api_def split: prod.splits)
qed

lemma legacy_events: "api_events (legacy_api tk) ts r = feed_all tk ts r"
  by (induction ts arbitrary: r) (auto simp: legacy_api_def split: prod.split)

section \<open>One finalize is enough\<close>

text \<open>At most one of the two lookahead buffers is in use, and never together with the others.\<close>

definition buffers_exclusive :: "router \<Rightarrow> bool" where
  "buffers_exclusive r \<longleftrightarrow> (case pending_init_word r of
     None \<Rightarrow> redo_queue r = [] \<or> (\<exists>d. redo_queue r = [d]) \<and> rstate r \<noteq> INIT
   | Some (w, target) \<Rightarrow> redo_queue r = [] \<and> rstate r = INIT \<and> target \<in> {THINKING, IN_CONTENT})"

lemma route_token_exclusive:
  assumes "route_token tk t r = (eo, r')" "pending_init_word r = None" "redo_queue r = [] \<or> rstate r \<noteq> INIT \<and> length (redo_queue r) = 1"
  shows "buffers_exclusive r'"
  using route_token_events [where tk = tk and t = t and r = r] assms
  by (auto simp: buffers_exclusive_def length_Suc_conv split: option.splits)

lemma feed_exclusive:
  assumes "buffers_exclusive r" "feed tk t r = (eo, r')"
  shows "buffers_exclusive r'"
proof (cases "pending_init_word r")
  case None
  then have "feed tk t r = (case redo_queue r of [] \<Rightarrow> route_token tk t r
      | deferred # rest \<Rightarrow> route_token tk deferred (r\<lparr>redo_queue := rest @ [t]\<rparr>))"
    by (rule feed_not_pending)
  moreover have "redo_queue r = [] \<or> (\<exists>d. redo_queue r = [d]) \<and> rstate r \<noteq> INIT"
    using assms(1) None by (simp add: buffers_exclusive_def)
  ultimately show ?thesis using assms(2) None
    by (auto intro: route_token_exclusive [of tk t r eo] route_token_exclusive [of tk _ "r\<lparr>redo_queue := [t]\<rparr>" eo])
next
  case (Some p)
  then have p: "redo_queue r = []" "rstate r = INIT" "snd p \<in> {THINKING, IN_CONTENT}"
    using assms(1) by (auto simp: buffers_exclusive_def)
  show ?thesis
  proof (cases "blank tk (decode tk [t])")
    case True
    then have "feed tk t r = route_token tk t (r\<lparr>pending_init_word := None, rstate := snd p\<rparr>)"
      using Some p by (simp add: feed_def drain_pending_init_word_def split: prod.split)
    then show ?thesis using assms(2) p by (intro route_token_exclusive [of tk t _ eo]) auto
  next
    case False
    then show ?thesis using assms(2) Some p
      by (auto simp: feed_def drain_pending_init_word_def buffers_exclusive_def split: prod.splits)
  qed
qed

lemma feed_all_exclusive: "buffers_exclusive r \<Longrightarrow> feed_all tk ts r = (es, r') \<Longrightarrow> buffers_exclusive r'"
  by (induction ts arbitrary: r es) (auto intro: feed_exclusive split: prod.splits)

definition settled :: "router \<Rightarrow> bool" where
  "settled r \<longleftrightarrow> pending_init_word r = None \<and> redo_queue r = [] \<and> rstate r \<in> {INIT, THINKING, IN_CONTENT}"

lemma settled_idle: "settled r \<Longrightarrow> finalize tk r = (None, r)"
  by (auto simp: settled_def finalize_def drain_pending_init_word_at_finalize_def flush_buffers_def)

lemma flush_settled:
  assumes "flush_buffers tk r = (Some e, r')" "pending_init_word r = None" "redo_queue r = []"
  shows "settled r'"
  using flush_buffers_some(2-4) [OF assms(1)] assms(2,3) by (simp add: settled_def)

lemma finalize_some_settled:
  assumes "buffers_exclusive r" "finalize tk r = (Some e, r')"
  shows "settled r'"
proof (cases "pending_init_word r")
  case (Some p)
  then have p: "redo_queue r = []" "rstate r = INIT" using assms(1) by (auto simp: buffers_exclusive_def)
  then show ?thesis using assms(2) Some
    by (auto simp: finalize_def drain_pending_init_word_at_finalize_def flush_buffers_def settled_def
        split: prod.splits if_splits)
next
  case None
  then have q: "redo_queue r = [] \<or> (\<exists>d. redo_queue r = [d]) \<and> rstate r \<noteq> INIT"
    using assms(1) by (simp add: buffers_exclusive_def)
  show ?thesis
  proof (cases "redo_queue r")
    case Nil
    then show ?thesis using assms(2) None flush_settled [of tk r e r']
      by (simp add: finalize_def drain_pending_init_word_at_finalize_def)
  next
    case (Cons d rest)
    then have d: "redo_queue r = [d]" "rstate r \<noteq> INIT" using q by auto
    obtain fo r2 where rt: "route_token tk d (r\<lparr>redo_queue := []\<rparr>) = (fo, r2)" by force
    have r2: "redo_queue r2 = []" "pending_init_word r2 = None"
      "fo \<noteq> None \<longrightarrow> rstate r2 \<in> {INIT, THINKING, IN_CONTENT}"
      using route_token_events [where tk = tk and t = d and r = "r\<lparr>redo_queue := []\<rparr>"] rt None d by auto
    have "feed tk d (r\<lparr>redo_queue := []\<rparr>) = (fo, r2)" using None rt by (simp add: feed_not_pending)
    then show ?thesis using assms(2) None d r2 flush_settled [of tk r2 e r']
      by (cases fo) (auto simp: finalize_def drain_pending_init_word_at_finalize_def settled_def)
  qed
qed

lemma finalize_once:
  assumes "buffers_exclusive r"
  shows "fst (drain_all tk r) = some_event (fst (finalize tk r))"
proof (cases "finalize tk r")
  case (Pair eo r')
  then have "finalize tk r' = (None, r')" if "eo \<noteq> None"
    using that finalize_some_settled [OF assms] settled_idle by blast
  with Pair show ?thesis
    by (cases eo) (simp_all add: drain_all.simps [of tk r] drain_all.simps [of tk r'])
qed

lemma new_router_exclusive [simp]: "buffers_exclusive (new_router m)" "no_control (new_router m)"
  by (simp_all add: buffers_exclusive_def new_router_def no_control_def)

lemma new_router_fields [simp]:
  "rmap (new_router m) = m" "rstate (new_router m) = INIT" "pending_init_word (new_router m) = None"
  "redo_queue (new_router m) = []" "pending_channel_style (new_router m) = None"
  by (simp_all add: new_router_def)

lemma stream_events:
  assumes "feed_all tk ts (new_router m) = (es, r')"
  shows "es @ final_event (legacy_api tk) r' = routed_events tk ts (new_router m)"
  using finalize_once [OF feed_all_exclusive [OF new_router_exclusive(1) assms], of tk] assms
  by (simp add: routed_events_def final_event_def legacy_api_def map_prod_def split_beta)

lemma finalize_none_idle:
  assumes "buffers_exclusive r" "finalize tk r = (None, r')"
  shows "fst (finalize tk r') = None"
proof -
  have idle: "fst (finalize tk q') = None"
    if "flush_buffers tk q = (None, q')" "pending_init_word q = None" "redo_queue q = []" for q q'
    using flush_buffers_idle [OF that(1)] that(2,3)
    by (simp add: finalize_def drain_pending_init_word_at_finalize_def)
  obtain eo r1 where d: "drain_pending_init_word_at_finalize tk r = (eo, r1)" by force
  have r1: "r1 = r\<lparr>pending_init_word := None\<rparr>" "eo = None"
    using init_word_at_finalize [OF d] assms(2) d by (auto simp: finalize_def split: option.splits)
  show ?thesis
  proof (cases "redo_queue r")
    case Nil
    then show ?thesis using assms(2) d r1 idle [of r1 r'] by (simp add: finalize_def)
  next
    case (Cons t rest)
    then have p: "pending_init_word r = None" "redo_queue r = [t]" "rstate r \<noteq> INIT"
      using assms(1) by (auto simp: buffers_exclusive_def split: option.splits)
    obtain fo r2 where rt: "route_token tk t (r\<lparr>redo_queue := []\<rparr>) = (fo, r2)" by force
    have r2: "redo_queue r2 = []" "pending_init_word r2 = None"
      using route_token_events [where tk = tk and t = t and r = "r\<lparr>redo_queue := []\<rparr>"] rt p by auto
    have "r1 = r" using r1(1) p(1) by (cases r) simp
    moreover have "feed tk t (r\<lparr>redo_queue := []\<rparr>) = (fo, r2)" using p rt by (simp add: feed_not_pending)
    ultimately have "flush_buffers tk r2 = (None, r')"
      using assms(2) d r1(2) p r2 by (cases fo) (auto simp: finalize_def drain_pending_init_word_at_finalize_def)
    then show ?thesis using idle r2 by blast
  qed
qed

section \<open>Properties of the router\<close>

definition spell :: "'c text_codec \<Rightarrow> int list \<Rightarrow> 'c list" where
  "spell tk ts = concat (map (\<lambda>t. decode tk [t]) ts)"

lemma spell_simps [simp]:
  "spell tk [] = []" "spell tk (t # ts) = decode tk [t] @ spell tk ts" "spell tk (ts @ us) = spell tk ts @ spell tk us"
  by (simp_all add: spell_def)

lemma channel_text_simps [simp]:
  "channel_text ch [] = []" "channel_text ch (es @ fs) = channel_text ch es @ channel_text ch fs"
  "channel_text ch (e # es) = (if ev_channel e = ch then ev_text e else []) @ channel_text ch es"
  "channel_text ch (token_events tk c ts) = (if c = ch then spell tk ts else [])"
  "tool_texts [] = []" "tool_texts (es @ fs) = tool_texts es @ tool_texts fs"
  "tool_texts (e # es) = (if ev_channel e = Tool_Call then [ev_text e] else []) @ tool_texts es"
  by (simp_all add: channel_text_def tool_texts_def token_events_def spell_def filter_map o_def)

lemma tool_texts_tokens [simp]: "c \<noteq> Tool_Call \<Longrightarrow> tool_texts (token_events tk c ts) = []"
  by (simp add: tool_texts_def token_events_def filter_map o_def)

definition sorted_out :: "'c text_codec \<Rightarrow> 'c list \<Rightarrow> 'c list \<Rightarrow> 'c list list \<Rightarrow> 'c routed" where
  "sorted_out tk said thought calls = \<lparr>ro_content = or_none (strip tk said), ro_reasoning = or_none (strip tk thought),
     ro_tool_calls = or_none calls\<rparr>"

lemma sequence_events:
  "fst (feed_sequence tk ts (new_router m)) =
     (let es = route_ahead tk ts (new_router m)
      in sorted_out tk (channel_text Content es) (channel_text Reasoning es) (tool_texts es))"
proof -
  have "routed_events tk ts (new_router m) = route_ahead tk ts (new_router m)"
    by (rule routed_ahead) simp_all
  then show ?thesis
    by (simp add: feed_sequence_def routed_events_def sorted_out_def Let_def split_beta
        flip: channel_text_simps(2) channel_text_simps(6))
qed

text \<open>
  C9. The router emits token by token exactly what it would emit with the whole output at hand: holding back a channel
  word and running one token behind lose, add and reorder nothing, and one \<open>finalize\<close> flushes everything.
\<close>
theorem router_looks_ahead:
  "case feed_all tk ts (new_router m) of (es, r) \<Rightarrow>
     (case finalize tk r of (eo, r') \<Rightarrow>
        es @ some_event eo = route_ahead tk ts (new_router m) \<and> fst (finalize tk r') = None)"
proof -
  obtain es r where f: "feed_all tk ts (new_router m) = (es, r)" by force
  obtain eo r' where fin: "finalize tk r = (eo, r')" by force
  have ex: "buffers_exclusive r" using feed_all_exclusive [OF new_router_exclusive(1) f] .
  have "es @ some_event eo = routed_events tk ts (new_router m)"
    using f fin finalize_once [OF ex, of tk] by (simp add: routed_events_def)
  also have "\<dots> = route_ahead tk ts (new_router m)"
    by (rule routed_ahead) simp_all
  finally have "es @ some_event eo = route_ahead tk ts (new_router m)" .
  moreover have "fst (finalize tk r') = None"
  proof (cases eo)
    case None
    then show ?thesis using finalize_none_idle [OF ex] fin by blast
  next
    case (Some e)
    then have "settled r'" using finalize_some_settled [OF ex] fin by blast
    then show ?thesis by (simp add: settled_idle)
  qed
  ultimately show ?thesis using f fin by simp
qed

fun said :: "segment \<Rightarrow> int list" where
  "said (Saying ts) = ts" | "said (Plain ts) = ts" | "said _ = []"

fun thought :: "segment \<Rightarrow> int list" where
  "thought (Thinking ts) = ts" | "thought _ = []"

fun called :: "token_map \<Rightarrow> segment \<Rightarrow> int list list" where
  "called m (Calling ts) = [render m (Calling ts)]" | "called m _ = []"

lemma segments_text:
  "channel_text Content (concat (map (segment_events tk m) segs)) = spell tk (concat (map said segs))"
  "channel_text Reasoning (concat (map (segment_events tk m) segs)) = spell tk (concat (map thought segs))"
  "tool_texts (concat (map (segment_events tk m) segs)) = map (decode tk) (concat (map (called m) segs))"
proof (induction segs)
  case (Cons seg segs)
  { case 1 show ?case using Cons(1) by (cases seg) simp_all }
  { case 2 show ?case using Cons(2) by (cases seg) simp_all }
  { case 3 show ?case using Cons(3) by (cases seg) simp_all }
qed simp_all

text \<open>
  C10. On a transcript in Gemma 4's layout the router puts the tokens of the thought channel into the reasoning, those of
  the content channel and outside any channel into the content, and each tool call whole, markers included, into the
  calls; channel words inside a body are text.
\<close>
theorem gemma_transcript_routed:
  assumes "chat_format m" "list_all (well_formed m) segs"
  shows "fst (feed_sequence tk (concat (map (render m) segs)) (new_router m)) =
    sorted_out tk (spell tk (concat (map said segs))) (spell tk (concat (map thought segs)))
      (map (decode tk) (concat (map (called m) segs)))"
  using run_segments [of "new_router m" segs tk] assms
  by (simp add: sequence_events segments_text Let_def at_rest_def)

definition gemma_vocab :: "string \<Rightarrow> int option" where
  "gemma_vocab = map_of [(''<pad>'', 0), (''<eos>'', 1), (''<bos>'', 2), (''<|tool>'', 46), (''<tool|>'', 47),
     (''<|tool_call>'', 48), (''<tool_call|>'', 49), (''<|tool_response>'', 50), (''<tool_response|>'', 51),
     (''<|channel>'', 100), (''<channel|>'', 101), (''<|turn>'', 105), (''<turn|>'', 106),
     (''thought'', 45518), (''content'', 3955), (''final'', 10218)]"

text \<open>A small codec for the witnesses: an id is a letter, its text that letter.\<close>

definition letter_codec :: "int text_codec" where
  "letter_codec = \<lparr>decode = (\<lambda>ts. ts), is_space = (\<lambda>c. c = 32)\<rparr>"

lemma gemma_vocab_format: "chat_format (gemma4_map gemma_vocab)"
  by (simp add: chat_format_def channel_markers_def suppressed_markers_def gemma4_map_def gemma_vocab_def no_tokens_def)

theorem gemma_transcript_routed_witness:
  "fst (feed_sequence letter_codec [100, 45518, 7, 3955, 101, 48, 8, 49, 9] (new_router (gemma4_map gemma_vocab))) =
     \<lparr>ro_content = Some [9], ro_reasoning = Some [7, 3955], ro_tool_calls = Some [[48, 8, 49]]\<rparr>"
proof -
  let ?m = "gemma4_map gemma_vocab"
  have m: "channel_start ?m = Some 100" "channel_end ?m = Some 101" "thought_word ?m = Some 45518"
    "tool_call_start ?m = Some 48" "tool_call_end ?m = Some 49"
    by (simp_all add: gemma4_map_def gemma_vocab_def no_tokens_def)
  have "list_all (well_formed ?m) [Thinking [7, 3955], Calling [8], Plain [9]]"
    by (simp add: ordinary_def bare_word_def channel_markers_def suppressed_markers_def gemma4_map_def gemma_vocab_def
        no_tokens_def)
  from gemma_transcript_routed [OF gemma_vocab_format this, of letter_codec] show ?thesis
    by (simp add: m sorted_out_def or_none_def strip_def letter_codec_def spell_def)
qed

fun turn_said :: "harmony_turn \<Rightarrow> int list" where
  "turn_said (Final h ts) = ts" | "turn_said _ = []"

fun turn_thought :: "harmony_turn \<Rightarrow> int list" where
  "turn_thought (Analysis h ts) = ts" | "turn_thought _ = []"

lemma turns_text:
  "channel_text Content (concat (map (turn_events tk) turns)) = spell tk (concat (map turn_said turns))"
  "channel_text Reasoning (concat (map (turn_events tk) turns)) = spell tk (concat (map turn_thought turns))"
  "tool_texts (concat (map (turn_events tk) turns)) = []"
proof (induction turns)
  case (Cons turn turns)
  { case 1 show ?case using Cons(1) by (cases turn) simp_all }
  { case 2 show ?case using Cons(2) by (cases turn) simp_all }
  { case 3 show ?case using Cons(3) by (cases turn) simp_all }
qed simp_all

text \<open>
  On a Harmony transcript the bodies of analysis messages become the reasoning and those of final messages the
  content; headers, roles and markers reach neither.
\<close>
theorem harmony_transcript_routed:
  assumes "harmony_format m" "list_all (well_formed_turn m) turns"
  shows "fst (feed_sequence tk (concat (map (render_turn m) turns)) (new_router m)) =
    sorted_out tk (spell tk (concat (map turn_said turns))) (spell tk (concat (map turn_thought turns))) []"
  using run_turns [of "new_router m" turns tk] assms
  by (simp add: sequence_events turns_text Let_def)

definition harmony_vocab :: "string \<Rightarrow> int option" where
  "harmony_vocab = map_of [(''<|return|>'', 200002), (''<|constrain|>'', 200003), (''<|channel|>'', 200005),
     (''<|start|>'', 200006), (''<|end|>'', 200007), (''<|message|>'', 200008), (''<|call|>'', 200012),
     (''<|endoftext|>'', 200019), (''analysis'', 35644), (''final'', 17196)]"

lemma harmony_vocab_format: "harmony_format (harmony_map harmony_vocab)"
  by (simp add: harmony_format_def harmony_markers_def other_markers_def channel_markers_def harmony_map_def
      harmony_vocab_def no_tokens_def)

theorem harmony_transcript_routed_witness:
  "fst (feed_sequence letter_codec
     [200005, 35644, 200008, 7, 200007, 200006, 5, 200005, 17196, 200008, 8, 32, 9, 200002]
     (new_router (harmony_map harmony_vocab))) =
     \<lparr>ro_content = Some [8, 32, 9], ro_reasoning = Some [7], ro_tool_calls = None\<rparr>"
proof -
  let ?m = "harmony_map harmony_vocab"
  have m: "harmony_channel ?m = Some 200005" "harmony_message ?m = Some 200008" "harmony_start ?m = Some 200006"
    "harmony_end ?m = Some 200007" "harmony_return ?m = Some 200002" "harmony_analysis_word ?m = Some 35644"
    "harmony_final_word ?m = Some 17196"
    by (simp_all add: harmony_map_def harmony_vocab_def no_tokens_def)
  have "list_all (well_formed_turn ?m) [Analysis None [7], Final (Some [5]) [8, 32, 9]]"
    by (simp add: ordinary_def channel_markers_def suppressed_markers_def harmony_map_def harmony_vocab_def no_tokens_def)
  from harmony_transcript_routed [OF harmony_vocab_format this, of letter_codec] show ?thesis
    by (simp add: m sorted_out_def or_none_def strip_def letter_codec_def spell_def)
qed

section \<open>Properties of the stream\<close>

definition stream_text :: "string \<Rightarrow> ('c, 'l, 'm) gen_output list \<Rightarrow> 'c list" where
  "stream_text name ys = concat (map go_new_text (filter (\<lambda>y. go_channel y = Some name) ys))"

definition stream_calls :: "('c, 'l, 'm) gen_output list \<Rightarrow> 'c list list" where
  "stream_calls ys = map go_new_text (filter (\<lambda>y. go_channel y = Some ''tool_call'') ys)"

lemma channel_str_eq:
  "channel_str ch = ''content'' \<longleftrightarrow> ch = Content" "channel_str ch = ''reasoning'' \<longleftrightarrow> ch = Reasoning"
  "channel_str ch = ''tool_call'' \<longleftrightarrow> ch = Tool_Call"
  by (cases ch; simp)+

lemma stream_text_shown: "stream_text name ys = concat (map snd (filter (\<lambda>p. fst p = Some name) (routed_texts ys)))"
  by (induction ys) (auto simp: stream_text_def)

lemma stream_calls_shown: "stream_calls ys = map snd (filter (\<lambda>p. fst p = Some ''tool_call'') (routed_texts ys))"
  by (induction ys) (auto simp: stream_calls_def)

lemma stream_of_events:
  assumes "routed_texts ys = map event_shown es"
  shows "stream_text ''content'' ys = channel_text Content es" "stream_text ''reasoning'' ys = channel_text Reasoning es"
    "stream_calls ys = tool_texts es"
  unfolding stream_text_shown stream_calls_shown assms
  by (simp_all add: channel_text_def tool_texts_def filter_map o_def channel_str_eq)

text \<open>No channel word is held back: each event comes with its own token.\<close>

fun on_time :: "'c text_codec \<Rightarrow> router \<Rightarrow> int list \<Rightarrow> bool" where
  "on_time tk r [] = True"
| "on_time tk r (t # ts) =
     (pending_init_word (snd (route_token tk t r)) = None \<and> on_time tk (snd (route_token tk t r)) ts)"

lemma route_token_text:
  "case route_token tk t r of (eo, r') \<Rightarrow>
     \<forall>e. eo = Some e \<longrightarrow> ev_channel e = Tool_Call \<or> ev_text e = decode tk [t]"
  by (rule route_token_cases) (auto simp: route_channel_word_def route_tool_body_def Let_def)

lemma on_time_feed:
  assumes "on_time tk r (ts @ us)" "pending_init_word r = None" "redo_queue r = []"
  shows "on_time tk (snd (feed_all tk ts r)) us \<and> pending_init_word (snd (feed_all tk ts r)) = None \<and>
    redo_queue (snd (feed_all tk ts r)) = []"
  using assms
proof (induction ts arbitrary: r)
  case (Cons t ts)
  then have f: "feed tk t r = route_token tk t r" by (simp add: feed_not_pending)
  have "redo_queue (snd (route_token tk t r)) = []"
    using route_token_fields(1) [of tk t r] Cons.prems(3) by (cases "route_token tk t r") simp
  then show ?case using Cons.IH [of "snd (route_token tk t r)"] Cons.prems(1) f by (simp add: split_beta)
qed simp

lemma texts_agree_on_time:
  assumes "\<forall>s\<in>set ss. length (go_tokens s) = 1 \<longrightarrow> go_new_text s = decode tk (go_tokens s)"
    and "on_time tk r (concat (map go_tokens ss))" "pending_init_word r = None" "redo_queue r = []"
  shows "texts_agree (legacy_api tk) ss r"
  using assms
proof (induction ss arbitrary: r)
  case (Cons s ss)
  let ?r = "snd (feed_all tk (go_tokens s) r)"
  have next': "on_time tk ?r (concat (map go_tokens ss)) \<and> pending_init_word ?r = None \<and> redo_queue ?r = []"
    using on_time_feed [of tk r "go_tokens s" "concat (map go_tokens ss)"] Cons.prems by simp
  have "list_all (\<lambda>e. ev_channel e = Tool_Call \<or> ev_text e = go_new_text s) (fst (feed_all tk (go_tokens s) r))"
    if len: "length (go_tokens s) = 1"
  proof -
    obtain t where t: "go_tokens s = [t]" using len by (cases "go_tokens s") auto
    have "feed tk t r = route_token tk t r" using Cons.prems by (simp add: feed_not_pending)
    then show ?thesis using t Cons.prems(1) len route_token_text [of tk t r]
      by (auto split: prod.splits option.splits)
  qed
  then show ?case using Cons.IH [of ?r] Cons.prems(1) next' by (auto simp: legacy_events)
qed simp

text \<open>
  C11. Streaming and non-streaming agree: when every output has tokens, the last one and no other is finished, and every
  output that carries a single token carries that token's text and no channel word is held back (or no output carries a
  single token), the stream's content, reasoning and tool calls are those of \<open>feed_sequence\<close> on all the tokens, and
  exactly the last output yielded is finished, with the source's reason.
\<close>
theorem stream_agrees_with_sequence:
  fixes sources :: "('c, 'l, 'm) gen_output list"
  assumes open': "list_all (\<lambda>s. go_tokens s \<noteq> [] \<and> \<not> go_finished s) sources"
    and last: "go_tokens source \<noteq> []" "go_finished source"
    and single: "\<forall>s\<in>set (sources @ [source]). length (go_tokens s) = 1 \<longrightarrow> go_new_text s = decode tk (go_tokens s)"
    and ts: "ts = concat (map go_tokens (sources @ [source]))"
    and kept: "on_time tk (new_router m) ts \<or> (\<forall>s\<in>set (sources @ [source]). length (go_tokens s) \<noteq> 1)"
  shows "\<exists>ys. stream_with_output_router (legacy_api tk) (sources @ [source]) (Some (new_router m)) = (Inr (), ys) \<and>
    ends_once ys (go_finish_reason source) \<and>
    fst (feed_sequence tk ts (new_router m)) =
      sorted_out tk (stream_text ''content'' ys) (stream_text ''reasoning'' ys) (stream_calls ys)"
proof -
  have "texts_agree (legacy_api tk) ss r" if "\<forall>s\<in>set ss. length (go_tokens s) \<noteq> 1" for ss :: "('c, 'l, 'm) gen_output list" and r
    using that by (induction ss arbitrary: r) simp_all
  then have agree: "texts_agree (legacy_api tk) (sources @ [source]) (new_router m)"
    using kept texts_agree_on_time [OF single] ts by auto
  obtain es r' where ev: "feed_all tk ts (new_router m) = (es, r')" by force
  obtain ys where ys: "stream_with_output_router (legacy_api tk) (sources @ [source]) (Some (new_router m)) = (Inr (), ys)"
    "routed_texts ys = map event_shown (es @ final_event (legacy_api tk) r')" "ends_once ys (go_finish_reason source)"
    using legacy.stream_yields_events [OF _ open' last agree, of es r'] ev ts by (auto simp: legacy_events)
  have "es @ final_event (legacy_api tk) r' = route_ahead tk ts (new_router m)"
    using stream_events [OF ev] routed_ahead [of "new_router m" tk ts] by simp
  then show ?thesis using ys stream_of_events [OF ys(2)] by (simp add: sequence_events Let_def)
qed

section \<open>Where routing goes wrong\<close>

text \<open>
  A channel word anywhere before the first marker, not only as the first token, is swallowed when whitespace follows:
  it reaches no channel, and after \<open>thought\<close> the rest of a plain answer becomes reasoning.
\<close>
theorem midstream_word_swallowed:
  assumes "list_all (\<lambda>t. ordinary m t \<and> bare_word m t = None) (before @ space # after)"
    and "ordinary m w" "bare_word m w = Some target" "blank tk (decode tk [space])"
  shows "fst (feed_sequence tk (before @ w # space # after) (new_router m)) =
    (if target = THINKING
     then sorted_out tk (spell tk before) (spell tk (space # after)) []
     else sorted_out tk (spell tk (before @ space # after)) [] [])"
proof -
  let ?r = "new_router m"
  let ?p = "?r\<lparr>pending_init_word := Some (w, target)\<rparr>"
  let ?q = "?p\<lparr>pending_init_word := None, rstate := target\<rparr>"
  have target: "target = THINKING \<or> target = IN_CONTENT"
    using assms(3) by (auto simp: bare_word_def split: if_splits)
  have w: "route_token tk w ?r = (None, ?p)"
    using assms(2,3) by (auto simp: route_unsuppressed ordinary_def channel_markers_def)
  have body: "route_ahead tk (space # after) ?q =
      token_events tk (if target = THINKING then Reasoning else Content) (space # after)"
    using run_body [of ?q "space # after" tk "[]"] assms(1) target
    by (auto simp: flush_buffers_def list.pred_set simp del: route_ahead.simps(2))
  have "route_ahead tk (before @ w # space # after) ?r = token_events tk Content before @ route_ahead tk (w # space # after) ?r"
    using run_plain [of ?r before tk] assms(1) by simp
  also have "route_ahead tk (w # space # after) ?r = route_ahead tk (space # after) ?q"
    using w assms(4) by (simp add: settle_def del: route_ahead.simps(2)) (simp add: settle_def)
  finally show ?thesis using body by (auto simp: sequence_events Let_def simp del: route_ahead.simps(2))
qed

theorem midstream_word_swallowed_witness:
  "fst (feed_sequence letter_codec [7, 45518, 32, 8] (new_router (gemma4_map gemma_vocab))) =
     \<lparr>ro_content = Some [7], ro_reasoning = Some [8], ro_tool_calls = None\<rparr>"
proof -
  let ?m = "gemma4_map gemma_vocab"
  have "list_all (\<lambda>t. ordinary ?m t \<and> bare_word ?m t = None) ([7] @ 32 # [8])" "ordinary ?m 45518"
    "bare_word ?m 45518 = Some THINKING" "blank letter_codec (decode letter_codec [32])"
    by (simp_all add: ordinary_def bare_word_def channel_markers_def suppressed_markers_def gemma4_map_def gemma_vocab_def
        no_tokens_def blank_def letter_codec_def)
  from midstream_word_swallowed [OF this] show ?thesis
    by (simp add: sorted_out_def or_none_def strip_def letter_codec_def spell_def)
qed

text \<open>An output of the engine that carries the tokens, their text, and nothing else.\<close>

definition plain_output :: "'c list \<Rightarrow> int list \<Rightarrow> bool \<Rightarrow> ('c, unit, unit) gen_output" where
  "plain_output s ts fin = \<lparr>go_text = [], go_tokens = ts, go_prompt_tokens = 0, go_completion_tokens = 0,
     go_finish_reason = (if fin then Some ''stop'' else None), go_new_text = s, go_finished = fin,
     go_logprobs = No_logprobs, go_channel = None, go_raw_text = [], go_reasoning_text = [], go_tool_calls = None,
     go_cached_tokens = 0, go_matched_stop = None, go_spec_decode_metrics = None, go_prompt_compression = None,
     go_timing_metrics = None, go_prompt_parse_context = None\<rparr>"

theorem stream_agrees_with_sequence_witness:
  "\<exists>ys :: (int, unit, unit) gen_output list.
     stream_with_output_router (legacy_api letter_codec)
       ([plain_output [100] [100] False, plain_output [45518] [45518] False, plain_output [7] [7] False] @
          [plain_output [101, 8] [101, 8] True])
       (Some (new_router (gemma4_map gemma_vocab))) = (Inr (), ys) \<and>
     ends_once ys (Some ''stop'') \<and>
     fst (feed_sequence letter_codec [100, 45518, 7, 101, 8] (new_router (gemma4_map gemma_vocab))) =
       sorted_out letter_codec (stream_text ''content'' ys) (stream_text ''reasoning'' ys) (stream_calls ys)"
proof -
  let ?m = "gemma4_map gemma_vocab"
  let ?ss = "[plain_output [100] [100] False, plain_output [45518] [45518] False, plain_output [7] [7] False]
    :: (int, unit, unit) gen_output list"
  let ?s = "plain_output [101, 8] [101, 8] True :: (int, unit, unit) gen_output"
  have 1: "list_all (\<lambda>s. go_tokens s \<noteq> [] \<and> \<not> go_finished s) ?ss" "go_tokens ?s \<noteq> []" "go_finished ?s"
    "\<forall>s\<in>set (?ss @ [?s]). length (go_tokens s) = 1 \<longrightarrow> go_new_text s = decode letter_codec (go_tokens s)"
    "[100, 45518, 7, 101, 8] = concat (map go_tokens (?ss @ [?s]))"
    by (simp_all add: plain_output_def letter_codec_def)
  have m: "rmap (new_router ?m) = ?m" by simp
  have "on_time letter_codec (new_router ?m) [100, 45518, 7, 101, 8]"
    by (simp add: new_router_def route_token_def route_channel_word_def gemma4_map_def gemma_vocab_def no_tokens_def)
  then have "on_time letter_codec (new_router ?m) [100, 45518, 7, 101, 8] \<or>
      (\<forall>s\<in>set (?ss @ [?s]). length (go_tokens s) \<noteq> 1)" ..
  from stream_agrees_with_sequence [OF 1 this] show ?thesis by (simp add: plain_output_def)
qed

text \<open>One round on a single token, when the router is one token behind.\<close>

lemma behind_feed:
  assumes "pending_init_word r = None" "redo_queue r = [d]" "rstate r = IN_CONTENT" "ordinary (rmap r) d"
  shows "feed tk t r = (Some (event_of tk Content d [d]), r\<lparr>redo_queue := [t]\<rparr>)"
  using assms by (auto simp: feed_not_pending route_unsuppressed ordinary_def channel_markers_def)

lemma single_round:
  assumes "api_feed api t r = (Inr (Some e), r')" "ev_channel e = Content" "go_tokens source = [t]" "\<not> go_finished source"
  shows "\<exists>y. stream_round api source (Some r) = (Inr [y], Some r') \<and> shown y = (Some ''content'', go_new_text source)"
  using assms by (auto simp: stream_round_def make_routed_output_def)

lemma single_last_round:
  assumes "api_feed api t r = (Inr (Some e), r')" "ev_channel e = Content" "go_tokens source = [t]" "go_finished source"
    and "api_finalize api r' = (Inr (Some f), r'')" "ev_channel f = Content"
  shows "\<exists>y z. stream_round api source (Some r) = (Inr [y, z], Some r'') \<and> shown y = (Some ''content'', go_new_text source) \<and>
    shown z = (Some ''content'', ev_text f)"
  using assms by (auto simp: stream_round_def make_routed_output_def finalize_output_router_def)

lemma behind_finalize:
  assumes "pending_init_word r = None" "redo_queue r = [d]" "rstate r = IN_CONTENT" "ordinary (rmap r) d"
  shows "finalize tk r = (Some (event_of tk Content d [d]), r\<lparr>redo_queue := []\<rparr>)"
  using assms
  by (auto simp: finalize_def drain_pending_init_word_at_finalize_def feed_not_pending route_unsuppressed ordinary_def
      channel_markers_def)

abbreviation one_each :: "'c text_codec \<Rightarrow> ('c, 'l, 'm) gen_output \<Rightarrow> int \<Rightarrow> bool" where
  "one_each tk s t \<equiv> go_tokens s = [t] \<and> go_new_text s = decode tk [t]"

lemma behind_stream:
  assumes "list_all2 (\<lambda>s t. one_each tk s t \<and> \<not> go_finished s) sources ts" "one_each tk source u" "go_finished source"
    and "list_all (ordinary (rmap r)) (d # ts @ [u])"
    and "pending_init_word r = None" "redo_queue r = [d]" "rstate r = IN_CONTENT"
  shows "\<exists>ys. stream_with_output_router (legacy_api tk) (sources @ [source]) (Some r) = (Inr (), ys) \<and>
    stream_text ''content'' ys = spell tk (ts @ [u]) @ decode tk [u] \<and> stream_text ''reasoning'' ys = []"
  using assms
proof (induction sources ts arbitrary: r d rule: list_all2_induct)
  case Nil
  have f: "api_feed (legacy_api tk) u r = (Inr (Some (event_of tk Content d [d])), r\<lparr>redo_queue := [u]\<rparr>)"
    using behind_feed [of r d tk u] Nil by (simp add: legacy_api_def)
  have "api_finalize (legacy_api tk) (r\<lparr>redo_queue := [u]\<rparr>) =
      (Inr (Some (event_of tk Content u [u])), r\<lparr>redo_queue := []\<rparr>)"
    using behind_finalize [of "r\<lparr>redo_queue := [u]\<rparr>" u tk] Nil by (simp add: legacy_api_def)
  from single_last_round [OF f _ _ _ this, of source] Nil show ?case
    by (auto simp: stream_text_def)
next
  case (Cons s ss t ts)
  have "api_feed (legacy_api tk) t r = (Inr (Some (event_of tk Content d [d])), r\<lparr>redo_queue := [t]\<rparr>)"
    using behind_feed [of r d tk t] Cons.prems by (simp add: legacy_api_def)
  from single_round [OF this, of s] obtain y where y:
    "stream_round (legacy_api tk) s (Some r) = (Inr [y], Some (r\<lparr>redo_queue := [t]\<rparr>))"
    "shown y = (Some ''content'', decode tk [t])"
    using Cons.hyps(1) by auto
  then show ?case using Cons.IH [of "r\<lparr>redo_queue := [t]\<rparr>" t] Cons.prems
    by (auto simp: stream_text_def)
qed

text \<open>
  C12. With one token per output, the default, an answer that begins with a channel word that turns out to be text is
  streamed wrong: the router is one token behind, each event is given the text of the output that released it, so the
  first word is missing and the last token comes twice, while the non-streaming answer is right.
\<close>
theorem stream_behind_shifts_text:
  fixes sources :: "('c, 'l, 'm) gen_output list"
  assumes first: "one_each tk s w" "\<not> go_finished s" and word: "ordinary m w" "bare_word m w \<noteq> None"
    and rest: "list_all2 (\<lambda>s t. one_each tk s t \<and> \<not> go_finished s) sources ts" "list_all (ordinary m) (t # ts @ [u])"
    and next': "one_each tk s' t" "\<not> go_finished s'" "\<not> blank tk (decode tk [t])"
    and last: "one_each tk source u" "go_finished source"
  shows "\<exists>ys. stream_with_output_router (legacy_api tk) (s # s' # sources @ [source]) (Some (new_router m)) = (Inr (), ys) \<and>
    stream_text ''content'' ys = spell tk (t # ts @ [u]) @ decode tk [u] \<and> stream_text ''reasoning'' ys = [] \<and>
    fst (feed_sequence tk (w # t # ts @ [u]) (new_router m)) = sorted_out tk (spell tk (w # t # ts @ [u])) [] []"
proof -
  let ?r = "new_router m"
  obtain target where target: "bare_word m w = Some target" "target = THINKING \<or> target = IN_CONTENT"
    using word(2) by (auto simp: bare_word_def split: if_splits)
  define p where "p = ?r\<lparr>pending_init_word := Some (w, target)\<rparr>"
  define q where "q = ?r\<lparr>rstate := IN_CONTENT, redo_queue := [t]\<rparr>"
  have w: "route_token tk w ?r = (None, p)"
    using word(1) target by (auto simp: route_unsuppressed ordinary_def channel_markers_def p_def)
  have fw: "api_feed (legacy_api tk) w ?r = (Inr None, p)"
    using w by (simp add: legacy_api_def feed_not_pending)
  have first_round: "stream_round (legacy_api tk) s (Some ?r) = (Inr [], Some p)"
    using fw first by (simp add: stream_round_def)
  have "feed tk t p = (Some (event_of tk Content w [w]), q)"
    using next'(3) by (simp add: feed_def drain_pending_init_word_def p_def q_def new_router_def)
  then have ft: "api_feed (legacy_api tk) t p = (Inr (Some (event_of tk Content w [w])), q)"
    by (simp add: legacy_api_def)
  from single_round [OF this, of s'] obtain y where y:
    "stream_round (legacy_api tk) s' (Some p) = (Inr [y], Some q)" "shown y = (Some ''content'', decode tk [t])"
    using next' by auto
  obtain ys where ys: "stream_with_output_router (legacy_api tk) (sources @ [source]) (Some q) = (Inr (), ys)"
    "stream_text ''content'' ys = spell tk (ts @ [u]) @ decode tk [u]" "stream_text ''reasoning'' ys = []"
    using behind_stream [OF rest(1) last, of q t] rest(2) by (auto simp: q_def)
  have "route_ahead tk (w # t # ts @ [u]) ?r = event_of tk Content w [w] #
      route_ahead tk ((t # ts @ [u]) @ []) (?r\<lparr>pending_init_word := None, rstate := IN_CONTENT\<rparr>)"
    using w next'(3) by (simp add: settle_def p_def del: route_ahead.simps(2)) (simp add: settle_def p_def)
  also have "route_ahead tk ((t # ts @ [u]) @ []) (?r\<lparr>pending_init_word := None, rstate := IN_CONTENT\<rparr>) =
      token_events tk Content (t # ts @ [u])"
    using run_body [of "?r\<lparr>pending_init_word := None, rstate := IN_CONTENT\<rparr>" "t # ts @ [u]" tk "[]"] rest(2)
    by (simp add: flush_buffers_def del: route_ahead.simps(2))
  finally have "fst (feed_sequence tk (w # t # ts @ [u]) ?r) = sorted_out tk (spell tk (w # t # ts @ [u])) [] []"
    by (simp add: sequence_events Let_def del: route_ahead.simps(2))
  then show ?thesis using first_round y ys
    by (auto simp: stream_text_def)
qed

theorem stream_behind_shifts_text_witness:
  "\<exists>ys :: (int, unit, unit) gen_output list.
     stream_with_output_router (legacy_api letter_codec)
       [plain_output [10218] [10218] False, plain_output [7] [7] False, plain_output [8] [8] True]
       (Some (new_router (gemma4_map gemma_vocab))) = (Inr (), ys) \<and>
     stream_text ''content'' ys = [7, 8, 8] \<and> stream_text ''reasoning'' ys = [] \<and>
     fst (feed_sequence letter_codec [10218, 7, 8] (new_router (gemma4_map gemma_vocab))) =
       sorted_out letter_codec [10218, 7, 8] [] []"
proof -
  let ?m = "gemma4_map gemma_vocab" and ?o = "plain_output :: int list \<Rightarrow> int list \<Rightarrow> bool \<Rightarrow> (int, unit, unit) gen_output"
  have 1: "one_each letter_codec (?o [t] [t] f) t" for t f
    by (simp add: plain_output_def letter_codec_def)
  have 2: "ordinary ?m 10218" "bare_word ?m 10218 \<noteq> None" "list_all (ordinary ?m) (7 # [] @ [8])"
    by (simp_all add: ordinary_def bare_word_def channel_markers_def suppressed_markers_def gemma4_map_def gemma_vocab_def
        no_tokens_def)
  have 3: "\<not> go_finished (?o [10218] [10218] False)" "\<not> go_finished (?o [7] [7] False)"
    "\<not> blank letter_codec (decode letter_codec [7])" "go_finished (?o [8] [8] True)"
    by (simp_all add: plain_output_def blank_def letter_codec_def)
  from stream_behind_shifts_text [where sources = "[]" and ts = "[]", OF 1 3(1) 2(1,2) _ 2(3) 1 3(2,3) 1 3(4)]
  show ?thesis by (simp add: letter_codec_def spell_def)
qed

text \<open>
  \<open>vocab.get(a) or vocab.get(b)\<close> takes the id 0 for a missing one: a DeepSeek tokenizer whose begin-of-sentence token
  has the id 0 and that has no plain \<open><bos>\<close> gets a router without BOS, which routes that token to the content.
\<close>
theorem deepseek_bos_zero_leaks:
  assumes "vocab (deepseek_marker ''begin'') = Some 0" "vocab ''<bos>'' = None"
    and "vocab ''<|channel>'' = None" "vocab ''<|channel|>'' = None"
    and "vocab ''<think>'' = Some a" "vocab ''</think>'' = Some b" "a \<noteq> 0" "b \<noteq> 0"
    and "py_or (vocab (deepseek_marker ''end'')) (vocab ''<eos>'') \<noteq> Some 0" "vocab ''<pad>'' \<noteq> Some 0"
  shows "\<exists>r. from_tokenizer vocab = Some r \<and> bos (rmap r) = None \<and>
    feed tk 0 r = (Some (event_of tk Content 0 [0]), r)"
  using assms
  by (simp add: from_tokenizer_def think_map_def no_tokens_def py_or_def [of "Some 0"] feed_not_pending route_token_def
      bare_word_def)

theorem deepseek_bos_zero_leaks_witness:
  "\<exists>r. from_tokenizer [deepseek_marker ''begin'' \<mapsto> 0, ''<think>'' \<mapsto> 128798, ''</think>'' \<mapsto> 128799] = Some r \<and>
    bos (rmap r) = None \<and> feed letter_codec 0 r = (Some (event_of letter_codec Content 0 [0]), r)"
  by (rule deepseek_bos_zero_leaks [where a = 128798 and b = 128799])
    (simp_all add: deepseek_marker_def fullwidth_bar_def low_block_def py_or_def)

end
