(* ===== verification/HarmonyRouter.thy ===== *)
theory HarmonyRouter
  imports RouterStreamCorrect
begin

text \<open>
  \<^bold>\<open>rapid_mlx/output_router_harmony.py.\<close> \<open>HarmonyStreamingRouter\<close>, which routes by the state of openai-harmony's
  \<open>StreamableParser\<close>. The parser is a library: a record of its operations is an argument, and its law is a hypothesis
  (it starts without messages, and a token it accepts closes at most one). It raises on a token it cannot follow, and
  then so does the router. Recipients and bodies are byte strings.
\<close>

section \<open>The parser's interface\<close>

record harmony_message =
  hm_channel :: "string option"
  hm_recipient :: "string option"
  hm_content :: "string option list"   \<comment> \<open>the \<open>text\<close> of each content part, where it has one\<close>

record 'p harmony_parser =
  parser_process :: "int \<Rightarrow> 'p \<Rightarrow> (unit, 'p) outcome"
  parser_process_eos :: "'p \<Rightarrow> (unit, 'p) outcome"
  parser_messages :: "'p \<Rightarrow> harmony_message list"
  parser_current_channel :: "'p \<Rightarrow> string option"
  parser_last_content_delta :: "'p \<Rightarrow> string option"
  parser_fresh :: 'p

record 'p harmony_router =
  hr_map :: token_map
  hr_parser :: 'p
  hr_emitted_msg_count :: nat

definition new_harmony_router :: "'p harmony_parser \<Rightarrow> token_map \<Rightarrow> 'p harmony_router" where
  "new_harmony_router P m = \<lparr>hr_map = m, hr_parser = parser_fresh P, hr_emitted_msg_count = 0\<rparr>"

definition harmony_reset :: "'p harmony_parser \<Rightarrow> 'p harmony_router \<Rightarrow> 'p harmony_router" where
  "harmony_reset P r = r\<lparr>hr_parser := parser_fresh P, hr_emitted_msg_count := 0\<rparr>"

section \<open>Tool calls\<close>

definition char_between :: "char \<Rightarrow> char \<Rightarrow> char \<Rightarrow> bool" where
  "char_between lo hi c \<longleftrightarrow> (of_char lo :: nat) \<le> of_char c \<and> (of_char c :: nat) \<le> of_char hi"

definition recipient_char :: "char \<Rightarrow> bool" where
  "recipient_char c \<longleftrightarrow> char_between (CHR ''A'') (CHR ''Z'') c \<or> char_between (CHR ''a'') (CHR ''z'') c \<or>
     char_between (CHR ''0'') (CHR ''9'') c \<or> c = CHR ''_'' \<or> c = CHR ''-''"

definition recipient_name :: "string \<Rightarrow> bool" where
  "recipient_name s \<longleftrightarrow> s \<noteq> [] \<and> length s \<le> 128 \<and> list_all recipient_char s"

text \<open>\<open>re.match\<close> with \<open>$\<close> at the end of the pattern: a final newline may follow.\<close>

definition recipient_shape :: "string \<Rightarrow> bool" where
  "recipient_shape r \<longleftrightarrow> take 10 r = ''functions.'' \<and>
     (recipient_name (drop 10 r) \<or>
      drop 10 r \<noteq> [] \<and> last (drop 10 r) = CHR 0x0A \<and> recipient_name (butlast (drop 10 r)))"

definition extract_structured_tool_call :: "harmony_message \<Rightarrow> (string \<times> string) option" where
  "extract_structured_tool_call msg =
     (case hm_recipient msg of None \<Rightarrow> None
      | Some r \<Rightarrow>
          if r = [] \<or> \<not> recipient_shape r then None
          else Some (tl (dropWhile (\<lambda>c. c \<noteq> CHR ''.'') r),
                     concat (map (\<lambda>t. case t of None \<Rightarrow> [] | Some s \<Rightarrow> s) (hm_content msg))))"

definition closed_call :: "harmony_message \<Rightarrow> (string \<times> string) option" where
  "closed_call msg =
     (if hm_channel msg = Some ''commentary'' \<and> hm_recipient msg \<noteq> None \<and> hm_recipient msg \<noteq> Some []
      then extract_structured_tool_call msg else None)"

section \<open>Routing\<close>

definition route_delta :: "'p harmony_parser \<Rightarrow> int \<Rightarrow> 'p \<Rightarrow> char event option" where
  "route_delta P t p =
     (case parser_last_content_delta P p of
        None \<Rightarrow> None
      | Some delta \<Rightarrow>
          if delta = [] then None
          else if parser_current_channel P p = Some ''analysis''
          then Some \<lparr>ev_channel = Reasoning, ev_token = t, ev_text = delta, ev_tool_call = None\<rparr>
          else if parser_current_channel P p = Some ''final''
          then Some \<lparr>ev_channel = Content, ev_token = t, ev_text = delta, ev_tool_call = None\<rparr>
          else None)"

definition harmony_feed ::
    "'p harmony_parser \<Rightarrow> int \<Rightarrow> 'p harmony_router \<Rightarrow> (char event option, 'p harmony_router) outcome" where
  "harmony_feed P t r =
     (case parser_process P t (hr_parser r) of
        (Inl _, p) \<Rightarrow> (Inl RuntimeError, r\<lparr>hr_parser := p\<rparr>)
      | (Inr _, p) \<Rightarrow>
          let r = r\<lparr>hr_parser := p\<rparr>; n = length (parser_messages P p)
          in if hr_emitted_msg_count r < n
             then let r = r\<lparr>hr_emitted_msg_count := n\<rparr>
                  in case closed_call (last (parser_messages P p)) of
                       Some (name, arguments) \<Rightarrow>
                         (Inr (Some \<lparr>ev_channel = Tool_Call, ev_token = t, ev_text = arguments,
                                ev_tool_call = Some (name, arguments)\<rparr>), r)
                     | None \<Rightarrow> (Inr (route_delta P t p), r)
             else (Inr (route_delta P t p), r))"

definition harmony_finalize ::
    "'p harmony_parser \<Rightarrow> 'p harmony_router \<Rightarrow> (char event option, 'p harmony_router) outcome" where
  "harmony_finalize P r = (Inr None, r\<lparr>hr_parser := snd (parser_process_eos P (hr_parser r))\<rparr>)"

fun harmony_feed_all ::
    "'p harmony_parser \<Rightarrow> int list \<Rightarrow> 'p harmony_router \<Rightarrow> (char event list, 'p harmony_router) outcome" where
  "harmony_feed_all P [] r = (Inr [], r)"
| "harmony_feed_all P (t # ts) r =
     obind (harmony_feed P t r) (\<lambda>eo r. obind (harmony_feed_all P ts r) (\<lambda>es r. (Inr (some_event eo @ es), r)))"

definition harmony_feed_sequence ::
    "'p harmony_parser \<Rightarrow> int list \<Rightarrow> 'p harmony_router \<Rightarrow> (char channels, 'p harmony_router) outcome" where
  "harmony_feed_sequence P ts r =
     obind (harmony_feed_all P ts r) (\<lambda>es r. obind (harmony_finalize P r) (\<lambda>eo r.
       (Inr \<lparr>ch_content = or_none (channel_text Content (es @ some_event eo)),
             ch_reasoning = or_none (channel_text Reasoning (es @ some_event eo)),
             ch_calls = or_none (List.map_filter
               (\<lambda>e. if ev_channel e = Tool_Call then map_option Structured (ev_tool_call e) else None)
               (es @ some_event eo))\<rparr>, r)))"

definition harmony_api :: "'p harmony_parser \<Rightarrow> ('p harmony_router, char) router_api" where
  "harmony_api P = \<lparr>api_feed = harmony_feed P, api_finalize = harmony_finalize P, api_reset = harmony_reset P,
     api_sequence = harmony_feed_sequence P\<rparr>"

section \<open>Every closed call surfaces once\<close>

text \<open>What is relied on of the parser: it starts without messages, and a token it accepts closes at most one.\<close>

definition parser_laws :: "'p harmony_parser \<Rightarrow> bool" where
  "parser_laws P \<longleftrightarrow> parser_messages P (parser_fresh P) = [] \<and>
     (\<forall>t p u p'. parser_process P t p = (Inr u, p') \<longrightarrow>
        parser_messages P p' = parser_messages P p \<or> (\<exists>m. parser_messages P p' = parser_messages P p @ [m]))"

text \<open>The tokens are a sequence that the parser can follow to its end.\<close>

fun parse_accepts :: "'p harmony_parser \<Rightarrow> int list \<Rightarrow> 'p \<Rightarrow> bool" where
  "parse_accepts P [] p = True"
| "parse_accepts P (t # ts) p =
     (case parser_process P t p of (Inl _, p') \<Rightarrow> False | (Inr _, p') \<Rightarrow> parse_accepts P ts p')"

fun parse_all :: "'p harmony_parser \<Rightarrow> int list \<Rightarrow> 'p \<Rightarrow> 'p" where
  "parse_all P [] p = p"
| "parse_all P (t # ts) p = parse_all P ts (snd (parser_process P t p))"

abbreviation structured_calls :: "char event list \<Rightarrow> (string \<times> string) list" where
  "structured_calls es \<equiv> List.map_filter (\<lambda>e. if ev_channel e = Tool_Call then ev_tool_call e else None) es"

lemma route_delta_no_call: "route_delta P t p = Some e \<Longrightarrow> ev_channel e \<in> {Reasoning, Content}"
  by (auto simp: route_delta_def split: option.splits if_splits)

lemma harmony_feed_step:
  assumes P: "parser_laws P" and n: "hr_emitted_msg_count r = length (parser_messages P (hr_parser r))"
    and p: "parser_process P t (hr_parser r) = (Inr (), p)"
  shows "\<exists>eo r'. harmony_feed P t r = (Inr eo, r') \<and> hr_parser r' = p \<and>
    hr_emitted_msg_count r' = length (parser_messages P p) \<and>
    List.map_filter closed_call (parser_messages P p) =
      List.map_filter closed_call (parser_messages P (hr_parser r)) @ structured_calls (some_event eo)"
proof -
  have delta: "structured_calls (some_event (route_delta P t p)) = []"
    using route_delta_no_call [of P t p]
    by (cases "route_delta P t p"; force simp: map_filter_simps)
  consider "parser_messages P p = parser_messages P (hr_parser r)"
    | m where "parser_messages P p = parser_messages P (hr_parser r) @ [m]"
    using P p by (metis parser_laws_def)
  then show ?thesis
  proof cases
    case 1
    then show ?thesis using p n delta by (auto simp: harmony_feed_def Let_def)
  next
    case 2
    then show ?thesis using p n delta
      by (cases "closed_call m") (auto simp: harmony_feed_def Let_def map_filter_simps map_filter_def)
  qed
qed

lemma harmony_feed_all_calls:
  assumes "parser_laws P" "hr_emitted_msg_count r = length (parser_messages P (hr_parser r))"
  shows "if parse_accepts P ts (hr_parser r)
    then \<exists>es r'. harmony_feed_all P ts r = (Inr es, r') \<and>
      List.map_filter closed_call (parser_messages P (parse_all P ts (hr_parser r))) =
        List.map_filter closed_call (parser_messages P (hr_parser r)) @ structured_calls es
    else fst (harmony_feed_all P ts r) = Inl RuntimeError"
  using assms(2)
proof (induction ts arbitrary: r)
  case Nil
  then show ?case by (simp add: map_filter_simps)
next
  case (Cons t ts)
  obtain res p where p: "parser_process P t (hr_parser r) = (res, p)" by force
  show ?case
  proof (cases res)
    case (Inl e)
    then show ?thesis using p by (simp add: harmony_feed_def)
  next
    case (Inr u)
    then obtain eo r1 where f: "harmony_feed P t r = (Inr eo, r1)" "hr_parser r1 = p"
      "hr_emitted_msg_count r1 = length (parser_messages P (hr_parser r1))"
      "List.map_filter closed_call (parser_messages P p) =
        List.map_filter closed_call (parser_messages P (hr_parser r)) @ structured_calls (some_event eo)"
      using harmony_feed_step [OF assms(1) Cons.prems, of t p] p by auto
    show ?thesis
      using Cons.IH [OF f(3)] f p Inr
      by (cases "harmony_feed_all P ts r1"; cases "fst (harmony_feed_all P ts r1)") (auto simp: map_filter_def split: if_splits)
  qed
qed

lemma structured_sequence:
  "List.map_filter (\<lambda>e. if ev_channel e = Tool_Call then map_option Structured (ev_tool_call e) else None) es =
     map Structured (structured_calls es)"
  by (induction es) (auto simp: map_filter_simps split: option.split)

text \<open>
  C13. When the parser follows the output to its end, every message it closes on the commentary channel for a
  well-formed recipient surfaces as exactly one structured call, in order, with the body verbatim; nothing else becomes
  a call, and a message left open by the end of the output does not. When it raises on a token, routing raises
  \<open>RuntimeError\<close> instead of surfacing some of the calls, and the caller falls back to the text parsers.
\<close>
theorem harmony_calls_exact:
  assumes "parser_laws P"
  shows "if parse_accepts P ts (parser_fresh P)
    then \<exists>ch r. harmony_feed_sequence P ts (new_harmony_router P m) = (Inr ch, r) \<and>
      ch_calls ch = or_none (map Structured (List.map_filter closed_call (parser_messages P (parse_all P ts (parser_fresh P)))))
    else fst (harmony_feed_sequence P ts (new_harmony_router P m)) = Inl RuntimeError"
proof -
  have fresh: "parser_messages P (parser_fresh P) = []" using assms by (simp add: parser_laws_def)
  have new: "hr_parser (new_harmony_router P m) = parser_fresh P"
    "hr_emitted_msg_count (new_harmony_router P m) = length (parser_messages P (hr_parser (new_harmony_router P m)))"
    using fresh by (simp_all add: new_harmony_router_def)
  show ?thesis
    using harmony_feed_all_calls [OF assms new(2), of ts] fresh unfolding new(1)
    by (cases "harmony_feed_all P ts (new_harmony_router P m)")
      (auto simp: harmony_feed_sequence_def harmony_finalize_def structured_sequence map_filter_simps obind_def split: if_splits)
qed

text \<open>
  A parser of one-token messages for the witness: a positive token is the whole message of a call, a negative one is
  rejected.
\<close>

definition toy_parser :: "harmony_message list harmony_parser" where
  "toy_parser = \<lparr>parser_process = (\<lambda>t ms. if t < 0 then (Inl ValueError, ms) else (Inr (), if 0 < t then ms @ [\<lparr>hm_channel = Some ''commentary'',
       hm_recipient = Some ''functions.get'', hm_content = [Some ''{}'']\<rparr>] else ms)),
     parser_process_eos = (\<lambda>ms. (Inr (), ms)), parser_messages = (\<lambda>ms. ms), parser_current_channel = (\<lambda>ms. None),
     parser_last_content_delta = (\<lambda>ms. None), parser_fresh = []\<rparr>"

theorem harmony_calls_exact_witness:
  "\<exists>ch r. harmony_feed_sequence toy_parser [0, 5, 0, 7] (new_harmony_router toy_parser no_tokens) = (Inr ch, r) \<and>
    ch_calls ch = Some [Structured (''get'', ''{}''), Structured (''get'', ''{}'')] \<and>
   fst (harmony_feed_sequence toy_parser [5, -1] (new_harmony_router toy_parser no_tokens)) = Inl RuntimeError"
proof -
  have laws: "parser_laws toy_parser" by (auto simp: parser_laws_def toy_parser_def)
  from harmony_calls_exact [OF laws, of "[0, 5, 0, 7]" no_tokens] harmony_calls_exact [OF laws, of "[5, -1]" no_tokens]
  show ?thesis
    by (simp add: toy_parser_def map_filter_simps closed_call_def extract_structured_tool_call_def recipient_shape_def
        recipient_name_def recipient_char_def char_between_def or_none_def)
qed

text \<open>The shape check lets a recipient pass that ends in a newline, and the newline stays in the name.\<close>

lemma recipient_newline_accepted:
  assumes "recipient_name name"
  shows "extract_structured_tool_call \<lparr>hm_channel = ch, hm_recipient = Some (''functions.'' @ name @ [CHR 0x0A]), hm_content = []\<rparr>
    = Some (name @ [CHR 0x0A], [])"
  using assms by (simp add: extract_structured_tool_call_def recipient_shape_def)

text \<open>Over a parser that accepts every token the Harmony router fulfils the contract of a router.\<close>

lemma harmony_token_router:
  fixes P :: "'p harmony_parser"
  assumes P: "\<forall>t p. fst (parser_process P t p) = Inr ()"
  shows "token_router (harmony_api P) (\<lambda>_. True)"
proof
  fix t and r :: "'p harmony_router"
  obtain p where p: "parser_process P t (hr_parser r) = (Inr (), p)"
    using P by (metis prod.collapse)
  have "\<And>e. route_delta P t p = Some e \<Longrightarrow> ev_channel e \<noteq> Control"
    using route_delta_no_call [of P t p] by force
  then show "\<exists>eo r'. api_feed (harmony_api P) t r = (Inr eo, r') \<and> True \<and> (\<forall>e. eo = Some e \<longrightarrow> ev_channel e \<noteq> Control)"
    using p by (auto simp: harmony_api_def harmony_feed_def Let_def split: option.split)
  show "\<exists>eo r'. api_finalize (harmony_api P) r = (Inr eo, r') \<and> True \<and> (\<forall>e. eo = Some e \<longrightarrow> ev_channel e \<noteq> Control)"
    by (simp add: harmony_api_def harmony_finalize_def)
qed

end
