(* ===== verification/MediaCache.thy ===== *)
theory MediaCache
  imports Prelude
begin

text \<open>
  \<^bold>\<open>rapid_mlx/mllm_cache.py and rapid_mlx/vision_embedding_cache.py.\<close> The two caches of multimodal requests. An
  \<open>OrderedDict\<close> is a list of pairs, oldest first: assigning to a present key keeps its place, popping and assigning moves it
  to the end. Vision embeddings and layer caches are of any type, with the bytes of their tensors as arguments; they are
  held by value (\<open>fetch\<close> deep-copies, and callers hand over caches they no longer use). Strings are their UTF-8 bytes,
  sha256's hex digest and the file system are arguments. Wall-clock times are left out, as nothing compares them.
\<close>

section \<open>Ordered dictionaries\<close>

definition od_get :: "'k \<Rightarrow> ('k \<times> 'v) list \<Rightarrow> 'v option" where
  "od_get k d = map_of d k"

fun od_set :: "'k \<Rightarrow> 'v \<Rightarrow> ('k \<times> 'v) list \<Rightarrow> ('k \<times> 'v) list" where
  "od_set k v [] = [(k, v)]"
| "od_set k v ((k', v') # d) = (if k = k' then (k, v) # d else (k', v') # od_set k v d)"

definition od_move_end :: "'k \<Rightarrow> 'v \<Rightarrow> ('k \<times> 'v) list \<Rightarrow> ('k \<times> 'v) list" where
  "od_move_end k v d = filter (\<lambda>p. fst p \<noteq> k) d @ [(k, v)]"

lemma od_set_absent: "k \<notin> fst ` set d \<Longrightarrow> od_set k v d = d @ [(k, v)]"
  by (induction k v d rule: od_set.induct) auto

lemma od_set_keys [simp]: "fst ` set (od_set k v d) = insert k (fst ` set d)"
  by (induction k v d rule: od_set.induct) auto

lemma od_set_distinct: "distinct (map fst d) \<Longrightarrow> distinct (map fst (od_set k v d))"
proof (induction k v d rule: od_set.induct)
  case (2 k v k' v' d)
  then have "k' \<notin> fst ` set d" by auto
  with 2 show ?case by auto
qed simp

lemma od_set_get: "map_of (od_set k v d) = (map_of d)(k \<mapsto> v)"
  by (induction k v d rule: od_set.induct) (auto simp: fun_eq_iff)

lemma od_set_length: "length (od_set k v d) = (if k \<in> fst ` set d then length d else Suc (length d))"
  by (induction k v d rule: od_set.induct) auto

lemma od_move_end_get: "map_of (od_move_end k v d) = (map_of d)(k \<mapsto> v)"
  unfolding od_move_end_def by (induction d) (auto simp: fun_eq_iff)

section \<open>Image hashes\<close>

text \<open>What a path leads to: nothing, a file that can be read, or something that raises when it is looked at or read.\<close>

datatype file_lookup = No_file | File_bytes string | Raises_error

definition compute_image_hash :: "(string \<Rightarrow> string) \<Rightarrow> (string \<Rightarrow> file_lookup) \<Rightarrow> string \<Rightarrow> string" where
  "compute_image_hash sha256_hex file_at img =
     (case file_at img of
        File_bytes content \<Rightarrow> take 16 (sha256_hex content)
      | No_file \<Rightarrow> take 16 (sha256_hex img)
      | Raises_error \<Rightarrow> take 16 (sha256_hex img))"

fun join_with :: "string \<Rightarrow> string list \<Rightarrow> string" where
  "join_with sep [] = []"
| "join_with sep [s] = s"
| "join_with sep (s # ss) = s @ sep @ join_with sep ss"

definition compute_images_hash :: "(string \<Rightarrow> string) \<Rightarrow> (string \<Rightarrow> file_lookup) \<Rightarrow> string list \<Rightarrow> string" where
  "compute_images_hash sha256_hex file_at images =
     (if images = [] then ''no_images''
      else take 16 (sha256_hex (join_with ''_'' (map (compute_image_hash sha256_hex file_at) images))))"

section \<open>The prefix cache of multimodal requests\<close>

record ('v, 'k) media_entry =
  me_image_hash :: string
  me_prompt_hash :: string
  me_vision_embeddings :: "'v option"
  me_kv_cache :: "'k list option"
  me_token_ids :: "int list"
  me_prompt_tokens :: int
  me_hit_count :: int
  me_model_name :: string

record media_stats =
  md_hits :: int
  md_misses :: int
  md_partial_hits :: int
  md_tokens_saved :: int
  md_image_cache_hits :: int
  md_vision_encoder_skips :: int
  md_total_queries :: int
  md_evictions :: int

record ('v, 'k) media_cache =
  md_max_size :: int
  md_max_memory :: int
  md_cache :: "(string \<times> ('v, 'k) media_entry) list"
  md_current_memory :: int
  md_stats :: media_stats

text \<open>The world around the cache: sha256, files, and the bytes of tensors.\<close>

record ('v, 'k) media_env =
  sha256_hex :: "string \<Rightarrow> string"
  file_at :: "string \<Rightarrow> file_lookup"
  vision_nbytes :: "'v \<Rightarrow> int"
  layer_nbytes :: "'k \<Rightarrow> int list"   \<comment> \<open>of the tensors in the layer's \<open>state\<close>, if it has one\<close>

definition fresh_media_stats :: media_stats where
  "fresh_media_stats = \<lparr>md_hits = 0, md_misses = 0, md_partial_hits = 0, md_tokens_saved = 0, md_image_cache_hits = 0,
     md_vision_encoder_skips = 0, md_total_queries = 0, md_evictions = 0\<rparr>"

definition media_init :: "int \<Rightarrow> int \<Rightarrow> ('v, 'k) media_cache" where
  "media_init max_entries max_memory_mb = \<lparr>md_max_size = max_entries, md_max_memory = max_memory_mb * 1024 * 1024,
     md_cache = [], md_current_memory = 0, md_stats = fresh_media_stats\<rparr>"

definition memory_size :: "('v, 'k) media_env \<Rightarrow> ('v, 'k) media_entry \<Rightarrow> int" where
  "memory_size env e =
     (case me_vision_embeddings e of None \<Rightarrow> 0 | Some v \<Rightarrow> vision_nbytes env v) +
     (case me_kv_cache e of None \<Rightarrow> 0 | Some layers \<Rightarrow> sum_list (concat (map (layer_nbytes env) layers)))"

definition total_tokens :: "('v, 'k) media_entry \<Rightarrow> int" where
  "total_tokens e = int (length (me_token_ids e))"

fun match_loop :: "int list \<Rightarrow> int list \<Rightarrow> int \<Rightarrow> int \<Rightarrow> int" where
  "match_loop (c # cs) (n # ns) i matched = (if c \<noteq> n then matched else match_loop cs ns (i + 1) (i + 1))"
| "match_loop cs ns i matched = matched"

definition get_prefix_match_length :: "('v, 'k) media_entry \<Rightarrow> int list \<Rightarrow> int" where
  "get_prefix_match_length e new_token_ids = match_loop (me_token_ids e) new_token_ids 0 0"

definition prompt_hash :: "('v, 'k) media_env \<Rightarrow> string \<Rightarrow> string" where
  "prompt_hash env prompt = take 16 (sha256_hex env prompt)"

definition make_cache_key :: "('v, 'k) media_env \<Rightarrow> string list \<Rightarrow> string \<Rightarrow> string" where
  "make_cache_key env images prompt =
     compute_images_hash (sha256_hex env) (file_at env) images @ ''_'' @ prompt_hash env prompt"

definition make_image_only_key :: "('v, 'k) media_env \<Rightarrow> string list \<Rightarrow> string" where
  "make_image_only_key env images = compute_images_hash (sha256_hex env) (file_at env) images"

text \<open>Eviction pops the oldest entry while its condition holds and there is one.\<close>

definition pop_oldest :: "('v, 'k) media_env \<Rightarrow> ('v, 'k) media_cache \<Rightarrow> ('v, 'k) media_cache" where
  "pop_oldest env s = s\<lparr>md_cache := tl (md_cache s),
     md_current_memory := md_current_memory s - memory_size env (snd (hd (md_cache s))),
     md_stats := (md_stats s)\<lparr>md_evictions := md_evictions (md_stats s) + 1\<rparr>\<rparr>"

function evict_by_memory :: "('v, 'k) media_env \<Rightarrow> int \<Rightarrow> ('v, 'k) media_cache \<Rightarrow> ('v, 'k) media_cache" where
  "evict_by_memory env required s =
     (if md_current_memory s + required > md_max_memory s \<and> md_cache s \<noteq> []
      then evict_by_memory env required (pop_oldest env s) else s)"
  by pat_completeness auto
termination
  by (relation "measure (\<lambda>(_, _, s). length (md_cache s))") (auto simp: pop_oldest_def)

declare evict_by_memory.simps [simp del]

function evict_by_count :: "('v, 'k) media_env \<Rightarrow> ('v, 'k) media_cache \<Rightarrow> ('v, 'k) media_cache" where
  "evict_by_count env s =
     (if int (length (md_cache s)) \<ge> md_max_size s \<and> md_cache s \<noteq> []
      then evict_by_count env (pop_oldest env s) else s)"
  by pat_completeness auto
termination
  by (relation "measure (\<lambda>(_, s). length (md_cache s))") (auto simp: pop_oldest_def)

declare evict_by_count.simps [simp del]

definition full_hit ::
    "('v, 'k) media_env \<Rightarrow> string list \<Rightarrow> string \<Rightarrow> ('v, 'k) media_entry \<Rightarrow> int list option \<Rightarrow> ('v, 'k) media_cache
     \<Rightarrow> (('v, 'k) media_entry option \<times> int) \<times> ('v, 'k) media_cache" where
  "full_hit env images key entry token_ids s =
     (let e = entry\<lparr>me_hit_count := me_hit_count entry + 1\<rparr>;
          given = (case token_ids of None \<Rightarrow> [] | Some ts \<Rightarrow> ts);
          matched = (if given = [] then total_tokens e else get_prefix_match_length e given);
          st = md_stats s
      in ((Some e, matched),
          s\<lparr>md_cache := od_move_end key e (md_cache s),
            md_stats := st\<lparr>md_hits := md_hits st + 1,
              md_image_cache_hits := md_image_cache_hits st + of_bool (images \<noteq> []),
              md_vision_encoder_skips := md_vision_encoder_skips st + of_bool (me_vision_embeddings e \<noteq> None),
              md_partial_hits := md_partial_hits st + of_bool (given \<noteq> [] \<and> matched < total_tokens e),
              md_tokens_saved := md_tokens_saved st + matched\<rparr>\<rparr>))"

definition media_fetch ::
    "('v, 'k) media_env \<Rightarrow> string list \<Rightarrow> string \<Rightarrow> int list option \<Rightarrow> ('v, 'k) media_cache
     \<Rightarrow> (('v, 'k) media_entry option \<times> int) \<times> ('v, 'k) media_cache" where
  "media_fetch env images prompt token_ids s0 =
     (let s = s0\<lparr>md_stats := (md_stats s0)\<lparr>md_total_queries := md_total_queries (md_stats s0) + 1\<rparr>\<rparr>;
          key = make_cache_key env images prompt; st = md_stats s
      in case od_get key (md_cache s) of
           Some entry \<Rightarrow> full_hit env images key entry token_ids s
         | None \<Rightarrow>
             (case if images = [] then None
                   else find (\<lambda>p. me_image_hash (snd p) = make_image_only_key env images \<and>
                                  me_vision_embeddings (snd p) \<noteq> None) (md_cache s) of
                Some p \<Rightarrow> ((Some (snd p), 0), s\<lparr>md_stats := st\<lparr>md_partial_hits := md_partial_hits st + 1,
                     md_vision_encoder_skips := md_vision_encoder_skips st + 1\<rparr>\<rparr>)
              | None \<Rightarrow> ((None, 0), s\<lparr>md_stats := st\<lparr>md_misses := md_misses st + 1\<rparr>\<rparr>)))"

definition media_fetch_cache ::
    "('v, 'k) media_env \<Rightarrow> string list \<Rightarrow> string \<Rightarrow> ('v, 'k) media_cache \<Rightarrow> ('k list option \<times> bool) \<times> ('v, 'k) media_cache"
where
  "media_fetch_cache env images prompt s =
     (case media_fetch env images prompt None s of
        ((Some entry, matched), s') \<Rightarrow>
          (case me_kv_cache entry of Some kv \<Rightarrow> ((Some kv, True), s') | None \<Rightarrow> ((None, False), s'))
      | ((None, matched), s') \<Rightarrow> ((None, False), s'))"

definition make_media_entry ::
    "('v, 'k) media_env \<Rightarrow> string list \<Rightarrow> string \<Rightarrow> 'v option \<Rightarrow> 'k list option \<Rightarrow> int list \<Rightarrow> string
     \<Rightarrow> ('v, 'k) media_entry" where
  "make_media_entry env images prompt vision kv token_ids model =
     \<lparr>me_image_hash = compute_images_hash (sha256_hex env) (file_at env) images, me_prompt_hash = prompt_hash env prompt,
      me_vision_embeddings = vision, me_kv_cache = kv, me_token_ids = token_ids,
      me_prompt_tokens = int (length token_ids), me_hit_count = 0, me_model_name = model\<rparr>"

definition media_store ::
    "('v, 'k) media_env \<Rightarrow> string list \<Rightarrow> string \<Rightarrow> 'v option \<Rightarrow> 'k list option \<Rightarrow> int list \<Rightarrow> string
     \<Rightarrow> ('v, 'k) media_cache \<Rightarrow> ('v, 'k) media_cache" where
  "media_store env images prompt vision kv token_ids model s0 =
     (let entry = make_media_entry env images prompt vision kv token_ids model;
          s = evict_by_count env (evict_by_memory env (memory_size env entry) s0)
      in s\<lparr>md_cache := od_set (make_cache_key env images prompt) entry (md_cache s),
           md_current_memory := md_current_memory s + memory_size env entry\<rparr>)"

definition media_store_cache ::
    "('v, 'k) media_env \<Rightarrow> string list \<Rightarrow> string \<Rightarrow> 'k list option \<Rightarrow> int \<Rightarrow> ('v, 'k) media_cache \<Rightarrow> ('v, 'k) media_cache"
where
  "media_store_cache env images prompt cache num_tokens s =
     (if cache = None \<or> cache = Some [] then s
      else media_store env images prompt None cache (replicate (nat num_tokens) 0) [] s)"

definition media_reset_stats :: "('v, 'k) media_cache \<Rightarrow> ('v, 'k) media_cache" where
  "media_reset_stats s = s\<lparr>md_stats := fresh_media_stats\<rparr>"

definition media_clear :: "('v, 'k) media_cache \<Rightarrow> ('v, 'k) media_cache" where
  "media_clear s = media_reset_stats (s\<lparr>md_cache := [], md_current_memory := 0\<rparr>)"

definition media_len :: "('v, 'k) media_cache \<Rightarrow> int" where
  "media_len s = int (length (md_cache s))"

section \<open>The pixel cache\<close>

record vision_stats =
  vs_pixel_cache_hits :: int
  vs_pixel_cache_misses :: int
  vs_total_images_processed :: int

text \<open>What a caller stores: tensors and metadata, and the time it took to make them.\<close>

record ('p, 't) vision_cache =
  vc_max_pixel_entries :: int
  vc_max_encoding_entries :: int
  vc_enabled :: bool
  vc_pixel_cache :: "(string \<times> ('p \<times> 't)) list"
  vc_total_time_saved :: "'t list"      \<comment> \<open>the summands, in order\<close>
  vc_stats :: vision_stats

definition fresh_vision_stats :: vision_stats where
  "fresh_vision_stats = \<lparr>vs_pixel_cache_hits = 0, vs_pixel_cache_misses = 0, vs_total_images_processed = 0\<rparr>"

definition vision_init :: "int \<Rightarrow> int \<Rightarrow> bool \<Rightarrow> ('p, 't) vision_cache" where
  "vision_init max_pixel max_encoding enabled = \<lparr>vc_max_pixel_entries = max_pixel, vc_max_encoding_entries = max_encoding,
     vc_enabled = enabled, vc_pixel_cache = [], vc_total_time_saved = [], vc_stats = fresh_vision_stats\<rparr>"

text \<open>This module's own \<open>compute_image_hash\<close> asks for a regular file; reading anything else is hashed by name.\<close>

definition vision_make_key :: "('v, 'k) media_env \<Rightarrow> string list \<Rightarrow> string \<Rightarrow> string" where
  "vision_make_key env images prompt =
     compute_images_hash (sha256_hex env) (file_at env) images @ ''_'' @ take 12 (sha256_hex env prompt)"

definition get_pixel_cache ::
    "('v, 'k) media_env \<Rightarrow> string list \<Rightarrow> string \<Rightarrow> ('p, 't) vision_cache \<Rightarrow> ('p \<times> 't) option \<times> ('p, 't) vision_cache" where
  "get_pixel_cache env images prompt s =
     (if \<not> vc_enabled s \<or> images = [] then (None, s)
      else let key = vision_make_key env images prompt; st = vc_stats s
        in case od_get key (vc_pixel_cache s) of
             Some entry \<Rightarrow> (Some entry,
               s\<lparr>vc_pixel_cache := od_move_end key entry (vc_pixel_cache s),
                 vc_total_time_saved := vc_total_time_saved s @ [snd entry],
                 vc_stats := st\<lparr>vs_pixel_cache_hits := vs_pixel_cache_hits st + 1\<rparr>\<rparr>)
           | None \<Rightarrow> (None, s\<lparr>vc_stats := st\<lparr>vs_pixel_cache_misses := vs_pixel_cache_misses st + 1\<rparr>\<rparr>))"

text \<open>The eviction loop asks for the first key without looking whether there is one.\<close>

fun evict_pixels :: "int \<Rightarrow> (string \<times> 'e) list \<Rightarrow> (unit, (string \<times> 'e) list) outcome" where
  "evict_pixels max_entries [] = (if 0 \<ge> max_entries then Inl StopIteration else Inr (), [])"
| "evict_pixels max_entries (p # d) =
     (if int (length (p # d)) \<ge> max_entries then evict_pixels max_entries d else (Inr (), p # d))"

definition set_pixel_cache ::
    "('v, 'k) media_env \<Rightarrow> string list \<Rightarrow> string \<Rightarrow> 'p \<times> 't \<Rightarrow> ('p, 't) vision_cache
     \<Rightarrow> (unit, ('p, 't) vision_cache) outcome" where
  "set_pixel_cache env images prompt entry s =
     (if \<not> vc_enabled s \<or> images = [] then (Inr (), s)
      else case evict_pixels (vc_max_pixel_entries s) (vc_pixel_cache s) of
          (Inl err, d) \<Rightarrow> (Inl err, s\<lparr>vc_pixel_cache := d\<rparr>)
        | (Inr _, d) \<Rightarrow> (Inr (),
            s\<lparr>vc_pixel_cache := od_set (vision_make_key env images prompt) entry d,
              vc_stats := (vc_stats s)\<lparr>vs_total_images_processed :=
                vs_total_images_processed (vc_stats s) + int (length images)\<rparr>\<rparr>))"

definition vision_clear :: "('p, 't) vision_cache \<Rightarrow> ('p, 't) vision_cache" where
  "vision_clear s = s\<lparr>vc_pixel_cache := [], vc_total_time_saved := [], vc_stats := fresh_vision_stats\<rparr>"

end
