(* ===== verification/MediaCacheCorrect.thy ===== *)
theory MediaCacheCorrect
  imports MediaCache
begin

text \<open>
  The caches of multimodal requests over every history of calls: the byte ledger with what overwriting leaks into it,
  the bounds, and what a fetch returns.
\<close>

section \<open>Ledger and bounds\<close>

definition media_bytes :: "('v, 'k) media_env \<Rightarrow> ('v, 'k) media_cache \<Rightarrow> int" where
  "media_bytes env s = sum_list (map (\<lambda>p. memory_size env (snd p)) (md_cache s))"

text \<open>What a store overwrites: the size of the entry that is still under its key after the evictions.\<close>

definition overwritten ::
    "('v, 'k) media_env \<Rightarrow> string \<Rightarrow> ('v, 'k) media_entry \<Rightarrow> ('v, 'k) media_cache \<Rightarrow> int" where
  "overwritten env key entry s =
     (case map_of (md_cache (evict_by_count env (evict_by_memory env (memory_size env entry) s))) key of
        None \<Rightarrow> 0 | Some e \<Rightarrow> memory_size env e)"

inductive media_reach :: "('v, 'k) media_env \<Rightarrow> ('v, 'k) media_cache \<Rightarrow> int \<Rightarrow> bool" for env where
  start: "media_reach env (media_init max_entries max_mb) 0"
| fetch: "media_reach env s leaked \<Longrightarrow> media_reach env (snd (media_fetch env images prompt token_ids s)) leaked"
| fetch_legacy: "media_reach env s leaked \<Longrightarrow> media_reach env (snd (media_fetch_cache env images prompt s)) leaked"
| store: "media_reach env s leaked \<Longrightarrow>
    media_reach env (media_store env images prompt vision kv token_ids model s)
      (leaked + overwritten env (make_cache_key env images prompt) (make_media_entry env images prompt vision kv token_ids model) s)"
| reset: "media_reach env s leaked \<Longrightarrow> media_reach env (media_reset_stats s) leaked"
| clear: "media_reach env s leaked \<Longrightarrow> media_reach env (media_clear s) 0"

definition media_ok :: "('v, 'k) media_env \<Rightarrow> ('v, 'k) media_cache \<Rightarrow> int \<Rightarrow> bool" where
  "media_ok env s leaked \<longleftrightarrow> distinct (map fst (md_cache s)) \<and> 0 \<le> leaked \<and>
     md_current_memory s = media_bytes env s + leaked \<and>
     (int (length (md_cache s)) \<le> md_max_size s \<or> length (md_cache s) \<le> 1) \<and>
     (md_current_memory s \<le> md_max_memory s \<or> length (md_cache s) \<le> 1)"

definition sizes_nonneg :: "('v, 'k) media_env \<Rightarrow> bool" where
  "sizes_nonneg env \<longleftrightarrow> (\<forall>v. 0 \<le> vision_nbytes env v) \<and> (\<forall>k. \<forall>n\<in>set (layer_nbytes env k). 0 \<le> n)"

lemma memory_size_nonneg:
  assumes "sizes_nonneg env"
  shows "0 \<le> memory_size env e"
proof -
  have "0 \<le> sum_list (concat (map (layer_nbytes env) ls))" for ls
    using assms by (intro sum_list_nonneg) (auto simp: sizes_nonneg_def)
  then show ?thesis using assms by (auto simp: memory_size_def sizes_nonneg_def split: option.split)
qed

text \<open>An eviction loop drops a front part of the cache and takes its bytes off the ledger.\<close>

definition evicted :: "('v, 'k) media_env \<Rightarrow> ('v, 'k) media_cache \<Rightarrow> ('v, 'k) media_cache \<Rightarrow> bool" where
  "evicted env s s' \<longleftrightarrow> (\<exists>n. md_cache s' = drop n (md_cache s)) \<and> md_max_size s' = md_max_size s \<and>
     md_max_memory s' = md_max_memory s \<and>
     md_current_memory s' - media_bytes env s' = md_current_memory s - media_bytes env s"

lemma evicted_refl [simp]: "evicted env s s"
  unfolding evicted_def by (intro conjI exI [of _ 0]) simp_all

lemma evicted_trans: "evicted env s t \<Longrightarrow> evicted env t u \<Longrightarrow> evicted env s u"
  by (auto simp: evicted_def)

lemma pop_evicts: "md_cache s \<noteq> [] \<Longrightarrow> evicted env s (pop_oldest env s)"
  unfolding evicted_def
  by (intro conjI exI [of _ 1]; cases "md_cache s") (simp_all add: pop_oldest_def media_bytes_def drop_Suc)

lemma evict_by_memory_spec:
  "evicted env s (evict_by_memory env n s) \<and>
   (md_current_memory (evict_by_memory env n s) + n \<le> md_max_memory s \<or> md_cache (evict_by_memory env n s) = [])"
proof (induction env n s rule: evict_by_memory.induct)
  case (1 env n s)
  show ?case
  proof (cases "md_current_memory s + n > md_max_memory s \<and> md_cache s \<noteq> []")
    case True
    then have "evict_by_memory env n s = evict_by_memory env n (pop_oldest env s)"
      by (subst evict_by_memory.simps) simp
    moreover have "evicted env s (pop_oldest env s)" "md_max_memory (pop_oldest env s) = md_max_memory s"
      using pop_evicts True by (auto simp: pop_oldest_def)
    ultimately show ?thesis using 1 [OF True] by (auto intro: evicted_trans)
  next
    case False
    then have "evict_by_memory env n s = s" by (subst evict_by_memory.simps) auto
    then show ?thesis using False by auto
  qed
qed

lemma evict_by_count_spec:
  "evicted env s (evict_by_count env s) \<and>
   (int (length (md_cache (evict_by_count env s))) < md_max_size s \<or> md_cache (evict_by_count env s) = [])"
proof (induction env s rule: evict_by_count.induct)
  case (1 env s)
  show ?case
  proof (cases "int (length (md_cache s)) \<ge> md_max_size s \<and> md_cache s \<noteq> []")
    case True
    then have "evict_by_count env s = evict_by_count env (pop_oldest env s)"
      by (subst evict_by_count.simps) simp
    moreover have "evicted env s (pop_oldest env s)" "md_max_size (pop_oldest env s) = md_max_size s"
      using pop_evicts True by (auto simp: pop_oldest_def)
    ultimately show ?thesis using 1 [OF True] by (auto intro: evicted_trans)
  next
    case False
    then have "evict_by_count env s = s" by (subst evict_by_count.simps) auto
    then show ?thesis using False by auto
  qed
qed

lemma od_set_sum:
  "distinct (map fst d) \<Longrightarrow> sum_list (map (\<lambda>p. f (snd p)) (od_set k v d)) =
     sum_list (map (\<lambda>p. f (snd p)) d) + f v - (case map_of d k of None \<Rightarrow> 0 | Some e \<Rightarrow> (f e :: int))"
  by (induction k v d rule: od_set.induct) auto

lemma od_move_end_sum:
  "distinct (map fst d) \<Longrightarrow> map_of d k = Some e \<Longrightarrow> f v = (f e :: int) \<Longrightarrow>
     sum_list (map (\<lambda>p. f (snd p)) (od_move_end k v d)) = sum_list (map (\<lambda>p. f (snd p)) d)"
proof (induction d)
  case (Cons p d)
  have "filter (\<lambda>q. fst q \<noteq> k) d = d" if "fst p = k"
    using Cons.prems(1) that by (auto intro!: filter_True simp: image_iff)
  then show ?case using Cons by (auto simp: od_move_end_def split: if_splits)
qed simp

lemma od_move_end_distinct: "distinct (map fst d) \<Longrightarrow> distinct (map fst (od_move_end k v d))"
  by (auto simp: od_move_end_def distinct_map_filter)

lemma od_move_end_length: "distinct (map fst d) \<Longrightarrow> map_of d k = Some e \<Longrightarrow> length (od_move_end k v d) = length d"
proof (induction d)
  case (Cons p d)
  have "filter (\<lambda>q. fst q \<noteq> k) d = d" if "fst p = k"
    using Cons.prems(1) that by (auto intro!: filter_True simp: image_iff)
  then show ?case using Cons by (auto simp: od_move_end_def split: if_splits)
qed simp

lemma fetch_ok':
  assumes ok: "media_ok env s leaked"
  shows "media_ok env (snd (media_fetch env images prompt token_ids s)) leaked"
proof (cases "map_of (md_cache s) (make_cache_key env images prompt)")
  case None
  then show ?thesis using ok
    by (auto simp: media_fetch_def od_get_def media_ok_def media_bytes_def Let_def split: option.split)
next
  case (Some e)
  let ?e = "e\<lparr>me_hit_count := me_hit_count e + 1\<rparr>"
  define out where "out = snd (media_fetch env images prompt token_ids s)"
  have out: "md_cache out = od_move_end (make_cache_key env images prompt) ?e (md_cache s)"
    "md_current_memory out = md_current_memory s" "md_max_size out = md_max_size s" "md_max_memory out = md_max_memory s"
    using Some by (simp_all add: out_def media_fetch_def full_hit_def od_get_def Let_def)
  have d: "distinct (map fst (md_cache s))" using ok by (simp add: media_ok_def)
  have "media_bytes env out = media_bytes env s"
    using od_move_end_sum [OF d Some, of "memory_size env" ?e] by (simp add: media_bytes_def out(1) memory_size_def)
  then show ?thesis using ok od_move_end_length [OF d Some] od_move_end_distinct [OF d]
    unfolding out_def [symmetric] by (auto simp: media_ok_def out)
qed

lemma store_ok':
  fixes images :: "string list" and prompt model :: string and token_ids :: "int list"
    and vision :: "'v option" and kv :: "'k list option"
  assumes ok: "media_ok env s leaked" and nn: "sizes_nonneg env"
  defines "entry \<equiv> make_media_entry env images prompt vision kv token_ids model"
    and "key \<equiv> make_cache_key env images prompt"
  shows "media_ok env (media_store env images prompt vision kv token_ids model s) (leaked + overwritten env key entry s)"
proof -
  let ?n = "memory_size env entry"
  define m where "m = evict_by_memory env ?n s"
  define c where "c = evict_by_count env m"
  have sm: "evicted env s m" "md_current_memory m + ?n \<le> md_max_memory s \<or> md_cache m = []"
    using evict_by_memory_spec [of env s ?n] by (auto simp: m_def)
  have mc: "evicted env m c" "int (length (md_cache c)) < md_max_size m \<or> md_cache c = []"
    using evict_by_count_spec [of env m] by (auto simp: c_def)
  have sc: "evicted env s c" using sm mc evicted_trans by blast
  then obtain k where k: "md_cache c = drop k (md_cache s)" by (auto simp: evicted_def)
  have d: "distinct (map fst (md_cache c))"
    using ok by (simp add: k media_ok_def flip: drop_map)
  have cur: "md_current_memory c = media_bytes env c + leaked"
    using sc ok by (auto simp: evicted_def media_ok_def)
  have bytes_mono: "media_bytes env c \<le> media_bytes env m"
  proof -
    obtain j where j: "md_cache c = drop j (md_cache m)" using mc(1) by (auto simp: evicted_def)
    have "0 \<le> sum_list (map (\<lambda>p. memory_size env (snd p)) (take j (md_cache m)))"
      by (intro sum_list_nonneg) (auto simp: memory_size_nonneg [OF nn])
    moreover have "map (\<lambda>p. memory_size env (snd p)) (md_cache m) =
        map (\<lambda>p. memory_size env (snd p)) (take j (md_cache m)) @ map (\<lambda>p. memory_size env (snd p)) (md_cache c)"
      by (simp add: j flip: map_append)
    ultimately show ?thesis by (simp add: media_bytes_def)
  qed
  have curm: "md_current_memory m = media_bytes env m + leaked"
    using sm(1) ok by (auto simp: evicted_def media_ok_def)
  define out where "out = media_store env images prompt vision kv token_ids model s"
  have out: "md_cache out = od_set key entry (md_cache c)" "md_current_memory out = md_current_memory c + ?n"
    "md_max_size out = md_max_size s" "md_max_memory out = md_max_memory s"
    using sc unfolding out_def media_store_def Let_def
    by (simp_all add: evicted_def c_def m_def key_def entry_def)
  have ow: "overwritten env key entry s = (case map_of (md_cache c) key of None \<Rightarrow> 0 | Some e \<Rightarrow> memory_size env e)"
    by (simp add: overwritten_def c_def m_def)
  have "0 \<le> overwritten env key entry s"
    unfolding ow using memory_size_nonneg [OF nn] by (auto split: option.split)
  moreover have "media_bytes env out = media_bytes env c + ?n - overwritten env key entry s"
    using od_set_sum [OF d, of "memory_size env" key entry] by (simp add: media_bytes_def out(1) ow)
  moreover have "int (length (md_cache out)) \<le> md_max_size s \<or> length (md_cache out) \<le> 1"
    using mc sm(1) by (auto simp: out(1) od_set_length evicted_def)
  moreover have "md_current_memory out \<le> md_max_memory s \<or> length (md_cache out) \<le> 1"
    using sm(2) bytes_mono cur curm k mc(1) by (auto simp: out(1,2) od_set_length evicted_def)
  moreover have "distinct (map fst (md_cache out))" by (simp add: out(1) od_set_distinct d)
  ultimately show ?thesis using ok cur
    by (simp add: media_ok_def out(2-4) flip: out_def)
qed

text \<open>
  C23. In every reachable state of the multimodal prefix cache the keys are distinct, both limits hold unless a single
  entry is left, and the ledger is the bytes of the entries plus those of every entry that was overwritten since the last
  clear: they are never given back, so each overwrite lowers the capacity for good.
\<close>
theorem media_ledger_leaks_overwrites:
  assumes "media_reach env s leaked" "sizes_nonneg env"
  shows "distinct (map fst (md_cache s)) \<and> 0 \<le> leaked \<and>
    md_current_memory s = media_bytes env s + leaked \<and>
    (int (length (md_cache s)) \<le> md_max_size s \<or> length (md_cache s) \<le> 1) \<and>
    (media_bytes env s \<le> md_max_memory s - leaked \<or> length (md_cache s) \<le> 1)"
proof -
  have "media_ok env s leaked"
    using assms(1)
  proof induction
    case (start max_entries max_mb)
    then show ?case by (simp add: media_ok_def media_init_def media_bytes_def)
  next
    case (fetch s leaked images prompt token_ids)
    then show ?case by (simp add: fetch_ok')
  next
    case (fetch_legacy s leaked images prompt)
    then have "media_ok env (snd (media_fetch env images prompt None s)) leaked" by (simp add: fetch_ok')
    then show ?case by (auto simp: media_fetch_cache_def split: prod.splits option.splits)
  next
    case (store s leaked images prompt vision kv token_ids model)
    then show ?case by (simp add: store_ok' assms(2))
  next
    case (reset s leaked)
    then show ?case by (auto simp: media_ok_def media_reset_stats_def media_bytes_def)
  next
    case (clear s leaked)
    then show ?case by (simp add: media_ok_def media_clear_def media_reset_stats_def media_bytes_def)
  qed
  then show ?thesis by (auto simp: media_ok_def)
qed

text \<open>An environment for the witnesses: hashes are the strings themselves, no files, every layer has 300 KiB.\<close>

definition toy_media :: "(unit, unit) media_env" where
  "toy_media = \<lparr>sha256_hex = (\<lambda>s. s), file_at = (\<lambda>_. No_file), vision_nbytes = (\<lambda>_. 8), layer_nbytes = (\<lambda>_. [307200])\<rparr>"

lemma toy_entry_size:
  "memory_size toy_media (make_media_entry toy_media images prompt None (Some [()]) ids model) = 307200"
  by (simp add: memory_size_def make_media_entry_def toy_media_def)

lemma evict_nothing:
  "md_current_memory s + n \<le> md_max_memory s \<Longrightarrow> evict_by_memory env n s = s"
  "int (length (md_cache s)) < md_max_size s \<Longrightarrow> evict_by_count env s = s"
  by (simp_all add: evict_by_memory.simps [of _ _ s] evict_by_count.simps [of _ s])

text \<open>Storing the same prompt twice leaks its 300 KiB.\<close>

theorem media_ledger_leaks_overwrites_witness:
  "\<exists>s :: (unit, unit) media_cache. media_reach toy_media s 307200 \<and> length (md_cache s) = 1 \<and>
     md_current_memory s = 614400"
proof -
  let ?key = "make_cache_key toy_media [''i''] ''p''"
  let ?e = "make_media_entry toy_media [''i''] ''p'' None (Some [()]) [1] []"
  define s0 :: "(unit, unit) media_cache" where "s0 = media_init 50 1"
  define s1 where "s1 = media_store toy_media [''i''] ''p'' None (Some [()]) [1] [] s0"
  define s2 where "s2 = media_store toy_media [''i''] ''p'' None (Some [()]) [1] [] s1"
  have s0: "md_cache s0 = []" "md_current_memory s0 = 0" "md_max_memory s0 = 1048576" "md_max_size s0 = 50"
    by (simp_all add: s0_def media_init_def)
  have keep0: "evict_by_count toy_media (evict_by_memory toy_media 307200 s0) = s0"
    by (simp add: evict_nothing s0)
  have s1: "md_cache s1 = [(?key, ?e)]" "md_current_memory s1 = 307200" "md_max_memory s1 = 1048576" "md_max_size s1 = 50"
    by (simp_all add: s1_def media_store_def toy_entry_size keep0 s0 Let_def)
  have keep1: "evict_by_count toy_media (evict_by_memory toy_media 307200 s1) = s1"
    by (simp add: evict_nothing s1)
  have s2: "md_cache s2 = [(?key, ?e)]"
    by (simp add: s2_def media_store_def toy_entry_size keep1 s1 Let_def)
  have "media_reach toy_media s1 (0 + overwritten toy_media ?key ?e s0)"
    unfolding s1_def s0_def by (intro media_reach.store media_reach.start)
  then have "media_reach toy_media s2 (0 + overwritten toy_media ?key ?e s0 + overwritten toy_media ?key ?e s1)"
    unfolding s2_def by (rule media_reach.store)
  moreover have "overwritten toy_media ?key ?e s0 = 0" "overwritten toy_media ?key ?e s1 = 307200"
    by (simp_all add: overwritten_def keep0 keep1 toy_entry_size s0 s1)
  ultimately have reach: "media_reach toy_media s2 307200" by simp
  have "sizes_nonneg toy_media" by (simp add: sizes_nonneg_def toy_media_def)
  from media_ledger_leaks_overwrites [OF reach this] show ?thesis
    using reach s2 by (intro exI [of _ s2]) (simp add: media_bytes_def toy_entry_size)
qed

section \<open>What a fetch returns\<close>

lemma match_loop_exact: "match_loop cs ns i i = i + int (length (takeWhile (\<lambda>(c, n). c = n) (zip cs ns)))"
proof (induction cs arbitrary: ns i)
  case (Cons c cs)
  then show ?case by (cases ns) simp_all
qed simp

text \<open>
  What was stored is found: a fetch with the same images and prompt right after a store returns the stored entry, as
  often hit as that, and the length of the common prefix of the tokens, whatever the limits are.
\<close>
theorem media_store_then_fetch:
  "fst (media_fetch env images prompt (Some ts) (media_store env images prompt vision kv ids model s)) =
     (Some ((make_media_entry env images prompt vision kv ids model)\<lparr>me_hit_count := 1\<rparr>),
      if ts = [] then int (length ids) else int (length (takeWhile (\<lambda>(c, n). c = n) (zip ids ts))))"
  by (simp add: media_fetch_def media_store_def od_get_def od_set_get full_hit_def get_prefix_match_length_def
      match_loop_exact total_tokens_def make_media_entry_def Let_def)

lemma store_first:
  "md_cache (media_store env images prompt vision kv ids model (media_init n mb)) =
     [(make_cache_key env images prompt, make_media_entry env images prompt vision kv ids model)]"
proof -
  have "md_cache (evict_by_count env (evict_by_memory env x (media_init n mb))) = []" for x
  proof -
    have "evict_by_memory env x (media_init n mb) = media_init n mb"
      by (subst evict_by_memory.simps) (simp add: media_init_def)
    moreover have "evict_by_count env (media_init n mb) = media_init n mb"
      by (subst evict_by_count.simps) (simp add: media_init_def)
    ultimately show ?thesis by (simp add: media_init_def)
  qed
  then show ?thesis by (simp add: media_store_def Let_def)
qed

text \<open>
  The legacy lookup hands out the KV state of another prompt: when only the images match, \<open>fetch\<close> returns the
  entry with match length 0, for its vision embeddings alone, and \<open>fetch_cache\<close> ignores the length and reports a hit.
\<close>
theorem fetch_cache_wrong_prompt:
  assumes "images \<noteq> []" "prompt_hash env asked \<noteq> prompt_hash env stored"
  shows "fst (media_fetch env images asked (Some ts)
      (media_store env images stored (Some v) (Some kv) ids model (media_init n mb))) =
      (Some (make_media_entry env images stored (Some v) (Some kv) ids model), 0) \<and>
    fst (media_fetch_cache env images asked (media_store env images stored (Some v) (Some kv) ids model (media_init n mb))) =
      (Some kv, True)"
proof -
  have "make_cache_key env images asked \<noteq> make_cache_key env images stored"
    using assms(2) by (simp add: make_cache_key_def)
  then show ?thesis using assms(1)
    by (simp add: media_fetch_cache_def media_fetch_def store_first od_get_def make_image_only_key_def
        make_media_entry_def Let_def)
qed

theorem fetch_cache_wrong_prompt_witness:
  "fst (media_fetch_cache toy_media [''i''] ''q''
     (media_store toy_media [''i''] ''p'' (Some ()) (Some [()]) [1] [] (media_init 50 1))) = (Some [()], True)"
  using fetch_cache_wrong_prompt [of "[''i'']" toy_media "''q''" "''p''" "[2]" "()" "[()]" "[1]" "[]" 50 1]
  by (simp add: prompt_hash_def toy_media_def)

section \<open>The pixel cache\<close>

lemma evict_pixels_spec:
  "evict_pixels n d = (if n \<le> 0 then (Inl StopIteration, []) else (Inr (), drop (length d - nat (n - 1)) d))"
proof (induction n d rule: evict_pixels.induct)
  case (2 n p d)
  show ?case
  proof (cases "int (length (p # d)) \<ge> n")
    case True
    then have "Suc (length d) - nat (n - 1) = Suc (length d - nat (n - 1))" if "0 < n" using that by (simp add: nat_diff_distrib Suc_diff_le)
    then show ?thesis using 2 [OF True] True by simp
  next
    case False
    then show ?thesis by simp
  qed
qed simp

text \<open>
  A store into the pixel cache keeps it within its bound, leaves what it does not evict in order and is found by the
  next lookup; a bound of zero or less makes every store raise \<open>StopIteration\<close> on the emptied cache instead of
  switching the cache off, and a disabled cache or a request without images changes nothing.
\<close>
theorem pixel_cache_store_spec:
  "if \<not> vc_enabled s \<or> images = [] then set_pixel_cache env images prompt entry s = (Inr (), s)
   else if vc_max_pixel_entries s \<le> 0
   then set_pixel_cache env images prompt entry s = (Inl StopIteration, s\<lparr>vc_pixel_cache := []\<rparr>)
   else (case set_pixel_cache env images prompt entry s of (res, s') \<Rightarrow>
     res = Inr () \<and> int (length (vc_pixel_cache s')) \<le> vc_max_pixel_entries s' \<and>
     vc_pixel_cache s' = od_set (vision_make_key env images prompt) entry
       (drop (length (vc_pixel_cache s) - nat (vc_max_pixel_entries s - 1)) (vc_pixel_cache s)) \<and>
     fst (get_pixel_cache env images prompt s') = Some entry)"
  by (auto simp: set_pixel_cache_def evict_pixels_spec od_set_length get_pixel_cache_def od_get_def od_set_get Let_def)

end
