(* ===== verification/BodyDepth.thy ===== *)
theory BodyDepth
  imports Prelude "HOL-Library.AList"
begin

text \<open>
  \<^bold>\<open>utils/json_depth.py and middleware/body_depth.py.\<close> The guard that keeps deeply nested JSON bodies away from the
  recursive validators: the measurement of a parsed value with an explicit stack, the scan of the raw bytes that spares
  most bodies the parse, and the ASGI middleware around them. Bytes are characters, Python dictionaries are association
  lists in insertion order; \<open>json.loads\<close> and \<open>int\<close> on a string are arguments. A \<open>receive\<close> callable is the list of the
  messages it will still deliver; the coroutine that waits for one that never comes is a value of its own.
\<close>

section \<open>Limits from the environment\<close>

definition DEFAULT_MAX_BODY_DEPTH :: int where
  "DEFAULT_MAX_BODY_DEPTH = 64"

definition DEFAULT_MAX_TOOL_SCHEMA_DEPTH :: int where
  "DEFAULT_MAX_TOOL_SCHEMA_DEPTH = 64"

text \<open>\<open>parse_int\<close> is \<open>int(raw)\<close>, \<open>None\<close> where it raises; the variable's text comes stripped, empty when it is not set.\<close>

definition resolve_env_int :: "(string \<Rightarrow> int option) \<Rightarrow> string \<Rightarrow> int \<Rightarrow> int" where
  "resolve_env_int parse_int raw fallback =
     (if raw = [] then fallback else case parse_int raw of None \<Rightarrow> fallback | Some n \<Rightarrow> n)"

definition resolve_max_body_depth :: "(string \<Rightarrow> int option) \<Rightarrow> string \<Rightarrow> int" where
  "resolve_max_body_depth parse_int raw = resolve_env_int parse_int raw DEFAULT_MAX_BODY_DEPTH"

definition resolve_max_tool_schema_depth :: "(string \<Rightarrow> int option) \<Rightarrow> string \<Rightarrow> int" where
  "resolve_max_tool_schema_depth parse_int raw = resolve_env_int parse_int raw DEFAULT_MAX_TOOL_SCHEMA_DEPTH"

section \<open>The depth of a parsed value\<close>

datatype pyval = PScalar | PList "pyval list" | PTuple "pyval list" | PDict "(string \<times> pyval) list"

fun container :: "pyval \<Rightarrow> bool" where
  "container PScalar = False"
| "container _ = True"

fun children :: "pyval \<Rightarrow> pyval list" where
  "children PScalar = []"
| "children (PList vs) = vs"
| "children (PTuple vs) = vs"
| "children (PDict kvs) = map snd kvs"

lemma children_size: "sum_list (map (\<lambda>c. Suc (size c)) (children v)) \<le> size v"
proof (cases v)
  case (PDict kvs)
  have "sum_list (map (\<lambda>p. Suc (size (snd p))) kvs) \<le> size_list (size_prod (\<lambda>_. 0) size) kvs" for kvs :: "(string \<times> pyval) list"
    by (induction kvs) auto
  from this [of kvs] PDict show ?thesis by (simp add: comp_def)
qed (auto simp: size_list_conv_sum_list sum_list_Suc)

lemma filter_size: "sum_list (map f (filter P vs)) \<le> sum_list (map f vs)" for f :: "'a \<Rightarrow> nat"
  by (induction vs) auto

text \<open>The stack is a list with its top first; the children are pushed in order, so the last is popped first.\<close>

function depth_walk :: "int \<Rightarrow> (pyval \<times> int) list \<Rightarrow> bool" where
  "depth_walk max_depth [] = False"
| "depth_walk max_depth ((node, depth) # stack) =
     (if depth > max_depth then True
      else depth_walk max_depth (rev (map (\<lambda>v. (v, depth + 1)) (filter container (children node))) @ stack))"
  by pat_completeness auto
termination
proof (relation "measure (\<lambda>(_, stack). sum_list (map (\<lambda>p. Suc (size (fst p))) stack))")
  fix max_depth depth :: int and node stack
  have "sum_list (map (\<lambda>c. Suc (size c)) (filter container (children node))) < Suc (size node)"
    using filter_size [of "\<lambda>c. Suc (size c)" container "children node"] children_size [of node] by linarith
  then show "((max_depth, rev (map (\<lambda>v. (v, depth + 1)) (filter container (children node))) @ stack),
      max_depth, (node, depth) # stack) \<in> measure (\<lambda>(_, stack). sum_list (map (\<lambda>p. Suc (size (fst p))) stack))"
    by (simp add: comp_def flip: rev_map)
qed simp

definition json_nesting_depth_exceeds :: "pyval \<Rightarrow> int \<Rightarrow> bool" where
  "json_nesting_depth_exceeds obj max_depth =
     (if max_depth \<le> 0 then False
      else if \<not> container obj then False
      else depth_walk max_depth [(obj, 1)])"

section \<open>The scan of the bytes\<close>

fun quick_scan :: "int \<Rightarrow> int \<Rightarrow> int \<Rightarrow> bool \<Rightarrow> bool \<Rightarrow> bytes \<Rightarrow> bool" where
  "quick_scan cap depth peak in_string escape_next [] \<longleftrightarrow> peak \<ge> cap"
| "quick_scan cap depth peak in_string escape_next (byte # body) \<longleftrightarrow>
     (if escape_next then quick_scan cap depth peak in_string False body
      else if in_string then
        (if byte = CHR 0x5C then quick_scan cap depth peak True True body
         else if byte = CHR 0x22 then quick_scan cap depth peak False False body
         else quick_scan cap depth peak True False body)
      else if byte = CHR 0x22 then quick_scan cap depth peak True False body
      else if byte = CHR 0x7B \<or> byte = CHR 0x5B then
        (if depth + 1 > peak
         then (if depth + 1 \<ge> cap then True else quick_scan cap (depth + 1) (depth + 1) False False body)
         else quick_scan cap (depth + 1) peak False False body)
      else if byte = CHR 0x7D \<or> byte = CHR 0x5D then quick_scan cap (depth - 1) peak False False body
      else quick_scan cap depth peak False False body)"

definition quick_depth_might_exceed :: "bytes \<Rightarrow> int \<Rightarrow> bool" where
  "quick_depth_might_exceed body max_depth = quick_scan (max_depth + 1) 0 0 False False body"

section \<open>Which requests are guarded\<close>

definition GUARDED_METHODS :: "string list" where
  "GUARDED_METHODS = [''POST'', ''PUT'', ''PATCH'', ''DELETE'']"

definition GUARDED_PREFIXES :: "string list" where
  "GUARDED_PREFIXES = [''/v1/'', ''/internal/'', ''/anthropic/'']"

definition EXCLUDED_PATHS :: "string list" where
  "EXCLUDED_PATHS = [''/v1/audio/transcriptions'']"

definition POST_MULTIPART_GATED_PATHS :: "string list" where
  "POST_MULTIPART_GATED_PATHS = [''/v1/videos'', ''/v1/videos/extend'', ''/v1/images/edits'']"

definition JSON_CONTENT_TYPE_OPTIONAL_PATHS :: "string list" where
  "JSON_CONTENT_TYPE_OPTIONAL_PATHS =
     [''/v1/chat/completions'', ''/v1/completions'', ''/v1/embeddings'', ''/v1/messages'',
      ''/v1/messages/count_tokens'', ''/v1/responses'', ''/anthropic/v1/messages'']"

definition startswith :: "string \<Rightarrow> string \<Rightarrow> bool" where
  "startswith s prefix \<longleftrightarrow> take (length prefix) s = prefix"

definition endswith :: "string \<Rightarrow> string \<Rightarrow> bool" where
  "endswith s suffix \<longleftrightarrow> startswith (rev s) (rev suffix)"

definition path_is_guarded :: "string option \<Rightarrow> bool" where
  "path_is_guarded path =
     (case path of None \<Rightarrow> False
      | Some p \<Rightarrow>
          if p = [] then False
          else if p \<in> set EXCLUDED_PATHS then False
          else list_ex (startswith p) GUARDED_PREFIXES)"

text \<open>\<open>bytes.lower\<close> folds ASCII letters, \<open>str.lower\<close> on a Latin-1 text its other capitals too; \<open>str.strip\<close> takes off Unicode's
  white space.\<close>

definition ascii_lower :: "char \<Rightarrow> char" where
  "ascii_lower c = (let n = (of_char c :: nat) in if 65 \<le> n \<and> n \<le> 90 then char_of (n + 32) else c)"

definition latin1_lower :: "char \<Rightarrow> char" where
  "latin1_lower c = (let n = (of_char c :: nat)
     in if 65 \<le> n \<and> n \<le> 90 \<or> 192 \<le> n \<and> n \<le> 222 \<and> n \<noteq> 215 then char_of (n + 32) else c)"

definition latin1_space :: "char \<Rightarrow> bool" where
  "latin1_space c \<longleftrightarrow> (let n = (of_char c :: nat) in 9 \<le> n \<and> n \<le> 13 \<or> 28 \<le> n \<and> n \<le> 32 \<or> n = 133 \<or> n = 160)"

definition latin1_strip :: "string \<Rightarrow> string" where
  "latin1_strip s = rev (dropWhile latin1_space (rev (dropWhile latin1_space s)))"

definition is_jsonish_content_type :: "(bytes \<times> bytes) list \<Rightarrow> string option \<Rightarrow> bool" where
  "is_jsonish_content_type headers path =
     (let ctype = (case find (\<lambda>h. map ascii_lower (fst h) = ''content-type'') headers of
                     None \<Rightarrow> [] | Some h \<Rightarrow> map latin1_lower (snd h))
      in if ctype = [] then (case path of None \<Rightarrow> False | Some p \<Rightarrow> p \<in> set JSON_CONTENT_TYPE_OPTIONAL_PATHS)
         else let primary = latin1_strip (takeWhile (\<lambda>c. c \<noteq> CHR '';'') ctype)
           in primary = ''application/json'' \<or> startswith primary ''application/'' \<and> endswith primary ''+json'')"

section \<open>The middleware\<close>

datatype asgi_msg = Http_request "bytes option" bool | Http_disconnect | Other_msg string

datatype drained = Whole_body "bytes list" "asgi_msg list" | Client_gone "bytes list" | Blocked

definition body_of :: "bytes option \<Rightarrow> bytes" where
  "body_of b = (case b of None \<Rightarrow> [] | Some bs \<Rightarrow> bs)"

fun drain_body :: "bytes list \<Rightarrow> asgi_msg list \<Rightarrow> drained" where
  "drain_body chunks [] = Blocked"
| "drain_body chunks (Http_request b more # msgs) =
     (let chunks' = (if body_of b = [] then chunks else chunks @ [body_of b])
      in if more then drain_body chunks' msgs else Whole_body chunks' msgs)"
| "drain_body chunks (Http_disconnect # msgs) = Client_gone chunks"
| "drain_body chunks (Other_msg m # msgs) = drain_body (chunks @ [[]]) msgs"

datatype load_result = Parsed pyval | JSON_decode_error | Recursion_error | Other_error py_error

record scope =
  sc_type :: string
  sc_method :: "string option"
  sc_path :: "string option"
  sc_headers :: "(bytes \<times> bytes) list"

text \<open>What the middleware does with a request: it calls the application with the original \<open>receive\<close>, with one that replays
  the body and goes on with the original's remaining messages, or with one that replays the chunks and then says that the
  client is gone; it answers 400 itself; it raises; or it waits.\<close>

datatype gate_result =
    Call_app "asgi_msg list"
  | Call_buffered bytes "asgi_msg list"
  | Call_disconnecting "bytes list"
  | Reject_400 int
  | Gate_raises py_error
  | Gate_waits

definition bytes_space :: "char \<Rightarrow> bool" where
  "bytes_space c \<longleftrightarrow> (let n = (of_char c :: nat) in 9 \<le> n \<and> n \<le> 13 \<or> n = 32)"

definition check_body :: "(bytes \<Rightarrow> load_result) \<Rightarrow> int \<Rightarrow> bytes \<Rightarrow> asgi_msg list \<Rightarrow> gate_result" where
  "check_body loads max_depth body rest =
     (if list_all bytes_space body then Call_buffered body rest
      else if \<not> quick_depth_might_exceed body max_depth then Call_buffered body rest
      else case loads body of
          JSON_decode_error \<Rightarrow> Call_buffered body rest
        | Recursion_error \<Rightarrow> Reject_400 max_depth
        | Other_error e \<Rightarrow> Gate_raises e
        | Parsed v \<Rightarrow> if json_nesting_depth_exceeds v max_depth then Reject_400 max_depth else Call_buffered body rest)"

definition body_depth_gate :: "(bytes \<Rightarrow> load_result) \<Rightarrow> int \<Rightarrow> scope \<Rightarrow> asgi_msg list \<Rightarrow> gate_result" where
  "body_depth_gate loads max_depth scope receive =
     (if sc_type scope \<noteq> ''http'' then Call_app receive
      else if sc_method scope \<notin> Some ` set GUARDED_METHODS then Call_app receive
      else if \<not> path_is_guarded (sc_path scope) then Call_app receive
      else if sc_method scope = Some ''POST'' \<and> sc_path scope \<in> Some ` set POST_MULTIPART_GATED_PATHS then Call_app receive
      else if max_depth \<le> 0 then Call_app receive
      else if \<not> is_jsonish_content_type (sc_headers scope) (sc_path scope) then Call_app receive
      else case drain_body [] receive of
          Blocked \<Rightarrow> Gate_waits
        | Client_gone chunks \<Rightarrow> Call_disconnecting chunks
        | Whole_body chunks rest \<Rightarrow> check_body loads max_depth (concat chunks) rest)"

text \<open>The two \<open>receive\<close> closures, each with the variable it changes.\<close>

record buffered_receive =
  br_body :: bytes
  br_sent :: bool
  br_original :: "asgi_msg list"

definition replay_buffered :: "bytes \<Rightarrow> asgi_msg list \<Rightarrow> buffered_receive" where
  "replay_buffered body original = \<lparr>br_body = body, br_sent = False, br_original = original\<rparr>"

definition receive_buffered :: "buffered_receive \<Rightarrow> asgi_msg option \<times> buffered_receive" where
  "receive_buffered r =
     (if \<not> br_sent r then (Some (Http_request (Some (br_body r)) False), r\<lparr>br_sent := True\<rparr>)
      else case br_original r of [] \<Rightarrow> (None, r) | m # ms \<Rightarrow> (Some m, r\<lparr>br_original := ms\<rparr>))"

record disconnecting_receive =
  dr_chunks :: "bytes list"
  dr_idx :: nat

definition replay_with_disconnect :: "bytes list \<Rightarrow> disconnecting_receive" where
  "replay_with_disconnect chunks = \<lparr>dr_chunks = chunks, dr_idx = 0\<rparr>"

definition receive_disconnecting :: "disconnecting_receive \<Rightarrow> asgi_msg \<times> disconnecting_receive" where
  "receive_disconnecting r =
     (let i = dr_idx r
      in if i < length (dr_chunks r) then (Http_request (Some (dr_chunks r ! i)) True, r\<lparr>dr_idx := i + 1\<rparr>)
         else (Http_disconnect, r))"

end
