(* ===== verification/BodyDepthCorrect.thy ===== *)
theory BodyDepthCorrect
  imports BodyDepth
begin

text \<open>
  The walk over a parsed value decides its depth, the scan of the bytes decides the depth of a JSON text, and the gate
  built on both lets exactly the bodies through that are not too deep, unchanged; a body in UTF-16 gets past the scan.
\<close>

section \<open>The walk measures the depth\<close>

definition deepest :: "nat list \<Rightarrow> nat" where
  "deepest ns = foldr max ns 0"

lemma deepest_simps [simp]: "deepest [] = 0" "deepest (n # ns) = max n (deepest ns)"
  by (simp_all add: deepest_def)

lemma deepest_less: "n < deepest ns \<longleftrightarrow> (\<exists>x\<in>set ns. n < x)"
  by (induction ns) auto

lemma deepest_le: "deepest ns \<le> n \<longleftrightarrow> (\<forall>x\<in>set ns. x \<le> n)"
  by (induction ns) auto

text \<open>How deep lists, tuples and dictionaries nest in a value, by recursion on the value itself.\<close>

primrec depth :: "pyval \<Rightarrow> nat" where
  "depth PScalar = 0"
| "depth (PList vs) = Suc (deepest (map depth vs))"
| "depth (PTuple vs) = Suc (deepest (map depth vs))"
| "depth (PDict kvs) = Suc (deepest (map snd (map (map_prod id depth) kvs)))"

lemma depth_unfold: "depth v = (if container v then Suc (deepest (map depth (children v))) else 0)"
  by (cases v) (simp_all add: comp_def)

declare depth.simps [simp del]

lemma depth_0: "depth v = 0 \<longleftrightarrow> \<not> container v"
  by (subst depth_unfold) simp

lemma depth_walk_exact:
  "list_all (\<lambda>(v, d). container v) stack \<Longrightarrow>
     depth_walk m stack \<longleftrightarrow> (\<exists>(v, d)\<in>set stack. m < d + int (depth v) - 1)"
proof (induction m stack rule: depth_walk.induct)
  case (2 m node d stack)
  have node: "int (depth node) - 1 = int (deepest (map depth (children node)))"
    using "2.prems" by (simp add: depth_unfold [of node])
  show ?case
  proof (cases "m < d")
    case True
    then show ?thesis using node by auto
  next
    case False
    have "(\<exists>v\<in>set (children node). container v \<and> m < d + int (depth v)) \<longleftrightarrow> m < d + int (depth node) - 1"
    proof -
      have "m < d + int (depth node) - 1 \<longleftrightarrow> nat (m - d) < deepest (map depth (children node))"
        using False node by linarith
      also have "\<dots> \<longleftrightarrow> (\<exists>v\<in>set (children node). nat (m - d) < depth v)"
        by (simp add: deepest_less)
      also have "\<dots> \<longleftrightarrow> (\<exists>v\<in>set (children node). container v \<and> m < d + int (depth v))"
      proof (intro bex_cong refl)
        fix v
        have "nat (m - d) < depth v \<longleftrightarrow> m < d + int (depth v)" using False by linarith
        moreover have "\<not> container v \<Longrightarrow> depth v = 0" by (simp add: depth_0)
        ultimately show "nat (m - d) < depth v \<longleftrightarrow> container v \<and> m < d + int (depth v)" using False by fastforce
      qed
      finally show ?thesis by blast
    qed
    moreover have "depth_walk m (rev (map (\<lambda>v. (v, d + 1)) (filter container (children node))) @ stack) \<longleftrightarrow>
        (\<exists>(v, e)\<in>set (rev (map (\<lambda>v. (v, d + 1)) (filter container (children node))) @ stack). m < e + int (depth v) - 1)"
      by (intro "2.IH" [OF False]) (use "2.prems" in \<open>auto simp: list_all_iff\<close>)
    then have "depth_walk m ((node, d) # stack) \<longleftrightarrow>
        (\<exists>v\<in>set (children node). container v \<and> m < d + int (depth v)) \<or> (\<exists>(v, e)\<in>set stack. m < e + int (depth v) - 1)"
      using False by (auto simp: bex_Un)
    ultimately show ?thesis by simp
  qed
qed simp

lemma walk_decides: "json_nesting_depth_exceeds v m \<longleftrightarrow> 0 < m \<and> m < int (depth v)"
  using depth_walk_exact [of "[(v, 1)]" m] depth_0 [of v] by (auto simp: json_nesting_depth_exceeds_def)

text \<open>
  C18. The measurement with an explicit stack ends and decides the recursive depth: it reports a value if and only if
  the check is on and the value nests deeper than the limit, for every value and limit.
\<close>
theorem depth_walk_decides:
  "json_nesting_depth_exceeds v m \<longleftrightarrow> 0 < m \<and> m < int (depth v)"
  by (rule walk_decides)

section \<open>JSON texts\<close>

text \<open>A document as it is written: literals and strings with the bytes between the quotes, members in order and with
  repetitions. A text spreads its tokens with white space around them.\<close>

datatype jdoc = JAtom bytes | JString bytes | JArray "jdoc list" | JObject "(bytes \<times> jdoc) list"

definition quoted :: "bytes \<Rightarrow> bytes" where
  "quoted s = CHR 0x22 # s @ [CHR 0x22]"

fun commas :: "bytes list list \<Rightarrow> bytes list" where
  "commas [] = []"
| "commas [t] = t"
| "commas (t # ts) = t @ '','' # commas ts"

primrec member_tokens :: "bytes \<times> bytes list \<Rightarrow> bytes list" where
  "member_tokens (k, ts) = quoted k # '':'' # ts"

primrec jtokens :: "jdoc \<Rightarrow> bytes list" where
  "jtokens (JAtom a) = [a]"
| "jtokens (JString s) = [quoted s]"
| "jtokens (JArray ds) = ''['' # commas (map jtokens ds) @ ['']'']"
| "jtokens (JObject ms) = ''{'' # commas (map member_tokens (map (map_prod id jtokens) ms)) @ [''}'']"

fun string_body :: "bytes \<Rightarrow> bool" where
  "string_body [] = True"
| "string_body [c] \<longleftrightarrow> c \<noteq> CHR 0x5C \<and> c \<noteq> CHR 0x22"
| "string_body (c # c' # s) \<longleftrightarrow> (if c = CHR 0x5C then string_body s else c \<noteq> CHR 0x22 \<and> string_body (c' # s))"

definition inert :: "char \<Rightarrow> bool" where
  "inert c \<longleftrightarrow> c \<notin> {CHR 0x22, CHR 0x7B, CHR 0x5B, CHR 0x7D, CHR 0x5D}"

primrec wf_doc :: "jdoc \<Rightarrow> bool" where
  "wf_doc (JAtom a) \<longleftrightarrow> list_all inert a"
| "wf_doc (JString s) \<longleftrightarrow> string_body s"
| "wf_doc (JArray ds) \<longleftrightarrow> list_all id (map wf_doc ds)"
| "wf_doc (JObject ms) \<longleftrightarrow> list_all (\<lambda>(k, w). string_body k \<and> w) (map (map_prod id wf_doc) ms)"

definition json_space :: "char \<Rightarrow> bool" where
  "json_space c \<longleftrightarrow> c \<in> {CHR 0x20, CHR 0x09, CHR 0x0A, CHR 0x0D}"

inductive laid_out :: "bytes list \<Rightarrow> bytes \<Rightarrow> bool" where
  laid_end: "list_all json_space w \<Longrightarrow> laid_out [] w"
| laid_token: "list_all json_space w \<Longrightarrow> laid_out ts bs \<Longrightarrow> laid_out (t # ts) (w @ t @ bs)"

definition json_text :: "jdoc \<Rightarrow> bytes \<Rightarrow> bool" where
  "json_text d bs \<longleftrightarrow> wf_doc d \<and> laid_out (jtokens d) bs"

text \<open>What Python makes of it: the last of the members with one name wins, in the place of the first.\<close>

definition dict_of :: "(string \<times> pyval) list \<Rightarrow> (string \<times> pyval) list" where
  "dict_of kvs = fold (\<lambda>(k, v). AList.update k v) kvs []"

primrec python_of :: "(bytes \<Rightarrow> string) \<Rightarrow> jdoc \<Rightarrow> pyval" where
  "python_of unescape (JAtom a) = PScalar"
| "python_of unescape (JString s) = PScalar"
| "python_of unescape (JArray ds) = PList (map (python_of unescape) ds)"
| "python_of unescape (JObject ms) = PDict (dict_of (map (map_prod unescape (python_of unescape)) ms))"

primrec jdepth :: "jdoc \<Rightarrow> nat" where
  "jdepth (JAtom a) = 0"
| "jdepth (JString s) = 0"
| "jdepth (JArray ds) = Suc (deepest (map jdepth ds))"
| "jdepth (JObject ms) = Suc (deepest (map snd (map (map_prod id jdepth) ms)))"

lemma update_values: "snd ` set (AList.update k v kvs) \<subseteq> insert v (snd ` set kvs)"
  by (induction kvs) auto

lemma dict_of_values: "snd ` set (dict_of kvs) \<subseteq> snd ` set kvs"
proof -
  have "snd ` set (fold (\<lambda>(k, v). AList.update k v) kvs acc) \<subseteq> snd ` set kvs \<union> snd ` set acc" for acc
  proof (induction kvs arbitrary: acc)
    case (Cons p kvs)
    obtain k v where p: "p = (k, v)" by force
    have "snd ` set (fold (\<lambda>(k, v). AList.update k v) (p # kvs) acc) \<subseteq> snd ` set kvs \<union> snd ` set (AList.update k v acc)"
      using Cons.IH [of "AList.update k v acc"] by (simp add: p)
    also have "\<dots> \<subseteq> snd ` set (p # kvs) \<union> snd ` set acc" using update_values [of k v acc] by (auto simp: p)
    finally show ?case .
  qed simp
  from this [of "[]"] show ?thesis by (simp add: dict_of_def)
qed

lemma python_depth_le: "depth (python_of u d) \<le> jdepth d"
proof (induction d)
  case (JArray ds)
  have "depth (python_of u d) \<le> deepest (map jdepth ds)" if "d \<in> set ds" for d
    using JArray [OF that] deepest_le [THEN iffD1, OF order_refl, of "map jdepth ds"] that by (auto intro: order_trans)
  then show ?case by (subst depth_unfold) (auto simp: deepest_le)
next
  case (JObject ms)
  have "depth v \<le> deepest (map snd (map (map_prod id jdepth) ms))" if v: "v \<in> snd ` set (dict_of (map (map_prod u (python_of u)) ms))" for v
  proof -
    obtain k d where "(k, d) \<in> set ms" "v = python_of u d"
      using subsetD [OF dict_of_values v] by auto
    with JObject [of "(k, d)" d] show ?thesis
      by (intro order_trans [OF _ deepest_le [THEN iffD1, rule_format, OF order_refl]]) force+
  qed
  then show ?case by (subst depth_unfold) (auto simp: deepest_le)
qed (simp_all add: depth.simps)

section \<open>The scan is exact on JSON texts\<close>

definition tok_depth :: "bytes \<Rightarrow> int" where
  "tok_depth t = (if t = ''['' \<or> t = ''{'' then 1 else if t = '']'' \<or> t = ''}'' then - 1 else 0)"

fun peak_from :: "int \<Rightarrow> bytes list \<Rightarrow> int" where
  "peak_from k [] = k"
| "peak_from k (t # ts) = max k (peak_from (k + tok_depth t) ts)"

definition token_ok :: "bytes \<Rightarrow> bool" where
  "token_ok t \<longleftrightarrow> t \<in> {''['', ''{'', '']'', ''}''} \<or> list_all inert t \<or> (\<exists>s. t = quoted s \<and> string_body s)"

lemma peak_ge: "k \<le> peak_from k ts"
  by (cases ts) auto

lemma scan_inert: "list_all inert w \<Longrightarrow> quick_scan cap k p False False (w @ bs) = quick_scan cap k p False False bs"
  by (induction w) (auto simp: inert_def)

lemma scan_string: "string_body s \<Longrightarrow>
    quick_scan cap k p True False (s @ CHR 0x22 # bs) = quick_scan cap k p False False bs"
  by (induction s rule: string_body.induct) (auto split: if_splits)

lemma scan_token:
  assumes "token_ok t" "k \<le> p" "p < cap"
  shows "quick_scan cap k p False False (t @ bs) =
    (if cap \<le> k + tok_depth t then True
     else quick_scan cap (k + tok_depth t) (max p (k + tok_depth t)) False False bs)"
proof -
  consider "t = ''['' \<or> t = ''{''" | "t = '']'' \<or> t = ''}''" | "list_all inert t" | s where "t = quoted s" "string_body s"
    using assms(1) by (auto simp: token_ok_def)
  then show ?thesis
  proof cases
    case 3
    then have "tok_depth t = 0" by (auto simp: tok_depth_def inert_def)
    with 3 assms show ?thesis by (simp add: scan_inert max_absorb1)
  next
    case 4
    then have "tok_depth t = 0" by (simp add: tok_depth_def quoted_def)
    with 4 assms show ?thesis by (simp add: quoted_def scan_string max_absorb1)
  next
    case 1
    then show ?thesis using assms by (cases "p = k") (auto simp: tok_depth_def max_absorb1 max_absorb2)
  next
    case 2
    then show ?thesis using assms by (auto simp: tok_depth_def max_absorb1)
  qed
qed

lemma space_inert: "list_all json_space w \<Longrightarrow> list_all inert w"
  by (erule list.pred_mono_strong) (unfold json_space_def inert_def, elim insertE; simp)

lemma scan_laid_out:
  "laid_out ts bs \<Longrightarrow> list_all token_ok ts \<Longrightarrow> k \<le> p \<Longrightarrow> p < cap \<Longrightarrow>
     quick_scan cap k p False False bs \<longleftrightarrow> cap \<le> max p (peak_from k ts)"
proof (induction arbitrary: k p rule: laid_out.induct)
  case (laid_end w)
  then show ?case using scan_inert [OF space_inert, of w cap k p "[]"] by simp
next
  case (laid_token w ts bs t)
  let ?k = "k + tok_depth t"
  have "quick_scan cap k p False False (w @ t @ bs) =
      (if cap \<le> ?k then True else quick_scan cap ?k (max p ?k) False False bs)"
    using laid_token.prems by (simp add: scan_inert [OF space_inert [OF laid_token.hyps(1)]] scan_token)
  also have "\<dots> \<longleftrightarrow> cap \<le> max p (peak_from k (t # ts))"
    using laid_token.IH [of ?k "max p ?k"] laid_token.prems peak_ge [of ?k ts] by auto
  finally show ?case .
qed

lemma peak_list:
  assumes "\<And>t k ts. t \<in> set tss \<Longrightarrow> peak_from k (t @ ts) = max (k + int (f t)) (peak_from k ts)"
  shows "peak_from k (commas tss @ ts) = max (k + int (deepest (map f tss))) (peak_from k ts)"
  using assms
proof (induction tss arbitrary: k rule: commas.induct)
  case 1
  then show ?case using peak_ge [of k ts] by simp
next
  case (2 t)
  then show ?case by simp
next
  case (3 t t' ts')
  then show ?case using peak_ge [of k ts] by (simp add: tok_depth_def max.assoc)
qed

lemma mark_ok: "token_ok '',''" "token_ok '':''" "token_ok ''[''" "token_ok '']''" "token_ok ''{''" "token_ok ''}''"
  by (simp_all add: token_ok_def inert_def)

lemma commas_ok: "\<forall>ts\<in>set tss. list_all token_ok ts \<Longrightarrow> list_all token_ok (commas tss)"
  by (induction tss rule: commas.induct) (simp_all add: mark_ok)

lemma tokens_ok: "wf_doc d \<Longrightarrow> list_all token_ok (jtokens d)"
proof (induction d)
  case (JArray ds)
  have "list_all token_ok (commas (map jtokens ds))"
    using JArray by (intro commas_ok) (auto simp: list_all_iff)
  then show ?case by (simp add: mark_ok)
next
  case (JObject ms)
  have "list_all token_ok (member_tokens (map_prod id jtokens p))" if "p \<in> set ms" for p
  proof -
    obtain k d where p: "p = (k, d)" by force
    have wf: "string_body k" "wf_doc d" using JObject.prems that by (auto simp: p list_all_iff)
    have "list_all token_ok (jtokens d)" using JObject.IH [OF that, of d] wf by (simp add: p)
    moreover have "token_ok (quoted k)" "token_ok '':''" using wf by (auto simp: token_ok_def inert_def)
    ultimately show ?thesis by (simp add: p)
  qed
  then have "list_all token_ok (commas (map member_tokens (map (map_prod id jtokens) ms)))"
    by (intro commas_ok) auto
  then show ?case by (simp add: mark_ok)
qed (auto simp: token_ok_def)

lemma tok_depth_quoted: "tok_depth (quoted s) = 0" "tok_depth '':'' = 0"
  by (simp_all add: tok_depth_def quoted_def)

lemma peak_quoted: "peak_from k (quoted s # ts) = peak_from k ts"
  using peak_ge [of k ts] by (simp add: tok_depth_quoted max_absorb2)

lemma peak_doc: "wf_doc d \<Longrightarrow> peak_from k (jtokens d @ ts) = max (k + int (jdepth d)) (peak_from k ts)"
proof (induction d arbitrary: k ts)
  case (JAtom a)
  then have "tok_depth a = 0" by (auto simp: tok_depth_def inert_def)
  then show ?case by simp
next
  case (JString s)
  then show ?case using peak_ge [of k ts] by (simp only: jtokens.simps append.simps peak_quoted) simp
next
  case (JArray ds)
  have wf: "\<And>d. d \<in> set ds \<Longrightarrow> wf_doc d" using JArray.prems by (simp add: list_all_iff)
  have "peak_from (k + 1) (commas (map jtokens ds) @ '']'' # ts) =
      max (k + 1 + int (deepest (map (\<lambda>t. nat (peak_from 0 t)) (map jtokens ds)))) (peak_from (k + 1) ('']'' # ts))"
    by (rule peak_list) (use JArray.IH wf peak_ge in \<open>auto simp: JArray.IH [where ts = "[]", simplified]\<close>)
  moreover have "map (\<lambda>t. nat (peak_from 0 t)) (map jtokens ds) = map jdepth ds"
    using JArray.IH [where k = 0 and ts = "[]"] wf by simp
  ultimately have "peak_from (k + 1) (commas (map jtokens ds) @ '']'' # ts) =
      max (k + 1 + int (deepest (map jdepth ds))) (peak_from (k + 1) ('']'' # ts))" by (simp only:)
  then show ?case using peak_ge [of k ts] by (simp add: tok_depth_def) linarith?
next
  case (JObject ms)
  let ?tss = "map member_tokens (map (map_prod id jtokens) ms)"
  have m: "peak_from j (member_tokens (map_prod id jtokens p) @ us) = max (j + int (jdepth (snd p))) (peak_from j us)"
    if "p \<in> set ms" for p j us
  proof -
    obtain k d where p: "p = (k, d)" by force
    have "wf_doc d" using JObject.prems that by (auto simp: p list_all_iff)
    then show ?thesis using JObject.IH [OF that, of d] peak_ge [of j "jtokens d @ us"]
      by (simp add: p tok_depth_quoted max_absorb2)
  qed
  have "peak_from (k + 1) (commas ?tss @ ''}'' # ts) =
      max (k + 1 + int (deepest (map (\<lambda>t. nat (peak_from 0 t)) ?tss))) (peak_from (k + 1) (''}'' # ts))"
  proof (rule peak_list)
    fix t j us
    assume "t \<in> set ?tss"
    then obtain p where p: "p \<in> set ms" and t: "t = member_tokens (map_prod id jtokens p)"
      by (simp add: image_iff del: member_tokens.simps) blast
    show "peak_from j (t @ us) = max (j + int (nat (peak_from 0 t))) (peak_from j us)"
      using m [OF p, of j us] m [OF p, of 0 "[]"] unfolding t [symmetric] by simp
  qed
  moreover have "map (\<lambda>t. nat (peak_from 0 t)) ?tss = map snd (map (map_prod id jdepth) ms)"
    using m [where j = 0 and us = "[]"] by simp
  ultimately have "peak_from (k + 1) (commas ?tss @ ''}'' # ts) =
      max (k + 1 + int (deepest (map snd (map (map_prod id jdepth) ms)))) (peak_from (k + 1) (''}'' # ts))" by (simp only:)
  then show ?case using peak_ge [of k ts] by (simp add: tok_depth_def) linarith?
qed

lemma scan_exact:
  assumes "json_text d body" "0 \<le> m"
  shows "quick_depth_might_exceed body m \<longleftrightarrow> m < int (jdepth d)"
proof -
  have "quick_depth_might_exceed body m \<longleftrightarrow> m + 1 \<le> max 0 (peak_from 0 (jtokens d))"
    unfolding quick_depth_might_exceed_def
    by (rule scan_laid_out) (use assms tokens_ok in \<open>auto simp: json_text_def\<close>)
  moreover have "peak_from 0 (jtokens d) = int (jdepth d)"
    using peak_doc [of d 0 "[]"] assms(1) by (simp add: json_text_def)
  ultimately show ?thesis by auto
qed

text \<open>
  C14. On every JSON text, with any white space, escapes, brackets inside strings and repeated members, the scan of the bytes
  is exact: it reports the text if and only if some bracket in it opens beyond the limit.
\<close>
theorem quick_scan_exact:
  assumes "json_text d body" "0 \<le> m"
  shows "quick_depth_might_exceed body m \<longleftrightarrow> m < int (jdepth d)"
  using assms by (rule scan_exact)

section \<open>The gate\<close>

definition guarded :: "scope \<Rightarrow> bool" where
  "guarded scope \<longleftrightarrow> sc_type scope = ''http'' \<and> sc_method scope \<in> Some ` set GUARDED_METHODS \<and>
     path_is_guarded (sc_path scope) \<and>
     \<not> (sc_method scope = Some ''POST'' \<and> sc_path scope \<in> Some ` set POST_MULTIPART_GATED_PATHS) \<and>
     is_jsonish_content_type (sc_headers scope) (sc_path scope)"

lemma gate_guarded:
  assumes "guarded scope" "0 < cap" "drain_body [] receive = Whole_body chunks rest"
  shows "body_depth_gate loads cap scope receive = check_body loads cap (concat chunks) rest"
  using assms by (auto simp: body_depth_gate_def guarded_def)

text \<open>\<open>json.loads\<close> guesses the encoding of bytes from their first four.\<close>

datatype encoding = UTF_8 | UTF_8_SIG | UTF_16 | UTF_16_LE | UTF_16_BE | UTF_32 | UTF_32_LE | UTF_32_BE

definition nul :: "bytes \<Rightarrow> nat \<Rightarrow> bool" where
  "nul b i \<longleftrightarrow> i < length b \<and> b ! i = CHR 0x00"

definition detect_encoding :: "bytes \<Rightarrow> encoding" where
  "detect_encoding b =
     (if startswith b [CHR 0x00, CHR 0x00, CHR 0xFE, CHR 0xFF] \<or> startswith b [CHR 0xFF, CHR 0xFE, CHR 0x00, CHR 0x00] then UTF_32
      else if startswith b [CHR 0xFE, CHR 0xFF] \<or> startswith b [CHR 0xFF, CHR 0xFE] then UTF_16
      else if startswith b [CHR 0xEF, CHR 0xBB, CHR 0xBF] then UTF_8_SIG
      else if 4 \<le> length b \<and> nul b 0 then (if nul b 1 then UTF_32_BE else UTF_16_BE)
      else if 4 \<le> length b \<and> nul b 1 then (if nul b 2 \<and> nul b 3 then UTF_32_LE else UTF_16_LE)
      else if length b = 2 \<and> nul b 0 then UTF_16_BE
      else if length b = 2 \<and> nul b 1 then UTF_16_LE
      else UTF_8)"

text \<open>What is relied on of \<open>json.loads\<close>: a value it returns for a body in UTF-8 is that of a JSON text that is the body.\<close>

definition loads_law :: "(bytes \<Rightarrow> string) \<Rightarrow> (bytes \<Rightarrow> load_result) \<Rightarrow> bool" where
  "loads_law unescape loads \<longleftrightarrow>
     (\<forall>b v. loads b = Parsed v \<longrightarrow> detect_encoding b = UTF_8 \<longrightarrow> (\<exists>d. json_text d b \<and> v = python_of unescape d))"

lemma spaces_shallow:
  assumes "json_text d body" "list_all bytes_space body"
  shows "jdepth d = 0"
proof -
  have "bytes_space c \<Longrightarrow> inert c" for c
    by (auto simp: bytes_space_def inert_def)
  then have "list_all inert body" using assms(2) by (auto simp: list_all_iff)
  then have "\<not> quick_depth_might_exceed body 0"
    using scan_inert [of body 1 0 0 "[]"] by (simp add: quick_depth_might_exceed_def)
  then show ?thesis using scan_exact [OF assms(1), of 0] by simp
qed

text \<open>
  C15. With the check on, the gate is exact on guarded requests whose body arrives whole, is detected as UTF-8 and
  parses (a body in UTF-16 gets past it: see \<open>utf16_passes_gate\<close>): it answers 400 if and only if the parsed value
  nests deeper than the limit, and otherwise hands the unchanged body on; no shortcut lets a deep body pass or bounces a
  shallow one.
\<close>
theorem body_gate_exact:
  assumes "guarded scope" "0 < cap" "drain_body [] receive = Whole_body chunks rest"
    and "loads_law unescape loads" "detect_encoding (concat chunks) = UTF_8" "loads (concat chunks) = Parsed v"
  shows "body_depth_gate loads cap scope receive =
    (if cap < int (depth v) then Reject_400 cap else Call_buffered (concat chunks) rest)"
proof -
  obtain d where d: "json_text d (concat chunks)" and v: "v = python_of unescape d"
    using assms(4-6) unfolding loads_law_def by blast
  have le: "depth v \<le> jdepth d" unfolding v by (rule python_depth_le)
  have "quick_depth_might_exceed (concat chunks) cap \<longleftrightarrow> cap < int (jdepth d)"
    using scan_exact [OF d] assms(2) by simp
  then show ?thesis
    using gate_guarded [OF assms(1-3)] assms(2,6) le spaces_shallow [OF d]
    by (auto simp: check_body_def walk_decides)
qed

section \<open>The application sees what the client sent\<close>

fun take_buffered :: "nat \<Rightarrow> buffered_receive \<Rightarrow> asgi_msg list" where
  "take_buffered 0 r = []"
| "take_buffered (Suc n) r =
     (case receive_buffered r of (None, r') \<Rightarrow> [] | (Some m, r') \<Rightarrow> m # take_buffered n r')"

fun take_disconnecting :: "nat \<Rightarrow> disconnecting_receive \<Rightarrow> asgi_msg list" where
  "take_disconnecting 0 r = []"
| "take_disconnecting (Suc n) r = (case receive_disconnecting r of (m, r') \<Rightarrow> m # take_disconnecting n r')"

text \<open>The first messages the application receives, and what it assembles from messages: the body and what comes after
  it, the part before a disconnect, or nothing yet.\<close>

fun seen_by_app :: "nat \<Rightarrow> gate_result \<Rightarrow> asgi_msg list option" where
  "seen_by_app n (Call_app ms) = Some (take n ms)"
| "seen_by_app n (Call_buffered b rest) = Some (take_buffered n (replay_buffered b rest))"
| "seen_by_app n (Call_disconnecting cs) = Some (take_disconnecting n (replay_with_disconnect cs))"
| "seen_by_app n g = None"

definition assembled :: "asgi_msg list \<Rightarrow> drained" where
  "assembled ms = (case drain_body [] ms of Whole_body cs rest \<Rightarrow> Whole_body [concat cs] rest
     | Client_gone cs \<Rightarrow> Client_gone [concat cs] | Blocked \<Rightarrow> Blocked)"

lemma take_buffered_sent: "take_buffered n \<lparr>br_body = b, br_sent = True, br_original = rest\<rparr> = take n rest"
proof (induction n arbitrary: rest)
  case (Suc n)
  then show ?case by (cases rest) (simp_all add: receive_buffered_def)
qed simp

lemma take_replay_buffered: "take_buffered n (replay_buffered b rest) = take n (Http_request (Some b) False # rest)"
  by (cases n) (simp_all add: replay_buffered_def receive_buffered_def take_buffered_sent)

lemma take_disconnecting_from:
  "take_disconnecting n \<lparr>dr_chunks = cs, dr_idx = i\<rparr> =
     take n (map (\<lambda>c. Http_request (Some c) True) (drop i cs)) @ replicate (n - (length cs - i)) Http_disconnect"
proof (induction n arbitrary: i)
  case (Suc n)
  show ?case
  proof (cases "i < length cs")
    case True
    then have "drop i cs = cs ! i # drop (Suc i) cs" by (simp add: Cons_nth_drop_Suc)
    moreover have "Suc n - (length cs - i) = n - (length cs - Suc i)" using True by simp
    ultimately show ?thesis using True Suc [of "Suc i"] by (simp add: receive_disconnecting_def)
  next
    case False
    then show ?thesis using Suc [of i] by (simp add: receive_disconnecting_def)
  qed
qed simp

lemma drain_replay:
  "\<exists>cs'. drain_body acc (map (\<lambda>c. Http_request (Some c) True) cs @ Http_disconnect # ms) = Client_gone cs' \<and>
     concat cs' = concat acc @ concat cs"
proof (induction cs arbitrary: acc)
  case (Cons c cs)
  from Cons.IH [of acc] Cons.IH [of "acc @ [c]"] show ?case by (cases "c = []") (simp_all add: body_of_def)
qed simp

lemma drain_whole_rest: "drain_body acc ms = Whole_body cs rest \<Longrightarrow> length rest < length ms"
  by (induction acc ms rule: drain_body.induct) (auto simp: Let_def split: if_splits)

lemma drain_gone_chunks: "drain_body acc ms = Client_gone cs \<Longrightarrow> length cs < length acc + length ms"
  by (induction acc ms rule: drain_body.induct) (auto simp: Let_def split: if_splits)

lemma assembled_buffered: "assembled (Http_request (Some b) False # rest) = Whole_body [b] rest"
  by (simp add: assembled_def body_of_def)

lemma gate_calls:
  assumes "body_depth_gate loads cap scope receive = g"
  shows "case g of Call_app ms \<Rightarrow> ms = receive
    | Call_buffered b rest \<Rightarrow> (\<exists>cs. drain_body [] receive = Whole_body cs rest \<and> b = concat cs)
    | Call_disconnecting cs \<Rightarrow> drain_body [] receive = Client_gone cs
    | _ \<Rightarrow> True"
  using assms unfolding body_depth_gate_def check_body_def
  by (auto split: gate_result.split if_splits drained.splits load_result.splits)

text \<open>
  C16. The gate is transparent: whenever it calls the application, the application assembles from what it receives exactly
  what it would from the client's own messages: the same body and the same messages after it, or the same part of a body
  and the disconnect, never a truncated body that looks complete.
\<close>
theorem gate_transparent:
  assumes "seen_by_app n (body_depth_gate loads cap scope receive) = Some ms" "length receive < n"
  shows "assembled ms = assembled receive"
proof (cases "body_depth_gate loads cap scope receive")
  case (Call_app ms')
  then show ?thesis using assms gate_calls [OF Call_app] by simp
next
  case (Call_buffered b rest)
  then obtain cs where cs: "drain_body [] receive = Whole_body cs rest" "b = concat cs"
    using gate_calls [OF Call_buffered] by auto
  have "ms = Http_request (Some b) False # rest"
    using assms drain_whole_rest [OF cs(1)] by (simp add: Call_buffered take_replay_buffered)
  then have "assembled ms = Whole_body [b] rest" by (simp add: assembled_buffered)
  then show ?thesis using cs by (simp add: assembled_def)
next
  case (Call_disconnecting cs)
  then have cs: "drain_body [] receive = Client_gone cs" using gate_calls [OF Call_disconnecting] by simp
  have lt: "length cs < n" using drain_gone_chunks [OF cs] assms(2) by simp
  then have "ms = map (\<lambda>c. Http_request (Some c) True) cs @ Http_disconnect # replicate (n - length cs - 1) Http_disconnect"
    using assms(1) by (cases "n - length cs")
      (auto simp: Call_disconnecting replay_with_disconnect_def take_disconnecting_from min_absorb2 Suc_diff_Suc)
  moreover obtain cs' where "drain_body [] (map (\<lambda>c. Http_request (Some c) True) cs @ Http_disconnect #
      replicate (n - length cs - 1) Http_disconnect) = Client_gone cs'" "concat cs' = concat cs"
    using drain_replay [of "[]" cs] by fastforce
  ultimately show ?thesis using cs by (simp add: assembled_def)
qed (use assms in auto)

section \<open>A body in UTF-16\<close>

definition utf16le :: "nat list \<Rightarrow> bytes" where
  "utf16le cps = concat (map (\<lambda>c. [char_of (c mod 256), char_of (c div 256)]) cps)"

text \<open>UTF-8 below U+0800.\<close>

definition utf8 :: "nat list \<Rightarrow> bytes" where
  "utf8 cps = concat (map (\<lambda>c. if c < 128 then [char_of c] else [char_of (192 + c div 64), char_of (128 + c mod 64)]) cps)"

text \<open>The text \<open>["G",[[\<dots>[]\<dots>]]]\<close> with U+0122, a G with a cedilla, whose low byte is the quotation mark.\<close>

definition smuggled :: "nat \<Rightarrow> nat list" where
  "smuggled n = [0x5B, 0x22, 0x122, 0x22, 0x2C] @ replicate (Suc n) 0x5B @ replicate (Suc n) 0x5D @ [0x5D]"

primrec nested :: "nat \<Rightarrow> jdoc" where
  "nested 0 = JArray []"
| "nested (Suc n) = JArray [nested n]"

definition smuggled_doc :: "nat \<Rightarrow> jdoc" where
  "smuggled_doc n = JArray [JString (utf8 [0x122]), nested n]"

lemma nested_depth: "depth (python_of u (nested n)) = Suc n"
  by (induction n) (simp_all add: depth.simps)

lemma smuggled_depth: "depth (python_of u (smuggled_doc n)) = n + 2"
  by (simp add: smuggled_doc_def depth_unfold [of "PList _"] nested_depth) (simp add: depth.simps)

lemma nested_tokens: "jtokens (nested n) = replicate (Suc n) ''['' @ replicate (Suc n) '']''"
  by (induction n) (simp_all add: replicate_append_same)

lemma nested_wf: "wf_doc (nested n)"
  by (induction n) simp_all

lemma laid_out_concat: "laid_out ts (concat ts)"
  by (induction ts) (auto intro: laid_out.intros(1) laid_out.intros(2) [of "[]", simplified])

lemma utf8_replicate: "c < 128 \<Longrightarrow> utf8 (replicate n c) = replicate n (char_of c)"
  by (induction n) (simp_all add: utf8_def)

lemma utf8_append: "utf8 (xs @ ys) = utf8 xs @ utf8 ys"
  by (simp add: utf8_def)

lemma concat_replicate_single: "concat (replicate n [c]) = replicate n c"
  by (induction n) simp_all

lemma marks: "char_of (91 :: nat) = CHR ''[''" "char_of (93 :: nat) = CHR '']''" "char_of (34 :: nat) = CHR 0x22"
    "char_of (44 :: nat) = CHR '',''" "char_of (Suc 0) = CHR 0x01" "char_of (290 :: nat) = CHR 0x22" "char_of (196 :: nat) = CHR 0xC4" "char_of (162 :: nat) = CHR 0xA2" "char_of (0 :: nat) = CHR 0x00"
  by code_simp+

lemma smuggled_text: "json_text (smuggled_doc n) (utf8 (smuggled n))"
proof -
  have "utf8 (smuggled n) = concat (jtokens (smuggled_doc n))"
    by (simp add: smuggled_def smuggled_doc_def utf8_append utf8_replicate nested_tokens concat_replicate_single del: replicate_Suc)
      (simp add: utf8_def quoted_def marks)
  then show ?thesis using laid_out_concat [of "jtokens (smuggled_doc n)"]
    by (simp add: json_text_def smuggled_doc_def nested_wf utf8_def marks)
qed

lemma scan_in_string:
  "list_all (\<lambda>c. c \<noteq> CHR 0x22 \<and> c \<noteq> CHR 0x5C) bs \<Longrightarrow> quick_scan cap k p True False bs \<longleftrightarrow> cap \<le> p"
  by (induction bs) auto

lemma utf16le_replicate: "set (utf16le (replicate n c)) \<subseteq> {char_of (c mod 256), char_of (c div 256)}"
  by (auto simp: utf16le_def)

lemma smuggled_bytes:
  "\<exists>w. utf16le (smuggled n) = [CHR 0x5B, CHR 0x00, CHR 0x22, CHR 0x00, CHR 0x22, CHR 0x01, CHR 0x22, CHR 0x00] @ w \<and>
     list_all (\<lambda>c. c \<noteq> CHR 0x22 \<and> c \<noteq> CHR 0x5C) w"
proof (intro exI conjI)
  let ?w = "utf16le ([0x2C] @ replicate (Suc n) 0x5B @ replicate (Suc n) 0x5D @ [0x5D])"
  show "utf16le (smuggled n) = [CHR 0x5B, CHR 0x00, CHR 0x22, CHR 0x00, CHR 0x22, CHR 0x01, CHR 0x22, CHR 0x00] @ ?w"
    by (simp add: smuggled_def utf16le_def marks)
  have "set ?w \<subseteq> {CHR 0x2C, CHR 0x00, CHR 0x5B, CHR 0x5D}"
    using utf16le_replicate [of "Suc n" "0x5B"] utf16le_replicate [of "Suc n" "0x5D"]
    by (auto simp: utf16le_def marks)
  then show "list_all (\<lambda>c. c \<noteq> CHR 0x22 \<and> c \<noteq> CHR 0x5C) ?w" unfolding list_all_iff by fastforce
qed

lemma smuggled_scan:
  assumes "0 < cap"
  shows "\<not> quick_depth_might_exceed (utf16le (smuggled n)) cap"
proof -
  obtain w where "utf16le (smuggled n) = [CHR 0x5B, CHR 0x00, CHR 0x22, CHR 0x00, CHR 0x22, CHR 0x01, CHR 0x22, CHR 0x00] @ w"
    "list_all (\<lambda>c. c \<noteq> CHR 0x22 \<and> c \<noteq> CHR 0x5C) w" using smuggled_bytes [of n] by blast
  then show ?thesis using assms by (simp add: quick_depth_might_exceed_def scan_in_string)
qed

lemma smuggled_encoding: "detect_encoding (utf16le (smuggled n)) = UTF_16_LE"
proof -
  obtain w where "utf16le (smuggled n) = [CHR 0x5B, CHR 0x00, CHR 0x22, CHR 0x00, CHR 0x22, CHR 0x01, CHR 0x22, CHR 0x00] @ w"
    using smuggled_bytes [of n] by blast
  then show ?thesis by (simp add: detect_encoding_def startswith_def nul_def)
qed

text \<open>
  C17. The scan assumes UTF-8, which \<open>json.loads\<close> does not: the same text, nested arbitrarily deep, is handed on whatever
  the limit when it is sent in UTF-16, where the low byte of a letter in a string passes for the closing quotation mark and
  all brackets after it for parts of a string; in UTF-8 it is rejected.
\<close>
theorem utf16_passes_gate:
  assumes "guarded scope" "0 < cap" "drain_body [] receive = Whole_body chunks rest"
    and "concat chunks = utf16le (smuggled n)"
  shows "body_depth_gate loads cap scope receive = Call_buffered (utf16le (smuggled n)) rest \<and>
    detect_encoding (utf16le (smuggled n)) = UTF_16_LE \<and>
    json_text (smuggled_doc n) (utf8 (smuggled n)) \<and> depth (python_of unescape (smuggled_doc n)) = n + 2"
  using gate_guarded [OF assms(1-3)] assms(2,4) smuggled_scan [of cap n] smuggled_encoding smuggled_text smuggled_depth
  by (simp add: check_body_def)

section \<open>Witnesses\<close>

definition chat_scope :: scope where
  "chat_scope = \<lparr>sc_type = ''http'', sc_method = Some ''POST'', sc_path = Some ''/v1/chat/completions'',
     sc_headers = [(''Content-Type'', ''application/json; charset=utf-8'')]\<rparr>"

lemma chat_guarded: "guarded chat_scope"
  by code_simp

theorem quick_scan_exact_witness: "quick_depth_might_exceed (utf8 (smuggled 3)) 4 \<and> \<not> quick_depth_might_exceed (utf8 (smuggled 3)) 5"
proof -
  have "jdepth (smuggled_doc 3) = 5" by (simp add: smuggled_doc_def numeral_3_eq_3)
  then show ?thesis using quick_scan_exact [OF smuggled_text, of 4 3] quick_scan_exact [OF smuggled_text, of 5 3] by simp
qed

text \<open>A parser that knows two bodies.\<close>

definition toy_loads :: "bytes \<Rightarrow> load_result" where
  "toy_loads b = (if b = ''[[]]'' then Parsed (PList [PList []]) else JSON_decode_error)"

lemma toy_law: "loads_law id toy_loads"
proof -
  have "json_text (nested 1) ''[[]]''"
    using laid_out_concat [of "jtokens (nested 1)"] by (simp add: json_text_def nested_wf)
  then show ?thesis by (auto simp: loads_law_def toy_loads_def intro!: exI [of _ "nested 1"])
qed

theorem body_gate_exact_witness:
  "body_depth_gate toy_loads 1 chat_scope [Http_request (Some ''[['') True, Http_request (Some '']]'') False, Http_disconnect]
     = Reject_400 1 \<and>
   body_depth_gate toy_loads 2 chat_scope [Http_request (Some ''[['') True, Http_request (Some '']]'') False, Http_disconnect]
     = Call_buffered ''[[]]'' [Http_disconnect]"
proof -
  let ?r = "[Http_request (Some ''[['') True, Http_request (Some '']]'') False, Http_disconnect]"
  have d: "drain_body [] ?r = Whole_body [''[['', '']]''] [Http_disconnect]" by (simp add: body_of_def)
  have "detect_encoding ''[[]]'' = UTF_8" "toy_loads ''[[]]'' = Parsed (PList [PList []])"
    by (simp_all add: detect_encoding_def startswith_def nul_def toy_loads_def nth_Cons')
  then show ?thesis
    using body_gate_exact [OF chat_guarded _ d toy_law, of 1 "PList [PList []]"]
      body_gate_exact [OF chat_guarded _ d toy_law, of 2 "PList [PList []]"]
    by (simp add: depth.simps)
qed

theorem gate_transparent_witness:
  "assembled [Http_request (Some ''ab'') True, Http_disconnect] = assembled [Http_request (Some ''ab'') True, Http_disconnect] \<and>
   seen_by_app 3 (body_depth_gate toy_loads 64 chat_scope [Http_request (Some ''ab'') True, Http_disconnect]) =
     Some [Http_request (Some ''ab'') True, Http_disconnect, Http_disconnect] \<and>
   assembled [Http_request (Some ''ab'') True, Http_disconnect, Http_disconnect] = Client_gone [''ab'']"
proof -
  let ?r = "[Http_request (Some ''ab'') True, Http_disconnect]"
  have "body_depth_gate toy_loads 64 chat_scope ?r = Call_disconnecting [''ab'']"
    using chat_guarded by (auto simp: body_depth_gate_def guarded_def body_of_def)
  then have seen: "seen_by_app 3 (body_depth_gate toy_loads 64 chat_scope ?r) =
      Some [Http_request (Some ''ab'') True, Http_disconnect, Http_disconnect]"
    by (simp add: replay_with_disconnect_def take_disconnecting_from numeral_3_eq_3)
  have "assembled ?r = Client_gone [''ab'']" by (simp add: assembled_def body_of_def)
  then show ?thesis using seen gate_transparent [OF seen] by simp
qed

theorem utf16_passes_gate_witness:
  "body_depth_gate toy_loads 64 chat_scope [Http_request (Some (utf16le (smuggled 998))) False] =
     Call_buffered (utf16le (smuggled 998)) [] \<and> depth (python_of id (smuggled_doc 998)) = 1000"
proof -
  have "utf16le (smuggled n) \<noteq> []" for n by (simp add: smuggled_def utf16le_def)
  then have "drain_body [] [Http_request (Some (utf16le (smuggled 998))) False] = Whole_body [utf16le (smuggled 998)] []"
    by (simp add: body_of_def)
  from utf16_passes_gate [OF chat_guarded _ this, of 64 998 toy_loads id] show ?thesis by simp
qed

end
