(* ===== verification/PFlash.thy ===== *)
theory PFlash
  imports Prelude "HOL-Library.Product_Lexorder" "HOL-Library.Sublist"
begin

text \<open>
  \<^bold>\<open>rapid_mlx/pflash.py.\<close> The lossy compression of very long prompts before prefill: the start and the end of the prompt
  are kept, and the rest of a budget is filled with the blocks of the middle that score best. Python's floating-point
  operations are a record of functions on a linearly ordered type, so that every result holds whatever they round to.
\<close>

section \<open>Configuration\<close>

record 'f py_float =
  fl_quotient :: "int \<Rightarrow> int \<Rightarrow> 'f"       \<comment> \<open>\<open>a / b\<close> on integers\<close>
  fl_over :: "'f \<Rightarrow> int \<Rightarrow> 'f"           \<comment> \<open>\<open>x / n\<close>\<close>
  fl_scaled :: "int \<Rightarrow> 'f \<Rightarrow> 'f"         \<comment> \<open>\<open>n * x\<close>\<close>
  fl_times :: "'f \<Rightarrow> 'f \<Rightarrow> 'f"
  fl_plus :: "'f \<Rightarrow> 'f \<Rightarrow> 'f"
  fl_neg :: "'f \<Rightarrow> 'f"
  fl_sum :: "'f list \<Rightarrow> 'f"
  fl_ceil :: "'f \<Rightarrow> int"
  fl_literal :: "rat \<Rightarrow> 'f"

record 'f pflash_config =
  pf_mode :: string
  pf_threshold :: int
  pf_keep_ratio :: 'f
  pf_min_keep_tokens :: int
  pf_sink_tokens :: int
  pf_tail_tokens :: int
  pf_block_size :: int
  pf_query_window :: int
  pf_stride_blocks :: int
  pf_skip_when_tools :: bool
  pf_threshold_basis :: string

definition default_config :: "'f py_float \<Rightarrow> 'f pflash_config" where
  "default_config F = \<lparr>pf_mode = ''off'', pf_threshold = 32768, pf_keep_ratio = fl_literal F (1 / 5),
     pf_min_keep_tokens = 2048, pf_sink_tokens = 256, pf_tail_tokens = 2048, pf_block_size = 128,
     pf_query_window = 512, pf_stride_blocks = 8, pf_skip_when_tools = True, pf_threshold_basis = ''total''\<rparr>"

definition validate_config :: "'f::linorder py_float \<Rightarrow> 'f pflash_config \<Rightarrow> py_error + 'f pflash_config" where
  "validate_config F c =
     (if pf_mode c \<notin> {''off'', ''auto'', ''always''} then Inl ValueError
      else if pf_threshold c < 0 then Inl ValueError
      else if \<not> (fl_literal F 0 < pf_keep_ratio c \<and> pf_keep_ratio c \<le> fl_literal F 1) then Inl ValueError
      else if pf_min_keep_tokens c < 0 then Inl ValueError
      else if pf_sink_tokens c < 0 then Inl ValueError
      else if pf_tail_tokens c < 0 then Inl ValueError
      else if pf_block_size c \<le> 0 then Inl ValueError
      else if pf_query_window c \<le> 0 then Inl ValueError
      else if pf_stride_blocks c < 0 then Inl ValueError
      else if pf_threshold_basis c \<notin> {''total'', ''uncached''} then Inl ValueError
      else Inr c)"

text \<open>Why the uncached basis of the threshold has no effect, if it has none; the messages are kept as they are.\<close>

definition threshold_basis_fallback_reason :: "'f pflash_config \<Rightarrow> bool \<Rightarrow> bool \<Rightarrow> bool \<Rightarrow> string option" where
  "threshold_basis_fallback_reason c prefix_cache_enabled paged_cache_enabled memory_aware_cache_available =
     (if pf_threshold_basis c \<noteq> ''uncached'' \<or> pf_mode c = ''off'' then None
      else if pf_mode c = ''always'' then Some ''--pflash always does not use the auto threshold''
      else if \<not> prefix_cache_enabled then Some ''prefix caching is disabled''
      else if paged_cache_enabled
      then Some ''the block-aware/paged cache does not support uncached threshold checks''
      else if \<not> memory_aware_cache_available then Some ''the memory-aware prefix cache is disabled''
      else None)"

text \<open>What the command line gives: the flags, \<open>None\<close> where they are absent. The model's profile comes from its detection.\<close>

record 'f model_profile =
  mp_pflash_tier :: string
  mp_pflash_keep_ratio :: "'f option"

definition resolve_pflash_mode_default :: "string option \<Rightarrow> 'f model_profile option \<Rightarrow> bool \<Rightarrow> string" where
  "resolve_pflash_mode_default flag profile is_multimodal =
     (case flag of Some mode \<Rightarrow> mode
      | None \<Rightarrow>
          (case profile of None \<Rightarrow> ''off''
           | Some p \<Rightarrow> if mp_pflash_tier p = ''verified'' then (if is_multimodal then ''off'' else ''off'') else ''off''))"

definition resolve_pflash_keep_ratio_default :: "'f py_float \<Rightarrow> 'f option \<Rightarrow> 'f model_profile option \<Rightarrow> 'f" where
  "resolve_pflash_keep_ratio_default F flag profile =
     (case flag of Some r \<Rightarrow> r
      | None \<Rightarrow>
          (case profile of None \<Rightarrow> fl_literal F (1 / 5)
           | Some p \<Rightarrow> (case mp_pflash_keep_ratio p of Some r \<Rightarrow> r | None \<Rightarrow> fl_literal F (1 / 5))))"

definition validate_model_support :: "'f pflash_config \<Rightarrow> bool \<Rightarrow> py_error + unit" where
  "validate_model_support c is_mllm = (if pf_mode c \<noteq> ''off'' \<and> is_mllm then Inl ValueError else Inr ())"

section \<open>Results\<close>

record pflash_result =
  pr_tokens :: "int list"
  pr_compressed :: bool
  pr_reason :: string
  pr_original_tokens :: int
  pr_kept_tokens :: int
  pr_middle_tokens_kept :: int

definition unchanged :: "int list \<Rightarrow> string \<Rightarrow> pflash_result" where
  "unchanged tokens reason = \<lparr>pr_tokens = tokens, pr_compressed = False, pr_reason = reason,
     pr_original_tokens = int (length tokens), pr_kept_tokens = int (length tokens), pr_middle_tokens_kept = 0\<rparr>"

definition changed :: "int list \<Rightarrow> int list \<Rightarrow> string \<Rightarrow> int \<Rightarrow> pflash_result" where
  "changed tokens kept reason middle = \<lparr>pr_tokens = kept, pr_compressed = True, pr_reason = reason,
     pr_original_tokens = int (length tokens), pr_kept_tokens = int (length kept), pr_middle_tokens_kept = middle\<rparr>"

definition endpoints_only :: "pflash_result \<Rightarrow> bool" where
  "endpoints_only r \<longleftrightarrow> pr_compressed r \<and> pr_middle_tokens_kept r = 0"

definition compression_ratio :: "'f py_float \<Rightarrow> pflash_result \<Rightarrow> 'f" where
  "compression_ratio F r =
     (if pr_original_tokens r = 0 then fl_literal F 1 else fl_quotient F (pr_kept_tokens r) (pr_original_tokens r))"

section \<open>Scoring the blocks of the middle\<close>

record 'f block_score =
  bs_start :: nat
  bs_end :: nat
  bs_score :: 'f

definition clamp :: "'f::linorder \<Rightarrow> 'f \<Rightarrow> 'f \<Rightarrow> 'f" where
  "clamp v low high = max low (min high v)"

definition keep_budget :: "'f::linorder py_float \<Rightarrow> int \<Rightarrow> 'f pflash_config \<Rightarrow> int" where
  "keep_budget F n c =
     (let ratio_budget = fl_ceil F (fl_scaled F n (clamp (pf_keep_ratio c) (fl_literal F 0) (fl_literal F 1)))
      in max 1 (min n (max (pf_min_keep_tokens c) ratio_budget)))"

text \<open>\<open>range(start, stop, step)\<close> for a positive step.\<close>

definition steps :: "nat \<Rightarrow> nat \<Rightarrow> nat \<Rightarrow> nat list" where
  "steps start stop step = map (\<lambda>i. start + i * step) [0..<(stop - start + step - 1) div step]"

definition score_block ::
    "'f py_float \<Rightarrow> int list \<Rightarrow> int list \<Rightarrow> nat \<Rightarrow> nat \<Rightarrow> nat \<Rightarrow> nat \<Rightarrow> nat \<times> nat \<Rightarrow> 'f block_score" where
  "score_block F tokens query start stop block_size stride_blocks p =
     (let (block_index, block_start) = p;
          block_end = min (block_start + block_size) stop;
          block = Prelude.slice tokens block_start block_end;
          overlap = fl_sum F (map (\<lambda>t. fl_quotient F (int (count_list query t)) (int (count_list tokens t))) block);
          rarity = fl_over F (fl_sum F (map (\<lambda>t. fl_quotient F 1 (int (count_list tokens t))) block)) (int (length block));
          recency = fl_quotient F (int (block_end - start)) (int (max 1 (stop - start)));
          stride_bonus = (if stride_blocks \<noteq> 0 \<and> block_index mod stride_blocks = 0 then fl_literal F (1 / 4)
                          else fl_literal F 0);
          score = fl_plus F (fl_plus F (fl_plus F (fl_times F (fl_literal F 4) overlap) rarity)
                    (fl_times F (fl_literal F (1 / 20)) recency)) stride_bonus
      in \<lparr>bs_start = block_start, bs_end = block_end, bs_score = score\<rparr>)"

definition score_middle_blocks ::
    "'f::linorder py_float \<Rightarrow> int list \<Rightarrow> nat \<Rightarrow> nat \<Rightarrow> nat \<Rightarrow> nat \<Rightarrow> nat \<Rightarrow> 'f block_score list" where
  "score_middle_blocks F tokens start stop block_size query_window stride_blocks =
     (if start \<ge> stop then []
      else let query = drop (length tokens - query_window) tokens
        in sort_key (\<lambda>b. (fl_neg F (bs_score b), bs_start b))
             (map (score_block F tokens query start stop block_size stride_blocks)
               (enumerate 0 (steps start stop block_size))))"

section \<open>Compression\<close>

text \<open>The loop over the scored blocks: the positions kept and the number of tokens of the middle among them.\<close>

fun select_blocks :: "int \<Rightarrow> 'f block_score list \<Rightarrow> nat set \<Rightarrow> int \<Rightarrow> nat set \<times> int" where
  "select_blocks budget [] keep selected = (keep, selected)"
| "select_blocks budget (b # bs) keep selected =
     (let slots = budget - selected
      in if slots \<le> 0 then (keep, selected)
         else let tk = min (int (bs_end b - bs_start b)) slots;
                  keep = keep \<union> {bs_start b..<bs_start b + nat tk};
                  selected = selected + tk
           in if selected \<ge> budget then (keep, selected) else select_blocks budget bs keep selected)"

definition compress_tokens ::
    "'f::linorder py_float \<Rightarrow> int list \<Rightarrow> 'f pflash_config \<Rightarrow> bool \<Rightarrow> bool \<Rightarrow> int \<Rightarrow> pflash_result" where
  "compress_tokens F tokens c has_tools requires_prompt_integrity cached_prefix_tokens =
     (let n = int (length tokens);
          effective = (if pf_threshold_basis c = ''uncached'' \<and> cached_prefix_tokens > 0
                       then n - min cached_prefix_tokens n else n)
      in if requires_prompt_integrity then unchanged tokens ''protected_prompt''
         else if has_tools \<and> pf_skip_when_tools c then unchanged tokens ''tools''
         else if n = 0 then unchanged tokens ''empty''
         else if pf_mode c = ''off'' then unchanged tokens ''off''
         else if pf_mode c = ''auto'' \<and> effective < pf_threshold c
         then unchanged tokens (if n < pf_threshold c then ''threshold'' else ''cached_prefix'')
         else if keep_budget F n c \<ge> n then unchanged tokens ''budget''
         else let sink_end = nat (min (max 0 (pf_sink_tokens c)) n);
                  tail_start = nat (max (int sink_end) (n - max 0 (pf_tail_tokens c)));
                  ends = {0..<sink_end} \<union> {tail_start..<length tokens};
                  remaining = keep_budget F n c - int (card ends)
           in if tail_start - sink_end > 0 \<and> remaining \<le> 0 then unchanged tokens ''insufficient_middle_budget''
              else let (keep, middle) =
                       (if remaining > 0
                        then select_blocks remaining
                               (score_middle_blocks F tokens sink_end tail_start (nat (max 1 (pf_block_size c)))
                                 (nat (max 1 (pf_query_window c))) (nat (max 0 (pf_stride_blocks c))))
                               ends 0
                        else (ends, 0));
                     kept = nths tokens keep
                in if length kept \<ge> length tokens then unchanged tokens ''budget''
                   else changed tokens kept ''compressed'' middle)"

definition compress_request_tokens ::
    "'f::linorder py_float \<Rightarrow> int list \<Rightarrow> 'f pflash_config \<Rightarrow> bool \<Rightarrow> bool \<Rightarrow> int \<Rightarrow> pflash_result \<times> int" where
  "compress_request_tokens F tokens c has_tools requires_prompt_integrity cached_prefix_tokens =
     (let cached = max 0 (min cached_prefix_tokens (int (length tokens)))
      in (compress_tokens F tokens c has_tools requires_prompt_integrity cached, cached))"

end
