(* ===== verification/PFlashCorrect.thy ===== *)
theory PFlashCorrect
  imports PFlash "HOL-Library.Multiset"
begin

text \<open>
  What the compression keeps: the start and the end of the prompt, a subsequence of the middle that fills the budget
  exactly, and of the middle the blocks that score best; or nothing is changed at all.
\<close>

section \<open>The selection loop\<close>

abbreviation cells :: "'f block_score \<Rightarrow> nat set" where
  "cells b \<equiv> {bs_start b..<bs_end b}"

abbreviation all_cells :: "'f block_score list \<Rightarrow> nat set" where
  "all_cells bs \<equiv> \<Union> (cells ` set bs)"

definition separate :: "'f block_score list \<Rightarrow> bool" where
  "separate bs \<longleftrightarrow> distinct (map bs_start bs) \<and> (\<forall>b\<in>set bs. bs_start b \<le> bs_end b) \<and>
     (\<forall>b\<in>set bs. \<forall>b'\<in>set bs. bs_start b \<noteq> bs_start b' \<longrightarrow> cells b \<inter> cells b' = {})"

lemma separate_Cons:
  assumes "separate (b # bs)"
  shows "separate bs" "bs_start b \<le> bs_end b" "cells b \<inter> all_cells bs = {}"
proof -
  show "separate bs" "bs_start b \<le> bs_end b" using assms by (simp_all add: separate_def)
  have "cells b \<inter> cells c = {}" if "c \<in> set bs" for c
  proof -
    have "bs_start c \<in> set (map bs_start bs)" using that by simp
    then have "bs_start b \<noteq> bs_start c" using assms unfolding separate_def by auto
    then show ?thesis using assms that unfolding separate_def by (meson list.set_intros)
  qed
  then show "cells b \<inter> all_cells bs = {}" by blast
qed

lemma select_blocks_fills:
  assumes "separate bs" "keep \<inter> all_cells bs = {}" "0 \<le> sel" "sel < budget" "select_blocks budget bs keep sel = (K, m)"
  shows "\<exists>M. K = keep \<union> M \<and> M \<subseteq> all_cells bs \<and> int (card M) = m - sel \<and> m = min budget (sel + int (card (all_cells bs)))"
  using assms
proof (induction bs arbitrary: keep sel)
  case (Cons b bs)
  note sep = separate_Cons [OF Cons.prems(1)]
  let ?len = "bs_end b - bs_start b" and ?tk = "min (int (bs_end b - bs_start b)) (budget - sel)"
  let ?T = "{bs_start b..<bs_start b + nat ?tk}"
  have T: "?T \<subseteq> cells b" "card ?T = nat ?tk" using sep(2) by auto
  have card: "card (all_cells (b # bs)) = ?len + card (all_cells bs)"
    using sep(3) by (simp add: card_Un_disjoint)
  show ?case
  proof (cases "budget \<le> sel + ?tk")
    case True
    then have "K = keep \<union> ?T" "m = budget" using Cons.prems(4,5) by (auto simp: Let_def split: if_splits)
    moreover have "int (card ?T) = budget - sel" "budget - sel \<le> int ?len" using T True Cons.prems(4) by auto
    ultimately show ?thesis using T(1) card by (intro exI [of _ ?T]) auto
  next
    case False
    then have full: "?tk = int ?len" "?T = cells b" using sep(2) by auto
    then have "select_blocks budget bs (keep \<union> cells b) (sel + int ?len) = (K, m)"
    proof -
      have "\<not> budget \<le> sel + int ?len" using False full(1) by simp
      then show ?thesis using Cons.prems(4,5) full by (simp add: Let_def)
    qed
    moreover have "(keep \<union> cells b) \<inter> all_cells bs = {}" using Cons.prems(2) sep(3) by auto
    ultimately obtain M where M: "K = keep \<union> cells b \<union> M" "M \<subseteq> all_cells bs" "int (card M) = m - (sel + int ?len)"
      "m = min budget (sel + int ?len + int (card (all_cells bs)))"
      using Cons.IH [of "keep \<union> cells b" "sel + int ?len"] sep(1) Cons.prems(3) False full(1) by auto
    have "finite M" using M(2) by (rule finite_subset) simp
    moreover have "cells b \<inter> M = {}" using M(2) sep(3) by auto
    ultimately have "card (cells b \<union> M) = ?len + card M" by (simp add: card_Un_disjoint)
    with M card show ?thesis by (intro exI [of _ "cells b \<union> M"]) (auto simp: add.assoc)
  qed
qed simp

lemma select_blocks_mono: "select_blocks budget bs keep sel = (K, m) \<Longrightarrow> keep \<subseteq> K"
proof (induction bs arbitrary: keep sel)
  case (Cons b bs)
  then show ?case by (force simp: Let_def split: if_splits)
qed simp

lemma select_blocks_in_order:
  assumes "separate (xs @ b # ys)" "keep \<inter> all_cells (xs @ b # ys) = {}" "select_blocks budget (xs @ b # ys) keep sel = (K, m)"
    and "cells b \<inter> K \<noteq> {}" "x \<in> set xs"
  shows "cells x \<subseteq> K"
  using assms
proof (induction xs arbitrary: keep sel)
  case (Cons y xs)
  note sep = separate_Cons [OF Cons.prems(1) [unfolded append_Cons]]
  let ?tk = "min (int (bs_end y - bs_start y)) (budget - sel)"
  let ?T = "{bs_start y..<bs_start y + nat ?tk}"
  have "?T \<subseteq> cells y" using sep(2) by auto
  moreover have "cells b \<inter> cells y = {}" using sep(3) by (simp add: Int_Un_distrib Int_commute del: ivl_disj_int)
  ultimately have b: "cells b \<inter> ?T = {}" "cells b \<inter> keep = {}"
    using Cons.prems(2) by (blast, auto)
  then have "\<not> budget - sel \<le> 0" "\<not> budget \<le> sel + ?tk"
    using Cons.prems(3,4) by (auto simp: Let_def split: if_splits)
  then have tk: "\<not> budget \<le> sel" "?tk = int (bs_end y - bs_start y)" "\<not> budget \<le> sel + int (bs_end y - bs_start y)"
    by (auto simp: min_def split: if_splits)
  have full: "?T = cells y" unfolding tk(2) nat_int using sep(2) by simp
  moreover have "select_blocks budget (xs @ b # ys) (keep \<union> ?T) (sel + ?tk) = (K, m)"
    using Cons.prems(3) tk by (simp add: Let_def)
  ultimately have full: "?T = cells y" "select_blocks budget (xs @ b # ys) (keep \<union> ?T) (sel + ?tk) = (K, m)" .
  have "(keep \<union> ?T) \<inter> all_cells (xs @ b # ys) = {}" using Cons.prems(2) sep(3) full(1) by auto
  moreover have "cells y \<subseteq> K" using select_blocks_mono [OF full(2)] full(1) by auto
  ultimately show ?case using Cons.IH [OF sep(1) _ full(2) Cons.prems(4)] Cons.prems(5) by auto
qed simp

section \<open>The blocks of the middle\<close>

lemma steps_cover:
  fixes start stop step :: nat
  assumes "0 < step" "start < stop"
  shows "(\<Union>i<(stop - start + step - 1) div step. {start + i * step..<min (start + i * step + step) stop}) = {start..<stop}"
proof (intro equalityI subsetI)
  fix x assume "x \<in> {start..<stop}"
  then have x: "start \<le> x" "x < stop" by auto
  let ?i = "(x - start) div step"
  have "?i * step \<le> x - start" "x - start < ?i * step + step"
    using dividend_less_div_times [OF assms(1), of "x - start"] by (simp_all add: add.commute)
  moreover have "?i < (stop - start + step - 1) div step"
  proof -
    have "x - start + step \<le> stop - start + step - 1" using x by simp
    then have "(x - start + step) div step \<le> (stop - start + step - 1) div step" by (rule div_le_mono)
    then show ?thesis using assms(1) by simp
  qed
  moreover have "start + ?i * step \<le> x" using calculation(1) x(1) by linarith
  ultimately show "x \<in> (\<Union>i<(stop - start + step - 1) div step. {start + i * step..<min (start + i * step + step) stop})"
    using x by (intro UN_I [of ?i]) auto
qed auto

lemma score_block_fields:
  "bs_start (score_block F tokens query start stop size' stride p) = snd p"
  "bs_end (score_block F tokens query start stop size' stride p) = min (snd p + size') stop"
  by (simp_all add: score_block_def Let_def split: prod.split)

lemma middle_blocks:
  assumes "0 < step" "start < stop"
  shows "separate (score_middle_blocks F tokens start stop step qw stride)" (is "separate ?bs")
    and "all_cells (score_middle_blocks F tokens start stop step qw stride) = {start..<stop}"
proof -
  let ?n = "(stop - start + step - 1) div step"
  let ?raw = "map (score_block F tokens (drop (length tokens - qw) tokens) start stop step stride)
    (enumerate 0 (steps start stop step))"
  have bs: "?bs = sort_key (\<lambda>b. (fl_neg F (bs_score b), bs_start b)) ?raw"
    using assms(2) by (simp add: score_middle_blocks_def)
  then have set: "set ?bs = set ?raw" by simp
  have starts: "map bs_start ?raw = steps start stop step"
    by (simp add: comp_def score_block_fields)
  have "mset (map bs_start ?bs) = mset (map bs_start ?raw)" unfolding bs mset_map mset_sort ..
  moreover have "distinct (steps start stop step)"
    using assms(1) by (simp add: steps_def distinct_map inj_on_def)
  ultimately have dist: "distinct (map bs_start ?bs)" using starts mset_eq_imp_distinct_iff by metis
  have member: "\<exists>i<?n. bs_start b = start + i * step \<and> bs_end b = min (start + i * step + step) stop" if "b \<in> set ?bs" for b
    using that unfolding set by (auto simp: score_block_fields in_set_enumerate_eq steps_def)
  have below: "start + i * step < stop" if "i < ?n" for i
  proof -
    have "Suc i * step \<le> ?n * step" using that by (intro mult_le_mono1) simp
    also have "?n * step \<le> stop - start + step - 1" by simp
    finally show ?thesis using assms by simp
  qed
  have "cells b \<inter> cells b' = {}" if bb: "b \<in> set ?bs" "b' \<in> set ?bs" "bs_start b \<noteq> bs_start b'" for b b'
  proof -
    obtain i where "bs_start b = start + i * step" "bs_end b \<le> start + i * step + step"
      using member [OF bb(1)] by (metis min.cobounded1)
    moreover obtain j where "bs_start b' = start + j * step" "bs_end b' \<le> start + j * step + step"
      using member [OF bb(2)] by (metis min.cobounded1)
    moreover from calculation bb(3) consider "Suc i \<le> j" | "Suc j \<le> i" by fastforce
    then have "i * step + step \<le> j * step \<or> j * step + step \<le> i * step"
      by cases (metis add.commute mult_Suc mult_le_mono1)+
    ultimately show ?thesis by fastforce
  qed
  moreover have "bs_start b \<le> bs_end b" if b: "b \<in> set ?bs" for b
    using member [OF b] below by fastforce
  ultimately show "separate ?bs" using dist unfolding separate_def by blast
  have "all_cells ?bs = (\<Union>i<?n. {start + i * step..<min (start + i * step + step) stop})"
  proof -
    have "all_cells ?raw = (\<Union>p\<in>set (enumerate 0 (steps start stop step)). {snd p..<min (snd p + step) stop})"
      by (simp add: score_block_fields)
    also have "\<dots> = (\<Union>x\<in>set (steps start stop step). {x..<min (x + step) stop})"
    proof -
      have "set (steps start stop step) = snd ` set (enumerate 0 (steps start stop step))" by (simp flip: set_map)
      then show ?thesis by simp
    qed
    also have "\<dots> = (\<Union>i<?n. {start + i * step..<min (start + i * step + step) stop})"
      by (simp add: steps_def lessThan_atLeast0)
    finally show ?thesis using set by simp
  qed
  then show "all_cells ?bs = {start..<stop}" using steps_cover [OF assms] by simp
qed

section \<open>Compressed prompts\<close>

definition sink_end :: "'f pflash_config \<Rightarrow> int list \<Rightarrow> nat" where
  "sink_end c tokens = nat (min (max 0 (pf_sink_tokens c)) (int (length tokens)))"

definition tail_start :: "'f pflash_config \<Rightarrow> int list \<Rightarrow> nat" where
  "tail_start c tokens = nat (max (int (sink_end c tokens)) (int (length tokens) - max 0 (pf_tail_tokens c)))"

definition ends :: "'f pflash_config \<Rightarrow> int list \<Rightarrow> nat set" where
  "ends c tokens = {0..<sink_end c tokens} \<union> {tail_start c tokens..<length tokens}"

definition middle_blocks_of :: "'f::linorder py_float \<Rightarrow> int list \<Rightarrow> 'f pflash_config \<Rightarrow> 'f block_score list" where
  "middle_blocks_of F tokens c =
     score_middle_blocks F tokens (sink_end c tokens) (tail_start c tokens) (nat (max 1 (pf_block_size c)))
       (nat (max 1 (pf_query_window c))) (nat (max 0 (pf_stride_blocks c)))"

lemma ends_order: "sink_end c tokens \<le> tail_start c tokens" "tail_start c tokens \<le> length tokens"
  by (auto simp: sink_end_def tail_start_def)

lemma card_ends: "card (ends c tokens) = length tokens - (tail_start c tokens - sink_end c tokens)"
proof -
  have "card (ends c tokens) = card {0..<sink_end c tokens} + card {tail_start c tokens..<length tokens}"
    unfolding ends_def by (rule card_Un_disjoint) (use ends_order [of c tokens] in auto)
  then show ?thesis using ends_order [of c tokens] by simp
qed

lemma compress_cases:
  "(\<exists>reason. compress_tokens F tokens c tools integrity cached = unchanged tokens reason) \<or>
   (\<exists>keep middle. 0 < tail_start c tokens - sink_end c tokens \<and> keep_budget F (int (length tokens)) c < int (length tokens) \<and>
      0 < keep_budget F (int (length tokens)) c - int (card (ends c tokens)) \<and>
      select_blocks (keep_budget F (int (length tokens)) c - int (card (ends c tokens))) (middle_blocks_of F tokens c)
        (ends c tokens) 0 = (keep, middle) \<and>
      compress_tokens F tokens c tools integrity cached = changed tokens (nths tokens keep) ''compressed'' middle)"
proof -
  define P where "P r \<longleftrightarrow> (\<exists>reason. r = unchanged tokens reason) \<or>
    (\<exists>keep middle. 0 < tail_start c tokens - sink_end c tokens \<and> keep_budget F (int (length tokens)) c < int (length tokens) \<and>
      0 < keep_budget F (int (length tokens)) c - int (card (ends c tokens)) \<and>
      select_blocks (keep_budget F (int (length tokens)) c - int (card (ends c tokens))) (middle_blocks_of F tokens c)
        (ends c tokens) 0 = (keep, middle) \<and> r = changed tokens (nths tokens keep) ''compressed'' middle)" for r
  have branch: "(d \<Longrightarrow> P x) \<Longrightarrow> (\<not> d \<Longrightarrow> P y) \<Longrightarrow> P (if d then x else y)" for d x y
    by simp
  have plain: "P (unchanged tokens reason)" for reason by (auto simp: P_def)
  let ?rem = "keep_budget F (int (length tokens)) c - int (card (ends c tokens))"
  have last: "P (case if 0 < ?rem then select_blocks ?rem (middle_blocks_of F tokens c) (ends c tokens) 0 else (ends c tokens, 0) of
      (keep, middle) \<Rightarrow> if length tokens \<le> length (nths tokens keep) then unchanged tokens ''budget''
        else changed tokens (nths tokens keep) ''compressed'' middle)"
    if "\<not> int (length tokens) \<le> keep_budget F (int (length tokens)) c"
      "\<not> (0 < tail_start c tokens - sink_end c tokens \<and> ?rem \<le> 0)"
  proof (cases "tail_start c tokens = sink_end c tokens")
    case True
    then have "ends c tokens = {0..<length tokens}" using ends_order [of c tokens] by (auto simp: ends_def)
    moreover from this have "\<not> 0 < ?rem" "nths tokens {0..<length tokens} = tokens"
      using that(1) by (auto intro: nths_all)
    ultimately show ?thesis using plain by simp
  next
    case False
    then have m: "0 < tail_start c tokens - sink_end c tokens" "0 < ?rem"
      using that ends_order [of c tokens] by auto
    obtain keep middle where "select_blocks ?rem (middle_blocks_of F tokens c) (ends c tokens) 0 = (keep, middle)" by force
    then show ?thesis using m that(1) plain by (auto simp: P_def)
  qed
  have "P (compress_tokens F tokens c tools integrity cached)"
    unfolding compress_tokens_def Let_def
    unfolding sink_end_def [symmetric] tail_start_def [symmetric] ends_def [symmetric] middle_blocks_of_def [symmetric]
    by (intro branch plain last)
  then show ?thesis unfolding P_def .
qed

lemma nths_full: "{0..<length xs} \<subseteq> K \<Longrightarrow> nths xs K = xs"
  by (auto intro!: nths_all)

lemma nths_three:
  assumes "s \<le> t" "t \<le> length xs" "{0..<s} \<subseteq> K" "{t..<length xs} \<subseteq> K"
  shows "\<exists>M. nths xs K = take s xs @ nths (take (t - s) (drop s xs)) M @ drop t xs"
proof -
  have "xs = take s xs @ take (t - s) (drop s xs) @ drop t xs"
    using assms(1) by (metis append_take_drop_id drop_drop le_add_diff_inverse2)
  then have "nths xs K = nths (take s xs @ take (t - s) (drop s xs) @ drop t xs) K" by simp
  also have "\<dots> = nths (take s xs) K @ nths (take (t - s) (drop s xs)) {j. j + s \<in> K} @ nths (drop t xs) {j. j + t \<in> K}"
    using assms(1,2) by (simp add: nths_append min_absorb2 add.assoc)
  also have "nths (take s xs) K = take s xs" using assms(1-3) by (intro nths_full) auto
  also have "nths (drop t xs) {j. j + t \<in> K} = drop t xs" using assms(4) by (intro nths_full) auto
  finally show ?thesis by blast
qed

lemma selected_positions:
  assumes "sink_end c tokens < tail_start c tokens" "b < int (length tokens)" "0 < b - int (card (ends c tokens))"
    and "select_blocks (b - int (card (ends c tokens))) (middle_blocks_of F tokens c) (ends c tokens) 0 = (K, m)"
  shows "ends c tokens \<subseteq> K" "m = b - int (card (ends c tokens))" "int (length (nths tokens K)) = b"
proof -
  let ?s = "sink_end c tokens" and ?t = "tail_start c tokens" and ?E = "ends c tokens" and ?bs = "middle_blocks_of F tokens c"
  have bs: "separate ?bs" "all_cells ?bs = {?s..<?t}"
    using middle_blocks [of "nat (max 1 (pf_block_size c))" ?s ?t F tokens] assms(1) by (simp_all add: middle_blocks_of_def)
  have o: "?s \<le> ?t" "?t \<le> length tokens" by (rule ends_order)+
  have "?E \<inter> all_cells ?bs = {}" unfolding bs(2) ends_def by auto
  then obtain M where M: "K = ?E \<union> M" "M \<subseteq> {?s..<?t}" "int (card M) = m" "m = min (b - int (card ?E)) (int (?t - ?s))"
    using select_blocks_fills [OF bs(1) _ _ assms(3,4)] bs(2) by auto
  show m: "m = b - int (card ?E)" using M(4) assms(1,2) card_ends [of c tokens] o by auto
  have sub: "K \<subseteq> {0..<length tokens}" using M(1,2) o by (auto simp: ends_def)
  have "card K = card ?E + card M" unfolding M(1)
    by (rule card_Un_disjoint) (use M(2) finite_subset [OF M(2)] in \<open>auto simp: ends_def\<close>)
  moreover have "{i. i < length tokens \<and> i \<in> K} = K" using sub by auto
  ultimately show "int (length (nths tokens K)) = b" using m M(3) by (simp add: length_nths)
  show "?E \<subseteq> K" using M(1) by blast
qed

text \<open>
  C21. Compression is all or nothing. Either the prompt is returned as it is; or the result is the start of the prompt up to
  the sink, a nonempty subsequence of the middle, and the end of the prompt from the tail on, all in order, and it is as
  long as the budget, no more and no less, which is shorter than the prompt; the counts reported are the true ones.
\<close>
theorem compression_keeps_ends:
  "case compress_tokens F tokens c tools integrity cached of r \<Rightarrow>
     if pr_compressed r
     then (\<exists>mid. pr_tokens r = take (sink_end c tokens) tokens @ mid @ drop (tail_start c tokens) tokens \<and>
             subseq mid (Prelude.slice tokens (sink_end c tokens) (tail_start c tokens)) \<and>
             pr_middle_tokens_kept r = int (length mid) \<and> mid \<noteq> []) \<and>
          int (length (pr_tokens r)) = keep_budget F (int (length tokens)) c \<and> length (pr_tokens r) < length tokens \<and>
          pr_kept_tokens r = int (length (pr_tokens r)) \<and> pr_original_tokens r = int (length tokens) \<and> \<not> endpoints_only r
     else pr_tokens r = tokens \<and> pr_kept_tokens r = int (length tokens) \<and> pr_original_tokens r = int (length tokens)"
proof (cases "\<exists>reason. compress_tokens F tokens c tools integrity cached = unchanged tokens reason")
  case True
  then show ?thesis by (auto simp: unchanged_def)
next
  case False
  let ?s = "sink_end c tokens" and ?t = "tail_start c tokens" and ?E = "ends c tokens"
  let ?b = "keep_budget F (int (length tokens)) c"
  obtain K m where K: "0 < ?t - ?s" "?b < int (length tokens)" "0 < ?b - int (card ?E)"
    "select_blocks (?b - int (card ?E)) (middle_blocks_of F tokens c) ?E 0 = (K, m)"
    "compress_tokens F tokens c tools integrity cached = changed tokens (nths tokens K) ''compressed'' m"
    using compress_cases [of F tokens c tools integrity cached] False by blast
  have o: "?s \<le> ?t" "?t \<le> length tokens" by (rule ends_order)+
  have k: "?E \<subseteq> K" "m = ?b - int (card ?E)" "int (length (nths tokens K)) = ?b"
    using selected_positions [OF _ K(2-4)] K(1) by simp_all
  then have m: "m = ?b - int (card ?E)" "0 < m" and len: "int (length (nths tokens K)) = ?b" using K(3) by auto
  obtain N where N: "nths tokens K = take ?s tokens @ nths (take (?t - ?s) (drop ?s tokens)) N @ drop ?t tokens"
    using nths_three [OF o, of K] k(1) by (auto simp: ends_def)
  let ?mid = "nths (take (?t - ?s) (drop ?s tokens)) N"
  have "length (nths tokens K) = ?s + length ?mid + (length tokens - ?t)" unfolding N using o by simp
  then have mid: "int (length ?mid) = m" using len m(1) card_ends [of c tokens] o by simp
  have "subseq ?mid (Prelude.slice tokens ?s ?t)"
    by (auto simp: Prelude.slice_def drop_take subseq_conv_nths)
  then have "\<exists>mid. nths tokens K = take ?s tokens @ mid @ drop ?t tokens \<and> subseq mid (Prelude.slice tokens ?s ?t) \<and>
      m = int (length mid) \<and> mid \<noteq> []"
    using N mid m(2) by (intro exI [of _ ?mid]) auto
  then show ?thesis using K(2,5) len m(2) by (simp add: changed_def endpoints_only_def)
qed

text \<open>When it compresses: the request must be eligible, and the budget must leave something out and more than the ends in.\<close>

definition eligible :: "'f pflash_config \<Rightarrow> int list \<Rightarrow> bool \<Rightarrow> bool \<Rightarrow> int \<Rightarrow> bool" where
  "eligible c tokens tools integrity cached \<longleftrightarrow> \<not> integrity \<and> \<not> (tools \<and> pf_skip_when_tools c) \<and> pf_mode c \<noteq> ''off'' \<and>
     \<not> (pf_mode c = ''auto'' \<and>
        (if pf_threshold_basis c = ''uncached'' \<and> 0 < cached then int (length tokens) - min cached (int (length tokens))
         else int (length tokens)) < pf_threshold c)"

lemma ineligible_unchanged:
  assumes "\<not> eligible c tokens tools integrity cached"
  shows "\<exists>reason. compress_tokens F tokens c tools integrity cached = unchanged tokens reason"
proof (rule ccontr)
  assume no: "\<not> ?thesis"
  have branch: "(if d then unchanged tokens reason else r) = compress_tokens F tokens c tools integrity cached \<Longrightarrow> \<not> d \<and> r = compress_tokens F tokens c tools integrity cached"
    for d reason r using no by (metis (full_types))
  have "\<not> integrity \<and> \<not> (tools \<and> pf_skip_when_tools c) \<and> int (length tokens) \<noteq> 0 \<and> pf_mode c \<noteq> ''off'' \<and>
     \<not> (pf_mode c = ''auto'' \<and>
        (if pf_threshold_basis c = ''uncached'' \<and> 0 < cached then int (length tokens) - min cached (int (length tokens))
         else int (length tokens)) < pf_threshold c)"
    using compress_tokens_def [of F tokens c tools integrity cached, symmetric, unfolded Let_def]
    by (elim branch [elim_format] conjE) (intro conjI; assumption)
  then show False using assms by (simp add: eligible_def)
qed

text \<open>
  A prompt is compressed exactly if the request is eligible and the budget is below the prompt's length and above what
  the sink and the tail take: in particular never when the part that is not cached stays below the threshold.
\<close>
theorem compressed_exactly_when:
  "pr_compressed (compress_tokens F tokens c tools integrity cached) \<longleftrightarrow>
     eligible c tokens tools integrity cached \<and> keep_budget F (int (length tokens)) c < int (length tokens) \<and>
     int (card (ends c tokens)) < keep_budget F (int (length tokens)) c"
    (is "?C \<longleftrightarrow> ?e \<and> ?b < ?n \<and> ?k < ?b")
proof
  assume C: ?C
  then have "\<nexists>reason. compress_tokens F tokens c tools integrity cached = unchanged tokens reason"
    by (auto simp: unchanged_def)
  then have "?b < ?n \<and> ?k < ?b" using compress_cases [of F tokens c tools integrity cached] by auto
  moreover have ?e
  proof (rule ccontr)
    assume "\<not> ?e"
    then obtain reason where "compress_tokens F tokens c tools integrity cached = unchanged tokens reason"
      using ineligible_unchanged by blast
    then show False using C by (simp add: unchanged_def)
  qed
  ultimately show "?e \<and> ?b < ?n \<and> ?k < ?b" by blast
next
  assume e: "?e \<and> ?b < ?n \<and> ?k < ?b"
  then have span: "sink_end c tokens < tail_start c tokens" using card_ends [of c tokens] ends_order [of c tokens] by auto
  obtain K m where K: "select_blocks (?b - ?k) (middle_blocks_of F tokens c) (ends c tokens) 0 = (K, m)" by force
  then have "int (length (nths tokens K)) = ?b" using selected_positions [OF span _ _ K] e by simp
  then have "\<not> length tokens \<le> length (nths tokens K)" using e by simp
  moreover have "tokens \<noteq> []" using span ends_order [of c tokens] by auto
  moreover have "\<not> integrity" "\<not> (tools \<and> pf_skip_when_tools c)" "pf_mode c \<noteq> ''off''"
    "\<not> (pf_mode c = ''auto'' \<and>
        (if pf_threshold_basis c = ''uncached'' \<and> 0 < cached then int (length tokens) - min cached (int (length tokens))
         else int (length tokens)) < pf_threshold c)"
    using e by (simp_all only: eligible_def simp_thms)
  moreover have "\<not> ?n \<le> ?b" "0 < ?b - ?k" "\<not> ?b - ?k \<le> 0" "int (length tokens) \<noteq> 0" using e calculation(2) by auto
  ultimately have "compress_tokens F tokens c tools integrity cached = changed tokens (nths tokens K) ''compressed'' m"
    unfolding compress_tokens_def Let_def
    unfolding sink_end_def [symmetric] tail_start_def [symmetric] ends_def [symmetric] middle_blocks_of_def [symmetric]
    by (simp only: K if_False if_True simp_thms prod.case)
  then show ?C by (simp add: changed_def)
qed

text \<open>
  C22. Of the middle the best blocks are kept: a block of which any token is kept leaves no block of a higher score, or of
  the same score and an earlier start, incomplete.
\<close>
theorem compression_keeps_best:
  assumes "pr_compressed (compress_tokens F tokens c tools integrity cached)"
  shows "\<exists>K. pr_tokens (compress_tokens F tokens c tools integrity cached) = nths tokens K \<and> ends c tokens \<subseteq> K \<and>
    (\<forall>b\<in>set (middle_blocks_of F tokens c). \<forall>b'\<in>set (middle_blocks_of F tokens c).
       {bs_start b..<bs_end b} \<inter> K \<noteq> {} \<longrightarrow> (fl_neg F (bs_score b'), bs_start b') < (fl_neg F (bs_score b), bs_start b) \<longrightarrow>
       {bs_start b'..<bs_end b'} \<subseteq> K)"
proof -
  let ?key = "\<lambda>b. (fl_neg F (bs_score b), bs_start b)" and ?bs = "middle_blocks_of F tokens c"
  have "\<not> (\<exists>reason. compress_tokens F tokens c tools integrity cached = unchanged tokens reason)"
    using assms by (auto simp: unchanged_def)
  then obtain budget K m where K: "0 < tail_start c tokens - sink_end c tokens"
    "select_blocks budget ?bs (ends c tokens) 0 = (K, m)"
    "compress_tokens F tokens c tools integrity cached = changed tokens (nths tokens K) ''compressed'' m"
    using compress_cases [of F tokens c tools integrity cached] by blast
  have bs: "separate ?bs" "all_cells ?bs = {sink_end c tokens..<tail_start c tokens}"
    using middle_blocks [of "nat (max 1 (pf_block_size c))" "sink_end c tokens" "tail_start c tokens" F tokens] K(1)
    by (simp_all add: middle_blocks_of_def)
  have disj: "ends c tokens \<inter> all_cells ?bs = {}" unfolding bs(2) ends_def by auto
  have sorted: "sorted (map ?key ?bs)" by (simp add: middle_blocks_of_def score_middle_blocks_def Let_def)
  have "cells b' \<subseteq> K" if b: "b \<in> set ?bs" "b' \<in> set ?bs" "cells b \<inter> K \<noteq> {}" "?key b' < ?key b" for b b'
  proof -
    obtain xs ys where split: "?bs = xs @ b # ys" using b(1) by (auto simp: in_set_conv_decomp)
    have "b' \<notin> set (b # ys)" using sorted b(4) unfolding split by (auto simp: sorted_append)
    then have "b' \<in> set xs" using b(2) unfolding split by simp
    then show ?thesis
      using select_blocks_in_order [of xs b ys] bs(1) disj K(2) b(3) unfolding split by blast
  qed
  moreover have "ends c tokens \<subseteq> K" using select_blocks_mono [OF K(2)] .
  ultimately show ?thesis using K(3) by (intro exI [of _ K]) (auto simp: changed_def)
qed

text \<open>Exact rational arithmetic, and a prompt in which a rare token of the middle comes up again at the end.\<close>

definition exact :: "rat py_float" where
  "exact = \<lparr>fl_quotient = (\<lambda>a b. of_int a / of_int b), fl_over = (\<lambda>x n. x / of_int n), fl_scaled = (\<lambda>n x. of_int n * x),
     fl_times = (*), fl_plus = (+), fl_neg = uminus, fl_sum = sum_list, fl_ceil = ceiling, fl_literal = id\<rparr>"

definition small_config :: "rat pflash_config" where
  "small_config = (default_config exact)\<lparr>pf_mode := ''always'', pf_keep_ratio := 1 / 2, pf_min_keep_tokens := 0,
     pf_sink_tokens := 1, pf_tail_tokens := 1, pf_block_size := 2, pf_query_window := 1, pf_stride_blocks := 0\<rparr>"

lemma small_compressed:
  "compress_tokens exact [9, 1, 1, 1, 7, 1, 1, 7] small_config False False 0 =
     changed [9, 1, 1, 1, 7, 1, 1, 7] [9, 1, 7, 7] ''compressed'' 2"
  by code_simp

theorem compression_keeps_best_witness:
  "\<exists>K. nths [9, 1, 1, 1, 7, 1, 1, 7] K = [9, 1, 7, 7 :: int] \<and>
    ends small_config [9, 1, 1, 1, 7, 1, 1, 7] \<subseteq> K"
  using compression_keeps_best [of exact "[9, 1, 1, 1, 7, 1, 1, 7]" small_config False False 0]
  unfolding small_compressed by (auto simp: changed_def)

end
