(* ===== verification/ToolScan.thy ===== *)
theory ToolScan
  imports Prelude
begin

text \<open>
  \<^bold>\<open>rapid_mlx/tool_call_scan.py.\<close> Finding the elements of marker-delimited tool calls, whose values are not escaped: an
  element ends at the last closing marker before its next sibling opens. The matches of the opening marker, which
  \<open>re.finditer\<close> yields, are an argument: start, end and the captured name of each, in order. White space is a predicate
  on characters (\<open>str.strip\<close> and \<open>\s\<close>).
\<close>

section \<open>Strings\<close>

definition at_pos :: "string \<Rightarrow> nat \<Rightarrow> string \<Rightarrow> bool" where
  "at_pos s i sub \<longleftrightarrow> take (length sub) (drop i s) = sub"

text \<open>\<open>str.rfind\<close>, \<open>None\<close> for -1, and \<open>sub in s\<close>.\<close>

definition rfind :: "string \<Rightarrow> string \<Rightarrow> nat option" where
  "rfind sub s = find (\<lambda>i. at_pos s i sub) (rev [0..<length s + 1 - length sub])"

definition contains :: "string \<Rightarrow> string \<Rightarrow> bool" where
  "contains sub s \<longleftrightarrow> rfind sub s \<noteq> None"

definition strip_by :: "(char \<Rightarrow> bool) \<Rightarrow> string \<Rightarrow> string" where
  "strip_by sp s = rev (dropWhile sp (rev (dropWhile sp s)))"

definition trim_wrapping_newlines :: "string \<Rightarrow> string" where
  "trim_wrapping_newlines v0 =
     (let v = (case v0 of c # rest \<Rightarrow> if c = CHR 0x0A then rest else v0 | [] \<Rightarrow> v0)
      in if v \<noteq> [] \<and> last v = CHR 0x0A then butlast v else v)"

text \<open>\<open>re.match(r"\s*" + re.escape(outer), s)\<close>: the end of the match, with as much white space as possible.\<close>

definition match_outer :: "(char \<Rightarrow> bool) \<Rightarrow> string \<Rightarrow> string \<Rightarrow> nat option" where
  "match_outer sp outer s =
     map_option (\<lambda>k. k + length outer)
       (find (\<lambda>k. at_pos s k outer) (rev [0..<length (takeWhile sp s) + 1]))"

section \<open>Siblings and segments\<close>

record opener =
  op_start :: nat
  op_end :: nat
  op_name :: string     \<comment> \<open>group 1\<close>

definition declared :: "(char \<Rightarrow> bool) \<Rightarrow> string set option \<Rightarrow> opener \<Rightarrow> bool" where
  "declared sp valid o1 = (case valid of None \<Rightarrow> True | Some names \<Rightarrow> strip_by sp (op_name o1) \<in> names)"

text \<open>The loop over the openers after the current one; \<open>j\<close> is the index of the first of them.\<close>

fun sibling_from ::
    "(char \<Rightarrow> bool) \<Rightarrow> string \<Rightarrow> nat \<Rightarrow> string \<Rightarrow> string set option \<Rightarrow> nat \<Rightarrow> opener list \<Rightarrow> nat" where
  "sibling_from sp text' end_i closer valid j [] = j"
| "sibling_from sp text' end_i closer valid j (o1 # os) =
     (if \<not> declared sp valid o1 then sibling_from sp text' end_i closer valid (j + 1) os
      else if contains closer (Prelude.slice text' end_i (op_start o1)) then j
      else sibling_from sp text' end_i closer valid (j + 1) os)"

definition next_sibling ::
    "(char \<Rightarrow> bool) \<Rightarrow> string \<Rightarrow> opener list \<Rightarrow> nat \<Rightarrow> string \<Rightarrow> string set option \<Rightarrow> nat" where
  "next_sibling sp text' openers i closer valid =
     sibling_from sp text' (op_end (openers ! i)) closer valid (i + 1) (drop (i + 1) openers)"

definition segment_by_next_opener ::
    "(char \<Rightarrow> bool) \<Rightarrow> string \<Rightarrow> opener list \<Rightarrow> nat \<Rightarrow> string \<Rightarrow> string set option \<Rightarrow> (string \<times> nat) option" where
  "segment_by_next_opener sp text' openers i closer valid =
     (let sibling = next_sibling sp text' openers i closer valid;
          end_pos = (if sibling < length openers then op_start (openers ! sibling) else length text');
          body = Prelude.slice text' (op_end (openers ! i)) end_pos
      in case rfind closer body of
          None \<Rightarrow> None
        | Some cut_pos \<Rightarrow> Some (take cut_pos body, op_end (openers ! i) + cut_pos + length closer))"

section \<open>Calls\<close>

text \<open>An undeclared opener is not a call; what the diagnostics record of it is the second component.\<close>

definition rejected_call ::
    "(char \<Rightarrow> bool) \<Rightarrow> string \<Rightarrow> opener list \<Rightarrow> string \<Rightarrow> string option \<Rightarrow> nat \<Rightarrow> (string \<times> string) list" where
  "rejected_call sp text' openers closer outer i =
     (let start = op_end (openers ! i);
          end_pos = (if i + 1 < length openers then op_start (openers ! (i + 1)) else length text');
          window = Prelude.slice text' start end_pos
      in case rfind closer window of
          None \<Rightarrow> []
        | Some k \<Rightarrow>
            if (case outer of None \<Rightarrow> True
                | Some w \<Rightarrow> w = [] \<or> match_outer sp w (drop (k + length closer) window) \<noteq> None)
            then [(strip_by sp (op_name (openers ! i)), take k window)] else [])"

definition emitted_call ::
    "(char \<Rightarrow> bool) \<Rightarrow> string \<Rightarrow> opener list \<Rightarrow> string \<Rightarrow> string option \<Rightarrow> string set option \<Rightarrow> nat
     \<Rightarrow> (string \<times> string \<times> nat \<times> nat) list" where
  "emitted_call sp text' openers closer outer valid i =
     (case segment_by_next_opener sp text' openers i closer valid of
        None \<Rightarrow> []
      | Some (body, span_end) \<Rightarrow>
          let sibling = next_sibling sp text' openers i closer valid;
              limit = (if sibling < length openers then op_start (openers ! sibling) else length text');
              name = strip_by sp (op_name (openers ! i)); from_pos = op_start (openers ! i)
          in case outer of
              None \<Rightarrow> [(name, body, from_pos, span_end)]
            | Some w \<Rightarrow>
                if w = [] then [(name, body, from_pos, span_end)]
                else (case match_outer sp w (Prelude.slice text' span_end limit) of
                    None \<Rightarrow> []
                  | Some k \<Rightarrow> [(name, body, from_pos, span_end + k)]))"

lemma sibling_from_ge: "j \<le> sibling_from sp text' e closer valid j os"
  by (induction os arbitrary: j) (auto intro: Suc_leD)

lemma next_sibling_gt: "i < next_sibling sp text' openers i closer valid"
  using sibling_from_ge [of "i + 1"] by (simp add: next_sibling_def Suc_le_eq)

function calls_loop ::
    "(char \<Rightarrow> bool) \<Rightarrow> string \<Rightarrow> opener list \<Rightarrow> string \<Rightarrow> string option \<Rightarrow> string set option \<Rightarrow> nat
     \<Rightarrow> (string \<times> string \<times> nat \<times> nat) list \<times> (string \<times> string) list" where
  "calls_loop sp text' openers closer outer valid i =
     (if \<not> i < length openers then ([], [])
      else if \<not> declared sp valid (openers ! i)
      then (case calls_loop sp text' openers closer outer valid (i + 1) of
              (calls, rejected) \<Rightarrow> (calls, rejected_call sp text' openers closer outer i @ rejected))
      else let sibling = next_sibling sp text' openers i closer valid
        in case calls_loop sp text' openers closer outer valid (if sibling > i then sibling else i + 1) of
             (calls, rejected) \<Rightarrow> (emitted_call sp text' openers closer outer valid i @ calls, rejected))"
  by pat_completeness auto
termination
  by (relation "measure (\<lambda>(_, _, openers, _, _, _, i). length openers - i)") (auto intro: diff_less_mono2)

declare calls_loop.simps [simp del]

definition split_marked_calls ::
    "(char \<Rightarrow> bool) \<Rightarrow> string \<Rightarrow> opener list \<Rightarrow> string \<Rightarrow> string option \<Rightarrow> string set option
     \<Rightarrow> (string \<times> string \<times> nat \<times> nat) list \<times> (string \<times> string) list" where
  "split_marked_calls sp text' openers closer outer valid = calls_loop sp text' openers closer outer valid 0"

section \<open>Parameters\<close>

definition undeclared_sibling ::
    "(char \<Rightarrow> bool) \<Rightarrow> string \<Rightarrow> opener list \<Rightarrow> string \<Rightarrow> string set option \<Rightarrow> nat \<Rightarrow> bool" where
  "undeclared_sibling sp block openers closer valid i \<longleftrightarrow>
     list_ex (\<lambda>candidate. \<not> declared sp valid candidate \<and>
        contains closer (Prelude.slice block (op_end (openers ! i)) (op_start candidate))) (drop (i + 1) openers)"

function parameters_loop ::
    "(char \<Rightarrow> bool) \<Rightarrow> string \<Rightarrow> opener list \<Rightarrow> string \<Rightarrow> string set option \<Rightarrow> bool \<Rightarrow> nat
     \<Rightarrow> (string \<times> string) list option" where
  "parameters_loop sp block openers closer valid reject i =
     (if \<not> i < length openers then Some []
      else if reject \<and> valid \<noteq> None \<and> undeclared_sibling sp block openers closer valid i then None
      else let sibling = next_sibling sp block openers i closer valid;
               here = (case segment_by_next_opener sp block openers i closer valid of None \<Rightarrow> []
                       | Some (v, e) \<Rightarrow> [(strip_by sp (op_name (openers ! i)), trim_wrapping_newlines v)])
        in map_option (\<lambda>rest. here @ rest)
             (parameters_loop sp block openers closer valid reject (if sibling > i then sibling else i + 1)))"
  by pat_completeness auto
termination
  by (relation "measure (\<lambda>(_, _, openers, _, _, _, i). length openers - i)") (auto intro: diff_less_mono2)

declare parameters_loop.simps [simp del]

definition split_marked_parameters ::
    "(char \<Rightarrow> bool) \<Rightarrow> string \<Rightarrow> opener list \<Rightarrow> string \<Rightarrow> string set option \<Rightarrow> bool
     \<Rightarrow> (string \<times> string) list option" where
  "split_marked_parameters sp block openers closer valid reject =
     parameters_loop sp block openers closer valid reject 0"

section \<open>Declared tools\<close>

text \<open>What a tool of the request can look like to the checks.\<close>

datatype tool_shape = Not_a_dict | No_function_dict | Function_without_name | Named_function string

fun tool_name :: "tool_shape \<Rightarrow> string option" where
  "tool_name (Named_function n) = Some n"
| "tool_name _ = None"

text \<open>\<open>None\<close>: the request is not a dictionary, or its tools are not a list.\<close>

definition declared_tool_names :: "tool_shape list option \<Rightarrow> string set option" where
  "declared_tool_names tools =
     (case tools of None \<Rightarrow> None
      | Some ts \<Rightarrow> let names = set (List.map_filter tool_name ts) in if names = {} then None else Some names)"

end
