(* ===== verification/ToolScanCorrect.thy ===== *)
theory ToolScanCorrect
  imports ToolScan
begin

text \<open>
  Values survive the scan even when they contain markers; calls are declared, in order, disjoint and cut out of the text
  where the markers are; and what the rule for undeclared calls lets through.
\<close>

section \<open>The last occurrence\<close>

lemma at_pos_append: "at_pos (a @ sub @ b) (length a) sub"
  by (simp add: at_pos_def)

lemma at_pos_split: "at_pos s i sub \<Longrightarrow> i + length sub \<le> length s \<Longrightarrow> s = take i s @ sub @ drop (i + length sub) s"
  unfolding at_pos_def by (metis append_take_drop_id drop_drop add.commute)

lemma find_rev_upt:
  "find P (rev [0..<n]) = Some i \<longleftrightarrow> i < n \<and> P i \<and> (\<forall>j. i < j \<and> j < n \<longrightarrow> \<not> P j)"
proof (induction n)
  case (Suc n)
  then show ?case by (auto simp: less_Suc_eq)
qed simp

lemma rfind_Some:
  "rfind sub s = Some i \<longleftrightarrow> i + length sub \<le> length s \<and> at_pos s i sub \<and>
     (\<forall>j. i < j \<and> j + length sub \<le> length s \<longrightarrow> \<not> at_pos s j sub)"
  unfolding rfind_def find_rev_upt by (auto simp: less_diff_conv Suc_le_eq)

lemma rfind_None: "rfind sub s = None \<longleftrightarrow> (\<forall>i. i + length sub \<le> length s \<longrightarrow> \<not> at_pos s i sub)"
  unfolding rfind_def find_None_iff by (auto simp: less_diff_conv Suc_le_eq)

lemma contains_iff: "contains sub s \<longleftrightarrow> (\<exists>a b. s = a @ sub @ b)"
proof
  assume "contains sub s"
  then obtain i where "rfind sub s = Some i" by (auto simp: contains_def)
  then show "\<exists>a b. s = a @ sub @ b" using at_pos_split [of s i sub] by (auto simp: rfind_Some)
next
  assume "\<exists>a b. s = a @ sub @ b"
  then obtain a b where "s = a @ sub @ b" by blast
  then have "at_pos s (length a) sub" "length a + length sub \<le> length s" by (auto simp: at_pos_append)
  then show "contains sub s" by (auto simp: contains_def rfind_None)
qed

section \<open>Segments\<close>

text \<open>What \<open>re.finditer\<close> promises: matches in order, disjoint and inside the text.\<close>

definition opener_law :: "string \<Rightarrow> opener list \<Rightarrow> bool" where
  "opener_law text' openers \<longleftrightarrow>
     (\<forall>i<length openers. op_start (openers ! i) \<le> op_end (openers ! i) \<and> op_end (openers ! i) \<le> length text') \<and>
     (\<forall>j<length openers. \<forall>i<j. op_end (openers ! i) \<le> op_start (openers ! j))"

abbreviation stop_of :: "string \<Rightarrow> opener list \<Rightarrow> nat \<Rightarrow> nat" where
  "stop_of text' openers j \<equiv> (if j < length openers then op_start (openers ! j) else length text')"

lemma stop_of_bounds:
  assumes "opener_law text' openers" "i < length openers" "i < j"
  shows "op_end (openers ! i) \<le> stop_of text' openers j" "stop_of text' openers j \<le> length text'"
  using assms unfolding opener_law_def by (auto intro: order_trans)

lemma slice_at_pos:
  assumes "at_pos (Prelude.slice s a b) k sub" "k + length sub \<le> length (Prelude.slice s a b)"
  shows "at_pos s (a + k) sub"
proof -
  have "length sub \<le> b - a - k" using assms(2) by (simp add: Prelude.slice_def) linarith
  then have "take (length sub) (drop k (take (b - a) (drop a s))) = take (length sub) (drop k (drop a s))"
    by (simp add: drop_take min_absorb1)
  then show ?thesis using assms(1) by (simp add: at_pos_def Prelude.slice_def add.commute)
qed

lemma segment_facts:
  assumes law: "opener_law text' openers" "i < length openers"
    and seg: "segment_by_next_opener sp text' openers i closer valid = Some (body, e)"
  shows "e = op_end (openers ! i) + length body + length closer"
    "e \<le> stop_of text' openers (next_sibling sp text' openers i closer valid)"
    "Prelude.slice text' (op_end (openers ! i)) (op_end (openers ! i) + length body) = body"
    "at_pos text' (op_end (openers ! i) + length body) closer"
proof -
  let ?j = "next_sibling sp text' openers i closer valid"
  let ?w = "Prelude.slice text' (op_end (openers ! i)) (stop_of text' openers ?j)"
  obtain k where k: "rfind closer ?w = Some k" "body = take k ?w" "e = op_end (openers ! i) + k + length closer"
    using seg by (auto simp: segment_by_next_opener_def Let_def split: option.splits)
  note stop = stop_of_bounds [OF law next_sibling_gt [of i sp text' openers closer valid]]
  have kl: "k + length closer \<le> length ?w" "at_pos ?w k closer" using k(1) by (auto simp: rfind_Some)
  have lw: "length ?w = stop_of text' openers ?j - op_end (openers ! i)" using stop by (simp add: Prelude.slice_def)
  have lb: "length body = k" using k(2) kl(1) by simp
  show "e = op_end (openers ! i) + length body + length closer" using k(3) lb by simp
  show "e \<le> stop_of text' openers ?j" using k(3) kl(1) lw stop(1) by linarith
  show "Prelude.slice text' (op_end (openers ! i)) (op_end (openers ! i) + length body) = body"
    using k(2) kl(1) lw lb by (simp add: Prelude.slice_def take_drop min_absorb1 add.commute)
  show "at_pos text' (op_end (openers ! i) + length body) closer"
    using slice_at_pos [OF kl(2,1)] lb by simp
qed

section \<open>Calls\<close>

lemma match_outer_le: "match_outer sp w s = Some k \<Longrightarrow> k \<le> length s"
proof -
  assume "match_outer sp w s = Some k"
  then obtain j where j: "find (\<lambda>k. at_pos s k w) (rev [0..<length (takeWhile sp s) + 1]) = Some j" "k = j + length w"
    by (auto simp: match_outer_def)
  then have "j < length (takeWhile sp s) + 1" "at_pos s j w" unfolding find_rev_upt by blast+
  moreover from this(2) have "length (take (length w) (drop j s)) = length w" by (simp add: at_pos_def)
  ultimately show "k \<le> length s" using length_takeWhile_le [of sp s] j(2) by (cases "w = []") auto
qed

lemma emitted_cases:
  assumes "c \<in> set (emitted_call sp text' openers closer outer valid i)"
  obtains body e k where "segment_by_next_opener sp text' openers i closer valid = Some (body, e)"
    "c = (strip_by sp (op_name (openers ! i)), body, op_start (openers ! i), e + k)"
    "k = 0 \<or> (\<exists>w. match_outer sp w (Prelude.slice text' e (stop_of text' openers (next_sibling sp text' openers i closer valid))) = Some k)"
proof -
  obtain body e where seg: "segment_by_next_opener sp text' openers i closer valid = Some (body, e)"
    using assms by (cases "segment_by_next_opener sp text' openers i closer valid") (auto simp: emitted_call_def)
  show thesis
  proof (cases "outer = None \<or> outer = Some []")
    case True
    then show thesis using assms seg that [OF seg, of 0] by (auto simp: emitted_call_def Let_def)
  next
    case False
    then obtain w where w: "outer = Some w" "w \<noteq> []" by auto
    then obtain k where "match_outer sp w (Prelude.slice text' e (stop_of text' openers (next_sibling sp text' openers i closer valid))) = Some k"
      using assms seg by (cases "match_outer sp w (Prelude.slice text' e (stop_of text' openers (next_sibling sp text' openers i closer valid)))")
        (simp_all add: emitted_call_def Let_def)
    then show thesis using assms seg w that [OF seg, of k] by (auto simp: emitted_call_def Let_def)
  qed
qed

text \<open>A call as it should be: cut out of the text between an opener and a closer, with a declared name.\<close>

definition call_ok ::
    "(char \<Rightarrow> bool) \<Rightarrow> string \<Rightarrow> opener list \<Rightarrow> string \<Rightarrow> string set option \<Rightarrow> string \<times> string \<times> nat \<times> nat \<Rightarrow> bool" where
  "call_ok sp text' openers closer valid call \<longleftrightarrow>
     (case call of (name, body, a, b) \<Rightarrow>
        (case valid of None \<Rightarrow> True | Some names \<Rightarrow> name \<in> names) \<and>
        (\<exists>i<length openers. op_start (openers ! i) = a \<and> strip_by sp (op_name (openers ! i)) = name \<and>
           Prelude.slice text' (op_end (openers ! i)) (op_end (openers ! i) + length body) = body \<and>
           at_pos text' (op_end (openers ! i) + length body) closer \<and>
           op_end (openers ! i) + length body + length closer \<le> b) \<and> b \<le> length text')"

lemma emitted_facts:
  assumes law: "opener_law text' openers" "i < length openers" and d: "declared sp valid (openers ! i)"
    and c: "(name, body, a, b) \<in> set (emitted_call sp text' openers closer outer valid i)"
  shows "call_ok sp text' openers closer valid (name, body, a, b)" "a = op_start (openers ! i)"
    "b \<le> stop_of text' openers (next_sibling sp text' openers i closer valid)"
proof -
  let ?stop = "stop_of text' openers (next_sibling sp text' openers i closer valid)"
  obtain e k where seg: "segment_by_next_opener sp text' openers i closer valid = Some (body, e)"
    and n: "a = op_start (openers ! i)" "name = strip_by sp (op_name (openers ! i))" and k: "b = e + k"
      "k = 0 \<or> (\<exists>w. match_outer sp w (Prelude.slice text' e ?stop) = Some k)"
    by (rule emitted_cases [OF c]) auto
  note f = segment_facts [OF law seg]
  have "length (Prelude.slice text' e ?stop) \<le> ?stop - e" by (simp add: Prelude.slice_def)
  then have b: "e \<le> b" "b \<le> ?stop"
    using k f(2) match_outer_le [of sp _ "Prelude.slice text' e ?stop" k] by fastforce+
  show "a = op_start (openers ! i)" "b \<le> ?stop" by (fact n(1)) (fact b(2))
  have "b \<le> length text'" using b(2) stop_of_bounds(2) [OF law next_sibling_gt [of i sp text' openers closer valid]] by linarith
  then show "call_ok sp text' openers closer valid (name, body, a, b)"
    using f b n d law(2) unfolding call_ok_def declared_def by (auto split: option.splits)
qed

lemma emitted_at_most_one: "length (emitted_call sp text' openers closer outer valid i) \<le> 1"
  by (auto simp: emitted_call_def Let_def split: option.splits)

lemma calls_loop_facts:
  assumes "opener_law text' openers"
  shows "list_all (\<lambda>c. call_ok sp text' openers closer valid c \<and>
        (\<exists>j. i \<le> j \<and> j < length openers \<and> fst (snd (snd c)) = op_start (openers ! j)))
      (fst (calls_loop sp text' openers closer outer valid i)) \<and>
    sorted_wrt (\<lambda>c d. snd (snd (snd c)) \<le> fst (snd (snd d))) (fst (calls_loop sp text' openers closer outer valid i))"
  using assms
proof (induction sp text' openers closer outer valid i rule: calls_loop.induct)
  case (1 sp text' openers closer outer valid i)
  let ?loop = "calls_loop sp text' openers closer outer valid"
  let ?j = "next_sibling sp text' openers i closer valid" and ?e = "emitted_call sp text' openers closer outer valid i"
  consider "\<not> i < length openers" | "i < length openers" "\<not> declared sp valid (openers ! i)"
    | "i < length openers" "declared sp valid (openers ! i)" by blast
  then show ?case
  proof cases
    case 1
    then show ?thesis by (simp add: calls_loop.simps)
  next
    case 2
    then have eq: "fst (?loop i) = fst (?loop (i + 1))"
      by (subst calls_loop.simps) (simp split: prod.split)
    have later: "(\<exists>j. i + 1 \<le> j \<and> j < length openers \<and> fst (snd (snd c)) = op_start (openers ! j)) \<Longrightarrow>
        (\<exists>j. i \<le> j \<and> j < length openers \<and> fst (snd (snd c)) = op_start (openers ! j))" for c :: "string \<times> string \<times> nat \<times> nat"
      by (meson add_leD1)
    have "\<not> \<not> i < length openers" using 2(1) by simp
    note IH = "1.IH"(1) [OF this 2(2) "1.prems"]
    show ?thesis unfolding eq
      by (rule conjI [OF list.pred_mono_strong [OF IH [THEN conjunct1]] IH [THEN conjunct2]]) (use later in blast)
  next
    case 3
    have eq: "fst (?loop i) = ?e @ fst (?loop ?j)"
      using 3 next_sibling_gt [of i sp text' openers closer valid]
      by (subst calls_loop.simps) (simp add: Let_def split: prod.split)
    have IH: "list_all (\<lambda>c. call_ok sp text' openers closer valid c \<and>
        (\<exists>k. ?j \<le> k \<and> k < length openers \<and> fst (snd (snd c)) = op_start (openers ! k))) (fst (?loop ?j))"
      "sorted_wrt (\<lambda>c d. snd (snd (snd c)) \<le> fst (snd (snd d))) (fst (?loop ?j))"
      using "1.IH"(2) [of ?j] 3 "1.prems" next_sibling_gt [of i sp text' openers closer valid] by simp_all
    have e: "call_ok sp text' openers closer valid c" "fst (snd (snd c)) = op_start (openers ! i)"
        "snd (snd (snd c)) \<le> stop_of text' openers ?j" if "c \<in> set ?e" for c
    proof -
      obtain name body a b where c: "c = (name, body, a, b)" by (cases c)
      note f = emitted_facts [OF "1.prems" 3 that [unfolded c]]
      show "call_ok sp text' openers closer valid c" "fst (snd (snd c)) = op_start (openers ! i)"
        "snd (snd (snd c)) \<le> stop_of text' openers ?j" unfolding c using f(1) f(2) f(3) by (simp_all only: fst_conv snd_conv)
    qed
    have later: "stop_of text' openers ?j \<le> op_start (openers ! k)" if "?j \<le> k" "k < length openers" for k
    proof (cases "k = ?j")
      case False
      then have "op_end (openers ! ?j) \<le> op_start (openers ! k)" "op_start (openers ! ?j) \<le> op_end (openers ! ?j)"
        using "1.prems" that unfolding opener_law_def by auto
      then show ?thesis using that by simp
    qed (use that in simp)
    have "list_all (\<lambda>c. call_ok sp text' openers closer valid c \<and>
        (\<exists>k. i \<le> k \<and> k < length openers \<and> fst (snd (snd c)) = op_start (openers ! k))) (fst (?loop i))"
      unfolding eq list_all_append
    proof
      show "list_all (\<lambda>c. call_ok sp text' openers closer valid c \<and>
          (\<exists>k. i \<le> k \<and> k < length openers \<and> fst (snd (snd c)) = op_start (openers ! k))) ?e"
        using e(1,2) 3(1) by (auto simp: list_all_iff)
      have "(\<exists>k. ?j \<le> k \<and> k < length openers \<and> fst (snd (snd c)) = op_start (openers ! k)) \<Longrightarrow>
          (\<exists>k. i \<le> k \<and> k < length openers \<and> fst (snd (snd c)) = op_start (openers ! k))" for c :: "string \<times> string \<times> nat \<times> nat"
        using next_sibling_gt [of i sp text' openers closer valid] by (meson less_imp_le order_trans)
      then show "list_all (\<lambda>c. call_ok sp text' openers closer valid c \<and>
          (\<exists>k. i \<le> k \<and> k < length openers \<and> fst (snd (snd c)) = op_start (openers ! k))) (fst (?loop ?j))"
        by (intro list.pred_mono_strong [OF IH(1)]) blast
    qed
    moreover have "sorted_wrt (\<lambda>c d. snd (snd (snd c)) \<le> fst (snd (snd d))) ?e"
      using emitted_at_most_one [of sp text' openers closer outer valid i] by (cases ?e) auto
    then have "sorted_wrt (\<lambda>c d. snd (snd (snd c)) \<le> fst (snd (snd d))) (fst (?loop i))"
      unfolding eq sorted_wrt_append using IH e(3) later by (force simp: list_all_iff)
    ultimately show ?thesis by blast
  qed
qed

text \<open>
  C20. Every call that is split off has a name that the request declared, if it declared any; its body is the text between a
  match of the opener and a closing marker, its span lies inside the text, and the spans follow each other without
  overlapping, so that all of them can be cut out.
\<close>
theorem calls_declared_and_disjoint:
  assumes "opener_law text' openers"
  shows "list_all (call_ok sp text' openers closer valid) (fst (split_marked_calls sp text' openers closer outer valid)) \<and>
    sorted_wrt (\<lambda>(_, _, _, b) (_, _, a, _). b \<le> a) (fst (split_marked_calls sp text' openers closer outer valid))"
  using calls_loop_facts [OF assms, of sp closer valid 0 outer]
  by (auto simp: split_marked_calls_def list_all_iff case_prod_unfold)

section \<open>Parameters\<close>

text \<open>A parameter as the chat template writes it: the opening marker, a newline, the value, a newline, the closing marker,
  and text up to the next one. The matches of the opener inside the framed value are given relative to its start.\<close>

record written =
  wr_open :: string
  wr_name :: string
  wr_value :: string
  wr_gap :: string
  wr_inner :: "opener list"

definition framed :: "written \<Rightarrow> string" where
  "framed e = CHR 0x0A # wr_value e @ [CHR 0x0A]"

definition wire_of :: "string \<Rightarrow> written \<Rightarrow> string" where
  "wire_of closer e = wr_open e @ framed e @ closer @ wr_gap e"

definition wire :: "string \<Rightarrow> written list \<Rightarrow> string" where
  "wire closer es = concat (map (wire_of closer) es)"

definition shifted :: "nat \<Rightarrow> opener \<Rightarrow> opener" where
  "shifted k o1 = o1\<lparr>op_start := op_start o1 + k, op_end := op_end o1 + k\<rparr>"

fun openers_at :: "string \<Rightarrow> nat \<Rightarrow> written list \<Rightarrow> opener list" where
  "openers_at closer off [] = []"
| "openers_at closer off (e # es) =
     \<lparr>op_start = off, op_end = off + length (wr_open e), op_name = wr_name e\<rparr>
       # map (shifted (off + length (wr_open e))) (wr_inner e)
       @ openers_at closer (off + length (wire_of closer e)) es"

text \<open>The name is declared; the last closing marker is the parameter's own; what looks like an opener in the value is not
  declared or comes before the first closing marker in it.\<close>

definition written_ok :: "(char \<Rightarrow> bool) \<Rightarrow> string set option \<Rightarrow> string \<Rightarrow> written \<Rightarrow> bool" where
  "written_ok sp valid closer e \<longleftrightarrow>
     declared sp valid \<lparr>op_start = 0, op_end = 0, op_name = wr_name e\<rparr> \<and>
     rfind closer (framed e @ closer @ wr_gap e) = Some (length (framed e)) \<and>
     list_all (\<lambda>o1. op_start o1 \<le> length (framed e) \<and>
       (\<not> declared sp valid o1 \<or> \<not> contains closer (take (op_start o1) (framed e)))) (wr_inner e)"

lemma declared_name: "declared sp valid o1 \<longleftrightarrow> declared sp valid \<lparr>op_start = 0, op_end = 0, op_name = op_name o1\<rparr>"
  by (simp add: declared_def split: option.split)

lemma trim_framed: "trim_wrapping_newlines (framed e) = wr_value e"
  by (simp add: trim_wrapping_newlines_def framed_def butlast_append)

lemma sibling_skips:
  assumes "list_all (\<lambda>o1. \<not> declared sp valid o1 \<or> \<not> contains closer (Prelude.slice text' end_i (op_start o1))) inner"
  shows "sibling_from sp text' end_i closer valid j (inner @ os) = sibling_from sp text' end_i closer valid (j + length inner) os"
  using assms by (induction inner arbitrary: j) auto

text \<open>
  What the strict mode refuses: an undeclared opening marker in the first value after a closing marker, or one anywhere in
  a later value, because the closing marker of the first parameter comes before it.
\<close>

definition refused :: "(char \<Rightarrow> bool) \<Rightarrow> string set option \<Rightarrow> string \<Rightarrow> written list \<Rightarrow> bool" where
  "refused sp valid closer es \<longleftrightarrow>
     (case es of [] \<Rightarrow> False
      | e # rest \<Rightarrow>
          list_ex (\<lambda>o1. \<not> declared sp valid o1 \<and> contains closer (take (op_start o1) (framed e))) (wr_inner e) \<or>
          list_ex (\<lambda>f. list_ex (\<lambda>o1. \<not> declared sp valid o1) (wr_inner f)) rest)"

lemma refused_later: "refused sp valid closer es \<Longrightarrow> refused sp valid closer (e # es)"
  by (cases es) (auto simp: refused_def list_ex_iff)

lemma declared_shifted [simp]: "declared sp valid (shifted k o1) \<longleftrightarrow> declared sp valid o1"
  by (simp add: declared_def shifted_def split: option.split)

lemma op_start_shifted [simp]: "op_start (shifted k o1) = op_start o1 + k"
  by (simp add: shifted_def)

lemma written_declared: "written_ok sp valid closer e \<Longrightarrow> declared sp valid \<lparr>op_start = a, op_end = b, op_name = wr_name e\<rparr>"
  by (simp add: written_ok_def declared_def split: option.splits)

lemma later_openers:
  assumes "\<And>b. off \<le> b \<Longrightarrow> contains closer (Prelude.slice text' a b)" and "list_all (written_ok sp valid closer) es"
  shows "list_ex (\<lambda>c. \<not> declared sp valid c \<and> contains closer (Prelude.slice text' a (op_start c))) (openers_at closer off es) \<longleftrightarrow>
    list_ex (\<lambda>f. list_ex (\<lambda>o1. \<not> declared sp valid o1) (wr_inner f)) es"
  using assms
proof (induction es arbitrary: off)
  case (Cons e es)
  have "list_ex (\<lambda>c. \<not> declared sp valid c \<and> contains closer (Prelude.slice text' a (op_start c)))
      (map (shifted (off + length (wr_open e))) (wr_inner e)) \<longleftrightarrow> list_ex (\<lambda>o1. \<not> declared sp valid o1) (wr_inner e)"
    using Cons.prems(1) by (auto simp: list_ex_iff)
  moreover have "list_ex (\<lambda>c. \<not> declared sp valid c \<and> contains closer (Prelude.slice text' a (op_start c)))
      (openers_at closer (off + length (wire_of closer e)) es) \<longleftrightarrow> list_ex (\<lambda>f. list_ex (\<lambda>o1. \<not> declared sp valid o1) (wr_inner f)) es"
    using Cons.IH [of "off + length (wire_of closer e)"] Cons.prems by simp
  ultimately show ?case using Cons.prems(2) by (auto simp: written_declared)
qed simp

lemma undeclared_on_wire:
  assumes "list_all (written_ok sp valid closer) (e # es)"
  shows "undeclared_sibling sp (before @ wire closer (e # es)) (done' @ openers_at closer (length before) (e # es)) closer valid (length done') \<longleftrightarrow>
    refused sp valid closer (e # es)"
proof -
  let ?after = "length before + length (wr_open e)" and ?text = "before @ wire closer (e # es)"
  have text': "?text = before @ wr_open e @ framed e @ closer @ wr_gap e @ wire closer es" by (simp add: wire_def wire_of_def)
  have body: "Prelude.slice ?text ?after (?after + k) = take k (framed e @ closer @ wr_gap e @ wire closer es)" for k
    unfolding text' by (simp add: Prelude.slice_def)
  have later: "contains closer (Prelude.slice ?text ?after b)" if b: "length before + length (wire_of closer e) \<le> b" for b
  proof -
    have "Prelude.slice ?text ?after b = framed e @ closer @ take (b - ?after - length (framed e) - length closer) (wr_gap e @ wire closer es)"
      using body [of "b - ?after"] b by (simp add: wire_of_def del: take_append)  (simp add: take_append)
    then show ?thesis unfolding contains_iff by blast
  qed
  have inner: "Prelude.slice ?text ?after (op_start (shifted ?after o1)) = take (op_start o1) (framed e)" if "o1 \<in> set (wr_inner e)" for o1
  proof -
    have "op_start o1 \<le> length (framed e)" using assms that by (simp add: written_ok_def list_all_iff)
    then show ?thesis using body [of "op_start o1"] by (simp add: add.commute)
  qed
  have ops: "op_end ((done' @ openers_at closer (length before) (e # es)) ! length done') = ?after"
    "drop (length done' + 1) (done' @ openers_at closer (length before) (e # es)) =
       map (shifted ?after) (wr_inner e) @ openers_at closer (length before + length (wire_of closer e)) es"
    by (simp_all add: nth_append)
  have "list_ex (\<lambda>c. \<not> declared sp valid c \<and> contains closer (Prelude.slice ?text ?after (op_start c))) (map (shifted ?after) (wr_inner e)) \<longleftrightarrow>
      list_ex (\<lambda>o1. \<not> declared sp valid o1 \<and> contains closer (take (op_start o1) (framed e))) (wr_inner e)"
    using inner by (auto simp: list_ex_iff)
  moreover have "list_ex (\<lambda>c. \<not> declared sp valid c \<and> contains closer (Prelude.slice ?text ?after (op_start c)))
      (openers_at closer (length before + length (wire_of closer e)) es) \<longleftrightarrow>
      list_ex (\<lambda>f. list_ex (\<lambda>o1. \<not> declared sp valid o1) (wr_inner f)) es"
    using later assms by (intro later_openers) simp_all
  ultimately show ?thesis unfolding undeclared_sibling_def ops list_ex_append by (simp add: refused_def)
qed

lemma parameters_loop_wire:
  "list_all (written_ok sp valid closer) es \<Longrightarrow>
   parameters_loop sp (before @ wire closer es) (done' @ openers_at closer (length before) es) closer valid reject (length done') =
     (if reject \<and> valid \<noteq> None \<and> refused sp valid closer es then None
      else Some (map (\<lambda>e. (strip_by sp (wr_name e), wr_value e)) es))"
proof (induction es arbitrary: before done')
  case Nil
  show ?case by (subst parameters_loop.simps) (simp add: refused_def)
next
  case (Cons e es)
  let ?text = "before @ wire closer (e # es)" and ?ops = "done' @ openers_at closer (length before) (e # es)"
  let ?i = "length done'" and ?after = "length before + length (wr_open e)"
  let ?inner = "map (shifted ?after) (wr_inner e)" and ?before = "before @ wire_of closer e"
  let ?j = "?i + 1 + length ?inner"
  have e: "written_ok sp valid closer e" and es: "list_all (written_ok sp valid closer) es" using Cons.prems by simp_all
  have text': "?text = before @ wr_open e @ (framed e @ closer @ wr_gap e) @ wire closer es"
    by (simp add: wire_def wire_of_def)
  have body: "Prelude.slice ?text ?after (?after + k) = take k ((framed e @ closer @ wr_gap e) @ wire closer es)" for k
    unfolding text' by (simp add: Prelude.slice_def)
  have ops: "?ops ! ?i = \<lparr>op_start = length before, op_end = ?after, op_name = wr_name e\<rparr>"
    "drop (?i + 1) ?ops = ?inner @ openers_at closer (length ?before) es"
    by (simp_all add: nth_append wire_of_def)
  have skip: "list_all (\<lambda>o1. \<not> declared sp valid o1 \<or> \<not> contains closer (Prelude.slice ?text ?after (op_start o1))) ?inner"
  proof -
    have "\<not> declared sp valid (shifted ?after o1) \<or> \<not> contains closer (Prelude.slice ?text ?after (op_start (shifted ?after o1)))"
      if "o1 \<in> set (wr_inner e)" for o1
    proof -
      have o: "op_start o1 \<le> length (framed e)" "\<not> declared sp valid o1 \<or> \<not> contains closer (take (op_start o1) (framed e))"
        using e that by (auto simp: written_ok_def list_all_iff)
      have "Prelude.slice ?text ?after (op_start (shifted ?after o1)) = take (op_start o1) (framed e)"
        using o(1) body [of "op_start o1"] by (simp add: shifted_def add.commute)
      then show ?thesis using o(2) by (simp add: shifted_def declared_def split: option.split)
    qed
    then show ?thesis by (simp add: list_all_iff)
  qed
  have whole: "contains closer (framed e @ closer @ wr_gap e)" unfolding contains_iff by blast
  have sib: "next_sibling sp ?text ?ops ?i closer valid = ?j"
  proof (cases es)
    case Nil
    then show ?thesis unfolding next_sibling_def ops using sibling_skips [OF skip, of "?i + 1" "[]"] by simp
  next
    case (Cons e' es')
    have "declared sp valid \<lparr>op_start = length ?before, op_end = length ?before + length (wr_open e'), op_name = wr_name e'\<rparr>"
      using es unfolding Cons by (cases valid) (simp_all add: written_ok_def declared_def)
    moreover have "Prelude.slice ?text ?after (length ?before) = framed e @ closer @ wr_gap e"
      using body [of "length (framed e @ closer @ wr_gap e)"] by (simp add: wire_of_def add.assoc)
    ultimately have first: "sibling_from sp ?text ?after closer valid j (openers_at closer (length ?before) es) = j" for j
      using whole by (simp add: Cons)
    have "next_sibling sp ?text ?ops ?i closer valid =
        sibling_from sp ?text ?after closer valid (?i + 1) (?inner @ openers_at closer (length ?before) es)"
      unfolding next_sibling_def ops by simp
    also have "\<dots> = sibling_from sp ?text ?after closer valid (?i + 1 + length ?inner) (openers_at closer (length ?before) es)"
      by (rule sibling_skips [OF skip])
    also have "\<dots> = ?i + 1 + length ?inner" by (rule first)
    finally show ?thesis by simp
  qed
  have stop: "stop_of ?text ?ops ?j = ?after + length (framed e @ closer @ wr_gap e)"
    by (cases es) (simp_all add: nth_append wire_def wire_of_def)
  have "Prelude.slice ?text (op_end (?ops ! ?i)) (stop_of ?text ?ops ?j) = framed e @ closer @ wr_gap e"
    unfolding stop ops(1) opener.simps body by simp
  then have seg: "\<exists>x. segment_by_next_opener sp ?text ?ops ?i closer valid = Some (framed e, x)"
    using e unfolding segment_by_next_opener_def sib Let_def by (simp add: written_ok_def del: append_assoc)
  have lt: "?i < length ?ops" by simp
  note un = undeclared_on_wire [OF Cons.prems, of before done']
  show ?case
  proof (cases "reject \<and> valid \<noteq> None \<and> refused sp valid closer (e # es)")
    case True
    then show ?thesis using un by (subst parameters_loop.simps) simp
  next
    case False
    then have "parameters_loop sp ?text ?ops closer valid reject ?i =
        map_option (\<lambda>rest. [(strip_by sp (wr_name e), wr_value e)] @ rest)
          (parameters_loop sp ?text ?ops closer valid reject ?j)"
      using seg lt sib ops(1) un by (subst parameters_loop.simps) (auto simp: trim_framed)
    also have "parameters_loop sp ?text ?ops closer valid reject ?j = Some (map (\<lambda>e. (strip_by sp (wr_name e), wr_value e)) es)"
      using Cons.IH [OF es, of ?before "done' @ (?ops ! ?i) # ?inner"] ops(1) False refused_later [of sp valid closer es e]
      by (auto simp: wire_def)
    finally show ?thesis using False by auto
  qed
qed

text \<open>
  C19. Parameters written by the chat template are read back exactly, values byte for byte, although nothing is escaped: also
  values that contain closing markers, and opening markers of names that are not declared or that no closing marker precedes
  in the value (a declared one after a quoted closing marker would start a parameter of its own). In the strict mode the call
  is refused instead if and only if an undeclared opening marker stands after a closing marker in the first value or anywhere
  in a later value.
\<close>
theorem parameters_read_back:
  assumes "list_all (written_ok sp valid closer) es"
  shows "split_marked_parameters sp (before @ wire closer es) (openers_at closer (length before) es) closer valid reject =
    (if reject \<and> valid \<noteq> None \<and> refused sp valid closer es then None
     else Some (map (\<lambda>e. (strip_by sp (wr_name e), wr_value e)) es))"
  using parameters_loop_wire [OF assms, of before "[]"] by (simp add: split_marked_parameters_def)

section \<open>The payload of a rejected call\<close>

text \<open>
  A call is only rejected up to its next opener: when the opening marker of a declared tool stands in the payload of an
  undeclared call, before any closing marker, where the rule for siblings takes it for literal text, it is split off as a
  call all the same.
\<close>
theorem rejected_payload_is_called:
  assumes "\<not> declared sp valid o1" "declared sp valid o2"
    and "\<not> contains closer (Prelude.slice text' (op_end o1) (op_start o2))"
    and "rfind closer (drop (op_end o2) text') = Some k"
  shows "fst (split_marked_calls sp text' [o1, o2] closer None valid) =
      [(strip_by sp (op_name o2), take k (drop (op_end o2) text'), op_start o2, op_end o2 + k + length closer)] \<and>
    next_sibling sp text' [o1, o2] 0 closer valid = 2"
proof -
  have "next_sibling sp text' [o1, o2] 1 closer valid = 2" by (simp add: next_sibling_def)
  moreover have "Prelude.slice text' (op_end o2) (length text') = drop (op_end o2) text'" by (simp add: Prelude.slice_def)
  ultimately have seg: "segment_by_next_opener sp text' [o1, o2] 1 closer valid =
      Some (take k (drop (op_end o2) text'), op_end o2 + k + length closer)"
    using assms(4) by (simp add: segment_by_next_opener_def)
  have "calls_loop sp text' [o1, o2] closer None valid 2 = ([], [])" by (subst calls_loop.simps) simp
  then have "calls_loop sp text' [o1, o2] closer None valid 1 =
      ([(strip_by sp (op_name o2), take k (drop (op_end o2) text'), op_start o2, op_end o2 + k + length closer)], [])"
    using assms(2) seg \<open>next_sibling sp text' [o1, o2] 1 closer valid = 2\<close>
    by (subst calls_loop.simps) (simp add: emitted_call_def)
  then have "fst (calls_loop sp text' [o1, o2] closer None valid 0) =
      [(strip_by sp (op_name o2), take k (drop (op_end o2) text'), op_start o2, op_end o2 + k + length closer)]"
    using assms(1) by (subst calls_loop.simps) simp
  moreover have "next_sibling sp text' [o1, o2] 0 closer valid = 2"
    using assms(2,3) by (simp add: next_sibling_def)
  ultimately show ?thesis by (simp add: split_marked_calls_def)
qed

section \<open>Witnesses\<close>

definition is_blank :: "char \<Rightarrow> bool" where
  "is_blank c \<longleftrightarrow> c \<in> {CHR 0x20, CHR 0x0A, CHR 0x0D, CHR 0x09}"

text \<open>\<open><f=rm>see <f=ls>x</f></f>\<close> in a request that only declares \<open>ls\<close>.\<close>

theorem rejected_payload_is_called_witness:
  "fst (split_marked_calls is_blank ''<f=rm>see <f=ls>x</f></f>'' [\<lparr>op_start = 0, op_end = 6, op_name = ''rm''\<rparr>, \<lparr>op_start = 10, op_end = 16, op_name = ''ls''\<rparr>]
     ''</f>'' None (Some {''ls''})) = [(''ls'', ''x</f>'', 10, 25)]"
proof -
  let ?o1 = "\<lparr>op_start = 0, op_end = 6, op_name = ''rm''\<rparr>" and ?o2 = "\<lparr>op_start = 10, op_end = 16, op_name = ''ls''\<rparr>"
  let ?t = "''<f=rm>see <f=ls>x</f></f>''"
  have "\<not> declared is_blank (Some {''ls''}) ?o1" "declared is_blank (Some {''ls''}) ?o2" by code_simp+
  moreover have "\<not> contains ''</f>'' (Prelude.slice ?t (op_end ?o1) (op_start ?o2))" by code_simp
  moreover have "rfind ''</f>'' (drop (op_end ?o2) ?t) = Some 5" by code_simp
  moreover have "strip_by is_blank ''ls'' = ''ls''" by code_simp
  ultimately show ?thesis using rejected_payload_is_called [of is_blank "Some {''ls''}" ?o1 ?o2 "''</f>''" ?t 5] by simp
qed

text \<open>Two calls of one tool, with prose between them.\<close>

theorem calls_declared_and_disjoint_witness:
  "list_all (call_ok is_blank ''<f=a>1</f> and <f=a>2</f>'' [\<lparr>op_start = 0, op_end = 5, op_name = ''a''\<rparr>, \<lparr>op_start = 15, op_end = 20, op_name = ''a''\<rparr>]
     ''</f>'' (Some {''a''})) [(''a'', ''1'', 0, 10), (''a'', ''2'', 15, 25)]"
proof -
  let ?t = "''<f=a>1</f> and <f=a>2</f>''"
  let ?os = "[\<lparr>op_start = 0, op_end = 5, op_name = ''a''\<rparr>, \<lparr>op_start = 15, op_end = 20, op_name = ''a''\<rparr>]"
  have "opener_law ?t ?os" by (simp add: opener_law_def less_Suc_eq numeral_2_eq_2)
  moreover have "fst (split_marked_calls is_blank ?t ?os ''</f>'' None (Some {''a''})) = [(''a'', ''1'', 0, 10), (''a'', ''2'', 15, 25)]"
    by code_simp
  ultimately show ?thesis using calls_declared_and_disjoint [of ?t ?os is_blank "''</f>''" "Some {''a''}" None] by simp
qed

text \<open>A value that quotes the format: \<open>print("</p><p=evil>")\<close>.\<close>

definition tricky :: written where
  "tricky = \<lparr>wr_open = ''<p=code>'', wr_name = ''code'', wr_value = ''print(</p><p=evil>)'', wr_gap = [CHR 0x0A],
     wr_inner = [\<lparr>op_start = 11, op_end = 19, op_name = ''evil''\<rparr>]\<rparr>"

text \<open>The same value without the closing marker, which the strict mode reads in the first place and refuses in the second.\<close>

definition harmless :: written where
  "harmless = \<lparr>wr_open = ''<p=code>'', wr_name = ''code'', wr_value = ''print(<p=evil>)'', wr_gap = [CHR 0x0A],
     wr_inner = [\<lparr>op_start = 7, op_end = 15, op_name = ''evil''\<rparr>]\<rparr>"

theorem parameters_read_back_witness:
  "split_marked_parameters is_blank (wire ''</p>'' [tricky, tricky]) (openers_at ''</p>'' 0 [tricky, tricky]) ''</p>'' (Some {''code''}) False =
     Some [(''code'', ''print(</p><p=evil>)''), (''code'', ''print(</p><p=evil>)'')] \<and>
   split_marked_parameters is_blank (wire ''</p>'' [tricky]) (openers_at ''</p>'' 0 [tricky]) ''</p>'' (Some {''code''}) True = None \<and>
   split_marked_parameters is_blank (wire ''</p>'' [harmless]) (openers_at ''</p>'' 0 [harmless]) ''</p>'' (Some {''code''}) True =
     Some [(''code'', ''print(<p=evil>)'')] \<and>
   split_marked_parameters is_blank (wire ''</p>'' [harmless, harmless]) (openers_at ''</p>'' 0 [harmless, harmless]) ''</p>'' (Some {''code''}) True = None"
proof -
  have ok: "list_all (written_ok is_blank (Some {''code''}) ''</p>'') [tricky, tricky]"
    "list_all (written_ok is_blank (Some {''code''}) ''</p>'') [tricky]"
    "list_all (written_ok is_blank (Some {''code''}) ''</p>'') [harmless]"
    "list_all (written_ok is_blank (Some {''code''}) ''</p>'') [harmless, harmless]" by code_simp+
  have ref: "refused is_blank (Some {''code''}) ''</p>'' [tricky]" "\<not> refused is_blank (Some {''code''}) ''</p>'' [harmless]"
    "refused is_blank (Some {''code''}) ''</p>'' [harmless, harmless]" by code_simp+
  have "strip_by is_blank ''code'' = ''code''" by code_simp
  then show ?thesis
    using parameters_read_back [OF ok(1), of "[]" False] parameters_read_back [OF ok(2), of "[]" True]
      parameters_read_back [OF ok(3), of "[]" True] parameters_read_back [OF ok(4), of "[]" True] ref
    by (simp add: tricky_def harmless_def)
qed

end
