(* ===== verification/Spec2Isabelle.thy ===== *)
theory Spec2Isabelle
  imports PagedPressure RadixCorrect PrefixTrieCorrect BlockCacheCorrect ResponseCache OutputCollector PromptTokenReuse RepetitionGuard
    SuffixBackoff MemCorrect TokensBin RouterClaims HarmonyRouter MediaCacheCorrect
    BodyDepthCorrect PFlashCorrect ToolScanCorrect
begin

text \<open>
  \<^bold>\<open>Rapid-MLX: caches, decoding control and request bookkeeping.\<close>

  Rapid-MLX is a local inference server for large language models. A request's prompt is tokenized, a prefix cache is
  asked for the KV state of the longest known prefix, the scheduler decodes the rest in batches through mlx-lm, and the
  tokens flow through a router that tells content from reasoning and tool calls to the client's collector; on the way out the request's KV state is stored for the
  next one. This library models the program's own logic along that path (everything is under \<open>src/rapid_mlx/\<close>): the
  caches and their bookkeeping, the speculative decoding loop that the scheduler wraps around mlx-lm, and the small
  engines around them. Operations are functions on records of the state, in the order and with the guards of the code;
  exceptions are values of \<open>py_error\<close> in a sum type; an in-place mutation returns the new state.

  \<^bold>\<open>The parts and their theories.\<close>
  \<^item> \<open>paged_cache.py\<close>, blocks of KV state under a pool. \<open>FreeQueue\<close>: \<open>CacheBlock\<close> and the doubly linked free list at
    pointer level, with its sentinels and its LRU and LFU victims. \<open>BlockHash\<close>, \<open>BlockHashMap\<close>: block identities and
    the map from a chain hash to one block or several. \<open>PagedCache\<close>: every public method of \<open>PagedCacheManager\<close>, on a
    \<open>manager\<close> record that extends the pool. \<open>FreeQueueProofs\<close> shows that the pointers represent a list;
    \<open>PagedInv\<close>, \<open>PagedCorrect\<close> the manager's invariant over every run of calls; \<open>PagedRefs\<close>, \<open>BlockOwners\<close> the
    reference counts; \<open>PagedPrefix\<close> the two prefix indexes; \<open>PagedEvict\<close>, \<open>PagedPressure\<close> eviction and resets.
  \<^item> \<open>prefix_cache.py\<close>. \<open>PrefixTrie\<close>: \<open>PrefixCacheManager\<close>, a tree of token prefixes with an LRU order;
    \<open>PrefixTrieCorrect\<close> its promises. \<open>BlockCache\<close>, \<open>BlockStore\<close>, \<open>BlockCommit\<close>, \<open>BlockRun\<close>:
    \<open>BlockAwarePrefixCache\<close>, which stores a request's state block by block in the paged manager and fetches it back
    under a hit guard; \<open>BlockTensors\<close>, \<open>BlockContent\<close>, \<open>BlockCacheInv\<close>, \<open>BlockCacheCorrect\<close> follow the rows of the
    tensors through every operation.
  \<^item> \<open>runtime/radix_index.py\<close>. \<open>RadixIndex\<close>, \<open>RadixCorrect\<close>: the refcounted radix index of token sequences, against
    the finite set it stands for.
  \<^item> \<open>memory_cache.py\<close>, the server's default prefix cache. \<open>HybridCheckpoints\<close>: the layers of a prompt cache and the
    snapshots of recurrent layers (\<open>hybrid_state_checkpoints.py\<close>). \<open>MemLayers\<close>: which layers can be rewound, the rewind,
    the snap to a checkpoint, the accounting of bytes; \<open>MemRewind\<close> what they do to the tokens a layer holds. \<open>MemCache\<close>:
    \<open>MemoryAwarePrefixCache\<close> in memory, with \<open>fetch\<close>, \<open>probe\<close>, the two locked sections of \<open>store\<close>, eviction and the
    ledger. \<open>TokensBin\<close>: the file format of an entry's tokens, writer and reader on bytes. \<open>LexPrefix\<close>, \<open>MemLookup\<close>: bisection on sorted token sequences finds the longest prefixes and extensions;
    \<open>MemCacheInv\<close>, \<open>MemEvict\<close>, \<open>MemFetch\<close>, \<open>MemStore\<close>: one lemma per operation; \<open>MemReach\<close>, \<open>MemCorrect\<close>: the
    reachable states and the properties.
  \<^item> \<open>response_cache.py\<close> with the request epochs of the server: \<open>ResponseCache\<close>. \<open>LruOrder\<close> is the interface of a
    least-recently-used order that it, \<open>PrefixCacheManager\<close> and the memory-aware cache provide.
  \<^item> \<open>output_collector.py\<close> with the outputs of \<open>request.py\<close>: \<open>OutputCollector\<close>, asynchronous consumers as interleaved
    steps of a collector pool.
  \<^item> \<open>prompt_token_reuse.py\<close>: \<open>PromptTokenReuse\<close>. \<open>repetition_guard.py\<close>: \<open>RepetitionGuard\<close>.
  \<^item> \<open>cache_rollback.py\<close>: \<open>CacheRollback\<close>, the transactional trim of composite caches over a heap of cache objects and
    the arrays they refer to, with its shallow checkpoints.
  \<^item> \<open>speculative/suffix_decoding.py\<close> and \<open>suffix_counter.py\<close>: \<open>SuffixDecoding\<close>, \<open>SuffixCounter\<close>. The step, next and
    remove that \<open>scheduler.py\<close> installs for it (\<open>_install_suffix_decoding\<close>): \<open>SuffixVerify\<close>, on a \<open>suffix_run\<close> record
    that holds the closure's variables and the generation batch; \<open>SuffixVerifyCorrect\<close>, \<open>SuffixLossless\<close> relate it to
    plain greedy decoding, \<open>SuffixBackoff\<close> bounds its control state and reconciles its books.
  \<^item> \<open>output_router.py\<close>: \<open>OutputRouter\<close>, the token-level state machine on a \<open>router\<close> record, with its maps of special
    tokens. \<open>RouterCorrect\<close>: \<open>route_ahead\<close>, the same routing with the whole output at hand; \<open>RouterFormats\<close>: transcripts
    in the formats of Gemma 4 and Harmony and what they should be sorted into. \<open>output_router_harmony.py\<close>:
    \<open>HarmonyRouter\<close>, over openai-harmony's parser.
  \<^item> \<open>engine/batched.py\<close>, the two methods that drive a router: \<open>RouterStream\<close>, the generator as a function from the
    engine's outputs to what it yields and the exception that ends it; \<open>RouterStreamCorrect\<close>, \<open>RouterClaims\<close> relate
    streaming to the routing of a finished token list.
  \<^item> \<open>mllm_cache.py\<close>, \<open>vision_embedding_cache.py\<close>: \<open>MediaCache\<close>, the caches of multimodal requests as ordered
    dictionaries; \<open>MediaCacheCorrect\<close> their reachable states, ledger and lookups.
  \<^item> \<open>utils/json_depth.py\<close>, \<open>middleware/body_depth.py\<close>: \<open>BodyDepth\<close>, the guard of the HTTP server against deeply
    nested bodies: the walk over a parsed value, the scan of the bytes, the ASGI middleware as a function of the client's
    messages and the two \<open>receive\<close> functions it hands on; \<open>BodyDepthCorrect\<close> relates them to the depth of JSON texts.
  \<^item> \<open>pflash.py\<close>: \<open>PFlash\<close>, the lossy compression of long prompts, scored and selected block by block;
    \<open>PFlashCorrect\<close> what of a prompt it keeps.
  \<^item> \<open>tool_call_scan.py\<close>: \<open>ToolScan\<close>, how calls and their parameters are cut out of text in the formats without
    escaping; \<open>ToolScanCorrect\<close> spans, declared names and the reading of what the chat template writes.

  \<^bold>\<open>How they interact.\<close> The block-aware cache calls the paged manager for every block it allocates, shares, copies or
  releases, so its record contains the manager's and its invariant extends the manager's. The verify loop drafts with
  the suffix drafter, checks and rolls the caches back through \<open>CacheRollback\<close> and reports to the suffix counter; its
  theorems compose the lemmas of all three. The memory-aware cache keeps its keys in the radix index as well as in its
  sorted list, and its invariant contains that the two agree; its rewinds restore recurrent layers from their checkpoints.
  The routed stream is a client of either router and composes the router's lemmas with its own.

  \<^bold>\<open>Interfaces.\<close> A locale states what a component promises its clients, and is interpreted on the model's operations:
  \<open>free_queue\<close> and \<open>lfu_queue\<close> (the free list), \<open>block_multimap\<close> (the hash map), \<open>prefix_index\<close> (the radix index),
  \<open>lru_order\<close> (the tree's order, the response store and the memory-aware cache), \<open>token_router\<close> (what the routed stream
  relies on of a router).

  \<^bold>\<open>Groups of results.\<close> State invariants over every reachable state of each stateful component; functional
  behaviour of each operation on all its branches; soundness of hits (what a cache returns is the state of the prefix
  it took off the request); round trips (fork and delete, store and fetch, save and load, put and take); equivalence
  of an optimised routine with its specification (binary search, incremental index, spliced tokenization, speculative
  with plain decoding, token-by-token with whole-sequence routing, streamed with non-streamed outputs, a scan of bytes
  with the depth of the parsed document); what goes wrong where the code has a defect (leaked free blocks, over-counted paths, missed
  prefixes, published lookahead, trims in place that a rollback does not undo, layers reused without a rewind, shifted texts, bytes never given back, deep bodies that
  pass the guard).

  \<^bold>\<open>Bounds and fuel.\<close> The pointer loops of the free list carry fuel \<open>num_free_blocks + 1\<close>, which the list's
  representation shows to be enough; the run of the block chain uses structural recursion over the tokens. All other
  loops terminate by a measure (the loop over \<open>finalize\<close> by what the router still buffers, the walk over a parsed value by the
  sizes on its stack, the scan of tool calls by the openers left) or by the structure of the data; runs of the verify loop are counted in calls of \<open>next\<close>.
  Python integers are \<open>int\<close> or \<open>nat\<close>; the drafter's confidence quotient is rounded to 53 bits as IEEE double
  division does, and the floating-point operations of the compressor's scores are parameters, so that its results hold
  whatever they round to.

  \<^bold>\<open>What is assumed of other packages.\<close> sha256, tokenizers, openai-harmony's parser, tensors and model layers are parameters. Where a result
  needs more, the law is a named hypothesis: \<open>kv_laws\<close> (slicing and concatenating MLX arrays), the absence of the
  collisions that a lookup meets, \<open>rollback_law\<close> (caches share no state, and a checkpoint gives back the state captured),
  \<open>env_laws\<close> (an admitted trim takes off exactly the tokens asked for, a forward appends its tokens and predicts greedily,
  or raises having consumed nothing), \<open>extract_law\<close>, \<open>next_law\<close> (mlx-lm's own \<open>next\<close> calls the step once and accounts
  its token) and \<open>matcher_law\<close> (the stop matcher returns), \<open>trim_laws\<close>, \<open>restore_law\<close> and \<open>can_trim_laws\<close> (a cache class's own \<open>trim\<close> takes off what it
  reports, a checkpoint is the layer's state at its position, a trim announced as possible succeeds), \<open>accounting_laws\<close>
  (sizes are not negative), \<open>codec_law\<close> (decompression keeps the tokens a cache stands for),
  \<open>parser_laws\<close> (a token that the Harmony parser accepts closes at most one message), \<open>sizes_nonneg\<close> (the bytes of
  tensors), \<open>loads_law\<close> (a value that \<open>json.loads\<close> returns for a body in UTF-8 is that of a JSON text), \<open>opener_law\<close>
  (the matches of \<open>re.finditer\<close> are in order, disjoint and inside the text). Each has a concrete instance on which the results are evaluated.

  \<^bold>\<open>Not modelled.\<close> The rest of the scheduler and engines (queues and batching around mlx-lm's generator, whose state is
  not in the repository), the memory-aware cache's directory of files on disk apart from the token files, its detection of
  the machine's memory and its quantization, the choice between the two routers at run time, the parsers of model-specific
  tool and reasoning formats around the shared marker scan (regular expressions and JSON of Python's libraries), model-based speculative decoding. MLX kernels and model definitions (floating point on the GPU), the rest of the HTTP layer, the
  command line, downloads, media pipelines and the desktop application: I/O and libraries that are not part of the
  repository. Within the modelled parts: logging, display-only ratios, wall-clock times where they are never compared,
  and log probabilities.
\<close>

end
